(* ===== verification/Prelude.thy ===== *)
theory Prelude
  imports Complex_Main "HOL-Library.List_Lexorder" "HOL-Library.Char_ord" "HOL-Library.Multiset"
    "HOL-Library.Product_Lexorder"
begin

text \<open>
  What every component of the development shares: results with errors as values, SQL tables as
  lists of rows, Python dictionaries built from lists, the decimal rendering of integers that the
  code's f-strings use, and the collections of facts the component proofs refer to.
\<close>

named_theorems table_simps \<open>reading and writing a table of rows\<close>
named_theorems result_elims \<open>equations that open up a sequenced result\<close>

subsection \<open>Results\<close>

text \<open>
  A raise is a value \<open>Inl e\<close>. \<open>rbind\<close> sequences two steps: the first raise ends the sequence,
  as an exception ends a Python body.
\<close>

definition rbind :: "'e + 'a \<Rightarrow> ('a \<Rightarrow> 'e + 'b) \<Rightarrow> 'e + 'b" where
  "rbind m f = (case m of Inl e \<Rightarrow> Inl e | Inr x \<Rightarrow> f x)"

definition guard_err :: "bool \<Rightarrow> 'e \<Rightarrow> 'e + unit" where
  "guard_err c e = (if c then Inr () else Inl e)"

lemma rbind_simps [simp]:
  "rbind (Inl e) f = Inl e"
  "rbind (Inr x) f = f x"
  by (simp_all add: rbind_def)

lemma rbind_Inr [result_elims]:
  "rbind m f = Inr y \<longleftrightarrow> (\<exists>x. m = Inr x \<and> f x = Inr y)"
  by (cases m) auto

lemma rbind_Inl [result_elims]:
  "rbind m f = Inl e \<longleftrightarrow> m = Inl e \<or> (\<exists>x. m = Inr x \<and> f x = Inl e)"
  by (cases m) auto

lemma guard_err_Inr [result_elims]: "guard_err c e = Inr u \<longleftrightarrow> c"
  by (simp add: guard_err_def)

lemma guard_err_Inl [result_elims]: "guard_err c e = Inl d \<longleftrightarrow> \<not> c \<and> d = e"
  by (auto simp: guard_err_def)

lemma guard_err_simps [simp]:
  "guard_err True e = Inr ()"
  "guard_err False e = Inl e"
  by (simp_all add: guard_err_def)

text \<open>Apply a step to every element of a list, stopping at the first raise.\<close>

fun rmap :: "('a \<Rightarrow> 'e + 'b) \<Rightarrow> 'a list \<Rightarrow> 'e + 'b list" where
  "rmap f [] = Inr []"
| "rmap f (x # xs) = rbind (f x) (\<lambda>y. rbind (rmap f xs) (\<lambda>ys. Inr (y # ys)))"

fun rfold :: "('a \<Rightarrow> 's \<Rightarrow> 'e + 's) \<Rightarrow> 'a list \<Rightarrow> 's \<Rightarrow> 'e + 's" where
  "rfold f [] s = Inr s"
| "rfold f (x # xs) s = rbind (f x s) (rfold f xs)"

lemma rmap_Inr_iff:
  "rmap f xs = Inr ys \<longleftrightarrow> list_all2 (\<lambda>x y. f x = Inr y) xs ys"
  by (induction xs arbitrary: ys) (auto simp: result_elims list_all2_Cons1)

lemma rmap_Inl_iff: "rmap f xs = Inl e \<Longrightarrow> \<exists>x \<in> set xs. f x = Inl e"
  by (induction xs) (auto simp: result_elims)

lemma rmap_total: "(\<And>x. x \<in> set xs \<Longrightarrow> \<exists>y. f x = Inr y) \<Longrightarrow> \<exists>ys. rmap f xs = Inr ys"
proof (induction xs)
  case (Cons x xs)
  from Cons.prems [of x] Cons.IH Cons.prems show ?case by fastforce
qed simp

lemma rmap_append:
  "rmap f (xs @ ys) = rbind (rmap f xs) (\<lambda>us. rbind (rmap f ys) (\<lambda>vs. Inr (us @ vs)))"
  by (induction xs) (auto simp: rbind_def split: sum.splits)

lemma rfold_invariant:
  assumes "\<And>x s s'. x \<in> set xs \<Longrightarrow> P s \<Longrightarrow> f x s = Inr s' \<Longrightarrow> P s'"
    and "P s" and "rfold f xs s = Inr s'"
  shows "P s'"
  using assms by (induction xs arbitrary: s) (auto simp: result_elims)

subsection \<open>Tables of rows\<close>

text \<open>
  A table is the list of its rows in insertion order. \<open>find_row\<close> is a SELECT by primary key,
  \<open>update_rows\<close> an UPDATE with a WHERE clause, \<open>insert_row\<close> an INSERT that fails on a duplicate
  primary key, \<open>insert_ignore\<close> an INSERT OR IGNORE.
\<close>

definition find_row :: "('r \<Rightarrow> 'k) \<Rightarrow> 'k \<Rightarrow> 'r list \<Rightarrow> 'r option" where
  "find_row key k t = List.find (\<lambda>r. key r = k) t"

definition update_rows :: "('r \<Rightarrow> bool) \<Rightarrow> ('r \<Rightarrow> 'r) \<Rightarrow> 'r list \<Rightarrow> 'r list" where
  "update_rows p f t = map (\<lambda>r. if p r then f r else r) t"

definition has_key :: "('r \<Rightarrow> 'k) \<Rightarrow> 'k \<Rightarrow> 'r list \<Rightarrow> bool" where
  "has_key key k t \<longleftrightarrow> list_ex (\<lambda>r. key r = k) t"

definition insert_row :: "('r \<Rightarrow> 'k) \<Rightarrow> 'r \<Rightarrow> 'r list \<Rightarrow> 'r list option" where
  "insert_row key r t = (if has_key key (key r) t then None else Some (t @ [r]))"

definition insert_ignore :: "('r \<Rightarrow> 'k) \<Rightarrow> 'r \<Rightarrow> 'r list \<Rightarrow> 'r list" where
  "insert_ignore key r t = (if has_key key (key r) t then t else t @ [r])"

definition keyed :: "('r \<Rightarrow> 'k) \<Rightarrow> 'r list \<Rightarrow> bool" where
  "keyed key t \<longleftrightarrow> distinct (map key t)"

lemma find_row_Nil [simp]: "find_row key k [] = None"
  by (simp add: find_row_def)

lemma find_row_Cons [simp]:
  "find_row key k (r # t) = (if key r = k then Some r else find_row key k t)"
  by (simp add: find_row_def)

lemma find_row_SomeD: "find_row key k t = Some r \<Longrightarrow> r \<in> set t \<and> key r = k"
  by (auto simp: find_row_def find_Some_iff)

lemma find_row_None: "find_row key k t = None \<longleftrightarrow> k \<notin> key ` set t"
  by (auto simp: find_row_def find_None_iff)

lemma has_key_iff: "has_key key k t \<longleftrightarrow> k \<in> key ` set t"
  by (auto simp: has_key_def list_ex_iff)

lemma has_key_find: "has_key key k t \<longleftrightarrow> find_row key k t \<noteq> None"
  by (auto simp: has_key_iff find_row_None)

lemma find_row_append [table_simps]:
  "find_row key k (t @ u) = (case find_row key k t of None \<Rightarrow> find_row key k u | Some r \<Rightarrow> Some r)"
  by (induction t) auto

lemma find_row_keyed:
  assumes "keyed key t" and "r \<in> set t"
  shows "find_row key (key r) t = Some r"
  using assms by (induction t) (auto simp: keyed_def image_iff)

lemma filter_keyed:
  assumes "keyed key t" and "r \<in> set t"
  shows "filter (\<lambda>x. key x = key r \<and> P x) t = (if P r then [r] else [])"
  using assms
proof (induction t)
  case (Cons a t)
  then have "x = y" if "x \<in> set (a # t)" "y \<in> set (a # t)" "key x = key y" for x y
    using that unfolding keyed_def distinct_map by (meson inj_onD)
  with Cons show ?case by (cases "key a = key r") (auto simp: keyed_def filter_empty_conv)
qed simp

lemma find_keyed:
  assumes "keyed key t" and "r \<in> set t" and "P r"
  shows "List.find (\<lambda>x. key x = key r \<and> P x) t = Some r"
proof -
  have "List.find Q t = Some r" if "filter Q t = [r]" for Q
    using that by (induction t) (auto split: if_splits)
  then show ?thesis using filter_keyed [OF assms(1,2), of P] assms(3) by simp
qed

lemma length_le_one:
  assumes "distinct xs" and "\<And>x y. x \<in> set xs \<Longrightarrow> y \<in> set xs \<Longrightarrow> x = y"
  shows "length xs \<le> 1"
proof (cases xs)
  case (Cons a ys)
  have "ys = []"
  proof (cases ys)
    case (Cons b zs)
    then have "a = b" using assms(2) [of a b] \<open>xs = a # ys\<close> by simp
    with assms(1) Cons \<open>xs = a # ys\<close> show ?thesis by simp
  qed simp
  with Cons show ?thesis by simp
qed simp

lemma find_row_update [table_simps]:
  assumes "\<And>r. key (f r) = key r"
  shows "find_row key k (update_rows p f t)
    = map_option (\<lambda>r. if p r then f r else r) (find_row key k t)"
  using assms by (induction t) (auto simp: update_rows_def)

lemma find_row_update_one:
  assumes "\<And>r. key (f r) = key r"
  shows "find_row key k (update_rows (\<lambda>r. key r = j) f t)
    = (if k = j then map_option f (find_row key k t) else find_row key k t)"
  using assms by (induction t) (auto simp: update_rows_def)

lemma map_key_update [table_simps]:
  assumes "\<And>r. key (f r) = key r"
  shows "map key (update_rows p f t) = map key t"
  using assms by (simp add: update_rows_def)

lemma keyed_update [intro]:
  assumes "\<And>r. key (f r) = key r" and "keyed key t"
  shows "keyed key (update_rows p f t)"
  using assms by (simp add: keyed_def map_key_update)

lemma keyed_append [table_simps]:
  "keyed key (t @ [r]) \<longleftrightarrow> keyed key t \<and> \<not> has_key key (key r) t"
  by (auto simp: keyed_def has_key_iff)

lemma set_update_rows [table_simps]:
  "set (update_rows p f t) = (\<lambda>r. if p r then f r else r) ` set t"
  by (simp add: update_rows_def)

lemma keys_update [simp]:
  assumes "\<And>r. key (f r) = key r"
  shows "key ` set (update_rows p f t) = key ` set t"
  using map_key_update [of key f, OF assms] by (metis list.set_map)

lemma length_update_rows [simp]: "length (update_rows p f t) = length t"
  by (simp add: update_rows_def)

lemma update_rows_append [table_simps]:
  "update_rows p f (t @ u) = update_rows p f t @ update_rows p f u"
  by (simp add: update_rows_def)

lemma update_rows_none [table_simps]:
  "(\<And>r. r \<in> set t \<Longrightarrow> \<not> p r) \<Longrightarrow> update_rows p f t = t"
  by (simp add: update_rows_def map_idI)

lemma update_rows_Nil [simp]: "update_rows p f [] = []"
  by (simp add: update_rows_def)

lemma update_rows_Cons [simp]:
  "update_rows p f (r # t) = (if p r then f r else r) # update_rows p f t"
  by (simp add: update_rows_def)

subsection \<open>Dictionaries\<close>

text \<open>
  A Python dict iterates in the order its keys were first inserted; an association list with
  distinct keys keeps that order. \<open>dict_put\<close> is \<open>d[k] = v\<close>, \<open>dict_of\<close> a dict
  comprehension over pairs, \<open>setdefault\<close> keeps a value that is already there.
\<close>

fun dict_put :: "'k \<Rightarrow> 'v \<Rightarrow> ('k \<times> 'v) list \<Rightarrow> ('k \<times> 'v) list" where
  "dict_put k v [] = [(k, v)]"
| "dict_put k v ((a, b) # d) = (if a = k then (a, v) # d else (a, b) # dict_put k v d)"

definition dict_of :: "('k \<times> 'v) list \<Rightarrow> ('k \<times> 'v) list" where
  "dict_of kvs = foldl (\<lambda>d (k, v). dict_put k v d) [] kvs"

definition dict_default :: "'k \<Rightarrow> 'v \<Rightarrow> ('k \<times> 'v) list \<Rightarrow> ('k \<times> 'v) list" where
  "dict_default k v d = (if map_of d k = None then d @ [(k, v)] else d)"

lemma map_of_dict_put [simp]: "map_of (dict_put k v d) = (map_of d)(k \<mapsto> v)"
  by (induction k v d rule: dict_put.induct) auto

lemma keys_dict_put:
  "map fst (dict_put k v d) = (if k \<in> fst ` set d then map fst d else map fst d @ [k])"
  by (induction k v d rule: dict_put.induct) auto

lemma distinct_dict_put [simp]: "distinct (map fst d) \<Longrightarrow> distinct (map fst (dict_put k v d))"
  by (auto simp: keys_dict_put)

lemma map_of_foldl_dict_put:
  "map_of (foldl (\<lambda>d (k, v). dict_put k v d) d kvs) = map_of d ++ map_of (rev kvs)"
  by (induction kvs arbitrary: d) (auto simp: map_add_assoc simp flip: map_add_upd_left)

lemma map_of_dict_of: "map_of (dict_of kvs) = map_of (rev kvs)"
  by (simp add: dict_of_def map_of_foldl_dict_put)

lemma distinct_foldl_dict_put:
  "distinct (map fst d) \<Longrightarrow> distinct (map fst (foldl (\<lambda>d (k, v). dict_put k v d) d kvs))"
  by (induction kvs arbitrary: d) auto

lemma distinct_dict_of [simp]: "distinct (map fst (dict_of kvs))"
  by (simp add: dict_of_def distinct_foldl_dict_put)

lemma dict_of_distinct:
  "distinct (map fst kvs) \<Longrightarrow> dict_of kvs = kvs"
proof (induction kvs rule: rev_induct)
  case (snoc kv kvs)
  have "dict_put k v d = d @ [(k, v)]" if "k \<notin> fst ` set d" for k :: 'a and v :: 'b and d
    using that by (induction k v d rule: dict_put.induct) auto
  with snoc show ?case by (cases kv) (auto simp: dict_of_def)
qed (simp add: dict_of_def)

text \<open>Keeping the first occurrence of every element, in order: \<open>list(dict.fromkeys(xs))\<close>.\<close>

fun dedup_from :: "'a list \<Rightarrow> 'a list \<Rightarrow> 'a list" where
  "dedup_from seen [] = []"
| "dedup_from seen (x # xs) =
     (if x \<in> set seen then dedup_from seen xs else x # dedup_from (x # seen) xs)"

definition dedup :: "'a list \<Rightarrow> 'a list" where
  "dedup = dedup_from []"

lemma set_dedup_from: "set (dedup_from seen xs) = set xs - set seen"
  by (induction seen xs rule: dedup_from.induct) auto

lemma distinct_dedup_from [simp]: "distinct (dedup_from seen xs)"
  by (induction seen xs rule: dedup_from.induct) (auto simp: set_dedup_from)

lemma set_dedup [simp]: "set (dedup xs) = set xs"
  by (simp add: dedup_def set_dedup_from)

lemma distinct_dedup [simp]: "distinct (dedup xs)"
  by (simp add: dedup_def)

lemma dedup_from_distinct:
  "distinct xs \<Longrightarrow> set xs \<inter> set seen = {} \<Longrightarrow> dedup_from seen xs = xs"
  by (induction seen xs rule: dedup_from.induct) auto

lemma dedup_id: "distinct xs \<Longrightarrow> dedup xs = xs"
  by (simp add: dedup_def dedup_from_distinct)

subsection \<open>Decimal rendering\<close>

definition digit_char :: "nat \<Rightarrow> char" where
  "digit_char d = char_of (48 + d)"

fun show_nat :: "nat \<Rightarrow> string" where
  "show_nat n = (if n < 10 then [digit_char n] else show_nat (n div 10) @ [digit_char (n mod 10)])"

declare show_nat.simps [simp del]

definition show_int :: "int \<Rightarrow> string" where
  "show_int i = (if i < 0 then ''-'' @ show_nat (nat (- i)) else show_nat (nat i))"

definition is_digit :: "char \<Rightarrow> bool" where
  "is_digit c \<longleftrightarrow> 48 \<le> (of_char c :: nat) \<and> (of_char c :: nat) \<le> 57"

text \<open>Reading a rendered numeral back: the value of its digits, most significant first.\<close>

definition digits_val :: "string \<Rightarrow> nat" where
  "digits_val s = foldl (\<lambda>v c. 10 * v + (of_char c - 48)) 0 s"

lemma of_digit_char [simp]: "d < 10 \<Longrightarrow> (of_char (digit_char d) :: nat) = 48 + d"
  by (simp add: digit_char_def)

lemma show_nat_digits: "c \<in> set (show_nat n) \<Longrightarrow> is_digit c"
proof (induction n rule: show_nat.induct)
  case (1 n)
  show ?case
  proof (cases "n < 10")
    case True
    with "1.prems" have "c = digit_char n" by (simp add: show_nat.simps [of n])
    with True show ?thesis by (simp add: is_digit_def)
  next
    case False
    with "1.prems" have "c \<in> set (show_nat (n div 10)) \<or> c = digit_char (n mod 10)"
      by (auto simp add: show_nat.simps [of n])
    moreover have "(of_char (digit_char (n mod 10)) :: nat) = 48 + n mod 10" by simp
    ultimately show ?thesis using "1.IH" False
      by (force simp: is_digit_def)
  qed
qed

lemma show_nat_nonempty [simp]: "show_nat n \<noteq> []"
  by (subst show_nat.simps) simp

lemma digits_val_snoc: "digits_val (s @ [c]) = 10 * digits_val s + (of_char c - 48)"
  by (simp add: digits_val_def)

lemma digits_val_show_nat [simp]: "digits_val (show_nat n) = n"
proof (induction n rule: show_nat.induct)
  case (1 n)
  show ?case
  proof (cases "n < 10")
    case True
    then show ?thesis by (simp add: show_nat.simps [of n] digits_val_def)
  next
    case False
    then have "digits_val (show_nat (n div 10)) = n div 10" using "1.IH" by simp
    with False show ?thesis by (simp add: show_nat.simps [of n] digits_val_snoc)
  qed
qed

lemma show_nat_inject [simp]: "show_nat m = show_nat n \<longleftrightarrow> m = n"
  by (metis digits_val_show_nat)

lemma minus_not_in_show_nat: "CHR ''-'' \<notin> set (show_nat n)"
  using show_nat_digits [of "CHR ''-''" n] by (auto simp: is_digit_def)

lemma show_int_inject [simp]: "show_int i = show_int j \<longleftrightarrow> i = j"
proof
  assume eq: "show_int i = show_int j"
  have neq: "CHR ''-'' # s \<noteq> show_nat n" "show_nat n \<noteq> CHR ''-'' # s" for s n
    using minus_not_in_show_nat [of n] by (metis list.set_intros(1))+
  from eq neq show "i = j"
    by (auto simp: show_int_def split: if_splits)
qed simp

subsection \<open>Sorting by a key\<close>

text \<open>Python's \<open>sorted(xs, key=f)\<close> is stable, as \<open>sort_key f xs\<close> is.\<close>

lemma sorted_key_pairs: "sorted (map f (sort_key f xs))"
  by simp

lemma insort_key_map:
  "insort_key f (g x) (map g xs) = map g (insort_key (\<lambda>x. f (g x)) x xs)"
  by (induction xs) auto

lemma sort_key_map: "sort_key f (map g xs) = map g (sort_key (\<lambda>x. f (g x)) xs)"
  by (induction xs) (auto simp: insort_key_map)

lemma pair_list_eqI: "map fst xs = map fst ys \<Longrightarrow> map snd xs = map snd ys \<Longrightarrow> xs = ys"
  by (metis zip_map_fst_snd)

lemma filter_length_split: "length (filter p xs) + length (filter (\<lambda>x. \<not> p x) xs) = length xs"
  by (induction xs) auto

lemma list_all2_mem: "list_all2 P xs ys \<Longrightarrow> y \<in> set ys \<Longrightarrow> \<exists>x \<in> set xs. P x y"
  by (induction rule: list_all2_induct) auto

lemma filter_singletonD:
  assumes "filter p xs = [a]"
  shows "a \<in> set xs \<and> p a"
proof -
  have "a \<in> set (filter p xs)" unfolding assms by simp
  then show ?thesis by simp
qed

end
