(* ===== verification/Canonical.thy ===== *)
theory Canonical
  imports Prelude
begin

text \<open>
  \<^verbatim>\<open>src/src/shapeflow/canonical.py\<close>: the strict canonical JSON encoding every identity of the
  study is a digest of. A Python \<open>str\<close> is the list of its UTF-8 bytes (\<open>string\<close>); since
  non-ASCII text is kept as it is, escaping and sorting act on the bytes as they do on code points.
  \<open>float.__repr__\<close> is the parameter \<open>frepr\<close>. The main result is that the encoding is injective
  up to the order of dictionary entries.
\<close>

subsection \<open>Python values\<close>

datatype pyfloat = Finite real | NaN | Infinite

text \<open>A mapping key: text, text with an unpaired surrogate (no UTF-8 form), or not a \<open>str\<close>.\<close>

datatype pykey = KStr string | KSurrogate | KOther

datatype pyval =
    PNone
  | PBool bool
  | PInt int
  | PFloat pyfloat
  | PStr string
  | PSurrogate
  | PBytes string
  | PList "pyval list"
  | PTuple "pyval list"
  | PSet "pyval list"
  | PDict "(pykey \<times> pyval) list"
  | PObject

subsection \<open>Validation\<close>

datatype canon_why = UnpairedSurrogate | NonFiniteFloat | NonStrKey | TupleOrSet | RawBytes | NotSerializable

datatype canon_error = CanonicalizationError string canon_why | UnicodeEncodeError

definition reject :: "string \<Rightarrow> canon_why \<Rightarrow> canon_error + unit" where
  "reject path why = Inl (CanonicalizationError (if path = [] then ''<root>'' else path) why)"

definition key_text :: "pykey \<Rightarrow> string" where
  "key_text k = (case k of KStr s \<Rightarrow> s | _ \<Rightarrow> ''?'')"

definition sub_path :: "string \<Rightarrow> string \<Rightarrow> string" where
  "sub_path path key = (if path = [] then key else path @ ''.'' @ key)"

fun validate :: "pyval \<Rightarrow> string \<Rightarrow> canon_error + unit"
  and validate_entries :: "(pykey \<times> pyval) list \<Rightarrow> string \<Rightarrow> canon_error + unit"
  and validate_items :: "pyval list \<Rightarrow> nat \<Rightarrow> string \<Rightarrow> canon_error + unit"
where
  "validate PNone path = Inr ()"
| "validate (PStr s) path = Inr ()"
| "validate PSurrogate path = reject path UnpairedSurrogate"
| "validate (PBool b) path = Inr ()"
| "validate (PInt i) path = Inr ()"
| "validate (PFloat f) path =
     (case f of Finite r \<Rightarrow> Inr () | _ \<Rightarrow> reject path NonFiniteFloat)"
| "validate (PDict kvs) path = validate_entries kvs path"
| "validate (PList vs) path = validate_items vs 0 path"
| "validate (PTuple vs) path = reject path TupleOrSet"
| "validate (PSet vs) path = reject path TupleOrSet"
| "validate (PBytes b) path = reject path RawBytes"
| "validate PObject path = reject path NotSerializable"
| "validate_entries [] path = Inr ()"
| "validate_entries ((k, v) # kvs) path =
     (if k = KOther then reject path NonStrKey
      else rbind (validate v (sub_path path (key_text k))) (\<lambda>_. validate_entries kvs path))"
| "validate_items [] i path = Inr ()"
| "validate_items (v # vs) i path =
     rbind (validate v (path @ ''['' @ show_nat i @ '']'')) (\<lambda>_. validate_items vs (Suc i) path)"

subsection \<open>The encoding: sorted keys, no whitespace, minimal escapes\<close>

definition hex_digit :: "nat \<Rightarrow> char" where
  "hex_digit d = char_of (if d < 10 then 48 + d else 87 + d)"

definition esc_char :: "char \<Rightarrow> string" where
  "esc_char c =
     (if c = CHR 0x22 then [CHR 0x5C, CHR 0x22]
      else if c = CHR 0x5C then [CHR 0x5C, CHR 0x5C]
      else if c = CHR 0x0A then [CHR 0x5C, CHR ''n'']
      else if c = CHR 0x0D then [CHR 0x5C, CHR ''r'']
      else if c = CHR 0x09 then [CHR 0x5C, CHR ''t'']
      else if c = CHR 0x0C then [CHR 0x5C, CHR ''f'']
      else if c = CHR 0x08 then [CHR 0x5C, CHR ''b'']
      else if (of_char c :: nat) < 32
        then [CHR 0x5C, CHR ''u'', CHR ''0'', CHR ''0'',
              hex_digit (of_char c div 16), hex_digit (of_char c mod 16)]
      else [c])"

definition quote :: "string \<Rightarrow> string" where
  "quote s = CHR 0x22 # concat (map esc_char s) @ [CHR 0x22]"

fun join :: "string \<Rightarrow> string list \<Rightarrow> string" where
  "join sep [] = []"
| "join sep [s] = s"
| "join sep (s # t # ts) = s @ sep @ join sep (t # ts)"

definition entry_text :: "string \<times> string \<Rightarrow> string" where
  "entry_text e = quote (fst e) @ '':'' @ snd e"

fun render :: "(real \<Rightarrow> string) \<Rightarrow> pyval \<Rightarrow> string"
  and render_items :: "(real \<Rightarrow> string) \<Rightarrow> pyval list \<Rightarrow> string list"
  and render_entries :: "(real \<Rightarrow> string) \<Rightarrow> (pykey \<times> pyval) list \<Rightarrow> (string \<times> string) list"
where
  "render fr PNone = ''null''"
| "render fr (PBool b) = (if b then ''true'' else ''false'')"
| "render fr (PInt i) = show_int i"
| "render fr (PFloat f) = (case f of Finite r \<Rightarrow> fr r | _ \<Rightarrow> [])"
| "render fr (PStr s) = quote s"
| "render fr (PList vs) = ''['' @ join '','' (render_items fr vs) @ '']''"
| "render fr (PDict kvs) =
     CHR ''{'' # join '','' (map entry_text (sort_key fst (render_entries fr kvs))) @ ''}''"
| "render fr _ = []"
| "render_items fr [] = []"
| "render_items fr (v # vs) = render fr v # render_items fr vs"
| "render_entries fr [] = []"
| "render_entries fr ((k, v) # kvs) = (key_text k, render fr v) # render_entries fr kvs"

text \<open>
  The validation pass looks at every value but not at the text of the keys: a key with an unpaired
  surrogate passes it and fails in the final \<open>encode\<close>.
\<close>

fun has_surrogate_key :: "pyval \<Rightarrow> bool"
  and surrogate_items :: "pyval list \<Rightarrow> bool"
  and surrogate_entries :: "(pykey \<times> pyval) list \<Rightarrow> bool"
where
  "has_surrogate_key (PList vs) = surrogate_items vs"
| "has_surrogate_key (PDict kvs) = surrogate_entries kvs"
| "has_surrogate_key _ = False"
| "surrogate_items [] = False"
| "surrogate_items (v # vs) = (has_surrogate_key v \<or> surrogate_items vs)"
| "surrogate_entries [] = False"
| "surrogate_entries ((k, v) # kvs) = (k = KSurrogate \<or> has_surrogate_key v \<or> surrogate_entries kvs)"

definition canonical_json :: "(real \<Rightarrow> string) \<Rightarrow> pyval \<Rightarrow> canon_error + string" where
  "canonical_json fr v =
     rbind (validate v [])
       (\<lambda>_. if has_surrogate_key v then Inl UnicodeEncodeError else Inr (render fr v))"

subsection \<open>Values the encoding accepts\<close>

text \<open>
  \<open>jsonable_over F v\<close>: validation accepts \<open>v\<close>, its keys have a UTF-8 form and are distinct (as in any
  dict), and its floats are among \<open>F\<close>; without floats the text does not depend on \<open>frepr\<close>.
\<close>

fun jsonable_over :: "real set \<Rightarrow> pyval \<Rightarrow> bool"
  and jsonable_items :: "real set \<Rightarrow> pyval list \<Rightarrow> bool"
  and jsonable_entries :: "real set \<Rightarrow> (pykey \<times> pyval) list \<Rightarrow> bool"
where
  "jsonable_over F PNone = True"
| "jsonable_over F (PBool b) = True"
| "jsonable_over F (PInt i) = True"
| "jsonable_over F (PFloat f) = (case f of Finite r \<Rightarrow> r \<in> F | _ \<Rightarrow> False)"
| "jsonable_over F (PStr s) = True"
| "jsonable_over F (PList vs) = jsonable_items F vs"
| "jsonable_over F (PDict kvs) = (jsonable_entries F kvs \<and> distinct (map fst kvs))"
| "jsonable_over F _ = False"
| "jsonable_items F [] = True"
| "jsonable_items F (v # vs) = (jsonable_over F v \<and> jsonable_items F vs)"
| "jsonable_entries F [] = True"
| "jsonable_entries F ((k, v) # kvs) = ((case k of KStr s \<Rightarrow> True | _ \<Rightarrow> False) \<and> jsonable_over F v \<and> jsonable_entries F kvs)"

abbreviation jsonable :: "pyval \<Rightarrow> bool" where
  "jsonable \<equiv> jsonable_over {}"

lemma jsonable_items_iff [simp]: "jsonable_items F vs \<longleftrightarrow> (\<forall>v \<in> set vs. jsonable_over F v)"
  by (induction vs) auto

lemma jsonable_entries_iff [simp]:
  "jsonable_entries F kvs \<longleftrightarrow> (\<forall>(k, v) \<in> set kvs. (\<exists>s. k = KStr s) \<and> jsonable_over F v)"
  by (induction kvs) (auto split: pykey.splits)

lemma render_items_map [simp]: "render_items fr vs = map (render fr) vs"
  by (induction vs) auto

lemma render_entries_map [simp]:
  "render_entries fr kvs = map (\<lambda>(k, v). (key_text k, render fr v)) kvs"
  by (induction kvs) auto

lemma validate_jsonable:
  "jsonable_over F v \<Longrightarrow> validate v path = Inr ()"
  "\<forall>(k, v) \<in> set kvs. (\<exists>s. k = KStr s) \<and> jsonable_over F v \<Longrightarrow> validate_entries kvs path = Inr ()"
  "\<forall>v \<in> set vs. jsonable_over F v \<Longrightarrow> validate_items vs i path = Inr ()"
  by (induction v path and kvs path and vs i path rule: validate_validate_entries_validate_items.induct)
    (auto split: pyfloat.splits)

lemma no_surrogate_jsonable:
  "jsonable_over F v \<Longrightarrow> \<not> has_surrogate_key v"
  "\<forall>v \<in> set vs. jsonable_over F v \<Longrightarrow> \<not> surrogate_items vs"
  "\<forall>(k, v) \<in> set kvs. (\<exists>s. k = KStr s) \<and> jsonable_over F v \<Longrightarrow> \<not> surrogate_entries kvs"
  by (induction v and vs and kvs
      rule: has_surrogate_key_surrogate_items_surrogate_entries.induct) auto

lemma canonical_json_over: "jsonable_over F v \<Longrightarrow> canonical_json fr v = Inr (render fr v)"
  by (simp add: canonical_json_def validate_jsonable no_surrogate_jsonable)

lemmas canonical_json_jsonable = canonical_json_over [where F = "{}"]

text \<open>\<open>encodable v\<close>: the encoding accepts \<open>v\<close>; finite floats are allowed.\<close>

fun encodable :: "pyval \<Rightarrow> bool"
  and encodable_items :: "pyval list \<Rightarrow> bool"
  and encodable_entries :: "(pykey \<times> pyval) list \<Rightarrow> bool"
where
  "encodable PNone = True"
| "encodable (PBool b) = True"
| "encodable (PInt i) = True"
| "encodable (PFloat f) = (case f of Finite r \<Rightarrow> True | _ \<Rightarrow> False)"
| "encodable (PStr s) = True"
| "encodable (PList vs) = encodable_items vs"
| "encodable (PDict kvs) = encodable_entries kvs"
| "encodable _ = False"
| "encodable_items [] = True"
| "encodable_items (v # vs) = (encodable v \<and> encodable_items vs)"
| "encodable_entries [] = True"
| "encodable_entries ((k, v) # kvs) = ((case k of KStr s \<Rightarrow> True | _ \<Rightarrow> False) \<and> encodable v \<and> encodable_entries kvs)"

lemma encodable_items_iff [simp]: "encodable_items vs \<longleftrightarrow> (\<forall>v \<in> set vs. encodable v)"
  by (induction vs) auto

lemma encodable_entries_iff [simp]:
  "encodable_entries kvs \<longleftrightarrow> (\<forall>(k, v) \<in> set kvs. (\<exists>s. k = KStr s) \<and> encodable v)"
  by (induction kvs) (auto split: pykey.splits)

lemma validate_encodable:
  "encodable v \<Longrightarrow> validate v path = Inr ()"
  "\<forall>(k, v) \<in> set kvs. (\<exists>s. k = KStr s) \<and> encodable v \<Longrightarrow> validate_entries kvs path = Inr ()"
  "\<forall>v \<in> set vs. encodable v \<Longrightarrow> validate_items vs i path = Inr ()"
  by (induction v path and kvs path and vs i path rule: validate_validate_entries_validate_items.induct)
    (auto split: pyfloat.splits)

lemma no_surrogate_encodable:
  "encodable v \<Longrightarrow> \<not> has_surrogate_key v"
  "\<forall>v \<in> set vs. encodable v \<Longrightarrow> \<not> surrogate_items vs"
  "\<forall>(k, v) \<in> set kvs. (\<exists>s. k = KStr s) \<and> encodable v \<Longrightarrow> \<not> surrogate_entries kvs"
  by (induction v and vs and kvs
      rule: has_surrogate_key_surrogate_items_surrogate_entries.induct) auto

lemma canonical_json_encodable: "encodable v \<Longrightarrow> canonical_json fr v = Inr (render fr v)"
  by (simp add: canonical_json_def validate_encodable no_surrogate_encodable)

text \<open>The normal form: the entries of every dictionary in the order of their keys.\<close>

fun normal :: "pyval \<Rightarrow> pyval"
  and normal_items :: "pyval list \<Rightarrow> pyval list"
  and normal_entries :: "(pykey \<times> pyval) list \<Rightarrow> (pykey \<times> pyval) list"
where
  "normal (PList vs) = PList (normal_items vs)"
| "normal (PDict kvs) = PDict (sort_key (key_text \<circ> fst) (normal_entries kvs))"
| "normal v = v"
| "normal_items [] = []"
| "normal_items (v # vs) = normal v # normal_items vs"
| "normal_entries [] = []"
| "normal_entries ((k, v) # kvs) = (k, normal v) # normal_entries kvs"

lemma normal_items_map [simp]: "normal_items vs = map normal vs"
  by (induction vs) auto

lemma normal_entries_map [simp]: "normal_entries kvs = map (\<lambda>(k, v). (k, normal v)) kvs"
  by (induction kvs) auto

subsection \<open>The encoding can be read back: no text is a prefix of another in context\<close>

definition delim :: "string \<Rightarrow> bool" where
  "delim s \<longleftrightarrow> s = [] \<or> hd s \<in> {CHR '','', CHR '']'', CHR ''}''}"

lemma hex_digit_inject:
  assumes "d < 16" and "e < 16" and "hex_digit d = hex_digit e"
  shows "d = e"
proof -
  have "(of_char (hex_digit d) :: nat) = of_char (hex_digit e)" using assms(3) by simp
  with assms(1,2) show ?thesis by (simp add: hex_digit_def split: if_splits)
qed

lemma hex_pair_inject:
  assumes "of_char c < (32::nat)" and "of_char d < (32::nat)"
    and "hex_digit (of_char c div 16) = hex_digit (of_char d div 16)"
    and "hex_digit (of_char c mod 16) = hex_digit (of_char d mod 16)"
  shows "c = d"
proof -
  have "of_char c div 16 = (of_char d div 16 :: nat)"
    using assms by (intro hex_digit_inject) auto
  moreover have "of_char c mod 16 = (of_char d mod 16 :: nat)"
    using assms by (intro hex_digit_inject) auto
  ultimately have "(of_char c :: nat) = of_char d"
    by (metis div_mult_mod_eq)
  then show ?thesis by simp
qed

lemma esc_char_head: "\<exists>c' s. esc_char c = c' # s \<and> c' \<noteq> CHR 0x22"
  by (simp add: esc_char_def)

lemma esc_char_prefix: "esc_char c @ s = esc_char d @ t \<Longrightarrow> c = d \<and> s = t"
  by (auto simp: esc_char_def split: if_splits dest: hex_pair_inject)

lemma quote_prefix: "quote a @ s = quote b @ t \<Longrightarrow> a = b \<and> s = t"
proof -
  have "concat (map esc_char a) @ CHR 0x22 # s = concat (map esc_char b) @ CHR 0x22 # t
    \<Longrightarrow> a = b \<and> s = t" for b
  proof (induction a arbitrary: b)
    case Nil
    then show ?case using esc_char_head [of "hd b"] by (cases b) force+
  next
    case (Cons c a)
    show ?case
    proof (cases b)
      case Nil
      with Cons.prems esc_char_head [of c] show ?thesis by force
    next
      case b: (Cons d b')
      with Cons.prems have "esc_char c @ (concat (map esc_char a) @ CHR 0x22 # s)
          = esc_char d @ (concat (map esc_char b') @ CHR 0x22 # t)"
        by simp
      then have "c = d" and "concat (map esc_char a) @ CHR 0x22 # s
          = concat (map esc_char b') @ CHR 0x22 # t"
        by (blast dest: esc_char_prefix)+
      with Cons.IH b show ?thesis by blast
    qed
  qed
  then show "quote a @ s = quote b @ t \<Longrightarrow> a = b \<and> s = t"
    by (simp add: quote_def)
qed

lemma quote_inject [simp]: "quote a = quote b \<longleftrightarrow> a = b"
  using quote_prefix [of a "[]" b "[]"] by auto

lemma delim_not_digit: "delim s \<Longrightarrow> takeWhile is_digit s = []"
  by (cases s) (auto simp: delim_def is_digit_def)

lemma show_nat_prefix:
  assumes "show_nat m @ s = show_nat n @ t" and "delim s" and "delim t"
  shows "m = n \<and> s = t"
proof -
  have "takeWhile is_digit (show_nat k @ u) = show_nat k" if "delim u" for k u
    using that by (simp add: takeWhile_append2 show_nat_digits delim_not_digit)
  then have "show_nat m = show_nat n" using assms by metis
  with assms(1) show ?thesis by simp
qed

lemma show_nat_head_digit: "\<exists>c s. show_nat n = c # s \<and> is_digit c"
  using show_nat_digits [of _ n] by (cases "show_nat n") auto

lemma show_int_prefix:
  assumes "show_int i @ s = show_int j @ t" and "delim s" and "delim t"
  shows "i = j \<and> s = t"
proof -
  have neq: "CHR ''-'' # u \<noteq> show_nat n @ v" for u v n
    using show_nat_head_digit [of n] by (auto simp: is_digit_def)
  show ?thesis
    using assms neq neq [symmetric]
    by (auto simp: show_int_def split: if_splits dest: show_nat_prefix)
qed

lemma show_int_head: "\<exists>c s. show_int i = c # s \<and> (is_digit c \<or> c = CHR ''-'')"
  using show_nat_head_digit by (force simp: show_int_def)

text \<open>The first character tells the kind of a value.\<close>

datatype jkind = KNull | KTrue | KFalse | KNum | KStrK | KList | KDict

definition head_kind :: "char \<Rightarrow> jkind" where
  "head_kind c =
     (if c = CHR ''n'' then KNull else if c = CHR ''t'' then KTrue
      else if c = CHR ''f'' then KFalse else if c = CHR 0x22 then KStrK
      else if c = CHR ''['' then KList else if c = CHR ''{'' then KDict else KNum)"

fun kind_of :: "pyval \<Rightarrow> jkind" where
  "kind_of (PBool b) = (if b then KTrue else KFalse)"
| "kind_of (PInt i) = KNum"
| "kind_of (PFloat f) = KNum"
| "kind_of (PStr s) = KStrK"
| "kind_of (PList vs) = KList"
| "kind_of (PDict kvs) = KDict"
| "kind_of _ = KNull"

lemma digit_head:
  assumes "is_digit c \<or> c = CHR ''-''"
  shows "head_kind c = KNum" and "c \<noteq> CHR '',''" and "c \<noteq> CHR '']''" and "c \<noteq> CHR ''}''"
proof -
  have neq: "c \<noteq> d" if "\<not> is_digit d" and "d \<noteq> CHR ''-''" for d
    using assms that by auto
  have no: "\<not> is_digit (CHR ''n'')" "\<not> is_digit (CHR ''t'')" "\<not> is_digit (CHR ''f'')"
    "\<not> is_digit (CHR 0x22)" "\<not> is_digit (CHR ''['')" "\<not> is_digit (CHR ''{'')"
    "\<not> is_digit (CHR '','')" "\<not> is_digit (CHR '']'')" "\<not> is_digit (CHR ''}'')"
    by (simp_all add: is_digit_def)
  show "c \<noteq> CHR '',''" and "c \<noteq> CHR '']''" and "c \<noteq> CHR ''}''"
    by (rule neq; simp add: no)+
  have "c \<noteq> CHR ''n''" "c \<noteq> CHR ''t''" "c \<noteq> CHR ''f''" "c \<noteq> CHR 0x22" "c \<noteq> CHR ''[''"
    "c \<noteq> CHR ''{''"
    by (rule neq; simp add: no)+
  then show "head_kind c = KNum" unfolding head_kind_def by (simp only: if_False)
qed

text \<open>
  What is relied on of \<open>repr\<close> for the floats \<open>F\<close> of a program: different floats have different texts, made of
  the characters of a number, and a point or an exponent tells them from an integer.
\<close>

definition num_char :: "char \<Rightarrow> bool" where
  "num_char c \<longleftrightarrow> is_digit c \<or> c \<in> {CHR ''-'', CHR ''+'', CHR ''.'', CHR ''e''}"

definition float_texts :: "(real \<Rightarrow> string) \<Rightarrow> real set \<Rightarrow> bool" where
  "float_texts fr F \<longleftrightarrow> inj_on fr F \<and> (\<forall>r \<in> F. list_all num_char (fr r)
     \<and> (case fr r of [] \<Rightarrow> False | c # s \<Rightarrow> is_digit c \<or> c = CHR ''-'')
     \<and> list_ex (\<lambda>c. c = CHR ''.'' \<or> c = CHR ''e'') (fr r))"

lemma float_texts_empty [simp]: "float_texts fr {}"
  by (simp add: float_texts_def)

lemma delim_not_num: "delim s \<Longrightarrow> takeWhile num_char s = []"
  by (cases s) (auto simp: delim_def num_char_def is_digit_def)

lemma show_int_chars: "c \<in> set (show_int i) \<Longrightarrow> is_digit c \<or> c = CHR ''-''"
  by (auto simp: show_int_def show_nat_digits split: if_splits)

lemma number_prefix:
  assumes "list_all num_char u" and "list_all num_char v" and "u @ s = v @ t" and "delim s" and "delim t"
  shows "u = v \<and> s = t"
proof -
  have "takeWhile num_char (x @ y) = x" if "list_all num_char x" "delim y" for x y
    using that by (simp add: takeWhile_append2 list_all_iff delim_not_num)
  then have "u = v" using assms by metis
  with assms(3) show ?thesis by simp
qed

lemma show_int_num: "list_all num_char (show_int i)"
  by (auto simp: list_all_iff num_char_def dest: show_int_chars)

lemma float_not_int:
  assumes "float_texts fr F" and "r \<in> F"
  shows "fr r \<noteq> show_int i"
proof
  assume "fr r = show_int i"
  moreover obtain c where "c \<in> set (fr r)" "c = CHR ''.'' \<or> c = CHR ''e''"
    using assms by (auto simp: float_texts_def list_ex_iff)
  ultimately show False using show_int_chars [of c i] by (auto simp: is_digit_def)
qed

lemma render_head:
  assumes "float_texts fr F" and "jsonable_over F v"
  shows "\<exists>c s. render fr v = c # s \<and> head_kind c = kind_of v \<and> c \<notin> {CHR '','', CHR '']'', CHR ''}''}"
proof (cases v)
  case (PInt i)
  obtain c s where "show_int i = c # s" and "is_digit c \<or> c = CHR ''-''"
    using show_int_head by blast
  with PInt digit_head [of c] show ?thesis by simp
next
  case (PFloat f)
  with assms(2) obtain r where r: "f = Finite r" "r \<in> F" by (auto split: pyfloat.splits)
  then obtain c s where "fr r = c # s" and "is_digit c \<or> c = CHR ''-''"
    using assms(1) by (cases "fr r") (auto simp: float_texts_def)
  with PFloat r(1) digit_head [of c] show ?thesis by simp
qed (use assms(2) in \<open>simp_all add: head_kind_def quote_def\<close>)

lemma render_not_delim:
  "float_texts fr F \<Longrightarrow> jsonable_over F v \<Longrightarrow> c \<in> {CHR '','', CHR '']'', CHR ''}''} \<Longrightarrow> c # s \<noteq> render fr v @ t"
  using render_head [of fr F v] by auto

lemma join_Cons: "join sep (s # ts) = s @ concat (map (\<lambda>t. sep @ t) ts)"
  by (induction ts arbitrary: s) auto

lemma tails_prefix:
  assumes elem: "\<And>v w s t. \<lbrakk>v \<in> set vs; w \<in> set ws; delim s; delim t; f v @ s = f w @ t\<rbrakk> \<Longrightarrow> R v w \<and> s = t"
    and close: "c \<in> {CHR '']'', CHR ''}''}"
    and eq: "concat (map (\<lambda>v. '','' @ f v) vs) @ c # s = concat (map (\<lambda>v. '','' @ f v) ws) @ c # t"
  shows "list_all2 R vs ws \<and> s = t"
  using elem eq
proof (induction vs arbitrary: ws)
  case Nil
  with close show ?case by (cases ws) auto
next
  case (Cons v vs)
  show ?case
  proof (cases ws)
    case Nil
    with Cons.prems close show ?thesis by auto
  next
    case ws: (Cons w ws')
    let ?tail = "\<lambda>us u. concat (map (\<lambda>v. '','' @ f v) us) @ c # u"
    have delim: "delim (?tail us u)" for us u
      using close by (cases us) (auto simp: delim_def)
    from Cons.prems(2) ws have "f v @ ?tail vs s = f w @ ?tail ws' t" by simp
    then have vw: "R v w \<and> ?tail vs s = ?tail ws' t"
      using Cons.prems(1) [of v w "?tail vs s" "?tail ws' t"] ws delim by simp
    moreover have "list_all2 R vs ws' \<and> s = t"
      by (rule Cons.IH) (use Cons.prems(1) ws vw in auto)
    ultimately show ?thesis using ws by simp
  qed
qed

lemma join_prefix:
  assumes elem: "\<And>v w s t. \<lbrakk>v \<in> set vs; w \<in> set ws; delim s; delim t; f v @ s = f w @ t\<rbrakk> \<Longrightarrow> R v w \<and> s = t"
    and start: "\<And>v s t. v \<in> set vs \<union> set ws \<Longrightarrow> c # s \<noteq> f v @ t"
    and close: "c \<in> {CHR '']'', CHR ''}''}"
    and eq: "join '','' (map f vs) @ c # s = join '','' (map f ws) @ c # t"
  shows "list_all2 R vs ws \<and> s = t"
proof (cases vs)
  case Nil
  with eq start show ?thesis by (cases ws) (auto simp: join_Cons)
next
  case vs: (Cons v vs')
  show ?thesis
  proof (cases ws)
    case Nil
    have "c # t = f v @ concat (map (\<lambda>t. '','' @ t) (map f vs')) @ c # s"
      using eq vs Nil by (simp add: join_Cons)
    with start vs show ?thesis by force
  next
    case ws: (Cons w ws')
    have "concat (map (\<lambda>v. '','' @ f v) vs) @ c # s = concat (map (\<lambda>v. '','' @ f v) ws) @ c # t"
      using eq vs ws by (simp add: join_Cons comp_def)
    with elem close show ?thesis by (rule tails_prefix)
  qed
qed

lemma render_dict:
  "render fr (PDict kvs) = CHR ''{'' # join '',''
     (map (\<lambda>(k, v). entry_text (key_text k, render fr v)) (sort_key (key_text \<circ> fst) kvs)) @ ''}''"
  by (simp add: sort_key_map comp_def case_prod_unfold)

lemma normal_dict:
  "normal (PDict kvs) = PDict (map (\<lambda>(k, v). (k, normal v)) (sort_key (key_text \<circ> fst) kvs))"
  by (simp add: sort_key_map comp_def case_prod_unfold)

lemma render_entry_prefix:
  assumes "entry_text (a, p) @ s = entry_text (b, q) @ t"
  shows "a = b \<and> p @ s = q @ t"
  using assms quote_prefix [of a "'':'' @ p @ s" b "'':'' @ q @ t"]
  by (simp add: entry_text_def)

lemma list_all2_map_eq: "list_all2 (\<lambda>x y. g x = g y) xs ys \<longleftrightarrow> map g xs = map g ys"
  by (simp add: list_eq_iff_nth_eq list_all2_conv_all_nth conj_commute)
     (auto simp: list_all2_conv_all_nth)

lemma render_kind:
  assumes "float_texts fr F" and "jsonable_over F v" and "jsonable_over F w" and "render fr v @ s = render fr w @ t"
  shows "kind_of v = kind_of w"
  using render_head [OF assms(1,2)] render_head [OF assms(1,3)] assms(4) by auto

lemma render_prefix:
  assumes fr: "float_texts fr F" and "jsonable_over F v" and "jsonable_over F w" and "delim s" and "delim t"
    and "render fr v @ s = render fr w @ t"
  shows "normal v = normal w \<and> s = t"
  using assms(2-)
proof (induction v arbitrary: w s t)
  case PNone
  then have "kind_of w = KNull" using render_kind [OF fr, of PNone w] by simp
  with PNone have "w = PNone" by (cases w) (auto split: if_splits)
  with PNone.prems show ?case by simp
next
  case (PBool b)
  then have "kind_of w = (if b then KTrue else KFalse)" using render_kind [OF fr, of "PBool b" w] by simp
  with PBool have "w = PBool b" by (cases w) (auto split: if_splits)
  with PBool.prems show ?case by simp
next
  case (PInt i)
  then have "kind_of w = KNum" using render_kind [OF fr, of "PInt i" w] by simp
  with PInt consider j where "w = PInt j" | r where "w = PFloat (Finite r)" "r \<in> F"
    by (cases w) (auto split: if_splits pyfloat.splits)
  then show ?case
  proof cases
    case 1
    with PInt.prems show ?thesis by (auto dest: show_int_prefix)
  next
    case 2
    with PInt.prems have "show_int i = fr r"
      using number_prefix [OF show_int_num, of "fr r" i s t] fr by (auto simp: float_texts_def)
    with float_not_int [OF fr 2(2), of i] show ?thesis by simp
  qed
next
  case (PFloat f)
  then obtain r where r: "f = Finite r" "r \<in> F" by (auto split: pyfloat.splits)
  have num: "list_all num_char (fr q)" if "q \<in> F" for q using fr that by (simp add: float_texts_def)
  have "kind_of w = KNum" using PFloat r render_kind [OF fr, of "PFloat f" w] by simp
  with PFloat consider j where "w = PInt j" | q where "w = PFloat (Finite q)" "q \<in> F"
    by (cases w) (auto split: if_splits pyfloat.splits)
  then show ?case
  proof cases
    case 1
    with PFloat.prems r have "fr r = show_int j"
      using number_prefix [OF num [OF r(2)] show_int_num, of s j t] by simp
    with float_not_int [OF fr r(2), of j] show ?thesis by simp
  next
    case 2
    with PFloat.prems r have "fr r = fr q \<and> s = t"
      using number_prefix [OF num [OF r(2)] num [OF 2(2)], of s t] by simp
    moreover have "inj_on fr F" using fr by (simp add: float_texts_def)
    ultimately show ?thesis using r 2 by (simp add: inj_on_def)
  qed
next
  case (PStr a)
  then have "kind_of w = KStrK" using render_kind [OF fr, of "PStr a" w] by simp
  with PStr obtain b where "w = PStr b" by (cases w) (auto split: if_splits)
  with PStr.prems show ?case by (auto dest: quote_prefix)
next
  case (PList vs)
  then have "kind_of w = KList" using render_kind [OF fr, of "PList vs" w] by simp
  with PList obtain ws where w: "w = PList ws" by (cases w) (auto split: if_splits)
  have "list_all2 (\<lambda>v w. normal v = normal w) vs ws \<and> s = t"
  proof (rule join_prefix [where c = "CHR '']''" and f = "render fr"])
    show "normal v = normal u \<and> s' = t'"
      if "v \<in> set vs" "u \<in> set ws" "delim s'" "delim t'" "render fr v @ s' = render fr u @ t'"
      for v u s' t'
      using PList.IH [OF that(1), of u s' t'] that PList.prems(1,2) w by simp
    show "CHR '']'' # s' \<noteq> render fr v @ t'" if "v \<in> set vs \<union> set ws" for v s' t'
      using that PList.prems(1,2) w by (intro render_not_delim [OF fr]) auto
  qed (use PList.prems w in auto)
  with w show ?case by (simp add: list_all2_map_eq)
next
  case (PDict kvs)
  then have "kind_of w = KDict" using render_kind [OF fr, of "PDict kvs" w] by simp
  with PDict obtain lvs where w: "w = PDict lvs" by (cases w) (auto split: if_splits)
  let ?f = "\<lambda>(k, v). entry_text (key_text k, render fr v)" and ?g = "\<lambda>(k, v). (k, normal v)"
  let ?ks = "sort_key (key_text \<circ> fst) kvs" and ?ls = "sort_key (key_text \<circ> fst) lvs"
  have keys: "\<forall>(k, v) \<in> set kvs \<union> set lvs. (\<exists>s. k = KStr s) \<and> jsonable_over F v"
    using PDict.prems(1,2) w by auto
  have "list_all2 (\<lambda>x y. ?g x = ?g y) ?ks ?ls \<and> s = t"
  proof (rule join_prefix [where c = "CHR ''}''" and f = ?f])
    show "?g x = ?g y \<and> s' = t'"
      if "x \<in> set ?ks" "y \<in> set ?ls" "delim s'" "delim t'" "?f x @ s' = ?f y @ t'" for x y s' t'
    proof -
      obtain k v l u where xy: "x = (k, v)" "y = (l, u)" by (cases x, cases y)
      with that(5) have "key_text k = key_text l" and r: "render fr v @ s' = render fr u @ t'"
        by (auto dest: render_entry_prefix)
      moreover have mem: "(k, v) \<in> set kvs" "(l, u) \<in> set lvs" using that(1,2) xy by simp_all
      moreover obtain a b where "k = KStr a" "l = KStr b" and ok: "jsonable_over F v" "jsonable_over F u"
        using bspec [OF keys, of "(k, v)"] bspec [OF keys, of "(l, u)"] mem by auto
      ultimately have "k = l" by (simp add: key_text_def)
      moreover have "normal v = normal u \<and> s' = t'"
        using PDict.IH [OF mem(1), of v u s' t'] that(3,4) r ok by simp
      ultimately show ?thesis using xy by simp
    qed
    show "CHR ''}'' # s' \<noteq> ?f x @ t'" for x s' t'
      by (simp add: split_beta entry_text_def quote_def)
  qed (use PDict.prems w in \<open>auto simp del: render.simps simp: render_dict\<close>)
  then show ?case unfolding w normal_dict by (simp add: list_all2_map_eq)
qed simp_all

lemma render_normal: "normal v = normal w \<Longrightarrow> jsonable_over F v \<Longrightarrow> jsonable_over F w \<Longrightarrow> render fr v = render fr w"
proof (induction v arbitrary: w)
  case (PList vs)
  then obtain ws where w: "w = PList ws" by (cases w) auto
  then have "list_all2 (\<lambda>v w. normal v = normal w) vs ws"
    using PList.prems by (simp add: list_all2_map_eq)
  then have "list_all2 (\<lambda>v w. render fr v = render fr w) vs ws"
    by (rule list.rel_mono_strong) (use PList w in auto)
  with w show ?case by (simp add: list_all2_map_eq)
next
  case (PDict kvs)
  then obtain lvs where w: "w = PDict lvs" by (cases w) auto
  let ?f = "\<lambda>(k, v). entry_text (key_text k, render fr v)" and ?g = "\<lambda>(k, v). (k, normal v)"
  let ?ks = "sort_key (key_text \<circ> fst) kvs" and ?ls = "sort_key (key_text \<circ> fst) lvs"
  have "list_all2 (\<lambda>x y. ?g x = ?g y) ?ks ?ls"
    using PDict.prems(1) unfolding w normal_dict by (simp add: list_all2_map_eq)
  moreover have "?f x = ?f y" if "x \<in> set ?ks" "y \<in> set ?ls" "?g x = ?g y" for x y
  proof -
    obtain k v l u where xy: "x = (k, v)" "y = (l, u)" by (cases x, cases y)
    with that PDict.prems(2,3) w have "jsonable_over F v" "jsonable_over F u" by auto
    moreover have "(k, v) \<in> set kvs" using that(1) xy by simp
    ultimately show ?thesis using PDict.IH [of "(k, v)" v u] that(3) xy by simp
  qed
  ultimately have "list_all2 (\<lambda>x y. ?f x = ?f y) ?ks ?ls"
    by (rule list.rel_mono_strong)
  then show ?case unfolding w render_dict by (simp add: list_all2_map_eq)
qed (case_tac w; simp)+

lemma canonical_json_eq_over:
  assumes "float_texts fr F" and "jsonable_over F v" and "jsonable_over F w"
  shows "canonical_json fr v = canonical_json fr w \<longleftrightarrow> normal v = normal w"
  using assms render_prefix [of fr F v w "[]" "[]"] render_normal [of v w F fr]
  by (auto simp: canonical_json_over delim_def)

lemmas canonical_json_eq_iff = canonical_json_eq_over [OF float_texts_empty]

text \<open>
  C1. Canonical JSON identifies a value up to the order of dictionary entries: two values the encoder accepts,
  with floats among a set \<open>F\<close> on which \<open>repr\<close> is injective and writes a number with a point or an exponent,
  have the same canonical text exactly when they have the same normal form.
\<close>

theorem canonical_json_injective:
  assumes "float_texts fr F" and "jsonable_over F v" and "jsonable_over F w"
  shows "canonical_json fr v = canonical_json fr w \<longleftrightarrow> normal v = normal w"
  by (rule canonical_json_eq_over [OF assms])

definition sample_repr :: "real \<Rightarrow> string" where
  "sample_repr r = (if r = 1 then ''1.0'' else ''0.5'')"

theorem canonical_json_injective_witness:
  "canonical_json sample_repr (PDict [(KStr ''b'', PFloat (Finite 1)), (KStr ''a'', PFloat (Finite (1/2)))])
    = canonical_json sample_repr (PDict [(KStr ''a'', PFloat (Finite (1/2))), (KStr ''b'', PFloat (Finite 1))])
   \<and> canonical_json sample_repr (PFloat (Finite 1)) \<noteq> canonical_json sample_repr (PInt 1)"
proof -
  have "float_texts sample_repr {1, 1/2}"
    by (simp add: float_texts_def sample_repr_def num_char_def is_digit_def)
  note inject = canonical_json_injective [OF this]
  show ?thesis by (intro conjI, subst inject, simp_all add: key_text_def inject)
qed

text \<open>
  The strictness of the encoder stops short of mapping keys: their text is never checked, so a key
  with an unpaired surrogate is not a \<open>CanonicalizationError\<close> but fails inside the final encode.
\<close>

lemma surrogate_key_escapes_validation:
  "validate (PDict [(KSurrogate, PNone)]) [] = Inr ()"
  "canonical_json fr (PDict [(KSurrogate, PNone)]) = Inl UnicodeEncodeError"
  by (simp_all add: canonical_json_def)

end
