(* ===== verification/Hashing.thy ===== *)
theory Hashing
  imports Canonical
begin

text \<open>
  \<^verbatim>\<open>src/src/shapeflow/hashing.py\<close>: domain-separated identities and the Merkle root.
  \<open>hashlib.sha256(data).digest()\<close> is the parameter \<open>sha\<close>, a function from byte strings to byte
  strings; a property that needs the digest to be collision free says so as \<open>inj sha\<close>.
\<close>

datatype hash_error = InvalidDomain string | Uncanonical canon_error | NotHex

definition id_scheme_version :: string where
  "id_scheme_version = ''v2''"

definition id_prefix :: string where
  "id_prefix = ''shapeflow''"

definition id_sep :: string where
  "id_sep = [CHR 0x1F]"

subsection \<open>Hexadecimal text\<close>

fun hex_of :: "string \<Rightarrow> string" where
  "hex_of [] = []"
| "hex_of (c # cs) = hex_digit (of_char c div 16) # hex_digit (of_char c mod 16) # hex_of cs"

definition hex_val :: "char \<Rightarrow> nat option" where
  "hex_val c = (let n = of_char c in
     if 48 \<le> n \<and> n \<le> 57 then Some (n - 48)
     else if 97 \<le> n \<and> n \<le> 102 then Some (n - 87)
     else if 65 \<le> n \<and> n \<le> 70 then Some (n - 55)
     else None)"

text \<open>\<open>bytes.fromhex\<close> on text without white space.\<close>

fun fromhex :: "string \<Rightarrow> hash_error + string" where
  "fromhex [] = Inr []"
| "fromhex [c] = Inl NotHex"
| "fromhex (c # d # cs) =
     (case (hex_val c, hex_val d) of
        (Some h, Some l) \<Rightarrow> rbind (fromhex cs) (\<lambda>bs. Inr (char_of (16 * h + l) # bs))
      | _ \<Rightarrow> Inl NotHex)"

lemma hex_val_digit [simp]: "d < 16 \<Longrightarrow> hex_val (hex_digit d) = Some d"
  by (auto simp: hex_val_def hex_digit_def Let_def)

lemma fromhex_hex_of [simp]: "fromhex (hex_of s) = Inr s"
proof (induction s)
  case (Cons c s)
  have "of_char c < (256 :: nat)" by simp
  then have "of_char c div 16 < (16 :: nat)" by (simp add: less_mult_imp_div_less)
  then show ?case using Cons by simp
qed simp

lemma hex_of_inject [simp]: "hex_of s = hex_of t \<longleftrightarrow> s = t"
  by (metis fromhex_hex_of sum.inject(2))

definition sha256_hex :: "(string \<Rightarrow> string) \<Rightarrow> string \<Rightarrow> string" where
  "sha256_hex sha data = hex_of (sha data)"

subsection \<open>Derived identities\<close>

definition preimage :: "string \<Rightarrow> string \<Rightarrow> hash_error + string" where
  "preimage dom_tag payload =
     (if dom_tag = [] \<or> CHR 0x1F \<in> set dom_tag \<or> CHR 0x00 \<in> set dom_tag then Inl (InvalidDomain dom_tag)
      else Inr (join id_sep [id_prefix, id_scheme_version, dom_tag, payload]))"

definition derive_id ::
  "(string \<Rightarrow> string) \<Rightarrow> (real \<Rightarrow> string) \<Rightarrow> string \<Rightarrow> (string \<times> pyval) list \<Rightarrow> hash_error + string" where
  "derive_id sha fr dom_tag fields =
     (case canonical_json fr (PDict (map (\<lambda>(k, v). (KStr k, v)) fields)) of
        Inl e \<Rightarrow> Inl (Uncanonical e)
      | Inr payload \<Rightarrow> rbind (preimage dom_tag payload) (\<lambda>p. Inr (sha256_hex sha p)))"

definition content_id :: "(string \<Rightarrow> string) \<Rightarrow> string \<Rightarrow> hash_error + string" where
  "content_id sha raw = rbind (preimage ''content'' raw) (\<lambda>p. Inr (sha256_hex sha p))"

definition query_snapshot_id ::
  "(string \<Rightarrow> string) \<Rightarrow> (real \<Rightarrow> string) \<Rightarrow> string \<Rightarrow> (pykey \<times> pyval) list \<Rightarrow> string \<Rightarrow> string
     \<Rightarrow> hash_error + string" where
  "query_snapshot_id sha fr query params api_version schema_version =
     derive_id sha fr ''query_snapshot''
       [(''query'', PStr query), (''params'', PDict params),
        (''api_version'', PStr api_version), (''schema_version'', PStr schema_version)]"

definition occurrence_id ::
  "(string \<Rightarrow> string) \<Rightarrow> (real \<Rightarrow> string) \<Rightarrow> string \<Rightarrow> int \<Rightarrow> string \<Rightarrow> hash_error + string" where
  "occurrence_id sha fr qsid rank url =
     derive_id sha fr ''occurrence''
       [(''query_snapshot_id'', PStr qsid), (''rank'', PInt rank), (''url'', PStr url)]"

lemma split_at_sep:
  assumes "c \<notin> set a" and "c \<notin> set b" and "a @ c # s = b @ c # t"
  shows "a = b \<and> s = t"
proof -
  have tw: "takeWhile (\<lambda>x. x \<noteq> c) (u @ c # v) = u" if "c \<notin> set u" for u v
    using that by (induction u) auto
  have "a = b" using tw [OF assms(1)] tw [OF assms(2)] assms(3) by metis
  with assms(3) show ?thesis by simp
qed

lemma preimage_inject:
  assumes "preimage d p = Inr x" and "preimage e q = Inr x"
  shows "d = e \<and> p = q"
proof -
  have "d @ CHR 0x1F # p = e @ CHR 0x1F # q" and "CHR 0x1F \<notin> set d" and "CHR 0x1F \<notin> set e"
    using assms by (auto simp: preimage_def id_sep_def split: if_splits)
  then show ?thesis by (blast dest: split_at_sep)
qed

lemma content_id_inject:
  assumes "inj sha" and "content_id sha a = Inr x" and "content_id sha b = Inr x"
  shows "a = b"
proof -
  obtain p q where "preimage ''content'' a = Inr p" "preimage ''content'' b = Inr q" "sha p = sha q"
    using assms(2,3) by (auto simp: content_id_def result_elims sha256_hex_def)
  with assms(1) show ?thesis by (metis injD preimage_inject)
qed

text \<open>The fields of an identity as a value, and when they can be encoded.\<close>

definition str_dict :: "(string \<times> pyval) list \<Rightarrow> pyval" where
  "str_dict kvs = PDict (map (\<lambda>(k, v). (KStr k, v)) kvs)"

definition encodable_dict :: "(string \<times> pyval) list \<Rightarrow> bool" where
  "encodable_dict kvs \<longleftrightarrow> (\<forall>(k, v) \<in> set kvs. encodable v)"

lemma encodable_fields: "encodable_dict kvs \<Longrightarrow> encodable (str_dict kvs)"
  by (auto simp: encodable_dict_def str_dict_def)

definition id_fields_over :: "real set \<Rightarrow> (string \<times> pyval) list \<Rightarrow> bool" where
  "id_fields_over F fields \<longleftrightarrow> distinct (map fst fields) \<and> (\<forall>(k, v) \<in> set fields. jsonable_over F v)"

abbreviation id_fields :: "(string \<times> pyval) list \<Rightarrow> bool" where
  "id_fields \<equiv> id_fields_over {}"

lemmas id_fields_def = id_fields_over_def [of "{}"]

lemma jsonable_fields: "id_fields_over F fields \<Longrightarrow> jsonable_over F (str_dict fields)"
  by (auto simp: id_fields_over_def str_dict_def distinct_map inj_on_def) (metis fst_conv prod.inject)

lemma derive_id_over:
  "id_fields_over F fields \<Longrightarrow> derive_id sha fr dom_tag fields =
     rbind (preimage dom_tag (render fr (str_dict fields))) (\<lambda>p. Inr (sha256_hex sha p))"
  using canonical_json_over [OF jsonable_fields, of F fields fr]
  by (simp add: derive_id_def str_dict_def)

lemmas derive_id_jsonable = derive_id_over [where F = "{}"]

lemma derive_id_inject_over:
  assumes "inj sha" and "float_texts fr F" and "id_fields_over F fs" and "id_fields_over F gs"
    and "derive_id sha fr d fs = Inr x" and "derive_id sha fr e gs = Inr x"
  shows "d = e \<and> normal (str_dict fs) = normal (str_dict gs)"
proof -
  obtain p where p: "preimage d (render fr (str_dict fs)) = Inr p" and x: "x = sha256_hex sha p"
    using assms(3,5) by (auto simp: derive_id_over result_elims)
  moreover obtain q where "preimage e (render fr (str_dict gs)) = Inr q"
    and "x = sha256_hex sha q"
    using assms(4,6) by (auto simp: derive_id_over result_elims)
  moreover from calculation have "p = q" using assms(1) by (auto simp: sha256_hex_def dest: injD)
  ultimately have "d = e \<and> render fr (str_dict fs) = render fr (str_dict gs)"
    by (blast dest: preimage_inject)
  then show ?thesis
    using render_prefix [OF assms(2), of "str_dict fs" "str_dict gs" "[]" "[]"]
      jsonable_fields [OF assms(3)] jsonable_fields [OF assms(4)]
    by (auto simp: delim_def)
qed

lemmas derive_id_inject = derive_id_inject_over [OF _ float_texts_empty]

text \<open>Identities over the same named fields: always derivable, and equal only for equal fields.\<close>

lemma derive_id_total:
  assumes "id_fields fs" and "d \<noteq> []" and "CHR 0x1F \<notin> set d" and "CHR 0x00 \<notin> set d"
  shows "\<exists>x. derive_id sha fr d fs = Inr x"
  using assms by (simp add: derive_id_jsonable preimage_def)

lemma same_keys_set_eq:
  assumes "map fst xs = map fst ys" and "distinct (map fst xs)" and "set xs = set ys"
  shows "xs = ys"
proof -
  have rebuild: "zs = map (\<lambda>k. (k, the (map_of zs k))) (map fst zs)" if "distinct (map fst zs)"
    for zs :: "('a \<times> 'b) list"
  proof (rule pair_list_eqI)
    show "map snd zs = map snd (map (\<lambda>k. (k, the (map_of zs k))) (map fst zs))"
      using that by (auto intro!: map_cong simp: split_beta)
  qed (simp add: comp_def)
  have "map_of xs = map_of ys" using assms by (simp add: map_of_inject_set)
  with rebuild [of xs] rebuild [of ys] assms(1,2) show ?thesis by metis
qed

lemma normal_str_dict:
  assumes "distinct (map fst xs)" and "map fst xs = map fst ys"
  shows "normal (str_dict xs) = normal (str_dict ys) \<longleftrightarrow> map (normal \<circ> snd) xs = map (normal \<circ> snd) ys"
proof -
  let ?n = "map (\<lambda>(k, v). (KStr k, normal v))"
  have n: "map (\<lambda>(k, v). (k, normal v)) (map (\<lambda>(k, v). (KStr k, v)) zs) = ?n zs" for zs
    by (simp add: case_prod_unfold)
  have keys: "map fst (?n zs) = map KStr (map fst zs)" for zs
    by (simp add: case_prod_unfold)
  have vals: "map snd (?n zs) = map (normal \<circ> snd) zs" for zs
    by (simp add: case_prod_unfold)
  have same: "?n xs = ?n ys \<longleftrightarrow> map (normal \<circ> snd) xs = map (normal \<circ> snd) ys"
    by (metis assms(2) keys vals pair_list_eqI)
  have "set (?n xs) = set (?n ys) \<Longrightarrow> ?n xs = ?n ys"
    by (rule same_keys_set_eq) (simp_all only: keys assms(2), use assms in \<open>auto simp: distinct_map inj_on_def\<close>)
  then have "normal (str_dict xs) = normal (str_dict ys) \<longleftrightarrow> ?n xs = ?n ys"
    unfolding str_dict_def by (simp only: normal.simps normal_entries_map n pyval.inject) (metis set_sort)
  with same show ?thesis by simp
qed

lemma derive_id_same_keys:
  assumes "inj sha" and "id_fields fs" and "id_fields gs" and "map fst fs = map fst gs"
    and "derive_id sha fr d fs = Inr x" and "derive_id sha fr e gs = Inr x"
  shows "d = e \<and> map (normal \<circ> snd) fs = map (normal \<circ> snd) gs"
proof -
  have "d = e \<and> normal (str_dict fs) = normal (str_dict gs)"
    by (rule derive_id_inject [OF assms(1-3,5,6)])
  moreover have "distinct (map fst fs)" using assms(2) by (simp add: id_fields_def)
  ultimately show ?thesis using normal_str_dict assms(4) by blast
qed

text \<open>
  C2. Domain separation: with a collision-free digest, two derived identities are equal only when
  they commit to the same domain tag and to the same field values, the floats among the fields being
  from a set \<open>F\<close> on which \<open>repr\<close> is injective and writes a number with a point or an exponent.
\<close>

theorem derive_id_domain_separated:
  assumes "inj sha" and "float_texts fr F" and "id_fields_over F fs" and "id_fields_over F gs"
    and "derive_id sha fr d fs = Inr x" and "derive_id sha fr e gs = Inr x"
  shows "d = e \<and> normal (str_dict fs) = normal (str_dict gs)"
  by (rule derive_id_inject_over [OF assms])

theorem derive_id_domain_separated_witness:
  "derive_id (\<lambda>s. s) sample_repr ''occurrence'' [(''rank'', PFloat (Finite 1))]
     \<noteq> derive_id (\<lambda>s. s) sample_repr ''occurrence'' [(''rank'', PInt 1)]"
proof
  assume same: "derive_id (\<lambda>s. s) sample_repr ''occurrence'' [(''rank'', PFloat (Finite 1))]
     = derive_id (\<lambda>s. s) sample_repr ''occurrence'' [(''rank'', PInt 1)]"
  have inj: "inj (\<lambda>s :: string. s)" by (simp add: inj_def)
  have fr: "float_texts sample_repr {1}"
    by (simp add: float_texts_def sample_repr_def num_char_def is_digit_def)
  have ok: "id_fields_over {1} [(''rank'', PFloat (Finite 1))]" "id_fields_over {1} [(''rank'', PInt 1)]"
    "id_fields [(''rank'', PInt 1)]"
    by (simp_all add: id_fields_over_def)
  obtain x where x: "derive_id (\<lambda>s. s) sample_repr ''occurrence'' [(''rank'', PInt 1)] = Inr x"
    using derive_id_total [OF ok(3), of "''occurrence''"] by fastforce
  from derive_id_domain_separated [OF inj fr ok(1,2) same [unfolded x] x] show False by (simp add: str_dict_def)
qed

subsection \<open>Merkle root\<close>

text \<open>One level up: adjacent digests are hashed in pairs, an odd last one with itself.\<close>

fun merkle_level :: "(string \<Rightarrow> string) \<Rightarrow> string list \<Rightarrow> string list" where
  "merkle_level sha [] = []"
| "merkle_level sha [l] = [sha (l @ l)]"
| "merkle_level sha (l # r # rest) = sha (l @ r) # merkle_level sha rest"

lemma length_merkle_level: "length (merkle_level sha ls) = (length ls + 1) div 2"
  by (induction sha ls rule: merkle_level.induct) auto

function merkle_climb :: "(string \<Rightarrow> string) \<Rightarrow> string list \<Rightarrow> string list" where
  "merkle_climb sha level =
     (if 1 < length level then merkle_climb sha (merkle_level sha level) else level)"
  by pat_completeness auto
termination
  by (relation "measure (\<lambda>(sha, level). length level)") (auto simp: length_merkle_level)

declare merkle_climb.simps [simp del]

definition merkle_root :: "(string \<Rightarrow> string) \<Rightarrow> string list \<Rightarrow> hash_error + string" where
  "merkle_root sha leaves =
     (if leaves = [] then Inr (sha256_hex sha [])
      else rbind (rmap fromhex (sort leaves))
        (\<lambda>level. Inr (hex_of (hd (merkle_climb sha level)))))"

text \<open>The code's loop always ends with exactly one digest.\<close>

lemma merkle_climb_single: "level \<noteq> [] \<Longrightarrow> length (merkle_climb sha level) = 1"
proof (induction sha level rule: merkle_climb.induct)
  case (1 sha level)
  show ?case
  proof (cases "1 < length level")
    case True
    then have "merkle_level sha level \<noteq> []"
      by (cases level; cases "tl level") auto
    with True "1.IH" show ?thesis by (simp add: merkle_climb.simps [of sha level])
  next
    case False
    with "1.prems" obtain l where "level = [l]" by (cases level; cases "tl level") auto
    then show ?thesis by (simp add: merkle_climb.simps [of sha "[l]"])
  qed
qed

lemma merkle_root_perm:
  "mset xs = mset ys \<Longrightarrow> merkle_root sha xs = merkle_root sha ys"
  by (simp add: merkle_root_def flip: sorted_list_of_multiset_mset) (metis mset_zero_iff)

lemma merkle_level_duplicate_last:
  "odd (length ls) \<Longrightarrow> merkle_level sha (ls @ [last ls]) = merkle_level sha ls"
  by (induction sha ls rule: merkle_level.induct) auto

lemma merkle_climb_duplicate_last:
  assumes "odd (length level)" and "1 < length level"
  shows "merkle_climb sha (level @ [last level]) = merkle_climb sha level"
proof -
  have "1 < length (level @ [last level])" using assms(2) by auto
  then show ?thesis
    by (simp only: merkle_climb.simps [of sha level] merkle_climb.simps [of sha "level @ [last level]"]
        assms(2) merkle_level_duplicate_last [OF assms(1)] if_True)
qed

text \<open>
   The Merkle root does not see a repeated last leaf: over an odd number of (sorted) leaves, three
  or more, it is the same as over those leaves with the largest one appended once more, because the
  odd digest of a level is paired with itself.
\<close>

theorem merkle_root_duplicate_last:
  assumes "sorted leaves" and "odd (length leaves)" and "1 < length leaves"
  shows "merkle_root sha (leaves @ [last leaves]) = merkle_root sha leaves"
proof -
  have ne: "leaves \<noteq> []" using assms(3) by auto
  then have "sorted (leaves @ [last leaves])"
    using assms(1) sorted_append [of "butlast leaves" "[last leaves]"]
    by (cases leaves rule: rev_cases) (auto simp: sorted_append)
  then have sorts: "sort (leaves @ [last leaves]) = leaves @ [last leaves]" "sort leaves = leaves"
    using assms(1) by (simp_all add: sort_key_id_if_sorted sorted_sort_id)
  show ?thesis
  proof (cases "rmap fromhex leaves")
    case (Inl e)
    with sorts ne show ?thesis by (simp add: merkle_root_def rmap_append)
  next
    case (Inr level)
    then have len: "length leaves = length level"
      and nth: "\<forall>i < length leaves. fromhex (leaves ! i) = Inr (level ! i)"
      by (simp_all add: rmap_Inr_iff list_all2_conv_all_nth)
    moreover from len ne have "level \<noteq> []" by auto
    ultimately have "fromhex (last leaves) = Inr (last level)"
      using ne by (simp add: last_conv_nth)
    with len have "fromhex (last leaves) = Inr (last level)" and "length level = length leaves"
      by simp_all
    with sorts ne Inr assms(2,3) merkle_climb_duplicate_last [of level sha]
    show ?thesis by (simp add: merkle_root_def rmap_append)
  qed
qed

theorem merkle_root_duplicate_last_witness:
  "merkle_root (\<lambda>s. s) [''00'', ''01'', ''02'', ''02''] = merkle_root (\<lambda>s. s) [''00'', ''01'', ''02'']"
  using merkle_root_duplicate_last [of "[''00'', ''01'', ''02'']" "\<lambda>s. s"] by simp

end
