(* ===== verification/Offer.thy ===== *)
theory Offer
  imports Hashing
begin

text \<open>
  The types of the offer contract: \<^verbatim>\<open>runtime/request_tags.py\<close> (op classes),
  \<^verbatim>\<open>contracts/observability.py\<close> (the closed feature map) and \<^verbatim>\<open>contracts/offer.py\<close>
  (plans, offers, snapshots, decisions), all under \<^verbatim>\<open>src/src/shapeflow\<close>. A frozen dataclass
  is a record, its \<open>__post_init__\<close> a checked constructor, its \<open>content()\<close> the value that is
  canonically encoded.
\<close>

subsection \<open>Op classes\<close>

datatype op_class =
    PAGE_P0_SUMMARY
  | PAGE_P1_SELECTOR_LOCAL
  | PAGE_P1_SELECTOR_GLOBAL
  | PAGE_P1_SELECTOR_BATCH
  | PAGE_P1_SHORT_PROSE
  | RESEARCHER_REACT
  | COMPRESSOR_P0
  | COMPRESSOR_P1_SELECTOR
  | COMPRESSOR_SHORT_PROSE
  | SUPERVISOR_CONTINUE
  | FINAL_WRITER
  | JUDGE_ATOMIZE
  | JUDGE_TRUTH
  | JUDGE_REPORT
  | JUDGE_EXPLAIN
  | TASK_AUTHOR

primrec op_value :: "op_class \<Rightarrow> string" where
  "op_value PAGE_P0_SUMMARY = ''PAGE_P0_SUMMARY''"
| "op_value PAGE_P1_SELECTOR_LOCAL = ''PAGE_P1_SELECTOR_LOCAL''"
| "op_value PAGE_P1_SELECTOR_GLOBAL = ''PAGE_P1_SELECTOR_GLOBAL''"
| "op_value PAGE_P1_SELECTOR_BATCH = ''PAGE_P1_SELECTOR_BATCH''"
| "op_value PAGE_P1_SHORT_PROSE = ''PAGE_P1_SHORT_PROSE''"
| "op_value RESEARCHER_REACT = ''RESEARCHER_REACT''"
| "op_value COMPRESSOR_P0 = ''COMPRESSOR_P0''"
| "op_value COMPRESSOR_P1_SELECTOR = ''COMPRESSOR_P1_SELECTOR''"
| "op_value COMPRESSOR_SHORT_PROSE = ''COMPRESSOR_SHORT_PROSE''"
| "op_value SUPERVISOR_CONTINUE = ''SUPERVISOR_CONTINUE''"
| "op_value FINAL_WRITER = ''FINAL_WRITER''"
| "op_value JUDGE_ATOMIZE = ''JUDGE_ATOMIZE''"
| "op_value JUDGE_TRUTH = ''JUDGE_TRUTH''"
| "op_value JUDGE_REPORT = ''JUDGE_REPORT''"
| "op_value JUDGE_EXPLAIN = ''JUDGE_EXPLAIN''"
| "op_value TASK_AUTHOR = ''TASK_AUTHOR''"

definition treatment_ops :: "op_class list" where
  "treatment_ops =
     [PAGE_P0_SUMMARY, PAGE_P1_SELECTOR_LOCAL, PAGE_P1_SELECTOR_GLOBAL, PAGE_P1_SELECTOR_BATCH,
      PAGE_P1_SHORT_PROSE, RESEARCHER_REACT, COMPRESSOR_P0, COMPRESSOR_P1_SELECTOR,
      COMPRESSOR_SHORT_PROSE, SUPERVISOR_CONTINUE, FINAL_WRITER]"

definition judge_ops :: "op_class list" where
  "judge_ops = [JUDGE_ATOMIZE, JUDGE_TRUTH, JUDGE_REPORT, JUDGE_EXPLAIN]"

definition remote_allowed_ops :: "op_class list" where
  "remote_allowed_ops = judge_ops @ [TASK_AUTHOR]"

definition is_treatment_work :: "op_class \<Rightarrow> bool" where
  "is_treatment_work op \<longleftrightarrow> op \<in> set treatment_ops"

text \<open>
   The remote provider's op classes are exactly the complement of the treatment path, so no op
  class is both served remotely and counted as treatment work, and none is unclassified.
\<close>

theorem treatment_remote_partition:
  "is_treatment_work op \<longleftrightarrow> op \<notin> set remote_allowed_ops"
  by (cases op) (simp_all add: is_treatment_work_def treatment_ops_def remote_allowed_ops_def
      judge_ops_def)

subsection \<open>The closed feature map\<close>

datatype feature_kind = KSTATE | KCOUNTER | KCOMPLETED | KLOCAL | KOFFER

record observable_feature =
  of_name :: string
  of_kind :: feature_kind
  of_source :: string

definition feature :: "string \<Rightarrow> feature_kind \<Rightarrow> string \<Rightarrow> observable_feature" where
  "feature name kind source = \<lparr>of_name = name, of_kind = kind, of_source = source\<rparr>"

definition features_table :: "observable_feature list" where
  "features_table =
    [feature ''engine.num_requests_running'' KSTATE ''vllm:num_requests_running'',
     feature ''engine.num_requests_waiting'' KSTATE ''vllm:num_requests_waiting'',
     feature ''engine.num_requests_waiting_by_reason'' KSTATE ''vllm:num_requests_waiting_by_reason'',
     feature ''engine.kv_cache_usage_perc'' KSTATE ''vllm:kv_cache_usage_perc'',
     feature ''engine.prefix_cache_queries'' KCOUNTER ''vllm:prefix_cache_queries'',
     feature ''engine.prefix_cache_hits'' KCOUNTER ''vllm:prefix_cache_hits'',
     feature ''engine.prompt_tokens_cached'' KCOUNTER ''vllm:prompt_tokens_cached'',
     feature ''engine.num_preemptions'' KCOUNTER ''vllm:num_preemptions'',
     feature ''engine.iteration_tokens_total'' KCOUNTER ''vllm:iteration_tokens_total'',
     feature ''engine.ttft_seconds'' KCOMPLETED ''vllm:time_to_first_token_seconds'',
     feature ''engine.inter_token_latency_seconds'' KCOMPLETED ''vllm:inter_token_latency_seconds'',
     feature ''engine.request_queue_time_seconds'' KCOMPLETED ''vllm:request_queue_time_seconds'',
     feature ''local.inflight_total'' KLOCAL ''broker'',
     feature ''local.inflight_by_op_class'' KLOCAL ''broker'',
     feature ''local.queue_depth_by_op_class'' KLOCAL ''broker'',
     feature ''local.offer_age_ns'' KLOCAL ''broker'',
     feature ''local.deadline_slack_ns'' KLOCAL ''broker'',
     feature ''offer.boundary'' KOFFER ''offer'',
     feature ''offer.batch_size'' KOFFER ''offer'',
     feature ''offer.page_tokens_total'' KOFFER ''offer'',
     feature ''offer.page_tokens_max'' KOFFER ''offer'',
     feature ''offer.page_tokens_p90'' KOFFER ''offer'',
     feature ''offer.chunk_count'' KOFFER ''offer'',
     feature ''offer.chunk_len_mean'' KOFFER ''offer'',
     feature ''offer.chunk_len_p90'' KOFFER ''offer'',
     feature ''offer.retrieval_score_mean'' KOFFER ''offer'',
     feature ''offer.retrieval_rank_mean'' KOFFER ''offer'',
     feature ''offer.query_page_overlap'' KOFFER ''offer'',
     feature ''offer.table_list_density'' KOFFER ''offer'',
     feature ''offer.language'' KOFFER ''offer'',
     feature ''offer.researcher_iteration'' KOFFER ''offer'',
     feature ''offer.supervisor_iteration'' KOFFER ''offer'',
     feature ''offer.selector_prefill_tokens'' KOFFER ''offer'',
     feature ''offer.est_uncached_prefill'' KOFFER ''offer'',
     feature ''offer.est_cached_prefill'' KOFFER ''offer'',
     feature ''offer.est_decode'' KOFFER ''offer'']"

definition observable_names :: "string list" where
  "observable_names = map of_name features_table"

datatype feature_error = UnobservableFeature "string list" | FeatureKeyError string

type_synonym feature_map = "(string \<times> pyval) list"

definition make_feature_map :: "(string \<times> pyval) list \<Rightarrow> feature_error + feature_map" where
  "make_feature_map values =
     (let unknown = sort (filter (\<lambda>k. k \<notin> set observable_names) (map fst values))
      in if unknown \<noteq> [] then Inl (UnobservableFeature unknown) else Inr values)"

definition fm_getitem :: "feature_map \<Rightarrow> string \<Rightarrow> feature_error + pyval" where
  "fm_getitem m key =
     (if key \<notin> set observable_names then Inl (UnobservableFeature [key])
      else (case map_of m key of None \<Rightarrow> Inl (FeatureKeyError key) | Some v \<Rightarrow> Inr v))"

text \<open>
  \<open>get\<close> and \<open>in\<close> are inherited from \<open>collections.abc.Mapping\<close>: both index the map and treat a
  \<open>KeyError\<close> as absence. \<open>UnobservableFeature\<close> is a subclass of \<open>KeyError\<close>.
\<close>

definition fm_get :: "feature_map \<Rightarrow> string \<Rightarrow> pyval \<Rightarrow> pyval" where
  "fm_get m key dflt = (case fm_getitem m key of Inl e \<Rightarrow> dflt | Inr v \<Rightarrow> v)"

definition fm_contains :: "feature_map \<Rightarrow> string \<Rightarrow> bool" where
  "fm_contains m key = (case fm_getitem m key of Inl e \<Rightarrow> False | Inr v \<Rightarrow> True)"

text \<open>
   A feature map that was constructed holds registered features only, and reading an unregistered
  feature by index always raises, naming the feature.
\<close>

theorem feature_map_closed:
  assumes "make_feature_map values = Inr m" and "key \<notin> set observable_names"
  shows "set (map fst m) \<subseteq> set observable_names \<and> key \<notin> set (map fst m)
    \<and> fm_getitem m key = Inl (UnobservableFeature [key])"
proof -
  have "filter (\<lambda>k. k \<notin> set observable_names) (map fst values) = []" and "m = values"
    using assms(1) by (auto simp: make_feature_map_def Let_def split: if_splits)
      (metis sort_key_simps(1) length_0_conv length_sort)+
  with assms(2) show ?thesis by (auto simp: filter_empty_conv fm_getitem_def)
qed

theorem feature_map_closed_witness:
  "set (map fst [(''local.inflight_total'', PInt 0)]) \<subseteq> set observable_names
   \<and> ''engine.finish_ms'' \<notin> set (map fst [(''local.inflight_total'', PInt 0)])
   \<and> fm_getitem [(''local.inflight_total'', PInt 0)] ''engine.finish_ms''
       = Inl (UnobservableFeature [''engine.finish_ms''])"
proof -
  have ok: "make_feature_map [(''local.inflight_total'', PInt 0)]
      = Inr [(''local.inflight_total'', PInt 0)]"
    by code_simp
  have key: "''engine.finish_ms'' \<notin> set observable_names" by code_simp
  show ?thesis using feature_map_closed [OF ok key] by blast
qed

text \<open>
   The refusal does not extend to \<open>get\<close>: reading an unregistered feature through the inherited
  \<open>Mapping.get\<close> silently yields the caller's default, because the refusal is a \<open>KeyError\<close>.
\<close>

theorem feature_map_get_is_softened:
  assumes "key \<notin> set observable_names"
  shows "fm_get m key dflt = dflt \<and> \<not> fm_contains m key"
  using assms by (simp_all add: fm_get_def fm_contains_def fm_getitem_def)

theorem feature_map_get_is_softened_witness:
  "fm_get [] ''engine.finish_ms'' (PInt 0) = PInt 0 \<and> \<not> fm_contains [] ''engine.finish_ms''"
proof -
  have key: "''engine.finish_ms'' \<notin> set observable_names" by code_simp
  show ?thesis using feature_map_get_is_softened [OF key] by blast
qed

subsection \<open>Plans and offers\<close>

datatype form = P0 | P1

datatype boundary = AtH | AtC

primrec form_value :: "form \<Rightarrow> string" where
  "form_value P0 = ''P0''"
| "form_value P1 = ''P1''"

primrec boundary_value :: "boundary \<Rightarrow> string" where
  "boundary_value AtH = ''H''"
| "boundary_value AtC = ''C''"

datatype contract_violation =
    NoRequests
  | NoP1Plan string
  | AdmittedWithoutForm "string list"
  | FormWithoutAdmission "string list"
  | AdmittedAndDeferred "string list"
  | UnofferedItems "string list"
  | P1NotOffered string

record request_descriptor =
  rd_op_class :: op_class
  rd_prompt_sha256 :: string
  rd_max_tokens :: int
  rd_est_uncached_prefill :: int
  rd_est_cached_prefill :: int
  rd_est_decode :: int

definition request_content :: "request_descriptor \<Rightarrow> pyval" where
  "request_content r = str_dict
     [(''op_class'', PStr (op_value (rd_op_class r))),
      (''prompt_sha256'', PStr (rd_prompt_sha256 r)),
      (''max_tokens'', PInt (rd_max_tokens r)),
      (''est_uncached_prefill'', PInt (rd_est_uncached_prefill r)),
      (''est_cached_prefill'', PInt (rd_est_cached_prefill r)),
      (''est_decode'', PInt (rd_est_decode r))]"

record render_descriptor =
  rn_est_cpu_ms :: pyfloat
  rn_candidate_count :: int

definition render_content :: "render_descriptor \<Rightarrow> pyval" where
  "render_content r = str_dict
     [(''est_cpu_ms'', PFloat (rn_est_cpu_ms r)), (''candidate_count'', PInt (rn_candidate_count r))]"

record p0_plan =
  p0_requests :: "request_descriptor list"

definition make_p0_plan :: "request_descriptor list \<Rightarrow> contract_violation + p0_plan" where
  "make_p0_plan rs = (if rs = [] then Inl NoRequests else Inr \<lparr>p0_requests = rs\<rparr>)"

definition p0_content :: "p0_plan \<Rightarrow> pyval" where
  "p0_content p = str_dict
     [(''form'', PStr ''P0''), (''requests'', PList (map request_content (p0_requests p)))]"

record p1_plan =
  p1_selector :: request_descriptor
  p1_render :: render_descriptor

definition p1_content :: "p1_plan \<Rightarrow> pyval" where
  "p1_content p = str_dict
     [(''form'', PStr ''P1''), (''selector'', request_content (p1_selector p)),
      (''render'', render_content (p1_render p))]"

record offer =
  item_id :: string
  offer_boundary :: boundary
  unit_id :: string
  offer_p0 :: p0_plan
  submitted_at_ns :: int
  offer_p1 :: "p1_plan option"
  deadline_ns :: "int option"

datatype plan = PlanP0 p0_plan | PlanP1 p1_plan

definition forms :: "offer \<Rightarrow> form list" where
  "forms ofr = (case offer_p1 ofr of None \<Rightarrow> [P0] | Some _ \<Rightarrow> [P0, P1])"

definition plan_for :: "offer \<Rightarrow> form \<Rightarrow> contract_violation + plan" where
  "plan_for ofr f =
     (if f = P0 then Inr (PlanP0 (offer_p0 ofr))
      else (case offer_p1 ofr of None \<Rightarrow> Inl (NoP1Plan (item_id ofr)) | Some p \<Rightarrow> Inr (PlanP1 p)))"

text \<open>\<open>plan.requests if form is Form.P0 else (plan.selector,)\<close>, as the host and the policy read it.\<close>

definition plan_requests :: "plan \<Rightarrow> request_descriptor list" where
  "plan_requests p = (case p of PlanP0 q \<Rightarrow> p0_requests q | PlanP1 q \<Rightarrow> [p1_selector q])"

definition opt_val :: "('a \<Rightarrow> pyval) \<Rightarrow> 'a option \<Rightarrow> pyval" where
  "opt_val f x = (case x of None \<Rightarrow> PNone | Some v \<Rightarrow> f v)"

definition offer_content :: "offer \<Rightarrow> pyval" where
  "offer_content ofr = str_dict
     [(''item_id'', PStr (item_id ofr)),
      (''boundary'', PStr (boundary_value (offer_boundary ofr))),
      (''unit_id'', PStr (unit_id ofr)),
      (''p0'', p0_content (offer_p0 ofr)),
      (''p1'', opt_val p1_content (offer_p1 ofr)),
      (''submitted_at_ns'', PInt (submitted_at_ns ofr)),
      (''deadline_ns'', opt_val PInt (deadline_ns ofr))]"

lemma plan_for_P0 [simp]: "plan_for ofr P0 = Inr (PlanP0 (offer_p0 ofr))"
  by (simp add: plan_for_def)

lemma plan_for_offered: "f \<in> set (forms ofr) \<longleftrightarrow> (\<exists>p. plan_for ofr f = Inr p)"
  by (cases f) (auto simp: forms_def plan_for_def split: option.splits)

subsection \<open>Snapshots\<close>

record snapshot_version =
  sv_epoch :: string
  sv_tick :: int

definition version_content :: "snapshot_version \<Rightarrow> pyval" where
  "version_content v = str_dict [(''epoch'', PStr (sv_epoch v)), (''tick'', PInt (sv_tick v))]"

record scheduler_snapshot =
  sn_version :: snapshot_version
  sn_taken_at_ns :: int
  sn_features :: feature_map

definition age_ns :: "scheduler_snapshot \<Rightarrow> int \<Rightarrow> int" where
  "age_ns s now_ns = max 0 (now_ns - sn_taken_at_ns s)"

subsection \<open>Decisions\<close>

record decision =
  dc_admitted :: "string list"
  dc_form :: "(string \<times> form) list"
  dc_deferred :: "string list"
  dc_snapshot_version :: snapshot_version
  dc_solve_ns :: int
  dc_fail_closed :: bool
  dc_reason :: string

definition decision_check :: "decision \<Rightarrow> contract_violation + unit" where
  "decision_check d =
     (let missing = filter (\<lambda>i. i \<notin> set (map fst (dc_form d))) (dc_admitted d);
          extra = filter (\<lambda>i. i \<notin> set (dc_admitted d)) (map fst (dc_form d));
          overlap = sort (dedup (filter (\<lambda>i. i \<in> set (dc_deferred d)) (dc_admitted d)))
      in if missing \<noteq> [] then Inl (AdmittedWithoutForm missing)
         else if extra \<noteq> [] then Inl (FormWithoutAdmission extra)
         else if overlap \<noteq> [] then Inl (AdmittedAndDeferred overlap)
         else Inr ())"

definition make_decision :: "decision \<Rightarrow> contract_violation + decision" where
  "make_decision d = rbind (decision_check d) (\<lambda>_. Inr d)"

definition decision_content :: "decision \<Rightarrow> pyval" where
  "decision_content d = str_dict
     [(''admitted'', PList (map PStr (dc_admitted d))),
      (''form'', str_dict (map (\<lambda>(k, f). (k, PStr (form_value f))) (sort_key fst (dc_form d)))),
      (''deferred'', PList (map PStr (dc_deferred d))),
      (''snapshot_version'', version_content (dc_snapshot_version d)),
      (''fail_closed'', PBool (dc_fail_closed d)),
      (''reason'', PStr (dc_reason d))]"

definition decision_digest ::
  "(string \<Rightarrow> string) \<Rightarrow> (real \<Rightarrow> string) \<Rightarrow> decision \<Rightarrow> canon_error + string" where
  "decision_digest sha fr d =
     rbind (canonical_json fr (decision_content d)) (\<lambda>s. Inr (sha256_hex sha s))"

record materialize_result =
  mr_materialized :: "string list"
  mr_dispatched :: "(string \<times> int) list"
  mr_degraded_to_p0 :: "string list"

definition result_content :: "materialize_result \<Rightarrow> pyval" where
  "result_content r = str_dict
     [(''materialized'', PList (map PStr (mr_materialized r))),
      (''dispatched'', str_dict (map (\<lambda>(k, n). (k, PInt n)) (sort_key fst (mr_dispatched r)))),
      (''degraded_to_p0'', PList (map PStr (mr_degraded_to_p0 r)))]"

text \<open>A dict has one entry per key.\<close>

definition decision_dict_ok :: "decision \<Rightarrow> bool" where
  "decision_dict_ok d \<longleftrightarrow> distinct (map fst (dc_form d))"

text \<open>What a constructed decision guarantees.\<close>

definition decision_wf :: "decision \<Rightarrow> bool" where
  "decision_wf d \<longleftrightarrow>
     set (map fst (dc_form d)) = set (dc_admitted d)
     \<and> set (dc_admitted d) \<inter> set (dc_deferred d) = {}"

lemma decision_check_wf: "decision_check d = Inr () \<longleftrightarrow> decision_wf d"
proof -
  have overlap: "sort (dedup xs) = [] \<longleftrightarrow> xs = []" for xs :: "string list"
    by (metis length_0_conv length_sort set_dedup set_empty)
  show ?thesis
    by (auto simp: decision_check_def decision_wf_def Let_def overlap filter_empty_conv)
qed

lemma make_decision_Inr: "make_decision d = Inr d' \<longleftrightarrow> d' = d \<and> decision_wf d"
  by (auto simp: make_decision_def result_elims simp flip: decision_check_wf)

subsection \<open>The identity of a decision\<close>

lemma sort_key_fst_map_of:
  fixes xs ys :: "('k :: linorder \<times> 'v) list"
  assumes "distinct (map fst xs)" and "distinct (map fst ys)"
  shows "sort_key fst xs = sort_key fst ys \<longleftrightarrow> map_of xs = map_of ys"
proof
  assume "sort_key fst xs = sort_key fst ys"
  then have "set xs = set ys" by (metis set_sort)
  with assms show "map_of xs = map_of ys" by (simp add: map_of_inject_set)
next
  assume "map_of xs = map_of ys"
  with assms have sets: "set xs = set ys" by (simp add: map_of_inject_set)
  show "sort_key fst xs = sort_key fst ys"
  proof (rule map_sorted_distinct_set_unique [where f = fst])
    show "inj_on fst (set (sort_key fst xs) \<union> set (sort_key fst ys))"
      using assms sets by (simp add: distinct_map)
  qed (use assms sets in \<open>simp_all add: distinct_map\<close>)
qed

lemma jsonable_str_dict:
  "distinct (map fst xs) \<Longrightarrow> \<forall>(k, v) \<in> set xs. jsonable v \<Longrightarrow> jsonable (str_dict xs)"
  by (rule jsonable_fields) (simp add: id_fields_def)

lemma jsonable_decision: "decision_dict_ok d \<Longrightarrow> jsonable (decision_content d)"
  by (auto simp: decision_content_def decision_dict_ok_def version_content_def split_beta distinct_map
      inj_on_def intro!: jsonable_str_dict)

lemma form_value_inject [simp]: "form_value f = form_value g \<longleftrightarrow> f = g"
  by (cases f; cases g) simp_all

lemma map_PStr_inject [simp]: "map PStr xs = map PStr ys \<longleftrightarrow> xs = ys"
  by (simp add: inj_map_eq_map inj_def)

lemma normal_form_dict:
  assumes "distinct (map fst fs)" and "distinct (map fst gs)"
  shows "normal (str_dict (map (\<lambda>(k, f). (k, PStr (form_value f))) (sort_key fst fs)))
      = normal (str_dict (map (\<lambda>(k, f). (k, PStr (form_value f))) (sort_key fst gs)))
    \<longleftrightarrow> map_of fs = map_of gs" (is "normal (str_dict (?m fs)) = normal (str_dict (?m gs)) \<longleftrightarrow> _")
proof
  assume eq: "normal (str_dict (?m fs)) = normal (str_dict (?m gs))"
  have n: "normal (str_dict (?m hs)) = PDict (map (\<lambda>(k, f). (KStr k, PStr (form_value f))) (sort_key fst hs))" for hs
    by (simp add: str_dict_def normal_dict sort_key_map case_prod_unfold comp_def key_text_def
        sort_key_id_if_sorted del: normal.simps(2))
  have "sort_key fst fs = sort_key fst gs"
    using eq unfolding n by (auto simp: inj_map_eq_map inj_def split_beta prod_eq_iff)
  with assms show "map_of fs = map_of gs" by (simp add: sort_key_fst_map_of)
next
  assume "map_of fs = map_of gs"
  with assms have "sort_key fst fs = sort_key fst gs" by (simp add: sort_key_fst_map_of)
  then show "normal (str_dict (?m fs)) = normal (str_dict (?m gs))" by simp
qed

text \<open>
   A decision's digest identifies the answer and nothing else: with a collision-free hash, two
  decisions have equal digests exactly when they agree on everything but the solve time.
\<close>

theorem decision_digest_identifies:
  assumes "inj sha" and "decision_dict_ok d" and "decision_dict_ok e"
  shows "decision_digest sha fr d = decision_digest sha fr e \<longleftrightarrow>
      dc_admitted d = dc_admitted e \<and> map_of (dc_form d) = map_of (dc_form e)
      \<and> dc_deferred d = dc_deferred e \<and> dc_snapshot_version d = dc_snapshot_version e
      \<and> dc_fail_closed d = dc_fail_closed e \<and> dc_reason d = dc_reason e"
proof -
  have ver: "normal (version_content v) = normal (version_content w) \<longleftrightarrow> v = w" for v w
    unfolding version_content_def by (subst normal_str_dict) auto
  have "decision_digest sha fr d = decision_digest sha fr e \<longleftrightarrow>
      canonical_json fr (decision_content d) = canonical_json fr (decision_content e)"
    using assms jsonable_decision canonical_json_jsonable
    by (auto simp: decision_digest_def sha256_hex_def dest: injD)
  also have "\<dots> \<longleftrightarrow> normal (decision_content d) = normal (decision_content e)"
    using assms by (simp add: canonical_json_eq_iff jsonable_decision)
  also have "\<dots> \<longleftrightarrow> dc_admitted d = dc_admitted e \<and> map_of (dc_form d) = map_of (dc_form e)
      \<and> dc_deferred d = dc_deferred e \<and> dc_snapshot_version d = dc_snapshot_version e
      \<and> dc_fail_closed d = dc_fail_closed e \<and> dc_reason d = dc_reason e"
    unfolding decision_content_def
    by (subst normal_str_dict)
       (use assms(2,3) in \<open>auto simp: normal_form_dict ver decision_dict_ok_def comp_def\<close>)
  finally show ?thesis .
qed

definition sample_decision :: "int \<Rightarrow> decision" where
  "sample_decision solve_ns =
     \<lparr>dc_admitted = [''a''], dc_form = [(''a'', P1)], dc_deferred = [''b''],
      dc_snapshot_version = \<lparr>sv_epoch = ''e0'', sv_tick = 1\<rparr>, dc_solve_ns = solve_ns,
      dc_fail_closed = False, dc_reason = []\<rparr>"

theorem decision_digest_identifies_witness:
  "decision_digest (\<lambda>s. s) (\<lambda>_. []) (sample_decision 7)
    = decision_digest (\<lambda>s. s) (\<lambda>_. []) (sample_decision 1500000)"
proof -
  have inj: "inj (\<lambda>s :: string. s)" by (simp add: inj_def)
  have ok: "decision_dict_ok (sample_decision n)" for n
    by (simp add: decision_dict_ok_def sample_decision_def)
  show ?thesis
    using decision_digest_identifies [OF inj ok ok, of "\<lambda>_. []" 7 1500000]
    by (simp add: sample_decision_def)
qed

end
