(* ===== verification/Broker.thy ===== *)
theory Broker
  imports Offer
begin

text \<open>
  \<^verbatim>\<open>src/src/shapeflow/broker\<close>: the driver that runs one scheduler tick
  (\<^verbatim>\<open>driver.py\<close>), the two protocols it is written against (\<^verbatim>\<open>host.py\<close>, stated here
  as the locales \<open>broker_host\<close> and \<open>broker_policy\<close>) and the reference policy
  (\<^verbatim>\<open>reference.py\<close>). The driver's clock is a sequence of readings: attempt number \<open>k\<close> reads
  \<open>clock (2 k)\<close> before the solver and \<open>clock (2 k + 1)\<close> after it.
\<close>

subsection \<open>Outcomes and failures\<close>

datatype tick_error =
    Violation contract_violation
  | KeyErr string
  | FeatureErr feature_error

datatype host_failure = StaleSnapshot snapshot_version | HostRaised tick_error

record tick_outcome =
  to_decision :: "decision option"
  to_result :: "materialize_result option"
  to_attempts :: nat
  to_stale_retries :: int
  to_budget_overrun :: bool
  to_fail_closed :: bool
  to_reason :: string

definition outcome_committed :: "tick_outcome \<Rightarrow> bool" where
  "outcome_committed t \<longleftrightarrow> to_result t \<noteq> None"

definition default_solve_budget_ns :: int where
  "default_solve_budget_ns = 2000000"

subsection \<open>The driver\<close>

definition item_ids :: "offer list \<Rightarrow> string list" where
  "item_ids offers = map item_id offers"

definition p0_only :: "offer list \<Rightarrow> scheduler_snapshot \<Rightarrow> string \<Rightarrow> decision" where
  "p0_only offers snapshot reason =
     \<lparr>dc_admitted = item_ids offers,
      dc_form = dict_of (map (\<lambda>i. (i, P0)) (item_ids offers)),
      dc_deferred = [],
      dc_snapshot_version = sn_version snapshot,
      dc_solve_ns = 0,
      dc_fail_closed = True,
      dc_reason = reason\<rparr>"

definition offers_by_id :: "offer list \<Rightarrow> (string \<times> offer) list" where
  "offers_by_id offers = dict_of (map (\<lambda>ofr. (item_id ofr, ofr)) offers)"

text \<open>The \<open>for item_id, form in decision.form.items()\<close> loop: the first P1 choice without a P1 plan.\<close>

fun check_forms :: "(string \<times> offer) list \<Rightarrow> (string \<times> form) list \<Rightarrow> tick_error + unit" where
  "check_forms by_id [] = Inr ()"
| "check_forms by_id ((i, f) # fs) =
     (if f = P1 then
        (case map_of by_id i of
           None \<Rightarrow> Inl (KeyErr i)
         | Some ofr \<Rightarrow>
             if offer_p1 ofr = None then Inl (Violation (P1NotOffered i)) else check_forms by_id fs)
      else check_forms by_id fs)"

definition assert_decision_is_answerable :: "decision \<Rightarrow> offer list \<Rightarrow> tick_error + unit" where
  "assert_decision_is_answerable d offers =
     (let by_id = offers_by_id offers;
          named = dedup (dc_admitted d @ dc_deferred d);
          unknown = sort (filter (\<lambda>i. i \<notin> set (map fst by_id)) named)
      in if unknown \<noteq> [] then Inl (Violation (UnofferedItems unknown))
         else check_forms by_id (dc_form d))"

text \<open>One pass of the \<open>while True\<close> body: either the tick is over, or the items are retried.\<close>

datatype 'h tick_step = Finished "tick_error + tick_outcome" 'h | Retry 'h

definition no_offers_outcome :: "nat \<Rightarrow> int \<Rightarrow> tick_outcome" where
  "no_offers_outcome attempts stale =
     \<lparr>to_decision = None, to_result = None, to_attempts = attempts, to_stale_retries = stale,
      to_budget_overrun = False, to_fail_closed = False, to_reason = ''no offers pending''\<rparr>"

definition overrun_reason :: "int \<Rightarrow> int \<Rightarrow> string" where
  "overrun_reason solve_ns budget_ns =
     ''solver overran budget: '' @ show_int solve_ns @ ''ns > '' @ show_int budget_ns
       @ ''ns; decision discarded''"

definition stale_reason :: "int \<Rightarrow> string" where
  "stale_reason n = ''snapshot went stale '' @ show_int n @ '' times; degrading to P0-only''"

definition degrade ::
  "('h \<Rightarrow> (tick_error + scheduler_snapshot) \<times> 'h)
   \<Rightarrow> (decision \<Rightarrow> scheduler_snapshot \<Rightarrow> 'h \<Rightarrow> (host_failure + materialize_result) \<times> 'h)
   \<Rightarrow> decision \<Rightarrow> nat \<Rightarrow> int \<Rightarrow> bool \<Rightarrow> 'h \<Rightarrow> 'h tick_step" where
  "degrade take_snapshot materialize fail attempts stale overrun h =
     (case take_snapshot h of
        (Inl e, h1) \<Rightarrow> Finished (Inl e) h1
      | (Inr snapshot, h1) \<Rightarrow>
          (case materialize fail snapshot h1 of
             (Inl (StaleSnapshot v), h2) \<Rightarrow>
               Finished (Inr \<lparr>to_decision = Some fail, to_result = None, to_attempts = attempts,
                 to_stale_retries = stale, to_budget_overrun = overrun, to_fail_closed = True,
                 to_reason = dc_reason fail @ ''; the degradation could not be materialized ''
                   @ ''either, so the work remains pending''\<rparr>) h2
           | (Inl (HostRaised e), h2) \<Rightarrow> Finished (Inl e) h2
           | (Inr result, h2) \<Rightarrow>
               Finished (Inr \<lparr>to_decision = Some fail, to_result = Some result,
                 to_attempts = attempts, to_stale_retries = stale, to_budget_overrun = overrun,
                 to_fail_closed = True, to_reason = dc_reason fail\<rparr>) h2))"

definition choose_decision ::
  "offer list \<Rightarrow> scheduler_snapshot \<Rightarrow> decision \<Rightarrow> int \<Rightarrow> int \<Rightarrow> tick_error + decision" where
  "choose_decision offers snapshot decided solve_ns budget_ns =
     (if solve_ns > budget_ns
      then Inr (p0_only offers snapshot (overrun_reason solve_ns budget_ns))
      else rbind (assert_decision_is_answerable decided offers) (\<lambda>_. Inr decided))"

definition tick_once ::
  "('h \<Rightarrow> offer list)
   \<Rightarrow> ('h \<Rightarrow> (tick_error + scheduler_snapshot) \<times> 'h)
   \<Rightarrow> (decision \<Rightarrow> scheduler_snapshot \<Rightarrow> 'h \<Rightarrow> (host_failure + materialize_result) \<times> 'h)
   \<Rightarrow> (offer list \<Rightarrow> scheduler_snapshot \<Rightarrow> int \<Rightarrow> tick_error + decision)
   \<Rightarrow> int \<Rightarrow> int \<Rightarrow> (nat \<Rightarrow> int) \<Rightarrow> nat \<Rightarrow> int \<Rightarrow> 'h \<Rightarrow> 'h tick_step" where
  "tick_once pending take_snapshot materialize decide budget_ns max_retries clock attempts stale h =
     (let offers = pending h in
      if offers = [] then Finished (Inr (no_offers_outcome attempts stale)) h
      else
        (case take_snapshot h of
           (Inl e, h1) \<Rightarrow> Finished (Inl e) h1
         | (Inr snapshot, h1) \<Rightarrow>
             (case decide offers snapshot budget_ns of
                Inl e \<Rightarrow> Finished (Inl e) h1
              | Inr decided \<Rightarrow>
                  let solve_ns = clock (2 * attempts + 1) - clock (2 * attempts);
                      overrun = solve_ns > budget_ns
                  in (case choose_decision offers snapshot decided solve_ns budget_ns of
                        Inl e \<Rightarrow> Finished (Inl e) h1
                      | Inr decision \<Rightarrow>
                          (case materialize decision snapshot h1 of
                             (Inr result, h2) \<Rightarrow>
                               Finished (Inr \<lparr>to_decision = Some decision, to_result = Some result,
                                 to_attempts = Suc attempts, to_stale_retries = stale,
                                 to_budget_overrun = overrun,
                                 to_fail_closed = dc_fail_closed decision,
                                 to_reason = dc_reason decision\<rparr>) h2
                           | (Inl (HostRaised e), h2) \<Rightarrow> Finished (Inl e) h2
                           | (Inl (StaleSnapshot v), h2) \<Rightarrow>
                               if stale + 1 > max_retries
                               then degrade take_snapshot materialize
                                 (p0_only offers snapshot (stale_reason (stale + 1)))
                                 (Suc attempts) (stale + 1) overrun h2
                               else Retry h2)))))"

lemma tick_once_Retry:
  "tick_once pending take_snapshot materialize decide budget_ns max_retries clock attempts stale h
     = Retry h' \<Longrightarrow> stale + 1 \<le> max_retries"
  by (auto simp: tick_once_def degrade_def Let_def split: if_splits sum.splits prod.splits
      host_failure.splits)

function tick_loop ::
  "('h \<Rightarrow> offer list)
   \<Rightarrow> ('h \<Rightarrow> (tick_error + scheduler_snapshot) \<times> 'h)
   \<Rightarrow> (decision \<Rightarrow> scheduler_snapshot \<Rightarrow> 'h \<Rightarrow> (host_failure + materialize_result) \<times> 'h)
   \<Rightarrow> (offer list \<Rightarrow> scheduler_snapshot \<Rightarrow> int \<Rightarrow> tick_error + decision)
   \<Rightarrow> int \<Rightarrow> int \<Rightarrow> (nat \<Rightarrow> int) \<Rightarrow> nat \<Rightarrow> int \<Rightarrow> 'h \<Rightarrow> (tick_error + tick_outcome) \<times> 'h" where
  "tick_loop pending take_snapshot materialize decide budget_ns max_retries clock attempts stale h =
     (case tick_once pending take_snapshot materialize decide budget_ns max_retries clock
             attempts stale h of
        Finished r h' \<Rightarrow> (r, h')
      | Retry h' \<Rightarrow> tick_loop pending take_snapshot materialize decide budget_ns max_retries clock
             (Suc attempts) (stale + 1) h')"
  by pat_completeness auto
termination
  by (relation "measure (\<lambda>(p, s, m, d, b, max_retries, c, a, stale, h). nat (max_retries - stale))")
     (auto dest: tick_once_Retry)

declare tick_loop.simps [simp del]

definition run_tick ::
  "('h \<Rightarrow> offer list)
   \<Rightarrow> ('h \<Rightarrow> (tick_error + scheduler_snapshot) \<times> 'h)
   \<Rightarrow> (decision \<Rightarrow> scheduler_snapshot \<Rightarrow> 'h \<Rightarrow> (host_failure + materialize_result) \<times> 'h)
   \<Rightarrow> (offer list \<Rightarrow> scheduler_snapshot \<Rightarrow> int \<Rightarrow> tick_error + decision)
   \<Rightarrow> int \<Rightarrow> int \<Rightarrow> (nat \<Rightarrow> int) \<Rightarrow> 'h \<Rightarrow> (tick_error + tick_outcome) \<times> 'h" where
  "run_tick pending take_snapshot materialize decide budget_ns max_retries clock h =
     tick_loop pending take_snapshot materialize decide budget_ns max_retries clock 0 0 h"

text \<open>The fail-closed decision always passes the constructor's checks.\<close>

lemma p0_only_wf: "decision_wf (p0_only offers snapshot reason)"
proof -
  have "set (map fst (dict_of (map (\<lambda>i. (i, v)) is))) = set is" for v :: form and "is" :: "string list"
  proof -
    have "dom (map_of (dict_of (map (\<lambda>i. (i, v)) is))) = set is"
      by (simp add: map_of_dict_of dom_map_of_conv_image_fst image_image)
    then show ?thesis by (simp add: dom_map_of_conv_image_fst)
  qed
  then show ?thesis by (simp add: decision_wf_def p0_only_def)
qed

lemma p0_only_constructible: "make_decision (p0_only offers s r) = Inr (p0_only offers s r)"
  by (simp add: make_decision_Inr p0_only_wf)

lemma map_of_p0_form:
  "map_of (dc_form (p0_only offers s r)) i = (if i \<in> set (item_ids offers) then Some P0 else None)"
proof -
  have "map_of (map (\<lambda>i. (i, v)) xs) i = (if i \<in> set xs then Some v else None)" for v :: form and xs
    by (induction xs) auto
  from this [of P0 "rev (item_ids offers)"] show ?thesis
    by (simp add: p0_only_def map_of_dict_of rev_map)
qed

subsection \<open>Which decisions the driver lets through\<close>

definition answerable :: "decision \<Rightarrow> offer list \<Rightarrow> bool" where
  "answerable d offers \<longleftrightarrow>
     set (dc_admitted d) \<union> set (dc_deferred d) \<subseteq> set (item_ids offers)
     \<and> (\<forall>(i, f) \<in> set (dc_form d). f = P1 \<longrightarrow>
          (\<exists>ofr. map_of (offers_by_id offers) i = Some ofr \<and> offer_p1 ofr \<noteq> None))"

lemma keys_offers_by_id: "fst ` set (offers_by_id offers) = set (item_ids offers)"
proof -
  have "dom (map_of (offers_by_id offers)) = set (item_ids offers)"
    by (simp add: offers_by_id_def map_of_dict_of dom_map_of_conv_image_fst image_image item_ids_def)
  then show ?thesis by (simp add: dom_map_of_conv_image_fst)
qed

lemma check_forms_ok:
  "check_forms by_id fs = Inr u \<longleftrightarrow>
     (\<forall>(i, f) \<in> set fs. f = P1 \<longrightarrow> (\<exists>ofr. map_of by_id i = Some ofr \<and> offer_p1 ofr \<noteq> None))"
  by (induction by_id fs rule: check_forms.induct) (auto split: option.splits)

lemma assert_answerable:
  "assert_decision_is_answerable d offers = Inr u \<longleftrightarrow> answerable d offers"
proof -
  have "sort xs = [] \<longleftrightarrow> xs = []" for xs :: "string list"
    by (metis length_0_conv length_sort)
  then show ?thesis
    by (auto simp: assert_decision_is_answerable_def answerable_def Let_def check_forms_ok
        filter_empty_conv keys_offers_by_id)
qed

lemma p0_only_answerable: "answerable (p0_only offers s r) offers"
proof -
  have "f = P0" if "(i, f) \<in> set (dc_form (p0_only offers s r))" for i f
  proof -
    have "distinct (map fst (dc_form (p0_only offers s r)))" by (simp add: p0_only_def)
    with that have "map_of (dc_form (p0_only offers s r)) i = Some f" by simp
    then show ?thesis by (simp add: map_of_p0_form split: if_splits)
  qed
  then show ?thesis by (auto simp: answerable_def p0_only_def)
qed

text \<open>A decision that answers only with P0, for everything on offer.\<close>

definition all_p0 :: "decision \<Rightarrow> offer list \<Rightarrow> bool" where
  "all_p0 d offers \<longleftrightarrow> dc_admitted d = item_ids offers
     \<and> (\<forall>i \<in> set (item_ids offers). map_of (dc_form d) i = Some P0)"

lemma all_p0_p0_only [simp]: "all_p0 (p0_only offers s r) offers"
  by (auto simp: all_p0_def map_of_p0_form) (simp add: p0_only_def)

lemma choose_decision_ok:
  assumes "decision_wf d" and "answerable d offers"
  shows "\<exists>c. choose_decision offers s d solve budget = Inr c \<and> decision_wf c \<and> answerable c offers
    \<and> (solve > budget \<longrightarrow> all_p0 c offers \<and> dc_fail_closed c)"
proof (cases "solve > budget")
  case True
  then show ?thesis
    by (simp add: choose_decision_def p0_only_wf p0_only_answerable) (simp add: p0_only_def)
next
  case False
  have "assert_decision_is_answerable d offers = Inr ()"
    using assms(2) by (simp add: assert_answerable)
  with False assms show ?thesis by (simp add: choose_decision_def)
qed

subsection \<open>The two protocols\<close>

text \<open>
  A host: no two pending offers share an item id, taking a snapshot and reading the queue start nothing, a stale snapshot materializes
  nothing, a decision that answers what is pending is carried out without a raise, and a commit
  removes exactly the admitted items from the queue. \<open>applied\<close> is the history of the decisions carried out.
\<close>

locale broker_host =
  fixes pending :: "'h \<Rightarrow> offer list"
    and take_snapshot :: "'h \<Rightarrow> (tick_error + scheduler_snapshot) \<times> 'h"
    and materialize ::
      "decision \<Rightarrow> scheduler_snapshot \<Rightarrow> 'h \<Rightarrow> (host_failure + materialize_result) \<times> 'h"
    and inv :: "'h \<Rightarrow> bool" and applied :: "'h \<Rightarrow> decision list"
  assumes ids_law: "inv h \<Longrightarrow> distinct (item_ids (pending h))"
    and snapshot_law: "\<lbrakk>inv h; take_snapshot h = (r, h')\<rbrakk>
      \<Longrightarrow> inv h' \<and> pending h' = pending h \<and> applied h' = applied h \<and> (\<exists>s. r = Inr s)"
    and stale_law: "\<lbrakk>inv h; materialize d s h = (Inl (StaleSnapshot v), h')\<rbrakk> \<Longrightarrow> h' = h"
    and raise_law: "\<lbrakk>inv h; decision_wf d; answerable d (pending h)\<rbrakk>
      \<Longrightarrow> materialize d s h \<noteq> (Inl (HostRaised e), h')"
    and commit_law: "\<lbrakk>inv h; materialize d s h = (Inr res, h')\<rbrakk>
      \<Longrightarrow> inv h' \<and> pending h' = filter (\<lambda>ofr. item_id ofr \<notin> set (dc_admitted d)) (pending h)
        \<and> mr_materialized res = dc_admitted d \<and> applied h' = applied h @ [d]"

text \<open>A policy: over offers with distinct ids it always answers, with a well-formed decision about what was offered.\<close>

locale broker_policy =
  fixes decide :: "offer list \<Rightarrow> scheduler_snapshot \<Rightarrow> int \<Rightarrow> tick_error + decision"
  assumes decide_law: "distinct (item_ids offers)
      \<Longrightarrow> \<exists>d. decide offers s b = Inr d \<and> decision_wf d \<and> answerable d offers"

text \<open>
  What a tick's outcome promises about the queue before and after it and about the decisions the host carried
  out: nothing leaves the queue without being materialized; what was carried out is the decision reported and
  nothing else; the overrun flag is the clock's (\<open>late k\<close> for the \<open>k\<close>-th solve); an overrun or exhausted retries
  commit P0 for everything offered, and otherwise the decision is the policy's; the retries are bounded.
\<close>

definition tick_outcome_ok ::
  "(nat \<Rightarrow> bool) \<Rightarrow> (decision \<Rightarrow> bool) \<Rightarrow> offer list \<Rightarrow> offer list \<Rightarrow> decision list \<Rightarrow> decision list \<Rightarrow> int
     \<Rightarrow> tick_outcome \<Rightarrow> bool" where
  "tick_outcome_ok late chosen before after carried carried' max_retries t \<longleftrightarrow>
     (case to_result t of
        None \<Rightarrow> after = before
      | Some res \<Rightarrow> after = filter (\<lambda>ofr. item_id ofr \<notin> set (mr_materialized res)) before)
     \<and> (case to_decision t of
          None \<Rightarrow> before = [] \<and> to_result t = None \<and> carried' = carried
        | Some d \<Rightarrow>
            carried' = carried @ (if to_result t = None then [] else [d])
            \<and> to_budget_overrun t = late (to_attempts t - 1)
            \<and> (if to_budget_overrun t \<or> to_stale_retries t > max 0 max_retries
               then to_fail_closed t \<and> all_p0 d before else chosen d))
     \<and> to_stale_retries t \<le> max 1 (max_retries + 1)
     \<and> int (to_attempts t) \<le> max 1 (max_retries + 1)"

locale tick = broker_host pending take_snapshot materialize inv applied + broker_policy decide
  for pending :: "'h \<Rightarrow> offer list" and take_snapshot materialize inv applied decide
begin

abbreviation outcome_ok :: "int \<Rightarrow> int \<Rightarrow> (nat \<Rightarrow> int) \<Rightarrow> 'h \<Rightarrow> 'h \<Rightarrow> tick_outcome \<Rightarrow> bool" where
  "outcome_ok budget max_retries clock h h' t \<equiv>
     tick_outcome_ok (\<lambda>k. clock (2 * k + 1) - clock (2 * k) > budget) (\<lambda>d. \<exists>s. decide (pending h) s budget = Inr d)
       (pending h) (pending h') (applied h) (applied h') max_retries t"

lemma materialize_answerable:
  assumes "inv h" and "decision_wf d" and "answerable d (pending h)"
  obtains (stale) v where "materialize d s h = (Inl (StaleSnapshot v), h)"
    | (commit) res h' where "materialize d s h = (Inr res, h')" "inv h'"
        "pending h' = filter (\<lambda>ofr. item_id ofr \<notin> set (dc_admitted d)) (pending h)"
        "mr_materialized res = dc_admitted d" "applied h' = applied h @ [d]"
proof (cases "materialize d s h")
  case (Pair r h')
  show thesis
  proof (cases r)
    case (Inl e)
    with Pair assms raise_law [of h d s _ h'] obtain v where "e = StaleSnapshot v"
      by (cases e) auto
    with Pair Inl assms(1) stale_law [of h d s v h'] show thesis by (auto intro: stale)
  next
    case (Inr res)
    with Pair assms(1) commit_law [of h d s res h'] show thesis by (auto intro: commit)
  qed
qed

lemma degrade_ok:
  assumes "inv h" and "pending h = pending h0" and "applied h = applied h0" and "stale > max_retries"
    and "0 < stale" and "overrun = (clock (2 * (attempts - 1) + 1) - clock (2 * (attempts - 1)) > budget)"
    and "stale \<le> max 1 (max_retries + 1)" and "int attempts \<le> max 1 (max_retries + 1)"
  shows "\<exists>t h'. degrade take_snapshot materialize (p0_only (pending h0) s r) attempts stale overrun h
      = Finished (Inr t) h' \<and> inv h' \<and> outcome_ok budget max_retries clock h0 h' t"
proof -
  obtain s1 h1 where s1: "take_snapshot h = (Inr s1, h1)" "inv h1" "pending h1 = pending h0" "applied h1 = applied h0"
    using snapshot_law [OF assms(1)] assms(2,3) by (metis prod.exhaust)
  let ?d = "p0_only (pending h0) s r"
  have "answerable ?d (pending h1)" using s1(3) p0_only_answerable by simp
  with s1(2) p0_only_wf [of "pending h0" s r] show ?thesis
  proof (cases rule: materialize_answerable [where s = s1, case_names stale commit])
    case (stale v)
    with s1 assms show ?thesis by (simp add: degrade_def tick_outcome_ok_def)
  next
    case (commit res h')
    with s1 assms show ?thesis by (simp add: degrade_def tick_outcome_ok_def)
  qed
qed

lemma tick_once_ok:
  assumes "inv h" and "0 \<le> stale" and "stale \<le> max 0 max_retries" and "int attempts = stale"
  shows "(\<exists>t h'. tick_once pending take_snapshot materialize decide budget max_retries clock
             attempts stale h = Finished (Inr t) h' \<and> inv h'
             \<and> outcome_ok budget max_retries clock h h' t)
    \<or> (\<exists>h'. tick_once pending take_snapshot materialize decide budget max_retries clock
             attempts stale h = Retry h' \<and> inv h' \<and> pending h' = pending h \<and> applied h' = applied h
             \<and> stale + 1 \<le> max_retries)"
proof (cases "pending h = []")
  case True
  then show ?thesis using assms
    by (auto simp: tick_once_def no_offers_outcome_def tick_outcome_ok_def)
next
  case False
  obtain s1 h1 where s1: "take_snapshot h = (Inr s1, h1)" "inv h1" "pending h1 = pending h" "applied h1 = applied h"
    using snapshot_law [OF assms(1)] by (metis prod.exhaust)
  obtain d where d: "decide (pending h) s1 budget = Inr d" "decision_wf d" "answerable d (pending h)"
    using decide_law [OF ids_law [OF assms(1)]] by blast
  let ?solve = "clock (2 * attempts + 1) - clock (2 * attempts)"
  obtain c where c: "choose_decision (pending h) s1 d ?solve budget = Inr c" "decision_wf c"
      "answerable c (pending h1)"
      "?solve > budget \<longrightarrow> all_p0 c (pending h) \<and> dc_fail_closed c"
    using choose_decision_ok [OF d(2,3)] s1(3) by metis
  from s1(2) c(2,3) show ?thesis
  proof (cases rule: materialize_answerable [where s = s1, case_names stale commit])
    case (stale v)
    show ?thesis
    proof (cases "stale + 1 > max_retries")
      case True
      have "\<exists>t h'. degrade take_snapshot materialize
          (p0_only (pending h) s1 (stale_reason (stale + 1))) (Suc attempts) (stale + 1)
          (?solve > budget) h1 = Finished (Inr t) h' \<and> inv h'
          \<and> outcome_ok budget max_retries clock h h' t"
        by (rule degrade_ok) (use s1 True assms in auto)
      then show ?thesis using False s1 d c stale True by (auto simp: tick_once_def Let_def)
    next
      case nostop: False
      then show ?thesis using False s1 d c stale by (auto simp: tick_once_def Let_def)
    qed
  next
    case (commit res h')
    have "\<not> ?solve > budget \<Longrightarrow> c = d" using c(1) by (simp add: choose_decision_def rbind_Inr)
    with commit show ?thesis using False s1 d c assms
      by (auto simp: tick_once_def Let_def tick_outcome_ok_def)
  qed
qed

lemma tick_loop_ok:
  assumes "inv h" and "0 \<le> stale" and "stale \<le> max 0 max_retries" and "int attempts = stale"
  shows "\<exists>t h'. tick_loop pending take_snapshot materialize decide budget max_retries clock
      attempts stale h = (Inr t, h') \<and> inv h'
      \<and> outcome_ok budget max_retries clock h h' t"
  using assms
proof (induction "nat (max_retries - stale)" arbitrary: attempts stale h rule: less_induct)
  case less
  from tick_once_ok [OF less.prems, of budget clock]
  show ?case
  proof
    assume "\<exists>h'. tick_once pending take_snapshot materialize decide budget max_retries clock
        attempts stale h = Retry h' \<and> inv h' \<and> pending h' = pending h \<and> applied h' = applied h \<and> stale + 1 \<le> max_retries"
    then obtain h' where r: "tick_once pending take_snapshot materialize decide budget max_retries
        clock attempts stale h = Retry h'" "inv h'" "pending h' = pending h" "applied h' = applied h" "stale + 1 \<le> max_retries"
      by blast
    have "\<exists>t h''. tick_loop pending take_snapshot materialize decide budget max_retries clock
        (Suc attempts) (stale + 1) h' = (Inr t, h'') \<and> inv h''
        \<and> outcome_ok budget max_retries clock h' h'' t"
      by (rule less.hyps) (use r less.prems in auto)
    with r show ?thesis
      by (simp add: tick_loop.simps [where attempts = attempts and stale = stale])
  qed (auto simp: tick_loop.simps [where attempts = attempts and stale = stale])
qed

lemma run_tick_ok:
  assumes "inv h"
  shows "\<exists>t h'. run_tick pending take_snapshot materialize decide budget max_retries clock h
      = (Inr t, h') \<and> inv h' \<and> outcome_ok budget max_retries clock h h' t"
  using tick_loop_ok [OF assms, of 0 max_retries 0 budget clock] by (simp add: run_tick_def)

end

end
