(* ===== verification/Policy.thy ===== *)
theory Policy
  imports Broker
begin

text \<open>
  \<^verbatim>\<open>src/src/shapeflow/broker/reference.py\<close>: the greedy joint policy. Every offered
  (item, form) pair competes in one list ordered by weight, item id and form; a pair is admitted
  when its item is still free and its weight fits the capacity that is left.
\<close>

definition request_weight :: "request_descriptor \<Rightarrow> int" where
  "request_weight r = rd_est_uncached_prefill r + rd_est_cached_prefill r + rd_est_decode r"

definition plan_weight :: "offer \<Rightarrow> form \<Rightarrow> contract_violation + int" where
  "plan_weight ofr f =
     rbind (plan_for ofr f) (\<lambda>p. Inr (sum_list (map request_weight (plan_requests p))))"

type_synonym candidate = "int \<times> string \<times> form"

definition offer_candidates :: "bool \<Rightarrow> offer \<Rightarrow> contract_violation + candidate list" where
  "offer_candidates allow_p1 ofr =
     rmap (\<lambda>f. rbind (plan_weight ofr f) (\<lambda>w. Inr (w, item_id ofr, f)))
       (filter (\<lambda>f. \<not> (f = P1 \<and> \<not> allow_p1)) (forms ofr))"

definition candidate_key :: "candidate \<Rightarrow> int \<times> string \<times> string" where
  "candidate_key c = (fst c, fst (snd c), form_value (snd (snd c)))"

record greedy_state =
  gs_admitted :: "string list"
  gs_form :: "(string \<times> form) list"
  gs_used :: int

definition greedy_step :: "int \<Rightarrow> greedy_state \<Rightarrow> candidate \<Rightarrow> greedy_state" where
  "greedy_step capacity g c =
     (case c of (weight, item, chosen) \<Rightarrow>
        if item \<in> set (map fst (gs_form g)) then g
        else if gs_used g + weight > capacity then g
        else \<lparr>gs_admitted = gs_admitted g @ [item],
              gs_form = dict_put item chosen (gs_form g),
              gs_used = gs_used g + weight\<rparr>)"

definition greedy_start :: greedy_state where
  "greedy_start = \<lparr>gs_admitted = [], gs_form = [], gs_used = 0\<rparr>"

definition greedy_candidates :: "bool \<Rightarrow> offer list \<Rightarrow> contract_violation + candidate list" where
  "greedy_candidates allow_p1 offers =
     rbind (rmap (offer_candidates allow_p1) offers)
       (\<lambda>css. Inr (sort_key candidate_key (concat css)))"

definition greedy_final :: "int \<Rightarrow> candidate list \<Rightarrow> greedy_state" where
  "greedy_final capacity cs = foldl (greedy_step capacity) greedy_start cs"

definition greedy_decision ::
  "int \<Rightarrow> offer list \<Rightarrow> scheduler_snapshot \<Rightarrow> greedy_state \<Rightarrow> decision" where
  "greedy_decision capacity offers snapshot g =
     \<lparr>dc_admitted = gs_admitted g,
      dc_form = gs_form g,
      dc_deferred = filter (\<lambda>i. i \<notin> set (map fst (gs_form g))) (item_ids offers),
      dc_snapshot_version = sn_version snapshot,
      dc_solve_ns = 0,
      dc_fail_closed = False,
      dc_reason = ''greedy joint: '' @ show_int (gs_used g) @ ''/'' @ show_int capacity @ '' tokens''\<rparr>"

definition greedy_decide ::
  "int \<Rightarrow> bool \<Rightarrow> offer list \<Rightarrow> scheduler_snapshot \<Rightarrow> int \<Rightarrow> tick_error + decision" where
  "greedy_decide capacity allow_p1 offers snapshot budget_ns =
     (case rbind (greedy_candidates allow_p1 offers)
             (\<lambda>cs. make_decision (greedy_decision capacity offers snapshot (greedy_final capacity cs))) of
        Inl v \<Rightarrow> Inl (Violation v)
      | Inr d \<Rightarrow> Inr d)"

text \<open>Candidates exist for every offer and name only forms it offers.\<close>

definition weight_of :: "offer \<Rightarrow> form \<Rightarrow> int" where
  "weight_of ofr f = (case plan_weight ofr f of Inl e \<Rightarrow> 0 | Inr w \<Rightarrow> w)"

definition allowed_forms :: "bool \<Rightarrow> offer \<Rightarrow> form list" where
  "allowed_forms allow_p1 ofr = filter (\<lambda>f. \<not> (f = P1 \<and> \<not> allow_p1)) (forms ofr)"

lemma offer_candidates_eq:
  "offer_candidates allow_p1 ofr =
     Inr (map (\<lambda>f. (weight_of ofr f, item_id ofr, f)) (allowed_forms allow_p1 ofr))"
proof -
  have "plan_weight ofr f = Inr (weight_of ofr f)" if "f \<in> set (forms ofr)" for f
    using that by (auto simp: plan_for_offered weight_of_def plan_weight_def)
  then show ?thesis
    by (auto simp: offer_candidates_def allowed_forms_def rmap_Inr_iff list_all2_conv_all_nth
        dest: nth_mem)
qed

definition all_candidates :: "bool \<Rightarrow> offer list \<Rightarrow> candidate list" where
  "all_candidates allow_p1 offers = sort_key candidate_key
     (concat (map (\<lambda>ofr. map (\<lambda>f. (weight_of ofr f, item_id ofr, f)) (allowed_forms allow_p1 ofr)) offers))"

lemma greedy_candidates_eq: "greedy_candidates allow_p1 offers = Inr (all_candidates allow_p1 offers)"
proof -
  have "rmap (offer_candidates allow_p1) offers =
      Inr (map (\<lambda>ofr. map (\<lambda>f. (weight_of ofr f, item_id ofr, f)) (allowed_forms allow_p1 ofr)) offers)"
    by (simp add: rmap_Inr_iff list_all2_conv_all_nth offer_candidates_eq)
  then show ?thesis by (simp add: greedy_candidates_def all_candidates_def)
qed

lemma set_all_candidates:
  "(w, i, f) \<in> set (all_candidates allow_p1 offers) \<longleftrightarrow>
     (\<exists>ofr \<in> set offers. i = item_id ofr \<and> f \<in> set (allowed_forms allow_p1 ofr) \<and> w = weight_of ofr f)"
  by (auto simp: all_candidates_def)

subsection \<open>The loop invariant\<close>

definition greedy_inv :: "int \<Rightarrow> candidate list \<Rightarrow> greedy_state \<Rightarrow> bool" where
  "greedy_inv capacity cs g \<longleftrightarrow>
     distinct (gs_admitted g) \<and> map fst (gs_form g) = gs_admitted g
     \<and> (\<forall>(i, f) \<in> set (gs_form g). \<exists>w. (w, i, f) \<in> set cs)
     \<and> (gs_admitted g \<noteq> [] \<longrightarrow> gs_used g \<le> capacity)"

lemma dict_put_fresh: "k \<notin> set (map fst d) \<Longrightarrow> dict_put k v d = d @ [(k, v)]"
  by (induction k v d rule: dict_put.induct) auto

lemma greedy_step_inv:
  assumes "greedy_inv capacity cs g" and "c \<in> set cs"
  shows "greedy_inv capacity cs (greedy_step capacity g c)"
  using assms by (cases c) (auto simp: greedy_inv_def greedy_step_def dict_put_fresh)

lemma greedy_final_inv: "greedy_inv capacity cs (greedy_final capacity cs)"
proof -
  have "greedy_inv capacity ds (foldl (greedy_step capacity) g cs)"
    if "greedy_inv capacity ds g" and "set cs \<subseteq> set ds" for g ds
    using that by (induction cs arbitrary: g) (auto intro: greedy_step_inv)
  note step = this
  have "greedy_inv capacity cs greedy_start" by (simp add: greedy_inv_def greedy_start_def)
  from step [OF this order.refl] show ?thesis by (simp add: greedy_final_def)
qed

lemma greedy_decision_wf:
  assumes "greedy_inv capacity cs g"
  shows "decision_wf (greedy_decision capacity offers s g)"
  using assms by (auto simp: greedy_inv_def decision_wf_def greedy_decision_def simp flip: set_map)

definition greedy_result :: "int \<Rightarrow> bool \<Rightarrow> offer list \<Rightarrow> scheduler_snapshot \<Rightarrow> decision" where
  "greedy_result capacity allow_p1 offers s =
     greedy_decision capacity offers s (greedy_final capacity (all_candidates allow_p1 offers))"

lemma greedy_decide_eq:
  "greedy_decide capacity allow_p1 offers s b = Inr (greedy_result capacity allow_p1 offers s)"
  using greedy_decision_wf [OF greedy_final_inv]
  by (simp add: greedy_decide_def greedy_candidates_eq greedy_result_def make_decision_def
      decision_check_wf [THEN iffD2])

lemma last_offer_by_id:
  assumes "i \<in> set (item_ids offers)"
  obtains ofr where "map_of (offers_by_id offers) i = Some ofr" "ofr \<in> set offers" "item_id ofr = i"
proof -
  have "i \<in> dom (map_of (offers_by_id offers))"
    using assms by (simp add: dom_map_of_conv_image_fst keys_offers_by_id)
  then obtain ofr where ofr: "map_of (offers_by_id offers) i = Some ofr" by blast
  then have "(i, ofr) \<in> set (rev (map (\<lambda>ofr. (item_id ofr, ofr)) offers))"
    by (auto simp: offers_by_id_def map_of_dict_of dest: map_of_SomeD)
  with ofr show thesis by (auto intro: that)
qed

lemma offers_by_id_distinct:
  assumes "distinct (item_ids offers)" and "ofr \<in> set offers"
  shows "map_of (offers_by_id offers) (item_id ofr) = Some ofr"
proof -
  obtain ofr' where "map_of (offers_by_id offers) (item_id ofr) = Some ofr'" "ofr' \<in> set offers"
    "item_id ofr' = item_id ofr"
    using assms(2) by (metis image_eqI last_offer_by_id item_ids_def list.set_map)
  with assms show ?thesis by (auto simp: item_ids_def distinct_map dest: inj_onD)
qed


subsection \<open>What a greedy decision says\<close>

text \<open>Every chosen form was offered, by an offer of that item id.\<close>

lemma greedy_form_offered:
  assumes "(i, f) \<in> set (dc_form (greedy_result capacity allow_p1 offers s))"
  shows "\<exists>ofr \<in> set offers. item_id ofr = i \<and> f \<in> set (allowed_forms allow_p1 ofr)"
  using assms greedy_final_inv [of capacity "all_candidates allow_p1 offers"]
  by (fastforce simp: greedy_result_def greedy_decision_def greedy_inv_def set_all_candidates)

lemma greedy_result_wf: "decision_wf (greedy_result capacity allow_p1 offers s)"
  unfolding greedy_result_def by (rule greedy_decision_wf [OF greedy_final_inv])

lemma greedy_admitted_keys:
  "map fst (dc_form (greedy_result capacity allow_p1 offers s))
     = dc_admitted (greedy_result capacity allow_p1 offers s)"
  using greedy_final_inv [of capacity "all_candidates allow_p1 offers"]
  by (simp add: greedy_result_def greedy_decision_def greedy_inv_def)

lemma greedy_deferred_eq:
  "dc_deferred (greedy_result capacity allow_p1 offers s)
     = filter (\<lambda>i. i \<notin> set (dc_admitted (greedy_result capacity allow_p1 offers s))) (item_ids offers)"
  by (subst greedy_admitted_keys [symmetric]) (simp add: greedy_result_def greedy_decision_def)

lemma greedy_admitted_offered:
  "set (dc_admitted (greedy_result capacity allow_p1 offers s)) \<subseteq> set (item_ids offers)"
  by (subst greedy_admitted_keys [symmetric])
     (auto simp: item_ids_def dest!: greedy_form_offered)

lemma greedy_admitted_distinct:
  "distinct (dc_admitted (greedy_result capacity allow_p1 offers s))"
  using greedy_final_inv [of capacity "all_candidates allow_p1 offers"]
  by (simp add: greedy_result_def greedy_decision_def greedy_inv_def)

lemma greedy_answerable:
  assumes "distinct (item_ids offers)"
  shows "answerable (greedy_result capacity allow_p1 offers s) offers"
proof -
  have "\<exists>ofr. map_of (offers_by_id offers) i = Some ofr \<and> offer_p1 ofr \<noteq> None"
    if i: "(i, P1) \<in> set (dc_form (greedy_result capacity allow_p1 offers s))" for i
  proof -
    obtain ofr where ofr: "ofr \<in> set offers" "item_id ofr = i" "P1 \<in> set (allowed_forms allow_p1 ofr)"
      using greedy_form_offered [OF i] by blast
    then have "offer_p1 ofr \<noteq> None"
      by (auto simp: allowed_forms_def forms_def split: option.splits)
    with ofr offers_by_id_distinct [OF assms ofr(1)] show ?thesis by blast
  qed
  then show ?thesis
    using greedy_admitted_offered [of capacity allow_p1 offers s]
    by (auto simp: answerable_def greedy_deferred_eq)
qed

interpretation greedy: broker_policy "greedy_decide capacity allow_p1"
  by unfold_locales (auto simp: greedy_decide_eq greedy_result_wf greedy_answerable)

text \<open>The weight that a decision commits: the sum over its chosen (item, form) pairs.\<close>

definition chosen_weight :: "offer list \<Rightarrow> (string \<times> form) list \<Rightarrow> int" where
  "chosen_weight offers fs = sum_list (map (\<lambda>(i, f).
     case map_of (offers_by_id offers) i of None \<Rightarrow> 0 | Some ofr \<Rightarrow> weight_of ofr f) fs)"

lemma chosen_weight_append [simp]:
  "chosen_weight offers (fs @ gs) = chosen_weight offers fs + chosen_weight offers gs"
  by (simp add: chosen_weight_def)

lemma greedy_used:
  assumes "distinct (item_ids offers)"
  shows "gs_used (greedy_final capacity (all_candidates allow_p1 offers))
    = chosen_weight offers (gs_form (greedy_final capacity (all_candidates allow_p1 offers)))"
proof -
  let ?cs = "all_candidates allow_p1 offers"
  have w: "chosen_weight offers [(i, f)] = w" if "(w, i, f) \<in> set ?cs" for w i f
    using that by (auto simp: set_all_candidates chosen_weight_def offers_by_id_distinct [OF assms])
  have "gs_used g' = chosen_weight offers (gs_form g')"
    if "gs_used g = chosen_weight offers (gs_form g)" and "set cs \<subseteq> set ?cs"
      and "g' = foldl (greedy_step capacity) g cs" for g g' cs
    using that
  proof (induction cs arbitrary: g)
    case (Cons c cs)
    obtain wt i f where c: "c = (wt, i, f)" by (cases c)
    have "gs_used (greedy_step capacity g c) = chosen_weight offers (gs_form (greedy_step capacity g c))"
      using Cons.prems(1,2) w [of wt i f]
      by (auto simp: c greedy_step_def dict_put_fresh)
    with Cons show ?case by simp
  qed simp
  from this [of greedy_start ?cs] show ?thesis
    by (simp add: greedy_final_def greedy_start_def chosen_weight_def)
qed

text \<open>
  C3. The joint policy is safe: over offers with distinct ids its decision admits each item at most
  once, admits and defers a partition of what was offered, chooses only forms that the item's own
  offer carries (never P1 when P1 is disabled), and what it admits together weighs at most the
  round's capacity.
\<close>

theorem greedy_joint_safe:
  assumes "distinct (item_ids offers)"
    and "greedy_decide capacity allow_p1 offers s budget = Inr d"
  shows "distinct (dc_admitted d)
    \<and> set (dc_admitted d) \<union> set (dc_deferred d) = set (item_ids offers)
    \<and> set (dc_admitted d) \<inter> set (dc_deferred d) = {}
    \<and> (\<forall>(i, f) \<in> set (dc_form d). \<exists>ofr \<in> set offers. item_id ofr = i \<and> f \<in> set (forms ofr)
          \<and> (f = P1 \<longrightarrow> allow_p1))
    \<and> (dc_admitted d \<noteq> [] \<longrightarrow> chosen_weight offers (dc_form d) \<le> capacity)"
proof -
  have d: "d = greedy_result capacity allow_p1 offers s"
    using assms(2) by (simp add: greedy_decide_eq)
  have "chosen_weight offers (dc_form d) \<le> capacity" if "dc_admitted d \<noteq> []"
    using that greedy_used [OF assms(1)] greedy_final_inv [of capacity "all_candidates allow_p1 offers"]
    by (simp add: d greedy_result_def greedy_decision_def greedy_inv_def)
  moreover have "\<exists>ofr \<in> set offers. item_id ofr = i \<and> f \<in> set (forms ofr) \<and> (f = P1 \<longrightarrow> allow_p1)"
    if "(i, f) \<in> set (dc_form d)" for i f
    using greedy_form_offered [of i f] that by (fastforce simp: d allowed_forms_def)
  ultimately show ?thesis
    using greedy_admitted_offered [of capacity allow_p1 offers s]
    by (auto simp: d greedy_deferred_eq greedy_admitted_distinct)
qed

subsection \<open>Work conservation\<close>

text \<open>
  The order of the candidates makes the single pass work-conserving: a pair that was passed over
  did not fit then, and the used weight only grows.
\<close>

lemma greedy_used_mono:
  assumes "\<forall>c \<in> set cs. 0 \<le> fst c"
  shows "gs_used g \<le> gs_used (foldl (greedy_step capacity) g cs)"
  using assms
proof (induction cs arbitrary: g)
  case (Cons c cs)
  have "gs_used g \<le> gs_used (greedy_step capacity g c)"
    using Cons.prems by (cases c) (simp add: greedy_step_def)
  also have "\<dots> \<le> gs_used (foldl (greedy_step capacity) (greedy_step capacity g c) cs)"
    by (rule Cons.IH) (use Cons.prems in simp)
  finally show ?case by simp
qed simp

lemma greedy_keys_mono:
  "fst ` set (gs_form g) \<subseteq> fst ` set (gs_form (foldl (greedy_step capacity) g cs))"
proof (induction cs arbitrary: g)
  case (Cons c cs)
  have "fst ` set (gs_form g) \<subseteq> fst ` set (gs_form (greedy_step capacity g c))"
    by (cases c) (auto simp: greedy_step_def dict_put_fresh image_iff)
  with Cons.IH [of "greedy_step capacity g c"] show ?case by auto
qed simp

lemma greedy_passed_over:
  assumes "\<forall>c \<in> set cs. 0 \<le> fst c" and "(w, i, f) \<in> set cs"
    and "i \<notin> fst ` set (gs_form (foldl (greedy_step capacity) g cs))"
  shows "capacity < gs_used (foldl (greedy_step capacity) g cs) + w"
proof -
  obtain us vs where cs: "cs = us @ (w, i, f) # vs" using assms(2) by (meson split_list)
  let ?g = "foldl (greedy_step capacity) g us"
  let ?h = "greedy_step capacity ?g (w, i, f)"
  have fin: "foldl (greedy_step capacity) g cs = foldl (greedy_step capacity) ?h vs"
    by (simp add: cs)
  have "i \<notin> fst ` set (gs_form ?h)" using assms(3) greedy_keys_mono [of ?h capacity vs] fin by auto
  then have "capacity < gs_used ?g + w" and "?h = ?g"
    by (auto simp: greedy_step_def dict_put_fresh split: if_splits)
  moreover have "gs_used ?g \<le> gs_used (foldl (greedy_step capacity) ?g vs)"
    by (rule greedy_used_mono) (use assms(1) cs in auto)
  ultimately show ?thesis using fin by simp
qed

text \<open>
  C4. The joint policy is work conserving: when no allowed plan has a negative weight, every form it
  was allowed to choose for a deferred item weighs more than the capacity it left unused.
\<close>

theorem greedy_work_conserving:
  assumes "distinct (item_ids offers)"
    and "greedy_decide capacity allow_p1 offers s budget = Inr d"
    and "\<forall>ofr \<in> set offers. \<forall>f \<in> set (allowed_forms allow_p1 ofr). 0 \<le> weight_of ofr f"
    and "ofr \<in> set offers" and "item_id ofr \<in> set (dc_deferred d)"
    and "f \<in> set (allowed_forms allow_p1 ofr)"
  shows "capacity < chosen_weight offers (dc_form d) + weight_of ofr f"
proof -
  let ?cs = "all_candidates allow_p1 offers"
  have d: "d = greedy_result capacity allow_p1 offers s"
    using assms(2) by (simp add: greedy_decide_eq)
  have pos: "\<forall>c \<in> set ?cs. 0 \<le> fst c"
    using assms(3) by (auto simp: set_all_candidates)
  have "item_id ofr \<notin> fst ` set (gs_form (greedy_final capacity ?cs))"
    using assms(5) by (auto simp: d greedy_result_def greedy_decision_def)
  moreover have "(weight_of ofr f, item_id ofr, f) \<in> set ?cs"
    using assms(4,6) by (auto simp: set_all_candidates)
  ultimately show ?thesis
    using greedy_passed_over [OF pos, of "weight_of ofr f" "item_id ofr" f capacity greedy_start]
      greedy_used [OF assms(1), of capacity allow_p1]
    by (simp add: greedy_final_def d greedy_result_def greedy_decision_def)
qed

subsection \<open>A concrete round\<close>

definition sample_request :: "op_class \<Rightarrow> int \<Rightarrow> request_descriptor" where
  "sample_request op n =
     \<lparr>rd_op_class = op, rd_prompt_sha256 = ''00'', rd_max_tokens = 256,
      rd_est_uncached_prefill = n, rd_est_cached_prefill = 0, rd_est_decode = 10\<rparr>"

definition sample_offer :: "string \<Rightarrow> int \<Rightarrow> offer" where
  "sample_offer i n =
     \<lparr>item_id = i, offer_boundary = AtH, unit_id = ''u'',
      offer_p0 = \<lparr>p0_requests = [sample_request PAGE_P0_SUMMARY n, sample_request PAGE_P0_SUMMARY n]\<rparr>,
      submitted_at_ns = 0,
      offer_p1 = Some \<lparr>p1_selector = sample_request PAGE_P1_SELECTOR_LOCAL n,
        p1_render = \<lparr>rn_est_cpu_ms = Finite 1, rn_candidate_count = 3\<rparr>\<rparr>,
      deadline_ns = None\<rparr>"

definition sample_snapshot :: scheduler_snapshot where
  "sample_snapshot =
     \<lparr>sn_version = \<lparr>sv_epoch = ''e0'', sv_tick = 1\<rparr>, sn_taken_at_ns = 1000, sn_features = []\<rparr>"

definition sample_offers :: "offer list" where
  "sample_offers = [sample_offer ''a'' 50, sample_offer ''b'' 90, sample_offer ''c'' 20]"

lemma sample_greedy:
  "distinct (item_ids sample_offers)"
  "dc_admitted (greedy_result 100 True sample_offers sample_snapshot) = [''c'', ''a'']"
  "dc_form (greedy_result 100 True sample_offers sample_snapshot) = [(''c'', P1), (''a'', P1)]"
  "dc_deferred (greedy_result 100 True sample_offers sample_snapshot) = [''b'']"
  "chosen_weight sample_offers [(''c'', P1), (''a'', P1)] = 90"
  by code_simp+

theorem greedy_joint_safe_witness:
  "chosen_weight sample_offers
     (dc_form (greedy_result 100 True sample_offers sample_snapshot)) \<le> 100
   \<and> dc_admitted (greedy_result 100 True sample_offers sample_snapshot) = [''c'', ''a'']"
  using greedy_joint_safe [OF sample_greedy(1) greedy_decide_eq, of 100 True sample_snapshot]
  by (simp add: sample_greedy(2))

theorem greedy_work_conserving_witness:
  "100 < chosen_weight sample_offers [(''c'', P1), (''a'', P1)] + weight_of (sample_offer ''b'' 90) P1"
proof -
  have pos: "\<forall>ofr \<in> set sample_offers. \<forall>f \<in> set (allowed_forms True ofr). 0 \<le> weight_of ofr f"
    by code_simp
  have mem: "sample_offer ''b'' 90 \<in> set sample_offers" by (simp add: sample_offers_def)
  have deferred: "item_id (sample_offer ''b'' 90)
      \<in> set (dc_deferred (greedy_result 100 True sample_offers sample_snapshot))"
    by (simp add: sample_greedy(4)) (simp add: sample_offer_def)
  have allowed: "P1 \<in> set (allowed_forms True (sample_offer ''b'' 90))" by code_simp
  show ?thesis
    using greedy_work_conserving [OF sample_greedy(1) greedy_decide_eq pos mem deferred allowed]
    by (simp add: sample_greedy(3))
qed

end
