(* ===== verification/SimHost.thy ===== *)
theory SimHost
  imports Policy
begin

text \<open>
  \<^verbatim>\<open>src/src/shapeflow/broker/hosts/simulated.py\<close>: the host without an engine. It interprets
  the host protocol of the driver, and together with the greedy policy the whole tick. A Python
  exception that ends \<open>materialize\<close> half-way leaves the dispatches appended so far, so the
  dispatch loop returns the log beside its outcome.
\<close>

record dispatch =
  dp_item :: string
  dp_form :: form
  dp_ordinal :: nat
  dp_op_class :: string
  dp_gang_scheduled :: bool

record sim_host =
  sh_offers :: "offer list"
  sh_epoch :: string
  sh_tick :: int
  sh_now_ns :: int
  sh_features :: "(string \<times> pyval) list"
  sh_dispatches :: "dispatch list"
  sh_committed :: "decision list"
  sh_stale_at_ticks :: "int list"

definition default_features :: "(string \<times> pyval) list" where
  "default_features =
     [(''engine.num_requests_running'', PInt 0), (''engine.num_requests_waiting'', PInt 0),
      (''engine.kv_cache_usage_perc'', PFloat (Finite 0)), (''local.inflight_total'', PInt 0)]"

definition new_sim_host :: "offer list \<Rightarrow> int list \<Rightarrow> sim_host" where
  "new_sim_host offers stale =
     \<lparr>sh_offers = offers, sh_epoch = ''sim-epoch-0'', sh_tick = 0, sh_now_ns = 0,
      sh_features = default_features, sh_dispatches = [], sh_committed = [],
      sh_stale_at_ticks = stale\<rparr>"

definition sim_take_snapshot :: "sim_host \<Rightarrow> (tick_error + scheduler_snapshot) \<times> sim_host" where
  "sim_take_snapshot h =
     (let h' = h\<lparr>sh_tick := sh_tick h + 1, sh_now_ns := sh_now_ns h + 1000\<rparr> in
      case make_feature_map (sh_features h) of
        Inl e \<Rightarrow> (Inl (FeatureErr e), h')
      | Inr m \<Rightarrow>
          (Inr \<lparr>sn_version = \<lparr>sv_epoch = sh_epoch h', sv_tick = sh_tick h'\<rparr>,
                sn_taken_at_ns = sh_now_ns h', sn_features = m\<rparr>, h'))"

definition sim_pending :: "sim_host \<Rightarrow> offer list" where
  "sim_pending h = sh_offers h"

definition dispatches_of :: "string \<Rightarrow> form \<Rightarrow> request_descriptor list \<Rightarrow> dispatch list" where
  "dispatches_of item f requests =
     map (\<lambda>(k, r). \<lparr>dp_item = item, dp_form = f, dp_ordinal = k,
            dp_op_class = op_value (rd_op_class r), dp_gang_scheduled = False\<rparr>)
       (enumerate 0 requests)"

fun sim_dispatch ::
  "(string \<times> offer) list \<Rightarrow> (string \<times> form) list \<Rightarrow> string list \<Rightarrow> (string \<times> int) list
     \<Rightarrow> dispatch list \<Rightarrow> (tick_error + (string \<times> int) list) \<times> dispatch list" where
  "sim_dispatch by_id form_map [] dispatched acc = (Inr dispatched, acc)"
| "sim_dispatch by_id form_map (i # is) dispatched acc =
     (case map_of by_id i of
        None \<Rightarrow> (Inl (KeyErr i), acc)
      | Some ofr \<Rightarrow>
          (case map_of form_map i of
             None \<Rightarrow> (Inl (KeyErr i), acc)
           | Some f \<Rightarrow>
               (case plan_for ofr f of
                  Inl e \<Rightarrow> (Inl (Violation e), acc)
                | Inr p \<Rightarrow>
                    sim_dispatch by_id form_map is
                      (dict_put i (int (length (plan_requests p))) dispatched)
                      (acc @ dispatches_of i f (plan_requests p)))))"

definition sim_materialize ::
  "decision \<Rightarrow> scheduler_snapshot \<Rightarrow> sim_host \<Rightarrow> (host_failure + materialize_result) \<times> sim_host" where
  "sim_materialize d s h =
     (if sv_tick (sn_version s) \<in> set (sh_stale_at_ticks h)
      then (Inl (StaleSnapshot (sn_version s)), h)
      else
        (case sim_dispatch (offers_by_id (sh_offers h)) (dc_form d) (dc_admitted d) []
                (sh_dispatches h) of
           (Inl e, acc) \<Rightarrow> (Inl (HostRaised e), h\<lparr>sh_dispatches := acc\<rparr>)
         | (Inr dispatched, acc) \<Rightarrow>
             (Inr \<lparr>mr_materialized = dc_admitted d, mr_dispatched = dispatched,
                   mr_degraded_to_p0 =
                     filter (\<lambda>i. dc_fail_closed d \<and> map_of (dc_form d) i = Some P0) (dc_admitted d)\<rparr>,
              h\<lparr>sh_dispatches := acc,
                sh_committed := sh_committed h @ [d],
                sh_offers := filter (\<lambda>ofr. item_id ofr \<notin> set (dc_admitted d)) (sh_offers h)\<rparr>)))"

definition requests_for :: "sim_host \<Rightarrow> string \<Rightarrow> dispatch list" where
  "requests_for h i = filter (\<lambda>d. dp_item d = i) (sh_dispatches h)"

definition dispatch_count :: "sim_host \<Rightarrow> string \<Rightarrow> nat" where
  "dispatch_count h i = length (filter (\<lambda>d. dp_item d = i) (sh_dispatches h))"

definition forms_of :: "sim_host \<Rightarrow> string \<Rightarrow> form set" where
  "forms_of h i = dp_form ` set (filter (\<lambda>d. dp_item d = i) (sh_dispatches h))"

definition restart_engine :: "string option \<Rightarrow> sim_host \<Rightarrow> sim_host" where
  "restart_engine new_epoch h =
     h\<lparr>sh_epoch := (case new_epoch of
                     None \<Rightarrow> sh_epoch h @ ''-restarted''
                   | Some e \<Rightarrow> if e = [] then sh_epoch h @ ''-restarted'' else e),
       sh_tick := 0\<rparr>"

subsection \<open>The dispatch loop\<close>

lemma dispatches_of_item: "d \<in> set (dispatches_of i f rs) \<Longrightarrow> dp_item d = i \<and> dp_form d = f"
  by (auto simp: dispatches_of_def)

lemma length_dispatches_of [simp]: "length (dispatches_of i f rs) = length rs"
  by (simp add: dispatches_of_def)

lemma filter_dispatches_of [simp]:
  "filter (\<lambda>d. dp_item d = j) (dispatches_of i f rs) = (if i = j then dispatches_of i f rs else [])"
  by (auto simp: filter_empty_conv filter_id_conv dest: dispatches_of_item)

text \<open>What the loop appends for one item, when everything it looks up is there.\<close>

definition item_dispatches ::
  "(string \<times> offer) list \<Rightarrow> (string \<times> form) list \<Rightarrow> string \<Rightarrow> dispatch list" where
  "item_dispatches by_id form_map i =
     (case (map_of by_id i, map_of form_map i) of
        (Some ofr, Some f) \<Rightarrow>
          (case plan_for ofr f of Inl e \<Rightarrow> [] | Inr p \<Rightarrow> dispatches_of i f (plan_requests p))
      | _ \<Rightarrow> [])"

lemma item_dispatches_item:
  "d \<in> set (item_dispatches by_id form_map i) \<Longrightarrow> dp_item d = i \<and> map_of form_map i = Some (dp_form d)"
  by (auto simp: item_dispatches_def dest: dispatches_of_item split: option.splits sum.splits)

lemma filter_item_dispatches [simp]:
  "filter (\<lambda>d. dp_item d = j) (item_dispatches by_id fm i)
     = (if i = j then item_dispatches by_id fm i else [])"
  by (auto simp: filter_empty_conv filter_id_conv dest: item_dispatches_item)

definition item_ready :: "(string \<times> offer) list \<Rightarrow> (string \<times> form) list \<Rightarrow> string \<Rightarrow> bool" where
  "item_ready by_id form_map i \<longleftrightarrow>
     (\<exists>ofr f p. map_of by_id i = Some ofr \<and> map_of form_map i = Some f \<and> plan_for ofr f = Inr p)"

lemma sim_dispatch_Inr:
  assumes "sim_dispatch by_id fm is dispatched acc = (Inr out, acc')"
  shows "(\<forall>i \<in> set is. item_ready by_id fm i)
    \<and> acc' = acc @ concat (map (item_dispatches by_id fm) is)"
  using assms
  by (induction by_id fm "is" dispatched acc rule: sim_dispatch.induct)
     (auto simp: item_ready_def item_dispatches_def split: option.splits sum.splits)

lemma sim_dispatch_ready:
  assumes "\<forall>i \<in> set is. item_ready by_id fm i"
  shows "\<exists>out acc'. sim_dispatch by_id fm is dispatched acc = (Inr out, acc')"
  using assms
  by (induction by_id fm "is" dispatched acc rule: sim_dispatch.induct) (auto simp: item_ready_def)

lemma sim_dispatch_counts:
  assumes "sim_dispatch by_id fm is dispatched acc = (Inr out, acc')"
  shows "map_of out i = (if i \<in> set is then Some (int (length (item_dispatches by_id fm i)))
    else map_of dispatched i)"
  using assms
  by (induction by_id fm "is" dispatched acc rule: sim_dispatch.induct)
     (auto simp: item_dispatches_def split: option.splits sum.splits)

lemma filter_concat_items:
  "filter (\<lambda>d. dp_item d = i) (concat (map (item_dispatches by_id fm) is))
     = concat (map (\<lambda>j. if j = i then item_dispatches by_id fm i else []) is)"
  by (induction "is") auto

lemma concat_single:
  "distinct is \<Longrightarrow> concat (map (\<lambda>j. if j = i then xs else []) is) = (if i \<in> set is then xs else [])"
  by (induction "is") auto

subsection \<open>The host keeps the protocol\<close>

definition one_form :: "dispatch list \<Rightarrow> bool" where
  "one_form ds \<longleftrightarrow>
     (\<forall>d \<in> set ds. \<forall>e \<in> set ds. dp_item d = dp_item e \<longrightarrow> dp_form d = dp_form e)"

definition sim_inv :: "sim_host \<Rightarrow> bool" where
  "sim_inv h \<longleftrightarrow>
     distinct (item_ids (sh_offers h))
     \<and> set (map fst (sh_features h)) \<subseteq> set observable_names
     \<and> (\<forall>d \<in> set (sh_dispatches h). dp_item d \<notin> set (item_ids (sh_offers h)))
     \<and> one_form (sh_dispatches h)"

lemma one_formD:
  "one_form ds \<Longrightarrow> d \<in> set ds \<Longrightarrow> e \<in> set ds \<Longrightarrow> dp_item d = dp_item e
     \<Longrightarrow> dp_form d = dp_form e"
  unfolding one_form_def by blast

lemma make_feature_map_ok:
  assumes "set (map fst values) \<subseteq> set observable_names"
  shows "make_feature_map values = Inr values"
proof -
  have "filter (\<lambda>k. k \<notin> set observable_names) (map fst values) = []"
    using assms by (auto simp: filter_empty_conv)
  then show ?thesis by (simp add: make_feature_map_def Let_def)
qed

lemma sim_snapshot_law:
  assumes "sim_inv h" and "sim_take_snapshot h = (r, h')"
  shows "sim_inv h' \<and> sim_pending h' = sim_pending h \<and> (\<exists>s. r = Inr s)"
proof -
  have "make_feature_map (sh_features h) = Inr (sh_features h)"
    by (rule make_feature_map_ok) (use assms(1) in \<open>simp add: sim_inv_def\<close>)
  moreover have "sim_inv (h\<lparr>sh_tick := t, sh_now_ns := n\<rparr>)" for t n
    using assms(1) by (simp add: sim_inv_def)
  ultimately show ?thesis
    using assms(2) by (auto simp: sim_take_snapshot_def sim_pending_def Let_def)
qed

lemma sim_materialize_Inr:
  assumes "sim_materialize d s h = (Inr res, h')"
  shows "(\<forall>i \<in> set (dc_admitted d). item_ready (offers_by_id (sh_offers h)) (dc_form d) i)"
    and "sh_dispatches h' = sh_dispatches h
      @ concat (map (item_dispatches (offers_by_id (sh_offers h)) (dc_form d)) (dc_admitted d))"
    and "sh_offers h' = filter (\<lambda>ofr. item_id ofr \<notin> set (dc_admitted d)) (sh_offers h)"
    and "sh_features h' = sh_features h" and "sh_committed h' = sh_committed h @ [d]"
    and "mr_materialized res = dc_admitted d"
    and "map_of (mr_dispatched res) i = (if i \<in> set (dc_admitted d)
      then Some (int (length (item_dispatches (offers_by_id (sh_offers h)) (dc_form d) i))) else None)"
proof -
  obtain r ds where loop: "sim_dispatch (offers_by_id (sh_offers h)) (dc_form d) (dc_admitted d) []
      (sh_dispatches h) = (r, ds)"
    by (cases "sim_dispatch (offers_by_id (sh_offers h)) (dc_form d) (dc_admitted d) []
      (sh_dispatches h)")
  have fresh: "sv_tick (sn_version s) \<notin> set (sh_stale_at_ticks h)"
    using assms by (simp add: sim_materialize_def split: if_splits)
  obtain out where r: "r = Inr out"
    using assms loop fresh by (cases r) (simp_all add: sim_materialize_def)
  note eqs = assms [unfolded sim_materialize_def, simplified loop r fresh, simplified]
  show "sh_offers h' = filter (\<lambda>ofr. item_id ofr \<notin> set (dc_admitted d)) (sh_offers h)"
    and "sh_features h' = sh_features h" and "sh_committed h' = sh_committed h @ [d]"
    and "mr_materialized res = dc_admitted d"
    using eqs by auto
  show "(\<forall>i \<in> set (dc_admitted d). item_ready (offers_by_id (sh_offers h)) (dc_form d) i)"
    and "sh_dispatches h' = sh_dispatches h
      @ concat (map (item_dispatches (offers_by_id (sh_offers h)) (dc_form d)) (dc_admitted d))"
    using eqs sim_dispatch_Inr [OF loop [unfolded r]] by auto
  show "map_of (mr_dispatched res) i = (if i \<in> set (dc_admitted d)
      then Some (int (length (item_dispatches (offers_by_id (sh_offers h)) (dc_form d) i))) else None)"
    using eqs sim_dispatch_counts [OF loop [unfolded r], of i] by auto
qed

lemma ready_offered:
  assumes "item_ready (offers_by_id offers) fm i"
  shows "i \<in> set (item_ids offers)"
proof -
  obtain ofr where "(i, ofr) \<in> set (offers_by_id offers)"
    using assms by (auto simp: item_ready_def dest: map_of_SomeD)
  then have "i \<in> fst ` set (offers_by_id offers)" by force
  then show ?thesis by (simp add: keys_offers_by_id)
qed

lemma sim_commit_inv:
  assumes "sim_inv h" and "sim_materialize d s h = (Inr res, h')"
  shows "sim_inv h'"
proof -
  note m = sim_materialize_Inr [OF assms(2)]
  let ?new = "item_dispatches (offers_by_id (sh_offers h)) (dc_form d)"
  have new: "dp_item x = i \<and> map_of (dc_form d) i = Some (dp_form x) \<and> i \<in> set (item_ids (sh_offers h))"
    if "x \<in> set (?new i)" and "i \<in> set (dc_admitted d)" for x i
    using that m(1) item_dispatches_item [of x] ready_offered by blast
  have old: "dp_item x \<notin> set (item_ids (sh_offers h))" if "x \<in> set (sh_dispatches h)" for x
    using that assms(1) by (simp add: sim_inv_def)
  have forms: "one_form (sh_dispatches h)" using assms(1) by (simp add: sim_inv_def)
  have ids: "set (item_ids (sh_offers h')) = set (item_ids (sh_offers h)) - set (dc_admitted d)"
    by (auto simp: m(3) item_ids_def)
  have "distinct (item_ids (sh_offers h'))"
    using assms(1) by (simp add: m(3) item_ids_def sim_inv_def distinct_map_filter)
  moreover have "\<forall>x \<in> set (sh_dispatches h'). dp_item x \<notin> set (item_ids (sh_offers h'))"
    using old new by (fastforce simp: m(2) ids)
  moreover have "one_form (sh_dispatches h')"
    unfolding one_form_def
  proof (intro ballI impI)
    fix x y
    assume xy: "x \<in> set (sh_dispatches h')" "y \<in> set (sh_dispatches h')" "dp_item x = dp_item y"
    have part: "x \<in> set (sh_dispatches h) \<and> dp_item x \<notin> set (item_ids (sh_offers h))
        \<or> map_of (dc_form d) (dp_item x) = Some (dp_form x) \<and> dp_item x \<in> set (item_ids (sh_offers h))"
      if "x \<in> set (sh_dispatches h')" for x
      using that old new by (fastforce simp: m(2))
    from part [OF xy(1)] part [OF xy(2)] xy(3) show "dp_form x = dp_form y"
      using one_formD [OF forms, of x y] by auto
  qed
  ultimately show ?thesis using assms(1) by (simp add: sim_inv_def m(4))
qed

lemma answerable_ready:
  assumes "decision_wf d" and "answerable d offers" and "i \<in> set (dc_admitted d)"
  shows "item_ready (offers_by_id offers) (dc_form d) i"
proof -
  have "i \<in> set (item_ids offers)" using assms(2,3) by (auto simp: answerable_def)
  then obtain ofr where ofr: "map_of (offers_by_id offers) i = Some ofr"
    by (rule last_offer_by_id)
  have "i \<in> dom (map_of (dc_form d))"
    using assms(1,3) by (simp add: decision_wf_def dom_map_of_conv_image_fst)
  then obtain f where f: "map_of (dc_form d) i = Some f" by blast
  then have "(i, f) \<in> set (dc_form d)" by (rule map_of_SomeD)
  then have "f = P1 \<Longrightarrow> offer_p1 ofr \<noteq> None"
    using assms(2) ofr by (fastforce simp: answerable_def)
  then have "\<exists>p. plan_for ofr f = Inr p" by (cases f) (auto simp: plan_for_def)
  with ofr f show ?thesis by (auto simp: item_ready_def)
qed

lemma sim_raise_law:
  assumes "decision_wf d" and "answerable d (sim_pending h)"
  shows "sim_materialize d s h \<noteq> (Inl (HostRaised e), h')"
proof -
  have "\<forall>i \<in> set (dc_admitted d). item_ready (offers_by_id (sh_offers h)) (dc_form d) i"
    using assms answerable_ready by (auto simp: sim_pending_def)
  from sim_dispatch_ready [OF this, of "[]" "sh_dispatches h"]
  show ?thesis by (auto simp: sim_materialize_def)
qed

text \<open>A host since \<open>h0\<close>: what was dispatched was dispatched in the form a decision carried out gives it.\<close>

definition sim_since :: "sim_host \<Rightarrow> sim_host \<Rightarrow> bool" where
  "sim_since h0 h \<longleftrightarrow> sim_inv h \<and> (\<exists>ds cs. sh_dispatches h = sh_dispatches h0 @ ds \<and> sh_committed h = sh_committed h0 @ cs
     \<and> (\<forall>x \<in> set ds. \<exists>d \<in> set cs. map_of (dc_form d) (dp_item x) = Some (dp_form x)))"

lemma sim_since_refl: "sim_inv h \<Longrightarrow> sim_since h h"
  by (simp add: sim_since_def)

lemma sim_since_snapshot:
  assumes "sim_since h0 h" and "sim_take_snapshot h = (r, h')"
  shows "sim_since h0 h' \<and> sim_pending h' = sim_pending h \<and> sh_committed h' = sh_committed h \<and> (\<exists>s. r = Inr s)"
proof -
  have "sh_dispatches h' = sh_dispatches h \<and> sh_committed h' = sh_committed h"
    using assms(2) by (auto simp: sim_take_snapshot_def Let_def split: sum.splits)
  with sim_snapshot_law [OF _ assms(2)] assms(1) show ?thesis by (simp add: sim_since_def)
qed

lemma sim_since_commit:
  assumes "sim_since h0 h" and "sim_materialize d s h = (Inr res, h')"
  shows "sim_since h0 h'"
proof -
  note m = sim_materialize_Inr [OF assms(2)]
  obtain ds cs where ds: "sh_dispatches h = sh_dispatches h0 @ ds" "sh_committed h = sh_committed h0 @ cs"
    and old: "\<forall>x \<in> set ds. \<exists>d \<in> set cs. map_of (dc_form d) (dp_item x) = Some (dp_form x)" and inv: "sim_inv h"
    using assms(1) by (auto simp: sim_since_def)
  let ?new = "concat (map (item_dispatches (offers_by_id (sh_offers h)) (dc_form d)) (dc_admitted d))"
  have "map_of (dc_form d) (dp_item x) = Some (dp_form x)" if "x \<in> set ?new" for x
    using that item_dispatches_item by fastforce
  with old have "\<forall>x \<in> set (ds @ ?new). \<exists>e \<in> set (cs @ [d]). map_of (dc_form e) (dp_item x) = Some (dp_form x)" by auto
  with ds m(2,5) sim_commit_inv [OF inv assms(2)] show ?thesis
    unfolding sim_since_def by (intro conjI exI [of _ "ds @ ?new"] exI [of _ "cs @ [d]"]) simp_all
qed

interpretation sim: broker_host sim_pending sim_take_snapshot sim_materialize "sim_since h0" sh_committed
  for h0 :: sim_host
proof unfold_locales
  show "distinct (item_ids (sim_pending h))" if "sim_since h0 h" for h
    using that by (simp add: sim_since_def sim_inv_def sim_pending_def)
  show "h' = h" if "sim_materialize d s h = (Inl (StaleSnapshot v), h')" for d s h v h'
    using that by (auto simp: sim_materialize_def split: if_splits prod.splits sum.splits)
  show "sim_since h0 h' \<and> sim_pending h' = filter (\<lambda>ofr. item_id ofr \<notin> set (dc_admitted d)) (sim_pending h)
      \<and> mr_materialized res = dc_admitted d \<and> sh_committed h' = sh_committed h @ [d]"
    if "sim_since h0 h" "sim_materialize d s h = (Inr res, h')" for h d s res h'
    using sim_since_commit [OF that] sim_materialize_Inr(3,5,6) [OF that(2)] by (simp add: sim_pending_def)
qed (use sim_since_snapshot sim_raise_law in blast)+

interpretation sim_greedy:
  tick sim_pending sim_take_snapshot sim_materialize "sim_since h0" sh_committed "greedy_decide capacity allow_p1"
  for h0 :: sim_host and capacity allow_p1
  by unfold_locales

subsection \<open>Properties\<close>

text \<open>
  C5. One tick of the driver over the simulated host and the joint policy always returns an outcome,
  never a raise, whatever the clock reads and wherever the snapshot goes stale: nothing leaves the
  queue without being materialized; the host carries out the reported decision and no other, and dispatches
  every request in the form that decision gives its item; a solver overrun and exhausted retries both end in P0
  for everything offered and otherwise the decision is the policy's; retries are bounded, and no item is ever
  dispatched under two forms.
\<close>

theorem simulated_tick_total:
  assumes "sim_inv h"
  shows "\<exists>t h' ds. run_tick sim_pending sim_take_snapshot sim_materialize
        (greedy_decide capacity allow_p1) budget_ns max_retries clock h = (Inr t, h')
      \<and> tick_outcome_ok (\<lambda>k. clock (2 * k + 1) - clock (2 * k) > budget_ns)
          (\<lambda>d. \<exists>s. greedy_decide capacity allow_p1 (sh_offers h) s budget_ns = Inr d)
          (sh_offers h) (sh_offers h') (sh_committed h) (sh_committed h') max_retries t
      \<and> sh_dispatches h' = sh_dispatches h @ ds
      \<and> (\<forall>x \<in> set ds. \<exists>d. to_decision t = Some d \<and> map_of (dc_form d) (dp_item x) = Some (dp_form x))
      \<and> (\<forall>i f g. f \<in> forms_of h' i \<and> g \<in> forms_of h' i \<longrightarrow> f = g)"
proof -
  obtain t h' where run: "run_tick sim_pending sim_take_snapshot sim_materialize
      (greedy_decide capacity allow_p1) budget_ns max_retries clock h = (Inr t, h')"
    and since: "sim_since h h'"
    and ok: "tick_outcome_ok (\<lambda>k. clock (2 * k + 1) - clock (2 * k) > budget_ns)
          (\<lambda>d. \<exists>s. greedy_decide capacity allow_p1 (sim_pending h) s budget_ns = Inr d)
          (sim_pending h) (sim_pending h') (sh_committed h) (sh_committed h') max_retries t"
    using sim_greedy.run_tick_ok [OF sim_since_refl [OF assms]] by blast
  have inv: "sim_inv h'" using since by (simp add: sim_since_def)
  have forms: "\<forall>i f g. f \<in> forms_of h' i \<and> g \<in> forms_of h' i \<longrightarrow> f = g"
    using inv unfolding sim_inv_def forms_of_def by (auto dest: one_formD)
  obtain ds cs where ds: "sh_dispatches h' = sh_dispatches h @ ds" "sh_committed h' = sh_committed h @ cs"
    "\<forall>x \<in> set ds. \<exists>d \<in> set cs. map_of (dc_form d) (dp_item x) = Some (dp_form x)"
    using since by (auto simp: sim_since_def)
  have "to_decision t = Some d" if "d \<in> set cs" for d
    using ok ds(2) that by (auto simp: tick_outcome_ok_def split: option.splits if_splits)
  then have "\<forall>x \<in> set ds. \<exists>d. to_decision t = Some d \<and> map_of (dc_form d) (dp_item x) = Some (dp_form x)"
    using ds(3) by blast
  with run ok forms ds(1) show ?thesis unfolding sim_pending_def by blast
qed

definition stale_host :: sim_host where
  "stale_host = new_sim_host sample_offers [1, 2]"

lemma stale_host_inv: "sim_inv stale_host"
  by code_simp

theorem simulated_tick_total_witness:
  "\<exists>t h' d. run_tick sim_pending sim_take_snapshot sim_materialize
       (greedy_decide 100 True) 2000000 2 (\<lambda>k. if odd k then 3000000 else 0) stale_host = (Inr t, h')
     \<and> to_decision t = Some d \<and> all_p0 d (sh_offers stale_host)"
proof -
  let ?clock = "\<lambda>k :: nat. if odd k then 3000000 else 0 :: int"
  obtain t h' where run: "run_tick sim_pending sim_take_snapshot sim_materialize
       (greedy_decide 100 True) 2000000 2 ?clock stale_host = (Inr t, h')"
    and ok: "tick_outcome_ok (\<lambda>k. ?clock (2 * k + 1) - ?clock (2 * k) > 2000000)
          (\<lambda>d. \<exists>s. greedy_decide 100 True (sh_offers stale_host) s 2000000 = Inr d)
          (sh_offers stale_host) (sh_offers h') (sh_committed stale_host) (sh_committed h') 2 t"
    using simulated_tick_total [OF stale_host_inv, of 100 True 2000000 2 ?clock] by blast
  have "sh_offers stale_host \<noteq> []" by code_simp
  with ok show ?thesis using run
    by (auto simp: tick_outcome_ok_def split: option.splits)
qed

text \<open>
   A commit dispatches every request of the chosen plan on its own: for each admitted item the
  log grows by one entry per request of the plan (N for P0, exactly one for P1), in order, none of
  them gang scheduled; the counts reported for the item are those; and items that were not
  admitted are not dispatched.
\<close>

theorem materialize_dispatches_each_request:
  assumes "sim_materialize d s h = (Inr res, h')" and "distinct (dc_admitted d)"
  shows "requests_for h' i = requests_for h i
      @ (if i \<in> set (dc_admitted d)
         then item_dispatches (offers_by_id (sh_offers h)) (dc_form d) i else [])
    \<and> map_of (mr_dispatched res) i = (if i \<in> set (dc_admitted d)
         then Some (int (dispatch_count h' i) - int (dispatch_count h i)) else None)
    \<and> (\<forall>ofr. i \<in> set (dc_admitted d) \<and> map_of (offers_by_id (sh_offers h)) i = Some ofr \<longrightarrow>
         dispatch_count h' i - dispatch_count h i =
           (if map_of (dc_form d) i = Some P0 then length (p0_requests (offer_p0 ofr)) else 1))"
proof -
  note m = sim_materialize_Inr [OF assms(1)]
  have req: "requests_for h' i = requests_for h i
      @ (if i \<in> set (dc_admitted d)
         then item_dispatches (offers_by_id (sh_offers h)) (dc_form d) i else [])"
    by (simp add: requests_for_def m(2) filter_concat_items concat_single [OF assms(2)])
  have count: "dispatch_count g i = length (requests_for g i)" for g
    by (simp add: dispatch_count_def requests_for_def)
  have "dispatch_count h' i - dispatch_count h i =
      (if map_of (dc_form d) i = Some P0 then length (p0_requests (offer_p0 ofr)) else 1)"
    if adm: "i \<in> set (dc_admitted d)" and ofr: "map_of (offers_by_id (sh_offers h)) i = Some ofr" for ofr
  proof -
    obtain f p where "map_of (dc_form d) i = Some f" "plan_for ofr f = Inr p"
      using m(1) adm ofr by (auto simp: item_ready_def)
    with adm ofr show ?thesis
      by (cases f) (auto simp: count req item_dispatches_def plan_for_def plan_requests_def
          split: option.splits)
  qed
  then show ?thesis using m(7) [of i] by (simp add: req count)
qed

definition p0_round :: decision where
  "p0_round = p0_only sample_offers sample_snapshot ''fail closed''"

theorem materialize_dispatches_each_request_witness:
  "dispatch_count (snd (sim_materialize p0_round sample_snapshot (new_sim_host sample_offers []))) ''b''
     = 2"
proof -
  let ?h = "new_sim_host sample_offers []"
  obtain res h' where m: "sim_materialize p0_round sample_snapshot ?h = (Inr res, h')"
    and h: "map_of (offers_by_id (sh_offers ?h)) ''b'' = Some (sample_offer ''b'' 90)"
    and adm: "''b'' \<in> set (dc_admitted p0_round)" "map_of (dc_form p0_round) ''b'' = Some P0"
    and dist: "distinct (dc_admitted p0_round)" and zero: "dispatch_count ?h ''b'' = 0"
  proof -
    have "case fst (sim_materialize p0_round sample_snapshot ?h) of Inl _ \<Rightarrow> False | Inr _ \<Rightarrow> True"
      by code_simp
    then have "\<exists>res h'. sim_materialize p0_round sample_snapshot ?h = (Inr res, h')"
      by (cases "sim_materialize p0_round sample_snapshot ?h") (auto split: sum.splits)
    moreover have "map_of (offers_by_id (sh_offers ?h)) ''b'' = Some (sample_offer ''b'' 90)"
      "''b'' \<in> set (dc_admitted p0_round)" "map_of (dc_form p0_round) ''b'' = Some P0"
      "distinct (dc_admitted p0_round)" "dispatch_count ?h ''b'' = 0"
      by code_simp+
    ultimately show ?thesis using that by blast
  qed
  have "length (p0_requests (offer_p0 (sample_offer ''b'' 90))) = 2" by code_simp
  then show ?thesis
    using materialize_dispatches_each_request [OF m dist, of "''b''"] h adm zero m by auto
qed

end
