(* ===== verification/Ledger.thy ===== *)
theory Ledger
  imports Hashing
begin

text \<open>
  \<^verbatim>\<open>src/src/shapeflow/experiment/ledger.py\<close>: the run ledger. A table of the SQLite schema is a
  list of rows in insertion order, the ledger a record of its tables, an operation one
  transaction: a raise is a value \<open>Inl e\<close> and leaves the database as it was (ROLLBACK), success
  returns the ledger after COMMIT. The single writer lock makes operations atomic, so a history of
  the ledger is a sequence of them. Times are real numbers; \<open>clk k\<close> is the \<open>k\<close>-th reading an
  operation makes of the injected clock. \<open>sha\<close> and \<open>fr\<close> are the digest and the float rendering of
  the derived identities. The budget and external-call tables of the same database are in the
  theories of the modules that use them.
\<close>

subsection \<open>States\<close>

datatype lstate =
    PENDING
  | CLAIMED
  | MATERIALIZED
  | VALIDATED
  | COMMITTED
  | FAILED_RETRYABLE
  | FAILED_FINAL
  | FAILED_UNKNOWN
  | BLOCKED_BUDGET

definition non_terminal_states :: "lstate list" where
  "non_terminal_states = [PENDING, CLAIMED, MATERIALIZED, VALIDATED]"

definition terminal_states :: "lstate list" where
  "terminal_states = [COMMITTED, FAILED_FINAL, FAILED_UNKNOWN, BLOCKED_BUDGET]"

fun legal :: "lstate \<Rightarrow> lstate list" where
  "legal PENDING = [CLAIMED, BLOCKED_BUDGET]"
| "legal CLAIMED = [MATERIALIZED, FAILED_RETRYABLE, FAILED_FINAL, FAILED_UNKNOWN]"
| "legal MATERIALIZED = [VALIDATED, FAILED_RETRYABLE, FAILED_FINAL, FAILED_UNKNOWN]"
| "legal VALIDATED = [COMMITTED, FAILED_RETRYABLE, FAILED_FINAL, FAILED_UNKNOWN]"
| "legal _ = []"

definition in_progress :: "lstate \<Rightarrow> bool" where
  "in_progress s \<longleftrightarrow> s \<in> set [CLAIMED, MATERIALIZED, VALIDATED]"

datatype ledger_error =
    UnknownWorkItem string
  | UnknownAttempt string
  | IllegalTransition lstate lstate
  | NotInState string lstate
  | AdvanceTarget lstate
  | CommitRequiresValidated lstate
  | AlreadyCommitted string
  | BadDisposition lstate
  | IntegrityError
  | NoRow
  | MetaInvalid string
  | RunConflict string
  | EpochConflict string string string
  | IdError hash_error

subsection \<open>Tables\<close>

record coordinates =
  co_protocol_sha :: string
  co_split :: string
  co_phase_id :: string
  co_task_id :: string
  co_arm_id :: string
  co_variant_id :: string
  co_replicate_id :: string
  co_checkpoint_hash :: string
  co_stage_version :: string

record work_item =
  wi_key :: string
  wi_coord :: coordinates
  wi_side_effecting :: bool
  wi_max_retries :: int
  wi_retry_count :: int
  wi_state :: lstate
  wi_created_at :: real
  wi_updated_at :: real

record attempt =
  at_id :: string
  at_work_key :: string
  at_ordinal :: int
  at_run_id :: string
  at_worker_id :: string
  at_state :: lstate
  at_lease_expires_at :: "real option"
  at_started_at :: real
  at_ended_at :: "real option"
  at_terminal_status :: "lstate option"
  at_result_ref :: "string option"
  at_error_class :: "string option"

record transition =
  tr_work_key :: string
  tr_attempt_id :: "string option"
  tr_from :: lstate
  tr_to :: lstate
  tr_at :: real
  tr_reason :: string

record run_row =
  run_key :: string
  run_protocol_sha :: string
  run_created_at :: real
  run_meta :: string

record config_row =
  cfg_sha :: string
  cfg_kind :: string
  cfg_canonical :: string
  cfg_created_at :: real

record incident =
  in_at :: real
  in_severity :: string
  in_kind :: string
  in_detail :: string
  in_work_key :: "string option"

record artifact =
  ar_ref :: string
  ar_kind :: string
  ar_raw_size :: int
  ar_stored_size :: int
  ar_work_key :: "string option"
  ar_created_at :: real

record corpus_attempt =
  cp_id :: string
  cp_corpus_version :: string
  cp_state :: string
  cp_reason :: string
  cp_protocol_sha :: string
  cp_started_at :: real
  cp_closed_at :: "real option"
  cp_note :: string

record cell_epoch =
  ce_work_key :: string
  ce_engine_epoch :: string
  ce_recorded_at :: real

record ledger =
  items :: "work_item list"
  attempts :: "attempt list"
  transitions :: "transition list"
  runs :: "run_row list"
  configs :: "config_row list"
  incidents :: "incident list"
  artifacts :: "artifact list"
  corpus :: "corpus_attempt list"
  epochs :: "cell_epoch list"

definition empty_ledger :: ledger where
  "empty_ledger = \<lparr>items = [], attempts = [], transitions = [], runs = [], configs = [],
     incidents = [], artifacts = [], corpus = [], epochs = []\<rparr>"

subsection \<open>Runs and configurations\<close>

definition log_transition ::
  "string \<Rightarrow> string option \<Rightarrow> lstate \<Rightarrow> lstate \<Rightarrow> string \<Rightarrow> real \<Rightarrow> ledger \<Rightarrow> ledger" where
  "log_transition key att from to reason tm L =
     L\<lparr>transitions := transitions L @ [\<lparr>tr_work_key = key, tr_attempt_id = att, tr_from = from,
        tr_to = to, tr_at = tm, tr_reason = reason\<rparr>]\<rparr>"

text \<open>
  \<open>canon s\<close> is \<open>json.dumps(json.loads(s), sort_keys=True, ...)\<close>, \<open>None\<close> when \<open>s\<close> is not JSON.
\<close>

definition create_run ::
  "(string \<Rightarrow> string option) \<Rightarrow> string \<Rightarrow> string \<Rightarrow> string \<Rightarrow> (nat \<Rightarrow> real) \<Rightarrow> ledger
     \<Rightarrow> ledger_error + ledger" where
  "create_run canon run_id protocol_sha meta_json clk L =
     (case canon meta_json of
        None \<Rightarrow> Inl (MetaInvalid run_id)
      | Some canonical_meta \<Rightarrow>
          let rs = insert_ignore run_key \<lparr>run_key = run_id, run_protocol_sha = protocol_sha,
                     run_created_at = clk 0, run_meta = canonical_meta\<rparr> (runs L)
          in (case find_row run_key run_id rs of
                None \<Rightarrow> Inl (RunConflict run_id)
              | Some existing \<Rightarrow>
                  (case canon (run_meta existing) of
                     None \<Rightarrow> Inl (MetaInvalid run_id)
                   | Some existing_meta \<Rightarrow>
                       if run_protocol_sha existing \<noteq> protocol_sha \<or> existing_meta \<noteq> canonical_meta
                       then Inl (RunConflict run_id)
                       else Inr (L\<lparr>runs := rs\<rparr>))))"

definition register_config ::
  "string \<Rightarrow> string \<Rightarrow> string \<Rightarrow> (nat \<Rightarrow> real) \<Rightarrow> ledger \<Rightarrow> ledger" where
  "register_config config_sha kind canonical clk L =
     L\<lparr>configs := insert_ignore cfg_sha \<lparr>cfg_sha = config_sha, cfg_kind = kind,
        cfg_canonical = canonical, cfg_created_at = clk 0\<rparr> (configs L)\<rparr>"

subsection \<open>Work items\<close>

definition coordinate_fields :: "coordinates \<Rightarrow> (string \<times> pyval) list" where
  "coordinate_fields c =
     [(''protocol_sha'', PStr (co_protocol_sha c)), (''split'', PStr (co_split c)),
      (''phase_id'', PStr (co_phase_id c)), (''task_id'', PStr (co_task_id c)),
      (''arm_id'', PStr (co_arm_id c)), (''variant_id'', PStr (co_variant_id c)),
      (''replicate_id'', PStr (co_replicate_id c)),
      (''checkpoint_hash'', PStr (co_checkpoint_hash c)),
      (''stage_version'', PStr (co_stage_version c))]"

text \<open>The engine epoch is deliberately not part of the identity.\<close>

definition work_key ::
  "(string \<Rightarrow> string) \<Rightarrow> (real \<Rightarrow> string) \<Rightarrow> coordinates \<Rightarrow> string \<Rightarrow> hash_error + string" where
  "work_key sha fr c engine_epoch = derive_id sha fr ''work_item'' (coordinate_fields c)"

definition ensure_work_item ::
  "(string \<Rightarrow> string) \<Rightarrow> (real \<Rightarrow> string) \<Rightarrow> int \<Rightarrow> coordinates \<Rightarrow> string \<Rightarrow> bool \<Rightarrow> int option
     \<Rightarrow> (nat \<Rightarrow> real) \<Rightarrow> ledger \<Rightarrow> ledger_error + string \<times> ledger" where
  "ensure_work_item sha fr default_max_retries c engine_epoch side_effecting max_retries clk L =
     (case work_key sha fr c engine_epoch of
        Inl e \<Rightarrow> Inl (IdError e)
      | Inr key \<Rightarrow>
          Inr (key, L\<lparr>items := insert_ignore wi_key
            \<lparr>wi_key = key, wi_coord = c, wi_side_effecting = side_effecting,
             wi_max_retries = (case max_retries of None \<Rightarrow> default_max_retries | Some m \<Rightarrow> m),
             wi_retry_count = 0, wi_state = PENDING, wi_created_at = clk 0,
             wi_updated_at = clk 0\<rparr> (items L)\<rparr>))"

definition get_work_item :: "string \<Rightarrow> ledger \<Rightarrow> work_item option" where
  "get_work_item key L = find_row wi_key key (items L)"

definition update_item :: "string \<Rightarrow> (work_item \<Rightarrow> work_item) \<Rightarrow> ledger \<Rightarrow> ledger" where
  "update_item key f L = L\<lparr>items := update_rows (\<lambda>r. wi_key r = key) f (items L)\<rparr>"

definition update_attempt :: "string \<Rightarrow> (attempt \<Rightarrow> attempt) \<Rightarrow> ledger \<Rightarrow> ledger" where
  "update_attempt aid f L = L\<lparr>attempts := update_rows (\<lambda>a. at_id a = aid) f (attempts L)\<rparr>"

text \<open>\<open>t1\<close> and \<open>t2\<close> are the readings for \<open>updated_at\<close> and for the transition row.\<close>

definition set_state ::
  "string \<Rightarrow> lstate \<Rightarrow> lstate \<Rightarrow> string \<Rightarrow> real \<Rightarrow> real \<Rightarrow> ledger \<Rightarrow> ledger_error + ledger" where
  "set_state key from to reason t1 t2 L =
     (if to \<notin> set (legal from) then Inl (IllegalTransition from to)
      else if length (filter (\<lambda>r. wi_key r = key \<and> wi_state r = from) (items L)) \<noteq> 1
      then Inl (NotInState key from)
      else Inr (log_transition key None from to reason t2
        (L\<lparr>items := update_rows (\<lambda>r. wi_key r = key \<and> wi_state r = from)
            (\<lambda>r. r\<lparr>wi_state := to, wi_updated_at := t1\<rparr>) (items L)\<rparr>)))"

subsection \<open>Claiming and the lease\<close>

definition attempts_of :: "string \<Rightarrow> ledger \<Rightarrow> attempt list" where
  "attempts_of key L = filter (\<lambda>a. at_work_key a = key) (attempts L)"

text \<open>\<open>COALESCE(MAX(attempt_ordinal), 0) + 1\<close>.\<close>

definition next_ordinal :: "string \<Rightarrow> ledger \<Rightarrow> int" where
  "next_ordinal key L =
     (let os = map at_ordinal (attempts_of key L) in if os = [] then 1 else Max (set os) + 1)"

definition attempt_id_of ::
  "(string \<Rightarrow> string) \<Rightarrow> (real \<Rightarrow> string) \<Rightarrow> string \<Rightarrow> int \<Rightarrow> hash_error + string" where
  "attempt_id_of sha fr key ordinal =
     derive_id sha fr ''attempt'' [(''work_key'', PStr key), (''ordinal'', PInt ordinal)]"

text \<open>The constraints of the attempts table: its primary key, UNIQUE, the foreign key, the partial index.\<close>

definition insert_attempt :: "attempt \<Rightarrow> ledger \<Rightarrow> ledger_error + ledger" where
  "insert_attempt a L =
     (if has_key at_id (at_id a) (attempts L)
         \<or> list_ex (\<lambda>b. at_work_key b = at_work_key a \<and> at_ordinal b = at_ordinal a) (attempts L)
         \<or> \<not> has_key wi_key (at_work_key a) (items L)
         \<or> (at_state a = COMMITTED
            \<and> list_ex (\<lambda>b. at_work_key b = at_work_key a \<and> at_state b = COMMITTED) (attempts L))
      then Inl IntegrityError
      else Inr (L\<lparr>attempts := attempts L @ [a]\<rparr>))"

definition new_attempt :: "string \<Rightarrow> string \<Rightarrow> int \<Rightarrow> string \<Rightarrow> string \<Rightarrow> real \<Rightarrow> real \<Rightarrow> attempt" where
  "new_attempt aid key ordinal run_id worker_id expires now =
     \<lparr>at_id = aid, at_work_key = key, at_ordinal = ordinal, at_run_id = run_id,
      at_worker_id = worker_id, at_state = CLAIMED, at_lease_expires_at = Some expires,
      at_started_at = now, at_ended_at = None, at_terminal_status = None,
      at_result_ref = None, at_error_class = None\<rparr>"

definition claim ::
  "(string \<Rightarrow> string) \<Rightarrow> (real \<Rightarrow> string) \<Rightarrow> string \<Rightarrow> string \<Rightarrow> real \<Rightarrow> string \<Rightarrow> (nat \<Rightarrow> real)
     \<Rightarrow> ledger \<Rightarrow> ledger_error + attempt option \<times> ledger" where
  "claim sha fr key worker_id lease_seconds run_id clk L =
     (case find_row wi_key key (items L) of
        None \<Rightarrow> Inl (UnknownWorkItem key)
      | Some row \<Rightarrow>
          if wi_state row \<noteq> PENDING then Inr (None, L)
          else
            let ordinal = next_ordinal key L in
            (case attempt_id_of sha fr key ordinal of
               Inl e \<Rightarrow> Inl (IdError e)
             | Inr aid \<Rightarrow>
                 let a = new_attempt aid key ordinal run_id worker_id (clk 0 + lease_seconds) (clk 0)
                 in rbind (insert_attempt a L) (\<lambda>L1.
                    rbind (set_state key PENDING CLAIMED (''claim:'' @ worker_id) (clk 1) (clk 2) L1)
                      (\<lambda>L2. Inr (Some a, L2)))))"

definition heartbeat :: "string \<Rightarrow> real \<Rightarrow> (nat \<Rightarrow> real) \<Rightarrow> ledger \<Rightarrow> ledger" where
  "heartbeat aid lease_seconds clk L =
     L\<lparr>attempts := update_rows (\<lambda>a. at_id a = aid \<and> in_progress (at_state a))
        (\<lambda>a. a\<lparr>at_lease_expires_at := Some (clk 0 + lease_seconds)\<rparr>) (attempts L)\<rparr>"

definition require_attempt :: "string \<Rightarrow> ledger \<Rightarrow> ledger_error + attempt" where
  "require_attempt aid L =
     (case find_row at_id aid (attempts L) of None \<Rightarrow> Inl (UnknownAttempt aid) | Some a \<Rightarrow> Inr a)"

definition advance ::
  "string \<Rightarrow> lstate \<Rightarrow> string \<Rightarrow> (nat \<Rightarrow> real) \<Rightarrow> ledger \<Rightarrow> ledger_error + ledger" where
  "advance aid to reason clk L =
     (if to \<notin> set [MATERIALIZED, VALIDATED] then Inl (AdvanceTarget to)
      else rbind (require_attempt aid L) (\<lambda>att.
        rbind (set_state (at_work_key att) (at_state att) to reason (clk 0) (clk 1) L) (\<lambda>L1.
          Inr (update_attempt aid (\<lambda>a. a\<lparr>at_state := to\<rparr>) L1))))"

definition commit ::
  "string \<Rightarrow> string \<Rightarrow> string \<Rightarrow> (nat \<Rightarrow> real) \<Rightarrow> ledger \<Rightarrow> ledger_error + ledger" where
  "commit aid ref reason clk L =
     rbind (require_attempt aid L) (\<lambda>att.
       if at_state att \<noteq> VALIDATED then Inl (CommitRequiresValidated (at_state att))
       else rbind (set_state (at_work_key att) VALIDATED COMMITTED
                     (if reason = [] then ''commit'' else reason) (clk 0) (clk 1) L) (\<lambda>L1.
         if list_ex (\<lambda>b. at_id b \<noteq> aid \<and> at_work_key b = at_work_key att \<and> at_state b = COMMITTED)
              (attempts L1)
         then Inl (AlreadyCommitted (at_work_key att))
         else Inr (update_attempt aid (\<lambda>a. a\<lparr>at_state := COMMITTED, at_ended_at := Some (clk 2),
                at_terminal_status := Some COMMITTED, at_result_ref := Some ref\<rparr>) L1)))"

subsection \<open>Failure\<close>

definition end_failed :: "lstate \<Rightarrow> string \<Rightarrow> string \<Rightarrow> real \<Rightarrow> attempt \<Rightarrow> attempt" where
  "end_failed disposition error_class ref tm a =
     a\<lparr>at_state := disposition, at_ended_at := Some tm, at_terminal_status := Some disposition,
       at_error_class := Some error_class,
       at_result_ref := (if ref = [] then at_result_ref a else Some ref)\<rparr>"

definition fail ::
  "string \<Rightarrow> lstate \<Rightarrow> string \<Rightarrow> string \<Rightarrow> string \<Rightarrow> (nat \<Rightarrow> real) \<Rightarrow> ledger
     \<Rightarrow> ledger_error + lstate \<times> ledger" where
  "fail aid disposition error_class reason ref clk L =
     (if disposition \<notin> set [FAILED_RETRYABLE, FAILED_FINAL, FAILED_UNKNOWN]
      then Inl (BadDisposition disposition)
      else rbind (require_attempt aid L) (\<lambda>att.
        let key = at_work_key att in
        (case find_row wi_key key (items L) of
           None \<Rightarrow> Inl NoRow
         | Some wi \<Rightarrow>
             let L1 = update_attempt aid (end_failed disposition error_class ref (clk 0)) L in
             if disposition = FAILED_RETRYABLE \<and> wi_retry_count wi + 1 \<le> wi_max_retries wi
             then Inr (PENDING,
               log_transition key (Some aid) (wi_state wi) PENDING
                 (if reason = [] then ''retry'' else reason) (clk 2)
                 (update_item key (\<lambda>r. r\<lparr>wi_state := PENDING, wi_retry_count := wi_retry_count r + 1,
                    wi_updated_at := clk 1\<rparr>) L1))
             else
               let final = (if disposition = FAILED_UNKNOWN then FAILED_UNKNOWN else FAILED_FINAL)
               in Inr (final,
                 log_transition key (Some aid) (wi_state wi) final
                   (if reason = [] then error_class else reason) (clk 2)
                   (update_item key (\<lambda>r. r\<lparr>wi_state := final, wi_updated_at := clk 1\<rparr>) L1)))))"

definition block_budget :: "string \<Rightarrow> string \<Rightarrow> (nat \<Rightarrow> real) \<Rightarrow> ledger \<Rightarrow> ledger_error + ledger" where
  "block_budget key reason clk L =
     (case find_row wi_key key (items L) of
        None \<Rightarrow> Inl (UnknownWorkItem key)
      | Some wi \<Rightarrow> set_state key (wi_state wi) BLOCKED_BUDGET
          (if reason = [] then ''budget'' else reason) (clk 0) (clk 1) L)"

subsection \<open>Stale leases\<close>

definition stale_attempts :: "real \<Rightarrow> ledger \<Rightarrow> attempt list" where
  "stale_attempts now L =
     filter (\<lambda>a. in_progress (at_state a)
       \<and> (case at_lease_expires_at a of None \<Rightarrow> False | Some t \<Rightarrow> t < now)) (attempts L)"

definition expire_attempt :: "real \<Rightarrow> attempt \<Rightarrow> attempt" where
  "expire_attempt now a =
     a\<lparr>at_state := FAILED_UNKNOWN, at_ended_at := Some now,
       at_terminal_status := Some FAILED_UNKNOWN, at_error_class := Some ''lease_expired''\<rparr>"

text \<open>One pass of the loop; \<open>tm\<close> is the clock reading of its transition row.\<close>

definition reclaim_one ::
  "real \<Rightarrow> real \<Rightarrow> attempt \<Rightarrow> string list \<times> ledger \<Rightarrow> ledger_error + string list \<times> ledger" where
  "reclaim_one now tm att s =
     (case s of (reopened, L) \<Rightarrow>
        (let key = at_work_key att in
         case find_row wi_key key (items L) of
           None \<Rightarrow> Inl NoRow
         | Some wi \<Rightarrow>
             let L1 = update_attempt (at_id att) (expire_attempt now) L in
             if \<not> wi_side_effecting wi \<and> wi_retry_count wi + 1 \<le> wi_max_retries wi
             then Inr (reopened @ [key],
               log_transition key (Some (at_id att)) (wi_state wi) PENDING ''lease_reclaim'' tm
                 (update_item key (\<lambda>r. r\<lparr>wi_state := PENDING, wi_retry_count := wi_retry_count r + 1,
                    wi_updated_at := now\<rparr>) L1))
             else
               let final = (if wi_side_effecting wi then FAILED_UNKNOWN else FAILED_FINAL)
               in Inr (reopened,
                 log_transition key (Some (at_id att)) (wi_state wi) final ''lease_reclaim'' tm
                   (update_item key (\<lambda>r. r\<lparr>wi_state := final, wi_updated_at := now\<rparr>) L1))))"

definition reclaim_stale ::
  "real option \<Rightarrow> (nat \<Rightarrow> real) \<Rightarrow> ledger \<Rightarrow> ledger_error + string list \<times> ledger" where
  "reclaim_stale now_arg clk L =
     (let now = (case now_arg of None \<Rightarrow> clk 0 | Some t \<Rightarrow> t)
      in rfold (\<lambda>(k, att). reclaim_one now (clk (Suc k)) att)
           (enumerate 0 (stale_attempts now L)) ([], L))"

subsection \<open>Queries\<close>

definition is_committed :: "string \<Rightarrow> ledger \<Rightarrow> bool" where
  "is_committed key L \<longleftrightarrow> list_ex (\<lambda>r. wi_key r = key \<and> wi_state r = COMMITTED) (items L)"

definition committed_ref :: "string \<Rightarrow> ledger \<Rightarrow> string option" where
  "committed_ref key L =
     (case List.find (\<lambda>a. at_work_key a = key \<and> at_state a = COMMITTED) (attempts L) of
        None \<Rightarrow> None | Some a \<Rightarrow> at_result_ref a)"

text \<open>\<open>ORDER BY f DESC LIMIT 1\<close>: the last row of the ascending order.\<close>

definition latest_by :: "('a \<Rightarrow> 'k :: linorder) \<Rightarrow> 'a list \<Rightarrow> 'a option" where
  "latest_by f xs = (if xs = [] then None else Some (last (sort_key f xs)))"

definition terminal_ref :: "string \<Rightarrow> ledger \<Rightarrow> string option" where
  "terminal_ref key L =
     (case latest_by at_ordinal (filter (\<lambda>a. at_work_key a = key
              \<and> at_state a \<in> set [COMMITTED, FAILED_FINAL, FAILED_UNKNOWN]
              \<and> at_result_ref a \<noteq> None \<and> at_result_ref a \<noteq> Some []) (attempts L)) of
        Some a \<Rightarrow> at_result_ref a
      | None \<Rightarrow>
          map_option ar_ref
            (latest_by ar_created_at (filter (\<lambda>r. ar_work_key r = Some key) (artifacts L))))"

definition pending_keys :: "int \<Rightarrow> ledger \<Rightarrow> string list" where
  "pending_keys limit L =
     (let ks = map wi_key (sort_key wi_created_at (filter (\<lambda>r. wi_state r = PENDING) (items L)))
      in if limit < 0 then ks else take (nat limit) ks)"

definition state_counts :: "ledger \<Rightarrow> lstate \<Rightarrow> nat option" where
  "state_counts L s =
     (let n = length (filter (\<lambda>r. wi_state r = s) (items L)) in if n = 0 then None else Some n)"

subsection \<open>Artifacts, incidents, corpus rounds, engine epochs\<close>

definition register_artifact ::
  "string \<Rightarrow> string \<Rightarrow> int \<Rightarrow> int \<Rightarrow> string option \<Rightarrow> (nat \<Rightarrow> real) \<Rightarrow> ledger \<Rightarrow> ledger" where
  "register_artifact ref kind raw_size stored_size key clk L =
     L\<lparr>artifacts := insert_ignore ar_ref \<lparr>ar_ref = ref, ar_kind = kind, ar_raw_size = raw_size,
        ar_stored_size = stored_size, ar_work_key = key, ar_created_at = clk 0\<rparr> (artifacts L)\<rparr>"

definition record_incident ::
  "string \<Rightarrow> string \<Rightarrow> string \<Rightarrow> string option \<Rightarrow> (nat \<Rightarrow> real) \<Rightarrow> ledger \<Rightarrow> ledger" where
  "record_incident severity kind detail key clk L =
     L\<lparr>incidents := incidents L @ [\<lparr>in_at = clk 0, in_severity = severity, in_kind = kind,
        in_detail = detail, in_work_key = key\<rparr>]\<rparr>"

definition latest_incident :: "string \<Rightarrow> string \<Rightarrow> ledger \<Rightarrow> incident option" where
  "latest_incident severity kind L =
     List.find (\<lambda>i. in_severity i = severity \<and> in_kind i = kind) (rev (incidents L))"

definition record_corpus_attempt ::
  "string \<Rightarrow> string \<Rightarrow> string \<Rightarrow> string \<Rightarrow> string \<Rightarrow> string \<Rightarrow> bool \<Rightarrow> (nat \<Rightarrow> real) \<Rightarrow> ledger \<Rightarrow> ledger" where
  "record_corpus_attempt aid version state reason protocol_sha note is_closed clk L =
     L\<lparr>corpus := insert_ignore cp_id \<lparr>cp_id = aid, cp_corpus_version = version, cp_state = state,
        cp_reason = reason, cp_protocol_sha = protocol_sha, cp_started_at = clk 0,
        cp_closed_at = (if is_closed then Some (clk 1) else None), cp_note = note\<rparr> (corpus L)\<rparr>"

definition record_engine_epoch ::
  "string \<Rightarrow> string \<Rightarrow> (nat \<Rightarrow> real) \<Rightarrow> ledger \<Rightarrow> ledger_error + ledger" where
  "record_engine_epoch key engine_epoch clk L =
     (case find_row ce_work_key key (epochs L) of
        Some e \<Rightarrow>
          if ce_engine_epoch e \<noteq> engine_epoch
          then Inl (EpochConflict key (ce_engine_epoch e) engine_epoch)
          else Inr L
      | None \<Rightarrow> Inr (L\<lparr>epochs := epochs L @ [\<lparr>ce_work_key = key, ce_engine_epoch = engine_epoch,
                    ce_recorded_at = clk 0\<rparr>]\<rparr>))"

definition corpus_attempts :: "ledger \<Rightarrow> corpus_attempt list" where
  "corpus_attempts L = sort_key cp_started_at (corpus L)"

end
