(* ===== verification/LedgerInv.thy ===== *)
theory LedgerInv
  imports Ledger
begin

text \<open>
  The discipline of the ledger: what holds of its tables after every history of operations in
  which an attempt is failed only while it is live. The operations are the steps of the relation
  \<open>ledger_step\<close>; each keeps the invariant \<open>ledger_inv\<close>.
\<close>

subsection \<open>The invariant\<close>

definition active :: "lstate \<Rightarrow> bool" where
  "active s \<longleftrightarrow> in_progress s \<or> s = COMMITTED"

text \<open>The arrows of the documented state machine, with the transient FAILED_RETRYABLE contracted.\<close>

definition edge :: "lstate \<Rightarrow> lstate \<Rightarrow> bool" where
  "edge s t \<longleftrightarrow> (t \<in> set (legal s) \<and> t \<noteq> FAILED_RETRYABLE) \<or> (in_progress s \<and> t = PENDING)"

fun trail :: "lstate \<Rightarrow> transition list \<Rightarrow> lstate \<Rightarrow> bool" where
  "trail s [] u \<longleftrightarrow> s = u"
| "trail s (t # ts) u \<longleftrightarrow> tr_from t = s \<and> edge s (tr_to t) \<and> trail (tr_to t) ts u"

definition transitions_of :: "string \<Rightarrow> ledger \<Rightarrow> transition list" where
  "transitions_of key L = filter (\<lambda>t. tr_work_key t = key) (transitions L)"

definition not_started :: "lstate \<Rightarrow> bool" where
  "not_started s \<longleftrightarrow> s = PENDING \<or> s = BLOCKED_BUDGET"

definition item_ok :: "attempt list \<Rightarrow> transition list \<Rightarrow> work_item \<Rightarrow> bool" where
  "item_ok as ts r \<longleftrightarrow>
     map at_state (filter (\<lambda>a. active (at_state a)) as)
       = (if active (wi_state r) then [wi_state r] else [])
     \<and> (\<forall>a \<in> set as. at_state a = COMMITTED \<longrightarrow> at_result_ref a \<noteq> None)
     \<and> map at_ordinal as = map int [1..<Suc (length as)]
     \<and> int (length as) = wi_retry_count r + (if not_started (wi_state r) then 0 else 1)
     \<and> 0 \<le> wi_retry_count r \<and> wi_retry_count r \<le> max 0 (wi_max_retries r)
     \<and> trail PENDING ts (wi_state r)"

definition ledger_inv :: "(string \<Rightarrow> string) \<Rightarrow> (real \<Rightarrow> string) \<Rightarrow> ledger \<Rightarrow> bool" where
  "ledger_inv sha fr L \<longleftrightarrow>
     keyed wi_key (items L) \<and> keyed at_id (attempts L)
     \<and> (\<forall>a \<in> set (attempts L). at_work_key a \<in> wi_key ` set (items L)
          \<and> attempt_id_of sha fr (at_work_key a) (at_ordinal a) = Inr (at_id a))
     \<and> (\<forall>t \<in> set (transitions L). tr_work_key t \<in> wi_key ` set (items L))
     \<and> (\<forall>r \<in> set (items L). item_ok (attempts_of (wi_key r) L) (transitions_of (wi_key r) L) r)"

lemma trail_snoc: "trail s (ts @ [t]) u \<longleftrightarrow> trail s ts (tr_from t) \<and> edge (tr_from t) (tr_to t) \<and> tr_to t = u"
  by (induction ts arbitrary: s) auto

lemma in_progress_simps [simp]:
  "in_progress CLAIMED" "in_progress MATERIALIZED" "in_progress VALIDATED"
  "\<not> in_progress PENDING" "\<not> in_progress COMMITTED" "\<not> in_progress FAILED_RETRYABLE"
  "\<not> in_progress FAILED_FINAL" "\<not> in_progress FAILED_UNKNOWN" "\<not> in_progress BLOCKED_BUDGET"
  by (simp_all add: in_progress_def)

lemma active_simps [simp]:
  "active CLAIMED" "active MATERIALIZED" "active VALIDATED" "active COMMITTED"
  "\<not> active PENDING" "\<not> active FAILED_RETRYABLE"
  "\<not> active FAILED_FINAL" "\<not> active FAILED_UNKNOWN" "\<not> active BLOCKED_BUDGET"
  by (simp_all add: active_def)

lemma not_started_simps [simp]:
  "not_started PENDING" "not_started BLOCKED_BUDGET"
  "\<not> not_started COMMITTED" "\<not> not_started FAILED_FINAL" "\<not> not_started FAILED_UNKNOWN"
  "in_progress s \<Longrightarrow> \<not> not_started s"
  by (auto simp: not_started_def)

lemma edge_simps [simp]:
  "in_progress s \<Longrightarrow> edge s PENDING"
  "in_progress s \<Longrightarrow> edge s FAILED_FINAL"
  "in_progress s \<Longrightarrow> edge s FAILED_UNKNOWN"
  by (cases s; simp add: edge_def)+

lemma edge_from: "edge s t \<Longrightarrow> in_progress s \<or> s = PENDING"
  by (cases s) (auto simp: edge_def)

lemma in_progress_active [simp]: "in_progress s \<Longrightarrow> active s"
  by (simp add: active_def)

subsection \<open>What an operation changes\<close>

lemma attempts_of_log [simp]:
  "attempts_of k (log_transition key att from to reason tm L) = attempts_of k L"
  by (simp add: log_transition_def attempts_of_def)

lemma attempts_of_item [simp]: "attempts_of k (update_item key f L) = attempts_of k L"
  by (simp add: update_item_def attempts_of_def)

lemma log_fields [simp]:
  "items (log_transition key att from to reason tm L) = items L"
  "attempts (log_transition key att from to reason tm L) = attempts L"
  "transitions (log_transition key att from to reason tm L) = transitions L
     @ [\<lparr>tr_work_key = key, tr_attempt_id = att, tr_from = from, tr_to = to, tr_at = tm,
         tr_reason = reason\<rparr>]"
  by (simp_all add: log_transition_def)

lemma update_fields [simp]:
  "items (update_item key f L) = update_rows (\<lambda>r. wi_key r = key) f (items L)"
  "attempts (update_item key f L) = attempts L" "transitions (update_item key f L) = transitions L"
  "items (update_attempt aid h L) = items L" "transitions (update_attempt aid h L) = transitions L"
  "attempts (update_attempt aid h L) = update_rows (\<lambda>a. at_id a = aid) h (attempts L)"
  by (simp_all add: update_item_def update_attempt_def)

lemma transitions_of_log:
  "transitions_of k (log_transition key att from to reason tm L) =
     transitions_of k L @ (if k = key then [\<lparr>tr_work_key = key, tr_attempt_id = att, tr_from = from,
       tr_to = to, tr_at = tm, tr_reason = reason\<rparr>] else [])"
  by (simp add: transitions_of_def)

lemma transitions_of_update [simp]:
  "transitions_of k (update_item key f L) = transitions_of k L"
  "transitions_of k (update_attempt aid h L) = transitions_of k L"
  by (simp_all add: transitions_of_def)

lemma attempts_of_update_attempt:
  assumes "\<And>a. at_work_key (h a) = at_work_key a"
  shows "attempts_of k (update_attempt aid h L)
    = update_rows (\<lambda>a. at_id a = aid) h (attempts_of k L)"
proof -
  have "filter (\<lambda>a. at_work_key a = k) (update_rows (\<lambda>a. at_id a = aid) h as)
      = update_rows (\<lambda>a. at_id a = aid) h (filter (\<lambda>a. at_work_key a = k) as)" for as
    using assms by (induction as) auto
  then show ?thesis by (simp add: attempts_of_def)
qed

lemma attempts_of_other:
  assumes "keyed at_id (attempts L)" and "a \<in> set (attempts L)" and "k \<noteq> at_work_key a"
    and "\<And>a. at_work_key (h a) = at_work_key a"
  shows "attempts_of k (update_attempt (at_id a) h L) = attempts_of k L"
proof -
  have "\<not> at_id b = at_id a" if "b \<in> set (attempts_of k L)" for b
    using that assms(1-3) by (auto simp: attempts_of_def keyed_def distinct_map dest: inj_onD)
  then show ?thesis by (simp add: attempts_of_update_attempt assms(4) update_rows_none)
qed

text \<open>One item and its own attempts change; the rest of the ledger stays as it is.\<close>

lemma inv_change_item:
  assumes inv: "ledger_inv sha fr L" and r: "r \<in> set (items L)"
    and items': "items L' = update_rows (\<lambda>x. wi_key x = wi_key r) g (items L)"
    and g: "\<And>x. wi_key (g x) = wi_key x"
    and atts: "keyed at_id (attempts L')"
      "\<And>a. a \<in> set (attempts L') \<Longrightarrow> at_work_key a \<in> wi_key ` set (items L)
         \<and> attempt_id_of sha fr (at_work_key a) (at_ordinal a) = Inr (at_id a)"
    and trs: "\<And>t. t \<in> set (transitions L') \<Longrightarrow> tr_work_key t \<in> wi_key ` set (items L)"
    and others: "\<And>k. k \<noteq> wi_key r \<Longrightarrow> attempts_of k L' = attempts_of k L
         \<and> transitions_of k L' = transitions_of k L"
    and ok: "item_ok (attempts_of (wi_key r) L') (transitions_of (wi_key r) L') (g r)"
  shows "ledger_inv sha fr L'"
proof -
  have keyed: "keyed wi_key (items L)" using inv by (simp add: ledger_inv_def)
  have keys: "wi_key ` set (items L') = wi_key ` set (items L)"
    using map_key_update [of wi_key g, OF g] by (metis items' list.set_map)
  have "item_ok (attempts_of (wi_key x) L') (transitions_of (wi_key x) L') x"
    if x: "x \<in> set (items L')" for x
  proof -
    obtain y where y: "y \<in> set (items L)" "x = (if wi_key y = wi_key r then g y else y)"
      using x unfolding items' set_update_rows by blast
    show ?thesis
    proof (cases "wi_key y = wi_key r")
      case True
      then have "y = r" using keyed y(1) r by (auto simp: keyed_def distinct_map dest: inj_onD)
      with y ok g show ?thesis by simp
    next
      case False
      with y others [of "wi_key y"] inv show ?thesis by (simp add: ledger_inv_def)
    qed
  qed
  moreover have "keyed wi_key (items L')" by (simp add: items' keyed_update g keyed)
  ultimately show ?thesis using atts trs by (simp add: ledger_inv_def keys)
qed

text \<open>An item with a live attempt: the attempt is the only active one.\<close>

lemma active_split:
  assumes "map at_state (filter (\<lambda>a. active (at_state a)) as) = [s]"
    and "a \<in> set as" and "active (at_state a)"
  shows "\<exists>us vs. as = us @ a # vs \<and> (\<forall>b \<in> set us \<union> set vs. \<not> active (at_state b)) \<and> at_state a = s"
proof -
  obtain us vs where as: "as = us @ a # vs" using assms(2) by (meson split_list)
  with assms(1,3) have "filter (\<lambda>a. active (at_state a)) us = []"
    and "filter (\<lambda>a. active (at_state a)) vs = []" and "at_state a = s"
    by (cases "filter (\<lambda>a. active (at_state a)) us"; simp)+
  then have "\<forall>b \<in> set us \<union> set vs. \<not> active (at_state b)"
    by (auto simp: filter_empty_conv)
  with as \<open>at_state a = s\<close> show ?thesis by blast
qed

lemma update_rows_split:
  assumes "keyed key (us @ a # vs)"
  shows "update_rows (\<lambda>b. key b = key a) f (us @ a # vs) = us @ f a # vs"
  using assms
  by (auto simp: keyed_def update_rows_def image_iff intro!: map_idI)

lemma item_ok_live:
  assumes "item_ok as ts r" and "a \<in> set as" and "in_progress (at_state a)"
  shows "wi_state r = at_state a"
proof -
  have act: "active (at_state a)" using assms(3) by simp
  with assms(2) have "filter (\<lambda>a. active (at_state a)) as \<noteq> []" by (auto simp: filter_empty_conv)
  then have "map at_state (filter (\<lambda>a. active (at_state a)) as) = [wi_state r]"
    using assms(1) by (auto simp: item_ok_def split: if_splits)
  from active_split [OF this assms(2) act] show ?thesis by auto
qed

text \<open>Moving the live attempt of an item, and the item with it.\<close>

lemma item_ok_move:
  assumes ok: "item_ok as ts r" and a: "a \<in> set as" "in_progress (at_state a)"
    and keyed: "keyed at_id as" and f: "at_ordinal (f a) = at_ordinal a"
    and r': "wi_max_retries r' = wi_max_retries r"
    and active: "active (at_state (f a)) \<Longrightarrow> wi_state r' = at_state (f a)"
      "\<not> active (at_state (f a)) \<Longrightarrow> \<not> active (wi_state r')"
    and ref: "at_state (f a) = COMMITTED \<Longrightarrow> at_result_ref (f a) \<noteq> None"
    and count: "wi_retry_count r' + (if not_started (wi_state r') then 0 else 1) = wi_retry_count r + 1"
      "0 \<le> wi_retry_count r'" "wi_retry_count r' \<le> max 0 (wi_max_retries r)"
    and t: "tr_from t = wi_state r" "tr_to t = wi_state r'" "edge (wi_state r) (wi_state r')"
  shows "item_ok (update_rows (\<lambda>b. at_id b = at_id a) f as) (ts @ [t]) r'"
proof -
  have state: "wi_state r = at_state a" by (rule item_ok_live [OF ok a])
  have act: "active (at_state a)" using a(2) by simp
  have "map at_state (filter (\<lambda>a. active (at_state a)) as) = [at_state a]"
    using ok act by (simp add: item_ok_def state)
  from active_split [OF this a(1) act]
  obtain us vs where as: "as = us @ a # vs" "\<forall>b \<in> set us \<union> set vs. \<not> active (at_state b)" by blast
  let ?as = "us @ f a # vs"
  have upd: "update_rows (\<lambda>b. at_id b = at_id a) f as = ?as"
    using update_rows_split [of at_id us a vs f] keyed as(1) by simp
  have none: "filter (\<lambda>a. active (at_state a)) us = []" "filter (\<lambda>a. active (at_state a)) vs = []"
    using as(2) by (auto simp: filter_empty_conv)
  have "map at_ordinal ?as = map at_ordinal as" by (simp add: as(1) f)
  moreover have "length ?as = length as" by (simp add: as(1))
  moreover have "map at_state (filter (\<lambda>a. active (at_state a)) ?as)
      = (if active (wi_state r') then [wi_state r'] else [])"
    using none active by auto
  moreover have "\<forall>b \<in> set ?as. at_state b = COMMITTED \<longrightarrow> at_result_ref b \<noteq> None"
    using ok ref by (auto simp: item_ok_def as(1))
  moreover have "int (length as) = wi_retry_count r + 1"
    using ok a(2) by (simp add: item_ok_def state)
  ultimately show ?thesis
    using ok count t by (simp add: item_ok_def upd trail_snoc r')
qed

lemma inv_keyed: "ledger_inv sha fr L \<Longrightarrow> keyed wi_key (items L)"
  by (simp add: ledger_inv_def)

lemma item_ok_at:
  assumes "ledger_inv sha fr L" and "r \<in> set (items L)"
  shows "item_ok (attempts_of (wi_key r) L) (transitions_of (wi_key r) L) r"
  using assms by (simp add: ledger_inv_def)

lemma find_item_keyed:
  assumes "ledger_inv sha fr L" and "r \<in> set (items L)"
  shows "find_row wi_key (wi_key r) (items L) = Some r"
  using assms by (simp add: ledger_inv_def find_row_keyed)

lemma attempt_item:
  assumes "ledger_inv sha fr L" and "a \<in> set (attempts L)"
  obtains r where "r \<in> set (items L)" "wi_key r = at_work_key a"
    "find_row wi_key (at_work_key a) (items L) = Some r" "a \<in> set (attempts_of (wi_key r) L)"
proof -
  obtain r where r: "r \<in> set (items L)" "wi_key r = at_work_key a"
    using assms by (auto simp: ledger_inv_def)
  with assms(2) find_item_keyed [OF assms(1) r(1)] show thesis
    by (intro that [of r]) (simp_all add: attempts_of_def)
qed

text \<open>The common shape of advance, commit, fail and reclaim: one live attempt and its item move.\<close>

lemma inv_move:
  assumes inv: "ledger_inv sha fr L" and a: "a \<in> set (attempts L)" "in_progress (at_state a)"
    and r: "r \<in> set (items L)" "wi_key r = at_work_key a"
    and f: "\<And>b. at_ordinal (f b) = at_ordinal b" "\<And>b. at_id (f b) = at_id b"
      "\<And>b. at_work_key (f b) = at_work_key b"
    and g: "\<And>x. wi_key (g x) = wi_key x" "wi_max_retries (g r) = wi_max_retries r"
    and active: "active (at_state (f a)) \<Longrightarrow> wi_state (g r) = at_state (f a)"
      "\<not> active (at_state (f a)) \<Longrightarrow> \<not> active (wi_state (g r))"
    and ref: "at_state (f a) = COMMITTED \<Longrightarrow> at_result_ref (f a) \<noteq> None"
    and count: "wi_retry_count (g r) + (if not_started (wi_state (g r)) then 0 else 1)
        = wi_retry_count r + 1"
      "0 \<le> wi_retry_count (g r)" "wi_retry_count (g r) \<le> max 0 (wi_max_retries r)"
    and to: "to = wi_state (g r)" "edge (wi_state r) to"
  shows "ledger_inv sha fr (log_transition (at_work_key a) att (wi_state r) to reason tm
    (update_item (at_work_key a) g (update_attempt (at_id a) f L)))"
    (is "ledger_inv sha fr ?L'")
proof (rule inv_change_item [OF inv r(1), where g = g])
  have keyed: "keyed at_id (attempts L)" using inv by (simp add: ledger_inv_def)
  show "items ?L' = update_rows (\<lambda>x. wi_key x = wi_key r) g (items L)" by (simp add: r(2))
  show "keyed at_id (attempts ?L')" using keyed by (simp add: keyed_update f)
  show "at_work_key b \<in> wi_key ` set (items L)
      \<and> attempt_id_of sha fr (at_work_key b) (at_ordinal b) = Inr (at_id b)"
    if "b \<in> set (attempts ?L')" for b
    using that inv by (auto simp: ledger_inv_def set_update_rows f)
  show "tr_work_key t \<in> wi_key ` set (items L)" if "t \<in> set (transitions ?L')" for t
  proof -
    have "at_work_key a \<in> wi_key ` set (items L)" using r by (metis imageI)
    with that inv show ?thesis by (auto simp: ledger_inv_def)
  qed
  show "attempts_of k ?L' = attempts_of k L \<and> transitions_of k ?L' = transitions_of k L"
    if "k \<noteq> wi_key r" for k
    using that r(2) attempts_of_other [OF keyed a(1), of k f] f(3)
    by (simp add: transitions_of_log)
  have keyed_as: "keyed at_id (attempts_of (wi_key r) L)"
    using keyed by (simp add: keyed_def attempts_of_def distinct_map_filter)
  have mem: "a \<in> set (attempts_of (wi_key r) L)" using a(1) r(2) by (simp add: attempts_of_def)
  have as: "attempts_of (wi_key r) ?L'
      = update_rows (\<lambda>b. at_id b = at_id a) f (attempts_of (wi_key r) L)"
    by (simp add: attempts_of_update_attempt f(3))
  have ts: "transitions_of (wi_key r) ?L' = transitions_of (wi_key r) L
      @ [\<lparr>tr_work_key = at_work_key a, tr_attempt_id = att, tr_from = wi_state r, tr_to = to,
          tr_at = tm, tr_reason = reason\<rparr>]"
    by (simp add: transitions_of_log r(2))
  show "item_ok (attempts_of (wi_key r) ?L') (transitions_of (wi_key r) ?L') (g r)"
    unfolding as ts
    by (rule item_ok_move [OF item_ok_at [OF inv r(1)] mem a(2) keyed_as])
       (use f g active ref count to in auto)
qed (rule g)


subsection \<open>The operations keep the invariant\<close>

lemma set_state_eq:
  assumes "keyed wi_key (items L)" and "set_state key from to reason t1 t2 L = Inr L'"
  obtains r where "r \<in> set (items L)" "wi_key r = key" "wi_state r = from" "to \<in> set (legal from)"
    "L' = log_transition key None from to reason t2
       (update_item key (\<lambda>r. r\<lparr>wi_state := to, wi_updated_at := t1\<rparr>) L)"
proof -
  note keyed = assms(1)
  have legal: "to \<in> set (legal from)"
    and one: "length (filter (\<lambda>r. wi_key r = key \<and> wi_state r = from) (items L)) = 1"
    and L': "L' = log_transition key None from to reason t2
        (L\<lparr>items := update_rows (\<lambda>r. wi_key r = key \<and> wi_state r = from)
            (\<lambda>r. r\<lparr>wi_state := to, wi_updated_at := t1\<rparr>) (items L)\<rparr>)"
    using assms(2) by (auto simp: set_state_def split: if_splits)
  from one obtain r where flt: "filter (\<lambda>r. wi_key r = key \<and> wi_state r = from) (items L) = [r]"
    by (cases "filter (\<lambda>r. wi_key r = key \<and> wi_state r = from) (items L)") auto
  have "r \<in> set (filter (\<lambda>r. wi_key r = key \<and> wi_state r = from) (items L))"
    unfolding flt by simp
  then have r: "r \<in> set (items L)" "wi_key r = key" "wi_state r = from" by simp_all
  have "wi_state x = from" if "x \<in> set (items L)" "wi_key x = key" for x
    using keyed that r by (auto simp: keyed_def distinct_map dest: inj_onD)
  then have "update_rows (\<lambda>r. wi_key r = key \<and> wi_state r = from) h (items L)
      = update_rows (\<lambda>r. wi_key r = key) h (items L)" for h
    by (auto simp: update_rows_def)
  with L' r legal show thesis by (intro that [of r]) (simp_all add: update_item_def)
qed

lemma require_attempt_Inr:
  "require_attempt aid L = Inr a \<Longrightarrow> a \<in> set (attempts L) \<and> at_id a = aid"
  by (auto simp: require_attempt_def dest: find_row_SomeD split: option.splits)

lemma update_commute:
  "update_attempt aid h (log_transition key att from to reason tm (update_item k g L))
     = log_transition key att from to reason tm (update_item k g (update_attempt aid h L))"
  by (simp add: update_attempt_def log_transition_def update_item_def)

lemma retry_bounds:
  assumes "ledger_inv sha fr L" and "r \<in> set (items L)"
  shows "0 \<le> wi_retry_count r" "wi_retry_count r \<le> max 0 (wi_max_retries r)"
  using item_ok_at [OF assms] by (simp_all add: item_ok_def)

lemma advance_inv:
  assumes inv: "ledger_inv sha fr L" and adv: "advance aid to reason clk L = Inr L'"
  shows "ledger_inv sha fr L'"
proof -
  obtain a L1 where to: "to \<in> set [MATERIALIZED, VALIDATED]" and a: "a \<in> set (attempts L)" "at_id a = aid"
    and set: "set_state (at_work_key a) (at_state a) to reason (clk 0) (clk 1) L = Inr L1"
    and L': "L' = update_attempt aid (\<lambda>a. a\<lparr>at_state := to\<rparr>) L1"
    using adv by (auto simp: advance_def result_elims dest: require_attempt_Inr split: if_splits)
  from set_state_eq [OF inv_keyed [OF inv] set] obtain r where r: "r \<in> set (items L)" "wi_key r = at_work_key a"
      "wi_state r = at_state a" "to \<in> set (legal (at_state a))"
    and L1: "L1 = log_transition (at_work_key a) None (at_state a) to reason (clk 1)
       (update_item (at_work_key a) (\<lambda>r. r\<lparr>wi_state := to, wi_updated_at := clk 0\<rparr>) L)"
    by metis
  have live: "in_progress (at_state a)" using to r(4) by (cases "at_state a") auto
  have "ledger_inv sha fr (log_transition (at_work_key a) None (wi_state r) to reason (clk 1)
      (update_item (at_work_key a) (\<lambda>r. r\<lparr>wi_state := to, wi_updated_at := clk 0\<rparr>)
        (update_attempt (at_id a) (\<lambda>a. a\<lparr>at_state := to\<rparr>) L)))"
    by (rule inv_move [OF inv a(1) live r(1,2)])
       (use to r retry_bounds [OF inv r(1)] in \<open>auto simp: edge_def\<close>)
  then show ?thesis by (simp add: L' L1 a(2) r(3) update_commute)
qed

lemma commit_inv:
  assumes inv: "ledger_inv sha fr L" and com: "commit aid ref reason clk L = Inr L'"
  shows "ledger_inv sha fr L'"
proof -
  let ?reason = "if reason = [] then ''commit'' else reason"
  let ?f = "\<lambda>a. a\<lparr>at_state := COMMITTED, at_ended_at := Some (clk 2),
                at_terminal_status := Some COMMITTED, at_result_ref := Some ref\<rparr>"
  obtain a L1 where a: "a \<in> set (attempts L)" "at_id a = aid" "at_state a = VALIDATED"
    and set: "set_state (at_work_key a) VALIDATED COMMITTED ?reason (clk 0) (clk 1) L = Inr L1"
    and L': "L' = update_attempt aid ?f L1"
    using com by (auto simp: commit_def result_elims dest: require_attempt_Inr split: if_splits)
  from set_state_eq [OF inv_keyed [OF inv] set] obtain r where r: "r \<in> set (items L)" "wi_key r = at_work_key a"
      "wi_state r = VALIDATED"
    and L1: "L1 = log_transition (at_work_key a) None VALIDATED COMMITTED ?reason (clk 1)
       (update_item (at_work_key a) (\<lambda>r. r\<lparr>wi_state := COMMITTED, wi_updated_at := clk 0\<rparr>) L)"
    by metis
  have "ledger_inv sha fr (log_transition (at_work_key a) None (wi_state r) COMMITTED ?reason (clk 1)
      (update_item (at_work_key a) (\<lambda>r. r\<lparr>wi_state := COMMITTED, wi_updated_at := clk 0\<rparr>)
        (update_attempt (at_id a) ?f L)))"
    by (rule inv_move [OF inv a(1) _ r(1,2)])
       (use a(3) r retry_bounds [OF inv r(1)] in \<open>auto simp: edge_def\<close>)
  then show ?thesis by (simp add: L' L1 a(2) r(3) update_commute)
qed

text \<open>What \<open>fail\<close> does to the database, on either branch.\<close>

lemma fail_Inr:
  assumes "fail aid disposition error_class reason ref clk L = Inr (s, L')"
  obtains a wi reason' where "a \<in> set (attempts L)" "at_id a = aid"
    "disposition \<in> set [FAILED_RETRYABLE, FAILED_FINAL, FAILED_UNKNOWN]"
    "find_row wi_key (at_work_key a) (items L) = Some wi"
    "s = (if disposition = FAILED_RETRYABLE \<and> wi_retry_count wi + 1 \<le> wi_max_retries wi then PENDING
          else if disposition = FAILED_UNKNOWN then FAILED_UNKNOWN else FAILED_FINAL)"
    "L' = log_transition (at_work_key a) (Some aid) (wi_state wi) s reason' (clk 2)
       (update_item (at_work_key a)
         (\<lambda>r. r\<lparr>wi_state := s, wi_retry_count := (if s = PENDING then wi_retry_count r + 1
                  else wi_retry_count r), wi_updated_at := clk 1\<rparr>)
         (update_attempt aid (end_failed disposition error_class ref (clk 0)) L))"
proof -
  have disp: "disposition \<in> set [FAILED_RETRYABLE, FAILED_FINAL, FAILED_UNKNOWN]"
    using assms by (auto simp: fail_def split: if_splits)
  obtain a where req: "require_attempt aid L = Inr a"
    using assms by (auto simp: fail_def result_elims split: if_splits)
  obtain wi where wi: "find_row wi_key (at_work_key a) (items L) = Some wi"
    using assms req disp by (auto simp: fail_def Let_def split: if_splits option.splits)
  note eqs = assms [unfolded fail_def Let_def req rbind_simps wi option.case]
  show thesis
  proof (cases "disposition = FAILED_RETRYABLE \<and> wi_retry_count wi + 1 \<le> wi_max_retries wi")
    case True
    with eqs disp show thesis
      by (intro that [OF _ _ disp wi, of "if reason = [] then ''retry'' else reason"])
         (use require_attempt_Inr [OF req] in simp_all)
  next
    case False
    with eqs disp show thesis
      by (intro that [OF _ _ disp wi, of "if reason = [] then error_class else reason"])
         (use require_attempt_Inr [OF req] in \<open>simp_all split: if_splits\<close>)
  qed
qed

lemma end_failed_simps [simp]:
  "at_id (end_failed d e ref tm a) = at_id a" "at_work_key (end_failed d e ref tm a) = at_work_key a"
  "at_ordinal (end_failed d e ref tm a) = at_ordinal a" "at_state (end_failed d e ref tm a) = d"
  by (simp_all add: end_failed_def)

lemma fail_inv:
  assumes inv: "ledger_inv sha fr L"
    and fail: "fail aid disposition error_class reason ref clk L = Inr (s, L')"
    and live: "\<And>a. a \<in> set (attempts L) \<Longrightarrow> at_id a = aid \<Longrightarrow> in_progress (at_state a)"
  shows "ledger_inv sha fr L'"
proof -
  from fail obtain a wi reason' where a: "a \<in> set (attempts L)" "at_id a = aid"
    and disp: "disposition \<in> set [FAILED_RETRYABLE, FAILED_FINAL, FAILED_UNKNOWN]"
    and find: "find_row wi_key (at_work_key a) (items L) = Some wi"
    and s: "s = (if disposition = FAILED_RETRYABLE \<and> wi_retry_count wi + 1 \<le> wi_max_retries wi
          then PENDING else if disposition = FAILED_UNKNOWN then FAILED_UNKNOWN else FAILED_FINAL)"
    and L': "L' = log_transition (at_work_key a) (Some aid) (wi_state wi) s reason' (clk 2)
       (update_item (at_work_key a)
         (\<lambda>r. r\<lparr>wi_state := s, wi_retry_count := (if s = PENDING then wi_retry_count r + 1
                  else wi_retry_count r), wi_updated_at := clk 1\<rparr>)
         (update_attempt aid (end_failed disposition error_class ref (clk 0)) L))"
    by (rule fail_Inr)
  have wi: "wi \<in> set (items L)" "wi_key wi = at_work_key a" using find_row_SomeD [OF find] by auto
  have st: "in_progress (wi_state wi)"
    using item_ok_live [OF item_ok_at [OF inv wi(1)], of a] a wi(2) live
    by (simp add: attempts_of_def)
  show ?thesis
    unfolding L' a(2) [symmetric]
    by (rule inv_move [OF inv a(1) live [OF a] wi])
       (use disp s st retry_bounds [OF inv wi(1)] in \<open>auto split: if_splits\<close>)
qed

lemma block_budget_inv:
  assumes inv: "ledger_inv sha fr L" and "block_budget key reason clk L = Inr L'"
  shows "ledger_inv sha fr L'"
proof -
  obtain start reason' where set: "set_state key start BLOCKED_BUDGET reason' (clk 0) (clk 1) L = Inr L'"
    using assms(2) by (auto simp: block_budget_def split: option.splits)
  from set_state_eq [OF inv_keyed [OF inv] set] obtain r where r: "r \<in> set (items L)" "wi_key r = key" "wi_state r = start"
    "BLOCKED_BUDGET \<in> set (legal start)"
    and L': "L' = log_transition key None start BLOCKED_BUDGET reason' (clk 1)
       (update_item key (\<lambda>r. r\<lparr>wi_state := BLOCKED_BUDGET, wi_updated_at := clk 0\<rparr>) L)"
    by metis
  have pending: "start = PENDING" using r(4) by (cases start) auto
  show ?thesis
  proof (rule inv_change_item [OF inv r(1), where g = "\<lambda>r. r\<lparr>wi_state := BLOCKED_BUDGET, wi_updated_at := clk 0\<rparr>"])
    show "tr_work_key t \<in> wi_key ` set (items L)" if "t \<in> set (transitions L')" for t
      using that inv r by (auto simp: ledger_inv_def L' )
    show "item_ok (attempts_of (wi_key r) L') (transitions_of (wi_key r) L')
        (r\<lparr>wi_state := BLOCKED_BUDGET, wi_updated_at := clk 0\<rparr>)"
      using item_ok_at [OF inv r(1)] r pending
      by (simp add: L' item_ok_def transitions_of_log trail_snoc edge_def)
  qed (use inv r in \<open>auto simp: L' ledger_inv_def transitions_of_log\<close>)
qed

lemma heartbeat_inv:
  assumes inv: "ledger_inv sha fr L"
  shows "ledger_inv sha fr (heartbeat aid lease clk L)"
proof -
  let ?f = "\<lambda>a. a\<lparr>at_lease_expires_at := Some (clk 0 + lease)\<rparr>"
  let ?p = "\<lambda>a. at_id a = aid \<and> in_progress (at_state a)"
  let ?u = "update_rows ?p ?f"
  have filt: "filter (\<lambda>a. at_work_key a = k) (?u as) = ?u (filter (\<lambda>a. at_work_key a = k) as)" for k as
    by (induction as) auto
  have states: "map at_state (?u as) = map at_state as" "map at_ordinal (?u as) = map at_ordinal as"
      "map at_result_ref (?u as) = map at_result_ref as" "map at_id (?u as) = map at_id as" for as
    by (simp_all add: update_rows_def)
  have act: "map at_state (filter (\<lambda>a. active (at_state a)) (?u as))
      = map at_state (filter (\<lambda>a. active (at_state a)) as)" for as
    by (induction as) auto
  have refs: "(\<forall>a \<in> set (?u as). at_state a = COMMITTED \<longrightarrow> at_result_ref a \<noteq> None)
      \<longleftrightarrow> (\<forall>a \<in> set as. at_state a = COMMITTED \<longrightarrow> at_result_ref a \<noteq> None)" for as
    by (induction as) auto
  have ok: "item_ok (?u as) ts r = item_ok as ts r" for as ts r
    unfolding item_ok_def act refs states length_update_rows ..
  have ofs: "attempts_of k (heartbeat aid lease clk L) = ?u (attempts_of k L)"
      "transitions_of k (heartbeat aid lease clk L) = transitions_of k L" for k
    by (simp_all add: transitions_of_def attempts_of_def heartbeat_def filt)
  have "at_work_key a \<in> wi_key ` set (items L)
      \<and> attempt_id_of sha fr (at_work_key a) (at_ordinal a) = Inr (at_id a)"
    if "a \<in> set (?u (attempts L))" for a
    using that inv by (auto simp: ledger_inv_def update_rows_def)
  moreover have "keyed at_id (?u (attempts L))"
    using inv by (simp add: ledger_inv_def keyed_def states)
  moreover have fields: "items (heartbeat aid lease clk L) = items L"
      "attempts (heartbeat aid lease clk L) = ?u (attempts L)"
      "transitions (heartbeat aid lease clk L) = transitions L"
    by (simp_all add: heartbeat_def)
  ultimately show ?thesis
    using inv unfolding ledger_inv_def ofs ok fields by blast
qed


lemma next_ordinal_eq:
  assumes "map at_ordinal (attempts_of k L) = map int [1..<Suc n]"
  shows "next_ordinal k L = int n + 1"
proof (cases n)
  case 0
  with assms show ?thesis by (simp add: next_ordinal_def)
next
  case (Suc m)
  have "Max (int ` {1..<Suc n}) = int n"
  proof (rule Max_eqI)
    show "int n \<in> int ` {1..<Suc n}" by (rule imageI) (simp add: Suc)
  qed auto
  moreover have "map int [1..<Suc n] \<noteq> []" by (simp add: Suc)
  ultimately show ?thesis
    unfolding next_ordinal_def Let_def assms set_map set_upt by simp
qed

lemma claim_Some:
  assumes inv: "ledger_inv sha fr L" and "claim sha fr key w lease run clk L = Inr (Some a, L')"
  obtains r aid where "r \<in> set (items L)" "wi_key r = key" "wi_state r = PENDING"
    "attempt_id_of sha fr key (next_ordinal key L) = Inr aid"
    "a = new_attempt aid key (next_ordinal key L) run w (clk 0 + lease) (clk 0)"
    "\<not> has_key at_id aid (attempts L)"
    "L' = log_transition key None PENDING CLAIMED (''claim:'' @ w) (clk 2)
       (update_item key (\<lambda>r. r\<lparr>wi_state := CLAIMED, wi_updated_at := clk 1\<rparr>)
         (L\<lparr>attempts := attempts L @ [a]\<rparr>))"
proof -
  obtain row where row: "find_row wi_key key (items L) = Some row" "wi_state row = PENDING"
    using assms(2) by (auto simp: claim_def split: option.splits if_splits)
  obtain aid L1 where aid: "attempt_id_of sha fr key (next_ordinal key L) = Inr aid"
    and a: "a = new_attempt aid key (next_ordinal key L) run w (clk 0 + lease) (clk 0)"
    and L1: "insert_attempt a L = Inr L1"
    and set: "set_state key PENDING CLAIMED (''claim:'' @ w) (clk 1) (clk 2) L1 = Inr L'"
    using assms(2) row by (auto simp: claim_def Let_def result_elims split: sum.splits)
  have ins: "L1 = L\<lparr>attempts := attempts L @ [a]\<rparr>" "\<not> has_key at_id aid (attempts L)"
    using L1 by (auto simp: insert_attempt_def a new_attempt_def split: if_splits)
  have "keyed wi_key (items L1)" using inv_keyed [OF inv] by (simp add: ins)
  from set_state_eq [OF this set] ins(1) obtain r where "r \<in> set (items L)" "wi_key r = key"
    "wi_state r = PENDING" and "L' = log_transition key None PENDING CLAIMED (''claim:'' @ w) (clk 2)
       (update_item key (\<lambda>r. r\<lparr>wi_state := CLAIMED, wi_updated_at := clk 1\<rparr>) L1)"
    by auto
  with aid a ins show thesis by (intro that [of r aid]) simp_all
qed

lemma claim_None: "claim sha fr key w lease run clk L = Inr (None, L') \<Longrightarrow> L' = L"
  by (auto simp: claim_def Let_def result_elims split: option.splits if_splits sum.splits)

lemma new_attempt_simps [simp]:
  "at_id (new_attempt aid k n run w e t) = aid" "at_work_key (new_attempt aid k n run w e t) = k"
  "at_ordinal (new_attempt aid k n run w e t) = n" "at_state (new_attempt aid k n run w e t) = CLAIMED"
  by (simp_all add: new_attempt_def)

lemma claim_inv:
  assumes inv: "ledger_inv sha fr L" and claim: "claim sha fr key w lease run clk L = Inr (res, L')"
  shows "ledger_inv sha fr L'"
proof (cases res)
  case None
  with claim inv show ?thesis by (auto dest: claim_None)
next
  case (Some a)
  let ?g = "\<lambda>r. r\<lparr>wi_state := CLAIMED, wi_updated_at := clk 1\<rparr>"
  from claim_Some [OF inv claim [unfolded Some]] obtain r aid where
      r: "r \<in> set (items L)" "wi_key r = key" "wi_state r = PENDING"
    and aid: "attempt_id_of sha fr key (next_ordinal key L) = Inr aid"
    and a: "a = new_attempt aid key (next_ordinal key L) run w (clk 0 + lease) (clk 0)"
    and fresh: "\<not> has_key at_id aid (attempts L)"
    and L': "L' = log_transition key None PENDING CLAIMED (''claim:'' @ w) (clk 2)
       (update_item key ?g (L\<lparr>attempts := attempts L @ [a]\<rparr>))"
    by blast
  have ok: "item_ok (attempts_of key L) (transitions_of key L) r"
    using item_ok_at [OF inv r(1)] r(2) by simp
  have ord: "map at_ordinal (attempts_of key L) = map int [1..<Suc (length (attempts_of key L))]"
    using ok by (simp add: item_ok_def)
  have mem: "key \<in> wi_key ` set (items L)" using r by (metis imageI)
  have as: "attempts_of k L' = attempts_of k L @ (if k = key then [a] else [])"
    and ts: "transitions_of k L' = transitions_of k L @ (if k = key then
      [\<lparr>tr_work_key = key, tr_attempt_id = None, tr_from = PENDING, tr_to = CLAIMED, tr_at = clk 2,
        tr_reason = ''claim:'' @ w\<rparr>] else [])" for k
    by (simp_all add: L' transitions_of_def) (simp add: attempts_of_def a)
  have "item_ok (attempts_of key L @ [a]) (transitions_of key L @
      [\<lparr>tr_work_key = key, tr_attempt_id = None, tr_from = PENDING, tr_to = CLAIMED, tr_at = clk 2,
        tr_reason = ''claim:'' @ w\<rparr>]) (?g r)"
    using ok r(3) by (auto simp: item_ok_def trail_snoc edge_def a next_ordinal_eq [OF ord])
  then have new_ok: "item_ok (attempts_of (wi_key r) L') (transitions_of (wi_key r) L') (?g r)"
    by (simp add: as ts r(2))
  have atts: "attempts L' = attempts L @ [a]" by (simp add: L')
  show ?thesis
  proof (rule inv_change_item [OF inv r(1), where g = ?g])
    show "items L' = update_rows (\<lambda>x. wi_key x = wi_key r) ?g (items L)" by (simp add: L' r(2))
    show "keyed at_id (attempts L')"
      using inv fresh by (simp add: atts a keyed_append ledger_inv_def)
    show "at_work_key b \<in> wi_key ` set (items L)
        \<and> attempt_id_of sha fr (at_work_key b) (at_ordinal b) = Inr (at_id b)"
      if "b \<in> set (attempts L')" for b
      using that inv mem aid by (auto simp: atts a ledger_inv_def)
    show "tr_work_key t \<in> wi_key ` set (items L)" if "t \<in> set (transitions L')" for t
      using that inv mem by (auto simp: L' ledger_inv_def)
    show "attempts_of k L' = attempts_of k L \<and> transitions_of k L' = transitions_of k L"
      if "k \<noteq> wi_key r" for k
      using that r(2) by (simp add: as ts)
  qed (use new_ok in simp_all)
qed

lemma ensure_inv:
  assumes inv: "ledger_inv sha fr L"
    and ens: "ensure_work_item sha fr dm c ep se mr clk L = Inr (key, L')"
  shows "ledger_inv sha fr L'"
proof (cases "has_key wi_key key (items L)")
  case True
  have "L' = L" using ens True
    by (auto simp: ensure_work_item_def insert_ignore_def split: sum.splits)
  with inv show ?thesis by simp
next
  case False
  define r where "r = \<lparr>wi_key = key, wi_coord = c, wi_side_effecting = se,
      wi_max_retries = (case mr of None \<Rightarrow> dm | Some m \<Rightarrow> m), wi_retry_count = 0,
      wi_state = PENDING, wi_created_at = clk 0, wi_updated_at = clk 0\<rparr>"
  have r: "wi_key r = key" "wi_state r = PENDING" "wi_retry_count r = 0"
    by (simp_all add: r_def)
  have L': "L' = L\<lparr>items := items L @ [r]\<rparr>"
    using ens False by (auto simp: ensure_work_item_def insert_ignore_def r_def split: sum.splits)
  have fresh: "at_work_key a \<noteq> key" "tr_work_key t \<noteq> key"
    if "a \<in> set (attempts L)" "t \<in> set (transitions L)" for a t
    using that inv False by (auto simp: ledger_inv_def has_key_iff)
  have none: "attempts_of key L = []" "transitions_of key L = []"
    using inv False by (auto simp: ledger_inv_def has_key_iff attempts_of_def transitions_of_def
        filter_empty_conv)
  have same: "attempts_of k L' = attempts_of k L" "transitions_of k L' = transitions_of k L" for k
    by (simp_all add: L' attempts_of_def transitions_of_def)
  have "item_ok (attempts_of (wi_key x) L') (transitions_of (wi_key x) L') x"
    if "x \<in> set (items L')" for x
    using that inv r none by (auto simp: L' same [unfolded L'] ledger_inv_def item_ok_def)
  moreover have "keyed wi_key (items L')"
    using inv False r by (simp add: L' keyed_append ledger_inv_def)
  ultimately show ?thesis
    using inv unfolding ledger_inv_def by (auto simp: L')
qed


subsection \<open>Reclaiming stale leases\<close>

definition reclaim_item :: "real \<Rightarrow> work_item \<Rightarrow> work_item" where
  "reclaim_item now r =
     (if \<not> wi_side_effecting r \<and> wi_retry_count r + 1 \<le> wi_max_retries r
      then r\<lparr>wi_state := PENDING, wi_retry_count := wi_retry_count r + 1, wi_updated_at := now\<rparr>
      else r\<lparr>wi_state := (if wi_side_effecting r then FAILED_UNKNOWN else FAILED_FINAL),
             wi_updated_at := now\<rparr>)"

lemma reclaim_item_key [simp]:
  "wi_key (reclaim_item now r) = wi_key r" "wi_side_effecting (reclaim_item now r) = wi_side_effecting r"
  "wi_max_retries (reclaim_item now r) = wi_max_retries r"
  by (simp_all add: reclaim_item_def)

lemma expire_attempt_simps [simp]:
  "at_id (expire_attempt now a) = at_id a" "at_work_key (expire_attempt now a) = at_work_key a"
  "at_ordinal (expire_attempt now a) = at_ordinal a"
  "at_state (expire_attempt now a) = FAILED_UNKNOWN"
  by (simp_all add: expire_attempt_def)

lemma update_item_keyed:
  assumes "keyed wi_key (items L)" and "find_row wi_key key (items L) = Some wi" and "f wi = g wi"
  shows "update_item key f L = update_item key g L"
proof -
  have "x = wi" if "x \<in> set (items L)" "wi_key x = key" for x
    using assms(1) that find_row_SomeD [OF assms(2)]
    by (auto simp: keyed_def distinct_map dest: inj_onD)
  then have "update_rows (\<lambda>r. wi_key r = key) f (items L)
      = update_rows (\<lambda>r. wi_key r = key) g (items L)"
    using assms(3) by (auto simp: update_rows_def)
  then show ?thesis by (simp add: update_item_def)
qed

lemma reclaim_one_eq:
  assumes "keyed wi_key (items L)" and "find_row wi_key (at_work_key a) (items L) = Some wi"
  shows "reclaim_one now tm a (ks, L) =
    Inr (if wi_state (reclaim_item now wi) = PENDING then ks @ [at_work_key a] else ks,
      log_transition (at_work_key a) (Some (at_id a)) (wi_state wi)
        (wi_state (reclaim_item now wi)) ''lease_reclaim'' tm
        (update_item (at_work_key a) (reclaim_item now)
          (update_attempt (at_id a) (expire_attempt now) L)))"
proof -
  let ?L1 = "update_attempt (at_id a) (expire_attempt now) L"
  have L1: "keyed wi_key (items ?L1)" "find_row wi_key (at_work_key a) (items ?L1) = Some wi"
    using assms by simp_all
  show ?thesis
  proof (cases "\<not> wi_side_effecting wi \<and> wi_retry_count wi + 1 \<le> wi_max_retries wi")
    case True
    have "update_item (at_work_key a)
        (\<lambda>r. r\<lparr>wi_state := PENDING, wi_retry_count := wi_retry_count r + 1, wi_updated_at := now\<rparr>) ?L1
      = update_item (at_work_key a) (reclaim_item now) ?L1"
      by (rule update_item_keyed [OF L1]) (simp add: reclaim_item_def True)
    with True assms(2) show ?thesis by (simp add: reclaim_one_def reclaim_item_def [of now wi] Let_def)
  next
    case False
    have "update_item (at_work_key a)
        (\<lambda>r. r\<lparr>wi_state := (if wi_side_effecting wi then FAILED_UNKNOWN else FAILED_FINAL),
               wi_updated_at := now\<rparr>) ?L1
      = update_item (at_work_key a) (reclaim_item now) ?L1"
      by (rule update_item_keyed [OF L1]) (use False in \<open>auto simp: reclaim_item_def\<close>)
    with False assms(2) show ?thesis
      by (auto simp: reclaim_one_def reclaim_item_def [of now wi] Let_def)
  qed
qed

lemma reclaim_one_inv:
  assumes inv: "ledger_inv sha fr L" and a: "a \<in> set (attempts L)" "in_progress (at_state a)"
  shows "\<exists>ks' L'. reclaim_one now tm a (ks, L) = Inr (ks', L') \<and> ledger_inv sha fr L'
    \<and> items L' = update_rows (\<lambda>r. wi_key r = at_work_key a) (reclaim_item now) (items L)
    \<and> attempts L' = update_rows (\<lambda>b. at_id b = at_id a) (expire_attempt now) (attempts L)
    \<and> ks' = ks @ map wi_key (filter (\<lambda>r. wi_key r = at_work_key a
          \<and> wi_state (reclaim_item now r) = PENDING) (items L))"
proof -
  obtain r where r: "r \<in> set (items L)" "wi_key r = at_work_key a"
    "find_row wi_key (at_work_key a) (items L) = Some r" "a \<in> set (attempts_of (wi_key r) L)"
    using attempt_item [OF inv a(1)] by blast
  have st: "wi_state r = at_state a"
    by (rule item_ok_live [OF item_ok_at [OF inv r(1)] r(4) a(2)])
  let ?L' = "log_transition (at_work_key a) (Some (at_id a)) (wi_state r)
        (wi_state (reclaim_item now r)) ''lease_reclaim'' tm
        (update_item (at_work_key a) (reclaim_item now)
          (update_attempt (at_id a) (expire_attempt now) L))"
  have "ledger_inv sha fr ?L'"
    by (rule inv_move [OF inv a r(1,2)])
       (use st a(2) retry_bounds [OF inv r(1)] in \<open>auto simp: reclaim_item_def\<close>)
  moreover have "filter (\<lambda>x. wi_key x = at_work_key a \<and> wi_state (reclaim_item now x) = PENDING)
      (items L) = (if wi_state (reclaim_item now r) = PENDING then [r] else [])"
  proof -
    obtain us vs where L: "items L = us @ r # vs" using r(1) by (meson split_list)
    then have "\<forall>x \<in> set us \<union> set vs. wi_key x \<noteq> at_work_key a"
      using inv_keyed [OF inv] r(2) by (auto simp: keyed_def image_iff)
    then have "filter (\<lambda>x. wi_key x = at_work_key a \<and> wi_state (reclaim_item now x) = PENDING) us = []"
      "filter (\<lambda>x. wi_key x = at_work_key a \<and> wi_state (reclaim_item now x) = PENDING) vs = []"
      by (auto simp: filter_empty_conv)
    then show ?thesis using r(2) by (simp add: L)
  qed
  ultimately show ?thesis using reclaim_one_eq [OF inv_keyed [OF inv] r(3)] r(2) by auto
qed

text \<open>The loop over all stale attempts, in closed form.\<close>

lemma reclaim_loop:
  assumes "ledger_inv sha fr L" and "\<forall>a \<in> set as. a \<in> set (attempts L) \<and> in_progress (at_state a)"
    and "distinct (map at_work_key as)"
  shows "\<exists>ks' L'. rfold (\<lambda>(k, att). reclaim_one now (clk (Suc k)) att) (enumerate n as) (ks, L)
      = Inr (ks', L') \<and> ledger_inv sha fr L'
    \<and> items L' = update_rows (\<lambda>r. wi_key r \<in> at_work_key ` set as) (reclaim_item now) (items L)
    \<and> attempts L' = update_rows (\<lambda>b. at_id b \<in> at_id ` set as) (expire_attempt now) (attempts L)
    \<and> set ks' = set ks \<union> {wi_key r | r. r \<in> set (items L) \<and> wi_key r \<in> at_work_key ` set as
          \<and> wi_state (reclaim_item now r) = PENDING}"
  using assms
proof (induction as arbitrary: n ks L)
  case Nil
  then show ?case by (simp add: update_rows_none)
next
  case (Cons a as)
  have a: "a \<in> set (attempts L)" "in_progress (at_state a)" using Cons.prems(2) by auto
  obtain ks1 L1 where one: "reclaim_one now (clk (Suc n)) a (ks, L) = Inr (ks1, L1)"
    and L1: "ledger_inv sha fr L1"
      "items L1 = update_rows (\<lambda>r. wi_key r = at_work_key a) (reclaim_item now) (items L)"
      "attempts L1 = update_rows (\<lambda>b. at_id b = at_id a) (expire_attempt now) (attempts L)"
    and ks1: "ks1 = ks @ map wi_key (filter (\<lambda>r. wi_key r = at_work_key a
          \<and> wi_state (reclaim_item now r) = PENDING) (items L))"
    using reclaim_one_inv [OF Cons.prems(1) a] by blast
  have keyed: "keyed at_id (attempts L)" using Cons.prems(1) by (simp add: ledger_inv_def)
  have ids: "at_id b \<noteq> at_id a" if "b \<in> set as" for b
    using keyed that Cons.prems(2,3) a(1)
    by (force simp: keyed_def distinct_map dest: inj_onD)
  have live: "\<forall>b \<in> set as. b \<in> set (attempts L1) \<and> in_progress (at_state b)"
    using Cons.prems(2) ids by (fastforce simp: L1(3) set_update_rows)
  from Cons.IH [OF L1(1) live, of "Suc n" ks1] Cons.prems(3)
  obtain ks2 L2 where rest: "rfold (\<lambda>(k, att). reclaim_one now (clk (Suc k)) att)
        (enumerate (Suc n) as) (ks1, L1) = Inr (ks2, L2)" "ledger_inv sha fr L2"
      "items L2 = update_rows (\<lambda>r. wi_key r \<in> at_work_key ` set as) (reclaim_item now) (items L1)"
      "attempts L2 = update_rows (\<lambda>b. at_id b \<in> at_id ` set as) (expire_attempt now) (attempts L1)"
      "set ks2 = set ks1 \<union> {wi_key r | r. r \<in> set (items L1) \<and> wi_key r \<in> at_work_key ` set as
          \<and> wi_state (reclaim_item now r) = PENDING}"
    by auto
  have apart: "at_work_key a \<notin> at_work_key ` set as" "at_id a \<notin> at_id ` set as"
    using Cons.prems(3) ids by force+
  have "items L2 = update_rows (\<lambda>r. wi_key r \<in> at_work_key ` set (a # as)) (reclaim_item now) (items L)"
    using apart(1) by (auto simp: rest(3) L1(2) update_rows_def)
  moreover have "attempts L2
      = update_rows (\<lambda>b. at_id b \<in> at_id ` set (a # as)) (expire_attempt now) (attempts L)"
    using apart(2) by (auto simp: rest(4) L1(3) update_rows_def)
  moreover have "{wi_key r | r. r \<in> set (items L1) \<and> wi_key r \<in> at_work_key ` set as
          \<and> wi_state (reclaim_item now r) = PENDING}
      = {wi_key r | r. r \<in> set (items L) \<and> wi_key r \<in> at_work_key ` set as
          \<and> wi_state (reclaim_item now r) = PENDING}"
    using apart(1) by (auto simp: L1(2) set_update_rows)
  then have "set ks2 = set ks \<union> {wi_key r | r. r \<in> set (items L)
      \<and> wi_key r \<in> at_work_key ` set (a # as) \<and> wi_state (reclaim_item now r) = PENDING}"
    by (auto simp: rest(5) ks1) metis
  ultimately show ?case using one rest(1,2) by simp
qed

text \<open>Distinct live attempts belong to distinct items.\<close>

lemma live_unique:
  assumes inv: "ledger_inv sha fr L" and a: "a \<in> set (attempts L)" "active (at_state a)"
    and b: "b \<in> set (attempts L)" "active (at_state b)" and "at_work_key a = at_work_key b"
  shows "a = b"
proof -
  obtain r where r: "r \<in> set (items L)" "wi_key r = at_work_key a" "a \<in> set (attempts_of (wi_key r) L)"
    using attempt_item [OF inv a(1)] by blast
  have b': "b \<in> set (attempts_of (wi_key r) L)"
    using b(1) r(2) assms(6) by (simp add: attempts_of_def)
  have "filter (\<lambda>a. active (at_state a)) (attempts_of (wi_key r) L) \<noteq> []"
    using r(3) a(2) by (auto simp: filter_empty_conv)
  then have one: "map at_state (filter (\<lambda>a. active (at_state a)) (attempts_of (wi_key r) L)) = [wi_state r]"
    using item_ok_at [OF inv r(1)] by (auto simp: item_ok_def split: if_splits)
  from active_split [OF one r(3) a(2)] b' b(2) show ?thesis by auto
qed

lemma distinct_stale:
  assumes inv: "ledger_inv sha fr L"
  shows "distinct (map at_work_key (stale_attempts now L))"
proof -
  have "distinct (stale_attempts now L)"
    using inv by (auto simp: ledger_inv_def keyed_def distinct_map stale_attempts_def)
  moreover have "inj_on at_work_key (set (stale_attempts now L))"
    using live_unique [OF inv] by (intro inj_onI) (auto simp: stale_attempts_def)
  ultimately show ?thesis by (simp add: distinct_map)
qed

lemma reclaim_stale_closed:
  assumes inv: "ledger_inv sha fr L" and now: "now = (case now_arg of None \<Rightarrow> clk 0 | Some t \<Rightarrow> t)"
  shows "\<exists>ks L'. reclaim_stale now_arg clk L = Inr (ks, L') \<and> ledger_inv sha fr L'
    \<and> items L' = update_rows (\<lambda>r. wi_key r \<in> at_work_key ` set (stale_attempts now L))
        (reclaim_item now) (items L)
    \<and> attempts L' = update_rows (\<lambda>b. at_id b \<in> at_id ` set (stale_attempts now L))
        (expire_attempt now) (attempts L)
    \<and> set ks = {wi_key r | r. r \<in> set (items L)
          \<and> wi_key r \<in> at_work_key ` set (stale_attempts now L)
          \<and> wi_state (reclaim_item now r) = PENDING}"
proof -
  have "\<forall>a \<in> set (stale_attempts now L). a \<in> set (attempts L) \<and> in_progress (at_state a)"
    by (auto simp: stale_attempts_def)
  from reclaim_loop [OF inv this distinct_stale [OF inv], of now clk 0 "[]"]
  show ?thesis by (simp add: reclaim_stale_def Let_def now)
qed

end
