(* ===== verification/LedgerProps.thy ===== *)
theory LedgerProps
  imports LedgerInv
begin

text \<open>
  Histories of the ledger and the properties of \<^verbatim>\<open>experiment/ledger.py\<close>. A history is a
  sequence of successful operations (a refused one changes nothing), each with its own clock, in
  which \<open>fail\<close> is called for attempts in progress only. The code does not check this; \<open>Program\<close> shows
  that both of its callers keep to it, and \<open>fail_reopens_committed\<close> what happens otherwise.
\<close>

inductive ledger_step :: "(string \<Rightarrow> string) \<Rightarrow> (real \<Rightarrow> string) \<Rightarrow> ledger \<Rightarrow> ledger \<Rightarrow> bool"
  for sha fr where
  ensure: "ensure_work_item sha fr dm c epoch se mr clk L = Inr (key, L') \<Longrightarrow> ledger_step sha fr L L'"
| claim: "claim sha fr key w lease run clk L = Inr (res, L') \<Longrightarrow> ledger_step sha fr L L'"
| heartbeat: "ledger_step sha fr L (heartbeat aid lease clk L)"
| advance: "advance aid to reason clk L = Inr L' \<Longrightarrow> ledger_step sha fr L L'"
| commit: "commit aid ref reason clk L = Inr L' \<Longrightarrow> ledger_step sha fr L L'"
| fail: "\<lbrakk>fail aid disposition e reason ref clk L = Inr (s, L');
     \<forall>a \<in> set (attempts L). at_id a = aid \<longrightarrow> in_progress (at_state a)\<rbrakk> \<Longrightarrow> ledger_step sha fr L L'"
| block: "block_budget key reason clk L = Inr L' \<Longrightarrow> ledger_step sha fr L L'"
| reclaim: "reclaim_stale now clk L = Inr (ks, L') \<Longrightarrow> ledger_step sha fr L L'"
| run: "create_run canon run_id psha meta clk L = Inr L' \<Longrightarrow> ledger_step sha fr L L'"
| config: "ledger_step sha fr L (register_config csha kind canonical clk L)"
| artifact: "ledger_step sha fr L (register_artifact aref kind raw stored wkey clk L)"
| incident: "ledger_step sha fr L (record_incident severity kind detail wkey clk L)"
| corpus: "ledger_step sha fr L (record_corpus_attempt cid version st reason psha note done clk L)"
| epoch: "record_engine_epoch key epoch clk L = Inr L' \<Longrightarrow> ledger_step sha fr L L'"

abbreviation history :: "(string \<Rightarrow> string) \<Rightarrow> (real \<Rightarrow> string) \<Rightarrow> ledger \<Rightarrow> bool" where
  "history sha fr \<equiv> (ledger_step sha fr)\<^sup>*\<^sup>* empty_ledger"

subsection \<open>Every step keeps the invariant\<close>

lemma inv_same_tables:
  assumes "ledger_inv sha fr L" and "items L' = items L" and "attempts L' = attempts L"
    and "transitions L' = transitions L"
  shows "ledger_inv sha fr L'"
  using assms by (simp add: ledger_inv_def attempts_of_def transitions_of_def)

text \<open>The bookkeeping operations touch none of the three tables of the state machine.\<close>

definition core :: "ledger \<Rightarrow> work_item list \<times> attempt list \<times> transition list" where
  "core L = (items L, attempts L, transitions L)"

lemma create_run_core: "create_run canon run_id psha meta clk L = Inr L' \<Longrightarrow> core L' = core L"
  by (auto simp: create_run_def core_def Let_def split: option.splits if_splits)

lemma record_engine_epoch_core: "record_engine_epoch key epoch clk L = Inr L' \<Longrightarrow> core L' = core L"
  by (auto simp: record_engine_epoch_def core_def split: option.splits if_splits)

lemma bookkeeping_core [simp]:
  "core (register_config csha kind canonical clk L) = core L"
  "core (register_artifact aref kind raw stored wkey clk L) = core L"
  "core (record_incident severity kind detail wkey clk L) = core L"
  "core (record_corpus_attempt cid version st reason psha note is_closed clk L) = core L"
  by (simp_all add: core_def register_config_def register_artifact_def record_incident_def
      record_corpus_attempt_def)

lemma inv_core: "ledger_inv sha fr L \<Longrightarrow> core L' = core L \<Longrightarrow> ledger_inv sha fr L'"
  by (rule inv_same_tables) (simp_all add: core_def)

lemma ledger_step_inv:
  assumes "ledger_step sha fr L L'" and inv: "ledger_inv sha fr L"
  shows "ledger_inv sha fr L'"
  using assms(1)
proof (cases rule: ledger_step.cases)
  case ensure
  from ensure_inv [OF inv this] show ?thesis .
next
  case claim
  from claim_inv [OF inv this] show ?thesis .
next
  case heartbeat
  with heartbeat_inv [OF inv] show ?thesis by simp
next
  case advance
  from advance_inv [OF inv this] show ?thesis .
next
  case commit
  from commit_inv [OF inv this] show ?thesis .
next
  case fail
  from fail(2) show ?thesis by (intro fail_inv [OF inv fail(1)]) blast
next
  case block
  from block_budget_inv [OF inv this] show ?thesis .
next
  case (reclaim now clk ks)
  with reclaim_stale_closed [OF inv refl, of now clk] show ?thesis by auto
next
  case run
  from inv_core [OF inv create_run_core [OF this]] show ?thesis .
next
  case epoch
  from inv_core [OF inv record_engine_epoch_core [OF this]] show ?thesis .
qed (simp_all add: inv_core [OF inv])

lemma empty_inv: "ledger_inv sha fr empty_ledger"
  by (simp add: ledger_inv_def empty_ledger_def keyed_def)

lemma history_inv: "history sha fr L \<Longrightarrow> ledger_inv sha fr L"
  by (induction rule: rtranclp_induct) (auto intro: empty_inv ledger_step_inv)

subsection \<open>One live attempt, one accepted attempt\<close>

text \<open>
  C6. After every history at most one attempt of a work item is in progress, an item is in progress
  exactly when it has one (and in the same state), and it is COMMITTED exactly when one of its
  attempts is, which then is the only one and carries a result reference.
\<close>

theorem single_live_and_committed_attempt:
  assumes "history sha fr L" and "r \<in> set (items L)"
  shows "(if in_progress (wi_state r)
      then \<exists>a. filter (\<lambda>a. in_progress (at_state a)) (attempts_of (wi_key r) L) = [a]
             \<and> at_state a = wi_state r
      else filter (\<lambda>a. in_progress (at_state a)) (attempts_of (wi_key r) L) = [])
    \<and> (if wi_state r = COMMITTED
       then \<exists>a ref. filter (\<lambda>a. at_state a = COMMITTED) (attempts_of (wi_key r) L) = [a]
              \<and> at_result_ref a = Some ref
       else filter (\<lambda>a. at_state a = COMMITTED) (attempts_of (wi_key r) L) = [])"
proof -
  let ?as = "attempts_of (wi_key r) L"
  have ok: "item_ok ?as (transitions_of (wi_key r) L) r"
    by (rule item_ok_at [OF history_inv [OF assms(1)] assms(2)])
  have split: "filter (\<lambda>a. in_progress (at_state a)) ?as
      = filter (\<lambda>a. in_progress (at_state a)) (filter (\<lambda>a. active (at_state a)) ?as)"
    "filter (\<lambda>a. at_state a = COMMITTED) ?as
      = filter (\<lambda>a. at_state a = COMMITTED) (filter (\<lambda>a. active (at_state a)) ?as)"
    by (auto simp: active_def intro!: filter_cong)
  show ?thesis
  proof (cases "active (wi_state r)")
    case True
    then obtain a where a: "filter (\<lambda>a. active (at_state a)) ?as = [a]" "at_state a = wi_state r"
      using ok by (auto simp: item_ok_def)
    then have "a \<in> set (filter (\<lambda>a. active (at_state a)) ?as)" by simp
    then have "at_state a = COMMITTED \<Longrightarrow> at_result_ref a \<noteq> None"
      using ok by (simp add: item_ok_def)
    with a True show ?thesis unfolding split by (auto simp: active_def)
  next
    case False
    with ok have "filter (\<lambda>a. active (at_state a)) ?as = []" by (simp add: item_ok_def)
    with False show ?thesis unfolding split by (auto simp: active_def)
  qed
qed

subsection \<open>Bounded retries\<close>

text \<open>
  A work item is attempted at most \<open>max_retries + 1\<close> times, whatever mix of reported failures
  and expired leases its attempts end in; the attempts carry the ordinals 1, 2, 3 and so on, and
  the recorded retry count is the number of attempts that were given up for another one.
\<close>

lemma history_attempts_bounded:
  assumes "history sha fr L" and "r \<in> set (items L)"
  shows "int (length (attempts_of (wi_key r) L)) \<le> max 0 (wi_max_retries r) + 1
    \<and> map at_ordinal (attempts_of (wi_key r) L)
        = map int [1..<Suc (length (attempts_of (wi_key r) L))]
    \<and> wi_retry_count r = int (length (attempts_of (wi_key r) L))
        - (if wi_state r = PENDING \<or> wi_state r = BLOCKED_BUDGET then 0 else 1)"
  using item_ok_at [OF history_inv [OF assms(1)] assms(2)]
  by (auto simp: item_ok_def not_started_def)

subsection \<open>The audit trail\<close>

text \<open>
  The transition log of an item is a path of the documented state machine that starts at
  PENDING and ends in the state the item is in: every recorded move is an arrow of the diagram
  and none is missing.
\<close>

lemma history_trail:
  assumes "history sha fr L" and "r \<in> set (items L)"
  shows "trail PENDING (transitions_of (wi_key r) L) (wi_state r)"
  using item_ok_at [OF history_inv [OF assms(1)] assms(2)] by (simp add: item_ok_def)

subsection \<open>Terminal means terminal\<close>

lemma set_state_grows:
  "set_state key from to reason t1 t2 L = Inr L' \<Longrightarrow>
     (\<exists>ts. transitions L' = transitions L @ ts) \<and> wi_key ` set (items L') = wi_key ` set (items L)
     \<and> attempts L' = attempts L"
  unfolding set_state_def log_transition_def by (clarsimp split: if_splits)

definition grows :: "ledger \<Rightarrow> ledger \<Rightarrow> bool" where
  "grows L L' \<longleftrightarrow> (\<exists>ts. transitions L' = transitions L @ ts)
     \<and> wi_key ` set (items L) \<subseteq> wi_key ` set (items L')"

lemma grows_refl [simp]: "grows L L"
  by (simp add: grows_def)

lemma grows_trans: "grows L M \<Longrightarrow> grows M N \<Longrightarrow> grows L N"
  unfolding grows_def by (metis append_assoc subset_trans)

lemma grows_core: "core L' = core L \<Longrightarrow> grows L L'"
  by (simp add: grows_def core_def)

lemma reclaim_grows:
  assumes "reclaim_stale now clk L = Inr (ks, L')"
  shows "grows L L'"
proof -
  have step: "grows L (snd s')" if "reclaim_one t tm a s = Inr s'" and "grows L (snd s)" for t tm a s s'
    using that
    by (auto simp: reclaim_one_def grows_def Let_def split: prod.splits option.splits if_splits)
  have "grows L (snd s')" if "rfold (\<lambda>(k, att). reclaim_one t (clk (Suc k)) att) xs s = Inr s'"
    and "grows L (snd s)" for t xs s s'
    by (rule rfold_invariant [where P = "\<lambda>s. grows L (snd s)", OF _ that(2,1)])
       (auto dest: step split: prod.splits)
  with assms show ?thesis by (force simp: reclaim_stale_def Let_def)
qed

lemma ledger_step_grows:
  assumes "ledger_step sha fr L L'"
  shows "grows L L'"
  using assms
proof (cases rule: ledger_step.cases)
  case (ensure dm c epoch se mr clk key)
  then show ?thesis
    by (auto simp: ensure_work_item_def grows_def insert_ignore_def split: sum.splits)
next
  case (claim key w lease run clk res)
  then show ?thesis
    by (auto simp: claim_def Let_def grows_def result_elims insert_attempt_def
        dest!: set_state_grows split: option.splits if_splits sum.splits)
next
  case (heartbeat aid lease clk)
  then show ?thesis by (simp add: heartbeat_def grows_def)
next
  case (advance aid to reason clk)
  then show ?thesis
    by (auto simp: advance_def grows_def result_elims dest!: set_state_grows split: if_splits)
next
  case (commit aid ref reason clk)
  then show ?thesis
    by (auto simp: commit_def grows_def result_elims dest!: set_state_grows split: if_splits)
next
  case (fail aid disposition e reason ref clk s)
  from fail(1) show ?thesis by (rule fail_Inr) (auto simp: grows_def)
next
  case (block key reason clk)
  then show ?thesis
    by (auto simp: block_budget_def grows_def dest!: set_state_grows split: option.splits)
qed (auto intro: grows_core reclaim_grows dest: create_run_core record_engine_epoch_core)

lemma trail_append:
  "trail s (ts @ us) u \<longleftrightarrow> (\<exists>m. trail s ts m \<and> trail m us u)"
  by (induction ts arbitrary: s) auto

lemma trail_end: "trail s ts u \<Longrightarrow> trail s ts v \<Longrightarrow> u = v"
  by (induction ts arbitrary: s) auto

lemma terminal_trail:
  assumes "trail s ts u" and "s \<in> set terminal_states"
  shows "ts = [] \<and> u = s"
  using assms by (cases ts) (auto simp: terminal_states_def dest: edge_from)

lemma grows_terminal:
  assumes "ledger_inv sha fr L" and "ledger_inv sha fr L'" and "grows L L'"
    and "r \<in> set (items L)" and "wi_state r \<in> set terminal_states"
  shows "\<exists>r' \<in> set (items L'). wi_key r' = wi_key r \<and> wi_state r' = wi_state r"
proof -
  obtain r' where r': "r' \<in> set (items L')" "wi_key r' = wi_key r"
    using assms(3,4) unfolding grows_def by (metis image_iff imageI subsetD)
  obtain ts where "transitions L' = transitions L @ ts" using assms(3) by (auto simp: grows_def)
  then have "transitions_of (wi_key r) L'
      = transitions_of (wi_key r) L @ filter (\<lambda>t. tr_work_key t = wi_key r) ts"
    by (simp add: transitions_of_def)
  then obtain m where "trail PENDING (transitions_of (wi_key r) L) m"
    and m: "trail m (filter (\<lambda>t. tr_work_key t = wi_key r) ts) (wi_state r')"
    using item_ok_at [OF assms(2) r'(1)] r'(2) by (auto simp: item_ok_def trail_append)
  then have "m = wi_state r"
    using item_ok_at [OF assms(1,4)] by (auto simp: item_ok_def dest: trail_end)
  with m assms(5) r' show ?thesis by (auto dest: terminal_trail)
qed

text \<open>A committed attempt is never rewritten.\<close>

lemma update_attempt_keeps:
  assumes "keyed at_id (attempts L)" and "b \<in> set (attempts L)" and "a \<in> set (attempts L)"
    and "a \<noteq> b" and "attempts L' = attempts L"
  shows "a \<in> set (attempts (update_attempt (at_id b) f L'))"
proof -
  have "at_id a \<noteq> at_id b" using assms by (auto simp: keyed_def distinct_map dest: inj_onD)
  with assms(3,5) show ?thesis by (force simp: set_update_rows)
qed

lemma claim_attempts:
  assumes "ledger_inv sha fr L" and "claim sha fr key w lease run clk L = Inr (Some a, L')"
  shows "attempts L' = attempts L @ [a]"
  using assms by (rule claim_Some) simp

lemma claim_items:
  assumes "ledger_inv sha fr L" and "claim sha fr key w lease run clk L = Inr (Some a, L')"
  shows "items L' = update_rows (\<lambda>x. wi_key x = key)
      (\<lambda>r. r\<lparr>wi_state := CLAIMED, wi_updated_at := clk 1\<rparr>) (items L)"
    and "\<exists>aid. a = new_attempt aid key (next_ordinal key L) run w (clk 0 + lease) (clk 0)"
proof -
  from assms obtain r aid where
      a: "a = new_attempt aid key (next_ordinal key L) run w (clk 0 + lease) (clk 0)"
    and L': "L' = log_transition key None PENDING CLAIMED (''claim:'' @ w) (clk 2)
       (update_item key (\<lambda>r. r\<lparr>wi_state := CLAIMED, wi_updated_at := clk 1\<rparr>)
         (L\<lparr>attempts := attempts L @ [a]\<rparr>))"
    by (rule claim_Some)
  show "items L' = update_rows (\<lambda>x. wi_key x = key)
      (\<lambda>r. r\<lparr>wi_state := CLAIMED, wi_updated_at := clk 1\<rparr>) (items L)"
    by (simp add: L')
  from a show "\<exists>aid. a = new_attempt aid key (next_ordinal key L) run w (clk 0 + lease) (clk 0)"
    by blast
qed

lemma ledger_step_committed:
  assumes "ledger_step sha fr L L'" and inv: "ledger_inv sha fr L"
    and a: "a \<in> set (attempts L)" "at_state a = COMMITTED"
  shows "a \<in> set (attempts L')"
proof -
  have keyed: "keyed at_id (attempts L)" using inv by (simp add: ledger_inv_def)
  from assms(1) show ?thesis
  proof (cases rule: ledger_step.cases)
  case (ensure dm c epoch se mr clk key)
  with a show ?thesis by (auto simp: ensure_work_item_def split: sum.splits)
next
  case (claim key w lease run clk res)
  show ?thesis
  proof (cases res)
    case None
    with claim a show ?thesis by (auto dest: claim_None)
  next
    case (Some c)
    with claim a show ?thesis by (simp add: claim_attempts [OF inv])
  qed
next
  case (heartbeat aid lease clk)
  with a show ?thesis by (force simp: heartbeat_def set_update_rows)
next
  case (advance aid to reason clk)
  then obtain b L1 where to: "to \<in> set [MATERIALIZED, VALIDATED]" and b: "b \<in> set (attempts L)" "at_id b = aid"
    and set: "set_state (at_work_key b) (at_state b) to reason (clk 0) (clk 1) L = Inr L1"
    and L': "L' = update_attempt aid (\<lambda>a. a\<lparr>at_state := to\<rparr>) L1"
    by (auto simp: advance_def result_elims dest: require_attempt_Inr split: if_splits)
  have "a \<noteq> b" using set a(2) by (auto simp: set_state_def)
  then show ?thesis
    unfolding L' b(2) [symmetric]
    by (rule update_attempt_keeps [OF keyed b(1) a(1)]) (use set_state_grows [OF set] in simp)
next
  case (commit aid ref reason clk)
  then obtain b L1 f where b: "b \<in> set (attempts L)" "at_id b = aid" "at_state b = VALIDATED"
    and set: "attempts L1 = attempts L" and L': "L' = update_attempt aid f L1"
    by (auto simp: commit_def result_elims dest: require_attempt_Inr dest!: set_state_grows
        split: if_splits)
  from b a have "a \<noteq> b" by auto
  then show ?thesis
    unfolding L' b(2) [symmetric] by (rule update_attempt_keeps [OF keyed b(1) a(1) _ set])
next
  case (fail aid disposition e reason ref clk s)
  from fail(1) obtain b f k g L2 where b: "b \<in> set (attempts L)" "at_id b = aid"
    and L': "attempts L' = attempts (update_attempt aid f L)"
    by (rule fail_Inr) auto
  have "a \<noteq> b" using fail(2) b a(2) by auto
  then show ?thesis
    unfolding L' b(2) [symmetric] by (rule update_attempt_keeps [OF keyed b(1) a(1) _ refl])
next
  case (block key reason clk)
  with a show ?thesis by (auto simp: block_budget_def dest!: set_state_grows split: option.splits)
next
  case (reclaim now clk ks)
  let ?now = "case now of None \<Rightarrow> clk 0 | Some t \<Rightarrow> t"
  have L': "attempts L' = update_rows (\<lambda>b. at_id b \<in> at_id ` set (stale_attempts ?now L))
        (expire_attempt ?now) (attempts L)"
    using reclaim_stale_closed [OF inv refl, of now clk] reclaim by auto
  have "at_id a \<notin> at_id ` set (stale_attempts ?now L)"
  proof
    assume "at_id a \<in> at_id ` set (stale_attempts ?now L)"
    then obtain b where "b \<in> set (attempts L)" "in_progress (at_state b)" "at_id a = at_id b"
      by (auto simp: stale_attempts_def)
    then have "a = b" using inv a(1) by (auto simp: ledger_inv_def keyed_def distinct_map dest: inj_onD)
    with a(2) \<open>in_progress (at_state b)\<close> show False by simp
  qed
  with a(1) show ?thesis by (force simp: L' set_update_rows)
next
  case (run canon run_id psha meta clk)
  with a show ?thesis by (auto simp: core_def dest!: create_run_core)
next
  case (epoch key epoch clk)
  with a show ?thesis by (auto simp: core_def dest!: record_engine_epoch_core)
qed (use a bookkeeping_core in \<open>simp_all add: core_def\<close>)
qed

lemma committed_ref_eq:
  assumes "ledger_inv sha fr L" and "a \<in> set (attempts L)" and "at_state a = COMMITTED"
  shows "committed_ref (at_work_key a) L = at_result_ref a"
proof -
  obtain b where b: "List.find (\<lambda>b. at_work_key b = at_work_key a \<and> at_state b = COMMITTED) (attempts L)
      = Some b"
    using assms(2,3) by (metis (mono_tags, lifting) find_None_iff option.exhaust)
  then have "b \<in> set (attempts L)" "at_work_key b = at_work_key a" "at_state b = COMMITTED"
    by (auto simp: find_Some_iff)
  then have "b = a" using live_unique [OF assms(1)] assms(2,3) by simp
  with b show ?thesis by (simp add: committed_ref_def)
qed

text \<open>
  Terminal states absorb: from any point of a history on, an item that is COMMITTED,
  FAILED_FINAL, FAILED_UNKNOWN or BLOCKED_BUDGET stays in that state, and the result reference of
  a committed item never changes.
\<close>

lemma history_terminal:
  assumes "history sha fr L" and "(ledger_step sha fr)\<^sup>*\<^sup>* L L'"
    and "r \<in> set (items L)" and "wi_state r \<in> set terminal_states"
  shows "(\<exists>r' \<in> set (items L'). wi_key r' = wi_key r \<and> wi_state r' = wi_state r)
    \<and> (wi_state r = COMMITTED \<longrightarrow> committed_ref (wi_key r) L' = committed_ref (wi_key r) L)"
proof -
  have inv: "ledger_inv sha fr L" by (rule history_inv [OF assms(1)])
  have grow: "grows L L' \<and> ledger_inv sha fr L'
      \<and> (\<forall>a \<in> set (attempts L). at_state a = COMMITTED \<longrightarrow> a \<in> set (attempts L'))"
    using assms(2)
  proof (induction rule: rtranclp_induct)
    case (step M N)
    moreover have "grows L N"
      using step.IH ledger_step_grows [OF step.hyps(2)] by (blast intro: grows_trans)
    ultimately show ?case using ledger_step_inv ledger_step_committed by metis
  qed (simp add: inv)
  have "committed_ref (wi_key r) L' = committed_ref (wi_key r) L" if "wi_state r = COMMITTED"
  proof -
    have "map at_state (filter (\<lambda>a. active (at_state a)) (attempts_of (wi_key r) L)) = [COMMITTED]"
      using item_ok_at [OF inv assms(3)] that by (simp add: item_ok_def)
    then obtain a where "filter (\<lambda>a. active (at_state a)) (attempts_of (wi_key r) L) = [a]"
      and "at_state a = COMMITTED"
      by (auto simp: map_eq_Cons_conv)
    then have "a \<in> set (attempts_of (wi_key r) L)" "at_state a = COMMITTED"
      by (blast dest: filter_singletonD)+
    then have a: "a \<in> set (attempts L)" "at_work_key a = wi_key r" "at_state a = COMMITTED"
      by (auto simp: attempts_of_def)
    then have "a \<in> set (attempts L')" using grow by blast
    with a committed_ref_eq [OF inv a(1,3)] committed_ref_eq [of sha fr L' a] grow show ?thesis
      by simp
  qed
  with grows_terminal [OF inv _ _ assms(3,4)] grow show ?thesis by blast
qed

subsection \<open>Claims exclude each other\<close>

lemma attempt_id_total: "\<exists>aid. attempt_id_of sha fr key n = Inr aid"
  unfolding attempt_id_of_def by (rule derive_id_total) (auto simp: id_fields_def)

lemma attempt_id_inject:
  assumes "inj sha" and "attempt_id_of sha fr k n = Inr x" and "attempt_id_of sha fr l m = Inr x"
  shows "k = l \<and> n = m"
  using derive_id_same_keys [OF assms(1) _ _ _ assms(2,3) [unfolded attempt_id_of_def]]
  by (simp add: id_fields_def)

lemma fresh_attempt:
  assumes "inj sha" and inv: "ledger_inv sha fr L" and r: "r \<in> set (items L)"
    and aid: "attempt_id_of sha fr (wi_key r) (next_ordinal (wi_key r) L) = Inr aid"
  shows "\<not> has_key at_id aid (attempts L)"
    and "\<not> list_ex (\<lambda>b. at_work_key b = wi_key r \<and> at_ordinal b = next_ordinal (wi_key r) L) (attempts L)"
proof -
  have ord: "map at_ordinal (attempts_of (wi_key r) L)
      = map int [1..<Suc (length (attempts_of (wi_key r) L))]"
    using item_ok_at [OF inv r] by (simp add: item_ok_def)
  have no: "at_ordinal b \<noteq> next_ordinal (wi_key r) L"
    if "b \<in> set (attempts L)" "at_work_key b = wi_key r" for b
  proof -
    have "at_ordinal b \<in> set (map at_ordinal (attempts_of (wi_key r) L))"
      using that by (simp add: attempts_of_def)
    then have "at_ordinal b \<in> int ` {1..<Suc (length (attempts_of (wi_key r) L))}"
      unfolding ord set_map set_upt .
    then show ?thesis unfolding next_ordinal_eq [OF ord] by auto
  qed
  then show "\<not> list_ex (\<lambda>b. at_work_key b = wi_key r \<and> at_ordinal b = next_ordinal (wi_key r) L) (attempts L)"
    by (auto simp: list_ex_iff)
  show "\<not> has_key at_id aid (attempts L)"
  proof
    assume "has_key at_id aid (attempts L)"
    then obtain b where b: "b \<in> set (attempts L)" "at_id b = aid" by (auto simp: has_key_iff)
    then have "attempt_id_of sha fr (at_work_key b) (at_ordinal b) = Inr aid"
      using inv by (auto simp: ledger_inv_def)
    with attempt_id_inject [OF assms(1) _ aid] no [OF b(1)] show False by blast
  qed
qed

lemma claim_pending:
  assumes "inj sha" and inv: "ledger_inv sha fr L" and r: "r \<in> set (items L)" "wi_state r = PENDING"
  shows "\<exists>a L'. claim sha fr (wi_key r) w lease run clk L = Inr (Some a, L')"
proof -
  obtain aid where aid: "attempt_id_of sha fr (wi_key r) (next_ordinal (wi_key r) L) = Inr aid"
    using attempt_id_total by blast
  let ?a = "new_attempt aid (wi_key r) (next_ordinal (wi_key r) L) run w (clk 0 + lease) (clk 0)"
  have find: "find_row wi_key (wi_key r) (items L) = Some r" by (rule find_item_keyed [OF inv r(1)])
  have ins: "insert_attempt ?a L = Inr (L\<lparr>attempts := attempts L @ [?a]\<rparr>)"
    using fresh_attempt [OF assms(1) inv r(1) aid] r(1)
    by (simp add: insert_attempt_def has_key_iff)
  obtain us vs where L: "items L = us @ r # vs" using r(1) by (meson split_list)
  then have "wi_key r \<notin> wi_key ` set us" and "wi_key r \<notin> wi_key ` set vs"
    using inv_keyed [OF inv] by (simp_all add: keyed_def)
  then have no: "wi_key x \<noteq> wi_key r" if "x \<in> set us \<union> set vs" for x
    using that by (metis Un_iff imageI)
  have "filter (\<lambda>x. wi_key x = wi_key r \<and> wi_state x = PENDING) us = []"
    and "filter (\<lambda>x. wi_key x = wi_key r \<and> wi_state x = PENDING) vs = []"
    using no by (auto simp: filter_empty_conv)
  then have "length (filter (\<lambda>x. wi_key x = wi_key r \<and> wi_state x = PENDING) (items L)) = 1"
    using r(2) by (simp add: L)
  then show ?thesis
    using find r(2) aid ins by (simp add: claim_def Let_def set_state_def)
qed

text \<open>An item with an attempt in progress cannot be claimed.\<close>

lemma live_not_claimed:
  assumes inv: "ledger_inv sha fr L" and b: "b \<in> set (attempts L)" "in_progress (at_state b)"
  shows "claim sha fr (at_work_key b) w lease run clk L = Inr (None, L)"
proof -
  obtain r where r: "r \<in> set (items L)" "wi_key r = at_work_key b"
    using inv b(1) by (auto simp: ledger_inv_def)
  have "in_progress (wi_state r)"
    using item_ok_live [OF item_ok_at [OF inv r(1)], of b] b r(2) by (simp add: attempts_of_def)
  with find_item_keyed [OF inv r(1)] r(2) show ?thesis by (auto simp: claim_def)
qed

text \<open>
  C10. Claims exclude each other: with a collision-free digest a claim of an item succeeds exactly when the item
  is PENDING, and then opens an attempt that is CLAIMED by the worker for the lease asked for. From there on,
  after any further operations in which \<open>fail\<close> is called for attempts in progress only, as long as that attempt
  is still in progress every claim of the item returns nothing and changes nothing.
\<close>

theorem claim_exclusive:
  assumes "inj sha" and "history sha fr L" and "r \<in> set (items L)"
  shows "(wi_state r = PENDING \<longleftrightarrow>
        (\<exists>a L'. claim sha fr (wi_key r) w lease run clk L = Inr (Some a, L')))
    \<and> (\<forall>a L'. claim sha fr (wi_key r) w lease run clk L = Inr (Some a, L') \<longrightarrow>
         a \<in> set (attempts L') \<and> at_work_key a = wi_key r
         \<and> at_state a = CLAIMED \<and> at_worker_id a = w \<and> at_lease_expires_at a = Some (clk 0 + lease)
         \<and> (\<forall>M b. (ledger_step sha fr)\<^sup>*\<^sup>* L' M \<and> b \<in> set (attempts M) \<and> at_id b = at_id a
               \<and> in_progress (at_state b) \<longrightarrow>
             claim sha fr (wi_key r) w' lease' run' clk' M = Inr (None, M)))"
proof -
  have inv: "ledger_inv sha fr L" by (rule history_inv [OF assms(2)])
  have find: "find_row wi_key (wi_key r) (items L) = Some r" by (rule find_item_keyed [OF inv assms(3)])
  have "wi_state r = PENDING" if "claim sha fr (wi_key r) w lease run clk L = Inr (Some a, L')" for a L'
    using that find by (simp add: claim_def split: if_splits)
  moreover have "a \<in> set (attempts L') \<and> at_work_key a = wi_key r
         \<and> at_state a = CLAIMED \<and> at_worker_id a = w \<and> at_lease_expires_at a = Some (clk 0 + lease)
         \<and> (\<forall>M b. (ledger_step sha fr)\<^sup>*\<^sup>* L' M \<and> b \<in> set (attempts M) \<and> at_id b = at_id a
               \<and> in_progress (at_state b) \<longrightarrow>
             claim sha fr (wi_key r) w' lease' run' clk' M = Inr (None, M))"
    if claim: "claim sha fr (wi_key r) w lease run clk L = Inr (Some a, L')" for a L'
  proof -
    have a: "a \<in> set (attempts L')" "at_work_key a = wi_key r"
      using claim_attempts [OF inv claim] claim_items(2) [OF inv claim] by (auto simp: new_attempt_def)
    have hist: "history sha fr L'" using assms(2) ledger_step.claim [OF claim] by (rule rtranclp.rtrancl_into_rtrancl)
    have "claim sha fr (wi_key r) w' lease' run' clk' M = Inr (None, M)"
      if steps: "(ledger_step sha fr)\<^sup>*\<^sup>* L' M" and b: "b \<in> set (attempts M)" "at_id b = at_id a" "in_progress (at_state b)" for M b
    proof -
      have inv_M: "ledger_inv sha fr M" using hist steps by (intro history_inv) (rule rtranclp_trans)
      have "attempt_id_of sha fr (at_work_key b) (at_ordinal b) = Inr (at_id a)"
        using inv_M b(1,2) by (auto simp: ledger_inv_def)
      moreover have "attempt_id_of sha fr (at_work_key a) (at_ordinal a) = Inr (at_id a)"
        using history_inv [OF hist] a(1) by (auto simp: ledger_inv_def)
      ultimately have "at_work_key b = wi_key r" using attempt_id_inject [OF assms(1)] a(2) by simp
      with live_not_claimed [OF inv_M b(1,3)] show ?thesis by simp
    qed
    with a claim_items(2) [OF inv claim] show ?thesis by (auto simp: new_attempt_def)
  qed
  ultimately show ?thesis using claim_pending [OF assms(1) inv assms(3)] by blast
qed

subsection \<open>Expired leases\<close>

text \<open>
  C11. Reclaiming stale leases always succeeds and leaves no expired lease behind: exactly the attempts whose
  lease expired end, as FAILED_UNKNOWN. The item of such an attempt is frozen at FAILED_UNKNOWN if it has a side
  effect; otherwise it is reopened, counted and reported while retries remain, and FAILED_FINAL when they are
  used up. No other item changes or is reported.
\<close>

theorem reclaim_stale_safe:
  assumes "history sha fr L" and "now = (case now_arg of None \<Rightarrow> clk 0 | Some t \<Rightarrow> t)"
  shows "\<exists>ks L'. reclaim_stale now_arg clk L = Inr (ks, L') \<and> stale_attempts now L' = []
    \<and> attempts L' = map (\<lambda>a. if a \<in> set (stale_attempts now L) then expire_attempt now a else a) (attempts L)
    \<and> (\<forall>r \<in> set (items L). \<exists>r' \<in> set (items L'). wi_key r' = wi_key r
         \<and> (if wi_key r \<notin> at_work_key ` set (stale_attempts now L) then r' = r
            else if wi_side_effecting r then wi_state r' = FAILED_UNKNOWN \<and> wi_retry_count r' = wi_retry_count r
            else if wi_retry_count r < wi_max_retries r
            then wi_state r' = PENDING \<and> wi_retry_count r' = wi_retry_count r + 1
            else wi_state r' = FAILED_FINAL \<and> wi_retry_count r' = wi_retry_count r)
         \<and> (wi_key r \<in> set ks \<longleftrightarrow> wi_key r \<in> at_work_key ` set (stale_attempts now L)
              \<and> \<not> wi_side_effecting r \<and> wi_retry_count r < wi_max_retries r))"
proof -
  have inv: "ledger_inv sha fr L" by (rule history_inv [OF assms(1)])
  let ?S = "at_work_key ` set (stale_attempts now L)"
  obtain ks L' where L': "reclaim_stale now_arg clk L = Inr (ks, L')"
      "items L' = update_rows (\<lambda>r. wi_key r \<in> ?S) (reclaim_item now) (items L)"
      "attempts L' = update_rows (\<lambda>b. at_id b \<in> at_id ` set (stale_attempts now L))
          (expire_attempt now) (attempts L)"
      "set ks = {wi_key r | r. r \<in> set (items L) \<and> wi_key r \<in> ?S
          \<and> wi_state (reclaim_item now r) = PENDING}"
    using reclaim_stale_closed [where now = now and now_arg = now_arg and clk = clk, OF inv assms(2)]
    by blast
  have "stale_attempts now L' = []"
  proof -
    have "a \<in> set (stale_attempts now L) \<or> at_id a \<notin> at_id ` set (stale_attempts now L)
        \<and> \<not> (in_progress (at_state a)
             \<and> (case at_lease_expires_at a of None \<Rightarrow> False | Some t \<Rightarrow> t < now))"
      if "a \<in> set (attempts L)" for a
      using that inv by (auto simp: stale_attempts_def ledger_inv_def keyed_def distinct_map dest: inj_onD)
    then show ?thesis
      by (auto simp: stale_attempts_def [of now L'] filter_empty_conv L'(3) set_update_rows)
  qed
  moreover have "attempts L' = map (\<lambda>a. if a \<in> set (stale_attempts now L) then expire_attempt now a else a) (attempts L)"
  proof -
    have "at_id b \<in> at_id ` set (stale_attempts now L) \<longleftrightarrow> b \<in> set (stale_attempts now L)" if "b \<in> set (attempts L)" for b
      using that inv by (auto simp: stale_attempts_def ledger_inv_def keyed_def distinct_map dest: inj_onD)
    then show ?thesis by (auto simp: L'(3) update_rows_def)
  qed
  moreover have "\<exists>r' \<in> set (items L'). wi_key r' = wi_key r
         \<and> (if wi_key r \<notin> ?S then r' = r
            else if wi_side_effecting r then wi_state r' = FAILED_UNKNOWN \<and> wi_retry_count r' = wi_retry_count r
            else if wi_retry_count r < wi_max_retries r
            then wi_state r' = PENDING \<and> wi_retry_count r' = wi_retry_count r + 1
            else wi_state r' = FAILED_FINAL \<and> wi_retry_count r' = wi_retry_count r)
         \<and> (wi_key r \<in> set ks \<longleftrightarrow> wi_key r \<in> ?S \<and> \<not> wi_side_effecting r \<and> wi_retry_count r < wi_max_retries r)"
    if r: "r \<in> set (items L)" for r
  proof (rule bexI [of _ "if wi_key r \<in> ?S then reclaim_item now r else r"])
    have "x = r" if "x \<in> set (items L)" "wi_key x = wi_key r" for x
      using inv_keyed [OF inv] that r by (auto simp: keyed_def distinct_map dest: inj_onD)
    then have "wi_key r \<in> set ks \<longleftrightarrow> wi_key r \<in> ?S \<and> wi_state (reclaim_item now r) = PENDING"
      using r by (auto simp: L'(4))
    then have ks: "wi_key r \<in> set ks \<longleftrightarrow> wi_key r \<in> ?S \<and> \<not> wi_side_effecting r \<and> wi_retry_count r < wi_max_retries r"
      by (auto simp: reclaim_item_def)
    show "wi_key (if wi_key r \<in> ?S then reclaim_item now r else r) = wi_key r
         \<and> (if wi_key r \<notin> ?S then (if wi_key r \<in> ?S then reclaim_item now r else r) = r
            else if wi_side_effecting r then wi_state (if wi_key r \<in> ?S then reclaim_item now r else r) = FAILED_UNKNOWN
              \<and> wi_retry_count (if wi_key r \<in> ?S then reclaim_item now r else r) = wi_retry_count r
            else if wi_retry_count r < wi_max_retries r
            then wi_state (if wi_key r \<in> ?S then reclaim_item now r else r) = PENDING
              \<and> wi_retry_count (if wi_key r \<in> ?S then reclaim_item now r else r) = wi_retry_count r + 1
            else wi_state (if wi_key r \<in> ?S then reclaim_item now r else r) = FAILED_FINAL
              \<and> wi_retry_count (if wi_key r \<in> ?S then reclaim_item now r else r) = wi_retry_count r)
         \<and> (wi_key r \<in> set ks \<longleftrightarrow> wi_key r \<in> ?S \<and> \<not> wi_side_effecting r \<and> wi_retry_count r < wi_max_retries r)"
      unfolding ks by (auto simp: reclaim_item_def)
  qed (use r in \<open>auto simp: L'(2) set_update_rows\<close>)
  ultimately show ?thesis using L'(1) by blast
qed

subsection \<open>Failing an attempt that is over\<close>

text \<open>
   \<open>fail\<close> does not look at the state of the attempt or of its item: called for the attempt
  whose commit was accepted, while retries remain, it succeeds, sends the COMMITTED item back to
  PENDING and takes its result reference away, so the item can be claimed again.
\<close>

theorem fail_reopens_committed:
  assumes "history sha fr L" and "r \<in> set (items L)" and "wi_state r = COMMITTED"
    and "wi_retry_count r < wi_max_retries r"
    and "a \<in> set (attempts L)" and "at_work_key a = wi_key r" and "at_state a = COMMITTED"
  shows "\<exists>L'. fail (at_id a) FAILED_RETRYABLE e reason ref clk L = Inr (PENDING, L')
    \<and> map_option wi_state (get_work_item (wi_key r) L') = Some PENDING
    \<and> committed_ref (wi_key r) L' = None"
proof -
  have inv: "ledger_inv sha fr L" by (rule history_inv [OF assms(1)])
  have find: "find_row wi_key (wi_key r) (items L) = Some r" by (rule find_item_keyed [OF inv assms(2)])
  have keyed: "keyed at_id (attempts L)" using inv by (simp add: ledger_inv_def)
  have req: "require_attempt (at_id a) L = Inr a"
    by (simp add: require_attempt_def find_row_keyed [OF keyed assms(5)])
  let ?f = "end_failed FAILED_RETRYABLE e ref (clk 0)"
  let ?L' = "log_transition (wi_key r) (Some (at_id a)) (wi_state r) PENDING
      (if reason = [] then ''retry'' else reason) (clk 2)
      (update_item (wi_key r) (\<lambda>r. r\<lparr>wi_state := PENDING, wi_retry_count := wi_retry_count r + 1,
         wi_updated_at := clk 1\<rparr>) (update_attempt (at_id a) ?f L))"
  have "fail (at_id a) FAILED_RETRYABLE e reason ref clk L = Inr (PENDING, ?L')"
    using req find assms(4,6) by (simp add: fail_def Let_def)
  moreover have "map_option wi_state (get_work_item (wi_key r) ?L') = Some PENDING"
    by (simp add: get_work_item_def find_row_update find)
  moreover have "committed_ref (wi_key r) ?L' = None"
  proof -
    have "\<not> (at_work_key b = wi_key r \<and> at_state b = COMMITTED)"
      if "b \<in> set (update_rows (\<lambda>b. at_id b = at_id a) ?f (attempts L))" for b
    proof
      assume b: "at_work_key b = wi_key r \<and> at_state b = COMMITTED"
      then have "b \<in> set (attempts L)" "at_id b \<noteq> at_id a"
        using that by (auto simp: set_update_rows)
      with live_unique [OF inv _ _ assms(5)] b assms(6,7) show False by auto
    qed
    then have "List.find (\<lambda>b. at_work_key b = wi_key r \<and> at_state b = COMMITTED)
        (update_rows (\<lambda>b. at_id b = at_id a) ?f (attempts L)) = None"
      by (auto simp: find_None_iff)
    then show ?thesis by (simp add: committed_ref_def)
  qed
  ultimately show ?thesis by blast
qed

subsection \<open>Logical identity\<close>

lemma id_coordinates: "id_fields (coordinate_fields c)"
  by (simp add: id_fields_def coordinate_fields_def)

lemma work_key_total: "\<exists>k. work_key sha fr c ep = Inr k"
  unfolding work_key_def by (rule derive_id_total [OF id_coordinates]) auto

lemma work_key_inject:
  assumes "inj sha" and "work_key sha fr c ep = Inr k" and "work_key sha fr d ep' = Inr k"
  shows "c = d"
proof -
  have "map (normal \<circ> snd) (coordinate_fields c) = map (normal \<circ> snd) (coordinate_fields d)"
    using derive_id_same_keys [OF assms(1) id_coordinates id_coordinates _
        assms(2,3) [unfolded work_key_def]]
    by (simp add: coordinate_fields_def)
  then show ?thesis by (simp add: coordinate_fields_def)
qed

lemma ensure_Inr:
  assumes "ensure_work_item sha fr dm c ep se mr clk L = Inr (k, L')"
  shows "work_key sha fr c ep = Inr k
    \<and> (\<exists>r. wi_key r = k \<and> L' = L\<lparr>items := insert_ignore wi_key r (items L)\<rparr>)"
proof (cases "work_key sha fr c ep")
  case (Inr key)
  with assms show ?thesis
    by (auto simp: ensure_work_item_def intro: exI [of _ "\<lparr>wi_key = key, wi_coord = c,
      wi_side_effecting = se, wi_max_retries = (case mr of None \<Rightarrow> dm | Some m \<Rightarrow> m),
      wi_retry_count = 0, wi_state = PENDING, wi_created_at = clk 0, wi_updated_at = clk 0\<rparr>"])
qed (use assms in \<open>simp add: ensure_work_item_def\<close>)

text \<open>
   Registering work is idempotent: two registrations get the same work item exactly when they
  name the same coordinates (whatever the engine epoch, and however long the restart between them
  took); the second one changes nothing then, and otherwise adds one PENDING item beside the first.
\<close>

theorem ensure_work_item_idempotent:
  assumes "inj sha"
    and "ensure_work_item sha fr dm c ep se mr clk L = Inr (k, L1)"
    and "ensure_work_item sha fr dm' c' ep' se' mr' clk' L1 = Inr (k', L2)"
  shows "(k = k' \<longleftrightarrow> c = c') \<and> (c = c' \<longrightarrow> L2 = L1)
    \<and> (c \<noteq> c' \<longrightarrow> get_work_item k L2 = get_work_item k L1)
    \<and> get_work_item k' L2 \<noteq> None"
proof -
  obtain r where k: "work_key sha fr c ep = Inr k" and r: "wi_key r = k"
    and L1: "L1 = L\<lparr>items := insert_ignore wi_key r (items L)\<rparr>"
    using ensure_Inr [OF assms(2)] by blast
  obtain r' where k': "work_key sha fr c' ep' = Inr k'" and r': "wi_key r' = k'"
    and L2: "L2 = L1\<lparr>items := insert_ignore wi_key r' (items L1)\<rparr>"
    using ensure_Inr [OF assms(3)] by blast
  have same: "k = k' \<longleftrightarrow> c = c'"
    using work_key_inject [OF assms(1) k, of c'] k k' by (auto simp: work_key_def)
  have has: "has_key wi_key k (items L1)"
    using r by (simp add: L1 insert_ignore_def has_key_def)
  have old: "get_work_item j L2 = get_work_item j L1" if "j \<noteq> k'" for j
    using that r' by (simp add: L2 get_work_item_def insert_ignore_def find_row_append split: option.splits)
  have new: "get_work_item k' L2 \<noteq> None"
    using r' by (auto simp: L2 get_work_item_def insert_ignore_def find_row_append has_key_find
        split: option.splits)
  have "L2 = L1" if "k = k'"
    using has that r' by (simp add: L2 insert_ignore_def)
  with same old new show ?thesis by blast
qed

subsection \<open>A concrete history\<close>

text \<open>One item is registered, claimed, advanced and committed; every digest is empty.\<close>

definition sample_coordinates :: coordinates where
  "sample_coordinates = \<lparr>co_protocol_sha = ''p'', co_split = ''dev'', co_phase_id = ''f'',
     co_task_id = ''t'', co_arm_id = ''P0'', co_variant_id = ''v'', co_replicate_id = ''0'',
     co_checkpoint_hash = ''-'', co_stage_version = ''v1''\<rparr>"

definition stage1 :: ledger where
  "stage1 = snd (projr (ensure_work_item (\<lambda>_. []) (\<lambda>_. []) 3 sample_coordinates [] True None
     (\<lambda>_. 0) empty_ledger))"

definition stage2 :: ledger where
  "stage2 = snd (projr (claim (\<lambda>_. []) (\<lambda>_. []) [] ''w'' 5 [] (\<lambda>_. 0) stage1))"

definition stage3 :: ledger where
  "stage3 = projr (advance [] VALIDATED [] (\<lambda>_. 1)
     (projr (advance [] MATERIALIZED [] (\<lambda>_. 1) stage2)))"

definition stage4 :: ledger where
  "stage4 = projr (commit [] ''ref'' [] (\<lambda>_. 2) stage3)"

lemma not_isl_Inr: "\<not> isl x \<Longrightarrow> x = Inr (projr x)"
  by (cases x) simp_all

lemma not_isl_pair: "\<not> isl x \<Longrightarrow> x = Inr (fst (projr x), snd (projr x))"
  by (cases x) simp_all

lemma stage1_history: "history (\<lambda>_. []) (\<lambda>_. []) stage1"
proof -
  have "\<not> isl (ensure_work_item (\<lambda>_. []) (\<lambda>_. []) 3 sample_coordinates [] True None
     (\<lambda>_. 0) empty_ledger)"
    by code_simp
  from ledger_step.ensure [OF not_isl_pair [OF this]] show ?thesis by (simp add: stage1_def)
qed

lemma stage2_history: "history (\<lambda>_. []) (\<lambda>_. []) stage2"
proof -
  have "\<not> isl (claim (\<lambda>_. []) (\<lambda>_. []) [] ''w'' 5 [] (\<lambda>_. 0) stage1)"
    by code_simp
  from stage1_history ledger_step.claim [OF not_isl_pair [OF this]] show ?thesis
    unfolding stage2_def by (rule rtranclp.rtrancl_into_rtrancl)
qed

lemma stage4_history: "history (\<lambda>_. []) (\<lambda>_. []) stage4"
proof -
  have "\<not> isl (advance [] MATERIALIZED [] (\<lambda>_. 1) stage2)" by code_simp
  from stage2_history ledger_step.advance [OF not_isl_Inr [OF this]]
  have 1: "history (\<lambda>_. []) (\<lambda>_. []) (projr (advance [] MATERIALIZED [] (\<lambda>_. 1) stage2))"
    by (rule rtranclp.rtrancl_into_rtrancl)
  have "\<not> isl (advance [] VALIDATED [] (\<lambda>_. 1) (projr (advance [] MATERIALIZED [] (\<lambda>_. 1) stage2)))"
    by code_simp
  from 1 ledger_step.advance [OF not_isl_Inr [OF this]]
  have 2: "history (\<lambda>_. []) (\<lambda>_. []) stage3"
    unfolding stage3_def by (rule rtranclp.rtrancl_into_rtrancl)
  have "\<not> isl (commit [] ''ref'' [] (\<lambda>_. 2) stage3)" by code_simp
  from 2 ledger_step.commit [OF not_isl_Inr [OF this]] show ?thesis
    unfolding stage4_def by (rule rtranclp.rtrancl_into_rtrancl)
qed

lemma stage_items:
  "list_ex (\<lambda>r. wi_key r = [] \<and> wi_state r = CLAIMED) (items stage2)"
  "list_ex (\<lambda>r. wi_key r = [] \<and> wi_state r = COMMITTED \<and> wi_max_retries r = 3 \<and> wi_retry_count r = 0)
     (items stage4)"
  "list_ex (\<lambda>a. at_id a = [] \<and> at_work_key a = [] \<and> at_state a = COMMITTED) (attempts stage4)"
  by code_simp+

theorem single_live_and_committed_attempt_witness:
  "\<exists>a ref. filter (\<lambda>a. at_state a = COMMITTED) (attempts_of [] stage4) = [a]
     \<and> at_result_ref a = Some ref"
  using single_live_and_committed_attempt [OF stage4_history] stage_items(2)
  by (fastforce simp: list_ex_iff)

theorem claim_exclusive_witness:
  "\<exists>key L a L'. claim (\<lambda>s. s) (\<lambda>_. []) key ''w'' 5 [] (\<lambda>_. 0) L = Inr (Some a, L')
     \<and> claim (\<lambda>s. s) (\<lambda>_. []) key ''x'' 5 [] (\<lambda>_. 1) (heartbeat (at_id a) 9 (\<lambda>_. 3) L')
         = Inr (None, heartbeat (at_id a) 9 (\<lambda>_. 3) L')"
proof -
  have inj: "inj (\<lambda>s :: string. s)" by (simp add: inj_def)
  obtain k where k: "work_key (\<lambda>s. s) (\<lambda>_. []) sample_coordinates [] = Inr k"
    using work_key_total by blast
  define r where "r = \<lparr>wi_key = k, wi_coord = sample_coordinates, wi_side_effecting = True,
      wi_max_retries = 3, wi_retry_count = 0, wi_state = PENDING, wi_created_at = 0, wi_updated_at = 0\<rparr>"
  let ?L = "empty_ledger\<lparr>items := [r]\<rparr>"
  have "ensure_work_item (\<lambda>s. s) (\<lambda>_. []) 3 sample_coordinates [] True None (\<lambda>_. 0) empty_ledger
      = Inr (k, ?L)"
    by (simp add: ensure_work_item_def k insert_ignore_def has_key_def empty_ledger_def r_def)
  then have hist: "history (\<lambda>s. s) (\<lambda>_. []) ?L"
    by (intro r_into_rtranclp ledger_step.ensure)
  have r: "r \<in> set (items ?L)" "wi_state r = PENDING" by (simp_all add: r_def)
  note both = claim_exclusive [OF inj hist r(1), of "''w''" 5 "[]" "\<lambda>_. 0" "''x''" 5 "[]" "\<lambda>_. 1"]
  obtain a L' where won: "claim (\<lambda>s. s) (\<lambda>_. []) (wi_key r) ''w'' 5 [] (\<lambda>_. 0) ?L = Inr (Some a, L')"
    using both [THEN conjunct1] r(2) by blast
  let ?M = "heartbeat (at_id a) 9 (\<lambda>_. 3) L'"
  have a: "a \<in> set (attempts L')" "at_state a = CLAIMED" using both [THEN conjunct2, rule_format, OF won] by simp_all
  have b: "a\<lparr>at_lease_expires_at := Some 12\<rparr> \<in> set (attempts ?M)" "at_id (a\<lparr>at_lease_expires_at := Some 12\<rparr>) = at_id a"
    "in_progress (at_state (a\<lparr>at_lease_expires_at := Some 12\<rparr>))"
    using a by (auto simp: heartbeat_def set_update_rows)
  have "(ledger_step (\<lambda>s. s) (\<lambda>_. []))\<^sup>*\<^sup>* L' ?M" by (rule r_into_rtranclp) (rule ledger_step.heartbeat)
  with both [THEN conjunct2, rule_format, OF won, THEN conjunct2, THEN conjunct2, THEN conjunct2, THEN conjunct2,
      THEN conjunct2, rule_format, OF conjI, OF _ conjI, OF _ b(1) conjI, OF _ b(2,3)]
  have "claim (\<lambda>s. s) (\<lambda>_. []) (wi_key r) ''x'' 5 [] (\<lambda>_. 1) ?M = Inr (None, ?M)" by simp
  with won show ?thesis by blast
qed

theorem reclaim_stale_safe_witness:
  "\<exists>ks L'. reclaim_stale (Some 9) (\<lambda>_. 0) stage2 = Inr (ks, L') \<and> stale_attempts 9 L' = []
     \<and> attempts L' = map (\<lambda>a. if a \<in> set (stale_attempts 9 stage2) then expire_attempt 9 a else a) (attempts stage2)"
  using reclaim_stale_safe [OF stage2_history, where now = 9 and now_arg = "Some 9"
      and clk = "\<lambda>_. 0"] by auto

theorem fail_reopens_committed_witness:
  "\<exists>L'. fail [] FAILED_RETRYABLE [] [] [] (\<lambda>_. 3) stage4 = Inr (PENDING, L')
     \<and> committed_ref [] L' = None"
proof -
  obtain r where r: "r \<in> set (items stage4)" "wi_state r = COMMITTED"
    "wi_retry_count r < wi_max_retries r" "wi_key r = []"
    using stage_items(2) by (auto simp: list_ex_iff)
  obtain a where a: "a \<in> set (attempts stage4)" "at_work_key a = wi_key r" "at_state a = COMMITTED"
    "at_id a = []"
    using stage_items(3) r(4) by (auto simp: list_ex_iff)
  show ?thesis
    using fail_reopens_committed [OF stage4_history r(1-3) a(1-3), of "[]" "[]" "[]" "\<lambda>_. 3"]
    by (auto simp: a(4) r(4))
qed

theorem ensure_work_item_idempotent_witness:
  "\<exists>k L. ensure_work_item (\<lambda>s. s) (\<lambda>_. []) 3 sample_coordinates [] True None (\<lambda>_. 0) empty_ledger
       = Inr (k, L)
     \<and> ensure_work_item (\<lambda>s. s) (\<lambda>_. []) 3 sample_coordinates ''epoch2'' True None (\<lambda>_. 7) L = Inr (k, L)"
proof -
  have inj: "inj (\<lambda>s :: string. s)" by (simp add: inj_def)
  obtain k L where 1: "ensure_work_item (\<lambda>s. s) (\<lambda>_. []) 3 sample_coordinates [] True None (\<lambda>_. 0)
      empty_ledger = Inr (k, L)"
    using work_key_total [of "\<lambda>s. s" "\<lambda>_. []" sample_coordinates "[]"]
    by (auto simp: ensure_work_item_def)
  obtain k' L' where 2: "ensure_work_item (\<lambda>s. s) (\<lambda>_. []) 3 sample_coordinates ''epoch2'' True None
      (\<lambda>_. 7) L = Inr (k', L')"
    using work_key_total [of "\<lambda>s. s" "\<lambda>_. []" sample_coordinates "''epoch2''"]
    by (auto simp: ensure_work_item_def)
  from ensure_work_item_idempotent [OF inj 1 2] 1 2 show ?thesis by blast
qed

end
