(* ===== verification/Phases.thy ===== *)
theory Phases
  imports Hashing
begin

text \<open>
  The campaign phases: the pure machine of \<^verbatim>\<open>src/src/shapeflow/experiment/state_machine.py\<close>
  and its durable form in \<^verbatim>\<open>src/src/shapeflow/campaign/phases.py\<close>. The store is the pair of
  v2 tables; a row keeps its \<open>detail_json\<close> as the value it encodes, and \<open>now\<close> arguments are
  readings of the ledger's clock. Migration from the v1 tables is not modelled.
\<close>

subsection \<open>The machine\<close>

datatype phase =
    NEW
  | DOCTOR_PASSED
  | ACQUISITION_COMPLETE
  | SNAPSHOTS_FROZEN
  | P0_PARITY_PASSED
  | GPU_SMOKE_PASSED
  | SCREEN_RUNNING
  | SCREEN_COMPLETE
  | MINI_ITT_RUNNING
  | MINI_ITT_COMPLETE
  | POLICY_FROZEN
  | HOLDOUT_RUNNING
  | HOLDOUT_COMPLETE
  | LIVE_VALIDITY_OPTIONAL
  | CHARACTERIZE_NO_GO_RUNNING
  | CHARACTERIZE_NO_GO_COMPLETE
  | REPORT_COMPLETE
  | BLOCKED
  | COMPLETE_NO_GO
  | BUDGET_EXHAUSTED
  | ABORTED_SAFELY

definition terminal_phases :: "phase list" where
  "terminal_phases = [REPORT_COMPLETE, BLOCKED, COMPLETE_NO_GO, BUDGET_EXHAUSTED, ABORTED_SAFELY]"

definition anytime_failures :: "phase list" where
  "anytime_failures = [BLOCKED, BUDGET_EXHAUSTED, ABORTED_SAFELY]"

fun legal_phases :: "phase \<Rightarrow> phase list" where
  "legal_phases NEW = [DOCTOR_PASSED]"
| "legal_phases DOCTOR_PASSED = [ACQUISITION_COMPLETE]"
| "legal_phases ACQUISITION_COMPLETE = [SNAPSHOTS_FROZEN]"
| "legal_phases SNAPSHOTS_FROZEN = [P0_PARITY_PASSED]"
| "legal_phases P0_PARITY_PASSED = [GPU_SMOKE_PASSED]"
| "legal_phases GPU_SMOKE_PASSED = [SCREEN_RUNNING]"
| "legal_phases SCREEN_RUNNING = [SCREEN_COMPLETE]"
| "legal_phases SCREEN_COMPLETE = [MINI_ITT_RUNNING, CHARACTERIZE_NO_GO_RUNNING]"
| "legal_phases MINI_ITT_RUNNING = [MINI_ITT_COMPLETE]"
| "legal_phases MINI_ITT_COMPLETE = [POLICY_FROZEN, CHARACTERIZE_NO_GO_RUNNING]"
| "legal_phases POLICY_FROZEN = [HOLDOUT_RUNNING]"
| "legal_phases HOLDOUT_RUNNING = [HOLDOUT_COMPLETE]"
| "legal_phases HOLDOUT_COMPLETE = [LIVE_VALIDITY_OPTIONAL, REPORT_COMPLETE]"
| "legal_phases LIVE_VALIDITY_OPTIONAL = [REPORT_COMPLETE]"
| "legal_phases CHARACTERIZE_NO_GO_RUNNING = [CHARACTERIZE_NO_GO_COMPLETE]"
| "legal_phases CHARACTERIZE_NO_GO_COMPLETE = [REPORT_COMPLETE]"
| "legal_phases REPORT_COMPLETE = [COMPLETE_NO_GO]"
| "legal_phases _ = []"

definition next_phases :: "phase \<Rightarrow> phase list" where
  "next_phases p =
     (if p \<in> set terminal_phases \<and> p \<noteq> REPORT_COMPLETE then []
      else if p \<in> set terminal_phases then legal_phases p
      else legal_phases p @ anytime_failures)"

definition can_transition :: "phase \<Rightarrow> phase \<Rightarrow> bool" where
  "can_transition frm to \<longleftrightarrow> to \<in> set (next_phases frm)"

record phase_machine =
  pm_phase :: phase
  pm_history :: "phase list"

definition new_machine :: "phase \<Rightarrow> phase_machine" where
  "new_machine p = \<lparr>pm_phase = p, pm_history = [p]\<rparr>"

datatype phase_error = IllegalPhaseTransition phase phase | PhaseError phase | DetailError canon_error

definition is_terminal :: "phase_machine \<Rightarrow> bool" where
  "is_terminal m \<longleftrightarrow> pm_phase m \<in> set terminal_phases \<and> pm_phase m \<noteq> REPORT_COMPLETE"

definition pm_transition :: "phase \<Rightarrow> phase_machine \<Rightarrow> phase_error + phase_machine" where
  "pm_transition to m =
     (if \<not> can_transition (pm_phase m) to then Inl (IllegalPhaseTransition (pm_phase m) to)
      else Inr \<lparr>pm_phase = to, pm_history = pm_history m @ [to]\<rparr>)"

text \<open>A run of the machine: the transitions it is asked for, up to the first refusal.\<close>

definition pm_run :: "phase list \<Rightarrow> phase_machine \<Rightarrow> phase_error + phase_machine" where
  "pm_run = rfold pm_transition"

subsection \<open>Paths of the machine\<close>

text \<open>How far along a phase is; every edge goes strictly forward.\<close>

fun depth :: "phase \<Rightarrow> nat" where
  "depth NEW = 0"
| "depth DOCTOR_PASSED = 1"
| "depth ACQUISITION_COMPLETE = 2"
| "depth SNAPSHOTS_FROZEN = 3"
| "depth P0_PARITY_PASSED = 4"
| "depth GPU_SMOKE_PASSED = 5"
| "depth SCREEN_RUNNING = 6"
| "depth SCREEN_COMPLETE = 7"
| "depth MINI_ITT_RUNNING = 8"
| "depth MINI_ITT_COMPLETE = 9"
| "depth POLICY_FROZEN = 10"
| "depth HOLDOUT_RUNNING = 11"
| "depth HOLDOUT_COMPLETE = 12"
| "depth LIVE_VALIDITY_OPTIONAL = 13"
| "depth CHARACTERIZE_NO_GO_RUNNING = 12"
| "depth CHARACTERIZE_NO_GO_COMPLETE = 13"
| "depth REPORT_COMPLETE = 14"
| "depth BLOCKED = 15"
| "depth COMPLETE_NO_GO = 15"
| "depth BUDGET_EXHAUSTED = 15"
| "depth ABORTED_SAFELY = 15"

lemma edge_deeper: "can_transition p q \<Longrightarrow> depth p < depth q"
  by (cases p) (auto simp: can_transition_def next_phases_def terminal_phases_def anytime_failures_def)

lemma depth_le: "depth p \<le> 15"
  by (cases p) simp_all

fun path :: "phase \<Rightarrow> phase list \<Rightarrow> bool" where
  "path p [] \<longleftrightarrow> True"
| "path p (q # qs) \<longleftrightarrow> can_transition p q \<and> path q qs"

lemma pm_run_path:
  "pm_run ts m = Inr m' \<longleftrightarrow> path (pm_phase m) ts
     \<and> m' = \<lparr>pm_phase = last (pm_phase m # ts), pm_history = pm_history m @ ts\<rparr>"
proof (induction ts arbitrary: m)
  case (Cons t ts)
  then show ?case by (auto simp: pm_run_def pm_transition_def)
qed (auto simp: pm_run_def)

lemma path_sorted: "path p ts \<Longrightarrow> sorted_wrt (<) (map depth (p # ts))"
proof (induction ts arbitrary: p)
  case (Cons q qs)
  have "depth p < depth q" using Cons.prems by (simp add: edge_deeper)
  with Cons show ?case by fastforce
qed simp

lemma path_length:
  assumes "path p ts"
  shows "distinct (p # ts) \<and> length (p # ts) \<le> 16"
proof -
  have "sorted_wrt (<) (map depth (p # ts))" by (rule path_sorted [OF assms])
  then have dist: "distinct (map depth (p # ts))" unfolding strict_sorted_iff by blast
  have "set (map depth (p # ts)) \<subseteq> {..15}" using depth_le by auto
  then have "card (set (map depth (p # ts))) \<le> card {..15 :: nat}" by (intro card_mono) auto
  then have "length (map depth (p # ts)) \<le> 16" unfolding distinct_card [OF dist] by simp
  moreover have "distinct (p # ts)" using dist unfolding distinct_map by blast
  ultimately show ?thesis by simp
qed

text \<open>The only way into a phase of the spine is from the phase before it.\<close>

definition spine :: "phase list" where
  "spine = [NEW, DOCTOR_PASSED, ACQUISITION_COMPLETE, SNAPSHOTS_FROZEN, P0_PARITY_PASSED,
     GPU_SMOKE_PASSED, SCREEN_RUNNING, SCREEN_COMPLETE, MINI_ITT_RUNNING, MINI_ITT_COMPLETE,
     POLICY_FROZEN, HOLDOUT_RUNNING, HOLDOUT_COMPLETE]"

definition gates :: "phase \<Rightarrow> phase list" where
  "gates p = takeWhile (\<lambda>q. q \<noteq> p) spine"

lemma edge_into_spine:
  assumes "can_transition p q" and "q \<in> set spine"
  shows "p \<in> set spine \<and> gates q = gates p @ [p]"
  using assms
  by (cases p) (auto simp: can_transition_def next_phases_def terminal_phases_def
      anytime_failures_def spine_def gates_def)

lemma path_append: "path p (qs @ rs) \<longleftrightarrow> path p qs \<and> path (last (p # qs)) rs"
  by (induction qs arbitrary: p) auto

lemma path_gates:
  assumes "path NEW ts" and "last (NEW # ts) \<in> set spine"
  shows "NEW # ts = gates (last (NEW # ts)) @ [last (NEW # ts)]"
  using assms
proof (induction ts rule: rev_induct)
  case (snoc t ts)
  have edge: "can_transition (last (NEW # ts)) t" and ts: "path NEW ts"
    using snoc.prems(1) by (auto simp: path_append)
  have "t \<in> set spine" using snoc.prems(2) by simp
  from edge_into_spine [OF edge this] snoc.IH [OF ts] show ?case by simp
qed (simp add: gates_def spine_def)

text \<open>
  C12. The campaign cannot skip a gate and cannot go on for ever: whatever transitions are asked of a
  new machine, no phase is entered twice and at most 16 are entered, a dead end allows no further
  move, and on arrival at any phase of the way to the holdout the history is exactly the gates
  before that phase, in order.
\<close>

theorem phase_machine_gates:
  assumes "pm_run ts (new_machine NEW) = Inr m"
  shows "distinct (pm_history m) \<and> length (pm_history m) \<le> 16
    \<and> (is_terminal m \<longrightarrow> (\<forall>p. pm_transition p m = Inl (IllegalPhaseTransition (pm_phase m) p)))
    \<and> (pm_phase m \<in> set spine \<longrightarrow> pm_history m = gates (pm_phase m) @ [pm_phase m])"
proof -
  have path: "path NEW ts" and m: "m = \<lparr>pm_phase = last (NEW # ts), pm_history = NEW # ts\<rparr>"
    using assms by (auto simp: pm_run_path new_machine_def)
  have "pm_transition p m = Inl (IllegalPhaseTransition (pm_phase m) p)" if "is_terminal m" for p
    using that by (auto simp: pm_transition_def is_terminal_def can_transition_def next_phases_def)
  with path_length [OF path] path_gates [OF path] m show ?thesis by simp
qed

theorem phase_machine_gates_witness:
  "\<exists>m. pm_run [DOCTOR_PASSED, ACQUISITION_COMPLETE] (new_machine NEW) = Inr m
     \<and> pm_history m = [NEW, DOCTOR_PASSED, ACQUISITION_COMPLETE]"
proof -
  have run: "pm_run [DOCTOR_PASSED, ACQUISITION_COMPLETE] (new_machine NEW)
      = Inr \<lparr>pm_phase = ACQUISITION_COMPLETE, pm_history = [NEW, DOCTOR_PASSED, ACQUISITION_COMPLETE]\<rparr>"
    by code_simp
  from phase_machine_gates [OF run] run show ?thesis by simp
qed

subsection \<open>The durable store\<close>

datatype phase_state = RUNNING | COMPLETE | FAILED

record phase_row =
  pr_protocol_sha :: string
  pr_phase :: phase
  pr_state :: phase_state
  pr_detail :: pyval
  pr_detail_sha :: string
  pr_started_at :: real
  pr_ended_at :: "real option"

record phase_transition =
  pt_protocol_sha :: string
  pt_from :: phase
  pt_to :: phase
  pt_at :: real
  pt_reason :: string

record phase_db =
  pd_rows :: "phase_row list"
  pd_transitions :: "phase_transition list"

definition phase_key :: "phase_row \<Rightarrow> string \<times> phase" where
  "phase_key r = (pr_protocol_sha r, pr_phase r)"

definition phase_record :: "string \<Rightarrow> phase \<Rightarrow> phase_db \<Rightarrow> phase_row option" where
  "phase_record psha p db = find_row phase_key (psha, p) (pd_rows db)"

definition is_complete :: "string \<Rightarrow> phase \<Rightarrow> phase_db \<Rightarrow> bool" where
  "is_complete psha p db =
     (case phase_record psha p db of None \<Rightarrow> False | Some r \<Rightarrow> pr_state r = COMPLETE)"

definition phase_order :: "phase list" where
  "phase_order = [NEW, DOCTOR_PASSED, ACQUISITION_COMPLETE, SNAPSHOTS_FROZEN, P0_PARITY_PASSED,
     GPU_SMOKE_PASSED, SCREEN_RUNNING, SCREEN_COMPLETE, MINI_ITT_RUNNING, MINI_ITT_COMPLETE,
     POLICY_FROZEN, HOLDOUT_RUNNING, HOLDOUT_COMPLETE, REPORT_COMPLETE]"

definition completed_phases :: "string \<Rightarrow> phase_db \<Rightarrow> phase list" where
  "completed_phases psha db =
     map pr_phase (filter (\<lambda>r. pr_protocol_sha r = psha \<and> pr_state r = COMPLETE) (pd_rows db))"

definition current_phase :: "string \<Rightarrow> phase_db \<Rightarrow> phase" where
  "current_phase psha db =
     foldl (\<lambda>latest p. if p \<in> set (completed_phases psha db) then p else latest) NEW phase_order"

text \<open>INSERT ... ON CONFLICT(protocol_sha, phase) DO UPDATE.\<close>

definition upsert :: "phase_row \<Rightarrow> (phase_row \<Rightarrow> phase_row) \<Rightarrow> phase_db \<Rightarrow> phase_db" where
  "upsert r f db =
     (if has_key phase_key (phase_key r) (pd_rows db)
      then db\<lparr>pd_rows := update_rows (\<lambda>x. phase_key x = phase_key r) f (pd_rows db)\<rparr>
      else db\<lparr>pd_rows := pd_rows db @ [r]\<rparr>)"

definition begin_phase ::
  "string \<Rightarrow> phase \<Rightarrow> string \<Rightarrow> real \<Rightarrow> phase_db \<Rightarrow> phase_error + phase_db" where
  "begin_phase psha p reason now db =
     (if is_complete psha p db then Inr db
      else
        let current = current_phase psha db in
        if p \<noteq> current \<and> \<not> can_transition current p then Inl (IllegalPhaseTransition current p)
        else
          let db1 = upsert \<lparr>pr_protocol_sha = psha, pr_phase = p, pr_state = RUNNING,
                      pr_detail = PDict [], pr_detail_sha = [], pr_started_at = now,
                      pr_ended_at = None\<rparr>
                      (\<lambda>r. r\<lparr>pr_state := RUNNING, pr_started_at := now\<rparr>) db
          in Inr (db1\<lparr>pd_transitions := pd_transitions db1
               @ [\<lparr>pt_protocol_sha = psha, pt_from = current, pt_to = p, pt_at = now,
                   pt_reason = (if reason = [] then ''begin'' else reason)\<rparr>]\<rparr>))"

definition complete_phase ::
  "(string \<Rightarrow> string) \<Rightarrow> (real \<Rightarrow> string) \<Rightarrow> string \<Rightarrow> phase \<Rightarrow> pyval \<Rightarrow> (nat \<Rightarrow> real) \<Rightarrow> phase_db
     \<Rightarrow> phase_error + string \<times> phase_db" where
  "complete_phase sha fr psha p detail clk db =
     (case canonical_json fr detail of
        Inl e \<Rightarrow> Inl (DetailError e)
      | Inr text \<Rightarrow>
          let digest = sha256_hex sha text in
          (case phase_record psha p db of
             Some r \<Rightarrow>
               if pr_state r = COMPLETE
               then (if pr_detail_sha r \<noteq> digest then Inl (PhaseError p) else Inr (digest, db))
               else Inr (digest, upsert \<lparr>pr_protocol_sha = psha, pr_phase = p, pr_state = COMPLETE,
                      pr_detail = detail, pr_detail_sha = digest, pr_started_at = clk 0,
                      pr_ended_at = Some (clk 1)\<rparr>
                      (\<lambda>r. r\<lparr>pr_state := COMPLETE, pr_detail := detail, pr_detail_sha := digest,
                         pr_ended_at := Some (clk 1)\<rparr>) db)
           | None \<Rightarrow> Inr (digest, upsert \<lparr>pr_protocol_sha = psha, pr_phase = p, pr_state = COMPLETE,
                      pr_detail = detail, pr_detail_sha = digest, pr_started_at = clk 0,
                      pr_ended_at = Some (clk 1)\<rparr>
                      (\<lambda>r. r\<lparr>pr_state := COMPLETE, pr_detail := detail, pr_detail_sha := digest,
                         pr_ended_at := Some (clk 1)\<rparr>) db)))"

definition fail_phase :: "string \<Rightarrow> phase \<Rightarrow> string \<Rightarrow> (nat \<Rightarrow> real) \<Rightarrow> phase_db \<Rightarrow> phase_db" where
  "fail_phase psha p reason clk db =
     upsert \<lparr>pr_protocol_sha = psha, pr_phase = p, pr_state = FAILED,
         pr_detail = str_dict [(''reason'', PStr reason)], pr_detail_sha = [],
         pr_started_at = clk 0, pr_ended_at = Some (clk 1)\<rparr>
       (\<lambda>r. r\<lparr>pr_state := FAILED, pr_detail := str_dict [(''reason'', PStr reason)],
          pr_ended_at := Some (clk 1)\<rparr>) db"

definition phase_history :: "string \<Rightarrow> phase_db \<Rightarrow> phase_transition list" where
  "phase_history psha db = filter (\<lambda>t. pt_protocol_sha t = psha) (pd_transitions db)"

subsection \<open>What the store's operations do to a record\<close>

lemma record_upsert:
  assumes "\<And>x. phase_key (f x) = phase_key x"
  shows "phase_record psha p (upsert r f db) =
    (if phase_key r = (psha, p)
     then Some (case phase_record psha p db of None \<Rightarrow> r | Some x \<Rightarrow> f x)
     else phase_record psha p db)"
proof (cases "has_key phase_key (phase_key r) (pd_rows db)")
  case True
  then have "find_row phase_key (phase_key r) (pd_rows db) \<noteq> None" by (simp add: has_key_find)
  with True show ?thesis
    using find_row_SomeD [of phase_key "(psha, p)" "pd_rows db"]
    by (auto simp: upsert_def phase_record_def find_row_update assms split: option.splits)
next
  case False
  then have "find_row phase_key (phase_key r) (pd_rows db) = None" by (simp add: has_key_find)
  with False show ?thesis
    by (auto simp: upsert_def phase_record_def find_row_append split: option.splits)
qed

definition phases_ok :: "phase_db \<Rightarrow> bool" where
  "phases_ok db \<longleftrightarrow> keyed phase_key (pd_rows db)"

lemma upsert_ok:
  assumes "\<And>x. phase_key (f x) = phase_key x" and "phases_ok db"
  shows "phases_ok (upsert r f db)"
  using assms by (auto simp: phases_ok_def upsert_def keyed_append)

lemma mem_completed:
  assumes "phases_ok db"
  shows "p \<in> set (completed_phases psha db) \<longleftrightarrow> is_complete psha p db"
proof
  assume "p \<in> set (completed_phases psha db)"
  then obtain r where r: "r \<in> set (pd_rows db)" "phase_key r = (psha, p)" "pr_state r = COMPLETE"
    by (auto simp: completed_phases_def phase_key_def)
  with assms find_row_keyed [of phase_key "pd_rows db" r] show "is_complete psha p db"
    by (simp add: phases_ok_def is_complete_def phase_record_def)
next
  assume "is_complete psha p db"
  then obtain r where r: "find_row phase_key (psha, p) (pd_rows db) = Some r" "pr_state r = COMPLETE"
    by (auto simp: is_complete_def phase_record_def split: option.splits)
  with find_row_SomeD [OF r(1)] show "p \<in> set (completed_phases psha db)"
    by (auto simp: completed_phases_def phase_key_def)
qed

lemma foldl_last_member:
  "foldl (\<lambda>l p. if p \<in> C then p else l) x ps = (if filter (\<lambda>p. p \<in> C) ps = [] then x
     else last (filter (\<lambda>p. p \<in> C) ps))"
  by (induction ps arbitrary: x) auto

lemma current_phase_cases:
  "current_phase psha db = NEW \<or> current_phase psha db \<in> set (completed_phases psha db)"
  using last_in_set [of "filter (\<lambda>p. p \<in> set (completed_phases psha db)) phase_order"]
  by (auto simp: current_phase_def foldl_last_member)

lemma current_phase_order: "current_phase psha db \<in> set phase_order"
proof -
  have "NEW \<in> set phase_order" by (simp add: phase_order_def)
  then show ?thesis
    using last_in_set [of "filter (\<lambda>p. p \<in> set (completed_phases psha db)) phase_order"]
    by (auto simp: current_phase_def foldl_last_member)
qed

subsection \<open>Gates of a disciplined campaign\<close>

text \<open>
  A campaign that completes or fails only phases that are running. \<open>guarded\<close> says that a phase
  on the way to the holdout is entered only with every earlier gate complete.
\<close>

inductive phase_step :: "(string \<Rightarrow> string) \<Rightarrow> (real \<Rightarrow> string) \<Rightarrow> string \<Rightarrow> phase_db \<Rightarrow> phase_db \<Rightarrow> bool"
  for sha fr psha where
  begin_step: "begin_phase psha p reason now db = Inr db' \<Longrightarrow> phase_step sha fr psha db db'"
| complete_step: "\<lbrakk>complete_phase sha fr psha p detail clk db = Inr (d, db');
     map_option pr_state (phase_record psha p db) = Some RUNNING\<rbrakk> \<Longrightarrow> phase_step sha fr psha db db'"
| fail_step: "map_option pr_state (phase_record psha p db) = Some RUNNING
     \<Longrightarrow> phase_step sha fr psha db (fail_phase psha p reason clk db)"

definition empty_phases :: phase_db where
  "empty_phases = \<lparr>pd_rows = [], pd_transitions = []\<rparr>"

definition guarded :: "string \<Rightarrow> phase_db \<Rightarrow> bool" where
  "guarded psha db \<longleftrightarrow> phases_ok db
     \<and> (\<forall>p \<in> set spine. phase_record psha p db \<noteq> None \<longrightarrow>
          (\<forall>q \<in> set (gates p). q \<noteq> NEW \<longrightarrow> is_complete psha q db))"

lemma record_transitions [simp]:
  "phase_record psha p (db\<lparr>pd_transitions := ts\<rparr>) = phase_record psha p db"
  by (simp add: phase_record_def)

lemma phases_ok_transitions [simp]: "phases_ok (db\<lparr>pd_transitions := ts\<rparr>) = phases_ok db"
  by (simp add: phases_ok_def)

text \<open>One row changes and no completion is lost.\<close>

lemma guarded_change:
  assumes "guarded psha db" and "phases_ok db'"
    and other: "\<And>q. q \<noteq> p \<Longrightarrow> phase_record psha q db' = phase_record psha q db"
    and kept: "is_complete psha p db \<Longrightarrow> is_complete psha p db'"
    and entered: "phase_record psha p db = None \<Longrightarrow> p \<in> set spine
      \<Longrightarrow> (\<forall>q \<in> set (gates p). q \<noteq> NEW \<longrightarrow> is_complete psha q db)"
  shows "guarded psha db'"
proof -
  have keep: "is_complete psha q db'" if "is_complete psha q db" for q
    using that kept other [of q] by (cases "q = p") (auto simp: is_complete_def)
  have "\<forall>q \<in> set (gates x). q \<noteq> NEW \<longrightarrow> is_complete psha q db"
    if "x \<in> set spine" "phase_record psha x db' \<noteq> None" for x
  proof (cases "phase_record psha x db = None")
    case True
    then have "x = p" using other [of x] that(2) by auto
    with entered True that(1) show ?thesis by simp
  next
    case False
    with assms(1) that(1) show ?thesis by (simp add: guarded_def)
  qed
  with keep assms(2) show ?thesis by (simp add: guarded_def)
qed

lemma gates_of_current:
  assumes "guarded psha db" and "can_transition (current_phase psha db) p" and "p \<in> set spine"
  shows "\<forall>q \<in> set (gates p). q \<noteq> NEW \<longrightarrow> is_complete psha q db"
proof -
  let ?c = "current_phase psha db"
  have ok: "phases_ok db" using assms(1) by (simp add: guarded_def)
  have c: "?c \<in> set spine" "gates p = gates ?c @ [?c]"
    using edge_into_spine [OF assms(2,3)] by auto
  have reached: "?c = NEW \<or> is_complete psha ?c db"
    using current_phase_cases [of psha db] mem_completed [OF ok] by blast
  show ?thesis
  proof (cases "?c = NEW")
    case True
    then show ?thesis by (simp add: c(2)) (simp add: gates_def spine_def)
  next
    case False
    with reached have comp: "is_complete psha ?c db" by simp
    then have "phase_record psha ?c db \<noteq> None" by (auto simp: is_complete_def split: option.splits)
    with assms(1) c(1) have "\<forall>q \<in> set (gates ?c). q \<noteq> NEW \<longrightarrow> is_complete psha q db"
      by (simp add: guarded_def)
    with comp c(2) show ?thesis by auto
  qed
qed

lemma phase_step_guarded:
  assumes "phase_step sha fr psha db db'" and g: "guarded psha db"
  shows "guarded psha db'"
  using assms(1)
proof (cases rule: phase_step.cases)
  have ok: "phases_ok db" using g by (simp add: guarded_def)
  case (begin_step p reason now)
  show ?thesis
  proof (cases "is_complete psha p db")
    case True
    with begin_step g show ?thesis by (simp add: begin_phase_def)
  next
    case False
    let ?c = "current_phase psha db"
    have legal: "p = ?c \<or> can_transition ?c p"
      using begin_step False by (auto simp: begin_phase_def Let_def split: if_splits)
    then obtain ts where db': "db' = (upsert \<lparr>pr_protocol_sha = psha, pr_phase = p, pr_state = RUNNING,
          pr_detail = PDict [], pr_detail_sha = [], pr_started_at = now, pr_ended_at = None\<rparr>
          (\<lambda>r. r\<lparr>pr_state := RUNNING, pr_started_at := now\<rparr>) db)\<lparr>pd_transitions := ts\<rparr>"
      using begin_step False by (auto simp: begin_phase_def Let_def)
    have ok': "phases_ok db'" by (simp add: db' phase_key_def upsert_ok ok)
    show ?thesis
    proof (rule guarded_change [OF g ok', where p = p])
      assume spine: "p \<in> set spine"
      show "\<forall>q \<in> set (gates p). q \<noteq> NEW \<longrightarrow> is_complete psha q db"
      proof (cases "can_transition ?c p")
        case True
        from gates_of_current [OF g this spine] show ?thesis .
      next
        case nocan: False
        then have "p = NEW"
          using legal False current_phase_cases [of psha db] mem_completed [OF ok] by blast
        then show ?thesis by (simp add: gates_def spine_def)
      qed
    qed (use False in \<open>simp_all add: db' record_upsert phase_key_def\<close>)
  qed
next
  have ok: "phases_ok db" using g by (simp add: guarded_def)
  case (complete_step p detail clk d)
  then obtain t r where db': "db' = upsert \<lparr>pr_protocol_sha = psha, pr_phase = p, pr_state = COMPLETE,
          pr_detail = detail, pr_detail_sha = t, pr_started_at = clk 0, pr_ended_at = Some (clk 1)\<rparr>
          (\<lambda>r. r\<lparr>pr_state := COMPLETE, pr_detail := detail, pr_detail_sha := t,
             pr_ended_at := Some (clk 1)\<rparr>) db" and r: "phase_record psha p db = Some r"
    by (auto simp: complete_phase_def Let_def split: sum.splits option.splits if_splits)
  have "phases_ok db'" by (simp add: db' phase_key_def upsert_ok ok)
  then show ?thesis
    by (rule guarded_change [OF g, where p = p])
       (simp_all add: db' record_upsert phase_key_def r is_complete_def)
next
  have ok: "phases_ok db" using g by (simp add: guarded_def)
  case (fail_step p reason clk)
  then obtain r where r: "phase_record psha p db = Some r" "pr_state r = RUNNING" by auto
  have "phases_ok db'" by (simp add: fail_step fail_phase_def phase_key_def upsert_ok ok)
  then show ?thesis
    by (rule guarded_change [OF g, where p = p])
       (simp_all add: fail_step fail_phase_def record_upsert phase_key_def r is_complete_def)
qed

lemma empty_guarded: "guarded psha empty_phases"
  by (simp add: guarded_def empty_phases_def phases_ok_def keyed_def phase_record_def)

text \<open>
  Durable gates: in a campaign that completes and fails only phases that are running, whatever
  the order of calls and restarts, a phase on the way to the holdout has a record only when every
  gate before it is complete, and the phase reported as current is one that completed (or NEW).
\<close>

theorem phase_store_gates:
  assumes "(phase_step sha fr psha)\<^sup>*\<^sup>* empty_phases db"
  shows "(\<forall>p \<in> set spine. phase_record psha p db \<noteq> None \<longrightarrow>
            (\<forall>q \<in> set (gates p). q \<noteq> NEW \<longrightarrow> is_complete psha q db))
    \<and> (current_phase psha db = NEW \<or> is_complete psha (current_phase psha db) db)"
proof -
  have g: "guarded psha db"
    using assms by (induction rule: rtranclp_induct) (auto intro: empty_guarded phase_step_guarded)
  then show ?thesis
    using current_phase_cases [of psha db] mem_completed [of db] by (auto simp: guarded_def)
qed

definition doctor_running :: phase_db where
  "doctor_running = projr (begin_phase ''p'' DOCTOR_PASSED [] 0 empty_phases)"

lemma doctor_running_reach: "(phase_step sha fr ''p'')\<^sup>*\<^sup>* empty_phases doctor_running"
proof -
  have "\<not> isl (begin_phase ''p'' DOCTOR_PASSED [] 0 empty_phases)" by code_simp
  then have "begin_phase ''p'' DOCTOR_PASSED [] 0 empty_phases = Inr doctor_running"
    by (cases "begin_phase ''p'' DOCTOR_PASSED [] 0 empty_phases") (simp_all add: doctor_running_def)
  then show ?thesis by (intro r_into_rtranclp phase_step.begin_step)
qed

theorem phase_store_gates_witness: "current_phase ''p'' doctor_running = NEW"
proof -
  have none: "\<forall>p \<in> set phase_order. \<not> is_complete ''p'' p doctor_running" by code_simp
  then show ?thesis
    using phase_store_gates [OF doctor_running_reach] current_phase_order by metis
qed

subsection \<open>Where the store departs from the machine\<close>

text \<open>
   The no-go characterization cannot be carried out through the store: as long as its completion
  record does not exist, beginning CHARACTERIZE_NO_GO_COMPLETE is refused from every state of the
  database, because the furthest-phase order leaves that branch out.
\<close>

theorem no_go_branch_unreachable:
  assumes "\<not> is_complete psha CHARACTERIZE_NO_GO_COMPLETE db"
  shows "begin_phase psha CHARACTERIZE_NO_GO_COMPLETE reason now db
    = Inl (IllegalPhaseTransition (current_phase psha db) CHARACTERIZE_NO_GO_COMPLETE)"
proof -
  have "current_phase psha db \<in> set phase_order" by (rule current_phase_order)
  then have "CHARACTERIZE_NO_GO_COMPLETE \<noteq> current_phase psha db
      \<and> \<not> can_transition (current_phase psha db) CHARACTERIZE_NO_GO_COMPLETE"
    by (cases "current_phase psha db") (auto simp: phase_order_def can_transition_def
        next_phases_def terminal_phases_def anytime_failures_def)
  with assms show ?thesis by (simp add: begin_phase_def Let_def)
qed

theorem no_go_branch_unreachable_witness:
  "begin_phase ''p'' CHARACTERIZE_NO_GO_COMPLETE [] 0 empty_phases
    = Inl (IllegalPhaseTransition NEW CHARACTERIZE_NO_GO_COMPLETE)"
proof -
  have no: "\<not> is_complete ''p'' CHARACTERIZE_NO_GO_COMPLETE empty_phases" by code_simp
  have "current_phase ''p'' empty_phases = NEW" by code_simp
  with no_go_branch_unreachable [OF no] show ?thesis by simp
qed

text \<open>
   A phase can complete twice with different evidence: \<open>fail\<close> overwrites a completion without
  looking at it, after which \<open>complete\<close> accepts any other evidence for the same phase.
\<close>

theorem fail_allows_second_completion:
  assumes "phases_ok db" and "is_complete psha p db" and "canonical_json fr other = Inr enc"
  shows "\<exists>db'. complete_phase sha fr psha p other clk (fail_phase psha p reason clk' db)
      = Inr (sha256_hex sha enc, db')
    \<and> is_complete psha p db' \<and> map_option pr_detail (phase_record psha p db') = Some other"
proof -
  obtain r where r: "phase_record psha p db = Some r"
    using assms(2) by (auto simp: is_complete_def split: option.splits)
  have failed: "\<exists>x. phase_record psha p (fail_phase psha p reason clk' db) = Some x \<and> pr_state x = FAILED"
    by (simp add: fail_phase_def record_upsert phase_key_def r)
  then show ?thesis
    using assms(3) by (auto simp: complete_phase_def Let_def is_complete_def record_upsert phase_key_def)
qed

definition doctor_done :: phase_db where
  "doctor_done = \<lparr>pd_rows = [\<lparr>pr_protocol_sha = ''p'', pr_phase = DOCTOR_PASSED, pr_state = COMPLETE,
     pr_detail = PInt 1, pr_detail_sha = [], pr_started_at = 0, pr_ended_at = Some 1\<rparr>],
     pd_transitions = []\<rparr>"

theorem fail_allows_second_completion_witness:
  "\<exists>db'. complete_phase (\<lambda>_. []) (\<lambda>_. []) ''p'' DOCTOR_PASSED (PInt 2) (\<lambda>_. 0)
       (fail_phase ''p'' DOCTOR_PASSED [] (\<lambda>_. 0) doctor_done) = Inr ([], db')
     \<and> map_option pr_detail (phase_record ''p'' DOCTOR_PASSED db') = Some (PInt 2)"
proof -
  have ok: "phases_ok doctor_done" by (simp add: phases_ok_def doctor_done_def keyed_def)
  have comp: "is_complete ''p'' DOCTOR_PASSED doctor_done" by code_simp
  have enc: "canonical_json (\<lambda>_. []) (PInt 2) = Inr ''2''" by code_simp
  have "sha256_hex (\<lambda>_. []) ''2'' = []" by (simp add: sha256_hex_def)
  with fail_allows_second_completion [OF ok comp enc, of "\<lambda>_. []" "\<lambda>_. 0" "[]" "\<lambda>_. 0"]
  show ?thesis by auto
qed

end
