(* ===== verification/Budget.thy ===== *)
theory Budget
  imports Ledger
begin

text \<open>
  \<^verbatim>\<open>src/src/shapeflow/experiment/budget.py\<close>: budget as admission control, over the tables
  \<open>budget_accounts\<close> and \<open>budget_reservations\<close> of the ledger's database. Amounts are real numbers
  (the code's floats without rounding, so that a sum of amounts is exact). An operation is one transaction (or joins one that is
  open); \<open>clk k\<close> is the \<open>k\<close>-th clock reading it makes. A mapping of amounts is an association list.
\<close>

datatype reservation_state = RESERVED | SETTLED

record account =
  ac_resource :: string
  ac_cap :: real
  ac_reserved :: real
  ac_settled :: real
  ac_updated_at :: real

record reservation =
  rv_id :: string
  rv_resource :: string
  rv_amount :: real
  rv_state :: reservation_state
  rv_settled :: "real option"
  rv_work_key :: "string option"
  rv_call_id :: "string option"
  rv_attempt_id :: "string option"
  rv_created_at :: real
  rv_updated_at :: real

record budget =
  bg_accounts :: "account list"
  bg_reservations :: "reservation list"

datatype budget_error =
    BudgetExceeded string real real
  | BudgetCapRaised string real real
  | BadAmount string
  | EmptyReservation
  | MissingAuthorization
  | BelowCurrentCap string
  | DuplicateReservation string
  | BudgetIdError hash_error

text \<open>A \<open>BudgetUnderReserved\<close> that is returned, not raised: the resource, what was reserved, the actual.\<close>

type_synonym under_reserved = "string \<times> real \<times> real"

type_synonym amounts = "(string \<times> real) list"

record reservation_group =
  rg_id :: string
  rg_amounts :: amounts

subsection \<open>Caps\<close>

definition ensure_account ::
  "string \<Rightarrow> real \<Rightarrow> (nat \<Rightarrow> real) \<Rightarrow> budget \<Rightarrow> budget_error + budget" where
  "ensure_account resource cap clk B =
     (case find_row ac_resource resource (bg_accounts B) of
        None \<Rightarrow> Inr (B\<lparr>bg_accounts := bg_accounts B @ [\<lparr>ac_resource = resource, ac_cap = cap,
                  ac_reserved = 0, ac_settled = 0, ac_updated_at = clk 0\<rparr>]\<rparr>)
      | Some row \<Rightarrow>
          if cap < ac_cap row
          then Inr (B\<lparr>bg_accounts := update_rows (\<lambda>a. ac_resource a = resource)
                 (\<lambda>a. a\<lparr>ac_cap := cap, ac_updated_at := clk 0\<rparr>) (bg_accounts B)\<rparr>)
          else if cap > ac_cap row then Inl (BudgetCapRaised resource (ac_cap row) cap)
          else Inr B)"

definition cap_raise_detail ::
  "(real \<Rightarrow> string) \<Rightarrow> string \<Rightarrow> real \<Rightarrow> real \<Rightarrow> real \<Rightarrow> string \<Rightarrow> string \<Rightarrow> string" where
  "cap_raise_detail fr resource previous cap spent authorization reason =
     resource @ '': '' @ fr previous @ '' -> '' @ fr cap @ ''; spent='' @ fr spent
       @ ''; authorization='' @ authorization @ ''; reason='' @ reason"

text \<open>The second component says whether the cap changed; the incident goes to the ledger.\<close>

definition authorize_cap_raise ::
  "(real \<Rightarrow> string) \<Rightarrow> string \<Rightarrow> real \<Rightarrow> string \<Rightarrow> string \<Rightarrow> (nat \<Rightarrow> real) \<Rightarrow> budget \<times> ledger
     \<Rightarrow> budget_error + bool \<times> budget \<times> ledger" where
  "authorize_cap_raise fr resource cap authorization reason clk s =
     (case s of (B, L) \<Rightarrow>
        if authorization = [] \<or> reason = [] then Inl MissingAuthorization
        else (case find_row ac_resource resource (bg_accounts B) of
            None \<Rightarrow> Inl (BudgetCapRaised resource 0 cap)
          | Some row \<Rightarrow>
              let previous = ac_cap row in
              if cap < previous then Inl (BelowCurrentCap resource)
              else if cap = previous then Inr (False, B, L)
              else Inr (True,
                B\<lparr>bg_accounts := update_rows (\<lambda>a. ac_resource a = resource)
                    (\<lambda>a. a\<lparr>ac_cap := cap, ac_updated_at := clk 0\<rparr>) (bg_accounts B)\<rparr>,
                record_incident ''WARNING'' ''budget_cap_raised''
                  (cap_raise_detail fr resource previous cap (ac_settled row) authorization reason)
                  None (\<lambda>k. clk (Suc k)) L)))"

definition available :: "string \<Rightarrow> budget \<Rightarrow> real" where
  "available resource B =
     (case find_row ac_resource resource (bg_accounts B) of
        None \<Rightarrow> 0 | Some a \<Rightarrow> ac_cap a - ac_reserved a - ac_settled a)"

subsection \<open>Reserving\<close>

definition reservation_id ::
  "(string \<Rightarrow> string) \<Rightarrow> (real \<Rightarrow> string) \<Rightarrow> string \<Rightarrow> string \<Rightarrow> hash_error + string" where
  "reservation_id sha fr gid resource =
     derive_id sha fr ''reservation'' [(''group'', PStr gid), (''resource'', PStr resource)]"

definition truthy :: "string option \<Rightarrow> string option" where
  "truthy s = (case s of Some (c # cs) \<Rightarrow> Some (c # cs) | _ \<Rightarrow> None)"

text \<open>\<open>attempt_id or external_call_id\<close>, else a derived identity for an anonymous reservation.\<close>

definition group_id_of ::
  "(string \<Rightarrow> string) \<Rightarrow> (real \<Rightarrow> string) \<Rightarrow> amounts \<Rightarrow> string option \<Rightarrow> string option
     \<Rightarrow> string option \<Rightarrow> budget \<Rightarrow> hash_error + string" where
  "group_id_of sha fr amounts wkey call_id attempt_id B =
     (case (if truthy attempt_id \<noteq> None then attempt_id else call_id) of
        Some g \<Rightarrow> Inr g
      | None \<Rightarrow> derive_id sha fr ''reservation_group''
          [(''work_key'', PStr (case truthy wkey of None \<Rightarrow> ''-'' | Some k \<Rightarrow> k)),
           (''amounts'', str_dict (map (\<lambda>(r, a). (r, PFloat (Finite a))) (sort_key fst amounts))),
           (''seq'', PInt (int (length (bg_reservations B))))])"

text \<open>One pass of the loop; \<open>k\<close> clock readings have been made before it.\<close>

definition reserve_one ::
  "(string \<Rightarrow> string) \<Rightarrow> (real \<Rightarrow> string) \<Rightarrow> string \<Rightarrow> string option \<Rightarrow> string option \<Rightarrow> string option
     \<Rightarrow> (nat \<Rightarrow> real) \<Rightarrow> nat \<Rightarrow> string \<Rightarrow> real \<Rightarrow> budget \<Rightarrow> budget_error + budget" where
  "reserve_one sha fr gid wkey call_id attempt_id clk k resource amount B =
     (if amount < 0 then Inl (BadAmount resource)
      else (case find_row ac_resource resource (bg_accounts B) of
          None \<Rightarrow> Inl (BudgetExceeded resource amount 0)
        | Some acct \<Rightarrow>
            let avail = ac_cap acct - ac_reserved acct - ac_settled acct in
            if amount > avail then Inl (BudgetExceeded resource amount avail)
            else (case reservation_id sha fr gid resource of
                Inl e \<Rightarrow> Inl (BudgetIdError e)
              | Inr rid \<Rightarrow>
                  if has_key rv_id rid (bg_reservations B) then Inl (DuplicateReservation rid)
                  else Inr \<lparr>bg_accounts = update_rows (\<lambda>a. ac_resource a = resource)
                         (\<lambda>a. a\<lparr>ac_reserved := ac_reserved a + amount, ac_updated_at := clk k\<rparr>)
                         (bg_accounts B),
                       bg_reservations = bg_reservations B
                         @ [\<lparr>rv_id = rid, rv_resource = resource, rv_amount = amount,
                             rv_state = RESERVED, rv_settled = None, rv_work_key = wkey,
                             rv_call_id = call_id, rv_attempt_id = attempt_id,
                             rv_created_at = clk (k + 1), rv_updated_at = clk (k + 2)\<rparr>]\<rparr>)))"

definition reserve_in ::
  "(string \<Rightarrow> string) \<Rightarrow> (real \<Rightarrow> string) \<Rightarrow> amounts \<Rightarrow> string option \<Rightarrow> string option
     \<Rightarrow> string option \<Rightarrow> (nat \<Rightarrow> real) \<Rightarrow> budget \<Rightarrow> budget_error + reservation_group \<times> budget" where
  "reserve_in sha fr amounts wkey call_id attempt_id clk B =
     (if amounts = [] then Inl EmptyReservation
      else (case group_id_of sha fr amounts wkey call_id attempt_id B of
          Inl e \<Rightarrow> Inl (BudgetIdError e)
        | Inr gid \<Rightarrow>
            rbind (rfold (\<lambda>(k, resource, amount).
                reserve_one sha fr gid wkey call_id attempt_id clk (3 * k) resource amount)
              (enumerate 0 amounts) B)
            (\<lambda>B'. Inr (\<lparr>rg_id = gid, rg_amounts = amounts\<rparr>, B'))))"

subsection \<open>Resolving\<close>

definition group_rows ::
  "(string \<Rightarrow> string) \<Rightarrow> (real \<Rightarrow> string) \<Rightarrow> reservation_group \<Rightarrow> budget
     \<Rightarrow> budget_error + reservation list" where
  "group_rows sha fr g B =
     (let rows = filter (\<lambda>v. rv_attempt_id v = Some (rg_id g) \<or> rv_call_id v = Some (rg_id g)
                   \<or> rv_id v = rg_id g) (bg_reservations B)
      in if rows \<noteq> [] then Inr rows
         else (case rmap (\<lambda>(resource, amount). reservation_id sha fr (rg_id g) resource) (rg_amounts g) of
             Inl e \<Rightarrow> Inl (BudgetIdError e)
           | Inr rids \<Rightarrow>
               Inr (concat (map (\<lambda>rid. case find_row rv_id rid (bg_reservations B) of
                      None \<Rightarrow> [] | Some v \<Rightarrow> [v]) rids))))"

definition resolve_one :: "reservation \<Rightarrow> real \<Rightarrow> real \<Rightarrow> real \<Rightarrow> budget \<Rightarrow> budget" where
  "resolve_one v actual t1 t2 B =
     \<lparr>bg_accounts = update_rows (\<lambda>a. ac_resource a = rv_resource v)
        (\<lambda>a. a\<lparr>ac_reserved := ac_reserved a - rv_amount v, ac_settled := ac_settled a + actual,
           ac_updated_at := t1\<rparr>) (bg_accounts B),
      bg_reservations = update_rows (\<lambda>x. rv_id x = rv_id v)
        (\<lambda>x. x\<lparr>rv_state := SETTLED, rv_settled := Some actual, rv_updated_at := t2\<rparr>)
        (bg_reservations B)\<rparr>"

fun resolve_rows ::
  "(string \<Rightarrow> real \<Rightarrow> real) \<Rightarrow> (nat \<Rightarrow> real) \<Rightarrow> nat \<Rightarrow> reservation list \<Rightarrow> budget
     \<Rightarrow> under_reserved list \<times> budget" where
  "resolve_rows actual_fn clk k [] B = ([], B)"
| "resolve_rows actual_fn clk k (v # vs) B =
     (if rv_state v \<noteq> RESERVED then resolve_rows actual_fn clk k vs B
      else
        let actual = max 0 (actual_fn (rv_resource v) (rv_amount v));
            (over, B') = resolve_rows actual_fn clk (k + 2) vs (resolve_one v actual (clk k) (clk (k + 1)) B)
        in (if actual > rv_amount v then (rv_resource v, rv_amount v, actual) # over else over, B'))"

definition resolve_in ::
  "(string \<Rightarrow> string) \<Rightarrow> (real \<Rightarrow> string) \<Rightarrow> reservation_group \<Rightarrow> (string \<Rightarrow> real \<Rightarrow> real)
     \<Rightarrow> (nat \<Rightarrow> real) \<Rightarrow> budget \<Rightarrow> budget_error + under_reserved list \<times> budget" where
  "resolve_in sha fr g actual_fn clk B =
     rbind (group_rows sha fr g B) (\<lambda>rows. Inr (resolve_rows actual_fn clk 0 rows B))"

definition settle_in ::
  "(string \<Rightarrow> string) \<Rightarrow> (real \<Rightarrow> string) \<Rightarrow> reservation_group \<Rightarrow> amounts
     \<Rightarrow> (nat \<Rightarrow> real) \<Rightarrow> budget \<Rightarrow> budget_error + under_reserved list \<times> budget" where
  "settle_in sha fr g actuals clk B =
     resolve_in sha fr g (\<lambda>resource reserved.
       max 0 (case map_of actuals resource of None \<Rightarrow> 0 | Some x \<Rightarrow> x)) clk B"

definition keep_worst_case_in ::
  "(string \<Rightarrow> string) \<Rightarrow> (real \<Rightarrow> string) \<Rightarrow> reservation_group
     \<Rightarrow> (nat \<Rightarrow> real) \<Rightarrow> budget \<Rightarrow> budget_error + under_reserved list \<times> budget" where
  "keep_worst_case_in sha fr g clk B = resolve_in sha fr g (\<lambda>resource reserved. reserved) clk B"

definition release_in ::
  "(string \<Rightarrow> string) \<Rightarrow> (real \<Rightarrow> string) \<Rightarrow> reservation_group
     \<Rightarrow> (nat \<Rightarrow> real) \<Rightarrow> budget \<Rightarrow> budget_error + under_reserved list \<times> budget" where
  "release_in sha fr g clk B = resolve_in sha fr g (\<lambda>resource reserved. 0) clk B"

subsection \<open>The books balance\<close>

definition held :: "string \<Rightarrow> reservation list \<Rightarrow> real" where
  "held r vs = sum_list (map rv_amount
     (filter (\<lambda>v. rv_resource v = r \<and> rv_state v = RESERVED) vs))"

definition spent :: "string \<Rightarrow> reservation list \<Rightarrow> real" where
  "spent r vs = sum_list (map (\<lambda>v. case rv_settled v of None \<Rightarrow> 0 | Some x \<Rightarrow> x)
     (filter (\<lambda>v. rv_resource v = r \<and> rv_state v = SETTLED) vs))"

definition reservation_ok :: "reservation \<Rightarrow> bool" where
  "reservation_ok v \<longleftrightarrow> 0 \<le> rv_amount v \<and> (\<forall>x. rv_settled v = Some x \<longrightarrow> 0 \<le> x)"

definition budget_ok :: "budget \<Rightarrow> bool" where
  "budget_ok B \<longleftrightarrow> keyed ac_resource (bg_accounts B) \<and> keyed rv_id (bg_reservations B)
     \<and> (\<forall>v \<in> set (bg_reservations B). reservation_ok v \<and> rv_resource v \<in> ac_resource ` set (bg_accounts B))
     \<and> (\<forall>a \<in> set (bg_accounts B). ac_reserved a = held (ac_resource a) (bg_reservations B)
          \<and> ac_settled a = spent (ac_resource a) (bg_reservations B))"

lemma held_append [simp]: "held r (us @ vs) = held r us + held r vs"
  by (simp add: held_def)

lemma spent_append [simp]: "spent r (us @ vs) = spent r us + spent r vs"
  by (simp add: spent_def)

lemma held_Cons [simp]:
  "held r (v # vs) = (if rv_resource v = r \<and> rv_state v = RESERVED then rv_amount v else 0) + held r vs"
  by (simp add: held_def)

lemma spent_Cons [simp]:
  "spent r (v # vs) = (if rv_resource v = r \<and> rv_state v = SETTLED
     then case rv_settled v of None \<Rightarrow> 0 | Some x \<Rightarrow> x else 0) + spent r vs"
  by (simp add: spent_def)

lemma held_spent_Nil [simp]: "held r [] = 0" "spent r [] = 0"
  by (simp_all add: held_def spent_def)

lemma held_nonneg:
  assumes "\<forall>v \<in> set vs. reservation_ok v"
  shows "0 \<le> held r vs" "0 \<le> spent r vs"
  using assms by (induction vs) (auto simp: reservation_ok_def split: option.splits)

lemma update_rows_one:
  assumes "keyed key t" and "v \<in> set t"
  obtains us ws where "t = us @ v # ws"
    "\<And>f. update_rows (\<lambda>x. key x = key v) f t = us @ f v # ws"
proof -
  obtain us ws where t: "t = us @ v # ws" using assms(2) by (meson split_list)
  have no: "key x \<noteq> key v" if "x \<in> set us \<union> set ws" for x
    using assms(1) that by (auto simp: t keyed_def) (metis imageI)+
  have "update_rows (\<lambda>x. key x = key v) f us = us" "update_rows (\<lambda>x. key x = key v) f ws = ws" for f
    by (rule update_rows_none, use no in simp)+
  then have "update_rows (\<lambda>x. key x = key v) f t = us @ f v # ws" for f
    by (simp add: t update_rows_append)
  with t show thesis by (rule that)
qed

lemma budget_accounts_keys:
  assumes "\<And>a. ac_resource (f a) = ac_resource a"
  shows "keyed ac_resource (update_rows p f as) = keyed ac_resource as"
  by (simp add: keyed_def map_key_update assms)

lemma budget_ok_update:
  assumes ok: "budget_ok B"
    and accounts: "bg_accounts B' = update_rows (\<lambda>a. ac_resource a = r) f (bg_accounts B)"
    and f: "\<And>a. ac_resource (f a) = ac_resource a"
    and keyed: "keyed rv_id (bg_reservations B')"
    and rows: "\<And>v. v \<in> set (bg_reservations B') \<Longrightarrow> reservation_ok v
      \<and> rv_resource v \<in> ac_resource ` set (bg_accounts B)"
    and others: "\<And>q. q \<noteq> r \<Longrightarrow> held q (bg_reservations B') = held q (bg_reservations B)
      \<and> spent q (bg_reservations B') = spent q (bg_reservations B)"
    and own: "\<And>a. a \<in> set (bg_accounts B) \<Longrightarrow> ac_resource a = r
      \<Longrightarrow> ac_reserved (f a) = held r (bg_reservations B') \<and> ac_settled (f a) = spent r (bg_reservations B')"
  shows "budget_ok B'"
proof -
  have keys: "ac_resource ` set (bg_accounts B') = ac_resource ` set (bg_accounts B)"
    unfolding accounts by (rule keys_update) (rule f)
  have "ac_reserved a = held (ac_resource a) (bg_reservations B')
      \<and> ac_settled a = spent (ac_resource a) (bg_reservations B')" if a: "a \<in> set (bg_accounts B')" for a
  proof -
    obtain b where b: "b \<in> set (bg_accounts B)" "a = (if ac_resource b = r then f b else b)"
      using a unfolding accounts set_update_rows by blast
    with own [of b] f [of b] others [of "ac_resource b"] ok show ?thesis
      by (cases "ac_resource b = r") (simp_all add: budget_ok_def)
  qed
  moreover have "keyed ac_resource (bg_accounts B')"
    using ok by (simp add: accounts budget_accounts_keys f budget_ok_def)
  ultimately show ?thesis using keyed rows unfolding budget_ok_def keys by blast
qed

lemma reserve_one_ok:
  assumes ok: "budget_ok B"
    and res: "reserve_one sha fr g w c t clk k r x B = Inr B'"
  shows "budget_ok B' \<and> 0 \<le> x \<and> x \<le> available r B
    \<and> available r B' = available r B - x
    \<and> (\<forall>q. q \<noteq> r \<longrightarrow> available q B' = available q B)
    \<and> (\<exists>v. bg_reservations B' = bg_reservations B @ [v] \<and> rv_resource v = r
         \<and> rv_amount v = x \<and> rv_state v = RESERVED)"
proof -
  obtain acct rid where x: "0 \<le> x" "x \<le> ac_cap acct - ac_reserved acct - ac_settled acct"
    and acct: "find_row ac_resource r (bg_accounts B) = Some acct"
    and fresh: "\<not> has_key rv_id rid (bg_reservations B)"
    and B': "B' = \<lparr>bg_accounts = update_rows (\<lambda>a. ac_resource a = r)
                         (\<lambda>a. a\<lparr>ac_reserved := ac_reserved a + x, ac_updated_at := clk k\<rparr>)
                         (bg_accounts B),
                       bg_reservations = bg_reservations B
                         @ [\<lparr>rv_id = rid, rv_resource = r, rv_amount = x,
                             rv_state = RESERVED, rv_settled = None, rv_work_key = w,
                             rv_call_id = c, rv_attempt_id = t,
                             rv_created_at = clk (k + 1), rv_updated_at = clk (k + 2)\<rparr>]\<rparr>"
    using res by (auto simp: reserve_one_def Let_def not_less split: if_splits option.splits sum.splits)
  have mem: "r \<in> ac_resource ` set (bg_accounts B)"
    using find_row_SomeD [OF acct] by auto
  have "budget_ok B'"
    by (rule budget_ok_update [OF ok, where r = r
          and f = "\<lambda>a. a\<lparr>ac_reserved := ac_reserved a + x, ac_updated_at := clk k\<rparr>"])
       (use ok x fresh mem in \<open>auto simp: budget_ok_def B' keyed_append reservation_ok_def\<close>)
  then show ?thesis using x acct
    by (simp add: available_def B' find_row_update_one)
qed


lemma reserve_fold:
  assumes "budget_ok B" and "distinct (map fst xs)"
    and "rfold (\<lambda>(k, r, x). reserve_one sha fr g w c t clk (3 * k) r x) (enumerate n xs) B = Inr B'"
  shows "budget_ok B' \<and> (\<forall>(r, x) \<in> set xs. 0 \<le> x \<and> x \<le> available r B)
    \<and> (\<forall>q. available q B' = available q B - (case map_of xs q of None \<Rightarrow> 0 | Some x \<Rightarrow> x))
    \<and> (\<exists>vs. bg_reservations B' = bg_reservations B @ vs \<and> (\<forall>v \<in> set vs. rv_state v = RESERVED)
         \<and> map (\<lambda>v. (rv_resource v, rv_amount v)) vs = xs)"
  using assms
proof (induction xs arbitrary: n B)
  case (Cons rx xs)
  obtain r x where rx: "rx = (r, x)" by (cases rx)
  obtain B1 where one: "reserve_one sha fr g w c t clk (3 * n) r x B = Inr B1"
    and rest: "rfold (\<lambda>(k, r, x). reserve_one sha fr g w c t clk (3 * k) r x)
        (enumerate (Suc n) xs) B1 = Inr B'"
    using Cons.prems(3) by (auto simp: rx result_elims)
  note B1 = reserve_one_ok [OF Cons.prems(1) one]
  have IH: "budget_ok B' \<and> (\<forall>(r, x) \<in> set xs. 0 \<le> x \<and> x \<le> available r B1)
    \<and> (\<forall>q. available q B' = available q B1 - (case map_of xs q of None \<Rightarrow> 0 | Some x \<Rightarrow> x))
    \<and> (\<exists>vs. bg_reservations B' = bg_reservations B1 @ vs \<and> (\<forall>v \<in> set vs. rv_state v = RESERVED)
         \<and> map (\<lambda>v. (rv_resource v, rv_amount v)) vs = xs)"
    using Cons.IH [OF _ _ rest] B1 Cons.prems(2) by simp
  have fresh: "r \<notin> fst ` set xs" using Cons.prems(2) by (simp add: rx)
  have "map_of xs r = None" using fresh by (simp add: map_of_eq_None_iff)
  then have avail: "available q B' = available q B - (case map_of (rx # xs) q of None \<Rightarrow> 0 | Some x \<Rightarrow> x)"
    for q
    using IH B1 by (cases "q = r") (simp_all add: rx)
  have "0 \<le> y \<and> y \<le> available q B" if "(q, y) \<in> set (rx # xs)" for q y
    using that IH B1 fresh by (cases "q = r") (force simp: rx)+
  moreover obtain v vs where "bg_reservations B1 = bg_reservations B @ [v]" "rv_resource v = r"
      "rv_amount v = x" "rv_state v = RESERVED" "bg_reservations B' = bg_reservations B1 @ vs"
      "\<forall>v \<in> set vs. rv_state v = RESERVED" "map (\<lambda>v. (rv_resource v, rv_amount v)) vs = xs"
    using IH B1 by blast
  then have "\<exists>vs. bg_reservations B' = bg_reservations B @ vs \<and> (\<forall>v \<in> set vs. rv_state v = RESERVED)
         \<and> map (\<lambda>v. (rv_resource v, rv_amount v)) vs = rx # xs"
    by (intro exI [of _ "v # vs"]) (auto simp: rx)
  ultimately show ?case using IH avail by blast
qed simp

text \<open>Resolving a reservation.\<close>

lemma resolve_one_ok:
  assumes ok: "budget_ok B" and v: "v \<in> set (bg_reservations B)" "rv_state v = RESERVED"
    and "0 \<le> actual"
  shows "budget_ok (resolve_one v actual t1 t2 B)
    \<and> available r (resolve_one v actual t1 t2 B)
        = available r B + (if r = rv_resource v then rv_amount v - actual else 0)"
proof -
  let ?f = "\<lambda>x. x\<lparr>rv_state := SETTLED, rv_settled := Some actual, rv_updated_at := t2\<rparr>"
  have keyed: "keyed rv_id (bg_reservations B)" using ok by (simp add: budget_ok_def)
  obtain us ws where B: "bg_reservations B = us @ v # ws"
    and upd: "\<And>f. update_rows (\<lambda>x. rv_id x = rv_id v) f (bg_reservations B) = us @ f v # ws"
    using update_rows_one [OF keyed v(1)] by metis
  have mem: "rv_resource v \<in> ac_resource ` set (bg_accounts B)"
    using ok v(1) by (simp add: budget_ok_def)
  have "keyed rv_id (update_rows (\<lambda>x. rv_id x = rv_id v) ?f (bg_reservations B))"
    by (rule keyed_update) (simp_all add: keyed)
  then have keys: "keyed rv_id (us @ ?f v # ws)" unfolding upd .
  have rows: "bg_reservations (resolve_one v actual t1 t2 B) = us @ ?f v # ws"
    unfolding resolve_one_def by (simp add: upd)
  have ok': "budget_ok (resolve_one v actual t1 t2 B)"
  proof (rule budget_ok_update [OF ok, where r = "rv_resource v" and f = "\<lambda>a. a\<lparr>ac_reserved :=
      ac_reserved a - rv_amount v, ac_settled := ac_settled a + actual, ac_updated_at := t1\<rparr>"])
    show "reservation_ok x \<and> rv_resource x \<in> ac_resource ` set (bg_accounts B)"
      if "x \<in> set (bg_reservations (resolve_one v actual t1 t2 B))" for x
      using that ok mem assms(4) by (auto simp: rows budget_ok_def B reservation_ok_def)
    show "ac_reserved (a\<lparr>ac_reserved := ac_reserved a - rv_amount v,
        ac_settled := ac_settled a + actual, ac_updated_at := t1\<rparr>)
        = held (rv_resource v) (bg_reservations (resolve_one v actual t1 t2 B))
      \<and> ac_settled (a\<lparr>ac_reserved := ac_reserved a - rv_amount v,
        ac_settled := ac_settled a + actual, ac_updated_at := t1\<rparr>)
        = spent (rv_resource v) (bg_reservations (resolve_one v actual t1 t2 B))"
      if "a \<in> set (bg_accounts B)" "ac_resource a = rv_resource v" for a
      using that ok v(2) by (simp add: rows budget_ok_def B)
  qed (use keys v(2) in \<open>simp_all add: rows B\<close>, simp add: resolve_one_def)
  have "find_row ac_resource r (bg_accounts B) \<noteq> None" if "r = rv_resource v"
    using mem that by (auto simp: find_row_None)
  then show ?thesis
    using ok' by (auto simp: available_def resolve_one_def find_row_update_one split: option.splits)
qed

lemma resolve_one_keeps:
  assumes "x \<in> set (bg_reservations B)" and "rv_id x \<noteq> rv_id v"
  shows "x \<in> set (bg_reservations (resolve_one v actual t1 t2 B))"
  using assms by (force simp: resolve_one_def set_update_rows)

definition settled_row :: "reservation \<Rightarrow> reservation \<Rightarrow> bool" where
  "settled_row v x \<longleftrightarrow> rv_id x = rv_id v \<and> rv_resource x = rv_resource v \<and> rv_amount x = rv_amount v
     \<and> rv_attempt_id x = rv_attempt_id v \<and> rv_call_id x = rv_call_id v
     \<and> (rv_state v = SETTLED \<longrightarrow> x = v)"

lemma settled_row_trans: "settled_row a b \<Longrightarrow> settled_row b c \<Longrightarrow> settled_row a c"
  by (auto simp: settled_row_def)

lemma resolve_rows_ok:
  assumes "budget_ok B" and "distinct (map rv_id vs)" and "set vs \<subseteq> set (bg_reservations B)"
    and "resolve_rows fn clk k vs B = (over, B')"
  shows "budget_ok B' \<and> (over = [] \<longrightarrow> (\<forall>r. available r B \<le> available r B'))
    \<and> list_all2 settled_row (bg_reservations B) (bg_reservations B')
    \<and> (\<forall>x \<in> set (bg_reservations B'). rv_id x \<in> rv_id ` set vs \<longrightarrow> rv_state x = SETTLED)"
  using assms
proof (induction fn clk k vs B arbitrary: over B' rule: resolve_rows.induct)
  case (1 fn clk k B)
  then show ?case by (auto simp: settled_row_def intro: list_all2_refl)
next
  case (2 fn clk k v vs B)
  have keyed: "keyed rv_id (bg_reservations B)" using "2.prems"(1) by (simp add: budget_ok_def)
  have v: "v \<in> set (bg_reservations B)" using "2.prems"(3) by simp
  have ids: "rv_id x \<noteq> rv_id v" if "x \<in> set vs" for x
    using "2.prems"(2) that by (metis distinct.simps(2) imageI list.set_map list.simps(9))
  show ?case
  proof (cases "rv_state v = RESERVED")
    case False
    have settled: "rv_state v = SETTLED" using False by (cases "rv_state v") simp_all
    have IH: "budget_ok B' \<and> (over = [] \<longrightarrow> (\<forall>r. available r B \<le> available r B'))
        \<and> list_all2 settled_row (bg_reservations B) (bg_reservations B')
        \<and> (\<forall>x \<in> set (bg_reservations B'). rv_id x \<in> rv_id ` set vs \<longrightarrow> rv_state x = SETTLED)"
      by (rule "2.IH"(1)) (use "2.prems" False in auto)
    have "rv_state x = SETTLED" if x: "x \<in> set (bg_reservations B')" "rv_id x = rv_id v" for x
    proof -
      obtain y where "y \<in> set (bg_reservations B)" "settled_row y x"
        using IH [THEN conjunct2, THEN conjunct2, THEN conjunct1] x(1) by (blast dest: list_all2_mem)
      moreover from this x(2) have "y = v"
        using keyed v by (auto simp: settled_row_def keyed_def distinct_map dest: inj_onD)
      ultimately show ?thesis using settled by (simp add: settled_row_def)
    qed
    with IH show ?thesis by auto
  next
    case True
    define actual where "actual = max 0 (fn (rv_resource v) (rv_amount v))"
    define B1 where "B1 = resolve_one v actual (clk k) (clk (k + 1)) B"
    obtain o2 where rest: "resolve_rows fn clk (k + 2) vs B1 = (o2, B')"
      and over: "over = (if actual > rv_amount v then (rv_resource v, rv_amount v, actual) # o2 else o2)"
      using "2.prems"(4) True by (auto simp: actual_def B1_def Let_def split: prod.splits)
    have B1: "budget_ok B1" "\<And>r. available r B1
        = available r B + (if r = rv_resource v then rv_amount v - actual else 0)"
      using resolve_one_ok [OF "2.prems"(1) v True] by (simp_all add: B1_def actual_def)
    have sub: "set vs \<subseteq> set (bg_reservations B1)"
      using "2.prems"(3) ids resolve_one_keeps by (auto simp: B1_def)
    have IH: "budget_ok B' \<and> (o2 = [] \<longrightarrow> (\<forall>r. available r B1 \<le> available r B'))
        \<and> list_all2 settled_row (bg_reservations B1) (bg_reservations B')
        \<and> (\<forall>x \<in> set (bg_reservations B'). rv_id x \<in> rv_id ` set vs \<longrightarrow> rv_state x = SETTLED)"
      by (rule "2.IH"(2) [OF _ actual_def, folded B1_def])
         (use "2.prems"(2) True B1(1) sub rest in simp_all)
    let ?h = "\<lambda>x. if rv_id x = rv_id v then x\<lparr>rv_state := SETTLED, rv_settled := Some actual,
          rv_updated_at := clk (k + 1)\<rparr> else x"
    have rows1: "bg_reservations B1 = map ?h (bg_reservations B)"
      unfolding B1_def resolve_one_def update_rows_def by simp
    have first: "list_all2 settled_row (bg_reservations B) (bg_reservations B1)"
    proof -
      have same: "x = v" if "x \<in> set (bg_reservations B)" "rv_id x = rv_id v" for x
        using that keyed v by (auto simp: keyed_def distinct_map dest: inj_onD)
      have "settled_row x (?h x)" if "x \<in> set (bg_reservations B)" for x
      proof (cases "rv_id x = rv_id v")
        case eq: True
        show ?thesis using True by (simp add: same [OF that eq] settled_row_def)
      qed (simp add: settled_row_def)
      then show ?thesis by (simp only: rows1 list_all2_map2 list_all2_same) blast
    qed
    have all: "list_all2 settled_row (bg_reservations B) (bg_reservations B')"
      by (rule list_all2_trans [where ?P1.0 = settled_row and ?P2.0 = settled_row, OF _ first
            IH [THEN conjunct2, THEN conjunct2, THEN conjunct1]])
         (rule settled_row_trans)
    have "rv_state x = SETTLED" if x: "x \<in> set (bg_reservations B')" "rv_id x = rv_id v" for x
    proof -
      obtain y where y: "y \<in> set (bg_reservations B1)" "settled_row y x"
        using IH [THEN conjunct2, THEN conjunct2, THEN conjunct1] x(1) by (blast dest: list_all2_mem)
      from y(1) obtain z where z: "y = ?h z" unfolding rows1 set_map by blast
      have "rv_id y = rv_id v" using y(2) x(2) by (simp add: settled_row_def)
      then have "rv_state y = SETTLED" by (cases "rv_id z = rv_id v") (simp_all add: z)
      with y show ?thesis by (simp add: settled_row_def)
    qed
    moreover have "available r B \<le> available r B'" if "over = []" for r
    proof -
      have "actual \<le> rv_amount v" "o2 = []" using that over by (auto split: if_splits)
      then have "available r B \<le> available r B1" using B1(2) [of r] by simp
      also have "\<dots> \<le> available r B'" using IH \<open>o2 = []\<close> by simp
      finally show ?thesis .
    qed
    ultimately show ?thesis using IH all by auto
  qed
qed

subsection \<open>Groups\<close>

lemma reservation_id_total: "\<exists>rid. reservation_id sha fr g r = Inr rid"
  unfolding reservation_id_def by (rule derive_id_total) (auto simp: id_fields_def)

lemma reservation_id_inject:
  assumes "inj sha" and "reservation_id sha fr g r = Inr x" and "reservation_id sha fr h q = Inr x"
  shows "g = h \<and> r = q"
  using derive_id_same_keys [OF assms(1) _ _ _ assms(2,3) [unfolded reservation_id_def]]
  by (simp add: id_fields_def)

definition fallback_rows :: "string list \<Rightarrow> reservation list \<Rightarrow> reservation list" where
  "fallback_rows rids vs =
     concat (map (\<lambda>rid. case find_row rv_id rid vs of None \<Rightarrow> [] | Some v \<Rightarrow> [v]) rids)"

lemma fallback_rows_Cons:
  "fallback_rows (rid # rids) vs =
     (case find_row rv_id rid vs of None \<Rightarrow> [] | Some v \<Rightarrow> [v]) @ fallback_rows rids vs"
  by (simp add: fallback_rows_def)

lemma fallback_rows_ids:
  assumes "distinct rids"
  shows "distinct (map rv_id (fallback_rows rids vs)) \<and> set (fallback_rows rids vs) \<subseteq> set vs
    \<and> rv_id ` set (fallback_rows rids vs) \<subseteq> set rids"
  using assms
proof (induction rids)
  case (Cons rid rids)
  show ?case
  proof (cases "find_row rv_id rid vs")
    case (Some v)
    have "v \<in> set vs \<and> rv_id v = rid" by (rule find_row_SomeD [OF Some])
    with Cons Some show ?thesis by (auto simp: fallback_rows_Cons)
  qed (use Cons in \<open>auto simp: fallback_rows_Cons\<close>)
qed (simp add: fallback_rows_def)

lemma group_rows_ok:
  assumes "inj sha" and "budget_ok B" and "distinct (map fst (rg_amounts g))"
  shows "\<exists>rows. group_rows sha fr g B = Inr rows \<and> distinct (map rv_id rows)
    \<and> set rows \<subseteq> set (bg_reservations B)"
proof -
  let ?p = "\<lambda>v. rv_attempt_id v = Some (rg_id g) \<or> rv_call_id v = Some (rg_id g) \<or> rv_id v = rg_id g"
  have keyed: "distinct (map rv_id (bg_reservations B))"
    using assms(2) by (simp add: budget_ok_def keyed_def)
  show ?thesis
  proof (cases "filter ?p (bg_reservations B) = []")
    case True
    obtain rids where rids: "rmap (\<lambda>(r, x). reservation_id sha fr (rg_id g) r) (rg_amounts g) = Inr rids"
    proof (cases "rmap (\<lambda>(r, x). reservation_id sha fr (rg_id g) r) (rg_amounts g)")
      case (Inl e)
      obtain r where "reservation_id sha fr (rg_id g) r = Inl e"
        using rmap_Inl_iff [OF Inl] by (auto simp: case_prod_unfold)
      with reservation_id_total [of sha fr "rg_id g" r] show ?thesis by auto
    qed
    have all: "list_all2 (\<lambda>(r, x) rid. reservation_id sha fr (rg_id g) r = Inr rid) (rg_amounts g) rids"
      using rids by (simp add: rmap_Inr_iff case_prod_unfold)
    have "distinct rids"
      unfolding distinct_conv_nth
    proof (intro allI impI)
      fix i j assume ij: "i < length rids" "j < length rids" "i \<noteq> j"
      have len: "length (rg_amounts g) = length rids" using all by (rule list_all2_lengthD)
      have "reservation_id sha fr (rg_id g) (fst (rg_amounts g ! i)) = Inr (rids ! i)"
        "reservation_id sha fr (rg_id g) (fst (rg_amounts g ! j)) = Inr (rids ! j)"
        using all ij len by (auto simp: list_all2_conv_all_nth case_prod_unfold)
      moreover have "fst (rg_amounts g ! i) \<noteq> fst (rg_amounts g ! j)"
        using assms(3) ij len by (auto simp: distinct_conv_nth)
      ultimately show "rids ! i \<noteq> rids ! j"
        using reservation_id_inject [OF assms(1)] by metis
    qed
    from fallback_rows_ids [OF this, of "bg_reservations B"] show ?thesis
      by (simp add: group_rows_def Let_def True rids fallback_rows_def)
  next
    case False
    moreover have "distinct (map rv_id (filter ?p (bg_reservations B)))"
      using keyed by (rule distinct_map_filter)
    ultimately show ?thesis by (auto simp: group_rows_def Let_def)
  qed
qed

lemma resolve_in_ok:
  assumes "inj sha" and "budget_ok B" and "distinct (map fst (rg_amounts g))"
  shows "\<exists>rows over B'. group_rows sha fr g B = Inr rows
    \<and> resolve_in sha fr g fn clk B = Inr (over, B') \<and> budget_ok B'
    \<and> (over = [] \<longrightarrow> (\<forall>r. available r B \<le> available r B'))
    \<and> list_all2 settled_row (bg_reservations B) (bg_reservations B')
    \<and> (\<forall>x \<in> set (bg_reservations B'). rv_id x \<in> rv_id ` set rows \<longrightarrow> rv_state x = SETTLED)"
proof -
  obtain rows where rows: "group_rows sha fr g B = Inr rows" "distinct (map rv_id rows)"
    "set rows \<subseteq> set (bg_reservations B)"
    using group_rows_ok [OF assms] by blast
  obtain over B' where res: "resolve_rows fn clk 0 rows B = (over, B')" by fastforce
  from resolve_rows_ok [OF assms(2) rows(2,3) res] rows(1) res show ?thesis
    by (simp add: resolve_in_def)
qed

lemma resolve_in_Inr:
  assumes "inj sha" and "budget_ok B" and "distinct (map fst (rg_amounts g))"
    and "resolve_in sha fr g fn clk B = Inr (over, B')"
  shows "budget_ok B'" and "over = [] \<Longrightarrow> available r B \<le> available r B'"
    and "list_all2 settled_row (bg_reservations B) (bg_reservations B')"
    and "group_rows sha fr g B = Inr rows \<Longrightarrow> x \<in> set (bg_reservations B')
      \<Longrightarrow> rv_id x \<in> rv_id ` set rows \<Longrightarrow> rv_state x = SETTLED"
  using resolve_in_ok [OF assms(1-3), of fr fn clk] assms(4) by auto

subsection \<open>Histories\<close>

inductive budget_step :: "(string \<Rightarrow> string) \<Rightarrow> (real \<Rightarrow> string) \<Rightarrow> budget \<Rightarrow> budget \<Rightarrow> bool"
  for sha fr where
  ensure: "ensure_account r cap clk B = Inr B' \<Longrightarrow> budget_step sha fr B B'"
| raise: "authorize_cap_raise fr r cap auth reason clk (B, L) = Inr (changed, B', L')
    \<Longrightarrow> budget_step sha fr B B'"
| reserve: "\<lbrakk>reserve_in sha fr amts w c t clk B = Inr (g, B'); distinct (map fst amts)\<rbrakk>
    \<Longrightarrow> budget_step sha fr B B'"
| settle: "\<lbrakk>settle_in sha fr g actuals clk B = Inr (over, B'); distinct (map fst (rg_amounts g))\<rbrakk>
    \<Longrightarrow> budget_step sha fr B B'"
| keep: "\<lbrakk>keep_worst_case_in sha fr g clk B = Inr (over, B'); distinct (map fst (rg_amounts g))\<rbrakk>
    \<Longrightarrow> budget_step sha fr B B'"
| release: "\<lbrakk>release_in sha fr g clk B = Inr (over, B'); distinct (map fst (rg_amounts g))\<rbrakk>
    \<Longrightarrow> budget_step sha fr B B'"

definition empty_budget :: budget where
  "empty_budget = \<lparr>bg_accounts = [], bg_reservations = []\<rparr>"

lemma cap_update_ok:
  assumes "budget_ok B"
  shows "budget_ok (B\<lparr>bg_accounts := update_rows (\<lambda>a. ac_resource a = r)
      (\<lambda>a. a\<lparr>ac_cap := cap, ac_updated_at := t\<rparr>) (bg_accounts B)\<rparr>)"
  by (rule budget_ok_update [OF assms, where r = r and f = "\<lambda>a. a\<lparr>ac_cap := cap, ac_updated_at := t\<rparr>"])
     (use assms in \<open>auto simp: budget_ok_def\<close>)

lemma authorize_Inr:
  assumes "authorize_cap_raise fr r cap auth reason clk (B, L) = Inr (changed, B', L')"
  obtains (same) "B' = B"
    | (raised) "B' = B\<lparr>bg_accounts := update_rows (\<lambda>a. ac_resource a = r)
        (\<lambda>a. a\<lparr>ac_cap := cap, ac_updated_at := clk 0\<rparr>) (bg_accounts B)\<rparr>"
proof (cases "find_row ac_resource r (bg_accounts B)")
  case (Some row)
  show thesis
  proof (cases "cap = ac_cap row")
    case True
    with assms Some same show thesis
      by (simp add: authorize_cap_raise_def split: if_splits)
  next
    case False
    with assms Some raised show thesis
      by (simp add: authorize_cap_raise_def Let_def split: if_splits)
  qed
qed (use assms in \<open>simp add: authorize_cap_raise_def split: if_splits\<close>)

lemma ensure_account_ok:
  assumes ok: "budget_ok B" and "ensure_account r cap clk B = Inr B'"
  shows "budget_ok B'"
proof (cases "find_row ac_resource r (bg_accounts B)")
  case None
  have B': "B' = B\<lparr>bg_accounts := bg_accounts B @ [\<lparr>ac_resource = r, ac_cap = cap,
                  ac_reserved = 0, ac_settled = 0, ac_updated_at = clk 0\<rparr>]\<rparr>"
    using assms(2) None by (simp add: ensure_account_def)
  have "rv_resource v \<noteq> r" if "v \<in> set (bg_reservations B)" for v
    using ok None that by (auto simp: budget_ok_def find_row_None)
  then have "held r (bg_reservations B) = 0" "spent r (bg_reservations B) = 0"
    by (simp_all add: held_def spent_def)
  with ok None show ?thesis
    by (auto simp: budget_ok_def B' keyed_append has_key_find)
next
  case (Some a)
  with assms cap_update_ok [OF ok] show ?thesis
    by (auto simp: ensure_account_def split: if_splits)
qed

lemma reserve_in_Inr:
  assumes "budget_ok B" and "reserve_in sha fr amts w c t clk B = Inr (g, B')" and "distinct (map fst amts)"
  shows "budget_ok B' \<and> rg_amounts g = amts \<and> (\<forall>(r, x) \<in> set amts. 0 \<le> x \<and> x \<le> available r B)
    \<and> (\<forall>q. available q B' = available q B - (case map_of amts q of None \<Rightarrow> 0 | Some x \<Rightarrow> x))"
proof -
  obtain gid where loop: "rfold (\<lambda>(k, r, x). reserve_one sha fr gid w c t clk (3 * k) r x)
      (enumerate 0 amts) B = Inr B'" and g: "g = \<lparr>rg_id = gid, rg_amounts = amts\<rparr>"
    using assms(2) by (auto simp: reserve_in_def result_elims split: if_splits sum.splits)
  from reserve_fold [OF assms(1,3) loop] g show ?thesis by simp
qed

lemma budget_step_ok:
  assumes "inj sha" and ok: "budget_ok B" and "budget_step sha fr B B'"
  shows "budget_ok B'"
  using assms(3)
proof (cases rule: budget_step.cases)
  case ensure
  with ensure_account_ok [OF ok] show ?thesis by blast
next
  case raise
  from raise show ?thesis
    by (rule authorize_Inr) (simp_all only: ok cap_update_ok)
next
  case reserve
  with reserve_in_Inr [OF ok] show ?thesis by blast
next
  case settle
  from resolve_in_Inr(1) [OF assms(1) ok settle(2) settle(1) [unfolded settle_in_def]] show ?thesis .
next
  case keep
  from resolve_in_Inr(1) [OF assms(1) ok keep(2) keep(1) [unfolded keep_worst_case_in_def]]
  show ?thesis .
next
  case release
  from resolve_in_Inr(1) [OF assms(1) ok release(2) release(1) [unfolded release_in_def]] show ?thesis .
qed

lemma budget_history_ok:
  assumes "inj sha" and "(budget_step sha fr)\<^sup>*\<^sup>* empty_budget B"
  shows "budget_ok B"
  using assms(2)
proof (induction rule: rtranclp_induct)
  case (step B B')
  with budget_step_ok [OF assms(1)] show ?case by blast
qed (simp add: empty_budget_def budget_ok_def keyed_def)

subsection \<open>Properties\<close>

text \<open>
  C13. The books balance: after every history of the budget's operations in which no call names a
  resource twice (and with a collision-free digest), the reserved and settled totals of each account
  are the sums over its own reservations, live ones at the amount reserved and resolved ones at the
  amount settled, and neither is negative; and the reservations are well formed: their ids are
  distinct, each is against an account that exists, and no amount reserved or settled is negative.
  No charge is lost and none is counted twice. Amounts are exact real numbers.
\<close>

theorem books_balance:
  assumes "inj sha" and "(budget_step sha fr)\<^sup>*\<^sup>* empty_budget B"
  shows "(\<forall>a \<in> set (bg_accounts B). ac_reserved a = held (ac_resource a) (bg_reservations B)
      \<and> ac_settled a = spent (ac_resource a) (bg_reservations B)
      \<and> 0 \<le> ac_reserved a \<and> 0 \<le> ac_settled a)
    \<and> distinct (map ac_resource (bg_accounts B)) \<and> distinct (map rv_id (bg_reservations B))
    \<and> (\<forall>v \<in> set (bg_reservations B). rv_resource v \<in> ac_resource ` set (bg_accounts B)
        \<and> 0 \<le> rv_amount v \<and> (\<forall>x. rv_settled v = Some x \<longrightarrow> 0 \<le> x))"
proof -
  have ok: "budget_ok B" by (rule budget_history_ok [OF assms])
  then have rows: "\<forall>v \<in> set (bg_reservations B). reservation_ok v" by (simp add: budget_ok_def)
  show ?thesis
    using ok rows held_nonneg [OF rows] by (auto simp: budget_ok_def keyed_def reservation_ok_def)
qed

definition one_account :: budget where
  "one_account = \<lparr>bg_accounts = [\<lparr>ac_resource = ''usd'', ac_cap = 10, ac_reserved = 0,
     ac_settled = 0, ac_updated_at = 0\<rparr>], bg_reservations = []\<rparr>"

lemma one_account_step: "budget_step sha fr empty_budget one_account"
  by (rule budget_step.ensure [of "''usd''" 10 "\<lambda>_. 0"])
     (simp add: ensure_account_def empty_budget_def one_account_def)

lemma one_account_history: "(budget_step sha fr)\<^sup>*\<^sup>* empty_budget one_account"
  by (rule r_into_rtranclp, rule one_account_step)

text \<open>Two reservations of 6 and 3 against the cap of 10, the first settled at 2.\<close>

definition sample_row :: "string \<Rightarrow> string \<Rightarrow> real \<Rightarrow> reservation_state \<Rightarrow> real option \<Rightarrow> reservation" where
  "sample_row attempt rid amount st settled = \<lparr>rv_id = rid, rv_resource = ''usd'', rv_amount = amount,
     rv_state = st, rv_settled = settled, rv_work_key = None, rv_call_id = None,
     rv_attempt_id = Some attempt, rv_created_at = 0, rv_updated_at = 0\<rparr>"

definition sample_account :: "real \<Rightarrow> real \<Rightarrow> account" where
  "sample_account reserved settled = \<lparr>ac_resource = ''usd'', ac_cap = 10, ac_reserved = reserved,
     ac_settled = settled, ac_updated_at = 0\<rparr>"

lemma sample_history:
  assumes a: "reservation_id sha fr ''a'' ''usd'' = Inr i" and b: "reservation_id sha fr ''b'' ''usd'' = Inr j"
    and "i \<noteq> j" and "j \<noteq> ''a''"
  shows "(budget_step sha fr)\<^sup>*\<^sup>* empty_budget \<lparr>bg_accounts = [sample_account 3 2],
    bg_reservations = [sample_row ''a'' i 6 SETTLED (Some 2), sample_row ''b'' j 3 RESERVED None]\<rparr>"
proof -
  let ?B1 = "\<lparr>bg_accounts = [sample_account 6 0], bg_reservations = [sample_row ''a'' i 6 RESERVED None]\<rparr>"
  let ?B2 = "\<lparr>bg_accounts = [sample_account 9 0],
    bg_reservations = [sample_row ''a'' i 6 RESERVED None, sample_row ''b'' j 3 RESERVED None]\<rparr>"
  let ?B3 = "\<lparr>bg_accounts = [sample_account 3 2],
    bg_reservations = [sample_row ''a'' i 6 SETTLED (Some 2), sample_row ''b'' j 3 RESERVED None]\<rparr>"
  have "reserve_in sha fr [(''usd'', 6)] None None (Some ''a'') (\<lambda>_. 0) one_account
      = Inr (\<lparr>rg_id = ''a'', rg_amounts = [(''usd'', 6)]\<rparr>, ?B1)"
    by (simp add: reserve_in_def group_id_of_def truthy_def reserve_one_def a one_account_def
        has_key_def Let_def sample_account_def sample_row_def)
  then have s1: "budget_step sha fr one_account ?B1" by (rule budget_step.reserve) simp
  have "reserve_in sha fr [(''usd'', 3)] None None (Some ''b'') (\<lambda>_. 0) ?B1
      = Inr (\<lparr>rg_id = ''b'', rg_amounts = [(''usd'', 3)]\<rparr>, ?B2)"
    using assms(3) by (simp add: reserve_in_def group_id_of_def truthy_def reserve_one_def b
        has_key_def Let_def sample_account_def sample_row_def)
  then have s2: "budget_step sha fr ?B1 ?B2" by (rule budget_step.reserve) simp
  have "settle_in sha fr \<lparr>rg_id = ''a'', rg_amounts = [(''usd'', 6)]\<rparr> [(''usd'', 2)] (\<lambda>_. 0) ?B2
      = Inr ([], ?B3)"
    using assms(3,4) by (simp add: settle_in_def resolve_in_def group_rows_def resolve_one_def
        sample_account_def sample_row_def Let_def)
  then have s3: "budget_step sha fr ?B2 ?B3" by (rule budget_step.settle) simp
  from one_account_history s1 have "(budget_step sha fr)\<^sup>*\<^sup>* empty_budget ?B1"
    by (rule rtranclp.rtrancl_into_rtrancl)
  from this s2 have "(budget_step sha fr)\<^sup>*\<^sup>* empty_budget ?B2" by (rule rtranclp.rtrancl_into_rtrancl)
  from this s3 show ?thesis by (rule rtranclp.rtrancl_into_rtrancl)
qed

theorem books_balance_witness:
  "\<exists>i j. (budget_step (\<lambda>s. s) (\<lambda>_. []))\<^sup>*\<^sup>* empty_budget \<lparr>bg_accounts = [sample_account 3 2],
      bg_reservations = [sample_row ''a'' i 6 SETTLED (Some 2), sample_row ''b'' j 3 RESERVED None]\<rparr>
    \<and> held ''usd'' [sample_row ''a'' i 6 SETTLED (Some 2), sample_row ''b'' j 3 RESERVED None] = 3
    \<and> spent ''usd'' [sample_row ''a'' i 6 SETTLED (Some 2), sample_row ''b'' j 3 RESERVED None] = 2"
proof -
  let ?sha = "\<lambda>s :: string. s"
  have inj: "inj ?sha" by (simp add: inj_def)
  obtain i where i: "reservation_id ?sha (\<lambda>_. []) ''a'' ''usd'' = Inr i" using reservation_id_total by blast
  obtain j where j: "reservation_id ?sha (\<lambda>_. []) ''b'' ''usd'' = Inr j" using reservation_id_total by blast
  have "i \<noteq> j" using reservation_id_inject [OF inj i] j by auto
  moreover have "hex_of s \<noteq> ''a''" for s by (cases s) simp_all
  then have "j \<noteq> ''a''"
    using j by (auto simp: reservation_id_def derive_id_jsonable id_fields_def preimage_def sha256_hex_def)
  ultimately have hist: "(budget_step ?sha (\<lambda>_. []))\<^sup>*\<^sup>* empty_budget \<lparr>bg_accounts = [sample_account 3 2],
      bg_reservations = [sample_row ''a'' i 6 SETTLED (Some 2), sample_row ''b'' j 3 RESERVED None]\<rparr>"
    by (rule sample_history [OF i j])
  from books_balance [OF inj hist]
  have "held ''usd'' [sample_row ''a'' i 6 SETTLED (Some 2), sample_row ''b'' j 3 RESERVED None] = 3
    \<and> spent ''usd'' [sample_row ''a'' i 6 SETTLED (Some 2), sample_row ''b'' j 3 RESERVED None] = 2"
    by (simp add: sample_account_def del: held_Cons spent_Cons)
  with hist show ?thesis by blast
qed

text \<open>Admission succeeds when everything fits and the reservation ids are new.\<close>

definition unused_group ::
  "(string \<Rightarrow> string) \<Rightarrow> (real \<Rightarrow> string) \<Rightarrow> string \<Rightarrow> amounts \<Rightarrow> budget \<Rightarrow> bool" where
  "unused_group sha fr gid amts B \<longleftrightarrow>
     (\<forall>(r, x) \<in> set amts. \<forall>v \<in> set (bg_reservations B). reservation_id sha fr gid r \<noteq> Inr (rv_id v))"

lemma reserve_one_fits:
  assumes "r \<in> ac_resource ` set (bg_accounts B)" and "0 \<le> x" and "x \<le> available r B"
    and "\<forall>v \<in> set (bg_reservations B). reservation_id sha fr gid r \<noteq> Inr (rv_id v)"
  shows "\<exists>B' rid. reserve_one sha fr gid w c t clk k r x B = Inr B'
    \<and> ac_resource ` set (bg_accounts B') = ac_resource ` set (bg_accounts B)
    \<and> reservation_id sha fr gid r = Inr rid
    \<and> rv_id ` set (bg_reservations B') = insert rid (rv_id ` set (bg_reservations B))"
proof -
  obtain acct where acct: "find_row ac_resource r (bg_accounts B) = Some acct"
    using assms(1) by (metis find_row_None option.exhaust)
  obtain rid where rid: "reservation_id sha fr gid r = Inr rid" using reservation_id_total by blast
  have "\<not> has_key rv_id rid (bg_reservations B)" using assms(4) rid by (auto simp: has_key_iff)
  with acct rid assms(2,3) show ?thesis
    by (simp add: reserve_one_def Let_def available_def)
qed

lemma reserve_one_accounts:
  assumes "reserve_one sha fr gid w c t clk k r x B = Inr B'"
  shows "ac_resource ` set (bg_accounts B') = ac_resource ` set (bg_accounts B)"
proof -
  obtain f where "bg_accounts B' = update_rows (\<lambda>a. ac_resource a = r) f (bg_accounts B)"
    and "\<And>a. ac_resource (f a) = ac_resource a"
    using assms
    by (fastforce simp: reserve_one_def Let_def split: if_splits option.splits sum.splits)
  then show ?thesis by simp
qed

lemma reserve_fold_fits:
  assumes "inj sha" and "budget_ok B" and "distinct (map fst xs)" and "unused_group sha fr gid xs B"
    and "\<forall>(r, x) \<in> set xs. r \<in> ac_resource ` set (bg_accounts B) \<and> 0 \<le> x \<and> x \<le> available r B"
  shows "\<exists>B'. rfold (\<lambda>(k, r, x). reserve_one sha fr gid w c t clk (3 * k) r x) (enumerate n xs) B = Inr B'"
  using assms(2-)
proof (induction xs arbitrary: n B)
  case (Cons rx xs)
  obtain r x where rx: "rx = (r, x)" by (cases rx)
  obtain B1 rid where one: "reserve_one sha fr gid w c t clk (3 * n) r x B = Inr B1"
    and keys: "ac_resource ` set (bg_accounts B1) = ac_resource ` set (bg_accounts B)"
    and rid: "reservation_id sha fr gid r = Inr rid"
    and ids: "rv_id ` set (bg_reservations B1) = insert rid (rv_id ` set (bg_reservations B))"
    using reserve_one_fits [of r B x sha fr gid w c t clk "3 * n"] Cons.prems(3,4)
    by (auto simp: rx unused_group_def)
  note B1 = reserve_one_ok [OF Cons.prems(1) one]
  have fresh: "r \<notin> fst ` set xs" using Cons.prems(2) by (simp add: rx)
  have no: "reservation_id sha fr gid q \<noteq> Inr (rv_id v)"
    if q: "(q, y) \<in> set xs" "v \<in> set (bg_reservations B1)" for q y v
  proof
    assume id: "reservation_id sha fr gid q = Inr (rv_id v)"
    have "rv_id v = rid \<or> rv_id v \<in> rv_id ` set (bg_reservations B)" using ids q(2) by blast
    then show False
    proof
      assume "rv_id v = rid"
      with id rid reservation_id_inject [OF assms(1)] have "q = r" by metis
      with q(1) fresh show False by force
    next
      assume "rv_id v \<in> rv_id ` set (bg_reservations B)"
      then obtain u where "u \<in> set (bg_reservations B)" "rv_id u = rv_id v" by auto
      with Cons.prems(3) q(1) id show False by (fastforce simp: rx unused_group_def)
    qed
  qed
  have "unused_group sha fr gid xs B1"
    unfolding unused_group_def using no by blast
  moreover have "q \<in> ac_resource ` set (bg_accounts B1) \<and> 0 \<le> y \<and> y \<le> available q B1"
    if q: "(q, y) \<in> set xs" for q y
  proof -
    have "q \<noteq> r" using fresh q by force
    then have "available q B1 = available q B" using B1 by blast
    moreover have "(q, y) \<in> set (rx # xs)" using q by simp
    ultimately show ?thesis using Cons.prems(4) unfolding keys by fastforce
  qed
  then have "\<forall>(q, y) \<in> set xs. q \<in> ac_resource ` set (bg_accounts B1) \<and> 0 \<le> y \<and> y \<le> available q B1"
    by blast
  ultimately obtain B' where "rfold (\<lambda>(k, r, x). reserve_one sha fr gid w c t clk (3 * k) r x)
      (enumerate (Suc n) xs) B1 = Inr B'"
    using Cons.IH [of B1 "Suc n"] B1 Cons.prems(2) by auto
  with one show ?case by (simp add: rx)
qed simp

text \<open>Every success took fresh ids.\<close>

lemma reserve_one_id:
  assumes "reserve_one sha fr gid w c t clk k r x B = Inr B'"
  shows "\<exists>v. bg_reservations B' = bg_reservations B @ [v] \<and> reservation_id sha fr gid r = Inr (rv_id v)
    \<and> rv_id v \<notin> rv_id ` set (bg_reservations B)"
  using assms
  by (fastforce simp: reserve_one_def Let_def has_key_iff split: if_splits option.splits sum.splits)

lemma reserve_fold_unused:
  assumes "rfold (\<lambda>(k, r, x). reserve_one sha fr gid w c t clk (3 * k) r x) (enumerate n xs) B = Inr B'"
  shows "unused_group sha fr gid xs B
    \<and> (\<forall>(r, x) \<in> set xs. r \<in> ac_resource ` set (bg_accounts B))"
  using assms
proof (induction xs arbitrary: n B)
  case (Cons rx xs)
  obtain r x where rx: "rx = (r, x)" by (cases rx)
  obtain B1 where one: "reserve_one sha fr gid w c t clk (3 * n) r x B = Inr B1"
    and rest: "rfold (\<lambda>(k, r, x). reserve_one sha fr gid w c t clk (3 * k) r x)
        (enumerate (Suc n) xs) B1 = Inr B'"
    using Cons.prems by (auto simp: rx result_elims)
  obtain v where v: "bg_reservations B1 = bg_reservations B @ [v]" "reservation_id sha fr gid r = Inr (rv_id v)"
    "rv_id v \<notin> rv_id ` set (bg_reservations B)"
    using reserve_one_id [OF one] by blast
  have "r \<in> ac_resource ` set (bg_accounts B)"
    using one by (auto simp: reserve_one_def dest: find_row_SomeD split: if_splits option.splits)
  with Cons.IH [OF rest] v reserve_one_accounts [OF one] show ?case
    by (auto simp: rx unused_group_def)
qed (simp add: unused_group_def)

text \<open>What a refusal says: the pair of the request it is about, and why.\<close>

definition refused_pair ::
  "(string \<Rightarrow> string) \<Rightarrow> (real \<Rightarrow> string) \<Rightarrow> string \<Rightarrow> budget \<Rightarrow> budget_error \<Rightarrow> string \<Rightarrow> real \<Rightarrow> bool" where
  "refused_pair sha fr gid B e r x \<longleftrightarrow>
     x < 0 \<and> e = BadAmount r
   \<or> 0 \<le> x \<and> (r \<notin> ac_resource ` set (bg_accounts B) \<or> available r B < x)
       \<and> e = BudgetExceeded r x (available r B)
   \<or> (\<exists>v \<in> set (bg_reservations B). reservation_id sha fr gid r = Inr (rv_id v)
       \<and> e = DuplicateReservation (rv_id v))"

lemma reserve_one_refused:
  assumes "reserve_one sha fr gid w c t clk k r x B = Inl e"
  shows "refused_pair sha fr gid B e r x"
proof -
  obtain rid where rid: "reservation_id sha fr gid r = Inr rid" using reservation_id_total by blast
  show ?thesis
  proof (cases "find_row ac_resource r (bg_accounts B)")
    case None
    then have "r \<notin> ac_resource ` set (bg_accounts B)" by (simp add: find_row_None)
    with assms None show ?thesis
      by (simp add: reserve_one_def refused_pair_def available_def split: if_splits)
  next
    case (Some a)
    with assms rid show ?thesis
      by (auto simp: reserve_one_def refused_pair_def available_def Let_def has_key_iff split: if_splits)
  qed
qed

lemma reserve_fold_refused:
  assumes "inj sha" and "budget_ok B" and "distinct (map fst xs)"
    and "rfold (\<lambda>(k, r, x). reserve_one sha fr gid w c t clk (3 * k) r x) (enumerate n xs) B = Inl e"
  shows "\<exists>(r, x) \<in> set xs. refused_pair sha fr gid B e r x"
  using assms(2-)
proof (induction xs arbitrary: n B)
  case (Cons rx xs)
  obtain r x where rx: "rx = (r, x)" by (cases rx)
  show ?case
  proof (cases "reserve_one sha fr gid w c t clk (3 * n) r x B")
    case (Inl e')
    with Cons.prems(3) reserve_one_refused [OF Inl] show ?thesis by (simp add: rx)
  next
    case (Inr B1)
    have rest: "rfold (\<lambda>(k, r, x). reserve_one sha fr gid w c t clk (3 * k) r x) (enumerate (Suc n) xs) B1
        = Inl e"
      using Cons.prems(3) Inr by (simp add: rx)
    note B1 = reserve_one_ok [OF Cons.prems(1) Inr]
    obtain q y where q: "(q, y) \<in> set xs" "refused_pair sha fr gid B1 e q y"
      using Cons.IH [OF _ _ rest] B1 Cons.prems(2) by auto
    have "q \<noteq> r" using Cons.prems(2) q(1) by (force simp: rx)
    obtain v where v: "bg_reservations B1 = bg_reservations B @ [v]"
      "reservation_id sha fr gid r = Inr (rv_id v)"
      using reserve_one_id [OF Inr] by blast
    have "reservation_id sha fr gid q \<noteq> Inr (rv_id v)"
      using reservation_id_inject [OF assms(1) v(2)] \<open>q \<noteq> r\<close> by auto
    then have "refused_pair sha fr gid B e q y"
      using q(2) B1 \<open>q \<noteq> r\<close> reserve_one_accounts [OF Inr] by (auto simp: refused_pair_def v(1))
    with q(1) show ?thesis by auto
  qed
qed simp

lemma group_id_total:
  assumes "distinct (map fst amts)"
  shows "\<exists>gid. group_id_of sha fr amts w c t B = Inr gid"
proof -
  have "distinct (map fst (sort_key fst amts))"
    using assms by (metis distinct_map distinct_sort inj_on_subset set_sort subset_refl)
  then have "jsonable_over UNIV (str_dict (map (\<lambda>(r, a). (r, PFloat (Finite a))) (sort_key fst amts)))"
    by (intro jsonable_fields) (auto simp: id_fields_over_def comp_def case_prod_unfold)
  then have "id_fields_over UNIV [(''work_key'', PStr k),
      (''amounts'', str_dict (map (\<lambda>(r, a). (r, PFloat (Finite a))) (sort_key fst amts))),
      (''seq'', PInt n)]" for k n
    by (simp add: id_fields_over_def)
  from derive_id_over [OF this] show ?thesis
    by (simp add: group_id_of_def preimage_def split: option.splits)
qed

text \<open>
  C14. Admission is exact and all-or-nothing, after every history of the budget and for every request
  that names no resource twice (with a collision-free digest). The request has a group identity;
  it succeeds exactly when it names a resource, no reservation of that group is on the books for one
  of its resources, and every resource has an account and a non-negative amount that fits the
  headroom. Then the new reservations are the pairs requested, appended live, each resource is debited
  by its amount, no other is touched, and the headroom stays non-negative. A refusal (the transaction
  keeps the state) names a pair of the request and its true reason: a negative amount, an amount
  beyond the headroom (which is 0 without an account), or the reservation that is already there.
\<close>

theorem reserve_admission:
  assumes "inj sha" and "(budget_step sha fr)\<^sup>*\<^sup>* empty_budget B" and "distinct (map fst amts)"
  shows "\<exists>gid. group_id_of sha fr amts w c t B = Inr gid
    \<and> ((\<exists>g B'. reserve_in sha fr amts w c t clk B = Inr (g, B')) \<longleftrightarrow>
        amts \<noteq> [] \<and> unused_group sha fr gid amts B
        \<and> (\<forall>(r, x) \<in> set amts. r \<in> ac_resource ` set (bg_accounts B) \<and> 0 \<le> x \<and> x \<le> available r B))
    \<and> (\<forall>g B'. reserve_in sha fr amts w c t clk B = Inr (g, B') \<longrightarrow>
        g = \<lparr>rg_id = gid, rg_amounts = amts\<rparr>
        \<and> (\<exists>vs. bg_reservations B' = bg_reservations B @ vs \<and> (\<forall>v \<in> set vs. rv_state v = RESERVED)
             \<and> map (\<lambda>v. (rv_resource v, rv_amount v)) vs = amts)
        \<and> (\<forall>q. available q B' = available q B - (case map_of amts q of None \<Rightarrow> 0 | Some x \<Rightarrow> x))
        \<and> (\<forall>(r, x) \<in> set amts. 0 \<le> available r B'))
    \<and> (\<forall>e. reserve_in sha fr amts w c t clk B = Inl e \<longrightarrow>
        amts = [] \<and> e = EmptyReservation \<or> (\<exists>(r, x) \<in> set amts. refused_pair sha fr gid B e r x))"
proof -
  have ok: "budget_ok B" by (rule budget_history_ok [OF assms(1,2)])
  obtain gid where gid: "group_id_of sha fr amts w c t B = Inr gid" using group_id_total [OF assms(3)] by blast
  let ?loop = "rfold (\<lambda>(k, r, x). reserve_one sha fr gid w c t clk (3 * k) r x) (enumerate 0 amts) B"
  have run: "reserve_in sha fr amts w c t clk B = (if amts = [] then Inl EmptyReservation
      else rbind ?loop (\<lambda>B'. Inr (\<lparr>rg_id = gid, rg_amounts = amts\<rparr>, B')))"
    by (simp add: reserve_in_def gid)
  note done_right = reserve_fold [OF ok assms(3), of sha fr gid w c t clk 0]
    and unused = reserve_fold_unused [of sha fr gid w c t clk 0 amts B]
  have fits: "\<exists>B'. ?loop = Inr B'"
    if "unused_group sha fr gid amts B"
      "\<forall>(r, x) \<in> set amts. r \<in> ac_resource ` set (bg_accounts B) \<and> 0 \<le> x \<and> x \<le> available r B"
    by (rule reserve_fold_fits [OF assms(1) ok assms(3) that])
  have room: "0 \<le> available r B'" if "?loop = Inr B'" "(r, x) \<in> set amts" for r x B'
    using done_right [OF that(1)] that(2) assms(3) by fastforce
  have only_if: "unused_group sha fr gid amts B \<and> (\<forall>(r, x) \<in> set amts.
      r \<in> ac_resource ` set (bg_accounts B) \<and> 0 \<le> x \<and> x \<le> available r B)" if "?loop = Inr B'" for B'
    using done_right [OF that] unused [OF that] by fast
  have "\<exists>(r, x) \<in> set amts. refused_pair sha fr gid B e r x" if "?loop = Inl e" for e
    by (rule reserve_fold_refused [OF assms(1) ok assms(3) that])
  then have refused: "amts = [] \<and> e = EmptyReservation \<or> (\<exists>(r, x) \<in> set amts. refused_pair sha fr gid B e r x)"
    if "reserve_in sha fr amts w c t clk B = Inl e" for e
    using that by (auto simp: run result_elims split: if_splits)
  have success: "amts \<noteq> [] \<and> ?loop = Inr B' \<and> g = \<lparr>rg_id = gid, rg_amounts = amts\<rparr>"
    if "reserve_in sha fr amts w c t clk B = Inr (g, B')" for g B'
    using that by (auto simp: run result_elims split: if_splits)
  have iff: "(\<exists>g B'. reserve_in sha fr amts w c t clk B = Inr (g, B')) \<longleftrightarrow>
        amts \<noteq> [] \<and> unused_group sha fr gid amts B
        \<and> (\<forall>(r, x) \<in> set amts. r \<in> ac_resource ` set (bg_accounts B) \<and> 0 \<le> x \<and> x \<le> available r B)"
  proof
    assume "\<exists>g B'. reserve_in sha fr amts w c t clk B = Inr (g, B')"
    with success only_if show "amts \<noteq> [] \<and> unused_group sha fr gid amts B
        \<and> (\<forall>(r, x) \<in> set amts. r \<in> ac_resource ` set (bg_accounts B) \<and> 0 \<le> x \<and> x \<le> available r B)"
      by blast
  next
    assume fit: "amts \<noteq> [] \<and> unused_group sha fr gid amts B
        \<and> (\<forall>(r, x) \<in> set amts. r \<in> ac_resource ` set (bg_accounts B) \<and> 0 \<le> x \<and> x \<le> available r B)"
    then obtain B' where "?loop = Inr B'" using fits by blast
    with fit show "\<exists>g B'. reserve_in sha fr amts w c t clk B = Inr (g, B')" by (simp add: run)
  qed
  show ?thesis
  proof (intro exI [of _ gid] conjI allI impI gid iff refused)
    fix g B' assume "reserve_in sha fr amts w c t clk B = Inr (g, B')"
    note s = success [OF this]
    show "g = \<lparr>rg_id = gid, rg_amounts = amts\<rparr>" using s by blast
    show "\<exists>vs. bg_reservations B' = bg_reservations B @ vs \<and> (\<forall>v \<in> set vs. rv_state v = RESERVED)
        \<and> map (\<lambda>v. (rv_resource v, rv_amount v)) vs = amts"
      using done_right s by blast
    show "available q B' = available q B - (case map_of amts q of None \<Rightarrow> 0 | Some x \<Rightarrow> x)" for q
      using done_right s by blast
    show "\<forall>(r, x) \<in> set amts. 0 \<le> available r B'" using room s by blast
  qed
qed

theorem reserve_admission_witness:
  "(\<exists>g B'. reserve_in (\<lambda>s. s) (\<lambda>_. []) [(''usd'', 6)] None None (Some ''a1'') (\<lambda>_. 0) one_account
     = Inr (g, B') \<and> available ''usd'' B' = 4)
   \<and> reserve_in (\<lambda>s. s) (\<lambda>_. []) [(''usd'', 12)] None None (Some ''a1'') (\<lambda>_. 0) one_account
     = Inl (BudgetExceeded ''usd'' 12 10)"
proof -
  have inj: "inj (\<lambda>s :: string. s)" by (simp add: inj_def)
  note adm = reserve_admission [OF inj one_account_history, of _ "\<lambda>_. []" None None "Some ''a1''" "\<lambda>_. 0"]
  have gid: "group_id_of (\<lambda>s. s) (\<lambda>_. []) amts None None (Some ''a1'') one_account = Inr ''a1''" for amts
    by (simp add: group_id_of_def truthy_def)
  have unused: "unused_group (\<lambda>s. s) (\<lambda>_. []) ''a1'' amts one_account" for amts
    by (simp add: unused_group_def one_account_def)
  have avail: "available ''usd'' one_account = 10" by (simp add: available_def one_account_def)
  have acc: "''usd'' \<in> ac_resource ` set (bg_accounts one_account)" by (simp add: one_account_def)
  obtain g B' where ok: "reserve_in (\<lambda>s. s) (\<lambda>_. []) [(''usd'', 6)] None None (Some ''a1'') (\<lambda>_. 0)
      one_account = Inr (g, B')"
    using adm [of "[(''usd'', 6)]"] unused avail acc by (auto simp: gid)
  then have "available ''usd'' B' = 4" using adm [of "[(''usd'', 6)]"] avail by (auto simp: gid)
  moreover have "\<nexists>g B'. reserve_in (\<lambda>s. s) (\<lambda>_. []) [(''usd'', 12)] None None (Some ''a1'') (\<lambda>_. 0)
      one_account = Inr (g, B')"
    using adm [of "[(''usd'', 12)]"] avail by (auto simp: gid)
  then obtain e where e: "reserve_in (\<lambda>s. s) (\<lambda>_. []) [(''usd'', 12)] None None (Some ''a1'') (\<lambda>_. 0)
      one_account = Inl e"
    by (metis sumE surj_pair)
  then have "e = BudgetExceeded ''usd'' 12 10"
    using adm [of "[(''usd'', 12)]"] avail acc
    by (auto simp: gid refused_pair_def one_account_def)
  ultimately show ?thesis using ok e by blast
qed

subsection \<open>Settling\<close>

text \<open>Resolving a group again finds the same rows.\<close>

lemma settled_filter_ids:
  assumes "list_all2 settled_row us vs"
  shows "map rv_id (filter (\<lambda>v. rv_attempt_id v = Some g \<or> rv_call_id v = Some g \<or> rv_id v = g) vs)
    = map rv_id (filter (\<lambda>v. rv_attempt_id v = Some g \<or> rv_call_id v = Some g \<or> rv_id v = g) us)"
  using assms by (induction rule: list_all2_induct) (auto simp: settled_row_def)

lemma settled_find_ids:
  assumes "list_all2 settled_row us vs"
  shows "map_option rv_id (find_row rv_id i vs) = map_option rv_id (find_row rv_id i us)"
  using assms by (induction rule: list_all2_induct) (auto simp: settled_row_def)

lemma settled_fallback_ids:
  assumes "list_all2 settled_row us vs"
  shows "map rv_id (fallback_rows rids vs) = map rv_id (fallback_rows rids us)"
proof (induction rids)
  case (Cons i rids)
  then show ?case
    using settled_find_ids [OF assms, of i]
    by (cases "find_row rv_id i us"; cases "find_row rv_id i vs") (auto simp: fallback_rows_Cons)
qed (simp add: fallback_rows_def)

lemma fallback_rows_subset: "set (fallback_rows rids vs) \<subseteq> set vs"
proof (induction rids)
  case (Cons i rids)
  then show ?case by (cases "find_row rv_id i vs") (auto simp: fallback_rows_Cons dest: find_row_SomeD)
qed (simp add: fallback_rows_def)

lemma group_rows_again:
  assumes "list_all2 settled_row (bg_reservations B) (bg_reservations B')"
    and "group_rows sha fr g B = Inr rows" and "group_rows sha fr g B' = Inr rows'"
  shows "map rv_id rows' = map rv_id rows \<and> set rows' \<subseteq> set (bg_reservations B')"
proof -
  note ids = settled_filter_ids [OF assms(1), of "rg_id g"]
  show ?thesis
  proof (cases "filter (\<lambda>v. rv_attempt_id v = Some (rg_id g) \<or> rv_call_id v = Some (rg_id g)
      \<or> rv_id v = rg_id g) (bg_reservations B) = []")
    case True
    then have True': "filter (\<lambda>v. rv_attempt_id v = Some (rg_id g) \<or> rv_call_id v = Some (rg_id g)
      \<or> rv_id v = rg_id g) (bg_reservations B') = []"
      using ids by simp
    obtain rids where rids: "rmap (\<lambda>(r, x). reservation_id sha fr (rg_id g) r) (rg_amounts g) = Inr rids"
      and rows: "rows = fallback_rows rids (bg_reservations B)"
      using assms(2) unfolding group_rows_def Let_def True
      by (auto simp: fallback_rows_def split: sum.splits)
    have "rows' = fallback_rows rids (bg_reservations B')"
      using assms(3) unfolding group_rows_def Let_def True' rids by (simp add: fallback_rows_def)
    then show ?thesis using fallback_rows_subset by (simp add: rows settled_fallback_ids [OF assms(1)])
  next
    case False
    then have False': "filter (\<lambda>v. rv_attempt_id v = Some (rg_id g) \<or> rv_call_id v = Some (rg_id g)
      \<or> rv_id v = rg_id g) (bg_reservations B') \<noteq> []"
      using arg_cong [OF ids, of "\<lambda>xs. xs = []"] by (simp only: map_is_Nil_conv not_False_eq_True)
    have "rows = filter (\<lambda>v. rv_attempt_id v = Some (rg_id g) \<or> rv_call_id v = Some (rg_id g)
      \<or> rv_id v = rg_id g) (bg_reservations B)"
      and "rows' = filter (\<lambda>v. rv_attempt_id v = Some (rg_id g) \<or> rv_call_id v = Some (rg_id g)
      \<or> rv_id v = rg_id g) (bg_reservations B')"
      using assms(2,3) False False' by (simp_all add: group_rows_def Let_def)
    then show ?thesis by (simp only: ids filter_is_subset simp_thms)
  qed
qed

lemma resolve_rows_settled:
  "\<forall>v \<in> set vs. rv_state v = SETTLED \<Longrightarrow> resolve_rows fn clk k vs B = ([], B)"
  by (induction vs) auto

text \<open>
  Settling never fails, and its report is honest: unless it names a resource whose actual exceeded
  the reservation, no account loses headroom; and it is idempotent, since a second settlement of the
  same group, whatever it claims was used, charges nothing and reports nothing.
\<close>

theorem settle_idempotent:
  assumes "inj sha" and "(budget_step sha fr)\<^sup>*\<^sup>* empty_budget B" and "distinct (map fst (rg_amounts g))"
  shows "\<exists>over B'. settle_in sha fr g actuals clk B = Inr (over, B')
    \<and> (over = [] \<longrightarrow> (\<forall>r. available r B \<le> available r B'))
    \<and> settle_in sha fr g actuals' clk' B' = Inr ([], B')
    \<and> keep_worst_case_in sha fr g clk' B' = Inr ([], B')
    \<and> release_in sha fr g clk' B' = Inr ([], B')"
proof -
  have ok: "budget_ok B" by (rule budget_history_ok [OF assms(1,2)])
  have again: "resolve_in sha fr g fn' clk' B' = Inr ([], B')"
    if res: "resolve_in sha fr g fn clk B = Inr (over, B')" for fn fn' over B'
  proof -
    note facts = resolve_in_Inr [OF assms(1) ok assms(3) res]
    obtain rows where rows: "group_rows sha fr g B = Inr rows"
      using group_rows_ok [OF assms(1) ok assms(3)] by blast
    obtain rows' where rows': "group_rows sha fr g B' = Inr rows'"
      using group_rows_ok [OF assms(1) facts(1) assms(3)] by blast
    have same: "map rv_id rows' = map rv_id rows" "set rows' \<subseteq> set (bg_reservations B')"
      using group_rows_again [OF facts(3) rows rows'] by auto
    have "\<forall>v \<in> set rows'. rv_state v = SETTLED"
    proof
      fix v assume v: "v \<in> set rows'"
      then have "rv_id v \<in> set (map rv_id rows)" unfolding same(1) [symmetric] by simp
      with v same(2) facts(4) [OF rows, of v] show "rv_state v = SETTLED" by auto
    qed
    then show ?thesis by (simp add: resolve_in_def rows' resolve_rows_settled)
  qed
  let ?fn = "\<lambda>resource reserved :: real. max 0 (case map_of actuals resource of None \<Rightarrow> 0 | Some x \<Rightarrow> x)"
  obtain over B' where res: "resolve_in sha fr g ?fn clk B = Inr (over, B')"
    using resolve_in_ok [OF assms(1) ok assms(3), of fr ?fn clk] by blast
  show ?thesis
  proof (intro exI conjI)
    show "settle_in sha fr g actuals clk B = Inr (over, B')" unfolding settle_in_def by (rule res)
    show "over = [] \<longrightarrow> (\<forall>r. available r B \<le> available r B')"
      using resolve_in_Inr(2) [OF assms(1) ok assms(3) res] by blast
  qed (unfold settle_in_def keep_worst_case_in_def release_in_def; rule again [OF res])+
qed

theorem settle_idempotent_witness:
  "\<exists>over B'. settle_in (\<lambda>s. s) (\<lambda>_. []) \<lparr>rg_id = ''a1'', rg_amounts = [(''usd'', 6)]\<rparr> [(''usd'', 2)]
       (\<lambda>_. 0) one_account = Inr (over, B')
     \<and> settle_in (\<lambda>s. s) (\<lambda>_. []) \<lparr>rg_id = ''a1'', rg_amounts = [(''usd'', 6)]\<rparr> [(''usd'', 9)]
       (\<lambda>_. 0) B' = Inr ([], B')"
proof -
  have inj: "inj (\<lambda>s :: string. s)" by (simp add: inj_def)
  have dist: "distinct (map fst (rg_amounts \<lparr>rg_id = ''a1'', rg_amounts = [(''usd'', 6 :: real)]\<rparr>))"
    by simp
  from settle_idempotent [OF inj one_account_history dist] show ?thesis by blast
qed

text \<open>
   The documented invariant that reserved and settled together never exceed the cap does not hold:
  settling above a reservation, and tightening a cap below what is already spent or held, each reach
  an account whose headroom is negative, although every reservation was admitted.
\<close>

theorem cap_invariant_broken:
  "(\<exists>B. (budget_step sha fr)\<^sup>*\<^sup>* empty_budget B \<and> available ''usd'' B = - 5)
   \<and> (\<exists>B B' cap. (budget_step sha fr)\<^sup>*\<^sup>* empty_budget B \<and> 0 \<le> available ''usd'' B
        \<and> ensure_account ''usd'' cap (\<lambda>_. 0) B = Inr B' \<and> available ''usd'' B' = - 2)"
proof -
  obtain rid where rid: "reservation_id sha fr ''a'' ''usd'' = Inr rid" using reservation_id_total by blast
  define acct where "acct = (\<lambda>(cap :: real) (held :: real) (spent :: real).
    \<lparr>ac_resource = ''usd'', ac_cap = cap, ac_reserved = held, ac_settled = spent, ac_updated_at = 0\<rparr>)"
  define row where "row = (\<lambda>st set. \<lparr>rv_id = rid, rv_resource = ''usd'', rv_amount = 6 :: real, rv_state = st,
    rv_settled = set, rv_work_key = None, rv_call_id = None, rv_attempt_id = Some ''a'',
    rv_created_at = 0, rv_updated_at = 0\<rparr>)"
  let ?B1 = "\<lparr>bg_accounts = [acct 10 6 0], bg_reservations = [row RESERVED None]\<rparr>"
  let ?B2 = "\<lparr>bg_accounts = [acct 10 0 15], bg_reservations = [row SETTLED (Some 15)]\<rparr>"
  let ?g = "\<lparr>rg_id = ''a'', rg_amounts = [(''usd'', 6)]\<rparr>"
  have "reserve_in sha fr [(''usd'', 6)] None None (Some ''a'') (\<lambda>_. 0) one_account = Inr (?g, ?B1)"
    by (simp add: reserve_in_def group_id_of_def truthy_def reserve_one_def rid one_account_def
        has_key_def Let_def acct_def row_def)
  then have "budget_step sha fr one_account ?B1" by (rule budget_step.reserve) simp
  with one_account_history have h1: "(budget_step sha fr)\<^sup>*\<^sup>* empty_budget ?B1"
    by (rule rtranclp.rtrancl_into_rtrancl)
  have "settle_in sha fr ?g [(''usd'', 15)] (\<lambda>_. 0) ?B1 = Inr ([(''usd'', 6, 15)], ?B2)"
    by (simp add: settle_in_def resolve_in_def group_rows_def resolve_one_def row_def acct_def Let_def)
  then have "budget_step sha fr ?B1 ?B2" by (rule budget_step.settle) simp
  with h1 have h2: "(budget_step sha fr)\<^sup>*\<^sup>* empty_budget ?B2" by (rule rtranclp.rtrancl_into_rtrancl)
  have a1: "available ''usd'' ?B1 = 4" and a2: "available ''usd'' ?B2 = - 5"
    by (simp_all add: available_def acct_def)
  let ?B3 = "\<lparr>bg_accounts = [acct 4 6 0], bg_reservations = [row RESERVED None]\<rparr>"
  have "ensure_account ''usd'' 4 (\<lambda>_. 0) ?B1 = Inr ?B3"
    by (simp add: ensure_account_def acct_def)
  moreover have "available ''usd'' ?B3 = - 2" by (simp add: available_def acct_def)
  moreover have "0 \<le> available ''usd'' ?B1" using a1 by simp
  ultimately show ?thesis using h1 h2 a2 by blast
qed

end
