(* ===== verification/HandleCodec.thy ===== *)
theory HandleCodec
  imports Canonical
begin

text \<open>
  \<^verbatim>\<open>src/src/shapeflow/p1/handle_codec.py\<close>: the encoding of a publication handle. Structural
  coordinates are packed by mixed radix and rendered in bijective base 26 behind the letter H. An
  argument is a Python value (\<open>pyval\<close>), since the code rejects booleans and other types itself.
\<close>

record handle_radices =
  hr_researcher_iteration :: int
  hr_child_ordinal :: int
  hr_assistant_turn :: int
  hr_toolset :: int
  hr_evidence :: int

datatype handle_error =
    HandleDomainError string
  | HandleFormatError string
  | RadixError string

definition alphabet :: string where
  "alphabet = ''abcdefghijklmnopqrstuvwxyz''"

definition handle_prefix :: char where
  "handle_prefix = CHR ''H''"

text \<open>\<open>__post_init__\<close>: every radix is a positive integer, and a boolean is not one.\<close>

definition positive_radix :: "string \<Rightarrow> pyval \<Rightarrow> handle_error + int" where
  "positive_radix name v =
     (case v of PInt i \<Rightarrow> if i < 1 then Inl (RadixError name) else Inr i | _ \<Rightarrow> Inl (RadixError name))"

definition make_radices ::
  "pyval \<Rightarrow> pyval \<Rightarrow> pyval \<Rightarrow> pyval \<Rightarrow> pyval \<Rightarrow> handle_error + handle_radices" where
  "make_radices researcher_iteration child_ordinal assistant_turn toolset evidence =
     rbind (positive_radix ''researcher_iteration'' researcher_iteration) (\<lambda>i.
     rbind (positive_radix ''child_ordinal'' child_ordinal) (\<lambda>c.
     rbind (positive_radix ''assistant_turn'' assistant_turn) (\<lambda>a.
     rbind (positive_radix ''toolset'' toolset) (\<lambda>t.
     rbind (positive_radix ''evidence'' evidence) (\<lambda>e.
       Inr \<lparr>hr_researcher_iteration = i, hr_child_ordinal = c, hr_assistant_turn = a,
         hr_toolset = t, hr_evidence = e\<rparr>)))))"

definition structural :: "handle_radices \<Rightarrow> int" where
  "structural r = 1 + hr_researcher_iteration r * hr_child_ordinal r"

definition capacity :: "handle_radices \<Rightarrow> int" where
  "capacity r = structural r * hr_assistant_turn r * hr_toolset r * hr_evidence r"

definition frozen_radices :: handle_radices where
  "frozen_radices = \<lparr>hr_researcher_iteration = 8, hr_child_ordinal = 2, hr_assistant_turn = 16,
     hr_toolset = 4, hr_evidence = 24000\<rparr>"

subsection \<open>The nested-researcher coordinate\<close>

definition below_radix :: "string \<Rightarrow> pyval \<Rightarrow> int \<Rightarrow> handle_error + int" where
  "below_radix name v radix =
     (case v of
        PInt i \<Rightarrow> if i < 0 \<or> radix \<le> i then Inl (HandleDomainError name) else Inr i
      | _ \<Rightarrow> Inl (HandleDomainError name))"

definition structural_ordinal ::
  "handle_radices \<Rightarrow> (pyval \<times> pyval) option \<Rightarrow> handle_error + int" where
  "structural_ordinal r coordinate =
     (case coordinate of
        None \<Rightarrow> Inr 0
      | Some (iteration, child) \<Rightarrow>
          rbind (below_radix ''researcher iteration'' iteration (hr_researcher_iteration r)) (\<lambda>i.
          rbind (below_radix ''child ordinal'' child (hr_child_ordinal r)) (\<lambda>c.
            Inr (1 + i * hr_child_ordinal r + c))))"

subsection \<open>Bijective base 26\<close>

text \<open>The loop conses each digit in front of \<open>out\<close>, which is the reversal at its end.\<close>

function bijective_loop :: "int \<Rightarrow> string \<Rightarrow> string" where
  "bijective_loop v out =
     (if v > 0 then bijective_loop ((v - 1) div 26) (alphabet ! nat ((v - 1) mod 26) # out) else out)"
  by pat_completeness auto
termination by (relation "measure (\<lambda>(v, out). nat v)") auto

declare bijective_loop.simps [simp del]

definition bijective_encode :: "int \<Rightarrow> string" where
  "bijective_encode v = bijective_loop v []"

text \<open>The dictionary \<open>_VALUE\<close>: a letter's 1-based position in the alphabet.\<close>

fun index_from :: "int \<Rightarrow> char \<Rightarrow> string \<Rightarrow> int option" where
  "index_from k c [] = None"
| "index_from k c (x # xs) = (if x = c then Some k else index_from (k + 1) c xs)"

definition digit_value :: "char \<Rightarrow> int option" where
  "digit_value c = index_from 1 c alphabet"

definition digit_step :: "string \<Rightarrow> char \<Rightarrow> int \<Rightarrow> handle_error + int" where
  "digit_step body c v =
     (case digit_value c of
        None \<Rightarrow> Inl (HandleFormatError body) | Some d \<Rightarrow> Inr (v * 26 + d))"

definition bijective_decode :: "string \<Rightarrow> handle_error + int" where
  "bijective_decode body = rfold (digit_step body) body 0"

subsection \<open>Packing\<close>

definition in_domain :: "string \<Rightarrow> pyval \<Rightarrow> int \<Rightarrow> int \<Rightarrow> handle_error + int" where
  "in_domain name v radix low =
     (case v of
        PInt i \<Rightarrow> if i < low then Inl (HandleDomainError name)
                  else if i - low \<ge> radix then Inl (HandleDomainError name) else Inr i
      | _ \<Rightarrow> Inl (HandleDomainError name))"

definition pack_handle ::
  "pyval \<Rightarrow> pyval \<Rightarrow> pyval \<Rightarrow> pyval \<Rightarrow> handle_radices \<Rightarrow> handle_error + int" where
  "pack_handle st assistant_turn toolset evidence r =
     rbind (in_domain ''structural ordinal'' st (structural r) 0) (\<lambda>s.
     rbind (in_domain ''assistant turn index'' assistant_turn (hr_assistant_turn r) 0) (\<lambda>a.
     rbind (in_domain ''toolset ordinal'' toolset (hr_toolset r) 0) (\<lambda>t.
     rbind (in_domain ''evidence ordinal'' evidence (hr_evidence r) 1) (\<lambda>e.
       Inr (((s * hr_assistant_turn r + a) * hr_toolset r + t) * hr_evidence r + (e - 1))))))"

definition encode ::
  "handle_radices \<Rightarrow> pyval \<Rightarrow> pyval \<Rightarrow> pyval \<Rightarrow> pyval \<Rightarrow> handle_error + string" where
  "encode r st assistant_turn toolset evidence =
     rbind (pack_handle st assistant_turn toolset evidence r)
       (\<lambda>index. Inr (handle_prefix # bijective_encode (index + 1)))"

definition decode :: "handle_radices \<Rightarrow> pyval \<Rightarrow> handle_error + int \<times> int \<times> int \<times> int" where
  "decode r handle =
     (case handle of
        PStr (h # body) \<Rightarrow>
          if h \<noteq> handle_prefix \<or> body = [] then Inl (HandleFormatError (h # body))
          else rbind (bijective_decode body) (\<lambda>v.
            if v - 1 < 0 \<or> v - 1 \<ge> capacity r then Inl (HandleFormatError (h # body))
            else
              let index1 = (v - 1) div hr_evidence r; evidence = (v - 1) mod hr_evidence r;
                  index2 = index1 div hr_toolset r; toolset = index1 mod hr_toolset r
              in Inr (index2 div hr_assistant_turn r, index2 mod hr_assistant_turn r, toolset,
                      evidence + 1))
      | PStr [] \<Rightarrow> Inl (HandleFormatError [])
      | _ \<Rightarrow> Inl (HandleFormatError ''not a string''))"

text \<open>A raise of \<open>decode\<close> is caught; one of the second \<open>encode\<close> would not be.\<close>

definition validate_handle :: "handle_radices \<Rightarrow> pyval \<Rightarrow> handle_error + bool" where
  "validate_handle r handle =
     (case decode r handle of
        Inl err \<Rightarrow> Inr False
      | Inr (s, a, t, e) \<Rightarrow>
          rbind (encode r (PInt s) (PInt a) (PInt t) (PInt e)) (\<lambda>h. Inr (PStr h = handle)))"

definition max_encoded_width :: "handle_radices \<Rightarrow> nat" where
  "max_encoded_width r = length (bijective_encode (capacity r))"

definition iter_domain :: "handle_radices \<Rightarrow> string list" where
  "iter_domain r = map (\<lambda>i. handle_prefix # bijective_encode (int i + 1)) [0..<nat (capacity r)]"

subsection \<open>Bijective numeration\<close>

lemma rfold_append: "rfold f (xs @ ys) s = rbind (rfold f xs s) (rfold f ys)"
  by (induction xs arbitrary: s) (simp_all add: rbind_def split: sum.splits)

lemma bijective_loop_out: "bijective_loop v (out @ out') = bijective_loop v out @ out'"
proof (induction v out rule: bijective_loop.induct)
  case (1 v out)
  then show ?case by (subst (1 2) bijective_loop.simps) simp
qed

lemma bijective_encode_step:
  assumes "0 < v"
  shows "bijective_encode v = bijective_encode ((v - 1) div 26) @ [alphabet ! nat ((v - 1) mod 26)]"
  using assms bijective_loop_out [of "(v - 1) div 26" "[]" "[alphabet ! nat ((v - 1) mod 26)]"]
  by (simp add: bijective_encode_def bijective_loop.simps [of v])

lemma bijective_encode_0: "v \<le> 0 \<Longrightarrow> bijective_encode v = []"
  by (simp add: bijective_encode_def bijective_loop.simps)

lemma bijective_induct [consumes 1, case_names zero step]:
  assumes "0 \<le> (v :: int)" and "P 0" and "\<And>v. 0 < v \<Longrightarrow> P ((v - 1) div 26) \<Longrightarrow> P v"
  shows "P v"
  using assms(1)
proof (induction "nat v" arbitrary: v rule: less_induct)
  case less
  show ?case
  proof (cases "v = 0")
    case False
    with less.prems have "0 < v" "nat ((v - 1) div 26) < nat v" "0 \<le> (v - 1) div 26" by auto
    with less.hyps assms(3) show ?thesis by blast
  qed (simp add: assms(2))
qed

lemma index_from_Some:
  "index_from k c xs = Some d \<Longrightarrow> k \<le> d \<and> d < k + int (length xs) \<and> xs ! nat (d - k) = c"
proof (induction xs arbitrary: k)
  case (Cons x xs)
  show ?case
  proof (cases "x = c")
    case False
    with Cons have "k + 1 \<le> d \<and> d < k + 1 + int (length xs) \<and> xs ! nat (d - (k + 1)) = c" by simp
    moreover from this have "nat (d - k) = Suc (nat (d - (k + 1)))" by linarith
    ultimately show ?thesis by simp
  qed (use Cons in auto)
qed simp

lemma index_from_nth:
  "distinct xs \<Longrightarrow> i < length xs \<Longrightarrow> index_from k (xs ! i) xs = Some (k + int i)"
  by (induction xs arbitrary: i k) (auto simp: nth_Cons split: nat.splits)

lemma alphabet_facts: "distinct alphabet" "length alphabet = 26"
  by (simp_all add: alphabet_def)

lemma digit_value_nth: "0 \<le> k \<Longrightarrow> k < 26 \<Longrightarrow> digit_value (alphabet ! nat k) = Some (k + 1)"
  using index_from_nth [OF alphabet_facts(1), of "nat k" 1] alphabet_facts(2)
  by (simp add: digit_value_def)

lemma digit_value_Some: "digit_value c = Some d \<Longrightarrow> 1 \<le> d \<and> d \<le> 26 \<and> alphabet ! nat (d - 1) = c"
  using index_from_Some [of 1 c alphabet d] alphabet_facts(2) by (simp add: digit_value_def)

lemma decode_bijective_encode: "0 \<le> v \<Longrightarrow> rfold (digit_step body) (bijective_encode v) 0 = Inr v"
proof (induction v rule: bijective_induct)
  case (step v)
  then show ?case
    by (simp add: bijective_encode_step rfold_append digit_step_def digit_value_nth)
qed (simp add: bijective_encode_0)

lemma digit_step_Inr:
  "digit_step body c u = Inr v \<longleftrightarrow> (\<exists>d. digit_value c = Some d \<and> v = u * 26 + d)"
  by (auto simp: digit_step_def split: option.splits)

lemma bijective_encode_decode:
  "rfold (digit_step body) s 0 = Inr v \<Longrightarrow> 0 \<le> v \<and> bijective_encode v = s"
proof (induction s arbitrary: v rule: rev_induct)
  case (snoc c s)
  then obtain u d where u: "rfold (digit_step body) s 0 = Inr u" and d: "digit_value c = Some d"
    and v: "v = u * 26 + d"
    by (auto simp: rfold_append digit_step_Inr result_elims)
  have "0 \<le> u" "1 \<le> d" "d \<le> 26" using snoc.IH [OF u] digit_value_Some [OF d] by auto
  then have digits: "0 < v" "(v - 1) div 26 = u" "(v - 1) mod 26 = d - 1" unfolding v by presburger+
  from bijective_encode_step [OF digits(1)] digits snoc.IH [OF u] digit_value_Some [OF d]
  show ?case by simp
qed (simp add: bijective_encode_0)

lemma bijective_encode_inject:
  "0 \<le> v \<Longrightarrow> 0 \<le> w \<Longrightarrow> bijective_encode v = bijective_encode w \<longleftrightarrow> v = w"
  by (metis decode_bijective_encode sum.inject(2))

lemma bijective_encode_mono:
  "0 \<le> v \<Longrightarrow> v \<le> w \<Longrightarrow> length (bijective_encode v) \<le> length (bijective_encode w)"
proof (induction v arbitrary: w rule: bijective_induct)
  case (step v)
  then have "(v - 1) div 26 \<le> (w - 1) div 26" by (intro zdiv_mono1) auto
  with step show ?case by (simp add: bijective_encode_step [of v] bijective_encode_step [of w])
qed (simp add: bijective_encode_0)

lemma bijective_encode_nonempty: "0 < v \<Longrightarrow> bijective_encode v \<noteq> []"
  by (simp add: bijective_encode_step)

lemma bijective_encode_letters: "0 \<le> v \<Longrightarrow> set (bijective_encode v) \<subseteq> set alphabet"
proof (induction v rule: bijective_induct)
  case (step v)
  have "nat ((v - 1) mod 26) < length alphabet" using alphabet_facts(2) by (simp add: nat_less_iff)
  then have "alphabet ! nat ((v - 1) mod 26) \<in> set alphabet" by (rule nth_mem)
  with step show ?case by (simp add: bijective_encode_step)
qed (simp add: bijective_encode_0)

subsection \<open>Mixed radix\<close>

lemma pack_bounds:
  fixes x y :: int
  assumes "0 \<le> x" and "x < X" and "0 \<le> y" and "y < Y"
  shows "0 \<le> x * Y + y \<and> x * Y + y < X * Y"
proof -
  have "x * Y + y < (x + 1) * Y" using assms by (simp add: algebra_simps)
  also have "\<dots> \<le> X * Y" using assms by (intro mult_right_mono) auto
  finally show ?thesis using assms by simp
qed

lemma pack_unpack:
  fixes x y Y :: int
  assumes "0 \<le> y" and "y < Y"
  shows "(x * Y + y) div Y = x" and "(x * Y + y) mod Y = y"
  using assms by simp_all

lemma unpack_bounds:
  fixes i :: int
  assumes "0 \<le> i" and "i < X * Y" and "0 < Y"
  shows "0 \<le> i div Y \<and> i div Y < X \<and> 0 \<le> i mod Y \<and> i mod Y < Y \<and> i div Y * Y + i mod Y = i"
proof -
  have "i div Y < X"
  proof (rule ccontr)
    assume "\<not> i div Y < X"
    then have "X * Y \<le> i div Y * Y" using assms(3) by (intro mult_right_mono) auto
    also have "\<dots> \<le> i" using assms(3) div_mult_mod_eq [of i Y] pos_mod_sign [of Y i] by linarith
    finally show False using assms(2) by simp
  qed
  with assms show ?thesis by (simp add: pos_imp_zdiv_nonneg_iff)
qed

lemma make_radices_pos:
  assumes "make_radices p1 p2 p3 p4 p5 = Inr r"
  shows "1 \<le> hr_researcher_iteration r \<and> 1 \<le> hr_child_ordinal r \<and> 1 \<le> hr_assistant_turn r
    \<and> 1 \<le> hr_toolset r \<and> 1 \<le> hr_evidence r"
  using assms
  by (auto simp: make_radices_def positive_radix_def result_elims split: pyval.splits if_splits)

lemma in_domain_Inr:
  "in_domain name v radix low = Inr i \<longleftrightarrow> v = PInt i \<and> low \<le> i \<and> i - low < radix"
  by (auto simp: in_domain_def split: pyval.splits)

text \<open>The packed index of coordinates in the domain, and its coordinates.\<close>

definition in_range :: "handle_radices \<Rightarrow> int \<Rightarrow> int \<Rightarrow> int \<Rightarrow> int \<Rightarrow> bool" where
  "in_range r s a t e \<longleftrightarrow> 0 \<le> s \<and> s < structural r \<and> 0 \<le> a \<and> a < hr_assistant_turn r
     \<and> 0 \<le> t \<and> t < hr_toolset r \<and> 1 \<le> e \<and> e \<le> hr_evidence r"

definition index_of :: "handle_radices \<Rightarrow> int \<Rightarrow> int \<Rightarrow> int \<Rightarrow> int \<Rightarrow> int" where
  "index_of r s a t e = ((s * hr_assistant_turn r + a) * hr_toolset r + t) * hr_evidence r + (e - 1)"

definition coordinates_of :: "handle_radices \<Rightarrow> int \<Rightarrow> int \<times> int \<times> int \<times> int" where
  "coordinates_of r i =
     (let j = i div hr_evidence r; k = j div hr_toolset r
      in (k div hr_assistant_turn r, k mod hr_assistant_turn r, j mod hr_toolset r, i mod hr_evidence r + 1))"

lemma index_of_bounds:
  assumes "in_range r s a t e"
  shows "0 \<le> index_of r s a t e \<and> index_of r s a t e < capacity r"
proof -
  have 1: "0 \<le> s * hr_assistant_turn r + a
      \<and> s * hr_assistant_turn r + a < structural r * hr_assistant_turn r"
    by (rule pack_bounds) (use assms in \<open>auto simp: in_range_def\<close>)
  have 2: "0 \<le> (s * hr_assistant_turn r + a) * hr_toolset r + t \<and>
      (s * hr_assistant_turn r + a) * hr_toolset r + t < structural r * hr_assistant_turn r * hr_toolset r"
    by (rule pack_bounds) (use assms 1 in \<open>auto simp: in_range_def\<close>)
  show ?thesis
    unfolding index_of_def capacity_def
    by (rule pack_bounds) (use assms 2 in \<open>auto simp: in_range_def\<close>)
qed

lemma coordinates_of_index:
  assumes "in_range r s a t e"
  shows "coordinates_of r (index_of r s a t e) = (s, a, t, e)"
proof -
  have "0 \<le> e - 1" "e - 1 < hr_evidence r" "0 \<le> t" "t < hr_toolset r" "0 \<le> a" "a < hr_assistant_turn r"
    using assms by (auto simp: in_range_def)
  then show ?thesis
    by (simp only: index_of_def coordinates_of_def Let_def pack_unpack) simp
qed

lemma index_of_coordinates:
  assumes "0 \<le> i" and "i < capacity r"
    and "1 \<le> hr_assistant_turn r" and "1 \<le> hr_toolset r" and "1 \<le> hr_evidence r"
    and "coordinates_of r i = (s, a, t, e)"
  shows "in_range r s a t e \<and> index_of r s a t e = i"
proof -
  define j where "j = i div hr_evidence r"
  define k where "k = j div hr_toolset r"
  have i: "0 \<le> j \<and> j < structural r * hr_assistant_turn r * hr_toolset r \<and> 0 \<le> i mod hr_evidence r
      \<and> i mod hr_evidence r < hr_evidence r \<and> j * hr_evidence r + i mod hr_evidence r = i"
    unfolding j_def by (rule unpack_bounds) (use assms in \<open>auto simp: capacity_def\<close>)
  have j: "0 \<le> k \<and> k < structural r * hr_assistant_turn r \<and> 0 \<le> j mod hr_toolset r
      \<and> j mod hr_toolset r < hr_toolset r \<and> k * hr_toolset r + j mod hr_toolset r = j"
    unfolding k_def by (rule unpack_bounds) (use assms i in auto)
  have k: "0 \<le> k div hr_assistant_turn r \<and> k div hr_assistant_turn r < structural r
      \<and> 0 \<le> k mod hr_assistant_turn r \<and> k mod hr_assistant_turn r < hr_assistant_turn r
      \<and> k div hr_assistant_turn r * hr_assistant_turn r + k mod hr_assistant_turn r = k"
    by (rule unpack_bounds) (use assms j in auto)
  have "s = k div hr_assistant_turn r" "a = k mod hr_assistant_turn r" "t = j mod hr_toolset r"
    "e = i mod hr_evidence r + 1"
    using assms(6) by (simp_all add: coordinates_of_def Let_def j_def k_def)
  with i j k show ?thesis by (simp add: in_range_def index_of_def)
qed

lemma encode_Inr:
  "encode r x y z w = Inr h \<longleftrightarrow> (\<exists>s a t e. x = PInt s \<and> y = PInt a \<and> z = PInt t \<and> w = PInt e
     \<and> in_range r s a t e \<and> h = handle_prefix # bijective_encode (index_of r s a t e + 1))"
  by (auto simp: encode_def pack_handle_def in_domain_Inr in_range_def index_of_def result_elims)

lemma decode_Inr:
  "decode r v = Inr c \<longleftrightarrow> (\<exists>body i. v = PStr (handle_prefix # body) \<and> body \<noteq> []
     \<and> bijective_decode body = Inr (i + 1) \<and> 0 \<le> i \<and> i < capacity r \<and> c = coordinates_of r i)"
  (is "?l = ?r")
proof
  assume ?l
  then obtain body w where "v = PStr (handle_prefix # body)" "body \<noteq> []"
    "bijective_decode body = Inr w" "0 \<le> w - 1" "w - 1 < capacity r" "c = coordinates_of r (w - 1)"
    unfolding decode_def coordinates_of_def Let_def
    by (auto simp: result_elims not_less not_le split: pyval.splits list.splits if_splits)
  then show ?r by (intro exI [of _ body] exI [of _ "w - 1"]) auto
next
  assume ?r
  then show ?l by (auto simp: decode_def coordinates_of_def Let_def)
qed

lemma encode_radices_pos: "in_range r s a t e \<Longrightarrow> 1 \<le> hr_assistant_turn r \<and> 1 \<le> hr_toolset r \<and> 1 \<le> hr_evidence r"
  by (auto simp: in_range_def)

lemma decode_encode:
  assumes "encode r x y z w = Inr h"
  shows "\<exists>s a t e. x = PInt s \<and> y = PInt a \<and> z = PInt t \<and> w = PInt e \<and> decode r (PStr h) = Inr (s, a, t, e)"
proof -
  from assms obtain s a t e where args: "x = PInt s" "y = PInt a" "z = PInt t" "w = PInt e"
    and range: "in_range r s a t e" and h: "h = handle_prefix # bijective_encode (index_of r s a t e + 1)"
    by (auto simp: encode_Inr)
  let ?i = "index_of r s a t e"
  have i: "0 \<le> ?i" "?i < capacity r" using index_of_bounds [OF range] by auto
  then have "bijective_decode (bijective_encode (?i + 1)) = Inr (?i + 1)"
    by (simp add: bijective_decode_def decode_bijective_encode)
  moreover have "bijective_encode (?i + 1) \<noteq> []" using i by (simp add: bijective_encode_nonempty)
  ultimately have "decode r (PStr h) = Inr (s, a, t, e)"
    using i coordinates_of_index [OF range] unfolding decode_Inr h by (metis (lifting))
  with args show ?thesis by simp
qed

lemma encode_decode:
  assumes "make_radices p1 p2 p3 p4 p5 = Inr r" and "decode r v = Inr (s, a, t, e)"
  shows "\<exists>h. encode r (PInt s) (PInt a) (PInt t) (PInt e) = Inr h \<and> v = PStr h"
proof -
  from assms(2) obtain body i where v: "v = PStr (handle_prefix # body)"
    and body: "bijective_decode body = Inr (i + 1)" and i: "0 \<le> i" "i < capacity r"
    and c: "coordinates_of r i = (s, a, t, e)"
    by (auto simp: decode_Inr)
  have "in_range r s a t e \<and> index_of r s a t e = i"
    using make_radices_pos [OF assms(1)] by (intro index_of_coordinates i c) auto
  moreover have "bijective_encode (i + 1) = body"
    using bijective_encode_decode body unfolding bijective_decode_def by blast
  ultimately show ?thesis by (simp add: encode_Inr v)
qed

lemma structural_ordinal_range:
  assumes "make_radices p1 p2 p3 p4 p5 = Inr r" and "structural_ordinal r c = Inr s"
  shows "0 \<le> s \<and> s < structural r"
proof (cases c)
  case (Some q)
  then obtain i k where s: "s = 1 + (i * hr_child_ordinal r + k)" and "0 \<le> i" "i < hr_researcher_iteration r"
    "0 \<le> k" "k < hr_child_ordinal r"
    using assms(2)
    by (cases q) (auto simp: structural_ordinal_def below_radix_def result_elims not_less not_le
        split: pyval.splits if_splits)
  then show ?thesis using pack_bounds [of i "hr_researcher_iteration r" k "hr_child_ordinal r"]
    by (simp add: structural_def)
qed (use assms make_radices_pos [OF assms(1)] in
    \<open>auto simp: structural_ordinal_def structural_def intro!: add_pos_nonneg\<close>)

lemma structural_ordinal_inject:
  assumes "structural_ordinal r c = Inr s" and "structural_ordinal r c' = Inr s"
  shows "c = c'"
proof -
  have shape: "(c = None \<and> s = 0) \<or> (\<exists>i k. c = Some (PInt i, PInt k) \<and> 0 \<le> i \<and> 0 \<le> k
      \<and> k < hr_child_ordinal r \<and> s = 1 + (i * hr_child_ordinal r + k))"
    if "structural_ordinal r c = Inr s" for c
    using that by (auto simp: structural_ordinal_def below_radix_def result_elims not_less not_le
        split: pyval.splits if_splits option.splits prod.splits)
  have pos: "0 \<le> i * hr_child_ordinal r + k" if "0 \<le> i" "0 \<le> k" "k < hr_child_ordinal r" for i k :: int
    using that by simp
  from shape [OF assms(1)] shape [OF assms(2)] show ?thesis
  proof (elim disjE exE conjE)
    fix i k i' k'
    assume cs: "c = Some (PInt i, PInt k)" "c' = Some (PInt i', PInt k')"
      and r: "0 \<le> k" "k < hr_child_ordinal r" "0 \<le> k'" "k' < hr_child_ordinal r"
      and s: "s = 1 + (i * hr_child_ordinal r + k)" "s = 1 + (i' * hr_child_ordinal r + k')"
    then have "i * hr_child_ordinal r + k = i' * hr_child_ordinal r + k'" by simp
    with pack_unpack [OF r(1,2), of i] pack_unpack [OF r(3,4), of i'] cs show ?thesis by simp
  qed (use pos in \<open>fastforce+\<close>)
qed

lemma iter_domain_iff:
  "h \<in> set (iter_domain r) \<longleftrightarrow>
     (\<exists>i. 0 \<le> i \<and> i < capacity r \<and> h = handle_prefix # bijective_encode (i + 1))"
proof
  assume "h \<in> set (iter_domain r)"
  then obtain n where "n < nat (capacity r)" "h = handle_prefix # bijective_encode (int n + 1)"
    by (auto simp: iter_domain_def)
  then show "\<exists>i. 0 \<le> i \<and> i < capacity r \<and> h = handle_prefix # bijective_encode (i + 1)"
    by (intro exI [of _ "int n"]) auto
qed (auto simp: iter_domain_def intro!: image_eqI [of _ _ "nat _"])

subsection \<open>Properties\<close>

text \<open>
  C15. A handle names one span for ever: what \<open>encode\<close> produced decodes to the coordinates it was
  given, whatever \<open>decode\<close> accepts is exactly the handle \<open>encode\<close> produces for the result (no
  second spelling), and two publications under one handle have the same researcher position, turn,
  tool set and evidence ordinal.
\<close>

theorem handle_roundtrip:
  assumes "make_radices p1 p2 p3 p4 p5 = Inr r"
  shows "(encode r (PInt s) (PInt a) (PInt t) (PInt e) = Inr h
      \<longleftrightarrow> decode r (PStr h) = Inr (s, a, t, e))
    \<and> (structural_ordinal r c = Inr s1 \<and> structural_ordinal r c' = Inr s2
       \<and> encode r (PInt s1) x y z = Inr h \<and> encode r (PInt s2) x' y' z' = Inr h
       \<longrightarrow> c = c' \<and> x = x' \<and> y = y' \<and> z = z')"
proof (intro conjI impI iffI)
  assume "encode r (PInt s) (PInt a) (PInt t) (PInt e) = Inr h"
  then show "decode r (PStr h) = Inr (s, a, t, e)" using decode_encode by fastforce
next
  assume "decode r (PStr h) = Inr (s, a, t, e)"
  then show "encode r (PInt s) (PInt a) (PInt t) (PInt e) = Inr h"
    using encode_decode [OF assms] by fastforce
next
  assume *: "structural_ordinal r c = Inr s1 \<and> structural_ordinal r c' = Inr s2
       \<and> encode r (PInt s1) x y z = Inr h \<and> encode r (PInt s2) x' y' z' = Inr h"
  then have same: "s1 = s2" "x = x'" "y = y'" "z = z'"
    using decode_encode [of r "PInt s1" x y z h] decode_encode [of r "PInt s2" x' y' z' h] by auto
  then show "x = x'" "y = y'" "z = z'" by blast+
  from * same(1) show "c = c'" by (blast intro: structural_ordinal_inject)
qed

lemma make_frozen_radices:
  "make_radices (PInt 8) (PInt 2) (PInt 16) (PInt 4) (PInt 24000) = Inr frozen_radices"
  by (simp add: make_radices_def positive_radix_def frozen_radices_def)

theorem handle_roundtrip_witness:
  "decode frozen_radices (PStr ''Hjgpos'') = Inr (3, 1, 0, 17)"
proof -
  have "encode frozen_radices (PInt 3) (PInt 1) (PInt 0) (PInt 17) = Inr ''Hjgpos''" by code_simp
  then show ?thesis using handle_roundtrip [OF make_frozen_radices] by blast
qed

text \<open>
  The one grammar: \<open>validate\<close> never raises, and accepts exactly the strings \<open>iter_domain\<close> lists;
  these are pairwise different, as many as the capacity, and each is the letter H followed by at
  least one lowercase letter and at most \<open>max_encoded_width\<close>, which is six for the frozen radices.
\<close>

theorem validate_iff_domain:
  assumes "make_radices p1 p2 p3 p4 p5 = Inr r"
  shows "validate_handle r (PStr h) = Inr (h \<in> set (iter_domain r))
    \<and> distinct (iter_domain r) \<and> int (length (iter_domain r)) = capacity r
    \<and> (h \<in> set (iter_domain r) \<longrightarrow> hd h = handle_prefix \<and> set (tl h) \<subseteq> set alphabet
         \<and> 2 \<le> length h \<and> length h \<le> 1 + max_encoded_width r)
    \<and> max_encoded_width frozen_radices = 6"
proof (intro conjI impI)
  have cap: "0 \<le> capacity r"
    using make_radices_pos [OF assms] by (simp add: capacity_def structural_def)
  have dom: "h \<in> set (iter_domain r) \<longleftrightarrow> (\<exists>c. decode r (PStr h) = Inr c)"
  proof
    assume "h \<in> set (iter_domain r)"
    then obtain i where i: "0 \<le> i" "i < capacity r" "h = handle_prefix # bijective_encode (i + 1)"
      by (auto simp: iter_domain_iff)
    then have "decode r (PStr h) = Inr (coordinates_of r i)"
      by (auto simp: decode_Inr bijective_decode_def bijective_encode_nonempty
          intro!: exI [of _ i] decode_bijective_encode)
    then show "\<exists>c. decode r (PStr h) = Inr c" ..
  next
    assume "\<exists>c. decode r (PStr h) = Inr c"
    then obtain body i where "h = handle_prefix # body" "0 \<le> i" "i < capacity r"
      "bijective_encode (i + 1) = body"
      using bijective_encode_decode by (auto simp: decode_Inr bijective_decode_def)
    then show "h \<in> set (iter_domain r)" by (auto simp: iter_domain_iff)
  qed
  show "validate_handle r (PStr h) = Inr (h \<in> set (iter_domain r))"
  proof (cases "decode r (PStr h)")
    case (Inr c)
    then show ?thesis using dom encode_decode [OF assms] by (cases c) (fastforce simp: validate_handle_def)
  qed (use dom in \<open>simp add: validate_handle_def\<close>)
  show "distinct (iter_domain r)"
    by (auto simp: iter_domain_def distinct_map inj_on_def bijective_encode_inject)
  show "int (length (iter_domain r)) = capacity r" using cap by (simp add: iter_domain_def)
  show "max_encoded_width frozen_radices = 6" by code_simp
next
  assume "h \<in> set (iter_domain r)"
  then obtain i where i: "0 \<le> i" "i < capacity r" "h = handle_prefix # bijective_encode (i + 1)"
    by (auto simp: iter_domain_iff)
  then have "bijective_encode (i + 1) \<noteq> []" by (simp add: bijective_encode_nonempty)
  moreover have "length (bijective_encode (i + 1)) \<le> max_encoded_width r"
    using i by (simp add: max_encoded_width_def bijective_encode_mono)
  moreover have "set (bijective_encode (i + 1)) \<subseteq> set alphabet" using i by (simp add: bijective_encode_letters)
  ultimately show "hd h = handle_prefix" "set (tl h) \<subseteq> set alphabet" "2 \<le> length h"
    "length h \<le> 1 + max_encoded_width r"
    using i(3) by (auto simp: Suc_le_eq)
qed

theorem validate_iff_domain_witness:
  "''Hbecqer'' \<in> set (iter_domain frozen_radices) \<and> ''Hbecqes'' \<notin> set (iter_domain frozen_radices)"
proof -
  have "validate_handle frozen_radices (PStr ''Hbecqer'') = Inr True"
    and "validate_handle frozen_radices (PStr ''Hbecqes'') = Inr False"
    by code_simp+
  then show ?thesis by (simp add: validate_iff_domain [OF make_frozen_radices])
qed

end
