(* ===== verification/ObjectStore.thy ===== *)
theory ObjectStore
  imports Hashing
begin

text \<open>
  \<^verbatim>\<open>src/src/shapeflow/object_store.py\<close>: the content-addressed blob store. The directory tree is
  an association list from paths (below the root) to file contents; a write is the sequence of
  file-system operations the code makes, so that a crash or an \<open>OSError\<close> can fall between any two
  of them. zstandard is the pair of parameters \<open>deflate\<close> and \<open>inflate\<close> (\<open>None\<close> is a \<open>ZstdError\<close>), the
  digest is \<open>sha\<close>. Bytes are strings. The write of the
  temporary file is one operation: a temporary file is never read, so a partial one differs from a whole one
  in nothing that is visible. File modes and fsync have no effect on contents: a rename is taken to be durable.
\<close>

record object_ref =
  or_key :: string
  or_raw_size :: int
  or_stored_size :: int

datatype store_error =
    NotAKey string
  | MissingObject string
  | CorruptObject string
  | NotBytes
  | WriteFailed

type_synonym files = "(string \<times> string) list"

definition hex_chars :: string where
  "hex_chars = ''0123456789abcdef''"

text \<open>\<open>key[:2] / key[2:4] / key.zst\<close>.\<close>

definition shard_dir :: "string \<Rightarrow> string" where
  "shard_dir key = take 2 key @ ''/'' @ take 2 (drop 2 key) @ ''/''"

definition path_for :: "string \<Rightarrow> store_error + string" where
  "path_for key =
     (if length key \<noteq> 64 \<or> (\<exists>c \<in> set key. c \<notin> set hex_chars) then Inl (NotAKey key)
      else Inr (shard_dir key @ key @ ''.zst''))"

definition has_object :: "string \<Rightarrow> files \<Rightarrow> store_error + bool" where
  "has_object key fs = rbind (path_for key) (\<lambda>p. Inr (map_of fs p \<noteq> None))"

subsection \<open>Writing\<close>

datatype fs_op =
    CreateTemp string
  | WriteFile string string
  | ReplaceFile string string

definition remove_file :: "string \<Rightarrow> files \<Rightarrow> files" where
  "remove_file p fs = filter (\<lambda>f. fst f \<noteq> p) fs"

fun run_op :: "fs_op \<Rightarrow> files \<Rightarrow> files" where
  "run_op (CreateTemp tmp) fs = dict_put tmp [] fs"
| "run_op (WriteFile tmp contents) fs = dict_put tmp contents fs"
| "run_op (ReplaceFile tmp final) fs =
     (case map_of fs tmp of None \<Rightarrow> fs | Some c \<Rightarrow> dict_put final c (remove_file tmp fs))"

definition run_ops :: "fs_op list \<Rightarrow> files \<Rightarrow> files" where
  "run_ops ops fs = fold run_op ops fs"

text \<open>\<open>mkstemp(dir=final.parent, suffix='.tmp')\<close>: the name chosen is \<open>stem\<close>.\<close>

definition temp_path :: "string \<Rightarrow> string \<Rightarrow> string" where
  "temp_path stem key = shard_dir key @ stem @ ''.tmp''"

definition put_ops :: "string \<Rightarrow> string \<Rightarrow> string \<Rightarrow> fs_op list" where
  "put_ops tmp final compressed = [CreateTemp tmp, WriteFile tmp compressed, ReplaceFile tmp final]"

text \<open>
  \<open>fault = Some k\<close>: an exception is raised when \<open>k\<close> operations of the write have been made (\<open>mkstemp\<close>
  itself has succeeded); the handler removes the temporary file and the exception goes on.
\<close>

definition put_bytes ::
  "(string \<Rightarrow> string) \<Rightarrow> (string \<Rightarrow> string) \<Rightarrow> string \<Rightarrow> nat option \<Rightarrow> pyval \<Rightarrow> files
     \<Rightarrow> (store_error + object_ref) \<times> files" where
  "put_bytes sha deflate stem fault raw fs =
     (case raw of
        PBytes data \<Rightarrow>
          (let key = sha256_hex sha data in
           case path_for key of
             Inl e \<Rightarrow> (Inl e, fs)
           | Inr final \<Rightarrow>
               (case map_of fs final of
                  Some stored \<Rightarrow> (Inr \<lparr>or_key = key, or_raw_size = int (length data),
                                     or_stored_size = int (length stored)\<rparr>, fs)
                | None \<Rightarrow>
                    let compressed = deflate data; tmp = temp_path stem key;
                        ops = put_ops tmp final compressed
                    in (case fault of
                          None \<Rightarrow> (Inr \<lparr>or_key = key, or_raw_size = int (length data),
                                      or_stored_size = int (length compressed)\<rparr>, run_ops ops fs)
                        | Some k \<Rightarrow> (Inl WriteFailed,
                                    remove_file tmp (run_ops (take (min 2 k) ops) fs)))))
      | _ \<Rightarrow> (Inl NotBytes, fs))"

subsection \<open>Reading\<close>

definition get_bytes ::
  "(string \<Rightarrow> string) \<Rightarrow> (string \<Rightarrow> string option) \<Rightarrow> string \<Rightarrow> files \<Rightarrow> store_error + string" where
  "get_bytes sha inflate key fs =
     rbind (path_for key) (\<lambda>path.
       case map_of fs path of
         None \<Rightarrow> Inl (MissingObject key)
       | Some stored \<Rightarrow>
           (case inflate stored of
              None \<Rightarrow> Inl (CorruptObject key)
            | Some raw \<Rightarrow> if sha256_hex sha raw \<noteq> key then Inl (CorruptObject key) else Inr raw))"

text \<open>A malformed key is a \<open>ValueError\<close>, which \<open>verify\<close> does not catch.\<close>

definition verify_object ::
  "(string \<Rightarrow> string) \<Rightarrow> (string \<Rightarrow> string option) \<Rightarrow> string \<Rightarrow> files \<Rightarrow> store_error + bool" where
  "verify_object sha inflate key fs =
     (case get_bytes sha inflate key fs of
        Inr raw \<Rightarrow> Inr True
      | Inl (NotAKey k) \<Rightarrow> Inl (NotAKey k)
      | Inl e \<Rightarrow> Inr False)"


subsection \<open>The store invariant\<close>

text \<open>What the code relies on: SHA-256 has 32 bytes, and zstandard is lossless.\<close>

definition codec_ok :: "(string \<Rightarrow> string) \<Rightarrow> (string \<Rightarrow> string) \<Rightarrow> (string \<Rightarrow> string option) \<Rightarrow> bool" where
  "codec_ok sha deflate inflate \<longleftrightarrow>
     (\<forall>data. length (sha data) = 32) \<and> (\<forall>data. inflate (deflate data) = Some data)"

text \<open>Every blob that is visible at the path of a key is whole and hashes to the key.\<close>

definition blob_ok ::
  "(string \<Rightarrow> string) \<Rightarrow> (string \<Rightarrow> string option) \<Rightarrow> string \<Rightarrow> string \<Rightarrow> bool" where
  "blob_ok sha inflate key stored \<longleftrightarrow>
     (case inflate stored of None \<Rightarrow> False | Some raw \<Rightarrow> sha256_hex sha raw = key)"

definition store_ok :: "(string \<Rightarrow> string) \<Rightarrow> (string \<Rightarrow> string option) \<Rightarrow> files \<Rightarrow> bool" where
  "store_ok sha inflate fs \<longleftrightarrow>
     (\<forall>key p stored. path_for key = Inr p \<longrightarrow> map_of fs p = Some stored \<longrightarrow> blob_ok sha inflate key stored)"

lemma path_for_Inr: "path_for key = Inr p \<longleftrightarrow> length key = 64 \<and> set key \<subseteq> set hex_chars
    \<and> p = shard_dir key @ key @ ''.zst''"
  by (auto simp: path_for_def)

lemma path_for_inject:
  assumes "path_for k = Inr p" and "path_for k' = Inr p"
  shows "k = k'"
proof -
  have "length k = length k'" "shard_dir k @ k @ ''.zst'' = shard_dir k' @ k' @ ''.zst''"
    using assms by (auto simp: path_for_Inr)
  moreover from this(1) have "length (shard_dir k) = length (shard_dir k')" by (simp add: shard_dir_def)
  ultimately show ?thesis by simp
qed

lemma temp_path_not_final: "path_for key = Inr p \<Longrightarrow> temp_path stem k \<noteq> p"
proof
  assume "path_for key = Inr p" "temp_path stem k = p"
  then have "shard_dir k @ stem @ ''.tmp'' = shard_dir key @ key @ ''.zst''"
    by (simp add: path_for_Inr temp_path_def)
  from arg_cong [OF this, of rev] show False by simp
qed

lemma hex_of_chars: "length (hex_of s) = 2 * length s \<and> set (hex_of s) \<subseteq> set hex_chars"
proof (induction s)
  case (Cons c s)
  have d: "hex_digit n \<in> set hex_chars" if "n < 16" for n
  proof -
    have "\<forall>n \<in> {0..<16}. hex_digit n \<in> set hex_chars" by code_simp
    with that show ?thesis by simp
  qed
  have "(of_char c :: nat) div 16 < 16" by (simp add: less_mult_imp_div_less)
  with Cons show ?case by (simp add: d)
qed simp

lemma path_for_sha: "codec_ok sha deflate inflate \<Longrightarrow> \<exists>p. path_for (sha256_hex sha data) = Inr p"
  using hex_of_chars [of "sha data"] by (auto simp: path_for_def sha256_hex_def codec_ok_def)

lemma map_of_remove_file: "map_of (remove_file p fs) q = (if q = p then None else map_of fs q)"
  by (induction fs) (auto simp: remove_file_def)

lemma map_of_run_op:
  "map_of (run_op (CreateTemp tmp) fs) p = (if p = tmp then Some [] else map_of fs p)"
  "map_of (run_op (WriteFile tmp c) fs) p = (if p = tmp then Some c else map_of fs p)"
  "tmp \<noteq> final \<Longrightarrow> map_of (run_op (ReplaceFile tmp final) fs) p =
     (if p = final \<and> map_of fs tmp \<noteq> None then map_of fs tmp
      else if p = tmp then None else map_of fs p)"
  by (auto simp: map_of_remove_file split: option.splits)

lemma put_prefix_files:
  assumes "tmp \<noteq> final" and "p \<noteq> tmp"
  shows "map_of (run_ops (take n (put_ops tmp final c)) fs) p =
    (if p = final \<and> 3 \<le> n then Some c else map_of fs p)"
proof -
  consider "n = 0" | "n = 1" | "n = 2" | m where "n = Suc (Suc (Suc m))"
    by (metis One_nat_def Suc_1 not0_implies_Suc)
  then show ?thesis
    using assms by cases (simp_all add: put_ops_def run_ops_def map_of_run_op map_of_remove_file
        split: option.splits)
qed

subsection \<open>The interface other components rely on\<close>

text \<open>
  What a client is promised: \<open>put\<close> (with what the environment decides, \<open>'x\<close>) that returns makes the
  blob verifiable, and a \<open>put\<close>, returning or raising, never takes a verified blob away.
\<close>

locale blob_store =
  fixes ok :: "'s \<Rightarrow> bool"
    and put :: "'x \<Rightarrow> string \<Rightarrow> 's \<Rightarrow> ('e + object_ref) \<times> 's"
    and verify :: "string \<Rightarrow> 's \<Rightarrow> 'e + bool"
  assumes put_verified: "\<lbrakk>ok S; put x data S = (Inr r, S')\<rbrakk> \<Longrightarrow> verify (or_key r) S' = Inr True"
    and put_keeps: "\<lbrakk>ok S; put x data S = (res, S')\<rbrakk>
      \<Longrightarrow> ok S' \<and> (verify k S = Inr True \<longrightarrow> verify k S' = Inr True)"
begin

text \<open>A blob stays verifiable through any sequence of further writes.\<close>

lemma puts_keep:
  assumes "ok S" and "verify k S = Inr True"
  shows "ok (fold (\<lambda>(x, data) S. snd (put x data S)) ws S)
    \<and> verify k (fold (\<lambda>(x, data) S. snd (put x data S)) ws S) = Inr True"
  using assms
proof (induction ws arbitrary: S)
  case (Cons w ws)
  obtain x data where w: "w = (x, data)" by (cases w)
  obtain res S' where "put x data S = (res, S')" by (cases "put x data S")
  with put_keeps [OF Cons.prems(1)] Cons.prems(2) Cons.IH [of S'] w show ?case by simp
qed simp

end

lemma verify_object_True:
  "verify_object sha inflate k fs = Inr True \<longleftrightarrow>
     (\<exists>p stored. path_for k = Inr p \<and> map_of fs p = Some stored \<and> blob_ok sha inflate k stored)"
proof (cases "path_for k")
  case (Inl e)
  then show ?thesis by (cases e) (auto simp: verify_object_def get_bytes_def path_for_def split: if_splits)
next
  case (Inr p)
  show ?thesis
  proof (cases "map_of fs p")
    case (Some stored)
    with Inr show ?thesis
      by (cases "inflate stored") (simp_all add: verify_object_def get_bytes_def blob_ok_def)
  qed (use Inr in \<open>simp add: verify_object_def get_bytes_def\<close>)
qed

text \<open>Everything a write can leave behind: the files off its temporary path, and perhaps the whole blob.\<close>

lemma put_bytes_files:
  assumes "put_bytes sha deflate stem fault (PBytes data) fs = (res, fs')" and "path_for k = Inr p"
  shows "map_of fs' p = map_of fs p
    \<or> (map_of fs p = None \<and> k = sha256_hex sha data \<and> map_of fs' p = Some (deflate data))"
proof (cases "path_for (sha256_hex sha data)")
  case (Inr final)
  let ?tmp = "temp_path stem (sha256_hex sha data)"
  have ne: "?tmp \<noteq> final" "p \<noteq> ?tmp" using temp_path_not_final assms(2) Inr by blast+
  show ?thesis
  proof (cases "map_of fs final")
    case None
    note files = put_prefix_files [OF ne]
    show ?thesis
    proof (cases fault)
      case None': None
      with assms(1) Inr None have "fs' = run_ops (take 3 (put_ops ?tmp final (deflate data))) fs"
        by (simp add: put_bytes_def Let_def put_ops_def)
      with files have "map_of fs' p = (if p = final then Some (deflate data) else map_of fs p)" by simp
      moreover have "p = final \<Longrightarrow> k = sha256_hex sha data" using path_for_inject assms(2) Inr by simp
      ultimately show ?thesis using None by (cases "p = final") simp_all
    next
      case (Some n)
      with assms(1) Inr None
      have "fs' = remove_file ?tmp (run_ops (take (min 2 n) (put_ops ?tmp final (deflate data))) fs)"
        by (simp add: put_bytes_def Let_def)
      with files ne(2) show ?thesis by (simp add: map_of_remove_file)
    qed
  next
    case (Some stored)
    with assms(1) Inr show ?thesis by (simp add: put_bytes_def Let_def)
  qed
qed (use assms in \<open>simp add: put_bytes_def Let_def\<close>)

lemma store_ok_grow:
  assumes "codec_ok sha deflate inflate" and "store_ok sha inflate fs"
    and "\<And>k p. path_for k = Inr p \<Longrightarrow> map_of fs' p = map_of fs p
      \<or> (map_of fs p = None \<and> k = sha256_hex sha data \<and> map_of fs' p = Some (deflate data))"
  shows "store_ok sha inflate fs' \<and>
    (verify_object sha inflate k fs = Inr True \<longrightarrow> verify_object sha inflate k fs' = Inr True)"
proof -
  have new: "blob_ok sha inflate (sha256_hex sha data) (deflate data)"
    using assms(1) by (simp add: codec_ok_def blob_ok_def)
  have "store_ok sha inflate fs'"
    unfolding store_ok_def using assms(2,3) new by (metis option.inject store_ok_def)
  moreover have "verify_object sha inflate k fs' = Inr True" if "verify_object sha inflate k fs = Inr True"
    using that assms(3) [of k] unfolding verify_object_True by force
  ultimately show ?thesis by blast
qed

lemma put_bytes_keeps:
  assumes "codec_ok sha deflate inflate" and "store_ok sha inflate fs"
    and "put_bytes sha deflate stem fault (PBytes data) fs = (res, fs')"
  shows "store_ok sha inflate fs' \<and>
    (verify_object sha inflate k fs = Inr True \<longrightarrow> verify_object sha inflate k fs' = Inr True)"
  using store_ok_grow [OF assms(1,2)] put_bytes_files [OF assms(3)] by blast

lemma put_bytes_returns:
  assumes "codec_ok sha deflate inflate" and "store_ok sha inflate fs"
    and "put_bytes sha deflate stem fault (PBytes data) fs = (Inr r, fs')"
  obtains final stored where "path_for (sha256_hex sha data) = Inr final" "map_of fs' final = Some stored"
    "blob_ok sha inflate (sha256_hex sha data) stored"
    "r = \<lparr>or_key = sha256_hex sha data, or_raw_size = int (length data), or_stored_size = int (length stored)\<rparr>"
proof -
  obtain final where final: "path_for (sha256_hex sha data) = Inr final" using path_for_sha assms(1) by blast
  let ?tmp = "temp_path stem (sha256_hex sha data)"
  have ne: "?tmp \<noteq> final" "final \<noteq> ?tmp" using temp_path_not_final final by blast+
  show thesis
  proof (cases "map_of fs final")
    case None
    have files: "map_of (run_ops (put_ops ?tmp final (deflate data)) fs) final = Some (deflate data)"
      using put_prefix_files [OF ne, of 3] by (simp add: put_ops_def)
    have "blob_ok sha inflate (sha256_hex sha data) (deflate data)"
      using assms(1) by (simp add: codec_ok_def blob_ok_def)
    with that [OF final] files assms(3) final None show thesis
      by (cases fault) (auto simp: put_bytes_def Let_def)
  next
    case (Some stored)
    with assms(2) final have "blob_ok sha inflate (sha256_hex sha data) stored" by (auto simp: store_ok_def)
    with that [OF final] assms(3) final Some show thesis by (auto simp: put_bytes_def Let_def)
  qed
qed

interpretation disk: blob_store
  "\<lambda>fs. codec_ok sha deflate inflate \<and> store_ok sha inflate fs"
  "\<lambda>(stem, fault) data. put_bytes sha deflate stem fault (PBytes data)"
  "verify_object sha inflate"
  for sha :: "string \<Rightarrow> string" and deflate inflate
proof
  fix x :: "string \<times> nat option" and data fs r fs'
  assume ok: "codec_ok sha deflate inflate \<and> store_ok sha inflate fs"
    and "(case x of (stem, fault) \<Rightarrow> \<lambda>data. put_bytes sha deflate stem fault (PBytes data)) data fs = (Inr r, fs')"
  then have "put_bytes sha deflate (fst x) (snd x) (PBytes data) fs = (Inr r, fs')" by (cases x) simp
  from put_bytes_returns [OF _ _ this] ok show "verify_object sha inflate (or_key r) fs' = Inr True"
    unfolding verify_object_True by force
next
  fix x :: "string \<times> nat option" and data fs res fs' k
  assume ok: "codec_ok sha deflate inflate \<and> store_ok sha inflate fs"
    and "(case x of (stem, fault) \<Rightarrow> \<lambda>data. put_bytes sha deflate stem fault (PBytes data)) data fs = (res, fs')"
  then have "put_bytes sha deflate (fst x) (snd x) (PBytes data) fs = (res, fs')" by (cases x) simp
  from put_bytes_keeps [OF _ _ this] ok
  show "(codec_ok sha deflate inflate \<and> store_ok sha inflate fs') \<and>
     (verify_object sha inflate k fs = Inr True \<longrightarrow> verify_object sha inflate k fs' = Inr True)"
    by blast
qed

subsection \<open>Properties\<close>

text \<open>
  C16. What was stored is what is read: after a \<open>put_bytes\<close> that returned, the key reads back exactly
  the bytes given (when nothing else shares their digest), the sizes of the reference are right, and
  storing the same bytes again, under whatever conditions, returns the same reference and writes
  nothing.
\<close>

theorem object_roundtrip:
  assumes "codec_ok sha deflate inflate" and "store_ok sha inflate fs"
    and "put_bytes sha deflate stem fault (PBytes data) fs = (Inr r, fs')"
    and "\<forall>other. sha other = sha data \<longrightarrow> other = data"
  shows "get_bytes sha inflate (or_key r) fs' = Inr data \<and> or_raw_size r = int (length data)
    \<and> put_bytes sha deflate stem' fault' (PBytes data) fs' = (Inr r, fs')"
proof -
  from put_bytes_returns [OF assms(1-3)] obtain final stored
    where final: "path_for (sha256_hex sha data) = Inr final" "map_of fs' final = Some stored"
      and whole: "blob_ok sha inflate (sha256_hex sha data) stored"
      and r: "r = \<lparr>or_key = sha256_hex sha data, or_raw_size = int (length data),
        or_stored_size = int (length stored)\<rparr>" .
  from whole obtain raw where "inflate stored = Some raw" "sha256_hex sha raw = sha256_hex sha data"
    by (auto simp: blob_ok_def split: option.splits)
  moreover from this(2) assms(4) have "raw = data" by (simp add: sha256_hex_def)
  ultimately show ?thesis using final r by (simp add: get_bytes_def put_bytes_def Let_def)
qed

definition toy_sha :: "string \<Rightarrow> string" where
  "toy_sha data = replicate 32 (if data = ''page'' then CHR ''a'' else CHR ''b'')"

lemma toy_codec: "codec_ok toy_sha id Some"
  by (simp add: codec_ok_def toy_sha_def)

lemma toy_store: "store_ok toy_sha Some []"
  by (simp add: store_ok_def)

theorem object_roundtrip_witness:
  "get_bytes toy_sha Some (concat (replicate 32 ''61''))
     (snd (put_bytes toy_sha id ''t'' None (PBytes ''page'') [])) = Inr ''page''"
proof -
  have unique: "\<forall>other. toy_sha other = toy_sha ''page'' \<longrightarrow> other = ''page''"
    by (simp add: toy_sha_def numeral_eq_Suc split: if_splits)
  have run: "put_bytes toy_sha id ''t'' None (PBytes ''page'') [] =
      (Inr \<lparr>or_key = concat (replicate 32 ''61''), or_raw_size = 4, or_stored_size = 4\<rparr>,
       snd (put_bytes toy_sha id ''t'' None (PBytes ''page'') []))"
    by code_simp
  show ?thesis using object_roundtrip [OF toy_codec toy_store run unique] by simp
qed

text \<open>
  C17. A crash is harmless: after any number of the file operations of a write, killed there, no key
  shows a partial blob (every visible blob is whole and hashes to its key), every other blob is as it
  was, and the blob being written is either still absent or complete.
\<close>

theorem put_crash_atomic:
  assumes "codec_ok sha deflate inflate" and "store_ok sha inflate fs"
    and "path_for (sha256_hex sha data) = Inr final"
    and "map_of fs final = None"
    and "fs' = run_ops (take n (put_ops (temp_path stem (sha256_hex sha data)) final (deflate data))) fs"
  shows "store_ok sha inflate fs'
    \<and> get_bytes sha inflate key fs' \<noteq> Inl (CorruptObject key)
    \<and> (key \<noteq> sha256_hex sha data \<longrightarrow> get_bytes sha inflate key fs' = get_bytes sha inflate key fs)
    \<and> map_of fs' final = (if n < 3 then None else Some (deflate data))"
proof -
  let ?tmp = "temp_path stem (sha256_hex sha data)"
  have files: "map_of fs' p = (if p = final \<and> 3 \<le> n then Some (deflate data) else map_of fs p)"
    if "path_for k = Inr p" for k p
    unfolding assms(5) by (rule put_prefix_files) (use temp_path_not_final that assms(3) in blast)+
  have ok: "store_ok sha inflate fs'"
  proof (rule store_ok_grow [OF assms(1,2), THEN conjunct1])
    fix k p assume p: "path_for k = Inr p"
    show "map_of fs' p = map_of fs p
      \<or> (map_of fs p = None \<and> k = sha256_hex sha data \<and> map_of fs' p = Some (deflate data))"
      using files [OF p] assms(4) path_for_inject [OF p] assms(3) by (cases "p = final") auto
  qed
  have "get_bytes sha inflate key fs' \<noteq> Inl (CorruptObject key)"
  proof (cases "path_for key")
    case (Inr p)
    show ?thesis
    proof (cases "map_of fs' p")
      case (Some stored)
      with ok Inr have "blob_ok sha inflate key stored" by (auto simp: store_ok_def)
      with Inr Some show ?thesis by (auto simp: get_bytes_def blob_ok_def split: option.splits)
    qed (simp add: get_bytes_def Inr)
  qed (auto simp: get_bytes_def path_for_def split: if_splits)
  moreover have "get_bytes sha inflate key fs' = get_bytes sha inflate key fs"
    if "key \<noteq> sha256_hex sha data"
  proof (cases "path_for key")
    case (Inr p)
    with that have "p \<noteq> final" using path_for_inject [OF Inr] assms(3) by blast
    with files [OF Inr] have "map_of fs' p = map_of fs p" by simp
    then show ?thesis by (simp add: get_bytes_def Inr)
  qed (simp add: get_bytes_def)
  moreover have "map_of fs' final = (if n < 3 then None else Some (deflate data))"
    using files [OF assms(3)] assms(4) by simp
  ultimately show ?thesis using ok by blast
qed

theorem put_crash_atomic_witness:
  "\<exists>final. map_of (run_ops (take 2 (put_ops (temp_path ''t'' (sha256_hex toy_sha ''page'')) final ''page'')) [])
     final = None"
proof -
  obtain final where final: "path_for (sha256_hex toy_sha ''page'') = Inr final"
    using path_for_sha [OF toy_codec] by blast
  have "map_of [] final = None" by simp
  from put_crash_atomic [OF toy_codec toy_store final this refl, of 2 "''t''"] show ?thesis
    by (intro exI [of _ final]) simp
qed

end
