(* ===== verification/Purse.thy ===== *)
theory Purse
  imports Budget
begin

text \<open>
  What the external-call ledger relies on from \<^verbatim>\<open>src/src/shapeflow/experiment/budget.py\<close>, as an
  interface: a reservation made for an attempt is held for that attempt and no other, and resolving
  its group never fails and leaves nothing held for it.
\<close>

locale call_purse =
  fixes ok :: "'b \<Rightarrow> bool"
    and holds :: "'b \<Rightarrow> string \<Rightarrow> bool"
    and reserve :: "'x \<Rightarrow> string \<Rightarrow> 'b \<Rightarrow> 'e + 'g \<times> 'b"
    and resolve :: "'y \<Rightarrow> 'g \<Rightarrow> 'b \<Rightarrow> 'e + 'o \<times> 'b"
    and owner :: "'g \<Rightarrow> string"
    and fits :: "'g \<Rightarrow> bool"
    and request :: "'x \<Rightarrow> bool"
  assumes reserve_law: "\<lbrakk>ok B; request x; a \<noteq> []; reserve x a B = Inr (g, B')\<rbrakk>
      \<Longrightarrow> ok B' \<and> owner g = a \<and> fits g \<and> (\<forall>b. holds B' b \<longleftrightarrow> b = a \<or> holds B b)"
    and resolve_law: "\<lbrakk>ok B; fits g\<rbrakk>
      \<Longrightarrow> \<exists>over B'. resolve y g B = Inr (over, B') \<and> ok B' \<and> \<not> holds B' (owner g)
            \<and> (\<forall>b. holds B' b \<longrightarrow> holds B b)"
begin

lemma resolve_Inr:
  assumes "ok B" and "fits g" and "resolve y g B = Inr (over, B')"
  shows "ok B' \<and> \<not> holds B' (owner g) \<and> (\<forall>b. holds B' b \<longrightarrow> holds B b)"
  using resolve_law [OF assms(1,2), of y] assms(3) by auto

text \<open>A reservation that is resolved at once leaves every other holder as it was, at most.\<close>

lemma reserve_then_resolve:
  assumes "ok B" and "request x" and "a \<noteq> []" and "reserve x a B = Inr (g, B1)"
    and "resolve y g B1 = Inr (over, B2)"
  shows "ok B2 \<and> \<not> holds B2 a \<and> (\<forall>b. holds B2 b \<longrightarrow> holds B b)"
  using reserve_law [OF assms(1-4)] resolve_Inr [OF _ _ assms(5)] by auto

end

definition holds_for :: "budget \<Rightarrow> string \<Rightarrow> bool" where
  "holds_for B a \<longleftrightarrow> (\<exists>v \<in> set (bg_reservations B). rv_state v = RESERVED \<and> rv_attempt_id v = Some a)"

text \<open>Every reservation names its attempt.\<close>

definition attributed :: "budget \<Rightarrow> bool" where
  "attributed B \<longleftrightarrow> (\<forall>v \<in> set (bg_reservations B). rv_attempt_id v \<noteq> None)"

lemma reserve_one_rows:
  assumes "reserve_one sha fr g w c t clk k r x B = Inr B'"
  shows "\<exists>v. bg_reservations B' = bg_reservations B @ [v] \<and> rv_state v = RESERVED \<and> rv_attempt_id v = t"
  using assms by (auto simp: reserve_one_def Let_def split: if_splits option.splits sum.splits)

lemma reserve_fold_rows:
  assumes "rfold (\<lambda>(k, r, x). reserve_one sha fr g w c t clk (3 * k) r x) (enumerate n xs) B = Inr B'"
  shows "\<exists>vs. bg_reservations B' = bg_reservations B @ vs \<and> length vs = length xs
    \<and> (\<forall>v \<in> set vs. rv_state v = RESERVED \<and> rv_attempt_id v = t)"
  using assms
proof (induction xs arbitrary: n B)
  case (Cons rx xs)
  obtain r x where rx: "rx = (r, x)" by (cases rx)
  obtain B1 where one: "reserve_one sha fr g w c t clk (3 * n) r x B = Inr B1"
    and rest: "rfold (\<lambda>(k, r, x). reserve_one sha fr g w c t clk (3 * k) r x)
        (enumerate (Suc n) xs) B1 = Inr B'"
    using Cons.prems by (auto simp: rx result_elims)
  obtain v where v: "bg_reservations B1 = bg_reservations B @ [v]" "rv_state v = RESERVED" "rv_attempt_id v = t"
    using reserve_one_rows [OF one] by blast
  obtain vs where "bg_reservations B' = bg_reservations B1 @ vs" "length vs = length xs"
    "\<forall>v \<in> set vs. rv_state v = RESERVED \<and> rv_attempt_id v = t"
    using Cons.IH [OF rest] by blast
  with v show ?case by (intro exI [of _ "v # vs"]) simp
qed simp

lemma reserve_attempt:
  assumes "budget_ok B \<and> attributed B" and "distinct (map fst amts)" and "a \<noteq> []"
    and "reserve_in sha fr amts w c (Some a) clk B = Inr (g, B')"
  shows "budget_ok B' \<and> attributed B' \<and> rg_id g = a \<and> rg_amounts g = amts
    \<and> (\<forall>b. holds_for B' b \<longleftrightarrow> b = a \<or> holds_for B b)"
proof -
  have "truthy (Some a) = Some a" using assms(3) by (simp add: truthy_def split: list.splits)
  then have loop: "rfold (\<lambda>(k, r, x). reserve_one sha fr a w c (Some a) clk (3 * k) r x)
      (enumerate 0 amts) B = Inr B'" and g: "g = \<lparr>rg_id = a, rg_amounts = amts\<rparr>" and ne: "amts \<noteq> []"
    using assms(4) by (auto simp: reserve_in_def group_id_of_def result_elims split: if_splits)
  obtain vs where vs: "bg_reservations B' = bg_reservations B @ vs" "length vs = length amts"
    "\<forall>v \<in> set vs. rv_state v = RESERVED \<and> rv_attempt_id v = Some a"
    using reserve_fold_rows [OF loop] by blast
  with ne obtain v where "v \<in> set vs" by (cases vs) auto
  with vs(1,3) have "\<forall>b. holds_for B' b \<longleftrightarrow> b = a \<or> holds_for B b"
    by (auto simp: holds_for_def bex_Un)
  moreover have "attributed B'" using assms(1) vs(1,3) by (auto simp: attributed_def)
  ultimately show ?thesis using reserve_in_Inr [OF _ assms(4,2)] assms(1) g by simp
qed

lemma resolve_attempt:
  assumes "inj sha" and "budget_ok B \<and> attributed B" and "distinct (map fst (rg_amounts g))"
  shows "\<exists>over B'. resolve_in sha fr g fn clk B = Inr (over, B') \<and> budget_ok B' \<and> attributed B'
    \<and> \<not> holds_for B' (rg_id g) \<and> (\<forall>b. holds_for B' b \<longrightarrow> holds_for B b)"
proof -
  obtain rows over B' where rows: "group_rows sha fr g B = Inr rows"
    and res: "resolve_in sha fr g fn clk B = Inr (over, B')" "budget_ok B'"
    and settled: "list_all2 settled_row (bg_reservations B) (bg_reservations B')"
    "\<forall>x \<in> set (bg_reservations B'). rv_id x \<in> rv_id ` set rows \<longrightarrow> rv_state x = SETTLED"
    using resolve_in_ok [OF assms(1) _ assms(3), of B fr fn clk] assms(2) by blast
  have origin: "\<exists>v \<in> set (bg_reservations B). rv_state v = RESERVED \<and> rv_attempt_id v = Some b \<and> rv_id v = rv_id x"
    if x: "x \<in> set (bg_reservations B')" "rv_state x = RESERVED" "rv_attempt_id x = Some b" for x b
  proof -
    obtain v where v: "v \<in> set (bg_reservations B)" "settled_row v x"
      using list_all2_mem [OF settled(1) x(1)] by blast
    then have "rv_state v = RESERVED"
      using x(2) by (cases "rv_state v") (auto simp: settled_row_def)
    with v x(3) show ?thesis by (auto simp: settled_row_def)
  qed
  have "\<not> holds_for B' (rg_id g)"
  proof
    assume "holds_for B' (rg_id g)"
    then obtain x where x: "x \<in> set (bg_reservations B')" "rv_state x = RESERVED"
      "rv_attempt_id x = Some (rg_id g)" by (auto simp: holds_for_def)
    obtain v where v: "v \<in> set (bg_reservations B)" "rv_attempt_id v = Some (rg_id g)" "rv_id v = rv_id x"
      using origin [OF x] by blast
    then have "v \<in> set (filter (\<lambda>v. rv_attempt_id v = Some (rg_id g) \<or> rv_call_id v = Some (rg_id g)
        \<or> rv_id v = rg_id g) (bg_reservations B))" (is "v \<in> set ?rows") by simp
    then have "?rows \<noteq> []" by force
    then have "rows = ?rows" using rows by (simp add: group_rows_def Let_def)
    with \<open>v \<in> set ?rows\<close> have "v \<in> set rows" by (simp only:)
    then have "rv_id x \<in> rv_id ` set rows" unfolding v(3) [symmetric] by (rule imageI)
    with settled(2) x(1,2) show False by simp
  qed
  moreover have "attributed B'"
    using list_all2_mem [OF settled(1)] assms(2) by (fastforce simp: attributed_def settled_row_def)
  ultimately show ?thesis using origin res by (fastforce simp: holds_for_def)
qed

interpretation wallet: call_purse
  "\<lambda>B. inj sha \<and> budget_ok B \<and> attributed B" holds_for
  "\<lambda>(amts, w, c, clk) a. reserve_in sha fr amts w c (Some a) clk"
  "\<lambda>(fn, clk) g. resolve_in sha fr g fn clk" rg_id
  "\<lambda>g. distinct (map fst (rg_amounts g))" "\<lambda>(amts, w, c, clk). distinct (map fst amts)"
  for sha :: "string \<Rightarrow> string" and fr
proof
  fix B B' x a g
  assume "inj sha \<and> budget_ok B \<and> attributed B"
    and "case x of (amts, w, c, clk) \<Rightarrow> distinct (map fst amts)" and "a \<noteq> []"
    and "(case x of (amts, w, c, clk) \<Rightarrow> \<lambda>a. reserve_in sha fr amts w c (Some a) clk) a B = Inr (g, B')"
  with reserve_attempt [of B "fst x" a sha fr]
  show "(inj sha \<and> budget_ok B' \<and> attributed B') \<and> rg_id g = a \<and> distinct (map fst (rg_amounts g))
      \<and> (\<forall>b. holds_for B' b \<longleftrightarrow> b = a \<or> holds_for B b)"
    by (cases x) force
next
  fix B y and g :: reservation_group
  assume "inj sha \<and> budget_ok B \<and> attributed B" and "distinct (map fst (rg_amounts g))"
  with resolve_attempt [of sha B g fr "fst y" "snd y"]
  show "\<exists>over B'. (case y of (fn, clk) \<Rightarrow> \<lambda>g. resolve_in sha fr g fn clk) g B = Inr (over, B')
      \<and> (inj sha \<and> budget_ok B' \<and> attributed B') \<and> \<not> holds_for B' (rg_id g) \<and> (\<forall>b. holds_for B' b \<longrightarrow> holds_for B b)"
    by (cases y) auto
qed

end
