(* ===== verification/ExternalCalls.thy ===== *)
theory ExternalCalls
  imports Budget ObjectStore
begin

text \<open>
  \<^verbatim>\<open>src/src/shapeflow/providers/external_call_ledger.py\<close>: every external call as a state machine
  of two levels, the logical call and its physical attempts, over the tables \<open>external_calls\<close>,
  \<open>external_call_attempts\<close> and \<open>external_call_transitions\<close>; and the restart reconciliation of
  \<^verbatim>\<open>src/src/shapeflow/runtime/provider_server.py\<close>. The state also holds the budget tables and
  the run ledger of the same database, and the blob store. An operation returns its value or the
  exception together with the state it leaves, since some commit work before they raise. \<open>clk p k\<close> is
  the \<open>k\<close>-th clock reading made at place \<open>p\<close> of an operation. Of the server's restart only what it does to the
  tables is modelled: its nonce counter and its \<open>_ready\<close> flag are left out.
\<close>

subsection \<open>States and tables\<close>

datatype call_state = CALL_OPEN | CALL_COMMITTED | CALL_ABANDONED

datatype attempt_state =
    INTENT
  | BUDGET_RESERVED
  | SENT
  | RESPONSE_STORED
  | A_VALIDATED
  | A_COMMITTED
  | A_FAILED_FINAL
  | A_FAILED_UNKNOWN

definition call_terminal :: "call_state list" where
  "call_terminal = [CALL_COMMITTED, CALL_ABANDONED]"

definition sent_states :: "attempt_state list" where
  "sent_states = [SENT, RESPONSE_STORED, A_VALIDATED]"

definition attempt_terminal :: "attempt_state list" where
  "attempt_terminal = [A_COMMITTED, A_FAILED_FINAL, A_FAILED_UNKNOWN]"

definition attempt_columns :: "string list" where
  "attempt_columns =
     [''request_object_ref'', ''response_object_ref'', ''provider_request_id'', ''requested_model'',
      ''returned_model'', ''system_fingerprint'', ''usage_json'', ''telemetry_json'', ''error_class'',
      ''opened_at'', ''proxy_ingress_at'', ''dispatched_at'', ''response_end_at'', ''settled_at'']"

fun legal_attempt :: "attempt_state \<Rightarrow> attempt_state list" where
  "legal_attempt INTENT = [BUDGET_RESERVED, A_FAILED_FINAL]"
| "legal_attempt BUDGET_RESERVED = [SENT, A_FAILED_FINAL, A_FAILED_UNKNOWN]"
| "legal_attempt SENT = [RESPONSE_STORED, A_FAILED_FINAL, A_FAILED_UNKNOWN]"
| "legal_attempt RESPONSE_STORED = [A_VALIDATED, A_FAILED_FINAL, A_FAILED_UNKNOWN]"
| "legal_attempt A_VALIDATED = [A_COMMITTED, A_FAILED_FINAL, A_FAILED_UNKNOWN]"
| "legal_attempt _ = []"

record call_row =
  cl_id :: string
  cl_provider :: string
  cl_op_class :: string
  cl_call_key :: string
  cl_work_key :: "string option"
  cl_state :: call_state
  cl_attempt_count :: int
  cl_committed :: "string option"
  cl_created_at :: real
  cl_updated_at :: real

text \<open>The nullable columns of an attempt, by name; a name that is absent is NULL.\<close>

record attempt_row =
  ea_id :: string
  ea_call :: string
  ea_ordinal :: int
  ea_state :: attempt_state
  ea_cols :: "(string \<times> pyval) list"

datatype call_change = FirstIntent | AttemptMove attempt_state attempt_state | CallAbandoned

record call_transition =
  ct_call :: string
  ct_attempt :: "string option"
  ct_change :: call_change
  ct_at :: real
  ct_reason :: "string option"

record 's ext_calls =
  ec_calls :: "call_row list"
  ec_attempts :: "attempt_row list"
  ec_transitions :: "call_transition list"
  ec_budget :: budget
  ec_ledger :: ledger
  ec_store :: 's

record attempt_handle =
  ah_call :: string
  ah_attempt :: string
  ah_ordinal :: int

datatype ext_error =
    IllegalCallTransition string
  | CallAlreadyCommitted string pyval
  | CallNotReplayable string string
  | BudgetRaised budget_error
  | SqlIntegrityError
  | CallIdError hash_error
  | StoreRaised store_error

definition live_attempt :: "attempt_row \<Rightarrow> bool" where
  "live_attempt a \<longleftrightarrow> ea_state a \<notin> set attempt_terminal"

definition column :: "string \<Rightarrow> attempt_row \<Rightarrow> pyval" where
  "column name a = (case map_of (ea_cols a) name of None \<Rightarrow> PNone | Some v \<Rightarrow> v)"

text \<open>A transaction: a raise rolls back.\<close>

definition transaction ::
  "('s ext_calls \<Rightarrow> ext_error + 'a \<times> 's ext_calls) \<Rightarrow> 's ext_calls \<Rightarrow> (ext_error + 'a) \<times> 's ext_calls" where
  "transaction body E = (case body E of Inl e \<Rightarrow> (Inl e, E) | Inr (x, E') \<Rightarrow> (Inr x, E'))"

subsection \<open>Compare and swap\<close>

definition log_call :: "string \<Rightarrow> string option \<Rightarrow> call_change \<Rightarrow> real \<Rightarrow> string option \<Rightarrow> 's ext_calls \<Rightarrow> 's ext_calls" where
  "log_call cid aid change tm reason E =
     E\<lparr>ec_transitions := ec_transitions E @ [\<lparr>ct_call = cid, ct_attempt = aid, ct_change = change,
        ct_at = tm, ct_reason = reason\<rparr>]\<rparr>"

text \<open>The attempt's row moved to \<open>st\<close>; the partial unique index allows one committed attempt per call.\<close>

definition swap_state ::
  "string \<Rightarrow> attempt_state \<Rightarrow> attempt_state \<Rightarrow> (string \<times> pyval) list \<Rightarrow> 's ext_calls \<Rightarrow> ext_error + 's ext_calls" where
  "swap_state aid current st cols E =
     (let hit = (\<lambda>a. ea_id a = aid \<and> ea_state a = current);
          rows = update_rows hit (\<lambda>a. a\<lparr>ea_state := st,
                   ea_cols := foldl (\<lambda>d (k, v). dict_put k v d) (ea_cols a) cols\<rparr>) (ec_attempts E)
      in if st = A_COMMITTED \<and> list_ex (\<lambda>a. hit a
              \<and> list_ex (\<lambda>b. ea_id b \<noteq> aid \<and> ea_call b = ea_call a \<and> ea_state b = A_COMMITTED)
                  (ec_attempts E)) (ec_attempts E)
         then Inl SqlIntegrityError
         else if length (filter hit (ec_attempts E)) \<noteq> 1 then Inl (IllegalCallTransition aid)
         else Inr (E\<lparr>ec_attempts := rows\<rparr>))"

definition advance_in ::
  "attempt_handle \<Rightarrow> attempt_state \<Rightarrow> (string \<times> pyval) list \<Rightarrow> (nat \<Rightarrow> real) \<Rightarrow> 's ext_calls
     \<Rightarrow> ext_error + unit \<times> 's ext_calls" where
  "advance_in h st cols clk E =
     (case find_row ea_id (ah_attempt h) (ec_attempts E) of
        None \<Rightarrow> Inl (IllegalCallTransition (ah_attempt h))
      | Some row \<Rightarrow>
          if st \<notin> set (legal_attempt (ea_state row)) then Inl (IllegalCallTransition (ah_attempt h))
          else if \<exists>(k, v) \<in> set cols. k \<notin> set attempt_columns then Inl (IllegalCallTransition (ah_attempt h))
          else rbind (swap_state (ah_attempt h) (ea_state row) st cols E) (\<lambda>E1.
            let E2 = log_call (ah_call h) (Some (ah_attempt h)) (AttemptMove (ea_state row) st) (clk 0) None E1
            in Inr ((),
              if st = A_COMMITTED
              then E2\<lparr>ec_calls := update_rows (\<lambda>c. cl_id c = ah_call h)
                     (\<lambda>c. c\<lparr>cl_state := CALL_COMMITTED, cl_updated_at := clk 1,
                        cl_committed := Some (ah_attempt h)\<rparr>) (ec_calls E2)\<rparr>
              else if st \<in> set attempt_terminal
              then E2\<lparr>ec_calls := update_rows (\<lambda>c. cl_id c = ah_call h)
                     (\<lambda>c. c\<lparr>cl_updated_at := clk 1\<rparr>) (ec_calls E2)\<rparr>
              else E2)))"

definition advance_attempt ::
  "attempt_handle \<Rightarrow> attempt_state \<Rightarrow> (string \<times> pyval) list \<Rightarrow> (nat \<Rightarrow> real) \<Rightarrow> 's ext_calls
     \<Rightarrow> (ext_error + unit) \<times> 's ext_calls" where
  "advance_attempt h st cols clk E = transaction (advance_in h st cols clk) E"

subsection \<open>Opening and closing\<close>

definition open_call ::
  "(string \<Rightarrow> string) \<Rightarrow> (real \<Rightarrow> string) \<Rightarrow> string \<Rightarrow> string \<Rightarrow> string \<Rightarrow> string option \<Rightarrow> (nat \<Rightarrow> real)
     \<Rightarrow> 's ext_calls \<Rightarrow> (ext_error + string) \<times> 's ext_calls" where
  "open_call sha fr provider op_class call_key wkey clk E =
     (case derive_id sha fr ''external_call''
         [(''provider'', PStr provider), (''op_class'', PStr op_class),
          (''work_key'', PStr (case truthy wkey of None \<Rightarrow> ''-'' | Some k \<Rightarrow> k)),
          (''call_key'', PStr call_key)] of
        Inl e \<Rightarrow> (Inl (CallIdError e), E)
      | Inr cid \<Rightarrow>
          (Inr cid, E\<lparr>ec_calls := insert_ignore cl_id
             \<lparr>cl_id = cid, cl_provider = provider, cl_op_class = op_class, cl_call_key = call_key,
              cl_work_key = wkey, cl_state = CALL_OPEN, cl_attempt_count = 0, cl_committed = None,
              cl_created_at = clk 0, cl_updated_at = clk 1\<rparr> (ec_calls E)\<rparr>))"

definition response_ref_in :: "string option \<Rightarrow> 's ext_calls \<Rightarrow> pyval" where
  "response_ref_in aid E =
     (case truthy aid of
        None \<Rightarrow> PNone
      | Some a \<Rightarrow> (case find_row ea_id a (ec_attempts E) of
                    None \<Rightarrow> PNone | Some row \<Rightarrow> column ''response_object_ref'' row))"

definition call_attempt_id ::
  "(string \<Rightarrow> string) \<Rightarrow> (real \<Rightarrow> string) \<Rightarrow> string \<Rightarrow> int \<Rightarrow> hash_error + string" where
  "call_attempt_id sha fr cid ordinal =
     derive_id sha fr ''external_call_attempt'' [(''call_id'', PStr cid), (''ordinal'', PInt ordinal)]"

text \<open>The constraints of the attempts table: its primary key, the foreign key, UNIQUE (call, ordinal).\<close>

definition insert_call_attempt :: "attempt_row \<Rightarrow> 's ext_calls \<Rightarrow> ext_error + 's ext_calls" where
  "insert_call_attempt a E =
     (if has_key ea_id (ea_id a) (ec_attempts E) \<or> \<not> has_key cl_id (ea_call a) (ec_calls E)
         \<or> list_ex (\<lambda>b. ea_call b = ea_call a \<and> ea_ordinal b = ea_ordinal a) (ec_attempts E)
      then Inl SqlIntegrityError else Inr (E\<lparr>ec_attempts := ec_attempts E @ [a]\<rparr>))"

definition begin_attempt_in ::
  "(string \<Rightarrow> string) \<Rightarrow> (real \<Rightarrow> string) \<Rightarrow> string \<Rightarrow> (nat \<Rightarrow> real) \<Rightarrow> 's ext_calls
     \<Rightarrow> ext_error + attempt_handle \<times> 's ext_calls" where
  "begin_attempt_in sha fr cid clk E =
     (case find_row cl_id cid (ec_calls E) of
        None \<Rightarrow> Inl (IllegalCallTransition cid)
      | Some row \<Rightarrow>
          if cl_state row = CALL_COMMITTED
          then Inl (CallAlreadyCommitted cid (response_ref_in (cl_committed row) E))
          else if cl_state row \<in> set call_terminal then Inl (CallNotReplayable cid ''ABANDONED'')
          else if list_ex (\<lambda>a. ea_call a = cid \<and> live_attempt a) (ec_attempts E)
          then Inl (CallNotReplayable cid ''attempt-in-flight'')
          else
            let ordinal = cl_attempt_count row in
            (case call_attempt_id sha fr cid ordinal of
               Inl e \<Rightarrow> Inl (CallIdError e)
             | Inr aid \<Rightarrow>
                 rbind (insert_call_attempt \<lparr>ea_id = aid, ea_call = cid, ea_ordinal = ordinal,
                     ea_state = INTENT, ea_cols = [(''opened_at'', PFloat (Finite (clk 0)))]\<rparr> E) (\<lambda>E1.
                   let E2 = log_call cid (Some aid) FirstIntent (clk 1) (Some ''attempt_opened'') E1
                   in Inr (\<lparr>ah_call = cid, ah_attempt = aid, ah_ordinal = ordinal\<rparr>,
                        E2\<lparr>ec_calls := update_rows (\<lambda>c. cl_id c = cid)
                          (\<lambda>c. c\<lparr>cl_attempt_count := ordinal + 1, cl_updated_at := clk 2\<rparr>) (ec_calls E2)\<rparr>))))"

definition begin_attempt ::
  "(string \<Rightarrow> string) \<Rightarrow> (real \<Rightarrow> string) \<Rightarrow> string \<Rightarrow> (nat \<Rightarrow> real) \<Rightarrow> 's ext_calls
     \<Rightarrow> (ext_error + attempt_handle) \<times> 's ext_calls" where
  "begin_attempt sha fr cid clk E = transaction (begin_attempt_in sha fr cid clk) E"

definition close_call :: "string \<Rightarrow> string \<Rightarrow> (nat \<Rightarrow> real) \<Rightarrow> 's ext_calls \<Rightarrow> 's ext_calls" where
  "close_call cid reason clk E =
     (let hit = (\<lambda>c. cl_id c = cid \<and> cl_state c = CALL_OPEN);
          E1 = E\<lparr>ec_calls := update_rows hit
                 (\<lambda>c. c\<lparr>cl_state := CALL_ABANDONED, cl_updated_at := clk 0\<rparr>) (ec_calls E)\<rparr>
      in if filter hit (ec_calls E) = [] then E1
         else log_call cid None CallAbandoned (clk 1) (Some reason) E1)"

definition committed_response_ref :: "string \<Rightarrow> 's ext_calls \<Rightarrow> pyval" where
  "committed_response_ref cid E =
     (case List.find (\<lambda>c. cl_id c = cid \<and> cl_state c = CALL_COMMITTED) (ec_calls E) of
        None \<Rightarrow> PNone | Some row \<Rightarrow> response_ref_in (cl_committed row) E)"

subsection \<open>The money path\<close>

definition reserve_body ::
  "(string \<Rightarrow> string) \<Rightarrow> (real \<Rightarrow> string) \<Rightarrow> attempt_handle \<Rightarrow> amounts \<Rightarrow> string option
     \<Rightarrow> (nat \<Rightarrow> nat \<Rightarrow> real) \<Rightarrow> 's ext_calls \<Rightarrow> ext_error + reservation_group \<times> 's ext_calls" where
  "reserve_body sha fr h amts wkey clk E =
     (case reserve_in sha fr amts wkey (Some (ah_call h)) (Some (ah_attempt h)) (clk 0) (ec_budget E) of
        Inl e \<Rightarrow> Inl (BudgetRaised e)
      | Inr (g, B) \<Rightarrow>
          rbind (advance_in h BUDGET_RESERVED [] (clk 1) (E\<lparr>ec_budget := B\<rparr>))
            (\<lambda>(u, E'). Inr (g, E')))"

definition reserve_call ::
  "(string \<Rightarrow> string) \<Rightarrow> (real \<Rightarrow> string) \<Rightarrow> attempt_handle \<Rightarrow> amounts \<Rightarrow> string option
     \<Rightarrow> (nat \<Rightarrow> nat \<Rightarrow> real) \<Rightarrow> 's ext_calls \<Rightarrow> (ext_error + reservation_group) \<times> 's ext_calls" where
  "reserve_call sha fr h amts wkey clk E =
     (case transaction (reserve_body sha fr h amts wkey clk) E of
        (Inl (BudgetRaised (BudgetExceeded r x y)), E1) \<Rightarrow>
          (case advance_attempt h A_FAILED_FINAL [(''error_class'', PStr ''budget_exceeded'')] (clk 2) E1 of
             (Inl e, E2) \<Rightarrow> (Inl e, E2)
           | (Inr u, E2) \<Rightarrow> (Inl (BudgetRaised (BudgetExceeded r x y)), E2))
      | res \<Rightarrow> res)"

text \<open>
  \<open>put\<close> is the blob store's \<open>put_bytes\<close>, \<open>redact\<close> the redactor; the artifact row is committed before
  the attempt moves.
\<close>

definition store_and_advance ::
  "(string \<Rightarrow> 's \<Rightarrow> (store_error + object_ref) \<times> 's) \<Rightarrow> (string \<Rightarrow> string) \<Rightarrow> attempt_handle
     \<Rightarrow> string \<Rightarrow> string \<Rightarrow> attempt_state \<Rightarrow> string \<Rightarrow> (string \<times> pyval) list \<Rightarrow> (nat \<Rightarrow> nat \<Rightarrow> real)
     \<Rightarrow> 's ext_calls \<Rightarrow> (ext_error + unit) \<times> 's ext_calls" where
  "store_and_advance put redact h text_in kind st ref_column cols clk E =
     (case put (redact text_in) (ec_store E) of
        (Inl e, S) \<Rightarrow> (Inl (StoreRaised e), E\<lparr>ec_store := S\<rparr>)
      | (Inr ref, S) \<Rightarrow>
          advance_attempt h st ((ref_column, PStr (or_key ref)) # cols) (clk 1)
            (E\<lparr>ec_store := S, ec_ledger := register_artifact (or_key ref) kind (or_raw_size ref)
               (or_stored_size ref) (Some (ah_call h)) (clk 0) (ec_ledger E)\<rparr>))"

definition py_time :: "real option \<Rightarrow> pyval" where
  "py_time t = (case t of None \<Rightarrow> PNone | Some x \<Rightarrow> PFloat (Finite x))"

definition mark_sent ::
  "(string \<Rightarrow> 's \<Rightarrow> (store_error + object_ref) \<times> 's) \<Rightarrow> (string \<Rightarrow> string) \<Rightarrow> attempt_handle
     \<Rightarrow> string \<Rightarrow> real option \<Rightarrow> real option \<Rightarrow> (nat \<Rightarrow> nat \<Rightarrow> real) \<Rightarrow> 's ext_calls
     \<Rightarrow> (ext_error + unit) \<times> 's ext_calls" where
  "mark_sent put redact h request_text dispatched_at proxy_ingress_at clk E =
     store_and_advance put redact h request_text ''external_request'' SENT ''request_object_ref''
       [(''dispatched_at'', PFloat (Finite (case dispatched_at of None \<Rightarrow> clk 2 0 | Some t \<Rightarrow> t))),
        (''proxy_ingress_at'', py_time proxy_ingress_at)] clk E"

text \<open>\<open>fields\<close> are the six text arguments of the response, in the order of the code.\<close>

definition store_response ::
  "(string \<Rightarrow> 's \<Rightarrow> (store_error + object_ref) \<times> 's) \<Rightarrow> (string \<Rightarrow> string) \<Rightarrow> attempt_handle
     \<Rightarrow> string \<Rightarrow> string \<Rightarrow> string \<Rightarrow> string \<Rightarrow> string \<Rightarrow> string \<Rightarrow> string \<Rightarrow> real option \<Rightarrow> (nat \<Rightarrow> nat \<Rightarrow> real)
     \<Rightarrow> 's ext_calls \<Rightarrow> (ext_error + unit) \<times> 's ext_calls" where
  "store_response put redact h response_text provider_request_id requested_model returned_model
      system_fingerprint usage_json telemetry_json response_end_at clk E =
     store_and_advance put redact h response_text ''external_response'' RESPONSE_STORED
       ''response_object_ref''
       [(''provider_request_id'', PStr provider_request_id), (''requested_model'', PStr requested_model),
        (''returned_model'', PStr returned_model), (''system_fingerprint'', PStr system_fingerprint),
        (''usage_json'', PStr usage_json), (''telemetry_json'', PStr telemetry_json),
        (''response_end_at'', py_time response_end_at)] clk E"

definition validate_call ::
  "attempt_handle \<Rightarrow> (nat \<Rightarrow> nat \<Rightarrow> real) \<Rightarrow> 's ext_calls \<Rightarrow> (ext_error + unit) \<times> 's ext_calls" where
  "validate_call h clk E = advance_attempt h A_VALIDATED [] (clk 0) E"

subsection \<open>Settling and the attempt's end\<close>

datatype settle_mode = Settle | WorstCase | Release

definition settle_group ::
  "(string \<Rightarrow> string) \<Rightarrow> (real \<Rightarrow> string) \<Rightarrow> settle_mode \<Rightarrow> reservation_group option \<Rightarrow> amounts
     \<Rightarrow> (nat \<Rightarrow> real) \<Rightarrow> budget \<Rightarrow> budget_error + under_reserved list \<times> budget" where
  "settle_group sha fr mode grp actuals clk B =
     (case grp of
        None \<Rightarrow> Inr ([], B)
      | Some g \<Rightarrow>
          (case mode of
             Settle \<Rightarrow> settle_in sha fr g actuals clk B
           | WorstCase \<Rightarrow> keep_worst_case_in sha fr g clk B
           | Release \<Rightarrow> release_in sha fr g clk B))"

definition settle_body ::
  "(string \<Rightarrow> string) \<Rightarrow> (real \<Rightarrow> string) \<Rightarrow> attempt_handle \<Rightarrow> attempt_state \<Rightarrow> reservation_group option
     \<Rightarrow> amounts \<Rightarrow> settle_mode \<Rightarrow> (string \<times> pyval) list \<Rightarrow> (nat \<Rightarrow> nat \<Rightarrow> real) \<Rightarrow> 's ext_calls
     \<Rightarrow> ext_error + under_reserved list \<times> 's ext_calls" where
  "settle_body sha fr h st grp actuals mode cols clk E =
     (case settle_group sha fr mode grp actuals (clk 1) (ec_budget E) of
        Inl e \<Rightarrow> Inl (BudgetRaised e)
      | Inr (over, B) \<Rightarrow>
          rbind (advance_in h st cols (clk 2) (E\<lparr>ec_budget := B\<rparr>)) (\<lambda>(u, E'). Inr (over, E')))"

text \<open>\<open>str\<close> of a \<open>BudgetUnderReserved\<close>; \<open>rp\<close> is \<open>repr\<close> of text and \<open>fr\<close> of a float.\<close>

definition under_reserved_text ::
  "(string \<Rightarrow> string) \<Rightarrow> (real \<Rightarrow> string) \<Rightarrow> under_reserved \<Rightarrow> string" where
  "under_reserved_text rp fr u =
     (case u of (resource, reserved, actual) \<Rightarrow>
        rp resource @ '' settled at '' @ fr actual @ '' against a worst-case reservation of ''
        @ fr reserved @ '': the reservation was not an upper bound'')"

definition report_overruns ::
  "(string \<Rightarrow> string) \<Rightarrow> (real \<Rightarrow> string) \<Rightarrow> string \<Rightarrow> under_reserved list \<Rightarrow> (nat \<Rightarrow> real) \<Rightarrow> ledger \<Rightarrow> ledger" where
  "report_overruns rp fr cid over clk L =
     foldl (\<lambda>L (k, u). record_incident ''ERROR'' ''budget_under_reserved'' (under_reserved_text rp fr u)
       (Some cid) (\<lambda>_. clk k) L) L (enumerate 0 over)"

text \<open>\<open>extra\<close> holds the columns of \<open>error_class\<close> (when given) and \<open>extra_cols\<close>.\<close>

definition settle_and_advance ::
  "(string \<Rightarrow> string) \<Rightarrow> (real \<Rightarrow> string) \<Rightarrow> (string \<Rightarrow> string) \<Rightarrow> attempt_handle \<Rightarrow> attempt_state
     \<Rightarrow> reservation_group option \<Rightarrow> amounts \<Rightarrow> settle_mode \<Rightarrow> (string \<times> pyval) list
     \<Rightarrow> (nat \<Rightarrow> nat \<Rightarrow> real) \<Rightarrow> 's ext_calls \<Rightarrow> (ext_error + unit) \<times> 's ext_calls" where
  "settle_and_advance sha fr rp h st grp actuals mode extra clk E =
     (case transaction (settle_body sha fr h st grp actuals mode
              ((''settled_at'', PFloat (Finite (clk 0 0))) # extra) clk) E of
        (Inl e, E1) \<Rightarrow> (Inl e, E1)
      | (Inr over, E1) \<Rightarrow>
          (Inr (), E1\<lparr>ec_ledger := report_overruns rp fr (ah_call h) over (clk 3) (ec_ledger E1)\<rparr>))"

definition commit_call where
  "commit_call sha fr rp h g actuals clk E =
     settle_and_advance sha fr rp h A_COMMITTED (Some g) actuals Settle [] clk E"

definition fail_before_send where
  "fail_before_send sha fr rp h grp error_class clk E =
     settle_and_advance sha fr rp h A_FAILED_FINAL grp [] Release
       [(''error_class'', PStr error_class)] clk E"

definition fail_unknown where
  "fail_unknown sha fr rp h grp error_class clk E =
     settle_and_advance sha fr rp h A_FAILED_UNKNOWN grp [] WorstCase
       [(''error_class'', PStr error_class)] clk E"

definition fail_after_response where
  "fail_after_response sha fr rp h grp actuals error_class response_end_at telemetry_json clk E =
     settle_and_advance sha fr rp h A_FAILED_FINAL grp actuals Settle
       ((''error_class'', PStr error_class)
        # (case response_end_at of None \<Rightarrow> [] | Some t \<Rightarrow> [(''response_end_at'', PFloat (Finite t))])
        @ (if telemetry_json = [] then [] else [(''telemetry_json'', PStr telemetry_json)])) clk E"

subsection \<open>Reads\<close>

definition get_call_state :: "string \<Rightarrow> 's ext_calls \<Rightarrow> call_state option" where
  "get_call_state cid E = map_option cl_state (find_row cl_id cid (ec_calls E))"

definition attempt_state_of :: "string \<Rightarrow> 's ext_calls \<Rightarrow> attempt_state option" where
  "attempt_state_of aid E = map_option ea_state (find_row ea_id aid (ec_attempts E))"

definition handle_of :: "attempt_row \<Rightarrow> attempt_handle" where
  "handle_of a = \<lparr>ah_call = ea_call a, ah_attempt = ea_id a, ah_ordinal = ea_ordinal a\<rparr>"

definition opened_at :: "attempt_row \<Rightarrow> real" where
  "opened_at a = (case column ''opened_at'' a of PFloat (Finite t) \<Rightarrow> t | _ \<Rightarrow> 0)"

definition live_attempts :: "'s ext_calls \<Rightarrow> attempt_handle list" where
  "live_attempts E = map handle_of (sort_key opened_at (filter live_attempt (ec_attempts E)))"

definition attempt_was_sent :: "string \<Rightarrow> 's ext_calls \<Rightarrow> bool" where
  "attempt_was_sent aid E \<longleftrightarrow>
     (case attempt_state_of aid E of None \<Rightarrow> False | Some st \<Rightarrow> st \<in> set sent_states)"

subsection \<open>Restart\<close>

definition group_for :: "string \<Rightarrow> 's ext_calls \<Rightarrow> reservation_group option" where
  "group_for aid E =
     (let rows = filter (\<lambda>v. rv_attempt_id v = Some aid \<and> rv_state v = RESERVED)
                   (bg_reservations (ec_budget E))
      in if rows = [] then None
         else Some \<lparr>rg_id = aid, rg_amounts = dict_of (map (\<lambda>v. (rv_resource v, rv_amount v)) rows)\<rparr>)"

text \<open>One pass of the loop of \<open>reconcile_on_start\<close>; \<open>counts\<close> are (failed unknown, released).\<close>

definition reconcile_one ::
  "(string \<Rightarrow> string) \<Rightarrow> (real \<Rightarrow> string) \<Rightarrow> (string \<Rightarrow> string) \<Rightarrow> (nat \<Rightarrow> nat \<Rightarrow> real) \<Rightarrow> attempt_handle
     \<Rightarrow> (nat \<times> nat) \<times> 's ext_calls \<Rightarrow> ext_error + (nat \<times> nat) \<times> 's ext_calls" where
  "reconcile_one sha fr rp clk h s =
     (case s of ((unknown, released), E) \<Rightarrow>
        (let grp = group_for (ah_attempt h) E in
         if attempt_was_sent (ah_attempt h) E
         then (case fail_unknown sha fr rp h grp ''provider_restart'' clk E of
                 (Inl e, E') \<Rightarrow> Inl e | (Inr u, E') \<Rightarrow> Inr ((unknown + 1, released), E'))
         else (case fail_before_send sha fr rp h grp ''provider_restart'' clk E of
                 (Inl e, E') \<Rightarrow> Inl e | (Inr u, E') \<Rightarrow> Inr ((unknown, released + 1), E'))))"

definition reconcile_on_start ::
  "(string \<Rightarrow> string) \<Rightarrow> (real \<Rightarrow> string) \<Rightarrow> (string \<Rightarrow> string) \<Rightarrow> (nat \<Rightarrow> nat \<Rightarrow> nat \<Rightarrow> real) \<Rightarrow> 's ext_calls
     \<Rightarrow> ext_error + (nat \<times> nat) \<times> 's ext_calls" where
  "reconcile_on_start sha fr rp clk E =
     rfold (\<lambda>(k, h). reconcile_one sha fr rp (clk k) h) (enumerate 0 (live_attempts E)) ((0, 0), E)"

end
