(* ===== verification/ExternalInv.thy ===== *)
theory ExternalInv
  imports ExternalCalls Purse
begin

text \<open>
  The invariant of the external-call ledger and its preservation. The structural part concerns the
  tables of calls and attempts; the money part says that a reservation is held only for an attempt
  that may still be on the wire.
\<close>

definition standing :: "attempt_row \<Rightarrow> bool" where
  "standing a \<longleftrightarrow> ea_state a \<notin> {A_FAILED_FINAL, A_FAILED_UNKNOWN}"

definition call_ok :: "attempt_row list \<Rightarrow> call_row \<Rightarrow> bool" where
  "call_ok rows c \<longleftrightarrow>
     0 \<le> cl_attempt_count c
     \<and> map ea_ordinal (filter (\<lambda>a. ea_call a = cl_id c) rows) = map int [0..<nat (cl_attempt_count c)]
     \<and> (if cl_state c = CALL_COMMITTED
        then \<exists>a \<in> set rows. ea_call a = cl_id c \<and> ea_state a = A_COMMITTED \<and> cl_committed c = Some (ea_id a)
        else cl_committed c = None \<and> (\<forall>a \<in> set rows. ea_call a = cl_id c \<longrightarrow> ea_state a \<noteq> A_COMMITTED))"

definition ext_core ::
  "(string \<Rightarrow> string) \<Rightarrow> (real \<Rightarrow> string) \<Rightarrow> call_row list \<Rightarrow> attempt_row list \<Rightarrow> bool" where
  "ext_core sha fr cs rows \<longleftrightarrow> keyed cl_id cs \<and> keyed ea_id rows
     \<and> (\<forall>a \<in> set rows. ea_call a \<in> cl_id ` set cs
          \<and> call_attempt_id sha fr (ea_call a) (ea_ordinal a) = Inr (ea_id a))
     \<and> (\<forall>a \<in> set rows. \<forall>b \<in> set rows. ea_call a = ea_call b \<and> standing a \<and> standing b \<longrightarrow> a = b)
     \<and> (\<forall>c \<in> set cs. call_ok rows c)"

definition funded :: "attempt_state \<Rightarrow> bool" where
  "funded st \<longleftrightarrow> st \<in> {BUDGET_RESERVED, SENT, RESPONSE_STORED, A_VALIDATED}"

definition money_ok :: "budget \<Rightarrow> attempt_row list \<Rightarrow> bool" where
  "money_ok B rows \<longleftrightarrow> budget_ok B \<and> attributed B
     \<and> (\<forall>a. holds_for B a \<longrightarrow> (\<exists>row \<in> set rows. ea_id row = a \<and> funded (ea_state row)))"

definition ext_ok :: "(string \<Rightarrow> string) \<Rightarrow> (real \<Rightarrow> string) \<Rightarrow> 's ext_calls \<Rightarrow> bool" where
  "ext_ok sha fr E \<longleftrightarrow> ext_core sha fr (ec_calls E) (ec_attempts E) \<and> money_ok (ec_budget E) (ec_attempts E)"

subsection \<open>Moving one attempt\<close>

lemma filter_update_rows:
  "(\<And>x. p (f x) = p x) \<Longrightarrow> filter p (update_rows q f t) = update_rows q f (filter p t)"
  by (induction t) auto

lemma update_rows_key:
  assumes "keyed key t" and "row \<in> set t" and "P row"
  shows "update_rows (\<lambda>x. key x = key row \<and> P x) f t = update_rows (\<lambda>x. key x = key row) f t"
proof -
  have "x = row" if "x \<in> set t" "key x = key row" for x
    using that assms(1,2) by (auto simp: keyed_def distinct_map dest: inj_onD)
  with assms(3) show ?thesis by (auto simp: update_rows_def)
qed

definition moved :: "attempt_state \<Rightarrow> (string \<times> pyval) list \<Rightarrow> attempt_row \<Rightarrow> attempt_row" where
  "moved st cols a = a\<lparr>ea_state := st, ea_cols := foldl (\<lambda>d (k, v). dict_put k v d) (ea_cols a) cols\<rparr>"

lemma moved_simps [simp]:
  "ea_id (moved st cols a) = ea_id a" "ea_call (moved st cols a) = ea_call a"
  "ea_ordinal (moved st cols a) = ea_ordinal a" "ea_state (moved st cols a) = st"
  by (simp_all add: moved_def)

lemma log_call_fields [simp]:
  "ec_calls (log_call c a ch t r E) = ec_calls E" "ec_attempts (log_call c a ch t r E) = ec_attempts E"
  "ec_budget (log_call c a ch t r E) = ec_budget E" "ec_ledger (log_call c a ch t r E) = ec_ledger E"
  "ec_store (log_call c a ch t r E) = ec_store E"
  by (simp_all add: log_call_def)

text \<open>What a successful compare-and-swap has done.\<close>

lemma advance_in_Inr:
  assumes "keyed ea_id (ec_attempts E)" and "advance_in h st cols clk E = Inr (u, E')"
  obtains row where "row \<in> set (ec_attempts E)" "ea_id row = ah_attempt h"
    "st \<in> set (legal_attempt (ea_state row))"
    "ec_attempts E' = update_rows (\<lambda>a. ea_id a = ea_id row) (moved st cols) (ec_attempts E)"
    "ec_calls E' = (if st = A_COMMITTED
       then update_rows (\<lambda>c. cl_id c = ah_call h) (\<lambda>c. c\<lparr>cl_state := CALL_COMMITTED,
              cl_updated_at := clk 1, cl_committed := Some (ea_id row)\<rparr>) (ec_calls E)
       else if st \<in> set attempt_terminal
       then update_rows (\<lambda>c. cl_id c = ah_call h) (\<lambda>c. c\<lparr>cl_updated_at := clk 1\<rparr>) (ec_calls E)
       else ec_calls E)"
    "ec_budget E' = ec_budget E"
proof -
  obtain row where row: "find_row ea_id (ah_attempt h) (ec_attempts E) = Some row"
    and legal: "st \<in> set (legal_attempt (ea_state row))"
    using assms(2) by (auto simp: advance_in_def split: option.splits if_splits)
  have mem: "row \<in> set (ec_attempts E)" "ea_id row = ah_attempt h" using find_row_SomeD [OF row] by auto
  obtain E1 where swap: "swap_state (ah_attempt h) (ea_state row) st cols E = Inr E1"
    using assms(2) row by (auto simp: advance_in_def result_elims split: if_splits)
  have E1: "E1 = E\<lparr>ec_attempts := update_rows (\<lambda>a. ea_id a = ea_id row) (moved st cols) (ec_attempts E)\<rparr>"
    using swap update_rows_key [OF assms(1) mem(1), of "\<lambda>a. ea_state a = ea_state row"] mem(2)
    by (simp add: swap_state_def Let_def moved_def [abs_def] split: if_splits)
  show thesis
    by (rule that [OF mem(1,2) legal])
      (use assms(2) row legal swap mem(2) in
        \<open>auto simp: advance_in_def Let_def E1 attempt_terminal_def split: if_splits\<close>)
qed

lemma legal_attempt_from:
  "st \<in> set (legal_attempt s) \<Longrightarrow> s \<notin> {A_COMMITTED, A_FAILED_FINAL, A_FAILED_UNKNOWN}"
  by (cases s) auto

lemma call_ok_touch [simp]: "call_ok rows (c\<lparr>cl_updated_at := t\<rparr>) = call_ok rows c"
  by (simp add: call_ok_def)

lemma ext_core_touch:
  assumes "ext_core sha fr cs rows"
  shows "ext_core sha fr (update_rows p (\<lambda>c. c\<lparr>cl_updated_at := t\<rparr>) cs) rows"
proof -
  have keys: "cl_id ` set (update_rows p (\<lambda>c. c\<lparr>cl_updated_at := t\<rparr>) cs) = cl_id ` set cs" by simp
  have "\<forall>c \<in> set (update_rows p (\<lambda>c. c\<lparr>cl_updated_at := t\<rparr>) cs). call_ok rows c"
    using assms by (auto simp: ext_core_def set_update_rows)
  moreover have "keyed cl_id (update_rows p (\<lambda>c. c\<lparr>cl_updated_at := t\<rparr>) cs)"
    using assms by (auto simp: ext_core_def)
  ultimately show ?thesis using assms unfolding ext_core_def keys by blast
qed

lemma core_unique:
  assumes "ext_core sha fr cs rows" and "a \<in> set rows" and "b \<in> set rows" and "ea_id a = ea_id b"
  shows "a = b"
  using assms by (auto simp: ext_core_def keyed_def distinct_map dest: inj_onD)

lemma ext_core_move:
  assumes core: "ext_core sha fr cs rows" and row: "row \<in> set rows"
    and legal: "st \<in> set (legal_attempt (ea_state row))"
    and cs': "cs' = (if st = A_COMMITTED
       then update_rows (\<lambda>c. cl_id c = ea_call row) (\<lambda>c. c\<lparr>cl_state := CALL_COMMITTED,
              cl_updated_at := t, cl_committed := Some (ea_id row)\<rparr>) cs
       else cs)"
  shows "ext_core sha fr cs' (update_rows (\<lambda>a. ea_id a = ea_id row) (moved st cols) rows)"
    (is "ext_core sha fr cs' ?rows")
proof -
  have stood: "standing row" using legal_attempt_from [OF legal] by (simp add: standing_def)
  have mem: "a \<in> set ?rows \<longleftrightarrow> (a \<in> set rows \<and> ea_id a \<noteq> ea_id row) \<or> a = moved st cols row" for a
    using core_unique [OF core _ row] row by (auto simp: set_update_rows)
  have keys: "keyed cl_id cs'" "keyed ea_id ?rows" "cl_id ` set cs' = cl_id ` set cs"
    using core by (auto simp: ext_core_def cs')
  have "\<forall>a \<in> set ?rows. ea_call a \<in> cl_id ` set cs'
      \<and> call_attempt_id sha fr (ea_call a) (ea_ordinal a) = Inr (ea_id a)"
    unfolding keys(3) using core row by (auto simp: mem ext_core_def)
  moreover have "\<forall>a \<in> set ?rows. \<forall>b \<in> set ?rows. ea_call a = ea_call b \<and> standing a \<and> standing b \<longrightarrow> a = b"
  proof (intro ballI impI)
    fix a b assume "a \<in> set ?rows" "b \<in> set ?rows" "ea_call a = ea_call b \<and> standing a \<and> standing b"
    moreover have one: "x = y" if "x \<in> set rows" "y \<in> set rows" "ea_call x = ea_call y" "standing x" "standing y"
      for x y using core that unfolding ext_core_def by blast
    moreover have "\<not> (x \<in> set rows \<and> ea_id x \<noteq> ea_id row \<and> ea_call x = ea_call row \<and> standing x)" for x
      using one [OF _ row _ _ stood] by auto
    ultimately show "a = b" unfolding mem by (metis moved_simps(2))
  qed
  moreover have "call_ok ?rows c'" if c': "c' \<in> set cs'" for c'
  proof -
    obtain c where c: "c \<in> set cs" and shape: "c' = (if st = A_COMMITTED \<and> cl_id c = ea_call row
        then c\<lparr>cl_state := CALL_COMMITTED, cl_updated_at := t, cl_committed := Some (ea_id row)\<rparr> else c)"
      using c' by (auto simp: cs' set_update_rows split: if_splits)
    have ok: "call_ok rows c" using core c by (simp add: ext_core_def)
    have same: "cl_id c' = cl_id c" "cl_attempt_count c' = cl_attempt_count c" by (simp_all add: shape)
    have "map ea_ordinal (filter (\<lambda>a. ea_call a = cl_id c) ?rows)
        = map ea_ordinal (filter (\<lambda>a. ea_call a = cl_id c) rows)"
      by (simp add: filter_update_rows map_key_update)
    moreover have "if cl_state c' = CALL_COMMITTED
        then \<exists>a \<in> set ?rows. ea_call a = cl_id c \<and> ea_state a = A_COMMITTED \<and> cl_committed c' = Some (ea_id a)
        else cl_committed c' = None \<and> (\<forall>a \<in> set ?rows. ea_call a = cl_id c \<longrightarrow> ea_state a \<noteq> A_COMMITTED)"
    proof (cases "st = A_COMMITTED \<and> cl_id c = ea_call row")
      case True
      then show ?thesis
        using mem [of "moved st cols row"] by (auto simp: shape intro!: bexI [of _ "moved st cols row"])
    next
      case False
      have "row \<in> set rows \<and> ea_state row \<noteq> A_COMMITTED" using legal_attempt_from [OF legal] row by auto
      then have "a \<in> set ?rows" if "a \<in> set rows" "ea_state a = A_COMMITTED" for a
        using that core_unique [OF core that(1) row] by (auto simp: mem)
      with False ok show ?thesis unfolding call_ok_def shape by (auto simp: mem split: if_splits)
    qed
    ultimately show ?thesis using ok by (simp add: call_ok_def same)
  qed
  ultimately show ?thesis using keys by (auto simp: ext_core_def)
qed

definition valid_handle :: "attempt_handle \<Rightarrow> 's ext_calls \<Rightarrow> bool" where
  "valid_handle h E \<longleftrightarrow> (\<exists>row \<in> set (ec_attempts E). handle_of row = h)"

lemma advance_core:
  assumes "ext_core sha fr (ec_calls E) (ec_attempts E)" and "valid_handle h E"
    and "advance_in h st cols clk E = Inr (u, E')"
  shows "ext_core sha fr (ec_calls E') (ec_attempts E')"
proof -
  have keyed: "keyed ea_id (ec_attempts E)" using assms(1) by (simp add: ext_core_def)
  from advance_in_Inr [OF keyed assms(3)] obtain row where row: "row \<in> set (ec_attempts E)"
    and aid: "ea_id row = ah_attempt h" and legal: "st \<in> set (legal_attempt (ea_state row))"
    and rows: "ec_attempts E' = update_rows (\<lambda>a. ea_id a = ea_id row) (moved st cols) (ec_attempts E)"
    and cs: "ec_calls E' = (if st = A_COMMITTED
       then update_rows (\<lambda>c. cl_id c = ah_call h) (\<lambda>c. c\<lparr>cl_state := CALL_COMMITTED,
              cl_updated_at := clk 1, cl_committed := Some (ea_id row)\<rparr>) (ec_calls E)
       else if st \<in> set attempt_terminal
       then update_rows (\<lambda>c. cl_id c = ah_call h) (\<lambda>c. c\<lparr>cl_updated_at := clk 1\<rparr>) (ec_calls E)
       else ec_calls E)" .
  obtain a where "a \<in> set (ec_attempts E)" "handle_of a = h" using assms(2) by (auto simp: valid_handle_def)
  with core_unique [OF assms(1) _ row] aid have "ah_call h = ea_call row" by (auto simp: handle_of_def)
  with cs ext_core_move [OF assms(1) row legal refl, of "clk 1" cols] rows show ?thesis
    by (auto simp: ext_core_touch split: if_splits)
qed

lemma advance_money:
  assumes core: "ext_core sha fr (ec_calls E) (ec_attempts E)" and "money_ok (ec_budget E) (ec_attempts E)"
    and "advance_in h st cols clk E = Inr (u, E')"
    and "funded st \<or> \<not> holds_for (ec_budget E) (ah_attempt h)"
  shows "money_ok (ec_budget E') (ec_attempts E')"
proof -
  have keyed: "keyed ea_id (ec_attempts E)" using core by (simp add: ext_core_def)
  from advance_in_Inr [OF keyed assms(3)] obtain row where row: "row \<in> set (ec_attempts E)"
    and aid: "ea_id row = ah_attempt h"
    and rows: "ec_attempts E' = update_rows (\<lambda>a. ea_id a = ea_id row) (moved st cols) (ec_attempts E)"
    and "ec_budget E' = ec_budget E" by metis
  moreover have "\<exists>r \<in> set (ec_attempts E'). ea_id r = a \<and> funded (ea_state r)"
    if a: "holds_for (ec_budget E) a" for a
  proof -
    obtain r where r: "r \<in> set (ec_attempts E)" "ea_id r = a" "funded (ea_state r)"
      using assms(2) a by (auto simp: money_ok_def)
    show ?thesis
    proof (cases "a = ea_id row")
      case True
      with assms(4) a aid have "funded st" by auto
      with True row show ?thesis
        by (intro bexI [of _ "moved st cols row"]) (auto simp: rows set_update_rows)
    qed (use r in \<open>auto simp: rows set_update_rows intro!: bexI [of _ r]\<close>)
  qed
  ultimately show ?thesis using assms(2) by (simp add: money_ok_def)
qed

lemma open_core:
  assumes "ext_core sha fr cs rows" and "cl_state c = CALL_OPEN" and "cl_attempt_count c = 0" and "cl_committed c = None"
  shows "ext_core sha fr (insert_ignore cl_id c cs) rows"
proof (cases "has_key cl_id (cl_id c) cs")
  case False
  then have none: "\<forall>a \<in> set rows. ea_call a \<noteq> cl_id c"
    using assms(1) unfolding ext_core_def has_key_iff by metis
  then have "call_ok rows c" using assms(2-4) by (auto simp: call_ok_def filter_empty_conv)
  with assms(1) False show ?thesis
    unfolding ext_core_def insert_ignore_def by (auto simp: keyed_append)
qed (use assms(1) in \<open>simp add: insert_ignore_def\<close>)

lemma close_core:
  assumes "ext_core sha fr (ec_calls E) (ec_attempts E)"
  shows "ext_core sha fr (ec_calls (close_call cid reason clk E)) (ec_attempts (close_call cid reason clk E))"
proof -
  let ?cs = "update_rows (\<lambda>c. cl_id c = cid \<and> cl_state c = CALL_OPEN)
      (\<lambda>c. c\<lparr>cl_state := CALL_ABANDONED, cl_updated_at := clk 0\<rparr>) (ec_calls E)"
  have keys: "cl_id ` set ?cs = cl_id ` set (ec_calls E)" "keyed cl_id ?cs"
    using assms by (auto simp: ext_core_def)
  have "call_ok (ec_attempts E) (c\<lparr>cl_state := CALL_ABANDONED, cl_updated_at := t\<rparr>)"
    if "call_ok (ec_attempts E) c" "cl_state c = CALL_OPEN" for c t
    using that by (simp add: call_ok_def)
  then have "\<forall>c \<in> set ?cs. call_ok (ec_attempts E) c" using assms by (auto simp: ext_core_def set_update_rows)
  with assms keys have "ext_core sha fr ?cs (ec_attempts E)" unfolding ext_core_def keys by blast
  then show ?thesis by (simp add: close_call_def Let_def)
qed

lemma begin_attempt_Inr:
  assumes "begin_attempt_in sha fr cid clk E = Inr (h, E')"
  obtains c a where "find_row cl_id cid (ec_calls E) = Some c" "cl_state c = CALL_OPEN"
    "\<forall>b \<in> set (ec_attempts E). ea_call b = cid \<longrightarrow> \<not> live_attempt b"
    "ea_call a = cid" "ea_ordinal a = cl_attempt_count c" "ea_state a = INTENT"
    "call_attempt_id sha fr cid (cl_attempt_count c) = Inr (ea_id a)" "ea_id a \<notin> ea_id ` set (ec_attempts E)"
    "h = handle_of a" "ec_attempts E' = ec_attempts E @ [a]" "ec_budget E' = ec_budget E"
    "ec_calls E' = update_rows (\<lambda>c. cl_id c = cid)
       (\<lambda>x. x\<lparr>cl_attempt_count := cl_attempt_count c + 1, cl_updated_at := clk 2\<rparr>) (ec_calls E)"
proof -
  obtain c where c: "find_row cl_id cid (ec_calls E) = Some c"
    using assms by (auto simp: begin_attempt_in_def split: option.splits)
  then have st: "cl_state c = CALL_OPEN"
    using assms by (cases "cl_state c") (auto simp: begin_attempt_in_def call_terminal_def)
  have none: "\<not> list_ex (\<lambda>a. ea_call a = cid \<and> live_attempt a) (ec_attempts E)"
    using assms c st by (auto simp: begin_attempt_in_def call_terminal_def split: if_splits)
  obtain aid where aid: "call_attempt_id sha fr cid (cl_attempt_count c) = Inr aid"
    using assms c st none by (auto simp: begin_attempt_in_def call_terminal_def Let_def split: sum.splits)
  let ?a = "\<lparr>ea_id = aid, ea_call = cid, ea_ordinal = cl_attempt_count c, ea_state = INTENT,
      ea_cols = [(''opened_at'', PFloat (Finite (clk 0)))]\<rparr>"
  obtain E1 where ins: "insert_call_attempt ?a E = Inr E1"
    using assms c st none aid
    by (auto simp: begin_attempt_in_def call_terminal_def Let_def result_elims)
  have fresh: "aid \<notin> ea_id ` set (ec_attempts E)" "E1 = E\<lparr>ec_attempts := ec_attempts E @ [?a]\<rparr>"
    using ins by (auto simp: insert_call_attempt_def has_key_iff split: if_splits)
  have run: "h = \<lparr>ah_call = cid, ah_attempt = aid, ah_ordinal = cl_attempt_count c\<rparr>
    \<and> E' = (log_call cid (Some aid) FirstIntent (clk 1) (Some ''attempt_opened'') E1)\<lparr>ec_calls :=
        update_rows (\<lambda>c. cl_id c = cid)
          (\<lambda>x. x\<lparr>cl_attempt_count := cl_attempt_count c + 1, cl_updated_at := clk 2\<rparr>) (ec_calls E1)\<rparr>"
    using assms c st none aid ins by (simp add: begin_attempt_in_def call_terminal_def Let_def)
  show thesis
    by (rule that [OF c st, of ?a])
      (use run none aid fresh in \<open>simp_all add: handle_of_def list_ex_iff\<close>)
qed

lemma begin_core:
  assumes core: "ext_core sha fr (ec_calls E) (ec_attempts E)" and "begin_attempt_in sha fr cid clk E = Inr (h, E')"
  shows "ext_core sha fr (ec_calls E') (ec_attempts E')"
  using assms(2)
proof (rule begin_attempt_Inr)
  fix c a
  assume c: "find_row cl_id cid (ec_calls E) = Some c" "cl_state c = CALL_OPEN"
    and none: "\<forall>b \<in> set (ec_attempts E). ea_call b = cid \<longrightarrow> \<not> live_attempt b"
    and a: "ea_call a = cid" "ea_ordinal a = cl_attempt_count c" "ea_state a = INTENT"
      "call_attempt_id sha fr cid (cl_attempt_count c) = Inr (ea_id a)" "ea_id a \<notin> ea_id ` set (ec_attempts E)"
    and rows: "ec_attempts E' = ec_attempts E @ [a]"
    and cs: "ec_calls E' = update_rows (\<lambda>c. cl_id c = cid)
       (\<lambda>x. x\<lparr>cl_attempt_count := cl_attempt_count c + 1, cl_updated_at := clk 2\<rparr>) (ec_calls E)"
  have mem: "c \<in> set (ec_calls E)" "cl_id c = cid" using find_row_SomeD [OF c(1)] by auto
  then have ok: "call_ok (ec_attempts E) c" using core by (auto simp: ext_core_def)
  have fallen: "\<not> standing b" if "b \<in> set (ec_attempts E)" "ea_call b = cid" for b
  proof -
    have "ea_state b \<noteq> A_COMMITTED" using ok that c(2) mem(2) by (auto simp: call_ok_def)
    with none that show ?thesis by (auto simp: live_attempt_def attempt_terminal_def standing_def)
  qed
  have keys: "cl_id ` set (ec_calls E') = cl_id ` set (ec_calls E)" "keyed cl_id (ec_calls E')"
    using core by (auto simp: ext_core_def cs)
  have "call_ok (ec_attempts E') c'" if c'mem: "c' \<in> set (ec_calls E')" for c'
  proof -
    obtain d where d: "d \<in> set (ec_calls E)" and c': "c' = (if cl_id d = cid
        then d\<lparr>cl_attempt_count := cl_attempt_count c + 1, cl_updated_at := clk 2\<rparr> else d)"
      using c'mem unfolding cs set_update_rows image_iff by blast
    have dok: "call_ok (ec_attempts E) d" using core d by (auto simp: ext_core_def)
    show ?thesis
    proof (cases "cl_id d = cid")
      case True
      with d mem core have "d = c" by (auto simp: ext_core_def keyed_def distinct_map dest: inj_onD)
      with ok c(2) a True show ?thesis
        by (auto simp: call_ok_def c' rows nat_add_distrib mem(2))
    next
      case False
      with dok a show ?thesis by (auto simp: call_ok_def c' rows)
    qed
  qed
  moreover have "\<forall>x \<in> set (ec_attempts E'). \<forall>y \<in> set (ec_attempts E').
      ea_call x = ea_call y \<and> standing x \<and> standing y \<longrightarrow> x = y"
    using core fallen a(1) by (auto simp: rows ext_core_def)
  moreover have "keyed ea_id (ec_attempts E')"
    using core a(5) by (simp add: rows keyed_append has_key_iff ext_core_def)
  moreover have "\<forall>x \<in> set (ec_attempts E'). ea_call x \<in> cl_id ` set (ec_calls E')
      \<and> call_attempt_id sha fr (ea_call x) (ea_ordinal x) = Inr (ea_id x)"
    unfolding keys(1) using core a imageI [OF mem(1), of cl_id] mem(2) by (auto simp: rows ext_core_def)
  ultimately show ?thesis using keys by (simp add: ext_core_def)
qed

subsection \<open>The operations\<close>

text \<open>The digest is injective and never empty.\<close>

definition digest_ok :: "(string \<Rightarrow> string) \<Rightarrow> bool" where
  "digest_ok sha \<longleftrightarrow> inj sha \<and> (\<forall>s. sha s \<noteq> [])"

lemma call_attempt_id_nonempty:
  assumes "digest_ok sha" and "call_attempt_id sha fr cid n = Inr aid"
  shows "aid \<noteq> []"
proof -
  have "hex_of s = [] \<longleftrightarrow> s = []" for s by (cases s) auto
  then show ?thesis using assms
    by (auto simp: call_attempt_id_def derive_id_def sha256_hex_def digest_ok_def result_elims
        split: sum.splits)
qed

text \<open>
  The group a caller passes for an attempt: \<open>None\<close> when nothing is held for it, else a group the budget
  made for this attempt.
\<close>

definition fits_group :: "attempt_handle \<Rightarrow> reservation_group option \<Rightarrow> budget \<Rightarrow> bool" where
  "fits_group h grp B \<longleftrightarrow>
     (case grp of
        None \<Rightarrow> \<not> holds_for B (ah_attempt h)
      | Some g \<Rightarrow> rg_id g = ah_attempt h \<and> distinct (map fst (rg_amounts g)))"

lemma settle_group_ok:
  assumes "inj sha" and "budget_ok B \<and> attributed B" and "fits_group h grp B"
  shows "\<exists>over B'. settle_group sha fr mode grp actuals clk B = Inr (over, B') \<and> budget_ok B' \<and> attributed B'
    \<and> \<not> holds_for B' (ah_attempt h) \<and> (\<forall>b. holds_for B' b \<longrightarrow> holds_for B b)"
proof (cases grp)
  case None
  with assms show ?thesis by (simp add: settle_group_def fits_group_def)
next
  case (Some g)
  have g: "rg_id g = ah_attempt h" "distinct (map fst (rg_amounts g))"
    using assms(3) Some by (auto simp: fits_group_def)
  have "\<exists>over B'. resolve_in sha fr g fn clk B = Inr (over, B') \<and> budget_ok B' \<and> attributed B'
    \<and> \<not> holds_for B' (ah_attempt h) \<and> (\<forall>b. holds_for B' b \<longrightarrow> holds_for B b)" for fn
    using wallet.resolve_law [where sha = sha and fr = fr and B = B and g = g and y = "(fn, clk)"] assms(1,2) g
    by auto
  with Some show ?thesis
    by (cases mode)
      (auto simp: settle_group_def settle_in_def keep_worst_case_in_def release_in_def)
qed

lemma transaction_fst: "transaction body E = (Inl e, E') \<Longrightarrow> E' = E"
  by (auto simp: transaction_def split: sum.splits)

lemma transaction_Inr: "transaction body E = (Inr x, E') \<longleftrightarrow> body E = Inr (x, E')"
  by (auto simp: transaction_def split: sum.splits)

lemma advance_ok:
  assumes "ext_ok sha fr E" and "valid_handle h E" and "advance_in h st cols clk E = Inr (u, E')"
    and "funded st \<or> \<not> holds_for (ec_budget E) (ah_attempt h)"
  shows "ext_ok sha fr E'"
proof -
  have "ext_core sha fr (ec_calls E) (ec_attempts E)" "money_ok (ec_budget E) (ec_attempts E)"
    using assms(1) by (auto simp: ext_ok_def)
  with advance_core [OF _ assms(2,3)] advance_money [OF _ _ assms(3,4)] show ?thesis
    by (simp only: ext_ok_def simp_thms)
qed

lemma ext_ok_parts [simp]:
  "ext_ok sha fr (E\<lparr>ec_ledger := L\<rparr>) = ext_ok sha fr E"
  "ext_ok sha fr (E\<lparr>ec_store := S\<rparr>) = ext_ok sha fr E"
  "ext_ok sha fr (E\<lparr>ec_transitions := ts\<rparr>) = ext_ok sha fr E"
  "valid_handle h (E\<lparr>ec_ledger := L\<rparr>) = valid_handle h E"
  "valid_handle h (E\<lparr>ec_store := S\<rparr>) = valid_handle h E"
  "valid_handle h (E\<lparr>ec_budget := B\<rparr>) = valid_handle h E"
  by (simp_all add: ext_ok_def valid_handle_def)

lemma advance_attempt_ok:
  assumes "ext_ok sha fr E" and "valid_handle h E" and "advance_attempt h st cols clk E = (res, E')"
    and "funded st \<or> \<not> holds_for (ec_budget E) (ah_attempt h)"
  shows "ext_ok sha fr E'"
proof (cases res)
  case (Inl e)
  with assms show ?thesis by (auto simp: advance_attempt_def dest: transaction_fst)
next
  case (Inr u)
  with assms have "advance_in h st cols clk E = Inr (u, E')" by (simp add: advance_attempt_def transaction_Inr)
  with assms advance_ok show ?thesis by blast
qed

lemma store_and_advance_ok:
  assumes "ext_ok sha fr E" and "valid_handle h E" and "funded st"
    and "store_and_advance put redact h t kind st col cols clk E = (res, E')"
  shows "ext_ok sha fr E'"
proof -
  obtain r S where put: "put (redact t) (ec_store E) = (r, S)" by fastforce
  show ?thesis
  proof (cases r)
    case (Inl e)
    with assms put show ?thesis by (auto simp: store_and_advance_def)
  next
    case (Inr ref)
    let ?E = "E\<lparr>ec_store := S, ec_ledger := register_artifact (or_key ref) kind (or_raw_size ref)
               (or_stored_size ref) (Some (ah_call h)) (clk 0) (ec_ledger E)\<rparr>"
    have "advance_attempt h st ((col, PStr (or_key ref)) # cols) (clk 1) ?E = (res, E')"
      using assms(4) put Inr by (simp add: store_and_advance_def)
    from advance_attempt_ok [OF _ _ this] assms(1-3) show ?thesis by simp
  qed
qed

lemma settle_and_advance_ok:
  assumes ok: "inj sha" "ext_ok sha fr E" and h: "valid_handle h E" "fits_group h grp (ec_budget E)"
    and run: "settle_and_advance sha fr rp h st grp actuals mode extra clk E = (res, E')"
  shows "ext_ok sha fr E'"
proof -
  let ?body = "settle_body sha fr h st grp actuals mode ((''settled_at'', PFloat (Finite (clk 0 0))) # extra) clk"
  obtain out E1 where tx: "transaction ?body E = (out, E1)" by fastforce
  show ?thesis
  proof (cases out)
    case (Inl e)
    with run tx ok show ?thesis by (auto simp: settle_and_advance_def dest: transaction_fst)
  next
    case (Inr over)
    obtain over' B where B: "settle_group sha fr mode grp actuals (clk 1) (ec_budget E) = Inr (over', B)"
      "budget_ok B" "attributed B" "\<not> holds_for B (ah_attempt h)" "\<forall>b. holds_for B b \<longrightarrow> holds_for (ec_budget E) b"
      using settle_group_ok [OF ok(1) _ h(2), of fr mode actuals "clk 1"] ok(2)
      by (auto simp: ext_ok_def money_ok_def)
    obtain u where adv: "advance_in h st ((''settled_at'', PFloat (Finite (clk 0 0))) # extra) (clk 2)
        (E\<lparr>ec_budget := B\<rparr>) = Inr (u, E1)"
      using tx Inr B(1) by (auto simp: transaction_Inr settle_body_def result_elims)
    have "ext_ok sha fr (E\<lparr>ec_budget := B\<rparr>)" using ok(2) B by (auto simp: ext_ok_def money_ok_def)
    from advance_ok [OF this _ adv] h(1) B(4) have "ext_ok sha fr E1" by simp
    with run tx Inr show ?thesis by (auto simp: settle_and_advance_def)
  qed
qed

lemma reserve_call_ok:
  assumes ok: "digest_ok sha" "ext_ok sha fr E" and h: "valid_handle h E"
    and intent: "attempt_state_of (ah_attempt h) E = Some INTENT" and amts: "distinct (map fst amts)"
    and run: "reserve_call sha fr h amts w clk E = (res, E')"
  shows "ext_ok sha fr E'"
proof -
  have core: "ext_core sha fr (ec_calls E) (ec_attempts E)" using ok(2) by (simp add: ext_ok_def)
  obtain row where row: "row \<in> set (ec_attempts E)" "ea_id row = ah_attempt h" "ea_state row = INTENT"
    using intent by (auto simp: attempt_state_of_def dest: find_row_SomeD)
  have unheld: "\<not> holds_for (ec_budget E) (ah_attempt h)"
  proof
    assume "holds_for (ec_budget E) (ah_attempt h)"
    then obtain x where "x \<in> set (ec_attempts E)" "ea_id x = ah_attempt h" "funded (ea_state x)"
      using ok(2) by (auto simp: ext_ok_def money_ok_def)
    with core_unique [OF core _ row(1), of x] row show False by (simp add: funded_def)
  qed
  have aid: "ah_attempt h \<noteq> []"
    using call_attempt_id_nonempty [OF ok(1)] core row by (auto simp: ext_core_def)
  obtain out E1 where tx: "transaction (reserve_body sha fr h amts w clk) E = (out, E1)" by fastforce
  have E1: "ext_ok sha fr E1"
  proof (cases out)
    case (Inr g)
    then obtain B u where B: "reserve_in sha fr amts w (Some (ah_call h)) (Some (ah_attempt h)) (clk 0)
          (ec_budget E) = Inr (g, B)"
      and adv: "advance_in h BUDGET_RESERVED [] (clk 1) (E\<lparr>ec_budget := B\<rparr>) = Inr (u, E1)"
      using tx by (auto simp: transaction_Inr reserve_body_def result_elims split: sum.splits)
    have law: "budget_ok B \<and> attributed B" "\<forall>b. holds_for B b \<longleftrightarrow> b = ah_attempt h \<or> holds_for (ec_budget E) b"
      using reserve_attempt [OF _ amts aid B] ok(2) by (auto simp: ext_ok_def money_ok_def)
    have core': "ext_core sha fr (ec_calls E1) (ec_attempts E1)"
      using advance_core [of sha fr "E\<lparr>ec_budget := B\<rparr>"] core h adv by simp
    from advance_in_Inr [OF _ adv] core obtain r where r: "r \<in> set (ec_attempts E)" "ea_id r = ah_attempt h"
      "ec_attempts E1 = update_rows (\<lambda>a. ea_id a = ea_id r) (moved BUDGET_RESERVED []) (ec_attempts E)"
      "ec_budget E1 = B" by (auto simp: ext_core_def)
    have "\<exists>x \<in> set (ec_attempts E1). ea_id x = b \<and> funded (ea_state x)" if "holds_for B b" for b
    proof (cases "b = ah_attempt h")
      case True
      with r show ?thesis
        by (intro bexI [of _ "moved BUDGET_RESERVED [] r"]) (auto simp: set_update_rows funded_def)
    next
      case False
      with that law(2) obtain x where "x \<in> set (ec_attempts E)" "ea_id x = b" "funded (ea_state x)"
        using ok(2) by (auto simp: ext_ok_def money_ok_def)
      with False r show ?thesis by (intro bexI [of _ x]) (auto simp: set_update_rows)
    qed
    with core' law r(4) show ?thesis by (simp add: ext_ok_def money_ok_def)
  qed (use tx ok in \<open>auto dest: transaction_fst\<close>)
  show ?thesis
  proof (cases "\<exists>r x y. out = Inl (BudgetRaised (BudgetExceeded r x y))")
    case True
    then have same: "E1 = E" using tx transaction_fst by blast
    obtain o2 E2 where adv: "advance_attempt h A_FAILED_FINAL
        [(''error_class'', PStr ''budget_exceeded'')] (clk 2) E = (o2, E2)" by fastforce
    from advance_attempt_ok [OF ok(2) h adv] unheld have "ext_ok sha fr E2" by simp
    with True run tx same adv show ?thesis
      by (cases o2) (auto simp: reserve_call_def)
  next
    case False
    then have "reserve_call sha fr h amts w clk E = (out, E1)"
      by (auto simp: reserve_call_def tx split: sum.splits ext_error.splits budget_error.splits)
    with run E1 show ?thesis by simp
  qed
qed

end
