(* ===== verification/ExternalProps.thy ===== *)
theory ExternalProps
  imports ExternalInv
begin

text \<open>
  Histories of the external-call ledger and its properties. A history is any sequence of the
  operations, returning or raising, with these disciplines of the callers in
  \<^verbatim>\<open>src/src/shapeflow/runtime/provider_server.py\<close>: a handle is one \<open>begin_attempt\<close> returned, an
  attempt is reserved for once, and it is ended with the reservation that was made for it.
\<close>

inductive ext_step ::
  "(string \<Rightarrow> string) \<Rightarrow> (real \<Rightarrow> string) \<Rightarrow> 's ext_calls \<Rightarrow> 's ext_calls \<Rightarrow> bool"
  for sha fr where
  opened: "open_call sha fr provider op_class key w clk E = (res, E') \<Longrightarrow> ext_step sha fr E E'"
| begun: "begin_attempt sha fr cid clk E = (res, E') \<Longrightarrow> ext_step sha fr E E'"
| abandoned: "ext_step sha fr E (close_call cid reason clk E)"
| reserved: "\<lbrakk>reserve_call sha fr h amts w clk E = (res, E'); valid_handle h E; distinct (map fst amts);
     attempt_state_of (ah_attempt h) E = Some INTENT\<rbrakk> \<Longrightarrow> ext_step sha fr E E'"
| sent: "\<lbrakk>mark_sent put redact h t d p clk E = (res, E'); valid_handle h E\<rbrakk> \<Longrightarrow> ext_step sha fr E E'"
| answered: "\<lbrakk>store_response put redact h t i m1 m2 f u tel d clk E = (res, E'); valid_handle h E\<rbrakk>
     \<Longrightarrow> ext_step sha fr E E'"
| validated: "\<lbrakk>validate_call h clk E = (res, E'); valid_handle h E\<rbrakk> \<Longrightarrow> ext_step sha fr E E'"
| committed: "\<lbrakk>commit_call sha fr rp h g actuals clk E = (res, E'); valid_handle h E;
     fits_group h (Some g) (ec_budget E)\<rbrakk> \<Longrightarrow> ext_step sha fr E E'"
| released: "\<lbrakk>fail_before_send sha fr rp h grp err clk E = (res, E'); valid_handle h E;
     fits_group h grp (ec_budget E)\<rbrakk> \<Longrightarrow> ext_step sha fr E E'"
| lost: "\<lbrakk>fail_unknown sha fr rp h grp err clk E = (res, E'); valid_handle h E;
     fits_group h grp (ec_budget E)\<rbrakk> \<Longrightarrow> ext_step sha fr E E'"
| refused: "\<lbrakk>fail_after_response sha fr rp h grp actuals err d tel clk E = (res, E'); valid_handle h E;
     fits_group h grp (ec_budget E)\<rbrakk> \<Longrightarrow> ext_step sha fr E E'"
| capped: "ensure_account r cap clk (ec_budget E) = Inr B \<Longrightarrow> ext_step sha fr E (E\<lparr>ec_budget := B\<rparr>)"
| authorized: "authorize_cap_raise fr r cap auth reason clk (ec_budget E, ec_ledger E) = Inr (changed, B, L)
     \<Longrightarrow> ext_step sha fr E (E\<lparr>ec_budget := B, ec_ledger := L\<rparr>)"

definition empty_calls :: "'s \<Rightarrow> 's ext_calls" where
  "empty_calls S = \<lparr>ec_calls = [], ec_attempts = [], ec_transitions = [], ec_budget = empty_budget,
     ec_ledger = empty_ledger, ec_store = S\<rparr>"

lemma ext_ok_budget:
  assumes "ext_ok sha fr E" and "budget_ok B"
    and "bg_reservations B = bg_reservations (ec_budget E)"
  shows "ext_ok sha fr (E\<lparr>ec_budget := B, ec_ledger := L\<rparr>)"
  using assms by (simp add: ext_ok_def money_ok_def attributed_def holds_for_def)

lemma ext_step_ok:
  assumes "digest_ok sha" and ok: "ext_ok sha fr E" and "ext_step sha fr E E'"
  shows "ext_ok sha fr E'"
  using assms(3)
proof (cases rule: ext_step.cases)
  case (opened provider op_class key w clk res)
  with ok show ?thesis
    by (auto simp: open_call_def ext_ok_def open_core split: sum.splits)
next
  case (begun cid clk res)
  then show ?thesis
  proof (cases res)
    case (Inl e)
    with begun ok show ?thesis by (auto simp: begin_attempt_def dest: transaction_fst)
  next
    case (Inr h)
    with begun have run: "begin_attempt_in sha fr cid clk E = Inr (h, E')"
      by (simp add: begin_attempt_def transaction_Inr)
    from run obtain a where "ec_attempts E' = ec_attempts E @ [a]" "ec_budget E' = ec_budget E"
      by (rule begin_attempt_Inr)
    with begin_core [OF _ run] ok show ?thesis by (auto simp: ext_ok_def money_ok_def)
  qed
next
  case (abandoned cid reason clk)
  have "ec_attempts E' = ec_attempts E" "ec_budget E' = ec_budget E"
    by (simp_all add: abandoned close_call_def Let_def)
  with close_core [of sha fr E cid reason clk] ok show ?thesis by (simp add: abandoned ext_ok_def)
next
  case reserved
  with reserve_call_ok [OF assms(1) ok] show ?thesis by blast
next
  case sent
  from store_and_advance_ok [OF ok sent(2) _ sent(1) [unfolded mark_sent_def]] show ?thesis
    by (simp add: funded_def)
next
  case answered
  from store_and_advance_ok [OF ok answered(2) _ answered(1) [unfolded store_response_def]] show ?thesis
    by (simp add: funded_def)
next
  case validated
  from advance_attempt_ok [OF ok validated(2) validated(1) [unfolded validate_call_def]] show ?thesis
    by (simp add: funded_def)
next
  case committed
  with settle_and_advance_ok [OF _ ok] assms(1) show ?thesis
    unfolding commit_call_def digest_ok_def by blast
next
  case released
  with settle_and_advance_ok [OF _ ok] assms(1) show ?thesis
    unfolding fail_before_send_def digest_ok_def by blast
next
  case lost
  with settle_and_advance_ok [OF _ ok] assms(1) show ?thesis
    unfolding fail_unknown_def digest_ok_def by blast
next
  case refused
  with settle_and_advance_ok [OF _ ok] assms(1) show ?thesis
    unfolding fail_after_response_def digest_ok_def by blast
next
  case (capped r cap clk B)
  have "budget_ok B" using ensure_account_ok capped(2) ok by (auto simp: ext_ok_def money_ok_def)
  moreover have "bg_reservations B = bg_reservations (ec_budget E)"
    using capped(2) by (auto simp: ensure_account_def split: option.splits if_splits)
  ultimately show ?thesis using ext_ok_budget [OF ok, of B "ec_ledger E"] capped(1) by simp
next
  case (authorized r cap auth reason clk changed B L)
  have b: "budget_ok (ec_budget E)" using ok by (simp add: ext_ok_def money_ok_def)
  from authorized(2) have "budget_ok B \<and> bg_reservations B = bg_reservations (ec_budget E)"
    by (rule authorize_Inr) (auto simp: b cap_update_ok)
  with ext_ok_budget [OF ok] authorized(1) show ?thesis by simp
qed

lemma ext_history_ok:
  assumes "digest_ok sha" and "(ext_step sha fr)\<^sup>*\<^sup>* (empty_calls S) E"
  shows "ext_ok sha fr E"
  using assms(2)
proof (induction rule: rtranclp_induct)
  case base
  show ?case
    by (simp add: empty_calls_def ext_ok_def ext_core_def money_ok_def keyed_def attributed_def
        holds_for_def empty_budget_def budget_ok_def)
next
  case (step E E')
  with ext_step_ok [OF assms(1)] show ?case by blast
qed

subsection \<open>Bought at most once\<close>

lemma committed_call_ref:
  assumes "ext_ok sha fr E" and "c \<in> set (ec_calls E)" and "cl_state c = CALL_COMMITTED"
  shows "committed_response_ref (cl_id c) E = response_ref_in (cl_committed c) E"
proof -
  have "keyed cl_id (ec_calls E)" using assms(1) by (simp add: ext_ok_def ext_core_def)
  then have "List.find (\<lambda>d. cl_id d = cl_id c \<and> cl_state d = CALL_COMMITTED) (ec_calls E) = Some c"
    using assms(2,3) by (rule find_keyed)
  then show ?thesis by (simp add: committed_response_ref_def)
qed

text \<open>
  C18. A logical call is bought at most once: in every reachable state at most one attempt of a call is
  in flight or committed; the call is COMMITTED exactly when one of its attempts is; a committed call
  refuses a further attempt and hands out the frozen response; and no second attempt is opened beside
  one that is in flight.
\<close>

theorem purchase_once:
  assumes "digest_ok sha" and "(ext_step sha fr)\<^sup>*\<^sup>* (empty_calls S) E" and "c \<in> set (ec_calls E)"
  shows "length (filter (\<lambda>a. ea_call a = cl_id c \<and> (live_attempt a \<or> ea_state a = A_COMMITTED)) (ec_attempts E)) \<le> 1
    \<and> (cl_state c = CALL_COMMITTED \<longleftrightarrow> (\<exists>a \<in> set (ec_attempts E). ea_call a = cl_id c \<and> ea_state a = A_COMMITTED))
    \<and> (cl_state c = CALL_COMMITTED \<longrightarrow> begin_attempt sha fr (cl_id c) clk E
         = (Inl (CallAlreadyCommitted (cl_id c) (committed_response_ref (cl_id c) E)), E))
    \<and> ((\<exists>a \<in> set (ec_attempts E). ea_call a = cl_id c \<and> live_attempt a)
       \<longrightarrow> (\<exists>e. begin_attempt sha fr (cl_id c) clk E = (Inl e, E)))"
proof -
  have ok: "ext_ok sha fr E" by (rule ext_history_ok [OF assms(1,2)])
  then have core: "ext_core sha fr (ec_calls E) (ec_attempts E)" by (simp add: ext_ok_def)
  then have call: "call_ok (ec_attempts E) c" using assms(3) by (simp add: ext_core_def)
  have found: "find_row cl_id (cl_id c) (ec_calls E) = Some c"
    using core assms(3) by (simp add: ext_core_def find_row_keyed)
  let ?mine = "filter (\<lambda>a. ea_call a = cl_id c \<and> (live_attempt a \<or> ea_state a = A_COMMITTED)) (ec_attempts E)"
  have stands: "standing a" if "a \<in> set ?mine" for a
    using that by (auto simp: standing_def live_attempt_def attempt_terminal_def)
  have "a = b" if "a \<in> set ?mine" "b \<in> set ?mine" for a b
  proof -
    have "a \<in> set (ec_attempts E)" "b \<in> set (ec_attempts E)" "ea_call a = ea_call b"
      using that by auto
    with core stands [OF that(1)] stands [OF that(2)] show ?thesis unfolding ext_core_def by blast
  qed
  moreover have "distinct ?mine"
    using core by (auto simp: ext_core_def keyed_def distinct_map intro: distinct_filter)
  ultimately have "length ?mine \<le> 1" by (intro length_le_one)
  moreover have "cl_state c = CALL_COMMITTED
      \<longleftrightarrow> (\<exists>a \<in> set (ec_attempts E). ea_call a = cl_id c \<and> ea_state a = A_COMMITTED)"
    using call by (auto simp: call_ok_def split: if_splits)
  moreover have "cl_state c = CALL_COMMITTED \<longrightarrow> begin_attempt sha fr (cl_id c) clk E
         = (Inl (CallAlreadyCommitted (cl_id c) (committed_response_ref (cl_id c) E)), E)"
    using committed_call_ref [OF ok assms(3)] found
    by (simp add: begin_attempt_def transaction_def begin_attempt_in_def)
  moreover have "\<exists>e. begin_attempt sha fr (cl_id c) clk E = (Inl e, E)"
    if "\<exists>a \<in> set (ec_attempts E). ea_call a = cl_id c \<and> live_attempt a"
  proof (cases "cl_state c")
    case CALL_OPEN
    have "list_ex (\<lambda>a. ea_call a = cl_id c \<and> live_attempt a) (ec_attempts E)"
      using that by (simp add: list_ex_iff)
    with CALL_OPEN found show ?thesis
      by (simp add: begin_attempt_def transaction_def begin_attempt_in_def call_terminal_def)
  qed (use found in \<open>simp_all add: begin_attempt_def transaction_def begin_attempt_in_def call_terminal_def\<close>)
  ultimately show ?thesis by blast
qed

subsection \<open>Restart\<close>

lemma advance_in_succeeds:
  assumes "keyed ea_id (ec_attempts E)" and "row \<in> set (ec_attempts E)" and "h = handle_of row"
    and "st \<in> set (legal_attempt (ea_state row))" and "st \<noteq> A_COMMITTED"
    and "fst ` set cols \<subseteq> set attempt_columns"
  shows "\<exists>E'. advance_in h st cols clk E = Inr ((), E')"
proof -
  have found: "find_row ea_id (ah_attempt h) (ec_attempts E) = Some row"
    using find_row_keyed [OF assms(1,2)] by (simp add: assms(3) handle_of_def)
  have "filter (\<lambda>a. ea_id a = ea_id row \<and> ea_state a = ea_state row) (ec_attempts E) = [row]"
    using filter_keyed [OF assms(1,2), of "\<lambda>a. ea_state a = ea_state row"] by simp
  then have "\<exists>E1. swap_state (ah_attempt h) (ea_state row) st cols E = Inr E1"
    using assms(3,5) by (simp add: swap_state_def Let_def handle_of_def)
  with found assms(4,6) show ?thesis by (force simp: advance_in_def Let_def)
qed

lemma settle_and_advance_succeeds:
  assumes "inj sha" and ok: "ext_ok sha fr E" and row: "row \<in> set (ec_attempts E)"
    and "fits_group (handle_of row) grp (ec_budget E)" and st: "st \<in> set (legal_attempt (ea_state row))" "st \<noteq> A_COMMITTED"
    and cols: "fst ` set extra \<subseteq> set attempt_columns"
  obtains E' cols where
    "settle_and_advance sha fr rp (handle_of row) st grp actuals mode extra clk E = (Inr (), E')"
    "ec_attempts E' = update_rows (\<lambda>a. ea_id a = ea_id row) (moved st cols) (ec_attempts E)"
proof -
  obtain over B where B: "settle_group sha fr mode grp actuals (clk 1) (ec_budget E) = Inr (over, B)"
    using settle_group_ok [OF assms(1) _ assms(4), of fr mode actuals "clk 1"] ok
    by (auto simp: ext_ok_def money_ok_def)
  let ?cols = "(''settled_at'', PFloat (Finite (clk 0 0))) # extra"
  have keyed: "keyed ea_id (ec_attempts (E\<lparr>ec_budget := B\<rparr>))" using ok by (simp add: ext_ok_def ext_core_def)
  have "fst ` set ?cols \<subseteq> set attempt_columns" using cols by (simp add: attempt_columns_def)
  from advance_in_succeeds [OF keyed _ refl st this, of "clk 2"] row
  obtain E1 where adv: "advance_in (handle_of row) st ?cols (clk 2) (E\<lparr>ec_budget := B\<rparr>) = Inr ((), E1)" by auto
  from advance_in_Inr [OF keyed adv]
  have "ec_attempts E1 = update_rows (\<lambda>a. ea_id a = ea_id row) (moved st ?cols) (ec_attempts E)"
    by (simp add: handle_of_def)
  with that B adv show thesis
    by (simp add: settle_and_advance_def transaction_def settle_body_def)
qed

lemma group_for_fits: "fits_group h (group_for (ah_attempt h) E) (ec_budget E)"
  by (auto simp: group_for_def fits_group_def Let_def holds_for_def filter_empty_conv)

lemma reconcile_one_ok:
  assumes "inj sha" and ok: "ext_ok sha fr E" and row: "row \<in> set (ec_attempts E)" "live_attempt row"
  obtains E' st cols where
    "reconcile_one sha fr rp clk (handle_of row) ((u, r), E)
       = Inr (if ea_state row \<in> set sent_states then (Suc u, r) else (u, Suc r), E')"
    "ext_ok sha fr E'" "st \<in> {A_FAILED_FINAL, A_FAILED_UNKNOWN}"
    "ec_attempts E' = update_rows (\<lambda>a. ea_id a = ea_id row) (moved st cols) (ec_attempts E)"
proof -
  have keyed: "keyed ea_id (ec_attempts E)" using ok by (simp add: ext_ok_def ext_core_def)
  have h: "ah_attempt (handle_of row) = ea_id row" "valid_handle (handle_of row) E"
    using row by (auto simp: handle_of_def valid_handle_def)
  note fits = group_for_fits [of "handle_of row" E, unfolded h(1)]
  have st: "attempt_was_sent (ea_id row) E \<longleftrightarrow> ea_state row \<in> set sent_states"
    using find_row_keyed [OF keyed row(1)] by (simp add: attempt_was_sent_def attempt_state_of_def)
  have cols: "fst ` set [(''error_class'', PStr ''provider_restart'')] \<subseteq> set attempt_columns"
    by (simp add: attempt_columns_def)
  show thesis
  proof (cases "ea_state row \<in> set sent_states")
    case True
    then have "A_FAILED_UNKNOWN \<in> set (legal_attempt (ea_state row))" by (auto simp: sent_states_def)
    from settle_and_advance_succeeds [OF assms(1) ok row(1) fits this _ cols, of rp "[]" WorstCase clk]
    obtain E' cs where run: "settle_and_advance sha fr rp (handle_of row) A_FAILED_UNKNOWN (group_for (ea_id row) E)
        [] WorstCase [(''error_class'', PStr ''provider_restart'')] clk E = (Inr (), E')"
      and rows: "ec_attempts E' = update_rows (\<lambda>a. ea_id a = ea_id row) (moved A_FAILED_UNKNOWN cs) (ec_attempts E)"
      by auto
    from settle_and_advance_ok [OF assms(1) ok h(2) fits run] that [OF _ _ _ rows] True run st show thesis
      by (simp add: reconcile_one_def Let_def h(1) fail_unknown_def)
  next
    case False
    then have "A_FAILED_FINAL \<in> set (legal_attempt (ea_state row))"
      using row(2) by (cases "ea_state row") (auto simp: sent_states_def live_attempt_def attempt_terminal_def)
    from settle_and_advance_succeeds [OF assms(1) ok row(1) fits this _ cols, of rp "[]" Release clk]
    obtain E' cs where run: "settle_and_advance sha fr rp (handle_of row) A_FAILED_FINAL (group_for (ea_id row) E)
        [] Release [(''error_class'', PStr ''provider_restart'')] clk E = (Inr (), E')"
      and rows: "ec_attempts E' = update_rows (\<lambda>a. ea_id a = ea_id row) (moved A_FAILED_FINAL cs) (ec_attempts E)"
      by auto
    from settle_and_advance_ok [OF assms(1) ok h(2) fits run] that [OF _ _ _ rows] False run st show thesis
      by (simp add: reconcile_one_def Let_def h(1) fail_before_send_def)
  qed
qed

lemma reconcile_loop:
  assumes "inj sha" and "ext_ok sha fr E" and "distinct (map ea_id rs)"
    and "\<forall>x \<in> set rs. x \<in> set (ec_attempts E) \<and> live_attempt x"
  shows "\<exists>E'. rfold (\<lambda>(k, h). reconcile_one sha fr rp (clk k) h) (enumerate n (map handle_of rs)) ((u, r), E)
      = Inr ((u + length (filter (\<lambda>x. ea_state x \<in> set sent_states) rs),
              r + length (filter (\<lambda>x. ea_state x \<notin> set sent_states) rs)), E')
    \<and> ext_ok sha fr E'
    \<and> (\<forall>a \<in> set (ec_attempts E'). live_attempt a \<longrightarrow> a \<in> set (ec_attempts E) \<and> ea_id a \<notin> ea_id ` set rs)"
  using assms(2-)
proof (induction rs arbitrary: n u r E)
  case (Cons x rs)
  then have x: "x \<in> set (ec_attempts E)" "live_attempt x" by auto
  from reconcile_one_ok [OF assms(1) Cons.prems(1) x, of rp "clk n" u r]
  obtain E1 st cols where one: "reconcile_one sha fr rp (clk n) (handle_of x) ((u, r), E)
       = Inr (if ea_state x \<in> set sent_states then (Suc u, r) else (u, Suc r), E1)"
    and ok: "ext_ok sha fr E1" and st: "st \<in> {A_FAILED_FINAL, A_FAILED_UNKNOWN}"
    and rows: "ec_attempts E1 = update_rows (\<lambda>a. ea_id a = ea_id x) (moved st cols) (ec_attempts E)" .
  have "y \<in> set (ec_attempts E1)" if "y \<in> set rs" for y
  proof -
    have "ea_id x \<notin> ea_id ` set rs" using Cons.prems(2) by auto
    moreover have "ea_id y \<in> ea_id ` set rs" using that by (rule imageI)
    ultimately have "ea_id y \<noteq> ea_id x" by metis
    moreover have "y \<in> set (ec_attempts E)" using that Cons.prems(3) by auto
    ultimately show ?thesis unfolding rows set_update_rows image_iff by (intro bexI [of _ y]) simp_all
  qed
  then have "\<forall>y \<in> set rs. y \<in> set (ec_attempts E1) \<and> live_attempt y" using Cons.prems(3) by simp
  from Cons.IH [OF ok _ this, of "Suc n" "fst (if ea_state x \<in> set sent_states then (Suc u, r) else (u, Suc r))"
      "snd (if ea_state x \<in> set sent_states then (Suc u, r) else (u, Suc r))"] Cons.prems(2)
  obtain E' where loop: "rfold (\<lambda>(k, h). reconcile_one sha fr rp (clk k) h) (enumerate (Suc n) (map handle_of rs))
        (if ea_state x \<in> set sent_states then (Suc u, r) else (u, Suc r), E1)
      = Inr ((u + length (filter (\<lambda>x. ea_state x \<in> set sent_states) (x # rs)),
              r + length (filter (\<lambda>x. ea_state x \<notin> set sent_states) (x # rs))), E')"
    and ok': "ext_ok sha fr E'"
    and live: "\<forall>a \<in> set (ec_attempts E'). live_attempt a \<longrightarrow> a \<in> set (ec_attempts E1) \<and> ea_id a \<notin> ea_id ` set rs"
    by (auto split: if_splits)
  have "a \<in> set (ec_attempts E) \<and> ea_id a \<noteq> ea_id x"
    if a: "a \<in> set (ec_attempts E1)" "live_attempt a" for a
    using a st by (auto simp: rows set_update_rows live_attempt_def attempt_terminal_def)
  with one loop ok' live show ?case by (intro exI [of _ E']) auto
qed simp

lemma no_live_no_money:
  assumes ok: "ext_ok sha fr E" and none: "\<forall>a \<in> set (ec_attempts E). \<not> live_attempt a"
    and acct: "a \<in> set (bg_accounts (ec_budget E))"
  shows "ac_reserved a = 0"
proof -
  let ?vs = "bg_reservations (ec_budget E)"
  have "rv_state v \<noteq> RESERVED" if v: "v \<in> set ?vs" for v
  proof
    assume "rv_state v = RESERVED"
    moreover obtain b where "rv_attempt_id v = Some b"
      using ok v by (auto simp: ext_ok_def money_ok_def attributed_def)
    ultimately have "holds_for (ec_budget E) b" using v by (auto simp: holds_for_def)
    then obtain row where "row \<in> set (ec_attempts E)" "funded (ea_state row)"
      using ok by (auto simp: ext_ok_def money_ok_def)
    with none show False by (auto simp: funded_def live_attempt_def attempt_terminal_def)
  qed
  then have "held (ac_resource a) ?vs = 0" by (simp add: held_def)
  with ok acct show ?thesis by (simp add: ext_ok_def money_ok_def budget_ok_def)
qed

text \<open>
  C19. A restart closes everything: from every reachable state \<open>reconcile_on_start\<close> returns, ends every
  attempt left in flight (those that had been sent as unknown, the others as released, counted as
  such), and leaves no money reserved on any account.
\<close>

theorem restart_closes_all:
  assumes "digest_ok sha" and "(ext_step sha fr)\<^sup>*\<^sup>* (empty_calls S) E"
  shows "\<exists>unknown released E'. reconcile_on_start sha fr rp clk E = Inr ((unknown, released), E')
    \<and> live_attempts E' = []
    \<and> unknown = length (filter (\<lambda>h. attempt_was_sent (ah_attempt h) E) (live_attempts E))
    \<and> unknown + released = length (live_attempts E)
    \<and> (\<forall>a \<in> set (bg_accounts (ec_budget E')). ac_reserved a = 0)"
proof -
  have ok: "ext_ok sha fr E" by (rule ext_history_ok [OF assms])
  then have keyed: "keyed ea_id (ec_attempts E)" by (simp add: ext_ok_def ext_core_def)
  let ?rs = "sort_key opened_at (filter live_attempt (ec_attempts E))"
  have rs: "\<forall>x \<in> set ?rs. x \<in> set (ec_attempts E) \<and> live_attempt x" by simp
  have dist: "distinct (map ea_id ?rs)"
    using keyed by (auto simp: keyed_def distinct_map inj_on_def)
  have inj: "inj sha" using assms(1) by (simp add: digest_ok_def)
  let ?sent = "\<lambda>x. ea_state x \<in> set sent_states"
  from reconcile_loop [OF inj ok dist rs, of rp clk 0 0 0] obtain E'
    where run: "reconcile_on_start sha fr rp clk E = Inr ((length (filter ?sent ?rs),
        length (filter (\<lambda>x. \<not> ?sent x) ?rs)), E')"
      and ok': "ext_ok sha fr E'"
      and left: "\<forall>a \<in> set (ec_attempts E'). live_attempt a \<longrightarrow> a \<in> set (ec_attempts E) \<and> ea_id a \<notin> ea_id ` set ?rs"
    by (auto simp: reconcile_on_start_def live_attempts_def)
  have none: "\<forall>a \<in> set (ec_attempts E'). \<not> live_attempt a" using left by auto
  have "attempt_was_sent (ah_attempt (handle_of x)) E = ?sent x" if "x \<in> set ?rs" for x
    using that find_row_keyed [OF keyed, of x]
    by (simp add: attempt_was_sent_def attempt_state_of_def handle_of_def)
  then have "filter ?sent ?rs = filter (\<lambda>x. attempt_was_sent (ah_attempt (handle_of x)) E) ?rs"
    by (intro filter_cong refl) (simp only:)
  then have "map handle_of (filter ?sent ?rs)
      = filter (\<lambda>h. attempt_was_sent (ah_attempt h) E) (map handle_of ?rs)"
    by (simp add: filter_map comp_def)
  then have "length (filter ?sent ?rs)
      = length (filter (\<lambda>h. attempt_was_sent (ah_attempt h) E) (live_attempts E))"
    unfolding live_attempts_def by (metis length_map)
  moreover have "live_attempts E' = []" using none by (simp add: live_attempts_def filter_empty_conv)
  moreover have "length (filter ?sent ?rs) + length (filter (\<lambda>x. \<not> ?sent x) ?rs) = length (live_attempts E)"
    by (simp only: filter_length_split) (simp add: live_attempts_def)
  ultimately show ?thesis using run no_live_no_money [OF ok' none] by blast
qed

subsection \<open>The abstract purchase\<close>

text \<open>
  What a logical call promises to its caller, without attempts: it is unbought, bought with a frozen
  response, or given up. This is what the code does: a call given up while an attempt is validated may still be
  bought, although the documentation of the module means ABANDONED to be final.
\<close>

datatype purchase = Unbought | Bought pyval | GivenUp

inductive purchase_step :: "(string \<Rightarrow> purchase) \<Rightarrow> (string \<Rightarrow> purchase) \<Rightarrow> bool" where
  buy: "\<forall>r. m cid \<noteq> Bought r \<Longrightarrow> purchase_step m (m(cid := Bought ref))"
| give_up: "m cid = Unbought \<Longrightarrow> purchase_step m (m(cid := GivenUp))"

inductive_cases purchase_stepE: "purchase_step m m'"

definition purchase_of :: "'s ext_calls \<Rightarrow> string \<Rightarrow> purchase" where
  "purchase_of E cid =
     (case find_row cl_id cid (ec_calls E) of
        None \<Rightarrow> Unbought
      | Some c \<Rightarrow>
          (case cl_state c of
             CALL_OPEN \<Rightarrow> Unbought
           | CALL_COMMITTED \<Rightarrow> Bought (response_ref_in (cl_committed c) E)
           | CALL_ABANDONED \<Rightarrow> GivenUp))"

lemma bought_stays: "purchase_step m m' \<Longrightarrow> m cid = Bought r \<Longrightarrow> m' cid = Bought r"
  by (erule purchase_stepE) auto

lemma response_ref_cong:
  fixes E E' :: "'s ext_calls"
  assumes "ec_attempts E' = ec_attempts E"
  shows "response_ref_in aid E' = response_ref_in aid E"
  unfolding response_ref_in_def assms ..

lemma purchase_of_cong:
  fixes E E' :: "'s ext_calls"
  assumes "ec_attempts E' = ec_attempts E" and "ec_calls E' = ec_calls E"
  shows "purchase_of E' = purchase_of E"
  using assms by (auto simp: purchase_of_def response_ref_in_def fun_eq_iff split: option.splits call_state.splits)

text \<open>The promise depends on the state and the committed attempt of the call, and on its response.\<close>

lemma purchase_of_view:
  fixes E E' :: "'s ext_calls"
  assumes "map_option (\<lambda>c. (cl_state c, cl_committed c)) (find_row cl_id cid (ec_calls E'))
      = map_option (\<lambda>c. (cl_state c, cl_committed c)) (find_row cl_id cid (ec_calls E))"
    and "\<And>c. c \<in> set (ec_calls E) \<Longrightarrow> cl_state c = CALL_COMMITTED
      \<Longrightarrow> response_ref_in (cl_committed c) E' = response_ref_in (cl_committed c) E"
  shows "purchase_of E' cid = purchase_of E cid"
proof (cases "find_row cl_id cid (ec_calls E)")
  case (Some c)
  then obtain c' where c': "find_row cl_id cid (ec_calls E') = Some c'"
    "cl_state c' = cl_state c" "cl_committed c' = cl_committed c"
    using assms(1) by auto
  with Some assms(2) [of c] find_row_SomeD [OF Some] show ?thesis
    by (cases "cl_state c") (simp_all add: purchase_of_def)
qed (use assms(1) in \<open>simp add: purchase_of_def\<close>)

text \<open>A move of an attempt changes what the call promises only when it commits.\<close>

lemma advance_purchase:
  assumes core: "ext_core sha fr (ec_calls E) (ec_attempts E)" and h: "valid_handle h E"
    and run: "advance_in h st cols clk E = Inr (u, E')"
  shows "purchase_of E' = purchase_of E \<or> purchase_step (purchase_of E) (purchase_of E')"
proof -
  have keyed: "keyed ea_id (ec_attempts E)" using core by (simp add: ext_core_def)
  from advance_in_Inr [OF keyed run] obtain row where row: "row \<in> set (ec_attempts E)"
    and aid: "ea_id row = ah_attempt h" and legal: "st \<in> set (legal_attempt (ea_state row))"
    and rows: "ec_attempts E' = update_rows (\<lambda>a. ea_id a = ea_id row) (moved st cols) (ec_attempts E)"
    and cs: "ec_calls E' = (if st = A_COMMITTED
       then update_rows (\<lambda>c. cl_id c = ah_call h) (\<lambda>c. c\<lparr>cl_state := CALL_COMMITTED,
              cl_updated_at := clk 1, cl_committed := Some (ea_id row)\<rparr>) (ec_calls E)
       else if st \<in> set attempt_terminal
       then update_rows (\<lambda>c. cl_id c = ah_call h) (\<lambda>c. c\<lparr>cl_updated_at := clk 1\<rparr>) (ec_calls E)
       else ec_calls E)" .
  obtain a where a: "a \<in> set (ec_attempts E)" "handle_of a = h" using h by (auto simp: valid_handle_def)
  with core_unique [OF core _ row] aid have call: "ah_call h = ea_call row" by (auto simp: handle_of_def)
  have ref: "response_ref_in (cl_committed c) E' = response_ref_in (cl_committed c) E"
    if c: "c \<in> set (ec_calls E)" "cl_state c = CALL_COMMITTED" for c
  proof -
    obtain b where b: "b \<in> set (ec_attempts E)" "ea_state b = A_COMMITTED" "cl_committed c = Some (ea_id b)"
    proof -
      have "call_ok (ec_attempts E) c" using core c(1) by (simp add: ext_core_def)
      with c(2) that show thesis by (auto simp: call_ok_def)
    qed
    have "ea_id b \<noteq> ea_id row" using core_unique [OF core b(1) row] b(2) legal_attempt_from [OF legal] by auto
    then have "find_row ea_id (ea_id b) (ec_attempts E') = find_row ea_id (ea_id b) (ec_attempts E)"
      by (simp add: rows find_row_update_one)
    moreover have "truthy (Some (ea_id b)) = Some (ea_id b) \<or> truthy (Some (ea_id b)) = None"
      by (cases "ea_id b") (auto simp: truthy_def)
    ultimately show ?thesis by (auto simp: response_ref_in_def b(3))
  qed
  have same: "purchase_of E' cid = purchase_of E cid" if "st \<noteq> A_COMMITTED \<or> cid \<noteq> ah_call h" for cid
  proof (rule purchase_of_view [OF _ ref])
    show "map_option (\<lambda>c. (cl_state c, cl_committed c)) (find_row cl_id cid (ec_calls E'))
        = map_option (\<lambda>c. (cl_state c, cl_committed c)) (find_row cl_id cid (ec_calls E))"
      using that by (auto simp: cs find_row_update_one option.map_comp comp_def)
  qed
  show ?thesis
  proof (cases "st = A_COMMITTED")
    case False
    with same have "purchase_of E' = purchase_of E" by auto
    then show ?thesis ..
  next
    case True
    with legal have "standing row" "ea_state row \<noteq> A_COMMITTED"
      by (auto simp: standing_def dest: legal_attempt_from)
    obtain c where c: "c \<in> set (ec_calls E)" "cl_id c = ah_call h" "find_row cl_id (ah_call h) (ec_calls E) = Some c"
      using core row call find_row_keyed [of cl_id "ec_calls E"] unfolding ext_core_def by (metis imageE)
    have "cl_state c \<noteq> CALL_COMMITTED"
    proof
      assume "cl_state c = CALL_COMMITTED"
      then obtain b where "b \<in> set (ec_attempts E)" "ea_call b = ea_call row" "ea_state b = A_COMMITTED"
      proof -
        have "call_ok (ec_attempts E) c" using core c(1) by (simp add: ext_core_def)
        with \<open>cl_state c = CALL_COMMITTED\<close> c(2) call that show thesis by (auto simp: call_ok_def)
      qed
      with core row \<open>standing row\<close> \<open>ea_state row \<noteq> A_COMMITTED\<close> show False
        unfolding ext_core_def standing_def by (metis attempt_state.distinct insertE singletonD)
    qed
    then have "\<forall>r. purchase_of E (ah_call h) \<noteq> Bought r"
      using c by (simp add: purchase_of_def split: call_state.splits)
    moreover obtain ref where "purchase_of E' (ah_call h) = Bought ref"
      using c by (simp add: purchase_of_def cs True find_row_update_one)
    then have "purchase_of E' = (purchase_of E)(ah_call h := Bought ref)"
      using same by (auto simp: fun_eq_iff)
    ultimately show ?thesis using purchase_step.buy [of "purchase_of E" "ah_call h" ref] by simp
  qed
qed

lemma advance_attempt_purchase:
  assumes "ext_core sha fr (ec_calls E) (ec_attempts E)" and "valid_handle h E"
    and "advance_attempt h st cols clk E = (res, E')"
  shows "purchase_of E' = purchase_of E \<or> purchase_step (purchase_of E) (purchase_of E')"
proof (cases res)
  case (Inl e)
  with assms(3) show ?thesis by (auto simp: advance_attempt_def dest: transaction_fst)
next
  case (Inr u)
  with assms(3) have "advance_in h st cols clk E = Inr (u, E')" by (simp add: advance_attempt_def transaction_Inr)
  from advance_purchase [OF assms(1,2) this] show ?thesis .
qed

lemma store_purchase:
  assumes "ext_core sha fr (ec_calls E) (ec_attempts E)" and "valid_handle h E"
    and run: "store_and_advance put redact h t kind st col cols clk E = (res, E')"
  shows "purchase_of E' = purchase_of E \<or> purchase_step (purchase_of E) (purchase_of E')"
proof -
  obtain r S where put: "put (redact t) (ec_store E) = (r, S)" by fastforce
  show ?thesis
  proof (cases r)
    case (Inl e)
    with put run have "purchase_of E' = purchase_of E"
      by (intro purchase_of_cong) (auto simp: store_and_advance_def)
    then show ?thesis ..
  next
    case (Inr ref)
    let ?E = "E\<lparr>ec_store := S, ec_ledger := register_artifact (or_key ref) kind (or_raw_size ref)
               (or_stored_size ref) (Some (ah_call h)) (clk 0) (ec_ledger E)\<rparr>"
    have "advance_attempt h st ((col, PStr (or_key ref)) # cols) (clk 1) ?E = (res, E')"
      using run put Inr by (simp add: store_and_advance_def)
    from advance_attempt_purchase [of sha fr, OF _ _ this] assms(1,2)
    have "purchase_of E' = purchase_of ?E \<or> purchase_step (purchase_of ?E) (purchase_of E')" by simp
    moreover have "purchase_of ?E = purchase_of E" by (rule purchase_of_cong) simp_all
    ultimately show ?thesis by simp
  qed
qed

lemma budget_advance_purchase:
  assumes "ext_core sha fr (ec_calls E) (ec_attempts E)" and "valid_handle h E"
    and "advance_in h st cols clk (E\<lparr>ec_budget := B\<rparr>) = Inr (u, E')"
  shows "purchase_of E' = purchase_of E \<or> purchase_step (purchase_of E) (purchase_of E')"
proof -
  have "purchase_of (E\<lparr>ec_budget := B\<rparr>) = purchase_of E" by (rule purchase_of_cong) simp_all
  with advance_purchase [of sha fr "E\<lparr>ec_budget := B\<rparr>" h st cols clk u E'] assms show ?thesis by simp
qed

lemma settle_purchase:
  assumes "ext_core sha fr (ec_calls E) (ec_attempts E)" and "valid_handle h E"
    and run: "settle_and_advance sha fr rp h st grp actuals mode extra clk E = (res, E')"
  shows "purchase_of E' = purchase_of E \<or> purchase_step (purchase_of E) (purchase_of E')"
proof -
  let ?body = "settle_body sha fr h st grp actuals mode ((''settled_at'', PFloat (Finite (clk 0 0))) # extra) clk"
  obtain out E1 where tx: "transaction ?body E = (out, E1)" by fastforce
  show ?thesis
  proof (cases out)
    case (Inl e)
    with run tx show ?thesis by (auto simp: settle_and_advance_def dest: transaction_fst)
  next
    case (Inr over)
    then obtain B u where "advance_in h st ((''settled_at'', PFloat (Finite (clk 0 0))) # extra) (clk 2)
        (E\<lparr>ec_budget := B\<rparr>) = Inr (u, E1)"
      using tx by (auto simp: transaction_Inr settle_body_def result_elims split: sum.splits)
    from budget_advance_purchase [OF assms(1,2) this]
    have "purchase_of E1 = purchase_of E \<or> purchase_step (purchase_of E) (purchase_of E1)" .
    moreover have "purchase_of E' = purchase_of E1"
      using run tx Inr by (intro purchase_of_cong) (auto simp: settle_and_advance_def)
    ultimately show ?thesis by simp
  qed
qed

lemma reserve_purchase:
  assumes core: "ext_core sha fr (ec_calls E) (ec_attempts E)" and h: "valid_handle h E"
    and run: "reserve_call sha fr h amts w clk E = (res, E')"
  shows "purchase_of E' = purchase_of E \<or> purchase_step (purchase_of E) (purchase_of E')"
proof -
  obtain out E1 where tx: "transaction (reserve_body sha fr h amts w clk) E = (out, E1)" by fastforce
  show ?thesis
  proof (cases "\<exists>r x y. out = Inl (BudgetRaised (BudgetExceeded r x y))")
    case True
    then have same: "E1 = E" using tx transaction_fst by blast
    obtain o2 E2 where adv: "advance_attempt h A_FAILED_FINAL
        [(''error_class'', PStr ''budget_exceeded'')] (clk 2) E = (o2, E2)" by fastforce
    have "E' = E2" using True run tx same adv by (cases o2) (auto simp: reserve_call_def)
    with advance_attempt_purchase [OF core h adv] show ?thesis by simp
  next
    case False
    then have "reserve_call sha fr h amts w clk E = (out, E1)"
      by (auto simp: reserve_call_def tx split: sum.splits ext_error.splits budget_error.splits)
    then have E': "E' = E1" using run by simp
    show ?thesis
    proof (cases out)
      case (Inl e)
      with tx E' show ?thesis by (auto dest: transaction_fst)
    next
      case (Inr g)
      then obtain B u where "advance_in h BUDGET_RESERVED [] (clk 1) (E\<lparr>ec_budget := B\<rparr>) = Inr (u, E1)"
        using tx by (auto simp: transaction_Inr reserve_body_def result_elims split: sum.splits)
      from budget_advance_purchase [OF core h this] E' show ?thesis by simp
    qed
  qed
qed

lemma insert_purchase:
  assumes "cl_state c = CALL_OPEN"
  shows "purchase_of (E\<lparr>ec_calls := insert_ignore cl_id c (ec_calls E)\<rparr>) = purchase_of E"
    (is "purchase_of ?E = _")
proof
  fix q
  have ref: "response_ref_in d ?E = response_ref_in d E" for d by (rule response_ref_cong) simp
  show "purchase_of ?E q = purchase_of E q"
  proof (cases "find_row cl_id q (ec_calls E) = None \<and> q = cl_id c")
    case True
    then have "find_row cl_id (cl_id c) (ec_calls E) = None" "q = cl_id c" by auto
    with assms show ?thesis by (simp add: purchase_of_def insert_ignore_def has_key_find find_row_append)
  next
    case False
    then have "find_row cl_id q (ec_calls ?E) = find_row cl_id q (ec_calls E)"
      by (auto simp: insert_ignore_def find_row_append split: option.splits)
    then show ?thesis by (intro purchase_of_view ref) simp
  qed
qed

lemma begin_purchase:
  assumes core: "ext_core sha fr (ec_calls E) (ec_attempts E)" and run: "begin_attempt_in sha fr cid clk E = (Inr (h, E'))"
  shows "purchase_of E' = purchase_of E"
proof
  fix q
  from run obtain c :: call_row and a where "ec_attempts E' = ec_attempts E @ [a]"
    and cs: "ec_calls E' = update_rows (\<lambda>c. cl_id c = cid)
       (\<lambda>x. x\<lparr>cl_attempt_count := cl_attempt_count c + 1, cl_updated_at := clk 2\<rparr>) (ec_calls E)"
    by (rule begin_attempt_Inr) (rule that)
  show "purchase_of E' q = purchase_of E q"
  proof (rule purchase_of_view)
    fix d assume d: "d \<in> set (ec_calls E)" "cl_state d = CALL_COMMITTED"
    then have "call_ok (ec_attempts E) d" using core by (simp add: ext_core_def)
    with d(2) obtain b where b: "b \<in> set (ec_attempts E)" "cl_committed d = Some (ea_id b)"
      by (auto simp: call_ok_def)
    have "keyed ea_id (ec_attempts E)" using core by (simp add: ext_core_def)
    from find_row_keyed [OF this b(1)]
    have "find_row ea_id (ea_id b) (ec_attempts E') = find_row ea_id (ea_id b) (ec_attempts E)"
      by (simp add: \<open>ec_attempts E' = _\<close> find_row_append)
    moreover have "truthy (Some (ea_id b)) = Some (ea_id b) \<or> truthy (Some (ea_id b)) = None"
      by (cases "ea_id b") (auto simp: truthy_def)
    ultimately show "response_ref_in (cl_committed d) E' = response_ref_in (cl_committed d) E"
      by (auto simp: response_ref_in_def b(2))
  qed (auto simp: cs find_row_update_one option.map_comp comp_def)
qed

lemma close_purchase:
  "purchase_of (close_call cid reason clk E) = purchase_of E
   \<or> purchase_step (purchase_of E) (purchase_of (close_call cid reason clk E))"
proof (cases "find_row cl_id cid (ec_calls E)")
  case None
  then have "\<forall>c \<in> set (ec_calls E). cl_id c \<noteq> cid" by (auto simp: find_row_None)
  then have "update_rows (\<lambda>c. cl_id c = cid \<and> cl_state c = CALL_OPEN)
      (\<lambda>c. c\<lparr>cl_state := CALL_ABANDONED, cl_updated_at := clk 0\<rparr>) (ec_calls E) = ec_calls E"
    by (intro update_rows_none) auto
  then have "purchase_of (close_call cid reason clk E) = purchase_of E"
    by (intro purchase_of_cong) (simp_all add: close_call_def Let_def)
  then show ?thesis ..
next
  case (Some c)
  let ?E = "close_call cid reason clk E"
  have found: "find_row cl_id q (ec_calls ?E) = map_option (\<lambda>c. if cl_id c = cid \<and> cl_state c = CALL_OPEN
      then c\<lparr>cl_state := CALL_ABANDONED, cl_updated_at := clk 0\<rparr> else c) (find_row cl_id q (ec_calls E))" for q
    by (simp add: close_call_def Let_def find_row_update)
  have ref: "response_ref_in d ?E = response_ref_in d E" for d
    by (rule response_ref_cong) (simp add: close_call_def Let_def)
  have other: "purchase_of ?E q = purchase_of E q" if "q \<noteq> cid \<or> cl_state c \<noteq> CALL_OPEN" for q
  proof (rule purchase_of_view [OF _ ref])
    show "map_option (\<lambda>c. (cl_state c, cl_committed c)) (find_row cl_id q (ec_calls ?E))
        = map_option (\<lambda>c. (cl_state c, cl_committed c)) (find_row cl_id q (ec_calls E))"
    proof (cases "q = cid")
      case False
      then show ?thesis
        by (cases "find_row cl_id q (ec_calls E)") (auto simp: found dest: find_row_SomeD)
    qed (use that Some in \<open>auto simp: found\<close>)
  qed
  show ?thesis
  proof (cases "cl_state c = CALL_OPEN")
    case True
    have "purchase_of ?E cid = GivenUp"
      using Some True find_row_SomeD [OF Some] by (simp add: purchase_of_def found)
    with other have "purchase_of ?E = (purchase_of E)(cid := GivenUp)" by (auto simp: fun_eq_iff)
    moreover have "purchase_of E cid = Unbought" using Some True by (simp add: purchase_of_def)
    ultimately show ?thesis using purchase_step.give_up by simp
  next
    case False
    with other have "purchase_of ?E = purchase_of E" by (auto simp: fun_eq_iff)
    then show ?thesis ..
  qed
qed

text \<open>
  However calls, attempts, reservations and failures interleave, a caller sees only the
  abstract purchase: every operation leaves what each call promises as it was, or buys one call with
  its frozen response, or gives one up; and a response once bought is the answer for ever.
\<close>

theorem purchase_refinement:
  assumes "digest_ok sha" and "(ext_step sha fr)\<^sup>*\<^sup>* (empty_calls S) E" and "ext_step sha fr E E'"
  shows "(purchase_of E' = purchase_of E \<or> purchase_step (purchase_of E) (purchase_of E'))
    \<and> (\<forall>cid ref. purchase_of E cid = Bought ref \<longrightarrow> purchase_of E' cid = Bought ref)"
proof -
  have core: "ext_core sha fr (ec_calls E) (ec_attempts E)"
    using ext_history_ok [OF assms(1,2)] by (simp add: ext_ok_def)
  have sim: "purchase_of E' = purchase_of E \<or> purchase_step (purchase_of E) (purchase_of E')"
    using assms(3)
  proof (cases rule: ext_step.cases)
    case opened
    then have "purchase_of E' = purchase_of E"
      by (auto simp: open_call_def insert_purchase split: sum.splits)
    then show ?thesis ..
  next
    case (begun cid clk res)
    then show ?thesis
    proof (cases res)
      case (Inr h)
      with begun have "begin_attempt_in sha fr cid clk E = Inr (h, E')"
        by (simp add: begin_attempt_def transaction_Inr)
      from begin_purchase [OF core this] show ?thesis ..
    qed (use begun in \<open>auto simp: begin_attempt_def dest: transaction_fst\<close>)
  next
    case abandoned
    then show ?thesis using close_purchase by simp
  next
    case reserved
    from reserve_purchase [OF core reserved(2,1)] show ?thesis .
  next
    case sent
    from store_purchase [OF core sent(2) sent(1) [unfolded mark_sent_def]] show ?thesis .
  next
    case answered
    from store_purchase [OF core answered(2) answered(1) [unfolded store_response_def]] show ?thesis .
  next
    case validated
    from advance_attempt_purchase [OF core validated(2) validated(1) [unfolded validate_call_def]] show ?thesis .
  next
    case committed
    from settle_purchase [OF core committed(2) committed(1) [unfolded commit_call_def]] show ?thesis .
  next
    case released
    from settle_purchase [OF core released(2) released(1) [unfolded fail_before_send_def]] show ?thesis .
  next
    case lost
    from settle_purchase [OF core lost(2) lost(1) [unfolded fail_unknown_def]] show ?thesis .
  next
    case refused
    from settle_purchase [OF core refused(2) refused(1) [unfolded fail_after_response_def]] show ?thesis .
  next
    case (capped r cap clk B)
    have "purchase_of E' = purchase_of E" by (rule purchase_of_cong) (simp_all add: capped)
    then show ?thesis ..
  next
    case (authorized r cap auth reason clk changed B L)
    have "purchase_of E' = purchase_of E" by (rule purchase_of_cong) (simp_all add: authorized)
    then show ?thesis ..
  qed
  then show ?thesis using bought_stays by (metis (no_types))
qed

subsection \<open>A history to evaluate the properties on\<close>

definition h_sha :: "string \<Rightarrow> string" where
  "h_sha s = CHR ''h'' # s"

lemma h_sha_ok: "digest_ok h_sha"
  by (simp add: digest_ok_def h_sha_def inj_def)

lemma call_id_exists: "\<exists>cid. fst (open_call sha fr p q k w clk E) = Inr cid
   \<and> snd (open_call sha fr p q k w clk E) = E\<lparr>ec_calls := insert_ignore cl_id
       \<lparr>cl_id = cid, cl_provider = p, cl_op_class = q, cl_call_key = k, cl_work_key = w,
        cl_state = CALL_OPEN, cl_attempt_count = 0, cl_committed = None,
        cl_created_at = clk 0, cl_updated_at = clk 1\<rparr> (ec_calls E)\<rparr>"
proof -
  obtain cid where "derive_id sha fr ''external_call'' [(''provider'', PStr p), (''op_class'', PStr q),
      (''work_key'', PStr (case truthy w of None \<Rightarrow> ''-'' | Some k \<Rightarrow> k)), (''call_key'', PStr k)] = Inr cid"
    using derive_id_total [of "[(''provider'', PStr p), (''op_class'', PStr q),
      (''work_key'', PStr (case truthy w of None \<Rightarrow> ''-'' | Some k \<Rightarrow> k)), (''call_key'', PStr k)]" "''external_call''" sha fr]
    by (auto simp: id_fields_def)
  then show ?thesis by (simp add: open_call_def)
qed

lemma call_attempt_id_total: "\<exists>aid. call_attempt_id sha fr cid n = Inr aid"
  unfolding call_attempt_id_def by (rule derive_id_total) (simp_all add: id_fields_def)

text \<open>One call opened, one attempt begun.\<close>

lemma one_attempt_history:
  "\<exists>E c row. (ext_step h_sha fr)\<^sup>*\<^sup>* (empty_calls ()) E \<and> ec_calls E = [c] \<and> ec_attempts E = [row]
    \<and> ea_call row = cl_id c \<and> ea_state row = INTENT"
proof -
  obtain cid where opened: "fst (open_call h_sha fr ''exa'' ''search'' ''q'' None (\<lambda>_. 0) (empty_calls ())) = Inr cid"
    "snd (open_call h_sha fr ''exa'' ''search'' ''q'' None (\<lambda>_. 0) (empty_calls ())) =
       (empty_calls ())\<lparr>ec_calls := insert_ignore cl_id
       \<lparr>cl_id = cid, cl_provider = ''exa'', cl_op_class = ''search'', cl_call_key = ''q'', cl_work_key = None,
        cl_state = CALL_OPEN, cl_attempt_count = 0, cl_committed = None,
        cl_created_at = 0, cl_updated_at = 0\<rparr> (ec_calls (empty_calls ()))\<rparr>"
    using call_id_exists [of h_sha fr "''exa''" "''search''" "''q''" None "\<lambda>_. 0" "empty_calls ()"] by blast
  let ?E1 = "snd (open_call h_sha fr ''exa'' ''search'' ''q'' None (\<lambda>_. 0) (empty_calls ()))"
  let ?E2 = "snd (begin_attempt h_sha fr cid (\<lambda>_. 0) ?E1)"
  have step1: "ext_step h_sha fr (empty_calls ()) ?E1" by (rule ext_step.opened) (rule prod.collapse [symmetric])
  have step2: "ext_step h_sha fr ?E1 ?E2" by (rule ext_step.begun) (rule prod.collapse [symmetric])
  obtain aid where aid: "call_attempt_id h_sha fr cid 0 = Inr aid" using call_attempt_id_total by blast
  have "\<exists>c row. ec_calls ?E2 = [c] \<and> ec_attempts ?E2 = [row] \<and> ea_call row = cl_id c \<and> ea_state row = INTENT"
    using aid unfolding opened(2)
    by (simp add: empty_calls_def insert_ignore_def has_key_def begin_attempt_def transaction_def
        begin_attempt_in_def call_terminal_def Let_def insert_call_attempt_def log_call_def)
  with step1 step2 show ?thesis by (meson rtranclp.rtrancl_into_rtrancl rtranclp.rtrancl_refl)
qed

theorem purchase_once_witness:
  "\<exists>E c. c \<in> set (ec_calls E) \<and> cl_state c \<noteq> CALL_COMMITTED
    \<and> (\<exists>e. begin_attempt h_sha (\<lambda>_. []) (cl_id c) (\<lambda>_. 0) (E :: unit ext_calls) = (Inl e, E))"
proof -
  obtain E c row where E: "(ext_step h_sha (\<lambda>_. []))\<^sup>*\<^sup>* (empty_calls ()) E" "ec_calls E = [c]"
    "ec_attempts E = [row]" "ea_call row = cl_id c" "ea_state row = INTENT"
    using one_attempt_history by blast
  then have "c \<in> set (ec_calls E)" by simp
  from purchase_once [OF h_sha_ok E(1) this, of "\<lambda>_. 0"] this E show ?thesis
    by (intro exI [of _ E] exI [of _ c]) (simp add: live_attempt_def attempt_terminal_def)
qed

theorem restart_closes_all_witness:
  "\<exists>E E'. live_attempts (E :: unit ext_calls) \<noteq> []
    \<and> reconcile_on_start h_sha (\<lambda>_. []) (\<lambda>s. s) (\<lambda>_ _ _. 0) E = Inr ((0, 1), E') \<and> live_attempts E' = []"
proof -
  obtain E c row where E: "(ext_step h_sha (\<lambda>_. []))\<^sup>*\<^sup>* (empty_calls ()) E"
    "ec_attempts E = [row]" "ea_state row = INTENT"
    using one_attempt_history by blast
  then have live: "live_attempts E = [handle_of row]" "\<not> attempt_was_sent (ea_id row) E"
    by (simp_all add: live_attempts_def live_attempt_def attempt_terminal_def attempt_was_sent_def
        attempt_state_of_def sent_states_def)
  from restart_closes_all [OF h_sha_ok E(1), of "\<lambda>s. s" "\<lambda>_ _ _. 0"]
  obtain u r E' where run: "reconcile_on_start h_sha (\<lambda>_. []) (\<lambda>s. s) (\<lambda>_ _ _. 0) E = Inr ((u, r), E')"
    and "live_attempts E' = []"
    and "u = length (filter (\<lambda>h. attempt_was_sent (ah_attempt h) E) (live_attempts E))"
    and "u + r = length (live_attempts E)" by blast
  moreover from this live have "u = 0" "r = 1" by (simp_all add: handle_of_def)
  ultimately show ?thesis using live(1) by (intro exI [of _ E] exI [of _ E']) simp
qed

theorem purchase_refinement_witness:
  "\<exists>E cid. fst (open_call h_sha (\<lambda>_. []) ''exa'' ''search'' ''q'' None (\<lambda>_. 0) (empty_calls ())) = Inr cid
    \<and> E = snd (open_call h_sha (\<lambda>_. []) ''exa'' ''search'' ''q'' None (\<lambda>_. 0) (empty_calls ()))
    \<and> (purchase_of E = purchase_of (empty_calls ()) \<or> purchase_step (purchase_of (empty_calls ())) (purchase_of E))"
proof -
  let ?E = "snd (open_call h_sha (\<lambda>_. []) ''exa'' ''search'' ''q'' None (\<lambda>_. 0) (empty_calls ()))"
  have "ext_step h_sha (\<lambda>_. []) (empty_calls ()) ?E" by (rule ext_step.opened) (rule prod.collapse [symmetric])
  from purchase_refinement [OF h_sha_ok rtranclp.rtrancl_refl this]
    call_id_exists [of h_sha "\<lambda>_. []" "''exa''" "''search''" "''q''" None "\<lambda>_. 0" "empty_calls ()"]
  show ?thesis by blast
qed

subsection \<open>Abandonment is not final\<close>

lemma commit_succeeds:
  assumes "inj sha" and ok: "ext_ok sha fr E" and row: "row \<in> set (ec_attempts E)" "ea_state row = A_VALIDATED"
    and fits: "fits_group (handle_of row) (Some g) (ec_budget E)"
  shows "\<exists>E'. commit_call sha fr rp (handle_of row) g actuals clk E = (Inr (), E')
    \<and> get_call_state (ea_call row) E' = Some CALL_COMMITTED"
proof -
  have core: "ext_core sha fr (ec_calls E) (ec_attempts E)" using ok by (simp add: ext_ok_def)
  then have keyed: "keyed ea_id (ec_attempts E)" by (simp add: ext_core_def)
  obtain over B where B: "settle_group sha fr Settle (Some g) actuals (clk 1) (ec_budget E) = Inr (over, B)"
    using settle_group_ok [OF assms(1) _ fits, of fr Settle actuals "clk 1"] ok
    by (auto simp: ext_ok_def money_ok_def)
  let ?cols = "[(''settled_at'', PFloat (Finite (clk 0 0)))]" and ?E = "E\<lparr>ec_budget := B\<rparr>"
  have found: "find_row ea_id (ea_id row) (ec_attempts E) = Some row" by (rule find_row_keyed [OF keyed row(1)])
  have "standing row" using row(2) by (simp add: standing_def)
  have unique: "a = row" if "a \<in> set (ec_attempts E)" "ea_call a = ea_call row" "ea_state a = A_COMMITTED" for a
  proof -
    have "standing a" using that(3) by (simp add: standing_def)
    with core that(1,2) row(1) \<open>standing row\<close> show ?thesis unfolding ext_core_def by blast
  qed
  have hit: "filter (\<lambda>a. ea_id a = ea_id row \<and> ea_state a = A_VALIDATED) (ec_attempts E) = [row]"
    using filter_keyed [OF keyed row(1), of "\<lambda>a. ea_state a = A_VALIDATED"] row(2) by simp
  have "\<not> list_ex (\<lambda>a. (ea_id a = ea_id row \<and> ea_state a = A_VALIDATED)
        \<and> list_ex (\<lambda>b. ea_id b \<noteq> ea_id row \<and> ea_call b = ea_call a \<and> ea_state b = A_COMMITTED) (ec_attempts E))
      (ec_attempts E)"
    using unique core_unique [OF core _ row(1)] by (auto simp: list_ex_iff)
  then obtain E1 where swap: "swap_state (ea_id row) A_VALIDATED A_COMMITTED ?cols ?E = Inr E1"
    and calls: "ec_calls E1 = ec_calls E"
    using hit by (auto simp: swap_state_def Let_def)
  then obtain E2 where adv: "advance_in (handle_of row) A_COMMITTED ?cols (clk 2) ?E = Inr ((), E2)"
    and E2: "ec_calls E2 = update_rows (\<lambda>c. cl_id c = ea_call row) (\<lambda>c. c\<lparr>cl_state := CALL_COMMITTED,
          cl_updated_at := clk 2 1, cl_committed := Some (ea_id row)\<rparr>) (ec_calls E)"
    using found row(2) by (simp add: advance_in_def handle_of_def Let_def attempt_columns_def)
  obtain c where "find_row cl_id (ea_call row) (ec_calls E) = Some c"
    using core row(1) unfolding ext_core_def by (metis find_row_None not_None_eq)
  then have "get_call_state (ea_call row) E2 = Some CALL_COMMITTED"
    by (simp add: get_call_state_def E2 find_row_update_one)
  moreover have "\<exists>L. commit_call sha fr rp (handle_of row) g actuals clk E = (Inr (), E2\<lparr>ec_ledger := L\<rparr>)"
    using B adv by (simp add: commit_call_def settle_and_advance_def transaction_def settle_body_def) blast
  ultimately show ?thesis by (auto simp: get_call_state_def)
qed

text \<open>
  Abandoning a call does not stop it: when a call is given up while an attempt of it is validated,
  the attempt still commits, and the call moves from the state that is documented as terminal to
  COMMITTED.
\<close>

theorem abandoned_call_commits:
  assumes "inj sha" and "ext_ok sha fr E" and "row \<in> set (ec_attempts E)" and "ea_state row = A_VALIDATED"
    and "get_call_state (ea_call row) E = Some CALL_OPEN"
    and "fits_group (handle_of row) (Some g) (ec_budget E)"
  shows "get_call_state (ea_call row) (close_call (ea_call row) reason clk' E) = Some CALL_ABANDONED
    \<and> (\<exists>E'. commit_call sha fr rp (handle_of row) g actuals clk (close_call (ea_call row) reason clk' E) = (Inr (), E')
          \<and> get_call_state (ea_call row) E' = Some CALL_COMMITTED)"
proof
  let ?E = "close_call (ea_call row) reason clk' E"
  have same: "ec_attempts ?E = ec_attempts E" "ec_budget ?E = ec_budget E"
    by (simp_all add: close_call_def Let_def)
  obtain c where c: "find_row cl_id (ea_call row) (ec_calls E) = Some c" "cl_state c = CALL_OPEN"
    using assms(5) by (auto simp: get_call_state_def)
  have "find_row cl_id (ea_call row) (ec_calls ?E) = Some (c\<lparr>cl_state := CALL_ABANDONED, cl_updated_at := clk' 0\<rparr>)"
    using c find_row_SomeD [OF c(1)] by (simp add: close_call_def Let_def find_row_update)
  then show "get_call_state (ea_call row) ?E = Some CALL_ABANDONED" by (simp add: get_call_state_def)
  have "ext_ok sha fr ?E" using close_core [of sha fr E "ea_call row" reason clk'] assms(2) same
    by (simp add: ext_ok_def)
  from commit_succeeds [OF assms(1) this] assms(3,4,6) same
  show "\<exists>E'. commit_call sha fr rp (handle_of row) g actuals clk ?E = (Inr (), E')
      \<and> get_call_state (ea_call row) E' = Some CALL_COMMITTED" by simp
qed

theorem abandoned_call_commits_witness:
  "\<exists>E row. get_call_state (ea_call row) (close_call (ea_call row) ''round frozen'' (\<lambda>_. 0) (E :: unit ext_calls))
      = Some CALL_ABANDONED
    \<and> (\<exists>E'. commit_call h_sha (\<lambda>_. []) (\<lambda>s. s) (handle_of row) \<lparr>rg_id = ea_id row, rg_amounts = []\<rparr> [] (\<lambda>_ _. 0)
          (close_call (ea_call row) ''round frozen'' (\<lambda>_. 0) E) = (Inr (), E')
        \<and> get_call_state (ea_call row) E' = Some CALL_COMMITTED)"
proof -
  obtain aid where aid: "call_attempt_id h_sha (\<lambda>_. []) ''c'' 0 = Inr aid" using call_attempt_id_total by blast
  let ?row = "\<lparr>ea_id = aid, ea_call = ''c'', ea_ordinal = 0, ea_state = A_VALIDATED, ea_cols = []\<rparr>"
  let ?E = "(empty_calls ())\<lparr>ec_calls := [\<lparr>cl_id = ''c'', cl_provider = ''exa'', cl_op_class = ''search'',
      cl_call_key = ''q'', cl_work_key = None, cl_state = CALL_OPEN, cl_attempt_count = 1,
      cl_committed = None, cl_created_at = 0, cl_updated_at = 0\<rparr>], ec_attempts := [?row]\<rparr>"
  have inj: "inj h_sha" using h_sha_ok by (simp add: digest_ok_def)
  have ok: "ext_ok h_sha (\<lambda>_. []) ?E"
    using aid by (simp add: empty_calls_def ext_ok_def ext_core_def money_ok_def keyed_def attributed_def
        holds_for_def empty_budget_def budget_ok_def call_ok_def)
  have "?row \<in> set (ec_attempts ?E)" "ea_state ?row = A_VALIDATED"
    "get_call_state (ea_call ?row) ?E = Some CALL_OPEN"
    "fits_group (handle_of ?row) (Some \<lparr>rg_id = ea_id ?row, rg_amounts = []\<rparr>) (ec_budget ?E)"
    by (simp_all add: get_call_state_def fits_group_def handle_of_def)
  from abandoned_call_commits [OF inj ok this, of "''round frozen''" "\<lambda>_. 0" "\<lambda>s. s" "[]" "\<lambda>_ _. 0"]
  show ?thesis by blast
qed

end
