(* ===== verification/Coordinator.thy ===== *)
theory Coordinator
  imports LedgerProps ObjectStore
begin

text \<open>
  \<^verbatim>\<open>src/src/shapeflow/experiment/coordinator.py\<close>: the loop that claims pending work, runs an
  injected executor, stores the result and writes the terminal record last. The executor, the
  validator, the remaining budget and the store are parameters, as they are of the class; \<open>k\<close> counts
  the items a run has taken up, so that a callback may answer differently each time. \<open>clk k j i\<close> is the
  \<open>i\<close>-th reading of the clock by the \<open>j\<close>-th ledger operation of round \<open>k\<close>.
\<close>

text \<open>A callback returns, or raises one of the two exceptions the loop routes, or anything else.\<close>

datatype 'a outcome =
    Returned 'a
  | RaisedRetryable string string
  | RaisedFatal string string
  | RaisedOther

record run_summary =
  sm_committed :: nat
  sm_retried :: nat
  sm_failed_final :: nat
  sm_blocked :: nat
  sm_fatal :: bool

definition new_summary :: run_summary where
  "new_summary = \<lparr>sm_committed = 0, sm_retried = 0, sm_failed_final = 0, sm_blocked = 0, sm_fatal = False\<rparr>"

record 's coord_state =
  cs_ledger :: ledger
  cs_store :: 's

record ('s, 'e) coordinator =
  co_executor :: "nat \<Rightarrow> work_item \<Rightarrow> string outcome"
  co_validator :: "(nat \<Rightarrow> work_item \<Rightarrow> string \<Rightarrow> unit outcome) option"
  co_put :: "nat \<Rightarrow> string \<Rightarrow> 's \<Rightarrow> ('e + object_ref) \<times> 's"
  co_worker :: string
  co_lease :: real
  co_sha :: "string \<Rightarrow> string"
  co_fr :: "real \<Rightarrow> string"
  co_clock :: "nat \<Rightarrow> nat \<Rightarrow> nat \<Rightarrow> real"

definition resume_run ::
  "('s, 'e) coordinator \<Rightarrow> (nat \<Rightarrow> real) \<Rightarrow> 's coord_state \<Rightarrow> ledger_error + string list \<times> 's coord_state" where
  "resume_run C clk S =
     (case reclaim_stale None clk (cs_ledger S) of
        Inl e \<Rightarrow> Inl e | Inr (ks, L) \<Rightarrow> Inr (ks, S\<lparr>cs_ledger := L\<rparr>))"

subsection \<open>One item\<close>

definition run_validator ::
  "('s, 'e) coordinator \<Rightarrow> nat \<Rightarrow> work_item \<Rightarrow> string \<Rightarrow> unit outcome" where
  "run_validator C k item raw =
     (case co_validator C of None \<Rightarrow> Returned () | Some v \<Rightarrow> v k item raw)"

text \<open>The two ledger operations after validation; a \<open>LedgerError\<close> is none of the routed exceptions.\<close>

definition commit_result ::
  "('s, 'e) coordinator \<Rightarrow> nat \<Rightarrow> string \<Rightarrow> string \<Rightarrow> 's coord_state \<Rightarrow> unit outcome \<times> 's coord_state" where
  "commit_result C k aid ref S =
     (case advance aid VALIDATED [] (co_clock C k 3) (cs_ledger S) of
        Inl e \<Rightarrow> (RaisedOther, S)
      | Inr L1 \<Rightarrow>
          (case commit aid ref [] (co_clock C k 4) L1 of
             Inl e \<Rightarrow> (RaisedOther, S\<lparr>cs_ledger := L1\<rparr>)
           | Inr L2 \<Rightarrow> (Returned (), S\<lparr>cs_ledger := L2\<rparr>)))"

text \<open>The body of the \<open>try\<close>: every way out leaves what was done before it.\<close>

definition try_body ::
  "('s, 'e) coordinator \<Rightarrow> nat \<Rightarrow> string \<Rightarrow> work_item \<Rightarrow> string \<Rightarrow> 's coord_state
     \<Rightarrow> unit outcome \<times> 's coord_state" where
  "try_body C k key item aid S =
     (case co_executor C k item of
        RaisedRetryable n m \<Rightarrow> (RaisedRetryable n m, S)
      | RaisedFatal n m \<Rightarrow> (RaisedFatal n m, S)
      | RaisedOther \<Rightarrow> (RaisedOther, S)
      | Returned raw \<Rightarrow>
          (case co_put C k raw (cs_store S) of
             (Inl e, st) \<Rightarrow> (RaisedOther, S\<lparr>cs_store := st\<rparr>)
           | (Inr ref, st) \<Rightarrow>
               let S1 = S\<lparr>cs_store := st, cs_ledger := register_artifact (or_key ref) ''work_output''
                          (or_raw_size ref) (or_stored_size ref) (Some key) (co_clock C k 1) (cs_ledger S)\<rparr>
               in (case advance aid MATERIALIZED [] (co_clock C k 2) (cs_ledger S1) of
                     Inl e \<Rightarrow> (RaisedOther, S1)
                   | Inr L2 \<Rightarrow>
                       let S2 = S1\<lparr>cs_ledger := L2\<rparr>
                       in (case run_validator C k item raw of
                             Returned u \<Rightarrow> commit_result C k aid (or_key ref) S2
                           | RaisedRetryable n m \<Rightarrow> (RaisedRetryable n m, S2)
                           | RaisedFatal n m \<Rightarrow> (RaisedFatal n m, S2)
                           | RaisedOther \<Rightarrow> (RaisedOther, S2)))))"

text \<open>\<open>False\<close> as the first component is an exception that leaves \<open>_process\<close>.\<close>

definition process_item ::
  "('s, 'e) coordinator \<Rightarrow> nat \<Rightarrow> string \<Rightarrow> run_summary \<Rightarrow> 's coord_state
     \<Rightarrow> bool \<times> run_summary \<times> 's coord_state" where
  "process_item C k key sm S =
     (case get_work_item key (cs_ledger S) of
        None \<Rightarrow> (True, sm, S)
      | Some item \<Rightarrow>
          if wi_state item \<noteq> PENDING then (True, sm, S)
          else
            (case claim (co_sha C) (co_fr C) key (co_worker C) (co_lease C) [] (co_clock C k 0) (cs_ledger S) of
               Inl e \<Rightarrow> (False, sm, S)
             | Inr (None, L) \<Rightarrow> (True, sm, S\<lparr>cs_ledger := L\<rparr>)
             | Inr (Some att, L) \<Rightarrow>
                 (case try_body C k key item (at_id att) (S\<lparr>cs_ledger := L\<rparr>) of
                    (Returned u, S1) \<Rightarrow> (True, sm\<lparr>sm_committed := sm_committed sm + 1\<rparr>, S1)
                  | (RaisedOther, S1) \<Rightarrow> (False, sm, S1)
                  | (RaisedRetryable name msg, S1) \<Rightarrow>
                      (case fail (at_id att) FAILED_RETRYABLE name msg [] (co_clock C k 5) (cs_ledger S1) of
                         Inl e \<Rightarrow> (False, sm, S1)
                       | Inr (st, L2) \<Rightarrow>
                           (True, sm\<lparr>sm_retried := sm_retried sm + 1,
                              sm_failed_final := sm_failed_final sm + (if st \<noteq> PENDING then 1 else 0)\<rparr>,
                            S1\<lparr>cs_ledger := L2\<rparr>))
                  | (RaisedFatal name msg, S1) \<Rightarrow>
                      (case fail (at_id att) FAILED_FINAL name msg [] (co_clock C k 5) (cs_ledger S1) of
                         Inl e \<Rightarrow> (False, sm, S1)
                       | Inr (st, L2) \<Rightarrow>
                           (True, sm\<lparr>sm_failed_final := sm_failed_final sm + 1, sm_fatal := True\<rparr>,
                            S1\<lparr>cs_ledger := record_incident ''fatal'' ''protocol_error'' msg (Some key)
                               (co_clock C k 6) L2\<rparr>)))))"

subsection \<open>The run\<close>

definition sm_total :: "run_summary \<Rightarrow> nat" where
  "sm_total sm = sm_committed sm + sm_retried sm + sm_failed_final sm"

text \<open>
  The \<open>while True\<close> loop with fuel; \<open>None\<close> is a loop that has not ended. \<open>budget k\<close> is the \<open>k\<close>-th answer
  of \<open>budget_remaining\<close>.
\<close>

fun run_loop ::
  "nat \<Rightarrow> ('s, 'e) coordinator \<Rightarrow> int option \<Rightarrow> (nat \<Rightarrow> real) option \<Rightarrow> nat \<Rightarrow> run_summary \<Rightarrow> 's coord_state
     \<Rightarrow> (bool \<times> run_summary \<times> 's coord_state) option" where
  "run_loop 0 C max_items budget k sm S = None"
| "run_loop (Suc n) C max_items budget k sm S =
     (if (case budget of None \<Rightarrow> False | Some b \<Rightarrow> b k \<le> 0) then Some (True, sm, S)
      else if (case max_items of None \<Rightarrow> False | Some m \<Rightarrow> m \<le> int k) then Some (True, sm, S)
      else (case pending_keys 1 (cs_ledger S) of
          [] \<Rightarrow> Some (True, sm, S)
        | key # keys \<Rightarrow>
            (case process_item C k key sm S of
               (False, sm', S') \<Rightarrow> Some (False, sm', S')
             | (True, sm', S') \<Rightarrow>
                 if sm_total sm' = sm_total sm then Some (True, sm', S')
                 else if sm_fatal sm' then Some (True, sm', S')
                 else run_loop n C max_items budget (k + 1) sm' S')))"

definition run_coordinator ::
  "nat \<Rightarrow> ('s, 'e) coordinator \<Rightarrow> int option \<Rightarrow> (nat \<Rightarrow> real) option \<Rightarrow> (nat \<Rightarrow> real) \<Rightarrow> 's coord_state
     \<Rightarrow> (bool \<times> run_summary \<times> 's coord_state) option" where
  "run_coordinator fuel C max_items budget clk S =
     (case resume_run C clk S of
        Inl e \<Rightarrow> Some (False, new_summary, S)
      | Inr (ks, S1) \<Rightarrow> run_loop fuel C max_items budget 0 new_summary S1)"

definition committed_artifact_valid ::
  "(string \<Rightarrow> 's \<Rightarrow> 'e + bool) \<Rightarrow> string \<Rightarrow> 's coord_state \<Rightarrow> 'e + bool" where
  "committed_artifact_valid verify key S =
     (case committed_ref key (cs_ledger S) of None \<Rightarrow> Inr False | Some ref \<Rightarrow> verify ref (cs_store S))"

end
