(* ===== verification/CoordinatorProps.thy ===== *)
theory CoordinatorProps
  imports Coordinator
begin

text \<open>
  The coordinator: its loop ends, with enough fuel, with nothing left to claim; and an item is only
  ever COMMITTED with a blob that verifies, whatever the callbacks and the file system do.
\<close>

subsection \<open>Operations that must succeed\<close>

text \<open>A worker holds item \<open>r\<close> through attempt \<open>aid\<close>, both in state \<open>s\<close>.\<close>

definition on_hand ::
  "(string \<Rightarrow> string) \<Rightarrow> (real \<Rightarrow> string) \<Rightarrow> ledger \<Rightarrow> work_item \<Rightarrow> string \<Rightarrow> lstate \<Rightarrow> bool" where
  "on_hand sha fr L r aid s \<longleftrightarrow> ledger_inv sha fr L \<and> r \<in> set (items L) \<and> wi_state r = s
     \<and> (\<exists>a \<in> set (attempts L). at_id a = aid \<and> at_work_key a = wi_key r \<and> at_state a = s)"

definition replaced :: "work_item \<Rightarrow> ledger \<Rightarrow> ledger \<Rightarrow> bool" where
  "replaced r' L L' \<longleftrightarrow> items L' = update_rows (\<lambda>x. wi_key x = wi_key r') (\<lambda>_. r') (items L)"

lemma update_rows_const:
  assumes "keyed key t" and "r \<in> set t"
  shows "update_rows (\<lambda>x. key x = key r) f t = update_rows (\<lambda>x. key x = key r) (\<lambda>_. f r) t"
proof -
  have "x = r" if "x \<in> set t" "key x = key r" for x
    using that assms by (auto simp: keyed_def distinct_map dest: inj_onD)
  then show ?thesis by (auto simp: update_rows_def)
qed

lemma replaced_item:
  assumes "keyed wi_key (items L)" and "r \<in> set (items L)" and "wi_key (g r) = wi_key r"
    and "items L' = update_rows (\<lambda>x. wi_key x = wi_key r) g (items L)"
  shows "replaced (g r) L L' \<and> g r \<in> set (items L')"
proof -
  have "replaced (g r) L L'"
    using assms update_rows_const [OF assms(1,2), of g] by (simp add: replaced_def)
  moreover have "g r \<in> set (items L')" using assms(2,4) by (force simp: set_update_rows)
  ultimately show ?thesis by blast
qed

lemma replaced_trans:
  assumes "replaced r' L L'" and "replaced r'' L' L''" and "wi_key r'' = wi_key r'"
  shows "replaced r'' L L''"
  using assms by (simp add: replaced_def update_rows_def comp_def)

lemma set_state_succeeds:
  assumes "keyed wi_key (items L)" and "r \<in> set (items L)" and "wi_state r = from" and "to \<in> set (legal from)"
  shows "\<exists>L'. set_state (wi_key r) from to reason t1 t2 L = Inr L'"
  using filter_keyed [OF assms(1,2), of "\<lambda>r. wi_state r = from"] assms(3,4) by (simp add: set_state_def)

lemma require_attempt_keyed:
  assumes "ledger_inv sha fr L" and "a \<in> set (attempts L)"
  shows "require_attempt (at_id a) L = Inr a"
  using assms by (simp add: require_attempt_def ledger_inv_def find_row_keyed)

lemma update_attempt_mem:
  assumes "a \<in> set (attempts L)"
  shows "f a \<in> set (attempts (update_attempt (at_id a) f L))"
  using assms by (force simp: update_attempt_def set_update_rows)

lemma advance_step:
  assumes hand: "on_hand sha fr L r aid s" and to: "to \<in> {MATERIALIZED, VALIDATED}" "to \<in> set (legal s)"
  shows "\<exists>L' r'. advance aid to reason clk L = Inr L' \<and> on_hand sha fr L' r' aid to
    \<and> r' = r\<lparr>wi_state := to, wi_updated_at := clk 0\<rparr> \<and> replaced r' L L'"
proof -
  have inv: "ledger_inv sha fr L" and r: "r \<in> set (items L)" "wi_state r = s" using hand by (auto simp: on_hand_def)
  obtain a where a: "a \<in> set (attempts L)" "at_id a = aid" "at_work_key a = wi_key r" "at_state a = s"
    using hand by (auto simp: on_hand_def)
  obtain L1 where set: "set_state (wi_key r) s to reason (clk 0) (clk 1) L = Inr L1"
    using set_state_succeeds [OF inv_keyed [OF inv] r to(2)] by blast
  let ?L = "update_attempt aid (\<lambda>a. a\<lparr>at_state := to\<rparr>) L1"
  have run: "advance aid to reason clk L = Inr ?L"
    using to(1) require_attempt_keyed [OF inv a(1)] a set by (simp add: advance_def)
  from set_state_eq [OF inv_keyed [OF inv] set]
  have L1: "L1 = log_transition (wi_key r) None s to reason (clk 1)
       (update_item (wi_key r) (\<lambda>r. r\<lparr>wi_state := to, wi_updated_at := clk 0\<rparr>) L)" by metis
  have items: "items ?L = update_rows (\<lambda>x. wi_key x = wi_key r)
      (\<lambda>r. r\<lparr>wi_state := to, wi_updated_at := clk 0\<rparr>) (items L)"
    by (simp add: L1 update_item_def log_transition_def update_attempt_def)
  note repl = replaced_item [OF inv_keyed [OF inv] r(1) _ items, simplified]
  have "attempts L1 = attempts L" by (simp add: L1)
  then have "a\<lparr>at_state := to\<rparr> \<in> set (attempts ?L)"
    using update_attempt_mem [of a L1 "\<lambda>a. a\<lparr>at_state := to\<rparr>"] a(1,2) by simp
  then have "\<exists>b \<in> set (attempts ?L). at_id b = aid \<and> at_work_key b = wi_key r \<and> at_state b = to"
    using a by (intro bexI [of _ "a\<lparr>at_state := to\<rparr>"]) simp_all
  with run repl advance_inv [OF inv run] show ?thesis by (auto simp: on_hand_def)
qed

lemma commit_step:
  assumes hand: "on_hand sha fr L r aid VALIDATED"
  shows "\<exists>L' r'. commit aid ref reason clk L = Inr L' \<and> ledger_inv sha fr L'
    \<and> r' = r\<lparr>wi_state := COMMITTED, wi_updated_at := clk 0\<rparr> \<and> replaced r' L L'"
proof -
  let ?reason = "if reason = [] then ''commit'' else reason"
  have inv: "ledger_inv sha fr L" and r: "r \<in> set (items L)" "wi_state r = VALIDATED"
    using hand by (auto simp: on_hand_def)
  obtain a where a: "a \<in> set (attempts L)" "at_id a = aid" "at_work_key a = wi_key r" "at_state a = VALIDATED"
    using hand by (auto simp: on_hand_def)
  obtain L1 where set: "set_state (wi_key r) VALIDATED COMMITTED ?reason (clk 0) (clk 1) L = Inr L1"
    using set_state_succeeds [OF inv_keyed [OF inv] r] by (metis legal.simps(4) list.set_intros(1))
  from set_state_eq [OF inv_keyed [OF inv] set]
  have L1: "L1 = log_transition (wi_key r) None VALIDATED COMMITTED ?reason (clk 1)
       (update_item (wi_key r) (\<lambda>r. r\<lparr>wi_state := COMMITTED, wi_updated_at := clk 0\<rparr>) L)" by metis
  have "at_state b \<noteq> COMMITTED" if "b \<in> set (attempts L)" "at_work_key b = wi_key r" for b
  proof
    assume "at_state b = COMMITTED"
    have ok: "item_ok (attempts_of (wi_key r) L) (transitions_of (wi_key r) L) r" by (rule item_ok_at [OF inv r(1)])
    then have "map at_state (filter (\<lambda>a. active (at_state a)) (attempts_of (wi_key r) L)) = [VALIDATED]"
      by (simp add: item_ok_def r(2))
    moreover have "b \<in> set (filter (\<lambda>a. active (at_state a)) (attempts_of (wi_key r) L))"
      using that \<open>at_state b = COMMITTED\<close> by (simp add: attempts_of_def)
    ultimately have "at_state b \<in> set [VALIDATED]" by (metis imageI list.set_map)
    with \<open>at_state b = COMMITTED\<close> show False by simp
  qed
  then have none: "\<not> list_ex (\<lambda>b. at_id b \<noteq> aid \<and> at_work_key b = wi_key r \<and> at_state b = COMMITTED) (attempts L1)"
    by (simp add: L1 list_ex_iff)
  let ?L = "update_attempt aid (\<lambda>a. a\<lparr>at_state := COMMITTED, at_ended_at := Some (clk 2),
                at_terminal_status := Some COMMITTED, at_result_ref := Some ref\<rparr>) L1"
  have run: "commit aid ref reason clk L = Inr ?L"
    using require_attempt_keyed [OF inv a(1)] a set none by (simp add: commit_def)
  have items: "items ?L = update_rows (\<lambda>x. wi_key x = wi_key r)
      (\<lambda>r. r\<lparr>wi_state := COMMITTED, wi_updated_at := clk 0\<rparr>) (items L)"
    by (simp add: L1 update_item_def log_transition_def update_attempt_def)
  note repl = replaced_item [OF inv_keyed [OF inv] r(1) _ items, simplified]
  with run commit_inv [OF inv run] show ?thesis by auto
qed

text \<open>A failed attempt reopens its item with one retry less, or ends it.\<close>

lemma fail_step:
  assumes hand: "on_hand sha fr L r aid s" and s: "in_progress s"
    and d: "d \<in> set [FAILED_RETRYABLE, FAILED_FINAL, FAILED_UNKNOWN]"
  shows "\<exists>st L' r'. fail aid d e reason ref clk L = Inr (st, L') \<and> ledger_inv sha fr L' \<and> replaced r' L L'
    \<and> wi_key r' = wi_key r \<and> wi_max_retries r' = wi_max_retries r \<and> wi_state r' = st
    \<and> (if st = PENDING then wi_retry_count r' = wi_retry_count r + 1 \<and> wi_retry_count r' \<le> wi_max_retries r
       else st \<in> {FAILED_FINAL, FAILED_UNKNOWN})"
proof -
  have inv: "ledger_inv sha fr L" and r: "r \<in> set (items L)" using hand by (auto simp: on_hand_def)
  obtain a where a: "a \<in> set (attempts L)" "at_id a = aid" "at_work_key a = wi_key r" "at_state a = s"
    using hand by (auto simp: on_hand_def)
  have find: "find_row wi_key (wi_key r) (items L) = Some r" by (rule find_item_keyed [OF inv r])
  have req: "require_attempt aid L = Inr a" using require_attempt_keyed [OF inv a(1)] a(2) by simp
  have "\<exists>st L'. fail aid d e reason ref clk L = Inr (st, L')"
    using d find req a(3) by (simp add: fail_def Let_def split: if_splits)
  then obtain st L' where run: "fail aid d e reason ref clk L = Inr (st, L')" by blast
  have live: "in_progress (at_state b)" if "b \<in> set (attempts L)" "at_id b = aid" for b
  proof -
    have "require_attempt (at_id b) L = Inr b" by (rule require_attempt_keyed [OF inv that(1)])
    with that(2) req a(4) s show ?thesis by simp
  qed
  from fail_Inr [OF run] obtain a' wi reason' where a': "a' \<in> set (attempts L)" "at_id a' = aid"
    and wi: "find_row wi_key (at_work_key a') (items L) = Some wi"
    and st: "st = (if d = FAILED_RETRYABLE \<and> wi_retry_count wi + 1 \<le> wi_max_retries wi
          then PENDING else if d = FAILED_UNKNOWN then FAILED_UNKNOWN else FAILED_FINAL)"
    and L': "L' = log_transition (at_work_key a') (Some aid) (wi_state wi) st reason' (clk 2)
       (update_item (at_work_key a')
         (\<lambda>r. r\<lparr>wi_state := st, wi_retry_count := (if st = PENDING then wi_retry_count r + 1
                  else wi_retry_count r), wi_updated_at := clk 1\<rparr>)
         (update_attempt aid (end_failed d e ref (clk 0)) L))" .
  have "a' = a" using require_attempt_keyed [OF inv a'(1)] a'(2) req by simp
  with wi find a(3) have same: "at_work_key a' = wi_key r" "wi = r" by simp_all
  let ?g = "\<lambda>r. r\<lparr>wi_state := st, wi_retry_count := (if st = PENDING then wi_retry_count r + 1
                  else wi_retry_count r), wi_updated_at := clk 1\<rparr>"
  have "items L' = update_rows (\<lambda>x. wi_key x = wi_key r) ?g (items L)"
    by (simp add: L' same update_item_def log_transition_def update_attempt_def)
  from replaced_item [OF inv_keyed [OF inv] r _ this] have "replaced (?g r) L L'" by simp
  moreover have "ledger_inv sha fr L'" by (rule fail_inv [OF inv run live])
  ultimately show ?thesis using run st
    by (intro exI [of _ st] exI [of _ L'] exI [of _ "?g r"]) (auto simp: same split: if_splits)
qed

subsection \<open>One item ends better than it began\<close>

text \<open>
  The callbacks raise nothing but the routed exceptions, the store takes what it is given, and the
  digest behind the attempt ids has no collision.
\<close>

definition cooperative :: "('s, 'e) coordinator \<Rightarrow> bool" where
  "cooperative C \<longleftrightarrow> inj (co_sha C)
     \<and> (\<forall>k item. co_executor C k item \<noteq> RaisedOther)
     \<and> (\<forall>k item raw. run_validator C k item raw \<noteq> RaisedOther)
     \<and> (\<forall>k raw st. \<exists>ref st'. co_put C k raw st = (Inr ref, st'))"

text \<open>What is left of an item's retries while it waits, and of the whole ledger.\<close>

definition weight :: "work_item \<Rightarrow> nat" where
  "weight r = (if wi_state r = PENDING then nat (wi_max_retries r - wi_retry_count r) + 1 else 0)"

definition potential :: "ledger \<Rightarrow> nat" where
  "potential L = sum_list (map weight (items L))"

lemma potential_less:
  assumes "keyed wi_key (items L)" and "r \<in> set (items L)" and "replaced r' L L'" and "wi_key r' = wi_key r"
    and "weight r' < weight r"
  shows "potential L' < potential L"
proof -
  obtain us vs where L: "items L = us @ r # vs" using assms(2) by (meson split_list)
  have "\<forall>x \<in> set us \<union> set vs. wi_key x \<noteq> wi_key r"
    using assms(1) by (fastforce simp: L keyed_def image_iff)
  then have "items L' = us @ r' # vs"
    using assms(3,4) by (auto simp: replaced_def L update_rows_append intro!: update_rows_none)
  with assms(5) L show ?thesis by (simp add: potential_def)
qed

lemma on_hand_artifact:
  assumes "on_hand sha fr L r aid s"
  shows "on_hand sha fr (register_artifact ref kind raw stored key clk L) r aid s"
  using assms inv_core [OF _ bookkeeping_core(2), of sha fr L ref kind raw stored key clk]
  by (auto simp: on_hand_def register_artifact_def)

lemma replaced_artifact:
  "replaced r' (register_artifact ref kind raw stored key clk L) L' \<longleftrightarrow> replaced r' L L'"
  by (simp add: replaced_def register_artifact_def)

lemma claim_step:
  assumes "inj sha" and inv: "ledger_inv sha fr L" and r: "r \<in> set (items L)" "wi_state r = PENDING"
  shows "\<exists>a L' r'. claim sha fr (wi_key r) w lease run clk L = Inr (Some a, L')
    \<and> on_hand sha fr L' r' (at_id a) CLAIMED \<and> r' = r\<lparr>wi_state := CLAIMED, wi_updated_at := clk 1\<rparr>
    \<and> replaced r' L L'"
proof -
  obtain a L' where run: "claim sha fr (wi_key r) w lease run clk L = Inr (Some a, L')"
    using claim_pending [OF assms] by blast
  note repl = replaced_item [OF inv_keyed [OF inv] r(1) _ claim_items(1) [OF inv run], simplified]
  have "a \<in> set (attempts L')" "at_work_key a = wi_key r" "at_state a = CLAIMED"
    using claim_attempts [OF inv run] claim_items(2) [OF inv run] by (auto simp: new_attempt_def)
  with run repl claim_inv [OF inv run] show ?thesis by (auto simp: on_hand_def)
qed

definition same_limits :: "work_item \<Rightarrow> work_item \<Rightarrow> bool" where
  "same_limits r r' \<longleftrightarrow> wi_key r' = wi_key r \<and> wi_max_retries r' = wi_max_retries r
     \<and> wi_retry_count r' = wi_retry_count r"

text \<open>How a \<open>try\<close> body may leave its item: committed, or still on hand with a routed exception.\<close>

definition tried ::
  "(string \<Rightarrow> string) \<Rightarrow> (real \<Rightarrow> string) \<Rightarrow> string \<Rightarrow> work_item \<Rightarrow> unit outcome \<Rightarrow> ledger \<Rightarrow> ledger \<Rightarrow> bool" where
  "tried sha fr aid r res L L' \<longleftrightarrow> res \<noteq> RaisedOther \<and> (\<exists>r'. replaced r' L L' \<and> same_limits r r'
     \<and> (if res = Returned () then ledger_inv sha fr L' \<and> wi_state r' = COMMITTED
        else \<exists>s. in_progress s \<and> on_hand sha fr L' r' aid s))"

lemma tried_held:
  assumes "on_hand sha fr L' r' aid s" and "in_progress s" and "replaced r' L L'" and "same_limits r r'"
    and "res \<noteq> RaisedOther" and "res \<noteq> Returned ()"
  shows "tried sha fr aid r res L L'"
  using assms by (auto simp: tried_def)

lemma commit_result_tried:
  assumes hand: "on_hand (co_sha C) (co_fr C) (cs_ledger S) r aid MATERIALIZED"
  shows "\<exists>res S'. commit_result C k aid ref S = (res, S')
    \<and> tried (co_sha C) (co_fr C) aid r res (cs_ledger S) (cs_ledger S')"
proof -
  obtain L1 r1 where 1: "advance aid VALIDATED [] (co_clock C k 3) (cs_ledger S) = Inr L1"
      "on_hand (co_sha C) (co_fr C) L1 r1 aid VALIDATED" "replaced r1 (cs_ledger S) L1"
      "r1 = r\<lparr>wi_state := VALIDATED, wi_updated_at := co_clock C k 3 0\<rparr>"
    using advance_step [OF hand, of VALIDATED "[]" "co_clock C k 3"] by auto
  obtain L2 r2 where 2: "commit aid ref [] (co_clock C k 4) L1 = Inr L2" "ledger_inv (co_sha C) (co_fr C) L2"
      "r2 = r1\<lparr>wi_state := COMMITTED, wi_updated_at := co_clock C k 4 0\<rparr>" "replaced r2 L1 L2"
    using commit_step [OF 1(2)] by blast
  have "replaced r2 (cs_ledger S) L2" using replaced_trans [OF 1(3) 2(4)] 2(3) by simp
  with 1 2 show ?thesis by (auto simp: commit_result_def tried_def same_limits_def)
qed

lemma tried_trans:
  assumes "tried sha fr aid r1 res L1 L2" and "replaced r1 L L1" and "same_limits r r1"
  shows "tried sha fr aid r res L L2"
proof -
  obtain r' where "replaced r' L1 L2" "same_limits r1 r'" "res \<noteq> RaisedOther"
    "if res = Returned () then ledger_inv sha fr L2 \<and> wi_state r' = COMMITTED
        else \<exists>s. in_progress s \<and> on_hand sha fr L2 r' aid s"
    using assms(1) by (auto simp: tried_def)
  moreover have "same_limits r r'" using assms(3) \<open>same_limits r1 r'\<close> by (simp add: same_limits_def)
  moreover have "replaced r' L L2"
    using replaced_trans [OF assms(2) \<open>replaced r' L1 L2\<close>] \<open>same_limits r1 r'\<close> by (simp add: same_limits_def)
  ultimately show ?thesis unfolding tried_def by blast
qed

lemma replaced_refl:
  assumes "keyed wi_key (items L)" and "r \<in> set (items L)"
  shows "replaced r L L"
proof -
  have "update_rows p id (items L) = items L" for p
    by (simp add: update_rows_def map_idI)
  with update_rows_const [OF assms, of id] show ?thesis by (simp add: replaced_def)
qed

lemma try_body_tried:
  assumes coop: "cooperative C" and hand: "on_hand (co_sha C) (co_fr C) (cs_ledger S) r aid CLAIMED"
  shows "\<exists>res S'. try_body C k key item aid S = (res, S')
    \<and> tried (co_sha C) (co_fr C) aid r res (cs_ledger S) (cs_ledger S')"
proof -
  have inv: "ledger_inv (co_sha C) (co_fr C) (cs_ledger S)" and r: "r \<in> set (items (cs_ledger S))"
    using hand by (auto simp: on_hand_def)
  have stay: "tried (co_sha C) (co_fr C) aid r res (cs_ledger S) (cs_ledger S)"
    if "res \<noteq> RaisedOther" "res \<noteq> Returned ()" for res
    using tried_held [OF hand _ replaced_refl [OF inv_keyed [OF inv] r] _ that] by (simp add: same_limits_def)
  show ?thesis
  proof (cases "co_executor C k item")
    case (Returned raw)
    obtain ref st where put: "co_put C k raw (cs_store S) = (Inr ref, st)"
      using coop by (fastforce simp: cooperative_def)
    let ?S1 = "S\<lparr>cs_store := st, cs_ledger := register_artifact (or_key ref) ''work_output''
                  (or_raw_size ref) (or_stored_size ref) (Some key) (co_clock C k 1) (cs_ledger S)\<rparr>"
    have "on_hand (co_sha C) (co_fr C) (cs_ledger ?S1) r aid CLAIMED" using on_hand_artifact [OF hand] by simp
    from advance_step [OF this, of MATERIALIZED "[]" "co_clock C k 2"] obtain L2 r2 where
      2: "advance aid MATERIALIZED [] (co_clock C k 2) (cs_ledger ?S1) = Inr L2"
      "on_hand (co_sha C) (co_fr C) L2 r2 aid MATERIALIZED" "replaced r2 (cs_ledger S) L2"
      "r2 = r\<lparr>wi_state := MATERIALIZED, wi_updated_at := co_clock C k 2 0\<rparr>"
      by (auto simp: replaced_artifact)
    let ?S2 = "S\<lparr>cs_store := st, cs_ledger := L2\<rparr>"
    have lim: "same_limits r r2" using 2(4) by (simp add: same_limits_def)
    have held: "tried (co_sha C) (co_fr C) aid r res (cs_ledger S) L2"
      if "res \<noteq> RaisedOther" "res \<noteq> Returned ()" for res
      using tried_held [OF 2(2) _ 2(3) lim that] by simp
    have body: "try_body C k key item aid S = (case run_validator C k item raw of
        Returned u \<Rightarrow> commit_result C k aid (or_key ref) ?S2
      | RaisedRetryable n m \<Rightarrow> (RaisedRetryable n m, ?S2)
      | RaisedFatal n m \<Rightarrow> (RaisedFatal n m, ?S2)
      | RaisedOther \<Rightarrow> (RaisedOther, ?S2))"
      using 2(1) by (simp add: try_body_def Returned put Let_def)
    show ?thesis
    proof (cases "run_validator C k item raw")
      case (Returned u)
      obtain res S' where "commit_result C k aid (or_key ref) ?S2 = (res, S')"
          "tried (co_sha C) (co_fr C) aid r2 res L2 (cs_ledger S')"
        using commit_result_tried [of C "?S2" r2 aid k "or_key ref"] 2(2) by auto
      with tried_trans [OF _ 2(3) lim] show ?thesis by (simp add: body Returned)
    next
      case RaisedOther
      with coop show ?thesis by (simp add: cooperative_def)
    qed (simp_all add: body held)
  next
    case RaisedOther
    with coop show ?thesis by (simp add: cooperative_def)
  qed (simp_all add: try_body_def stay)
qed

lemma weight_same: "same_limits r r' \<Longrightarrow> wi_state r = PENDING \<Longrightarrow> wi_state r' \<noteq> PENDING \<Longrightarrow> weight r' < weight r"
  by (simp add: weight_def)

lemma ledger_inv_incident:
  "ledger_inv sha fr L \<Longrightarrow> ledger_inv sha fr (record_incident severity kind detail key clk L)"
  by (rule inv_core [OF _ bookkeeping_core(3)])

lemma replaced_incident:
  "replaced r' L (record_incident severity kind detail key clk L') \<longleftrightarrow> replaced r' L L'"
  by (simp add: replaced_def record_incident_def)

text \<open>Failing a held attempt uses up a retry or ends the item.\<close>

lemma fail_weight:
  assumes hand: "on_hand sha fr L r1 aid s" "in_progress s" and d: "d \<in> set [FAILED_RETRYABLE, FAILED_FINAL]"
    and "replaced r1 L0 L" "same_limits r r1" "wi_state r = PENDING"
  shows "\<exists>st L' r'. fail aid d e m ref clk L = Inr (st, L') \<and> ledger_inv sha fr L' \<and> replaced r' L0 L'
    \<and> wi_key r' = wi_key r \<and> weight r' < weight r"
proof -
  have "d \<in> set [FAILED_RETRYABLE, FAILED_FINAL, FAILED_UNKNOWN]" using d by auto
  from fail_step [OF hand this, of e m ref clk] obtain st L' r' where
    run: "fail aid d e m ref clk L = Inr (st, L')" "ledger_inv sha fr L'"
    and r': "replaced r' L L'" "wi_key r' = wi_key r1" "wi_max_retries r' = wi_max_retries r1" "wi_state r' = st"
    "if st = PENDING then wi_retry_count r' = wi_retry_count r1 + 1 \<and> wi_retry_count r' \<le> wi_max_retries r1
       else st \<in> {FAILED_FINAL, FAILED_UNKNOWN}" by blast
  have "weight r' < weight r"
    using r' assms(5,6) by (auto simp: weight_def same_limits_def nat_less_eq_zless split: if_splits)
  with run replaced_trans [OF assms(4) r'(1,2)] r'(2) assms(5) show ?thesis by (auto simp: same_limits_def)
qed

lemma process_step:
  assumes coop: "cooperative C" and inv: "ledger_inv (co_sha C) (co_fr C) (cs_ledger S)"
    and r: "r \<in> set (items (cs_ledger S))" "wi_state r = PENDING"
  shows "\<exists>sm' S' r'. process_item C k (wi_key r) sm S = (True, sm', S')
    \<and> ledger_inv (co_sha C) (co_fr C) (cs_ledger S') \<and> replaced r' (cs_ledger S) (cs_ledger S')
    \<and> wi_key r' = wi_key r \<and> weight r' < weight r \<and> sm_total sm < sm_total sm'"
proof -
  have find: "get_work_item (wi_key r) (cs_ledger S) = Some r"
    using find_item_keyed [OF inv r(1)] by (simp add: get_work_item_def)
  have "inj (co_sha C)" using coop by (simp add: cooperative_def)
  from claim_step [OF this inv r] obtain a L1 r1 where
    claim: "claim (co_sha C) (co_fr C) (wi_key r) (co_worker C) (co_lease C) [] (co_clock C k 0) (cs_ledger S)
        = Inr (Some a, L1)"
    and held: "on_hand (co_sha C) (co_fr C) L1 r1 (at_id a) CLAIMED"
      "r1 = r\<lparr>wi_state := CLAIMED, wi_updated_at := co_clock C k 0 1\<rparr>" "replaced r1 (cs_ledger S) L1" by blast
  have "on_hand (co_sha C) (co_fr C) (cs_ledger (S\<lparr>cs_ledger := L1\<rparr>)) r1 (at_id a) CLAIMED" using held(1) by simp
  from try_body_tried [OF coop this, of k "wi_key r" r] obtain res S1 where
    body: "try_body C k (wi_key r) r (at_id a) (S\<lparr>cs_ledger := L1\<rparr>) = (res, S1)"
    and tried1: "tried (co_sha C) (co_fr C) (at_id a) r1 res L1 (cs_ledger S1)" by auto
  have "same_limits r r1" using held(2) by (simp add: same_limits_def)
  from tried_trans [OF tried1 held(3) this] obtain r2 where
    r2: "replaced r2 (cs_ledger S) (cs_ledger S1)" "same_limits r r2" "res \<noteq> RaisedOther"
    "if res = Returned () then ledger_inv (co_sha C) (co_fr C) (cs_ledger S1) \<and> wi_state r2 = COMMITTED
        else \<exists>s. in_progress s \<and> on_hand (co_sha C) (co_fr C) (cs_ledger S1) r2 (at_id a) s"
    by (auto simp: tried_def)
  note run = process_item_def [of C k "wi_key r" sm S, unfolded find claim]
  show ?thesis
  proof (cases res)
    case (Returned u)
    with r2 r(2) body show ?thesis
      by (auto simp: run sm_total_def same_limits_def weight_def intro!: exI [of _ r2])
  next
    case (RaisedRetryable name msg)
    with r2(4) obtain s where "on_hand (co_sha C) (co_fr C) (cs_ledger S1) r2 (at_id a) s" "in_progress s" by auto
    from fail_weight [OF this _ r2(1,2) r(2), of FAILED_RETRYABLE name msg "[]" "co_clock C k 5"]
    obtain st L' r' where "fail (at_id a) FAILED_RETRYABLE name msg [] (co_clock C k 5) (cs_ledger S1) = Inr (st, L')"
      "ledger_inv (co_sha C) (co_fr C) L'" "replaced r' (cs_ledger S) L'" "wi_key r' = wi_key r" "weight r' < weight r"
      by auto
    with r(2) body RaisedRetryable show ?thesis
      by (auto simp: run sm_total_def intro!: exI [of _ r'])
  next
    case (RaisedFatal name msg)
    with r2(4) obtain s where "on_hand (co_sha C) (co_fr C) (cs_ledger S1) r2 (at_id a) s" "in_progress s" by auto
    from fail_weight [OF this _ r2(1,2) r(2), of FAILED_FINAL name msg "[]" "co_clock C k 5"]
    obtain st L' r' where "fail (at_id a) FAILED_FINAL name msg [] (co_clock C k 5) (cs_ledger S1) = Inr (st, L')"
      "ledger_inv (co_sha C) (co_fr C) L'" "replaced r' (cs_ledger S) L'" "wi_key r' = wi_key r" "weight r' < weight r"
      by auto
    with r(2) body RaisedFatal show ?thesis
      by (auto simp: run sm_total_def ledger_inv_incident replaced_incident intro!: exI [of _ r'])
  qed (use r2(3) in simp)
qed

subsection \<open>The loop ends\<close>

lemma pending_head:
  assumes "pending_keys 1 L = key # keys"
  shows "\<exists>r \<in> set (items L). wi_key r = key \<and> wi_state r = PENDING"
proof -
  let ?rows = "sort_key wi_created_at (filter (\<lambda>r. wi_state r = PENDING) (items L))"
  have "map wi_key ?rows = key # drop 1 (map wi_key ?rows)"
    using assms by (cases ?rows) (simp_all add: pending_keys_def)
  then have "key \<in> wi_key ` set ?rows" by (metis list.set_intros(1) list.set_map)
  then show ?thesis by auto
qed

lemma pending_none: "pending_keys 1 L = [] \<Longrightarrow> r \<in> set (items L) \<Longrightarrow> wi_state r \<noteq> PENDING"
  by (auto simp: pending_keys_def filter_empty_conv take_Suc_conv_app_nth dest!: arg_cong [where f = length]
      split: if_splits)

lemma run_loop_drains:
  assumes coop: "cooperative C" and "ledger_inv (co_sha C) (co_fr C) (cs_ledger S)"
    and "potential (cs_ledger S) < fuel"
  shows "\<exists>sm' S'. run_loop fuel C None None k sm S = Some (True, sm', S')
    \<and> ledger_inv (co_sha C) (co_fr C) (cs_ledger S')
    \<and> (sm_fatal sm' \<or> (\<forall>r \<in> set (items (cs_ledger S')). wi_state r \<noteq> PENDING))"
  using assms(2,3)
proof (induction fuel arbitrary: k sm S)
  case (Suc n)
  show ?case
  proof (cases "pending_keys 1 (cs_ledger S)")
    case Nil
    with Suc.prems(1) show ?thesis by (auto dest: pending_none)
  next
    case (Cons key keys)
    then obtain r where r: "r \<in> set (items (cs_ledger S))" "wi_key r = key" "wi_state r = PENDING"
      using pending_head by blast
    from process_step [OF coop Suc.prems(1) r(1,3), of k sm] r(2) obtain sm1 S1 r1 where
      step: "process_item C k key sm S = (True, sm1, S1)" "ledger_inv (co_sha C) (co_fr C) (cs_ledger S1)"
        "replaced r1 (cs_ledger S) (cs_ledger S1)" "wi_key r1 = wi_key r" "weight r1 < weight r"
        "sm_total sm < sm_total sm1" by auto
    have "potential (cs_ledger S1) < n"
      using potential_less [OF inv_keyed [OF Suc.prems(1)] r(1) step(3,4,5)] Suc.prems(2) by simp
    with Suc.IH [OF step(2), of "k + 1" sm1] step(1,2,6) Cons show ?thesis by auto
  qed
qed simp

subsection \<open>A commit has its blob\<close>

definition backed :: "(string \<Rightarrow> 's \<Rightarrow> 'e + bool) \<Rightarrow> 's coord_state \<Rightarrow> bool" where
  "backed verify S \<longleftrightarrow> (\<forall>a \<in> set (attempts (cs_ledger S)). at_state a = COMMITTED \<longrightarrow>
     (\<exists>ref. at_result_ref a = Some ref \<and> verify ref (cs_store S) = Inr True))"

text \<open>Every operation but \<open>commit\<close> leaves no committed attempt that was not there.\<close>

definition no_new :: "ledger \<Rightarrow> ledger \<Rightarrow> bool" where
  "no_new L L' \<longleftrightarrow> (\<forall>a \<in> set (attempts L'). at_state a = COMMITTED \<longrightarrow> a \<in> set (attempts L))"

lemma no_new_refl: "no_new L L"
  by (simp add: no_new_def)

lemma no_new_trans: "no_new L M \<Longrightarrow> no_new M N \<Longrightarrow> no_new L N"
  by (simp add: no_new_def)

lemma no_new_update:
  assumes "attempts L' = attempts L" and "\<And>a. at_state (f a) \<noteq> COMMITTED"
  shows "no_new L (update_attempt aid f L')"
  using assms by (auto simp: no_new_def update_attempt_def set_update_rows)

lemma no_new_same: "attempts L' = attempts L \<Longrightarrow> no_new L L'"
  by (simp add: no_new_def)

lemma claim_no_new:
  assumes "claim sha fr key w lease run clk L = Inr (res, L')"
  shows "no_new L L'"
proof -
  have "attempts L2 = attempts L @ [a]" if "insert_attempt a L = Inr L1" "attempts L2 = attempts L1" for a L1 L2
    using that by (auto simp: insert_attempt_def split: if_splits)
  with assms show ?thesis
    by (fastforce simp: claim_def Let_def result_elims no_new_def new_attempt_def dest!: set_state_grows
        split: option.splits if_splits sum.splits)
qed

lemma advance_no_new:
  assumes "advance aid to reason clk L = Inr L'"
  shows "no_new L L'"
proof -
  obtain b L1 where to: "to \<in> set [MATERIALIZED, VALIDATED]"
    and "attempts L1 = attempts L" and L': "L' = update_attempt aid (\<lambda>a. a\<lparr>at_state := to\<rparr>) L1"
    using assms by (auto simp: advance_def result_elims dest!: set_state_grows split: if_splits)
  then show ?thesis unfolding L' by (intro no_new_update) auto
qed

lemma fail_no_new:
  assumes "fail aid d e reason ref clk L = Inr (st, L')"
  shows "no_new L L'"
proof -
  from assms obtain L1 where d: "d \<in> set [FAILED_RETRYABLE, FAILED_FINAL, FAILED_UNKNOWN]"
    and "attempts L' = attempts (update_attempt aid (end_failed d e ref (clk 0)) L)"
    by (rule fail_Inr) auto
  moreover have "no_new L (update_attempt aid (end_failed d e ref (clk 0)) L)"
    using d by (intro no_new_update) (auto simp: end_failed_def)
  ultimately show ?thesis by (simp add: no_new_def)
qed

lemma reclaim_one_no_new:
  assumes "reclaim_one now tm att (ks, L) = Inr (ks', L')"
  shows "no_new L L'"
proof -
  have "attempts L' = attempts (update_attempt (at_id att) (expire_attempt now) L)"
    using assms by (auto simp: reclaim_one_def Let_def update_item_def log_transition_def update_attempt_def
        split: option.splits if_splits)
  moreover have "no_new L (update_attempt (at_id att) (expire_attempt now) L)"
    by (intro no_new_update) (auto simp: expire_attempt_def)
  ultimately show ?thesis by (simp add: no_new_def)
qed

lemma reclaim_stale_no_new:
  assumes "reclaim_stale now_arg clk L = Inr (ks, L')"
  shows "no_new L L'"
proof -
  have "no_new L (snd (ks, L'))"
    using assms unfolding reclaim_stale_def Let_def
  proof (rule rfold_invariant [rotated 2])
    fix x and s s' :: "string list \<times> ledger"
    assume "no_new L (snd s)" and "(case x of (k, att) \<Rightarrow> reclaim_one
        (case now_arg of None \<Rightarrow> clk 0 | Some t \<Rightarrow> t) (clk (Suc k)) att) s = Inr s'"
    then show "no_new L (snd s')"
      by (cases x; cases s; cases s') (auto dest!: reclaim_one_no_new intro: no_new_trans)
  qed (simp add: no_new_refl)
  then show ?thesis by simp
qed

lemma commit_new:
  assumes "commit aid ref reason clk L = Inr L'" and "a \<in> set (attempts L')" and "at_state a = COMMITTED"
  shows "a \<in> set (attempts L) \<or> at_result_ref a = Some ref"
proof -
  obtain L1 where "attempts L1 = attempts L" and "L' = update_attempt aid (\<lambda>a. a\<lparr>at_state := COMMITTED,
      at_ended_at := Some (clk 2), at_terminal_status := Some COMMITTED, at_result_ref := Some ref\<rparr>) L1"
    using assms(1) by (auto simp: commit_def result_elims dest!: set_state_grows split: if_splits)
  with assms(2) show ?thesis by (auto simp: update_attempt_def set_update_rows)
qed

lemma backed_no_new:
  assumes "backed verify S" and "no_new (cs_ledger S) (cs_ledger S')" and "cs_store S' = cs_store S"
  shows "backed verify S'"
  using assms by (auto simp: backed_def no_new_def)

text \<open>The client's side of the store's interface.\<close>

context blob_store
begin

abbreviation good :: "'s coord_state \<Rightarrow> bool" where
  "good S \<equiv> ok (cs_store S) \<and> backed verify S"

lemma good_no_new: "good S \<Longrightarrow> no_new (cs_ledger S) L \<Longrightarrow> good (S\<lparr>cs_ledger := L\<rparr>)"
  using backed_no_new [of verify S "S\<lparr>cs_ledger := L\<rparr>"] by simp

lemma good_put:
  assumes "good S" and "put x raw (cs_store S) = (res, st)"
  shows "good (S\<lparr>cs_store := st\<rparr>)"
  using assms put_keeps [OF _ assms(2)] by (auto simp: backed_def)

lemma commit_result_good:
  assumes "good S" and "verify ref (cs_store S) = Inr True" and "commit_result C k aid ref S = (res, S')"
  shows "good S'"
proof (cases "advance aid VALIDATED [] (co_clock C k 3) (cs_ledger S)")
  case (Inr L1)
  have 1: "good (S\<lparr>cs_ledger := L1\<rparr>)" by (rule good_no_new [OF assms(1) advance_no_new [OF Inr]])
  show ?thesis
  proof (cases "commit aid ref [] (co_clock C k 4) L1")
    case (Inr L2)
    have "good (S\<lparr>cs_ledger := L2\<rparr>)"
      using 1 assms(2) commit_new [OF Inr] by (fastforce simp: backed_def)
    with assms(3) Inr \<open>_ = Inr L1\<close> show ?thesis by (auto simp: commit_result_def)
  qed (use assms(3) Inr 1 in \<open>auto simp: commit_result_def\<close>)
qed (use assms in \<open>auto simp: commit_result_def\<close>)

lemma try_body_good:
  assumes C: "\<And>k raw st. co_put C k raw st = put (x k) raw st" and good: "good S"
    and run: "try_body C k key item aid S = (res, S')"
  shows "good S'"
proof (cases "co_executor C k item")
  case (Returned raw)
  obtain out st where put: "put (x k) raw (cs_store S) = (out, st)" by (cases "put (x k) raw (cs_store S)")
  have st: "good (S\<lparr>cs_store := st\<rparr>)" by (rule good_put [OF good put])
  show ?thesis
  proof (cases out)
    case (Inr ref)
    let ?L1 = "register_artifact (or_key ref) ''work_output'' (or_raw_size ref) (or_stored_size ref)
        (Some key) (co_clock C k 1) (cs_ledger S)"
    have ver: "verify (or_key ref) st = Inr True" using put_verified good put Inr by blast
    have new: "no_new (cs_ledger S) ?L1" by (rule no_new_same) (simp add: register_artifact_def)
    have 1: "good (S\<lparr>cs_store := st, cs_ledger := ?L1\<rparr>)" using good_no_new [OF st] new by simp
    show ?thesis
    proof (cases "advance aid MATERIALIZED [] (co_clock C k 2) ?L1")
      case (Inr L2)
      have 2: "good (S\<lparr>cs_store := st, cs_ledger := L2\<rparr>)"
        using good_no_new [OF st no_new_trans [OF _ advance_no_new [OF Inr]]] new by simp
      have "commit_result C k aid (or_key ref) (S\<lparr>cs_store := st, cs_ledger := L2\<rparr>) = (res, S') \<Longrightarrow> good S'"
        using commit_result_good [OF 2] ver by simp
      then show ?thesis using run 2 Returned put Inr \<open>out = Inr ref\<close>
        by (auto simp: try_body_def C Let_def split: outcome.splits)
    qed (use run 1 Returned put Inr in \<open>auto simp: try_body_def C Let_def\<close>)
  qed (use run st Returned put in \<open>auto simp: try_body_def C Let_def\<close>)
qed (use run good in \<open>auto simp: try_body_def\<close>)

lemma process_item_good:
  assumes C: "\<And>k raw st. co_put C k raw st = put (x k) raw st" and good: "good S"
    and run: "process_item C k key sm S = (b, sm', S')"
  shows "good S'"
proof (cases "get_work_item key (cs_ledger S)")
  case (Some item)
  show ?thesis
  proof (cases "wi_state item = PENDING")
    case pending: True
    show ?thesis
    proof (cases "claim (co_sha C) (co_fr C) key (co_worker C) (co_lease C) [] (co_clock C k 0) (cs_ledger S)")
      case (Inr won)
      obtain out L where won: "won = (out, L)" by (cases won)
      have held: "good (S\<lparr>cs_ledger := L\<rparr>)"
        by (rule good_no_new [OF good claim_no_new [OF Inr [unfolded won]]])
      show ?thesis
      proof (cases out)
        case (Some att)
        obtain res S1 where body: "try_body C k key item (at_id att) (S\<lparr>cs_ledger := L\<rparr>) = (res, S1)"
          by (cases "try_body C k key item (at_id att) (S\<lparr>cs_ledger := L\<rparr>)")
        have 1: "good S1" by (rule try_body_good [OF C held body])
        have 2: "good (S1\<lparr>cs_ledger := L2\<rparr>)"
            "good (S1\<lparr>cs_ledger := record_incident sev kind d ky clk L2\<rparr>)"
          if "fail (at_id att) disp name msg [] c (cs_ledger S1) = Inr (st, L2)"
          for disp name msg c st L2 sev kind d ky clk
          using good_no_new [OF 1 fail_no_new [OF that]]
            good_no_new [OF 1 no_new_trans [OF fail_no_new [OF that] no_new_same]]
          by (auto simp: record_incident_def)
        note eqs = run [unfolded process_item_def \<open>get_work_item key _ = _\<close> Inr won \<open>out = _\<close>] pending body
        show ?thesis
          using eqs 1 by (cases res) (auto split: sum.splits dest: 2)
      qed (use run held Some pending Inr won in \<open>auto simp: process_item_def\<close>)
    qed (use run good Some pending in \<open>auto simp: process_item_def\<close>)
  qed (use run good Some in \<open>auto simp: process_item_def\<close>)
qed (use run good in \<open>auto simp: process_item_def\<close>)

lemma run_loop_good:
  assumes C: "\<And>k raw st. co_put C k raw st = put (x k) raw st"
  shows "good S \<Longrightarrow> run_loop fuel C max_items budget k sm S = Some (b, sm', S') \<Longrightarrow> good S'"
proof (induction fuel arbitrary: k sm S)
  case (Suc n)
  show ?case
  proof (cases "pending_keys 1 (cs_ledger S)")
    case (Cons key keys)
    obtain ended sm1 S1 where step: "process_item C k key sm S = (ended, sm1, S1)"
      by (cases "process_item C k key sm S") auto
    have "good S1" by (rule process_item_good [OF C Suc.prems(1) step])
    with Suc.prems Suc.IH [of S1 "k + 1" sm1] Cons step show ?thesis
      by (auto split: if_splits bool.splits)
  qed (use Suc.prems in \<open>auto split: if_splits\<close>)
qed simp

lemma run_coordinator_good:
  assumes C: "\<And>k raw st. co_put C k raw st = put (x k) raw st" and good: "good S"
    and run: "run_coordinator fuel C max_items budget clk S = Some (b, sm', S')"
  shows "good S'"
proof (cases "reclaim_stale None clk (cs_ledger S)")
  case (Inr res)
  obtain ks L where res: "res = (ks, L)" by (cases res)
  have "good (S\<lparr>cs_ledger := L\<rparr>)"
    by (rule good_no_new [OF good reclaim_stale_no_new [OF Inr [unfolded res]]])
  with run_loop_good [OF C this] run Inr res show ?thesis
    by (simp add: run_coordinator_def resume_run_def)
qed (use run good in \<open>simp add: run_coordinator_def resume_run_def\<close>)

end

subsection \<open>The properties\<close>

lemma resume_run_inv:
  assumes "ledger_inv (co_sha C) (co_fr C) (cs_ledger S)"
  shows "\<exists>ks S'. resume_run C clk S = Inr (ks, S') \<and> ledger_inv (co_sha C) (co_fr C) (cs_ledger S')"
  using reclaim_stale_closed [OF assms refl, of None clk] by (auto simp: resume_run_def)

text \<open>
  C20. The run loop ends. Take a ledger that a history of operations produced, a store that takes every
  write, a collision-free digest, and callbacks that raise nothing but \<open>RetryableError\<close> and
  \<open>FatalProtocolError\<close>, as the module asks of them. Then a run without a budget and without a limit
  returns, whatever else the executor and the validator do, and it returns either after a fatal protocol
  error or with no PENDING item left.
\<close>

theorem coordinator_drains:
  assumes "cooperative C" and "history (co_sha C) (co_fr C) (cs_ledger S)"
  shows "\<exists>fuel. \<forall>n\<ge>fuel. \<exists>sm S'. run_coordinator n C None None clk S = Some (True, sm, S')
    \<and> (sm_fatal sm \<or> (\<forall>r \<in> set (items (cs_ledger S')). wi_state r \<noteq> PENDING))"
proof -
  obtain ks S1 where 1: "resume_run C clk S = Inr (ks, S1)" "ledger_inv (co_sha C) (co_fr C) (cs_ledger S1)"
    using resume_run_inv [OF history_inv [OF assms(2)]] by blast
  have "\<exists>sm S'. run_coordinator n C None None clk S = Some (True, sm, S')
    \<and> (sm_fatal sm \<or> (\<forall>r \<in> set (items (cs_ledger S')). wi_state r \<noteq> PENDING))"
    if "n \<ge> Suc (potential (cs_ledger S1))" for n
    using run_loop_drains [OF assms(1) 1(2), of n 0 new_summary] that 1(1) by (auto simp: run_coordinator_def)
  then show ?thesis by blast
qed

text \<open>
  C21. A committed item has its result: if every COMMITTED attempt names a blob that verifies, it is
  so after every run, however the run ends, wherever the writes of the store fail and whatever the
  executor, the validator and the clock do; so \<open>committed_artifact_valid\<close> answers yes exactly for the
  keys with a committed reference.
\<close>

theorem commit_implies_blob:
  assumes "codec_ok sha deflate inflate" and "store_ok sha inflate (cs_store S)"
    and "backed (verify_object sha inflate) S"
    and "co_put C = (\<lambda>k raw. put_bytes sha deflate (stem k) (fault k) (PBytes raw))"
    and "run_coordinator fuel C max_items budget clk S = Some (ended, sm, S')"
  shows "store_ok sha inflate (cs_store S') \<and> backed (verify_object sha inflate) S'
    \<and> committed_artifact_valid (verify_object sha inflate) key S' = Inr (committed_ref key (cs_ledger S') \<noteq> None)"
proof -
  have good: "(codec_ok sha deflate inflate \<and> store_ok sha inflate (cs_store S'))
      \<and> backed (verify_object sha inflate) S'"
    by (rule disk.run_coordinator_good [where x = "\<lambda>k. (stem k, fault k)", OF _ _ assms(5)])
       (use assms(1-4) in simp_all)
  moreover have "verify_object sha inflate ref (cs_store S') = Inr True"
    if "committed_ref key (cs_ledger S') = Some ref" for ref
    using good that by (force simp: committed_ref_def backed_def find_Some_iff split: option.splits)
  moreover have "committed_ref key (cs_ledger S') = None \<or> (\<exists>ref. committed_ref key (cs_ledger S') = Some ref)"
    by (cases "committed_ref key (cs_ledger S')") auto
  ultimately show ?thesis by (auto simp: committed_artifact_valid_def)
qed

subsection \<open>Concrete runs\<close>

text \<open>One registered item and an executor that returns a page.\<close>

definition page_worker :: "(string \<Rightarrow> string) \<Rightarrow> (files, store_error) coordinator" where
  "page_worker sha = \<lparr>co_executor = (\<lambda>k item. Returned ''page''), co_validator = None,
     co_put = (\<lambda>k raw. put_bytes toy_sha id ''t'' None (PBytes raw)), co_worker = ''w'', co_lease = 5,
     co_sha = sha, co_fr = (\<lambda>_. []), co_clock = (\<lambda>k j i. 0)\<rparr>"

definition memory_worker :: "(nat, unit) coordinator" where
  "memory_worker = \<lparr>co_executor = (\<lambda>k item. RaisedRetryable ''Timeout'' ''slow''), co_validator = None,
     co_put = (\<lambda>k raw st. (Inr \<lparr>or_key = raw, or_raw_size = 0, or_stored_size = 0\<rparr>, st + 1)),
     co_worker = ''w'', co_lease = 5, co_sha = (\<lambda>s. s), co_fr = (\<lambda>_. []), co_clock = (\<lambda>k j i. 0)\<rparr>"

theorem coordinator_drains_witness:
  "\<exists>L n sm S'. items L \<noteq> [] \<and> run_coordinator n memory_worker None None (\<lambda>_. 0) \<lparr>cs_ledger = L, cs_store = 0\<rparr>
      = Some (True, sm, S')"
proof -
  obtain k where k: "work_key (\<lambda>s. s) (\<lambda>_. []) sample_coordinates [] = Inr k"
    using work_key_total by blast
  obtain L where L: "ensure_work_item (\<lambda>s. s) (\<lambda>_. []) 3 sample_coordinates [] False None (\<lambda>_. 0) empty_ledger
      = Inr (k, L)" "items L \<noteq> []"
    by (simp add: ensure_work_item_def k insert_ignore_def has_key_def empty_ledger_def)
  have "history (co_sha memory_worker) (co_fr memory_worker) (cs_ledger \<lparr>cs_ledger = L, cs_store = 0\<rparr>)"
    using ledger_step.ensure [OF L(1)] by (simp add: memory_worker_def r_into_rtranclp)
  moreover have "cooperative memory_worker"
    by (simp add: cooperative_def memory_worker_def run_validator_def inj_def)
  ultimately have "\<exists>fuel. \<forall>n\<ge>fuel. \<exists>sm S'. run_coordinator n memory_worker None None (\<lambda>_. 0)
      \<lparr>cs_ledger = L, cs_store = 0\<rparr> = Some (True, sm, S')
    \<and> (sm_fatal sm \<or> (\<forall>r \<in> set (items (cs_ledger S')). wi_state r \<noteq> PENDING))"
    by (intro coordinator_drains)
  with L(2) show ?thesis by blast
qed

theorem commit_implies_blob_witness:
  "committed_artifact_valid (verify_object toy_sha Some) []
     (snd (snd (the (run_coordinator 3 (page_worker (\<lambda>_. [])) None None (\<lambda>_. 0)
        \<lparr>cs_ledger = stage1, cs_store = []\<rparr>)))) = Inr True"
proof -
  let ?S = "\<lparr>cs_ledger = stage1, cs_store = []\<rparr> :: files coord_state"
  let ?run = "run_coordinator 3 (page_worker (\<lambda>_. [])) None None (\<lambda>_. 0) ?S"
  have ended: "?run = Some (fst (the ?run), fst (snd (the ?run)), snd (snd (the ?run)))"
    and ref: "committed_ref [] (cs_ledger (snd (snd (the ?run)))) \<noteq> None"
    by code_simp+
  have "backed (verify_object toy_sha Some) ?S"
  proof -
    have "attempts stage1 = []" by code_simp
    then show ?thesis by (simp add: backed_def)
  qed
  from commit_implies_blob [OF toy_codec _ this _ ended] ref show ?thesis
    by (simp add: toy_store page_worker_def)
qed

end
