(* ===== verification/SpanIdentity.thy ===== *)
theory SpanIdentity
  imports Hashing
begin

text \<open>
  \<^verbatim>\<open>src/src/shapeflow/evidence/identity.py\<close> with the \<open>Chunk\<close> of \<^verbatim>\<open>evidence/chunkers.py\<close>: the evidence
  spans, their identities, and the candidate set that gives every offered span a short label. A text that
  is addressed by character offsets is the list of its characters, each as its UTF-8 bytes (\<open>utext\<close>), so
  that encoding is concatenation; other text is its UTF-8 bytes, as elsewhere.
  A span dict is a record in which a field that only one of the two namespaces has is an option, \<open>None\<close>
  for an absent key; the keys \<open>token_start\<close> and \<open>token_end\<close>, always null, are left out.
\<close>

subsection \<open>Text\<close>

type_synonym utext = "string list"

definition utf8 :: "utext \<Rightarrow> string" where
  "utf8 t = concat t"

text \<open>\<open>xs[s:e]\<close> for Python integers: a negative bound counts from the end, and both are clipped.\<close>

definition slice_bound :: "int \<Rightarrow> int \<Rightarrow> int" where
  "slice_bound n i = (if i < 0 then max 0 (n + i) else min n i)"

definition py_slice :: "int \<Rightarrow> int \<Rightarrow> 'a list \<Rightarrow> 'a list" where
  "py_slice s e xs =
     (let n = int (length xs); lo = nat (slice_bound n s); hi = nat (slice_bound n e)
      in take (hi - lo) (drop lo xs))"

lemma py_slice_nat: "s \<le> e \<Longrightarrow> e \<le> length xs \<Longrightarrow> py_slice (int s) (int e) xs = take (e - s) (drop s xs)"
  by (simp add: py_slice_def slice_bound_def Let_def)

subsection \<open>Chunks and spans\<close>

record chunk =
  ck_char_start :: int
  ck_char_end :: int
  ck_kind :: string
  ck_heading_path :: "string list"
  ck_token_len :: int
  ck_context_ranges :: "(int \<times> int) list"
  ck_heading_ranges :: "(int \<times> int) list"

definition chunk_text :: "chunk \<Rightarrow> utext \<Rightarrow> utext" where
  "chunk_text c source = py_slice (ck_char_start c) (ck_char_end c) source"

record span_ref =
  rf_content_hash :: string
  rf_char_start :: int
  rf_char_end :: int
  rf_text_sha256 :: string

record span =
  sp_namespace :: string
  sp_span_id :: "string option"
  sp_content_hash :: "string option"
  sp_char_start :: "int option"
  sp_char_end :: "int option"
  sp_visible_span_id :: "string option"
  sp_message_id :: "string option"
  sp_message_role :: "string option"
  sp_byte_start :: "int option"
  sp_byte_end :: "int option"
  sp_view_hash :: "string option"
  sp_occurrences :: "string list option"
  sp_text_sha256 :: string
  sp_kind :: string
  sp_heading_path :: "string list"
  sp_heading_refs :: "span_ref list"
  sp_context_refs :: "span_ref list"
  sp_token_len :: int
  sp_chunker_version :: "string option"

datatype span_error = NoOccurrence | BadVisibleKind string | OccurrencesOnContext | SpanId hash_error

definition evidence_span_id ::
  "(string \<Rightarrow> string) \<Rightarrow> (real \<Rightarrow> string) \<Rightarrow> string \<Rightarrow> int \<Rightarrow> int \<Rightarrow> string \<Rightarrow> string \<Rightarrow> string \<Rightarrow> string list
     \<Rightarrow> hash_error + string" where
  "evidence_span_id sha fr content_hash s e text_hash kind version occs =
     derive_id sha fr ''evidence_span''
       [(''content_hash'', PStr content_hash), (''char_start'', PInt s), (''char_end'', PInt e),
        (''text_sha256'', PStr text_hash), (''kind'', PStr kind), (''chunker_version'', PStr version),
        (''source_occurrence_ids'', PList (map PStr (sort occs)))]"

definition ref_to :: "(string \<Rightarrow> string) \<Rightarrow> string \<Rightarrow> utext \<Rightarrow> int \<times> int \<Rightarrow> span_ref" where
  "ref_to sha content_hash source r =
     (case r of (s, e) \<Rightarrow> \<lparr>rf_content_hash = content_hash, rf_char_start = s, rf_char_end = e,
        rf_text_sha256 = sha256_hex sha (utf8 (py_slice s e source))\<rparr>)"

definition build_evidence_span ::
  "(string \<Rightarrow> string) \<Rightarrow> (real \<Rightarrow> string) \<Rightarrow> chunk \<Rightarrow> utext \<Rightarrow> string \<Rightarrow> string list \<Rightarrow> string
     \<Rightarrow> span_error + span" where
  "build_evidence_span sha fr c source content_hash occs version =
     (if occs = [] then Inl NoOccurrence
      else
        (let text_hash = sha256_hex sha (utf8 (chunk_text c source)) in
         case evidence_span_id sha fr content_hash (ck_char_start c) (ck_char_end c) text_hash (ck_kind c)
                version occs of
           Inl e \<Rightarrow> Inl (SpanId e)
         | Inr sid \<Rightarrow> Inr
             \<lparr>sp_namespace = ''RAW_SOURCE'', sp_span_id = Some sid, sp_content_hash = Some content_hash,
              sp_char_start = Some (ck_char_start c), sp_char_end = Some (ck_char_end c),
              sp_visible_span_id = None, sp_message_id = None, sp_message_role = None,
              sp_byte_start = None, sp_byte_end = None, sp_view_hash = None,
              sp_occurrences = Some occs, sp_text_sha256 = text_hash, sp_kind = ck_kind c,
              sp_heading_path = ck_heading_path c,
              sp_heading_refs = map (ref_to sha content_hash source) (ck_heading_ranges c),
              sp_context_refs = map (ref_to sha content_hash source) (ck_context_ranges c),
              sp_token_len = ck_token_len c, sp_chunker_version = Some version\<rparr>))"

definition build_visible_message_span ::
  "(string \<Rightarrow> string) \<Rightarrow> (real \<Rightarrow> string) \<Rightarrow> string \<Rightarrow> string \<Rightarrow> int \<Rightarrow> int \<Rightarrow> string \<Rightarrow> string \<Rightarrow> string
     \<Rightarrow> string list option \<Rightarrow> int \<Rightarrow> span_error + span" where
  "build_visible_message_span sha fr message_id message_role s e message_bytes kind view_hash occs token_len =
     (if kind \<notin> set [''TOOL_EVIDENCE'', ''TOOL_UNATTRIBUTED_CONTEXT'', ''MODEL_DERIVED_CONTEXT'', ''USER_CONTEXT'']
      then Inl (BadVisibleKind kind)
      else if kind \<noteq> ''TOOL_EVIDENCE'' \<and> occs \<noteq> None \<and> occs \<noteq> Some [] then Inl OccurrencesOnContext
      else
        (let exact_hash = sha256_hex sha (py_slice s e message_bytes) in
         case derive_id sha fr ''visible_message_span''
                [(''message_id'', PStr message_id), (''byte_start'', PInt s), (''byte_end'', PInt e),
                 (''exact_text_sha256'', PStr exact_hash), (''kind'', PStr kind),
                 (''visible_compressor_view_hash'', PStr view_hash)] of
           Inl e \<Rightarrow> Inl (SpanId e)
         | Inr sid \<Rightarrow> Inr
             \<lparr>sp_namespace = ''VISIBLE_MESSAGE'', sp_span_id = None, sp_content_hash = None,
              sp_char_start = None, sp_char_end = None, sp_visible_span_id = Some sid,
              sp_message_id = Some message_id, sp_message_role = Some message_role,
              sp_byte_start = Some s, sp_byte_end = Some e, sp_view_hash = Some view_hash,
              sp_occurrences = (if occs = Some [] then None else occs), sp_text_sha256 = exact_hash,
              sp_kind = kind, sp_heading_path = [], sp_heading_refs = [], sp_context_refs = [],
              sp_token_len = token_len, sp_chunker_version = None\<rparr>))"

subsection \<open>The candidate set\<close>

record candidate_set =
  cd_evidence_l2i :: "(string \<times> string) list"
  cd_evidence_i2l :: "(string \<times> string) list"
  cd_query_l2i :: "(string \<times> string) list"
  cd_query_i2l :: "(string \<times> string) list"
  cd_namespace :: string

datatype candidate_error = UnknownNamespace string | UnknownKind string | OutOfSetLabel string string | NoLabel string

definition evidence_kind :: string where
  "evidence_kind = ''evidence''"

definition query_kind :: string where
  "query_kind = ''query_attempt''"

text \<open>One of the two loops of \<open>build\<close>: labels are \<open>E1\<close>, \<open>E2\<close> and so on in the given order.\<close>

definition label_ids :: "string \<Rightarrow> string list \<Rightarrow> (string \<times> string) list \<times> (string \<times> string) list" where
  "label_ids letter ids =
     fold (\<lambda>(i, sid) (l2i, i2l).
        let label = letter @ show_nat i in (dict_put label sid l2i, dict_put sid label i2l))
       (enumerate 1 ids) ([], [])"

definition build_candidates :: "string list \<Rightarrow> string list \<Rightarrow> string \<Rightarrow> candidate_error + candidate_set" where
  "build_candidates span_ids query_ids namespace =
     (if namespace \<notin> set [''RAW_SOURCE'', ''VISIBLE_MESSAGE''] then Inl (UnknownNamespace namespace)
      else
        (let (e_l2i, e_i2l) = label_ids ''E'' span_ids; (q_l2i, q_i2l) = label_ids ''Q'' query_ids
         in Inr \<lparr>cd_evidence_l2i = e_l2i, cd_evidence_i2l = e_i2l, cd_query_l2i = q_l2i,
                 cd_query_i2l = q_i2l, cd_namespace = namespace\<rparr>))"

definition candidate_table :: "string \<Rightarrow> candidate_set \<Rightarrow> candidate_error + (string \<times> string) list" where
  "candidate_table kind C =
     (if kind = evidence_kind then Inr (cd_evidence_l2i C)
      else if kind = query_kind then Inr (cd_query_l2i C)
      else Inl (UnknownKind kind))"

definition label_for :: "string \<Rightarrow> candidate_set \<Rightarrow> candidate_error + string" where
  "label_for sid C = (case map_of (cd_evidence_i2l C) sid of None \<Rightarrow> Inl (NoLabel sid) | Some l \<Rightarrow> Inr l)"

definition label_for_query :: "string \<Rightarrow> candidate_set \<Rightarrow> candidate_error + string" where
  "label_for_query qid C = (case map_of (cd_query_i2l C) qid of None \<Rightarrow> Inl (NoLabel qid) | Some l \<Rightarrow> Inr l)"

definition resolve_label :: "string \<Rightarrow> string \<Rightarrow> candidate_set \<Rightarrow> candidate_error + string" where
  "resolve_label label kind C = rbind (candidate_table kind C) (\<lambda>table.
     case map_of table label of None \<Rightarrow> Inl (OutOfSetLabel label kind) | Some sid \<Rightarrow> Inr sid)"

definition resolve_all :: "string list \<Rightarrow> string \<Rightarrow> candidate_set \<Rightarrow> candidate_error + string list" where
  "resolve_all labels kind C = rmap (\<lambda>x. resolve_label x kind C) labels"

definition contains_label :: "string \<Rightarrow> string \<Rightarrow> candidate_set \<Rightarrow> candidate_error + bool" where
  "contains_label label kind C = rbind (candidate_table kind C) (\<lambda>table. Inr (map_of table label \<noteq> None))"

definition candidate_count :: "candidate_set \<Rightarrow> nat" where
  "candidate_count C = length (cd_evidence_l2i C) + length (cd_query_l2i C)"

subsection \<open>Labels\<close>

lemma label_ids_step:
  "label_ids letter (ids @ [sid]) =
     (let label = letter @ show_nat (Suc (length ids))
      in (dict_put label sid (fst (label_ids letter ids)), dict_put sid label (snd (label_ids letter ids))))"
  by (simp add: label_ids_def enumerate_append_eq split_beta Let_def)

text \<open>The two tables, read off the positions of the ids; a repeated id keeps its last label.\<close>

lemma label_ids_l2i:
  "map_of (fst (label_ids letter ids)) label = Some sid \<longleftrightarrow>
     (\<exists>i < length ids. label = letter @ show_nat (Suc i) \<and> sid = ids ! i)"
proof (induction ids rule: rev_induct)
  case Nil
  then show ?case by (simp add: label_ids_def)
next
  case (snoc s ids)
  show ?case
  proof (cases "label = letter @ show_nat (Suc (length ids))")
    case True
    then show ?thesis by (auto simp: label_ids_step Let_def)
  next
    case False
    with snoc show ?thesis by (auto simp: label_ids_step Let_def nth_append less_Suc_eq)
  qed
qed

lemma label_ids_i2l:
  "map_of (snd (label_ids letter ids)) sid = Some label \<Longrightarrow>
     \<exists>i < length ids. label = letter @ show_nat (Suc i) \<and> sid = ids ! i"
proof (induction ids rule: rev_induct)
  case Nil
  then show ?case by (simp add: label_ids_def)
next
  case (snoc s ids)
  show ?case
  proof (cases "sid = s")
    case True
    with snoc.prems show ?thesis by (auto simp: label_ids_step Let_def)
  next
    case False
    with snoc show ?thesis by (fastforce simp: label_ids_step Let_def nth_append)
  qed
qed

lemma label_ids_total: "sid \<in> set ids \<Longrightarrow> map_of (snd (label_ids letter ids)) sid \<noteq> None"
  by (induction ids rule: rev_induct) (auto simp: label_ids_step Let_def)

lemma label_roundtrip:
  assumes "sid \<in> set ids"
  shows "\<exists>label. map_of (snd (label_ids letter ids)) sid = Some label
    \<and> map_of (fst (label_ids letter ids)) label = Some sid"
  using label_ids_total [OF assms] label_ids_i2l unfolding label_ids_l2i by blast

lemma build_candidates_Inr:
  "build_candidates span_ids query_ids ns = Inr C \<longleftrightarrow> ns \<in> set [''RAW_SOURCE'', ''VISIBLE_MESSAGE'']
     \<and> C = \<lparr>cd_evidence_l2i = fst (label_ids ''E'' span_ids), cd_evidence_i2l = snd (label_ids ''E'' span_ids),
            cd_query_l2i = fst (label_ids ''Q'' query_ids), cd_query_i2l = snd (label_ids ''Q'' query_ids),
            cd_namespace = ns\<rparr>"
  by (auto simp: build_candidates_def split_beta Let_def)

lemma kinds_differ [simp]: "evidence_kind \<noteq> query_kind" "query_kind \<noteq> evidence_kind"
  by (simp_all add: evidence_kind_def query_kind_def)

lemma resolve_label_Inr:
  "resolve_label label kind C = Inr sid \<longleftrightarrow>
     kind = evidence_kind \<and> map_of (cd_evidence_l2i C) label = Some sid
     \<or> kind = query_kind \<and> map_of (cd_query_l2i C) label = Some sid"
  by (auto simp: resolve_label_def candidate_table_def result_elims split: option.splits if_splits)

lemma resolve_label_built:
  assumes "build_candidates span_ids query_ids ns = Inr C"
  shows "resolve_label label evidence_kind C = Inr sid \<longleftrightarrow>
      (\<exists>i < length span_ids. label = ''E'' @ show_nat (Suc i) \<and> sid = span_ids ! i)"
    and "resolve_label label query_kind C = Inr sid \<longleftrightarrow>
      (\<exists>i < length query_ids. label = ''Q'' @ show_nat (Suc i) \<and> sid = query_ids ! i)"
  using assms by (simp_all add: build_candidates_Inr resolve_label_Inr label_ids_l2i)

text \<open>
   The short labels are as strict as full ids: every offered span and query attempt has a label that
  resolves back to it, a label resolves only to an offered id of the kind that was asked for, and no
  label resolves as both kinds.
\<close>

theorem candidate_labels_faithful:
  assumes "build_candidates span_ids query_ids ns = Inr C"
  shows "(\<forall>sid \<in> set span_ids. \<exists>l. label_for sid C = Inr l \<and> resolve_label l evidence_kind C = Inr sid)
    \<and> (\<forall>qid \<in> set query_ids. \<exists>l. label_for_query qid C = Inr l \<and> resolve_label l query_kind C = Inr qid)
    \<and> (\<forall>l sid. resolve_label l evidence_kind C = Inr sid \<longrightarrow>
          sid \<in> set span_ids \<and> resolve_label l query_kind C = Inl (OutOfSetLabel l query_kind))
    \<and> (\<forall>l qid. resolve_label l query_kind C = Inr qid \<longrightarrow>
          qid \<in> set query_ids \<and> resolve_label l evidence_kind C = Inl (OutOfSetLabel l evidence_kind))"
proof (intro conjI allI ballI impI)
  note C = assms [unfolded build_candidates_Inr, THEN conjunct2]
  show "\<exists>l. label_for sid C = Inr l \<and> resolve_label l evidence_kind C = Inr sid" if "sid \<in> set span_ids" for sid
    using label_roundtrip [OF that, of "''E''"] by (auto simp: C label_for_def resolve_label_Inr)
  show "\<exists>l. label_for_query qid C = Inr l \<and> resolve_label l query_kind C = Inr qid" if "qid \<in> set query_ids" for qid
    using label_roundtrip [OF that, of "''Q''"] by (auto simp: C label_for_query_def resolve_label_Inr)
  fix l sid
  {
    assume ev: "resolve_label l evidence_kind C = Inr sid"
    then show "sid \<in> set span_ids" by (auto simp: resolve_label_built [OF assms])
    from ev have "\<nexists>q. resolve_label l query_kind C = Inr q" by (auto simp: resolve_label_built [OF assms])
    then show "resolve_label l query_kind C = Inl (OutOfSetLabel l query_kind)"
      by (auto simp: resolve_label_def candidate_table_def split: option.splits)
  next
    assume qu: "resolve_label l query_kind C = Inr sid"
    then show "sid \<in> set query_ids" by (auto simp: resolve_label_built [OF assms])
    from qu have "\<nexists>q. resolve_label l evidence_kind C = Inr q" by (auto simp: resolve_label_built [OF assms])
    then show "resolve_label l evidence_kind C = Inl (OutOfSetLabel l evidence_kind)"
      by (auto simp: resolve_label_def candidate_table_def split: option.splits)
  }
qed

theorem candidate_labels_faithful_witness:
  "\<exists>C l. build_candidates [''aa'', ''bb''] [''qq''] ''RAW_SOURCE'' = Inr C
     \<and> label_for ''bb'' C = Inr l \<and> resolve_label l evidence_kind C = Inr ''bb''"
proof -
  obtain C where C: "build_candidates [''aa'', ''bb''] [''qq''] ''RAW_SOURCE'' = Inr C"
    by (simp add: build_candidates_Inr)
  from candidate_labels_faithful [OF this] C show ?thesis by auto
qed

text \<open>
  With a collision-free digest the id of an evidence span commits to the digest of its text, its
  offsets, its kind and its set of occurrences.
\<close>

lemma evidence_span_id_commits:
  assumes "inj sha" and "evidence_span_id sha fr h s e t k v occs = Inr x"
    and "evidence_span_id sha fr h' s' e' t' k' v' occs' = Inr x"
  shows "h = h' \<and> s = s' \<and> e = e' \<and> t = t' \<and> k = k' \<and> v = v' \<and> mset occs = mset occs'"
proof -
  have inj: "inj PStr" by (simp add: inj_def)
  have "sort occs = sort occs' \<Longrightarrow> mset occs = mset occs'" by (metis mset_sort)
  with derive_id_same_keys [OF assms(1) _ _ _ assms(2,3) [unfolded evidence_span_id_def]] inj
  show ?thesis by (auto simp: id_fields_def comp_def inj_map_eq_map)
qed

end
