(* ===== verification/Contracts.thy ===== *)
theory Contracts
  imports SpanIdentity
begin

text \<open>
  \<^verbatim>\<open>src/src/shapeflow/p1/contracts.py\<close>: parsing a selector's structured output and resolving it against
  the candidate set. The output is a JSON value (\<open>pyval\<close>); \<open>schema_ok\<close> is the third-party validator on
  \<^verbatim>\<open>schemas/selector_output.schema.json\<close>. The reads that follow it are \<open>decode_output\<close>, and \<open>OffSchema\<close>
  stands for the \<open>KeyError\<close> or \<open>TypeError\<close> they raise on a value the schema should have refused. The
  tally of repairs is passed along as a state, and a rejection carries it.
\<close>

subsection \<open>What a selection resolves to\<close>

definition overall_facet :: string where
  "overall_facet = ''__overall__''"

definition p1_contracts :: "string list" where
  "p1_contracts = [''P1_ID'', ''P1_TYPED'', ''P1_BRIDGE'']"

type_synonym relation = "string \<times> string option"

record parsed_item =
  pi_span_id :: string
  pi_relations :: "relation list"

text \<open>The roles that are truthy, and the single one when there is exactly one.\<close>

definition relation_roles :: "relation list \<Rightarrow> string list" where
  "relation_roles rels = dedup (concat (map (\<lambda>(f, r). case r of None \<Rightarrow> [] | Some s \<Rightarrow> if s = [] then [] else [s]) rels))"

definition item_role :: "parsed_item \<Rightarrow> string option" where
  "item_role it = (case relation_roles (pi_relations it) of [r] \<Rightarrow> Some r | _ \<Rightarrow> None)"

definition item_facet_ids :: "parsed_item \<Rightarrow> string list" where
  "item_facet_ids it = filter (\<lambda>f. f \<noteq> overall_facet) (map fst (pi_relations it))"

record parsed_gap =
  pg_facet_id :: string
  pg_query_ids :: "string list"

record parsed_bridge =
  pb_text :: string
  pb_evidence :: "string list"

record normalization =
  nr_raw :: int
  nr_unique :: int
  nr_duplicates :: int
  nr_conflicts :: int
  nr_rejected :: "string option"

definition was_repaired :: "normalization \<Rightarrow> bool" where
  "was_repaired n \<longleftrightarrow> nr_duplicates n > 0 \<or> nr_conflicts n > 0"

definition was_rejected :: "normalization \<Rightarrow> bool" where
  "was_rejected n \<longleftrightarrow> nr_rejected n \<noteq> None"

record parsed_selection =
  ps_contract :: string
  ps_items :: "parsed_item list"
  ps_gaps :: "parsed_gap list"
  ps_bridges :: "parsed_bridge list"
  ps_normalization :: normalization

definition selected_span_ids :: "parsed_selection \<Rightarrow> string list" where
  "selected_span_ids sel = map pi_span_id (ps_items sel)"

datatype contract_error = BadExpected string | Rejected normalization | OffSchema

subsection \<open>Blank text\<close>

text \<open>How many bytes the white-space character at the front of a UTF-8 text has, 0 if there is none.\<close>

definition space_width :: "string \<Rightarrow> nat" where
  "space_width s =
     (case map of_char s of
        [] \<Rightarrow> 0
      | a # rest \<Rightarrow>
          if (9 \<le> a \<and> a \<le> 13) \<or> (28 \<le> a \<and> a \<le> 32) then (1 :: nat)
          else (case rest of
             [] \<Rightarrow> 0
           | b # tail \<Rightarrow>
               if a = 0xC2 \<and> (b = 0x85 \<or> b = 0xA0) then 2
               else (case tail of
                  [] \<Rightarrow> 0
                | (c :: nat) # _ \<Rightarrow>
                    if (a = 0xE1 \<and> b = 0x9A \<and> c = 0x80)
                      \<or> (a = 0xE2 \<and> b = 0x80 \<and> ((0x80 \<le> c \<and> c \<le> 0x8A) \<or> c = 0xA8 \<or> c = 0xA9 \<or> c = 0xAF))
                      \<or> (a = 0xE2 \<and> b = 0x81 \<and> c = 0x9F)
                      \<or> (a = 0xE3 \<and> b = 0x80 \<and> c = 0x80)
                    then 3 else 0)))"

text \<open>\<open>not s.strip()\<close>.\<close>

function blank :: "string \<Rightarrow> bool" where
  "blank s = (if s = [] then True else if space_width s = 0 then False
     else blank (drop (space_width s) s))"
  by pat_completeness auto
termination
  by (relation "measure length") auto

declare blank.simps [simp del]

subsection \<open>The wire form of a normalization record\<close>

definition py_get :: "string \<Rightarrow> pyval \<Rightarrow> pyval option" where
  "py_get k v = (case v of PDict kvs \<Rightarrow> map_of kvs (KStr k) | _ \<Rightarrow> None)"

definition normalization_fields :: "string list" where
  "normalization_fields =
     [''raw_count'', ''unique_count'', ''duplicate_count'', ''semantic_conflict_count'', ''rejected_reason'']"

datatype document_error = NotAnObject | FieldsNotClosed | BadCount string | BadReason

record normalization_document =
  nd_base :: normalization
  nd_was_repaired :: bool
  nd_was_rejected :: bool
  nd_strict_valid :: bool

definition read_count :: "string \<Rightarrow> pyval \<Rightarrow> document_error + int" where
  "read_count k v = (case py_get k v of
     Some (PInt i) \<Rightarrow> if i < 0 then Inl (BadCount k) else Inr i
   | _ \<Rightarrow> Inl (BadCount k))"

text \<open>Text with an unpaired surrogate is not blank; the model keeps only its lead byte.\<close>

definition read_reason :: "pyval \<Rightarrow> document_error + string option" where
  "read_reason v = (case py_get ''rejected_reason'' v of
     None \<Rightarrow> Inr None
   | Some PNone \<Rightarrow> Inr None
   | Some (PStr s) \<Rightarrow> if blank s then Inl BadReason else Inr (Some s)
   | Some PSurrogate \<Rightarrow> Inr (Some [CHR 0xED])
   | Some _ \<Rightarrow> Inl BadReason)"

definition canonical_normalization_document :: "pyval \<Rightarrow> document_error + normalization_document" where
  "canonical_normalization_document v =
     (case v of
        PDict kvs \<Rightarrow>
          if set (map fst kvs) \<noteq> set (map KStr normalization_fields) then Inl FieldsNotClosed
          else
            rbind (read_count ''raw_count'' v) (\<lambda>raw.
            rbind (read_count ''unique_count'' v) (\<lambda>unique.
            rbind (read_count ''duplicate_count'' v) (\<lambda>dups.
            rbind (read_count ''semantic_conflict_count'' v) (\<lambda>conflicts.
            rbind (read_reason v) (\<lambda>reason.
              let n = \<lparr>nr_raw = raw, nr_unique = unique, nr_duplicates = dups, nr_conflicts = conflicts,
                       nr_rejected = reason\<rparr>
              in Inr \<lparr>nd_base = n, nd_was_repaired = was_repaired n, nd_was_rejected = was_rejected n,
                      nd_strict_valid = (\<not> was_repaired n \<and> \<not> was_rejected n)\<rparr>)))))
      | _ \<Rightarrow> Inl NotAnObject)"

subsection \<open>The tally of repairs\<close>

record tally =
  ty_raw :: int
  ty_duplicates :: int
  ty_conflicts :: int

definition new_tally :: "int \<Rightarrow> tally" where
  "new_tally raw = \<lparr>ty_raw = raw, ty_duplicates = 0, ty_conflicts = 0\<rparr>"

definition tally_dedup :: "'a list \<Rightarrow> tally \<Rightarrow> 'a list \<times> tally" where
  "tally_dedup vs t =
     (let seen = dedup vs
      in (seen, t\<lparr>ty_duplicates := ty_duplicates t + int (length vs) - int (length seen)\<rparr>))"

definition tally_record :: "int \<Rightarrow> string option \<Rightarrow> tally \<Rightarrow> normalization" where
  "tally_record unique rejected t =
     \<lparr>nr_raw = ty_raw t, nr_unique = unique, nr_duplicates = ty_duplicates t,
      nr_conflicts = ty_conflicts t, nr_rejected = rejected\<rparr>"

definition reject_with :: "string \<Rightarrow> tally \<Rightarrow> contract_error + 'a" where
  "reject_with reason t = Inl (Rejected (tally_record 0 (Some reason) t))"

subsection \<open>The raw document\<close>

text \<open>\<open>len(v or [])\<close>: a falsy value counts nothing, a value without a length is a \<open>TypeError\<close>.
  The model does not keep the length of a text with an unpaired surrogate and counts it as one.\<close>

definition py_len_or :: "pyval \<Rightarrow> contract_error + int" where
  "py_len_or v =
     (case v of
        PNone \<Rightarrow> Inr 0
      | PBool b \<Rightarrow> if b then Inl OffSchema else Inr 0
      | PInt i \<Rightarrow> if i = 0 then Inr 0 else Inl OffSchema
      | PFloat f \<Rightarrow> if f = Finite 0 then Inr 0 else Inl OffSchema
      | PStr s \<Rightarrow> Inr (int (length s))
      | PBytes s \<Rightarrow> Inr (int (length s))
      | PList xs \<Rightarrow> Inr (int (length xs))
      | PTuple xs \<Rightarrow> Inr (int (length xs))
      | PSet xs \<Rightarrow> Inr (int (length xs))
      | PDict kvs \<Rightarrow> Inr (int (length kvs))
      | PSurrogate \<Rightarrow> Inr 1
      | PObject \<Rightarrow> Inl OffSchema)"

definition raw_element_count :: "pyval \<Rightarrow> contract_error + int" where
  "raw_element_count raw =
     (case raw of
        PDict kvs \<Rightarrow>
          rfold (\<lambda>k n. case map_of kvs (KStr k) of None \<Rightarrow> Inr n | Some v \<Rightarrow> rbind (py_len_or v) (\<lambda>m. Inr (n + m)))
            [''selected_ids'', ''selections'', ''gaps'', ''bridges''] 0
      | _ \<Rightarrow> Inl OffSchema)"

record raw_selection =
  rs_span_id :: string
  rs_role :: string
  rs_facets :: "string list"

record raw_gap =
  rg_facet_id :: string
  rg_queries :: "string list"

record raw_bridge =
  rb_text :: string
  rb_evidence :: "string list"

record raw_output =
  ro_contract :: string
  ro_selected :: "string list"
  ro_selections :: "raw_selection list"
  ro_gaps :: "raw_gap list"
  ro_bridges :: "raw_bridge list"

definition read_str :: "string \<Rightarrow> pyval \<Rightarrow> string option" where
  "read_str k v = (case py_get k v of Some (PStr s) \<Rightarrow> Some s | _ \<Rightarrow> None)"

definition read_list :: "(pyval \<Rightarrow> 'a option) \<Rightarrow> string \<Rightarrow> pyval \<Rightarrow> 'a list option" where
  "read_list f k v = (case py_get k v of
     None \<Rightarrow> Some [] | Some (PList xs) \<Rightarrow> those (map f xs) | Some _ \<Rightarrow> None)"

definition read_required :: "(pyval \<Rightarrow> 'a option) \<Rightarrow> string \<Rightarrow> pyval \<Rightarrow> 'a list option" where
  "read_required f k v = (if py_get k v = None then None else read_list f k v)"

definition as_str :: "pyval \<Rightarrow> string option" where
  "as_str v = (case v of PStr s \<Rightarrow> Some s | _ \<Rightarrow> None)"

definition decode_selection :: "pyval \<Rightarrow> raw_selection option" where
  "decode_selection v = Option.bind (read_str ''span_id'' v) (\<lambda>sid.
     Option.bind (read_str ''role'' v) (\<lambda>role.
     Option.bind (read_list as_str ''facet_ids'' v) (\<lambda>facets.
       Some \<lparr>rs_span_id = sid, rs_role = role, rs_facets = facets\<rparr>)))"

definition decode_gap :: "pyval \<Rightarrow> raw_gap option" where
  "decode_gap v = Option.bind (read_str ''facet_id'' v) (\<lambda>f.
     Option.bind (read_required as_str ''query_attempt_ids'' v) (\<lambda>qs.
       Some \<lparr>rg_facet_id = f, rg_queries = qs\<rparr>))"

definition decode_bridge :: "pyval \<Rightarrow> raw_bridge option" where
  "decode_bridge v = Option.bind (read_str ''text'' v) (\<lambda>t.
     Option.bind (read_required as_str ''evidence_ids'' v) (\<lambda>es.
       Some \<lparr>rb_text = t, rb_evidence = es\<rparr>))"

definition decode_output :: "pyval \<Rightarrow> raw_output option" where
  "decode_output v = Option.bind (read_str ''contract'' v) (\<lambda>c.
     Option.bind (read_list as_str ''selected_ids'' v) (\<lambda>ids.
     Option.bind (read_list decode_selection ''selections'' v) (\<lambda>sels.
     Option.bind (read_list decode_gap ''gaps'' v) (\<lambda>gaps.
     Option.bind (read_list decode_bridge ''bridges'' v) (\<lambda>bridges.
       Some \<lparr>ro_contract = c, ro_selected = ids, ro_selections = sels, ro_gaps = gaps,
             ro_bridges = bridges\<rparr>)))))"

definition validate_selector_output :: "(pyval \<Rightarrow> bool) \<Rightarrow> pyval \<Rightarrow> contract_error + unit" where
  "validate_selector_output schema_ok raw =
     (if schema_ok raw then Inr ()
      else rbind (raw_element_count raw) (\<lambda>n. reject_with ''schema'' (new_tally n)))"

definition check_expected :: "string option \<Rightarrow> pyval \<Rightarrow> contract_error + unit" where
  "check_expected expected raw =
     (case expected of
        None \<Rightarrow> Inr ()
      | Some c \<Rightarrow>
          if c \<notin> set p1_contracts then Inl (BadExpected c)
          else if py_get ''contract'' raw \<noteq> Some (PStr c)
          then rbind (case raw of PDict kvs \<Rightarrow> raw_element_count raw | _ \<Rightarrow> Inr 0)
                 (\<lambda>n. reject_with ''contract_mismatch'' (new_tally n))
          else Inr ())"

subsection \<open>Resolving labels\<close>

definition resolve_offered :: "candidate_set \<Rightarrow> string \<Rightarrow> tally \<Rightarrow> string \<Rightarrow> contract_error + string" where
  "resolve_offered C kind t label =
     (case resolve_label label kind C of
        Inr sid \<Rightarrow> Inr sid | Inl e \<Rightarrow> reject_with ''out_of_set_label'' t)"

subsection \<open>One role per span and facet\<close>

text \<open>
  \<open>by_span\<close> is a dict of dicts, both in insertion order; \<open>order\<close> lists its keys in the same order.
\<close>

definition relate ::
  "string \<times> string \<times> string option \<Rightarrow> (string \<times> relation list) list \<times> tally
     \<Rightarrow> contract_error + (string \<times> relation list) list \<times> tally" where
  "relate p s =
     (case p of (sid, facet, role) \<Rightarrow> case s of (by_span, t) \<Rightarrow>
        (let mine = (case map_of by_span sid of None \<Rightarrow> [] | Some rels \<Rightarrow> rels)
         in case map_of mine facet of
              None \<Rightarrow> Inr (dict_put sid (dict_put facet role mine) by_span, t)
            | Some prior \<Rightarrow>
                let t1 = t\<lparr>ty_duplicates := ty_duplicates t + 1\<rparr>
                in if prior \<noteq> role
                   then reject_with ''semantic_conflict'' (t1\<lparr>ty_conflicts := ty_conflicts t1 + 1\<rparr>)
                   else Inr (by_span, t1)))"

definition normalize_relations ::
  "(string \<times> string \<times> string option) list \<Rightarrow> tally \<Rightarrow> contract_error + parsed_item list \<times> tally" where
  "normalize_relations pairs t = rbind (rfold relate pairs ([], t)) (\<lambda>(by_span, t1).
     Inr (map (\<lambda>(sid, rels). \<lparr>pi_span_id = sid, pi_relations = rels\<rparr>) by_span, t1))"

subsection \<open>One gap per facet\<close>

definition add_gap :: "parsed_gap \<Rightarrow> (string \<times> string list) list \<times> tally \<Rightarrow> (string \<times> string list) list \<times> tally" where
  "add_gap g s =
     (case s of (by_facet, t) \<Rightarrow>
        (let known = map_of by_facet (pg_facet_id g);
             t1 = (if known = None then t else t\<lparr>ty_duplicates := ty_duplicates t + 1\<rparr>);
             qs = (case known of None \<Rightarrow> [] | Some qs \<Rightarrow> qs)
         in (dict_put (pg_facet_id g) (dedup (qs @ pg_query_ids g)) by_facet, t1)))"

definition normalize_gaps :: "parsed_gap list \<Rightarrow> tally \<Rightarrow> parsed_gap list \<times> tally" where
  "normalize_gaps gaps t =
     (case fold add_gap gaps ([], t) of (by_facet, t1) \<Rightarrow>
        (map (\<lambda>(f, qs). \<lparr>pg_facet_id = f, pg_query_ids = qs\<rparr>) by_facet, t1))"

definition check_facet_closure :: "parsed_selection \<Rightarrow> tally \<Rightarrow> contract_error + unit" where
  "check_facet_closure sel t =
     (let answered = concat (map item_facet_ids (ps_items sel)); declared = map pg_facet_id (ps_gaps sel)
      in if list_ex (\<lambda>f. f \<in> set declared) answered
         then reject_with ''semantic_conflict'' (t\<lparr>ty_conflicts := ty_conflicts t + 1\<rparr>)
         else Inr ())"

subsection \<open>Parsing\<close>

definition parse_pointers :: "candidate_set \<Rightarrow> raw_output \<Rightarrow> contract_error + parsed_selection" where
  "parse_pointers C ro =
     (let t = new_tally (int (length (ro_selected ro)))
      in rbind (rmap (resolve_offered C evidence_kind t) (ro_selected ro)) (\<lambda>resolved.
         let (ids, t1) = tally_dedup resolved t
         in Inr \<lparr>ps_contract = ro_contract ro, ps_items = map (\<lambda>sid. \<lparr>pi_span_id = sid, pi_relations = []\<rparr>) ids,
                 ps_gaps = [], ps_bridges = [],
                 ps_normalization = tally_record (int (length ids)) None t1\<rparr>))"

text \<open>The first loop: one triple for every facet of every selection, each label resolved as it comes.\<close>

definition collect_pairs ::
  "candidate_set \<Rightarrow> raw_selection \<Rightarrow> (string \<times> string \<times> string option) list \<times> tally
     \<Rightarrow> contract_error + (string \<times> string \<times> string option) list \<times> tally" where
  "collect_pairs C sel s =
     (case s of (pairs, t) \<Rightarrow>
        rbind (resolve_offered C evidence_kind t (rs_span_id sel)) (\<lambda>sid.
          let (fs, t1) = tally_dedup (rs_facets sel) t; facets = (if fs = [] then [overall_facet] else fs)
          in Inr (pairs @ map (\<lambda>f. (sid, f, Some (rs_role sel))) facets, t1)))"

definition collect_gap ::
  "candidate_set \<Rightarrow> raw_gap \<Rightarrow> parsed_gap list \<times> tally \<Rightarrow> contract_error + parsed_gap list \<times> tally" where
  "collect_gap C g s =
     (case s of (gaps, t) \<Rightarrow>
        rbind (rmap (resolve_offered C query_kind t) (rg_queries g)) (\<lambda>qs.
          let (ids, t1) = tally_dedup qs t
          in Inr (gaps @ [\<lparr>pg_facet_id = rg_facet_id g, pg_query_ids = ids\<rparr>], t1)))"

definition collect_bridge ::
  "candidate_set \<Rightarrow> raw_bridge \<Rightarrow> parsed_bridge list \<times> tally \<Rightarrow> contract_error + parsed_bridge list \<times> tally" where
  "collect_bridge C b s =
     (case s of (bridges, t) \<Rightarrow>
        rbind (rmap (resolve_offered C evidence_kind t) (rb_evidence b)) (\<lambda>es.
          let (evidence, t1) = tally_dedup es t; bridge = \<lparr>pb_text = rb_text b, pb_evidence = evidence\<rparr>
          in if evidence = [] then reject_with ''semantic_invalid'' t1
             else if blank (rb_text b) then reject_with ''semantic_invalid'' t1
             else if bridge \<in> set bridges then Inr (bridges, t1\<lparr>ty_duplicates := ty_duplicates t1 + 1\<rparr>)
             else Inr (bridges @ [bridge], t1)))"

definition parse_structured :: "candidate_set \<Rightarrow> raw_output \<Rightarrow> contract_error + parsed_selection" where
  "parse_structured C ro =
     (let t0 = new_tally (int (length (ro_selections ro) + length (ro_gaps ro) + length (ro_bridges ro)))
      in rbind (rfold (collect_pairs C) (ro_selections ro) ([], t0)) (\<lambda>(pairs, t1).
         rbind (normalize_relations pairs t1) (\<lambda>(its, t2).
         rbind (rfold (collect_gap C) (ro_gaps ro) ([], t2)) (\<lambda>(gaps0, t3).
         let (gaps, t4) = normalize_gaps gaps0 t3
         in rbind (if ro_contract ro = ''P1_BRIDGE'' then rfold (collect_bridge C) (ro_bridges ro) ([], t4)
                   else Inr ([], t4)) (\<lambda>(bridges, t5).
            let sel = \<lparr>ps_contract = ro_contract ro, ps_items = its, ps_gaps = gaps, ps_bridges = bridges,
                       ps_normalization = tally_record (int (length its + length gaps + length bridges)) None t5\<rparr>
            in rbind (check_facet_closure sel t5) (\<lambda>_. Inr sel))))))"

definition parse_selection ::
  "(pyval \<Rightarrow> bool) \<Rightarrow> pyval \<Rightarrow> candidate_set \<Rightarrow> string option \<Rightarrow> contract_error + parsed_selection" where
  "parse_selection schema_ok raw C expected =
     rbind (check_expected expected raw) (\<lambda>_.
     rbind (validate_selector_output schema_ok raw) (\<lambda>_.
       case decode_output raw of
         None \<Rightarrow> Inl OffSchema
       | Some ro \<Rightarrow>
           if ro_contract ro = ''P1_ID'' then parse_pointers C ro
           else if ro_contract ro \<in> set [''P1_TYPED'', ''P1_BRIDGE''] then parse_structured C ro
           else reject_with ''unknown_contract'' (new_tally 0)))"

end
