(* ===== verification/ContractsProps.thy ===== *)
theory ContractsProps
  imports Contracts
begin

text \<open>
  What a parsed selection guarantees, and that the roles it assigns do not depend on the order of the
  model's lines.
\<close>

subsection \<open>Folding the relations\<close>

definition rel_graph :: "(string \<times> relation list) list \<Rightarrow> (string \<times> string \<times> string option) set" where
  "rel_graph by_span = {(s, f, r). \<exists>rels. map_of by_span s = Some rels \<and> map_of rels f = Some r}"

text \<open>No span has two roles on one facet.\<close>

definition one_role :: "(string \<times> string \<times> string option) set \<Rightarrow> bool" where
  "one_role P \<longleftrightarrow> (\<forall>s f r r'. (s, f, r) \<in> P \<longrightarrow> (s, f, r') \<in> P \<longrightarrow> r = r')"

definition nested_ok :: "(string \<times> relation list) list \<Rightarrow> bool" where
  "nested_ok by_span \<longleftrightarrow> distinct (map fst by_span)
     \<and> (\<forall>s rels. map_of by_span s = Some rels \<longrightarrow> distinct (map fst rels) \<and> rels \<noteq> [])"

lemma one_role_graph: "one_role (rel_graph by_span)"
  by (auto simp: one_role_def rel_graph_def)

lemma dict_put_not_Nil [simp]: "dict_put k v d \<noteq> []"
  by (cases "(k, v, d)" rule: dict_put.cases) auto

lemma nested_ok_put:
  assumes "nested_ok by_span"
  shows "nested_ok (dict_put s (dict_put f r (case map_of by_span s of None \<Rightarrow> [] | Some rels \<Rightarrow> rels)) by_span)"
  using assms by (auto simp: nested_ok_def split: option.splits)

lemma rel_graph_put:
  assumes "map_of (case map_of by_span s of None \<Rightarrow> [] | Some rels \<Rightarrow> rels) f = None"
  shows "rel_graph (dict_put s (dict_put f r (case map_of by_span s of None \<Rightarrow> [] | Some rels \<Rightarrow> rels)) by_span)
    = insert (s, f, r) (rel_graph by_span)"
  using assms by (auto simp: rel_graph_def split: option.splits if_splits)

lemma relations_folded:
  assumes "nested_ok by_span"
  shows "if one_role (rel_graph by_span \<union> set pairs)
    then \<exists>by' t'. rfold relate pairs (by_span, t) = Inr (by', t') \<and> nested_ok by'
           \<and> rel_graph by' = rel_graph by_span \<union> set pairs \<and> ty_conflicts t' = ty_conflicts t
    else \<exists>n. rfold relate pairs (by_span, t) = Inl (Rejected n)"
  using assms
proof (induction pairs arbitrary: by_span t)
  case Nil
  then show ?case by (simp add: one_role_graph)
next
  case (Cons p pairs)
  obtain s f r where p: "p = (s, f, r)" by (cases p)
  let ?mine = "case map_of by_span s of None \<Rightarrow> [] | Some rels \<Rightarrow> rels"
  show ?case
  proof (cases "map_of ?mine f")
    case None
    let ?by = "dict_put s (dict_put f r ?mine) by_span"
    have step: "rfold relate (p # pairs) (by_span, t) = rfold relate pairs (?by, t)"
      using None by (simp add: relate_def p Let_def)
    have graph: "rel_graph ?by \<union> set pairs = rel_graph by_span \<union> set (p # pairs)"
      by (simp add: rel_graph_put [OF None] p)
    show ?thesis
      unfolding step by (rule Cons.IH [OF nested_ok_put [OF Cons.prems, of s f r], of t, unfolded graph])
  next
    case (Some prior)
    then have seen: "(s, f, prior) \<in> rel_graph by_span"
      by (auto simp: rel_graph_def split: option.splits)
    show ?thesis
    proof (cases "prior = r")
      case True
      then have same: "rel_graph by_span \<union> set (p # pairs) = rel_graph by_span \<union> set pairs"
        using seen by (auto simp: p)
      have step: "rfold relate (p # pairs) (by_span, t)
          = rfold relate pairs (by_span, t\<lparr>ty_duplicates := ty_duplicates t + 1\<rparr>)"
        using Some True by (simp add: relate_def p Let_def)
      have conf: "ty_conflicts (t\<lparr>ty_duplicates := ty_duplicates t + 1\<rparr>) = ty_conflicts t" by simp
      show ?thesis
        unfolding step same by (rule Cons.IH [OF Cons.prems, of "t\<lparr>ty_duplicates := ty_duplicates t + 1\<rparr>", unfolded conf])
    next
      case False
      then have "\<not> one_role (rel_graph by_span \<union> set (p # pairs))"
        using seen by (force simp: p one_role_def)
      moreover have "\<exists>n. rfold relate (p # pairs) (by_span, t) = Inl (Rejected n)"
        using Some False by (simp add: relate_def p Let_def reject_with_def)
      ultimately show ?thesis by simp
    qed
  qed
qed

definition item_triples :: "parsed_item list \<Rightarrow> (string \<times> string \<times> string option) set" where
  "item_triples its = {(pi_span_id it, f, r) | it f r. it \<in> set its \<and> (f, r) \<in> set (pi_relations it)}"

definition items_ok :: "parsed_item list \<Rightarrow> bool" where
  "items_ok its \<longleftrightarrow> distinct (map pi_span_id its) \<and> (\<forall>it \<in> set its. distinct (map fst (pi_relations it)))"

lemma normalize_relations_spec:
  "if one_role (set pairs)
   then \<exists>its t'. normalize_relations pairs t = Inr (its, t') \<and> items_ok its \<and> item_triples its = set pairs
          \<and> ty_conflicts t' = ty_conflicts t \<and> (\<forall>it \<in> set its. pi_relations it \<noteq> [])
   else \<exists>n. normalize_relations pairs t = Inl (Rejected n)"
proof -
  have empty: "nested_ok []" "rel_graph [] = {}" by (simp_all add: nested_ok_def rel_graph_def)
  show ?thesis
  proof (cases "one_role (set pairs)")
    case True
    with relations_folded [OF empty(1), of pairs t] obtain by_span t' where
      fold: "rfold relate pairs ([], t) = Inr (by_span, t')" and ok: "nested_ok by_span"
      and graph: "rel_graph by_span = set pairs" and t': "ty_conflicts t' = ty_conflicts t"
      by (auto simp: empty(2))
    let ?its = "map (\<lambda>(sid, rels). \<lparr>pi_span_id = sid, pi_relations = rels\<rparr>) by_span"
    have mem: "map_of by_span s = Some rels \<longleftrightarrow> (s, rels) \<in> set by_span" for s rels
      using ok by (auto simp: nested_ok_def)
    have inner: "distinct (map fst rels) \<and> rels \<noteq> []" if "(s, rels) \<in> set by_span" for s rels
      using ok that mem by (auto simp: nested_ok_def)
    have "item_triples ?its = {(s, f, r). \<exists>rels. (s, rels) \<in> set by_span \<and> (f, r) \<in> set rels}"
      by (force simp: item_triples_def)
    also have "\<dots> = rel_graph by_span"
      using inner by (fastforce simp: rel_graph_def mem)
    finally have "item_triples ?its = set pairs" using graph by simp
    moreover have "items_ok ?its"
      using ok inner by (auto simp: items_ok_def nested_ok_def comp_def split_beta)
    moreover have "\<forall>it \<in> set ?its. pi_relations it \<noteq> []" using inner by auto
    ultimately show ?thesis using True fold t' by (simp add: normalize_relations_def)
  next
    case False
    with relations_folded [OF empty(1), of pairs t] show ?thesis
      by (auto simp: empty(2) normalize_relations_def)
  qed
qed

subsection \<open>Collecting the triples\<close>

text \<open>The triples a selection line contributes once its label resolves to \<open>sid\<close>.\<close>

definition line_triples :: "string \<Rightarrow> raw_selection \<Rightarrow> (string \<times> string \<times> string option) set" where
  "line_triples sid sel = (\<lambda>f. (sid, f, Some (rs_role sel))) `
     (if rs_facets sel = [] then {overall_facet} else set (rs_facets sel))"

definition all_triples :: "candidate_set \<Rightarrow> raw_selection set \<Rightarrow> (string \<times> string \<times> string option) set" where
  "all_triples C sels = (\<Union>sel \<in> sels. \<Union>sid \<in> {sid. resolve_label (rs_span_id sel) evidence_kind C = Inr sid}.
     line_triples sid sel)"

definition resolvable :: "candidate_set \<Rightarrow> string \<Rightarrow> string \<Rightarrow> bool" where
  "resolvable C kind label \<longleftrightarrow> (\<exists>sid. resolve_label label kind C = Inr sid)"

lemma dedup_Nil_iff [simp]: "dedup xs = [] \<longleftrightarrow> xs = []"
  by (metis set_dedup set_empty)

lemma pairs_collected:
  "if \<forall>sel \<in> set sels. resolvable C evidence_kind (rs_span_id sel)
   then \<exists>pairs' t'. rfold (collect_pairs C) sels (pairs, t) = Inr (pairs', t')
          \<and> set pairs' = set pairs \<union> all_triples C (set sels) \<and> ty_conflicts t' = ty_conflicts t
   else \<exists>n. rfold (collect_pairs C) sels (pairs, t) = Inl (Rejected n)"
proof (induction sels arbitrary: pairs t)
  case Nil
  then show ?case by (simp add: all_triples_def)
next
  case (Cons sel sels)
  show ?case
  proof (cases "resolve_label (rs_span_id sel) evidence_kind C")
    case (Inl e)
    then show ?thesis
      by (auto simp: collect_pairs_def resolve_offered_def reject_with_def resolvable_def)
  next
    case (Inr sid)
    let ?t1 = "snd (tally_dedup (rs_facets sel) t)"
    let ?facets = "if rs_facets sel = [] then [overall_facet] else dedup (rs_facets sel)"
    let ?new = "map (\<lambda>f. (sid, f, Some (rs_role sel))) ?facets"
    have step: "collect_pairs C sel (pairs, t) = Inr (pairs @ ?new, ?t1)"
      using Inr by (simp add: collect_pairs_def resolve_offered_def tally_dedup_def Let_def)
    have run: "rfold (collect_pairs C) (sel # sels) (pairs, t) = rfold (collect_pairs C) sels (pairs @ ?new, ?t1)"
      by (simp add: step)
    have "set ?new = line_triples sid sel" by (simp add: line_triples_def)
    moreover have "all_triples C (set (sel # sels)) = line_triples sid sel \<union> all_triples C (set sels)"
      using Inr by (auto simp: all_triples_def)
    ultimately have eq: "set (pairs @ ?new) \<union> all_triples C (set sels) = set pairs \<union> all_triples C (set (sel # sels))"
      by (simp add: Un_assoc)
    have conf: "ty_conflicts ?t1 = ty_conflicts t" by (simp add: tally_dedup_def Let_def)
    have all: "(\<forall>x \<in> set (sel # sels). resolvable C evidence_kind (rs_span_id x))
        = (\<forall>x \<in> set sels. resolvable C evidence_kind (rs_span_id x))"
      using Inr by (simp add: resolvable_def)
    show ?thesis
      unfolding run all by (rule Cons.IH [of "pairs @ ?new" ?t1, unfolded eq conf])
  qed
qed

subsection \<open>The order of the lines\<close>

text \<open>The rest of the parse, from the items on.\<close>

definition parse_bridges :: "candidate_set \<Rightarrow> raw_output \<Rightarrow> tally \<Rightarrow> contract_error + parsed_bridge list \<times> tally" where
  "parse_bridges C ro t =
     (if ro_contract ro = ''P1_BRIDGE'' then rfold (collect_bridge C) (ro_bridges ro) ([], t) else Inr ([], t))"

definition close_parse ::
  "raw_output \<Rightarrow> parsed_item list \<Rightarrow> parsed_gap list \<Rightarrow> parsed_bridge list \<Rightarrow> tally
     \<Rightarrow> contract_error + parsed_selection" where
  "close_parse ro its gaps bridges t =
     (let sel = \<lparr>ps_contract = ro_contract ro, ps_items = its, ps_gaps = gaps, ps_bridges = bridges,
                ps_normalization = tally_record (int (length its + length gaps + length bridges)) None t\<rparr>
      in rbind (check_facet_closure sel t) (\<lambda>_. Inr sel))"

definition parse_rest :: "candidate_set \<Rightarrow> raw_output \<Rightarrow> parsed_item list \<Rightarrow> tally \<Rightarrow> contract_error + parsed_selection" where
  "parse_rest C ro its t2 =
     rbind (rfold (collect_gap C) (ro_gaps ro) ([], t2)) (\<lambda>(gaps0, t3).
     rbind (parse_bridges C ro (snd (normalize_gaps gaps0 t3))) (\<lambda>(bridges, t5).
       close_parse ro its (fst (normalize_gaps gaps0 t3)) bridges t5))"

definition lines_ok :: "candidate_set \<Rightarrow> raw_selection set \<Rightarrow> bool" where
  "lines_ok C sels \<longleftrightarrow> (\<forall>sel \<in> sels. resolvable C evidence_kind (rs_span_id sel)) \<and> one_role (all_triples C sels)"

lemma parse_structured_split:
  "if lines_ok C (set (ro_selections ro))
   then \<exists>its t2. parse_structured C ro = parse_rest C ro its t2 \<and> items_ok its
          \<and> item_triples its = all_triples C (set (ro_selections ro)) \<and> ty_conflicts t2 = 0
          \<and> (\<forall>it \<in> set its. pi_relations it \<noteq> [])
   else \<exists>n. parse_structured C ro = Inl (Rejected n)"
proof -
  let ?t0 = "new_tally (int (length (ro_selections ro) + length (ro_gaps ro) + length (ro_bridges ro)))"
  have body: "parse_structured C ro = rbind (rfold (collect_pairs C) (ro_selections ro) ([], ?t0)) (\<lambda>(pairs, t1).
         rbind (normalize_relations pairs t1) (\<lambda>(its, t2). parse_rest C ro its t2))"
    by (simp add: parse_structured_def parse_rest_def parse_bridges_def close_parse_def split_beta Let_def)
  note collected = pairs_collected [of "ro_selections ro" C "[]" ?t0]
  show ?thesis
  proof (cases "\<forall>sel \<in> set (ro_selections ro). resolvable C evidence_kind (rs_span_id sel)")
    case True
    with collected obtain pairs t1 where 1: "rfold (collect_pairs C) (ro_selections ro) ([], ?t0) = Inr (pairs, t1)"
      "set pairs = all_triples C (set (ro_selections ro))" "ty_conflicts t1 = 0"
      by (auto simp: new_tally_def)
    show ?thesis
    proof (cases "one_role (all_triples C (set (ro_selections ro)))")
      case one: True
      with normalize_relations_spec [of pairs t1] 1 obtain its t2 where
        "normalize_relations pairs t1 = Inr (its, t2)" "items_ok its"
        "item_triples its = all_triples C (set (ro_selections ro))" "ty_conflicts t2 = 0"
        "\<forall>it \<in> set its. pi_relations it \<noteq> []" by auto
      with True one 1(1) show ?thesis by (auto simp: body lines_ok_def)
    next
      case False
      with normalize_relations_spec [of pairs t1] 1 True show ?thesis
        by (auto simp: body lines_ok_def)
    qed
  next
    case False
    with collected show ?thesis by (auto simp: body lines_ok_def)
  qed
qed

lemma answered_triples:
  "set (concat (map item_facet_ids its)) = {f. f \<noteq> overall_facet \<and> (\<exists>s r. (s, f, r) \<in> item_triples its)}"
  by (force simp: item_facet_ids_def item_triples_def)

text \<open>Two steps agree when both are refused, or both return the same value whatever their tallies say.\<close>

definition agree :: "'e + 'a \<times> 't \<Rightarrow> 'e + 'a \<times> 't \<Rightarrow> bool" where
  "agree x y \<longleftrightarrow> (case (x, y) of (Inl e, Inl e') \<Rightarrow> True | (Inr (a, t), Inr (b, t')) \<Rightarrow> a = b | _ \<Rightarrow> False)"

lemma agree_simps [simp]:
  "agree (Inl e) (Inl e')" "agree (Inr (a, t)) (Inr (b, t')) \<longleftrightarrow> a = b"
  "\<not> agree (Inl e) (Inr p)" "\<not> agree (Inr p) (Inl e)"
  by (auto simp: agree_def split: prod.splits)

lemma agree_cases:
  assumes "agree x y"
  obtains e e' where "x = Inl e" "y = Inl e'" | a t t' where "x = Inr (a, t)" "y = Inr (a, t')"
  using assms by (cases x; cases y) (auto simp: agree_def split: prod.splits)

lemma agree_rfold:
  assumes "\<And>x a t t'. agree (f x (a, t)) (f x (a, t'))"
  shows "agree (rfold f xs (a, t)) (rfold f xs (a, t'))"
proof (induction xs arbitrary: a t t')
  case (Cons x xs)
  from assms [of x a t t'] show ?case by (cases rule: agree_cases) (simp_all add: Cons.IH)
qed simp

lemma resolve_offered_cases:
  "resolve_offered C kind t label = (case resolve_label label kind C of Inr sid \<Rightarrow> Inr sid
     | Inl e \<Rightarrow> Inl (Rejected (tally_record 0 (Some ''out_of_set_label'') t)))"
  by (simp add: resolve_offered_def reject_with_def split: sum.split)

lemma resolve_list:
  "(\<exists>ids. rmap (\<lambda>l. resolve_label l kind C) labels = Inr ids
      \<and> (\<forall>t. rmap (resolve_offered C kind t) labels = Inr ids))
   \<or> (\<forall>t. \<exists>n. rmap (resolve_offered C kind t) labels = Inl (Rejected n))"
proof (induction labels)
  case (Cons l labels)
  show ?case
  proof (cases "resolve_label l kind C")
    case (Inl e)
    then show ?thesis by (simp add: resolve_offered_cases)
  next
    case (Inr sid)
    then have head: "resolve_offered C kind t l = Inr sid" for t by (simp add: resolve_offered_cases)
    from Cons.IH show ?thesis
    proof
      assume "\<forall>t. \<exists>n. rmap (resolve_offered C kind t) labels = Inl (Rejected n)"
      then have "\<exists>n. rmap (resolve_offered C kind t) (l # labels) = Inl (Rejected n)" for t
        by (elim allE [of _ t] exE) (simp add: head)
      then show ?thesis by blast
    qed (auto simp: head Inr)
  qed
qed simp

lemma agree_collect_gap: "agree (collect_gap C g (gaps, t)) (collect_gap C g (gaps, t'))"
  using resolve_list [of query_kind C "rg_queries g"]
proof (elim disjE exE conjE)
  fix ids assume "\<forall>t. rmap (resolve_offered C query_kind t) (rg_queries g) = Inr ids"
  then show ?thesis by (simp add: collect_gap_def tally_dedup_def Let_def)
next
  assume no: "\<forall>t. \<exists>n. rmap (resolve_offered C query_kind t) (rg_queries g) = Inl (Rejected n)"
  obtain n m where "rmap (resolve_offered C query_kind t) (rg_queries g) = Inl (Rejected n)"
    "rmap (resolve_offered C query_kind t') (rg_queries g) = Inl (Rejected m)" using no by meson
  then show ?thesis by (simp add: collect_gap_def)
qed

lemma agree_collect_bridge: "agree (collect_bridge C b (bs, t)) (collect_bridge C b (bs, t'))"
  using resolve_list [of evidence_kind C "rb_evidence b"]
proof (elim disjE exE conjE)
  fix ids assume "\<forall>t. rmap (resolve_offered C evidence_kind t) (rb_evidence b) = Inr ids"
  then show ?thesis by (simp add: collect_bridge_def tally_dedup_def Let_def reject_with_def)
next
  assume no: "\<forall>t. \<exists>n. rmap (resolve_offered C evidence_kind t) (rb_evidence b) = Inl (Rejected n)"
  obtain n m where "rmap (resolve_offered C evidence_kind t) (rb_evidence b) = Inl (Rejected n)"
    "rmap (resolve_offered C evidence_kind t') (rb_evidence b) = Inl (Rejected m)" using no by meson
  then show ?thesis by (simp add: collect_bridge_def)
qed

lemma normalize_gaps_agree: "fst (normalize_gaps gs t) = fst (normalize_gaps gs t')"
proof -
  have "fst (fold add_gap gs (a, t)) = fst (fold add_gap gs (a, t'))" for a
    by (induction gs arbitrary: a t t') (auto simp: add_gap_def Let_def)
  from this [of "[]"] show ?thesis by (simp add: normalize_gaps_def split_beta)
qed

definition same_reading :: "contract_error + parsed_selection \<Rightarrow> contract_error + parsed_selection \<Rightarrow> bool" where
  "same_reading x y \<longleftrightarrow> (case (x, y) of
     (Inl e, Inl e') \<Rightarrow> True
   | (Inr a, Inr b) \<Rightarrow> item_triples (ps_items a) = item_triples (ps_items b)
        \<and> ps_gaps a = ps_gaps b \<and> ps_bridges a = ps_bridges b
   | _ \<Rightarrow> False)"

lemma close_parse_reading:
  assumes its: "item_triples its = item_triples its'" and c: "ro_contract ro' = ro_contract ro"
  shows "same_reading (close_parse ro its gaps bridges t) (close_parse ro' its' gaps bridges t')"
proof -
  have "set (concat (map item_facet_ids its)) = set (concat (map item_facet_ids its'))"
    unfolding answered_triples its ..
  then have "list_ex P (concat (map item_facet_ids its)) = list_ex P (concat (map item_facet_ids its'))" for P
    by (simp only: list_ex_iff)
  with its c show ?thesis
    by (simp add: close_parse_def check_facet_closure_def reject_with_def same_reading_def Let_def)
qed

lemma same_reading_Inl [simp]: "same_reading (Inl e) (Inl e')"
  by (simp add: same_reading_def)

lemma parse_rest_reading:
  assumes its: "item_triples its = item_triples its'"
    and same: "ro_contract ro' = ro_contract ro" "ro_gaps ro' = ro_gaps ro" "ro_bridges ro' = ro_bridges ro"
  shows "same_reading (parse_rest C ro its t) (parse_rest C ro' its' t')"
proof -
  have bridges: "parse_bridges C ro' u = parse_bridges C ro u" for u by (simp add: parse_bridges_def same)
  have "agree (rfold (collect_gap C) (ro_gaps ro) ([], t)) (rfold (collect_gap C) (ro_gaps ro) ([], t'))"
    by (rule agree_rfold) (rule agree_collect_gap)
  then show ?thesis
  proof (cases rule: agree_cases)
    case (2 gs u u')
    have gaps: "fst (normalize_gaps gs u') = fst (normalize_gaps gs u)" by (rule normalize_gaps_agree)
    let ?u = "snd (normalize_gaps gs u)" and ?u' = "snd (normalize_gaps gs u')"
    have rest: "parse_rest C ro its t = rbind (parse_bridges C ro ?u) (\<lambda>(bs, v). close_parse ro its (fst (normalize_gaps gs u)) bs v)"
      "parse_rest C ro' its' t' = rbind (parse_bridges C ro ?u') (\<lambda>(bs, v). close_parse ro' its' (fst (normalize_gaps gs u)) bs v)"
      using 2 gaps same by (simp_all add: parse_rest_def bridges)
    have "agree (parse_bridges C ro ?u) (parse_bridges C ro ?u')"
      by (simp add: parse_bridges_def agree_rfold agree_collect_bridge)
    then show ?thesis
      unfolding rest by (cases rule: agree_cases) (simp_all add: close_parse_reading [OF its same(1)])
  qed (use same in \<open>simp add: parse_rest_def\<close>)
qed

text \<open>
  C23. The reading of a typed or bridged selection does not depend on the order of its lines: for any
  rearrangement of the selection lines, either both outputs are rejected, or both parse, to the same
  (span, facet, role) relations, the same gaps and the same bridges.
\<close>

theorem line_order_irrelevant:
  assumes "mset lines = mset (ro_selections ro)"
  shows "same_reading (parse_structured C ro) (parse_structured C (ro\<lparr>ro_selections := lines\<rparr>))"
proof -
  let ?ro = "ro\<lparr>ro_selections := lines\<rparr>"
  have sets: "set (ro_selections ?ro) = set (ro_selections ro)" using mset_eq_setD [OF assms] by simp
  note split = parse_structured_split [of C ro] parse_structured_split [of C ?ro, unfolded sets]
  show ?thesis
  proof (cases "lines_ok C (set (ro_selections ro))")
    case True
    note both = split(1) [unfolded if_P [OF True]] split(2) [unfolded if_P [OF True]]
    from both(1) obtain its t where 1: "parse_structured C ro = parse_rest C ro its t"
      "item_triples its = all_triples C (set (ro_selections ro))" by blast
    from both(2) obtain its' t' where 2: "parse_structured C ?ro = parse_rest C ?ro its' t'"
      "item_triples its' = all_triples C (set (ro_selections ro))" by blast
    show ?thesis unfolding 1(1) 2(1) by (rule parse_rest_reading) (simp_all add: 1(2) 2(2))
  next
    case False
    from split(1) [unfolded if_not_P [OF False]] split(2) [unfolded if_not_P [OF False]]
    obtain n m where "parse_structured C ro = Inl (Rejected n)" "parse_structured C ?ro = Inl (Rejected m)" by blast
    then show ?thesis by simp
  qed
qed

subsection \<open>What a parsed selection guarantees\<close>

definition gap_ok :: "candidate_set \<Rightarrow> parsed_gap \<Rightarrow> bool" where
  "gap_ok C g \<longleftrightarrow> distinct (pg_query_ids g) \<and> (\<forall>q \<in> set (pg_query_ids g). \<exists>l. resolve_label l query_kind C = Inr q)"

definition bridge_ok :: "candidate_set \<Rightarrow> parsed_bridge \<Rightarrow> bool" where
  "bridge_ok C b \<longleftrightarrow> pb_evidence b \<noteq> [] \<and> distinct (pb_evidence b) \<and> \<not> blank (pb_text b)
     \<and> (\<forall>e \<in> set (pb_evidence b). \<exists>l. resolve_label l evidence_kind C = Inr e)"

definition selection_ok :: "candidate_set \<Rightarrow> parsed_selection \<Rightarrow> bool" where
  "selection_ok C sel \<longleftrightarrow>
     items_ok (ps_items sel)
     \<and> (\<forall>it \<in> set (ps_items sel). \<exists>l. resolve_label l evidence_kind C = Inr (pi_span_id it))
     \<and> (\<forall>it \<in> set (ps_items sel). (pi_relations it = []) = (ps_contract sel = ''P1_ID''))
     \<and> distinct (map pg_facet_id (ps_gaps sel)) \<and> list_all (gap_ok C) (ps_gaps sel)
     \<and> distinct (ps_bridges sel) \<and> list_all (bridge_ok C) (ps_bridges sel)
     \<and> (ps_bridges sel \<noteq> [] \<longrightarrow> ps_contract sel = ''P1_BRIDGE'')
     \<and> (\<forall>it \<in> set (ps_items sel). \<forall>f \<in> set (item_facet_ids it). f \<notin> pg_facet_id ` set (ps_gaps sel))
     \<and> \<not> was_rejected (ps_normalization sel) \<and> nr_conflicts (ps_normalization sel) = 0
     \<and> nr_unique (ps_normalization sel) = int (length (ps_items sel) + length (ps_gaps sel) + length (ps_bridges sel))"

lemma resolve_offered_list_Inr:
  assumes "rmap (resolve_offered C kind t) labels = Inr ids" and "x \<in> set ids"
  shows "\<exists>l. resolve_label l kind C = Inr x"
  using assms
proof (induction labels arbitrary: ids)
  case (Cons l labels)
  then show ?case by (cases "resolve_label l kind C") (auto simp: result_elims resolve_offered_cases)
qed simp

lemma gaps_collected:
  assumes "rfold (collect_gap C) gs ([], t) = Inr (gaps, t')"
  shows "list_all (gap_ok C) gaps \<and> ty_conflicts t' = ty_conflicts t"
proof -
  have "list_all (gap_ok C) (fst (gaps, t')) \<and> ty_conflicts (snd (gaps, t')) = ty_conflicts t"
  proof (rule rfold_invariant [OF _ _ assms])
    fix g and s s' :: "parsed_gap list \<times> tally"
    assume s: "list_all (gap_ok C) (fst s) \<and> ty_conflicts (snd s) = ty_conflicts t" and step: "collect_gap C g s = Inr s'"
    obtain gaps u where [simp]: "s = (gaps, u)" by (cases s)
    obtain qs where qs: "rmap (resolve_offered C query_kind u) (rg_queries g) = Inr qs"
      and s': "s' = (gaps @ [\<lparr>pg_facet_id = rg_facet_id g, pg_query_ids = dedup qs\<rparr>], snd (tally_dedup qs u))"
      using step by (auto simp: collect_gap_def result_elims tally_dedup_def Let_def)
    have "gap_ok C \<lparr>pg_facet_id = rg_facet_id g, pg_query_ids = dedup qs\<rparr>"
      using resolve_offered_list_Inr [OF qs] by (simp add: gap_ok_def)
    with s show "list_all (gap_ok C) (fst s') \<and> ty_conflicts (snd s') = ty_conflicts t"
      by (simp add: s' tally_dedup_def Let_def)
  qed simp
  then show ?thesis by simp
qed

lemma bridges_collected:
  assumes "parse_bridges C ro t = Inr (bridges, t')"
  shows "list_all (bridge_ok C) bridges \<and> distinct bridges \<and> ty_conflicts t' = ty_conflicts t
    \<and> (bridges \<noteq> [] \<longrightarrow> ro_contract ro = ''P1_BRIDGE'')"
proof (cases "ro_contract ro = ''P1_BRIDGE''")
  case True
  with assms have fold: "rfold (collect_bridge C) (ro_bridges ro) ([], t) = Inr (bridges, t')"
    by (simp add: parse_bridges_def)
  let ?P = "\<lambda>s :: parsed_bridge list \<times> tally. list_all (bridge_ok C) (fst s) \<and> distinct (fst s) \<and> ty_conflicts (snd s) = ty_conflicts t"
  have "?P (bridges, t')"
  proof (rule rfold_invariant [OF _ _ fold])
    fix b and s s' :: "parsed_bridge list \<times> tally"
    assume s: "?P s" and step: "collect_bridge C b s = Inr s'"
    obtain bs u where [simp]: "s = (bs, u)" by (cases s)
    obtain es where es: "rmap (resolve_offered C evidence_kind u) (rb_evidence b) = Inr es"
      using step by (auto simp: collect_bridge_def result_elims)
    have "bridge_ok C \<lparr>pb_text = rb_text b, pb_evidence = dedup es\<rparr>" if "es \<noteq> []" "\<not> blank (rb_text b)"
      using resolve_offered_list_Inr [OF es] that by (simp add: bridge_ok_def)
    with s step es show "?P s'"
      by (auto simp: collect_bridge_def tally_dedup_def Let_def reject_with_def split: if_splits)
  qed simp
  with True show ?thesis by simp
qed (use assms in \<open>simp add: parse_bridges_def\<close>)

definition facets_ok :: "candidate_set \<Rightarrow> (string \<times> string list) list \<Rightarrow> bool" where
  "facets_ok C by_facet \<longleftrightarrow> distinct (map fst by_facet)
     \<and> (\<forall>f qs. map_of by_facet f = Some qs \<longrightarrow> gap_ok C \<lparr>pg_facet_id = f, pg_query_ids = qs\<rparr>)"

lemma facets_ok_put:
  assumes "facets_ok C by_facet" and "gap_ok C \<lparr>pg_facet_id = f, pg_query_ids = qs\<rparr>"
  shows "facets_ok C (dict_put f qs by_facet)"
  using assms by (simp add: facets_ok_def)

lemma add_gap_ok:
  assumes "facets_ok C by_facet" and "gap_ok C g"
  shows "facets_ok C (fst (add_gap g (by_facet, t))) \<and> ty_conflicts (snd (add_gap g (by_facet, t))) = ty_conflicts t"
proof (cases "map_of by_facet (pg_facet_id g)")
  case None
  have "gap_ok C \<lparr>pg_facet_id = pg_facet_id g, pg_query_ids = dedup (pg_query_ids g)\<rparr>"
    using assms(2) by (simp add: gap_ok_def)
  from facets_ok_put [OF assms(1) this] None show ?thesis by (simp add: add_gap_def Let_def)
next
  case (Some qs)
  with assms(1) have "gap_ok C \<lparr>pg_facet_id = pg_facet_id g, pg_query_ids = qs\<rparr>" by (simp add: facets_ok_def)
  with assms(2) have "gap_ok C \<lparr>pg_facet_id = pg_facet_id g, pg_query_ids = dedup (qs @ pg_query_ids g)\<rparr>"
    by (auto simp: gap_ok_def)
  from facets_ok_put [OF assms(1) this] Some show ?thesis by (simp add: add_gap_def Let_def)
qed

lemma gaps_normalized:
  assumes "list_all (gap_ok C) gs"
  shows "list_all (gap_ok C) (fst (normalize_gaps gs t)) \<and> distinct (map pg_facet_id (fst (normalize_gaps gs t)))
    \<and> ty_conflicts (snd (normalize_gaps gs t)) = ty_conflicts t"
proof -
  have "facets_ok C (fst (fold add_gap gs s)) \<and> ty_conflicts (snd (fold add_gap gs s)) = ty_conflicts (snd s)"
    if "facets_ok C (fst s)" for s
    using assms that
  proof (induction gs arbitrary: s)
    case (Cons g gs)
    with add_gap_ok [of C "fst s" g "snd s"] Cons.IH [of "add_gap g s"] show ?case by simp
  qed simp
  from this [of "([], t)"]
  have P: "facets_ok C (fst (fold add_gap gs ([], t)))" "ty_conflicts (snd (fold add_gap gs ([], t))) = ty_conflicts t"
    by (simp_all add: facets_ok_def)
  obtain by_facet u where fold: "fold add_gap gs ([], t) = (by_facet, u)" by (cases "fold add_gap gs ([], t)")
  have "gap_ok C \<lparr>pg_facet_id = f, pg_query_ids = qs\<rparr>" if "(f, qs) \<in> set by_facet" for f qs
    using P(1) that by (simp add: fold facets_ok_def)
  moreover have "distinct (map fst by_facet)" using P(1) by (simp add: fold facets_ok_def)
  ultimately show ?thesis using P(2)
    by (auto simp: normalize_gaps_def fold list_all_iff comp_def split_beta)
qed

lemma item_from_triple:
  assumes "it \<in> set its" and "pi_relations it \<noteq> []"
  shows "\<exists>f r. (pi_span_id it, f, r) \<in> item_triples its"
  using assms by (cases "pi_relations it") (auto simp: item_triples_def, metis list.set_intros(1))

lemma parse_structured_ok:
  assumes "parse_structured C ro = Inr sel" and c: "ro_contract ro \<noteq> ''P1_ID''"
  shows "selection_ok C sel \<and> ps_contract sel = ro_contract ro"
proof -
  note split = parse_structured_split [of C ro]
  show ?thesis
  proof (cases "lines_ok C (set (ro_selections ro))")
    case True
    from split [unfolded if_P [OF True]] obtain its t where
      parse: "parse_structured C ro = parse_rest C ro its t" and its: "items_ok its"
      "item_triples its = all_triples C (set (ro_selections ro))" "\<forall>it \<in> set its. pi_relations it \<noteq> []"
      and t: "ty_conflicts t = 0" by blast
    from assms(1) obtain gs u bridges v where
      gs: "rfold (collect_gap C) (ro_gaps ro) ([], t) = Inr (gs, u)"
      and bridges: "parse_bridges C ro (snd (normalize_gaps gs u)) = Inr (bridges, v)"
      and close: "close_parse ro its (fst (normalize_gaps gs u)) bridges v = Inr sel"
      by (auto simp: parse parse_rest_def result_elims)
    let ?gaps = "fst (normalize_gaps gs u)"
    note gaps = gaps_normalized [of C gs u, OF gaps_collected [OF gs, THEN conjunct1]]
    have v: "ty_conflicts v = 0" using bridges_collected [OF bridges] gaps gaps_collected [OF gs] t by simp
    have sel: "sel = \<lparr>ps_contract = ro_contract ro, ps_items = its, ps_gaps = ?gaps, ps_bridges = bridges,
                ps_normalization = tally_record (int (length its + length ?gaps + length bridges)) None v\<rparr>"
      and closed: "\<not> list_ex (\<lambda>f. f \<in> set (map pg_facet_id ?gaps)) (concat (map item_facet_ids its))"
      using close by (auto simp: close_parse_def check_facet_closure_def reject_with_def Let_def result_elims split: if_splits)
    have "\<exists>l. resolve_label l evidence_kind C = Inr (pi_span_id it)" if it: "it \<in> set its" for it
    proof -
      obtain f r where "(pi_span_id it, f, r) \<in> all_triples C (set (ro_selections ro))"
        using item_from_triple [OF it] its(2,3) it by blast
      then show ?thesis by (auto simp: all_triples_def line_triples_def)
    qed
    moreover have "f \<notin> pg_facet_id ` set ?gaps" if "it \<in> set its" "f \<in> set (item_facet_ids it)" for it f
      using closed that by (auto simp: list_ex_iff)
    ultimately show ?thesis
      using its gaps bridges_collected [OF bridges] v c
      by (simp add: sel selection_ok_def was_rejected_def tally_record_def)
  next
    case False
    from split [unfolded if_not_P [OF False]] assms(1) show ?thesis by auto
  qed
qed

subsection \<open>The normalization record\<close>

text \<open>Labels of a list that resolve to the same thing are repeats; \<open>distinct_refs\<close> counts the things.\<close>

definition distinct_refs :: "candidate_set \<Rightarrow> string \<Rightarrow> string list \<Rightarrow> int" where
  "distinct_refs C kind labels = int (card ((\<lambda>l. resolve_label l kind C) ` set labels))"

definition elements_read :: "raw_output \<Rightarrow> int" where
  "elements_read ro = int (if ro_contract ro = ''P1_ID'' then length (ro_selected ro)
     else length (ro_selections ro) + length (ro_gaps ro) + length (ro_bridges ro))"

text \<open>
  What was read less what was kept: the (span, facet) mentions of the selection lines (a line without a
  facet mentions the overall one), the gap lines and their queries, the bridge lines and their evidence.
\<close>

definition repeats_dropped :: "candidate_set \<Rightarrow> raw_output \<Rightarrow> parsed_selection \<Rightarrow> int" where
  "repeats_dropped C ro sel =
     (if ro_contract ro = ''P1_ID'' then int (length (ro_selected ro)) - int (length (ps_items sel))
      else (\<Sum>l\<leftarrow>ro_selections ro. int (max 1 (length (rs_facets l))))
           - (\<Sum>it\<leftarrow>ps_items sel. int (length (pi_relations it)))
         + (\<Sum>g\<leftarrow>ro_gaps ro. 1 + int (length (rg_queries g)) - distinct_refs C query_kind (rg_queries g))
           - int (length (ps_gaps sel))
         + (if ro_contract ro = ''P1_BRIDGE''
            then (\<Sum>b\<leftarrow>ro_bridges ro. 1 + int (length (rb_evidence b)) - distinct_refs C evidence_kind (rb_evidence b))
              - int (length (ps_bridges sel)) else 0))"

lemma tally_dedup_simps [simp]:
  "fst (tally_dedup vs t) = dedup vs"
  "ty_raw (snd (tally_dedup vs t)) = ty_raw t"
  "ty_duplicates (snd (tally_dedup vs t)) = ty_duplicates t + int (length vs) - int (card (set vs))"
  using distinct_card [OF distinct_dedup, of vs] by (simp_all add: tally_dedup_def Let_def)

lemma resolve_offered_refs:
  assumes "rmap (resolve_offered C kind t) labels = Inr ids"
  shows "length ids = length labels" and "int (card (set ids)) = distinct_refs C kind labels"
proof -
  have res: "list_all2 (\<lambda>l i. resolve_offered C kind t l = Inr i) labels ids"
    using assms by (simp add: rmap_Inr_iff)
  then show "length ids = length labels" by (simp add: list_all2_lengthD)
  have "map (\<lambda>l. resolve_label l kind C) labels = map Inr ids"
    using res by (induction rule: list_all2_induct) (auto simp: resolve_offered_cases split: sum.splits)
  then have "(\<lambda>l. resolve_label l kind C) ` set labels = Inr ` set ids" by (metis list.set_map)
  then show "int (card (set ids)) = distinct_refs C kind labels"
    by (simp add: distinct_refs_def card_image)
qed

lemma collect_pairs_count:
  assumes "rfold (collect_pairs C) ls (pairs, t) = Inr (pairs', t')"
  shows "ty_raw t' = ty_raw t \<and> ty_duplicates t' + int (length pairs')
    = ty_duplicates t + int (length pairs) + (\<Sum>l\<leftarrow>ls. int (max 1 (length (rs_facets l))))"
  using assms
proof (induction ls arbitrary: pairs t)
  case (Cons l ls)
  obtain sid where sid: "resolve_offered C evidence_kind t (rs_span_id l) = Inr sid"
    using Cons.prems by (auto simp: collect_pairs_def result_elims)
  let ?fs = "if dedup (rs_facets l) = [] then [overall_facet] else dedup (rs_facets l)"
  have "collect_pairs C l (pairs, t)
      = Inr (pairs @ map (\<lambda>f. (sid, f, Some (rs_role l))) ?fs, snd (tally_dedup (rs_facets l) t))"
    using sid by (simp add: collect_pairs_def split_beta Let_def)
  then have rest: "rfold (collect_pairs C) ls (pairs @ map (\<lambda>f. (sid, f, Some (rs_role l))) ?fs,
      snd (tally_dedup (rs_facets l) t)) = Inr (pairs', t')"
    using Cons.prems by simp
  have "int (length ?fs) = (if rs_facets l = [] then 1 else int (card (set (rs_facets l))))"
  proof -
    have "length (dedup (rs_facets l)) = card (set (rs_facets l))"
      using distinct_card [OF distinct_dedup, of "rs_facets l"] by simp
    moreover have "dedup (rs_facets l) = [] \<longleftrightarrow> rs_facets l = []"
      using set_dedup [of "rs_facets l"] by (metis set_empty2)
    ultimately show ?thesis by simp
  qed
  then show ?case using Cons.IH [OF rest] by (cases "rs_facets l") simp_all
qed simp

definition relation_total :: "(string \<times> relation list) list \<Rightarrow> int" where
  "relation_total by_span = (\<Sum>p\<leftarrow>by_span. int (length (snd p)))"

lemma length_dict_put: "length (dict_put k v d) = (if map_of d k = None then Suc (length d) else length d)"
  by (induction k v d rule: dict_put.induct) auto

lemma relation_total_put:
  "relation_total (dict_put s rels d)
    = relation_total d + int (length rels) - (case map_of d s of None \<Rightarrow> 0 | Some old \<Rightarrow> int (length old))"
  by (induction s rels d rule: dict_put.induct) (auto simp: relation_total_def)

lemma relate_count:
  assumes "rfold relate pairs (d, t) = Inr (d', t')"
  shows "ty_raw t' = ty_raw t
    \<and> ty_duplicates t' + relation_total d' = ty_duplicates t + relation_total d + int (length pairs)"
  using assms
proof (induction pairs arbitrary: d t)
  case (Cons p pairs)
  obtain s f r where p: "p = (s, f, r)" by (cases p)
  define mine where "mine = (case map_of d s of None \<Rightarrow> [] | Some rels \<Rightarrow> rels)"
  show ?case
  proof (cases "map_of mine f")
    case None
    have "relate p (d, t) = Inr (dict_put s (dict_put f r mine) d, t)"
      using None by (simp add: p relate_def mine_def)
    with Cons.prems have "rfold relate pairs (dict_put s (dict_put f r mine) d, t) = Inr (d', t')" by simp
    from Cons.IH [OF this] None show ?thesis
      by (simp add: relation_total_put length_dict_put mine_def split: option.splits)
  next
    case (Some prior)
    then have "relate p (d, t) = (if prior \<noteq> r
        then reject_with ''semantic_conflict'' (t\<lparr>ty_duplicates := ty_duplicates t + 1, ty_conflicts := ty_conflicts t + 1\<rparr>)
        else Inr (d, t\<lparr>ty_duplicates := ty_duplicates t + 1\<rparr>))"
      by (simp add: p relate_def mine_def [symmetric] Let_def)
    with Cons.prems have "rfold relate pairs (d, t\<lparr>ty_duplicates := ty_duplicates t + 1\<rparr>) = Inr (d', t')"
      by (simp add: reject_with_def split: if_splits)
    from Cons.IH [OF this] show ?thesis by simp
  qed
qed simp

lemma normalize_relations_count:
  assumes "normalize_relations pairs t = Inr (its, t')"
  shows "ty_raw t' = ty_raw t
    \<and> ty_duplicates t' + (\<Sum>it\<leftarrow>its. int (length (pi_relations it))) = ty_duplicates t + int (length pairs)"
proof -
  obtain d where d: "rfold relate pairs ([], t) = Inr (d, t')"
    and its: "its = map (\<lambda>(sid, rels). \<lparr>pi_span_id = sid, pi_relations = rels\<rparr>) d"
    using assms by (auto simp: normalize_relations_def result_elims)
  have "(\<Sum>it\<leftarrow>its. int (length (pi_relations it))) = relation_total d"
    by (simp add: its relation_total_def comp_def case_prod_unfold)
  with relate_count [OF d] show ?thesis by (simp add: relation_total_def)
qed

lemma collect_gap_count:
  assumes "rfold (collect_gap C) gs (gaps, t) = Inr (gaps', t')"
  shows "ty_raw t' = ty_raw t \<and> ty_duplicates t' + int (length gaps') = ty_duplicates t + int (length gaps)
    + (\<Sum>g\<leftarrow>gs. 1 + int (length (rg_queries g)) - distinct_refs C query_kind (rg_queries g))"
  using assms
proof (induction gs arbitrary: gaps t)
  case (Cons g gs)
  obtain qs where qs: "rmap (resolve_offered C query_kind t) (rg_queries g) = Inr qs"
    using Cons.prems by (auto simp: collect_gap_def result_elims)
  then have "collect_gap C g (gaps, t)
      = Inr (gaps @ [\<lparr>pg_facet_id = rg_facet_id g, pg_query_ids = dedup qs\<rparr>], snd (tally_dedup qs t))"
    by (simp add: collect_gap_def split_beta)
  with Cons.prems have "rfold (collect_gap C) gs (gaps @ [\<lparr>pg_facet_id = rg_facet_id g, pg_query_ids = dedup qs\<rparr>],
      snd (tally_dedup qs t)) = Inr (gaps', t')" by simp
  from Cons.IH [OF this] resolve_offered_refs [OF qs] show ?case by simp
qed simp

lemma normalize_gaps_count:
  "ty_raw (snd (normalize_gaps gaps t)) = ty_raw t
   \<and> ty_duplicates (snd (normalize_gaps gaps t)) + int (length (fst (normalize_gaps gaps t)))
       = ty_duplicates t + int (length gaps)"
proof -
  have "ty_raw (snd (fold add_gap gaps (d, t))) = ty_raw t
    \<and> ty_duplicates (snd (fold add_gap gaps (d, t))) + int (length (fst (fold add_gap gaps (d, t))))
        = ty_duplicates t + int (length d) + int (length gaps)" for d
    by (induction gaps arbitrary: d t) (auto simp: add_gap_def Let_def length_dict_put)
  from this [of "[]"] show ?thesis by (simp add: normalize_gaps_def split_beta)
qed

lemma collect_bridge_count:
  assumes "rfold (collect_bridge C) bs (bridges, t) = Inr (bridges', t')"
  shows "ty_raw t' = ty_raw t \<and> ty_duplicates t' + int (length bridges') = ty_duplicates t + int (length bridges)
    + (\<Sum>b\<leftarrow>bs. 1 + int (length (rb_evidence b)) - distinct_refs C evidence_kind (rb_evidence b))"
  using assms
proof (induction bs arbitrary: bridges t)
  case (Cons b bs)
  obtain es where es: "rmap (resolve_offered C evidence_kind t) (rb_evidence b) = Inr es"
    using Cons.prems by (auto simp: collect_bridge_def result_elims)
  let ?b = "\<lparr>pb_text = rb_text b, pb_evidence = dedup es\<rparr>" and ?t = "snd (tally_dedup es t)"
  obtain s where s: "collect_bridge C b (bridges, t) = Inr s" using Cons.prems by (auto simp: result_elims)
  then have "s = (if ?b \<in> set bridges
      then (bridges, ?t\<lparr>ty_duplicates := ty_duplicates ?t + 1\<rparr>) else (bridges @ [?b], ?t))"
    using es by (auto simp: collect_bridge_def split_beta reject_with_def Let_def split: if_splits)
  moreover have "rfold (collect_bridge C) bs s = Inr (bridges', t')" using Cons.prems s by simp
  ultimately have "rfold (collect_bridge C) bs (if ?b \<in> set bridges
      then (bridges, ?t\<lparr>ty_duplicates := ty_duplicates ?t + 1\<rparr>) else (bridges @ [?b], ?t)) = Inr (bridges', t')"
    by simp
  then consider "rfold (collect_bridge C) bs (bridges, ?t\<lparr>ty_duplicates := ty_duplicates ?t + 1\<rparr>) = Inr (bridges', t')"
    | "rfold (collect_bridge C) bs (bridges @ [?b], ?t) = Inr (bridges', t')"
    by (auto split: if_splits)
  then show ?case
    by cases (use Cons.IH resolve_offered_refs [OF es] in fastforce)+
qed simp

text \<open>The record of a selection that parsed is exact.\<close>

lemma structured_record:
  assumes "parse_structured C ro = Inr sel" and c: "ro_contract ro \<noteq> ''P1_ID''"
  shows "nr_raw (ps_normalization sel) = elements_read ro
    \<and> nr_duplicates (ps_normalization sel) = repeats_dropped C ro sel"
proof -
  let ?t0 = "new_tally (int (length (ro_selections ro) + length (ro_gaps ro) + length (ro_bridges ro)))"
  have whole: "parse_structured C ro = rbind (rfold (collect_pairs C) (ro_selections ro) ([], ?t0)) (\<lambda>(pairs, t1).
      rbind (normalize_relations pairs t1) (\<lambda>(its, t2). parse_rest C ro its t2))"
    by (simp add: parse_structured_def parse_rest_def parse_bridges_def close_parse_def split_beta Let_def)
  obtain pairs t1 its t2 gs t3 bs t5 where
    1: "rfold (collect_pairs C) (ro_selections ro) ([], ?t0) = Inr (pairs, t1)"
    and 2: "normalize_relations pairs t1 = Inr (its, t2)"
    and 3: "rfold (collect_gap C) (ro_gaps ro) ([], t2) = Inr (gs, t3)"
    and 4: "parse_bridges C ro (snd (normalize_gaps gs t3)) = Inr (bs, t5)"
    and 5: "close_parse ro its (fst (normalize_gaps gs t3)) bs t5 = Inr sel"
    using assms(1) unfolding whole parse_rest_def by (auto simp: result_elims)
  have sel: "ps_items sel = its" "ps_gaps sel = fst (normalize_gaps gs t3)" "ps_bridges sel = bs"
    "nr_raw (ps_normalization sel) = ty_raw t5" "nr_duplicates (ps_normalization sel) = ty_duplicates t5"
    using 5 by (auto simp: close_parse_def result_elims Let_def tally_record_def)
  have "ty_raw t5 = ty_raw (snd (normalize_gaps gs t3))
    \<and> ty_duplicates t5 = ty_duplicates (snd (normalize_gaps gs t3)) + (if ro_contract ro = ''P1_BRIDGE''
        then (\<Sum>b\<leftarrow>ro_bridges ro. 1 + int (length (rb_evidence b)) - distinct_refs C evidence_kind (rb_evidence b))
          - int (length bs) else 0)"
    using 4 collect_bridge_count [of C "ro_bridges ro" "[]" "snd (normalize_gaps gs t3)" bs t5]
    by (auto simp: parse_bridges_def split: if_splits)
  with collect_pairs_count [OF 1] normalize_relations_count [OF 2] collect_gap_count [OF 3]
    normalize_gaps_count [of gs t3] c
  show ?thesis by (simp add: sel elements_read_def repeats_dropped_def new_tally_def)
qed

lemma parse_pointers_ok:
  assumes "parse_pointers C ro = Inr sel" and c: "ro_contract ro = ''P1_ID''"
  shows "selection_ok C sel \<and> ps_contract sel = ro_contract ro
    \<and> nr_raw (ps_normalization sel) = elements_read ro
    \<and> nr_duplicates (ps_normalization sel) = repeats_dropped C ro sel"
proof -
  let ?t = "new_tally (int (length (ro_selected ro)))"
  obtain ids where ids: "rmap (resolve_offered C evidence_kind ?t) (ro_selected ro) = Inr ids"
    and sel: "sel = \<lparr>ps_contract = ro_contract ro, ps_items = map (\<lambda>sid. \<lparr>pi_span_id = sid, pi_relations = []\<rparr>) (dedup ids),
      ps_gaps = [], ps_bridges = [],
      ps_normalization = tally_record (int (length (dedup ids))) None (snd (tally_dedup ids ?t))\<rparr>"
    using assms(1) by (auto simp: parse_pointers_def result_elims tally_dedup_def Let_def)
  have "length (dedup ids) = card (set ids)" using distinct_card [OF distinct_dedup, of ids] by simp
  with resolve_offered_list_Inr [OF ids] resolve_offered_refs(1) [OF ids] c show ?thesis
    by (auto simp: sel selection_ok_def items_ok_def comp_def item_facet_ids_def was_rejected_def tally_record_def
        elements_read_def repeats_dropped_def new_tally_def tally_dedup_def Let_def)
qed

text \<open>
  C22. A selection that parses is well formed whatever the model wrote: its contract is the one that was
  asked for; the spans are distinct, offered, and have one role per facet; the gaps have distinct facets,
  none of them answered, and name offered queries; the bridges are distinct, not blank and bound to
  offered spans; and the normalization record is exact: it counts the elements that were read, those that
  were kept, and every repeat that was dropped (mentions of a span under a facet, gap and bridge lines,
  and labels within a line that resolve to the same thing), with no conflict.
\<close>

theorem parsed_selection_ok:
  assumes "parse_selection schema_ok raw C expected = Inr sel"
  shows "selection_ok C sel \<and> schema_ok raw \<and> py_get ''contract'' raw = Some (PStr (ps_contract sel))
    \<and> ps_contract sel \<in> set p1_contracts \<and> (\<forall>c. expected = Some c \<longrightarrow> ps_contract sel = c)
    \<and> (\<exists>ro. decode_output raw = Some ro \<and> nr_raw (ps_normalization sel) = elements_read ro
         \<and> nr_duplicates (ps_normalization sel) = repeats_dropped C ro sel)"
proof -
  obtain ro where valid: "check_expected expected raw = Inr ()" "schema_ok raw" and ro: "decode_output raw = Some ro"
    and run: "(if ro_contract ro = ''P1_ID'' then parse_pointers C ro
           else if ro_contract ro \<in> set [''P1_TYPED'', ''P1_BRIDGE''] then parse_structured C ro
           else reject_with ''unknown_contract'' (new_tally 0)) = Inr sel"
    using assms by (auto simp: parse_selection_def result_elims validate_selector_output_def reject_with_def
        split: if_splits option.splits)
  have raw: "py_get ''contract'' raw = Some (PStr (ro_contract ro))"
    using ro by (auto simp: decode_output_def read_str_def bind_eq_Some_conv split: option.splits pyval.splits)
  have "c = ro_contract ro" if "expected = Some c" for c
  proof (rule ccontr)
    assume "c \<noteq> ro_contract ro"
    then have "py_get ''contract'' raw \<noteq> Some (PStr c)" using raw by simp
    with valid(1) that show False
      by (auto simp: check_expected_def reject_with_def result_elims split: if_splits pyval.splits)
  qed
  moreover have "selection_ok C sel \<and> ps_contract sel = ro_contract ro \<and> ro_contract ro \<in> set p1_contracts
    \<and> nr_raw (ps_normalization sel) = elements_read ro
    \<and> nr_duplicates (ps_normalization sel) = repeats_dropped C ro sel"
  proof (cases "ro_contract ro = ''P1_ID''")
    case True
    with run parse_pointers_ok [of C ro sel] show ?thesis by (simp add: p1_contracts_def)
  next
    case False
    then have "ro_contract ro \<in> set [''P1_TYPED'', ''P1_BRIDGE'']" and "parse_structured C ro = Inr sel"
      using run by (auto simp: reject_with_def split: if_splits)
    with parse_structured_ok [OF _ False] structured_record [OF _ False] show ?thesis
      by (auto simp: p1_contracts_def)
  qed
  ultimately show ?thesis using valid(2) raw ro by auto
qed

subsection \<open>A concrete selection\<close>

definition sample_candidates :: candidate_set where
  "sample_candidates = projr (build_candidates [''aa'', ''bb''] [''qq''] ''RAW_SOURCE'')"

definition sample_line :: "string \<Rightarrow> string \<Rightarrow> pyval" where
  "sample_line label role = PDict [(KStr ''span_id'', PStr label), (KStr ''role'', PStr role),
     (KStr ''facet_ids'', PList [PStr ''f''])]"

definition sample_output :: pyval where
  "sample_output = PDict [(KStr ''contract'', PStr ''P1_TYPED''),
     (KStr ''selections'', PList [sample_line ''E1'' ''support'', sample_line ''E2'' ''contradict'', sample_line ''E1'' ''support''])]"

theorem parsed_selection_ok_witness:
  "\<exists>sel. parse_selection (\<lambda>_. True) sample_output sample_candidates (Some ''P1_TYPED'') = Inr sel
     \<and> selection_ok sample_candidates sel \<and> nr_raw (ps_normalization sel) = 3
     \<and> nr_duplicates (ps_normalization sel) = 3 - (\<Sum>it\<leftarrow>ps_items sel. int (length (pi_relations it)))"
proof -
  have "\<not> isl (parse_selection (\<lambda>_. True) sample_output sample_candidates (Some ''P1_TYPED''))" by code_simp
  then obtain sel where sel: "parse_selection (\<lambda>_. True) sample_output sample_candidates (Some ''P1_TYPED'') = Inr sel"
    by (cases "parse_selection (\<lambda>_. True) sample_output sample_candidates (Some ''P1_TYPED'')") auto
  have "decode_output sample_output = Some \<lparr>ro_contract = ''P1_TYPED'', ro_selected = [],
      ro_selections = [\<lparr>rs_span_id = ''E1'', rs_role = ''support'', rs_facets = [''f'']\<rparr>,
        \<lparr>rs_span_id = ''E2'', rs_role = ''contradict'', rs_facets = [''f'']\<rparr>,
        \<lparr>rs_span_id = ''E1'', rs_role = ''support'', rs_facets = [''f'']\<rparr>],
      ro_gaps = [], ro_bridges = []\<rparr>"
    by code_simp
  moreover from parsed_selection_ok [OF sel]
  obtain ro where "decode_output sample_output = Some ro" "selection_ok sample_candidates sel"
    "nr_raw (ps_normalization sel) = elements_read ro"
    "nr_duplicates (ps_normalization sel) = repeats_dropped sample_candidates ro sel"
    by blast
  ultimately have "nr_raw (ps_normalization sel) = 3 \<and> selection_ok sample_candidates sel
    \<and> nr_duplicates (ps_normalization sel) = 3 - (\<Sum>it\<leftarrow>ps_items sel. int (length (pi_relations it)))
        - int (length (ps_gaps sel))"
    by (simp add: elements_read_def repeats_dropped_def)
  moreover have "list_all (\<lambda>s. ps_gaps s = []) (case parse_selection (\<lambda>_. True) sample_output sample_candidates
      (Some ''P1_TYPED'') of Inl e \<Rightarrow> [] | Inr s \<Rightarrow> [s])" by code_simp
  then have "ps_gaps sel = []" by (simp add: sel)
  ultimately show ?thesis using sel by auto
qed

definition sample_raw :: raw_output where
  "sample_raw = the (decode_output sample_output)"

theorem line_order_irrelevant_witness:
  "same_reading (parse_structured sample_candidates sample_raw)
     (parse_structured sample_candidates (sample_raw\<lparr>ro_selections := rev (ro_selections sample_raw)\<rparr>))
   \<and> \<not> isl (parse_structured sample_candidates sample_raw)"
proof
  show "\<not> isl (parse_structured sample_candidates sample_raw)" by code_simp
qed (rule line_order_irrelevant, simp)

end
