(* ===== verification/Aggregators.thy ===== *)
theory Aggregators
  imports Contracts
begin

text \<open>
  \<^verbatim>\<open>src/src/shapeflow/p1/aggregators.py\<close>: turning a resolved selection into the ordered, budgeted
  evidence to render. The registry is the dict from span ids to span records, the coster (an injected
  callable of the code) a parameter. Where the code iterates over a set before sorting it, \<open>scan\<close> stands
  for the order of the iteration. A loop with no bound in the code, the path of the union-find \<open>find\<close>,
  runs on fuel and gives \<open>None\<close> when the fuel is short.
\<close>

subsection \<open>Evidence\<close>

record agg_item =
  ai_span_id :: string
  ai_relations :: "relation list"

definition agg_role :: "agg_item \<Rightarrow> string option" where
  "agg_role it = (case relation_roles (ai_relations it) of [r] \<Rightarrow> Some r | _ \<Rightarrow> None)"

definition agg_facet_ids :: "agg_item \<Rightarrow> string list" where
  "agg_facet_ids it = filter (\<lambda>f. f \<noteq> overall_facet) (map fst (ai_relations it))"

definition roles_on :: "string \<Rightarrow> agg_item \<Rightarrow> string list" where
  "roles_on facet it = relation_roles (filter (\<lambda>(f, r). f = facet) (ai_relations it))"

definition from_parsed :: "parsed_item \<Rightarrow> agg_item" where
  "from_parsed it = \<lparr>ai_span_id = pi_span_id it, ai_relations = pi_relations it\<rparr>"

record evidence =
  ev_items :: "agg_item list"
  ev_gaps :: "parsed_gap list"
  ev_bridges :: "parsed_bridge list"
  ev_dropped :: "string list"
  ev_dropped_bridges :: "string list"

type_synonym registry = "(string \<times> span) list"

type_synonym coster = "evidence \<Rightarrow> registry \<Rightarrow> int"

datatype agg_error = NotInRegistry string | MissingKey string | PackedDiffers int int | Unfinished

subsection \<open>Orders over spans\<close>

text \<open>\<open>x or y\<close> for optional text.\<close>

definition or_text :: "string option \<Rightarrow> string \<Rightarrow> string" where
  "or_text x y = (case x of None \<Rightarrow> y | Some s \<Rightarrow> if s = [] then y else s)"

definition get_text :: "string option \<Rightarrow> string" where
  "get_text x = (case x of None \<Rightarrow> [] | Some s \<Rightarrow> s)"

definition get_int :: "int option \<Rightarrow> int \<Rightarrow> int" where
  "get_int x d = (case x of None \<Rightarrow> d | Some i \<Rightarrow> i)"

definition source_key :: "span \<Rightarrow> string" where
  "source_key sp = or_text (sp_content_hash sp) (or_text (sp_message_id sp) (get_text (sp_span_id sp)))"

definition order_key :: "span \<Rightarrow> string \<times> string \<times> int \<times> int \<times> string" where
  "order_key sp =
     (if sp_namespace sp = ''VISIBLE_MESSAGE''
      then (''VISIBLE_MESSAGE'', get_text (sp_view_hash sp), get_int (sp_byte_start sp) 0,
            get_int (sp_byte_end sp) 0, or_text (sp_visible_span_id sp) (get_text (sp_span_id sp)))
      else (sp_namespace sp, source_key sp, get_int (sp_char_start sp) (get_int (sp_byte_start sp) 0),
            get_int (sp_char_end sp) (get_int (sp_byte_end sp) 0),
            or_text (sp_span_id sp) (get_text (sp_visible_span_id sp))))"

definition require_span :: "registry \<Rightarrow> string \<Rightarrow> agg_error + span" where
  "require_span reg sid = (case map_of reg sid of None \<Rightarrow> Inl (NotInRegistry sid) | Some sp \<Rightarrow> Inr sp)"

text \<open>\<open>registry[sid]\<close> after \<open>_require\<close> has passed.\<close>

definition key_of :: "registry \<Rightarrow> string \<Rightarrow> string \<times> string \<times> int \<times> int \<times> string" where
  "key_of reg sid = order_key (the (map_of reg sid))"

definition source_of :: "registry \<Rightarrow> string \<Rightarrow> string" where
  "source_of reg sid = source_key (the (map_of reg sid))"

definition require_all :: "registry \<Rightarrow> parsed_item list \<Rightarrow> agg_error + span list" where
  "require_all reg its = rmap (\<lambda>it. require_span reg (pi_span_id it)) its"

text \<open>The first item of every span, in first-seen order: \<open>setdefault\<close> in a dict.\<close>

definition dedup_items :: "parsed_item list \<Rightarrow> parsed_item list" where
  "dedup_items its = map snd (fold (\<lambda>it d. dict_default (pi_span_id it) it d) its [])"

definition stable_union :: "parsed_selection \<Rightarrow> registry \<Rightarrow> agg_error + evidence" where
  "stable_union sel reg =
     rbind (require_all reg (ps_items sel)) (\<lambda>_.
       let ordered = sort_key (\<lambda>it. key_of reg (pi_span_id it)) (dedup_items (ps_items sel))
       in Inr \<lparr>ev_items = map from_parsed ordered, ev_gaps = ps_gaps sel, ev_bridges = ps_bridges sel,
               ev_dropped = [], ev_dropped_bridges = []\<rparr>)"

subsection \<open>Ranking and conflicts\<close>

definition role_rank :: "string \<Rightarrow> int" where
  "role_rank r = (if r = ''contradict'' then 0 else if r = ''support'' then 1
     else if r = ''background'' then 3 else 2)"

definition item_rank :: "parsed_item \<Rightarrow> int" where
  "item_rank it = (case map role_rank (relation_roles (pi_relations it)) of
     [] \<Rightarrow> 2 | r # rs \<Rightarrow> fold min rs r)"

text \<open>\<open>{"support", "contradict"} <= facet_roles[f]\<close>.\<close>

definition has_role :: "parsed_item list \<Rightarrow> string \<Rightarrow> string \<Rightarrow> bool" where
  "has_role its f r \<longleftrightarrow> list_ex (\<lambda>it. (f, Some r) \<in> set (pi_relations it)) its"

definition conflict_facet :: "parsed_item list \<Rightarrow> string \<Rightarrow> bool" where
  "conflict_facet its f \<longleftrightarrow> has_role its f ''support'' \<and> has_role its f ''contradict''"

definition selection_rank :: "(string \<times> int) list option \<Rightarrow> string \<Rightarrow> int" where
  "selection_rank ranks sid = (case ranks of
     None \<Rightarrow> 0
   | Some d \<Rightarrow> (case map_of d sid of None \<Rightarrow> int (length d) | Some i \<Rightarrow> i))"

definition bridges_supported :: "parsed_bridge list \<Rightarrow> string list \<Rightarrow> parsed_bridge list" where
  "bridges_supported bridges kept = filter (\<lambda>b. set (pb_evidence b) \<subseteq> set kept) bridges"

definition dropped_texts :: "parsed_bridge list \<Rightarrow> parsed_bridge list \<Rightarrow> string list" where
  "dropped_texts bridges kept = map pb_text (filter (\<lambda>b. b \<notin> set kept) bridges)"

text \<open>The object that is costed: no dropped lists.\<close>

definition trial_evidence :: "parsed_selection \<Rightarrow> agg_item list \<Rightarrow> evidence" where
  "trial_evidence sel cand =
     \<lparr>ev_items = cand, ev_gaps = ps_gaps sel,
      ev_bridges = bridges_supported (ps_bridges sel) (map ai_span_id cand),
      ev_dropped = [], ev_dropped_bridges = []\<rparr>"

subsection \<open>Coverage under a budget\<close>

definition coverage_step ::
  "parsed_selection \<Rightarrow> registry \<Rightarrow> int \<Rightarrow> coster \<Rightarrow> int \<Rightarrow> (string \<Rightarrow> bool) \<Rightarrow> parsed_item
     \<Rightarrow> agg_item list \<times> string list \<times> string list \<Rightarrow> agg_item list \<times> string list \<times> string list" where
  "coverage_step sel reg budget cost min_sources conflict it s =
     (case s of (kept, sources, dropped) \<Rightarrow>
        (let agg = from_parsed it; source = source_of reg (pi_span_id it);
             in_conflict = list_ex (\<lambda>(f, r). conflict f) (pi_relations it);
             forced = (in_conflict \<or> (int (length sources) < min_sources \<and> source \<notin> set sources))
         in if cost (trial_evidence sel (kept @ [agg])) reg \<le> budget \<or> forced
            then (kept @ [agg], List.insert source sources, dropped)
            else (kept, sources, dropped @ [pi_span_id it])))"

definition coverage_budget ::
  "parsed_selection \<Rightarrow> registry \<Rightarrow> int \<Rightarrow> coster \<Rightarrow> int \<Rightarrow> (string \<times> int) list option
     \<Rightarrow> agg_error + evidence" where
  "coverage_budget sel reg budget cost min_sources ranks =
     rbind (require_all reg (ps_items sel)) (\<lambda>_.
       let its = dedup_items (ps_items sel);
           considered = sort_key (\<lambda>it. (selection_rank ranks (pi_span_id it), item_rank it,
                                         key_of reg (pi_span_id it))) its;
           (kept, sources, dropped) =
             fold (coverage_step sel reg budget cost min_sources (conflict_facet its)) considered ([], [], []);
           ordered = sort_key (\<lambda>it. key_of reg (ai_span_id it)) kept;
           bridges = bridges_supported (ps_bridges sel) (map ai_span_id ordered)
       in Inr \<lparr>ev_items = ordered, ev_gaps = ps_gaps sel, ev_bridges = bridges, ev_dropped = dropped,
               ev_dropped_bridges = dropped_texts (ps_bridges sel) bridges\<rparr>)"

subsection \<open>Atomic units\<close>

type_synonym parents = "(string \<times> string) list"

definition par :: "parents \<Rightarrow> string \<Rightarrow> string" where
  "par p x = (case map_of p x of None \<Rightarrow> x | Some y \<Rightarrow> y)"

text \<open>\<open>find\<close>, halving the path it walks.\<close>

fun find_loop :: "nat \<Rightarrow> parents \<Rightarrow> string \<Rightarrow> (string \<times> parents) option" where
  "find_loop 0 p x = None"
| "find_loop (Suc n) p x =
     (if par p x = x then Some (x, p)
      else let z = par p (par p x) in find_loop n (dict_put x z p) z)"

definition find_node :: "parents \<Rightarrow> string \<Rightarrow> (string \<times> parents) option" where
  "find_node p x = find_loop (length p + 1) p x"

definition union_nodes :: "string \<times> string \<Rightarrow> parents \<Rightarrow> parents option" where
  "union_nodes e p =
     (case e of (x, y) \<Rightarrow>
        Option.bind (find_node p x) (\<lambda>(left_root, p1).
        Option.bind (find_node p1 y) (\<lambda>(right_root, p2).
          Some (if left_root \<noteq> right_root then dict_put right_root left_root p2 else p2))))"

fun union_all :: "(string \<times> string) list \<Rightarrow> parents \<Rightarrow> parents option" where
  "union_all [] p = Some p"
| "union_all (e # es) p = Option.bind (union_nodes e p) (union_all es)"

text \<open>\<open>by_facet\<close>: the spans of every contradiction facet, in item order.\<close>

definition add_member :: "string \<Rightarrow> string \<Rightarrow> (string \<times> string list) list \<Rightarrow> (string \<times> string list) list" where
  "add_member f sid d = dict_put f ((case map_of d f of None \<Rightarrow> [] | Some m \<Rightarrow> m) @ [sid]) d"

definition members_by_facet :: "(string \<Rightarrow> bool) \<Rightarrow> parsed_item list \<Rightarrow> (string \<times> string list) list" where
  "members_by_facet conflict its =
     fold (\<lambda>it d. fold (\<lambda>(f, r) d. if conflict f then add_member f (pi_span_id it) d else d) (pi_relations it) d)
       its []"

definition star_edges :: "string list \<Rightarrow> (string \<times> string) list" where
  "star_edges members = (case members of [] \<Rightarrow> [] | m # ms \<Rightarrow> map (Pair m) ms)"

fun group_nodes ::
  "string list \<Rightarrow> parents \<Rightarrow> (string \<times> string list) list \<Rightarrow> (string \<times> string list) list option" where
  "group_nodes [] p d = Some d"
| "group_nodes (x # xs) p d =
     Option.bind (find_node p x) (\<lambda>(r, p1). group_nodes xs p1 (add_member r x d))"

definition atomic_units :: "parsed_item list \<Rightarrow> (string \<Rightarrow> bool) \<Rightarrow> string list list option" where
  "atomic_units its conflict =
     (let ids = map pi_span_id its; start = dict_of (map (\<lambda>x. (x, x)) ids);
          edges = concat (map (\<lambda>(f, members). star_edges members) (members_by_facet conflict its))
      in Option.bind (union_all edges start) (\<lambda>p.
         map_option (map snd) (group_nodes ids p [])))"

subsection \<open>Packing under a budget\<close>

definition promote_step ::
  "registry \<Rightarrow> int \<Rightarrow> string list \<Rightarrow> string list list \<times> string list list \<times> string list
     \<Rightarrow> string list list \<times> string list list \<times> string list" where
  "promote_step reg min_sources unit s =
     (case s of (promoted, remainder, seen) \<Rightarrow>
        (let fresh = filter (\<lambda>x. x \<notin> set seen) (dedup (map (source_of reg) unit))
         in if fresh \<noteq> [] \<and> int (length seen) < min_sources
            then (promoted @ [unit], remainder, seen @ fresh)
            else (promoted, remainder @ [unit], seen)))"

definition promote_new_sources :: "string list list \<Rightarrow> registry \<Rightarrow> int \<Rightarrow> string list list" where
  "promote_new_sources units reg min_sources =
     (if min_sources \<le> 1 then units
      else (case fold (promote_step reg min_sources) units ([], [], []) of
              (promoted, remainder, seen) \<Rightarrow> promoted @ remainder))"

text \<open>\<open>dedup[sid]\<close>: the item a selected span came from.\<close>

definition item_of :: "parsed_item list \<Rightarrow> string \<Rightarrow> agg_item" where
  "item_of its sid = from_parsed (the (List.find (\<lambda>it. pi_span_id it = sid) its))"

definition cost_of :: "parsed_selection \<Rightarrow> registry \<Rightarrow> coster \<Rightarrow> parsed_item list \<Rightarrow> string list \<Rightarrow> int" where
  "cost_of sel reg cost its ids =
     cost (trial_evidence sel (map (item_of its) (sort_key (key_of reg) ids))) reg"

definition pack_step ::
  "parsed_selection \<Rightarrow> registry \<Rightarrow> int \<Rightarrow> coster \<Rightarrow> parsed_item list \<Rightarrow> string list \<Rightarrow> string list \<Rightarrow> string list" where
  "pack_step sel reg budget cost its unit kept =
     (let trial = kept @ filter (\<lambda>x. x \<notin> set kept) unit
      in if trial = [] \<or> length trial = length kept then kept
         else if cost_of sel reg cost its trial \<le> budget then trial else kept)"

definition unit_key ::
  "registry \<Rightarrow> (string \<times> int) list option \<Rightarrow> parsed_item list \<Rightarrow> string
     \<Rightarrow> int \<times> int \<times> string \<times> string \<times> int \<times> int \<times> string" where
  "unit_key reg ranks its sid =
     (selection_rank ranks sid, item_rank (the (List.find (\<lambda>it. pi_span_id it = sid) its)), key_of reg sid)"

definition packed_evidence ::
  "parsed_selection \<Rightarrow> registry \<Rightarrow> (string list \<Rightarrow> string list) \<Rightarrow> parsed_item list \<Rightarrow> string list \<Rightarrow> evidence" where
  "packed_evidence sel reg scan its kept =
     (let ordered = sort_key (key_of reg) (scan kept); bridges = bridges_supported (ps_bridges sel) kept
      in \<lparr>ev_items = map (item_of its) ordered, ev_gaps = ps_gaps sel, ev_bridges = bridges,
          ev_dropped = filter (\<lambda>sid. sid \<notin> set kept) (map pi_span_id its),
          ev_dropped_bridges = dropped_texts (ps_bridges sel) bridges\<rparr>)"

definition budget_pack ::
  "(string list \<Rightarrow> string list) \<Rightarrow> parsed_selection \<Rightarrow> registry \<Rightarrow> int \<Rightarrow> coster \<Rightarrow> int \<Rightarrow> (string \<times> int) list option
     \<Rightarrow> agg_error + evidence" where
  "budget_pack scan sel reg budget cost min_sources ranks =
     rbind (require_all reg (ps_items sel)) (\<lambda>_.
       let its = dedup_items (ps_items sel)
       in if its = []
          then Inr \<lparr>ev_items = [], ev_gaps = ps_gaps sel, ev_bridges = ps_bridges sel, ev_dropped = [],
                    ev_dropped_bridges = []\<rparr>
          else
            (case atomic_units its (conflict_facet its) of
               None \<Rightarrow> Inl Unfinished
             | Some units0 \<Rightarrow>
                 let units1 = sort_key (\<lambda>u. Min (set (map (unit_key reg ranks its) u))) units0;
                     units = promote_new_sources units1 reg min_sources;
                     kept = fold (pack_step sel reg budget cost its) units [];
                     packed = packed_evidence sel reg scan its kept;
                     final = cost packed reg
                 in if final > budget then Inl (PackedDiffers final budget) else Inr packed))"

subsection \<open>Reranking\<close>

definition global_rerank ::
  "parsed_selection \<Rightarrow> registry \<Rightarrow> int \<Rightarrow> coster \<Rightarrow> (string \<times> real) list option \<Rightarrow> agg_error + evidence" where
  "global_rerank sel reg budget cost scores =
     (let score = (\<lambda>d sid. case map_of d sid of None \<Rightarrow> 0 | Some r \<Rightarrow> r);
          positions = (\<lambda>its. dict_of (map (\<lambda>(i, it). (pi_span_id it, int i)) (enumerate 0 its)))
      in rbind (case scores of
             None \<Rightarrow> Inr (positions (ps_items sel))
           | Some d \<Rightarrow>
               (case find (\<lambda>it. map_of reg (pi_span_id it) = None) (ps_items sel) of
                  Some it \<Rightarrow> Inl (MissingKey (pi_span_id it))
                | None \<Rightarrow> Inr (positions (sort_key (\<lambda>it. (- score d (pi_span_id it), key_of reg (pi_span_id it)))
                             (ps_items sel)))))
         (\<lambda>ranks.
            let reordered = sort_key (\<lambda>it. the (map_of ranks (pi_span_id it))) (ps_items sel)
            in coverage_budget (sel\<lparr>ps_items := reordered, ps_normalization := tally_record 0 None (new_tally 0)\<rparr>) reg budget cost 1 (Some ranks)))"

end
