(* ===== verification/AtomicUnits.thy ===== *)
theory AtomicUnits
  imports Aggregators
begin

text \<open>
  The union-find of \<open>_atomic_units\<close>: \<open>find\<close> always ends within its fuel and never changes a root, and
  the units are the connected components of the spans under sharing a contradiction facet.
\<close>

subsection \<open>Forests\<close>

text \<open>A rank that falls along every parent link: no cycle but a root's own.\<close>

definition forest_rank :: "(string \<Rightarrow> nat) \<Rightarrow> parents \<Rightarrow> bool" where
  "forest_rank rk p \<longleftrightarrow> (\<forall>x. par p x \<noteq> x \<longrightarrow> rk (par p x) < rk x)"

definition forest :: "parents \<Rightarrow> bool" where
  "forest p \<longleftrightarrow> (\<exists>rk. forest_rank rk p)"

definition root_at :: "parents \<Rightarrow> string \<Rightarrow> string \<Rightarrow> bool" where
  "root_at p x r \<longleftrightarrow> par p r = r \<and> (\<exists>n. (par p ^^ n) x = r)"

lemma root_at_fixed: "par p x = x \<Longrightarrow> root_at p x r \<longleftrightarrow> r = x"
proof -
  assume fixed: "par p x = x"
  have "(par p ^^ n) x = x" for n by (induction n) (simp_all add: fixed)
  with fixed show ?thesis by (auto simp: root_at_def)
qed

lemma root_at_step: "root_at p x r \<longleftrightarrow> root_at p (par p x) r"
proof (cases "par p x = x")
  case False
  show ?thesis
  proof
    assume "root_at p x r"
    then obtain n where n: "par p r = r" "(par p ^^ n) x = r" by (auto simp: root_at_def)
    show "root_at p (par p x) r"
    proof (cases n)
      case 0
      with n have "par p r = r" "r = x" by simp_all
      with False show ?thesis by simp
    next
      case (Suc m)
      with n show ?thesis by (auto simp: root_at_def funpow_swap1 intro!: exI [of _ m])
    qed
  next
    assume "root_at p (par p x) r"
    then obtain n where "par p r = r" "(par p ^^ n) (par p x) = r" by (auto simp: root_at_def)
    then have "(par p ^^ Suc n) x = r" by (simp add: funpow_swap1)
    with \<open>par p r = r\<close> show "root_at p x r" unfolding root_at_def by blast
  qed
qed simp

lemma root_exists:
  assumes "forest_rank rk p"
  shows "\<exists>!r. root_at p x r"
proof (induction "rk x" arbitrary: x rule: less_induct)
  case less
  show ?case
  proof (cases "par p x = x")
    case True
    then have "root_at p x = (\<lambda>r. r = x)" by (simp add: root_at_fixed fun_eq_iff)
    then show ?thesis by simp
  next
    case False
    with assms have "rk (par p x) < rk x" by (simp add: forest_rank_def)
    moreover have "root_at p x = root_at p (par p x)" by (intro ext) (rule root_at_step)
    ultimately show ?thesis using less by metis
  qed
qed

definition top_of :: "parents \<Rightarrow> string \<Rightarrow> string" where
  "top_of p x = (THE r. root_at p x r)"

lemma root_at_root:
  assumes "forest p"
  shows "root_at p x r \<longleftrightarrow> r = top_of p x"
proof -
  obtain rk where "forest_rank rk p" using assms by (auto simp: forest_def)
  from root_exists [OF this, of x] show ?thesis unfolding top_of_def by (metis the1_equality)
qed

lemma root_fixed: "forest p \<Longrightarrow> par p x = x \<Longrightarrow> top_of p x = x"
  using root_at_root root_at_fixed by metis

lemma root_step: "forest p \<Longrightarrow> top_of p (par p x) = top_of p x"
  using root_at_root root_at_step by metis

lemma root_is_root: "forest p \<Longrightarrow> par p (top_of p x) = top_of p x"
  using root_at_root [of p x "top_of p x"] by (simp add: root_at_def)

lemma root_idem: "forest p \<Longrightarrow> top_of p (top_of p x) = top_of p x"
  by (simp add: root_fixed root_is_root)

text \<open>Two forests with the same links up to one have the roots one expects.\<close>

lemma root_eqI:
  assumes rk: "forest_rank rk p" and "forest q"
    and fixed: "\<And>x. par p x = x \<Longrightarrow> top_of q x = f x"
    and step: "\<And>x. par p x \<noteq> x \<Longrightarrow> (\<And>y. rk y < rk x \<Longrightarrow> top_of q y = f y) \<Longrightarrow> top_of q x = f x"
  shows "top_of q x = f x"
  by (induction "rk x" arbitrary: x rule: less_induct) (use fixed step in blast)

lemma par_dict_put: "par (dict_put k v p) x = (if x = k then v else par p x)"
  by (simp add: par_def)

subsection \<open>Finding a root\<close>

lemma halve:
  assumes rk: "forest_rank rk p" and ne: "par p x \<noteq> x"
  defines "q \<equiv> dict_put x (par p (par p x)) p"
  shows "forest_rank rk q" and "top_of q y = top_of p y"
proof -
  have f: "forest p" using rk by (auto simp: forest_def)
  have less: "rk (par p (par p x)) < rk x"
    using rk ne by (metis forest_rank_def order.strict_trans)
  show q: "forest_rank rk q" using rk less by (simp add: forest_rank_def q_def par_dict_put)
  then have fq: "forest q" by (auto simp: forest_def)
  show "top_of q y = top_of p y"
  proof (rule root_eqI [OF q fq])
    fix y assume "par q y = y"
    then show "top_of q y = top_of p y"
      using less fq f by (metis order_less_irrefl par_dict_put q_def root_fixed)
  next
    fix y assume y: "par q y \<noteq> y" and IH: "\<And>z. rk z < rk y \<Longrightarrow> top_of q z = top_of p z"
    have "rk (par q y) < rk y" using q y by (simp add: forest_rank_def)
    with IH have "top_of q (par q y) = top_of p (par q y)" by blast
    moreover have "top_of p (par q y) = top_of p y" by (simp add: q_def par_dict_put root_step [OF f])
    ultimately show "top_of q y = top_of p y" using root_step [OF fq, of y] by simp
  qed
qed

lemma find_loop_ok:
  assumes "forest_rank rk p" and "rk x < n"
  shows "\<exists>q. find_loop n p x = Some (top_of p x, q) \<and> forest_rank rk q \<and> (\<forall>y. top_of q y = top_of p y)
    \<and> map fst q = map fst p"
  using assms
proof (induction n arbitrary: p x)
  case (Suc n)
  have f: "forest p" using Suc.prems(1) by (auto simp: forest_def)
  show ?case
  proof (cases "par p x = x")
    case True
    then show ?thesis using Suc.prems(1) by (simp add: root_fixed [OF f])
  next
    case False
    let ?z = "par p (par p x)"
    let ?q = "dict_put x ?z p"
    note halved = halve [OF Suc.prems(1) False]
    have "rk ?z < rk x" using Suc.prems(1) False by (metis forest_rank_def order.strict_trans)
    with Suc.prems(2) have "rk ?z < n" by simp
    from Suc.IH [OF halved(1) this] obtain r where
      r: "find_loop n ?q ?z = Some (top_of ?q ?z, r)" "forest_rank rk r" "\<forall>y. top_of r y = top_of ?q y" "map fst r = map fst ?q"
      by blast
    have "x \<in> fst ` set p"
    proof (rule ccontr)
      assume "x \<notin> fst ` set p"
      then have "map_of p x = None" by (simp add: map_of_eq_None_iff)
      with False show False by (simp add: par_def)
    qed
    then have "map fst ?q = map fst p" by (simp add: keys_dict_put)
    moreover have "top_of ?q ?z = top_of p x" by (simp add: halved(2) root_step [OF f])
    ultimately show ?thesis using r False by (auto simp: Let_def halved(2))
  qed
qed simp

text \<open>Some rank is bounded by the number of nodes: how many non-roots lie on the path.\<close>

definition path_nodes :: "parents \<Rightarrow> string \<Rightarrow> string set" where
  "path_nodes p x = {y. par p y \<noteq> y \<and> (\<exists>n. (par p ^^ n) x = y)}"

lemma bounded_rank:
  assumes "forest p"
  shows "forest_rank (\<lambda>x. card (path_nodes p x)) p \<and> (\<forall>x. card (path_nodes p x) \<le> length p)"
proof -
  obtain rk where rk: "forest_rank rk p" using assms by (auto simp: forest_def)
  have keys: "path_nodes p x \<subseteq> fst ` set p" for x
  proof
    fix y assume "y \<in> path_nodes p x"
    then have "map_of p y \<noteq> None" by (auto simp: path_nodes_def par_def split: option.splits)
    then show "y \<in> fst ` set p" by (simp add: map_of_eq_None_iff)
  qed
  have fin: "finite (path_nodes p x)" for x using keys by (rule finite_subset) simp
  have "card (fst ` set p) \<le> length p"
    by (rule order_trans [OF card_image_le card_length]) simp
  with keys have "card (path_nodes p x) \<le> length p" for x by (meson card_mono finite_imageI finite_set order_trans)
  moreover have "card (path_nodes p (par p x)) < card (path_nodes p x)" if ne: "par p x \<noteq> x" for x
  proof (rule psubset_card_mono [OF fin])
    have "rk ((par p ^^ n) y) \<le> rk y" for n y
      by (induction n) (use rk in \<open>auto simp: forest_rank_def intro: order_trans less_imp_le\<close>, metis le_less order.trans forest_rank_def rk)
    moreover have "rk (par p x) < rk x" using rk ne by (simp add: forest_rank_def)
    ultimately have "(par p ^^ n) (par p x) \<noteq> x" for n by (metis not_le)
    then have "x \<notin> path_nodes p (par p x)" by (auto simp: path_nodes_def)
    moreover have "x \<in> path_nodes p x" using ne by (auto simp: path_nodes_def intro!: exI [of _ 0])
    moreover have "path_nodes p (par p x) \<subseteq> path_nodes p x"
      by (auto simp: path_nodes_def) (metis comp_apply funpow.simps(2) funpow_swap1)
    ultimately show "path_nodes p (par p x) \<subset> path_nodes p x" by blast
  qed
  ultimately show ?thesis by (simp add: forest_rank_def)
qed

lemma find_node_ok:
  assumes "forest p"
  shows "\<exists>q. find_node p x = Some (top_of p x, q) \<and> forest q \<and> (\<forall>y. top_of q y = top_of p y) \<and> map fst q = map fst p"
proof -
  note b = bounded_rank [OF assms]
  have "card (path_nodes p x) < length p + 1" using b by (simp add: less_Suc_eq_le)
  from find_loop_ok [OF b [THEN conjunct1] this] show ?thesis by (auto simp: find_node_def forest_def)
qed

subsection \<open>Joining trees\<close>

lemma link_roots:
  assumes f: "forest p" and roots: "par p l = l" "par p r = r" "l \<noteq> r"
  shows "forest (dict_put r l p) \<and> top_of (dict_put r l p) a = (if top_of p a = r then l else top_of p a)"
proof -
  obtain rk where rk: "forest_rank rk p" using f by (auto simp: forest_def)
  let ?q = "dict_put r l p"
  let ?rk = "\<lambda>a. if top_of p a = r then rk a + rk l + 1 else rk a"
  have l: "top_of p l = l" "top_of p r = r" using root_fixed [OF f] roots by simp_all
  have q: "forest_rank ?rk ?q"
    unfolding forest_rank_def
  proof (intro allI impI)
    fix x assume "par ?q x \<noteq> x"
    then show "?rk (par ?q x) < ?rk x"
      using rk l roots(3) root_step [OF f, of x] by (cases "x = r") (auto simp: par_dict_put forest_rank_def)
  qed
  then have fq: "forest ?q" unfolding forest_def by blast
  have "top_of ?q a = (if top_of p a = r then l else top_of p a)"
  proof (rule root_eqI [OF q fq])
    fix x assume "par ?q x = x"
    with roots(3) have "x \<noteq> r" "par p x = x" by (auto simp: par_dict_put split: if_splits)
    with \<open>par ?q x = x\<close> show "top_of ?q x = (if top_of p x = r then l else top_of p x)"
      using root_fixed [OF f, of x] root_fixed [OF fq, of x] by simp
  next
    fix x assume ne: "par ?q x \<noteq> x"
      and IH: "\<And>y. ?rk y < ?rk x \<Longrightarrow> top_of ?q y = (if top_of p y = r then l else top_of p y)"
    have "?rk (par ?q x) < ?rk x" using q ne by (simp add: forest_rank_def)
    have "top_of ?q x = top_of ?q (par ?q x)" by (simp add: root_step [OF fq])
    also have "\<dots> = (if top_of p (par ?q x) = r then l else top_of p (par ?q x))" by (rule IH) fact
    also have "\<dots> = (if top_of p x = r then l else top_of p x)"
      using l roots(3) by (cases "x = r") (simp_all add: par_dict_put root_step [OF f])
    finally show "top_of ?q x = (if top_of p x = r then l else top_of p x)" .
  qed
  with fq show ?thesis by simp
qed

lemma union_nodes_ok:
  assumes "forest p"
  shows "\<exists>q. union_nodes (x, y) p = Some q \<and> forest q
    \<and> (\<forall>a. top_of q a = (if top_of p a = top_of p y then top_of p x else top_of p a))"
proof -
  obtain p1 where 1: "find_node p x = Some (top_of p x, p1)" "forest p1" "\<forall>y. top_of p1 y = top_of p y"
    using find_node_ok [OF assms] by blast
  obtain p2 where 2: "find_node p1 y = Some (top_of p1 y, p2)" "forest p2" "\<forall>y. top_of p2 y = top_of p1 y"
    using find_node_ok [OF 1(2)] by blast
  show ?thesis
  proof (cases "top_of p x = top_of p y")
    case False
    have "par p2 (top_of p z) = top_of p z" for z using root_is_root [OF 2(2), of z] 1(3) 2(3) by simp
    with link_roots [OF 2(2), of "top_of p x" "top_of p y"] False 1 2 show ?thesis by (simp add: union_nodes_def)
  qed (use 1 2 in \<open>simp add: union_nodes_def\<close>)
qed

lemma union_all_ok:
  assumes "forest p"
  shows "\<exists>q. union_all es p = Some q \<and> forest q \<and> (\<forall>(x, y) \<in> set es. top_of q x = top_of q y)
    \<and> (\<forall>a b. top_of p a = top_of p b \<longrightarrow> top_of q a = top_of q b)
    \<and> (\<forall>R. equiv UNIV R \<and> set es \<subseteq> R \<and> (\<forall>a b. top_of p a = top_of p b \<longrightarrow> (a, b) \<in> R)
         \<longrightarrow> (\<forall>a b. top_of q a = top_of q b \<longrightarrow> (a, b) \<in> R))"
  using assms
proof (induction es arbitrary: p)
  case Nil
  then show ?case by simp
next
  case (Cons e es)
  obtain x y where e: "e = (x, y)" by (cases e)
  obtain p1 where 1: "union_nodes (x, y) p = Some p1" "forest p1"
    and p1: "\<And>a. top_of p1 a = (if top_of p a = top_of p y then top_of p x else top_of p a)"
    using union_nodes_ok [OF Cons.prems] by blast
  obtain q where 2: "union_all es p1 = Some q" "forest q" "\<forall>(x, y) \<in> set es. top_of q x = top_of q y"
    "\<forall>a b. top_of p1 a = top_of p1 b \<longrightarrow> top_of q a = top_of q b"
    "\<forall>R. equiv UNIV R \<and> set es \<subseteq> R \<and> (\<forall>a b. top_of p1 a = top_of p1 b \<longrightarrow> (a, b) \<in> R)
         \<longrightarrow> (\<forall>a b. top_of q a = top_of q b \<longrightarrow> (a, b) \<in> R)"
    using Cons.IH [OF 1(2)] by blast
  have "top_of p1 x = top_of p1 y" unfolding p1 by simp
  then have xy: "top_of q x = top_of q y" using 2(4) by blast
  have mono: "top_of q a = top_of q b" if "top_of p a = top_of p b" for a b
  proof -
    have "top_of p1 a = top_of p1 b" unfolding p1 that ..
    then show ?thesis using 2(4) by blast
  qed
  have small: "(a, b) \<in> R"
    if R: "equiv UNIV R" "set (e # es) \<subseteq> R" "\<forall>a b. top_of p a = top_of p b \<longrightarrow> (a, b) \<in> R" and "top_of q a = top_of q b"
    for R a b
  proof -
    have sym: "sym R" and trans: "trans R" using R(1) by (auto simp: equiv_def)
    have "(x, y) \<in> R" using R(2) by (simp add: e)
    then have yx: "(y, x) \<in> R" using sym by (auto dest: symD)
    have cases: "(c, d) \<in> R" if "top_of p1 c = top_of p1 d" for c d
    proof -
      have "(c, if top_of p c = top_of p y then x else c) \<in> R" for c
        using R(3) yx trans by (auto dest: transD)
      moreover have "(if top_of p c = top_of p y then x else c, if top_of p d = top_of p y then x else d) \<in> R"
        using that R(3) unfolding p1 by auto
      ultimately show ?thesis using sym trans by (meson symD transD)
    qed
    have "set es \<subseteq> R" using R(2) by simp
    with 2(5) R(1) cases that(4) show ?thesis by blast
  qed
  have "union_all (e # es) p = Some q" using 1(1) 2(1) by (simp add: e)
  moreover have "\<forall>(a, b) \<in> set (e # es). top_of q a = top_of q b" using 2(3) xy by (simp add: e)
  ultimately show ?case using 2(2) mono small by blast
qed

subsection \<open>Groups\<close>

text \<open>A table of lists: what \<open>setdefault(k, []).append(v)\<close> builds.\<close>

definition listed :: "(string \<times> string list) list \<Rightarrow> string \<Rightarrow> string list" where
  "listed d k = (case map_of d k of None \<Rightarrow> [] | Some m \<Rightarrow> m)"

definition table_ok :: "(string \<times> string list) list \<Rightarrow> bool" where
  "table_ok d \<longleftrightarrow> distinct (map fst d) \<and> (\<forall>k m. map_of d k = Some m \<longrightarrow> m \<noteq> [])"

lemma table_ok_Nil [simp]: "table_ok []"
  by (simp add: table_ok_def)

lemma listed_Nil [simp]: "listed [] k = []"
  by (simp add: listed_def)

lemma add_member_ok: "table_ok d \<Longrightarrow> table_ok (add_member k v d)"
  by (simp add: table_ok_def add_member_def)

lemma listed_add: "listed (add_member k v d) j = (if j = k then listed d k @ [v] else listed d j)"
  by (simp add: listed_def add_member_def)

lemma table_entries:
  assumes "table_ok d"
  shows "(k, m) \<in> set d \<longleftrightarrow> m \<noteq> [] \<and> listed d k = m"
proof -
  have mem: "(k, m) \<in> set d \<longleftrightarrow> map_of d k = Some m"
    using assms map_of_eq_Some_iff [of d k m] by (simp only: table_ok_def)
  show ?thesis
  proof (cases "map_of d k")
    case (Some m')
    then have "m' \<noteq> []" using assms unfolding table_ok_def by blast
    with Some show ?thesis unfolding mem by (auto simp: listed_def)
  next
    case None
    then show ?thesis unfolding mem by (auto simp: listed_def)
  qed
qed

lemma group_nodes_ok:
  assumes "forest p" and "table_ok d"
  shows "\<exists>d'. group_nodes xs p d = Some d' \<and> table_ok d'
    \<and> (\<forall>r. listed d' r = listed d r @ filter (\<lambda>x. top_of p x = r) xs)"
  using assms
proof (induction xs arbitrary: p d)
  case (Cons x xs)
  obtain q where q: "find_node p x = Some (top_of p x, q)" "forest q" "\<And>y. top_of q y = top_of p y"
    using find_node_ok [OF Cons.prems(1)] by blast
  obtain d' where d': "group_nodes xs q (add_member (top_of p x) x d) = Some d'" "table_ok d'"
    and listed: "\<And>r. listed d' r = listed (add_member (top_of p x) x d) r @ filter (\<lambda>x. top_of q x = r) xs"
    using Cons.IH [OF q(2) add_member_ok [OF Cons.prems(2)]] by blast
  have "listed d' r = listed d r @ filter (\<lambda>x. top_of p x = r) (x # xs)" for r
    by (simp add: listed listed_add q(3))
  with q(1) d' show ?case by simp
qed simp

subsection \<open>The edges of a facet\<close>

definition on_facet :: "parsed_item list \<Rightarrow> string \<Rightarrow> string set" where
  "on_facet its f = {pi_span_id it | it. it \<in> set its \<and> f \<in> fst ` set (pi_relations it)}"

lemma members_inner:
  assumes "table_ok d"
  shows "table_ok (fold (\<lambda>(f, r) d. if conflict f then add_member f sid d else d) rels d)
    \<and> set (listed (fold (\<lambda>(f, r) d. if conflict f then add_member f sid d else d) rels d) g)
      = set (listed d g) \<union> (if conflict g \<and> g \<in> fst ` set rels then {sid} else {})"
  using assms
proof (induction rels arbitrary: d)
  case (Cons rel rels)
  obtain f r where rel: "rel = (f, r)" by (cases rel)
  let ?d = "if conflict f then add_member f sid d else d"
  have "table_ok ?d" using Cons.prems by (simp add: add_member_ok)
  from Cons.IH [OF this] show ?case by (auto simp: rel listed_add)
qed simp

lemma members_by_facet_ok:
  "table_ok (members_by_facet conflict its)
    \<and> set (listed (members_by_facet conflict its) f) = (if conflict f then on_facet its f else {})"
proof -
  let ?step = "\<lambda>it d. fold (\<lambda>(f, r) d. if conflict f then add_member f (pi_span_id it) d else d) (pi_relations it) d"
  have "table_ok (fold ?step its d) \<and> set (listed (fold ?step its d) f)
      = set (listed d f) \<union> (if conflict f then on_facet its f else {})" if "table_ok d" for d
    using that
  proof (induction its arbitrary: d)
    case (Cons it its)
    note inner = members_inner [OF Cons.prems, of conflict "pi_span_id it" "pi_relations it"]
    have "on_facet (it # its) f = (if f \<in> fst ` set (pi_relations it) then {pi_span_id it} else {}) \<union> on_facet its f"
      by (auto simp: on_facet_def)
    with Cons.IH [OF inner [THEN conjunct1]] inner show ?case by simp
  qed (simp add: on_facet_def)
  from this [of "[]"] show ?thesis by (simp add: members_by_facet_def)
qed

text \<open>Two spans share a contradiction facet.\<close>

definition shares :: "parsed_item list \<Rightarrow> (string \<Rightarrow> bool) \<Rightarrow> (string \<times> string) set" where
  "shares its conflict = {(a, b). \<exists>f. conflict f \<and> a \<in> on_facet its f \<and> b \<in> on_facet its f}"

definition facet_edges :: "parsed_item list \<Rightarrow> (string \<Rightarrow> bool) \<Rightarrow> (string \<times> string) list" where
  "facet_edges its conflict = concat (map (\<lambda>(f, members). star_edges members) (members_by_facet conflict its))"

lemma facet_edges_shares: "set (facet_edges its conflict) \<subseteq> shares its conflict"
proof
  fix e assume "e \<in> set (facet_edges its conflict)"
  then obtain f members where m: "(f, members) \<in> set (members_by_facet conflict its)" "e \<in> set (star_edges members)"
    by (auto simp: facet_edges_def)
  note table = members_by_facet_ok [of conflict its f]
  have "members \<noteq> [] \<and> listed (members_by_facet conflict its) f = members"
    using m(1) table_entries [OF table [THEN conjunct1]] by blast
  then have "set members = (if conflict f then on_facet its f else {})" "members \<noteq> []"
    using table [THEN conjunct2] by simp_all
  with m(2) show "e \<in> shares its conflict"
    by (cases members) (auto simp: star_edges_def shares_def split: if_splits)
qed

lemma shares_edges:
  assumes "(a, b) \<in> shares its conflict" and "\<And>x y. (x, y) \<in> set (facet_edges its conflict) \<Longrightarrow> g x = g y"
  shows "g a = g b"
proof -
  obtain f where f: "conflict f" "a \<in> on_facet its f" "b \<in> on_facet its f" using assms(1) by (auto simp: shares_def)
  let ?ms = "listed (members_by_facet conflict its) f"
  have ms: "set ?ms = on_facet its f" using members_by_facet_ok [of conflict its f] f(1) by simp
  with f(2) have "?ms \<noteq> []" by auto
  then have "(f, ?ms) \<in> set (members_by_facet conflict its)"
    using members_by_facet_ok [of conflict its] table_entries by blast
  then have edge: "(m, x) \<in> set (facet_edges its conflict)" if "?ms = m # rest" "x \<in> set rest" for m x rest
    using that by (force simp: facet_edges_def star_edges_def)
  obtain m rest where m: "?ms = m # rest" using \<open>?ms \<noteq> []\<close> by (auto simp: neq_Nil_conv)
  have "g m = g x" if "x \<in> on_facet its f" for x
    using that edge [OF m] assms(2) by (auto simp: m simp flip: ms)
  with f(2,3) show ?thesis by metis
qed

subsection \<open>The components\<close>

definition start_parents :: "string list \<Rightarrow> parents" where
  "start_parents ids = dict_of (map (\<lambda>x. (x, x)) ids)"

lemma start_roots: "forest (start_parents ids) \<and> top_of (start_parents ids) x = x"
proof -
  have "par (start_parents ids) y = y" for y
    by (auto simp: par_def start_parents_def map_of_dict_of dest: map_of_SomeD split: option.splits)
  moreover from this have "forest (start_parents ids)" by (simp add: forest_def forest_rank_def)
  ultimately show ?thesis by (simp add: root_fixed)
qed

lemma shares_sym: "sym (shares its conflict)"
  by (auto simp: shares_def sym_def)

lemma component_equiv: "equiv UNIV ((shares its conflict)\<^sup>*)"
  by (simp add: equiv_def refl_rtrancl trans_rtrancl sym_rtrancl shares_sym)

text \<open>There is a labelling of the spans whose classes are the units, in order of first appearance.\<close>

lemma atomic_units_labelled:
  obtains units and g :: "string \<Rightarrow> string" where "atomic_units its conflict = Some units"
    and "\<And>a b. g a = g b \<longleftrightarrow> (a, b) \<in> (shares its conflict)\<^sup>*"
    and "\<And>u. u \<in> set units \<longleftrightarrow> u \<noteq> [] \<and> (\<exists>r. u = filter (\<lambda>x. g x = r) (map pi_span_id its))"
    and "distinct units"
proof -
  let ?ids = "map pi_span_id its"
  let ?es = "facet_edges its conflict"
  let ?R = "(shares its conflict)\<^sup>*"
  have start: "forest (start_parents ?ids)" "\<And>x. top_of (start_parents ?ids) x = x"
    using start_roots [of ?ids] by blast+
  obtain q where q: "union_all ?es (start_parents ?ids) = Some q" "forest q"
    and joined: "\<forall>(x, y) \<in> set ?es. top_of q x = top_of q y"
    and small: "\<forall>R. equiv UNIV R \<and> set ?es \<subseteq> R \<and> (\<forall>a b. top_of (start_parents ?ids) a = top_of (start_parents ?ids) b
        \<longrightarrow> (a, b) \<in> R) \<longrightarrow> (\<forall>a b. top_of q a = top_of q b \<longrightarrow> (a, b) \<in> R)"
    using union_all_ok [OF start(1), of ?es] by blast
  have "top_of q a = top_of q b \<longrightarrow> (a, b) \<in> ?R" for a b
  proof -
    have "set ?es \<subseteq> ?R" using facet_edges_shares by (rule order_trans) auto
    moreover have "\<forall>a b. top_of (start_parents ?ids) a = top_of (start_parents ?ids) b \<longrightarrow> (a, b) \<in> ?R"
      by (simp add: start(2))
    ultimately show ?thesis using small component_equiv by blast
  qed
  moreover have "top_of q a = top_of q b" if "(a, b) \<in> ?R" for a b
    using that
  proof (induction rule: rtrancl_induct)
    case (step y z)
    have "top_of q y = top_of q z" by (rule shares_edges [OF step.hyps(2)]) (use joined in blast)
    with step.IH show ?case by simp
  qed simp
  ultimately have g: "top_of q a = top_of q b \<longleftrightarrow> (a, b) \<in> ?R" for a b by blast
  obtain d where d: "group_nodes ?ids q [] = Some d" "table_ok d"
    and listed: "\<And>r. listed d r = filter (\<lambda>x. top_of q x = r) ?ids"
    using group_nodes_ok [OF q(2) table_ok_Nil, of ?ids] by auto
  have units: "atomic_units its conflict = Some (map snd d)"
    using q(1) d(1) by (simp add: atomic_units_def Let_def facet_edges_def start_parents_def)
  have mem: "u \<in> set (map snd d) \<longleftrightarrow> u \<noteq> [] \<and> (\<exists>r. u = filter (\<lambda>x. top_of q x = r) ?ids)" for u
  proof -
    have "u \<in> set (map snd d) \<longleftrightarrow> (\<exists>k. (k, u) \<in> set d)" by force
    then show ?thesis unfolding table_entries [OF d(2)] listed by blast
  qed
  have "distinct (map snd d)"
  proof -
    have "k = k'" if "(k, m) \<in> set d" "(k', m) \<in> set d" for k k' m
    proof -
      from that have "m \<noteq> []" "listed d k = m" "listed d k' = m" using table_entries [OF d(2)] by blast+
      then obtain x where "x \<in> set (listed d k)" "x \<in> set (listed d k')" by (cases m) auto
      then show ?thesis by (simp add: listed)
    qed
    then have "inj_on snd (set d)" by (auto simp: inj_on_def)
    moreover have "distinct d" using d(2) unfolding table_ok_def distinct_map by blast
    ultimately show ?thesis by (simp add: distinct_map)
  qed
  then show thesis by (intro that [of "map snd d" "top_of q"] units g mem)
qed

text \<open>
  C24. The atomic units are the connected components of the disagreements: the union-find always ends,
  every selected span is in exactly one unit, and two spans are in the same unit exactly when a chain of
  spans, each sharing a contradiction facet with the next, leads from one to the other.
\<close>

theorem atomic_units_components:
  assumes "distinct (map pi_span_id its)"
  shows "\<exists>units. atomic_units its conflict = Some units
    \<and> mset (concat units) = mset (map pi_span_id its) \<and> [] \<notin> set units
    \<and> (\<forall>a \<in> pi_span_id ` set its. \<forall>b \<in> pi_span_id ` set its.
         (\<exists>u \<in> set units. a \<in> set u \<and> b \<in> set u) \<longleftrightarrow> (a, b) \<in> (shares its conflict)\<^sup>*)"
proof -
  obtain units and g :: "string \<Rightarrow> string" where units: "atomic_units its conflict = Some units"
    and g: "\<And>a b. g a = g b \<longleftrightarrow> (a, b) \<in> (shares its conflict)\<^sup>*"
    and mem: "\<And>u. u \<in> set units \<longleftrightarrow> u \<noteq> [] \<and> (\<exists>r. u = filter (\<lambda>x. g x = r) (map pi_span_id its))"
    and dist: "distinct units"
    by (rule atomic_units_labelled [of its conflict]) (rule that, assumption+)
  have own: "filter (\<lambda>x. g x = g a) (map pi_span_id its) \<in> set units" if "a \<in> pi_span_id ` set its" for a
    using that by (auto simp: mem filter_empty_conv)
  have same: "u = filter (\<lambda>x. g x = g a) (map pi_span_id its)" if "u \<in> set units" "a \<in> set u" for u a
    using that by (auto simp: mem)
  have "distinct (concat units)"
  proof (rule distinct_concat [OF dist])
    show "distinct u" if "u \<in> set units" for u using that assms by (auto simp: mem)
    show "set u \<inter> set v = {}" if "u \<in> set units" "v \<in> set units" "u \<noteq> v" for u v
      using that same by blast
  qed
  moreover have "set (concat units) = set (map pi_span_id its)"
  proof
    show "set (concat units) \<subseteq> set (map pi_span_id its)" by (auto simp: mem)
    show "set (map pi_span_id its) \<subseteq> set (concat units)"
    proof
      fix x assume x: "x \<in> set (map pi_span_id its)"
      then have "x \<in> set (filter (\<lambda>y. g y = g x) (map pi_span_id its))" by simp
      moreover have "filter (\<lambda>y. g y = g x) (map pi_span_id its) \<in> set units" using own x by simp
      ultimately show "x \<in> set (concat units)" unfolding set_concat by blast
    qed
  qed
  ultimately have "mset (concat units) = mset (map pi_span_id its)"
    using set_eq_iff_mset_eq_distinct [OF _ assms] by blast
  moreover have "(\<exists>u \<in> set units. a \<in> set u \<and> b \<in> set u) \<longleftrightarrow> (a, b) \<in> (shares its conflict)\<^sup>*"
    if ab: "a \<in> pi_span_id ` set its" "b \<in> pi_span_id ` set its" for a b
  proof
    assume "\<exists>u \<in> set units. a \<in> set u \<and> b \<in> set u"
    then obtain u where u: "u \<in> set units" "a \<in> set u" "b \<in> set u" by blast
    from same [OF u(1,2)] u(3) have "b \<in> set (filter (\<lambda>x. g x = g a) (map pi_span_id its))" by simp
    then show "(a, b) \<in> (shares its conflict)\<^sup>*" unfolding g [symmetric] by simp
  next
    assume "(a, b) \<in> (shares its conflict)\<^sup>*"
    then have "g a = g b" using g by blast
    with ab own [OF ab(1)] show "\<exists>u \<in> set units. a \<in> set u \<and> b \<in> set u"
      by (intro bexI [of _ "filter (\<lambda>x. g x = g a) (map pi_span_id its)"]) auto
  qed
  ultimately show ?thesis using units mem by blast
qed

definition sample_items :: "parsed_item list" where
  "sample_items = [\<lparr>pi_span_id = ''a'', pi_relations = [(''f'', Some ''support'')]\<rparr>,
     \<lparr>pi_span_id = ''b'', pi_relations = []\<rparr>,
     \<lparr>pi_span_id = ''c'', pi_relations = [(''f'', Some ''contradict'')]\<rparr>]"

theorem atomic_units_components_witness:
  "atomic_units sample_items (conflict_facet sample_items) = Some [[''a'', ''c''], [''b'']]
   \<and> (''a'', ''c'') \<in> (shares sample_items (conflict_facet sample_items))\<^sup>*"
proof -
  have run: "atomic_units sample_items (conflict_facet sample_items) = Some [[''a'', ''c''], [''b'']]" by code_simp
  have "distinct (map pi_span_id sample_items)" by (simp add: sample_items_def)
  from atomic_units_components [OF this, of "conflict_facet sample_items"] run
  show ?thesis by (simp add: sample_items_def)
qed

end
