(* ===== verification/AggregatorsProps.thy ===== *)
theory AggregatorsProps
  imports AtomicUnits
begin

text \<open>
  What the aggregators promise: the union is independent of the selector's order, the coverage
  aggregator never one-sides a disagreement, and the packing aggregator keeps its budget.
\<close>

subsection \<open>The selected items\<close>

lemma defaults_folded:
  assumes "\<forall>(k, v) \<in> set d. k = pi_span_id v" and "distinct (map fst d)"
  shows "(\<forall>(k, v) \<in> set (fold (\<lambda>it d. dict_default (pi_span_id it) it d) its d). k = pi_span_id v)
    \<and> distinct (map fst (fold (\<lambda>it d. dict_default (pi_span_id it) it d) its d))
    \<and> fst ` set (fold (\<lambda>it d. dict_default (pi_span_id it) it d) its d) = fst ` set d \<union> pi_span_id ` set its
    \<and> snd ` set (fold (\<lambda>it d. dict_default (pi_span_id it) it d) its d) \<subseteq> snd ` set d \<union> set its"
  using assms
proof (induction its arbitrary: d)
  case (Cons it its)
  let ?d = "dict_default (pi_span_id it) it d"
  have "(\<forall>(k, v) \<in> set ?d. k = pi_span_id v) \<and> distinct (map fst ?d)"
    and "fst ` set ?d = insert (pi_span_id it) (fst ` set d)" and "snd ` set ?d \<subseteq> insert it (snd ` set d)"
    using Cons.prems by (auto simp: dict_default_def map_of_eq_None_iff image_iff dest: map_of_SomeD)
  note step = this
  let ?F = "fold (\<lambda>it d. dict_default (pi_span_id it) it d) its ?d"
  have run: "fold (\<lambda>it d. dict_default (pi_span_id it) it d) (it # its) d = ?F" by simp
  note IH = Cons.IH [OF step(1) [THEN conjunct1] step(1) [THEN conjunct2]]
  have "snd ` set ?F \<subseteq> snd ` set d \<union> set (it # its)"
  proof -
    have "snd ` set ?F \<subseteq> snd ` set ?d \<union> set its" using IH by blast
    with step(3) show ?thesis by (simp only: list.set) blast
  qed
  moreover have "fst ` set ?F = fst ` set d \<union> pi_span_id ` set (it # its)" using IH step(2) by simp
  ultimately show ?case unfolding run using IH by blast
qed simp

lemma dedup_items_ok:
  "distinct (map pi_span_id (dedup_items its))" "pi_span_id ` set (dedup_items its) = pi_span_id ` set its"
  "set (dedup_items its) \<subseteq> set its"
proof -
  let ?d = "fold (\<lambda>it d. dict_default (pi_span_id it) it d) its []"
  have d: "\<forall>(k, v) \<in> set ?d. k = pi_span_id v" "distinct (map fst ?d)" "fst ` set ?d = pi_span_id ` set its"
    "snd ` set ?d \<subseteq> set its" using defaults_folded [of "[]" its] by auto
  from d(1) have keys: "map pi_span_id (map snd ?d) = map fst ?d" by auto
  show "distinct (map pi_span_id (dedup_items its))" unfolding dedup_items_def keys by (rule d(2))
  have "set (map pi_span_id (map snd ?d)) = pi_span_id ` set its" unfolding keys using d(3) by simp
  then show "pi_span_id ` set (dedup_items its) = pi_span_id ` set its" by (simp add: dedup_items_def image_image)
  show "set (dedup_items its) \<subseteq> set its" using d(4) by (simp add: dedup_items_def)
qed

lemma dedup_items_distinct:
  assumes "distinct (map pi_span_id its)"
  shows "dedup_items its = its"
proof -
  have "fold (\<lambda>it d. dict_default (pi_span_id it) it d) its d = d @ map (\<lambda>it. (pi_span_id it, it)) its"
    if "fst ` set d \<inter> pi_span_id ` set its = {}" for d :: "(string \<times> parsed_item) list"
    using assms that
  proof (induction its arbitrary: d)
    case (Cons it its)
    then have "map_of d (pi_span_id it) = None" by (auto simp: map_of_eq_None_iff)
    with Cons show ?case by (auto simp: dict_default_def)
  qed simp
  from this [of "[]"] show ?thesis by (simp add: dedup_items_def comp_def)
qed

definition registered :: "registry \<Rightarrow> parsed_item list \<Rightarrow> bool" where
  "registered reg its \<longleftrightarrow> (\<forall>it \<in> set its. map_of reg (pi_span_id it) \<noteq> None)"

lemma require_all_Inr: "(\<exists>sps. require_all reg its = Inr sps) \<longleftrightarrow> registered reg its"
  by (induction its) (auto simp: require_all_def registered_def require_span_def result_elims split: option.splits)

text \<open>Sorting by a key without ties does not see the order it starts from.\<close>

lemma sort_key_unique:
  assumes "mset xs = mset ys" and "inj_on f (set xs)"
  shows "sort_key f xs = sort_key f ys"
proof -
  have "map f (sort_key f zs) = sort (map f zs)" for zs
    using sort_key_map [of "\<lambda>x. x" f zs] by simp
  moreover have "sort (map f xs) = sort (map f ys)"
    using assms(1) by (metis mset_map properties_for_sort mset_sort sorted_sort)
  ultimately have "map f (sort_key f xs) = map f (sort_key f ys)" by simp
  moreover have "inj_on f (set (sort_key f xs) \<union> set (sort_key f ys))"
    using assms mset_eq_setD [OF assms(1)] by simp
  ultimately show ?thesis by (simp add: inj_on_map_eq_map)
qed

text \<open>
   The stable union does not depend on the order in which the selector listed its spans: for any
  rearrangement of the items of a selection whose spans have distinct positions it publishes the same
  items, all of the selected spans, in the order of their positions.
\<close>

theorem stable_union_order_free:
  assumes "mset its = mset (ps_items sel)" and "distinct (map pi_span_id its)" and "registered reg its"
    and "inj_on (key_of reg) (pi_span_id ` set its)"
  shows "\<exists>ev. stable_union sel reg = Inr ev \<and> stable_union (sel\<lparr>ps_items := its\<rparr>) reg = Inr ev
    \<and> mset (map ai_span_id (ev_items ev)) = mset (map pi_span_id its)
    \<and> sorted (map (\<lambda>it. key_of reg (ai_span_id it)) (ev_items ev))"
proof -
  let ?key = "\<lambda>it. key_of reg (pi_span_id it)"
  have sets: "set (ps_items sel) = set its" using mset_eq_setD [OF assms(1)] by simp
  have "mset (map pi_span_id its) = mset (map pi_span_id (ps_items sel))" using assms(1) by simp
  then have dist: "distinct (map pi_span_id (ps_items sel))" using assms(2) by (metis mset_eq_imp_distinct_iff)
  have "inj_on ?key (set its)"
    using assms(2,4) by (auto simp: inj_on_def distinct_map)
  from sort_key_unique [OF assms(1) this] have sorts: "sort_key ?key (ps_items sel) = sort_key ?key its" by simp
  have reg: "\<exists>sps. require_all reg (ps_items sel) = Inr sps" "\<exists>sps. require_all reg its = Inr sps"
    using assms(3) sets by (simp_all add: require_all_Inr registered_def)
  let ?ev = "\<lparr>ev_items = map from_parsed (sort_key ?key its), ev_gaps = ps_gaps sel, ev_bridges = ps_bridges sel,
               ev_dropped = [], ev_dropped_bridges = []\<rparr>"
  have "stable_union sel reg = Inr ?ev" "stable_union (sel\<lparr>ps_items := its\<rparr>) reg = Inr ?ev"
    using reg sorts by (auto simp: stable_union_def dedup_items_distinct [OF dist] dedup_items_distinct [OF assms(2)] Let_def)
  moreover have "mset (map ai_span_id (ev_items ?ev)) = mset (map pi_span_id its)"
    by (simp add: from_parsed_def comp_def)
  moreover have "sorted (map (\<lambda>it. key_of reg (ai_span_id it)) (ev_items ?ev))"
    using sorted_sort_key [of ?key its] by (simp add: from_parsed_def comp_def)
  ultimately show ?thesis by blast
qed

subsection \<open>Coverage\<close>

text \<open>What has been decided about the items already considered.\<close>

definition coverage_inv ::
  "registry \<Rightarrow> int \<Rightarrow> (string \<Rightarrow> bool) \<Rightarrow> parsed_item list \<Rightarrow> agg_item list \<times> string list \<times> string list \<Rightarrow> bool" where
  "coverage_inv reg min_sources conflict past s \<longleftrightarrow> (case s of (kept, sources, dropped) \<Rightarrow>
     mset (map ai_span_id kept) + mset dropped = mset (map pi_span_id past)
     \<and> distinct sources \<and> set sources = (\<lambda>it. source_of reg (ai_span_id it)) ` set kept
     \<and> (\<forall>it \<in> set past. list_ex (\<lambda>(f, r). conflict f) (pi_relations it) \<longrightarrow> pi_span_id it \<in> ai_span_id ` set kept)
     \<and> (min_sources \<le> int (length sources)
        \<or> (\<lambda>it. source_of reg (pi_span_id it)) ` set past \<subseteq> set sources))"

lemma coverage_step_inv:
  assumes "coverage_inv reg min_sources conflict past s"
  shows "coverage_inv reg min_sources conflict (past @ [it]) (coverage_step sel reg budget cost min_sources conflict it s)"
proof -
  obtain kept sources dropped where s: "s = (kept, sources, dropped)" by (cases s)
  have grow: "length sources \<le> length (List.insert x sources)" for x by (simp add: List.insert_def)
  show ?thesis
    using assms grow [of "source_of reg (pi_span_id it)"]
    by (auto simp: s coverage_inv_def coverage_step_def from_parsed_def Let_def image_Un)
qed

lemma coverage_fold_inv:
  "coverage_inv reg min_sources conflict past s \<Longrightarrow> coverage_inv reg min_sources conflict (past @ its)
     (fold (coverage_step sel reg budget cost min_sources conflict) its s)"
proof (induction its arbitrary: past s)
  case (Cons it its)
  from Cons.IH [OF coverage_step_inv [OF Cons.prems]] show ?case by simp
qed simp

definition kept_ids :: "evidence \<Rightarrow> string list" where
  "kept_ids ev = map ai_span_id (ev_items ev)"

text \<open>
  C25. The coverage aggregator never one-sides a disagreement: whatever the budget and the coster, every
  span on a contradiction facet is published; it publishes at least the minimum of distinct sources, or
  all there are; every selected span is published or recorded as dropped; and no bridge outlives a span
  it is bound to.
\<close>

theorem coverage_keeps_disagreements:
  assumes "coverage_budget sel reg budget cost min_sources ranks = Inr ev"
  defines "its \<equiv> dedup_items (ps_items sel)"
  shows "(\<forall>f. conflict_facet its f \<longrightarrow> on_facet its f \<subseteq> set (kept_ids ev))
    \<and> (min_sources \<le> int (card (source_of reg ` set (kept_ids ev)))
       \<or> source_of reg ` set (kept_ids ev) = source_of reg ` pi_span_id ` set its)
    \<and> mset (kept_ids ev) + mset (ev_dropped ev) = mset (map pi_span_id its)
    \<and> ev_bridges ev = bridges_supported (ps_bridges sel) (kept_ids ev)"
proof -
  let ?cs = "sort_key (\<lambda>it. (selection_rank ranks (pi_span_id it), item_rank it, key_of reg (pi_span_id it))) its"
  obtain kept sources dropped where
    fold: "fold (coverage_step sel reg budget cost min_sources (conflict_facet its)) ?cs ([], [], []) = (kept, sources, dropped)"
    by (cases "fold (coverage_step sel reg budget cost min_sources (conflict_facet its)) ?cs ([], [], [])")
  have "coverage_inv reg min_sources (conflict_facet its) [] ([], [], [])" by (simp add: coverage_inv_def)
  from coverage_fold_inv [OF this, of ?cs sel budget cost]
  have inv: "coverage_inv reg min_sources (conflict_facet its) ?cs (kept, sources, dropped)" by (simp add: fold)
  let ?bridges = "bridges_supported (ps_bridges sel) (map ai_span_id (sort_key (\<lambda>it. key_of reg (ai_span_id it)) kept))"
  have ev: "ev = \<lparr>ev_items = sort_key (\<lambda>it. key_of reg (ai_span_id it)) kept, ev_gaps = ps_gaps sel,
      ev_bridges = ?bridges, ev_dropped = dropped, ev_dropped_bridges = dropped_texts (ps_bridges sel) ?bridges\<rparr>"
    using assms(1) by (auto simp: coverage_budget_def result_elims Let_def fold simp flip: its_def)
  have ids: "mset (kept_ids ev) = mset (map ai_span_id kept)" "set (kept_ids ev) = ai_span_id ` set kept"
    by (simp_all add: kept_ids_def ev)
  have "on_facet its f \<subseteq> set (kept_ids ev)" if "conflict_facet its f" for f
    using inv that by (fastforce simp: coverage_inv_def on_facet_def ids list_ex_iff)
  moreover have "min_sources \<le> int (card (source_of reg ` set (kept_ids ev)))
       \<or> source_of reg ` set (kept_ids ev) = source_of reg ` pi_span_id ` set its"
  proof -
    have kept: "set sources = source_of reg ` set (kept_ids ev)" using inv by (simp add: coverage_inv_def ids image_image)
    have "distinct sources" using inv by (simp add: coverage_inv_def)
    then have "length sources = card (source_of reg ` set (kept_ids ev))"
      unfolding kept [symmetric] by (simp add: distinct_card)
    moreover have "mset (kept_ids ev) + mset dropped = mset (map pi_span_id its)" using inv by (simp add: coverage_inv_def ids)
    then have "set (kept_ids ev) \<subseteq> set (map pi_span_id its)"
      by (metis mset_subset_eq_add_left set_mset_mono set_mset_mset)
    then have "source_of reg ` set (kept_ids ev) \<subseteq> source_of reg ` pi_span_id ` set its" by auto
    ultimately show ?thesis using inv by (auto simp: coverage_inv_def image_image simp flip: kept)
  qed
  moreover have "mset (kept_ids ev) + mset (ev_dropped ev) = mset (map pi_span_id its)"
    using inv by (simp add: coverage_inv_def ids) (simp add: ev)
  moreover have "ev_bridges ev = bridges_supported (ps_bridges sel) (kept_ids ev)"
    by (simp add: ev kept_ids_def)
  ultimately show ?thesis by blast
qed

subsection \<open>Packing\<close>

lemma promote_perm: "mset (promote_new_sources units reg min_sources) = mset units"
proof -
  have "mset (fst r) + mset (fst (snd r)) = mset (fst s) + mset (fst (snd s)) + mset units"
    if "r = fold (promote_step reg min_sources) units s" for r s
    using that
  proof (induction units arbitrary: s)
    case (Cons u units)
    from Cons.IH [of "promote_step reg min_sources u s"] Cons.prems
    show ?case by (cases s) (auto simp: promote_step_def Let_def)
  qed simp
  from this [OF refl, of "([], [], [])"] show ?thesis
    by (auto simp: promote_new_sources_def split: prod.splits)
qed

lemma item_of_id:
  assumes "sid \<in> pi_span_id ` set its"
  shows "ai_span_id (item_of its sid) = sid"
proof -
  obtain it where found: "List.find (\<lambda>it. pi_span_id it = sid) its = Some it"
    using assms by (cases "List.find (\<lambda>it. pi_span_id it = sid) its") (auto simp: find_None_iff)
  then have "pi_span_id it = sid" by (auto simp: find_Some_iff)
  then show ?thesis by (simp add: item_of_def from_parsed_def found)
qed

text \<open>What holds of the kept spans while units are tried: units are whole or absent, and the budget holds.\<close>

definition pack_inv ::
  "parsed_selection \<Rightarrow> registry \<Rightarrow> int \<Rightarrow> coster \<Rightarrow> parsed_item list \<Rightarrow> string list list \<Rightarrow> string list \<Rightarrow> bool" where
  "pack_inv sel reg budget cost its units kept \<longleftrightarrow> distinct kept \<and> set kept \<subseteq> pi_span_id ` set its
     \<and> (\<forall>v \<in> set units. set v \<subseteq> set kept \<or> set v \<inter> set kept = {})
     \<and> (kept = [] \<or> cost_of sel reg cost its kept \<le> budget)"

lemma pack_step_inv:
  assumes inv: "pack_inv sel reg budget cost its units kept" and u: "u \<in> set units" "distinct u" "set u \<subseteq> pi_span_id ` set its"
    and disj: "\<And>v. v \<in> set units \<Longrightarrow> v = u \<or> set v \<inter> set u = {}"
  shows "pack_inv sel reg budget cost its units (pack_step sel reg budget cost its u kept)"
proof -
  let ?trial = "kept @ filter (\<lambda>x. x \<notin> set kept) u"
  have "distinct ?trial" "set ?trial \<subseteq> pi_span_id ` set its" using inv u by (auto simp: pack_inv_def)
  moreover have "set v \<subseteq> set ?trial \<or> set v \<inter> set ?trial = {}" if v: "v \<in> set units" for v
  proof (cases "v = u")
    case False
    with disj [OF v] have "set v \<inter> set u = {}" by blast
    with inv v show ?thesis unfolding pack_inv_def by auto
  qed auto
  ultimately show ?thesis using inv by (auto simp: pack_step_def pack_inv_def Let_def)
qed

lemma pack_fold_inv:
  assumes "pack_inv sel reg budget cost its units kept" and "set us \<subseteq> set units"
    and "\<And>u. u \<in> set units \<Longrightarrow> distinct u \<and> set u \<subseteq> pi_span_id ` set its"
    and "\<And>u v. u \<in> set units \<Longrightarrow> v \<in> set units \<Longrightarrow> v = u \<or> set v \<inter> set u = {}"
  shows "pack_inv sel reg budget cost its units (fold (pack_step sel reg budget cost its) us kept)"
  using assms(1,2)
proof (induction us arbitrary: kept)
  case (Cons u us)
  have "u \<in> set units" using Cons.prems(2) by simp
  with assms(3,4) have "pack_inv sel reg budget cost its units (pack_step sel reg budget cost its u kept)"
    by (intro pack_step_inv [OF Cons.prems(1)]) blast+
  with Cons show ?case by simp
qed simp

definition sees_no_drops :: "coster \<Rightarrow> bool" where
  "sees_no_drops cost \<longleftrightarrow> (\<forall>ev reg ds bs. cost (ev\<lparr>ev_dropped := ds, ev_dropped_bridges := bs\<rparr>) reg = cost ev reg)"

lemma bridges_supported_cong: "set xs = set ys \<Longrightarrow> bridges_supported bs xs = bridges_supported bs ys"
  by (simp add: bridges_supported_def)

lemma packed_cost:
  assumes "sees_no_drops cost" and "mset (scan kept) = mset kept" and "inj_on (key_of reg) (set kept)"
    and "set kept \<subseteq> pi_span_id ` set its"
  shows "cost (packed_evidence sel reg scan its kept) reg = cost_of sel reg cost its kept"
proof -
  have scan: "set (scan kept) = set kept" using mset_eq_setD [OF assms(2)] .
  have sorts: "sort_key (key_of reg) (scan kept) = sort_key (key_of reg) kept"
    by (rule sort_key_unique [OF assms(2)]) (use assms(3) scan in simp)
  let ?cand = "map (item_of its) (sort_key (key_of reg) kept)"
  have "set (map ai_span_id ?cand) = set kept"
    using assms(4) item_of_id [of _ its] by (force simp: image_image)
  then have "bridges_supported bs (map ai_span_id ?cand) = bridges_supported bs kept" for bs
    by (rule bridges_supported_cong)
  then have "packed_evidence sel reg scan its kept = (trial_evidence sel ?cand)
      \<lparr>ev_dropped := filter (\<lambda>sid. sid \<notin> set kept) (map pi_span_id its),
       ev_dropped_bridges := dropped_texts (ps_bridges sel) (bridges_supported (ps_bridges sel) kept)\<rparr>"
    by (simp add: packed_evidence_def trial_evidence_def sorts Let_def)
  with assms(1) show ?thesis by (simp add: sees_no_drops_def cost_of_def)
qed

lemma kept_packed:
  assumes "set kept \<subseteq> pi_span_id ` set its" and "mset (scan kept) = mset kept"
  shows "mset (kept_ids (packed_evidence sel reg scan its kept)) = mset kept"
    and "set (kept_ids (packed_evidence sel reg scan its kept)) = set kept"
proof -
  have scan: "set (scan kept) = set kept" using mset_eq_setD [OF assms(2)] .
  have "ai_span_id (item_of its x) = x" if "x \<in> set (scan kept)" for x
    using item_of_id [of x its] that assms(1) scan by blast
  then have "map ai_span_id (map (item_of its) (sort_key (key_of reg) (scan kept))) = sort_key (key_of reg) (scan kept)"
    unfolding map_map by (intro map_idI) simp
  then have "kept_ids (packed_evidence sel reg scan its kept) = sort_key (key_of reg) (scan kept)"
    by (simp add: kept_ids_def packed_evidence_def Let_def)
  then show "mset (kept_ids (packed_evidence sel reg scan its kept)) = mset kept"
    "set (kept_ids (packed_evidence sel reg scan its kept)) = set kept"
    using assms(2) scan by simp_all
qed

text \<open>The units of a pack, whole, disjoint, and covering every contradiction facet.\<close>

lemma pack_units:
  assumes dist: "distinct (map pi_span_id its)"
  obtains units where "atomic_units its conflict = Some units"
    and "\<And>u. u \<in> set units \<Longrightarrow> distinct u \<and> set u \<subseteq> pi_span_id ` set its"
    and "\<And>u v. u \<in> set units \<Longrightarrow> v \<in> set units \<Longrightarrow> v = u \<or> set v \<inter> set u = {}"
    and "\<And>f. conflict f \<Longrightarrow> on_facet its f \<noteq> {} \<Longrightarrow> \<exists>u \<in> set units. on_facet its f \<subseteq> set u"
proof -
  obtain units and g :: "string \<Rightarrow> string" where units: "atomic_units its conflict = Some units"
    and g: "\<And>a b. g a = g b \<longleftrightarrow> (a, b) \<in> (shares its conflict)\<^sup>*"
    and mem: "\<And>u. u \<in> set units \<longleftrightarrow> u \<noteq> [] \<and> (\<exists>r. u = filter (\<lambda>x. g x = r) (map pi_span_id its))"
    and "distinct units"
    by (rule atomic_units_labelled [of its conflict]) (rule that, assumption+)
  have "distinct u \<and> set u \<subseteq> pi_span_id ` set its" if "u \<in> set units" for u
    using that dist by (auto simp: mem)
  moreover have "v = u \<or> set v \<inter> set u = {}" if "u \<in> set units" "v \<in> set units" for u v
    using that by (auto simp: mem)
  moreover have "\<exists>u \<in> set units. on_facet its f \<subseteq> set u" if f: "conflict f" "on_facet its f \<noteq> {}" for f
  proof -
    obtain a where a: "a \<in> on_facet its f" using f(2) by blast
    have ids: "on_facet its f \<subseteq> pi_span_id ` set its" by (auto simp: on_facet_def)
    have "(b, a) \<in> shares its conflict" if "b \<in> on_facet its f" for b
      using that a f(1) by (auto simp: shares_def)
    then have same: "g b = g a" if "b \<in> on_facet its f" for b using that g by blast
    let ?u = "filter (\<lambda>x. g x = g a) (map pi_span_id its)"
    have sub: "on_facet its f \<subseteq> set ?u" using same ids by auto
    with a have "?u \<noteq> []" by (metis empty_iff empty_set subsetD)
    then have "?u \<in> set units" unfolding mem by blast
    with sub show ?thesis by blast
  qed
  ultimately show thesis using that [OF units] by blast
qed

text \<open>
  Packing keeps its budget and stays whole. For a selection of registered spans with distinct
  positions, a coster that does not look at the dropped lists, and a budget that the gaps alone fit in,
  the packer always returns; what it returns costs at most the budget; a contradiction facet is published
  with all of its spans or none; every selected span is published or recorded as dropped; and no bridge
  outlives a span it is bound to. Nothing depends on the order in which the set of kept spans is scanned.
\<close>

theorem budget_pack_sound:
  assumes "registered reg (ps_items sel)" and "ps_items sel \<noteq> []"
    and "inj_on (key_of reg) (pi_span_id ` set (ps_items sel))" and "\<And>xs. mset (scan xs) = mset xs"
    and "sees_no_drops cost" and "cost (trial_evidence sel []) reg \<le> budget"
  defines "its \<equiv> dedup_items (ps_items sel)"
  shows "\<exists>ev. budget_pack scan sel reg budget cost min_sources ranks = Inr ev
    \<and> cost ev reg \<le> budget
    \<and> (\<forall>f. conflict_facet its f \<longrightarrow>
         on_facet its f \<subseteq> set (kept_ids ev) \<or> on_facet its f \<inter> set (kept_ids ev) = {})
    \<and> mset (kept_ids ev) + mset (ev_dropped ev) = mset (map pi_span_id its)
    \<and> ev_bridges ev = bridges_supported (ps_bridges sel) (kept_ids ev)"
proof -
  have ids: "pi_span_id ` set its = pi_span_id ` set (ps_items sel)" and dist: "distinct (map pi_span_id its)"
    using dedup_items_ok [of "ps_items sel"] by (simp_all add: its_def)
  then have ne: "its \<noteq> []" using assms(2) by auto
  obtain units where units: "atomic_units its (conflict_facet its) = Some units"
    and whole: "\<And>u. u \<in> set units \<Longrightarrow> distinct u \<and> set u \<subseteq> pi_span_id ` set its"
    and disj: "\<And>u v. u \<in> set units \<Longrightarrow> v \<in> set units \<Longrightarrow> v = u \<or> set v \<inter> set u = {}"
    and cover: "\<And>f. conflict_facet its f \<Longrightarrow> on_facet its f \<noteq> {} \<Longrightarrow> \<exists>u \<in> set units. on_facet its f \<subseteq> set u"
    by (rule pack_units [OF dist, of "conflict_facet its"]) (rule that, assumption+)
  let ?order = "promote_new_sources (sort_key (\<lambda>u. Min (set (map (unit_key reg ranks its) u))) units) reg min_sources"
  define kept where "kept = fold (pack_step sel reg budget cost its) ?order []"
  have "set ?order = set (sort_key (\<lambda>u. Min (set (map (unit_key reg ranks its) u))) units)"
    by (rule mset_eq_setD [OF promote_perm])
  then have order: "set ?order \<subseteq> set units" by (simp only: set_sort order_refl)
  have start: "pack_inv sel reg budget cost its units []" by (simp add: pack_inv_def)
  have inv: "pack_inv sel reg budget cost its units kept"
    unfolding kept_def by (rule pack_fold_inv [OF start order]) (erule whole, erule (1) disj)
  have perm: "mset (scan kept) = mset kept" by (rule assms(4))
  have kept: "distinct kept" "set kept \<subseteq> pi_span_id ` set its" using inv by (simp_all add: pack_inv_def)
  let ?ev = "packed_evidence sel reg scan its kept"
  have "inj_on (key_of reg) (set kept)"
    by (rule inj_on_subset [OF assms(3)]) (use kept(2) in \<open>simp only: ids\<close>)
  then have cost: "cost ?ev reg = cost_of sel reg cost its kept"
    using assms(5) perm kept(2) by (intro packed_cost)
  have fits: "cost ?ev reg \<le> budget"
  proof (cases "kept = []")
    case True
    then show ?thesis unfolding cost using assms(6) by (simp add: cost_of_def)
  qed (use inv cost in \<open>simp add: pack_inv_def\<close>)
  obtain sps where "require_all reg (ps_items sel) = Inr sps"
    using assms(1) by (auto simp flip: require_all_Inr)
  then have "budget_pack scan sel reg budget cost min_sources ranks = Inr ?ev"
    using ne units fits by (simp add: budget_pack_def Let_def kept_def flip: its_def)
  moreover have "on_facet its f \<subseteq> set kept \<or> on_facet its f \<inter> set kept = {}" if "conflict_facet its f" for f
    using cover [OF that] inv unfolding pack_inv_def by blast
  moreover have "mset (kept_ids ?ev) + mset (ev_dropped ?ev) = mset (map pi_span_id its)"
  proof -
    have "mset kept = filter_mset (\<lambda>x. x \<in> set kept) (mset (map pi_span_id its))"
    proof -
      have "set (filter (\<lambda>x. x \<in> set kept) (map pi_span_id its)) = set kept" using kept(2) by auto
      moreover have "distinct (filter (\<lambda>x. x \<in> set kept) (map pi_span_id its))" using dist by simp
      ultimately have "mset kept = mset (filter (\<lambda>x. x \<in> set kept) (map pi_span_id its))"
        using kept(1) by (metis set_eq_iff_mset_eq_distinct)
      then show ?thesis by simp
    qed
    then show ?thesis
      unfolding kept_packed(1) [where scan = scan, OF kept(2) perm]
      by (simp add: packed_evidence_def Let_def)
  qed
  moreover have "ev_bridges ?ev = bridges_supported (ps_bridges sel) (kept_ids ?ev)"
    using kept_packed(2) [where scan = scan, OF kept(2) perm, of sel reg]
    by (simp add: packed_evidence_def Let_def bridges_supported_def)
  ultimately show ?thesis using fits kept_packed(2) [where scan = scan, OF kept(2) perm, of sel reg] by (intro exI [of _ ?ev]) simp
qed

text \<open>
   When the gaps alone cost more than the budget, the packer does not report an overshooting
  selection: with at least one selected span it raises the error its comment reserves for a defect of
  the function itself, and with none it returns, over budget and with every bridge, whether or not the
  spans the bridge is bound to were selected.
\<close>

theorem budget_pack_gaps_overflow:
  assumes "registered reg (ps_items sel)" and "ps_items sel \<noteq> []"
    and "\<And>ev. ev_gaps ev = ps_gaps sel \<Longrightarrow> budget < cost ev reg"
  shows "(\<exists>n > budget. budget_pack scan sel reg budget cost min_sources ranks = Inl (PackedDiffers n budget))
    \<and> (\<exists>ev. budget_pack scan (sel\<lparr>ps_items := []\<rparr>) reg budget cost min_sources ranks = Inr ev
         \<and> budget < cost ev reg \<and> ev_bridges ev = ps_bridges sel)"
proof
  let ?its = "dedup_items (ps_items sel)"
  have ids: "pi_span_id ` set ?its = pi_span_id ` set (ps_items sel)" and dist: "distinct (map pi_span_id ?its)"
    using dedup_items_ok [of "ps_items sel"] by simp_all
  then have ne: "?its \<noteq> []" using assms(2) by auto
  obtain units where units: "atomic_units ?its (conflict_facet ?its) = Some units"
    by (rule pack_units [OF dist, of "conflict_facet ?its"]) (rule that)
  have over: "budget < cost (packed_evidence sel reg scan ?its kept) reg" for kept
    by (rule assms(3)) (simp add: packed_evidence_def Let_def)
  obtain sps where "require_all reg (ps_items sel) = Inr sps"
    using assms(1) by (auto simp flip: require_all_Inr)
  with ne units over show "\<exists>n > budget. budget_pack scan sel reg budget cost min_sources ranks = Inl (PackedDiffers n budget)"
    by (simp add: budget_pack_def Let_def)
  let ?ev = "\<lparr>ev_items = [], ev_gaps = ps_gaps sel, ev_bridges = ps_bridges sel, ev_dropped = [], ev_dropped_bridges = []\<rparr>"
  have "budget_pack scan (sel\<lparr>ps_items := []\<rparr>) reg budget cost min_sources ranks = Inr ?ev"
    by (simp add: budget_pack_def require_all_def dedup_items_def)
  then show "\<exists>ev. budget_pack scan (sel\<lparr>ps_items := []\<rparr>) reg budget cost min_sources ranks = Inr ev
         \<and> budget < cost ev reg \<and> ev_bridges ev = ps_bridges sel"
    using assms(3) [of ?ev] by simp
qed

subsection \<open>Concrete packs\<close>

text \<open>Three spans of one page, two of them a disagreement, at ten tokens an item and five a gap.\<close>

definition sample_span :: "string \<Rightarrow> int \<Rightarrow> span" where
  "sample_span sid start = \<lparr>sp_namespace = ''RAW_SOURCE'', sp_span_id = Some sid, sp_content_hash = Some ''page'',
     sp_char_start = Some start, sp_char_end = Some (start + 9), sp_visible_span_id = None, sp_message_id = None,
     sp_message_role = None, sp_byte_start = None, sp_byte_end = None, sp_view_hash = None,
     sp_occurrences = Some [''o''], sp_text_sha256 = [], sp_kind = ''paragraph'', sp_heading_path = [],
     sp_heading_refs = [], sp_context_refs = [], sp_token_len = 3, sp_chunker_version = Some ''v1''\<rparr>"

definition sample_registry :: registry where
  "sample_registry = [(''a'', sample_span ''a'' 0), (''b'', sample_span ''b'' 10), (''c'', sample_span ''c'' 20)]"

definition sample_selection :: parsed_selection where
  "sample_selection = \<lparr>ps_contract = ''P1_TYPED'', ps_items = sample_items,
     ps_gaps = [\<lparr>pg_facet_id = ''g'', pg_query_ids = [''q'']\<rparr>], ps_bridges = [],
     ps_normalization = tally_record 3 None (new_tally 3)\<rparr>"

definition sample_cost :: coster where
  "sample_cost ev reg = 10 * int (length (ev_items ev)) + 5 * int (length (ev_gaps ev))"

lemma sample_registered: "registered sample_registry (ps_items sample_selection)"
  by (simp add: registered_def sample_registry_def sample_selection_def sample_items_def)

lemma sample_keys: "inj_on (key_of sample_registry) (pi_span_id ` set (ps_items sample_selection))"
proof -
  have "distinct (map (key_of sample_registry) [''a'', ''b'', ''c''])" by code_simp
  then show ?thesis by (auto simp: distinct_map sample_selection_def sample_items_def)
qed

theorem budget_pack_sound_witness:
  "\<exists>ev. budget_pack id sample_selection sample_registry 25 sample_cost 1 None = Inr ev
    \<and> sample_cost ev sample_registry \<le> 25 \<and> mset (kept_ids ev) + mset (ev_dropped ev) = {#''a'', ''b'', ''c''#}"
proof -
  have drops: "sees_no_drops sample_cost" by (simp add: sees_no_drops_def sample_cost_def)
  have ne: "ps_items sample_selection \<noteq> []" by (simp add: sample_selection_def sample_items_def)
  have fits: "sample_cost (trial_evidence sample_selection []) sample_registry \<le> 25"
    by (simp add: sample_cost_def trial_evidence_def sample_selection_def)
  have "distinct (map pi_span_id (ps_items sample_selection))" by (simp add: sample_selection_def sample_items_def)
  then have "mset (map pi_span_id (dedup_items (ps_items sample_selection))) = {#''a'', ''b'', ''c''#}"
    by (simp add: dedup_items_distinct) (simp add: sample_selection_def sample_items_def)
  with budget_pack_sound [OF sample_registered ne sample_keys _ drops fits, of id 1 None] show ?thesis by auto
qed

theorem budget_pack_gaps_overflow_witness:
  "\<exists>n > 3. budget_pack id sample_selection sample_registry 3 sample_cost 1 None = Inl (PackedDiffers n 3)"
proof -
  have "ps_items sample_selection \<noteq> []" by (simp add: sample_selection_def sample_items_def)
  moreover have "3 < sample_cost ev sample_registry" if "ev_gaps ev = ps_gaps sample_selection" for ev
    using that by (simp add: sample_cost_def sample_selection_def)
  ultimately show ?thesis
    using budget_pack_gaps_overflow [OF sample_registered, of 3 sample_cost id 1 None] by blast
qed

theorem coverage_keeps_disagreements_witness:
  "\<exists>ev. coverage_budget sample_selection sample_registry 0 sample_cost 1 None = Inr ev \<and> {''a'', ''c''} \<subseteq> set (kept_ids ev)"
proof -
  have "\<not> isl (coverage_budget sample_selection sample_registry 0 sample_cost 1 None)" by code_simp
  then obtain ev where ev: "coverage_budget sample_selection sample_registry 0 sample_cost 1 None = Inr ev"
    by (cases "coverage_budget sample_selection sample_registry 0 sample_cost 1 None") auto
  have "distinct (map pi_span_id (ps_items sample_selection))" by (simp add: sample_selection_def sample_items_def)
  then have its: "dedup_items (ps_items sample_selection) = sample_items"
    by (simp add: dedup_items_distinct) (simp add: sample_selection_def)
  have "conflict_facet sample_items ''f''" by code_simp
  with coverage_keeps_disagreements [OF ev] its have "on_facet sample_items ''f'' \<subseteq> set (kept_ids ev)" by simp
  moreover have "on_facet sample_items ''f''
      = pi_span_id ` set (filter (\<lambda>it. ''f'' \<in> fst ` set (pi_relations it)) sample_items)"
    by (auto simp: on_facet_def)
  then have "{''a'', ''c''} \<subseteq> on_facet sample_items ''f''" by (simp add: sample_items_def)
  ultimately show ?thesis using ev by blast
qed

theorem stable_union_order_free_witness:
  "stable_union (sample_selection\<lparr>ps_items := rev sample_items\<rparr>) sample_registry
     = stable_union sample_selection sample_registry"
proof -
  have "mset (rev sample_items) = mset (ps_items sample_selection)" by (simp add: sample_selection_def)
  moreover have "distinct (map pi_span_id (rev sample_items))" by (simp add: sample_items_def)
  moreover have "registered sample_registry (rev sample_items)" "inj_on (key_of sample_registry) (pi_span_id ` set (rev sample_items))"
    using sample_registered sample_keys by (simp_all add: sample_selection_def registered_def)
  ultimately show ?thesis using stable_union_order_free [of "rev sample_items" sample_selection sample_registry] by auto
qed

end
