(* ===== verification/Lineage.thy ===== *)
theory Lineage
  imports SpanIdentity
begin

text \<open>
  \<^verbatim>\<open>src/src/shapeflow/evidence/lineage.py\<close>: a span must reproduce the bytes it claims to address, and its
  citations must name known occurrences. An error is a value with what the message shows; a missing key
  (\<open>span["content_hash"]\<close> on a span without one) is \<open>Inl\<close>, the \<open>KeyError\<close> of the code.
\<close>

datatype span_issue =
    NotAvailable string string
  | OutOfBounds string int int nat
  | HashMismatch string
  | UnknownNamespaceOf string string
  | UnknownOccurrence string string

datatype missing_key = MissingField string

definition need :: "string \<Rightarrow> 'a option \<Rightarrow> missing_key + 'a" where
  "need k x = (case x of None \<Rightarrow> Inl (MissingField k) | Some v \<Rightarrow> Inr v)"

text \<open>\<open>x or y\<close> for text that may be absent.\<close>

definition or_else :: "string option \<Rightarrow> string \<Rightarrow> string" where
  "or_else x y = (case x of None \<Rightarrow> y | Some s \<Rightarrow> if s = [] then y else s)"

definition short_id :: "span \<Rightarrow> string" where
  "short_id sp = take 12 (or_else (sp_span_id sp) (or_else (sp_visible_span_id sp) ''?''))"

definition raw_source_error ::
  "(string \<Rightarrow> string) \<Rightarrow> (string \<times> utext) list \<Rightarrow> span \<Rightarrow> missing_key + span_issue option" where
  "raw_source_error sha snapshots sp =
     rbind (need ''content_hash'' (sp_content_hash sp)) (\<lambda>ch.
       case map_of snapshots ch of
         None \<Rightarrow> Inr (Some (NotAvailable (short_id sp) (take 12 ch)))
       | Some text \<Rightarrow>
           rbind (need ''char_start'' (sp_char_start sp)) (\<lambda>s.
           rbind (need ''char_end'' (sp_char_end sp)) (\<lambda>e.
             if \<not> (0 \<le> s \<and> s \<le> e \<and> e \<le> int (length text))
             then Inr (Some (OutOfBounds (short_id sp) s e (length text)))
             else if sha256_hex sha (utf8 (py_slice s e text)) \<noteq> sp_text_sha256 sp
             then Inr (Some (HashMismatch (short_id sp)))
             else Inr None)))"

definition visible_message_error ::
  "(string \<Rightarrow> string) \<Rightarrow> (string \<times> string) list \<Rightarrow> span \<Rightarrow> missing_key + span_issue option" where
  "visible_message_error sha views sp =
     rbind (need ''visible_compressor_view_hash'' (sp_view_hash sp)) (\<lambda>vh.
       case map_of views vh of
         None \<Rightarrow> Inr (Some (NotAvailable (short_id sp) (take 12 vh)))
       | Some view \<Rightarrow>
           rbind (need ''byte_start'' (sp_byte_start sp)) (\<lambda>s.
           rbind (need ''byte_end'' (sp_byte_end sp)) (\<lambda>e.
             if \<not> (0 \<le> s \<and> s \<le> e \<and> e \<le> int (length view))
             then Inr (Some (OutOfBounds (short_id sp) s e (length view)))
             else if sha256_hex sha (py_slice s e view) \<noteq> sp_text_sha256 sp
             then Inr (Some (HashMismatch (short_id sp)))
             else Inr None)))"

definition reconstruction_error ::
  "(string \<Rightarrow> string) \<Rightarrow> (string \<times> utext) list \<Rightarrow> (string \<times> string) list \<Rightarrow> span
     \<Rightarrow> missing_key + span_issue option" where
  "reconstruction_error sha snapshots views sp =
     (if sp_namespace sp = ''RAW_SOURCE'' then raw_source_error sha snapshots sp
      else if sp_namespace sp = ''VISIBLE_MESSAGE'' then visible_message_error sha views sp
      else Inr (Some (UnknownNamespaceOf (short_id sp) (sp_namespace sp))))"

text \<open>The errors of all spans, in order.\<close>

definition some_values :: "'a option list \<Rightarrow> 'a list" where
  "some_values xs = concat (map (\<lambda>x. case x of None \<Rightarrow> [] | Some v \<Rightarrow> [v]) xs)"

definition reconstruction_errors ::
  "(string \<Rightarrow> string) \<Rightarrow> (string \<times> utext) list \<Rightarrow> (string \<times> string) list \<Rightarrow> span list
     \<Rightarrow> missing_key + span_issue list" where
  "reconstruction_errors sha snapshots views spans =
     rbind (rmap (reconstruction_error sha snapshots views) spans) (\<lambda>es. Inr (some_values es))"

definition lineage_closure_errors :: "string list \<Rightarrow> span list \<Rightarrow> span_issue list" where
  "lineage_closure_errors known spans =
     concat (map (\<lambda>sp. map (\<lambda>oid. UnknownOccurrence (short_id sp) (take 12 oid))
       (filter (\<lambda>oid. oid \<notin> set known) (case sp_occurrences sp of None \<Rightarrow> [] | Some os \<Rightarrow> os))) spans)"

subsection \<open>Spans and the bytes they address\<close>

lemma some_values_Nil: "some_values xs = [] \<longleftrightarrow> set xs \<subseteq> {None}"
  by (auto simp: some_values_def split: option.splits)

lemma reconstruction_errors_Nil:
  "reconstruction_errors sha snapshots views spans = Inr [] \<longleftrightarrow>
     (\<forall>sp \<in> set spans. reconstruction_error sha snapshots views sp = Inr None)"
proof (induction spans)
  case Nil
  then show ?case by (simp add: reconstruction_errors_def some_values_def)
next
  case (Cons sp spans)
  then show ?case
    by (cases "reconstruction_error sha snapshots views sp"; cases "rmap (reconstruction_error sha snapshots views) spans")
       (auto simp: reconstruction_errors_def some_values_def split: option.splits)
qed

text \<open>A span that was built over an offered text reconstructs from it.\<close>

lemma built_span_reconstructs:
  assumes "build_evidence_span sha fr c source h occs version = Inr sp"
    and "0 \<le> ck_char_start c" "ck_char_start c \<le> ck_char_end c" "ck_char_end c \<le> int (length source)"
    and "map_of snapshots h = Some source"
  shows "reconstruction_error sha snapshots views sp = Inr None"
  using assms
  by (auto simp: build_evidence_span_def reconstruction_error_def raw_source_error_def need_def chunk_text_def Let_def
      split: if_splits sum.splits)

text \<open>
  Spans are bound to their bytes. A span built over a frozen text reconstructs without error as long
  as the text is there; and with a collision-free digest, whenever a built span reconstructs, against
  whatever snapshots are on hand then, the snapshot has exactly the built bytes at the span's offsets.
\<close>

theorem spans_bound_to_bytes:
  assumes "inj sha" and "build_evidence_span sha fr c source h occs version = Inr sp"
    and "0 \<le> ck_char_start c" "ck_char_start c \<le> ck_char_end c" "ck_char_end c \<le> int (length source)"
  shows "(map_of snapshots h = Some source \<longrightarrow> reconstruction_errors sha snapshots views [sp] = Inr [])
    \<and> (reconstruction_errors sha snapshots views [sp] = Inr [] \<longrightarrow>
         (\<exists>text. map_of snapshots h = Some text \<and> ck_char_end c \<le> int (length text)
            \<and> utf8 (py_slice (ck_char_start c) (ck_char_end c) text) = utf8 (chunk_text c source)))"
proof (intro conjI impI)
  assume "map_of snapshots h = Some source"
  with built_span_reconstructs [OF assms(2-5)] show "reconstruction_errors sha snapshots views [sp] = Inr []"
    by (simp add: reconstruction_errors_Nil)
next
  assume "reconstruction_errors sha snapshots views [sp] = Inr []"
  then have "raw_source_error sha snapshots sp = Inr None"
    using assms(2) by (auto simp: reconstruction_errors_Nil reconstruction_error_def build_evidence_span_def Let_def
        split: if_splits sum.splits)
  then show "\<exists>text. map_of snapshots h = Some text \<and> ck_char_end c \<le> int (length text)
            \<and> utf8 (py_slice (ck_char_start c) (ck_char_end c) text) = utf8 (chunk_text c source)"
    using assms(1,2)
    by (auto simp: raw_source_error_def need_def build_evidence_span_def sha256_hex_def Let_def result_elims
        split: if_splits sum.splits option.splits dest: injD)
qed

definition sample_source :: utext where
  "sample_source = map (\<lambda>c. [c]) ''one two''"

definition sample_chunk :: chunk where
  "sample_chunk = \<lparr>ck_char_start = 4, ck_char_end = 7, ck_kind = ''paragraph'', ck_heading_path = [],
     ck_token_len = 1, ck_context_ranges = [], ck_heading_ranges = []\<rparr>"

theorem spans_bound_to_bytes_witness:
  "\<exists>sp. build_evidence_span (\<lambda>s. s) (\<lambda>_. []) sample_chunk sample_source ''h'' [''o''] ''v1'' = Inr sp
     \<and> reconstruction_errors (\<lambda>s. s) [(''h'', sample_source)] [] [sp] = Inr []"
proof -
  have "\<exists>sid. evidence_span_id (\<lambda>s. s) (\<lambda>_. []) h s e t k v occs = Inr sid" for h s e t k v occs
    unfolding evidence_span_id_def by (rule derive_id_total) (auto simp: id_fields_def)
  then obtain sid where sid: "evidence_span_id (\<lambda>s. s) (\<lambda>_. []) ''h'' (ck_char_start sample_chunk)
      (ck_char_end sample_chunk) (sha256_hex (\<lambda>s. s) (utf8 (chunk_text sample_chunk sample_source)))
      (ck_kind sample_chunk) ''v1'' [''o''] = Inr sid" by blast
  obtain sp where sp: "build_evidence_span (\<lambda>s. s) (\<lambda>_. []) sample_chunk sample_source ''h'' [''o''] ''v1'' = Inr sp"
    by (simp add: build_evidence_span_def Let_def sid)
  have "inj (\<lambda>s :: string. s)" by (simp add: inj_def)
  from spans_bound_to_bytes [OF this sp, of "[(''h'', sample_source)]" "[]"] sp show ?thesis
    by (simp add: sample_chunk_def sample_source_def)
qed

end
