(* ===== verification/Renderer.thy ===== *)
theory Renderer
  imports Aggregators
begin

text \<open>
  \<^verbatim>\<open>src/src/shapeflow/p1/renderer.py\<close>: the deterministic serialization of aggregated evidence. The
  callables and mappings that \<open>render\<close> is given are the fields of \<open>render_env\<close>; one that raises gives an
  \<open>Inl\<close>, as does \<open>registry[...]\<close> on an unknown id (\<open>NoSuchKey\<close>). A \<open>source_meta\<close> entry is a dict of
  Python values. \<open>str(v)\<close> and \<open>int(v)\<close> are modelled for text, integers and booleans; the text of any
  other value is \<open>?\<close>, and its integer is an error.
\<close>

datatype render_error = SourceMetaLeak string | NoSuchKey string | NotAnInteger string | NotUtf8

type_synonym meta = "(string \<times> pyval) list"

record render_env =
  re_text :: "span \<Rightarrow> render_error + string"
  re_label :: "string \<Rightarrow> render_error + string"
  re_count :: "string \<Rightarrow> int"
  re_meta :: "(string \<times> meta) list"
  re_views :: "(string \<times> string) list"
  re_status :: "(string \<times> string) list"
  re_context :: "span \<Rightarrow> render_error + string list"
  re_headings :: "span \<Rightarrow> render_error + string list"

record render_result =
  rr_text :: string
  rr_tokens :: int
  rr_bytes :: nat

subsection \<open>UTF-8\<close>

text \<open>How many bytes the well-formed character at the front has, 0 if there is none.\<close>

definition char_width :: "nat list \<Rightarrow> nat" where
  "char_width bs =
     (let cont = (\<lambda>c. 0x80 \<le> c \<and> c \<le> (0xBF :: nat))
      in case bs of
           [] \<Rightarrow> 0
         | a # rest \<Rightarrow>
             if a \<le> 0x7F then 1
             else if 0xC2 \<le> a \<and> a \<le> 0xDF
             then (case rest of b # _ \<Rightarrow> if cont b then 2 else 0 | [] \<Rightarrow> 0)
             else if 0xE0 \<le> a \<and> a \<le> 0xEF
             then (case rest of
                     b # c # _ \<Rightarrow> if cont b \<and> cont c \<and> (a = 0xE0 \<longrightarrow> 0xA0 \<le> b) \<and> (a = 0xED \<longrightarrow> b \<le> 0x9F) then 3 else 0
                   | _ \<Rightarrow> 0)
             else if 0xF0 \<le> a \<and> a \<le> 0xF4
             then (case rest of
                     b # c # d # _ \<Rightarrow> if cont b \<and> cont c \<and> cont d \<and> (a = 0xF0 \<longrightarrow> 0x90 \<le> b) \<and> (a = 0xF4 \<longrightarrow> b \<le> 0x8F)
                        then 4 else 0
                   | _ \<Rightarrow> 0)
             else 0)"

fun utf8_ok_fuel :: "nat \<Rightarrow> nat list \<Rightarrow> bool" where
  "utf8_ok_fuel 0 bs = (bs = [])"
| "utf8_ok_fuel (Suc n) bs =
     (bs = [] \<or> (char_width bs \<noteq> 0 \<and> utf8_ok_fuel n (drop (char_width bs) bs)))"

definition utf8_ok :: "string \<Rightarrow> bool" where
  "utf8_ok s = utf8_ok_fuel (length s) (map of_char s)"

definition decode_utf8 :: "string \<Rightarrow> render_error + string" where
  "decode_utf8 s = (if utf8_ok s then Inr s else Inl NotUtf8)"

subsection \<open>Reading metadata\<close>

definition py_truthy :: "pyval \<Rightarrow> bool" where
  "py_truthy v = (case v of
     PNone \<Rightarrow> False | PBool b \<Rightarrow> b | PInt i \<Rightarrow> i \<noteq> 0 | PFloat f \<Rightarrow> f \<noteq> Finite 0 | PStr s \<Rightarrow> s \<noteq> []
   | PBytes s \<Rightarrow> s \<noteq> [] | PList xs \<Rightarrow> xs \<noteq> [] | PTuple xs \<Rightarrow> xs \<noteq> [] | PSet xs \<Rightarrow> xs \<noteq> []
   | PDict kvs \<Rightarrow> kvs \<noteq> [] | PSurrogate \<Rightarrow> True | PObject \<Rightarrow> True)"

definition py_text :: "pyval \<Rightarrow> string" where
  "py_text v = (case v of
     PStr s \<Rightarrow> s | PInt i \<Rightarrow> show_int i | PBool True \<Rightarrow> ''True'' | PBool False \<Rightarrow> ''False''
   | PNone \<Rightarrow> ''None'' | _ \<Rightarrow> ''?'')"

text \<open>\<open>str(meta.get(k) or "")\<close>, and \<open>int(meta[k])\<close>.\<close>

definition meta_text :: "meta \<Rightarrow> string \<Rightarrow> string" where
  "meta_text m k = (case map_of m k of None \<Rightarrow> [] | Some v \<Rightarrow> if py_truthy v then py_text v else [])"

definition meta_int :: "meta \<Rightarrow> string \<Rightarrow> render_error + int" where
  "meta_int m k = (case map_of m k of
     None \<Rightarrow> Inl (NoSuchKey k)
   | Some (PInt i) \<Rightarrow> Inr i
   | Some (PBool b) \<Rightarrow> Inr (if b then 1 else 0)
   | Some _ \<Rightarrow> Inl (NotAnInteger k))"

text \<open>The two resolvers of a context ref: the one over frozen texts, and the default that refuses.\<close>

definition context_text_for :: "(string \<times> utext) list \<Rightarrow> span_ref \<Rightarrow> render_error + string" where
  "context_text_for snapshots r = (case map_of snapshots (rf_content_hash r) of
     None \<Rightarrow> Inl (NoSuchKey (rf_content_hash r))
   | Some text \<Rightarrow> Inr (utf8 (py_slice (rf_char_start r) (rf_char_end r) text)))"

definition no_context :: "span_ref \<Rightarrow> render_error + string" where
  "no_context r = Inl (SourceMetaLeak [])"

definition resolve_each :: "(span_ref \<Rightarrow> render_error + string) \<Rightarrow> span_ref list \<Rightarrow> render_error + string list" where
  "resolve_each resolve refs = rmap resolve refs"

subsection \<open>Order and runs\<close>

definition renderer_grouping_version :: string where
  "renderer_grouping_version = ''renderer_visible_source_binding_and_order_v3''"

definition answered_statuses :: "string list" where
  "answered_statuses = [''OK'', ''EMPTY'']"

definition span_id_of :: "span \<Rightarrow> string" where
  "span_id_of sp = or_text (sp_span_id sp) (get_text (sp_visible_span_id sp))"

definition render_source_of :: "span \<Rightarrow> string" where
  "render_source_of sp = or_text (sp_content_hash sp) (or_text (sp_message_id sp) (span_id_of sp))"

definition start_end :: "span \<Rightarrow> render_error + int \<times> int" where
  "start_end sp =
     (case sp_char_start sp of
        Some s \<Rightarrow> (case sp_char_end sp of None \<Rightarrow> Inl (NoSuchKey ''char_end'') | Some e \<Rightarrow> Inr (s, e))
      | None \<Rightarrow>
          (case (sp_byte_start sp, sp_byte_end sp) of
             (Some s, Some e) \<Rightarrow> Inr (s, e)
           | (None, _) \<Rightarrow> Inl (NoSuchKey ''byte_start'')
           | _ \<Rightarrow> Inl (NoSuchKey ''byte_end'')))"

definition render_order_key :: "span \<Rightarrow> render_error + (string \<times> string \<times> int \<times> int \<times> string)" where
  "render_order_key sp = rbind (start_end sp) (\<lambda>(s, e).
     if sp_namespace sp = ''VISIBLE_MESSAGE''
     then Inr (sp_namespace sp, get_text (sp_view_hash sp), s, e, span_id_of sp)
     else Inr (sp_namespace sp, render_source_of sp, s, e, span_id_of sp))"

definition find_span :: "registry \<Rightarrow> string \<Rightarrow> render_error + span" where
  "find_span reg sid = (case map_of reg sid of None \<Rightarrow> Inl (NoSuchKey sid) | Some sp \<Rightarrow> Inr sp)"

text \<open>Each item with its span and key; \<open>sorted\<close> computes every key first.\<close>

definition canonical_order :: "agg_item list \<Rightarrow> registry \<Rightarrow> render_error + (agg_item \<times> span) list" where
  "canonical_order its reg =
     rbind (rmap (\<lambda>it. rbind (find_span reg (ai_span_id it)) (\<lambda>sp.
              rbind (render_order_key sp) (\<lambda>k. Inr (k, it, sp)))) its)
       (\<lambda>keyed. Inr (map snd (sort_key fst keyed)))"

definition non_citable_kinds :: "string list" where
  "non_citable_kinds = [''TOOL_UNATTRIBUTED_CONTEXT'', ''MODEL_DERIVED_CONTEXT'', ''USER_CONTEXT'']"

definition is_non_citable_context :: "span \<Rightarrow> bool" where
  "is_non_citable_context sp \<longleftrightarrow>
     sp_namespace sp = ''VISIBLE_MESSAGE'' \<and> sp_kind sp \<in> set non_citable_kinds"

definition context_header :: "string \<Rightarrow> string" where
  "context_header kind =
     (if kind = ''TOOL_UNATTRIBUTED_CONTEXT''
      then ''UNATTRIBUTED TOOL CONTEXT (non-citable; not source evidence):''
      else if kind = ''MODEL_DERIVED_CONTEXT''
      then ''MODEL-DERIVED CONTEXT (non-citable; not source evidence):''
      else ''USER CONTEXT (non-citable; not source evidence):'')"

datatype source_tag =
    VisibleRange "pyval option" "pyval option" "pyval option" "pyval list"
  | SpanSource string string

definition meta_items :: "pyval option \<Rightarrow> pyval list" where
  "meta_items v = (case v of Some (PList xs) \<Rightarrow> xs | Some (PTuple xs) \<Rightarrow> xs | _ \<Rightarrow> [])"

definition source_identity :: "(string \<times> meta) list \<Rightarrow> span \<Rightarrow> string \<Rightarrow> source_tag" where
  "source_identity metas sp sid =
     (case map_of metas sid of
        Some (kv # m) \<Rightarrow>
          if sp_namespace sp = ''VISIBLE_MESSAGE''
          then VisibleRange (map_of (kv # m) ''visible_compressor_view_hash'') (map_of (kv # m) ''byte_start'')
                 (map_of (kv # m) ''byte_end'') (meta_items (map_of (kv # m) ''source_occurrence_ids''))
          else SpanSource (sp_namespace sp) (render_source_of sp)
      | _ \<Rightarrow> SpanSource (sp_namespace sp) (render_source_of sp))"

definition id_or :: "span \<Rightarrow> string \<Rightarrow> string" where
  "id_or sp sid = (if span_id_of sp = [] then sid else span_id_of sp)"

definition abuts :: "(string \<times> meta) list \<Rightarrow> agg_item \<times> span \<Rightarrow> agg_item \<times> span \<Rightarrow> render_error + bool" where
  "abuts metas prev cur =
     (case (prev, cur) of ((pit, psp), (it, sp)) \<Rightarrow>
        if source_identity metas psp (id_or psp (ai_span_id pit)) = source_identity metas sp (id_or sp (ai_span_id it))
        then rbind (start_end sp) (\<lambda>(s, e). rbind (start_end psp) (\<lambda>(s', e'). Inr (0 \<le> s - e' \<and> s - e' \<le> 2)))
        else Inr False)"

text \<open>Runs in order; the last run of the list is the one an item may join.\<close>

definition run_step ::
  "(string \<times> meta) list \<Rightarrow> agg_item \<times> span \<Rightarrow> (agg_item \<times> span) list list
     \<Rightarrow> render_error + (agg_item \<times> span) list list" where
  "run_step metas cur runs =
     (if runs = [] then Inr [[cur]]
      else rbind (abuts metas (last (last runs)) cur) (\<lambda>adjacent.
        Inr (if adjacent then butlast runs @ [last runs @ [cur]] else runs @ [[cur]])))"

definition contiguous_runs ::
  "(string \<times> meta) list \<Rightarrow> (agg_item \<times> span) list \<Rightarrow> render_error + (agg_item \<times> span) list list" where
  "contiguous_runs metas its = rfold (run_step metas) its []"

subsection \<open>Titles\<close>

text \<open>\<open>f"{title} -- {url}".strip(" --")\<close> with the em dash, which is three bytes.\<close>

definition em_dash :: string where
  "em_dash = [CHR 0xE2, CHR 0x80, CHR 0x94]"

fun strip_front :: "string \<Rightarrow> string" where
  "strip_front (c # s) =
     (if c = CHR '' '' then strip_front s
      else if take 3 (c # s) = em_dash then strip_front (drop 2 s) else c # s)"
| "strip_front [] = []"

fun strip_back_rev :: "string \<Rightarrow> string" where
  "strip_back_rev (c # s) =
     (if c = CHR '' '' then strip_back_rev s
      else if take 3 (c # s) = rev em_dash then strip_back_rev (drop 2 s) else c # s)"
| "strip_back_rev [] = []"

definition strip_dashes :: "string \<Rightarrow> string" where
  "strip_dashes s = rev (strip_back_rev (rev (strip_front s)))"

definition plain_text :: "meta \<Rightarrow> string \<Rightarrow> string" where
  "plain_text m k = (case map_of m k of None \<Rightarrow> [] | Some v \<Rightarrow> py_text v)"

definition title_url :: "(string \<times> meta) list \<Rightarrow> string \<Rightarrow> string" where
  "title_url metas sid =
     (let m = (case map_of metas sid of None \<Rightarrow> [] | Some m \<Rightarrow> m);
          has = (\<lambda>k. case map_of m k of None \<Rightarrow> False | Some v \<Rightarrow> py_truthy v)
      in if has ''title'' \<or> has ''url''
         then strip_dashes (plain_text m ''title'' @ '' '' @ em_dash @ '' '' @ plain_text m ''url'')
         else ''(source)'')"

definition check_field ::
  "string \<Rightarrow> meta \<Rightarrow> string \<Rightarrow> string \<Rightarrow> render_error + unit" where
  "check_field sid m view field =
     rbind (meta_int m (field @ ''_byte_start'')) (\<lambda>s.
     rbind (meta_int m (field @ ''_byte_end'')) (\<lambda>e.
     rbind (decode_utf8 (py_slice s e view)) (\<lambda>actual.
       if meta_text m field = ''(untitled source)'' \<and> s = e then Inr ()
       else if actual \<noteq> meta_text m field then Inl (SourceMetaLeak sid) else Inr ())))"

definition check_visible_provenance ::
  "span \<Rightarrow> string \<Rightarrow> (string \<times> meta) list \<Rightarrow> (string \<times> string) list \<Rightarrow> render_error + unit" where
  "check_visible_provenance sp sid metas views =
     (case map_of metas sid of
        None \<Rightarrow> Inr ()
      | Some [] \<Rightarrow> Inr ()
      | Some m \<Rightarrow>
          if map_of m ''binding_version'' \<noteq> Some (PStr ''visible_source_byte_range_v1'') then Inl (SourceMetaLeak sid)
          else if meta_text m ''visible_compressor_view_hash'' \<noteq> get_text (sp_view_hash sp) then Inl (SourceMetaLeak sid)
          else (case map_of views (meta_text m ''visible_compressor_view_hash'') of
                  None \<Rightarrow> Inl (SourceMetaLeak sid)
                | Some view \<Rightarrow>
                    rbind (meta_int m ''byte_start'') (\<lambda>bs.
                    rbind (meta_int m ''byte_end'') (\<lambda>be.
                      (case (sp_byte_start sp, sp_byte_end sp) of
                         (Some s, Some e) \<Rightarrow>
                           if \<not> (0 \<le> bs \<and> bs \<le> s \<and> s \<le> e \<and> e \<le> be \<and> be \<le> int (length view))
                           then Inl (SourceMetaLeak sid)
                           else rbind (check_field sid m view ''title'') (\<lambda>_. check_field sid m view ''url'')
                       | _ \<Rightarrow> Inl (NoSuchKey ''byte_start''))))))"

subsection \<open>Lines\<close>

definition sep_join :: "string \<Rightarrow> string list \<Rightarrow> string" where
  "sep_join sep parts = (case parts of [] \<Rightarrow> [] | p # ps \<Rightarrow> p @ concat (map (\<lambda>q. sep @ q) ps))"

text \<open>The shown relations; the \<open>elif item.role\<close> branch needs a role without relations and never runs.\<close>

definition shown_relations :: "agg_item \<Rightarrow> string list" where
  "shown_relations it = concat (map (\<lambda>(f, r). case r of
       None \<Rightarrow> [] | Some s \<Rightarrow> if s = [] then [] else [if f \<noteq> overall_facet then s @ '':'' @ f else s])
     (ai_relations it))"

definition item_lines :: "render_env \<Rightarrow> agg_item \<times> span \<Rightarrow> render_error + string list" where
  "item_lines E x =
     (case x of (it, sp) \<Rightarrow>
        let context = is_non_citable_context sp; shown = shown_relations it
        in rbind (re_label E (ai_span_id it)) (\<lambda>label.
           rbind (re_headings E sp) (\<lambda>headings.
           rbind (re_context E sp) (\<lambda>contexts.
           rbind (re_text E sp) (\<lambda>body.
             let bits = [if context then ''CONTEXT ITEM (handle '' @ label @ ''; non-citable)'' else ''['' @ label @ '']'']
                   @ (if shown = [] then []
                      else if context then [''context roles: '' @ sep_join '', '' shown]
                      else [''('' @ sep_join '', '' shown @ '')''])
                   @ (if headings = [] then [] else [''under: '' @ sep_join '' > '' headings])
             in Inr ([sep_join '' '' bits] @ map (\<lambda>c. ''  ctx| '' @ c) contexts @ [body]))))))"

definition run_lines :: "render_env \<Rightarrow> (agg_item \<times> span) list \<Rightarrow> render_error + string list" where
  "run_lines E run =
     (case run of
        [] \<Rightarrow> Inr []
      | (it, sp) # rest \<Rightarrow>
          let sid = id_or sp (ai_span_id it); context = is_non_citable_context sp;
              has_meta = (\<lambda>x. case map_of (re_meta E) (ai_span_id (fst x)) of None \<Rightarrow> False | Some m \<Rightarrow> m \<noteq> [])
          in rbind (if sp_namespace sp = ''VISIBLE_MESSAGE''
                    then (if context
                          then (if list_ex has_meta run then Inl (SourceMetaLeak sid) else Inr [])
                          else rmap (\<lambda>(it, sp). check_visible_provenance sp (id_or sp (ai_span_id it)) (re_meta E) (re_views E)) run)
                    else Inr []) (\<lambda>_.
             rbind (rmap (item_lines E) run) (\<lambda>lss.
               Inr ([if context then context_header (sp_kind sp) else ''SOURCE: '' @ title_url (re_meta E) sid]
                    @ concat lss @ [[]]))))"

definition gap_line :: "(string \<times> string) list \<Rightarrow> parsed_gap \<Rightarrow> string" where
  "gap_line status g =
     (let statuses = dedup (map (\<lambda>q. case map_of status q of None \<Rightarrow> ''UNKNOWN'' | Some s \<Rightarrow> s) (pg_query_ids g));
          note = (if list_ex (\<lambda>s. s \<in> set answered_statuses) statuses then ''no evidence found''
                  else ''search did not complete ('' @ sep_join ''/'' (sort statuses) @ ''); coverage unknown'')
      in ''[GAP facet '' @ pg_facet_id g @ ''] '' @ note @ '' ('' @ sep_join '','' (pg_query_ids g) @ '')'')"

definition bridge_line :: "render_env \<Rightarrow> parsed_bridge \<Rightarrow> render_error + string" where
  "bridge_line E b = rbind (rmap (re_label E) (pb_evidence b)) (\<lambda>refs.
     Inr (''[BRIDGE] '' @ pb_text b @ '' ('' @ sep_join '','' refs @ '')''))"

definition render_evidence :: "render_env \<Rightarrow> evidence \<Rightarrow> registry \<Rightarrow> render_error + render_result" where
  "render_evidence E ev reg =
     rbind (canonical_order (ev_items ev) reg) (\<lambda>ordered.
     rbind (contiguous_runs (re_meta E) ordered) (\<lambda>runs.
     rbind (rmap (run_lines E) runs) (\<lambda>lss.
     rbind (rmap (bridge_line E) (ev_bridges ev)) (\<lambda>bridges.
       let text = sep_join [CHR 0x0A] (concat lss @ map (gap_line (re_status E)) (ev_gaps ev) @ bridges)
       in Inr \<lparr>rr_text = text, rr_tokens = re_count E text, rr_bytes = length text\<rparr>))))"

definition make_coster :: "render_env \<Rightarrow> evidence \<Rightarrow> registry \<Rightarrow> render_error + int" where
  "make_coster E ev reg = rbind (render_evidence E ev reg) (\<lambda>r. Inr (rr_tokens r))"

end
