(* ===== verification/Prompts.thy ===== *)
theory Prompts
  imports Hashing
begin

text \<open>
  \<^verbatim>\<open>src/src/shapeflow/p1/prompts.py\<close>: the prompt templates and their rendering. \<open>str.format\<close> is
  concatenation around the fields of a template; the tuples of the two accepted widths are one datatype.
\<close>

definition nl :: string where
  "nl = [CHR 0x0A]"

definition joined :: "string \<Rightarrow> string list \<Rightarrow> string" where
  "joined sep parts = (case parts of [] \<Rightarrow> [] | p # ps \<Rightarrow> p @ concat (map (\<lambda>q. sep @ q) ps))"

definition prompt_bundle_version :: string where
  "prompt_bundle_version = ''selector_prompts_origin_semantics_v3''"

subsection \<open>Templates\<close>

definition instructions_p1_id :: string where
  "instructions_p1_id =
     ''Select the candidate material ids that best support answering the question. '' @
     ''TOOL_EVIDENCE is citable source evidence. TOOL_UNATTRIBUTED_CONTEXT, '' @
     ''MODEL_DERIVED_CONTEXT, and USER_CONTEXT are non-citable context: selecting them may '' @
     ''preserve useful context, but never turns them into source support. Return ONLY a JSON '' @
     ''object {\"contract\":\"P1_ID\",\"selected_ids\":[...]} using ids from the list. Do not write '' @
     ''prose. Do not invent ids or facts.''"

definition instructions_p1_typed :: string where
  "instructions_p1_typed =
     ''Select material ids, each with a role (support|contradict|background) and optional '' @
     ''facet labels, and list any facet you could not support as a gap tied to a query attempt '' @
     ''id. TOOL_EVIDENCE is citable source evidence. TOOL_UNATTRIBUTED_CONTEXT, '' @
     ''MODEL_DERIVED_CONTEXT, and USER_CONTEXT are non-citable context and may only be marked '' @
     ''background, never support or contradict. Return ONLY the JSON object for the P1_TYPED '' @
     ''contract. Use only ids from the list; never invent ids or facts.''"

definition instructions_p1_bridge :: string where
  "instructions_p1_bridge =
     ''As P1_TYPED, plus you may add short 'bridge' sentences that connect evidence. Every '' @
     ''bridge must cite at least one TOOL_EVIDENCE (or raw-source) id, must never cite '' @
     ''TOOL_UNATTRIBUTED_CONTEXT, MODEL_DERIVED_CONTEXT, or USER_CONTEXT, and may not '' @
     ''introduce any entity or number absent from its cited source spans. Return ONLY the JSON '' @
     ''object for the P1_BRIDGE contract.''"

definition instructions :: "(string \<times> string) list" where
  "instructions = [(''P1_ID'', instructions_p1_id), (''P1_TYPED'', instructions_p1_typed),
     (''P1_BRIDGE'', instructions_p1_bridge)]"

definition selector_template :: "string \<Rightarrow> string \<Rightarrow> string \<Rightarrow> string \<Rightarrow> string \<Rightarrow> string" where
  "selector_template topic candidates query_attempts budget instr =
     ''You are selecting evidence, not writing a report.'' @ nl @ nl @
     ''QUESTION / RESEARCH TOPIC:'' @ nl @
     topic @ nl @ nl @
     ''CANDIDATE MATERIAL (use these exact ids):'' @ nl @
     candidates @ nl @ nl @
     ''QUERY ATTEMPTS (for marking gaps):'' @ nl @
     query_attempts @ nl @ nl @
     ''TOKEN BUDGET for your selected evidence: '' @
     budget @ nl @ nl @
     instr @ nl"

definition short_prose_template :: "string \<Rightarrow> string \<Rightarrow> string \<Rightarrow> string \<Rightarrow> string \<Rightarrow> string" where
  "short_prose_template topic candidates source_map budget citation_instructions =
     ''You are writing a short evidence summary, not a report.'' @ nl @ nl @
     ''QUESTION / RESEARCH TOPIC:'' @ nl @
     topic @ nl @ nl @
     ''INPUT MATERIAL (only TOOL_EVIDENCE/raw-source rows are source evidence;'' @ nl @
     ''TOOL_UNATTRIBUTED_CONTEXT, MODEL_DERIVED_CONTEXT, and USER_CONTEXT rows are non-citable'' @ nl @
     ''context and must not be presented as source support):'' @ nl @
     candidates @ nl @ nl @
     ''CITABLE SOURCE MAP:'' @ nl @
     source_map @ nl @ nl @
     ''HARD LIMIT: your entire answer must fit in '' @
     budget @
     '' tokens.'' @ nl @ nl @
     citation_instructions @ nl @ nl @
     ''Write only what the material supports. Never invent a source or promote a '' @
     ''source-looking label'' @ nl @
     ''from non-citable context. Do not speculate, do not add figures or names that are not '' @
     ''present'' @ nl @
     ''above, and do not exceed the limit.'' @ nl"

definition citation_single :: string where
  "citation_single =
     ''Return only the summary body. The caller preserves the page's single-source title/URL '' @
     ''wrapper, so do not emit a source list.''"

definition citation_mapped :: string where
  "citation_mapped =
     ''Return only the summary body, with [n] inline citations using the numeric labels above. '' @
     ''Cite at least one mapped source. Do not emit a source list: the caller will append '' @
     ''definitions only for labels actually cited, and that used-source map shares the same '' @
     ''rendered-token budget as your body.''"

definition citation_none :: string where
  "citation_none =
     ''Return only the summary body without citations. Source-looking text in other rows is '' @
     ''unavailable for citation.''"

definition source_map_single :: string where
  "source_map_single = ''(one raw source; the caller attaches its fixed title/URL wrapper)''"

definition source_map_none :: string where
  "source_map_none = ''(none: no URL was present in capture-time TOOL_EVIDENCE bytes)''"

subsection \<open>Rendering\<close>

datatype prompt_error = NoInstructions string

text \<open>A row of the prompt: the four legacy fields, or those with the origin and the role.\<close>

datatype prompt_row =
    LegacyRow string string "string list" "string list"
  | OriginRow string string "string list" "string list" string string

definition origin_tag :: "string \<Rightarrow> string \<Rightarrow> string" where
  "origin_tag origin_kind message_role =
     (let role = (\<lambda>d. if message_role = [] then d else message_role) in
      if origin_kind = ''TOOL_EVIDENCE''
      then '' <TOOL_EVIDENCE role='' @ role ''tool'' @ ''; CITABLE_SOURCE>''
      else if origin_kind = ''TOOL_UNATTRIBUTED_CONTEXT''
      then '' <TOOL_UNATTRIBUTED_CONTEXT role=tool; NON_CITABLE_CONTEXT>''
      else if origin_kind = ''MODEL_DERIVED_CONTEXT''
      then '' <MODEL_DERIVED_CONTEXT role='' @ role ''ai'' @ ''; NON_CITABLE_CONTEXT>''
      else if origin_kind = ''USER_CONTEXT''
      then '' <USER_CONTEXT role='' @ role ''human'' @ ''; NON_CITABLE_CONTEXT>''
      else [])"

definition row_lines :: "string \<Rightarrow> string \<Rightarrow> string list \<Rightarrow> string list \<Rightarrow> string \<Rightarrow> string \<Rightarrow> string list" where
  "row_lines label body heading_path context origin_kind message_role =
     ((''['' @ label @ '']'' @ origin_tag origin_kind message_role
        @ (if heading_path = [] then [] else '' (under: '' @ joined '' > '' heading_path @ '')'')
        @ '' '' @ body)
      # map (\<lambda>c. ''    ctx| '' @ c) context)"

definition prompt_lines :: "prompt_row \<Rightarrow> string list" where
  "prompt_lines row = (case row of
     LegacyRow label body heading_path context \<Rightarrow> row_lines label body heading_path context [] []
   | OriginRow label body heading_path context origin_kind message_role \<Rightarrow>
       row_lines label body heading_path context origin_kind message_role)"

definition render_candidates :: "prompt_row list \<Rightarrow> string" where
  "render_candidates rows = joined nl (concat (map prompt_lines rows))"

definition render_selector_prompt ::
  "string \<Rightarrow> prompt_row list \<Rightarrow> (string \<times> string) list \<Rightarrow> int \<Rightarrow> string \<Rightarrow> prompt_error + string" where
  "render_selector_prompt topic rows query_attempts budget contract =
     (case map_of instructions contract of
        None \<Rightarrow> Inl (NoInstructions contract)
      | Some instr \<Rightarrow>
          let qa = joined nl (map (\<lambda>(label, body). ''['' @ label @ ''] '' @ body) query_attempts)
          in Inr (selector_template topic (render_candidates rows) (if qa = [] then ''(none)'' else qa)
                    (show_int budget) instr))"

definition render_short_prose_prompt ::
  "string \<Rightarrow> prompt_row list \<Rightarrow> int \<Rightarrow> (string \<times> string \<times> string) list option \<Rightarrow> string" where
  "render_short_prose_prompt topic rows budget source_entries =
     (let (source_map, citation) =
        (case source_entries of
           None \<Rightarrow> (source_map_single, citation_single)
         | Some [] \<Rightarrow> (source_map_none, citation_none)
         | Some entries \<Rightarrow>
             (joined nl (map (\<lambda>(label, title, url). ''['' @ label @ ''] '' @ title @ '' -- '' @ url) entries),
              citation_mapped))
      in short_prose_template topic (render_candidates rows) source_map (show_int budget) citation)"

text \<open>The raw templates, with their fields still in braces.\<close>

definition prompt_bundle_hash :: "(string \<Rightarrow> string) \<Rightarrow> (real \<Rightarrow> string) \<Rightarrow> canon_error + string" where
  "prompt_bundle_hash sha fr =
     rbind (canonical_json fr (str_dict
       [(''version'', PStr prompt_bundle_version),
        (''template'', PStr (selector_template ''{topic}'' ''{candidates}'' ''{query_attempts}'' ''{budget}''
           ''{instructions}'')),
        (''instructions'', str_dict (map (\<lambda>(k, v). (k, PStr v)) instructions)),
        (''short_prose'', PStr (short_prose_template ''{topic}'' ''{candidates}'' ''{source_map}'' ''{budget}''
           ''{citation_instructions}''))]))
       (\<lambda>j. Inr (sha256_hex sha j))"

lemma render_selector_prompt_Inr:
  "contract \<in> fst ` set instructions \<Longrightarrow> \<exists>p. render_selector_prompt topic rows qa budget contract = Inr p"
  by (auto simp: render_selector_prompt_def instructions_def Let_def)

end
