(* ===== verification/View.thy ===== *)
theory View
  imports Renderer Lineage Prompts HandleCodec
begin

text \<open>
  \<^verbatim>\<open>src/src/shapeflow/p1/view.py\<close>: the candidate view, built once from frozen storage, that owns what
  the selector is shown and is the only source a publication is rendered from. A construction step that
  raises is an \<open>Inl\<close>; \<open>is_construction_error\<close> tells the \<open>ViewConstructionError\<close>s from the other
  exceptions, which the callers do not catch. The tokenizer is a function of the text it counts.
\<close>

subsection \<open>Errors\<close>

datatype view_error =
    BadScope
  | BadOrdinals
  | CollidingOrdinals
  | OrdinalsNotAllowed
  | ForeignNamespace string string
  | UnknownOrigin string string
  | RoleMismatch string string string
  | ContextWithOccurrences string string
  | NoOrdinal string
  | HandleTooLong string int
  | BodyUnresolvable string
  | BodyNamespace string string
  | RefOtherSource string string
  | RefUnavailable string string
  | RefOutOfBounds string int int
  | RefHashMismatch string
  | MetaOutsideView string
  | MetaRejected string string
  | HandleFailed handle_error
  | MetaDecode string
  | MetaMissingKey string
  | MetaNotCanonical canon_error
  | CandidatesRefused candidate_error
  | PromptRefused prompt_error

definition is_construction_error :: "view_error \<Rightarrow> bool" where
  "is_construction_error e = (case e of
     HandleFailed _ \<Rightarrow> False | MetaDecode _ \<Rightarrow> False | MetaMissingKey _ \<Rightarrow> False
   | MetaNotCanonical _ \<Rightarrow> False | CandidatesRefused _ \<Rightarrow> False | PromptRefused _ \<Rightarrow> False | _ \<Rightarrow> True)"

definition lift_error :: "('e \<Rightarrow> 'f) \<Rightarrow> 'e + 'a \<Rightarrow> 'f + 'a" where
  "lift_error f m = (case m of Inl e \<Rightarrow> Inl (f e) | Inr x \<Rightarrow> Inr x)"

lemma lift_error_simps [simp]:
  "lift_error f (Inl e) = Inl (f e)" "lift_error f (Inr x) = Inr x"
  by (simp_all add: lift_error_def)

lemma lift_error_Inr [result_elims]: "lift_error f m = Inr x \<longleftrightarrow> m = Inr x"
  by (cases m) auto

subsection \<open>Handles\<close>

definition max_handle_tokens :: int where
  "max_handle_tokens = 8"

definition compact_publication_handle ::
  "pyval \<Rightarrow> pyval \<Rightarrow> pyval \<Rightarrow> (pyval \<times> pyval) option \<Rightarrow> handle_error + string" where
  "compact_publication_handle assistant_turn toolset evidence coordinate =
     rbind (structural_ordinal frozen_radices coordinate)
       (\<lambda>s. encode frozen_radices (PInt s) assistant_turn toolset evidence)"

record offered_candidate =
  oc_label :: string
  oc_handle :: string
  oc_handle_tokens :: int
  oc_span_id :: string
  oc_namespace :: string
  oc_text :: string
  oc_origin_kind :: string
  oc_message_role :: string
  oc_heading_path :: "string list"
  oc_context :: "string list"

definition str_list :: "string list \<Rightarrow> pyval" where
  "str_list xs = PList (map PStr xs)"

definition candidate_identity :: "(string \<Rightarrow> string) \<Rightarrow> offered_candidate \<Rightarrow> pyval" where
  "candidate_identity sha c = str_dict
     [(''label'', PStr (oc_label c)), (''span_id'', PStr (oc_span_id c)),
      (''namespace'', PStr (oc_namespace c)), (''origin_kind'', PStr (oc_origin_kind c)),
      (''message_role'', PStr (oc_message_role c)), (''text_sha256'', PStr (sha256_hex sha (oc_text c))),
      (''heading_sha256'', str_list (map (sha256_hex sha) (oc_heading_path c))),
      (''context_sha256'', str_list (map (sha256_hex sha) (oc_context c)))]"

definition view_source_of :: "span \<Rightarrow> string" where
  "view_source_of sp = or_text (sp_content_hash sp) (get_text (sp_view_hash sp))"

subsection \<open>Resolving bytes\<close>

text \<open>A missing key and a missing source are the caught \<open>KeyError\<close>, bad bytes the \<open>UnicodeDecodeError\<close>.\<close>

definition resolve_body ::
  "(string \<times> utext) list \<Rightarrow> (string \<times> string) list \<Rightarrow> span \<Rightarrow> view_error + string" where
  "resolve_body snapshots views sp =
     (let fail = BodyUnresolvable (span_id_of sp) in
      if sp_namespace sp = ''RAW_SOURCE''
      then (case (sp_content_hash sp, sp_char_start sp, sp_char_end sp) of
              (Some h, Some s, Some e) \<Rightarrow>
                (case map_of snapshots h of None \<Rightarrow> Inl fail | Some t \<Rightarrow> Inr (utf8 (py_slice s e t)))
            | _ \<Rightarrow> Inl fail)
      else if sp_namespace sp = ''VISIBLE_MESSAGE''
      then (case (sp_view_hash sp, sp_byte_start sp, sp_byte_end sp) of
              (Some h, Some s, Some e) \<Rightarrow>
                (case map_of views h of
                   None \<Rightarrow> Inl fail
                 | Some v \<Rightarrow> lift_error (\<lambda>_. fail) (decode_utf8 (py_slice s e v)))
            | _ \<Rightarrow> Inl fail)
      else Inl (BodyNamespace (span_id_of sp) (sp_namespace sp)))"

definition resolve_ref ::
  "(string \<Rightarrow> string) \<Rightarrow> (string \<times> utext) list \<Rightarrow> span \<Rightarrow> span_ref \<Rightarrow> view_error + string" where
  "resolve_ref sha snapshots sp r =
     (if rf_content_hash r \<noteq> view_source_of sp then Inl (RefOtherSource (span_id_of sp) (rf_content_hash r))
      else (case map_of snapshots (rf_content_hash r) of
              None \<Rightarrow> Inl (RefUnavailable (span_id_of sp) (rf_content_hash r))
            | Some t \<Rightarrow>
                if \<not> (0 \<le> rf_char_start r \<and> rf_char_start r \<le> rf_char_end r \<and> rf_char_end r \<le> int (length t))
                then Inl (RefOutOfBounds (span_id_of sp) (rf_char_start r) (rf_char_end r))
                else
                  (let exact = utf8 (py_slice (rf_char_start r) (rf_char_end r) t) in
                   if sha256_hex sha exact \<noteq> rf_text_sha256 r then Inl (RefHashMismatch (span_id_of sp))
                   else Inr exact)))"

definition resolve_refs ::
  "(string \<Rightarrow> string) \<Rightarrow> (string \<times> utext) list \<Rightarrow> span \<Rightarrow> span_ref list \<Rightarrow> view_error + string list" where
  "resolve_refs sha snapshots sp refs = rmap (resolve_ref sha snapshots sp) refs"

subsection \<open>Source metadata\<close>

definition source_meta_sha256 ::
  "(string \<Rightarrow> string) \<Rightarrow> (real \<Rightarrow> string) \<Rightarrow> (string \<times> meta) list \<Rightarrow> view_error + string" where
  "source_meta_sha256 sha fr metas =
     rbind (lift_error MetaNotCanonical
        (canonical_json fr (str_dict (map (\<lambda>(k, m). (k, str_dict m)) (sort_key fst metas)))))
       (\<lambda>j. Inr (sha256_hex sha j))"

definition visible_meta_fields :: "string list" where
  "visible_meta_fields =
     [''binding_version'', ''title'', ''url'', ''message_id'', ''visible_compressor_view_hash'',
      ''byte_start'', ''byte_end'', ''title_byte_start'', ''title_byte_end'', ''url_byte_start'',
      ''url_byte_end'', ''source_occurrence_ids'', ''source_label'']"

definition coordinate_names :: "string list" where
  "coordinate_names = [''byte_start'', ''byte_end'', ''title_byte_start'', ''title_byte_end'',
     ''url_byte_start'', ''url_byte_end'']"

text \<open>\<open>int(meta[k])\<close> of a coordinate that has been checked to be an integer.\<close>

definition is_int_field :: "meta \<Rightarrow> string \<Rightarrow> bool" where
  "is_int_field m k = (case map_of m k of Some (PInt i) \<Rightarrow> True | _ \<Rightarrow> False)"

definition coordinate :: "meta \<Rightarrow> string \<Rightarrow> int" where
  "coordinate m k = (case map_of m k of Some (PInt i) \<Rightarrow> i | _ \<Rightarrow> 0)"

definition validate_field ::
  "string \<Rightarrow> meta \<Rightarrow> string \<Rightarrow> string \<Rightarrow> view_error + unit" where
  "validate_field sid m view field =
     (let s = coordinate m (field @ ''_byte_start''); e = coordinate m (field @ ''_byte_end'');
          expected = meta_text m field
      in if \<not> (coordinate m ''byte_start'' \<le> s \<and> s \<le> e \<and> e \<le> coordinate m ''byte_end'')
         then Inl (MetaRejected sid (field @ '' byte range escapes its source block''))
         else rbind (lift_error (\<lambda>_. MetaDecode sid) (decode_utf8 (py_slice s e view))) (\<lambda>actual.
           if expected = ''(untitled source)'' \<and> s = e then Inr ()
           else if actual \<noteq> expected then Inl (MetaRejected sid (field @ '' does not reconstruct''))
           else Inr ()))"

text \<open>
  The declared occurrences, if they are a non-empty list of non-empty text. Text with an unpaired
  surrogate is kept as its lead byte, which no span text is.
\<close>

definition meta_occurrences :: "meta \<Rightarrow> string list option" where
  "meta_occurrences m = (case map_of m ''source_occurrence_ids'' of
     Some (PList vs) \<Rightarrow>
       if vs \<noteq> [] \<and> (\<forall>v \<in> set vs. case v of PStr s \<Rightarrow> s \<noteq> [] | PSurrogate \<Rightarrow> True | _ \<Rightarrow> False)
       then Some (map (\<lambda>v. case v of PStr s \<Rightarrow> s | _ \<Rightarrow> [CHR 0xED]) vs) else None
   | _ \<Rightarrow> None)"

definition validate_meta_entry ::
  "(string \<times> string) list \<Rightarrow> string \<Rightarrow> span \<Rightarrow> meta \<Rightarrow> view_error + unit" where
  "validate_meta_entry views sid sp m =
     (let refuse = (\<lambda>c why. guard_err c (MetaRejected sid why)); vh = meta_text m ''visible_compressor_view_hash'' in
      rbind (refuse (sp_kind sp = ''TOOL_EVIDENCE'') ''non-citable context'') (\<lambda>_.
      rbind (refuse (set (map fst m) = set visible_meta_fields) ''not the closed byte-range binding'') (\<lambda>_.
      rbind (refuse (map_of m ''binding_version'' = Some (PStr ''visible_source_byte_range_v1''))
               ''unknown binding version'') (\<lambda>_.
      rbind (refuse (vh = get_text (sp_view_hash sp)) ''another compressor view'') (\<lambda>_.
      rbind (refuse (meta_text m ''message_id'' = get_text (sp_message_id sp)) ''another message'') (\<lambda>_.
      rbind (case map_of views vh of
               None \<Rightarrow> Inl (MetaRejected sid ''no frozen compressor view'') | Some v \<Rightarrow> Inr v) (\<lambda>view.
      rbind (refuse (\<forall>k \<in> set coordinate_names. is_int_field m k) ''non-integer byte coordinates'') (\<lambda>_.
      rbind (case sp_byte_start sp of None \<Rightarrow> Inl (MetaMissingKey ''byte_start'') | Some s \<Rightarrow> Inr s) (\<lambda>s.
      rbind (case sp_byte_end sp of None \<Rightarrow> Inl (MetaMissingKey ''byte_end'') | Some e \<Rightarrow> Inr e) (\<lambda>e.
      rbind (refuse (0 \<le> coordinate m ''byte_start'' \<and> coordinate m ''byte_start'' \<le> s \<and> s \<le> e
                \<and> e \<le> coordinate m ''byte_end'' \<and> coordinate m ''byte_end'' \<le> int (length view))
               ''not wholly contained in its declared source range'') (\<lambda>_.
      rbind (validate_field sid m view ''title'') (\<lambda>_.
      rbind (validate_field sid m view ''url'') (\<lambda>_.
        case meta_occurrences m of
          None \<Rightarrow> Inl (MetaRejected sid ''no occurrence lineage'')
        | Some occs \<Rightarrow>
            refuse (set occs \<subseteq> set (case sp_occurrences sp of None \<Rightarrow> [] | Some os \<Rightarrow> os))
              ''occurrence lineage disagrees'')))))))))))))"

definition validate_source_meta ::
  "span list \<Rightarrow> string \<Rightarrow> (string \<times> meta) list \<Rightarrow> (string \<times> string) list \<Rightarrow> view_error + unit" where
  "validate_source_meta spans namespace metas views =
     (if namespace \<noteq> ''VISIBLE_MESSAGE'' then Inr ()
      else
        (let by_id = dict_of (map (\<lambda>sp. (span_id_of sp, sp)) spans);
             unknown = sort (filter (\<lambda>sid. map_of by_id sid = None) (map fst metas))
         in if unknown \<noteq> [] then Inl (MetaOutsideView (hd unknown))
            else rbind (rmap (\<lambda>(sid, m). validate_meta_entry views sid (the (map_of by_id sid)) m) metas)
                   (\<lambda>_. Inr ())))"

subsection \<open>Construction\<close>

record view_spec =
  vs_spans :: "span list"
  vs_namespace :: string
  vs_topic :: string
  vs_contract :: string
  vs_token_budget :: int
  vs_query_attempts :: "(string \<times> string) list"
  vs_snapshots :: "(string \<times> utext) list"
  vs_views :: "(string \<times> string) list"
  vs_source_meta :: "(string \<times> meta) list"
  vs_query_status :: "(string \<times> string) list"
  vs_scope :: "pyval list option"
  vs_ordinals :: "(string \<times> pyval) list option"

record candidate_view =
  cv_namespace :: string
  cv_candidates :: "offered_candidate list"
  cv_candidate_set :: candidate_set
  cv_registry :: registry
  cv_count :: "string \<Rightarrow> int"
  cv_prompt :: string
  cv_prompt_version :: string
  cv_grouping_version :: string
  cv_query_status :: "(string \<times> string) list"
  cv_source_meta :: "(string \<times> meta) list"
  cv_source_meta_sha256 :: string
  cv_views :: "(string \<times> string) list"
  cv_snapshots :: "(string \<times> utext) list"

text \<open>The scope of a batch: the researcher coordinate, the turn and the toolset.\<close>

definition split_scope :: "pyval list option \<Rightarrow> view_error + (pyval \<times> pyval) option \<times> pyval \<times> pyval" where
  "split_scope scope =
     (case (case scope of Some (x # xs) \<Rightarrow> x # xs | _ \<Rightarrow> [PInt 0, PInt 0]) of
        [turn, toolset] \<Rightarrow> Inr (None, turn, toolset)
      | [iteration, child, turn, toolset] \<Rightarrow> Inr (Some (iteration, child), turn, toolset)
      | _ \<Rightarrow> Inl BadScope)"

definition default_ordinals :: "span list \<Rightarrow> (string \<times> pyval) list" where
  "default_ordinals spans = dict_of (map (\<lambda>(i, sp). (span_id_of sp, PInt (int i))) (enumerate 1 spans))"

definition check_ordinals :: "(string \<times> pyval) list \<Rightarrow> view_error + unit" where
  "check_ordinals ordinals =
     (if \<exists>v \<in> set (map snd ordinals). case v of PInt i \<Rightarrow> i \<le> 0 | _ \<Rightarrow> True then Inl BadOrdinals
      else if \<not> distinct (map snd ordinals) then Inl CollidingOrdinals else Inr ())"

text \<open>What a RAW_SOURCE view publishes under; nothing in the other namespace.\<close>

type_synonym handle_plan = "((pyval \<times> pyval) option \<times> pyval \<times> pyval) \<times> (string \<times> pyval) list"

definition publication_plan :: "view_spec \<Rightarrow> view_error + handle_plan option" where
  "publication_plan V =
     (if vs_namespace V = ''RAW_SOURCE''
      then rbind (split_scope (vs_scope V)) (\<lambda>(coord, turn, toolset).
           rbind (lift_error HandleFailed (compact_publication_handle turn toolset (PInt 1) coord)) (\<lambda>_.
             let ordinals = (case vs_ordinals V of None \<Rightarrow> default_ordinals (vs_spans V) | Some os \<Rightarrow> os)
             in rbind (check_ordinals ordinals) (\<lambda>_. Inr (Some ((coord, turn, toolset), ordinals)))))
      else if vs_scope V \<noteq> None \<or> vs_ordinals V \<noteq> None then Inl OrdinalsNotAllowed
      else Inr None)"

definition allowed_roles :: "string \<Rightarrow> string list" where
  "allowed_roles kind =
     (if kind = ''TOOL_EVIDENCE'' \<or> kind = ''TOOL_UNATTRIBUTED_CONTEXT'' then [''tool'']
      else if kind = ''MODEL_DERIVED_CONTEXT'' then [''ai'']
      else if kind = ''USER_CONTEXT'' then [''human'', ''system''] else [])"

definition check_origin :: "string \<Rightarrow> span \<Rightarrow> view_error + unit" where
  "check_origin namespace sp =
     (let sid = span_id_of sp; role = get_text (sp_message_role sp) in
      if namespace \<noteq> ''VISIBLE_MESSAGE'' then Inr ()
      else if sp_kind sp \<notin> set (''TOOL_EVIDENCE'' # non_citable_kinds) then Inl (UnknownOrigin sid (sp_kind sp))
      else if role \<notin> set (allowed_roles (sp_kind sp)) then Inl (RoleMismatch sid (sp_kind sp) role)
      else if sp_kind sp \<noteq> ''TOOL_EVIDENCE'' \<and> sp_occurrences sp \<noteq> None \<and> sp_occurrences sp \<noteq> Some []
      then Inl (ContextWithOccurrences sid (sp_kind sp))
      else Inr ())"

definition candidate_handle :: "handle_plan option \<Rightarrow> nat \<Rightarrow> string \<Rightarrow> view_error + string" where
  "candidate_handle plan i sid =
     (case plan of
        None \<Rightarrow> Inr (''E'' @ show_nat i)
      | Some ((coord, turn, toolset), ordinals) \<Rightarrow>
          (case map_of ordinals sid of
             None \<Rightarrow> Inl (NoOrdinal sid)
           | Some k \<Rightarrow> lift_error HandleFailed (compact_publication_handle turn toolset k coord)))"

definition make_candidate ::
  "(string \<Rightarrow> string) \<Rightarrow> (string \<Rightarrow> int) \<Rightarrow> view_spec \<Rightarrow> handle_plan option \<Rightarrow> nat \<times> span
     \<Rightarrow> view_error + offered_candidate" where
  "make_candidate sha counter V plan x =
     (case x of (i, sp) \<Rightarrow>
        let sid = span_id_of sp in
        if sp_namespace sp \<noteq> vs_namespace V then Inl (ForeignNamespace sid (sp_namespace sp))
        else
          rbind (check_origin (vs_namespace V) sp) (\<lambda>_.
          rbind (candidate_handle plan i sid) (\<lambda>handle.
            let tokens = counter (''['' @ handle @ '']'') in
            if vs_namespace V = ''RAW_SOURCE'' \<and> tokens > max_handle_tokens then Inl (HandleTooLong handle tokens)
            else
              rbind (resolve_body (vs_snapshots V) (vs_views V) sp) (\<lambda>body.
              rbind (resolve_refs sha (vs_snapshots V) sp (sp_heading_refs sp)) (\<lambda>headings.
              rbind (resolve_refs sha (vs_snapshots V) sp (sp_context_refs sp)) (\<lambda>context.
                Inr \<lparr>oc_label = ''E'' @ show_nat i, oc_handle = handle, oc_handle_tokens = tokens,
                     oc_span_id = sid, oc_namespace = vs_namespace V, oc_text = body,
                     oc_origin_kind = sp_kind sp, oc_message_role = get_text (sp_message_role sp),
                     oc_heading_path = headings, oc_context = context\<rparr>))))))"

definition candidate_row :: "offered_candidate \<Rightarrow> prompt_row" where
  "candidate_row c = OriginRow (oc_label c) (oc_text c) (oc_heading_path c) (oc_context c)
     (oc_origin_kind c) (oc_message_role c)"

definition build_view ::
  "(string \<Rightarrow> string) \<Rightarrow> (real \<Rightarrow> string) \<Rightarrow> (string \<Rightarrow> int) \<Rightarrow> view_spec \<Rightarrow> view_error + candidate_view" where
  "build_view sha fr counter V =
     rbind (publication_plan V) (\<lambda>plan.
     rbind (rmap (make_candidate sha counter V plan) (enumerate 1 (vs_spans V))) (\<lambda>candidates.
     rbind (validate_source_meta (vs_spans V) (vs_namespace V) (vs_source_meta V) (vs_views V)) (\<lambda>_.
     rbind (source_meta_sha256 sha fr (vs_source_meta V)) (\<lambda>meta_digest.
     rbind (lift_error CandidatesRefused (build_candidates (map oc_span_id candidates)
              (map fst (vs_query_attempts V)) (vs_namespace V))) (\<lambda>cset.
     rbind (lift_error PromptRefused (render_selector_prompt (vs_topic V) (map candidate_row candidates)
              (map (\<lambda>(j, (_, body)). (''Q'' @ show_nat j, body)) (enumerate 1 (vs_query_attempts V)))
              (vs_token_budget V) (vs_contract V))) (\<lambda>prompt.
       Inr \<lparr>cv_namespace = vs_namespace V, cv_candidates = candidates, cv_candidate_set = cset,
            cv_registry = dict_of (map (\<lambda>(c, sp). (oc_span_id c, sp)) (List.zip candidates (vs_spans V))),
            cv_count = counter, cv_prompt = prompt, cv_prompt_version = prompt_bundle_version,
            cv_grouping_version = renderer_grouping_version, cv_query_status = vs_query_status V,
            cv_source_meta = vs_source_meta V, cv_source_meta_sha256 = meta_digest,
            cv_views = vs_views V, cv_snapshots = vs_snapshots V\<rparr>))))))"

subsection \<open>Identity\<close>

definition prompt_sha256 :: "(string \<Rightarrow> string) \<Rightarrow> candidate_view \<Rightarrow> string" where
  "prompt_sha256 sha v = sha256_hex sha (cv_prompt v)"

definition view_sha256 :: "(string \<Rightarrow> string) \<Rightarrow> (real \<Rightarrow> string) \<Rightarrow> candidate_view \<Rightarrow> canon_error + string" where
  "view_sha256 sha fr v =
     rbind (canonical_json fr (str_dict
       [(''namespace'', PStr (cv_namespace v)), (''prompt_bundle_version'', PStr (cv_prompt_version v)),
        (''renderer_grouping_version'', PStr (cv_grouping_version v)),
        (''prompt_sha256'', PStr (prompt_sha256 sha v)),
        (''source_meta_sha256'', PStr (cv_source_meta_sha256 v)),
        (''candidates'', PList (map (candidate_identity sha) (cv_candidates v)))]))
       (\<lambda>j. Inr (sha256_hex sha j))"

definition publication_handle_map :: "candidate_view \<Rightarrow> (string \<times> string) list" where
  "publication_handle_map v = map (\<lambda>c. (oc_handle c, oc_span_id c)) (cv_candidates v)"

definition handle_token_counts :: "candidate_view \<Rightarrow> (string \<times> int) list" where
  "handle_token_counts v = map (\<lambda>c. (oc_handle c, oc_handle_tokens c)) (cv_candidates v)"

definition publication_map_sha256 ::
  "(string \<Rightarrow> string) \<Rightarrow> (real \<Rightarrow> string) \<Rightarrow> candidate_view \<Rightarrow> canon_error + string" where
  "publication_map_sha256 sha fr v =
     rbind (canonical_json fr (str_dict
       [(''handle_to_span'', PList (map (\<lambda>(h, s). PList [PStr h, PStr s]) (publication_handle_map v))),
        (''handle_token_counts'', PList (map (\<lambda>(h, n). PList [PStr h, PInt n]) (handle_token_counts v)))]))
       (\<lambda>j. Inr (sha256_hex sha j))"

subsection \<open>Rendering from the view\<close>

definition by_id :: "candidate_view \<Rightarrow> (string \<times> offered_candidate) list" where
  "by_id v = dict_of (map (\<lambda>c. (oc_span_id c, c)) (cv_candidates v))"

definition offered :: "candidate_view \<Rightarrow> string \<Rightarrow> render_error + offered_candidate" where
  "offered v sid = (case map_of (by_id v) sid of None \<Rightarrow> Inl (NoSuchKey sid) | Some c \<Rightarrow> Inr c)"

definition text_for :: "candidate_view \<Rightarrow> string \<Rightarrow> render_error + string" where
  "text_for v sid = rbind (offered v sid) (\<lambda>c. Inr (oc_text c))"

definition view_label_for :: "candidate_view \<Rightarrow> string \<Rightarrow> render_error + string" where
  "view_label_for v sid = rbind (offered v sid) (\<lambda>c. Inr (oc_label c))"

definition publication_handle_for :: "candidate_view \<Rightarrow> string \<Rightarrow> render_error + string" where
  "publication_handle_for v sid = rbind (offered v sid) (\<lambda>c. Inr (oc_handle c))"

definition view_env :: "candidate_view \<Rightarrow> render_env" where
  "view_env v =
     \<lparr>re_text = (\<lambda>sp. text_for v (span_id_of sp)), re_label = publication_handle_for v, re_count = cv_count v,
      re_meta = cv_source_meta v, re_views = cv_views v, re_status = cv_query_status v,
      re_context = (\<lambda>sp. rbind (offered v (span_id_of sp)) (\<lambda>c. Inr (oc_context c))),
      re_headings = (\<lambda>sp. rbind (offered v (span_id_of sp)) (\<lambda>c. Inr (oc_heading_path c)))\<rparr>"

definition view_render :: "candidate_view \<Rightarrow> evidence \<Rightarrow> render_error + render_result" where
  "view_render v ev = render_evidence (view_env v) ev (cv_registry v)"

definition view_cost :: "candidate_view \<Rightarrow> evidence \<Rightarrow> render_error + int" where
  "view_cost v ev = rbind (view_render v ev) (\<lambda>r. Inr (rr_tokens r))"

definition view_coster :: "candidate_view \<Rightarrow> evidence \<Rightarrow> registry \<Rightarrow> render_error + int" where
  "view_coster v ev reg = view_cost v ev"

subsection \<open>Drift\<close>

datatype drift_issue = MetaDrifted | NoLongerResolvable string view_error | ViewDrifted string

text \<open>What the view would offer of a span now.\<close>

definition resolved_now ::
  "(string \<Rightarrow> string) \<Rightarrow> candidate_view \<Rightarrow> span \<Rightarrow> view_error + string \<times> string list \<times> string list \<times> string \<times> string" where
  "resolved_now sha v sp =
     rbind (resolve_body (cv_snapshots v) (cv_views v) sp) (\<lambda>body.
     rbind (resolve_refs sha (cv_snapshots v) sp (sp_heading_refs sp)) (\<lambda>headings.
     rbind (resolve_refs sha (cv_snapshots v) sp (sp_context_refs sp)) (\<lambda>context.
       Inr (body, headings, context, sp_kind sp, get_text (sp_message_role sp)))))"

definition resolved_then :: "offered_candidate \<Rightarrow> string \<times> string list \<times> string list \<times> string \<times> string" where
  "resolved_then c = (oc_text c, oc_heading_path c, oc_context c, oc_origin_kind c, oc_message_role c)"

definition span_drift :: "(string \<Rightarrow> string) \<Rightarrow> candidate_view \<Rightarrow> string \<Rightarrow> drift_issue list" where
  "span_drift sha v sid =
     (case (map_of (by_id v) sid, map_of (cv_registry v) sid) of
        (Some c, Some sp) \<Rightarrow>
          (case resolved_now sha v sp of
             Inl e \<Rightarrow> [NoLongerResolvable sid e]
           | Inr now \<Rightarrow> if now \<noteq> resolved_then c then [ViewDrifted sid] else [])
      | _ \<Rightarrow> [])"

definition drift_errors ::
  "(string \<Rightarrow> string) \<Rightarrow> (real \<Rightarrow> string) \<Rightarrow> candidate_view \<Rightarrow> string list \<Rightarrow> view_error + drift_issue list" where
  "drift_errors sha fr v sids =
     rbind (source_meta_sha256 sha fr (cv_source_meta v)) (\<lambda>digest.
       Inr ((if digest \<noteq> cv_source_meta_sha256 v then [MetaDrifted] else []) @ concat (map (span_drift sha v) sids)))"

text \<open>
  \<open>guard_publication\<close>: an ordinary failure of the guarded step is recorded, a cancellation passes
  through (\<open>None\<close>).
\<close>

datatype 'e escape = Cancelled | Ordinary 'e

definition guard_publication :: "'e escape + 'a \<Rightarrow> 'e list option" where
  "guard_publication m = (case m of Inl Cancelled \<Rightarrow> None | Inl (Ordinary e) \<Rightarrow> Some [e] | Inr _ \<Rightarrow> Some [])"

end
