(* ===== verification/ViewProps.thy ===== *)
theory ViewProps
  imports View
begin

text \<open>
  What a candidate view guarantees once it is built: what the selector reads are frozen bytes of one
  namespace, publication handles name one span of one batch, the view's digest commits to everything
  that was shown, and a later change of the registry is noticed.
\<close>

subsection \<open>The candidates of a built view\<close>

lemma make_candidate_Inr:
  assumes "make_candidate sha counter V plan (i, sp) = Inr c"
  shows "oc_label c = ''E'' @ show_nat i" "oc_span_id c = span_id_of sp" "oc_namespace c = vs_namespace V"
    "sp_namespace sp = vs_namespace V" "check_origin (vs_namespace V) sp = Inr ()"
    "candidate_handle plan i (span_id_of sp) = Inr (oc_handle c)"
    "vs_namespace V = ''RAW_SOURCE'' \<Longrightarrow> oc_handle_tokens c \<le> max_handle_tokens"
    "resolve_body (vs_snapshots V) (vs_views V) sp = Inr (oc_text c)"
    "resolve_refs sha (vs_snapshots V) sp (sp_heading_refs sp) = Inr (oc_heading_path c)"
    "resolve_refs sha (vs_snapshots V) sp (sp_context_refs sp) = Inr (oc_context c)"
    "oc_origin_kind c = sp_kind sp" "oc_message_role c = get_text (sp_message_role sp)"
  using assms unfolding make_candidate_def
  by (auto simp: Let_def result_elims not_less split: if_splits)

lemma build_view_Inr:
  assumes "build_view sha fr counter V = Inr v"
  obtains plan :: "handle_plan option" and cset :: candidate_set and prompt :: string
  where "publication_plan V = Inr plan"
    and "list_all2 (\<lambda>x c. make_candidate sha counter V plan x = Inr c) (enumerate 1 (vs_spans V)) (cv_candidates v)"
    and "validate_source_meta (vs_spans V) (vs_namespace V) (vs_source_meta V) (vs_views V) = Inr ()"
    and "source_meta_sha256 sha fr (vs_source_meta V) = Inr (cv_source_meta_sha256 v)"
    and "build_candidates (map oc_span_id (cv_candidates v)) (map fst (vs_query_attempts V)) (vs_namespace V) = Inr (cv_candidate_set v)"
    and "render_selector_prompt (vs_topic V) (map candidate_row (cv_candidates v))
           (map (\<lambda>(j, (_, body)). (''Q'' @ show_nat j, body)) (enumerate 1 (vs_query_attempts V)))
           (vs_token_budget V) (vs_contract V) = Inr (cv_prompt v)"
    and "cv_namespace v = vs_namespace V" "cv_source_meta v = vs_source_meta V"
      "cv_snapshots v = vs_snapshots V" "cv_views v = vs_views V" "cv_count v = counter"
      "cv_prompt_version v = prompt_bundle_version" "cv_grouping_version v = renderer_grouping_version"
      "cv_registry v = dict_of (map (\<lambda>(c, sp). (oc_span_id c, sp)) (List.zip (cv_candidates v) (vs_spans V)))"
  using assms unfolding build_view_def
  by (auto simp: result_elims rmap_Inr_iff)

lemma build_view_nth:
  assumes "build_view sha fr counter V = Inr v"
  shows "length (cv_candidates v) = length (vs_spans V)"
    and "i < length (vs_spans V) \<Longrightarrow> \<exists>plan. publication_plan V = Inr plan
      \<and> make_candidate sha counter V plan (Suc i, vs_spans V ! i) = Inr (cv_candidates v ! i)"
proof -
  obtain plan where plan: "publication_plan V = Inr plan"
    and all: "list_all2 (\<lambda>x c. make_candidate sha counter V plan x = Inr c) (enumerate 1 (vs_spans V)) (cv_candidates v)"
    by (rule build_view_Inr [OF assms]) (rule that)
  then show "length (cv_candidates v) = length (vs_spans V)" by (simp add: list_all2_conv_all_nth)
  show "\<exists>plan. publication_plan V = Inr plan
      \<and> make_candidate sha counter V plan (Suc i, vs_spans V ! i) = Inr (cv_candidates v ! i)"
    if "i < length (vs_spans V)"
    using list_all2_nthD [OF all, of i] that plan by (simp add: nth_enumerate_eq)
qed

text \<open>Both dictionaries of a built view hold, for every id, the last candidate and its span.\<close>

lemma map_of_values: "map_of (map (\<lambda>x. (f x, g x)) xs) k = map_option g (map_of (map (\<lambda>x. (f x, x)) xs) k)"
  by (induction xs) auto

lemma dict_of_values:
  "map_of (dict_of (map (\<lambda>x. (f x, g x)) xs)) k = map_option g (map_of (dict_of (map (\<lambda>x. (f x, x)) xs)) k)"
  unfolding map_of_dict_of rev_map by (rule map_of_values)

lemma dict_of_total: "map_of (dict_of (map (\<lambda>x. (f x, x)) xs)) k = None \<longleftrightarrow> k \<notin> f ` set xs"
  by (auto simp: map_of_dict_of map_of_eq_None_iff image_iff)

lemma dict_of_SomeD: "map_of (dict_of (map (\<lambda>x. (f x, x)) xs)) k = Some y \<Longrightarrow> y \<in> set xs \<and> f y = k"
  by (auto simp: map_of_dict_of dest!: map_of_SomeD)

lemma view_dictionaries:
  assumes "build_view sha fr counter V = Inr v"
  shows "map_of (by_id v) sid = None \<longleftrightarrow> sid \<notin> oc_span_id ` set (cv_candidates v)"
    and "map_of (cv_registry v) sid = None \<longleftrightarrow> map_of (by_id v) sid = None"
    and "map_of (by_id v) sid = Some c \<Longrightarrow> map_of (cv_registry v) sid = Some sp \<Longrightarrow>
      \<exists>i plan. i < length (vs_spans V) \<and> sp = vs_spans V ! i \<and> c = cv_candidates v ! i \<and> oc_span_id c = sid
        \<and> publication_plan V = Inr plan \<and> make_candidate sha counter V plan (Suc i, sp) = Inr c"
proof -
  define zs where "zs = List.zip (cv_candidates v) (vs_spans V)"
  let ?z = "dict_of (map (\<lambda>x. (oc_span_id (fst x), x)) zs)"
  note len = build_view_nth(1) [OF assms]
  have "cv_candidates v = map fst zs" using len by (simp add: zs_def)
  then have ids: "by_id v = dict_of (map (\<lambda>x. (oc_span_id (fst x), fst x)) zs)"
    by (simp add: by_id_def comp_def)
  have reg: "cv_registry v = dict_of (map (\<lambda>x. (oc_span_id (fst x), snd x)) zs)"
    by (rule build_view_Inr [OF assms]) (simp add: zs_def case_prod_unfold)
  have b: "map_of (by_id v) sid = map_option fst (map_of ?z sid)" unfolding ids by (rule dict_of_values)
  have r: "map_of (cv_registry v) sid = map_option snd (map_of ?z sid)" unfolding reg by (rule dict_of_values)
  show "map_of (by_id v) sid = None \<longleftrightarrow> sid \<notin> oc_span_id ` set (cv_candidates v)"
    unfolding by_id_def by (rule dict_of_total)
  show "map_of (cv_registry v) sid = None \<longleftrightarrow> map_of (by_id v) sid = None"
    by (simp add: b r)
  show "\<exists>i plan. i < length (vs_spans V) \<and> sp = vs_spans V ! i \<and> c = cv_candidates v ! i \<and> oc_span_id c = sid
        \<and> publication_plan V = Inr plan \<and> make_candidate sha counter V plan (Suc i, sp) = Inr c"
    if "map_of (by_id v) sid = Some c" "map_of (cv_registry v) sid = Some sp"
  proof -
    from that(1) obtain x where x: "map_of ?z sid = Some x" by (cases "map_of ?z sid") (simp_all add: b)
    with that have cs: "c = fst x" "sp = snd x" by (simp_all add: b r)
    from dict_of_SomeD [OF x] have mem: "x \<in> set zs" and sid: "oc_span_id (fst x) = sid" by auto
    from mem obtain i where i: "i < length (vs_spans V)" and "x = (cv_candidates v ! i, vs_spans V ! i)"
      by (auto simp: zs_def in_set_zip)
    with cs sid build_view_nth(2) [OF assms i] show ?thesis by auto
  qed
qed

text \<open>Of every offered id the view holds a candidate and the span it was made from.\<close>

lemma offered_candidate:
  assumes "build_view sha fr counter V = Inr v" and "sid \<in> oc_span_id ` set (cv_candidates v)"
  obtains c sp i plan where "map_of (by_id v) sid = Some c" and "map_of (cv_registry v) sid = Some sp"
    and "i < length (vs_spans V)" and "sp = vs_spans V ! i" and "c = cv_candidates v ! i"
    and "oc_span_id c = sid" and "publication_plan V = Inr plan"
    and "make_candidate sha counter V plan (Suc i, sp) = Inr c"
proof -
  obtain c where c: "map_of (by_id v) sid = Some c"
    using view_dictionaries(1) [OF assms(1), of sid] assms(2) by auto
  obtain sp where sp: "map_of (cv_registry v) sid = Some sp"
    using view_dictionaries(2) [OF assms(1), of sid] c by auto
  from view_dictionaries(3) [OF assms(1) c sp] c sp show ?thesis by (auto intro: that)
qed

subsection \<open>Drift\<close>

lemma span_drift_Nil:
  "span_drift sha v sid = [] \<longleftrightarrow>
     (\<forall>c sp. map_of (by_id v) sid = Some c \<longrightarrow> map_of (cv_registry v) sid = Some sp
        \<longrightarrow> resolved_now sha v sp = Inr (resolved_then c))"
  by (auto simp: span_drift_def split: option.splits sum.splits)

lemma fresh_span_resolves:
  assumes "build_view sha fr counter V = Inr v" and "map_of (by_id v) sid = Some c"
    and "map_of (cv_registry v) sid = Some sp"
  shows "resolved_now sha v sp = Inr (resolved_then c)"
proof -
  obtain plan i where made: "make_candidate sha counter V plan (i, sp) = Inr c"
    using view_dictionaries(3) [OF assms] by blast
  have "cv_snapshots v = vs_snapshots V" "cv_views v = vs_views V"
    by (rule build_view_Inr [OF assms(1)], assumption)+
  with make_candidate_Inr [OF made] show ?thesis by (simp add: resolved_now_def resolved_then_def)
qed

lemma fresh_meta_digest:
  assumes "build_view sha fr counter V = Inr v"
  shows "source_meta_sha256 sha fr (cv_source_meta v) = Inr (cv_source_meta_sha256 v)"
  by (rule build_view_Inr [OF assms]) simp

lemma drift_errors_Nil:
  "drift_errors sha fr v sids = Inr [] \<longleftrightarrow>
     source_meta_sha256 sha fr (cv_source_meta v) = Inr (cv_source_meta_sha256 v)
     \<and> (\<forall>sid \<in> set sids. span_drift sha v sid = [])"
  by (auto simp: drift_errors_def result_elims)

lemma fresh_no_drift:
  assumes "build_view sha fr counter V = Inr v"
  shows "drift_errors sha fr v sids = Inr []"
  using fresh_meta_digest [OF assms] fresh_span_resolves [OF assms] by (simp add: drift_errors_Nil span_drift_Nil)

text \<open>
   A view notices when the registry it shares with its caller changes. Right after construction no
  span drifts; and whatever the registry is replaced by later, the check of a span passes exactly when
  the registry entry still resolves to the text, the headings, the context, the origin and the role that
  the selector was shown.
\<close>

theorem drift_detected:
  assumes "build_view sha fr counter V = Inr v"
  shows "drift_errors sha fr v sids = Inr []
    \<and> (drift_errors sha fr (v\<lparr>cv_registry := reg\<rparr>) sids = Inr [] \<longleftrightarrow>
        (\<forall>sid \<in> set sids. \<forall>sp c. map_of reg sid = Some sp \<and> c \<in> set (cv_candidates v)
           \<and> map_of (by_id v) sid = Some c \<longrightarrow>
           resolve_body (cv_snapshots v) (cv_views v) sp = Inr (oc_text c)
           \<and> resolve_refs sha (cv_snapshots v) sp (sp_heading_refs sp) = Inr (oc_heading_path c)
           \<and> resolve_refs sha (cv_snapshots v) sp (sp_context_refs sp) = Inr (oc_context c)
           \<and> sp_kind sp = oc_origin_kind c \<and> get_text (sp_message_role sp) = oc_message_role c))"
proof
  note digest = fresh_meta_digest [OF assms]
  show "drift_errors sha fr v sids = Inr []" by (rule fresh_no_drift [OF assms])
  have member: "c \<in> set (cv_candidates v)" if "map_of (by_id v) sid = Some c" for sid c
    using that dict_of_SomeD unfolding by_id_def by fastforce
  let ?w = "v\<lparr>cv_registry := reg\<rparr>"
  have same: "by_id ?w = by_id v" by (simp add: by_id_def)
  have now: "resolved_now sha ?w sp = Inr (resolved_then c) \<longleftrightarrow>
      resolve_body (cv_snapshots v) (cv_views v) sp = Inr (oc_text c)
      \<and> resolve_refs sha (cv_snapshots v) sp (sp_heading_refs sp) = Inr (oc_heading_path c)
      \<and> resolve_refs sha (cv_snapshots v) sp (sp_context_refs sp) = Inr (oc_context c)
      \<and> sp_kind sp = oc_origin_kind c \<and> get_text (sp_message_role sp) = oc_message_role c" for sp c
    by (auto simp: resolved_now_def resolved_then_def result_elims)
  have dig: "source_meta_sha256 sha fr (cv_source_meta ?w) = Inr (cv_source_meta_sha256 ?w)"
    using digest by simp
  show "drift_errors sha fr ?w sids = Inr [] \<longleftrightarrow>
        (\<forall>sid \<in> set sids. \<forall>sp c. map_of reg sid = Some sp \<and> c \<in> set (cv_candidates v)
           \<and> map_of (by_id v) sid = Some c \<longrightarrow>
           resolve_body (cv_snapshots v) (cv_views v) sp = Inr (oc_text c)
           \<and> resolve_refs sha (cv_snapshots v) sp (sp_heading_refs sp) = Inr (oc_heading_path c)
           \<and> resolve_refs sha (cv_snapshots v) sp (sp_context_refs sp) = Inr (oc_context c)
           \<and> sp_kind sp = oc_origin_kind c \<and> get_text (sp_message_role sp) = oc_message_role c)"
    unfolding drift_errors_Nil span_drift_Nil now same using dig member by auto
qed

subsection \<open>Publication handles\<close>

lemma compact_handle_inject:
  assumes "compact_publication_handle a t e c = Inr h" and "compact_publication_handle a' t' e' c' = Inr h"
  shows "c = c' \<and> a = a' \<and> t = t' \<and> e = e'"
proof -
  obtain s where s: "structural_ordinal frozen_radices c = Inr s" "encode frozen_radices (PInt s) a t e = Inr h"
    using assms(1) by (auto simp: compact_publication_handle_def result_elims)
  obtain s' where s': "structural_ordinal frozen_radices c' = Inr s'" "encode frozen_radices (PInt s') a' t' e' = Inr h"
    using assms(2) by (auto simp: compact_publication_handle_def result_elims)
  have "s = s'" "a = a'" "t = t'" "e = e'" using decode_encode [OF s(2)] decode_encode [OF s'(2)] by auto
  with s(1) s'(1) show ?thesis using structural_ordinal_inject by blast
qed

lemma plan_raw:
  assumes "publication_plan V = Inr plan" and "vs_namespace V = ''RAW_SOURCE''"
  obtains coord turn toolset ordinals where "plan = Some ((coord, turn, toolset), ordinals)"
    and "split_scope (vs_scope V) = Inr (coord, turn, toolset)"
    and "inj_on (\<lambda>sid. map_of ordinals sid) {sid. map_of ordinals sid \<noteq> None}"
proof -
  let ?os = "case vs_ordinals V of None \<Rightarrow> default_ordinals (vs_spans V) | Some os \<Rightarrow> os"
  obtain coord turn toolset where split: "split_scope (vs_scope V) = Inr (coord, turn, toolset)"
    and ok: "check_ordinals ?os = Inr ()" and plan: "plan = Some ((coord, turn, toolset), ?os)"
    using assms unfolding publication_plan_def by (auto simp: result_elims Let_def split_beta)
  from ok have dist: "distinct (map snd ?os)" by (auto simp: check_ordinals_def split: if_splits)
  have "inj_on (\<lambda>sid. map_of ?os sid) {sid. map_of ?os sid \<noteq> None}"
  proof (rule inj_onI)
    fix x y assume "x \<in> {sid. map_of ?os sid \<noteq> None}" and "map_of ?os x = map_of ?os y"
    then obtain w where "map_of ?os x = Some w" "map_of ?os y = Some w" by auto
    then have "(x, w) \<in> set ?os" "(y, w) \<in> set ?os" by (blast dest: map_of_SomeD)+
    moreover have "inj_on snd (set ?os)" using dist by (simp add: distinct_map)
    ultimately show "x = y" using inj_onD [of snd "set ?os" "(x, w)" "(y, w)"] by simp
  qed
  with plan split show ?thesis by (rule that)
qed

text \<open>
  C26. A publication handle names one span of one batch. When two candidates of RAW_SOURCE views carry the
  same handle, the views were built for the same researcher, turn and toolset; and when they are candidates
  of one view, or of two views that share one allocation of publication ordinals (as the groups of a batch
  do), the two are the same span. Every handle is at most the frozen number of tokens. Views of one scope
  with separate allocations may use a handle for different spans.
\<close>

theorem publication_handles_collision_free:
  assumes "build_view sha fr counter V = Inr v" and "build_view sha' fr' counter' V' = Inr v'"
    and "vs_namespace V = ''RAW_SOURCE''" and "vs_namespace V' = ''RAW_SOURCE''"
    and "c \<in> set (cv_candidates v)" and "c' \<in> set (cv_candidates v')" and "oc_handle c = oc_handle c'"
  shows "split_scope (vs_scope V) = split_scope (vs_scope V')
    \<and> (V = V' \<or> vs_ordinals V \<noteq> None \<and> vs_ordinals V = vs_ordinals V' \<longrightarrow> oc_span_id c = oc_span_id c')
    \<and> counter (''['' @ oc_handle c @ '']'') \<le> max_handle_tokens"
proof -
  obtain i where i: "i < length (vs_spans V)" "c = cv_candidates v ! i"
    using assms(5) build_view_nth(1) [OF assms(1)] by (auto simp: in_set_conv_nth)
  obtain i' where i': "i' < length (vs_spans V')" "c' = cv_candidates v' ! i'"
    using assms(6) build_view_nth(1) [OF assms(2)] by (auto simp: in_set_conv_nth)
  obtain p where p: "publication_plan V = Inr p"
    and c: "make_candidate sha counter V p (Suc i, vs_spans V ! i) = Inr c"
    using build_view_nth(2) [OF assms(1) i(1)] i(2) by auto
  obtain p' where p': "publication_plan V' = Inr p'"
    and c': "make_candidate sha' counter' V' p' (Suc i', vs_spans V' ! i') = Inr c'"
    using build_view_nth(2) [OF assms(2) i'(1)] i'(2) by auto
  obtain co tu to os where plan: "p = Some ((co, tu, to), os)" "split_scope (vs_scope V) = Inr (co, tu, to)"
    and inj: "inj_on (\<lambda>sid. map_of os sid) {sid. map_of os sid \<noteq> None}" by (rule plan_raw [OF p assms(3)])
  obtain co' tu' to' os' where plan': "p' = Some ((co', tu', to'), os')"
    "split_scope (vs_scope V') = Inr (co', tu', to')" by (rule plan_raw [OF p' assms(4)])
  obtain k where k: "map_of os (oc_span_id c) = Some k"
    and h: "compact_publication_handle tu to k co = Inr (oc_handle c)"
    using make_candidate_Inr [OF c] by (auto simp: plan candidate_handle_def result_elims split: option.splits)
  obtain k' where k': "map_of os' (oc_span_id c') = Some k'"
    and h': "compact_publication_handle tu' to' k' co' = Inr (oc_handle c')"
    using make_candidate_Inr [OF c'] by (auto simp: plan' candidate_handle_def result_elims split: option.splits)
  have same: "co = co'" "tu = tu'" "to = to'" "k = k'"
    using compact_handle_inject [OF h [unfolded assms(7)] h'] by auto
  have "oc_span_id c = oc_span_id c'" if "V = V' \<or> vs_ordinals V \<noteq> None \<and> vs_ordinals V = vs_ordinals V'"
  proof -
    have "os = os'"
      using that
    proof
      assume "V = V'"
      with p p' plan plan' show ?thesis by simp
    next
      assume "vs_ordinals V \<noteq> None \<and> vs_ordinals V = vs_ordinals V'"
      then obtain o1 where "vs_ordinals V = Some o1" "vs_ordinals V' = Some o1" by (metis not_None_eq)
      with p p' assms(3,4) show ?thesis by (auto simp: publication_plan_def plan plan' result_elims)
    qed
    with k k' same(4) show ?thesis by (intro inj_onD [OF inj]) simp_all
  qed
  moreover have "counter (''['' @ oc_handle c @ '']'') \<le> max_handle_tokens"
    using c assms(3) unfolding make_candidate_def by (auto simp: Let_def result_elims not_less split: if_splits)
  ultimately show ?thesis using plan(2) plan'(2) same by simp
qed

subsection \<open>A sample view\<close>

definition text_span :: "nat \<Rightarrow> nat \<Rightarrow> string \<Rightarrow> string \<Rightarrow> span" where
  "text_span s e sid body =
     \<lparr>sp_namespace = ''RAW_SOURCE'', sp_span_id = Some sid, sp_content_hash = Some ''h'',
      sp_char_start = Some (int s), sp_char_end = Some (int e), sp_visible_span_id = None, sp_message_id = None,
      sp_message_role = None, sp_byte_start = None, sp_byte_end = None, sp_view_hash = None,
      sp_occurrences = Some [''o''], sp_text_sha256 = sha256_hex id body, sp_kind = ''paragraph'',
      sp_heading_path = [],
      sp_heading_refs = [\<lparr>rf_content_hash = ''h'', rf_char_start = 0, rf_char_end = 3, rf_text_sha256 = sha256_hex id ''one''\<rparr>],
      sp_context_refs = [], sp_token_len = 1, sp_chunker_version = Some ''v1''\<rparr>"

definition sample_spec :: view_spec where
  "sample_spec =
     \<lparr>vs_spans = [text_span 0 3 ''s1'' ''one'', text_span 4 7 ''s2'' ''two''], vs_namespace = ''RAW_SOURCE'',
      vs_topic = ''t'', vs_contract = ''P1_TYPED'', vs_token_budget = 100, vs_query_attempts = [(''q'', ''text'')],
      vs_snapshots = [(''h'', sample_source)], vs_views = [], vs_source_meta = [], vs_query_status = [(''q'', ''OK'')],
      vs_scope = Some [PInt 1, PInt 2], vs_ordinals = None\<rparr>"

lemma sample_view_built: "\<exists>v. build_view id (\<lambda>_. []) (\<lambda>s. 1) sample_spec = Inr v"
proof -
  have "\<not> isl (build_view id (\<lambda>_. []) (\<lambda>s. 1) sample_spec)" by code_simp
  then show ?thesis by (cases "build_view id (\<lambda>_. []) (\<lambda>s. 1) sample_spec") auto
qed

theorem drift_detected_witness:
  "\<exists>v. build_view id (\<lambda>_. []) (\<lambda>s. 1) sample_spec = Inr v
     \<and> drift_errors id (\<lambda>_. []) v [''s1'', ''s2''] = Inr []"
  using sample_view_built drift_detected by blast

text \<open>The two groups of a batch, over one allocation: the second carries the second span of the first.\<close>

definition shared_spec :: "span list \<Rightarrow> view_spec" where
  "shared_spec spans = sample_spec\<lparr>vs_spans := spans, vs_ordinals := Some [(''s1'', PInt 1), (''s2'', PInt 2)]\<rparr>"

lemma shared_views:
  "list_all (\<lambda>V. case build_view id (\<lambda>_. []) (\<lambda>s. 1) V of Inl e \<Rightarrow> False
       | Inr v \<Rightarrow> map oc_span_id (cv_candidates v) = map span_id_of (vs_spans V))
     [shared_spec [text_span 0 3 ''s1'' ''one'', text_span 4 7 ''s2'' ''two''], shared_spec [text_span 4 7 ''s2'' ''two'']]"
  by code_simp

theorem publication_handles_collision_free_witness:
  "\<exists>v v'. build_view id (\<lambda>_. []) (\<lambda>s. 1) (shared_spec [text_span 0 3 ''s1'' ''one'', text_span 4 7 ''s2'' ''two'']) = Inr v
     \<and> build_view id (\<lambda>_. []) (\<lambda>s. 1) (shared_spec [text_span 4 7 ''s2'' ''two'']) = Inr v'
     \<and> (\<forall>c \<in> set (cv_candidates v). \<forall>c' \<in> set (cv_candidates v').
          oc_handle c = oc_handle c' \<longrightarrow> oc_span_id c = oc_span_id c')"
proof -
  let ?V = "shared_spec [text_span 0 3 ''s1'' ''one'', text_span 4 7 ''s2'' ''two'']"
  let ?V' = "shared_spec [text_span 4 7 ''s2'' ''two'']"
  obtain v v' where v: "build_view id (\<lambda>_. []) (\<lambda>s. 1) ?V = Inr v" and v': "build_view id (\<lambda>_. []) (\<lambda>s. 1) ?V' = Inr v'"
    using shared_views by (auto split: sum.splits)
  have raw: "vs_namespace ?V = ''RAW_SOURCE''" "vs_namespace ?V' = ''RAW_SOURCE''"
    and shared: "vs_ordinals ?V \<noteq> None" "vs_ordinals ?V = vs_ordinals ?V'"
    by (simp_all add: sample_spec_def shared_spec_def)
  have "oc_span_id c = oc_span_id c'"
    if "c \<in> set (cv_candidates v)" "c' \<in> set (cv_candidates v')" "oc_handle c = oc_handle c'" for c c'
    using publication_handles_collision_free [OF v v' raw that] shared by blast
  with v v' show ?thesis by blast
qed

end
