(* ===== verification/BridgeText.thy ===== *)
theory BridgeText
  imports Renderer "HOL-Library.Sublist"
begin

text \<open>
  \<open>bridge_novelty_errors\<close> of \<^verbatim>\<open>src/src/shapeflow/p1/preflight.py\<close>: the numbers and capitalized words of a
  bridge that none of its cited texts contains. The two regular expressions are matched over the
  characters of the text; what they accept beyond ASCII (\<open>\d\<close> and the word characters of \<open>\b\<close>) is
  the Unicode table of the interpreter, the parameters \<open>digit\<close> and \<open>word\<close>, which are asked for a
  non-ASCII character only.
\<close>

subsection \<open>Characters\<close>

text \<open>The characters of a UTF-8 text; a byte that starts none stands for itself.\<close>

function characters :: "string \<Rightarrow> utext" where
  "characters s =
     (if s = [] then []
      else let w = max 1 (char_width (map of_char s)) in take w s # characters (drop w s))"
  by pat_completeness auto
termination
  by (relation "measure length") (auto simp: Let_def)

declare characters.simps [simp del]

record unicode =
  un_digit :: "string \<Rightarrow> bool"
  un_word :: "string \<Rightarrow> bool"

definition in_range_of :: "char \<Rightarrow> char \<Rightarrow> string \<Rightarrow> bool" where
  "in_range_of lo hi c = (case c of [x] \<Rightarrow> (of_char lo :: nat) \<le> of_char x \<and> (of_char x :: nat) \<le> of_char hi | _ \<Rightarrow> False)"

definition is_ascii :: "string \<Rightarrow> bool" where
  "is_ascii c = in_range_of (CHR 0x00) (CHR 0x7F) c"

definition re_digit :: "unicode \<Rightarrow> string \<Rightarrow> bool" where
  "re_digit U c = (if is_ascii c then in_range_of (CHR ''0'') (CHR ''9'') c else un_digit U c)"

definition re_capital :: "string \<Rightarrow> bool" where
  "re_capital c = in_range_of (CHR ''A'') (CHR ''Z'') c"

definition re_alnum :: "string \<Rightarrow> bool" where
  "re_alnum c \<longleftrightarrow> re_capital c \<or> in_range_of (CHR ''a'') (CHR ''z'') c \<or> in_range_of (CHR ''0'') (CHR ''9'') c"

definition re_word :: "unicode \<Rightarrow> string \<Rightarrow> bool" where
  "re_word U c = (if is_ascii c then re_alnum c \<or> c = ''_'' else un_word U c)"

subsection \<open>Matching\<close>

text \<open>\<open>\d[\d,.]*\<close>: the maximal run after a digit.\<close>

definition number_char :: "unicode \<Rightarrow> string \<Rightarrow> bool" where
  "number_char U c \<longleftrightarrow> re_digit U c \<or> c = '','' \<or> c = ''.''"

definition match_number :: "unicode \<Rightarrow> utext \<Rightarrow> nat" where
  "match_number U cs = (case cs of
     [] \<Rightarrow> 0
   | c # rest \<Rightarrow> if re_digit U c then 1 + length (takeWhile (number_char U) rest) else 0)"

text \<open>
  \<open>\b[A-Z][A-Za-z0-9-]{2,}\b\<close>, where \<open>wordy\<close> tells whether a word character precedes: the greedy run is
  shortened until a word boundary follows it.
\<close>

definition entity_char :: "string \<Rightarrow> bool" where
  "entity_char c \<longleftrightarrow> re_alnum c \<or> c = ''-''"

definition boundary_at :: "unicode \<Rightarrow> utext \<Rightarrow> nat \<Rightarrow> bool" where
  "boundary_at U cs n \<longleftrightarrow> re_word U (cs ! (n - 1)) \<noteq> (n < length cs \<and> re_word U (cs ! n))"

fun longest_entity :: "unicode \<Rightarrow> utext \<Rightarrow> nat \<Rightarrow> nat" where
  "longest_entity U cs n =
     (if n < 3 then 0 else if boundary_at U cs n then n else longest_entity U cs (n - 1))"

declare longest_entity.simps [simp del]

definition match_entity :: "unicode \<Rightarrow> bool \<Rightarrow> utext \<Rightarrow> nat" where
  "match_entity U wordy cs = (case cs of
     [] \<Rightarrow> 0
   | c # rest \<Rightarrow>
       if re_capital c \<and> \<not> wordy
       then longest_entity U cs (1 + length (takeWhile entity_char rest)) else 0)"

text \<open>\<open>findall\<close>: the matches from left to right, none overlapping another.\<close>

function find_all :: "(bool \<Rightarrow> utext \<Rightarrow> nat) \<Rightarrow> unicode \<Rightarrow> bool \<Rightarrow> utext \<Rightarrow> string list" where
  "find_all m U wordy cs =
     (if cs = [] then []
      else let n = m wordy cs in
        if n = 0 then find_all m U (re_word U (hd cs)) (tl cs)
        else concat (take n cs) # find_all m U (re_word U (last (take n cs))) (drop n cs))"
  by pat_completeness auto
termination
  by (relation "measure (\<lambda>(m, U, b, cs). length cs)") (auto simp: Let_def neq_Nil_conv)

declare find_all.simps [simp del]

definition find_numbers :: "unicode \<Rightarrow> string \<Rightarrow> string list" where
  "find_numbers U s = find_all (\<lambda>b. match_number U) U False (characters s)"

definition find_entities :: "unicode \<Rightarrow> string \<Rightarrow> string list" where
  "find_entities U s = find_all (match_entity U) U False (characters s)"

subsection \<open>Novelty\<close>

definition allowed_caps :: "string list" where
  "allowed_caps =
     [''The'', ''This'', ''These'', ''Those'', ''Both'', ''Neither'', ''However'', ''Although'', ''While'',
      ''Whereas'', ''They'', ''It'', ''There'', ''Some'', ''Other'', ''Sources'', ''Evidence'', ''Together'',
      ''One'', ''Two'', ''Three'', ''First'', ''Second'', ''Third'', ''Overall'', ''Across'', ''Within'']"

definition strip_number :: "string \<Rightarrow> string" where
  "strip_number s = rev (dropWhile (\<lambda>c. c = CHR ''.'' \<or> c = CHR '','') (rev s))"

text \<open>\<open>sorted(errors)\<close> puts the entities wordy the numbers and each kind in the order of its text.\<close>

datatype novelty = NewEntity string | NewNumber string

definition bridge_novelty_errors :: "unicode \<Rightarrow> string \<Rightarrow> string list \<Rightarrow> novelty list" where
  "bridge_novelty_errors U bridge cited =
     (let haystack = sep_join '' '' cited;
          numbers = filter (\<lambda>n. n \<noteq> [] \<and> \<not> sublist n haystack) (map strip_number (dedup (find_numbers U bridge)));
          entities = filter (\<lambda>e. e \<notin> set allowed_caps \<and> \<not> sublist e haystack) (dedup (find_entities U bridge))
      in map NewEntity (sort entities) @ map NewNumber (sort numbers))"

subsection \<open>A bridge that quotes says nothing new\<close>

lemma concat_characters: "concat (characters s) = s"
proof (induction s rule: characters.induct)
  case (1 s)
  then show ?case by (subst characters.simps) (simp add: Let_def)
qed

lemma find_all_sublist: "t \<in> set (find_all m U wordy cs) \<Longrightarrow> sublist t (concat cs)"
proof (induction m U wordy cs rule: find_all.induct)
  case (1 m U wordy cs)
  show ?case
  proof (cases "cs = []")
    case True
    with 1 show ?thesis by (simp add: find_all.simps)
  next
    case False
    let ?n = "m wordy cs"
    have split: "concat cs = concat (take ?n cs) @ concat (drop ?n cs)"
      by (simp flip: concat_append)
    show ?thesis
    proof (cases "?n = 0")
      case True
      then have "sublist t (concat (tl cs))" using 1 False by (simp add: find_all.simps [of m U wordy cs])
      moreover have "concat cs = hd cs @ concat (tl cs)" using False by (cases cs) auto
      ultimately show ?thesis by (metis sublist_appendI append_Nil2 sublist_order.order_trans)
    next
      case n: False
      then consider "t = concat (take ?n cs)" | "t \<in> set (find_all m U (re_word U (last (take ?n cs))) (drop ?n cs))"
        using 1(3) False by (auto simp: find_all.simps [of m U wordy cs] Let_def)
      then show ?thesis
      proof cases
        case 1
        then show ?thesis by (metis split sublist_append_rightI)
      next
        case 2
        then have "sublist t (concat (drop ?n cs))" by (rule "1.IH"(2) [OF False refl n])
        then show ?thesis by (metis split sublist_append_leftI sublist_order.order_trans)
      qed
    qed
  qed
qed

lemma strip_number_sublist: "sublist (strip_number s) s"
proof -
  have "suffix (dropWhile p (rev s)) (rev s)" for p by (rule suffix_dropWhile)
  then have "prefix (strip_number s) s" unfolding strip_number_def by (metis rev_rev_ident suffix_to_prefix)
  then show ?thesis by (rule prefix_imp_sublist)
qed

lemma cited_sublist:
  assumes "t \<in> set cited"
  shows "sublist t (sep_join sep cited)"
proof -
  have rest: "sublist t (concat (map (\<lambda>q. sep @ q) cs))" if "t \<in> set cs" for cs
  proof -
    from that obtain as bs where "cs = as @ t # bs" by (auto simp: in_set_conv_decomp)
    then have "concat (map (\<lambda>q. sep @ q) cs)
        = (concat (map (\<lambda>q. sep @ q) as) @ sep) @ t @ concat (map (\<lambda>q. sep @ q) bs)" by simp
    then show ?thesis unfolding sublist_def by blast
  qed
  show ?thesis
  proof (cases cited)
    case (Cons p ps)
    then consider "t = p" | "t \<in> set ps" using assms by auto
    then show ?thesis
    proof cases
      case 1
      then show ?thesis using Cons by (simp add: sep_join_def)
    next
      case 2
      then have "sublist t (p @ concat (map (\<lambda>q. sep @ q) ps))"
        by (rule sublist_order.order_trans [OF rest]) simp
      then show ?thesis using Cons by (simp add: sep_join_def)
    qed
  qed (use assms in simp)
qed

lemma quoted_bridge_not_novel:
  assumes "sublist bridge t" and "t \<in> set cited"
  shows "bridge_novelty_errors U bridge cited = []"
proof -
  have sub: "sublist bridge (sep_join '' '' cited)"
    by (rule sublist_order.order_trans [OF assms(1) cited_sublist [OF assms(2)]])
  have "sublist n (sep_join '' '' cited)" if "n \<in> set (find_all m U False (characters bridge))" for m n
    using find_all_sublist [OF that] sub by (simp add: concat_characters)
  then have "sublist e (sep_join '' '' cited)" "sublist (strip_number e') (sep_join '' '' cited)"
    if "e \<in> set (find_entities U bridge)" "e' \<in> set (find_numbers U bridge)" for e e'
    using that strip_number_sublist [of e'] unfolding find_entities_def find_numbers_def
    by (blast intro: sublist_order.order_trans)+
  then have "filter (\<lambda>n. n \<noteq> [] \<and> \<not> sublist n (sep_join '' '' cited)) (map strip_number (dedup (find_numbers U bridge))) = []"
    and "filter (\<lambda>e. e \<notin> set allowed_caps \<and> \<not> sublist e (sep_join '' '' cited)) (dedup (find_entities U bridge)) = []"
    by (auto simp: filter_empty_conv find_entities_def find_numbers_def intro: sublist_order.order_trans [OF strip_number_sublist]
        \<open>\<And>n m. n \<in> set (find_all m U False (characters bridge)) \<Longrightarrow> sublist n (sep_join '' '' cited)\<close>)
  then show ?thesis by (simp add: bridge_novelty_errors_def Let_def)
qed

end
