(* ===== verification/Preflight.thy ===== *)
theory Preflight
  imports View BridgeText
begin

text \<open>
  \<^verbatim>\<open>src/src/shapeflow/p1/preflight.py\<close>: the structural gate before a publication. The issues it records
  are values with what their messages show. An exception that leaves \<open>preflight\<close> in spite of its
  contract is an \<open>Inl\<close>.
\<close>

datatype provenance_issue =
    NotSelected string
  | Rewritten string
  | IdWithAnnotation string
  | IdWithGapsOrBridges
  | GapsAltered "string list" "string list"
  | InventedBridge string
  | InventedDrop string
  | DroppedThoughSupported string
  | DroppedBridgesDiffer
  | DroppedSpansDiffer

datatype ref_issue =
    RefMissing string string string
  | RefBounds string string int int nat
  | RefHash string string

datatype preflight_issue =
    ContractMismatch string string
  | NoBridgeCaps
  | Unregistered string
  | Provenance provenance_issue
  | NotOffered string
  | Drift drift_issue
  | NonCitableRole string string "string list"
  | BridgeCitesContext string "string list"
  | ViewNamespace string string
  | SpanNamespace string string string
  | SpanIssue span_issue
  | RefIssue ref_issue
  | OneSided string string
  | DanglingBridge string "string list"
  | Novel string novelty
  | RenderFailed render_error
  | OverBudget int int
  | BridgeTooLong int int
  | BridgesTooLong int int

datatype preflight_exn = FieldMissing missing_key | KeyMissing render_error | DriftRaised view_error

record preflight_config =
  pc_budget :: int
  pc_cap_total :: "int option"
  pc_cap_each :: "int option"
  pc_namespace :: "string option"
  pc_contract :: "string option"

record preflight_result =
  pr_errors :: "preflight_issue list"
  pr_rendered :: "render_result option"

definition preflight_ok :: "preflight_result \<Rightarrow> bool" where
  "preflight_ok r \<longleftrightarrow> pr_errors r = []"

subsection \<open>Refs\<close>

definition ref_error ::
  "(string \<Rightarrow> string) \<Rightarrow> (string \<times> utext) list \<Rightarrow> string \<Rightarrow> string \<Rightarrow> span_ref \<Rightarrow> ref_issue list" where
  "ref_error sha snapshots sid kind r =
     (case map_of snapshots (rf_content_hash r) of
        None \<Rightarrow> [RefMissing sid kind (take 12 (rf_content_hash r))]
      | Some t \<Rightarrow>
          let s = rf_char_start r; e = rf_char_end r in
          if \<not> (0 \<le> s \<and> s \<le> e \<and> e \<le> int (length t)) then [RefBounds sid kind s e (length t)]
          else if sha256_hex sha (utf8 (py_slice s e t)) \<noteq> rf_text_sha256 r then [RefHash sid kind] else [])"

definition ref_errors :: "(string \<Rightarrow> string) \<Rightarrow> span list \<Rightarrow> (string \<times> utext) list \<Rightarrow> ref_issue list" where
  "ref_errors sha spans snapshots =
     concat (map (\<lambda>sp.
       concat (map (ref_error sha snapshots (short_id sp) ''context'') (sp_context_refs sp))
       @ concat (map (ref_error sha snapshots (short_id sp) ''heading'') (sp_heading_refs sp))) spans)"

subsection \<open>The digest of an offered view\<close>

definition ref_value :: "span_ref \<Rightarrow> pyval" where
  "ref_value r = str_dict [(''content_hash'', PStr (rf_content_hash r)), (''char_start'', PInt (rf_char_start r)),
     (''char_end'', PInt (rf_char_end r)), (''text_sha256'', PStr (rf_text_sha256 r))]"

definition view_entry :: "registry \<Rightarrow> nat \<times> string \<Rightarrow> render_error + pyval" where
  "view_entry reg x =
     (case x of (i, sid) \<Rightarrow> rbind (find_span reg sid) (\<lambda>sp. Inr (str_dict
        [(''label'', PStr (''E'' @ show_nat i)), (''span_id'', PStr sid), (''namespace'', PStr (sp_namespace sp)),
         (''body_sha256'', PStr (sp_text_sha256 sp)),
         (''context_refs'', PList (map ref_value (sp_context_refs sp))),
         (''heading_refs'', PList (map ref_value (sp_heading_refs sp)))])))"

datatype digest_error = UnknownSpan render_error | NotCanonical canon_error

definition candidate_view_sha ::
  "(string \<Rightarrow> string) \<Rightarrow> (real \<Rightarrow> string) \<Rightarrow> registry \<Rightarrow> string list \<Rightarrow> string \<Rightarrow> string \<Rightarrow> string
     \<Rightarrow> digest_error + string" where
  "candidate_view_sha sha fr reg sids namespace bundle_version grouping_version =
     rbind (lift_error UnknownSpan (rmap (view_entry reg) (enumerate 1 sids))) (\<lambda>entries.
     rbind (lift_error NotCanonical (canonical_json fr (str_dict
        [(''namespace'', PStr namespace), (''prompt_bundle_version'', PStr bundle_version),
         (''renderer_grouping_version'', PStr grouping_version), (''candidates'', PList entries)])))
       (\<lambda>j. Inr (sha256_hex sha j)))"

text \<open>The resolver that records a failure and goes on with empty text.\<close>

definition body_resolver ::
  "(string \<times> utext) list \<Rightarrow> (string \<times> string) list \<Rightarrow> span \<Rightarrow> view_error list \<times> string" where
  "body_resolver snapshots views sp =
     (case resolve_body snapshots views sp of Inl e \<Rightarrow> ([e], []) | Inr t \<Rightarrow> ([], t))"

subsection \<open>Provenance\<close>

definition kept_ids_of :: "evidence \<Rightarrow> string list" where
  "kept_ids_of ev = map ai_span_id (ev_items ev)"

definition annotation_issues :: "parsed_selection \<Rightarrow> agg_item \<Rightarrow> provenance_issue list" where
  "annotation_issues sel it =
     (case map_of (dict_of (map (\<lambda>i. (pi_span_id i, i)) (ps_items sel))) (ai_span_id it) of
        None \<Rightarrow> [NotSelected (ai_span_id it)]
      | Some chosen \<Rightarrow>
          if agg_role it \<noteq> item_role chosen \<or> agg_facet_ids it \<noteq> item_facet_ids chosen
          then [Rewritten (ai_span_id it)] else [])"

definition is_some_text :: "string option \<Rightarrow> bool" where
  "is_some_text r = (case r of None \<Rightarrow> False | Some s \<Rightarrow> s \<noteq> [])"

definition id_contract_issues :: "parsed_selection \<Rightarrow> evidence \<Rightarrow> provenance_issue list" where
  "id_contract_issues sel ev =
     (if ps_contract sel \<noteq> ''P1_ID'' then []
      else map (\<lambda>it. IdWithAnnotation (ai_span_id it))
             (filter (\<lambda>it. is_some_text (agg_role it) \<or> agg_facet_ids it \<noteq> []) (ev_items ev))
        @ (if ev_gaps ev \<noteq> [] \<or> ev_bridges ev \<noteq> [] then [IdWithGapsOrBridges] else []))"

definition gap_issues :: "parsed_selection \<Rightarrow> evidence \<Rightarrow> provenance_issue list" where
  "gap_issues sel ev =
     (if ev_gaps ev = ps_gaps sel then []
      else [GapsAltered (sort (map pg_facet_id (filter (\<lambda>g. g \<notin> set (ev_gaps ev)) (ps_gaps sel))))
              (sort (map pg_facet_id (filter (\<lambda>g. g \<notin> set (ps_gaps sel)) (ev_gaps ev))))])"

definition dropped_bridge_issue :: "parsed_selection \<Rightarrow> evidence \<Rightarrow> string \<Rightarrow> provenance_issue list" where
  "dropped_bridge_issue sel ev t =
     (case map_of (dict_of (map (\<lambda>b. (pb_text b, b)) (ps_bridges sel))) t of
        None \<Rightarrow> [InventedDrop t]
      | Some b \<Rightarrow> if set (pb_evidence b) \<subseteq> set (kept_ids_of ev) then [DroppedThoughSupported t] else [])"

definition lost_bridges :: "parsed_selection \<Rightarrow> evidence \<Rightarrow> string list" where
  "lost_bridges sel ev =
     map pb_text (filter (\<lambda>b. \<not> set (pb_evidence b) \<subseteq> set (kept_ids_of ev)) (ps_bridges sel))"

definition bridge_provenance :: "parsed_selection \<Rightarrow> evidence \<Rightarrow> provenance_issue list" where
  "bridge_provenance sel ev =
     map (\<lambda>b. InventedBridge (pb_text b)) (filter (\<lambda>b. b \<notin> set (ps_bridges sel)) (ev_bridges ev))
     @ concat (map (dropped_bridge_issue sel ev) (ev_dropped_bridges ev))
     @ (if set (ev_dropped_bridges ev) \<noteq> set (lost_bridges sel ev) then [DroppedBridgesDiffer] else [])"

definition dropped_span_issues :: "parsed_selection \<Rightarrow> evidence \<Rightarrow> provenance_issue list" where
  "dropped_span_issues sel ev =
     (if set (ev_dropped ev) \<noteq> set (selected_span_ids sel) - set (kept_ids_of ev) then [DroppedSpansDiffer] else [])"

definition provenance_errors :: "parsed_selection \<Rightarrow> evidence \<Rightarrow> provenance_issue list" where
  "provenance_errors sel ev =
     concat (map (annotation_issues sel) (ev_items ev)) @ id_contract_issues sel ev @ gap_issues sel ev
     @ bridge_provenance sel ev @ dropped_span_issues sel ev"

subsection \<open>The steps\<close>

definition contract_issues :: "parsed_selection \<Rightarrow> preflight_config \<Rightarrow> preflight_issue list" where
  "contract_issues sel cfg =
     (case pc_contract cfg of
        None \<Rightarrow> [] | Some c \<Rightarrow> if ps_contract sel \<noteq> c then [ContractMismatch (ps_contract sel) c] else [])
     @ (if ps_contract sel = ''P1_BRIDGE'' \<and> (pc_cap_each cfg = None \<or> pc_cap_total cfg = None)
        then [NoBridgeCaps] else [])"

definition registry_issues :: "candidate_view \<Rightarrow> evidence \<Rightarrow> preflight_issue list" where
  "registry_issues v ev =
     map Unregistered (filter (\<lambda>sid. map_of (cv_registry v) sid = None) (kept_ids_of ev))"

definition published_spans :: "candidate_view \<Rightarrow> evidence \<Rightarrow> span list" where
  "published_spans v ev = some_values (map (map_of (cv_registry v)) (kept_ids_of ev))"

definition offered_issues :: "candidate_view \<Rightarrow> evidence \<Rightarrow> preflight_issue list" where
  "offered_issues v ev =
     map NotOffered (filter (\<lambda>sid. sid \<notin> oc_span_id ` set (cv_candidates v)) (kept_ids_of ev))"

definition non_citable_ids :: "candidate_view \<Rightarrow> string list" where
  "non_citable_ids v = map oc_span_id (filter (\<lambda>c. oc_namespace c = ''VISIBLE_MESSAGE''
     \<and> oc_origin_kind c \<in> set non_citable_kinds) (cv_candidates v))"

definition disallowed_roles :: "parsed_item \<Rightarrow> string list" where
  "disallowed_roles it = sort (dedup (filter (\<lambda>s. s \<noteq> ''background'')
     (concat (map (\<lambda>(f, r). case r of None \<Rightarrow> [] | Some s \<Rightarrow> [s]) (pi_relations it)))))"

definition context_role_issues :: "candidate_view \<Rightarrow> parsed_selection \<Rightarrow> preflight_issue list" where
  "context_role_issues v sel =
     concat (map (\<lambda>it. if pi_span_id it \<in> set (non_citable_ids v) \<and> disallowed_roles it \<noteq> []
        then [NonCitableRole (case map_of (by_id v) (pi_span_id it) of None \<Rightarrow> [] | Some c \<Rightarrow> oc_origin_kind c)
                (pi_span_id it) (disallowed_roles it)]
        else []) (ps_items sel))"

definition context_bridge_issues :: "candidate_view \<Rightarrow> parsed_selection \<Rightarrow> preflight_issue list" where
  "context_bridge_issues v sel =
     concat (map (\<lambda>b. let refs = filter (\<lambda>sid. sid \<in> set (non_citable_ids v)) (pb_evidence b)
        in if refs \<noteq> [] then [BridgeCitesContext (pb_text b) refs] else []) (ps_bridges sel))"

definition namespace_issues :: "preflight_config \<Rightarrow> candidate_view \<Rightarrow> span list \<Rightarrow> preflight_issue list" where
  "namespace_issues cfg v spans =
     (case pc_namespace cfg of
        None \<Rightarrow> []
      | Some ns \<Rightarrow> (if cv_namespace v \<noteq> ns then [ViewNamespace (cv_namespace v) ns] else [])
          @ map (\<lambda>sp. SpanNamespace (short_id sp) (sp_namespace sp) ns) (filter (\<lambda>sp. sp_namespace sp \<noteq> ns) spans))"

text \<open>The roles recorded on each facet, in the order the facets are first seen with a role.\<close>

definition role_table :: "relation list \<Rightarrow> (string \<times> string list) list" where
  "role_table rels =
     fold (\<lambda>(f, r) d. case r of None \<Rightarrow> d | Some s \<Rightarrow> if s = [] then d else add_member f s d) rels []"

definition contradiction_issues :: "parsed_selection \<Rightarrow> evidence \<Rightarrow> preflight_issue list" where
  "contradiction_issues sel ev =
     (let declared = role_table (concat (map pi_relations (ps_items sel)));
          published = role_table (concat (map ai_relations (ev_items ev)));
          sides = [''support'', ''contradict'']
      in concat (map (\<lambda>(facet, roles).
           if set sides \<subseteq> set roles
           then map (OneSided facet)
             (filter (\<lambda>r. r \<notin> set (case map_of published facet of None \<Rightarrow> [] | Some rs \<Rightarrow> rs)) sides)
           else []) declared))"

definition bridge_issue ::
  "unicode \<Rightarrow> candidate_view \<Rightarrow> evidence \<Rightarrow> parsed_bridge \<Rightarrow> render_error + preflight_issue list" where
  "bridge_issue U v ev b =
     (let dangling = filter (\<lambda>sid. sid \<notin> set (kept_ids_of ev)) (pb_evidence b)
      in if dangling \<noteq> [] then Inr [DanglingBridge (pb_text b) dangling]
         else rbind (rmap (\<lambda>sid. rbind (find_span (cv_registry v) sid) (\<lambda>sp. text_for v (span_id_of sp))) (pb_evidence b))
                (\<lambda>cited. Inr (map (Novel (pb_text b)) (bridge_novelty_errors U (pb_text b) cited))))"

definition integrity_issues ::
  "unicode \<Rightarrow> (string \<Rightarrow> string) \<Rightarrow> (real \<Rightarrow> string) \<Rightarrow> parsed_selection \<Rightarrow> evidence \<Rightarrow> candidate_view
     \<Rightarrow> string list \<Rightarrow> preflight_config \<Rightarrow> preflight_exn + preflight_issue list" where
  "integrity_issues U sha fr sel ev v known cfg =
     (let spans = published_spans v ev in
      rbind (lift_error DriftRaised (drift_errors sha fr v (kept_ids_of ev))) (\<lambda>drifts.
      rbind (lift_error FieldMissing (reconstruction_errors sha (cv_snapshots v) (cv_views v) spans)) (\<lambda>broken.
      rbind (lift_error KeyMissing (rmap (bridge_issue U v ev) (ev_bridges ev))) (\<lambda>bridges.
        Inr (contract_issues sel cfg @ registry_issues v ev @ map Provenance (provenance_errors sel ev)
          @ offered_issues v ev @ map Drift drifts @ context_role_issues v sel @ context_bridge_issues v sel
          @ namespace_issues cfg v spans @ map SpanIssue broken
          @ map SpanIssue (lineage_closure_errors known spans)
          @ map RefIssue (ref_errors sha spans (cv_snapshots v))
          @ contradiction_issues sel ev @ concat bridges)))))"

text \<open>The guarded rendering and the budget gate on what it returns.\<close>

definition render_gate ::
  "preflight_config \<Rightarrow> candidate_view \<Rightarrow> evidence \<Rightarrow> preflight_issue list \<times> render_result option" where
  "render_gate cfg v ev =
     (case guard_publication (lift_error Ordinary (view_render v ev)) of
        None \<Rightarrow> ([], None)
      | Some failures \<Rightarrow>
          (case view_render v ev of
             Inl e \<Rightarrow> (map RenderFailed failures, None)
           | Inr out \<Rightarrow>
               (map RenderFailed failures
                  @ (if rr_tokens out > pc_budget cfg then [OverBudget (rr_tokens out) (pc_budget cfg)] else []),
                Some out)))"

definition cap_issues :: "(string \<Rightarrow> int) \<Rightarrow> preflight_config \<Rightarrow> evidence \<Rightarrow> preflight_issue list" where
  "cap_issues counter cfg ev =
     (if ev_bridges ev = [] then []
      else
        (let counts = map (\<lambda>b. counter (pb_text b)) (ev_bridges ev); total = sum_list counts
         in (case pc_cap_each cfg of
               None \<Rightarrow> [] | Some cap \<Rightarrow> map (\<lambda>n. BridgeTooLong n cap) (filter (\<lambda>n. n > cap) counts))
          @ (case pc_cap_total cfg of None \<Rightarrow> [] | Some cap \<Rightarrow> if total > cap then [BridgesTooLong total cap] else [])))"

definition preflight ::
  "unicode \<Rightarrow> (string \<Rightarrow> string) \<Rightarrow> (real \<Rightarrow> string) \<Rightarrow> parsed_selection \<Rightarrow> evidence \<Rightarrow> candidate_view
     \<Rightarrow> string list \<Rightarrow> preflight_config \<Rightarrow> preflight_exn + preflight_result" where
  "preflight U sha fr sel ev v known cfg =
     rbind (integrity_issues U sha fr sel ev v known cfg) (\<lambda>integrity.
       let (failures, rendered) = (if integrity = [] then render_gate cfg v ev else ([], None));
           errors = integrity @ failures @ cap_issues (cv_count v) cfg ev
       in Inr \<lparr>pr_errors = errors, pr_rendered = (if errors = [] then rendered else None)\<rparr>)"

end
