(* ===== verification/PreflightProps.thy ===== *)
theory PreflightProps
  imports Preflight ViewProps AggregatorsProps
begin

text \<open>
  What the publication gate promises over a built view: exactly when it publishes, what it publishes, and
  the one way in which it raises although it must not.
\<close>

subsection \<open>Rendering a built RAW_SOURCE view never fails\<close>

definition placed :: "candidate_view \<Rightarrow> agg_item \<times> span \<Rightarrow> bool" where
  "placed v x \<longleftrightarrow> (case x of (it, sp) \<Rightarrow>
     map_of (cv_registry v) (ai_span_id it) = Some sp \<and> span_id_of sp = ai_span_id it
     \<and> map_of (by_id v) (ai_span_id it) \<noteq> None \<and> sp_namespace sp = ''RAW_SOURCE'' \<and> (\<exists>p. start_end sp = Inr p))"

lemma raw_span_fields:
  assumes "resolve_body snapshots views sp = Inr t" and "sp_namespace sp = ''RAW_SOURCE''"
  obtains h s e where "sp_content_hash sp = Some h" "sp_char_start sp = Some s" "sp_char_end sp = Some e"
    "map_of snapshots h \<noteq> None"
  using assms unfolding resolve_body_def Let_def by (auto split: option.splits)

lemma offered_placed:
  assumes "build_view sha fr counter V = Inr v" and "vs_namespace V = ''RAW_SOURCE''"
    and "map_of (cv_registry v) (ai_span_id it) = Some sp"
  shows "placed v (it, sp)"
proof -
  have "ai_span_id it \<in> oc_span_id ` set (cv_candidates v)"
    using assms(3) view_dictionaries(1,2) [OF assms(1), of "ai_span_id it"] by auto
  then obtain c sp' i plan where c: "map_of (by_id v) (ai_span_id it) = Some c"
    and sp': "map_of (cv_registry v) (ai_span_id it) = Some sp'" and sid: "oc_span_id c = ai_span_id it"
    and made: "make_candidate sha counter V plan (Suc i, sp') = Inr c"
    by (rule offered_candidate [OF assms(1)])
  note facts = make_candidate_Inr [OF made]
  obtain h s e where "sp_char_start sp' = Some s" "sp_char_end sp' = Some e"
    by (rule raw_span_fields [OF facts(8)]) (use facts(4) assms(2) in simp)
  then show ?thesis using c sp' sid facts(2,4) assms(2,3) by (simp add: placed_def start_end_def)
qed

lemma run_step_total:
  assumes "\<forall>run \<in> set runs. run \<noteq> [] \<and> (\<forall>x \<in> set run. placed v x)" and "placed v cur"
  shows "\<exists>runs'. run_step metas cur runs = Inr runs' \<and> (\<forall>run \<in> set runs'. run \<noteq> [] \<and> (\<forall>x \<in> set run. placed v x))"
proof (cases "runs = []")
  case True
  with assms show ?thesis by (simp add: run_step_def)
next
  case False
  then have "last runs \<in> set runs" by simp
  with assms have last: "last runs \<noteq> []" "\<forall>x \<in> set (last runs). placed v x" by auto
  then have "placed v (last (last runs))" by simp
  moreover have "\<exists>b. abuts metas x y = Inr b" if "placed v x" "placed v y" for x y
    using that by (cases x; cases y) (auto simp: abuts_def placed_def)
  ultimately obtain adjacent where "abuts metas (last (last runs)) cur = Inr adjacent" using assms(2) by blast
  moreover have "\<forall>run \<in> set (butlast runs). run \<noteq> [] \<and> (\<forall>x \<in> set run. placed v x)"
    using assms(1) by (auto dest: in_set_butlastD)
  ultimately show ?thesis using False assms last by (auto simp: run_step_def)
qed

lemma runs_total:
  assumes "\<forall>x \<in> set its. placed v x" and "\<forall>run \<in> set runs. run \<noteq> [] \<and> (\<forall>x \<in> set run. placed v x)"
  shows "\<exists>runs'. rfold (run_step metas) its runs = Inr runs' \<and> (\<forall>run \<in> set runs'. run \<noteq> [] \<and> (\<forall>x \<in> set run. placed v x))"
  using assms
proof (induction its arbitrary: runs)
  case (Cons x its)
  from run_step_total [of runs v x metas] Cons.prems obtain runs' where step: "run_step metas x runs = Inr runs'"
    and ok: "\<forall>run \<in> set runs'. run \<noteq> [] \<and> (\<forall>x \<in> set run. placed v x)" by auto
  from Cons.IH [OF _ ok] Cons.prems step show ?case by simp
qed simp

lemma offered_Inr: "map_of (by_id v) sid \<noteq> None \<Longrightarrow> \<exists>c. offered v sid = Inr c"
  by (auto simp: offered_def)

lemma item_lines_total: "placed v x \<Longrightarrow> \<exists>ls. item_lines (view_env v) x = Inr ls"
  using offered_Inr [of v "ai_span_id (fst x)"]
  by (cases x) (auto simp: placed_def item_lines_def view_env_def publication_handle_for_def text_for_def Let_def)

lemma run_lines_total:
  assumes "run \<noteq> []" and "\<forall>x \<in> set run. placed v x"
  shows "\<exists>ls. run_lines (view_env v) run = Inr ls"
proof -
  obtain it sp rest where run: "run = (it, sp) # rest" using assms(1) by (cases run) auto
  then have "sp_namespace sp = ''RAW_SOURCE''" using assms(2) by (simp add: placed_def)
  moreover obtain lss where "rmap (item_lines (view_env v)) run = Inr lss"
    using rmap_total [of run "item_lines (view_env v)"] assms(2) item_lines_total by blast
  ultimately show ?thesis unfolding run_lines_def run by (simp add: Let_def)
qed

lemma canonical_order_total:
  assumes "\<forall>it \<in> set its. \<exists>sp. placed v (it, sp)"
  shows "\<exists>ord. canonical_order its (cv_registry v) = Inr ord \<and> (\<forall>x \<in> set ord. placed v x)"
proof -
  let ?f = "\<lambda>it. rbind (find_span (cv_registry v) (ai_span_id it)) (\<lambda>sp. rbind (render_order_key sp) (\<lambda>k. Inr (k, it, sp)))"
  have each: "\<exists>k sp. ?f it = Inr (k, it, sp) \<and> placed v (it, sp)" if "it \<in> set its" for it
    using assms that by (fastforce simp: placed_def find_span_def render_order_key_def)
  obtain keyed where keyed: "rmap ?f its = Inr keyed"
    using rmap_total [of its ?f] each by blast
  then have "placed v (snd x)" if "x \<in> set keyed" for x
  proof -
    from keyed have "list_all2 (\<lambda>it y. ?f it = Inr y) its keyed" by (simp add: rmap_Inr_iff)
    from list_all2_mem [OF this that] obtain it where "it \<in> set its" "?f it = Inr x" by blast
    with each [of it] show ?thesis by auto
  qed
  then show ?thesis using keyed by (auto simp: canonical_order_def)
qed

lemma view_render_total:
  assumes "build_view sha fr counter V = Inr v" and "vs_namespace V = ''RAW_SOURCE''"
    and "\<forall>sid \<in> set (kept_ids_of ev). map_of (cv_registry v) sid \<noteq> None"
    and "\<forall>b \<in> set (ev_bridges ev). set (pb_evidence b) \<subseteq> set (kept_ids_of ev)"
  shows "\<exists>out. view_render v ev = Inr out"
proof -
  have "\<exists>sp. placed v (it, sp)" if "it \<in> set (ev_items ev)" for it
    using assms(3) that offered_placed [OF assms(1,2), of it] by (fastforce simp: kept_ids_of_def)
  then obtain ord where ord: "canonical_order (ev_items ev) (cv_registry v) = Inr ord" "\<forall>x \<in> set ord. placed v x"
    using canonical_order_total [of "ev_items ev" v] by blast
  obtain runs where runs: "contiguous_runs (cv_source_meta v) ord = Inr runs"
    "\<forall>run \<in> set runs. run \<noteq> [] \<and> (\<forall>x \<in> set run. placed v x)"
    using runs_total [OF ord(2), of "[]" "cv_source_meta v"] by (auto simp: contiguous_runs_def)
  obtain lss where lss: "rmap (run_lines (view_env v)) runs = Inr lss"
    using rmap_total [of runs "run_lines (view_env v)"] runs(2) run_lines_total by blast
  have label: "\<exists>l. re_label (view_env v) sid = Inr l" if "sid \<in> set (kept_ids_of ev)" for sid
    using that assms(3) view_dictionaries(2) [OF assms(1), of sid] offered_Inr [of v sid]
    by (auto simp: view_env_def publication_handle_for_def)
  have "\<exists>l. bridge_line (view_env v) b = Inr l" if "b \<in> set (ev_bridges ev)" for b
    using rmap_total [of "pb_evidence b" "re_label (view_env v)"] label assms(4) that
    by (fastforce simp: bridge_line_def)
  then obtain bs where "rmap (bridge_line (view_env v)) (ev_bridges ev) = Inr bs"
    using rmap_total [of "ev_bridges ev" "bridge_line (view_env v)"] by blast
  with ord(1) runs(1) lss show ?thesis
    by (simp add: view_render_def render_evidence_def) (simp add: view_env_def Let_def)
qed

subsection \<open>The registered spans of a built view\<close>

lemma registered_span:
  assumes "build_view sha fr counter V = Inr v" and "map_of (cv_registry v) sid = Some sp"
  obtains c plan i where "map_of (by_id v) sid = Some c" "span_id_of sp = sid"
    "make_candidate sha counter V plan (i, sp) = Inr c" "cv_snapshots v = vs_snapshots V" "cv_views v = vs_views V"
proof -
  have "sid \<in> oc_span_id ` set (cv_candidates v)"
    using assms(2) view_dictionaries(1,2) [OF assms(1), of sid] by auto
  then obtain c sp' i plan where c: "map_of (by_id v) sid = Some c"
    and sp': "map_of (cv_registry v) sid = Some sp'" and sid: "oc_span_id c = sid"
    and made: "make_candidate sha counter V plan (Suc i, sp') = Inr c"
    by (rule offered_candidate [OF assms(1)])
  have "cv_snapshots v = vs_snapshots V" "cv_views v = vs_views V" by (rule build_view_Inr [OF assms(1)], assumption)+
  with c sp' sid made assms(2) make_candidate_Inr(2) [OF made] show ?thesis by (auto intro: that)
qed

lemma published_spans_registered:
  "sp \<in> set (published_spans v ev) \<Longrightarrow> \<exists>sid \<in> set (kept_ids_of ev). map_of (cv_registry v) sid = Some sp"
  by (auto simp: published_spans_def some_values_def split: option.splits)

lemma reconstruction_total:
  assumes "resolve_body snapshots views sp = Inr t"
  shows "\<exists>r. reconstruction_error sha snapshots views sp = Inr r"
proof -
  consider "sp_namespace sp = ''RAW_SOURCE''" | "sp_namespace sp = ''VISIBLE_MESSAGE''"
    using assms by (auto simp: resolve_body_def Let_def split: if_splits)
  then show ?thesis
    using assms
    by cases (auto simp: resolve_body_def Let_def reconstruction_error_def raw_source_error_def
        visible_message_error_def need_def split: option.splits)
qed

lemma built_reconstruction_total:
  assumes "build_view sha fr counter V = Inr v"
  shows "\<exists>es. reconstruction_errors sha (cv_snapshots v) (cv_views v) (published_spans v ev) = Inr es"
proof -
  have "\<exists>r. reconstruction_error sha (cv_snapshots v) (cv_views v) sp = Inr r"
    if mem: "sp \<in> set (published_spans v ev)" for sp
  proof -
    obtain sid where "map_of (cv_registry v) sid = Some sp" using published_spans_registered [OF mem] by blast
    then obtain c plan i where "make_candidate sha counter V plan (i, sp) = Inr c"
      and eqs: "cv_snapshots v = vs_snapshots V" "cv_views v = vs_views V" by (rule registered_span [OF assms])
    from make_candidate_Inr(8) [OF this(1)] show ?thesis unfolding eqs by (rule reconstruction_total)
  qed
  then obtain rs where "rmap (reconstruction_error sha (cv_snapshots v) (cv_views v)) (published_spans v ev) = Inr rs"
    using rmap_total [of "published_spans v ev"] by blast
  then show ?thesis by (simp add: reconstruction_errors_def)
qed

subsection \<open>When the gate raises\<close>

lemma cited_text:
  assumes "build_view sha fr counter V = Inr v"
  shows "(\<exists>t. rbind (find_span (cv_registry v) sid) (\<lambda>sp. text_for v (span_id_of sp)) = Inr t)
    \<longleftrightarrow> sid \<in> oc_span_id ` set (cv_candidates v)"
proof (cases "map_of (cv_registry v) sid")
  case None
  then show ?thesis using view_dictionaries(1,2) [OF assms, of sid] by (simp add: find_span_def)
next
  case (Some sp)
  then obtain c where "map_of (by_id v) sid = Some c" "span_id_of sp = sid" by (rule registered_span [OF assms])
  with Some show ?thesis using view_dictionaries(1) [OF assms, of sid]
    by (auto simp: find_span_def text_for_def offered_def)
qed

lemma rmap_ex_Inr: "(\<exists>ys. rmap f xs = Inr ys) \<longleftrightarrow> (\<forall>x \<in> set xs. \<exists>y. f x = Inr y)"
  by (induction xs) (auto simp: result_elims)

lemma bridge_issue_raises:
  assumes "build_view sha fr counter V = Inr v"
  shows "(\<exists>is. bridge_issue U v ev b = Inr is) \<longleftrightarrow>
    \<not> (set (pb_evidence b) \<subseteq> set (kept_ids_of ev) \<and> \<not> set (pb_evidence b) \<subseteq> oc_span_id ` set (cv_candidates v))"
proof (cases "set (pb_evidence b) \<subseteq> set (kept_ids_of ev)")
  case True
  then have "filter (\<lambda>sid. sid \<notin> set (kept_ids_of ev)) (pb_evidence b) = []" by (auto simp: filter_empty_conv)
  then have "(\<exists>is. bridge_issue U v ev b = Inr is) \<longleftrightarrow>
      (\<exists>ts. rmap (\<lambda>sid. rbind (find_span (cv_registry v) sid) (\<lambda>sp. text_for v (span_id_of sp))) (pb_evidence b) = Inr ts)"
    by (auto simp: bridge_issue_def result_elims)
  also have "\<dots> \<longleftrightarrow> set (pb_evidence b) \<subseteq> oc_span_id ` set (cv_candidates v)"
    unfolding rmap_ex_Inr cited_text [OF assms] by blast
  finally show ?thesis using True by simp
next
  case False
  then have "filter (\<lambda>sid. sid \<notin> set (kept_ids_of ev)) (pb_evidence b) \<noteq> []" by (auto simp: filter_empty_conv)
  with False show ?thesis by (simp add: bridge_issue_def Let_def)
qed

lemma integrity_total:
  assumes "build_view sha fr counter V = Inr v"
  obtains broken where "reconstruction_errors sha (cv_snapshots v) (cv_views v) (published_spans v ev) = Inr broken"
    and "integrity_issues U sha fr sel ev v known cfg =
      rbind (lift_error KeyMissing (rmap (bridge_issue U v ev) (ev_bridges ev))) (\<lambda>bridges.
        Inr (contract_issues sel cfg @ registry_issues v ev @ map Provenance (provenance_errors sel ev)
          @ offered_issues v ev @ context_role_issues v sel @ context_bridge_issues v sel
          @ namespace_issues cfg v (published_spans v ev) @ map SpanIssue broken
          @ map SpanIssue (lineage_closure_errors known (published_spans v ev))
          @ map RefIssue (ref_errors sha (published_spans v ev) (cv_snapshots v))
          @ contradiction_issues sel ev @ concat bridges))"
proof -
  obtain broken where "reconstruction_errors sha (cv_snapshots v) (cv_views v) (published_spans v ev) = Inr broken"
    using built_reconstruction_total [OF assms] by blast
  then show ?thesis
    by (intro that) (simp_all add: integrity_issues_def Let_def fresh_no_drift [OF assms])
qed

lemma lift_error_Inl [result_elims]: "lift_error f m = Inl x \<longleftrightarrow> (\<exists>e. m = Inl e \<and> x = f e)"
  by (cases m) auto

text \<open>
  The gate is documented never to raise. Over a freshly built view it returns a decision in every
  case but one, and in that one it raises: when some published bridge cites only spans that the
  aggregator published, one of which was never offered. Publishing a span outside the view is recorded as
  an error by the first step, but the novelty check of the bridge then looks the span up without a guard.
\<close>

theorem preflight_raises_iff:
  assumes "build_view sha fr counter V = Inr v"
  shows "(\<exists>e. preflight U sha fr sel ev v known cfg = Inl e) \<longleftrightarrow>
    (\<exists>b \<in> set (ev_bridges ev). set (pb_evidence b) \<subseteq> set (kept_ids_of ev)
       \<and> \<not> set (pb_evidence b) \<subseteq> oc_span_id ` set (cv_candidates v))"
proof -
  have "\<exists>f. integrity_issues U sha fr sel ev v known cfg =
      rbind (lift_error KeyMissing (rmap (bridge_issue U v ev) (ev_bridges ev))) (\<lambda>bridges. Inr (f bridges))"
    by (rule integrity_total [OF assms, where U = U and sel = sel and ev = ev and known = known and cfg = cfg])
      (rule exI, assumption)
  then obtain f where f: "integrity_issues U sha fr sel ev v known cfg =
      rbind (lift_error KeyMissing (rmap (bridge_issue U v ev) (ev_bridges ev))) (\<lambda>bridges. Inr (f bridges))" ..
  have "(\<exists>e. preflight U sha fr sel ev v known cfg = Inl e) \<longleftrightarrow> (\<exists>e. rmap (bridge_issue U v ev) (ev_bridges ev) = Inl e)"
    unfolding preflight_def f by (simp add: result_elims split_beta Let_def)
  also have "\<dots> \<longleftrightarrow> \<not> (\<exists>is. rmap (bridge_issue U v ev) (ev_bridges ev) = Inr is)"
    by (cases "rmap (bridge_issue U v ev) (ev_bridges ev)") auto
  also have "\<dots> \<longleftrightarrow> \<not> (\<forall>b \<in> set (ev_bridges ev). \<exists>is. bridge_issue U v ev b = Inr is)"
    unfolding rmap_ex_Inr ..
  finally show ?thesis unfolding bridge_issue_raises [OF assms] by simp
qed

subsection \<open>What a published result has passed\<close>

lemma preflight_Inr:
  assumes "preflight U sha fr sel ev v known cfg = Inr r"
  obtains integrity where "integrity_issues U sha fr sel ev v known cfg = Inr integrity"
    and "pr_errors r = integrity @ fst (if integrity = [] then render_gate cfg v ev else ([], None)) @ cap_issues (cv_count v) cfg ev"
    and "pr_rendered r = (if pr_errors r = [] then snd (if integrity = [] then render_gate cfg v ev else ([], None)) else None)"
  using assms by (auto simp: preflight_def result_elims split_beta Let_def)

lemma render_gate_Nil:
  "fst (render_gate cfg v ev) = [] \<longleftrightarrow> (\<exists>out. view_render v ev = Inr out \<and> rr_tokens out \<le> pc_budget cfg)"
  "snd (render_gate cfg v ev) = (case view_render v ev of Inl e \<Rightarrow> None | Inr out \<Rightarrow> Some out)"
  by (cases "view_render v ev"; auto simp: render_gate_def guard_publication_def)+

lemma integrity_Nil:
  assumes "integrity_issues U sha fr sel ev v known cfg = Inr []"
  shows "contract_issues sel cfg = []" "registry_issues v ev = []" "provenance_errors sel ev = []"
    "offered_issues v ev = []" "drift_errors sha fr v (kept_ids_of ev) = Inr []"
    "context_role_issues v sel = []" "context_bridge_issues v sel = []"
    "namespace_issues cfg v (published_spans v ev) = []"
    "reconstruction_errors sha (cv_snapshots v) (cv_views v) (published_spans v ev) = Inr []"
    "lineage_closure_errors known (published_spans v ev) = []"
    "ref_errors sha (published_spans v ev) (cv_snapshots v) = []" "contradiction_issues sel ev = []"
  using assms unfolding integrity_issues_def Let_def by (auto simp: result_elims)

text \<open>
  What the provenance check compares. An item is published as the single role it plays and the facets it
  is on, in order; an item that plays several roles has no single role, so which of them it plays on
  which facet is not compared (\<open>swapped_roles_pass\<close> below).
\<close>

definition as_selected :: "parsed_selection \<Rightarrow> evidence \<Rightarrow> bool" where
  "as_selected sel ev \<longleftrightarrow>
     (\<forall>it \<in> set (ev_items ev). \<exists>c \<in> set (ps_items sel). pi_span_id c = ai_span_id it
        \<and> agg_role it = item_role c \<and> agg_facet_ids it = item_facet_ids c)
     \<and> (ps_contract sel = ''P1_ID'' \<longrightarrow> (\<forall>it \<in> set (ev_items ev). \<not> is_some_text (agg_role it) \<and> agg_facet_ids it = [])
          \<and> ev_gaps ev = [] \<and> ev_bridges ev = [])
     \<and> ev_gaps ev = ps_gaps sel
     \<and> set (ev_bridges ev) \<subseteq> set (ps_bridges sel)
     \<and> set (ev_dropped_bridges ev)
          = pb_text ` {b \<in> set (ps_bridges sel). \<not> set (pb_evidence b) \<subseteq> set (kept_ids_of ev)}
     \<and> set (ev_dropped ev) = set (selected_span_ids sel) - set (kept_ids_of ev)"

lemma provenance_as_selected:
  assumes "provenance_errors sel ev = []"
  shows "as_selected sel ev"
proof -
  have parts: "concat (map (annotation_issues sel) (ev_items ev)) = []" "id_contract_issues sel ev = []"
    "gap_issues sel ev = []" "bridge_provenance sel ev = []" "dropped_span_issues sel ev = []"
    using assms by (simp_all add: provenance_errors_def)
  have "\<exists>c \<in> set (ps_items sel). pi_span_id c = ai_span_id it
        \<and> agg_role it = item_role c \<and> agg_facet_ids it = item_facet_ids c" if it: "it \<in> set (ev_items ev)" for it
  proof -
    have nil: "annotation_issues sel it = []" using parts(1) it by simp
    then obtain c where c: "map_of (dict_of (map (\<lambda>i. (pi_span_id i, i)) (ps_items sel))) (ai_span_id it) = Some c"
      by (auto simp: annotation_issues_def split: option.splits)
    then have "(ai_span_id it, c) \<in> set (rev (map (\<lambda>i. (pi_span_id i, i)) (ps_items sel)))"
      unfolding map_of_dict_of by (rule map_of_SomeD)
    moreover from nil c have "agg_role it = item_role c \<and> agg_facet_ids it = item_facet_ids c"
      by (simp add: annotation_issues_def split: if_splits)
    ultimately show ?thesis by auto
  qed
  moreover have "ps_contract sel = ''P1_ID'' \<longrightarrow> (\<forall>it \<in> set (ev_items ev). \<not> is_some_text (agg_role it)
      \<and> agg_facet_ids it = []) \<and> ev_gaps ev = [] \<and> ev_bridges ev = []"
    using parts(2) by (auto simp: id_contract_issues_def filter_empty_conv split: if_splits)
  moreover have "ev_gaps ev = ps_gaps sel" using parts(3) by (simp add: gap_issues_def split: if_splits)
  moreover have "set (ev_bridges ev) \<subseteq> set (ps_bridges sel)"
    using parts(4) by (auto simp: bridge_provenance_def filter_empty_conv)
  moreover have "set (ev_dropped_bridges ev)
      = pb_text ` {b \<in> set (ps_bridges sel). \<not> set (pb_evidence b) \<subseteq> set (kept_ids_of ev)}"
    using parts(4) by (auto simp: bridge_provenance_def lost_bridges_def split: if_splits)
  moreover have "set (ev_dropped ev) = set (selected_span_ids sel) - set (kept_ids_of ev)"
    using parts(5) by (simp add: dropped_span_issues_def split: if_splits)
  ultimately show ?thesis unfolding as_selected_def by blast
qed

lemma context_role_background:
  assumes "context_role_issues v sel = []" and "it \<in> set (ps_items sel)"
    and "pi_span_id it \<in> set (non_citable_ids v)" and "(f, Some s) \<in> set (pi_relations it)"
  shows "s = ''background''"
proof -
  have "disallowed_roles it = []" using assms(1-3) by (auto simp: context_role_issues_def split: if_splits)
  moreover have "s \<in> set (disallowed_roles it)" if "s \<noteq> ''background''"
    using assms(4) that by (auto simp: disallowed_roles_def intro!: bexI [of _ "(f, Some s)"])
  ultimately show ?thesis by auto
qed

text \<open>
  C27. The gate fails closed: it hands bytes back exactly when it recorded no error. What it hands back
  is the view's own rendering, within the budget; every span in it was offered, still reconstructs from
  the frozen bytes, cites only known occurrences and is in the expected namespace. Every published item
  was selected and carries the single role and the facets of a selected item of its span (nothing under
  \<open>P1_ID\<close>), the gaps are those selected, every bridge was selected, and the recorded drops are exactly
  the spans that are missing and the bridges that lost evidence; a context span plays no role but
  background. The pairing of several roles of one item with its facets is not compared.
\<close>

theorem preflight_fail_closed:
  assumes "preflight U sha fr sel ev v known cfg = Inr r"
  shows "(pr_rendered r \<noteq> None \<longleftrightarrow> preflight_ok r)
    \<and> (\<forall>out. pr_rendered r = Some out \<longrightarrow>
        view_render v ev = Inr out \<and> rr_tokens out \<le> pc_budget cfg \<and> as_selected sel ev
        \<and> set (kept_ids_of ev) \<subseteq> oc_span_id ` set (cv_candidates v)
        \<and> (\<forall>sp \<in> set (published_spans v ev). reconstruction_error sha (cv_snapshots v) (cv_views v) sp = Inr None
             \<and> set (case sp_occurrences sp of None \<Rightarrow> [] | Some os \<Rightarrow> os) \<subseteq> set known
             \<and> (\<forall>ns. pc_namespace cfg = Some ns \<longrightarrow> sp_namespace sp = ns))
        \<and> (\<forall>it \<in> set (ps_items sel). \<forall>f s. pi_span_id it \<in> set (non_citable_ids v)
             \<longrightarrow> (f, Some s) \<in> set (pi_relations it) \<longrightarrow> s = ''background''))"
proof -
  obtain integrity where i: "integrity_issues U sha fr sel ev v known cfg = Inr integrity"
    and errors: "pr_errors r = integrity @ fst (if integrity = [] then render_gate cfg v ev else ([], None)) @ cap_issues (cv_count v) cfg ev"
    and rendered: "pr_rendered r = (if pr_errors r = [] then snd (if integrity = [] then render_gate cfg v ev else ([], None)) else None)"
    by (rule preflight_Inr [OF assms])
  have some: "pr_rendered r \<noteq> None" if "pr_errors r = []"
  proof -
    from that errors have nil: "integrity = []" "fst (render_gate cfg v ev) = []" by (auto split: if_splits)
    from nil(2) obtain out where "view_render v ev = Inr out" by (auto simp: render_gate_Nil)
    with that nil(1) show ?thesis by (simp add: rendered render_gate_Nil(2))
  qed
  have bytes: "view_render v ev = Inr out \<and> rr_tokens out \<le> pc_budget cfg \<and> integrity = []"
    if "pr_rendered r = Some out" for out
  proof -
    from that have ok: "pr_errors r = []" by (auto simp: rendered split: if_splits)
    with errors have nil: "integrity = []" "fst (render_gate cfg v ev) = []" by (auto split: if_splits)
    from nil(2) obtain out' where out': "view_render v ev = Inr out'" "rr_tokens out' \<le> pc_budget cfg"
      by (auto simp: render_gate_Nil)
    with that ok nil(1) show ?thesis by (simp add: rendered render_gate_Nil(2))
  qed
  have clean: "as_selected sel ev \<and> set (kept_ids_of ev) \<subseteq> oc_span_id ` set (cv_candidates v)
        \<and> (\<forall>sp \<in> set (published_spans v ev). reconstruction_error sha (cv_snapshots v) (cv_views v) sp = Inr None
             \<and> set (case sp_occurrences sp of None \<Rightarrow> [] | Some os \<Rightarrow> os) \<subseteq> set known
             \<and> (\<forall>ns. pc_namespace cfg = Some ns \<longrightarrow> sp_namespace sp = ns))
        \<and> (\<forall>it \<in> set (ps_items sel). \<forall>f s. pi_span_id it \<in> set (non_citable_ids v)
             \<longrightarrow> (f, Some s) \<in> set (pi_relations it) \<longrightarrow> s = ''background'')" if "integrity = []"
  proof -
    note nil = integrity_Nil [OF i [unfolded that]]
    have "set (kept_ids_of ev) \<subseteq> oc_span_id ` set (cv_candidates v)"
      using nil(4) by (auto simp: offered_issues_def filter_empty_conv)
    moreover have "reconstruction_error sha (cv_snapshots v) (cv_views v) sp = Inr None"
      if "sp \<in> set (published_spans v ev)" for sp
      using nil(9) that by (simp add: reconstruction_errors_Nil)
    moreover have "set (case sp_occurrences sp of None \<Rightarrow> [] | Some os \<Rightarrow> os) \<subseteq> set known"
      if "sp \<in> set (published_spans v ev)" for sp
      using nil(10) that by (auto simp: lineage_closure_errors_def filter_empty_conv)
    moreover have "sp_namespace sp = ns" if "sp \<in> set (published_spans v ev)" "pc_namespace cfg = Some ns" for sp ns
      using nil(8) that by (auto simp: namespace_issues_def filter_empty_conv)
    ultimately show ?thesis
      using provenance_as_selected [OF nil(3)] context_role_background [OF nil(6)] by blast
  qed
  have "pr_rendered r = None" if "pr_errors r \<noteq> []" using that by (simp add: rendered)
  with some have "pr_rendered r \<noteq> None \<longleftrightarrow> preflight_ok r"
    unfolding preflight_ok_def by (cases "pr_errors r = []") simp_all
  with bytes clean show ?thesis by blast
qed

subsection \<open>Contradictions\<close>

definition roles_of :: "(string \<times> string list) list \<Rightarrow> string \<Rightarrow> string list" where
  "roles_of d f = (case map_of d f of None \<Rightarrow> [] | Some rs \<Rightarrow> rs)"

lemma role_table_roles: "set (roles_of (role_table rels) f) = {s. (f, Some s) \<in> set rels \<and> s \<noteq> []}"
proof (induction rels rule: rev_induct)
  case Nil
  then show ?case by (simp add: role_table_def roles_of_def)
next
  case (snoc x rels)
  obtain g r where x: "x = (g, r)" by (cases x)
  let ?d = "role_table rels"
  have "role_table (rels @ [x]) = (case r of None \<Rightarrow> ?d | Some s \<Rightarrow> if s = [] then ?d else add_member g s ?d)"
    by (cases r) (simp_all add: role_table_def x)
  with snoc show ?case by (auto simp: x roles_of_def add_member_def split: option.splits)
qed

lemma distinct_role_table: "distinct (map fst (role_table rels))"
  by (induction rels rule: rev_induct)
    (auto simp: role_table_def add_member_def split: option.splits prod.splits)

lemma in_role_table: "(f, roles) \<in> set (role_table rels) \<Longrightarrow> set roles = {s. (f, Some s) \<in> set rels \<and> s \<noteq> []}"
  using role_table_roles [of rels f] distinct_role_table [of rels] by (simp add: roles_of_def)

lemma role_table_entry:
  assumes "(f, Some s) \<in> set rels" and "s \<noteq> []"
  shows "\<exists>roles. (f, roles) \<in> set (role_table rels)"
proof -
  have "s \<in> set (roles_of (role_table rels) f)" unfolding role_table_roles using assms by simp
  then obtain rs where "map_of (role_table rels) f = Some rs"
    by (cases "map_of (role_table rels) f") (auto simp: roles_of_def)
  then show ?thesis by (blast dest: map_of_SomeD)
qed

text \<open>A side of a facet is published when a published item has that role on it.\<close>

definition published_side :: "evidence \<Rightarrow> string \<Rightarrow> string \<Rightarrow> bool" where
  "published_side ev f r \<longleftrightarrow> (\<exists>it \<in> set (ev_items ev). (f, Some r) \<in> set (ai_relations it))"

lemma contradiction_issues_roles:
  "contradiction_issues sel ev =
     concat (map (\<lambda>(facet, roles).
       if {''support'', ''contradict''} \<subseteq> set roles
       then map (OneSided facet)
         (filter (\<lambda>r. r \<notin> set (roles_of (role_table (concat (map ai_relations (ev_items ev)))) facet)) [''support'', ''contradict''])
       else []) (role_table (concat (map pi_relations (ps_items sel)))))"
  unfolding contradiction_issues_def roles_of_def Let_def by simp

lemma contradiction_issues_iff:
  "OneSided f r \<in> set (contradiction_issues sel ev) \<longleftrightarrow>
     r \<in> {''support'', ''contradict''} \<and> conflict_facet (ps_items sel) f \<and> \<not> published_side ev f r"
proof -
  let ?d = "role_table (concat (map pi_relations (ps_items sel)))"
  let ?p = "role_table (concat (map ai_relations (ev_items ev)))"
  have declared: "(\<exists>roles. (f, roles) \<in> set ?d \<and> {''support'', ''contradict''} \<subseteq> set roles) \<longleftrightarrow> conflict_facet (ps_items sel) f"
  proof
    assume "\<exists>roles. (f, roles) \<in> set ?d \<and> {''support'', ''contradict''} \<subseteq> set roles"
    then show "conflict_facet (ps_items sel) f"
      by (auto simp: conflict_facet_def has_role_def list_ex_iff dest!: in_role_table)
  next
    assume c: "conflict_facet (ps_items sel) f"
    then have mem: "(f, Some ''support'') \<in> set (concat (map pi_relations (ps_items sel)))"
      "(f, Some ''contradict'') \<in> set (concat (map pi_relations (ps_items sel)))"
      by (auto simp: conflict_facet_def has_role_def list_ex_iff)
    obtain roles where "(f, roles) \<in> set ?d" using role_table_entry [OF mem(1)] by auto
    with in_role_table [OF this] mem show "\<exists>roles. (f, roles) \<in> set ?d \<and> {''support'', ''contradict''} \<subseteq> set roles"
      by (intro exI [of _ roles]) simp
  qed
  have pub: "r \<in> set (roles_of ?p f) \<longleftrightarrow> published_side ev f r" if "r \<in> {''support'', ''contradict''}"
    using that unfolding role_table_roles by (auto simp: published_side_def)
  have "OneSided f r \<in> set (contradiction_issues sel ev) \<longleftrightarrow>
      (\<exists>roles. (f, roles) \<in> set ?d \<and> {''support'', ''contradict''} \<subseteq> set roles)
      \<and> r \<in> {''support'', ''contradict''} \<and> r \<notin> set (roles_of ?p f)"
    unfolding contradiction_issues_roles by (auto split: if_splits)
  then show ?thesis using declared pub by blast
qed

lemma contradiction_issues_OneSided: "i \<in> set (contradiction_issues sel ev) \<Longrightarrow> \<exists>f r. i = OneSided f r"
  by (auto simp: contradiction_issues_def Let_def split: if_splits)

lemma contradiction_issues_Nil:
  "contradiction_issues sel ev = [] \<longleftrightarrow>
     (\<forall>f. conflict_facet (ps_items sel) f \<longrightarrow> published_side ev f ''support'' \<and> published_side ev f ''contradict'')"
proof -
  have "contradiction_issues sel ev = [] \<longleftrightarrow> (\<forall>f r. OneSided f r \<notin> set (contradiction_issues sel ev))"
    using contradiction_issues_OneSided [of _ sel ev] by (metis empty_iff list.set(1) list.set_intros(1) neq_Nil_conv)
  then show ?thesis unfolding contradiction_issues_iff by auto
qed

subsection \<open>Samples\<close>

definition sample_unicode :: unicode where
  "sample_unicode = \<lparr>un_digit = (\<lambda>_. False), un_word = (\<lambda>_. True)\<rparr>"

definition sample_pick :: parsed_selection where
  "sample_pick =
     \<lparr>ps_contract = ''P1_TYPED'', ps_items = [\<lparr>pi_span_id = ''s1'', pi_relations = [(''f'', Some ''support'')]\<rparr>,
        \<lparr>pi_span_id = ''s2'', pi_relations = [(''f'', Some ''contradict'')]\<rparr>],
      ps_gaps = [], ps_bridges = [], ps_normalization = tally_record 2 None (new_tally 2)\<rparr>"

definition sample_config :: preflight_config where
  "sample_config = \<lparr>pc_budget = 10, pc_cap_total = None, pc_cap_each = None,
     pc_namespace = Some ''RAW_SOURCE'', pc_contract = Some ''P1_TYPED''\<rparr>"

definition published_both :: evidence where
  "published_both = \<lparr>ev_items = map from_parsed (ps_items sample_pick), ev_gaps = [], ev_bridges = [],
     ev_dropped = [], ev_dropped_bridges = []\<rparr>"

definition published_unoffered :: evidence where
  "published_unoffered = \<lparr>ev_items = [\<lparr>ai_span_id = ''zz'', ai_relations = []\<rparr>], ev_gaps = [],
     ev_bridges = [\<lparr>pb_text = ''b'', pb_evidence = [''zz'']\<rparr>], ev_dropped = [], ev_dropped_bridges = []\<rparr>"

abbreviation sample_build :: "view_error + candidate_view" where
  "sample_build \<equiv> build_view id (\<lambda>_. []) (\<lambda>s. 1) sample_spec"

abbreviation sample_gate :: "candidate_view \<Rightarrow> evidence \<Rightarrow> preflight_exn + preflight_result" where
  "sample_gate v ev \<equiv> preflight sample_unicode id (\<lambda>_. []) sample_pick ev v [''o''] sample_config"

lemma sample_gate_passes:
  "case sample_build of Inl e \<Rightarrow> False | Inr v \<Rightarrow> (case sample_gate v published_both of
     Inl e \<Rightarrow> False | Inr r \<Rightarrow> preflight_ok r)"
  by code_simp

lemma sample_view_ids:
  "case sample_build of Inl e \<Rightarrow> False | Inr v \<Rightarrow> map oc_span_id (cv_candidates v) = [''s1'', ''s2'']"
  by code_simp

theorem preflight_fail_closed_witness:
  "\<exists>v r out. sample_build = Inr v \<and> sample_gate v published_both = Inr r \<and> pr_rendered r = Some out
     \<and> view_render v published_both = Inr out"
proof -
  obtain v r where v: "sample_build = Inr v" and r: "sample_gate v published_both = Inr r" and ok: "preflight_ok r"
    using sample_gate_passes by (auto split: sum.splits)
  from preflight_fail_closed [OF r] ok obtain out where "pr_rendered r = Some out" "view_render v published_both = Inr out"
    by blast
  with v r show ?thesis by blast
qed

text \<open>
  One item that supports \<open>f\<close> and contradicts \<open>g\<close> is published as contradicting \<open>f\<close> and supporting \<open>g\<close>:
  its single role is None either way and its facets are the same, so the gate lets it through.
\<close>

definition two_roles :: "string \<Rightarrow> string \<Rightarrow> relation list" where
  "two_roles a b = [(''f'', Some a), (''g'', Some b)]"

definition two_role_pick :: parsed_selection where
  "two_role_pick = sample_pick\<lparr>ps_items := [\<lparr>pi_span_id = ''s1'', pi_relations = two_roles ''support'' ''contradict''\<rparr>]\<rparr>"

definition two_role_swap :: evidence where
  "two_role_swap = published_both\<lparr>ev_items := [\<lparr>ai_span_id = ''s1'', ai_relations = two_roles ''contradict'' ''support''\<rparr>]\<rparr>"

lemma swapped_roles_pass:
  "case sample_build of Inl e \<Rightarrow> False | Inr v \<Rightarrow>
     (case preflight sample_unicode id (\<lambda>_. []) two_role_pick two_role_swap v [''o''] sample_config of
        Inl e \<Rightarrow> False | Inr r \<Rightarrow> preflight_ok r)"
  by code_simp

theorem preflight_raises_iff_witness:
  "\<exists>v e. sample_build = Inr v \<and> sample_gate v published_unoffered = Inl e"
proof -
  obtain v where v: "sample_build = Inr v" and ids: "map oc_span_id (cv_candidates v) = [''s1'', ''s2'']"
    using sample_view_ids by (auto split: sum.splits)
  from ids have "oc_span_id ` set (cv_candidates v) = {''s1'', ''s2''}" by (metis list.set_map list.simps(15) list.set(1))
  then have "\<exists>e. sample_gate v published_unoffered = Inl e"
    unfolding preflight_raises_iff [OF v] by (simp add: published_unoffered_def kept_ids_of_def)
  with v show ?thesis by blast
qed

end
