(* ===== verification/Publication.thy ===== *)
theory Publication
  imports PreflightProps
begin

text \<open>
  The packing aggregator and the publication gate together: what the packer returns never fails the
  provenance checks, and the gate then publishes it exactly under the conditions stated here.
\<close>

subsection \<open>What the packer returns\<close>

lemma kept_ids_of_eq: "kept_ids_of ev = kept_ids ev"
  by (simp add: kept_ids_of_def kept_ids_def)

lemma budget_pack_packed:
  assumes "budget_pack scan sel reg budget cost min_sources ranks = Inr ev" and "ps_items sel \<noteq> []"
  obtains kept units where "distinct kept" "set kept \<subseteq> pi_span_id ` set (ps_items sel)"
    "ev = packed_evidence sel reg scan (dedup_items (ps_items sel)) kept"
    "\<And>f. conflict_facet (dedup_items (ps_items sel)) f \<Longrightarrow>
       on_facet (dedup_items (ps_items sel)) f \<subseteq> set kept \<or> on_facet (dedup_items (ps_items sel)) f \<inter> set kept = {}"
proof -
  let ?its = "dedup_items (ps_items sel)"
  have ids: "pi_span_id ` set ?its = pi_span_id ` set (ps_items sel)" and dist: "distinct (map pi_span_id ?its)"
    using dedup_items_ok [of "ps_items sel"] by simp_all
  then have ne: "?its \<noteq> []" using assms(2) by auto
  obtain units where units: "atomic_units ?its (conflict_facet ?its) = Some units"
    and whole: "\<And>u. u \<in> set units \<Longrightarrow> distinct u \<and> set u \<subseteq> pi_span_id ` set ?its"
    and disj: "\<And>u v. u \<in> set units \<Longrightarrow> v \<in> set units \<Longrightarrow> v = u \<or> set v \<inter> set u = {}"
    and cover: "\<And>f. conflict_facet ?its f \<Longrightarrow> on_facet ?its f \<noteq> {} \<Longrightarrow> \<exists>u \<in> set units. on_facet ?its f \<subseteq> set u"
    by (rule pack_units [OF dist, of "conflict_facet ?its"]) (rule that, assumption+)
  let ?order = "promote_new_sources (sort_key (\<lambda>u. Min (set (map (unit_key reg ranks ?its) u))) units) reg min_sources"
  define kept where "kept = fold (pack_step sel reg budget cost ?its) ?order []"
  have "set ?order = set (sort_key (\<lambda>u. Min (set (map (unit_key reg ranks ?its) u))) units)"
    by (rule mset_eq_setD [OF promote_perm])
  then have order: "set ?order \<subseteq> set units" by (simp only: set_sort order_refl)
  have start: "pack_inv sel reg budget cost ?its units []" by (simp add: pack_inv_def)
  have inv: "pack_inv sel reg budget cost ?its units kept"
    unfolding kept_def by (rule pack_fold_inv [OF start order]) (erule whole, erule (1) disj)
  have "ev = packed_evidence sel reg scan ?its kept"
    using assms(1) ne units by (auto simp: budget_pack_def Let_def kept_def result_elims split: if_splits)
  moreover have "on_facet ?its f \<subseteq> set kept \<or> on_facet ?its f \<inter> set kept = {}" if "conflict_facet ?its f" for f
    using cover [OF that] inv unfolding pack_inv_def by blast
  ultimately show ?thesis using inv ids by (intro that [of kept]) (simp_all add: pack_inv_def)
qed

lemma item_of_member:
  assumes "sid \<in> pi_span_id ` set its"
  shows "\<exists>it \<in> set its. pi_span_id it = sid \<and> item_of its sid = from_parsed it"
proof -
  obtain it where found: "List.find (\<lambda>it. pi_span_id it = sid) its = Some it"
    using assms by (cases "List.find (\<lambda>it. pi_span_id it = sid) its") (auto simp: find_None_iff)
  then have "it \<in> set its" "pi_span_id it = sid" by (auto simp: find_Some_iff)
  with found show ?thesis by (auto simp: item_of_def)
qed

lemma from_parsed_annotations [simp]:
  "agg_role (from_parsed it) = item_role it" "agg_facet_ids (from_parsed it) = item_facet_ids it"
  "ai_span_id (from_parsed it) = pi_span_id it" "ai_relations (from_parsed it) = pi_relations it"
  by (simp_all add: agg_role_def item_role_def agg_facet_ids_def item_facet_ids_def from_parsed_def)

lemma dict_of_member:
  assumes "distinct (map f xs)" and "x \<in> set xs"
  shows "map_of (dict_of (map (\<lambda>i. (f i, i)) xs)) (f x) = Some x"
proof -
  have "distinct (map fst (rev (map (\<lambda>i. (f i, i)) xs)))" using assms(1) by (simp add: rev_map comp_def flip: rev_map)
  then show ?thesis using assms(2) by (simp add: map_of_dict_of)
qed

subsection \<open>Provenance of a packed selection\<close>

lemma packed_items:
  assumes "set kept \<subseteq> pi_span_id ` set its" and "mset (scan kept) = mset kept"
    and "x \<in> set (ev_items (packed_evidence sel reg scan its kept))"
  shows "\<exists>it \<in> set its. x = from_parsed it \<and> pi_span_id it \<in> set kept"
proof -
  have "set (scan kept) = set kept" by (rule mset_eq_setD [OF assms(2)])
  with assms(3) obtain sid where "sid \<in> set kept" "x = item_of its sid"
    by (auto simp: packed_evidence_def Let_def)
  with item_of_member [of sid its] assms(1) show ?thesis by auto
qed

lemma packed_provenance:
  assumes "distinct (map pi_span_id (ps_items sel))" and "distinct (map pb_text (ps_bridges sel))"
    and "ps_contract sel \<noteq> ''P1_ID''"
    and "set kept \<subseteq> pi_span_id ` set (ps_items sel)" and "mset (scan kept) = mset kept"
    and "ev = packed_evidence sel reg scan (ps_items sel) kept"
  shows "provenance_errors sel ev = []"
proof -
  have ids: "set (kept_ids_of ev) = set kept"
    unfolding kept_ids_of_eq assms(6) using assms(4,5) by (rule kept_packed(2))
  have "annotation_issues sel x = []" if mem: "x \<in> set (ev_items ev)" for x
  proof -
    obtain it where it: "it \<in> set (ps_items sel)" "x = from_parsed it"
      using packed_items [OF assms(4,5) mem [unfolded assms(6)]] by blast
    note entry = dict_of_member [OF assms(1) it(1)]
    show ?thesis by (simp only: annotation_issues_def it(2) from_parsed_annotations entry option.case) simp
  qed
  then have annotations: "concat (map (annotation_issues sel) (ev_items ev)) = []" by simp
  have gaps: "gap_issues sel ev = []" by (simp add: gap_issues_def assms(6) packed_evidence_def Let_def)
  have dropped: "dropped_span_issues sel ev = []"
    unfolding dropped_span_issues_def ids
    by (auto simp: assms(6) packed_evidence_def Let_def selected_span_ids_def)
  have lost: "ev_dropped_bridges ev = lost_bridges sel ev"
    unfolding lost_bridges_def ids
    by (auto simp: assms(6) packed_evidence_def Let_def dropped_texts_def bridges_supported_def
        intro!: arg_cong [where f = "map pb_text"] filter_cong)
  have "dropped_bridge_issue sel ev t = []" if "t \<in> set (lost_bridges sel ev)" for t
  proof -
    from that obtain b where b: "b \<in> set (ps_bridges sel)" "t = pb_text b" "\<not> set (pb_evidence b) \<subseteq> set (kept_ids_of ev)"
      by (auto simp: lost_bridges_def)
    with dict_of_member [OF assms(2) b(1)] show ?thesis by (simp add: dropped_bridge_issue_def)
  qed
  moreover have "ev_bridges ev = bridges_supported (ps_bridges sel) kept"
    by (simp add: assms(6) packed_evidence_def Let_def)
  ultimately have bridges: "bridge_provenance sel ev = []"
    by (auto simp: bridge_provenance_def lost bridges_supported_def filter_empty_conv)
  show ?thesis
    using annotations gaps dropped bridges assms(3) by (simp add: provenance_errors_def id_contract_issues_def)
qed

lemma packed_sides:
  assumes "set kept \<subseteq> pi_span_id ` set its" and "mset (scan kept) = mset kept" and "distinct (map pi_span_id its)"
    and "ev = packed_evidence sel reg scan its kept"
  shows "published_side ev f r \<longleftrightarrow> (\<exists>it \<in> set its. pi_span_id it \<in> set kept \<and> (f, Some r) \<in> set (pi_relations it))"
proof
  assume "published_side ev f r"
  then obtain x where x: "x \<in> set (ev_items ev)" "(f, Some r) \<in> set (ai_relations x)" by (auto simp: published_side_def)
  with packed_items [OF assms(1,2) x(1) [unfolded assms(4)]]
  show "\<exists>it \<in> set its. pi_span_id it \<in> set kept \<and> (f, Some r) \<in> set (pi_relations it)" by auto
next
  assume "\<exists>it \<in> set its. pi_span_id it \<in> set kept \<and> (f, Some r) \<in> set (pi_relations it)"
  then obtain it where it: "it \<in> set its" "pi_span_id it \<in> set kept" "(f, Some r) \<in> set (pi_relations it)" by blast
  obtain it' where it': "it' \<in> set its" "pi_span_id it' = pi_span_id it" "item_of its (pi_span_id it) = from_parsed it'"
    using item_of_member [of "pi_span_id it" its] it(1) by auto
  have "it' = it" using assms(3) it(1) it'(1,2) by (auto simp: distinct_map dest: inj_onD)
  moreover have "set (scan kept) = set kept" by (rule mset_eq_setD [OF assms(2)])
  ultimately have "from_parsed it \<in> set (ev_items ev)"
    using it(2) it'(3) by (force simp: assms(4) packed_evidence_def Let_def)
  with it(3) show "published_side ev f r"
    unfolding published_side_def by (intro bexI [where x = "from_parsed it"]) simp_all
qed

text \<open>
  The packer and the gate agree about provenance and disagree about dropped contradictions. For a
  selection with one item per span and one bridge per text, whatever the packer returns passes every
  provenance check of the gate; but the gate's contradiction check passes exactly when every
  contradiction facet was published whole, so a facet that the packer dropped whole, as its contract
  allows, is reported as one-sided on both sides and stops the publication.
\<close>

theorem packed_output_verdict:
  assumes "budget_pack scan sel reg budget cost min_sources ranks = Inr ev" and "ps_items sel \<noteq> []"
    and "distinct (map pi_span_id (ps_items sel))" and "distinct (map pb_text (ps_bridges sel))"
    and "ps_contract sel \<noteq> ''P1_ID''" and "\<And>xs. mset (scan xs) = mset xs"
  shows "provenance_errors sel ev = []
    \<and> (contradiction_issues sel ev = [] \<longleftrightarrow>
        (\<forall>f. conflict_facet (ps_items sel) f \<longrightarrow> on_facet (ps_items sel) f \<subseteq> set (kept_ids ev)))
    \<and> (\<forall>f. conflict_facet (ps_items sel) f \<and> on_facet (ps_items sel) f \<inter> set (kept_ids ev) = {} \<longrightarrow>
        {OneSided f ''support'', OneSided f ''contradict''} \<subseteq> set (contradiction_issues sel ev))"
proof -
  have dd: "dedup_items (ps_items sel) = ps_items sel" by (rule dedup_items_distinct [OF assms(3)])
  obtain kept where kept: "distinct kept" "set kept \<subseteq> pi_span_id ` set (ps_items sel)"
    and ev: "ev = packed_evidence sel reg scan (ps_items sel) kept"
    and whole: "\<And>f. conflict_facet (ps_items sel) f \<Longrightarrow>
       on_facet (ps_items sel) f \<subseteq> set kept \<or> on_facet (ps_items sel) f \<inter> set kept = {}"
    by (rule budget_pack_packed [OF assms(1,2), unfolded dd]) (rule that, assumption+)
  note perm = assms(6) [of kept]
  have ids: "set (kept_ids ev) = set kept" unfolding ev by (rule kept_packed(2) [where scan = scan, OF kept(2) perm])
  note side = packed_sides [OF kept(2) perm assms(3) ev]
  have both: "published_side ev f r" if "conflict_facet (ps_items sel) f" "on_facet (ps_items sel) f \<subseteq> set kept"
    "r = ''support'' \<or> r = ''contradict''" for f r
    using that unfolding side by (force simp: conflict_facet_def has_role_def list_ex_iff on_facet_def)
  have none: "\<not> published_side ev f r" if "on_facet (ps_items sel) f \<inter> set kept = {}" for f r
    using that unfolding side by (force simp: on_facet_def)
  have "published_side ev f ''support'' \<and> published_side ev f ''contradict'' \<longleftrightarrow> on_facet (ps_items sel) f \<subseteq> set kept"
    if f: "conflict_facet (ps_items sel) f" for f
    using whole [OF f] both [OF f] none [of f] by blast
  then have "contradiction_issues sel ev = [] \<longleftrightarrow>
      (\<forall>f. conflict_facet (ps_items sel) f \<longrightarrow> on_facet (ps_items sel) f \<subseteq> set (kept_ids ev))"
    unfolding contradiction_issues_Nil ids by blast
  moreover have "{OneSided f ''support'', OneSided f ''contradict''} \<subseteq> set (contradiction_issues sel ev)"
    if "conflict_facet (ps_items sel) f" "on_facet (ps_items sel) f \<inter> set (kept_ids ev) = {}" for f
    using that none [of f] by (simp add: contradiction_issues_iff ids)
  ultimately show ?thesis using packed_provenance [OF assms(3,4,5) kept(2) perm ev] by blast
qed

subsection \<open>When a RAW_SOURCE publication goes out\<close>

lemma raw_candidates:
  assumes "build_view sha fr counter V = Inr v" and "vs_namespace V = ''RAW_SOURCE''"
  shows "non_citable_ids v = []" "cv_namespace v = ''RAW_SOURCE''"
    "map_of (cv_registry v) sid = Some sp \<Longrightarrow> sp_namespace sp = ''RAW_SOURCE''"
proof -
  have "oc_namespace c = ''RAW_SOURCE''" if "c \<in> set (cv_candidates v)" for c
  proof -
    from that build_view_nth(1) [OF assms(1)] obtain i where i: "i < length (vs_spans V)" "c = cv_candidates v ! i"
      by (auto simp: in_set_conv_nth)
    from build_view_nth(2) [OF assms(1) i(1)] i(2) obtain plan
      where "make_candidate sha counter V plan (Suc i, vs_spans V ! i) = Inr c" by auto
    from make_candidate_Inr(3) [OF this] assms(2) show ?thesis by simp
  qed
  then show "non_citable_ids v = []" by (auto simp: non_citable_ids_def filter_empty_conv)
  show "cv_namespace v = ''RAW_SOURCE''" by (rule build_view_Inr [OF assms(1)]) (simp add: assms(2))
  show "sp_namespace sp = ''RAW_SOURCE''" if reg: "map_of (cv_registry v) sid = Some sp"
  proof -
    obtain c plan i where "make_candidate sha counter V plan (i, sp) = Inr c" by (rule registered_span [OF assms(1) reg])
    from make_candidate_Inr(4) [OF this] assms(2) show ?thesis by simp
  qed
qed

lemma resolved_ref_ok:
  assumes "resolve_refs sha snapshots sp refs = Inr ts" and "r \<in> set refs"
  shows "ref_error sha snapshots sid kind r = []"
proof -
  have "\<exists>t. resolve_ref sha snapshots sp r = Inr t"
    using assms rmap_ex_Inr [of "resolve_ref sha snapshots sp" refs] by (auto simp: resolve_refs_def)
  then show ?thesis by (auto simp: resolve_ref_def ref_error_def Let_def split: if_splits option.splits)
qed

lemma built_refs_ok:
  assumes "build_view sha fr counter V = Inr v"
  shows "ref_errors sha (published_spans v ev) (cv_snapshots v) = []"
proof -
  have "ref_error sha (cv_snapshots v) sid kind r = []"
    if sp: "sp \<in> set (published_spans v ev)" and r: "r \<in> set (sp_context_refs sp) \<union> set (sp_heading_refs sp)" for sp sid kind r
  proof -
    obtain k where reg: "map_of (cv_registry v) k = Some sp" using published_spans_registered [OF sp] by blast
    obtain c plan i where made: "make_candidate sha counter V plan (i, sp) = Inr c"
      and eq: "cv_snapshots v = vs_snapshots V" by (rule registered_span [OF assms reg])
    note f = make_candidate_Inr(9,10) [OF made, folded eq]
    from r show ?thesis using resolved_ref_ok [OF f(1)] resolved_ref_ok [OF f(2)] by blast
  qed
  then show ?thesis by (auto simp: ref_errors_def)
qed

lemma preflight_publishes:
  assumes "integrity_issues U sha fr sel ev v known cfg = Inr []"
    and "view_render v ev = Inr out" and "rr_tokens out \<le> pc_budget cfg" and "cap_issues (cv_count v) cfg ev = []"
  shows "preflight U sha fr sel ev v known cfg = Inr \<lparr>pr_errors = [], pr_rendered = Some out\<rparr>"
proof -
  have "fst (render_gate cfg v ev) = []" "snd (render_gate cfg v ev) = Some out"
    using assms(2,3) by (simp_all add: render_gate_Nil)
  then show ?thesis using assms(1,4) by (simp add: preflight_def split_beta Let_def)
qed

lemma rmap_all_Nil: "(\<forall>x \<in> set xs. f x = Inr []) \<Longrightarrow> \<exists>ys. rmap f xs = Inr ys \<and> concat ys = []"
  by (induction xs) auto

lemma rmap_concat_Nil: "rmap f xs = Inr ys \<Longrightarrow> concat ys = [] \<Longrightarrow> x \<in> set xs \<Longrightarrow> f x = Inr []"
  by (induction xs arbitrary: ys) (auto simp: result_elims)

lemma bridge_issue_kept: "bridge_issue U v ev b = Inr [] \<Longrightarrow> set (pb_evidence b) \<subseteq> set (kept_ids_of ev)"
  by (auto simp: bridge_issue_def Let_def filter_empty_conv split: if_splits)

text \<open>
  When a RAW_SOURCE publication goes out. Over a built view the gate publishes exactly when the
  contract is the locked one, everything published was offered and selected, the expected namespace is
  not another, every published span reconstructs and cites known occurrences, both sides of every
  declared contradiction are published, every bridge keeps its evidence and adds nothing to it, the
  rendering is within the budget and the bridges within their caps. Rendering itself cannot fail, and
  the refs, the origins and the drift of the view need no further check.
\<close>

theorem raw_publication_iff:
  assumes "build_view sha fr counter V = Inr v" and "vs_namespace V = ''RAW_SOURCE''"
  shows "(\<exists>r. preflight U sha fr sel ev v known cfg = Inr r \<and> pr_rendered r \<noteq> None) \<longleftrightarrow>
    contract_issues sel cfg = [] \<and> provenance_errors sel ev = []
    \<and> set (kept_ids_of ev) \<subseteq> oc_span_id ` set (cv_candidates v)
    \<and> pc_namespace cfg \<in> {None, Some ''RAW_SOURCE''}
    \<and> (\<forall>sp \<in> set (published_spans v ev). reconstruction_error sha (cv_snapshots v) (cv_views v) sp = Inr None
         \<and> set (case sp_occurrences sp of None \<Rightarrow> [] | Some os \<Rightarrow> os) \<subseteq> set known)
    \<and> (\<forall>f. conflict_facet (ps_items sel) f \<longrightarrow> published_side ev f ''support'' \<and> published_side ev f ''contradict'')
    \<and> (\<forall>b \<in> set (ev_bridges ev). bridge_issue U v ev b = Inr [])
    \<and> (\<forall>out. view_render v ev = Inr out \<longrightarrow> rr_tokens out \<le> pc_budget cfg)
    \<and> cap_issues counter cfg ev = []"
    (is "?published \<longleftrightarrow> ?conditions")
proof
  note raw = raw_candidates [OF assms]
  have counter: "cv_count v = counter" by (rule build_view_Inr [OF assms(1)]) simp
  {
    assume ?published
    then obtain r out where r: "preflight U sha fr sel ev v known cfg = Inr r" and out: "pr_rendered r = Some out" by auto
    obtain integrity where i: "integrity_issues U sha fr sel ev v known cfg = Inr integrity"
      and errors: "pr_errors r = integrity @ fst (if integrity = [] then render_gate cfg v ev else ([], None)) @ cap_issues (cv_count v) cfg ev"
      and rendered: "pr_rendered r = (if pr_errors r = [] then snd (if integrity = [] then render_gate cfg v ev else ([], None)) else None)"
      by (rule preflight_Inr [OF r])
    from out rendered have "pr_errors r = []" by (metis option.discI)
    with errors have nil: "integrity = []" "fst (render_gate cfg v ev) = []" "cap_issues (cv_count v) cfg ev = []"
      by (auto split: if_splits)
    note all = integrity_Nil [OF i [unfolded nil(1)]]
    obtain bs where bs: "rmap (bridge_issue U v ev) (ev_bridges ev) = Inr bs" "concat bs = []"
      using i unfolding nil(1) integrity_issues_def Let_def by (auto simp: result_elims)
    have "set (kept_ids_of ev) \<subseteq> oc_span_id ` set (cv_candidates v)"
      using all(4) by (auto simp: offered_issues_def filter_empty_conv)
    moreover have "pc_namespace cfg \<in> {None, Some ''RAW_SOURCE''}"
      using all(8) raw(2) by (auto simp: namespace_issues_def split: option.splits if_splits)
    moreover have "reconstruction_error sha (cv_snapshots v) (cv_views v) sp = Inr None
         \<and> set (case sp_occurrences sp of None \<Rightarrow> [] | Some os \<Rightarrow> os) \<subseteq> set known" if "sp \<in> set (published_spans v ev)" for sp
      using all(9,10) that by (auto simp: reconstruction_errors_Nil lineage_closure_errors_def filter_empty_conv)
    moreover have "\<forall>out. view_render v ev = Inr out \<longrightarrow> rr_tokens out \<le> pc_budget cfg"
      using nil(2) by (auto simp: render_gate_Nil)
    ultimately show ?conditions
      using all(1,3) all(12) [unfolded contradiction_issues_Nil] rmap_concat_Nil [OF bs] nil(3) counter by simp
  next
    assume c: ?conditions
    have registry: "map_of (cv_registry v) sid \<noteq> None" if "sid \<in> set (kept_ids_of ev)" for sid
      using c that view_dictionaries(1,2) [OF assms(1), of sid] by auto
    have "set (pb_evidence b) \<subseteq> set (kept_ids_of ev)" if "b \<in> set (ev_bridges ev)" for b
      using c that bridge_issue_kept by blast
    then obtain out where out: "view_render v ev = Inr out"
      using view_render_total [OF assms, of ev] registry by auto
    obtain bs where bs: "rmap (bridge_issue U v ev) (ev_bridges ev) = Inr bs" "concat bs = []"
      using rmap_all_Nil [of "ev_bridges ev" "bridge_issue U v ev"] c by blast
    have spans: "sp_namespace sp = ''RAW_SOURCE''" if "sp \<in> set (published_spans v ev)" for sp
      using published_spans_registered [OF that] raw(3) by blast
    have "reconstruction_errors sha (cv_snapshots v) (cv_views v) (published_spans v ev) = Inr []"
      using c by (simp add: reconstruction_errors_Nil)
    moreover have "lineage_closure_errors known (published_spans v ev) = []"
      using c by (auto simp: lineage_closure_errors_def filter_empty_conv)
    moreover have "registry_issues v ev = []" "offered_issues v ev = []"
      using c registry by (auto simp: registry_issues_def offered_issues_def filter_empty_conv)
    moreover have "context_role_issues v sel = []" "context_bridge_issues v sel = []"
      by (auto simp: context_role_issues_def context_bridge_issues_def raw(1))
    moreover have "namespace_issues cfg v (published_spans v ev) = []"
      using c spans raw(2) by (auto simp: namespace_issues_def filter_empty_conv)
    moreover have "contradiction_issues sel ev = []" using c by (simp add: contradiction_issues_Nil)
    ultimately have "integrity_issues U sha fr sel ev v known cfg = Inr []"
      using c bs built_refs_ok [OF assms(1)] by (simp add: integrity_issues_def Let_def fresh_no_drift [OF assms(1)])
    from preflight_publishes [OF this out] c out counter show ?published by simp
  }
qed

subsection \<open>Witnesses\<close>

theorem raw_publication_iff_witness:
  "\<exists>v r. sample_build = Inr v \<and> sample_gate v published_both = Inr r \<and> provenance_errors sample_pick published_both = []
     \<and> (\<exists>it \<in> set (ev_items published_both). (''f'', Some ''contradict'') \<in> set (ai_relations it))"
proof -
  obtain v r where v: "sample_build = Inr v" and r: "sample_gate v published_both = Inr r" and ok: "preflight_ok r"
    using sample_gate_passes by (auto split: sum.splits)
  have raw: "vs_namespace sample_spec = ''RAW_SOURCE''" by (simp add: sample_spec_def)
  obtain integrity where "pr_errors r = integrity @ fst (if integrity = [] then render_gate sample_config v published_both else ([], None))
        @ cap_issues (cv_count v) sample_config published_both"
    "pr_rendered r = (if pr_errors r = [] then snd (if integrity = [] then render_gate sample_config v published_both else ([], None)) else None)"
    by (rule preflight_Inr [OF r])
  then have "pr_rendered r \<noteq> None" using ok by (auto simp: preflight_ok_def render_gate_Nil split: if_splits)
  with r have "\<exists>r. sample_gate v published_both = Inr r \<and> pr_rendered r \<noteq> None" by blast
  note c = this [unfolded raw_publication_iff [OF v raw]]
  have "conflict_facet (ps_items sample_pick) ''f''"
    by (simp add: conflict_facet_def has_role_def sample_pick_def)
  with c have "published_side published_both ''f'' ''contradict''" by blast
  with v r c show ?thesis unfolding published_side_def by blast
qed

theorem packed_output_verdict_witness:
  "\<exists>ev. budget_pack id sample_pick [(''s1'', text_span 0 3 ''s1'' ''one''), (''s2'', text_span 4 7 ''s2'' ''two'')]
       0 (\<lambda>ev reg. int (length (ev_items ev))) 1 None = Inr ev
     \<and> OneSided ''f'' ''support'' \<in> set (contradiction_issues sample_pick ev)"
proof -
  let ?pack = "budget_pack id sample_pick [(''s1'', text_span 0 3 ''s1'' ''one''), (''s2'', text_span 4 7 ''s2'' ''two'')]
       0 (\<lambda>ev reg. int (length (ev_items ev))) 1 None"
  have "case ?pack of Inl e \<Rightarrow> False | Inr ev \<Rightarrow> ev_items ev = []" by code_simp
  then obtain ev where ev: "?pack = Inr ev" "ev_items ev = []" by (auto split: sum.splits)
  have "ps_items sample_pick \<noteq> []" "distinct (map pi_span_id (ps_items sample_pick))"
    "distinct (map pb_text (ps_bridges sample_pick))" "ps_contract sample_pick \<noteq> ''P1_ID''"
    by (simp_all add: sample_pick_def)
  from packed_output_verdict [OF ev(1) this] have "\<forall>f. conflict_facet (ps_items sample_pick) f
      \<and> on_facet (ps_items sample_pick) f \<inter> set (kept_ids ev) = {} \<longrightarrow>
        {OneSided f ''support'', OneSided f ''contradict''} \<subseteq> set (contradiction_issues sample_pick ev)" by simp
  moreover have "conflict_facet (ps_items sample_pick) ''f''"
    by (simp add: conflict_facet_def has_role_def sample_pick_def)
  ultimately show ?thesis using ev by (auto simp: kept_ids_def)
qed

end
