(* ===== verification/Randomization.thy ===== *)
theory Randomization
  imports Hashing
begin

text \<open>
  \<^verbatim>\<open>src/src/shapeflow/experiment/randomization.py\<close>: seeds derived from stable coordinates, Williams squares,
  seeded permutations and AB/BA periods. The digest is the parameter \<open>sha\<close>, from bytes to bytes.
\<close>

subsection \<open>Seeds\<close>

definition from_bytes :: "string \<Rightarrow> int" where
  "from_bytes bs = foldl (\<lambda>n c. 256 * n + of_char c) 0 bs"

definition derive_seed :: "(string \<Rightarrow> string) \<Rightarrow> string list \<Rightarrow> int" where
  "derive_seed sha parts = from_bytes (take 4 (sha (join [CHR 0x1F] parts)))"

subsection \<open>Williams squares\<close>

function first_row_loop :: "int \<Rightarrow> int list \<Rightarrow> int \<Rightarrow> int \<Rightarrow> bool \<Rightarrow> int list" where
  "first_row_loop n row lo hi take_lo =
     (if int (length row) < n
      then if take_lo then first_row_loop n (row @ [lo]) (lo + 1) hi (\<not> take_lo)
           else first_row_loop n (row @ [hi]) lo (hi - 1) (\<not> take_lo)
      else row)"
  by pat_completeness auto
termination
  by (relation "measure (\<lambda>(n, row, lo, hi, t). nat (n - int (length row)))") auto

declare first_row_loop.simps [simp del]

definition williams_first_row :: "int \<Rightarrow> int list" where
  "williams_first_row n = first_row_loop n [0] 1 (n - 1) True"

datatype design_error = TooFewTreatments

definition williams_rows :: "int \<Rightarrow> int list list" where
  "williams_rows n = map (\<lambda>i. map (\<lambda>j. (williams_first_row n ! nat j + i) mod n) [0..n - 1]) [0..n - 1]"

definition williams_square :: "int \<Rightarrow> design_error + int list list" where
  "williams_square n =
     (if n < 2 then Inl TooFewTreatments
      else
        (let square = williams_rows n
         in Inr (if n mod 2 = 1 then square @ map rev square else square)))"

definition arm_order_for_block :: "'a list \<Rightarrow> int \<Rightarrow> int \<Rightarrow> design_error + 'a list" where
  "arm_order_for_block arms block_index seed =
     rbind (williams_square (int (length arms))) (\<lambda>square.
       let row = square ! nat ((block_index + seed) mod int (length square))
       in Inr (map (\<lambda>i. arms ! nat i) row))"

subsection \<open>Permutations and periods\<close>

definition swap_at :: "nat \<Rightarrow> nat \<Rightarrow> 'a list \<Rightarrow> 'a list" where
  "swap_at i j xs = xs[i := xs ! j, j := xs ! i]"

definition drawn_index :: "(string \<Rightarrow> string) \<Rightarrow> int \<Rightarrow> nat \<Rightarrow> nat" where
  "drawn_index sha seed i =
     nat (from_bytes (take 8 (sha (show_int seed @ '':'' @ show_nat i))) mod (int i + 1))"

definition seeded_permutation :: "(string \<Rightarrow> string) \<Rightarrow> 'a list \<Rightarrow> int \<Rightarrow> 'a list" where
  "seeded_permutation sha items seed =
     foldl (\<lambda>result i. swap_at i (drawn_index sha seed i) result) items (rev [1..<length items])"

definition ab_ba_order :: "'a \<times> 'a \<Rightarrow> int \<Rightarrow> int \<Rightarrow> 'a \<times> 'a" where
  "ab_ba_order pair replicate_no seed =
     (case pair of (a, b) \<Rightarrow> if (replicate_no + seed mod 2) mod 2 = 0 then (a, b) else (b, a))"

subsection \<open>The first row\<close>

text \<open>Position \<open>j\<close> of the row: 0, then 1, 2, ... at odd positions and n - 1, n - 2, ... at even ones.\<close>

definition first_at :: "int \<Rightarrow> nat \<Rightarrow> int" where
  "first_at n j = (if odd j then int ((j + 1) div 2) else if j = 0 then 0 else n - int (j div 2))"

lemma first_row_loop_step:
  assumes "k \<ge> 1" and "int k < n"
  shows "first_row_loop n (map (first_at n) [0..<k]) (int (k div 2) + 1) (n - int ((k + 1) div 2)) (odd k)
    = first_row_loop n (map (first_at n) [0..<Suc k]) (int (Suc k div 2) + 1) (n - int ((Suc k + 1) div 2)) (odd (Suc k))"
proof (cases "odd k")
  case True
  then obtain m where k: "k = 2 * m + 1" by (auto elim: oddE)
  then have "first_at n k = int m + 1" by (simp add: first_at_def)
  then show ?thesis using assms(2) by (subst first_row_loop.simps) (simp add: k)
next
  case False
  then obtain m where k: "k = 2 * m" by blast
  have f: "first_at n (2 * m) = n - int m" using assms(1) k by (simp add: first_at_def)
  then show ?thesis using assms(2) by (subst first_row_loop.simps) (simp add: k diff_diff_eq add.commute)
qed

lemma first_row_loop_is:
  assumes "k \<ge> 1" and "int k \<le> n"
  shows "first_row_loop n (map (first_at n) [0..<k]) (int (k div 2) + 1) (n - int ((k + 1) div 2)) (odd k)
    = map (first_at n) [0..<nat n]"
  using assms
proof (induction "nat n - k" arbitrary: k)
  case 0
  then have "k = nat n" by simp
  with 0 show ?case by (subst first_row_loop.simps) simp
next
  case (Suc d)
  then have k: "int k < n" by simp
  show ?case unfolding first_row_loop_step [OF Suc.prems(1) k]
    by (rule Suc.hyps(1)) (use Suc.hyps(2) k in auto)
qed

lemma williams_first_row_is: "2 \<le> n \<Longrightarrow> williams_first_row n = map (first_at n) [0..<nat n]"
  using first_row_loop_is [of 1 n] by (simp add: williams_first_row_def first_at_def)

text \<open>Neighbours in the first row differ by \<open>j + 1\<close>, with alternating sign.\<close>

definition step_at :: "nat \<Rightarrow> int" where
  "step_at j = (if even j then int j + 1 else - (int j + 1))"

lemma first_at_step: "(first_at n (Suc j) - first_at n j) mod n = step_at j mod n"
proof (cases "even j")
  case True
  then obtain m where "j = 2 * m" by blast
  then have "first_at n (Suc j) - first_at n j = step_at j - (if m = 0 then 0 else n)"
    by (simp add: first_at_def step_at_def)
  then show ?thesis by (simp split: if_splits)
next
  case False
  then obtain m where "j = 2 * m + 1" by (auto elim: oddE)
  then have "first_at n (Suc j) - first_at n j = n + step_at j"
    by (simp add: first_at_def step_at_def)
  then show ?thesis by simp
qed

subsection \<open>Rows and neighbours\<close>

lemma mod_shift_unique:
  fixes n a c i :: int
  assumes "0 \<le> a" and "a < n" and "0 \<le> i" and "i < n"
  shows "(c + i) mod n = a \<longleftrightarrow> i = (a - c) mod n"
proof
  assume "(c + i) mod n = a"
  then have "(a - c) mod n = ((c + i) mod n - c) mod n" by simp
  also have "\<dots> = i mod n" by (simp add: mod_diff_left_eq)
  finally show "i = (a - c) mod n" using assms by simp
next
  assume "i = (a - c) mod n"
  then have "(c + i) mod n = a mod n" by (simp add: mod_add_right_eq)
  then show "(c + i) mod n = a" using assms by simp
qed

lemma first_at_residue: "0 \<le> n \<Longrightarrow> first_at n j mod n = (if odd j then int ((j + 1) div 2) else - int (j div 2)) mod n"
  by (simp add: first_at_def)

lemma first_at_inj:
  assumes "i < j" and "int j < n"
  shows "first_at n i \<noteq> first_at n j"
  using assms by (auto simp: first_at_def elim!: oddE evenE)

lemma first_at_range: "2 \<le> n \<Longrightarrow> int j < n \<Longrightarrow> 0 \<le> first_at n j \<and> first_at n j < n"
  by (auto simp: first_at_def elim!: oddE evenE)

text \<open>The row that starts at treatment \<open>i\<close>, and the pairs that follow each other in a row.\<close>

definition williams_row :: "int \<Rightarrow> nat \<Rightarrow> int list" where
  "williams_row n i = map (\<lambda>p. (first_at n p + int i) mod n) [0..<nat n]"

lemma williams_rows_is:
  assumes "2 \<le> n"
  shows "williams_rows n = map (williams_row n) [0..<nat n]"
proof -
  have ints: "[0..n - 1] = map int [0..<nat n]"
    using assms by (intro nth_equalityI) (simp_all add: nth_upto)
  show ?thesis
    unfolding williams_rows_def ints williams_row_def
    by (simp add: comp_def williams_first_row_is [OF assms])
qed

definition neighbours :: "'a list \<Rightarrow> ('a \<times> 'a) list" where
  "neighbours row = List.zip row (tl row)"

definition times_followed :: "'a \<Rightarrow> 'a \<Rightarrow> 'a list list \<Rightarrow> nat" where
  "times_followed a b rows = length (filter (\<lambda>p. p = (a, b)) (concat (map neighbours rows)))"

lemma length_filter_sum: "length (filter P xs) = (\<Sum>k < length xs. of_bool (P (xs ! k)))"
  by (induction xs rule: rev_induct) (simp_all add: nth_append)

lemma times_followed_sum:
  "times_followed a b rows = (\<Sum>row \<leftarrow> rows. \<Sum>p < length row - 1. of_bool (row ! p = a \<and> row ! Suc p = b))"
proof -
  have "length (filter (\<lambda>p. p = (a, b)) (neighbours row))
      = (\<Sum>p < length row - 1. of_bool (row ! p = a \<and> row ! Suc p = b))" for row
    unfolding length_filter_sum
    by (rule sum.cong) (auto simp: neighbours_def nth_tl)
  then show ?thesis by (induction rows) (simp_all add: times_followed_def)
qed

lemma times_followed_append [simp]: "times_followed a b (xs @ ys) = times_followed a b xs + times_followed a b ys"
  by (simp add: times_followed_def)

lemma neighbours_rev: "neighbours (rev row) = rev (map (\<lambda>(x, y). (y, x)) (neighbours row))"
proof (cases row rule: rev_cases)
  case (snoc xs x)
  show ?thesis
  proof (rule nth_equalityI)
    fix i assume "i < length (neighbours (rev row))"
    then have i: "i < length row - 1" by (simp add: neighbours_def)
    then show "neighbours (rev row) ! i = rev (map (\<lambda>(x, y). (y, x)) (neighbours row)) ! i"
      by (simp add: neighbours_def rev_nth nth_tl Suc_diff_Suc)
  qed (simp add: neighbours_def)
qed (simp add: neighbours_def)

lemma times_followed_rev: "times_followed a b (map rev rows) = times_followed b a rows"
proof -
  have "length (filter (\<lambda>p. p = (a, b)) (rev (map (\<lambda>(x, y). (y, x)) ps)))
      = length (filter (\<lambda>p. p = (b, a)) ps)" for ps :: "('a \<times> 'a) list"
    by (induction ps) auto
  then show ?thesis by (induction rows) (simp_all add: times_followed_def neighbours_rev)
qed

text \<open>Summing over the rows first: a pair occurs once for every step equal to its difference.\<close>

lemma times_followed_steps:
  assumes "2 \<le> n" and "0 \<le> a" "a < n" "0 \<le> b" "b < n"
  shows "times_followed a b (williams_rows n) = (\<Sum>p < nat n - 1. of_bool (step_at p mod n = (b - a) mod n))"
proof -
  let ?hit = "\<lambda>i p. (first_at n p + int i) mod n = a \<and> (first_at n (Suc p) + int i) mod n = b"
  have "times_followed a b (williams_rows n) = (\<Sum>i < nat n. \<Sum>p < nat n - 1. of_bool (?hit i p))"
  proof -
    have len: "length (williams_row n i) = nat n" for i by (simp add: williams_row_def)
    have "times_followed a b (williams_rows n)
        = (\<Sum>i < nat n. \<Sum>p < nat n - 1. of_bool (williams_row n i ! p = a \<and> williams_row n i ! Suc p = b))"
      unfolding times_followed_sum williams_rows_is [OF assms(1)]
      by (simp add: comp_def interv_sum_list_conv_sum_set_nat atLeast0LessThan len)
    also have "\<dots> = (\<Sum>i < nat n. \<Sum>p < nat n - 1. of_bool (?hit i p))"
      by (intro sum.cong refl) (simp add: williams_row_def)
    finally show ?thesis .
  qed
  also have "\<dots> = (\<Sum>p < nat n - 1. \<Sum>i < nat n. of_bool (?hit i p))" by (rule sum.swap)
  also have "\<dots> = (\<Sum>p < nat n - 1. of_bool (step_at p mod n = (b - a) mod n))"
  proof (rule sum.cong [OF refl])
    fix p
    define k where "k = nat ((a - first_at n p) mod n)"
    have i: "k < nat n" "int k = (a - first_at n p) mod n" using assms(1) by (simp_all add: k_def nat_less_iff)
    have "?hit i p \<longleftrightarrow> i = k \<and> step_at p mod n = (b - a) mod n" if "i < nat n" for i
    proof -
      have "(first_at n p + int i) mod n = a \<longleftrightarrow> int i = (a - first_at n p) mod n"
        by (rule mod_shift_unique) (use assms that in auto)
      then have 1: "(first_at n p + int i) mod n = a \<longleftrightarrow> i = k" using i(2) by auto
      have "(first_at n (Suc p) + int k) mod n = (first_at n (Suc p) - first_at n p + a) mod n"
        unfolding i(2) by (simp add: mod_add_right_eq algebra_simps)
      also have "\<dots> = (step_at p + a) mod n" by (metis first_at_step mod_add_left_eq)
      finally have "(first_at n (Suc p) + int k) mod n = b \<longleftrightarrow> (step_at p + a) mod n = b mod n" using assms by simp
      also have "\<dots> \<longleftrightarrow> step_at p mod n = (b - a) mod n" by (simp add: mod_eq_dvd_iff algebra_simps)
      finally show ?thesis using 1 by auto
    qed
    then have "(\<Sum>i < nat n. of_bool (?hit i p)) = (\<Sum>i < nat n. of_bool (i = k \<and> step_at p mod n = (b - a) mod n) :: nat)"
      by (intro sum.cong) auto
    also have "\<dots> = of_bool (step_at p mod n = (b - a) mod n)"
      using i(1) by (cases "step_at p mod n = (b - a) mod n") (simp_all add: sum.delta')
    finally show "(\<Sum>i < nat n. of_bool (?hit i p)) = (of_bool (step_at p mod n = (b - a) mod n) :: nat)" .
  qed
  finally show ?thesis .
qed

subsection \<open>Balance\<close>

lemma step_residue:
  assumes "int p < n - 1"
  shows "step_at p mod n = (if even p then int p + 1 else n - (int p + 1))"
proof (cases "even p")
  case False
  have "step_at p mod n = (n + step_at p) mod n" by simp
  also have "n + step_at p = n - (int p + 1)" using False by (simp add: step_at_def)
  also have "(n - (int p + 1)) mod n = n - (int p + 1)" using assms by (intro mod_pos_pos_trivial) auto
  finally show ?thesis using False by simp
qed (use assms in \<open>simp add: step_at_def\<close>)

lemma sum_of_bool_card: "finite A \<Longrightarrow> (\<Sum>p \<in> A. of_bool (P p) :: nat) = card {p \<in> A. P p}"
  by (simp add: Collect_conj_eq Int_commute)

lemma count_steps:
  assumes "0 < c" and "c < n"
  shows "(\<Sum>p < nat n - 1. of_bool (step_at p mod n = c) :: nat) =
    (if even n then 1 else if odd c then 2 else 0)"
proof -
  let ?S = "{p \<in> {..< nat n - 1}. step_at p mod n = c}"
  have hit: "p \<in> ?S \<longleftrightarrow> (even p \<and> p = nat (c - 1)) \<or> (odd p \<and> p = nat (n - c - 1))" for p
  proof -
    have "p < nat n - 1 \<longleftrightarrow> int p < n - 1" using assms by linarith
    then have "p \<in> ?S \<longleftrightarrow> int p < n - 1 \<and> (if even p then int p + 1 else n - (int p + 1)) = c"
      using step_residue [of p n] by auto
    also have "\<dots> \<longleftrightarrow> (even p \<and> p = nat (c - 1)) \<or> (odd p \<and> p = nat (n - c - 1))"
      using assms by (cases "even p") (simp_all, linarith+)
    finally show ?thesis .
  qed
  have odds: "even (nat (c - 1)) \<longleftrightarrow> odd c" "odd (nat (n - c - 1)) \<longleftrightarrow> even (n - c)"
    using assms by (auto simp: even_nat_iff)
  have "card ?S = (if even n then 1 else if odd c then 2 else 0)"
  proof (cases "even n")
    case True
    have "?S = {if odd c then nat (c - 1) else nat (n - c - 1)}"
      using hit odds True by (intro set_eqI) (auto simp: even_diff_iff)
    then show ?thesis using True by (metis card_1_singleton_iff One_nat_def)
  next
    case False
    show ?thesis
    proof (cases "odd c")
      case True
      then have "even (n - c)" using False by simp
      then have "?S = {nat (c - 1), nat (n - c - 1)}" using hit odds True by (intro set_eqI) auto
      moreover have "nat (c - 1) \<noteq> nat (n - c - 1)" using odds True \<open>even (n - c)\<close> by metis
      ultimately have "card ?S = 2" by (metis card_2_iff)
      then show ?thesis using True False by simp
    next
      case c: False
      then have "odd (n - c)" using False by simp
      then have "?S = {}" using hit odds c by (intro set_eqI) auto
      then show ?thesis using c False by simp
    qed
  qed
  then show ?thesis by (simp only: sum_of_bool_card [OF finite_lessThan])
qed

lemma williams_row_facts:
  assumes "2 \<le> n" and "i < nat n"
  shows "distinct (williams_row n i)" "set (williams_row n i) = {0..<n}"
proof -
  have "(first_at n p + int i) mod n \<noteq> (first_at n q + int i) mod n" if "p < q" "q < nat n" for p q
  proof
    assume "(first_at n p + int i) mod n = (first_at n q + int i) mod n"
    then have "first_at n p mod n = first_at n q mod n" by (simp add: mod_eq_dvd_iff)
    then have "first_at n p = first_at n q" using first_at_range [OF assms(1)] that by simp
    moreover have "int q < n" using that(2) by linarith
    ultimately show False using first_at_inj [of p q n] that(1) by simp
  qed
  then have "inj_on (\<lambda>p. (first_at n p + int i) mod n) {0..<nat n}"
    by (intro linorder_inj_onI) auto
  then show dist: "distinct (williams_row n i)" by (simp add: williams_row_def distinct_map)
  have sub: "set (williams_row n i) \<subseteq> {0..<n}" using assms by (auto simp: williams_row_def)
  have "card (set (williams_row n i)) = card {0..<n}"
    using distinct_card [OF dist] by (simp add: williams_row_def)
  with sub show "set (williams_row n i) = {0..<n}" by (simp add: card_subset_eq)
qed

text \<open>
  C28. Williams squares are balanced. For every number of treatments from two on, the square is built,
  every row is an order of all treatments, and every treatment follows every other one equally often over
  the rows: once for an even number, where there are as many rows as treatments, twice for an odd number,
  where the rows and their reverses make twice as many.
\<close>

theorem williams_square_balanced:
  assumes "2 \<le> n"
  shows "\<exists>square. williams_square n = Inr square
    \<and> int (length square) = (if even n then n else 2 * n)
    \<and> (\<forall>row \<in> set square. distinct row \<and> set row = {0..<n})
    \<and> (\<forall>a b. 0 \<le> a \<and> a < n \<and> 0 \<le> b \<and> b < n \<and> a \<noteq> b \<longrightarrow>
         times_followed a b square = (if even n then 1 else 2))"
proof -
  let ?rows = "williams_rows n"
  let ?square = "if n mod 2 = 1 then ?rows @ map rev ?rows else ?rows"
  have built: "williams_square n = Inr ?square" using assms by (simp add: williams_square_def Let_def)
  have "length ?rows = nat n" by (simp add: williams_rows_is [OF assms])
  then have len: "int (length ?square) = (if even n then n else 2 * n)"
    using assms by (simp add: odd_iff_mod_2_eq_one)
  have rows: "distinct row \<and> set row = {0..<n}" if "row \<in> set ?rows" for row
    using that williams_row_facts [OF assms] by (auto simp: williams_rows_is [OF assms])
  have orders: "distinct row \<and> set row = {0..<n}" if "row \<in> set ?square" for row
    using that rows by (auto split: if_splits)
  have followed: "times_followed a b ?square = (if even n then 1 else 2)"
    if ab: "0 \<le> a" "a < n" "0 \<le> b" "b < n" "a \<noteq> b" for a b
  proof -
    have diff: "0 < (x - y) mod n \<and> (x - y) mod n < n" if "0 \<le> x" "x < n" "0 \<le> y" "y < n" "x \<noteq> y" for x y
      using that assms by (metis add_0 diff_add_cancel mod_pos_pos_trivial mod_add_left_eq order_le_less pos_mod_bound
          pos_mod_sign order_less_le_trans zero_less_numeral)
    have once: "times_followed x y ?rows = (if even n then 1 else if odd ((y - x) mod n) then 2 else 0)"
      if xy: "0 \<le> x" "x < n" "0 \<le> y" "y < n" "x \<noteq> y" for x y
    proof -
      have "0 < (y - x) mod n" "(y - x) mod n < n" using diff [OF xy(3,4,1,2)] xy(5) by auto
      from count_steps [OF this] show ?thesis by (simp only: times_followed_steps [OF assms xy(1-4)])
    qed
    have ba: "b \<noteq> a" using ab(5) by blast
    have "(b - a) mod n \<noteq> 0" using diff [OF ab(3,4,1,2) ba] by simp
    then have "(a - b) mod n = n - (b - a) mod n" using zmod_zminus1_eq_if [of "b - a" n] by simp
    then show ?thesis
      using once [OF ab] once [OF ab(3,4,1,2) ba] by (simp add: times_followed_rev odd_iff_mod_2_eq_one)
  qed
  show ?thesis
  proof (intro exI [of _ ?square] conjI)
    show "\<forall>row \<in> set ?square. distinct row \<and> set row = {0..<n}" using orders by blast
    show "\<forall>a b. 0 \<le> a \<and> a < n \<and> 0 \<le> b \<and> b < n \<and> a \<noteq> b \<longrightarrow>
         times_followed a b ?square = (if even n then 1 else 2)" using followed by blast
  qed (rule built, rule len)
qed

theorem williams_square_balanced_witness:
  "\<exists>square. williams_square 3 = Inr square \<and> length square = 6 \<and> times_followed 2 0 square = 2"
proof -
  have "(2 :: int) \<le> 3" by simp
  from williams_square_balanced [OF this] show ?thesis by fastforce
qed

text \<open>The order of a block is an order of its arms, and there is one from two arms on.\<close>

lemma swap_at_mset: "i < length xs \<Longrightarrow> j < length xs \<Longrightarrow> mset (swap_at i j xs) = mset xs"
  by (simp add: swap_at_def mset_swap)

lemma drawn_index_le: "drawn_index sha seed i \<le> i"
proof -
  have "from_bytes (take 8 (sha (show_int seed @ '':'' @ show_nat i))) mod (int i + 1) < int i + 1"
    by (rule pos_mod_bound) simp
  then show ?thesis unfolding drawn_index_def by linarith
qed

lemma seeded_permutation_mset: "mset (seeded_permutation sha items seed) = mset items"
proof -
  have "mset (foldl (\<lambda>r i. swap_at i (drawn_index sha seed i) r) xs is) = mset xs"
    if "\<forall>i \<in> set is. i < length xs" for xs :: "'a list" and "is"
    using that
  proof (induction "is" arbitrary: xs)
    case (Cons i js)
    have i: "i < length xs" "drawn_index sha seed i < length xs"
      using Cons.prems drawn_index_le [of sha seed i] by auto
    note m = swap_at_mset [OF i]
    from mset_eq_length [OF this] have "\<forall>j \<in> set js. j < length (swap_at i (drawn_index sha seed i) xs)"
      using Cons.prems by simp
    from Cons.IH [OF this] m show ?case by simp
  qed simp
  then show ?thesis unfolding seeded_permutation_def by simp
qed

lemma arm_order_permutation:
  assumes "arm_order_for_block arms block_index seed = Inr row"
  shows "mset row = mset arms"
proof -
  let ?n = "int (length arms)"
  obtain square where square: "williams_square ?n = Inr square"
    and row: "row = map (\<lambda>i. arms ! nat i) (square ! nat ((block_index + seed) mod int (length square)))"
    using assms by (auto simp: arm_order_for_block_def result_elims Let_def)
  then have n: "2 \<le> ?n" by (simp add: williams_square_def split: if_splits)
  let ?r = "square ! nat ((block_index + seed) mod int (length square))"
  have "square = williams_rows ?n \<or> square = williams_rows ?n @ map rev (williams_rows ?n)"
    using square n by (auto simp: williams_square_def Let_def split: if_splits)
  moreover have "length (williams_rows ?n) = length arms" by (simp add: williams_rows_is [OF n])
  ultimately have "length square > 0" using n by auto
  then have "?r \<in> set square" by (intro nth_mem) (simp add: nat_less_iff)
  moreover have "distinct r \<and> set r = {0..<?n}" if "r \<in> set (williams_rows ?n)" for r
    using that williams_row_facts [OF n] by (auto simp: williams_rows_is [OF n])
  ultimately have r: "distinct ?r" "set ?r = {0..<?n}"
    using \<open>square = williams_rows ?n \<or> square = williams_rows ?n @ map rev (williams_rows ?n)\<close> by auto
  have "mset ?r = mset (map int [0..<length arms])"
    using r by (intro set_eq_iff_mset_eq_distinct [THEN iffD1]) (auto simp: distinct_map image_int_atLeastLessThan)
  then have "mset row = mset (map (\<lambda>i. arms ! nat i) (map int [0..<length arms]))"
    unfolding row by (metis mset_map)
  also have "map (\<lambda>i. arms ! nat i) (map int [0..<length arms]) = arms" by (simp add: comp_def map_nth)
  finally show ?thesis .
qed

lemma ab_ba_alternates: "ab_ba_order (a, b) (k + 1) seed = prod.swap (ab_ba_order (a, b) k seed)"
proof -
  have "(k + 1 + seed mod 2) mod 2 = 0 \<longleftrightarrow> (k + seed mod 2) mod 2 \<noteq> 0" by presburger
  then show ?thesis by (simp add: ab_ba_order_def)
qed

end
