(* ===== verification/BlockDesign.thy ===== *)
theory BlockDesign
  imports Randomization
begin

text \<open>
  \<^verbatim>\<open>src/src/shapeflow/experiment/block_design.py\<close>: the screening design and its freeze gates. What numpy
  computes (the log determinant of a subset, the rank, the condition number, a seeded shuffle) is a
  parameter; an infinite criterion is \<open>None\<close>. A design entry is -1, 0 or 1, an exact float, kept as an
  integer. Where the code iterates over a set, \<open>scan\<close> stands for the order of the iteration.
\<close>

subsection \<open>Effect coding\<close>

record factor =
  fa_name :: string
  fa_levels :: "string list"

datatype block_error =
    UnknownLevel string string
  | UnknownFactor string
  | MissingLevel string
  | BadSelection
  | BadPerState

fun index_of_level :: "string \<Rightarrow> string list \<Rightarrow> nat" where
  "index_of_level x [] = 0"
| "index_of_level x (y # ys) = (if x = y then 0 else Suc (index_of_level x ys))"

definition effect_columns :: "factor \<Rightarrow> string \<Rightarrow> block_error + int list" where
  "effect_columns f level =
     (if level \<notin> set (fa_levels f) then Inl (UnknownLevel level (fa_name f))
      else
        (let k = length (fa_levels f); idx = index_of_level level (fa_levels f)
         in Inr (if idx = k - 1 then replicate (k - 1) (- 1)
                 else map (\<lambda>j. if j = idx then 1 else 0) [0..<k - 1])))"

definition find_factor :: "factor list \<Rightarrow> string \<Rightarrow> block_error + factor" where
  "find_factor fs name =
     (case map_of (dict_of (map (\<lambda>f. (fa_name f, f)) fs)) name of
        None \<Rightarrow> Inl (UnknownFactor name) | Some f \<Rightarrow> Inr f)"

definition check_interactions :: "factor list \<Rightarrow> (string \<times> string) list \<Rightarrow> block_error + unit" where
  "check_interactions fs crossed = rbind (rmap (find_factor fs) (map fst crossed @ map snd crossed)) (\<lambda>_. Inr ())"

definition bracket :: "string \<Rightarrow> nat \<Rightarrow> string" where
  "bracket name i = name @ ''['' @ show_nat i @ '']''"

definition main_names :: "factor \<Rightarrow> string list" where
  "main_names f = map (bracket (fa_name f)) [0..<length (fa_levels f) - 1]"

definition interaction_names :: "factor list \<Rightarrow> string \<times> string \<Rightarrow> block_error + string list" where
  "interaction_names fs ab =
     rbind (find_factor fs (fst ab)) (\<lambda>fa. rbind (find_factor fs (snd ab)) (\<lambda>fb.
       Inr (concat (map (\<lambda>i. map (\<lambda>j. bracket (fst ab) i @ ''x'' @ bracket (snd ab) j)
              [0..<length (fa_levels fb) - 1]) [0..<length (fa_levels fa) - 1]))))"

definition main_columns :: "(string \<times> string) list \<Rightarrow> factor \<Rightarrow> block_error + int list" where
  "main_columns variant f =
     (case map_of variant (fa_name f) of
        None \<Rightarrow> Inl (MissingLevel (fa_name f)) | Some level \<Rightarrow> effect_columns f level)"

definition products :: "int list \<Rightarrow> int list \<Rightarrow> int list" where
  "products ca cb = concat (map (\<lambda>x. map (\<lambda>y. x * y) cb) ca)"

definition design_row ::
  "factor list \<Rightarrow> (string \<times> string) list \<Rightarrow> (string \<times> string) list \<Rightarrow> block_error + int list" where
  "design_row fs crossed variant =
     rbind (rmap (main_columns variant) fs) (\<lambda>cols.
       let main = dict_of (List.zip (map fa_name fs) cols);
           col = (\<lambda>name. case map_of main name of None \<Rightarrow> [] | Some c \<Rightarrow> c)
       in Inr (1 # concat cols @ concat (map (\<lambda>(a, b). products (col a) (col b)) crossed)))"

definition encode_design ::
  "(string \<times> string) list list \<Rightarrow> factor list \<Rightarrow> (string \<times> string) list
     \<Rightarrow> block_error + int list list \<times> string list" where
  "encode_design variants fs crossed =
     rbind (check_interactions fs crossed) (\<lambda>_.
     rbind (rmap (interaction_names fs) crossed) (\<lambda>inames.
     rbind (rmap (design_row fs crossed) variants) (\<lambda>rows.
       Inr (rows, ''intercept'' # concat (map main_names fs) @ concat inames))))"

subsection \<open>Exchange\<close>

text \<open>\<open>s > best + 1e-12\<close>, where \<open>None\<close> is minus infinity.\<close>

definition improves :: "real option \<Rightarrow> real option \<Rightarrow> bool" where
  "improves s best = (case s of None \<Rightarrow> False
     | Some a \<Rightarrow> (case best of None \<Rightarrow> True | Some b \<Rightarrow> a > b + 1 / 10 ^ 12))"

type_synonym exchange = "nat list \<times> real option \<times> bool"

definition exchange_step :: "(nat list \<Rightarrow> real option) \<Rightarrow> nat \<Rightarrow> nat \<Rightarrow> exchange \<Rightarrow> exchange" where
  "exchange_step score slot cand s =
     (case s of (selected, best, improved) \<Rightarrow>
        if cand \<in> set selected then s
        else
          (let trial = selected[slot := cand]
           in if improves (score trial) best then (trial, score trial, True) else s))"

definition exchange_pass :: "(nat list \<Rightarrow> real option) \<Rightarrow> nat \<Rightarrow> nat list \<Rightarrow> nat list \<times> real option \<Rightarrow> exchange" where
  "exchange_pass score n_pool slots s =
     fold (\<lambda>slot. fold (exchange_step score slot) [0..<n_pool]) slots (fst s, snd s, False)"

fun exchange_loop ::
  "nat \<Rightarrow> (nat list \<Rightarrow> real option) \<Rightarrow> nat \<Rightarrow> nat list \<Rightarrow> nat list \<times> real option \<Rightarrow> nat list" where
  "exchange_loop 0 score n_pool slots s = fst s"
| "exchange_loop (Suc k) score n_pool slots s =
     (case exchange_pass score n_pool slots s of (selected, best, improved) \<Rightarrow>
        if improved then exchange_loop k score n_pool slots (selected, best) else selected)"

definition fedorov_start :: "(nat list \<Rightarrow> nat list) \<Rightarrow> nat \<Rightarrow> nat \<Rightarrow> nat list \<Rightarrow> nat list" where
  "fedorov_start shuffle n_pool n_select forced =
     (let f = dedup forced; remaining = shuffle (filter (\<lambda>i. i \<notin> set f) [0..<n_pool])
      in f @ take (n_select - length f) remaining)"

definition fedorov_select ::
  "(nat list \<Rightarrow> nat list) \<Rightarrow> (nat list \<Rightarrow> nat list) \<Rightarrow> (nat list \<Rightarrow> real option) \<Rightarrow> nat \<Rightarrow> nat \<Rightarrow> nat list \<Rightarrow> nat
     \<Rightarrow> block_error + nat list" where
  "fedorov_select shuffle scan score n_pool n_select forced max_iter =
     (let f = dedup forced in
      if n_select < length f \<or> n_pool < n_select then Inl BadSelection
      else
        (let selected = fedorov_start shuffle n_pool n_select forced
         in Inr (exchange_loop max_iter score n_pool (scan [length f..<n_select]) (selected, score selected))))"

subsection \<open>Spreading variants over states\<close>

type_synonym state_assignment = "(string \<times> string list) list"

definition assign_to_states ::
  "(string list \<Rightarrow> string list) \<Rightarrow> string list \<Rightarrow> string list \<Rightarrow> int \<Rightarrow> block_error + state_assignment" where
  "assign_to_states shuffle state_ids variant_ids per_state =
     (if per_state < 1 \<or> per_state > int (length variant_ids) then Inl BadPerState
      else
        (let order = shuffle variant_ids; m = length order; k = nat per_state
         in Inr (fst (foldl (\<lambda>(by_state, cursor) state.
              (dict_put state (map (\<lambda>i. order ! ((cursor + i) mod m)) [0..<k]) by_state, (cursor + k) mod m))
              ([], 0) state_ids))))"

definition tally_up :: "'k list \<Rightarrow> ('k \<times> nat) list" where
  "tally_up ks = fold (\<lambda>k d. dict_put k ((case map_of d k of None \<Rightarrow> 0 | Some n \<Rightarrow> n) + 1) d) ks []"

definition exposure :: "state_assignment \<Rightarrow> (string \<times> nat) list" where
  "exposure a = tally_up (concat (map snd a))"

definition pairs_of :: "string list \<Rightarrow> (string \<times> string) list" where
  "pairs_of uniq = concat (map (\<lambda>i. map (\<lambda>j. (uniq ! i, uniq ! j)) [i + 1..<length uniq]) [0..<length uniq])"

definition pair_exposure :: "state_assignment \<Rightarrow> ((string \<times> string) \<times> nat) list" where
  "pair_exposure a = tally_up (concat (map (\<lambda>(s, vs). pairs_of (sort (dedup vs))) a))"

datatype gate_failure =
    NotFullRank int int
  | IllConditioned "real option"
  | ExposureSpread int
  | PairSpread int
  | EmptyState string

definition spread :: "('k \<times> nat) list \<Rightarrow> int" where
  "spread d = int (Max (set (map snd d))) - int (Min (set (map snd d)))"

text \<open>\<open>rank\<close> and \<open>cond\<close> are what numpy reports of the matrix; an infinite or undefined \<open>cond\<close> is \<open>None\<close>.\<close>

definition check_freeze_gates ::
  "int \<Rightarrow> int \<Rightarrow> real option \<Rightarrow> state_assignment \<Rightarrow> real \<Rightarrow> int \<Rightarrow> int \<Rightarrow> gate_failure list" where
  "check_freeze_gates rank columns cond a max_condition max_exposure_spread max_pair_spread =
     (if rank < columns then [NotFullRank rank columns] else [])
     @ (case cond of None \<Rightarrow> [IllConditioned None]
        | Some c \<Rightarrow> if c \<ge> max_condition then [IllConditioned (Some c)] else [])
     @ (if exposure a \<noteq> [] \<and> spread (exposure a) > max_exposure_spread
        then [ExposureSpread (spread (exposure a))] else [])
     @ (if pair_exposure a \<noteq> [] \<and> spread (pair_exposure a) > max_pair_spread
        then [PairSpread (spread (pair_exposure a))] else [])
     @ map (\<lambda>(s, vs). EmptyState s) (filter (\<lambda>(s, vs). vs = []) a)"

subsection \<open>Exchange keeps the anchors\<close>

lemma exchange_step_inv:
  assumes "distinct sel \<and> length sel = n \<and> take f sel = anchors \<and> set sel \<subseteq> A"
    and "f \<le> slot" and "slot < n" and "cand \<in> A" and "exchange_step score slot cand (sel, best, imp) = (sel', best', imp')"
  shows "distinct sel' \<and> length sel' = n \<and> take f sel' = anchors \<and> set sel' \<subseteq> A"
proof (cases "sel' = sel")
  case False
  then have new: "sel' = sel[slot := cand]" "cand \<notin> set sel"
    using assms(5) by (auto simp: exchange_step_def Let_def split: if_splits)
  have "take f sel' = take f sel" unfolding new using assms(2) by simp
  moreover have "distinct sel'" unfolding new by (rule distinct_list_update) (use assms(1) new(2) in auto)
  moreover have "set sel' \<subseteq> insert cand (set sel)" unfolding new by (rule set_update_subset_insert)
  ultimately show ?thesis using assms(1,4) new by auto
qed (use assms(1) in simp)

definition exchange_ok :: "nat list \<Rightarrow> nat \<Rightarrow> nat set \<Rightarrow> (nat list \<Rightarrow> real option) \<Rightarrow> nat list \<Rightarrow> real option \<Rightarrow> nat list \<Rightarrow> bool" where
  "exchange_ok anchors n A score first best sel \<longleftrightarrow> distinct sel \<and> length sel = n
     \<and> take (length anchors) sel = anchors \<and> set sel \<subseteq> A \<and> best = score sel
     \<and> (sel = first \<or> improves (score sel) (score first))"

lemma improves_trans: "improves c b \<Longrightarrow> improves b a \<Longrightarrow> improves c a"
  by (auto simp: improves_def split: option.splits)

lemma exchange_step_ok:
  assumes "exchange_ok anchors n A score first best sel" and "length anchors \<le> slot" "slot < n" "cand \<in> A"
    and "exchange_step score slot cand (sel, best, imp) = (sel', best', imp')"
  shows "exchange_ok anchors n A score first best' sel'"
proof -
  have inv: "distinct sel' \<and> length sel' = n \<and> take (length anchors) sel' = anchors \<and> set sel' \<subseteq> A"
    by (rule exchange_step_inv [OF _ assms(2,3,4,5)]) (use assms(1) in \<open>simp add: exchange_ok_def\<close>)
  have "(sel', best') = (sel, best) \<or> (best' = score sel' \<and> improves (score sel') best)"
    using assms(5) by (auto simp: exchange_step_def Let_def split: if_splits)
  then show ?thesis using inv assms(1) improves_trans by (auto simp: exchange_ok_def)
qed

lemma exchange_pass_ok:
  assumes "exchange_ok anchors n {0..<n_pool} score first best sel" and "\<forall>slot \<in> set slots. length anchors \<le> slot \<and> slot < n"
    and "exchange_pass score n_pool slots (sel, best) = (sel', best', imp')"
  shows "exchange_ok anchors n {0..<n_pool} score first best' sel'"
proof -
  let ?ok = "\<lambda>s :: exchange. exchange_ok anchors n {0..<n_pool} score first (fst (snd s)) (fst s)"
  have inner: "?ok (fold (exchange_step score slot) cs s)"
    if "?ok s" "length anchors \<le> slot" "slot < n" "set cs \<subseteq> {0..<n_pool}" for cs slot s
    using that
  proof (induction cs arbitrary: s)
    case (Cons c cs)
    obtain sel best imp where s: "s = (sel, best, imp)" by (cases s)
    obtain sel1 best1 imp1 where s1: "exchange_step score slot c s = (sel1, best1, imp1)" by (cases "exchange_step score slot c s")
    have "exchange_ok anchors n {0..<n_pool} score first best1 sel1"
      by (rule exchange_step_ok [where sel = sel and best = best and imp = imp]) (use Cons.prems s s1 in auto)
    with Cons s1 show ?case by simp
  qed simp
  have "?ok (fold (\<lambda>slot. fold (exchange_step score slot) [0..<n_pool]) slots s)"
    if "?ok s" "\<forall>slot \<in> set slots. length anchors \<le> slot \<and> slot < n" for s slots
    using that
  proof (induction slots arbitrary: s)
    case (Cons slot slots)
    have "?ok (fold (exchange_step score slot) [0..<n_pool] s)"
      by (rule inner) (use Cons.prems in auto)
    with Cons show ?case by simp
  qed simp
  from this [of "(sel, best, False)" slots] assms show ?thesis by (simp add: exchange_pass_def)
qed

lemma exchange_loop_ok:
  assumes "exchange_ok anchors n {0..<n_pool} score first best sel" and "\<forall>slot \<in> set slots. length anchors \<le> slot \<and> slot < n"
  shows "\<exists>best'. exchange_ok anchors n {0..<n_pool} score first best' (exchange_loop k score n_pool slots (sel, best))"
  using assms(1)
proof (induction k arbitrary: sel best)
  case (Suc k)
  obtain sel1 best1 imp1 where pass: "exchange_pass score n_pool slots (sel, best) = (sel1, best1, imp1)"
    by (cases "exchange_pass score n_pool slots (sel, best)")
  from exchange_pass_ok [OF Suc.prems assms(2) pass] Suc.IH pass show ?case by auto
qed auto

text \<open>
  The exchange search never loses an anchor or quality: whatever the criterion and the shuffle, the
  selected design has the asked-for number of different rows of the pool, starts with the forced rows in
  order, and its criterion is that of the starting design or better by more than the tolerance.
\<close>

theorem fedorov_keeps_anchors:
  assumes "fedorov_select shuffle scan score n_pool n_select forced max_iter = Inr sel"
    and "set forced \<subseteq> {0..<n_pool}" and "\<And>xs. mset (shuffle xs) = mset xs" and "\<And>xs. set (scan xs) = set xs"
  shows "distinct sel \<and> length sel = n_select \<and> set sel \<subseteq> {0..<n_pool} \<and> take (length (dedup forced)) sel = dedup forced
    \<and> (sel = fedorov_start shuffle n_pool n_select forced
       \<or> improves (score sel) (score (fedorov_start shuffle n_pool n_select forced)))"
proof -
  let ?f = "dedup forced" and ?start = "fedorov_start shuffle n_pool n_select forced"
  let ?rest = "filter (\<lambda>i. i \<notin> set ?f) [0..<n_pool]"
  have n: "length ?f \<le> n_select" "n_select \<le> n_pool"
    and sel: "sel = exchange_loop max_iter score n_pool (scan [length ?f..<n_select]) (?start, score ?start)"
    using assms(1) by (auto simp: fedorov_select_def Let_def split: if_splits)
  have "distinct ?rest" by simp
  then have rest: "distinct (shuffle ?rest)"
    using mset_eq_imp_distinct_iff [OF assms(3) [of ?rest]] by blast
  have rest_set: "set (shuffle ?rest) = {0..<n_pool} - set ?f"
    unfolding mset_eq_setD [OF assms(3) [of ?rest]] by auto
  have "length (shuffle ?rest) = n_pool - length ?f"
  proof -
    have "length (shuffle ?rest) = card ({0..<n_pool} - set ?f)" using distinct_card [OF rest] rest_set by simp
    also have "\<dots> = n_pool - length ?f"
      using assms(2) distinct_card [OF distinct_dedup [of forced]] by (subst card_Diff_subset) auto
    finally show ?thesis .
  qed
  then have len: "length (?f @ take (n_select - length ?f) (shuffle ?rest)) = n_select" using n by simp
  have part: "set (take (n_select - length ?f) (shuffle ?rest)) \<subseteq> {0..<n_pool} - set ?f"
    unfolding rest_set [symmetric] by (rule set_take_subset)
  have dist: "distinct (?f @ take (n_select - length ?f) (shuffle ?rest))" using rest part by auto
  have sub: "set (?f @ take (n_select - length ?f) (shuffle ?rest)) \<subseteq> {0..<n_pool}"
    using part assms(2) by auto
  have start: "?start = ?f @ take (n_select - length ?f) (shuffle ?rest)"
    by (simp only: fedorov_start_def Let_def)
  have "take (length ?f) ?start = ?f" unfolding start by simp
  then have "exchange_ok ?f n_select {0..<n_pool} score ?start (score ?start) ?start"
    unfolding exchange_ok_def using dist sub len unfolding start by blast
  from exchange_loop_ok [OF this, of "scan [length ?f..<n_select]" max_iter] assms(4)
  show ?thesis unfolding sel by (auto simp: exchange_ok_def)
qed

lemma fedorov_keeps_anchors_witness:
  "exchange_ok [2] 2 {0..<4} (\<lambda>s. if 3 \<in> set s then Some 5 else Some (1 :: real)) [2, 0] (Some 5) [2, 3]"
proof -
  let ?score = "\<lambda>s. if 3 \<in> set s then Some 5 else Some (1 :: real)"
  have run: "fedorov_select id id ?score 4 2 [2] 3 = Inr [2, 3]"
    by (simp add: fedorov_select_def fedorov_start_def dedup_def exchange_pass_def exchange_step_def improves_def
        upt_rec numeral_eq_Suc)
  show ?thesis
    using fedorov_keeps_anchors [OF run]
    by (simp add: exchange_ok_def fedorov_start_def dedup_def upt_rec numeral_eq_Suc)
qed

subsection \<open>Rotation spreads the variants\<close>

definition rotation :: "'a list \<Rightarrow> nat \<Rightarrow> 'a list" where
  "rotation order n = map (\<lambda>t. order ! (t mod length order)) [0..<n]"

lemma rotation_add: "rotation order (a + b) = rotation order a @ map (\<lambda>i. order ! ((a + i) mod length order)) [0..<b]"
  by (rule nth_equalityI) (auto simp: rotation_def nth_append)

lemma count_rotation:
  assumes "distinct order" and "i < length order"
  shows "count_list (rotation order n) (order ! i) = n div length order + (if i < n mod length order then 1 else 0)"
proof (induction n)
  case (Suc n)
  have "order ! (n mod length order) = order ! i \<longleftrightarrow> n mod length order = i"
    using assms nth_eq_iff_index_eq [OF assms(1), of "n mod length order" i] by (cases order) auto
  with Suc show ?case using assms by (auto simp: rotation_def div_Suc mod_Suc)
qed (simp add: rotation_def)

lemma count_rotation_close:
  assumes "distinct order" and "v \<in> set order" "w \<in> set order"
  shows "count_list (rotation order n) v \<le> count_list (rotation order n) w + 1"
proof -
  obtain i j where "i < length order" "v = order ! i" "j < length order" "w = order ! j"
    using assms(2,3) by (metis in_set_conv_nth)
  then show ?thesis using count_rotation [OF assms(1)] by simp
qed

lemma map_of_tally_up: "map_of (tally_up ks) k = (if k \<in> set ks then Some (count_list ks k) else None)"
  unfolding tally_up_def by (induction ks arbitrary: k rule: rev_induct) auto

lemma tally_up_values: "(k, n) \<in> set (tally_up ks) \<Longrightarrow> k \<in> set ks \<and> n = count_list ks k"
proof -
  have "distinct (map fst (tally_up ks))"
    unfolding tally_up_def by (induction ks rule: rev_induct) auto
  then show "(k, n) \<in> set (tally_up ks) \<Longrightarrow> k \<in> set ks \<and> n = count_list ks k"
    using map_of_tally_up [of ks k] by (auto dest!: map_of_is_SomeI split: if_splits)
qed

lemma assign_loop:
  assumes "distinct states" and "set states \<inter> fst ` set a = {}" and "order \<noteq> []"
    and "concat (map snd a) = rotation order n" and "cursor = n mod length order"
  shows "\<exists>a' c. foldl (\<lambda>(by_state, cursor) state.
              (dict_put state (map (\<lambda>i. order ! ((cursor + i) mod length order)) [0..<k]) by_state,
               (cursor + k) mod length order)) (a, cursor) states = (a', c)
       \<and> map fst a' = map fst a @ states
       \<and> concat (map snd a') = rotation order (n + k * length states)
       \<and> (\<forall>vs \<in> snd ` set a'. vs \<in> snd ` set a \<or> (\<exists>c. vs = map (\<lambda>i. order ! ((c + i) mod length order)) [0..<k]))"
  using assms
proof (induction states arbitrary: a n cursor)
  case (Cons s states)
  let ?vs = "map (\<lambda>i. order ! ((cursor + i) mod length order)) [0..<k]"
  have put: "dict_put s ?vs a = a @ [(s, ?vs)]"
  proof -
    have "dict_put k' v d = d @ [(k', v)]" if "k' \<notin> fst ` set d" for k' :: 'a and v :: "'b list" and d
      using that by (induction k' v d rule: dict_put.induct) auto
    then show ?thesis using Cons.prems(2) by simp
  qed
  have vs: "?vs = map (\<lambda>i. order ! ((n + i) mod length order)) [0..<k]"
    using Cons.prems(5) by (simp add: mod_add_left_eq)
  have c1: "concat (map snd (a @ [(s, ?vs)])) = rotation order (n + k)"
    using Cons.prems(4) vs by (simp add: rotation_add)
  have c2: "(cursor + k) mod length order = (n + k) mod length order"
    using Cons.prems(5) by (simp add: mod_add_left_eq)
  have c3: "distinct states" "set states \<inter> fst ` set (a @ [(s, ?vs)]) = {}"
    using Cons.prems(1,2) by auto
  from Cons.IH [OF c3 Cons.prems(3) c1 c2] obtain a' c where
    run: "foldl (\<lambda>(by_state, cursor) state.
              (dict_put state (map (\<lambda>i. order ! ((cursor + i) mod length order)) [0..<k]) by_state,
               (cursor + k) mod length order)) (a @ [(s, ?vs)], (cursor + k) mod length order) states = (a', c)"
    and out: "map fst a' = map fst (a @ [(s, ?vs)]) @ states"
      "concat (map snd a') = rotation order (n + k + k * length states)"
      "\<forall>vs \<in> snd ` set a'. vs \<in> snd ` set (a @ [(s, ?vs)])
         \<or> (\<exists>c. vs = map (\<lambda>i. order ! ((c + i) mod length order)) [0..<k])"
    by blast
  have "n + k + k * length states = n + k * length (s # states)" by simp
  then have "concat (map snd a') = rotation order (n + k * length (s # states))" using out(2) by metis
  moreover have "map fst a' = map fst a @ s # states" using out(1) by simp
  moreover have "\<forall>vs \<in> snd ` set a'. vs \<in> snd ` set a \<or> (\<exists>c. vs = map (\<lambda>i. order ! ((c + i) mod length order)) [0..<k])"
    using out(3) by auto
  moreover have "foldl (\<lambda>(by_state, cursor) state.
              (dict_put state (map (\<lambda>i. order ! ((cursor + i) mod length order)) [0..<k]) by_state,
               (cursor + k) mod length order)) (a, cursor) (s # states) = (a', c)"
    unfolding foldl_Cons prod.case put by (rule run)
  ultimately show ?case by blast
qed (auto simp: rotation_def)

lemma mod_shift_inj:
  assumes "(c + i) mod m = (c + j) mod m" and "i < m" "j < (m :: nat)"
  shows "i = j"
proof -
  have "i' = j'" if "(c + i') mod m = (c + j') mod m" "j' \<le> i'" "i' < m" for i' j'
  proof -
    have "m dvd (c + i') - (c + j')" using that by (subst mod_eq_dvd_iff_nat [symmetric]) auto
    then have "m dvd i' - j'" by simp
    then show ?thesis using that dvd_imp_le [of m "i' - j'"] by (cases "i' = j'") auto
  qed
  from this [of i j] this [of j i] show ?thesis using assms by (metis nle_le)
qed

lemma window_distinct:
  assumes "distinct order" and "k \<le> length order"
  shows "distinct (map (\<lambda>i. order ! ((c + i) mod length order)) [0..<k])"
proof -
  have "inj_on (\<lambda>i. order ! ((c + i) mod length order)) {0..<k}"
  proof (rule inj_onI)
    fix i j assume mem: "i \<in> {0..<k}" "j \<in> {0..<k}"
      and "order ! ((c + i) mod length order) = order ! ((c + j) mod length order)"
    moreover have "length order > 0" using mem assms(2) by auto
    ultimately have "(c + i) mod length order = (c + j) mod length order"
      using nth_eq_iff_index_eq [OF assms(1)] by simp
    then show "i = j" using mem assms(2) mod_shift_inj [of c i "length order" j] by simp
  qed
  then show ?thesis by (simp add: distinct_map)
qed

text \<open>
  C29. The rotation is balanced: with different states and variants, every state is assigned in order, each
  gets the asked-for number of different variants of the list, any two variants are used within one of each
  other, and so the exposure gate of a freeze never fails on such an assignment.
\<close>

theorem assignment_balanced:
  assumes "assign_to_states shuffle state_ids variant_ids per_state = Inr a"
    and "distinct state_ids" and "distinct variant_ids" and "mset (shuffle variant_ids) = mset variant_ids"
  shows "map fst a = state_ids
    \<and> (\<forall>(s, vs) \<in> set a. length vs = nat per_state \<and> distinct vs \<and> set vs \<subseteq> set variant_ids)
    \<and> (\<forall>v \<in> set variant_ids. \<forall>w \<in> set variant_ids.
         count_list (concat (map snd a)) v \<le> count_list (concat (map snd a)) w + 1)
    \<and> (exposure a \<noteq> [] \<longrightarrow> spread (exposure a) \<le> 1)"
proof -
  let ?order = "shuffle variant_ids" and ?k = "nat per_state"
  have k: "0 < ?k" "?k \<le> length variant_ids" and run: "a = fst (foldl (\<lambda>(by_state, cursor) state.
              (dict_put state (map (\<lambda>i. ?order ! ((cursor + i) mod length ?order)) [0..<?k]) by_state,
               (cursor + ?k) mod length ?order)) ([], 0) state_ids)"
    using assms(1) by (auto simp: assign_to_states_def Let_def split: if_splits)
  have order: "distinct ?order" "set ?order = set variant_ids" "length ?order = length variant_ids"
    using assms(3) mset_eq_imp_distinct_iff [OF assms(4)] mset_eq_setD [OF assms(4)] mset_eq_length [OF assms(4)] by auto
  have ne: "?order \<noteq> []" using k order(3) by auto
  from assign_loop [OF assms(2), of "[]" ?order 0 0 ?k] ne run
  have out: "map fst a = state_ids" "concat (map snd a) = rotation ?order (?k * length state_ids)"
    and windows: "\<forall>vs \<in> snd ` set a. \<exists>c. vs = map (\<lambda>i. ?order ! ((c + i) mod length ?order)) [0..<?k]"
    by (auto simp: rotation_def)
  have window: "length vs = ?k \<and> distinct vs \<and> set vs \<subseteq> set variant_ids" if vs: "(s, vs) \<in> set a" for s vs
  proof -
    obtain c where vs: "vs = map (\<lambda>i. ?order ! ((c + i) mod length ?order)) [0..<?k]"
      using windows vs by force
    have "set vs \<subseteq> set ?order" unfolding vs using ne by auto
    moreover have "distinct vs" unfolding vs by (rule window_distinct) (use order k in auto)
    ultimately show ?thesis using order(2) by (simp add: vs)
  qed
  have close: "count_list (concat (map snd a)) v \<le> count_list (concat (map snd a)) w + 1"
    if "v \<in> set variant_ids" "w \<in> set variant_ids" for v w
    unfolding out(2) using count_rotation_close [OF order(1)] that order(2) by simp
  have "spread (exposure a) \<le> 1" if ne: "exposure a \<noteq> []"
  proof -
    let ?ns = "set (map snd (exposure a))"
    have fin: "finite ?ns" "?ns \<noteq> {}" using ne by auto
    have used: "\<exists>v \<in> set variant_ids. n = count_list (concat (map snd a)) v" if n: "n \<in> ?ns" for n
    proof -
      obtain v where "(v, n) \<in> set (exposure a)" using n by auto
      then have "v \<in> set (concat (map snd a)) \<and> n = count_list (concat (map snd a)) v"
        unfolding exposure_def by (rule tally_up_values)
      moreover have "set (concat (map snd a)) \<subseteq> set variant_ids" using window by fastforce
      ultimately show ?thesis by blast
    qed
    obtain v w where vw: "v \<in> set variant_ids" "Max ?ns = count_list (concat (map snd a)) v"
      "w \<in> set variant_ids" "Min ?ns = count_list (concat (map snd a)) w"
      using used [OF Max_in [OF fin]] used [OF Min_in [OF fin]] by blast
    then have "Max ?ns \<le> Min ?ns + 1" using close [OF vw(1,3)] by simp
    then show ?thesis unfolding spread_def by linarith
  qed
  with out(1) window close show ?thesis by blast
qed

lemma assignment_balanced_witness:
  "spread (exposure [(''s1'', [''a'', ''b'']), (''s2'', [''c'', ''a''])]) \<le> 1"
proof -
  have run: "assign_to_states id [''s1'', ''s2''] [''a'', ''b'', ''c''] 2
      = Inr [(''s1'', [''a'', ''b'']), (''s2'', [''c'', ''a''])]"
    by code_simp
  have "exposure [(''s1'', [''a'', ''b'']), (''s2'', [''c'', ''a''])] \<noteq> []"
    by (simp add: exposure_def tally_up_def)
  with assignment_balanced [OF run] show ?thesis by simp
qed

end
