(* ===== verification/Schedule.thy ===== *)
theory Schedule
  imports Randomization
begin

text \<open>
  \<^verbatim>\<open>src/src/shapeflow/campaign/schedule.py\<close>: the paired-block schedule, planned from the binding, the task
  ids and the seeds alone. A set of tasks is a list without repetitions in any order, as the code only asks
  for its size, its members and its sorted order. The fraction of second seeds is a real number where the
  code has a float. SHA-256 is the parameter \<open>sha\<close>, the text of a float the parameter \<open>fr\<close>.
\<close>

subsection \<open>Data\<close>

record arm_spec =
  as_id :: string
  as_page :: string
  as_close :: string

record sched_cell =
  ce_block :: string
  ce_task :: string
  ce_arm :: arm_spec
  ce_seed :: int
  ce_replicate :: string
  ce_order :: nat

record sched_block =
  bl_id :: string
  bl_task :: string
  bl_replicate :: string
  bl_cells :: "sched_cell list"

record schedule_manifest =
  sm_binding :: string
  sm_protocol :: string
  sm_split :: string
  sm_blocks :: "sched_block list"
  sm_arms :: "arm_spec list"
  sm_seeds :: "int list"
  sm_layer :: string
  sm_claim :: string
  sm_notes :: "(string \<times> pyval) list"

datatype schedule_error =
    BadBinding
  | BadProtocol
  | NoArms
  | BadFraction
  | TooFewSeeds
  | NoComparator
  | DuplicateTasks
  | DuplicateArms
  | NoDesign design_error
  | DuplicateRows
  | NotClosedUnderReversal
  | PairsDoNotFit
  | PoolSizeWrong
  | PoolLacksPairs
  | NotTheReversal
  | SinglesDoNotMatch
  | MissingRow "string \<times> nat"
  | NotCanonical canon_error

definition arm_content :: "arm_spec \<Rightarrow> pyval" where
  "arm_content a = str_dict [(''arm_id'', PStr (as_id a)), (''page_variant'', PStr (as_page a)),
     (''close_variant'', PStr (as_close a))]"

definition cell_content :: "sched_cell \<Rightarrow> pyval" where
  "cell_content c = str_dict
     [(''block_id'', PStr (ce_block c)), (''task_id'', PStr (ce_task c)), (''arm'', arm_content (ce_arm c)),
      (''seed'', PInt (ce_seed c)), (''replicate_id'', PStr (ce_replicate c)),
      (''order_index'', PInt (int (ce_order c)))]"

definition block_content :: "sched_block \<Rightarrow> pyval" where
  "block_content b = str_dict
     [(''block_id'', PStr (bl_id b)), (''task_id'', PStr (bl_task b)), (''replicate_id'', PStr (bl_replicate b)),
      (''cells'', PList (map cell_content (bl_cells b)))]"

definition canon_digest :: "(string \<Rightarrow> string) \<Rightarrow> (real \<Rightarrow> string) \<Rightarrow> pyval \<Rightarrow> schedule_error + string" where
  "canon_digest sha fr v =
     (case canonical_json fr v of Inl e \<Rightarrow> Inl (NotCanonical e) | Inr j \<Rightarrow> Inr (sha256_hex sha j))"

definition block_digest :: "(string \<Rightarrow> string) \<Rightarrow> (real \<Rightarrow> string) \<Rightarrow> sched_block \<Rightarrow> schedule_error + string" where
  "block_digest sha fr b = canon_digest sha fr (block_content b)"

definition schedule_content :: "schedule_manifest \<Rightarrow> (string \<times> pyval) list" where
  "schedule_content m =
     [(''execution_binding_sha256'', PStr (sm_binding m)), (''protocol_sha'', PStr (sm_protocol m)),
      (''split'', PStr (sm_split m)), (''layer'', PStr (sm_layer m)), (''claim_scope'', PStr (sm_claim m)),
      (''arms'', PList (map arm_content (sm_arms m))), (''seeds'', PList (map PInt (sm_seeds m))),
      (''blocks'', PList (map block_content (sm_blocks m))),
      (''notes'', str_dict (sort_key fst (sm_notes m)))]"

definition schedule_digest ::
  "(string \<Rightarrow> string) \<Rightarrow> (real \<Rightarrow> string) \<Rightarrow> schedule_manifest \<Rightarrow> schedule_error + string" where
  "schedule_digest sha fr m = canon_digest sha fr (str_dict (schedule_content m))"

definition schedule_to_json ::
  "(string \<Rightarrow> string) \<Rightarrow> (real \<Rightarrow> string) \<Rightarrow> schedule_manifest \<Rightarrow> schedule_error + pyval" where
  "schedule_to_json sha fr m =
     rbind (schedule_digest sha fr m) (\<lambda>d. Inr (str_dict (schedule_content m @ [(''schedule_sha256'', PStr d)])))"

definition sched_cells :: "schedule_manifest \<Rightarrow> sched_cell list" where
  "sched_cells m = concat (map bl_cells (sm_blocks m))"

definition cell_key :: "sched_cell \<Rightarrow> string" where
  "cell_key c = ce_block c @ '':'' @ as_id (ce_arm c) @ '':'' @ ce_replicate c"

subsection \<open>Assigning the rows of the design\<close>

type_synonym coord = "string \<times> nat"
type_synonym row_plan = "(coord \<times> int list) list"

definition seed_for :: "(string \<Rightarrow> string) \<Rightarrow> string \<Rightarrow> string \<Rightarrow> string list \<Rightarrow> int" where
  "seed_for sha binding split tags = derive_seed sha ([binding, split] @ tags)"

definition ranked :: "(string \<Rightarrow> string) \<Rightarrow> string \<Rightarrow> string \<Rightarrow> string \<Rightarrow> string list \<Rightarrow> string list" where
  "ranked sha binding split tag tasks = sort_key (\<lambda>t. (seed_for sha binding split [tag, t], t)) tasks"

definition row_index :: "int list list \<Rightarrow> (int list \<times> nat) list" where
  "row_index rows = dict_of (List.zip rows [0..<length rows])"

definition reversal_index :: "int list list \<Rightarrow> nat \<Rightarrow> int" where
  "reversal_index rows i =
     (case map_of (row_index rows) (rev (rows ! i)) of None \<Rightarrow> - 1 | Some j \<Rightarrow> int j)"

definition pair_types_of :: "(nat \<Rightarrow> nat) \<Rightarrow> nat \<Rightarrow> (nat \<times> nat) list" where
  "pair_types_of reversal n = sort (dedup (map (\<lambda>i. (min i (reversal i), max i (reversal i))) [0..<n]))"

definition forced_rows :: "(nat \<times> nat) list \<Rightarrow> nat list" where
  "forced_rows ps = concat (map (\<lambda>(l, r). [l, r]) ps)"

text \<open>The rows preferred for the incomplete cycle: a cyclic window when it is safe, else every row.\<close>

definition safe_window :: "nat \<Rightarrow> nat list \<Rightarrow> nat \<Rightarrow> bool" where
  "safe_window n forced wanted \<longleftrightarrow> n mod 2 = 1 \<and> forced = [] \<and> wanted \<le> n div 2"

definition window_rows :: "int \<Rightarrow> int \<Rightarrow> nat \<Rightarrow> nat \<Rightarrow> nat list" where
  "window_rows start direction n wanted =
     map (\<lambda>k. nat ((start + direction * int k) mod int n)) [0..<wanted]"

definition preferred_rows ::
  "(string \<Rightarrow> string) \<Rightarrow> string \<Rightarrow> string \<Rightarrow> (nat \<Rightarrow> nat) \<Rightarrow> nat \<Rightarrow> nat list \<Rightarrow> nat \<Rightarrow> nat list" where
  "preferred_rows sha binding split reversal n forced wanted =
     (let base_seed = seed_for sha binding split [''williams_remainder_order''] in
      if safe_window n forced wanted
      then
        (let direction = (if seed_for sha binding split [''williams_remainder_direction''] mod 2 = 0 then 1 else - 1);
             window = window_rows (base_seed mod int n) direction n wanted
         in if seed_for sha binding split [''williams_remainder_family''] mod 2 = 1 then map reversal window else window)
      else
        (let base = seeded_permutation sha [0..<n] base_seed in base @ map reversal base))"

fun fill_rows :: "nat list \<Rightarrow> nat \<Rightarrow> nat list \<Rightarrow> nat list \<times> nat" where
  "fill_rows [] k xs = (xs, k)"
| "fill_rows (i # is) k xs =
     (if k = 0 then (xs, k)
      else if i \<in> set xs then fill_rows is k xs
      else fill_rows is (k - 1) (xs @ [i]))"

definition extra_rows ::
  "(string \<Rightarrow> string) \<Rightarrow> string \<Rightarrow> string \<Rightarrow> (nat \<Rightarrow> nat) \<Rightarrow> nat \<Rightarrow> nat \<Rightarrow> nat list \<Rightarrow> nat \<Rightarrow> nat list" where
  "extra_rows sha binding split reversal n rows_n forced remainder =
     (let wanted = remainder - length forced in
      case fill_rows (preferred_rows sha binding split reversal n forced wanted) wanted forced of
        (extra, missing) \<Rightarrow>
          extra @ take missing
            (seeded_permutation sha [0..<rows_n] (seed_for sha binding split [''williams_remainder_fallback''])))"

definition count_in :: "nat list \<Rightarrow> nat \<Rightarrow> int" where
  "count_in pool i = int (count_list pool i)"

definition pair_slots_of ::
  "(string \<Rightarrow> string) \<Rightarrow> string \<Rightarrow> string \<Rightarrow> (nat \<times> nat) list \<Rightarrow> (nat \<Rightarrow> int) \<Rightarrow> (nat \<times> nat) list" where
  "pair_slots_of sha binding split pair_types available =
     seeded_permutation sha
       (concat (map (\<lambda>(l, r). replicate (nat (min (available l) (available r))) (l, r)) pair_types))
       (seed_for sha binding split [''williams_pair_slot_order''])"

text \<open>One task with a second seed: a row and its full reversal.\<close>

definition assign_pair ::
  "(string \<Rightarrow> string) \<Rightarrow> string \<Rightarrow> string \<Rightarrow> int list list \<Rightarrow> string \<times> nat \<times> nat
     \<Rightarrow> row_plan \<times> (nat \<Rightarrow> int) \<Rightarrow> schedule_error + row_plan \<times> (nat \<Rightarrow> int)" where
  "assign_pair sha binding split rows slot s =
     (case slot of (task, left, right) \<Rightarrow> case s of (assigned, available) \<Rightarrow>
       let orientation = seed_for sha binding split [''williams_pair_orientation'', task] mod 2;
           primary = (if orientation = 0 then left else right);
           second = (if orientation = 0 then right else left);
           available = available(primary := available primary - 1);
           available = available(second := available second - 1);
           assigned = dict_put (task, 1) (rows ! second) (dict_put (task, 0) (rows ! primary) assigned)
       in if rows ! second = rev (rows ! primary) then Inr (assigned, available) else Inl NotTheReversal)"

definition remaining_rows :: "nat \<Rightarrow> (nat \<Rightarrow> int) \<Rightarrow> nat list" where
  "remaining_rows rows_n available = concat (map (\<lambda>i. replicate (nat (available i)) i) [0..<rows_n])"

definition plan_value :: "row_plan \<Rightarrow> pyval" where
  "plan_value assigned =
     str_dict (dict_of (map (\<lambda>((task, k), row). (task @ '':'' @ show_nat k, PList (map PInt row))) (sort assigned)))"

definition single_arm_plan :: "string list \<Rightarrow> string list \<Rightarrow> row_plan" where
  "single_arm_plan tasks second =
     dict_of (concat (map (\<lambda>t. map (\<lambda>k. ((t, k), [0])) (if t \<in> set second then [0, 1] else [0])) tasks))"

definition balanced_williams_assignments ::
  "(string \<Rightarrow> string) \<Rightarrow> (real \<Rightarrow> string) \<Rightarrow> string \<Rightarrow> string \<Rightarrow> string list \<Rightarrow> string list \<Rightarrow> nat
     \<Rightarrow> schedule_error + row_plan \<times> (string \<times> pyval) list" where
  "balanced_williams_assignments sha fr binding split tasks second n =
     (if n = 1 then
        Inr (single_arm_plan tasks second,
          [(''randomization'', PStr ''single_arm_no_ordering''),
           (''carryover_balance'', PStr ''VACUOUS_SINGLE_ARM''), (''williams_rows'', PInt 1)])
      else
      rbind (case williams_square (int n) of Inl e \<Rightarrow> Inl (NoDesign e) | Inr rows \<Rightarrow> Inr rows) (\<lambda>rows.
      let rows_n = length rows in
      rbind (guard_err (length (row_index rows) = rows_n) DuplicateRows) (\<lambda>_.
      rbind (guard_err (\<forall>i \<in> set [0..<rows_n]. reversal_index rows i \<ge> 0) NotClosedUnderReversal) (\<lambda>_.
      let reversal = (\<lambda>i. nat (reversal_index rows i));
          pair_types = pair_types_of reversal rows_n;
          total = length tasks + length second;
          cycles = total div rows_n;
          remainder = total mod rows_n;
          needed = length second - cycles * length pair_types in
      rbind (guard_err (2 * needed \<le> remainder) PairsDoNotFit) (\<lambda>_.
      let ordered_pairs = seeded_permutation sha pair_types
            (seed_for sha binding split [''williams_pair_type_order'']);
          forced = forced_rows (take needed ordered_pairs);
          extra = extra_rows sha binding split reversal n rows_n forced remainder;
          pool = concat (replicate cycles [0..<rows_n]) @ extra in
      rbind (guard_err (length pool = total) PoolSizeWrong) (\<lambda>_.
      let slots = pair_slots_of sha binding split pair_types (count_in pool) in
      rbind (guard_err (length slots \<ge> length second) PoolLacksPairs) (\<lambda>_.
      rbind (rfold (assign_pair sha binding split rows)
              (List.zip (ranked sha binding split ''williams_paired_task_rank'' second) (take (length second) slots))
              ([], count_in pool)) (\<lambda>(assigned, available).
      let singles = seeded_permutation sha (remaining_rows rows_n available)
            (seed_for sha binding split [''williams_single_row_order'']);
          single_tasks = ranked sha binding split ''williams_single_task_rank'' (filter (\<lambda>t. t \<notin> set second) tasks) in
      rbind (guard_err (length singles = length single_tasks) SinglesDoNotMatch) (\<lambda>_.
      let plan = foldl (\<lambda>d (t, i). dict_put (t, 0) (rows ! i) d) assigned (List.zip single_tasks singles) in
      rbind (canon_digest sha fr (plan_value plan)) (\<lambda>digest.
        Inr (plan,
          [(''randomization_design'', PStr ''binding_ranked_balanced_williams_v2''),
           (''williams_design_rows'', PInt (int rows_n)),
           (''williams_full_cycles'', PInt (int cycles)),
           (''williams_remainder_rows'', PInt (int remainder)),
           (''williams_remainder_policy'',
              PStr (if safe_window n forced (remainder - length forced)
                    then ''odd_translated_cyclic_window_carryover_balanced''
                    else ''deterministic_general_remainder_no_exact_balance_claim'')),
           (''second_seed_order_policy'', PStr ''exact_full_row_reversal''),
           (''randomization_assignment_sha256'', PStr digest)])))))))))))"

subsection \<open>Blocks\<close>

definition is_sha256 :: "string \<Rightarrow> bool" where
  "is_sha256 s \<longleftrightarrow> length s = 64 \<and> (\<forall>c \<in> set s. c \<in> set ''0123456789abcdef'')"

definition is_comparator :: "arm_spec \<Rightarrow> bool" where
  "is_comparator a \<longleftrightarrow> as_id a = ''P0'' \<or> (as_page a = ''P0'' \<and> as_close a = ''P0'')"

definition check_schedule ::
  "string \<Rightarrow> string \<Rightarrow> string list \<Rightarrow> arm_spec list \<Rightarrow> int list \<Rightarrow> real \<Rightarrow> schedule_error + unit" where
  "check_schedule binding protocol tasks arms seeds fraction =
     (if \<not> is_sha256 binding then Inl BadBinding
      else if \<not> is_sha256 protocol then Inl BadProtocol
      else if arms = [] then Inl NoArms
      else if \<not> (0 \<le> fraction \<and> fraction \<le> 1) then Inl BadFraction
      else if fraction > 0 \<and> length seeds < 2 then Inl TooFewSeeds
      else if \<not> list_ex is_comparator arms then Inl NoComparator
      else if \<not> distinct tasks then Inl DuplicateTasks
      else if \<not> distinct (map as_id arms) then Inl DuplicateArms
      else Inr ())"

definition second_seed_tasks :: "(string \<Rightarrow> string) \<Rightarrow> string \<Rightarrow> string \<Rightarrow> string list \<Rightarrow> real \<Rightarrow> string list" where
  "second_seed_tasks sha binding split tasks fraction =
     take (nat \<lfloor>real (length tasks) * fraction + 1 / 2\<rfloor>) (ranked sha binding split ''second_seed_rank'' tasks)"

definition block_id_of ::
  "(string \<Rightarrow> string) \<Rightarrow> (real \<Rightarrow> string) \<Rightarrow> string \<Rightarrow> string \<Rightarrow> string \<Rightarrow> nat \<Rightarrow> schedule_error + string" where
  "block_id_of sha fr binding split task k =
     rbind (canon_digest sha fr (str_dict
       [(''execution_binding_sha256'', PStr binding), (''split'', PStr split), (''task_id'', PStr task),
        (''replicate'', PInt (int k))])) (\<lambda>d. Inr (''B'' @ take 14 d))"

definition make_block ::
  "(string \<Rightarrow> string) \<Rightarrow> (real \<Rightarrow> string) \<Rightarrow> string \<Rightarrow> string \<Rightarrow> arm_spec list \<Rightarrow> int list \<Rightarrow> row_plan \<Rightarrow> coord
     \<Rightarrow> schedule_error + sched_block" where
  "make_block sha fr binding split arms seeds plan tk =
     (case tk of (task, k) \<Rightarrow>
       let seed = (if seeds = [] then 0 else seeds ! (k mod length seeds)) in
       case map_of plan (task, k) of
         None \<Rightarrow> Inl (MissingRow (task, k))
       | Some row \<Rightarrow> rbind (block_id_of sha fr binding split task k) (\<lambda>bid.
            Inr \<lparr>bl_id = bid, bl_task = task, bl_replicate = show_nat k,
                 bl_cells = map (\<lambda>position.
                   \<lparr>ce_block = bid, ce_task = task, ce_arm = arms ! nat (row ! position), ce_seed = seed,
                    ce_replicate = show_nat k, ce_order = position\<rparr>) [0..<length row]\<rparr>))"

definition coords_of :: "string list \<Rightarrow> string list \<Rightarrow> coord list" where
  "coords_of tasks second = concat (map (\<lambda>t. map (Pair t) (if t \<in> set second then [0, 1] else [0])) tasks)"

definition build_blocks ::
  "(string \<Rightarrow> string) \<Rightarrow> (real \<Rightarrow> string) \<Rightarrow> string \<Rightarrow> string \<Rightarrow> string \<Rightarrow> string list \<Rightarrow> arm_spec list \<Rightarrow> int list
     \<Rightarrow> string \<Rightarrow> string \<Rightarrow> real \<Rightarrow> schedule_error + schedule_manifest" where
  "build_blocks sha fr binding protocol split task_ids arms seeds layer claim fraction =
     rbind (check_schedule binding protocol task_ids arms seeds fraction) (\<lambda>_.
     let tasks = sort task_ids; second = second_seed_tasks sha binding split tasks fraction in
     rbind (balanced_williams_assignments sha fr binding split tasks second (length arms)) (\<lambda>(plan, notes).
     rbind (rmap (make_block sha fr binding split arms seeds plan) (coords_of tasks second)) (\<lambda>blocks.
       Inr \<lparr>sm_binding = binding, sm_protocol = protocol, sm_split = split, sm_blocks = blocks, sm_arms = arms,
            sm_seeds = seeds, sm_layer = layer, sm_claim = claim,
            sm_notes =
              [(''tasks'', PInt (int (length tasks))), (''blocks'', PInt (int (length blocks))),
               (''cells'', PInt (int (sum_list (map (length \<circ> bl_cells) blocks)))),
               (''second_seed_fraction'', PFloat (Finite fraction)),
               (''second_seed_task_count'', PInt (int (length second)))] @ notes\<rparr>)))"

end
