(* ===== verification/FreezeRoot.thy ===== *)
theory FreezeRoot
  imports Schedule Ledger
begin

text \<open>
  Freezing: the block records of \<^verbatim>\<open>src/src/shapeflow/campaign/schedule.py\<close>, what the runner adds to them
  before it seals them (\<open>freeze_blocks\<close> of \<^verbatim>\<open>src/src/shapeflow/campaign/runner.py\<close>), the write-once directory and
  the campaign root. A record is the typed dict the runner builds: a field that \<open>.get\<close> may miss is an option, and keys the runner
  does not write have no place in it.
  States and outputs of the cells are finite maps by cell key.
\<close>

subsection \<open>Block records\<close>

record cell_record =
  cr_cell :: sched_cell
  cr_state :: "lstate option"
  cr_output :: string
  cr_epoch :: string

record seal =
  se_binding :: string
  se_protocol :: string
  se_epochs :: "string list"
  se_paired :: bool
  se_invalid :: "string option"

record block_record =
  br_id :: string
  br_task :: string
  br_replicate :: string
  br_cells :: "cell_record list"
  br_complete :: bool
  br_terminal :: bool
  br_digest :: string
  br_seal :: "seal option"
  br_freeze :: string

datatype freeze_error =
    NoRunOrPhase
  | SplitMismatch
  | NotASubset
  | DuplicateRecord
  | PartialRoot "string list" "string list"
  | NotTerminal string
  | DigestDiffers string
  | NoFreezeSha string
  | FreezeShaDiffers string
  | CellCountDiffers string
  | UnscheduledCell string
  | LacksEpoch string
  | LacksOutcome string
  | EpochIndexDiffers string
  | NoPairedStatus string
  | InconsistentPaired string
  | NoInvalidReason string
  | ScheduleFailed schedule_error
  | Unreadable string
  | WasEdited string
  | WriteOnce string
  | DirectoryDiffers
  | FalseRoot
  | IdentityDiffers

definition state_name :: "lstate \<Rightarrow> string" where
  "state_name s = (case s of
     PENDING \<Rightarrow> ''PENDING'' | CLAIMED \<Rightarrow> ''CLAIMED'' | MATERIALIZED \<Rightarrow> ''MATERIALIZED''
   | VALIDATED \<Rightarrow> ''VALIDATED'' | COMMITTED \<Rightarrow> ''COMMITTED'' | FAILED_RETRYABLE \<Rightarrow> ''FAILED_RETRYABLE''
   | FAILED_FINAL \<Rightarrow> ''FAILED_FINAL'' | FAILED_UNKNOWN \<Rightarrow> ''FAILED_UNKNOWN'' | BLOCKED_BUDGET \<Rightarrow> ''BLOCKED_BUDGET'')"

definition cell_is_terminal :: "lstate option \<Rightarrow> bool" where
  "cell_is_terminal s \<longleftrightarrow> (case s of None \<Rightarrow> False | Some st \<Rightarrow> st \<in> set terminal_states)"

type_synonym cell_states = "(string \<times> lstate) list"

definition block_is_complete :: "sched_block \<Rightarrow> cell_states \<Rightarrow> bool" where
  "block_is_complete b states \<longleftrightarrow> list_all (\<lambda>c. map_of states (cell_key c) = Some COMMITTED) (bl_cells b)"

definition block_is_terminal :: "sched_block \<Rightarrow> cell_states \<Rightarrow> bool" where
  "block_is_terminal b states \<longleftrightarrow> list_all (\<lambda>c. cell_is_terminal (map_of states (cell_key c))) (bl_cells b)"

definition cells_needing_work :: "schedule_manifest \<Rightarrow> cell_states \<Rightarrow> sched_cell list" where
  "cells_needing_work m states = filter (\<lambda>c. \<not> cell_is_terminal (map_of states (cell_key c))) (sched_cells m)"

definition cell_fields :: "sched_cell \<Rightarrow> (string \<times> pyval) list" where
  "cell_fields c =
     [(''block_id'', PStr (ce_block c)), (''task_id'', PStr (ce_task c)), (''arm'', arm_content (ce_arm c)),
      (''seed'', PInt (ce_seed c)), (''replicate_id'', PStr (ce_replicate c)),
      (''order_index'', PInt (int (ce_order c)))]"

definition cell_record_content :: "bool \<Rightarrow> cell_record \<Rightarrow> pyval" where
  "cell_record_content sealed r = str_dict
     (cell_fields (cr_cell r)
      @ [(''state'', PStr (case cr_state r of None \<Rightarrow> ''MISSING'' | Some s \<Rightarrow> state_name s)),
         (''output_ref'', PStr (cr_output r))]
      @ (if sealed then [(''engine_epoch'', PStr (cr_epoch r))] else []))"

definition seal_fields :: "seal option \<Rightarrow> (string \<times> pyval) list" where
  "seal_fields s = (case s of None \<Rightarrow> []
     | Some s \<Rightarrow>
         [(''execution_binding_sha256'', PStr (se_binding s)), (''protocol_document_sha256'', PStr (se_protocol s)),
          (''engine_epochs'', PList (map PStr (se_epochs s)))]
         @ (case se_invalid s of None \<Rightarrow> [] | Some why \<Rightarrow> [(''invalid_reason'', PStr why)])
         @ [(''valid_for_paired_estimate'', PBool (se_paired s))])"

text \<open>The content of a record without its own digest.\<close>

definition record_content :: "block_record \<Rightarrow> pyval" where
  "record_content r = str_dict
     ([(''block_id'', PStr (br_id r)), (''task_id'', PStr (br_task r)), (''replicate_id'', PStr (br_replicate r)),
       (''cells'', PList (map (cell_record_content (br_seal r \<noteq> None)) (br_cells r))),
       (''complete'', PBool (br_complete r)), (''complete_success'', PBool (br_complete r)),
       (''terminal_frozen'', PBool (br_terminal r)), (''block_digest'', PStr (br_digest r))]
      @ seal_fields (br_seal r))"

definition record_digest ::
  "(string \<Rightarrow> string) \<Rightarrow> (real \<Rightarrow> string) \<Rightarrow> block_record \<Rightarrow> freeze_error + string" where
  "record_digest sha fr r =
     (case canon_digest sha fr (record_content r) of Inl e \<Rightarrow> Inl (ScheduleFailed e) | Inr d \<Rightarrow> Inr d)"

definition digest_of_block ::
  "(string \<Rightarrow> string) \<Rightarrow> (real \<Rightarrow> string) \<Rightarrow> sched_block \<Rightarrow> freeze_error + string" where
  "digest_of_block sha fr b = (case block_digest sha fr b of Inl e \<Rightarrow> Inl (ScheduleFailed e) | Inr d \<Rightarrow> Inr d)"

definition freeze_record ::
  "(string \<Rightarrow> string) \<Rightarrow> (real \<Rightarrow> string) \<Rightarrow> cell_states \<Rightarrow> (string \<times> string) list \<Rightarrow> sched_block
     \<Rightarrow> freeze_error + block_record" where
  "freeze_record sha fr states outputs b =
     rbind (digest_of_block sha fr b) (\<lambda>digest.
     let r = \<lparr>br_id = bl_id b, br_task = bl_task b, br_replicate = bl_replicate b,
              br_cells = map (\<lambda>c. \<lparr>cr_cell = c, cr_state = map_of states (cell_key c),
                cr_output = (case map_of outputs (cell_key c) of None \<Rightarrow> [] | Some out \<Rightarrow> out), cr_epoch = []\<rparr>) (bl_cells b),
              br_complete = block_is_complete b states, br_terminal = block_is_terminal b states,
              br_digest = digest, br_seal = None, br_freeze = []\<rparr>
     in rbind (record_digest sha fr r) (\<lambda>d. Inr (r\<lparr>br_freeze := d\<rparr>)))"

subsection \<open>What the runner adds\<close>

text \<open>\<open>_block_cell_epochs\<close>: the epoch recorded for the work item of every cell, empty when there is none.\<close>

definition block_cell_epochs :: "(sched_cell \<Rightarrow> string) \<Rightarrow> ledger \<Rightarrow> sched_block \<Rightarrow> (string \<times> string) list" where
  "block_cell_epochs key_of L b =
     dict_of (map (\<lambda>c. (cell_key c,
       case find_row ce_work_key (key_of c) (epochs L) of None \<Rightarrow> [] | Some row \<Rightarrow> ce_engine_epoch row)) (bl_cells b))"

definition starts_with :: "string \<Rightarrow> string \<Rightarrow> bool" where
  "starts_with prefix s \<longleftrightarrow> take (length prefix) s = prefix"

definition paired_status :: "sched_block \<Rightarrow> (string \<times> string) list \<Rightarrow> bool \<times> string option" where
  "paired_status b by_cell =
     (let ep = filter (\<lambda>e. e \<noteq> []) (map snd by_cell) in
      if length by_cell \<noteq> length (bl_cells b) \<or> list_ex (\<lambda>e. e = []) (map snd by_cell)
      then (False, Some ''MISSING_ENGINE_EPOCH'')
      else if list_ex (starts_with ''SPANS:'') ep then (False, Some ''CELL_SPANS_ENGINE_EPOCHS'')
      else if length (dedup ep) > 1 then (False, Some ''SPANS_ENGINE_EPOCHS'')
      else (True, None))"

definition incident_kind :: "string option \<Rightarrow> string option" where
  "incident_kind why = (case why of None \<Rightarrow> None
     | Some w \<Rightarrow> Some (if w = ''MISSING_ENGINE_EPOCH'' then ''block_missing_engine_epoch''
                       else if w = ''CELL_SPANS_ENGINE_EPOCHS'' then ''cell_spans_engine_epochs''
                       else ''block_spans_engine_epochs''))"

definition seal_record ::
  "(string \<Rightarrow> string) \<Rightarrow> (real \<Rightarrow> string) \<Rightarrow> string \<Rightarrow> string \<Rightarrow> sched_block \<Rightarrow> (string \<times> string) list \<Rightarrow> block_record
     \<Rightarrow> freeze_error + block_record" where
  "seal_record sha fr binding protocol b by_cell r =
     (case paired_status b by_cell of (paired, why) \<Rightarrow>
       let r1 = r\<lparr>br_cells := map (\<lambda>c. c\<lparr>cr_epoch :=
                    (case map_of by_cell (cell_key (cr_cell c)) of None \<Rightarrow> [] | Some e \<Rightarrow> e)\<rparr>) (br_cells r),
                  br_seal := Some \<lparr>se_binding = binding, se_protocol = protocol,
                    se_epochs = sort (dedup (filter (\<lambda>e. e \<noteq> []) (map snd by_cell))), se_paired = paired, se_invalid = why\<rparr>\<rparr>
       in rbind (record_digest sha fr r1) (\<lambda>d. Inr (r1\<lparr>br_freeze := d\<rparr>)))"

subsection \<open>The campaign root\<close>

record root_block =
  rb_id :: string
  rb_digest :: string
  rb_freeze :: string
  rb_paired :: bool
  rb_invalid :: string
  rb_epochs :: "string list"
  rb_cells :: "cell_record list"

record campaign_root =
  ro_run :: string
  ro_phase :: string
  ro_split :: string
  ro_binding :: string
  ro_protocol :: string
  ro_schedule_sha :: string
  ro_schedule :: pyval
  ro_blocks :: "root_block list"
  ro_shard :: "(int \<times> string list) option"
  ro_freeze :: string

definition expected_ids :: "schedule_manifest \<Rightarrow> string list option \<Rightarrow> freeze_error + string list" where
  "expected_ids m owned =
     (let scheduled = map bl_id (sm_blocks m) in
      case owned of
        None \<Rightarrow> Inr scheduled
      | Some ids \<Rightarrow>
          if \<not> set ids \<subseteq> set scheduled \<or> \<not> distinct ids then Inl NotASubset
          else Inr (filter (\<lambda>i. i \<in> set ids) scheduled))"

definition add_record :: "block_record \<Rightarrow> (string \<times> block_record) list \<Rightarrow> freeze_error + (string \<times> block_record) list" where
  "add_record r d = (if br_id r = [] \<or> br_id r \<in> fst ` set d then Inl DuplicateRecord else Inr (dict_put (br_id r) r d))"

type_synonym quad = "string \<times> string \<times> string \<times> string"

definition cell_quad :: "sched_cell \<Rightarrow> quad" where
  "cell_quad c = (ce_block c, ce_task c, as_id (ce_arm c), ce_replicate c)"

text \<open>One cell of a frozen block against the cells the schedule has for the block.\<close>

definition check_cell ::
  "string \<Rightarrow> (quad \<times> pyval) list \<Rightarrow> cell_record \<Rightarrow> quad list \<times> string list \<Rightarrow> freeze_error + quad list \<times> string list" where
  "check_cell bid expected raw s =
     (case s of (keys, seen) \<Rightarrow>
       let key = cell_quad (cr_cell raw) in
       if map_of expected key = None \<or> map_of expected key \<noteq> Some (cell_content (cr_cell raw)) \<or> key \<in> set keys
       then Inl (UnscheduledCell bid)
       else if cr_epoch raw = [] then Inl (LacksEpoch bid)
       else if \<not> cell_is_terminal (cr_state raw) \<or> cr_output raw = [] then Inl (LacksOutcome bid)
       else Inr (keys @ [key], seen @ [cr_epoch raw]))"

definition check_block ::
  "(string \<Rightarrow> string) \<Rightarrow> (real \<Rightarrow> string) \<Rightarrow> sched_block \<Rightarrow> block_record \<Rightarrow> freeze_error + root_block" where
  "check_block sha fr b r =
     (let bid = bl_id b in
      rbind (guard_err (br_terminal r) (NotTerminal bid)) (\<lambda>_.
      rbind (digest_of_block sha fr b) (\<lambda>digest.
      rbind (guard_err (br_digest r = digest) (DigestDiffers bid)) (\<lambda>_.
      rbind (guard_err (length (br_freeze r) = 64) (NoFreezeSha bid)) (\<lambda>_.
      rbind (record_digest sha fr r) (\<lambda>actual.
      rbind (guard_err (actual = br_freeze r) (FreezeShaDiffers bid)) (\<lambda>_.
      let expected = dict_of (map (\<lambda>c. (cell_quad c, cell_content c)) (bl_cells b)) in
      rbind (guard_err (length (br_cells r) = length expected) (CellCountDiffers bid)) (\<lambda>_.
      rbind (rfold (check_cell bid expected) (br_cells r) ([], [])) (\<lambda>(keys, observed).
      let declared = (case br_seal r of None \<Rightarrow> [] | Some s \<Rightarrow> sort (se_epochs s));
          invalid = (case br_seal r of None \<Rightarrow> [] | Some s \<Rightarrow> (case se_invalid s of None \<Rightarrow> [] | Some why \<Rightarrow> why)) in
      rbind (guard_err (declared = sort (dedup observed)) (EpochIndexDiffers bid)) (\<lambda>_.
      case br_seal r of
        None \<Rightarrow> Inl (NoPairedStatus bid)
      | Some s \<Rightarrow>
          if se_paired s \<and> (length (dedup observed) \<noteq> 1 \<or> invalid \<noteq> []) then Inl (InconsistentPaired bid)
          else if \<not> se_paired s \<and> invalid = [] then Inl (NoInvalidReason bid)
          else Inr \<lparr>rb_id = bid, rb_digest = digest, rb_freeze = br_freeze r, rb_paired = se_paired s,
                    rb_invalid = invalid, rb_epochs = declared, rb_cells = br_cells r\<rparr>))))))))))"

definition root_block_fields :: "root_block \<Rightarrow> (string \<times> pyval) list" where
  "root_block_fields r =
     [(''block_id'', PStr (rb_id r)), (''block_digest'', PStr (rb_digest r)), (''freeze_sha256'', PStr (rb_freeze r)),
      (''terminal_frozen'', PBool True), (''valid_for_paired_estimate'', PBool (rb_paired r)),
      (''invalid_reason'', PStr (rb_invalid r)), (''engine_epochs'', PList (map PStr (rb_epochs r))),
      (''cells'', PList (map (cell_record_content True) (rb_cells r)))]"

definition root_block_content :: "root_block \<Rightarrow> pyval" where
  "root_block_content r = str_dict (root_block_fields r)"

definition root_content :: "campaign_root \<Rightarrow> pyval" where
  "root_content r = str_dict
     ([(''schema_version'', PStr ''frozen_campaign_root_v1''), (''run_id'', PStr (ro_run r)),
       (''phase_id'', PStr (ro_phase r)), (''split'', PStr (ro_split r)),
       (''execution_binding_sha256'', PStr (ro_binding r)), (''protocol_sha256'', PStr (ro_protocol r)),
       (''schedule_sha256'', PStr (ro_schedule_sha r)), (''schedule'', ro_schedule r),
       (''terminal_frozen'', PBool True), (''blocks'', PList (map root_block_content (ro_blocks r)))]
      @ (case ro_shard r of None \<Rightarrow> []
         | Some (shard, ids) \<Rightarrow> [(''shard_id'', PInt shard), (''owned_block_ids'', PList (map PStr ids))]))"

definition lift_schedule :: "schedule_error + 'a \<Rightarrow> freeze_error + 'a" where
  "lift_schedule x = (case x of Inl e \<Rightarrow> Inl (ScheduleFailed e) | Inr y \<Rightarrow> Inr y)"

definition freeze_root_record ::
  "(string \<Rightarrow> string) \<Rightarrow> (real \<Rightarrow> string) \<Rightarrow> schedule_manifest \<Rightarrow> string \<Rightarrow> string \<Rightarrow> string \<Rightarrow> block_record list
     \<Rightarrow> int option \<Rightarrow> string list option \<Rightarrow> freeze_error + campaign_root" where
  "freeze_root_record sha fr m run_id phase_id split records shard owned =
     rbind (guard_err (run_id \<noteq> [] \<and> phase_id \<noteq> []) NoRunOrPhase) (\<lambda>_.
     rbind (guard_err (split = sm_split m) SplitMismatch) (\<lambda>_.
     rbind (expected_ids m owned) (\<lambda>expected.
     rbind (rfold add_record records []) (\<lambda>by_id.
     rbind (guard_err (set (map fst by_id) = set expected \<and> length by_id = length expected)
        (PartialRoot (sort (filter (\<lambda>i. i \<notin> fst ` set by_id) (dedup expected)))
                     (sort (filter (\<lambda>i. i \<notin> set expected) (map fst by_id))))) (\<lambda>_.
     rbind (rmap (\<lambda>b. case map_of by_id (bl_id b) of None \<Rightarrow> Inr None
                     | Some r \<Rightarrow> rbind (check_block sha fr b r) (\<lambda>x. Inr (Some x))) (sm_blocks m)) (\<lambda>found.
     rbind (lift_schedule (schedule_digest sha fr m)) (\<lambda>digest.
     rbind (lift_schedule (schedule_to_json sha fr m)) (\<lambda>json.
     let r = \<lparr>ro_run = run_id, ro_phase = phase_id, ro_split = split, ro_binding = sm_binding m,
              ro_protocol = sm_protocol m, ro_schedule_sha = digest, ro_schedule = json,
              ro_blocks = List.map_filter id found,
              ro_shard = (case shard of None \<Rightarrow> None | Some k \<Rightarrow> Some (k, sort expected)), ro_freeze = []\<rparr>
     in rbind (lift_schedule (canon_digest sha fr (root_content r))) (\<lambda>d. Inr (r\<lparr>ro_freeze := d\<rparr>))))))))))"

subsection \<open>The directory\<close>

text \<open>
  A file is unreadable, or a JSON object with the digest it records (empty when it has none) and the rest of
  its content.
\<close>

datatype frozen_file = Garbage | Document string pyval

type_synonym frozen_dir = "(string \<times> frozen_file) list"

definition write_once ::
  "(string \<Rightarrow> string) \<Rightarrow> (real \<Rightarrow> string) \<Rightarrow> string \<Rightarrow> string \<Rightarrow> pyval \<Rightarrow> frozen_dir \<Rightarrow> freeze_error + frozen_dir" where
  "write_once sha fr name digest content d =
     (case map_of d name of
        None \<Rightarrow> Inr (d @ [(name, Document digest content)])
      | Some Garbage \<Rightarrow> Inl (Unreadable name)
      | Some (Document recorded existing) \<Rightarrow>
          rbind (lift_schedule (canon_digest sha fr existing)) (\<lambda>actual.
            if recorded \<noteq> actual then Inl (WasEdited name)
            else if recorded \<noteq> digest then Inl (WriteOnce name)
            else Inr d))"

definition root_filename :: string where
  "root_filename = ''FREEZE_ROOT.json''"

definition block_filename :: "string \<Rightarrow> string" where
  "block_filename bid = bid @ ''.json''"

record runner_config =
  rc_run :: string
  rc_shard :: "int option"
  rc_owned :: "string list option"
  rc_binding :: string
  rc_protocol :: string

definition owns :: "runner_config \<Rightarrow> sched_block \<Rightarrow> bool" where
  "owns cfg b \<longleftrightarrow> (case rc_owned cfg of None \<Rightarrow> True | Some ids \<Rightarrow> bl_id b \<in> set ids)"

text \<open>One owned block: nothing happens until it is terminal; then its sealed record is written once.\<close>

definition freeze_block ::
  "(string \<Rightarrow> string) \<Rightarrow> (real \<Rightarrow> string) \<Rightarrow> runner_config \<Rightarrow> (sched_cell \<Rightarrow> string) \<Rightarrow> cell_states \<Rightarrow> (string \<times> string) list
     \<Rightarrow> (nat \<Rightarrow> real) \<Rightarrow> sched_block \<Rightarrow> block_record list \<times> frozen_dir \<times> ledger
     \<Rightarrow> freeze_error + block_record list \<times> frozen_dir \<times> ledger" where
  "freeze_block sha fr cfg key_of states outputs clk b s =
     (case s of (frozen, d, L) \<Rightarrow>
       rbind (freeze_record sha fr states outputs b) (\<lambda>r.
       if \<not> br_terminal r then Inr (frozen, d, L)
       else
         (let by_cell = block_cell_epochs key_of L b;
              L' = (case incident_kind (snd (paired_status b by_cell)) of
                      None \<Rightarrow> L | Some kind \<Rightarrow> record_incident ''ERROR'' kind (bl_id b) None clk L)
          in rbind (seal_record sha fr (rc_binding cfg) (rc_protocol cfg) b by_cell r) (\<lambda>r.
             rbind (write_once sha fr (block_filename (bl_id b)) (br_freeze r) (record_content r) d) (\<lambda>d.
               Inr (frozen @ [r], d, L'))))))"

definition freeze_blocks ::
  "(string \<Rightarrow> string) \<Rightarrow> (real \<Rightarrow> string) \<Rightarrow> runner_config \<Rightarrow> (sched_cell \<Rightarrow> string) \<Rightarrow> cell_states \<Rightarrow> (string \<times> string) list
     \<Rightarrow> (nat \<Rightarrow> real) \<Rightarrow> schedule_manifest \<Rightarrow> string \<Rightarrow> string \<Rightarrow> frozen_dir \<Rightarrow> ledger
     \<Rightarrow> freeze_error + block_record list \<times> frozen_dir \<times> ledger" where
  "freeze_blocks sha fr cfg key_of states outputs clk m phase_id split d L =
     rbind (guard_err (sm_binding m = rc_binding cfg \<and> sm_protocol m = rc_protocol cfg) IdentityDiffers) (\<lambda>_.
     let mine = filter (owns cfg) (sm_blocks m) in
     rbind (rfold (freeze_block sha fr cfg key_of states outputs clk) mine ([], d, L)) (\<lambda>(frozen, d, L).
     if length frozen = length mine then
       rbind (freeze_root_record sha fr m (rc_run cfg) phase_id split frozen (rc_shard cfg)
                (if rc_shard cfg = None then None else Some (map bl_id mine))) (\<lambda>root.
       let names = map (block_filename \<circ> bl_id) mine in
       rbind (guard_err (set (map fst d) \<subseteq> insert root_filename (set names) \<and> set names \<subseteq> set (map fst d)) DirectoryDiffers) (\<lambda>_.
       rbind (write_once sha fr root_filename (ro_freeze root) (root_content root) d) (\<lambda>d.
         Inr (frozen, d, L))))
     else if root_filename \<in> fst ` set d then Inl FalseRoot
     else Inr (frozen, d, L)))"

end
