(* ===== verification/ScheduleProps.thy ===== *)
theory ScheduleProps
  imports Schedule
begin

text \<open>
  Properties of the schedule. The reversal pairing of a design is a locale: an involution without fixed
  points on the row numbers, whose pair types cover every row exactly once. The Williams squares are its
  instance. From it follow that the plan never fails, that a second seed gets the exact reversal, and that the
  rows of the design are used equally often up to one.
\<close>

subsection \<open>Reversal pairs\<close>

locale reversal_pairing =
  fixes reversal :: "nat \<Rightarrow> nat" and rows_n :: nat
  assumes reversal_less: "i < rows_n \<Longrightarrow> reversal i < rows_n"
    and reversal_twice: "i < rows_n \<Longrightarrow> reversal (reversal i) = i"
    and reversal_moves: "i < rows_n \<Longrightarrow> reversal i \<noteq> i"
begin

lemma pair_types_mem: "(l, r) \<in> set (pair_types_of reversal rows_n) \<longleftrightarrow> l < r \<and> r < rows_n \<and> reversal l = r"
proof -
  have "(l, r) \<in> set (pair_types_of reversal rows_n)
      \<longleftrightarrow> (\<exists>i < rows_n. l = min i (reversal i) \<and> r = max i (reversal i))"
    by (auto simp: pair_types_of_def)
  also have "\<dots> \<longleftrightarrow> l < r \<and> r < rows_n \<and> reversal l = r"
  proof
    assume "\<exists>i < rows_n. l = min i (reversal i) \<and> r = max i (reversal i)"
    then obtain i where i: "i < rows_n" "l = min i (reversal i)" "r = max i (reversal i)" by blast
    then show "l < r \<and> r < rows_n \<and> reversal l = r"
      using reversal_less [OF i(1)] reversal_twice [OF i(1)] reversal_moves [OF i(1)]
      by (cases "i < reversal i") auto
  next
    assume "l < r \<and> r < rows_n \<and> reversal l = r"
    then show "\<exists>i < rows_n. l = min i (reversal i) \<and> r = max i (reversal i)" by (intro exI [of _ l]) auto
  qed
  finally show ?thesis .
qed

lemma pair_types_distinct: "distinct (pair_types_of reversal rows_n)"
  by (simp add: pair_types_of_def)

lemma pair_meets_once:
  assumes "(l, r) \<in> set (pair_types_of reversal rows_n)" "(l', r') \<in> set (pair_types_of reversal rows_n)"
    and "{l, r} \<inter> {l', r'} \<noteq> {}"
  shows "(l, r) = (l', r')"
proof -
  have a: "l < r" "r < rows_n" "reversal l = r" "reversal r = l"
    using assms(1) reversal_twice [of l] by (auto simp: pair_types_mem)
  have b: "l' < r'" "r' < rows_n" "reversal l' = r'" "reversal r' = l'"
    using assms(2) reversal_twice [of l'] by (auto simp: pair_types_mem)
  have "l = l' \<or> l = r' \<or> r = l' \<or> r = r'" using assms(3) by auto
  then have "l = l'" using a b by (metis less_asym)
  then show ?thesis using a b by simp
qed

lemma forced_distinct:
  assumes "distinct ps" and "set ps \<subseteq> set (pair_types_of reversal rows_n)"
  shows "distinct (forced_rows ps) \<and> set (forced_rows ps) \<subseteq> {..<rows_n} \<and> length (forced_rows ps) = 2 * length ps"
  using assms
proof (induction ps)
  case (Cons p ps)
  obtain l r where p: "p = (l, r)" by (cases p)
  have mem: "(l, r) \<in> set (pair_types_of reversal rows_n)" using Cons.prems p by simp
  have "x \<notin> set (forced_rows ps)" if x: "x \<in> {l, r}" for x
  proof
    assume "x \<in> set (forced_rows ps)"
    then obtain l' r' where q: "(l', r') \<in> set ps" "x \<in> {l', r'}" by (auto simp: forced_rows_def)
    then have "(l, r) = (l', r')" using pair_meets_once [OF mem, of l' r'] x Cons.prems(2) by auto
    with q Cons.prems(1) p show False by simp
  qed
  then have "l \<notin> set (forced_rows ps)" "r \<notin> set (forced_rows ps)" by blast+
  moreover have "l < r" "r < rows_n" using mem by (auto simp: pair_types_mem)
  moreover have "forced_rows (p # ps) = l # r # forced_rows ps" by (simp add: forced_rows_def p)
  moreover have "distinct (forced_rows ps) \<and> set (forced_rows ps) \<subseteq> {..<rows_n} \<and> length (forced_rows ps) = 2 * length ps"
    using Cons by simp
  ultimately show ?case by simp
qed (simp add: forced_rows_def)

lemma forced_all: "set (forced_rows (pair_types_of reversal rows_n)) = {..<rows_n}"
proof (intro equalityI subsetI)
  fix i assume i: "i \<in> {..<rows_n}"
  then have "(min i (reversal i), max i (reversal i)) \<in> set (pair_types_of reversal rows_n)"
    by (auto simp: pair_types_of_def)
  moreover have "i \<in> {min i (reversal i), max i (reversal i)}" by (auto simp: min_def max_def)
  ultimately show "i \<in> set (forced_rows (pair_types_of reversal rows_n))" by (force simp: forced_rows_def)
qed (use forced_distinct [OF pair_types_distinct] in auto)

lemma pair_types_half: "2 * length (pair_types_of reversal rows_n) = rows_n"
proof -
  have "length (forced_rows (pair_types_of reversal rows_n)) = card {..<rows_n}"
    using forced_distinct [OF pair_types_distinct] forced_all distinct_card by (metis order_refl)
  then show ?thesis using forced_distinct [OF pair_types_distinct] by simp
qed

end

subsection \<open>The Williams squares are closed under reversal\<close>

definition design :: "nat \<Rightarrow> int list list" where
  "design n = (case williams_square (int n) of Inl e \<Rightarrow> [] | Inr rows \<Rightarrow> rows)"

definition design_reversal :: "nat \<Rightarrow> nat \<Rightarrow> nat" where
  "design_reversal n i = nat (reversal_index (design n) i)"

lemma design_is:
  assumes "2 \<le> n"
  shows "williams_square (int n) = Inr (design n)"
    and "design n = (let base = map (williams_row (int n)) [0..<n] in if odd n then base @ map rev base else base)"
  using assms by (auto simp: design_def williams_square_def williams_rows_is Let_def)

lemma design_small: "n < 2 \<Longrightarrow> design n = []"
  by (simp add: design_def williams_square_def)

lemma length_design: "2 \<le> n \<Longrightarrow> length (design n) = (if odd n then 2 * n else n)"
  by (simp add: design_is(2) Let_def)

lemma williams_row_nth: "p < n \<Longrightarrow> williams_row (int n) i ! p = (first_at (int n) p + int i) mod int n"
  by (simp add: williams_row_def)

lemma first_at_mirror:
  assumes "even n" and "p < n" and "2 \<le> n"
  shows "(first_at (int n) (n - 1 - p) - first_at (int n) p) mod int n = int (n div 2) mod int n"
proof -
  obtain h where n: "n = 2 * h" using assms(1) by blast
  show ?thesis
  proof (cases "even p")
    case True
    then obtain m where p: "p = 2 * m" by blast
    have "odd (n - 1 - p)" using assms n p by auto
    moreover have "n - 1 - p + 1 = 2 * (h - m)" using assms n p by linarith
    ultimately have "first_at (int n) (n - 1 - p) = int (h - m)" by (simp add: first_at_def)
    moreover have "m < h" using assms n p by simp
    ultimately have "first_at (int n) (n - 1 - p) - first_at (int n) p = int h - (if p = 0 then 0 else int n)"
      using p by (simp add: first_at_def)
    then show ?thesis using n unfolding mod_eq_dvd_iff by (simp split: if_splits)
  next
    case False
    then obtain m where p: "p = 2 * m + 1" by (auto elim: oddE)
    have m: "m < h" using assms n p by simp
    have d: "n - 1 - p = 2 * (h - m - 1)" using n p m by linarith
    have "first_at (int n) p = int m + 1" by (simp add: p first_at_def)
    moreover have "first_at (int n) (n - 1 - p) = (if h - m - 1 = 0 then 0 else int n - int (h - m - 1))"
      unfolding d by (simp add: first_at_def)
    ultimately have "first_at (int n) (n - 1 - p) - first_at (int n) p = int h - (if h - m - 1 = 0 then int n else 0)"
      using n m by auto
    then show ?thesis using n unfolding mod_eq_dvd_iff by (simp split: if_splits)
  qed
qed

lemma rev_williams_row_even:
  assumes "even n" and "2 \<le> n"
  shows "rev (williams_row (int n) i) = williams_row (int n) ((i + n div 2) mod n)"
proof (rule nth_equalityI)
  fix p assume "p < length (rev (williams_row (int n) i))"
  then have p: "p < n" by (simp add: williams_row_def)
  have "(first_at (int n) (n - 1 - p) + int i) mod int n
      = (first_at (int n) (n - 1 - p) - first_at (int n) p + (first_at (int n) p + int i)) mod int n" by simp
  also have "\<dots> = (int (n div 2) + (first_at (int n) p + int i)) mod int n"
    by (metis first_at_mirror [OF assms(1) p assms(2)] mod_add_left_eq)
  also have "\<dots> = (first_at (int n) p + int ((i + n div 2) mod n)) mod int n"
    by (simp add: zmod_int mod_add_right_eq algebra_simps)
  finally show "rev (williams_row (int n) i) ! p = williams_row (int n) ((i + n div 2) mod n) ! p"
    using p by (simp add: rev_nth williams_row_def)
qed (simp add: williams_row_def)

lemma williams_row_inj:
  assumes "williams_row (int n) i = williams_row (int n) j" and "i < n" and "j < n"
  shows "i = j"
proof -
  have f0: "first_at (int n) 0 = 0" by (simp add: first_at_def)
  have "williams_row (int n) i ! 0 = int i" "williams_row (int n) j ! 0 = int j"
    using assms(2,3) f0 by (simp_all add: williams_row_nth)
  then show ?thesis using assms(1) by (metis of_nat_eq_iff)
qed

lemma rev_williams_row_odd:
  assumes "odd n" and "2 \<le> n"
  shows "rev (williams_row (int n) i) \<noteq> williams_row (int n) j"
proof
  let ?f = "first_at (int n) (n - 1)"
  assume eq: "rev (williams_row (int n) i) = williams_row (int n) j"
  have f0: "first_at (int n) 0 = 0" by (simp add: first_at_def)
  have "rev (williams_row (int n) i) ! 0 = (?f + int i) mod int n"
    "rev (williams_row (int n) i) ! (n - 1) = int i mod int n"
    using assms(2) f0 by (simp_all add: rev_nth williams_row_def)
  moreover have "williams_row (int n) j ! 0 = int j mod int n" "williams_row (int n) j ! (n - 1) = (?f + int j) mod int n"
    using assms(2) f0 by (simp_all add: williams_row_def)
  ultimately have "(?f + int i) mod int n = int j mod int n" "(?f + int j) mod int n = int i mod int n"
    unfolding eq by simp_all
  then have "int n dvd (?f + int i - int j)" "int n dvd (?f + int j - int i)" by (auto simp: mod_eq_dvd_iff)
  then have "int n dvd (?f + int i - int j) + (?f + int j - int i)" by (rule dvd_add)
  then have "int n dvd 2 * ?f" by simp
  moreover have "coprime (int n) 2" using assms(1) by simp
  ultimately have "int n dvd ?f" using coprime_dvd_mult_right_iff by blast
  moreover have "0 \<le> ?f" "?f < int n" using first_at_range [of "int n" "n - 1"] assms(2) by auto
  ultimately have "?f = 0" using zdvd_imp_le by fastforce
  then show False using first_at_inj [of 0 "n - 1" "int n"] assms(2) by (simp add: first_at_def)
qed

lemma design_distinct: "distinct (design n)"
proof (cases "n < 2")
  case False
  then have n: "2 \<le> n" by simp
  have base: "distinct (map (williams_row (int n)) [0..<n])"
    by (auto simp: distinct_map intro!: inj_onI dest: williams_row_inj)
  show ?thesis
  proof (cases "odd n")
    case True
    have "set (map (williams_row (int n)) [0..<n]) \<inter> set (map rev (map (williams_row (int n)) [0..<n])) = {}"
    proof (rule equals0I)
      fix x assume "x \<in> set (map (williams_row (int n)) [0..<n]) \<inter> set (map rev (map (williams_row (int n)) [0..<n]))"
      then obtain j y where "x = williams_row (int n) j" "x = rev y" "y \<in> set (map (williams_row (int n)) [0..<n])"
        by fastforce
      moreover from this(3) obtain i where "y = williams_row (int n) i" by auto
      ultimately show False using rev_williams_row_odd [OF True n, of i j] by simp
    qed
    then show ?thesis using base True by (simp add: design_is(2) [OF n] Let_def distinct_map inj_on_def)
  qed (use base in \<open>simp add: design_is(2) [OF n] Let_def\<close>)
qed (simp add: design_small)

lemma design_row:
  assumes "row \<in> set (design n)"
  shows "distinct row" "set row = {0..<int n}" "length row = n" "2 \<le> n"
proof -
  show n: "2 \<le> n" using assms design_small [of n] by (cases "n < 2") auto
  have "\<exists>i < n. row = williams_row (int n) i \<or> row = rev (williams_row (int n) i)"
    using assms by (auto simp: design_is(2) [OF n] Let_def split: if_splits)
  then obtain i where i: "i < n" "row = williams_row (int n) i \<or> row = rev (williams_row (int n) i)" by blast
  have "distinct (williams_row (int n) i)" "set (williams_row (int n) i) = {0..<int n}"
    "length (williams_row (int n) i) = n"
    using williams_row_facts [of "int n" i] n i(1) by (simp_all add: williams_row_def)
  with i(2) show "distinct row" "set row = {0..<int n}" "length row = n" by (elim disjE; simp)+
qed

lemma design_reversed:
  assumes "i < length (design n)"
  shows "\<exists>j < length (design n). design n ! j = rev (design n ! i)"
    and "odd n \<Longrightarrow> i < n \<Longrightarrow> design n ! (n + i) = rev (design n ! i)"
proof -
  have n: "2 \<le> n" using assms design_small [of n] by (cases "n < 2") auto
  let ?base = "map (williams_row (int n)) [0..<n]"
  show odd_rev: "design n ! (n + i) = rev (design n ! i)" if "odd n" "i < n" for i
    using that by (simp add: design_is(2) [OF n] nth_append)
  show "\<exists>j < length (design n). design n ! j = rev (design n ! i)"
  proof (cases "odd n")
    case True
    then have len: "length (design n) = 2 * n" by (simp add: length_design [OF n])
    show ?thesis
    proof (cases "i < n")
      case True
      then show ?thesis using odd_rev [OF \<open>odd n\<close> True] len by (intro exI [of _ "n + i"]) simp
    next
      case False
      then have "design n ! i = rev (design n ! (i - n))" using odd_rev [OF \<open>odd n\<close>, of "i - n"] assms len by simp
      then show ?thesis using assms len False by (intro exI [of _ "i - n"]) simp
    qed
  next
    case False
    then have "design n = ?base" by (simp add: design_is(2) [OF n])
    moreover have "i < n" using assms False by (simp add: length_design [OF n])
    ultimately show ?thesis using rev_williams_row_even [OF _ n, of i] False n
      by (intro exI [of _ "(i + n div 2) mod n"]) simp
  qed
qed

lemma row_index_design:
  "length (row_index (design n)) = length (design n)"
  "i < length (design n) \<Longrightarrow> map_of (row_index (design n)) (design n ! i) = Some i"
proof -
  have idx: "row_index (design n) = List.zip (design n) [0..<length (design n)]"
    unfolding row_index_def by (rule dict_of_distinct) (simp add: design_distinct)
  then show "length (row_index (design n)) = length (design n)" by simp
  show "i < length (design n) \<Longrightarrow> map_of (row_index (design n)) (design n ! i) = Some i"
    unfolding idx using map_of_zip_nth [of "design n" "[0..<length (design n)]" i] design_distinct by simp
qed

lemma reversal_index_design:
  assumes "i < length (design n)"
  shows "0 \<le> reversal_index (design n) i" "design_reversal n i < length (design n)"
    "design n ! design_reversal n i = rev (design n ! i)"
proof -
  obtain j where j: "j < length (design n)" "design n ! j = rev (design n ! i)"
    using design_reversed(1) [OF assms] by blast
  then have "reversal_index (design n) i = int j"
    using row_index_design(2) [OF j(1)] by (simp add: reversal_index_def)
  then show "0 \<le> reversal_index (design n) i" "design_reversal n i < length (design n)"
    "design n ! design_reversal n i = rev (design n ! i)"
    using j by (simp_all add: design_reversal_def)
qed

interpretation williams: reversal_pairing "design_reversal n" "length (design n)" for n
proof
  fix i assume i: "i < length (design n)"
  note r = reversal_index_design [OF i]
  show "design_reversal n i < length (design n)" by (rule r(2))
  show "design_reversal n (design_reversal n i) = i"
    using reversal_index_design [OF r(2)] r(3) i design_distinct by (simp add: nth_eq_iff_index_eq)
  show "design_reversal n i \<noteq> i"
  proof
    assume "design_reversal n i = i"
    then have pal: "rev (design n ! i) = design n ! i" using r(3) by simp
    have row: "distinct (design n ! i)" "length (design n ! i) = n" "2 \<le> n"
      using design_row [OF nth_mem [OF i]] by auto
    have "design n ! i ! 0 = design n ! i ! (n - 1)" using row pal rev_nth [of 0 "design n ! i"] by simp
    then show False using row by (simp add: nth_eq_iff_index_eq)
  qed
qed

subsection \<open>Filling the incomplete cycle\<close>

lemma fill_rows_enough:
  assumes "distinct xs" and "k \<le> card (set is - set xs)"
  shows "\<exists>ys. fill_rows is k xs = (xs @ ys, 0) \<and> distinct (xs @ ys) \<and> length ys = k \<and> set ys \<subseteq> set is"
  using assms
proof (induction "is" k xs rule: fill_rows.induct)
  case (2 i js k xs)
  consider "k = 0" | "k > 0" "i \<in> set xs" | "k > 0" "i \<notin> set xs" by blast
  then show ?case
  proof cases
    case 2
    have "set (i # js) - set xs = set js - set xs" using \<open>i \<in> set xs\<close> by auto
    then obtain ys where "fill_rows js k xs = (xs @ ys, 0) \<and> distinct (xs @ ys) \<and> length ys = k \<and> set ys \<subseteq> set js"
      using "2.IH"(1) "2.prems" \<open>k > 0\<close> \<open>i \<in> set xs\<close> by auto
    then show ?thesis using 2 by auto
  next
    case 3
    have "set (i # js) - set xs = insert i (set js - set (xs @ [i]))" using 3 by auto
    then have "card (set (i # js) - set xs) = Suc (card (set js - set (xs @ [i])))" by simp
    then have "k - 1 \<le> card (set js - set (xs @ [i]))" using "2.prems"(2) by simp
    then obtain ys where "fill_rows js (k - 1) (xs @ [i]) = ((xs @ [i]) @ ys, 0)" "distinct ((xs @ [i]) @ ys)"
        "length ys = k - 1" "set ys \<subseteq> set js"
      using "2.IH"(2) "2.prems"(1) 3 by auto
    then show ?thesis using 3 by (intro exI [of _ "i # ys"]) auto
  qed (use "2.prems" in simp)
qed simp

lemma window_rows_facts:
  assumes "wanted \<le> n" and "direction = 1 \<or> direction = - 1"
  shows "distinct (window_rows start direction n wanted)" "set (window_rows start direction n wanted) \<subseteq> {..<n}"
proof -
  have "inj_on (\<lambda>k. nat ((start + direction * int k) mod int n)) {0..<wanted}"
  proof (rule inj_onI)
    fix k j assume kj: "k \<in> {0..<wanted}" "j \<in> {0..<wanted}"
      and eq: "nat ((start + direction * int k) mod int n) = nat ((start + direction * int j) mod int n)"
    then have n: "0 < int n" using assms(1) by simp
    have "(start + direction * int k) mod int n = (start + direction * int j) mod int n"
      using eq n by (metis Euclidean_Rings.pos_mod_sign nat_eq_iff2 nat_0_le)
    then have "int n dvd direction * (int k - int j)" by (simp add: mod_eq_dvd_iff algebra_simps)
    then have "int n dvd int k - int j" using assms(2) by (auto simp: dvd_diff_commute)
    then have "int k mod int n = int j mod int n" by (simp add: mod_eq_dvd_iff)
    then show "k = j" using kj assms(1) by simp
  qed
  then show "distinct (window_rows start direction n wanted)" by (simp add: window_rows_def distinct_map)
  show "set (window_rows start direction n wanted) \<subseteq> {..<n}"
    using assms(1) by (auto simp: window_rows_def nat_less_iff)
qed

lemma design_reversal_inj: "inj_on (design_reversal n) {..<length (design n)}"
  by (metis inj_onI lessThan_iff williams.reversal_twice)

lemma preferred_rows_facts:
  assumes "2 \<le> n" and "wanted \<le> length (design n) - length forced" and "set forced \<subseteq> {..<length (design n)}"
  shows "set (preferred_rows sha b s (design_reversal n) n forced wanted) \<subseteq> {..<length (design n)}"
    and "wanted \<le> card (set (preferred_rows sha b s (design_reversal n) n forced wanted) - set forced)"
proof -
  let ?N = "length (design n)" and ?p = "preferred_rows sha b s (design_reversal n) n forced wanted"
  have nN: "n \<le> ?N" using length_design [OF assms(1)] by simp
  have "set ?p \<subseteq> {..<?N} \<and> wanted \<le> card (set ?p - set forced)"
  proof (cases "safe_window n forced wanted")
    case True
    then have w: "wanted \<le> n" "forced = []" by (auto simp: safe_window_def)
    define direction :: int where
      "direction = (if seed_for sha b s [''williams_remainder_direction''] mod 2 = 0 then 1 else - 1)"
    define window where
      "window = window_rows (seed_for sha b s [''williams_remainder_order''] mod int n) direction n wanted"
    have "direction = 1 \<or> direction = - 1" by (simp add: direction_def)
    note window = window_rows_facts [OF w(1) this, where start = "seed_for sha b s [''williams_remainder_order''] mod int n",
        folded window_def]
    have len: "length window = wanted" by (simp add: window_def window_rows_def)
    have sub: "set window \<subseteq> {..<?N}" using window(2) nN by auto
    have "distinct (map (design_reversal n) window)"
      using window(1) inj_on_subset [OF design_reversal_inj sub] by (simp add: distinct_map)
    moreover have "set (map (design_reversal n) window) \<subseteq> {..<?N}" using sub williams.reversal_less by auto
    ultimately have ok: "distinct xs \<and> set xs \<subseteq> {..<?N} \<and> length xs = wanted"
      if "xs = window \<or> xs = map (design_reversal n) window" for xs
      using that window(1) sub len by (elim disjE) simp_all
    have "?p = window \<or> ?p = map (design_reversal n) window"
      unfolding preferred_rows_def Let_def if_P [OF True] window_def direction_def by simp
    from ok [OF this] w(2) show ?thesis by (simp add: distinct_card)
  next
    case False
    define base where "base = seeded_permutation sha [0..<n] (seed_for sha b s [''williams_remainder_order''])"
    have base: "set base = {..<n}"
      unfolding base_def mset_eq_setD [OF seeded_permutation_mset] by auto
    have p: "?p = base @ map (design_reversal n) base"
      unfolding preferred_rows_def Let_def if_not_P [OF False] base_def by simp
    have sub: "set ?p \<subseteq> {..<?N}" unfolding p using base nN williams.reversal_less by auto
    have "{..<?N} \<subseteq> set ?p"
    proof (cases "odd n")
      case True
      have rv: "design_reversal n i = n + i" if "i < n" for i
      proof -
        have "design n ! (n + i) = design n ! design_reversal n i"
          using design_reversed(2) [of i n] reversal_index_design(3) [of i n] that nN True by simp
        then show ?thesis using design_distinct [of n] that nN reversal_index_design(2) [of i n] length_design [OF assms(1)] True
          by (simp add: nth_eq_iff_index_eq)
      qed
      have "i \<in> set ?p" if "i < 2 * n" for i
      proof (cases "i < n")
        case False
        then have "i = design_reversal n (i - n)" "i - n < n" using rv [of "i - n"] that by auto
        then show ?thesis unfolding p using base by force
      qed (use base in \<open>simp add: p\<close>)
      then show ?thesis using True by (auto simp: length_design [OF assms(1)])
    qed (use base in \<open>auto simp: p length_design [OF assms(1)]\<close>)
    with sub have all: "set ?p = {..<?N}" by blast
    have "card (set forced) \<le> length forced" by (rule card_length)
    then have "wanted \<le> card ({..<?N} - set forced)"
      using assms(2) card_Diff_subset [OF _ assms(3)] by simp
    with all show ?thesis by simp
  qed
  then show "set ?p \<subseteq> {..<?N}" "wanted \<le> card (set ?p - set forced)" by blast+
qed

lemma extra_rows_facts:
  assumes "2 \<le> n" and "distinct forced" and "set forced \<subseteq> {..<length (design n)}"
    and "length forced \<le> remainder" and "remainder < length (design n)"
  shows "\<exists>ys. extra_rows sha b s (design_reversal n) n (length (design n)) forced remainder = forced @ ys
    \<and> distinct (forced @ ys) \<and> length (forced @ ys) = remainder \<and> set (forced @ ys) \<subseteq> {..<length (design n)}"
proof -
  let ?w = "remainder - length forced"
  let ?p = "preferred_rows sha b s (design_reversal n) n forced ?w"
  have "?w \<le> length (design n) - length forced" using assms(5) by simp
  note pref = preferred_rows_facts [OF assms(1) this assms(3), of sha b s]
  obtain ys where ys: "fill_rows ?p ?w forced = (forced @ ys, 0)" "distinct (forced @ ys)" "length ys = ?w" "set ys \<subseteq> set ?p"
    using fill_rows_enough [OF assms(2) pref(2)] by blast
  then have "set (forced @ ys) \<subseteq> {..<length (design n)}" using pref(1) assms(3) by auto
  with ys assms(4) show ?thesis by (intro exI [of _ ys]) (simp add: extra_rows_def Let_def)
qed

subsection \<open>The pool of rows and its reversal pairs\<close>

lemma count_list_upt: "count_list [0..<m] i = of_bool (i < m)"
  by (induction m) auto

lemma count_list_replicate: "count_list (concat (replicate c xs)) i = c * count_list xs i"
  by (induction c) auto

lemma count_list_distinct: "distinct xs \<Longrightarrow> count_list xs i = of_bool (i \<in> set xs)"
  by (induction xs) auto

lemma forced_rows_append [simp]: "forced_rows (xs @ ys) = forced_rows xs @ forced_rows ys"
  by (simp add: forced_rows_def)

lemma forced_rows_Cons [simp]: "forced_rows ((l, r) # xs) = l # r # forced_rows xs"
  by (simp add: forced_rows_def)

lemma forced_rows_Nil [simp]: "forced_rows [] = []"
  by (simp add: forced_rows_def)

lemma length_forced_rows: "length (forced_rows xs) = 2 * length xs"
  by (induction xs) (auto simp: forced_rows_def)

lemma count_forced_replicate: "count_list (forced_rows (replicate m (l, r))) i = m * (of_bool (l = i) + of_bool (r = i))"
  by (induction m) auto

lemma mset_forced_rows: "mset xs = mset ys \<Longrightarrow> mset (forced_rows xs) = mset (forced_rows ys)"
proof -
  have "mset (forced_rows zs) = (\<Sum>p \<in># mset zs. {#fst p, snd p#})" for zs
    by (induction zs) (auto simp: forced_rows_def)
  then show "mset xs = mset ys \<Longrightarrow> mset (forced_rows xs) = mset (forced_rows ys)" by simp
qed

lemma slots_within_pool:
  assumes "distinct (forced_rows ps)" and "\<forall>(l, r) \<in> set ps. int (f (l, r)) \<le> c l \<and> int (f (l, r)) \<le> c r" and "\<forall>i. 0 \<le> c i"
  shows "int (count_list (forced_rows (concat (map (\<lambda>p. replicate (f p) p) ps))) i) \<le> c i"
  using assms(1,2)
proof (induction ps)
  case (Cons p ps)
  obtain l r where p: "p = (l, r)" by (cases p)
  have lr: "l \<noteq> r" "l \<notin> set (forced_rows ps)" "r \<notin> set (forced_rows ps)" using Cons.prems(1) p by auto
  let ?rest = "forced_rows (concat (map (\<lambda>p. replicate (f p) p) ps))"
  have "set ?rest \<subseteq> set (forced_rows ps)" by (force simp: forced_rows_def)
  then have "count_list ?rest l = 0" "count_list ?rest r = 0" using lr by (auto simp: count_list_0_iff)
  moreover have "int (count_list ?rest i) \<le> c i" using Cons p by simp
  moreover have "int (f (l, r)) \<le> c l" "int (f (l, r)) \<le> c r" using Cons.prems(2) p by auto
  ultimately show ?case using lr(1) by (auto simp: p count_forced_replicate)
qed (use assms(3) in simp)

text \<open>The pool after the guards: full cycles of every row and a set of extra rows that holds the forced pairs.\<close>

definition pool_of :: "nat \<Rightarrow> nat \<Rightarrow> nat list \<Rightarrow> nat list" where
  "pool_of rows_n cycles extra = concat (replicate cycles [0..<rows_n]) @ extra"

lemma count_pool:
  assumes "distinct extra" and "set extra \<subseteq> {..<rows_n}"
  shows "count_list (pool_of rows_n cycles extra) i = (if i < rows_n then cycles + of_bool (i \<in> set extra) else 0)"
  using assms by (auto simp: pool_of_def count_list_replicate count_list_upt count_list_distinct)

definition slot_count :: "(nat \<Rightarrow> int) \<Rightarrow> nat \<times> nat \<Rightarrow> nat" where
  "slot_count available p = nat (min (available (fst p)) (available (snd p)))"

lemma pair_slots_mset:
  "mset (pair_slots_of sha b s pairs available) = mset (concat (map (\<lambda>p. replicate (slot_count available p) p) pairs))"
  unfolding pair_slots_of_def seeded_permutation_mset slot_count_def
  by (rule arg_cong [where f = "\<lambda>g. mset (concat (map g pairs))"]) auto

lemma slots_enough:
  assumes "distinct pairs" and "\<forall>p \<in> set pairs. cycles + of_bool (p \<in> F) \<le> slot_count available p" and "F \<subseteq> set pairs"
  shows "cycles * length pairs + card F \<le> length (concat (map (\<lambda>p. replicate (slot_count available p) p) pairs))"
proof -
  have "length (concat (map (\<lambda>p. replicate (slot_count available p) p) pairs)) = sum (slot_count available) (set pairs)"
    using assms(1) by (simp add: length_concat comp_def sum_list_distinct_conv_sum_set)
  also have "\<dots> \<ge> (\<Sum>p \<in> set pairs. cycles + of_bool (p \<in> F))" using assms(2) by (intro sum_mono) auto
  also have "(\<Sum>p \<in> set pairs. cycles + of_bool (p \<in> F)) = cycles * length pairs + card F"
  proof -
    have "set pairs \<inter> F = F" using assms(3) by blast
    then show ?thesis using assms(1) by (simp add: sum.distrib distinct_card flip: sum.inter_restrict)
  qed
  finally show ?thesis .
qed

subsection \<open>Handing out the rows\<close>

lemma dict_put_new: "k \<notin> fst ` set d \<Longrightarrow> dict_put k v d = d @ [(k, v)]"
  by (induction k v d rule: dict_put.induct) auto

text \<open>Where the plan of a task with a second seed comes from: a slot and its orientation.\<close>

definition oriented :: "(string \<Rightarrow> string) \<Rightarrow> string \<Rightarrow> string \<Rightarrow> string \<times> nat \<times> nat \<Rightarrow> nat \<times> nat" where
  "oriented sha b s slot = (case slot of (task, l, r) \<Rightarrow>
     if seed_for sha b s [''williams_pair_orientation'', task] mod 2 = 0 then (l, r) else (r, l))"

definition pair_entries :: "(string \<Rightarrow> string) \<Rightarrow> string \<Rightarrow> string \<Rightarrow> int list list \<Rightarrow> (string \<times> nat \<times> nat) list \<Rightarrow> row_plan" where
  "pair_entries sha b s rows slots = concat (map (\<lambda>slot. case oriented sha b s slot of (p, q) \<Rightarrow>
     [((fst slot, 0), rows ! p), ((fst slot, 1), rows ! q)]) slots)"

lemma assign_pairs_run:
  assumes "distinct (map fst slots)" and "\<forall>t \<in> fst ` set slots. \<forall>k. (t, k) \<notin> fst ` set assigned"
    and "\<forall>(t, l, r) \<in> set slots. rows ! r = rev (rows ! l) \<and> l \<noteq> r"
  shows "\<exists>available'. rfold (assign_pair sha b s rows) slots (assigned, available) =
      Inr (assigned @ pair_entries sha b s rows slots, available')
    \<and> (\<forall>i. available' i = available i - int (count_list (forced_rows (map snd slots)) i))"
  using assms
proof (induction slots arbitrary: assigned available)
  case (Cons slot slots)
  obtain t l r where slot: "slot = (t, l, r)" by (cases slot)
  obtain p q where pq: "oriented sha b s slot = (p, q)" by (cases "oriented sha b s slot")
  have rows: "rows ! r = rev (rows ! l)" "l \<noteq> r" using Cons.prems(3) slot by auto
  have cases_pq: "(p, q) = (l, r) \<or> (p, q) = (r, l)" using pq by (auto simp: oriented_def slot split: if_splits)
  then have rev_pq: "rows ! q = rev (rows ! p)" "p \<noteq> q" using rows by auto
  let ?av = "available(p := available p - 1, q := available q - 1)"
  let ?new = "assigned @ [((t, 0), rows ! p), ((t, 1), rows ! q)]"
  have fresh: "(t, k) \<notin> fst ` set assigned" for k using Cons.prems(2) slot by auto
  have "dict_put (t, 1) (rows ! q) (dict_put (t, 0) (rows ! p) assigned) = ?new"
    using fresh by (subst dict_put_new [of "(t, 0)"], simp, subst dict_put_new) auto
  then have step: "assign_pair sha b s rows slot (assigned, available) = Inr (?new, ?av)"
    using pq rev_pq by (auto simp: assign_pair_def slot oriented_def Let_def split: if_splits)
  obtain available' where ih: "rfold (assign_pair sha b s rows) slots (?new, ?av) =
      Inr (?new @ pair_entries sha b s rows slots, available')"
    "\<forall>i. available' i = ?av i - int (count_list (forced_rows (map snd slots)) i)"
  proof -
    have "distinct (map fst slots)" using Cons.prems(1) by simp
    moreover have "\<forall>t \<in> fst ` set slots. \<forall>k. (t, k) \<notin> fst ` set ?new" using Cons.prems(1,2) slot by auto
    moreover have "\<forall>(t, l, r) \<in> set slots. rows ! r = rev (rows ! l) \<and> l \<noteq> r" using Cons.prems(3) by simp
    ultimately show ?thesis using Cons.IH [of ?new ?av] that by blast
  qed
  have left: "available' i = available i - int (count_list (forced_rows (map snd (slot # slots))) i)" for i
    using ih(2) cases_pq rows(2) by (auto simp: slot)
  have "rfold (assign_pair sha b s rows) (slot # slots) (assigned, available)
      = rfold (assign_pair sha b s rows) slots (?new, ?av)"
    by (simp only: rfold.simps step rbind_simps)
  moreover have "?new @ pair_entries sha b s rows slots = assigned @ pair_entries sha b s rows (slot # slots)"
    using pq by (simp add: pair_entries_def slot)
  ultimately have "rfold (assign_pair sha b s rows) (slot # slots) (assigned, available) =
      Inr (assigned @ pair_entries sha b s rows (slot # slots), available')"
    using ih(1) by (simp only:)
  with left show ?case by blast
qed (simp add: pair_entries_def)

lemma needed_fits:
  assumes "2 * P = (N :: nat)" and "S \<le> T" and "0 < N"
  shows "2 * (S - ((T + S) div N) * P) \<le> (T + S) mod N" "S - ((T + S) div N) * P < P"
proof -
  define q where "q = (T + S) div N"
  have split: "T + S = q * N + (T + S) mod N" by (simp add: q_def)
  have "q * N = 2 * (q * P)" using assms(1) by (simp flip: mult.assoc add: mult.commute [of q 2])
  then show fits: "2 * (S - ((T + S) div N) * P) \<le> (T + S) mod N"
    using split assms(2) unfolding q_def [symmetric] by linarith
  have "(T + S) mod N < N" using assms(3) by simp
  with fits show "S - ((T + S) div N) * P < P" using assms(1) by linarith
qed

text \<open>The supply: the pool has a row for every block, each row as often as any other up to one, and pairs enough.\<close>

lemma pool_supply:
  fixes sha b s n T S ordered
  defines "pairs \<equiv> pair_types_of (design_reversal n) (length (design n))"
    and "cycles \<equiv> (T + S) div length (design n)" and "remainder \<equiv> (T + S) mod length (design n)"
  defines "forced \<equiv> forced_rows (take (S - cycles * length pairs) ordered)"
  defines "extra \<equiv> extra_rows sha b s (design_reversal n) n (length (design n)) forced remainder"
  defines "pool \<equiv> pool_of (length (design n)) cycles extra"
  defines "slots \<equiv> pair_slots_of sha b s pairs (count_in pool)"
  assumes n: "2 \<le> n" and ST: "S \<le> T" and ordered: "mset ordered = mset pairs"
  shows "length pool = T + S" and "S \<le> length slots" and "set slots \<subseteq> set pairs"
    and "i < length (design n) \<Longrightarrow> count_list pool i \<in> {cycles, cycles + 1}"
    and "set pool \<subseteq> {..<length (design n)}"
    and "count_list (forced_rows slots) i \<le> count_list pool i"
proof -
  let ?N = "length (design n)" and ?needed = "S - cycles * length pairs"
  have half: "2 * length pairs = ?N" unfolding pairs_def by (rule williams.pair_types_half)
  have N: "0 < ?N" using length_design [OF n] n by simp
  note needed = needed_fits [OF half ST N, folded cycles_def remainder_def]
  have dp: "distinct pairs" unfolding pairs_def by (rule williams.pair_types_distinct)
  have ord: "distinct ordered" "set ordered = set pairs" "length ordered = length pairs"
    using mset_eq_imp_distinct_iff [OF ordered] mset_eq_setD [OF ordered] mset_eq_length [OF ordered] dp by auto
  have taken: "distinct (take ?needed ordered)" "set (take ?needed ordered) \<subseteq> set pairs" "length (take ?needed ordered) = ?needed"
    using ord(1,3) needed(2) set_take_subset [of ?needed ordered] unfolding ord(2) by simp_all
  have forced: "distinct forced" "set forced \<subseteq> {..<?N}" "length forced = 2 * ?needed"
  proof -
    have "set (take ?needed ordered) \<subseteq> set (pair_types_of (design_reversal n) (length (design n)))"
      using taken(2) unfolding pairs_def by blast
    from williams.forced_distinct [OF taken(1) this] taken(3)
    show "distinct forced" "set forced \<subseteq> {..<?N}" "length forced = 2 * ?needed"
      unfolding forced_def by simp_all
  qed
  have "length forced \<le> remainder" using forced(3) needed(1) by simp
  moreover have "remainder < ?N" using N by (simp add: remainder_def)
  ultimately obtain ys where ys: "extra = forced @ ys" "distinct extra" "length extra = remainder" "set extra \<subseteq> {..<?N}"
    using extra_rows_facts [OF n forced(1,2), of remainder sha b s] unfolding extra_def by auto
  note cnt = count_pool [OF ys(2,4), of cycles, folded pool_def]
  show "length pool = T + S"
    using ys(3) by (simp add: pool_def pool_of_def length_concat sum_list_replicate cycles_def remainder_def)
  show "i < ?N \<Longrightarrow> count_list pool i \<in> {cycles, cycles + 1}" by (simp add: cnt)
  show "set pool \<subseteq> {..<?N}" using ys(4) by (auto simp: pool_def pool_of_def)
  have slots: "mset slots = mset (concat (map (\<lambda>p. replicate (slot_count (count_in pool) p) p) pairs))"
    unfolding slots_def by (rule pair_slots_mset)
  from mset_eq_setD [OF slots] show "set slots \<subseteq> set pairs" by auto
  have "\<forall>p \<in> set pairs. cycles + of_bool (p \<in> set (take ?needed ordered)) \<le> slot_count (count_in pool) p"
  proof
    fix p assume p: "p \<in> set pairs"
    obtain l r where lr: "p = (l, r)" by (cases p)
    have in_range: "l < ?N" "r < ?N" using p unfolding lr pairs_def by (auto simp: williams.pair_types_mem)
    have "l \<in> set extra \<and> r \<in> set extra" if "p \<in> set (take ?needed ordered)"
      using that unfolding ys(1) forced_def lr by (force simp: forced_rows_def)
    then show "cycles + of_bool (p \<in> set (take ?needed ordered)) \<le> slot_count (count_in pool) p"
      using in_range by (auto simp: slot_count_def count_in_def cnt lr)
  qed
  from slots_enough [OF dp this taken(2)] have "cycles * length pairs + ?needed \<le> length slots"
    using mset_eq_length [OF slots] taken(1,3) distinct_card [OF taken(1)] by simp
  then show "S \<le> length slots" by linarith
  have "int (count_list (forced_rows (concat (map (\<lambda>p. replicate (slot_count (count_in pool) p) p) pairs))) i) \<le> count_in pool i"
  proof (rule slots_within_pool)
    show "distinct (forced_rows pairs)" using williams.forced_distinct [OF dp [unfolded pairs_def]] unfolding pairs_def by blast
    show "\<forall>(l, r) \<in> set pairs. int (slot_count (count_in pool) (l, r)) \<le> count_in pool l
        \<and> int (slot_count (count_in pool) (l, r)) \<le> count_in pool r"
      by (auto simp: slot_count_def count_in_def)
  qed (simp add: count_in_def)
  moreover have "count_list (forced_rows slots) i
      = count_list (forced_rows (concat (map (\<lambda>p. replicate (slot_count (count_in pool) p) p) pairs))) i"
    using mset_forced_rows [OF slots] by (metis count_mset)
  ultimately show "count_list (forced_rows slots) i \<le> count_list pool i" by (simp add: count_in_def)
qed

lemma pair_entries_keys: "map fst (pair_entries sha b s rows slots) = concat (map (\<lambda>t. [(t, 0), (t, 1)]) (map fst slots))"
proof (induction slots)
  case (Cons slot slots)
  obtain p q where pq: "oriented sha b s slot = (p, q)" by (cases "oriented sha b s slot")
  have "pair_entries sha b s rows (slot # slots)
      = [((fst slot, 0), rows ! p), ((fst slot, 1), rows ! q)] @ pair_entries sha b s rows slots"
    unfolding pair_entries_def using pq by simp
  then show ?case using Cons by simp
qed (simp add: pair_entries_def)

lemma pair_entries_rows:
  "mset (map snd (pair_entries sha b s rows slots)) = image_mset (nth rows) (mset (forced_rows (map snd slots)))"
proof (induction slots)
  case (Cons slot slots)
  obtain t l r where slot: "slot = (t, l, r)" by (cases slot)
  have "pair_entries sha b s rows (slot # slots)
      = (case oriented sha b s slot of (p, q) \<Rightarrow> [((t, 0), rows ! p), ((t, 1), rows ! q)]) @ pair_entries sha b s rows slots"
    unfolding pair_entries_def slot by simp
  then show ?case using Cons by (auto simp: oriented_def slot)
qed (simp add: pair_entries_def)

lemma pair_entries_reversed:
  assumes "slot \<in> set slots" and "\<forall>(t, l, r) \<in> set slots. rows ! r = rev (rows ! l)"
  shows "\<exists>row. ((fst slot, 0), row) \<in> set (pair_entries sha b s rows slots)
    \<and> ((fst slot, 1), rev row) \<in> set (pair_entries sha b s rows slots)"
proof -
  obtain t l r where slot: "slot = (t, l, r)" by (cases slot)
  have rev_rows: "rows ! r = rev (rows ! l)" "rows ! l = rev (rows ! r)" using assms slot by auto
  obtain p q where pq: "oriented sha b s slot = (p, q)" by (cases "oriented sha b s slot")
  have "rows ! q = rev (rows ! p)" using pq rev_rows by (auto simp: oriented_def slot split: if_splits)
  moreover have "set [((t, 0), rows ! p), ((t, 1), rows ! q)] \<subseteq> set (pair_entries sha b s rows slots)"
    using assms(1) pq unfolding pair_entries_def by (force simp: slot)
  ultimately show ?thesis unfolding slot by (intro exI [of _ "rows ! p"]) simp
qed

lemma remaining_rows_mset:
  assumes "\<forall>i. available i = count_in pool i - int (count_list used i)" and "\<forall>i. count_list used i \<le> count_list pool i"
    and "set pool \<subseteq> {..<rows_n}"
  shows "mset used + mset (remaining_rows rows_n available) = mset pool"
proof (rule multiset_eqI)
  fix i
  have "count_list (concat (map (\<lambda>i. replicate (nat (available i)) i) [0..<m])) i = (if i < m then nat (available i) else 0)" for m
  proof (induction m)
    case (Suc m)
    have "count_list (replicate k m) i = (if i = m then k else 0)" for k by (induction k) auto
    with Suc show ?case by auto
  qed simp
  then have rest: "count_list (remaining_rows rows_n available) i = (if i < rows_n then nat (available i) else 0)"
    by (simp add: remaining_rows_def)
  show "count (mset used + mset (remaining_rows rows_n available)) i = count (mset pool) i"
  proof (cases "i < rows_n")
    case True
    have "nat (available i) = count_list pool i - count_list used i"
      using assms(1) by (simp add: count_in_def)
    moreover have "count_list used i \<le> count_list pool i" using assms(2) by blast
    ultimately show ?thesis using True rest by (simp add: count_mset)
  next
    case False
    then have "count_list pool i = 0" using assms(3) by (auto simp: count_list_0_iff)
    moreover have "count_list used i = 0" using assms(2) calculation by (metis le_zero_eq)
    ultimately show ?thesis using False rest by (simp add: count_mset)
  qed
qed

lemma assign_singles_run:
  assumes "distinct ts" and "length ts = length rs" and "\<forall>t \<in> set ts. (t, 0) \<notin> fst ` set d"
  shows "foldl (\<lambda>d (t, i). dict_put (t, 0 :: nat) (rows ! i) d) d (List.zip ts rs)
    = d @ map (\<lambda>(t, i). ((t, 0), rows ! i)) (List.zip ts rs)"
  using assms
proof (induction ts arbitrary: rs d)
  case (Cons t ts)
  then obtain r rs' where rs: "rs = r # rs'" by (cases rs) auto
  have put: "dict_put (t, 0) (rows ! r) d = d @ [((t, 0), rows ! r)]" using Cons.prems(3) by (intro dict_put_new) simp
  have "foldl (\<lambda>d (t, i). dict_put (t, 0 :: nat) (rows ! i) d) (d @ [((t, 0), rows ! r)]) (List.zip ts rs')
      = (d @ [((t, 0), rows ! r)]) @ map (\<lambda>(t, i). ((t, 0), rows ! i)) (List.zip ts rs')"
    by (rule Cons.IH) (use Cons.prems rs in auto)
  with put rs show ?case by simp
qed simp

lemma ranked_facts: "mset (ranked sha b s tag tasks) = mset tasks" "set (ranked sha b s tag tasks) = set tasks"
    "distinct (ranked sha b s tag tasks) = distinct tasks" "length (ranked sha b s tag tasks) = length tasks"
  by (simp_all add: ranked_def)

lemma length_singles:
  assumes "distinct tasks" "distinct second" "set second \<subseteq> set tasks"
  shows "length (filter (\<lambda>t. t \<notin> set second) tasks) = length tasks - length second"
proof -
  have "length (filter (\<lambda>t. t \<notin> set second) tasks) = card (set tasks - set second)"
    using assms(1) by (subst distinct_card [symmetric]) (auto intro: arg_cong [where f = card])
  also have "\<dots> = length tasks - length second"
    using assms by (simp add: card_Diff_subset distinct_card)
  finally show ?thesis .
qed

lemma set_dict_put_subset: "set (dict_put k v d) \<subseteq> insert (k, v) (set d)"
  by (induction k v d rule: dict_put.induct) auto

lemma set_foldl_dict_put: "set (foldl (\<lambda>d (k, v). dict_put k v d) d kvs) \<subseteq> set d \<union> set kvs"
proof (induction kvs arbitrary: d)
  case (Cons kv kvs)
  show ?case using Cons [of "dict_put (fst kv) (snd kv) d"] set_dict_put_subset [of "fst kv" "snd kv" d]
    by (auto simp: case_prod_beta)
qed simp

lemma set_dict_of_subset: "set (dict_of kvs) \<subseteq> set kvs"
  using set_foldl_dict_put [of "[]" kvs] by (simp add: dict_of_def)

lemma plan_value_canonical: "\<exists>d. canon_digest sha fr (plan_value plan) = Inr d"
proof -
  let ?kvs = "dict_of (map (\<lambda>((task, k), row). (task @ '':'' @ show_nat k, PList (map PInt row))) (sort plan))"
  have "\<forall>kv \<in> set ?kvs. jsonable (snd kv)" using set_dict_of_subset by fastforce
  then have "id_fields ?kvs" by (auto simp: id_fields_def)
  then have "jsonable (plan_value plan)" unfolding plan_value_def by (rule jsonable_fields)
  then show ?thesis by (simp add: canon_digest_def canonical_json_jsonable)
qed

subsection \<open>The plan\<close>

definition plan_ok :: "string list \<Rightarrow> string list \<Rightarrow> nat \<Rightarrow> row_plan \<Rightarrow> bool" where
  "plan_ok tasks second n plan \<longleftrightarrow>
     set (map fst plan) = set (coords_of tasks second) \<and> distinct (map fst plan)
     \<and> (\<forall>t \<in> set second. \<exists>row. ((t, 0), row) \<in> set plan \<and> ((t, 1), rev row) \<in> set plan)
     \<and> (\<forall>row \<in> snd ` set plan. distinct row \<and> set row = {0..<int n} \<and> length row = n)
     \<and> (\<forall>row \<in> set (design n). count_list (map snd plan) row
          \<in> {length plan div length (design n), length plan div length (design n) + 1})"

lemma coords_split:
  "set (coords_of tasks second) = (\<lambda>t. (t, 0)) ` set tasks \<union> (\<lambda>t. (t, 1)) ` (set tasks \<inter> set second)"
  by (auto simp: coords_of_def split: if_splits)

lemma map_zip_proj:
  assumes "length xs = length ys"
  shows "map (\<lambda>p. f (fst p)) (List.zip xs ys) = map f xs" "map (\<lambda>p. g (snd p)) (List.zip xs ys) = map g ys"
  using assms by (induction xs ys rule: list_induct2) auto

text \<open>The pairs and singles handed out from a supply that is large enough make a good plan.\<close>

lemma handed_out_ok:
  fixes sha b s n tasks second slots available pool
  defines "zs \<equiv> List.zip (ranked sha b s ''williams_paired_task_rank'' second) (take (length second) slots)"
  defines "singles \<equiv> seeded_permutation sha (remaining_rows (length (design n)) available)
            (seed_for sha b s [''williams_single_row_order''])"
    and "single_tasks \<equiv> ranked sha b s ''williams_single_task_rank'' (filter (\<lambda>t. t \<notin> set second) tasks)"
  defines "plan \<equiv> foldl (\<lambda>d (t, i). dict_put (t, 0) (design n ! i) d) (pair_entries sha b s (design n) zs)
            (List.zip single_tasks singles)"
  assumes tasks: "distinct tasks" "distinct second" "set second \<subseteq> set tasks"
    and slots: "length second \<le> length slots" "set slots \<subseteq> set (pair_types_of (design_reversal n) (length (design n)))"
    and pool: "length pool = length tasks + length second" "set pool \<subseteq> {..<length (design n)}"
      "\<And>i. i < length (design n) \<Longrightarrow> count_list pool i \<in> {length pool div length (design n), length pool div length (design n) + 1}"
    and within: "\<And>i. count_list (forced_rows slots) i \<le> count_list pool i"
    and available: "\<forall>i. available i = count_in pool i - int (count_list (forced_rows (map snd zs)) i)"
  shows "length singles = length single_tasks" and "plan_ok tasks second n plan"
proof -
  let ?N = "length (design n)" and ?used = "forced_rows (map snd zs)"
  have zs: "map fst zs = ranked sha b s ''williams_paired_task_rank'' second" "map snd zs = take (length second) slots"
    using slots(1) by (simp_all add: zs_def ranked_facts)
  have rev_zs: "\<forall>(t, l, r) \<in> set zs. design n ! r = rev (design n ! l)"
  proof (intro ballI, clarify)
    fix t l r assume "(t, l, r) \<in> set zs"
    then have "(l, r) \<in> set slots" unfolding zs_def using set_zip_rightD set_take_subset by fast
    then have "l < ?N" "r = design_reversal n l" using slots(2) by (auto simp: williams.pair_types_mem)
    then show "design n ! r = rev (design n ! l)" using reversal_index_design(3) by simp
  qed
  have "count_list ?used i \<le> count_list (forced_rows slots) i" for i
    unfolding zs(2) by (metis append_take_drop_id count_list_append forced_rows_append le_add1)
  then have "\<forall>i. count_list ?used i \<le> count_list pool i" using within le_trans by blast
  from remaining_rows_mset [OF available this pool(2)]
  have rest: "mset ?used + mset singles = mset pool" by (simp add: singles_def seeded_permutation_mset)
  have "length ?used = 2 * length second" using slots(1) by (simp add: length_forced_rows zs(2))
  moreover have "length ?used + length singles = length pool" using arg_cong [OF rest, of size] by simp
  moreover have "length second \<le> length tasks" using tasks by (metis card_mono distinct_card List.finite_set)
  ultimately have len: "length singles = length tasks - length second" using pool(1) by linarith
  then show lens: "length singles = length single_tasks"
    by (simp add: single_tasks_def ranked_facts length_singles [OF tasks])
  have singles_set: "set single_tasks = set tasks - set second" "distinct single_tasks"
    using tasks(1) by (auto simp: single_tasks_def ranked_facts)
  have keys: "map fst (pair_entries sha b s (design n) zs)
      = concat (map (\<lambda>t. [(t, 0), (t, 1)]) (ranked sha b s ''williams_paired_task_rank'' second))"
    by (simp only: pair_entries_keys zs(1))
  then have key_set: "fst ` set (pair_entries sha b s (design n) zs) = (\<lambda>t. (t, 0)) ` set second \<union> (\<lambda>t. (t, 1)) ` set second"
    by (subst set_map [symmetric]) (auto simp: ranked_facts)
  have plan: "plan = pair_entries sha b s (design n) zs @ map (\<lambda>(t, i). ((t, 0), design n ! i)) (List.zip single_tasks singles)"
    unfolding plan_def by (rule assign_singles_run [OF singles_set(2) lens [symmetric]]) (auto simp: key_set singles_set)
  have single_keys: "map fst (map (\<lambda>(t, i). ((t, 0 :: nat), design n ! i)) (List.zip single_tasks singles)) = map (\<lambda>t. (t, 0)) single_tasks"
    using map_zip_proj(1) [of single_tasks singles "\<lambda>t. (t, 0 :: nat)"] lens by (simp add: comp_def case_prod_beta)
  have rows: "mset (map snd plan) = image_mset (nth (design n)) (mset pool)"
    using lens unfolding plan map_append mset_append pair_entries_rows rest [symmetric]
    using map_zip_proj(2) [of single_tasks singles "nth (design n)"] by (simp add: comp_def case_prod_beta)
  have "distinct (concat (map (\<lambda>t. [(t, 0 :: nat), (t, 1)]) ts))" if "distinct ts" for ts :: "string list"
    using that by (induction ts) auto
  then have "distinct (map fst (pair_entries sha b s (design n) zs))" using tasks(2) by (simp add: keys ranked_facts)
  moreover have "distinct (map (\<lambda>t. (t, 0 :: nat)) single_tasks)" using singles_set(2) by (simp add: distinct_map inj_on_def)
  ultimately have dist: "distinct (map fst plan)"
    unfolding plan map_append distinct_append single_keys by (auto simp: key_set singles_set)
  have cover: "set (map fst plan) = set (coords_of tasks second)"
    unfolding plan map_append set_append single_keys coords_split unfolding set_map key_set singles_set
    using tasks(3) by auto
  have reversed: "\<exists>row. ((t, 0), row) \<in> set plan \<and> ((t, 1), rev row) \<in> set plan" if t: "t \<in> set second" for t
  proof -
    have "t \<in> set (map fst zs)" using t by (simp add: zs(1) ranked_facts)
    then obtain slot where "slot \<in> set zs" "t = fst slot" by auto
    then show ?thesis using pair_entries_reversed [OF _ rev_zs, of slot sha b s] unfolding plan by auto
  qed
  have row_set: "snd ` set plan \<subseteq> set (design n)"
  proof -
    have "snd ` set plan = nth (design n) ` set pool" using arg_cong [OF rows, of set_mset] by simp
    then show ?thesis using pool(2) by auto
  qed
  have "count_list (map snd plan) row \<in> {length plan div ?N, length plan div ?N + 1}" if mem: "row \<in> set (design n)" for row
  proof -
    obtain i where i: "i < ?N" "row = design n ! i" using mem by (auto simp: in_set_conv_nth)
    have inj: "inj_on (nth (design n)) {..<?N}" using design_distinct by (auto simp: inj_on_def nth_eq_iff_index_eq)
    have "count_list (map snd plan) row = count_list (map (nth (design n)) pool) (design n ! i)"
      using rows i(2) by (metis count_mset mset_map)
    also have "\<dots> = count_list pool i"
    proof (cases "i \<in> set pool")
      case True
      then show ?thesis using inj_on_subset [OF inj pool(2)] by (simp add: count_list_inj_map)
    next
      case False
      moreover have "design n ! i \<notin> set (map (nth (design n)) pool)"
        using False i(1) pool(2) inj by (auto simp: inj_on_def)
      ultimately show ?thesis by simp
    qed
    finally have "count_list (map snd plan) row = count_list pool i" .
    moreover have "length plan = length pool" using arg_cong [OF rows, of size] by simp
    ultimately show ?thesis using pool(3) [OF i(1)] by simp
  qed
  then have counts: "\<forall>row \<in> set (design n). count_list (map snd plan) row \<in> {length plan div ?N, length plan div ?N + 1}"
    by blast
  have orders: "\<forall>row \<in> snd ` set plan. distinct row \<and> set row = {0..<int n} \<and> length row = n"
    using row_set design_row by (meson subsetD)
  show "plan_ok tasks second n plan"
    unfolding plan_ok_def using cover dist reversed orders counts by (intro conjI ballI) blast+
qed

text \<open>The plan never fails, whatever the digests are.\<close>

lemma plan_exists:
  assumes n: "2 \<le> n" and tasks: "distinct tasks" "distinct second" "set second \<subseteq> set tasks"
  shows "\<exists>plan notes. balanced_williams_assignments sha fr b s tasks second n = Inr (plan, notes)
    \<and> plan_ok tasks second n plan"
proof -
  let ?N = "length (design n)" and ?total = "length tasks + length second"
  let ?pairs = "pair_types_of (design_reversal n) ?N"
  let ?cycles = "?total div ?N" and ?rem = "?total mod ?N"
  let ?ordered = "seeded_permutation sha ?pairs (seed_for sha b s [''williams_pair_type_order''])"
  let ?forced = "forced_rows (take (length second - ?cycles * length ?pairs) ?ordered)"
  let ?extra = "extra_rows sha b s (design_reversal n) n ?N ?forced ?rem"
  define pool where "pool = concat (replicate ?cycles [0..<?N]) @ ?extra"
  let ?slots = "pair_slots_of sha b s ?pairs (count_in pool)"
  let ?zs = "List.zip (ranked sha b s ''williams_paired_task_rank'' second) (take (length second) ?slots)"
  have N: "0 < ?N" using length_design [OF n] n by simp
  have ST: "length second \<le> length tasks" using tasks by (metis card_mono distinct_card List.finite_set)
  have needed: "2 * (length second - ?cycles * length ?pairs) \<le> ?rem"
    by (rule needed_fits(1) [OF _ ST N]) (rule williams.pair_types_half)
  have ord: "mset ?ordered = mset ?pairs" by (rule seeded_permutation_mset)
  note stock = pool_supply [where sha = sha and b = b and s = s, OF n ST ord, unfolded pool_of_def, folded pool_def]
  have rv: "(\<lambda>i. nat (reversal_index (design n) i)) = design_reversal n" by (simp add: design_reversal_def fun_eq_iff)
  have closed_rev: "\<forall>i \<in> set [0..<?N]. 0 \<le> reversal_index (design n) i" using reversal_index_design(1) by simp
  have zs: "map fst ?zs = ranked sha b s ''williams_paired_task_rank'' second"
    using stock(2) by (simp add: ranked_facts)
  have "\<forall>(t, l, r) \<in> set ?zs. design n ! r = rev (design n ! l) \<and> l \<noteq> r"
  proof (intro ballI, clarify)
    fix t l r assume "(t, l, r) \<in> set ?zs"
    then have "(l, r) \<in> set ?slots" using set_zip_rightD set_take_subset by fast
    then have "l < r" "r < ?N" "r = design_reversal n l" using stock(3) by (auto simp: williams.pair_types_mem)
    then show "design n ! r = rev (design n ! l) \<and> l \<noteq> r" using reversal_index_design(3) [of l n] by simp
  qed
  then obtain available' where run: "rfold (assign_pair sha b s (design n)) ?zs ([], count_in pool)
      = Inr (pair_entries sha b s (design n) ?zs, available')"
    and av: "\<forall>i. available' i = count_in pool i - int (count_list (forced_rows (map snd ?zs)) i)"
    using assign_pairs_run [of ?zs "[]" "design n" sha b s "count_in pool"] zs tasks(2) by (auto simp: ranked_facts)
  have pool3: "\<And>i. i < ?N \<Longrightarrow> count_list pool i \<in> {length pool div ?N, length pool div ?N + 1}"
    using stock(4) stock(1) by simp
  note out = handed_out_ok [OF tasks stock(2,3) stock(1,5) pool3 stock(6) av]
  let ?singles = "seeded_permutation sha (remaining_rows ?N available') (seed_for sha b s [''williams_single_row_order''])"
  let ?single_tasks = "ranked sha b s ''williams_single_task_rank'' (filter (\<lambda>t. t \<notin> set second) tasks)"
  let ?plan = "foldl (\<lambda>d (t, i). dict_put (t, 0) (design n ! i) d) (pair_entries sha b s (design n) ?zs)
            (List.zip ?single_tasks ?singles)"
  obtain digest where digest: "canon_digest sha fr (plan_value ?plan) = Inr digest" using plan_value_canonical by blast
  have guard: "guard_err (length ?singles = length ?single_tasks) SinglesDoNotMatch = Inr ()"
    unfolding guard_err_def by (rule if_P) (rule out(1))
  have "n \<noteq> 1" using n by simp
  have "\<exists>notes. balanced_williams_assignments sha fr b s tasks second n = Inr (?plan, notes)"
    unfolding balanced_williams_assignments_def if_not_P [OF \<open>n \<noteq> 1\<close>] design_is(1) [OF n] sum.case rbind_simps Let_def
      rv row_index_design(1) eqTrueI [OF closed_rev] eqTrueI [OF needed] guard_err_simps simp_thms
      pool_def [symmetric] eqTrueI [OF stock(1)] eqTrueI [OF stock(2)] run prod.case guard digest
    by blast
  with out(2) show ?thesis by blast
qed

subsection \<open>The blocks\<close>

lemma coords_distinct: "distinct tasks \<Longrightarrow> distinct (coords_of tasks second)"
  by (induction tasks) (auto simp: coords_of_def)

lemma single_arm_plan_ok:
  assumes "distinct tasks" "set second \<subseteq> set tasks"
  shows "plan_ok tasks second 1 (single_arm_plan tasks second)"
proof -
  have "concat (map (\<lambda>t. map (\<lambda>k. ((t, k), [0 :: int])) (if t \<in> set second then [0, 1 :: nat] else [0])) tasks)
      = map (\<lambda>c. (c, [0])) (coords_of tasks second)"
    by (induction tasks) (simp_all add: coords_of_def)
  then have plan: "single_arm_plan tasks second = map (\<lambda>c. (c, [0])) (coords_of tasks second)"
    unfolding single_arm_plan_def using coords_distinct [OF assms(1)] by (simp add: dict_of_distinct comp_def)
  have "\<exists>row. ((t, 0), row) \<in> set (single_arm_plan tasks second) \<and> ((t, 1), rev row) \<in> set (single_arm_plan tasks second)"
    if "t \<in> set second" for t
    unfolding plan using that assms(2) coords_split [of tasks second] by (intro exI [of _ "[0]"]) auto
  then show ?thesis
    unfolding plan_ok_def using coords_distinct [OF assms(1)] by (auto simp: plan comp_def design_small)
qed

lemma plan_found:
  assumes "1 \<le> n" "distinct tasks" "distinct second" "set second \<subseteq> set tasks"
  shows "\<exists>plan notes. balanced_williams_assignments sha fr b s tasks second n = Inr (plan, notes) \<and> plan_ok tasks second n plan"
proof (cases "n = 1")
  case True
  then show ?thesis using single_arm_plan_ok [OF assms(2,4)] by (simp add: balanced_williams_assignments_def)
next
  case False
  with assms(1) have "2 \<le> n" by simp
  from plan_exists [OF this assms(2-)] show ?thesis .
qed

text \<open>The order of the arms that a row stands for.\<close>

definition arm_order :: "arm_spec list \<Rightarrow> int list \<Rightarrow> arm_spec list" where
  "arm_order arms row = map (\<lambda>i. arms ! nat i) row"

definition block_order :: "sched_block \<Rightarrow> arm_spec list" where
  "block_order b = map ce_arm (bl_cells b)"

lemma block_id_total: "\<exists>d. block_id_of sha fr binding split task k = Inr d"
proof -
  have "jsonable (str_dict [(''execution_binding_sha256'', PStr binding), (''split'', PStr split), (''task_id'', PStr task),
        (''replicate'', PInt (int k))])"
    by (rule jsonable_fields) (simp add: id_fields_def)
  then show ?thesis by (simp add: block_id_of_def canon_digest_def canonical_json_jsonable)
qed

lemma make_block_some:
  assumes "map_of plan (t, k) = Some row"
  shows "\<exists>b. make_block sha fr binding split arms seeds plan (t, k) = Inr b \<and> bl_task b = t \<and> bl_replicate b = show_nat k
    \<and> block_order b = arm_order arms row \<and> map ce_order (bl_cells b) = [0..<length row]"
proof -
  obtain d where d: "block_id_of sha fr binding split t k = Inr d" using block_id_total by blast
  have "map (\<lambda>p. arms ! nat (row ! p)) [0..<length row] = map (\<lambda>i. arms ! nat i) row"
    by (rule nth_equalityI) auto
  then show ?thesis
    by (simp add: make_block_def assms d Let_def block_order_def arm_order_def comp_def)
qed

lemma arm_order_facts:
  assumes "distinct row" "set row = {0..<int (length arms)}" "length row = length arms"
  shows "mset (arm_order arms row) = mset arms"
proof -
  have "mset row = mset (map int [0..<length arms])"
  proof (rule iffD1 [OF set_eq_iff_mset_eq_distinct])
    show "set row = set (map int [0..<length arms])" unfolding assms(2) by (simp add: image_int_atLeastLessThan)
  qed (use assms(1) in \<open>simp_all add: distinct_map\<close>)
  then have "mset (arm_order arms row) = mset (map (\<lambda>i. arms ! nat i) (map int [0..<length arms]))"
    unfolding arm_order_def mset_map by simp
  also have "map (\<lambda>i. arms ! nat i) (map int [0..<length arms]) = arms" by (simp add: comp_def map_nth)
  finally show ?thesis .
qed

lemma arm_order_inj:
  assumes "distinct arms" and "set row = {0..<int (length arms)}" "set row' = {0..<int (length arms)}"
    and "arm_order arms row = arm_order arms row'"
  shows "row = row'"
proof -
  have "inj_on (\<lambda>i. arms ! nat i) {0..<int (length arms)}"
    using assms(1) by (intro inj_onI) (auto simp: nth_eq_iff_index_eq nat_less_iff eq_nat_nat_iff)
  then show ?thesis using assms(2-) unfolding arm_order_def by (metis map_inj_on sup_idem)
qed

lemma plan_rows_mset:
  assumes "distinct (map fst plan)" "set (map fst plan) = set coords" "distinct coords"
  shows "mset (map (\<lambda>c. the (map_of plan c)) coords) = mset (map snd plan)"
proof -
  have "mset coords = mset (map fst plan)" using assms by (metis set_eq_iff_mset_eq_distinct)
  then have "mset (map (\<lambda>c. the (map_of plan c)) coords) = mset (map (\<lambda>c. the (map_of plan c)) (map fst plan))"
    by (simp only: mset_map)
  also have "map (\<lambda>c. the (map_of plan c)) (map fst plan) = map snd plan"
    using assms(1) by (auto intro!: map_cong simp: comp_def)
  finally show ?thesis .
qed

lemma second_seed_facts:
  assumes "distinct tasks" and "0 \<le> fraction" and "fraction \<le> 1"
  shows "distinct (second_seed_tasks sha b s tasks fraction)" "set (second_seed_tasks sha b s tasks fraction) \<subseteq> set tasks"
    "int (length (second_seed_tasks sha b s tasks fraction)) = \<lfloor>real (length tasks) * fraction + 1 / 2\<rfloor>"
proof -
  show "distinct (second_seed_tasks sha b s tasks fraction)"
    using assms(1) by (simp add: second_seed_tasks_def ranked_facts)
  show "set (second_seed_tasks sha b s tasks fraction) \<subseteq> set tasks"
    unfolding second_seed_tasks_def using set_take_subset [of _ "ranked sha b s ''second_seed_rank'' tasks"]
    by (simp add: ranked_facts)
  have "real (length tasks) * fraction \<le> real (length tasks)" using assms(3) by (simp add: mult_left_le)
  then have "\<lfloor>real (length tasks) * fraction + 1 / 2\<rfloor> \<le> int (length tasks)" by linarith
  moreover have "0 \<le> \<lfloor>real (length tasks) * fraction + 1 / 2\<rfloor>" using assms(2) by simp
  ultimately show "int (length (second_seed_tasks sha b s tasks fraction)) = \<lfloor>real (length tasks) * fraction + 1 / 2\<rfloor>"
    by (simp add: second_seed_tasks_def ranked_facts min_def) linarith
qed

lemma check_schedule_iff:
  "check_schedule binding protocol tasks arms seeds fraction = Inr () \<longleftrightarrow>
     is_sha256 binding \<and> is_sha256 protocol \<and> arms \<noteq> [] \<and> 0 \<le> fraction \<and> fraction \<le> 1
     \<and> (fraction > 0 \<longrightarrow> length seeds \<ge> 2) \<and> list_ex is_comparator arms \<and> distinct tasks \<and> distinct (map as_id arms)"
  by (auto simp: check_schedule_def)

lemma list_all2_map_agree: "list_all2 P xs ys \<Longrightarrow> (\<And>x y. P x y \<Longrightarrow> g y = f x) \<Longrightarrow> map g ys = map f xs"
  by (induction rule: list_all2_induct) auto

lemma count_list_map_inj:
  "(\<And>y. y \<in> set xs \<Longrightarrow> f y = f x \<Longrightarrow> y = x) \<Longrightarrow> count_list (map f xs) (f x) = count_list xs x"
  by (induction xs) auto

text \<open>The blocks of a good plan, one for every coordinate in order.\<close>

lemma blocks_of_plan:
  assumes ok: "plan_ok tasks second (length arms) plan"
  shows "\<exists>blocks. rmap (make_block sha fr binding split arms seeds plan) (coords_of tasks second) = Inr blocks
    \<and> list_all2 (\<lambda>(t, k) b. bl_task b = t \<and> bl_replicate b = show_nat k
         \<and> (\<exists>row. map_of plan (t, k) = Some row \<and> block_order b = arm_order arms row \<and> map ce_order (bl_cells b) = [0..<length row]))
       (coords_of tasks second) blocks"
proof -
  have row: "\<exists>row. map_of plan c = Some row" if "c \<in> set (coords_of tasks second)" for c
  proof -
    have "c \<in> fst ` set plan" using ok that by (simp add: plan_ok_def)
    then show ?thesis by (metis domD dom_map_of_conv_image_fst)
  qed
  have "\<exists>b. make_block sha fr binding split arms seeds plan c = Inr b" if "c \<in> set (coords_of tasks second)" for c
    using row [OF that] make_block_some by (cases c) blast
  then obtain blocks where blocks: "rmap (make_block sha fr binding split arms seeds plan) (coords_of tasks second) = Inr blocks"
    using rmap_total by blast
  have "list_all2 (\<lambda>c b. make_block sha fr binding split arms seeds plan c = Inr b) (coords_of tasks second) blocks"
    using blocks by (simp add: rmap_Inr_iff)
  then have "list_all2 (\<lambda>(t, k) b. bl_task b = t \<and> bl_replicate b = show_nat k
         \<and> (\<exists>row. map_of plan (t, k) = Some row \<and> block_order b = arm_order arms row \<and> map ce_order (bl_cells b) = [0..<length row]))
       (coords_of tasks second) blocks"
  proof (rule list.rel_mono_strong)
    fix c b assume c: "c \<in> set (coords_of tasks second)" and made: "make_block sha fr binding split arms seeds plan c = Inr b"
    obtain t k where tk: "c = (t, k)" by (cases c)
    obtain row where "map_of plan (t, k) = Some row" using row [OF c] tk by blast
    from make_block_some [OF this, of sha fr binding split arms seeds] made this
    show "(case c of (t, k) \<Rightarrow> \<lambda>b. bl_task b = t \<and> bl_replicate b = show_nat k
         \<and> (\<exists>row. map_of plan (t, k) = Some row \<and> block_order b = arm_order arms row \<and> map ce_order (bl_cells b) = [0..<length row])) b"
      by (simp add: tk)
  qed
  with blocks show ?thesis by blast
qed

text \<open>
  C30. Planning never fails and is balanced. Every input that passes the checks gives a schedule, whatever the
  digests are: one block per task, and a second one for exactly the rounded fraction of the tasks, in task
  order; every block runs every arm once, the comparator included, at positions 0, 1, ...; the second block of
  a task runs the arms in exactly the reverse order of the first; and over the campaign the orders of the
  Williams design are used equally often, up to one.
\<close>

theorem schedule_balanced:
  assumes "check_schedule binding protocol tasks arms seeds fraction = Inr ()"
  shows "\<exists>m second. build_blocks sha fr binding protocol split tasks arms seeds layer claim fraction = Inr m
    \<and> int (length second) = \<lfloor>real (length tasks) * fraction + 1 / 2\<rfloor> \<and> distinct second \<and> set second \<subseteq> set tasks
    \<and> map (\<lambda>b. (bl_task b, bl_replicate b)) (sm_blocks m) = map (\<lambda>(t, k). (t, show_nat k)) (coords_of (sort tasks) second)
    \<and> (\<forall>b \<in> set (sm_blocks m). mset (block_order b) = mset arms \<and> list_ex is_comparator (block_order b)
         \<and> map ce_order (bl_cells b) = [0..<length arms])
    \<and> (\<forall>b \<in> set (sm_blocks m). \<forall>b' \<in> set (sm_blocks m). bl_task b = bl_task b' \<and> bl_replicate b = ''0'' \<and> bl_replicate b' = ''1''
         \<longrightarrow> block_order b' = rev (block_order b))
    \<and> (\<forall>row \<in> set (design (length arms)). count_list (map block_order (sm_blocks m)) (arm_order arms row)
         \<in> {length (sm_blocks m) div length (design (length arms)),
            length (sm_blocks m) div length (design (length arms)) + 1})"
proof -
  let ?tasks = "sort tasks" and ?n = "length arms"
  let ?second = "second_seed_tasks sha binding split ?tasks fraction"
  let ?coords = "coords_of ?tasks ?second"
  have ok: "arms \<noteq> []" "0 \<le> fraction" "fraction \<le> 1" "list_ex is_comparator arms" "distinct tasks" "distinct (map as_id arms)"
    using assms by (simp_all add: check_schedule_iff)
  have arms: "distinct arms" using ok(6) by (simp add: distinct_map)
  have dt: "distinct ?tasks" using ok(5) by simp
  note second = second_seed_facts [OF dt ok(2,3), of sha binding split]
  have "1 \<le> ?n" using ok(1) by (cases arms) auto
  from plan_found [OF this dt second(1,2), of sha fr binding split] obtain plan notes' where
    plan: "balanced_williams_assignments sha fr binding split ?tasks ?second ?n = Inr (plan, notes')"
    and good: "plan_ok ?tasks ?second ?n plan" by blast
  obtain blocks where blocks: "rmap (make_block sha fr binding split arms seeds plan) ?coords = Inr blocks"
    and all: "list_all2 (\<lambda>(t, k) b. bl_task b = t \<and> bl_replicate b = show_nat k
         \<and> (\<exists>row. map_of plan (t, k) = Some row \<and> block_order b = arm_order arms row \<and> map ce_order (bl_cells b) = [0..<length row]))
       ?coords blocks"
    using blocks_of_plan [OF good] by blast
  obtain m where m: "build_blocks sha fr binding protocol split tasks arms seeds layer claim fraction = Inr m" "sm_blocks m = blocks"
    by (simp add: build_blocks_def assms plan blocks Let_def)
  have row_ok: "distinct row \<and> set row = {0..<int ?n} \<and> length row = ?n" if mem: "map_of plan c = Some row" for c row
  proof -
    have "row \<in> snd ` set plan" using map_of_SomeD [OF mem] by force
    then show ?thesis using good unfolding plan_ok_def by blast
  qed
  have names: "map (\<lambda>b. (bl_task b, bl_replicate b)) blocks = map (\<lambda>(t, k). (t, show_nat k)) ?coords"
    by (rule list_all2_map_agree [OF all]) auto
  have each: "mset (block_order b) = mset arms \<and> list_ex is_comparator (block_order b) \<and> map ce_order (bl_cells b) = [0..<?n]"
    if mem: "b \<in> set blocks" for b
  proof -
    obtain t k row where "map_of plan (t, k) = Some row" "block_order b = arm_order arms row"
      "map ce_order (bl_cells b) = [0..<length row]"
      using list_all2_mem [OF all mem] by auto
    moreover from this(1) row_ok have "distinct row" "set row = {0..<int ?n}" "length row = ?n" by blast+
    ultimately have "mset (block_order b) = mset arms" "map ce_order (bl_cells b) = [0..<?n]"
      using arm_order_facts by auto
    moreover from mset_eq_setD [OF this(1)] ok(4) have "list_ex is_comparator (block_order b)" by (simp add: list_ex_iff)
    ultimately show ?thesis by blast
  qed
  have reversed: "block_order b' = rev (block_order b)"
    if b: "b \<in> set blocks" "b' \<in> set blocks" "bl_task b = bl_task b'" "bl_replicate b = ''0''" "bl_replicate b' = ''1''" for b b'
  proof -
    have digits: "''0'' = show_nat 0" "''1'' = show_nat 1" by code_simp+
    obtain t k row where r: "bl_task b = t" "bl_replicate b = show_nat k" "map_of plan (t, k) = Some row" "block_order b = arm_order arms row"
      using list_all2_mem [OF all b(1)] by auto
    obtain t' k' row' where r': "(t', k') \<in> set ?coords" "bl_task b' = t'" "bl_replicate b' = show_nat k'"
        "map_of plan (t', k') = Some row'" "block_order b' = arm_order arms row'"
      using list_all2_mem [OF all b(2)] by auto
    have eqs: "t' = t" "k = 0" "k' = 1" using b r r' digits by auto
    then have "t \<in> set ?second" using r'(1) by (auto simp: coords_split)
    then obtain row0 where "((t, 0), row0) \<in> set plan" "((t, 1), rev row0) \<in> set plan"
      using good by (auto simp: plan_ok_def)
    moreover have "distinct (map fst plan)" using good by (simp add: plan_ok_def)
    ultimately have "map_of plan (t, 0) = Some row0" "map_of plan (t, 1) = Some (rev row0)" by simp_all
    then have "row' = rev row" using r(3) r'(4) eqs by simp
    then show ?thesis using r(4) r'(5) by (simp add: arm_order_def rev_map)
  qed
  have orders: "map block_order blocks = map (\<lambda>c. arm_order arms (the (map_of plan c))) ?coords"
    by (rule list_all2_map_agree [OF all]) auto
  have dist: "distinct (map fst plan)" "set (map fst plan) = set ?coords" using good by (simp_all add: plan_ok_def)
  note rows = plan_rows_mset [OF dist coords_distinct [OF dt]]
  have len: "length blocks = length plan"
    using arg_cong [OF rows, of size] list_all2_lengthD [OF all] by simp
  have counts: "count_list (map block_order blocks) (arm_order arms row)
      \<in> {length blocks div length (design ?n), length blocks div length (design ?n) + 1}" if mem: "row \<in> set (design ?n)" for row
  proof -
    have "count_list (map block_order blocks) (arm_order arms row)
        = count_list (map (arm_order arms) (map (\<lambda>c. the (map_of plan c)) ?coords)) (arm_order arms row)"
      unfolding orders by (simp add: comp_def)
    also have "\<dots> = count_list (map (\<lambda>c. the (map_of plan c)) ?coords) row"
    proof (rule count_list_map_inj)
      fix y assume "y \<in> set (map (\<lambda>c. the (map_of plan c)) ?coords)" and eq: "arm_order arms y = arm_order arms row"
      then have "y \<in> snd ` set plan" using mset_eq_setD [OF rows] by simp
      then have "set y = {0..<int ?n}" using good unfolding plan_ok_def by blast
      then show "y = row" using arm_order_inj [OF arms] eq design_row(2) [OF mem] by blast
    qed
    also have "\<dots> = count_list (map snd plan) row" using rows by (metis count_mset)
    finally show ?thesis using good mem unfolding plan_ok_def len by metis
  qed
  have "length ?tasks = length tasks" "set ?tasks = set tasks" by simp_all
  then show ?thesis using m second names each reversed counts by (intro exI [of _ m] exI [of _ ?second]) simp
qed

theorem schedule_balanced_witness:
  "\<exists>m. build_blocks (\<lambda>x. x) (\<lambda>_. ''0'') (replicate 64 (CHR ''a'')) (replicate 64 (CHR ''7'')) ''dev'' [''t2'', ''t1'']
      [\<lparr>as_id = ''P0'', as_page = ''P0'', as_close = ''P0''\<rparr>, \<lparr>as_id = ''A'', as_page = ''h1'', as_close = ''c1''\<rparr>]
      [1, 2] ''dev'' ''pilot'' (1 / 2) = Inr m
    \<and> (\<forall>b \<in> set (sm_blocks m). map ce_order (bl_cells b) = [0, 1])"
proof -
  have "check_schedule (replicate 64 (CHR ''a'')) (replicate 64 (CHR ''7'')) [''t2'', ''t1'']
      [\<lparr>as_id = ''P0'', as_page = ''P0'', as_close = ''P0''\<rparr>, \<lparr>as_id = ''A'', as_page = ''h1'', as_close = ''c1''\<rparr>]
      [1, 2] (1 / 2) = Inr ()"
    by (simp add: check_schedule_iff is_sha256_def is_comparator_def)
  from schedule_balanced [OF this, of "\<lambda>x. x" "\<lambda>_. ''0''" "''dev''" "''dev''" "''pilot''"] show ?thesis
    by (fastforce simp: upt_rec)
qed

end
