(* ===== verification/FreezeRootProps.thy ===== *)
theory FreezeRootProps
  imports FreezeRoot ScheduleProps
begin

text \<open>
  Properties of the frozen root: what a sealed root guarantees about the records it was given, and when the
  runner can seal one at all.
\<close>

subsection \<open>The cells of a sealed block\<close>

lemma cell_content_inject: "cell_content c = cell_content d \<longleftrightarrow> c = d"
proof
  assume "cell_content c = cell_content d"
  then show "c = d"
    by (cases c; cases d; cases "ce_arm c"; cases "ce_arm d") (auto simp: cell_content_def arm_content_def str_dict_def)
qed simp

lemma check_cell_Inr:
  "check_cell bid expected r (keys, seen) = Inr s' \<longleftrightarrow>
     map_of expected (cell_quad (cr_cell r)) = Some (cell_content (cr_cell r)) \<and> cell_quad (cr_cell r) \<notin> set keys
     \<and> cr_epoch r \<noteq> [] \<and> cell_is_terminal (cr_state r) \<and> cr_output r \<noteq> []
     \<and> s' = (keys @ [cell_quad (cr_cell r)], seen @ [cr_epoch r])"
  by (auto simp: check_cell_def Let_def)

lemma check_cells_run:
  assumes "rfold (check_cell bid expected) raws (keys, seen) = Inr (keys', seen')" and "distinct keys"
  shows "keys' = keys @ map (cell_quad \<circ> cr_cell) raws \<and> seen' = seen @ map cr_epoch raws \<and> distinct keys'
    \<and> (\<forall>r \<in> set raws. map_of expected (cell_quad (cr_cell r)) = Some (cell_content (cr_cell r))
         \<and> cr_epoch r \<noteq> [] \<and> cell_is_terminal (cr_state r) \<and> cr_output r \<noteq> [])"
  using assms
proof (induction raws arbitrary: keys seen)
  case (Cons r raws)
  obtain s where step: "check_cell bid expected r (keys, seen) = Inr s" and rest: "rfold (check_cell bid expected) raws s = Inr (keys', seen')"
    using Cons.prems(1) by (auto simp: rbind_Inr)
  have s: "s = (keys @ [cell_quad (cr_cell r)], seen @ [cr_epoch r])"
    and ok: "map_of expected (cell_quad (cr_cell r)) = Some (cell_content (cr_cell r))" "cell_quad (cr_cell r) \<notin> set keys"
      "cr_epoch r \<noteq> []" "cell_is_terminal (cr_state r)" "cr_output r \<noteq> []"
    using step by (simp_all add: check_cell_Inr)
  have "distinct (keys @ [cell_quad (cr_cell r)])" using Cons.prems(2) ok(2) by simp
  note ih = Cons.IH [OF rest [unfolded s] this]
  have "keys' = keys @ map (cell_quad \<circ> cr_cell) (r # raws)" "seen' = seen @ map cr_epoch (r # raws)" using ih by simp_all
  moreover have "distinct keys'" using ih by blast
  ultimately show ?case using ih ok by (metis set_ConsD)
qed auto

lemma check_cells_pass:
  assumes "distinct (map (cell_quad \<circ> cr_cell) raws)" "set (map (cell_quad \<circ> cr_cell) raws) \<inter> set keys = {}"
    and "\<forall>r \<in> set raws. map_of expected (cell_quad (cr_cell r)) = Some (cell_content (cr_cell r))
         \<and> cr_epoch r \<noteq> [] \<and> cell_is_terminal (cr_state r) \<and> cr_output r \<noteq> []"
  shows "rfold (check_cell bid expected) raws (keys, seen)
    = Inr (keys @ map (cell_quad \<circ> cr_cell) raws, seen @ map cr_epoch raws)"
  using assms by (induction raws arbitrary: keys seen) (auto simp: check_cell_def Let_def)

definition cells_exact :: "sched_block \<Rightarrow> root_block \<Rightarrow> bool" where
  "cells_exact b rb \<longleftrightarrow> length (rb_cells rb) = length (bl_cells b)
     \<and> set (map cr_cell (rb_cells rb)) = set (bl_cells b)
     \<and> (\<forall>r \<in> set (rb_cells rb). cell_is_terminal (cr_state r) \<and> cr_output r \<noteq> [] \<and> cr_epoch r \<noteq> [])
     \<and> (if rb_paired rb then \<exists>e. \<forall>r \<in> set (rb_cells rb). cr_epoch r = e else rb_invalid rb \<noteq> [])"

text \<open>A block of the root is the record it came from: the digests, the pairing, the reason and the epochs.\<close>

definition record_matches :: "block_record \<Rightarrow> root_block \<Rightarrow> bool" where
  "record_matches r rb \<longleftrightarrow> br_terminal r \<and> br_digest r = rb_digest rb \<and> br_freeze r = rb_freeze rb
     \<and> length (rb_freeze rb) = 64
     \<and> (\<exists>s. br_seal r = Some s \<and> rb_paired rb = se_paired s
          \<and> rb_invalid rb = (case se_invalid s of None \<Rightarrow> [] | Some why \<Rightarrow> why)
          \<and> rb_epochs rb = sort (se_epochs s))
     \<and> rb_epochs rb = sort (dedup (map cr_epoch (br_cells r)))
     \<and> (rb_paired rb \<longrightarrow> rb_invalid rb = [])"

lemma dedup_single: "length (dedup xs) = 1 \<Longrightarrow> \<exists>e. \<forall>x \<in> set xs. x = e"
  by (metis One_nat_def length_0_conv length_Suc_conv set_dedup singletonD empty_set list.simps(15))

lemma check_block_sound:
  assumes "check_block sha fr b r = Inr rb" and quads: "distinct (map cell_quad (bl_cells b))"
  shows "rb_id rb = bl_id b" "block_digest sha fr b = Inr (rb_digest rb)" "record_digest sha fr r = Inr (rb_freeze rb)"
    "br_freeze r = rb_freeze rb" "rb_cells rb = br_cells r" "cells_exact b rb" "record_matches r rb"
proof -
  let ?expected = "map (\<lambda>c. (cell_quad c, cell_content c)) (bl_cells b)"
  have dict: "dict_of ?expected = ?expected" by (rule dict_of_distinct) (use quads in \<open>simp add: comp_def\<close>)
  obtain keys observed s where cells: "rfold (check_cell (bl_id b) ?expected) (br_cells r) ([], []) = Inr (keys, observed)"
    and len: "length (br_cells r) = length (bl_cells b)" and s: "br_seal r = Some s"
    and valid: "\<not> (se_paired s \<and> (length (dedup observed) \<noteq> 1 \<or> rb_invalid rb \<noteq> []))" "\<not> (\<not> se_paired s \<and> rb_invalid rb = [])"
    and rb: "rb_id rb = bl_id b" "digest_of_block sha fr b = Inr (rb_digest rb)" "record_digest sha fr r = Inr (br_freeze r)"
      "rb_freeze rb = br_freeze r" "rb_cells rb = br_cells r" "rb_paired rb = se_paired s"
    and same: "br_terminal r" "br_digest r = rb_digest rb" "length (br_freeze r) = 64"
      "rb_invalid rb = (case se_invalid s of None \<Rightarrow> [] | Some why \<Rightarrow> why)" "rb_epochs rb = sort (se_epochs s)"
      "sort (se_epochs s) = sort (dedup observed)"
    using assms(1) unfolding check_block_def dict Let_def
    by (auto simp: result_elims split: prod.splits option.splits if_splits)
  show "rb_id rb = bl_id b" "record_digest sha fr r = Inr (rb_freeze rb)" "br_freeze r = rb_freeze rb" "rb_cells rb = br_cells r"
    using rb by simp_all
  show "block_digest sha fr b = Inr (rb_digest rb)" using rb(2) by (auto simp: digest_of_block_def split: sum.splits)
  have run: "keys = map (cell_quad \<circ> cr_cell) (br_cells r)" "observed = map cr_epoch (br_cells r)" "distinct keys"
    and each: "\<forall>r \<in> set (br_cells r). map_of ?expected (cell_quad (cr_cell r)) = Some (cell_content (cr_cell r))
         \<and> cr_epoch r \<noteq> [] \<and> cell_is_terminal (cr_state r) \<and> cr_output r \<noteq> []"
    using check_cells_run [OF cells] by auto
  have mem: "cr_cell c \<in> set (bl_cells b)" if c: "c \<in> set (br_cells r)" for c
  proof -
    have "map_of ?expected (cell_quad (cr_cell c)) = Some (cell_content (cr_cell c))" using each c by blast
    then have "(cell_quad (cr_cell c), cell_content (cr_cell c)) \<in> set ?expected" by (rule map_of_SomeD)
    then obtain d where "d \<in> set (bl_cells b)" "cell_content (cr_cell c) = cell_content d" by auto
    then show ?thesis by (simp add: cell_content_inject)
  qed
  have dist: "distinct (map cr_cell (br_cells r))" using run(1,3) distinct_map [of cell_quad "map cr_cell (br_cells r)"] by simp
  have "set (map cr_cell (br_cells r)) = set (bl_cells b)"
  proof (rule card_subset_eq)
    show "set (map cr_cell (br_cells r)) \<subseteq> set (bl_cells b)" using mem by auto
    have "distinct (bl_cells b)" using quads by (simp add: distinct_map)
    then show "card (set (map cr_cell (br_cells r))) = card (set (bl_cells b))"
      using distinct_card [OF dist] len by (simp add: distinct_card)
  qed simp
  moreover show "record_matches r rb"
    using same rb(4,6) s valid run(2) by (auto simp: record_matches_def)
  moreover have "if rb_paired rb then \<exists>e. \<forall>r \<in> set (rb_cells rb). cr_epoch r = e else rb_invalid rb \<noteq> []"
    using valid rb(5,6) dedup_single [of observed] run(2) by auto
  ultimately show "cells_exact b rb" using each len rb(5) by (simp add: cells_exact_def)
qed

subsection \<open>The root\<close>

lemma add_record_Inr: "add_record r d = Inr d' \<longleftrightarrow> br_id r \<noteq> [] \<and> br_id r \<notin> fst ` set d \<and> d' = d @ [(br_id r, r)]"
  by (auto simp: add_record_def dict_put_new)

lemma add_records_run:
  assumes "rfold add_record records d = Inr d'"
  shows "d' = d @ map (\<lambda>r. (br_id r, r)) records \<and> (distinct (map fst d) \<longrightarrow> distinct (map fst d'))"
  using assms
proof (induction records arbitrary: d)
  case (Cons r records)
  have fresh: "br_id r \<notin> fst ` set d" and rest: "rfold add_record records (d @ [(br_id r, r)]) = Inr d'"
    using Cons.prems by (auto simp: add_record_Inr rbind_Inr)
  note ih = Cons.IH [OF rest]
  then have "d' = d @ map (\<lambda>r. (br_id r, r)) (r # records)" by simp
  moreover have "distinct (map fst d')" if "distinct (map fst d)"
  proof -
    have "distinct (map fst (d @ [(br_id r, r)]))" using that fresh by simp
    with ih show ?thesis by blast
  qed
  ultimately show ?case by blast
qed simp

definition owned_ids :: "schedule_manifest \<Rightarrow> string list option \<Rightarrow> string list" where
  "owned_ids m owned = (case owned of None \<Rightarrow> map bl_id (sm_blocks m)
     | Some ids \<Rightarrow> filter (\<lambda>i. i \<in> set ids) (map bl_id (sm_blocks m)))"

lemma expected_ids_Inr: "expected_ids m owned = Inr ids \<Longrightarrow> ids = owned_ids m owned"
  by (auto simp: expected_ids_def owned_ids_def Let_def split: option.splits if_splits)

text \<open>The checked blocks, in schedule order.\<close>

lemma checked_blocks:
  assumes "rmap (\<lambda>b. case map_of d (bl_id b) of None \<Rightarrow> Inr None
            | Some r \<Rightarrow> rbind (check_block sha fr b r) (\<lambda>x. Inr (Some x))) blocks = Inr found"
    and "\<forall>b \<in> set blocks. distinct (map cell_quad (bl_cells b))"
  shows "map rb_id (List.map_filter id found) = filter (\<lambda>i. i \<in> fst ` set d) (map bl_id blocks)
    \<and> (\<forall>rb \<in> set (List.map_filter id found). \<exists>b \<in> set blocks. \<exists>r. map_of d (bl_id b) = Some r \<and> check_block sha fr b r = Inr rb)"
  using assms
proof (induction blocks arbitrary: found)
  case (Cons b blocks)
  obtain x xs where x: "(case map_of d (bl_id b) of None \<Rightarrow> Inr None
            | Some r \<Rightarrow> rbind (check_block sha fr b r) (\<lambda>x. Inr (Some x))) = Inr x"
    and xs: "rmap (\<lambda>b. case map_of d (bl_id b) of None \<Rightarrow> Inr None
            | Some r \<Rightarrow> rbind (check_block sha fr b r) (\<lambda>x. Inr (Some x))) blocks = Inr xs"
    and found: "found = x # xs"
    using Cons.prems(1) by (auto simp: rbind_Inr)
  have ih: "map rb_id (List.map_filter id xs) = filter (\<lambda>i. i \<in> fst ` set d) (map bl_id blocks)"
    "\<forall>rb \<in> set (List.map_filter id xs). \<exists>b \<in> set blocks. \<exists>r. map_of d (bl_id b) = Some r \<and> check_block sha fr b r = Inr rb"
    using Cons.IH [OF xs] Cons.prems(2) by (auto simp: id_def)
  show ?case
  proof (cases "map_of d (bl_id b)")
    case None
    then have "bl_id b \<notin> fst ` set d" by (simp add: map_of_eq_None_iff)
    with None x ih show ?thesis by (auto simp: found map_filter_simps id_def)
  next
    case (Some r)
    then obtain rb where rb: "check_block sha fr b r = Inr rb" "x = Some rb" using x by (auto simp: rbind_Inr)
    have "bl_id b \<in> fst ` set d" using map_of_SomeD [OF Some] by force
    moreover have "rb_id rb = bl_id b" using check_block_sound(1) [OF rb(1)] Cons.prems(2) by simp
    ultimately show ?thesis using ih Some rb by (auto simp: found map_filter_simps id_def)
  qed
qed (simp add: map_filter_simps)

lemma freeze_root_sound:
  assumes "freeze_root_record sha fr m run_id phase_id split records shard owned = Inr rt"
    and "\<forall>b \<in> set (sm_blocks m). distinct (map cell_quad (bl_cells b))"
  shows "map rb_id (ro_blocks rt) = owned_ids m owned \<and> distinct (map rb_id (ro_blocks rt))
    \<and> mset (map br_id records) = mset (map rb_id (ro_blocks rt))
    \<and> (\<forall>rb \<in> set (ro_blocks rt). \<exists>b \<in> set (sm_blocks m). \<exists>r \<in> set records.
         rb_id rb = bl_id b \<and> br_id r = bl_id b \<and> rb_cells rb = br_cells r \<and> block_digest sha fr b = Inr (rb_digest rb)
         \<and> record_digest sha fr r = Inr (rb_freeze rb) \<and> cells_exact b rb \<and> record_matches r rb)
    \<and> ro_split rt = sm_split m \<and> schedule_digest sha fr m = Inr (ro_schedule_sha rt)
    \<and> schedule_to_json sha fr m = Inr (ro_schedule rt) \<and> canon_digest sha fr (root_content rt) = Inr (ro_freeze rt)"
proof -
  obtain ids d found where ids: "expected_ids m owned = Inr ids" and d: "rfold add_record records [] = Inr d"
    and cover: "set (map fst d) = set ids" "length d = length ids"
    and found: "rmap (\<lambda>b. case map_of d (bl_id b) of None \<Rightarrow> Inr None
            | Some r \<Rightarrow> rbind (check_block sha fr b r) (\<lambda>x. Inr (Some x))) (sm_blocks m) = Inr found"
    and rt: "ro_blocks rt = List.map_filter id found" "ro_split rt = sm_split m"
      "lift_schedule (schedule_digest sha fr m) = Inr (ro_schedule_sha rt)"
      "lift_schedule (schedule_to_json sha fr m) = Inr (ro_schedule rt)"
      "lift_schedule (canon_digest sha fr (root_content rt)) = Inr (ro_freeze rt)"
    using assms(1) unfolding freeze_root_record_def Let_def
    by (auto simp: rbind_Inr guard_err_Inr root_content_def)
  have lifts: "schedule_digest sha fr m = Inr (ro_schedule_sha rt)" "canon_digest sha fr (root_content rt) = Inr (ro_freeze rt)"
    "schedule_to_json sha fr m = Inr (ro_schedule rt)"
    using rt(3-5) by (auto simp: lift_schedule_def split: sum.splits)
  have d: "d = map (\<lambda>r. (br_id r, r)) records" "distinct (map fst d)" using add_records_run [OF d] by auto
  note blocks = checked_blocks [OF found assms(2), folded rt(1)]
  have own: "ids = owned_ids m owned" by (rule expected_ids_Inr [OF ids])
  have names: "map rb_id (ro_blocks rt) = owned_ids m owned"
  proof -
    have "filter (\<lambda>i. i \<in> fst ` set d) (map bl_id (sm_blocks m)) = owned_ids m owned"
      using cover(1) own by (auto simp: owned_ids_def split: option.splits intro!: filter_cong)
    with blocks show ?thesis by simp
  qed
  have "card (set ids) = length ids" using cover d(2) distinct_card [OF d(2)] by simp
  then have dist: "distinct ids" by (rule card_distinct)
  moreover have keys: "map fst d = map br_id records" using d(1) by simp
  ultimately have "mset (map br_id records) = mset ids"
    using cover(1) d(2) by (metis set_eq_iff_mset_eq_distinct)
  moreover have "\<exists>b \<in> set (sm_blocks m). \<exists>r \<in> set records. rb_id rb = bl_id b \<and> br_id r = bl_id b \<and> rb_cells rb = br_cells r
         \<and> block_digest sha fr b = Inr (rb_digest rb) \<and> record_digest sha fr r = Inr (rb_freeze rb) \<and> cells_exact b rb
         \<and> record_matches r rb"
    if rb: "rb \<in> set (ro_blocks rt)" for rb
  proof -
    obtain b r where b: "b \<in> set (sm_blocks m)" "map_of d (bl_id b) = Some r" "check_block sha fr b r = Inr rb"
      using blocks rb by blast
    have "r \<in> set records \<and> br_id r = bl_id b" using map_of_SomeD [OF b(2)] d(1) by auto
    then show ?thesis using check_block_sound [OF b(3)] assms(2) b(1) by blast
  qed
  ultimately show ?thesis using names own dist lifts rt(2) by auto
qed

text \<open>
  C31. A frozen root is complete. Whatever records it was sealed from, a root names exactly the blocks of the
  share in schedule order, one record for each. Every record was terminal; the block digest it carries is the
  digest of the scheduled block, its own freeze hash verifies over its content, and the root repeats both with
  the record's pairing, reason and epochs, which are the epochs of its cells. The frozen cells of a block are
  exactly its scheduled cells, each with a terminal state, an output and an engine epoch; a block that counts
  as paired ran under one epoch with no reason against it and any other gives its reason; and the root's own
  hash covers all of it together with the whole schedule. (The records are those of the runner: keys the source
  does not write are not part of a record here.)
\<close>

theorem freeze_root_complete:
  assumes "freeze_root_record sha fr m run_id phase_id split records shard owned = Inr rt"
    and "\<forall>b \<in> set (sm_blocks m). distinct (map cell_quad (bl_cells b))"
  shows "map rb_id (ro_blocks rt) = owned_ids m owned \<and> distinct (map rb_id (ro_blocks rt))
    \<and> mset (map br_id records) = mset (map rb_id (ro_blocks rt))
    \<and> (\<forall>rb \<in> set (ro_blocks rt). \<exists>b \<in> set (sm_blocks m). \<exists>r \<in> set records.
         rb_id rb = bl_id b \<and> br_id r = bl_id b \<and> rb_cells rb = br_cells r \<and> block_digest sha fr b = Inr (rb_digest rb)
         \<and> record_digest sha fr r = Inr (rb_freeze rb) \<and> cells_exact b rb \<and> record_matches r rb)
    \<and> ro_split rt = sm_split m \<and> schedule_digest sha fr m = Inr (ro_schedule_sha rt)
    \<and> schedule_to_json sha fr m = Inr (ro_schedule rt) \<and> canon_digest sha fr (root_content rt) = Inr (ro_freeze rt)"
  by (rule freeze_root_sound [OF assms])

subsection \<open>Every record the runner builds can be hashed\<close>

lemma encodable_arm [simp]: "encodable (arm_content a)"
  unfolding arm_content_def by (rule encodable_fields) (simp add: encodable_dict_def)

lemma encodable_cell [simp]: "encodable (cell_content c)"
  unfolding cell_content_def by (rule encodable_fields) (simp add: encodable_dict_def)

lemma encodable_block [simp]: "encodable (block_content b)"
  unfolding block_content_def by (rule encodable_fields) (auto simp: encodable_dict_def)

lemma encodable_cell_record [simp]: "encodable (cell_record_content sealed r)"
  unfolding cell_record_content_def cell_fields_def by (rule encodable_fields) (simp add: encodable_dict_def)

lemma encodable_record: "encodable (record_content r)"
  unfolding record_content_def seal_fields_def
  by (rule encodable_fields) (auto simp: encodable_dict_def split: option.splits)

lemma encodable_root_block [simp]: "encodable (root_block_content r)"
  unfolding root_block_content_def root_block_fields_def by (rule encodable_fields) (auto simp: encodable_dict_def)

lemma encodable_root: "encodable (ro_schedule r) \<Longrightarrow> encodable (root_content r)"
  unfolding root_content_def by (rule encodable_fields) (auto simp: encodable_dict_def split: option.splits)

lemma canon_digest_encodable: "encodable v \<Longrightarrow> canon_digest sha fr v = Inr (sha256_hex sha (render fr v))"
  by (simp add: canon_digest_def canonical_json_encodable)

lemma length_sha256_hex: "length (sha x) = 32 \<Longrightarrow> length (sha256_hex sha x) = 64"
proof -
  have "length (hex_of s) = 2 * length s" for s by (induction s) auto
  then show "length (sha x) = 32 \<Longrightarrow> length (sha256_hex sha x) = 64" by (simp add: sha256_hex_def)
qed

lemma encodable_dict_sorted: "encodable_dict kvs \<Longrightarrow> encodable_dict (sort_key fst kvs)"
  by (simp add: encodable_dict_def distinct_map inj_on_def)

lemma schedule_encodable:
  assumes "encodable_dict (sm_notes m)"
  shows "encodable (str_dict (schedule_content m))" "encodable (str_dict (schedule_content m @ [(''schedule_sha256'', PStr d)]))"
proof -
  have "encodable (str_dict (sort_key fst (sm_notes m)))" by (rule encodable_fields) (rule encodable_dict_sorted [OF assms])
  then show "encodable (str_dict (schedule_content m))" "encodable (str_dict (schedule_content m @ [(''schedule_sha256'', PStr d)]))"
    unfolding schedule_content_def by (auto intro!: encodable_fields simp: encodable_dict_def)
qed

text \<open>The notes of every planned schedule can be encoded, the fraction of second seeds included.\<close>

lemma rbind_keep: "(\<And>y. m = Inr y \<Longrightarrow> f y = Inr x \<longrightarrow> P) \<Longrightarrow> rbind m f = Inr x \<longrightarrow> P"
  by (auto simp: rbind_Inr)

lemma rbind_post:
  "(\<And>y. f y = Inr x \<longrightarrow> P) \<Longrightarrow> rbind m f = Inr x \<longrightarrow> P"
  "(\<And>a b. g a b = Inr x \<longrightarrow> P) \<Longrightarrow> (case p of (a, b) \<Rightarrow> g a b) = Inr x \<longrightarrow> P"
  by (auto simp: rbind_Inr split: prod.splits)

lemma design_notes_encodable:
  "balanced_williams_assignments sha fr binding split tasks second n = Inr (plan, extra) \<longrightarrow> encodable_dict extra"
proof (cases "n = 1")
  case True
  then show ?thesis
    by (auto simp: balanced_williams_assignments_def single_arm_plan_def Let_def rbind_Inr encodable_dict_def)
next
  case False
  then show ?thesis unfolding balanced_williams_assignments_def Let_def
    by (simp only: if_False) (intro rbind_post, auto simp: encodable_dict_def)
qed

lemma planned_notes_encodable:
  "build_blocks sha fr binding protocol split task_ids arms seeds layer scope fraction = Inr m
    \<longrightarrow> encodable_dict (sm_notes m)"
  unfolding build_blocks_def Let_def
proof (intro rbind_keep)
  fix u y
  assume "balanced_williams_assignments sha fr binding split (sort task_ids)
      (second_seed_tasks sha binding split (sort task_ids) fraction) (length arms) = Inr y"
  then have "encodable_dict (snd y)" using design_notes_encodable by (cases y) auto
  then show "(case y of (plan, extra) \<Rightarrow> rbind (rmap (make_block sha fr binding split arms seeds plan)
        (coords_of (sort task_ids) (second_seed_tasks sha binding split (sort task_ids) fraction))) (\<lambda>blocks.
      Inr \<lparr>sm_binding = binding, sm_protocol = protocol, sm_split = split, sm_blocks = blocks, sm_arms = arms,
           sm_seeds = seeds, sm_layer = layer, sm_claim = scope,
           sm_notes =
             [(''tasks'', PInt (int (length (sort task_ids)))), (''blocks'', PInt (int (length blocks))),
              (''cells'', PInt (int (sum_list (map (length \<circ> bl_cells) blocks)))),
              (''second_seed_fraction'', PFloat (Finite fraction)),
              (''second_seed_task_count'', PInt (int (length (second_seed_tasks sha binding split (sort task_ids) fraction))))] @ extra\<rparr>))
      = Inr m \<longrightarrow> encodable_dict (sm_notes m)"
    by (cases y) (auto simp: rbind_Inr encodable_dict_def)
qed

subsection \<open>Sealing a campaign\<close>

text \<open>The epoch of a cell as the runner reads it, and the record it ends up with.\<close>

definition epoch_of :: "(sched_cell \<Rightarrow> string) \<Rightarrow> ledger \<Rightarrow> sched_cell \<Rightarrow> string" where
  "epoch_of key_of L c = (case find_row ce_work_key (key_of c) (epochs L) of None \<Rightarrow> [] | Some row \<Rightarrow> ce_engine_epoch row)"

definition sealed_cells :: "(sched_cell \<Rightarrow> string) \<Rightarrow> cell_states \<Rightarrow> (string \<times> string) list \<Rightarrow> ledger \<Rightarrow> sched_block \<Rightarrow> cell_record list" where
  "sealed_cells key_of states outputs L b = map (\<lambda>c. \<lparr>cr_cell = c, cr_state = map_of states (cell_key c),
     cr_output = (case map_of outputs (cell_key c) of None \<Rightarrow> [] | Some out \<Rightarrow> out), cr_epoch = epoch_of key_of L c\<rparr>) (bl_cells b)"

definition ready_block :: "cell_states \<Rightarrow> (string \<times> string) list \<Rightarrow> sched_block \<Rightarrow> bool" where
  "ready_block states outputs b \<longleftrightarrow> bl_cells b \<noteq> [] \<and> distinct (map cell_quad (bl_cells b)) \<and> distinct (map cell_key (bl_cells b))
     \<and> (\<forall>c \<in> set (bl_cells b). cell_is_terminal (map_of states (cell_key c))
          \<and> (\<exists>out. map_of outputs (cell_key c) = Some out \<and> out \<noteq> []))"

lemma block_cell_epochs_is:
  "distinct (map cell_key (bl_cells b)) \<Longrightarrow> block_cell_epochs key_of L b = map (\<lambda>c. (cell_key c, epoch_of key_of L c)) (bl_cells b)"
  unfolding block_cell_epochs_def epoch_of_def by (rule dict_of_distinct) (simp add: comp_def)

definition sealed_of ::
  "(string \<Rightarrow> string) \<Rightarrow> (real \<Rightarrow> string) \<Rightarrow> runner_config \<Rightarrow> (sched_cell \<Rightarrow> string) \<Rightarrow> cell_states \<Rightarrow> (string \<times> string) list
     \<Rightarrow> ledger \<Rightarrow> sched_block \<Rightarrow> block_record \<Rightarrow> bool" where
  "sealed_of sha fr cfg key_of states outputs L b r \<longleftrightarrow>
     br_id r = bl_id b \<and> br_terminal r \<and> digest_of_block sha fr b = Inr (br_digest r) \<and> record_digest sha fr r = Inr (br_freeze r)
     \<and> br_cells r = sealed_cells key_of states outputs L b
     \<and> (case paired_status b (map (\<lambda>c. (cell_key c, epoch_of key_of L c)) (bl_cells b)) of (paired, why) \<Rightarrow>
          br_seal r = Some \<lparr>se_binding = rc_binding cfg, se_protocol = rc_protocol cfg,
            se_epochs = sort (dedup (filter (\<lambda>e. e \<noteq> []) (map (epoch_of key_of L) (bl_cells b)))), se_paired = paired, se_invalid = why\<rparr>)"

lemma record_digest_total: "\<exists>d. record_digest sha fr r = Inr d"
  by (simp add: record_digest_def canon_digest_encodable [OF encodable_record])

lemma record_digest_freeze [simp]: "record_digest sha fr (r\<lparr>br_freeze := d\<rparr>) = record_digest sha fr r"
  by (simp add: record_digest_def record_content_def)

lemma freeze_then_seal:
  assumes "ready_block states outputs b"
  shows "\<exists>r0 r. freeze_record sha fr states outputs b = Inr r0 \<and> br_terminal r0
    \<and> seal_record sha fr (rc_binding cfg) (rc_protocol cfg) b (block_cell_epochs key_of L b) r0 = Inr r
    \<and> sealed_of sha fr cfg key_of states outputs L b r"
proof -
  let ?by = "map (\<lambda>c. (cell_key c, epoch_of key_of L c)) (bl_cells b)"
  have keys: "distinct (map cell_key (bl_cells b))" using assms by (simp add: ready_block_def)
  have by_cell: "block_cell_epochs key_of L b = ?by" by (rule block_cell_epochs_is [OF keys])
  obtain dg where dg: "digest_of_block sha fr b = Inr dg"
    by (simp add: digest_of_block_def block_digest_def canon_digest_encodable)
  have ended: "block_is_terminal b states" using assms by (auto simp: ready_block_def block_is_terminal_def list_all_iff)
  let ?r1 = "\<lparr>br_id = bl_id b, br_task = bl_task b, br_replicate = bl_replicate b,
              br_cells = map (\<lambda>c. \<lparr>cr_cell = c, cr_state = map_of states (cell_key c),
                cr_output = (case map_of outputs (cell_key c) of None \<Rightarrow> [] | Some out \<Rightarrow> out), cr_epoch = []\<rparr>) (bl_cells b),
              br_complete = block_is_complete b states, br_terminal = block_is_terminal b states,
              br_digest = dg, br_seal = None, br_freeze = []\<rparr>"
  obtain d1 where d1: "record_digest sha fr ?r1 = Inr d1" using record_digest_total by blast
  have r0: "freeze_record sha fr states outputs b = Inr (?r1\<lparr>br_freeze := d1\<rparr>)"
    using d1 by (simp add: freeze_record_def dg Let_def)
  have lookup: "map_of ?by (cell_key c) = Some (epoch_of key_of L c)" if "c \<in> set (bl_cells b)" for c
    using that keys by (intro map_of_is_SomeI) (auto simp: comp_def)
  obtain paired why where pw: "paired_status b ?by = (paired, why)" by (cases "paired_status b ?by")
  let ?r2 = "?r1\<lparr>br_freeze := d1, br_cells := sealed_cells key_of states outputs L b,
     br_seal := Some \<lparr>se_binding = rc_binding cfg, se_protocol = rc_protocol cfg,
            se_epochs = sort (dedup (filter (\<lambda>e. e \<noteq> []) (map (epoch_of key_of L) (bl_cells b)))), se_paired = paired, se_invalid = why\<rparr>\<rparr>"
  obtain d2 where d2: "record_digest sha fr ?r2 = Inr d2" using record_digest_total by blast
  have cells: "map (\<lambda>c. c\<lparr>cr_epoch := (case map_of ?by (cell_key (cr_cell c)) of None \<Rightarrow> [] | Some e \<Rightarrow> e)\<rparr>)
      (map (\<lambda>c. \<lparr>cr_cell = c, cr_state = map_of states (cell_key c),
                cr_output = (case map_of outputs (cell_key c) of None \<Rightarrow> [] | Some out \<Rightarrow> out), cr_epoch = []\<rparr>) (bl_cells b))
      = sealed_cells key_of states outputs L b"
    unfolding sealed_cells_def map_map by (rule map_cong [OF refl]) (simp add: lookup)
  have "seal_record sha fr (rc_binding cfg) (rc_protocol cfg) b ?by (?r1\<lparr>br_freeze := d1\<rparr>) = Inr (?r2\<lparr>br_freeze := d2\<rparr>)"
    using d2 cells by (simp add: seal_record_def pw Let_def comp_def)
  moreover have "sealed_of sha fr cfg key_of states outputs L b (?r2\<lparr>br_freeze := d2\<rparr>)"
  proof -
    have "record_digest sha fr (?r2\<lparr>br_freeze := d2\<rparr>) = Inr d2" using d2 by (simp only: record_digest_freeze)
    with dg ended pw show ?thesis by (simp add: sealed_of_def)
  qed
  ultimately show ?thesis using r0 ended by_cell by fastforce
qed

lemma paired_status_present:
  assumes "\<forall>p \<in> set by_cell. snd p \<noteq> []" "length by_cell = length (bl_cells b)" "by_cell \<noteq> []"
    and "paired_status b by_cell = (paired, why)"
  shows "if paired then length (dedup (map snd by_cell)) = 1 \<and> why = None else \<exists>w. why = Some w \<and> w \<noteq> []"
proof -
  have all: "filter (\<lambda>e. e \<noteq> []) (map snd by_cell) = map snd by_cell" using assms(1) by (auto simp: filter_id_conv)
  have none: "\<not> list_ex (\<lambda>e. e = []) (map snd by_cell)" using assms(1) by (auto simp: list_ex_iff)
  have "dedup (map snd by_cell) \<noteq> []" using assms(3) set_dedup [of "map snd by_cell"] by (metis list.map_disc_iff set_empty)
  then have "length (dedup (map snd by_cell)) \<ge> 1" by (simp add: Suc_leI)
  then show ?thesis using assms(2,4) none
    unfolding paired_status_def all Let_def by (auto split: if_splits)
qed

lemma sealed_block_checks:
  assumes sealed: "sealed_of sha fr cfg key_of states outputs L b r" and ready: "ready_block states outputs b"
    and sha: "\<And>x. length (sha x) = 32"
  shows "(\<exists>rb. check_block sha fr b r = Inr rb) \<longleftrightarrow> (\<forall>c \<in> set (bl_cells b). epoch_of key_of L c \<noteq> [])"
proof
  assume "\<exists>rb. check_block sha fr b r = Inr rb"
  then obtain rb where "check_block sha fr b r = Inr rb" by blast
  from check_block_sound(5,6) [OF this] ready have "\<forall>c \<in> set (br_cells r). cr_epoch c \<noteq> []"
    by (simp add: ready_block_def cells_exact_def)
  then show "\<forall>c \<in> set (bl_cells b). epoch_of key_of L c \<noteq> []" using sealed by (auto simp: sealed_of_def sealed_cells_def)
next
  assume eps: "\<forall>c \<in> set (bl_cells b). epoch_of key_of L c \<noteq> []"
  let ?by = "map (\<lambda>c. (cell_key c, epoch_of key_of L c)) (bl_cells b)"
  let ?expected = "map (\<lambda>c. (cell_quad c, cell_content c)) (bl_cells b)"
  have quads: "distinct (map cell_quad (bl_cells b))" and ne: "bl_cells b \<noteq> []" using ready by (simp_all add: ready_block_def)
  have dict: "dict_of ?expected = ?expected" by (rule dict_of_distinct) (use quads in \<open>simp add: comp_def\<close>)
  obtain paired why where pw: "paired_status b ?by = (paired, why)" by (cases "paired_status b ?by")
  let ?seal = "\<lparr>se_binding = rc_binding cfg, se_protocol = rc_protocol cfg,
            se_epochs = sort (dedup (filter (\<lambda>e. e \<noteq> []) (map (epoch_of key_of L) (bl_cells b)))), se_paired = paired, se_invalid = why\<rparr>"
  have r: "br_terminal r" "digest_of_block sha fr b = Inr (br_digest r)" "record_digest sha fr r = Inr (br_freeze r)"
    "br_cells r = sealed_cells key_of states outputs L b" "br_seal r = Some ?seal"
    using sealed pw by (auto simp: sealed_of_def)
  have "br_freeze r = sha256_hex sha (render fr (record_content r))"
    using r(3) by (simp add: record_digest_def canon_digest_encodable [OF encodable_record])
  then have len64: "length (br_freeze r) = 64" using length_sha256_hex [of sha, OF sha] by simp
  have quad_map: "map (cell_quad \<circ> cr_cell) (br_cells r) = map cell_quad (bl_cells b)" "map cr_epoch (br_cells r) = map (epoch_of key_of L) (bl_cells b)"
    by (simp_all add: r(4) sealed_cells_def comp_def)
  have "map_of ?expected (cell_quad c) = Some (cell_content c)" if "c \<in> set (bl_cells b)" for c
    using that quads by (intro map_of_is_SomeI) (auto simp: comp_def)
  then have each: "\<forall>x \<in> set (br_cells r). map_of ?expected (cell_quad (cr_cell x)) = Some (cell_content (cr_cell x))
         \<and> cr_epoch x \<noteq> [] \<and> cell_is_terminal (cr_state x) \<and> cr_output x \<noteq> []"
    using ready eps unfolding r(4) by (fastforce simp: sealed_cells_def ready_block_def)
  have dq: "distinct (map (cell_quad \<circ> cr_cell) (br_cells r))" unfolding quad_map(1) by (rule quads)
  have run: "rfold (check_cell (bl_id b) ?expected) (br_cells r) ([], [])
      = Inr (map cell_quad (bl_cells b), map (epoch_of key_of L) (bl_cells b))"
    using check_cells_pass [OF dq _ each, of "[]" "bl_id b" "[]"] quad_map by simp
  have all: "filter (\<lambda>e. e \<noteq> []) (map (epoch_of key_of L) (bl_cells b)) = map (epoch_of key_of L) (bl_cells b)"
    using eps by (auto simp: filter_id_conv)
  have pair_ok: "if paired then length (dedup (map (epoch_of key_of L) (bl_cells b))) = 1 \<and> why = None else \<exists>w. why = Some w \<and> w \<noteq> []"
    using paired_status_present [OF _ _ _ pw] eps ne by (auto simp: comp_def)
  have len: "length (br_cells r) = length ?expected" by (simp add: r(4) sealed_cells_def)
  show "\<exists>rb. check_block sha fr b r = Inr rb"
  proof (cases paired)
    case True
    then show ?thesis
      using pair_ok r len64 len run unfolding check_block_def dict Let_def by (simp add: all sorted_sort_id)
  next
    case False
    then show ?thesis
      using pair_ok r len64 len run unfolding check_block_def dict Let_def by (auto simp: all sorted_sort_id)
  qed
qed

lemma epochs_incident [simp]: "epochs (record_incident severity kind detail key clk L) = epochs L"
  by (simp add: record_incident_def)

lemma epoch_of_cong: "epochs L = epochs L' \<Longrightarrow> epoch_of key_of L = epoch_of key_of L'"
  by (rule ext) (simp add: epoch_of_def)

lemma sealed_of_cong: "epochs L = epochs L' \<Longrightarrow> sealed_of sha fr cfg key_of states outputs L b r = sealed_of sha fr cfg key_of states outputs L' b r"
  by (simp add: sealed_of_def sealed_cells_def epoch_of_cong [of L L'])

lemma freeze_block_ready:
  assumes "ready_block states outputs b" and "block_filename (bl_id b) \<notin> fst ` set d"
  shows "\<exists>r L' doc. freeze_block sha fr cfg key_of states outputs clk b (frozen, d, L)
      = Inr (frozen @ [r], d @ [(block_filename (bl_id b), doc)], L')
    \<and> epochs L' = epochs L \<and> sealed_of sha fr cfg key_of states outputs L b r"
proof -
  obtain r0 r where r: "freeze_record sha fr states outputs b = Inr r0" "br_terminal r0"
    "seal_record sha fr (rc_binding cfg) (rc_protocol cfg) b (block_cell_epochs key_of L b) r0 = Inr r"
    "sealed_of sha fr cfg key_of states outputs L b r"
    using freeze_then_seal [OF assms(1)] by blast
  have "map_of d (block_filename (bl_id b)) = None" using assms(2) by (simp add: map_of_eq_None_iff)
  then show ?thesis using r by (auto simp: freeze_block_def write_once_def split: option.splits)
qed

lemma block_filename_inj: "block_filename i = block_filename j \<longleftrightarrow> i = j"
  by (simp add: block_filename_def)

lemma freeze_loop_ready:
  assumes "\<forall>b \<in> set blocks. ready_block states outputs b" and "distinct (map bl_id blocks)"
    and "\<forall>b \<in> set blocks. block_filename (bl_id b) \<notin> fst ` set d"
  shows "\<exists>rs L' docs. rfold (freeze_block sha fr cfg key_of states outputs clk) blocks (frozen, d, L)
      = Inr (frozen @ rs, d @ List.zip (map (block_filename \<circ> bl_id) blocks) docs, L')
    \<and> length docs = length blocks \<and> list_all2 (sealed_of sha fr cfg key_of states outputs L) blocks rs"
  using assms
proof (induction blocks arbitrary: frozen d L)
  case (Cons b blocks)
  obtain r L1 doc where one: "freeze_block sha fr cfg key_of states outputs clk b (frozen, d, L)
      = Inr (frozen @ [r], d @ [(block_filename (bl_id b), doc)], L1)" "epochs L1 = epochs L"
    "sealed_of sha fr cfg key_of states outputs L b r"
    using freeze_block_ready [of states outputs b d sha fr cfg key_of clk frozen L] Cons.prems by auto
  have "\<forall>b' \<in> set blocks. block_filename (bl_id b') \<notin> fst ` set (d @ [(block_filename (bl_id b), doc)])"
  proof
    fix b' assume mem: "b' \<in> set blocks"
    then have "bl_id b' \<noteq> bl_id b" using Cons.prems(2) by (metis distinct.simps(2) imageI list.set_map list.simps(9))
    moreover have "block_filename (bl_id b') \<notin> fst ` set d" using Cons.prems(3) mem by simp
    ultimately show "block_filename (bl_id b') \<notin> fst ` set (d @ [(block_filename (bl_id b), doc)])"
      by (simp add: block_filename_inj)
  qed
  moreover have "\<forall>b \<in> set blocks. ready_block states outputs b" "distinct (map bl_id blocks)"
    using Cons.prems(1,2) by simp_all
  ultimately obtain rs L' docs where rest: "rfold (freeze_block sha fr cfg key_of states outputs clk) blocks
        (frozen @ [r], d @ [(block_filename (bl_id b), doc)], L1)
      = Inr ((frozen @ [r]) @ rs, (d @ [(block_filename (bl_id b), doc)]) @ List.zip (map (block_filename \<circ> bl_id) blocks) docs, L')"
    "length docs = length blocks" "list_all2 (sealed_of sha fr cfg key_of states outputs L1) blocks rs"
    using Cons.IH [of "d @ [(block_filename (bl_id b), doc)]" "frozen @ [r]" L1] by blast
  have "rfold (freeze_block sha fr cfg key_of states outputs clk) (b # blocks) (frozen, d, L)
      = Inr (frozen @ (r # rs), d @ List.zip (map (block_filename \<circ> bl_id) (b # blocks)) (doc # docs), L')"
    using one(1) rest(1) by simp
  moreover have "list_all2 (sealed_of sha fr cfg key_of states outputs L) (b # blocks) (r # rs)"
    using one(3) list_all2_mono [OF rest(3)] sealed_of_cong [OF one(2)] by simp
  moreover have "length (doc # docs) = length (b # blocks)" using rest(2) by simp
  ultimately show ?case by blast
qed simp

lemma add_records_ok:
  assumes "distinct (map br_id rs)" "[] \<notin> br_id ` set rs" "br_id ` set rs \<inter> fst ` set d = {}"
  shows "rfold add_record rs d = Inr (d @ map (\<lambda>r. (br_id r, r)) rs)"
  using assms by (induction rs arbitrary: d) (auto simp: add_record_def dict_put_new)

lemma sealing_iff_epochs:
  assumes "sm_binding m = rc_binding cfg" "sm_protocol m = rc_protocol cfg" "rc_run cfg \<noteq> []" "phase_id \<noteq> []"
    and "rc_shard cfg = None" "rc_owned cfg = None" and notes_ok: "encodable_dict (sm_notes m)"
    and ids: "distinct (map bl_id (sm_blocks m))" "[] \<notin> bl_id ` set (sm_blocks m)" "''FREEZE_ROOT'' \<notin> bl_id ` set (sm_blocks m)"
    and ready: "\<forall>b \<in> set (sm_blocks m). ready_block states outputs b" and sha: "\<And>x. length (sha x) = 32"
  shows "(\<exists>s. freeze_blocks sha fr cfg key_of states outputs clk m phase_id (sm_split m) [] L = Inr s)
    \<longleftrightarrow> (\<forall>b \<in> set (sm_blocks m). \<forall>c \<in> set (bl_cells b). epoch_of key_of L c \<noteq> [])"
proof -
  let ?blocks = "sm_blocks m"
  have mine: "filter (owns cfg) ?blocks = ?blocks" using assms(6) by (simp add: owns_def filter_id_conv)
  obtain rs L' docs where loop: "rfold (freeze_block sha fr cfg key_of states outputs clk) ?blocks ([], [], L)
      = Inr (rs, List.zip (map (block_filename \<circ> bl_id) ?blocks) docs, L')"
    and docs: "length docs = length ?blocks" and sealed: "list_all2 (sealed_of sha fr cfg key_of states outputs L) ?blocks rs"
  proof -
    have "\<forall>b \<in> set ?blocks. block_filename (bl_id b) \<notin> fst ` set []" by simp
    from freeze_loop_ready [OF ready ids(1) this, of sha fr cfg key_of clk "[]" L] that show ?thesis
      unfolding append_Nil by blast
  qed
  let ?d = "List.zip (map (block_filename \<circ> bl_id) ?blocks) docs"
  have br_ids: "map br_id rs = map bl_id ?blocks" by (rule list_all2_map_agree [OF sealed]) (simp add: sealed_of_def)
  have names: "map fst ?d = map (block_filename \<circ> bl_id) ?blocks" using docs by simp
  have rootname: "root_filename = block_filename ''FREEZE_ROOT''" by (simp add: root_filename_def block_filename_def)
  have "fst ` set ?d = block_filename ` bl_id ` set ?blocks"
    using arg_cong [OF names, of set] by (simp add: image_image)
  then have "root_filename \<notin> fst ` set ?d" using ids(3) unfolding rootname by (auto simp: block_filename_inj)
  then have fresh: "map_of ?d root_filename = None" by (simp add: map_of_eq_None_iff)
  let ?by_id = "map (\<lambda>r. (br_id r, r)) rs"
  have keys: "map fst ?by_id = map bl_id ?blocks" using br_ids by (simp add: comp_def)
  have records: "rfold add_record rs [] = Inr ?by_id"
  proof -
    have "br_id ` set rs = bl_id ` set ?blocks" using arg_cong [OF br_ids, of set] by simp
    then show ?thesis using add_records_ok [of rs "[]"] ids(1,2) br_ids by simp
  qed
  have found: "\<exists>r. map_of ?by_id (bl_id b) = Some r \<and> sealed_of sha fr cfg key_of states outputs L b r" if mem: "b \<in> set ?blocks" for b
  proof -
    obtain i where i: "i < length ?blocks" "b = ?blocks ! i" using mem by (auto simp: in_set_conv_nth)
    then have r: "sealed_of sha fr cfg key_of states outputs L b (rs ! i)" "i < length rs"
      using sealed by (auto simp: list_all2_conv_all_nth)
    have "br_id (rs ! i) = bl_id b" using r(1) by (simp add: sealed_of_def)
    then have "(bl_id b, rs ! i) \<in> set ?by_id" using nth_mem [OF r(2)] by (simp add: rev_image_eqI)
    then show ?thesis using r(1) keys ids(1) by (intro exI [of _ "rs ! i"]) (simp add: comp_def)
  qed
  let ?check = "\<lambda>b. case map_of ?by_id (bl_id b) of None \<Rightarrow> Inr None | Some r \<Rightarrow> rbind (check_block sha fr b r) (\<lambda>x. Inr (Some x))"
  have checks: "(\<exists>x. ?check b = Inr x) \<longleftrightarrow> (\<forall>c \<in> set (bl_cells b). epoch_of key_of L c \<noteq> [])" if b: "b \<in> set ?blocks" for b
  proof -
    obtain r where r: "map_of ?by_id (bl_id b) = Some r" "sealed_of sha fr cfg key_of states outputs L b r" using found [OF b] by blast
    have "(\<exists>rb. check_block sha fr b r = Inr rb) \<longleftrightarrow> (\<forall>c \<in> set (bl_cells b). epoch_of key_of L c \<noteq> [])"
      by (rule sealed_block_checks [OF r(2) _ sha]) (use ready b in blast)
    then show ?thesis unfolding r(1) option.case by (auto simp: rbind_Inr)
  qed
  have all_checks: "(\<exists>xs. rmap ?check ?blocks = Inr xs) \<longleftrightarrow> (\<forall>b \<in> set ?blocks. \<forall>c \<in> set (bl_cells b). epoch_of key_of L c \<noteq> [])"
  proof
    assume "\<exists>xs. rmap ?check ?blocks = Inr xs"
    then obtain xs where "list_all2 (\<lambda>b x. ?check b = Inr x) ?blocks xs" by (auto simp: rmap_Inr_iff)
    then have "\<exists>x. ?check b = Inr x" if "b \<in> set ?blocks" for b
      using that by (auto simp: list_all2_conv_all_nth in_set_conv_nth)
    with checks show "\<forall>b \<in> set ?blocks. \<forall>c \<in> set (bl_cells b). epoch_of key_of L c \<noteq> []" by blast
  qed (use checks rmap_total [of ?blocks ?check] in blast)
  obtain dg where dg: "schedule_digest sha fr m = Inr dg"
    using canon_digest_encodable [OF schedule_encodable(1) [OF notes_ok]] by (simp add: schedule_digest_def)
  have json: "schedule_to_json sha fr m = Inr (str_dict (schedule_content m @ [(''schedule_sha256'', PStr dg)]))"
    by (simp add: schedule_to_json_def dg)
  have root_hash: "\<exists>h. canon_digest sha fr (root_content x) = Inr h"
    if "ro_schedule x = str_dict (schedule_content m @ [(''schedule_sha256'', PStr dg)])" for x
    using canon_digest_encodable [OF encodable_root] schedule_encodable(2) [OF notes_ok] that by simp
  have lengths: "length ?by_id = length (map bl_id ?blocks)" "set (map fst ?by_id) = set (map bl_id ?blocks)"
    using br_ids keys map_eq_imp_length_eq by fastforce+
  have root_iff: "(\<exists>x. freeze_root_record sha fr m (rc_run cfg) phase_id (sm_split m) rs None None = Inr x)
      \<longleftrightarrow> (\<exists>xs. rmap ?check ?blocks = Inr xs)"
  proof
    assume "\<exists>xs. rmap ?check ?blocks = Inr xs"
    then obtain xs where xs: "rmap ?check ?blocks = Inr xs" by blast
    show "\<exists>x. freeze_root_record sha fr m (rc_run cfg) phase_id (sm_split m) rs None None = Inr x"
    proof -
      let ?rt = "\<lparr>ro_run = rc_run cfg, ro_phase = phase_id, ro_split = sm_split m, ro_binding = sm_binding m,
        ro_protocol = sm_protocol m, ro_schedule_sha = dg,
        ro_schedule = str_dict (schedule_content m @ [(''schedule_sha256'', PStr dg)]),
        ro_blocks = List.map_filter id xs, ro_shard = None, ro_freeze = []\<rparr>"
      obtain h where "canon_digest sha fr (root_content ?rt) = Inr h" using root_hash [of ?rt] by auto
      then show ?thesis
        using assms(3,4) xs lengths records
        by (simp add: freeze_root_record_def expected_ids_def Let_def dg json lift_schedule_def image_image)
    qed
  qed (auto simp: freeze_root_record_def expected_ids_def Let_def rbind_Inr records)
  have written: "\<exists>d'. write_once sha fr root_filename h c ?d = Inr d'" for h c using fresh by (simp add: write_once_def)
  have "(\<exists>s. freeze_blocks sha fr cfg key_of states outputs clk m phase_id (sm_split m) [] L = Inr s)
      \<longleftrightarrow> (\<exists>x. freeze_root_record sha fr m (rc_run cfg) phase_id (sm_split m) rs None None = Inr x)"
  proof -
    have len: "length rs = length ?blocks" using list_all2_lengthD [OF sealed] by simp
    have guard: "set (map fst ?d) \<subseteq> insert root_filename (set (map (block_filename \<circ> bl_id) ?blocks))
        \<and> set (map (block_filename \<circ> bl_id) ?blocks) \<subseteq> set (map fst ?d)"
      unfolding names by blast
    have "freeze_blocks sha fr cfg key_of states outputs clk m phase_id (sm_split m) [] L
        = rbind (freeze_root_record sha fr m (rc_run cfg) phase_id (sm_split m) rs None None) (\<lambda>x.
            rbind (write_once sha fr root_filename (ro_freeze x) (root_content x) ?d) (\<lambda>d. Inr (rs, d, L')))"
      unfolding freeze_blocks_def mine Let_def loop rbind_simps prod.case if_P [OF len]
      unfolding guard_err_def if_P [OF guard] using assms(1,2,5) by simp
    then show ?thesis using written by (auto simp: rbind_Inr)
  qed
  with root_iff all_checks show ?thesis by blast
qed


subsection \<open>A campaign of one cell\<close>

definition example_cell :: sched_cell where
  "example_cell = \<lparr>ce_block = ''B1'', ce_task = ''t'', ce_arm = \<lparr>as_id = ''P0'', as_page = ''P0'', as_close = ''P0''\<rparr>,
     ce_seed = 1, ce_replicate = ''0'', ce_order = 0\<rparr>"

definition example_block :: sched_block where
  "example_block = \<lparr>bl_id = ''B1'', bl_task = ''t'', bl_replicate = ''0'', bl_cells = [example_cell]\<rparr>"

definition example_manifest :: schedule_manifest where
  "example_manifest = \<lparr>sm_binding = ''b'', sm_protocol = ''p'', sm_split = ''dev'', sm_blocks = [example_block],
     sm_arms = [ce_arm example_cell], sm_seeds = [1], sm_layer = ''l'', sm_claim = ''c'', sm_notes = []\<rparr>"

definition example_sha :: "string \<Rightarrow> string" where
  "example_sha x = replicate 32 (CHR ''x'')"

definition example_digest :: string where
  "example_digest = hex_of (replicate 32 (CHR ''x''))"

definition example_record :: block_record where
  "example_record = \<lparr>br_id = ''B1'', br_task = ''t'', br_replicate = ''0'',
     br_cells = [\<lparr>cr_cell = example_cell, cr_state = Some COMMITTED, cr_output = ''out'', cr_epoch = ''e1''\<rparr>],
     br_complete = True, br_terminal = True, br_digest = example_digest,
     br_seal = Some \<lparr>se_binding = ''b'', se_protocol = ''p'', se_epochs = [''e1''], se_paired = True, se_invalid = None\<rparr>,
     br_freeze = example_digest\<rparr>"

definition example_states :: cell_states where
  "example_states = [(cell_key example_cell, COMMITTED)]"

definition example_config :: runner_config where
  "example_config = \<lparr>rc_run = ''r'', rc_shard = None, rc_owned = None, rc_binding = ''b'', rc_protocol = ''p''\<rparr>"

lemma example_hash: "encodable v \<Longrightarrow> canon_digest example_sha fr v = Inr example_digest"
  by (simp add: canon_digest_encodable sha256_hex_def example_sha_def example_digest_def)

lemma example_check: "\<exists>rb. check_block example_sha fr example_block example_record = Inr rb"
proof -
  have len: "length example_digest = 64"
    using length_sha256_hex [of example_sha "[]"] by (simp add: example_sha_def example_digest_def sha256_hex_def)
  then show ?thesis
    by (simp add: check_block_def digest_of_block_def block_digest_def record_digest_def example_hash encodable_record
        example_block_def example_record_def dict_of_def check_cell_def cell_is_terminal_def terminal_states_def dedup_def Let_def)
qed

lemma example_root: "\<exists>rt. freeze_root_record example_sha fr example_manifest ''r'' ''ph'' ''dev'' [example_record] None None = Inr rt"
proof -
  obtain rb where block: "check_block example_sha fr example_block example_record = Inr rb" using example_check by blast
  have notes_ok: "encodable_dict (sm_notes example_manifest)" by (simp add: example_manifest_def encodable_dict_def)
  have dg: "schedule_digest example_sha fr example_manifest = Inr example_digest"
    unfolding schedule_digest_def by (rule example_hash) (rule schedule_encodable(1) [OF notes_ok])
  have root_hash: "canon_digest example_sha fr (root_content x) = Inr example_digest"
    if "ro_schedule x = str_dict (schedule_content example_manifest @ [(''schedule_sha256'', PStr example_digest)])" for x
    by (rule example_hash [OF encodable_root]) (simp add: that schedule_encodable(2) [OF notes_ok])
  have blocks: "sm_blocks example_manifest = [example_block]" "sm_split example_manifest = ''dev''"
    "bl_id example_block = ''B1''" "br_id example_record = ''B1''"
    by (simp_all add: example_manifest_def example_block_def example_record_def)
  show ?thesis
    by (simp add: freeze_root_record_def expected_ids_def add_record_def blocks block dg schedule_to_json_def
        lift_schedule_def root_hash Let_def)
qed

theorem freeze_root_complete_witness:
  "\<exists>rt. freeze_root_record example_sha (\<lambda>_. ''0'') example_manifest ''r'' ''ph'' ''dev'' [example_record] None None = Inr rt
    \<and> map rb_id (ro_blocks rt) = [''B1'']"
proof -
  obtain rt where rt: "freeze_root_record example_sha (\<lambda>_. ''0'') example_manifest ''r'' ''ph'' ''dev'' [example_record] None None = Inr rt"
    using example_root by blast
  have "\<forall>b \<in> set (sm_blocks example_manifest). distinct (map cell_quad (bl_cells b))"
    by (simp add: example_manifest_def example_block_def)
  from freeze_root_complete [OF rt this] rt show ?thesis
    by (simp add: owned_ids_def example_manifest_def example_block_def)
qed


end
