(* ===== verification/Sharding.thy ===== *)
theory Sharding
  imports FreezeRoot
begin

text \<open>
  \<^verbatim>\<open>src/src/shapeflow/campaign/sharding.py\<close>: the tasks of one schedule partitioned over lanes before
  treatment, the manifest that freezes the partition, its verification, and the merge of the lanes' frozen
  roots. A manifest and a frozen root are the typed dicts the code writes: a lane id is the integer whose text is
  the JSON key, and a cost is a real number where the code has a float.
\<close>

subsection \<open>Lanes and the partition\<close>

record lane =
  ln_shard :: int
  ln_gpu :: string
  ln_vllm :: int
  ln_provider :: int
  ln_root :: string
  ln_paid :: bool

datatype shard_error =
    NoLanes
  | NotNumbered
  | SharedGpu
  | SharedPort
  | SharedRunnerRoot
  | NotOnePaid
  | NoCost "string list"
  | NoLaneFor string
  | ShardSchedule schedule_error
  | ManifestHash
  | OtherSchedule
  | OtherBinding
  | TasksNotCovered
  | CellTwice string
  | CellsNotAsPartitioned
  | RootsNotPerLane
  | RootSchedule int
  | RootSplit int
  | RootHash int
  | UnscheduledBlock int string
  | BlockTwice string
  | ForeignBlock int string
  | CellRepeated quad
  | BlocksMissing "string list"
  | CellsNotRegistered
  | SharedEpoch int int

definition lane_content :: "lane \<Rightarrow> pyval" where
  "lane_content l = str_dict
     [(''shard_id'', PInt (ln_shard l)), (''gpu_uuid'', PStr (ln_gpu l)), (''vllm_port'', PInt (ln_vllm l)),
      (''provider_port'', PInt (ln_provider l)), (''runner_root'', PStr (ln_root l)),
      (''serves_paid_upstreams'', PBool (ln_paid l))]"

definition assignment_version :: string where
  "assignment_version = ''task_atomic_lpt_by_frozen_corpus_bytes_v1''"

text \<open>The first index of the smallest load.\<close>

definition lightest :: "real list \<Rightarrow> nat" where
  "lightest loads = foldl (\<lambda>best i. if loads ! i < loads ! best then i else best) 0 [1..<length loads]"

definition place_task :: "(string \<Rightarrow> real) \<Rightarrow> real list \<times> (string \<times> nat) list \<Rightarrow> string \<Rightarrow> real list \<times> (string \<times> nat) list" where
  "place_task cost s t =
     (case s of (loads, assignment) \<Rightarrow>
       let lane = lightest loads
       in (loads[lane := loads ! lane + cost t], dict_put t lane assignment))"

definition cost_of_task :: "(string \<times> real) list \<Rightarrow> string \<Rightarrow> real" where
  "cost_of_task costs t = (case map_of costs t of None \<Rightarrow> 0 | Some c \<Rightarrow> c)"

definition placing_order :: "(string \<Rightarrow> string) \<Rightarrow> string \<Rightarrow> (string \<times> real) list \<Rightarrow> string list" where
  "placing_order sha binding costs =
     (let task_ids = sort (map fst costs);
          order = seeded_permutation sha task_ids (derive_seed sha [binding, assignment_version, ''tie_break'']);
          tie_rank = dict_of (List.zip order [0..<length order])
      in sort_key (\<lambda>t. (- cost_of_task costs t, case map_of tie_rank t of None \<Rightarrow> 0 | Some i \<Rightarrow> i)) task_ids)"

definition assign_tasks_to_lanes ::
  "(string \<Rightarrow> string) \<Rightarrow> (string \<times> real) list \<Rightarrow> nat \<Rightarrow> string \<Rightarrow> shard_error + (string \<times> nat) list" where
  "assign_tasks_to_lanes sha costs lane_count binding =
     (if lane_count < 1 then Inl NoLanes
      else if costs = [] then Inr []
      else Inr (snd (foldl (place_task (cost_of_task costs)) (replicate lane_count 0, []) (placing_order sha binding costs))))"

subsection \<open>The shard manifest\<close>

record shard_manifest =
  sd_binding :: string
  sd_protocol :: string
  sd_schedule_sha :: string
  sd_stack :: string
  sd_split :: string
  sd_layer :: string
  sd_lanes :: "lane list"
  sd_costs :: "(string \<times> real) list"
  sd_task_to :: "(string \<times> int) list"
  sd_cells :: "(int \<times> string list) list"
  sd_blocks :: "(int \<times> string list) list"
  sd_total :: int
  sd_sha :: string

definition by_shard_content :: "(int \<times> string list) list \<Rightarrow> pyval" where
  "by_shard_content d = str_dict (map (\<lambda>(k, xs). (show_int k, PList (map PStr xs))) d)"

definition shard_content :: "shard_manifest \<Rightarrow> pyval" where
  "shard_content s = str_dict
     [(''schema_version'', PStr ''shard_manifest_v1''), (''assignment_version'', PStr assignment_version),
      (''execution_binding_sha256'', PStr (sd_binding s)), (''protocol_sha256'', PStr (sd_protocol s)),
      (''schedule_sha256'', PStr (sd_schedule_sha s)), (''stack_manifest_sha256'', PStr (sd_stack s)),
      (''split'', PStr (sd_split s)), (''layer'', PStr (sd_layer s)),
      (''lane_count'', PInt (int (length (sd_lanes s)))), (''lanes'', PList (map lane_content (sd_lanes s))),
      (''balance_proxy'', PStr ''frozen_corpus_bytes''),
      (''task_costs'', str_dict (map (\<lambda>(t, c). (t, PFloat (Finite c))) (sd_costs s))),
      (''task_to_shard'', str_dict (map (\<lambda>(t, k). (t, PInt k)) (sd_task_to s))),
      (''cells_by_shard'', by_shard_content (sd_cells s)), (''blocks_by_shard'', by_shard_content (sd_blocks s)),
      (''total_cells'', PInt (sd_total s))]"

definition shard_digest :: "(string \<Rightarrow> string) \<Rightarrow> (real \<Rightarrow> string) \<Rightarrow> pyval \<Rightarrow> shard_error + string" where
  "shard_digest sha fr v = (case canon_digest sha fr v of Inl e \<Rightarrow> Inl (ShardSchedule e) | Inr d \<Rightarrow> Inr d)"

definition shard_schedule_digest ::
  "(string \<Rightarrow> string) \<Rightarrow> (real \<Rightarrow> string) \<Rightarrow> schedule_manifest \<Rightarrow> shard_error + string" where
  "shard_schedule_digest sha fr m = (case schedule_digest sha fr m of Inl e \<Rightarrow> Inl (ShardSchedule e) | Inr d \<Rightarrow> Inr d)"

definition check_lanes :: "lane list \<Rightarrow> shard_error + unit" where
  "check_lanes lanes =
     (if lanes = [] then Inl NoLanes
      else if sort (map ln_shard lanes) \<noteq> map int [0..<length lanes] then Inl NotNumbered
      else if \<not> distinct (map ln_gpu lanes) \<or> \<not> list_all (\<lambda>l. starts_with ''GPU-'' (ln_gpu l)) lanes then Inl SharedGpu
      else if \<not> distinct (map ln_vllm lanes @ map ln_provider lanes) then Inl SharedPort
      else if \<not> distinct (map ln_root lanes) then Inl SharedRunnerRoot
      else if length (filter ln_paid lanes) \<noteq> 1 then Inl NotOnePaid
      else Inr ())"

definition owner :: "(string \<times> 'i) list \<Rightarrow> string \<Rightarrow> shard_error + 'i" where
  "owner assignment t = (case map_of assignment t of None \<Rightarrow> Inl (NoLaneFor t) | Some k \<Rightarrow> Inr k)"

definition add_under :: "int \<Rightarrow> string \<Rightarrow> (int \<times> string list) list \<Rightarrow> (int \<times> string list) list" where
  "add_under k x d = map (\<lambda>(a, xs). if a = k then (a, xs @ [x]) else (a, xs)) d"

text \<open>Names grouped by the lane that owns their task: one empty group per lane, filled in order.\<close>

definition group_by_lane ::
  "lane list \<Rightarrow> (string \<times> nat) list \<Rightarrow> (string \<times> string) list \<Rightarrow> shard_error + (int \<times> string list) list" where
  "group_by_lane lanes assignment task_names =
     rbind (rfold (\<lambda>(t, name) d. rbind (owner assignment t) (\<lambda>k. Inr (add_under (int k) name d)))
              task_names (dict_of (map (\<lambda>l. (ln_shard l, [])) lanes))) (\<lambda>d.
     Inr (map (\<lambda>(k, xs). (k, sort xs)) (sort_key fst d)))"

definition scheduled_tasks :: "schedule_manifest \<Rightarrow> string list" where
  "scheduled_tasks m = sort (dedup (map bl_task (sm_blocks m)))"

definition build_shard_manifest ::
  "(string \<Rightarrow> string) \<Rightarrow> (real \<Rightarrow> string) \<Rightarrow> schedule_manifest \<Rightarrow> lane list \<Rightarrow> (string \<times> real) list \<Rightarrow> string \<Rightarrow> string
     \<Rightarrow> shard_error + shard_manifest" where
  "build_shard_manifest sha fr m lanes costs stack protocol =
     rbind (check_lanes lanes) (\<lambda>_.
     let tasks = scheduled_tasks m; missing = filter (\<lambda>t. map_of costs t = None) tasks;
         used = map (\<lambda>t. (t, cost_of_task costs t)) tasks in
     rbind (guard_err (missing = []) (NoCost (take 5 missing))) (\<lambda>_.
     rbind (assign_tasks_to_lanes sha used (length lanes) (sm_binding m)) (\<lambda>assignment.
     rbind (group_by_lane lanes assignment (map (\<lambda>c. (ce_task c, cell_key c)) (sched_cells m))) (\<lambda>cells.
     rbind (group_by_lane lanes assignment (map (\<lambda>b. (bl_task b, bl_id b)) (sm_blocks m))) (\<lambda>blocks.
     rbind (shard_schedule_digest sha fr m) (\<lambda>digest.
     let s = \<lparr>sd_binding = sm_binding m, sd_protocol = protocol, sd_schedule_sha = digest, sd_stack = stack,
              sd_split = sm_split m, sd_layer = sm_layer m, sd_lanes = lanes, sd_costs = used,
              sd_task_to = sort_key fst (map (\<lambda>(t, k). (t, int k)) assignment), sd_cells = cells, sd_blocks = blocks,
              sd_total = int (length (sched_cells m)), sd_sha = []\<rparr>
     in rbind (shard_digest sha fr (shard_content s)) (\<lambda>d. Inr (s\<lparr>sd_sha := d\<rparr>))))))))"

subsection \<open>Verification\<close>

definition declare_cell :: "int \<Rightarrow> string \<Rightarrow> (string \<times> int) list \<Rightarrow> shard_error + (string \<times> int) list" where
  "declare_cell shard key declared =
     (if key \<in> fst ` set declared then Inl (CellTwice key) else Inr (dict_put key shard declared))"

definition declared_cells :: "(int \<times> string list) list \<Rightarrow> shard_error + (string \<times> int) list" where
  "declared_cells d = rfold (\<lambda>(shard, keys) declared. rfold (declare_cell shard) keys declared) d []"

definition verify_shard_manifest ::
  "(string \<Rightarrow> string) \<Rightarrow> (real \<Rightarrow> string) \<Rightarrow> shard_manifest \<Rightarrow> schedule_manifest \<Rightarrow> shard_error + unit" where
  "verify_shard_manifest sha fr s m =
     rbind (guard_err (sd_sha s \<noteq> []) ManifestHash) (\<lambda>_.
     rbind (shard_digest sha fr (shard_content s)) (\<lambda>actual.
     rbind (guard_err (actual = sd_sha s) ManifestHash) (\<lambda>_.
     rbind (shard_schedule_digest sha fr m) (\<lambda>digest.
     rbind (guard_err (sd_schedule_sha s = digest) OtherSchedule) (\<lambda>_.
     rbind (guard_err (sd_binding s = sm_binding m) OtherBinding) (\<lambda>_.
     rbind (guard_err (set (map fst (sd_task_to s)) = set (map bl_task (sm_blocks m))) TasksNotCovered) (\<lambda>_.
     rbind (declared_cells (sd_cells s)) (\<lambda>declared.
     rbind (rmap (\<lambda>c. rbind (owner (sd_task_to s) (ce_task c)) (\<lambda>k. Inr (cell_key c, k))) (sched_cells m)) (\<lambda>expected.
     guard_err (set declared = set (dict_of expected)) CellsNotAsPartitioned)))))))))"

subsection \<open>The merge\<close>

record merge_state =
  mg_blocks :: "(string \<times> int) list"
  mg_cells :: "(quad \<times> int) list"
  mg_epochs :: "(int \<times> string list) list"
  mg_merged :: "(int \<times> root_block) list"

definition merge_cell :: "int \<Rightarrow> cell_record \<Rightarrow> (quad \<times> int) list \<Rightarrow> shard_error + (quad \<times> int) list" where
  "merge_cell shard raw seen =
     (let key = cell_quad (cr_cell raw)
      in if key \<in> fst ` set seen then Inl (CellRepeated key) else Inr (dict_put key shard seen))"

definition merge_block ::
  "schedule_manifest \<Rightarrow> (string \<times> int) list \<Rightarrow> int \<Rightarrow> root_block \<Rightarrow> merge_state \<times> string list
     \<Rightarrow> shard_error + merge_state \<times> string list" where
  "merge_block m assignment shard r st =
     (case st of (s, lane_epochs) \<Rightarrow>
       case map_of (dict_of (map (\<lambda>b. (bl_id b, b)) (sm_blocks m))) (rb_id r) of
         None \<Rightarrow> Inl (UnscheduledBlock shard (rb_id r))
       | Some b \<Rightarrow>
           if rb_id r \<in> fst ` set (mg_blocks s) then Inl (BlockTwice (rb_id r))
           else if map_of assignment (bl_task b) \<noteq> Some shard then Inl (ForeignBlock shard (rb_id r))
           else rbind (rfold (merge_cell shard) (rb_cells r) (mg_cells s)) (\<lambda>cells.
             Inr (s\<lparr>mg_blocks := dict_put (rb_id r) shard (mg_blocks s), mg_cells := cells,
                    mg_merged := mg_merged s @ [(shard, r)]\<rparr>, lane_epochs @ map cr_epoch (rb_cells r))))"

definition merge_lane ::
  "(string \<Rightarrow> string) \<Rightarrow> (real \<Rightarrow> string) \<Rightarrow> schedule_manifest \<Rightarrow> (string \<times> int) list \<Rightarrow> int \<times> campaign_root \<Rightarrow> merge_state
     \<Rightarrow> shard_error + merge_state" where
  "merge_lane sha fr m assignment kr s =
     (case kr of (shard, rt) \<Rightarrow>
       rbind (shard_schedule_digest sha fr m) (\<lambda>digest.
       rbind (guard_err (ro_schedule_sha rt = digest) (RootSchedule shard)) (\<lambda>_.
       rbind (guard_err (ro_split rt = sm_split m) (RootSplit shard)) (\<lambda>_.
       rbind (guard_err (ro_freeze rt \<noteq> []) (RootHash shard)) (\<lambda>_.
       rbind (shard_digest sha fr (root_content rt)) (\<lambda>actual.
       rbind (guard_err (actual = ro_freeze rt) (RootHash shard)) (\<lambda>_.
       rbind (rfold (merge_block m assignment shard) (ro_blocks rt) (s, [])) (\<lambda>(s, lane_epochs).
         Inr (s\<lparr>mg_epochs := dict_put shard (dedup lane_epochs) (mg_epochs s)\<rparr>)))))))))"

definition shared_epochs :: "(int \<times> string list) list \<Rightarrow> (int \<times> int) list" where
  "shared_epochs d =
     (let lanes = sort_key fst d
      in concat (map (\<lambda>(left, es). map (\<lambda>(right, fs). (left, right))
           (filter (\<lambda>(right, fs). left < right \<and> list_ex (\<lambda>e. e \<in> set fs) es) lanes)) lanes))"

record merged_root =
  mr_shard_sha :: string
  mr_binding :: string
  mr_protocol :: string
  mr_schedule_sha :: string
  mr_split :: string
  mr_lane_count :: int
  mr_roots :: "(int \<times> string) list"
  mr_epochs :: "(int \<times> string list) list"
  mr_blocks :: "(int \<times> root_block) list"
  mr_total :: int
  mr_sha :: string

definition merged_content :: "merged_root \<Rightarrow> pyval" where
  "merged_content r = str_dict
     [(''schema_version'', PStr ''merged_campaign_root_v1''), (''shard_manifest_sha256'', PStr (mr_shard_sha r)),
      (''execution_binding_sha256'', PStr (mr_binding r)), (''protocol_sha256'', PStr (mr_protocol r)),
      (''schedule_sha256'', PStr (mr_schedule_sha r)), (''split'', PStr (mr_split r)),
      (''lane_count'', PInt (mr_lane_count r)),
      (''lane_freeze_roots'', str_dict (map (\<lambda>(k, h). (show_int k, PStr h)) (mr_roots r))),
      (''engine_epochs_by_lane'', by_shard_content (mr_epochs r)),
      (''blocks'', PList (map (\<lambda>(k, rb). str_dict (root_block_fields rb @ [(''shard_id'', PInt k)])) (mr_blocks r))),
      (''total_cells'', PInt (mr_total r))]"

definition merge_shard_freeze_roots ::
  "(string \<Rightarrow> string) \<Rightarrow> (real \<Rightarrow> string) \<Rightarrow> shard_manifest \<Rightarrow> schedule_manifest \<Rightarrow> (int \<times> campaign_root) list
     \<Rightarrow> shard_error + merged_root" where
  "merge_shard_freeze_roots sha fr body m roots =
     rbind (verify_shard_manifest sha fr body m) (\<lambda>_.
     rbind (guard_err (set (map fst roots) = set (map ln_shard (sd_lanes body))) RootsNotPerLane) (\<lambda>_.
     rbind (rfold (merge_lane sha fr m (sd_task_to body)) (sort_key fst roots)
              \<lparr>mg_blocks = [], mg_cells = [], mg_epochs = [], mg_merged = []\<rparr>) (\<lambda>s.
     let expected = dedup (map bl_id (sm_blocks m)) in
     rbind (guard_err (set (map fst (mg_blocks s)) = set expected)
       (BlocksMissing (take 5 (sort (filter (\<lambda>i. i \<notin> fst ` set (mg_blocks s)) expected))))) (\<lambda>_.
     rbind (guard_err (set (map fst (mg_cells s)) = set (map cell_quad (sched_cells m))) CellsNotRegistered) (\<lambda>_.
     rbind (case shared_epochs (mg_epochs s) of [] \<Rightarrow> Inr () | (l, r) # _ \<Rightarrow> Inl (SharedEpoch l r)) (\<lambda>_.
     rbind (shard_schedule_digest sha fr m) (\<lambda>digest.
     let r = \<lparr>mr_shard_sha = sd_sha body, mr_binding = sm_binding m, mr_protocol = sm_protocol m,
              mr_schedule_sha = digest, mr_split = sm_split m, mr_lane_count = int (length (dedup (map ln_shard (sd_lanes body)))),
              mr_roots = map (\<lambda>(k, rt). (k, ro_freeze rt)) (sort_key fst roots),
              mr_epochs = map (\<lambda>(k, es). (k, sort es)) (sort_key fst (mg_epochs s)),
              mr_blocks = sort_key (rb_id \<circ> snd) (mg_merged s), mr_total = int (length (mg_cells s)), mr_sha = []\<rparr>
     in rbind (shard_digest sha fr (merged_content r)) (\<lambda>d. Inr (r\<lparr>mr_sha := d\<rparr>)))))))))"

end
