(* ===== verification/ShardMerge.thy ===== *)
theory ShardMerge
  imports Sharding FreezeRootProps
begin

text \<open>
  The merge of the lanes: the exact conditions under which each loop of it passes and the state it then
  leaves, from which both directions follow: what a merged campaign guarantees, and that roots frozen under
  the partition always merge when the lanes were separate engines.
\<close>

subsection \<open>The loops\<close>

text \<open>A loop whose body passes exactly when its element is good and the state it leads to is still in order.\<close>

lemma rfold_iff:
  assumes step: "\<And>x s s'. ok s \<Longrightarrow> f x s = Inr s' \<longleftrightarrow> good x \<and> ok (g x s) \<and> s' = g x s"
    and early: "\<And>x s. ok (g x s) \<Longrightarrow> ok s" and start: "ok s"
  shows "rfold f xs s = Inr s' \<longleftrightarrow> (\<forall>x \<in> set xs. good x) \<and> ok (fold g xs s) \<and> s' = fold g xs s"
  using start
proof (induction xs arbitrary: s)
  case (Cons x xs)
  have first: "ok t" if "ok (fold g ys t)" for ys t using that by (induction ys arbitrary: t) (auto dest: early)
  have "rfold f (x # xs) s = Inr s' \<longleftrightarrow> good x \<and> ok (g x s) \<and> rfold f xs (g x s) = Inr s'"
    using step [OF Cons.prems, of x] by (auto simp: rbind_Inr)
  then show ?case using Cons.IH [of "g x s"] first [of xs "g x s"] by auto
qed auto

definition cell_marks :: "int \<Rightarrow> cell_record list \<Rightarrow> (quad \<times> int) list" where
  "cell_marks k raws = map (\<lambda>c. (cell_quad (cr_cell c), k)) raws"

definition block_marks :: "int \<Rightarrow> root_block list \<Rightarrow> (string \<times> int) list" where
  "block_marks k rbs = map (\<lambda>rb. (rb_id rb, k)) rbs"

lemma merge_cells_iff:
  assumes "distinct (map fst seen)"
  shows "rfold (merge_cell k) raws seen = Inr seen'
    \<longleftrightarrow> distinct (map fst (seen @ cell_marks k raws)) \<and> seen' = seen @ cell_marks k raws"
  using assms
proof (induction raws arbitrary: seen)
  case (Cons r raws)
  let ?q = "cell_quad (cr_cell r)"
  show ?case
  proof (cases "?q \<in> fst ` set seen")
    case False
    then have "merge_cell k r seen = Inr (seen @ [(?q, k)])" by (simp add: merge_cell_def Let_def dict_put_new)
    moreover have "distinct (map fst (seen @ [(?q, k)]))" using Cons.prems False by simp
    ultimately show ?thesis using Cons.IH [of "seen @ [(?q, k)]"] by (simp add: cell_marks_def)
  qed (auto simp: merge_cell_def Let_def cell_marks_def)
qed (auto simp: cell_marks_def)

text \<open>A frozen block that the schedule has and whose task the partition gives to the lane.\<close>

definition belongs :: "schedule_manifest \<Rightarrow> (string \<times> int) list \<Rightarrow> int \<Rightarrow> root_block \<Rightarrow> bool" where
  "belongs m owners k rb \<longleftrightarrow> (\<exists>b. map_of (dict_of (map (\<lambda>b. (bl_id b, b)) (sm_blocks m))) (rb_id rb) = Some b
     \<and> map_of owners (bl_task b) = Some k)"

definition lane_cells :: "root_block list \<Rightarrow> cell_record list" where
  "lane_cells rbs = concat (map rb_cells rbs)"

definition merged_with :: "int \<Rightarrow> root_block list \<Rightarrow> merge_state \<Rightarrow> merge_state" where
  "merged_with k rbs s = s\<lparr>mg_blocks := mg_blocks s @ block_marks k rbs, mg_cells := mg_cells s @ cell_marks k (lane_cells rbs),
     mg_merged := mg_merged s @ map (Pair k) rbs\<rparr>"

definition once :: "merge_state \<Rightarrow> bool" where
  "once s \<longleftrightarrow> distinct (map fst (mg_blocks s)) \<and> distinct (map fst (mg_cells s))"

lemma merged_with_Nil [simp]: "merged_with k [] s = s"
  by (simp add: merged_with_def block_marks_def cell_marks_def lane_cells_def)

lemma merged_with_Cons: "merged_with k rbs (merged_with k [rb] s) = merged_with k (rb # rbs) s"
  by (simp add: merged_with_def block_marks_def cell_marks_def lane_cells_def)

lemma once_merged_with: "once (merged_with k rbs s) \<Longrightarrow> once s"
  by (auto simp: once_def merged_with_def)

lemma merge_block_Inr:
  assumes "once s"
  shows "merge_block m owners k rb (s, es) = Inr st
    \<longleftrightarrow> belongs m owners k rb \<and> once (merged_with k [rb] s) \<and> st = (merged_with k [rb] s, es @ map cr_epoch (rb_cells rb))"
proof (cases "map_of (dict_of (map (\<lambda>b. (bl_id b, b)) (sm_blocks m))) (rb_id rb)")
  case None
  then show ?thesis by (simp add: merge_block_def belongs_def)
next
  case (Some b)
  have cells: "distinct (map fst (mg_cells s))" and blocks: "distinct (map fst (mg_blocks s))" using assms by (auto simp: once_def)
  show ?thesis
  proof (cases "rb_id rb \<in> fst ` set (mg_blocks s) \<or> map_of owners (bl_task b) \<noteq> Some k")
    case True
    then show ?thesis using Some by (auto simp: merge_block_def belongs_def once_def merged_with_def block_marks_def)
  next
    case False
    then show ?thesis using Some blocks
      by (auto simp: merge_block_def belongs_def rbind_Inr merge_cells_iff [OF cells] once_def merged_with_def
          block_marks_def lane_cells_def dict_put_new)
  qed
qed

lemma merge_blocks_iff:
  assumes "once s"
  shows "rfold (merge_block m owners k) rbs (s, es) = Inr st
    \<longleftrightarrow> (\<forall>rb \<in> set rbs. belongs m owners k rb) \<and> once (merged_with k rbs s)
      \<and> st = (merged_with k rbs s, es @ map cr_epoch (lane_cells rbs))"
proof -
  let ?g = "\<lambda>rb (s, es). (merged_with k [rb] s, es @ map cr_epoch (rb_cells rb))"
  have run: "fold ?g rbs (s, es) = (merged_with k rbs s, es @ map cr_epoch (lane_cells rbs))" for s es
    by (induction rbs arbitrary: s es) (simp_all add: merged_with_Cons lane_cells_def)
  have step: "merge_block m owners k rb s = Inr s' \<longleftrightarrow> belongs m owners k rb \<and> once (fst (?g rb s)) \<and> s' = ?g rb s"
    if "once (fst s)" for rb s s'
    using that merge_block_Inr by (cases s) simp
  have early: "once (fst s)" if "once (fst (?g rb s))" for rb s
    using that once_merged_with by (auto simp: case_prod_beta)
  show ?thesis
    using rfold_iff [where ok = "\<lambda>s. once (fst s)" and g = ?g and good = "belongs m owners k"
        and s = "(s, es)" and xs = rbs and s' = st, OF step early]
      assms run by simp
qed

text \<open>One lane: its root verifies and every block of it belongs.\<close>

definition root_accepted ::
  "(string \<Rightarrow> string) \<Rightarrow> (real \<Rightarrow> string) \<Rightarrow> schedule_manifest \<Rightarrow> (string \<times> int) list \<Rightarrow> int \<times> campaign_root \<Rightarrow> bool" where
  "root_accepted sha fr m owners kr \<longleftrightarrow> (case kr of (k, rt) \<Rightarrow>
     schedule_digest sha fr m = Inr (ro_schedule_sha rt) \<and> ro_split rt = sm_split m \<and> ro_freeze rt \<noteq> []
     \<and> canon_digest sha fr (root_content rt) = Inr (ro_freeze rt) \<and> (\<forall>rb \<in> set (ro_blocks rt). belongs m owners k rb))"

definition lane_epochs :: "campaign_root \<Rightarrow> string list" where
  "lane_epochs rt = dedup (map cr_epoch (lane_cells (ro_blocks rt)))"

definition with_lane :: "int \<times> campaign_root \<Rightarrow> merge_state \<Rightarrow> merge_state" where
  "with_lane kr s = (case kr of (k, rt) \<Rightarrow>
     (merged_with k (ro_blocks rt) s)\<lparr>mg_epochs := dict_put k (lane_epochs rt) (mg_epochs s)\<rparr>)"

lemma once_epochs [simp]: "once (s\<lparr>mg_epochs := e\<rparr>) = once s"
  by (simp add: once_def)

lemma once_with_lane: "once (with_lane kr s) \<Longrightarrow> once s"
  by (auto simp: with_lane_def case_prod_beta dest: once_merged_with)

lemma shard_digest_Inr: "shard_digest sha fr v = Inr d \<longleftrightarrow> canon_digest sha fr v = Inr d"
  by (auto simp: shard_digest_def split: sum.splits)

lemma shard_schedule_digest_Inr: "shard_schedule_digest sha fr m = Inr d \<longleftrightarrow> schedule_digest sha fr m = Inr d"
  by (auto simp: shard_schedule_digest_def split: sum.splits)

lemma merge_lane_Inr:
  assumes "once s"
  shows "merge_lane sha fr m owners kr s = Inr s'
    \<longleftrightarrow> root_accepted sha fr m owners kr \<and> once (with_lane kr s) \<and> s' = with_lane kr s"
proof -
  obtain k rt where kr: "kr = (k, rt)" by (cases kr)
  have es: "mg_epochs (merged_with k rbs s) = mg_epochs s" for rbs by (simp add: merged_with_def)
  show ?thesis
    unfolding merge_lane_def kr prod.case rbind_Inr guard_err_Inr shard_digest_Inr shard_schedule_digest_Inr merge_blocks_iff [OF assms]
      root_accepted_def with_lane_def lane_epochs_def once_epochs
    by (auto simp: es)
qed

lemma with_lane_append:
  "mg_blocks (fold with_lane krs s) = mg_blocks s @ concat (map (\<lambda>(k, rt). block_marks k (ro_blocks rt)) krs)"
  "mg_cells (fold with_lane krs s) = mg_cells s @ concat (map (\<lambda>(k, rt). cell_marks k (lane_cells (ro_blocks rt))) krs)"
  "mg_merged (fold with_lane krs s) = mg_merged s @ concat (map (\<lambda>(k, rt). map (Pair k) (ro_blocks rt)) krs)"
  by (induction krs arbitrary: s) (auto simp: with_lane_def merged_with_def split: prod.splits)

lemma with_lanes_epochs:
  "distinct (map fst (mg_epochs s) @ map fst krs)
    \<Longrightarrow> mg_epochs (fold with_lane krs s) = mg_epochs s @ map (\<lambda>(k, rt). (k, lane_epochs rt)) krs"
proof (induction krs arbitrary: s)
  case (Cons kr krs)
  obtain k rt where kr: "kr = (k, rt)" by (cases kr)
  have "k \<notin> fst ` set (mg_epochs s)" using Cons.prems by (auto simp: kr)
  then have put: "mg_epochs (with_lane kr s) = mg_epochs s @ [(k, lane_epochs rt)]"
    by (simp add: with_lane_def kr dict_put_new merged_with_def)
  then have "distinct (map fst (mg_epochs (with_lane kr s)) @ map fst krs)" using Cons.prems by (simp add: kr)
  then show ?case using Cons.IH [of "with_lane kr s"] put by (simp add: kr)
qed simp

lemma merge_lanes_iff:
  assumes "once s"
  shows "rfold (merge_lane sha fr m owners) krs s = Inr s'
    \<longleftrightarrow> (\<forall>kr \<in> set krs. root_accepted sha fr m owners kr) \<and> once (fold with_lane krs s) \<and> s' = fold with_lane krs s"
  by (rule rfold_iff [where ok = once]) (use assms merge_lane_Inr once_with_lane in auto)

subsection \<open>The merged campaign\<close>

lemma shared_epochs_none:
  "shared_epochs d = [] \<longleftrightarrow> (\<forall>(l, es) \<in> set d. \<forall>(r, fs) \<in> set d. l < r \<longrightarrow> set es \<inter> set fs = {})"
  unfolding shared_epochs_def Let_def by (auto simp: filter_empty_conv list_ex_iff split: prod.splits) blast+

lemma mset_concat_map: "mset (concat (map f xs)) = (\<Sum>x \<in># mset xs. mset (f x))"
  by (induction xs) auto

lemma distinct_concat_perm: "mset xs = mset ys \<Longrightarrow> distinct (concat (map f xs)) \<longleftrightarrow> distinct (concat (map f ys))"
  by (metis mset_concat_map mset_eq_imp_distinct_iff)

definition frozen_pairs :: "(int \<times> campaign_root) list \<Rightarrow> (int \<times> root_block) list" where
  "frozen_pairs roots = concat (map (\<lambda>(k, rt). map (Pair k) (ro_blocks rt)) roots)"

definition pair_quads :: "int \<times> root_block \<Rightarrow> quad list" where
  "pair_quads p = map (cell_quad \<circ> cr_cell) (rb_cells (snd p))"

lemma marks_of_pairs:
  "map fst (concat (map (\<lambda>(k, rt). block_marks k (ro_blocks rt)) roots)) = map (rb_id \<circ> snd) (frozen_pairs roots)"
  "map fst (concat (map (\<lambda>(k, rt). cell_marks k (lane_cells (ro_blocks rt))) roots)) = concat (map pair_quads (frozen_pairs roots))"
proof -
  show "map fst (concat (map (\<lambda>(k, rt). block_marks k (ro_blocks rt)) roots)) = map (rb_id \<circ> snd) (frozen_pairs roots)"
    by (induction roots) (auto simp: frozen_pairs_def block_marks_def)
  have "map fst (cell_marks k (lane_cells rbs)) = concat (map pair_quads (map (Pair k) rbs))" for k rbs
    by (induction rbs) (auto simp: cell_marks_def lane_cells_def pair_quads_def)
  then show "map fst (concat (map (\<lambda>(k, rt). cell_marks k (lane_cells (ro_blocks rt))) roots)) = concat (map pair_quads (frozen_pairs roots))"
    by (induction roots) (auto simp: frozen_pairs_def)
qed

abbreviation empty_merge :: merge_state where
  "empty_merge \<equiv> \<lparr>mg_blocks = [], mg_cells = [], mg_epochs = [], mg_merged = []\<rparr>"

text \<open>When the lanes' loop passes, and what it leaves.\<close>

definition lanes_pass ::
  "(string \<Rightarrow> string) \<Rightarrow> (real \<Rightarrow> string) \<Rightarrow> schedule_manifest \<Rightarrow> (string \<times> int) list \<Rightarrow> (int \<times> campaign_root) list \<Rightarrow> bool" where
  "lanes_pass sha fr m owners roots \<longleftrightarrow> (\<forall>kr \<in> set roots. root_accepted sha fr m owners kr)
     \<and> distinct (map (rb_id \<circ> snd) (frozen_pairs roots)) \<and> distinct (concat (map pair_quads (frozen_pairs roots)))"

lemma merge_loop:
  "rfold (merge_lane sha fr m owners) roots empty_merge = Inr s
    \<longleftrightarrow> lanes_pass sha fr m owners roots \<and> s = fold with_lane roots empty_merge"
proof -
  have start: "once empty_merge" by (simp add: once_def)
  show ?thesis
    unfolding merge_lanes_iff [OF start] lanes_pass_def once_def with_lane_append
    by (auto simp: marks_of_pairs simp del: map_concat)
qed

lemma loop_state:
  assumes "s = fold with_lane roots empty_merge"
  shows "map fst (mg_blocks s) = map (rb_id \<circ> snd) (frozen_pairs roots)"
    "map fst (mg_cells s) = concat (map pair_quads (frozen_pairs roots))" "mg_merged s = frozen_pairs roots"
    "distinct (map fst roots) \<Longrightarrow> mg_epochs s = map (\<lambda>(k, rt). (k, lane_epochs rt)) roots"
  unfolding assms with_lane_append marks_of_pairs [symmetric]
  using with_lanes_epochs [of empty_merge roots] by (simp_all add: frozen_pairs_def)

definition separate_engines :: "(int \<times> campaign_root) list \<Rightarrow> bool" where
  "separate_engines roots \<longleftrightarrow>
     (\<forall>(k, rt) \<in> set roots. \<forall>(l, ru) \<in> set roots. k < l \<longrightarrow> set (lane_epochs rt) \<inter> set (lane_epochs ru) = {})"

lemma frozen_pairs_sorted: "mset (frozen_pairs (sort_key fst roots)) = mset (frozen_pairs roots)"
  unfolding frozen_pairs_def mset_concat_map by simp

lemma lanes_pass_sorted: "lanes_pass sha fr m owners (sort_key fst roots) \<longleftrightarrow> lanes_pass sha fr m owners roots"
proof -
  have "distinct (map (rb_id \<circ> snd) (frozen_pairs (sort_key fst roots))) \<longleftrightarrow> distinct (map (rb_id \<circ> snd) (frozen_pairs roots))"
    by (metis frozen_pairs_sorted mset_eq_imp_distinct_iff mset_map)
  moreover have "distinct (concat (map pair_quads (frozen_pairs (sort_key fst roots)))) \<longleftrightarrow> distinct (concat (map pair_quads (frozen_pairs roots)))"
    by (rule distinct_concat_perm) (rule frozen_pairs_sorted)
  ultimately show ?thesis by (simp add: lanes_pass_def)
qed

lemma set_frozen_pairs_sorted: "set (frozen_pairs (sort_key fst roots)) = set (frozen_pairs roots)"
  by (metis frozen_pairs_sorted set_mset_mset)

lemma encodable_by_shard [simp]: "encodable (by_shard_content d)"
  unfolding by_shard_content_def by (rule encodable_fields) (auto simp: encodable_dict_def)

lemma encodable_merged [simp]: "encodable (merged_content r)"
proof -
  have "encodable (str_dict (map (\<lambda>(k, h). (show_int k, PStr h)) (mr_roots r)))"
    by (rule encodable_fields) (auto simp: encodable_dict_def)
  moreover have "encodable (str_dict (root_block_fields rb @ [(''shard_id'', PInt k)]))" for rb k
    unfolding root_block_fields_def by (rule encodable_fields) (auto simp: encodable_dict_def)
  ultimately show ?thesis unfolding merged_content_def by (intro encodable_fields) (auto simp: encodable_dict_def)
qed

text \<open>The exact conditions under which a campaign merges.\<close>

definition mergeable ::
  "(string \<Rightarrow> string) \<Rightarrow> (real \<Rightarrow> string) \<Rightarrow> shard_manifest \<Rightarrow> schedule_manifest \<Rightarrow> (int \<times> campaign_root) list \<Rightarrow> bool" where
  "mergeable sha fr body m roots \<longleftrightarrow> verify_shard_manifest sha fr body m = Inr ()
     \<and> fst ` set roots = ln_shard ` set (sd_lanes body) \<and> lanes_pass sha fr m (sd_task_to body) roots
     \<and> (rb_id \<circ> snd) ` set (frozen_pairs roots) = bl_id ` set (sm_blocks m)
     \<and> set (concat (map pair_quads (frozen_pairs roots))) = cell_quad ` set (sched_cells m) \<and> separate_engines roots"

lemma no_shared_epochs:
  assumes "s = fold with_lane (sort_key fst roots) empty_merge" "distinct (map fst roots)"
  shows "shared_epochs (mg_epochs s) = [] \<longleftrightarrow> separate_engines roots"
proof -
  have "distinct (map fst (sort_key fst roots))" using assms(2) by (metis mset_eq_imp_distinct_iff mset_map mset_sort)
  note epochs = loop_state(4) [OF assms(1) this]
  show ?thesis unfolding shared_epochs_none epochs separate_engines_def by (auto simp: case_prod_beta)
qed

lemma merge_runs:
  assumes keys: "distinct (map fst roots)"
  shows "(\<exists>r. merge_shard_freeze_roots sha fr body m roots = Inr r) \<longleftrightarrow> mergeable sha fr body m roots"
    and "merge_shard_freeze_roots sha fr body m roots = Inr r \<Longrightarrow>
      mr_blocks r = sort_key (rb_id \<circ> snd) (frozen_pairs (sort_key fst roots))
      \<and> mr_total r = int (length (concat (map pair_quads (frozen_pairs roots))))"
proof -
  let ?s = "fold with_lane (sort_key fst roots) empty_merge"
  note st = loop_state [of ?s "sort_key fst roots", OF refl]
  have blocks: "(rb_id \<circ> snd) ` set (frozen_pairs roots) = fst ` set (mg_blocks ?s)"
    using st(1) set_frozen_pairs_sorted [of roots] by (metis image_set)
  have cells: "set (concat (map pair_quads (frozen_pairs roots))) = fst ` set (mg_cells ?s)"
    using arg_cong [OF st(2), of set] set_frozen_pairs_sorted [of roots] by simp
  have total: "length (mg_cells ?s) = length (concat (map pair_quads (frozen_pairs roots)))"
  proof -
    have "length (map fst (mg_cells ?s)) = length (concat (map pair_quads (frozen_pairs roots)))"
      unfolding st(2) by (metis frozen_pairs_sorted mset_concat_map size_mset)
    then show ?thesis by simp
  qed
  note shared = no_shared_epochs [OF refl keys]
  have hashed: "\<exists>d. canon_digest sha fr (merged_content r) = Inr d" for r
    by (simp add: canon_digest_encodable)
  have ok: "mergeable sha fr body m roots \<longleftrightarrow> verify_shard_manifest sha fr body m = Inr ()
     \<and> fst ` set roots = ln_shard ` set (sd_lanes body) \<and> lanes_pass sha fr m (sd_task_to body) roots
     \<and> fst ` set (mg_blocks ?s) = bl_id ` set (sm_blocks m) \<and> fst ` set (mg_cells ?s) = cell_quad ` set (sched_cells m)
     \<and> shared_epochs (mg_epochs ?s) = []"
    unfolding mergeable_def blocks cells shared ..
  show "(\<exists>r. merge_shard_freeze_roots sha fr body m roots = Inr r) \<longleftrightarrow> mergeable sha fr body m roots"
  proof
    assume "\<exists>r. merge_shard_freeze_roots sha fr body m roots = Inr r"
    then show "mergeable sha fr body m roots"
      unfolding merge_shard_freeze_roots_def Let_def rbind_Inr guard_err_Inr merge_loop lanes_pass_sorted ok
      by (auto split: list.splits)
  next
    assume right: "mergeable sha fr body m roots"
    then obtain digest where "schedule_digest sha fr m = Inr digest"
      by (auto simp: mergeable_def verify_shard_manifest_def rbind_Inr guard_err_Inr shard_schedule_digest_Inr)
    then show "\<exists>r. merge_shard_freeze_roots sha fr body m roots = Inr r"
      using right hashed
      unfolding merge_shard_freeze_roots_def Let_def rbind_Inr guard_err_Inr merge_loop lanes_pass_sorted shard_schedule_digest_Inr
        shard_digest_Inr ok
      by auto
  qed
  show "merge_shard_freeze_roots sha fr body m roots = Inr r \<Longrightarrow>
      mr_blocks r = sort_key (rb_id \<circ> snd) (frozen_pairs (sort_key fst roots))
      \<and> mr_total r = int (length (concat (map pair_quads (frozen_pairs roots))))"
    unfolding merge_shard_freeze_roots_def Let_def rbind_Inr merge_loop using st(3) total by auto
qed

end
