(* ===== verification/LaneLoads.thy ===== *)
theory LaneLoads
  imports Prelude
begin

text \<open>
  Loads of lanes under an assignment, and what placing the next smaller task on a lightest lane costs:
  the load it reaches is at most four thirds of what any other assignment of the same tasks reaches.
\<close>

definition load :: "('t \<Rightarrow> real) \<Rightarrow> ('t \<Rightarrow> nat) \<Rightarrow> 't set \<Rightarrow> nat \<Rightarrow> real" where
  "load c f S j = sum c {t \<in> S. f t = j}"

lemma sum_loads: "finite S \<Longrightarrow> f ` S \<subseteq> {..<n} \<Longrightarrow> (\<Sum>j<n. load c f S j) = sum c S"
  unfolding load_def by (rule sum.group) auto

lemma card_fibres:
  fixes J :: "nat set"
  shows "finite S \<Longrightarrow> finite J \<Longrightarrow> f ` S \<subseteq> J \<Longrightarrow> (\<Sum>j \<in> J. card {t \<in> S. f t = j}) = card S"
  using sum.group [of S J f "\<lambda>_. 1::nat"] by simp

lemma card_lanes: "finite S \<Longrightarrow> f ` S \<subseteq> {..<n} \<Longrightarrow> (\<Sum>j<n. card {t \<in> S. f t = j}) = card S" for n :: nat
  by (rule card_fibres) auto

lemma card_marks: "B \<subseteq> {..<n} \<Longrightarrow> (\<Sum>j<n. if j \<in> B then 1 else 0) = card B" for n :: nat
  by (simp add: sum.If_cases Int_absorb1)

lemma load_insert: "finite S \<Longrightarrow> t \<notin> S \<Longrightarrow> load c f (insert t S) j = load c f S j + (if f t = j then c t else 0)"
proof -
  assume S: "finite S" "t \<notin> S"
  have "{u \<in> insert t S. f u = j} = (if f t = j then insert t {u \<in> S. f u = j} else {u \<in> S. f u = j})" by auto
  with S show ?thesis by (simp add: load_def)
qed

lemma load_cong: "(\<And>t. t \<in> S \<Longrightarrow> f t = g t) \<Longrightarrow> load c f S j = load c g S j"
  unfolding load_def by (rule arg_cong [where f = "sum c"]) auto

lemma lightest_below:
  assumes "finite S" "f ` S \<subseteq> {..<n}" "0 < n" "(\<And>j. j < n \<Longrightarrow> b \<le> load c f S j)"
  shows "real n * b \<le> sum c S"
  using sum_bounded_below [of "{..<n}" b "load c f S"] assms sum_loads [OF assms(1,2), of c] by simp

text \<open>Two tasks of one lane.\<close>

lemma pair_load:
  assumes "finite S" "\<And>t. t \<in> S \<Longrightarrow> 0 \<le> c t" "x \<in> S" "y \<in> S" "x \<noteq> y" "f x = j" "f y = j"
  shows "c x + c y \<le> load c f S j"
proof -
  have "sum c {x, y} \<le> load c f S j" unfolding load_def by (rule sum_mono2) (use assms in auto)
  with assms(5) show ?thesis by simp
qed

lemma one_load:
  assumes "finite S" "\<And>t. t \<in> S \<Longrightarrow> 0 \<le> c t" "x \<in> S"
  shows "c x \<le> load c f S (f x)"
proof -
  have "sum c {x} \<le> load c f S (f x)" unfolding load_def by (rule sum_mono2) (use assms in auto)
  then show ?thesis by simp
qed

text \<open>The last task is big: every lane of the other assignment holds at most two of the tasks.\<close>

lemma big_tasks_fit:
  assumes S: "finite S" "t \<notin> S" and pos: "0 \<le> c t" and smallest: "\<And>x. x \<in> S \<Longrightarrow> c t \<le> c x"
    and lanes: "a ` S \<subseteq> {..<n}" "f ` insert t S \<subseteq> {..<n}"
    and least: "\<And>j. j < n \<Longrightarrow> l \<le> load c a S j"
    and other: "\<And>j. j < n \<Longrightarrow> load c f (insert t S) j \<le> T"
    and big: "T < 3 * c t"
  shows "3 * (l + c t) \<le> 4 * T"
proof (rule ccontr)
  let ?R = "insert t S"
  assume "\<not> ?thesis"
  then have bad: "4 * T < 3 * (l + c t)" by simp
  have nonneg: "0 \<le> c x" if "x \<in> ?R" for x using that pos smallest by force
  have above: "c t \<le> c x" if "x \<in> ?R" for x using that smallest by auto
  have finR: "finite ?R" using S(1) by simp
  have ct_T: "c t \<le> T" using one_load [of ?R c t f] finR nonneg other [of "f t"] lanes(2) by fastforce
  then have l_pos: "0 < l" using bad big by simp
  have filled: "card {x \<in> S. a x = j} \<ge> 1" if "j < n" for j
  proof -
    have "0 < load c a S j" using least [OF that] l_pos by simp
    then have "{x \<in> S. a x = j} \<noteq> {}" unfolding load_def by (metis less_irrefl sum.empty)
    then show ?thesis using S(1) by (simp add: Suc_leI card_gt_0_iff)
  qed
  have "n \<le> card S" using sum_mono [of "{..<n}" "\<lambda>_. 1" "\<lambda>j. card {x \<in> S. a x = j}"] filled card_lanes [OF S(1) lanes(1)] by simp
  then have "n < card ?R" using S by simp
  then have "\<not> inj_on f ?R" using card_inj_on_le [of f ?R "{..<n}"] lanes(2) by fastforce
  then obtain x y where xy: "x \<in> ?R" "y \<in> ?R" "x \<noteq> y" "f x = f y" by (auto simp only: inj_on_def)
  have "f x < n" using xy(1) lanes(2) by blast
  then have "c x + c y \<le> T" using pair_load [of ?R c x y f "f x"] finR nonneg xy other [of "f x"] by fastforce
  then have half: "2 * c t \<le> T" using above [OF xy(1)] above [OF xy(2)] by simp
  then have l_big: "5 * T < 6 * l" using bad by simp
  let ?B = "{j. j < n \<and> card {x \<in> S. a x = j} = 1}"
  let ?G = "{x \<in> S. a x \<in> ?B}"
  have alone: "y = x" if "x \<in> ?G" "y \<in> ?R" "f y = f x" for x y
  proof (rule ccontr)
    assume neq: "y \<noteq> x"
    have "card {u \<in> S. a u = a x} = 1" using that(1) by blast
    then obtain z where "{u \<in> S. a u = a x} = {z}" by (rule card_1_singletonE)
    moreover have "x \<in> {u \<in> S. a u = a x}" using that(1) by simp
    ultimately have "{u \<in> S. a u = a x} = {x}" by (metis singletonD)
    then have "load c a S (a x) = c x" by (simp add: load_def)
    then have "l \<le> c x" using least [of "a x"] that(1) by auto
    moreover have "c x + c y \<le> load c f ?R (f x)" using pair_load [of ?R c x y f "f x"] finR nonneg that neq by auto
    moreover have "load c f ?R (f x) \<le> T" using other that(1) lanes(2) by blast
    ultimately show False using above [OF that(2)] l_big big ct_T pos by simp
  qed
  have fewer: "card {x \<in> ?R. f x = j} \<le> 2" if "j < n" for j
  proof (rule ccontr)
    assume "\<not> ?thesis"
    then have "3 \<le> real (card {x \<in> ?R. f x = j})" by simp
    then have "3 * c t \<le> real (card {x \<in> ?R. f x = j}) * c t" by (rule mult_right_mono) (rule pos)
    also have "\<dots> \<le> load c f ?R j" unfolding load_def by (rule sum_bounded_below) (use above in auto)
    finally show False using other [OF that] big by simp
  qed
  have cardG: "card ?G = card ?B"
  proof -
    have "card ?G = (\<Sum>j \<in> ?B. card {x \<in> ?G. a x = j})"
      by (rule card_fibres [symmetric]) (use S(1) in auto)
    also have "\<dots> = (\<Sum>j \<in> ?B. 1)"
    proof (rule sum.cong [OF refl])
      fix j assume "j \<in> ?B"
      then have "{x \<in> ?G. a x = j} = {x \<in> S. a x = j}" by auto
      with \<open>j \<in> ?B\<close> show "card {x \<in> ?G. a x = j} = 1" by simp
    qed
    finally show ?thesis by simp
  qed
  have inj: "inj_on f ?G" using alone by (intro inj_onI) blast
  have sub: "f ` ?G \<subseteq> {..<n}" using lanes(2) by auto
  have B_sub: "?B \<subseteq> {..<n}" by auto
  have "2 * n \<le> card S + card ?B"
  proof -
    have "(\<Sum>j<n. 2) \<le> (\<Sum>j<n. card {x \<in> S. a x = j} + (if j \<in> ?B then 1 else 0))"
    proof (rule sum_mono)
      fix j assume "j \<in> {..<n}"
      with filled [of j] show "2 \<le> card {x \<in> S. a x = j} + (if j \<in> ?B then 1 else 0)" by (cases "j \<in> ?B") auto
    qed
    also have "\<dots> = card S + card ?B"
      by (simp only: sum.distrib card_lanes [OF S(1) lanes(1)] card_marks [OF B_sub])
    finally show ?thesis by simp
  qed
  moreover have "card ?R + card ?B \<le> 2 * n"
  proof -
    have "(\<Sum>j<n. card {x \<in> ?R. f x = j} + (if j \<in> f ` ?G then 1 else 0)) \<le> (\<Sum>j<n. 2)"
    proof (rule sum_mono)
      fix j assume j: "j \<in> {..<n}"
      show "card {x \<in> ?R. f x = j} + (if j \<in> f ` ?G then 1 else 0) \<le> 2"
      proof (cases "j \<in> f ` ?G")
        case True
        then obtain x where x: "x \<in> ?G" "j = f x" by blast
        then have "{y \<in> ?R. f y = j} = {x}" using alone [OF x(1)] by auto
        with True show ?thesis by simp
      qed (use fewer [of j] j in simp)
    qed
    moreover have "(\<Sum>j<n. card {x \<in> ?R. f x = j} + (if j \<in> f ` ?G then 1 else 0)) = card ?R + card (f ` ?G)"
      by (simp only: sum.distrib card_lanes [OF finR lanes(2)] card_marks [OF sub])

    ultimately show ?thesis using card_image [OF inj] cardG by simp
  qed
  ultimately show False using S by simp
qed

lemma lightest_lane_good:
  assumes S: "finite S" "t \<notin> S" and pos: "0 \<le> c t" and smallest: "\<And>x. x \<in> S \<Longrightarrow> c t \<le> c x"
    and lanes: "a ` S \<subseteq> {..<n}" "f ` insert t S \<subseteq> {..<n}" "0 < n"
    and least: "\<And>j. j < n \<Longrightarrow> l \<le> load c a S j"
    and other: "\<And>j. j < n \<Longrightarrow> load c f (insert t S) j \<le> T"
  shows "3 * (l + c t) \<le> 4 * T"
proof (cases "T < 3 * c t")
  case True
  then show ?thesis using big_tasks_fit [of S t c a n f l T] assms by blast
next
  case False
  have "real n * l \<le> sum c S" by (rule lightest_below) (use S lanes least in auto)
  also have "\<dots> \<le> sum c (insert t S)" using S pos by simp
  also have "\<dots> = (\<Sum>j<n. load c f (insert t S) j)" using sum_loads [of "insert t S" f n c] S lanes(2) by simp
  also have "\<dots> \<le> (\<Sum>j<n. T)" by (rule sum_mono) (use other in simp)
  finally have "l \<le> T" using lanes(3) by simp
  with False show ?thesis by simp
qed

end
