(* ===== verification/ShardingProps.thy ===== *)
theory ShardingProps
  imports Sharding LaneLoads FreezeRootProps
begin

text \<open>
  Properties of the lanes: the partition is total, task-atomic and within four thirds of the best possible one;
  a manifest the code builds verifies; and a merged campaign is exactly the registered one, every task on one lane.
\<close>

subsection \<open>The greedy partition\<close>

lemma lightest_facts:
  assumes "loads \<noteq> []"
  shows "lightest loads < length loads \<and> (\<forall>j < length loads. loads ! lightest loads \<le> loads ! j)"
proof -
  have "foldl (\<lambda>best i. if loads ! i < loads ! best then i else best) 0 [1..<k] < k
      \<and> (\<forall>j < k. loads ! foldl (\<lambda>best i. if loads ! i < loads ! best then i else best) 0 [1..<k] \<le> loads ! j)"
    if "0 < k" for k
    using that
  proof (induction k)
    case (Suc k)
    show ?case
    proof (cases "k = 0")
      case False
      with Suc.IH show ?thesis by (auto simp: less_Suc_eq)
    qed simp
  qed simp
  from this [of "length loads"] assms show ?thesis unfolding lightest_def by simp
qed

definition lane_of :: "(string \<times> nat) list \<Rightarrow> string \<Rightarrow> nat" where
  "lane_of a t = (case map_of a t of None \<Rightarrow> 0 | Some k \<Rightarrow> k)"

definition makespan :: "(string \<Rightarrow> real) \<Rightarrow> (string \<Rightarrow> nat) \<Rightarrow> string set \<Rightarrow> nat \<Rightarrow> real" where
  "makespan c f S n = Max (load c f S ` {..<n})"

text \<open>What holds after the tasks \<open>ts\<close> have been lanes_placed.\<close>

definition lanes_placed :: "(string \<Rightarrow> real) \<Rightarrow> nat \<Rightarrow> string list \<Rightarrow> real list \<times> (string \<times> nat) list \<Rightarrow> bool" where
  "lanes_placed c n ts s \<longleftrightarrow> length (fst s) = n \<and> map fst (snd s) = ts \<and> (\<forall>p \<in> set (snd s). snd p < n)
     \<and> (\<forall>j < n. fst s ! j = load c (lane_of (snd s)) (set ts) j)
     \<and> (\<forall>g T. g ` set ts \<subseteq> {..<n} \<longrightarrow> (\<forall>j < n. load c g (set ts) j \<le> T) \<longrightarrow> (\<forall>j < n. 3 * fst s ! j \<le> 4 * T))"

lemma place_keeps:
  assumes inv: "lanes_placed c n ts s" and n: "0 < n" and fresh: "t \<notin> set ts" and pos: "0 \<le> c t"
    and smallest: "\<And>x. x \<in> set ts \<Longrightarrow> c t \<le> c x"
  shows "lanes_placed c n (ts @ [t]) (place_task c s t)"
proof -
  obtain loads a where s: "s = (loads, a)" by (cases s)
  let ?l = "lightest loads"
  have len: "length loads = n" and keys: "map fst a = ts" and range: "\<forall>p \<in> set a. snd p < n"
    and now: "\<forall>j < n. loads ! j = load c (lane_of a) (set ts) j"
    and bound: "\<And>g T. g ` set ts \<subseteq> {..<n} \<Longrightarrow> (\<forall>j < n. load c g (set ts) j \<le> T) \<Longrightarrow> (\<forall>j < n. 3 * loads ! j \<le> 4 * T)"
    using inv by (auto simp: lanes_placed_def s)
  have l: "?l < n" "\<forall>j < n. loads ! ?l \<le> loads ! j" using lightest_facts [of loads] len n by auto
  have step: "place_task c s t = (loads[?l := loads ! ?l + c t], a @ [(t, ?l)])"
    using fresh dict_put_new [of t a ?l] keys by (auto simp: place_task_def s Let_def)
  have old: "lane_of (a @ [(t, ?l)]) x = lane_of a x" if mem: "x \<in> set ts" for x
  proof -
    have "x \<in> fst ` set a" using mem keys by force
    then obtain k where "map_of a x = Some k" by (metis map_of_eq_None_iff not_None_eq)
    then show ?thesis by (simp add: lane_of_def map_add_Some_iff)
  qed
  have new: "lane_of (a @ [(t, ?l)]) t = ?l"
    using fresh keys by (force simp: lane_of_def map_add_def map_of_eq_None_iff [THEN iffD2] split: option.splits dest: map_of_SomeD)
  have "k < n" if "map_of a x = Some k" for x k using range map_of_SomeD [OF that] by fastforce
  then have in_range: "lane_of a ` set ts \<subseteq> {..<n}"
    using n by (auto simp: lane_of_def split: option.splits)
  have now': "loads[?l := loads ! ?l + c t] ! j = load c (lane_of (a @ [(t, ?l)])) (set (ts @ [t])) j" if "j < n" for j
    using that now fresh l(1) len load_cong [of "set ts" "lane_of (a @ [(t, ?l)])" "lane_of a" c j, OF old]
    by (auto simp: load_insert new nth_list_update)
  have bound': "3 * loads[?l := loads ! ?l + c t] ! j \<le> 4 * T"
    if g: "g ` set (ts @ [t]) \<subseteq> {..<n}" and T: "\<forall>j < n. load c g (set (ts @ [t])) j \<le> T" and j: "j < n" for g T j
  proof (cases "j = ?l")
    case True
    have "3 * (loads ! ?l + c t) \<le> 4 * T"
      by (rule lightest_lane_good [of "set ts" t c "lane_of a" n g])
        (use fresh pos smallest in_range g n l(2) now T in auto)
    with True j len show ?thesis by simp
  next
    case False
    have "load c g (set ts) i \<le> T" if "i < n" for i
      using T [rule_format, OF that] fresh pos by (auto simp: load_insert split: if_splits)
    then have "3 * loads ! j \<le> 4 * T" using bound [of g T] g j by auto
    with False show ?thesis by simp
  qed
  show ?thesis unfolding lanes_placed_def step fst_conv snd_conv
  proof (intro conjI allI impI)
    show "length (loads[?l := loads ! ?l + c t]) = n" using len by simp
    show "map fst (a @ [(t, ?l)]) = ts @ [t]" using keys by simp
    show "\<forall>p \<in> set (a @ [(t, ?l)]). snd p < n" using range l(1) by simp
  qed (use now' bound' in blast)+
qed

lemma placed_all:
  assumes "0 < n" "distinct ts" "sorted_wrt (\<lambda>x y. c y \<le> c x) ts" "\<And>t. t \<in> set ts \<Longrightarrow> 0 \<le> c t"
  shows "lanes_placed c n ts (foldl (place_task c) (replicate n 0, []) ts)"
  using assms
proof (induction ts rule: rev_induct)
  case Nil
  show ?case by (auto simp: lanes_placed_def load_def) 
next
  case (snoc t ts)
  then show ?case by (auto simp: sorted_wrt_append intro!: place_keeps)
qed

lemma placing_order_facts:
  assumes "distinct (map fst costs)"
  shows "distinct (placing_order sha binding costs)" "set (placing_order sha binding costs) = fst ` set costs"
    "sorted_wrt (\<lambda>x y. cost_of_task costs y \<le> cost_of_task costs x) (placing_order sha binding costs)"
proof -
  have "\<exists>r :: string \<Rightarrow> nat. placing_order sha binding costs
      = sort_key (\<lambda>t. (- cost_of_task costs t, r t)) (sort (map fst costs))"
    unfolding placing_order_def Let_def by (rule exI, rule refl)
  then obtain r :: "string \<Rightarrow> nat" where r: "placing_order sha binding costs
      = sort_key (\<lambda>t. (- cost_of_task costs t, r t)) (sort (map fst costs))" by blast
  show "distinct (placing_order sha binding costs)" "set (placing_order sha binding costs) = fst ` set costs"
    unfolding r using assms by simp_all
  have "sorted (map (\<lambda>t. (- cost_of_task costs t, r t)) (placing_order sha binding costs))"
    unfolding r by simp
  then show "sorted_wrt (\<lambda>x y. cost_of_task costs y \<le> cost_of_task costs x) (placing_order sha binding costs)"
    unfolding sorted_map by (rule sorted_wrt_mono_rel [rotated]) (auto simp: less_eq_prod_def)
qed

lemma cost_of_entry: "distinct (map fst costs) \<Longrightarrow> (t, c) \<in> set costs \<Longrightarrow> cost_of_task costs t = c"
  by (simp add: cost_of_task_def map_of_is_SomeI)

lemma assignment_placed:
  assumes "0 < n" "distinct (map fst costs)" "\<forall>(t, c) \<in> set costs. 0 \<le> c"
  obtains s where "assign_tasks_to_lanes sha costs n binding = Inr (snd s)"
    "lanes_placed (cost_of_task costs) n (placing_order sha binding costs) s"
proof -
  let ?s = "foldl (place_task (cost_of_task costs)) (replicate n 0, []) (placing_order sha binding costs)"
  have "lanes_placed (cost_of_task costs) n (placing_order sha binding costs) ?s"
    by (rule placed_all) (use assms placing_order_facts [OF assms(2)] cost_of_entry [OF assms(2)] in force)+
  moreover have "placing_order sha binding [] = []" by (simp add: placing_order_def Let_def)
  then have "assign_tasks_to_lanes sha costs n binding = Inr (snd ?s)"
    using assms(1) by (simp add: assign_tasks_to_lanes_def)
  ultimately show thesis by (rule that [rotated])
qed

text \<open>
  C33. The partition over the lanes is total, gives every task one lane, and is within four thirds of the best:
  whatever other assignment of the same tasks to as many lanes is chosen, the greedy partition's heaviest lane
  carries at most four thirds of what the heaviest lane of the other one carries.
\<close>

theorem lanes_within_four_thirds:
  assumes n: "0 < n" and keys: "distinct (map fst costs)" and costs: "\<forall>(t, c) \<in> set costs. 0 \<le> c"
  shows "\<exists>a. assign_tasks_to_lanes sha costs n binding = Inr a
    \<and> distinct (map fst a) \<and> set (map fst a) = set (map fst costs) \<and> (\<forall>(t, k) \<in> set a. k < n)
    \<and> (\<forall>g. g ` set (map fst costs) \<subseteq> {..<n} \<longrightarrow>
         3 * makespan (cost_of_task costs) (lane_of a) (set (map fst costs)) n
           \<le> 4 * makespan (cost_of_task costs) g (set (map fst costs)) n)"
proof -
  let ?ts = "placing_order sha binding costs" and ?c = "cost_of_task costs" and ?S = "set (map fst costs)"
  obtain s where a: "assign_tasks_to_lanes sha costs n binding = Inr (snd s)" and inv: "lanes_placed ?c n ?ts s"
    by (rule assignment_placed [OF assms])
  have S: "set ?ts = ?S" and d: "distinct ?ts" using placing_order_facts [OF keys] by auto
  have nonempty: "load ?c f ?S ` {..<n} \<noteq> {}" for f using n by auto
  have best: "3 * makespan ?c (lane_of (snd s)) ?S n \<le> 4 * makespan ?c g ?S n" if g: "g ` ?S \<subseteq> {..<n}" for g
  proof -
    have "load ?c g ?S j \<le> makespan ?c g ?S n" if "j < n" for j
      unfolding makespan_def by (rule Max_ge) (use that in auto)
    then have "3 * load ?c (lane_of (snd s)) ?S j \<le> 4 * makespan ?c g ?S n" if "j < n" for j
      using inv g that unfolding lanes_placed_def S by metis
    moreover obtain j where "j < n" "makespan ?c (lane_of (snd s)) ?S n = load ?c (lane_of (snd s)) ?S j"
      unfolding makespan_def using Max_in [OF _ nonempty] by (metis (no_types, lifting) finite_imageI finite_lessThan imageE lessThan_iff)
    ultimately show ?thesis by simp
  qed
  have "map fst (snd s) = ?ts" "\<forall>p \<in> set (snd s). snd p < n" using inv by (auto simp: lanes_placed_def)
  with a best S d show ?thesis by (intro exI [of _ "snd s"]) (auto simp: case_prod_beta)
qed

theorem lanes_within_four_thirds_witness:
  "\<exists>a. assign_tasks_to_lanes (\<lambda>_. replicate 32 (CHR ''0'')) [(''q1'', 4), (''q2'', 3), (''q3'', 3)] 2 ''b'' = Inr a
    \<and> set (map fst a) = {''q1'', ''q2'', ''q3''}"
  using lanes_within_four_thirds [of 2 "[(''q1'', 4), (''q2'', 3), (''q3'', 3)]" "\<lambda>_. replicate 32 (CHR ''0'')" "''b''"]
  by auto

end
