(* ===== verification/LanesCompose.thy ===== *)
theory LanesCompose
  imports ShardMerge ShardingProps
begin

text \<open>
  The lanes from end to end: a manifest the code builds passes its own verification, and roots that the lanes
  froze for their shares merge exactly when no two lanes recorded the same engine epoch.
\<close>

subsection \<open>Grouping by lane\<close>

definition names_of :: "(string \<times> nat) list \<Rightarrow> int \<Rightarrow> (string \<times> string) list \<Rightarrow> string list" where
  "names_of a k pairs = map snd (filter (\<lambda>(t, name). map_option int (map_of a t) = Some k) pairs)"

lemma group_run:
  "rfold (\<lambda>(t, name) d. rbind (owner a t) (\<lambda>k. Inr (add_under (int k) name d))) pairs d = Inr d'
    \<longleftrightarrow> (\<forall>p \<in> set pairs. map_of a (fst p) \<noteq> None) \<and> d' = map (\<lambda>(k, xs). (k, xs @ names_of a k pairs)) d"
proof (induction pairs arbitrary: d)
  case (Cons p pairs)
  obtain t name where p: "p = (t, name)" by (cases p)
  show ?case
  proof (cases "map_of a t")
    case (Some k)
    have "map (\<lambda>(l, xs). (l, xs @ names_of a l pairs)) (add_under (int k) name d)
        = map (\<lambda>(l, xs). (l, xs @ names_of a l ((t, name) # pairs))) d"
      unfolding add_under_def map_map by (rule map_cong [OF refl]) (auto simp: names_of_def Some)
    then show ?thesis using Cons.IH [of "add_under (int k) name d"] by (simp add: p owner_def Some)
  qed (simp add: p owner_def)
qed (auto simp: names_of_def)

lemma sorted_lane_keys:
  assumes "sort (map ln_shard lanes) = map int [0..<n]"
  shows "distinct (map ln_shard lanes)" "set (map ln_shard lanes) = int ` {..<n}"
proof -
  have "distinct (sort (map ln_shard lanes))" unfolding assms by (simp add: distinct_map inj_on_def)
  then show "distinct (map ln_shard lanes)" by simp
  have "set (sort (map ln_shard lanes)) = int ` {..<n}" unfolding assms by auto
  then show "set (map ln_shard lanes) = int ` {..<n}" by simp
qed

lemma group_by_lane_is:
  assumes lanes: "sort (map ln_shard lanes) = map int [0..<n]"
    and "group_by_lane lanes a pairs = Inr d"
  shows "(\<forall>p \<in> set pairs. map_of a (fst p) \<noteq> None) \<and> d = map (\<lambda>k. (int k, sort (names_of a (int k) pairs))) [0..<n]"
proof -
  have start: "dict_of (map (\<lambda>l. (ln_shard l, [])) lanes) = map (\<lambda>l. (ln_shard l, [])) lanes"
    by (rule dict_of_distinct) (use sorted_lane_keys [OF lanes] in \<open>simp add: comp_def\<close>)
  have "sort_key fst (map (\<lambda>l. (ln_shard l, names_of a (ln_shard l) pairs)) lanes)
      = map (\<lambda>k. (k, names_of a k pairs)) (sort (map ln_shard lanes))"
    by (simp add: sort_key_map [of fst] sort_key_map [of "\<lambda>x. x"] comp_def)
  then have keyed: "sort_key fst (map (\<lambda>l. (ln_shard l, names_of a (ln_shard l) pairs)) lanes)
      = map (\<lambda>k. (int k, names_of a (int k) pairs)) [0..<n]"
    by (simp add: lanes comp_def)
  have "map (\<lambda>(k, xs). (k, xs @ names_of a k pairs)) (map (\<lambda>l. (ln_shard l, [])) lanes)
      = map (\<lambda>l. (ln_shard l, names_of a (ln_shard l) pairs)) lanes"
    by (simp add: comp_def)
  then show ?thesis
    using assms(2) keyed unfolding group_by_lane_def start rbind_Inr group_run by (auto simp: comp_def)
qed

subsection \<open>A built manifest\<close>

lemma declare_cells_run:
  assumes "distinct (map fst declared @ keys)"
  shows "rfold (declare_cell k) keys declared = Inr (declared @ map (\<lambda>x. (x, k)) keys)"
  using assms
proof (induction keys arbitrary: declared)
  case (Cons x keys)
  have "x \<notin> fst ` set declared" using Cons.prems by auto
  then have "declare_cell k x declared = Inr (declared @ [(x, k)])" by (simp add: declare_cell_def dict_put_new)
  then show ?case using Cons.IH [of "declared @ [(x, k)]"] Cons.prems by simp
qed simp

lemma declared_cells_run:
  assumes "distinct (map fst declared @ concat (map snd d))"
  shows "rfold (\<lambda>(shard, keys) declared. rfold (declare_cell shard) keys declared) d declared
    = Inr (declared @ concat (map (\<lambda>(k, keys). map (\<lambda>x. (x, k)) keys) d))"
  using assms
proof (induction d arbitrary: declared)
  case (Cons p d)
  obtain k keys where p: "p = (k, keys)" by (cases p)
  have "rfold (declare_cell k) keys declared = Inr (declared @ map (\<lambda>x. (x, k)) keys)"
    by (rule declare_cells_run) (use Cons.prems p in auto)
  moreover have "distinct (map fst (declared @ map (\<lambda>x. (x, k)) keys) @ concat (map snd d))"
    using Cons.prems by (auto simp: p comp_def)
  ultimately show ?case using Cons.IH [of "declared @ map (\<lambda>x. (x, k)) keys"] by (simp add: p)
qed simp

definition partition_of :: "shard_manifest \<Rightarrow> schedule_manifest \<Rightarrow> (string \<times> nat) list \<Rightarrow> bool" where
  "partition_of s m a \<longleftrightarrow> distinct (map fst a) \<and> set (map fst a) = bl_task ` set (sm_blocks m)
     \<and> (\<forall>p \<in> set a. snd p < length (sd_lanes s))
     \<and> sort (map ln_shard (sd_lanes s)) = map int [0..<length (sd_lanes s)]
     \<and> sd_task_to s = sort_key fst (map (\<lambda>(t, k). (t, int k)) a)
     \<and> sd_cells s = map (\<lambda>k. (int k, sort (names_of a (int k) (map (\<lambda>c. (ce_task c, cell_key c)) (sched_cells m))))) [0..<length (sd_lanes s)]
     \<and> sd_blocks s = map (\<lambda>k. (int k, sort (names_of a (int k) (map (\<lambda>b. (bl_task b, bl_id b)) (sm_blocks m))))) [0..<length (sd_lanes s)]
     \<and> (\<forall>c \<in> set (sched_cells m). map_of a (ce_task c) \<noteq> None)"

lemma built_partition:
  assumes built: "build_shard_manifest sha fr m lanes costs stack protocol = Inr s"
    and costs: "\<forall>(t, c) \<in> set costs. 0 \<le> c"
  shows "\<exists>a. partition_of s m a" "sd_lanes s = lanes" "sd_binding s = sm_binding m"
    "schedule_digest sha fr m = Inr (sd_schedule_sha s)" "canon_digest sha fr (shard_content s) = Inr (sd_sha s)"
proof -
  let ?used = "map (\<lambda>t. (t, cost_of_task costs t)) (scheduled_tasks m)"
  obtain a cells blocks digest d where lanes_ok: "check_lanes lanes = Inr ()"
    and a: "assign_tasks_to_lanes sha ?used (length lanes) (sm_binding m) = Inr a"
    and cells: "group_by_lane lanes a (map (\<lambda>c. (ce_task c, cell_key c)) (sched_cells m)) = Inr cells"
    and blocks: "group_by_lane lanes a (map (\<lambda>b. (bl_task b, bl_id b)) (sm_blocks m)) = Inr blocks"
    and digest: "schedule_digest sha fr m = Inr digest"
    and s: "s = \<lparr>sd_binding = sm_binding m, sd_protocol = protocol, sd_schedule_sha = digest, sd_stack = stack,
              sd_split = sm_split m, sd_layer = sm_layer m, sd_lanes = lanes, sd_costs = ?used,
              sd_task_to = sort_key fst (map (\<lambda>(t, k). (t, int k)) a), sd_cells = cells, sd_blocks = blocks,
              sd_total = int (length (sched_cells m)), sd_sha = d\<rparr>"
    and d: "canon_digest sha fr (shard_content (s\<lparr>sd_sha := []\<rparr>)) = Inr d"
    using built unfolding build_shard_manifest_def Let_def
    by (auto simp: rbind_Inr guard_err_Inr shard_schedule_digest_Inr shard_digest_Inr)
  have lanes: "lanes \<noteq> []" "sort (map ln_shard lanes) = map int [0..<length lanes]"
    using lanes_ok by (auto simp: check_lanes_def split: if_splits)
  have tasks: "distinct (map fst ?used)" "set (map fst ?used) = bl_task ` set (sm_blocks m)"
    by (simp_all add: comp_def scheduled_tasks_def)
  have nonneg: "\<forall>(t, c) \<in> set ?used. 0 \<le> c"
    using costs by (auto simp: cost_of_task_def split: option.splits dest!: map_of_SomeD)
  obtain st where st: "assign_tasks_to_lanes sha ?used (length lanes) (sm_binding m) = Inr (snd st)"
    "lanes_placed (cost_of_task ?used) (length lanes) (placing_order sha (sm_binding m) ?used) st"
    by (rule assignment_placed [OF _ tasks(1) nonneg, of "length lanes"]) (use lanes in auto)
  have keys: "map fst a = placing_order sha (sm_binding m) ?used" "\<forall>p \<in> set a. snd p < length lanes"
    using st a by (auto simp: lanes_placed_def)
  have "partition_of s m a"
    using keys placing_order_facts(1,2) [OF tasks(1), of sha "sm_binding m"] tasks(2) lanes
      group_by_lane_is [OF lanes(2) cells] group_by_lane_is [OF lanes(2) blocks]
    unfolding partition_of_def s by (simp add: image_image)
  then show "\<exists>a. partition_of s m a" ..
  show "sd_lanes s = lanes" "sd_binding s = sm_binding m" "schedule_digest sha fr m = Inr (sd_schedule_sha s)"
    "canon_digest sha fr (shard_content s) = Inr (sd_sha s)"
    using digest d by (simp_all add: s shard_content_def)
qed

lemma names_of_mem: "x \<in> set (names_of a k pairs) \<longleftrightarrow> (\<exists>t j. (t, x) \<in> set pairs \<and> map_of a t = Some j \<and> int j = k)"
  by (force simp: names_of_def)

lemma distinct_names_of:
  assumes "distinct (map snd pairs)"
  shows "distinct (concat (map (\<lambda>k. sort (names_of a (int k) pairs)) [0..<n]))"
proof -
  have single: "distinct (names_of a k pairs)" for k
    using assms unfolding names_of_def by (rule distinct_map_filter)
  have apart: "set (names_of a k pairs) \<inter> set (names_of a l pairs) = {}" if "k \<noteq> l" for k l
  proof -
    have "t = u" if "(t, x) \<in> set pairs" "(u, x) \<in> set pairs" for t u x
      using assms that inj_onD [of snd "set pairs" "(t, x)" "(u, x)"] by (simp add: distinct_map)
    then show ?thesis using that by (fastforce simp: names_of_mem)
  qed
  show ?thesis
  proof (induction n)
    case (Suc n)
    have "x \<notin> set (names_of a (int n) pairs)" if "k < n" "x \<in> set (names_of a (int k) pairs)" for k x
      using apart [of "int k" "int n"] that by auto
    with Suc single show ?case by auto
  qed simp
qed

lemma task_to_lookup:
  assumes "partition_of s m a"
  shows "map_of (sd_task_to s) t = map_option int (map_of a t)" "fst ` set (sd_task_to s) = bl_task ` set (sm_blocks m)"
    "distinct (map fst (sd_task_to s))"
proof -
  let ?m = "map (\<lambda>(t, k). (t, int k)) a"
  have keys: "map fst ?m = map fst a" by auto
  have dist: "distinct (map fst ?m)" unfolding keys using assms by (simp add: partition_of_def)
  have task: "sd_task_to s = sort_key fst ?m" using assms by (simp add: partition_of_def)
  have dist': "distinct (map fst (sort_key fst ?m))" using dist by (metis mset_eq_imp_distinct_iff mset_map mset_sort)
  have "map_of (sort_key fst ?m) = map_of ?m"
    using dist' dist by (simp add: map_of_eqI map_of_inject_set)
  then show "map_of (sd_task_to s) t = map_option int (map_of a t)"
    unfolding task by (simp add: map_of_map)
  show "distinct (map fst (sd_task_to s))" unfolding task by (rule dist')
  show "fst ` set (sd_task_to s) = bl_task ` set (sm_blocks m)"
    using assms unfolding task by (simp add: partition_of_def image_image case_prod_beta)
qed

lemma built_verifies:
  assumes built: "build_shard_manifest sha fr m lanes costs stack protocol = Inr s"
    and costs: "\<forall>(t, c) \<in> set costs. 0 \<le> c" and keys: "distinct (map cell_key (sched_cells m))"
    and sha: "\<And>x. length (sha x) = 32"
  shows "verify_shard_manifest sha fr s m = Inr ()"
proof -
  note b = built_partition [OF built costs]
  obtain a where part: "partition_of s m a" using b(1) by blast
  let ?pairs = "map (\<lambda>c. (ce_task c, cell_key c)) (sched_cells m)"
  have "\<exists>x. sha256_hex sha x = sd_sha s" using b(5) by (auto simp: canon_digest_def split: sum.splits)
  then have sha_s: "sd_sha s \<noteq> []" using sha length_sha256_hex [of sha] by (metis list.size(3) zero_neq_numeral)
  have snds: "map snd ?pairs = map cell_key (sched_cells m)" by (simp add: comp_def)
  have cells: "sd_cells s = map (\<lambda>k. (int k, sort (names_of a (int k) ?pairs))) [0..<length (sd_lanes s)]"
    using part by (simp add: partition_of_def)
  have "distinct (map fst [] @ concat (map snd (sd_cells s)))"
    unfolding cells using distinct_names_of [of ?pairs] keys by (simp add: comp_def snds)
  note declared = declared_cells_run [OF this, simplified]
  have lanes_of: "\<exists>j < length (sd_lanes s). map_of a (ce_task c) = Some j" if "c \<in> set (sched_cells m)" for c
    using part that map_of_SomeD [of a "ce_task c"] unfolding partition_of_def by fastforce
  let ?exp = "map (\<lambda>c. (cell_key c, int (the (map_of a (ce_task c))))) (sched_cells m)"
  have expected: "rmap (\<lambda>c. rbind (owner (sd_task_to s) (ce_task c)) (\<lambda>k. Inr (cell_key c, k))) (sched_cells m) = Inr ?exp"
    unfolding rmap_Inr_iff list_all2_map2 list_all2_same
    using lanes_of by (fastforce simp: owner_def task_to_lookup(1) [OF part])
  have dict: "dict_of ?exp = ?exp" by (rule dict_of_distinct) (use keys in \<open>simp add: comp_def\<close>)
  have same: "set (concat (map (\<lambda>(k, keys). map (\<lambda>x. (x, k)) keys) (sd_cells s))) = set ?exp"
  proof (rule set_eqI)
    fix p :: "string \<times> int"
    have "p \<in> set (concat (map (\<lambda>(k, keys). map (\<lambda>x. (x, k)) keys) (sd_cells s)))
        \<longleftrightarrow> (\<exists>j < length (sd_lanes s). snd p = int j \<and> fst p \<in> set (names_of a (int j) ?pairs))"
      unfolding cells by (cases p) auto
    also have "\<dots> \<longleftrightarrow> (\<exists>c \<in> set (sched_cells m). \<exists>j < length (sd_lanes s). p = (cell_key c, int j) \<and> map_of a (ce_task c) = Some j)"
      by (cases p) (auto simp: names_of_mem)
    also have "\<dots> \<longleftrightarrow> p \<in> set ?exp" using lanes_of by fastforce
    finally show "p \<in> set (concat (map (\<lambda>(k, keys). map (\<lambda>x. (x, k)) keys) (sd_cells s))) \<longleftrightarrow> p \<in> set ?exp" .
  qed
  have digests: "shard_digest sha fr (shard_content s) = Inr (sd_sha s)" "shard_schedule_digest sha fr m = Inr (sd_schedule_sha s)"
    using b(4,5) by (simp_all add: shard_digest_Inr shard_schedule_digest_Inr)
  show ?thesis
    unfolding verify_shard_manifest_def declared_cells_def digests declared expected rbind_simps same dict
    using sha_s task_to_lookup(2) [OF part] by (simp add: b(3))
qed

subsection \<open>From the shares to the campaign\<close>

text \<open>What a lane froze: the root of exactly the blocks the manifest lists under it.\<close>

definition froze_share ::
  "(string \<Rightarrow> string) \<Rightarrow> (real \<Rightarrow> string) \<Rightarrow> shard_manifest \<Rightarrow> schedule_manifest \<Rightarrow> int \<times> campaign_root \<Rightarrow> bool" where
  "froze_share sha fr s m kr \<longleftrightarrow> (case kr of (k, rt) \<Rightarrow> \<exists>run_id phase_id records ids. map_of (sd_blocks s) k = Some ids
     \<and> freeze_root_record sha fr m run_id phase_id (sm_split m) records (Some k) (Some ids) = Inr rt)"

lemma same_members_mset:
  assumes "set xs = set ys" "length xs = length ys" "distinct ys"
  shows "mset xs = mset ys"
proof -
  have "distinct xs" using assms by (metis card_distinct distinct_card)
  with assms show ?thesis by (simp add: set_eq_iff_mset_eq_distinct)
qed

lemma share_facts:
  assumes part: "partition_of s m a" and ids: "distinct (map bl_id (sm_blocks m))"
    and quads: "distinct (map cell_quad (sched_cells m))"
    and share: "froze_share sha fr s m (k, rt)" and sha: "\<And>x. length (sha x) = 32"
  shows "root_accepted sha fr m (sd_task_to s) (k, rt)"
    and "map rb_id (ro_blocks rt) = map bl_id (filter (\<lambda>b. map_option int (map_of a (bl_task b)) = Some k) (sm_blocks m))"
    and "\<And>rb b. rb \<in> set (ro_blocks rt) \<Longrightarrow> b \<in> set (sm_blocks m) \<Longrightarrow> rb_id rb = bl_id b
      \<Longrightarrow> mset (pair_quads (k, rb)) = mset (map cell_quad (bl_cells b))"
proof -
  let ?pairs = "map (\<lambda>b. (bl_task b, bl_id b)) (sm_blocks m)"
  obtain run_id phase_id records owned where look: "map_of (sd_blocks s) k = Some owned"
    and frozen: "freeze_root_record sha fr m run_id phase_id (sm_split m) records (Some k) (Some owned) = Inr rt"
    using share by (auto simp: froze_share_def)
  have bq: "distinct (map cell_quad (bl_cells b))" if mem: "b \<in> set (sm_blocks m)" for b
  proof -
    obtain us vs where "sm_blocks m = us @ b # vs" using split_list [OF mem] by blast
    with quads show ?thesis by (simp add: sched_cells_def)
  qed
  have "\<forall>b \<in> set (sm_blocks m). distinct (map cell_quad (bl_cells b))" using bq by blast
  note root = freeze_root_sound [OF frozen this]
  have owned: "set owned = set (names_of a k ?pairs)"
    using look part by (auto simp: partition_of_def dest!: map_of_SomeD)
  have ideq: "b = c" if "b \<in> set (sm_blocks m)" "c \<in> set (sm_blocks m)" "bl_id b = bl_id c" for b c
    using ids that by (auto simp: distinct_map dest: inj_onD)
  have mine: "bl_id b \<in> set owned \<longleftrightarrow> map_option int (map_of a (bl_task b)) = Some k" if "b \<in> set (sm_blocks m)" for b
    unfolding owned names_of_mem using that ideq by fastforce
  show names: "map rb_id (ro_blocks rt) = map bl_id (filter (\<lambda>b. map_option int (map_of a (bl_task b)) = Some k) (sm_blocks m))"
  proof -
    have "map rb_id (ro_blocks rt) = map bl_id (filter (\<lambda>b. bl_id b \<in> set owned) (sm_blocks m))"
      using root by (simp add: owned_ids_def filter_map comp_def)
    also have "filter (\<lambda>b. bl_id b \<in> set owned) (sm_blocks m) = filter (\<lambda>b. map_option int (map_of a (bl_task b)) = Some k) (sm_blocks m)"
      by (rule filter_cong [OF refl]) (rule mine)
    finally show ?thesis .
  qed
  have block: "\<exists>b \<in> set (sm_blocks m). rb_id rb = bl_id b \<and> cells_exact b rb" if "rb \<in> set (ro_blocks rt)" for rb
    using root that by blast
  show "mset (pair_quads (k, rb)) = mset (map cell_quad (bl_cells b))"
    if "rb \<in> set (ro_blocks rt)" "b \<in> set (sm_blocks m)" "rb_id rb = bl_id b" for rb b
  proof -
    have "cells_exact b rb" using block [OF that(1)] that(2,3) ideq by metis
    then have "mset (map cr_cell (rb_cells rb)) = mset (bl_cells b)"
      using bq [OF that(2)] by (intro same_members_mset) (auto simp: cells_exact_def distinct_map)
    then have "mset (map cell_quad (map cr_cell (rb_cells rb))) = mset (map cell_quad (bl_cells b))" by (metis mset_map)
    then show ?thesis by (simp add: pair_quads_def)
  qed
  have "belongs m (sd_task_to s) k rb" if rb: "rb \<in> set (ro_blocks rt)" for rb
  proof -
    have "rb_id rb \<in> set (map bl_id (filter (\<lambda>b. map_option int (map_of a (bl_task b)) = Some k) (sm_blocks m)))"
      unfolding names [symmetric] using rb by simp
    then obtain b where b: "b \<in> set (sm_blocks m)" "rb_id rb = bl_id b" "map_option int (map_of a (bl_task b)) = Some k" by auto
    have "dict_of (map (\<lambda>b. (bl_id b, b)) (sm_blocks m)) = map (\<lambda>b. (bl_id b, b)) (sm_blocks m)"
      by (rule dict_of_distinct) (use ids in \<open>simp add: comp_def\<close>)
    moreover have "map_of (map (\<lambda>b. (bl_id b, b)) (sm_blocks m)) (bl_id b) = Some b"
      by (rule map_of_is_SomeI) (use ids b(1) in \<open>auto simp: comp_def\<close>)
    ultimately show ?thesis using b by (simp add: belongs_def task_to_lookup(1) [OF part])
  qed
  moreover have "ro_freeze rt \<noteq> []"
  proof -
    have "\<exists>x. sha256_hex sha x = ro_freeze rt" using root by (auto simp: canon_digest_def split: sum.splits)
    then show ?thesis using sha length_sha256_hex [of sha] by (metis list.size(3) zero_neq_numeral)
  qed
  ultimately show "root_accepted sha fr m (sd_task_to s) (k, rt)" using root by (simp add: root_accepted_def)
qed

lemma split_by_key:
  assumes "distinct ks" "\<And>b. b \<in> set bs \<Longrightarrow> g b \<in> set ks"
  shows "mset (concat (map (\<lambda>k. map f (filter (\<lambda>b. g b = k) bs)) ks)) = mset (map f bs)"
  using assms
proof (induction ks arbitrary: bs)
  case Nil
  then have "bs = []" by (cases bs) auto
  then show ?case by simp
next
  case (Cons k ks)
  let ?rest = "filter (\<lambda>b. g b \<noteq> k) bs"
  have eq: "map (\<lambda>l. map f (filter (\<lambda>b. g b = l) bs)) ks = map (\<lambda>l. map f (filter (\<lambda>b. g b = l) ?rest)) ks"
    using Cons.prems(1) by (intro map_cong refl arg_cong [where f = "map f"]) (auto intro!: filter_cong)
  have "mset (concat (map (\<lambda>l. map f (filter (\<lambda>b. g b = l) bs)) ks)) = mset (map f ?rest)"
    unfolding eq by (rule Cons.IH) (use Cons.prems in auto)
  moreover have "mset bs = mset (filter (\<lambda>b. g b = k) bs) + mset ?rest"
    by (simp add: multiset_partition)
  then have "mset (map f bs) = mset (map f (filter (\<lambda>b. g b = k) bs)) + mset (map f ?rest)"
    by (metis image_mset_union mset_map)
  ultimately show ?case by simp
qed

lemma mset_concat_cong: "(\<And>p. p \<in> set xs \<Longrightarrow> mset (f p) = mset (g p)) \<Longrightarrow> mset (concat (map f xs)) = mset (concat (map g xs))"
  by (induction xs) auto

lemma lanes_merge_exactly:
  assumes built: "build_shard_manifest sha fr m lanes costs stack protocol = Inr s"
    and costs: "\<forall>(t, c) \<in> set costs. 0 \<le> c"
    and ids: "distinct (map bl_id (sm_blocks m))" and names: "distinct (map cell_key (sched_cells m))"
    and quads: "distinct (map cell_quad (sched_cells m))" and sha: "\<forall>x. length (sha x) = 32"
    and keys: "distinct (map fst roots)" "fst ` set roots = ln_shard ` set lanes"
    and shares: "\<forall>kr \<in> set roots. froze_share sha fr s m kr"
  shows "verify_shard_manifest sha fr s m = Inr ()
    \<and> ((\<exists>r. merge_shard_freeze_roots sha fr s m roots = Inr r) \<longleftrightarrow> separate_engines roots)"
proof -
  have sha': "length (sha x) = 32" for x using sha by blast
  note b = built_partition [OF built costs]
  obtain a where part: "partition_of s m a" using b(1) by blast
  have verified: "verify_shard_manifest sha fr s m = Inr ()" by (rule built_verifies [OF built costs names sha'])
  let ?P = "frozen_pairs roots"
  have share: "froze_share sha fr s m (k, rt)" if "(k, rt) \<in> set roots" for k rt using shares that by blast
  note facts = share_facts [OF part ids quads share sha']
  let ?g = "\<lambda>b. the (map_option int (map_of a (bl_task b)))"
  have lane_of_block: "\<exists>j. map_of a (bl_task b) = Some j \<and> int j \<in> fst ` set roots" if "b \<in> set (sm_blocks m)" for b
  proof -
    have "bl_task b \<in> fst ` set a" using part that by (auto simp: partition_of_def)
    then obtain j where j: "map_of a (bl_task b) = Some j" by (metis map_of_eq_None_iff not_None_eq)
    then have "j < length lanes" using part map_of_SomeD [OF j] by (auto simp: partition_of_def b(2))
    moreover have "ln_shard ` set lanes = int ` {..<length lanes}"
      using sorted_lane_keys(2) [of lanes "length lanes"] part by (simp add: partition_of_def b(2))
    ultimately show ?thesis using j keys(2) by auto
  qed
  have id_perm: "mset (map (rb_id \<circ> snd) ?P) = mset (map bl_id (sm_blocks m))"
  proof -
    have "map (rb_id \<circ> snd) (map (Pair k) (ro_blocks rt)) = map bl_id (filter (\<lambda>b. ?g b = k) (sm_blocks m))"
      if mem: "(k, rt) \<in> set roots" for k rt
    proof -
      have "filter (\<lambda>b. map_option int (map_of a (bl_task b)) = Some k) (sm_blocks m) = filter (\<lambda>b. ?g b = k) (sm_blocks m)"
        using lane_of_block by (intro filter_cong refl) fastforce
      then show ?thesis using facts(2) [OF mem] by (simp add: comp_def)
    qed
    then have "map (rb_id \<circ> snd) ?P = concat (map (\<lambda>k. map bl_id (filter (\<lambda>b. ?g b = k) (sm_blocks m))) (map fst roots))"
      unfolding frozen_pairs_def map_concat map_map by (intro arg_cong [where f = concat] map_cong refl) auto
    moreover have "?g b \<in> set (map fst roots)" if "b \<in> set (sm_blocks m)" for b
      using lane_of_block [OF that] by force
    ultimately show ?thesis using split_by_key [of "map fst roots" "sm_blocks m" ?g bl_id] keys(1) by simp
  qed
  let ?blk = "\<lambda>i. the (map_of (map (\<lambda>b. (bl_id b, b)) (sm_blocks m)) i)"
  have blk: "?blk (bl_id b) = b" if "b \<in> set (sm_blocks m)" for b
  proof -
    have "map_of (map (\<lambda>b. (bl_id b, b)) (sm_blocks m)) (bl_id b) = Some b"
      by (rule map_of_is_SomeI) (use ids that in \<open>auto simp: comp_def\<close>)
    then show ?thesis by simp
  qed
  have quad_perm: "mset (concat (map pair_quads ?P)) = mset (map cell_quad (sched_cells m))"
  proof -
    have "mset (pair_quads p) = mset (map cell_quad (bl_cells (?blk (rb_id (snd p)))))" if p: "p \<in> set ?P" for p
    proof -
      obtain k rt where rt: "(k, rt) \<in> set roots" "fst p = k" "snd p \<in> set (ro_blocks rt)"
        using p by (auto simp: frozen_pairs_def)
      have "rb_id (snd p) \<in> set (map (rb_id \<circ> snd) ?P)" using p by simp
      then have "rb_id (snd p) \<in> set (map bl_id (sm_blocks m))" using id_perm by (metis set_mset_mset)
      then obtain c where c: "c \<in> set (sm_blocks m)" "rb_id (snd p) = bl_id c" by auto
      show ?thesis using facts(3) [OF rt(1,3) c] rt(2) c(2) blk [OF c(1)] by (cases p) simp
    qed
    then have "mset (concat (map pair_quads ?P))
        = mset (concat (map (\<lambda>i. map cell_quad (bl_cells (?blk i))) (map (rb_id \<circ> snd) ?P)))"
      unfolding map_map by (intro mset_concat_cong) simp
    also have "\<dots> = mset (concat (map (\<lambda>i. map cell_quad (bl_cells (?blk i))) (map bl_id (sm_blocks m))))"
      unfolding mset_concat_map id_perm ..
    also have "map (\<lambda>i. map cell_quad (bl_cells (?blk i))) (map bl_id (sm_blocks m)) = map (\<lambda>b. map cell_quad (bl_cells b)) (sm_blocks m)"
      unfolding map_map comp_def by (rule map_cong [OF refl]) (simp only: blk)
    finally show ?thesis by (simp add: sched_cells_def map_concat comp_def)
  qed
  have "distinct (map (rb_id \<circ> snd) ?P)" "distinct (concat (map pair_quads ?P))"
    using ids quads id_perm quad_perm by (metis mset_eq_imp_distinct_iff)+
  moreover have "root_accepted sha fr m (sd_task_to s) kr" if "kr \<in> set roots" for kr
    using facts(1) that by (cases kr) auto
  ultimately have pass: "lanes_pass sha fr m (sd_task_to s) roots" by (simp only: lanes_pass_def) blast
  have "(rb_id \<circ> snd) ` set ?P = bl_id ` set (sm_blocks m)"
    using arg_cong [OF id_perm, of set_mset] by simp
  moreover have "set (concat (map pair_quads ?P)) = cell_quad ` set (sched_cells m)"
    using arg_cong [OF quad_perm, of set_mset] by (simp del: set_concat)
  ultimately have "mergeable sha fr s m roots \<longleftrightarrow> separate_engines roots"
    using verified pass keys(2) by (simp only: mergeable_def b(2) simp_thms)
  then show ?thesis using verified merge_runs(1) [OF keys(1)] by simp
qed

text \<open>
  C35. The lanes compose. A partition is built from a schedule, every lane freezes a root for exactly the blocks
  the manifest lists under it, and the roots are merged: then the manifest verifies and the merge succeeds
  exactly when no engine epoch was recorded on two lanes; nothing else can go wrong.
\<close>

theorem lanes_compose:
  assumes built: "build_shard_manifest sha fr m lanes costs stack protocol = Inr s"
    and costs: "\<forall>(t, c) \<in> set costs. 0 \<le> c"
    and ids: "distinct (map bl_id (sm_blocks m))" and names: "distinct (map cell_key (sched_cells m))"
    and quads: "distinct (map cell_quad (sched_cells m))" and sha: "\<forall>x. length (sha x) = 32"
    and keys: "distinct (map fst roots)" "fst ` set roots = ln_shard ` set lanes"
    and shares: "\<forall>kr \<in> set roots. froze_share sha fr s m kr"
  shows "verify_shard_manifest sha fr s m = Inr ()
    \<and> ((\<exists>r. merge_shard_freeze_roots sha fr s m roots = Inr r) \<longleftrightarrow> separate_engines roots)"
  by (rule lanes_merge_exactly [OF assms])

text \<open>
  C34. A merged campaign is the registered one. When the lanes' frozen roots merge, every scheduled block is in
  the result exactly once and comes from one of the roots, whose own hash verifies; all blocks of a task were
  run on one lane, the one the frozen partition gives the task; every scheduled cell is there exactly once and
  no other; and two lanes never share an engine epoch.
\<close>

theorem merged_campaign_exact:
  assumes merged: "merge_shard_freeze_roots sha fr body m roots = Inr r"
    and keys: "distinct (map fst roots)" and ids: "distinct (map bl_id (sm_blocks m))"
  shows "mset (map (rb_id \<circ> snd) (mr_blocks r)) = mset (map bl_id (sm_blocks m))
    \<and> (\<forall>(k, rb) \<in> set (mr_blocks r). \<exists>rt. (k, rt) \<in> set roots \<and> rb \<in> set (ro_blocks rt)
         \<and> canon_digest sha fr (root_content rt) = Inr (ro_freeze rt))
    \<and> (\<forall>(k, rb) \<in> set (mr_blocks r). \<forall>b \<in> set (sm_blocks m). rb_id rb = bl_id b
         \<longrightarrow> map_of (sd_task_to body) (bl_task b) = Some k)
    \<and> distinct (concat (map pair_quads (mr_blocks r)))
    \<and> set (concat (map pair_quads (mr_blocks r))) = cell_quad ` set (sched_cells m)
    \<and> mr_total r = int (card (cell_quad ` set (sched_cells m)))
    \<and> (\<forall>(k, rb) \<in> set (mr_blocks r). \<forall>(l, rc) \<in> set (mr_blocks r). k \<noteq> l
         \<longrightarrow> cr_epoch ` set (rb_cells rb) \<inter> cr_epoch ` set (rb_cells rc) = {})"
proof -
  have ok: "mergeable sha fr body m roots" using merge_runs(1) [OF keys] merged by blast
  have r: "mr_blocks r = sort_key (rb_id \<circ> snd) (frozen_pairs (sort_key fst roots))"
    "mr_total r = int (length (concat (map pair_quads (frozen_pairs roots))))"
    using merge_runs(2) [OF keys merged] by auto
  have perm: "mset (mr_blocks r) = mset (frozen_pairs roots)" by (simp add: r(1) frozen_pairs_sorted)
  then have pairs: "set (mr_blocks r) = set (frozen_pairs roots)" by (metis set_mset_mset)
  have pass: "lanes_pass sha fr m (sd_task_to body) roots" using ok by (simp add: mergeable_def)
  have origin: "\<exists>rt. (k, rt) \<in> set roots \<and> rb \<in> set (ro_blocks rt)" if "(k, rb) \<in> set (mr_blocks r)" for k rb
    using that unfolding pairs frozen_pairs_def by auto
  have accepted: "root_accepted sha fr m (sd_task_to body) (k, rt)" if "(k, rt) \<in> set roots" for k rt
    using pass that by (auto simp: lanes_pass_def)
  have owned: "map_of (sd_task_to body) (bl_task b) = Some k"
    if "(k, rb) \<in> set (mr_blocks r)" "b \<in> set (sm_blocks m)" "rb_id rb = bl_id b" for k rb b
  proof -
    have "dict_of (map (\<lambda>b. (bl_id b, b)) (sm_blocks m)) = map (\<lambda>b. (bl_id b, b)) (sm_blocks m)"
      by (rule dict_of_distinct) (use ids in \<open>simp add: comp_def\<close>)
    moreover have "map_of (map (\<lambda>b. (bl_id b, b)) (sm_blocks m)) (bl_id b) = Some b"
      by (rule map_of_is_SomeI) (use ids that(2) in \<open>auto simp: comp_def\<close>)
    ultimately show ?thesis using origin [OF that(1)] accepted that(3) by (fastforce simp: root_accepted_def belongs_def)
  qed
  have apart: "cr_epoch ` set (rb_cells rb) \<inter> cr_epoch ` set (rb_cells rc) = {}"
    if mem: "(k, rb) \<in> set (mr_blocks r)" "(l, rc) \<in> set (mr_blocks r)" and neq: "k \<noteq> l" for k rb l rc
  proof -
    obtain rt ru where rt: "(k, rt) \<in> set roots" "rb \<in> set (ro_blocks rt)" and ru: "(l, ru) \<in> set roots" "rc \<in> set (ro_blocks ru)"
      using origin mem by meson
    have "separate_engines roots" using ok by (simp add: mergeable_def)
    then have "set (lane_epochs rt) \<inter> set (lane_epochs ru) = {}"
      using rt(1) ru(1) neq unfolding separate_engines_def by (cases "k < l") fastforce+
    moreover have "cr_epoch ` set (rb_cells rb) \<subseteq> set (lane_epochs rt)" "cr_epoch ` set (rb_cells rc) \<subseteq> set (lane_epochs ru)"
      using rt(2) ru(2) by (auto simp: lane_epochs_def lane_cells_def)
    ultimately show ?thesis by blast
  qed
  have quads: "distinct (concat (map pair_quads (frozen_pairs roots)))"
    "set (concat (map pair_quads (frozen_pairs roots))) = cell_quad ` set (sched_cells m)"
    using pass ok by (auto simp: lanes_pass_def mergeable_def simp del: set_concat)
  have "mset (concat (map pair_quads (mr_blocks r))) = mset (concat (map pair_quads (frozen_pairs roots)))"
    unfolding mset_concat_map perm ..
  then have cells: "distinct (concat (map pair_quads (mr_blocks r)))"
    "set (concat (map pair_quads (mr_blocks r))) = cell_quad ` set (sched_cells m)"
    using quads by (metis mset_eq_imp_distinct_iff, metis mset_eq_setD)
  have blocks: "mset (map (rb_id \<circ> snd) (mr_blocks r)) = mset (map bl_id (sm_blocks m))"
  proof -
    have "mset (map (rb_id \<circ> snd) (frozen_pairs roots)) = mset (map bl_id (sm_blocks m))"
      using pass ok ids by (subst set_eq_iff_mset_eq_distinct [symmetric]) (auto simp: lanes_pass_def mergeable_def)
    then show ?thesis by (simp add: perm)
  qed
  have total: "mr_total r = int (card (cell_quad ` set (sched_cells m)))"
    using distinct_card [OF quads(1)] r(2) by (simp only: quads(2))
  have hashed: "canon_digest sha fr (root_content rt) = Inr (ro_freeze rt)" if "(k, rt) \<in> set roots" for k rt
    using accepted [OF that] by (simp add: root_accepted_def)
  show ?thesis
  proof (intro conjI blocks cells total)
    show "\<forall>(k, rb) \<in> set (mr_blocks r). \<exists>rt. (k, rt) \<in> set roots \<and> rb \<in> set (ro_blocks rt)
         \<and> canon_digest sha fr (root_content rt) = Inr (ro_freeze rt)"
      using origin hashed by blast
    show "\<forall>(k, rb) \<in> set (mr_blocks r). \<forall>b \<in> set (sm_blocks m). rb_id rb = bl_id b
         \<longrightarrow> map_of (sd_task_to body) (bl_task b) = Some k"
      using owned by blast
    show "\<forall>(k, rb) \<in> set (mr_blocks r). \<forall>(l, rc) \<in> set (mr_blocks r). k \<noteq> l
         \<longrightarrow> cr_epoch ` set (rb_cells rb) \<inter> cr_epoch ` set (rb_cells rc) = {}"
      using apart by blast
  qed
qed

subsection \<open>One task on one of two lanes\<close>

definition example_lanes :: "lane list" where
  "example_lanes =
     [\<lparr>ln_shard = 0, ln_gpu = ''GPU-a'', ln_vllm = 1, ln_provider = 2, ln_root = ''r0'', ln_paid = True\<rparr>,
      \<lparr>ln_shard = 1, ln_gpu = ''GPU-b'', ln_vllm = 3, ln_provider = 4, ln_root = ''r1'', ln_paid = False\<rparr>]"

lemma example_lanes_ok: "check_lanes example_lanes = Inr ()"
  by (simp add: check_lanes_def example_lanes_def starts_with_def)

lemma example_schedule:
  "schedule_digest example_sha fr example_manifest = Inr example_digest"
  "sched_cells example_manifest = [example_cell]" "sm_blocks example_manifest = [example_block]"
  "bl_task example_block = ''t''" "bl_id example_block = ''B1''" "ce_task example_cell = ''t''"
proof -
  have notes_ok: "encodable_dict (sm_notes example_manifest)" by (simp add: example_manifest_def encodable_dict_def)
  show "schedule_digest example_sha fr example_manifest = Inr example_digest"
    unfolding schedule_digest_def by (rule example_hash) (rule schedule_encodable(1) [OF notes_ok])
qed (simp_all add: example_manifest_def example_block_def example_cell_def sched_cells_def)

lemma example_partition:
  "assign_tasks_to_lanes sha [(''t'', c)] 2 binding = Inr [(''t'', 0)]"
proof -
  have "placing_order sha binding [(''t'', c)] = [''t'']"
    by (simp add: placing_order_def seeded_permutation_def Let_def)
  moreover have "lightest [0, 0] = 0" by (simp add: lightest_def upt_rec)
  ultimately show ?thesis
    by (simp add: assign_tasks_to_lanes_def place_task_def Let_def numeral_2_eq_2)
qed

lemma encodable_shard [simp]: "encodable (shard_content s)"
proof -
  have "encodable (str_dict (map (\<lambda>(t, c). (t, PFloat (Finite c))) (sd_costs s)))"
    "encodable (str_dict (map (\<lambda>(t, k). (t, PInt k)) (sd_task_to s)))"
    by (rule encodable_fields, auto simp: encodable_dict_def)+
  moreover have "encodable (lane_content l)" for l
    unfolding lane_content_def by (rule encodable_fields) (simp add: encodable_dict_def)
  ultimately show ?thesis unfolding shard_content_def by (intro encodable_fields) (auto simp: encodable_dict_def)
qed

lemma example_built:
  "\<exists>s. build_shard_manifest example_sha fr example_manifest example_lanes [(''t'', 7)] ''st'' ''pr'' = Inr s
     \<and> map_of (sd_blocks s) 0 = Some [''B1''] \<and> map_of (sd_blocks s) 1 = Some []"
proof -
  have tasks: "scheduled_tasks example_manifest = [''t'']"
    by (simp add: scheduled_tasks_def example_schedule dedup_def)
  have lanes2: "length example_lanes = 2" by (simp add: example_lanes_def)
  have grouped: "group_by_lane example_lanes [(''t'', 0)] [(''t'', x)] = Inr [(0, [x]), (1, [])]" for x
    by (simp add: group_by_lane_def example_lanes_def owner_def add_under_def dict_of_def)
  have dg: "shard_digest example_sha fr (shard_content s) = Inr example_digest" for s
    by (simp add: shard_digest_Inr example_hash)
  show ?thesis
    by (simp add: build_shard_manifest_def example_lanes_ok tasks lanes2 cost_of_task_def example_partition example_schedule grouped
        shard_schedule_digest_def dg Let_def)
qed

lemma example_shares:
  assumes "build_shard_manifest example_sha fr example_manifest example_lanes [(''t'', 7)] ''st'' ''pr'' = Inr s"
    and "map_of (sd_blocks s) 0 = Some [''B1'']" "map_of (sd_blocks s) 1 = Some []"
  shows "\<exists>rt ru. froze_share example_sha fr s example_manifest (0, rt) \<and> froze_share example_sha fr s example_manifest (1, ru)
    \<and> ro_blocks ru = []"
proof -
  have basics: "sm_split example_manifest = ''dev''" "br_id example_record = ''B1''"
    by (simp_all add: example_manifest_def example_record_def)
  have json: "schedule_to_json example_sha fr example_manifest
      = Inr (str_dict (schedule_content example_manifest @ [(''schedule_sha256'', PStr example_digest)]))"
    by (simp add: schedule_to_json_def example_schedule)
  have notes_ok: "encodable_dict (sm_notes example_manifest)" by (simp add: example_manifest_def encodable_dict_def)
  have hash: "canon_digest example_sha fr (root_content x) = Inr example_digest"
    if "ro_schedule x = str_dict (schedule_content example_manifest @ [(''schedule_sha256'', PStr example_digest)])" for x
    by (rule example_hash [OF encodable_root]) (simp add: that schedule_encodable(2) [OF notes_ok])
  obtain rb where block: "check_block example_sha fr example_block example_record = Inr rb" using example_check by blast
  have one: "\<exists>rt. freeze_root_record example_sha fr example_manifest ''r'' ''ph'' ''dev'' [example_record] (Some 0) (Some [''B1'']) = Inr rt"
    by (simp add: freeze_root_record_def expected_ids_def add_record_def example_schedule basics block json lift_schedule_def hash Let_def)
  have none: "\<exists>ru. freeze_root_record example_sha fr example_manifest ''r'' ''ph'' ''dev'' [] (Some 1) (Some []) = Inr ru \<and> ro_blocks ru = []"
    by (simp add: freeze_root_record_def expected_ids_def example_schedule basics json lift_schedule_def hash Let_def map_filter_simps)
  from one none assms show ?thesis unfolding froze_share_def prod.case basics by blast
qed

lemma example_campaign:
  "\<exists>s rt ru. build_shard_manifest example_sha fr example_manifest example_lanes [(''t'', 7)] ''st'' ''pr'' = Inr s
     \<and> (\<forall>kr \<in> set [(0, rt), (1, ru)]. froze_share example_sha fr s example_manifest kr)
     \<and> separate_engines [(0, rt), (1, ru)]"
proof -
  obtain s where s: "build_shard_manifest example_sha fr example_manifest example_lanes [(''t'', 7)] ''st'' ''pr'' = Inr s"
    "map_of (sd_blocks s) 0 = Some [''B1'']" "map_of (sd_blocks s) 1 = Some []"
    using example_built by blast
  obtain rt ru where roots: "froze_share example_sha fr s example_manifest (0, rt)" "froze_share example_sha fr s example_manifest (1, ru)"
    "ro_blocks ru = []" using example_shares [OF s] by blast
  then have "separate_engines [(0, rt), (1, ru)]" by (simp add: separate_engines_def lane_epochs_def lane_cells_def dedup_def)
  with s(1) roots(1,2) show ?thesis by auto
qed

lemma example_conditions:
  "\<forall>(t :: string, c :: real) \<in> set [(''t'', 7)]. 0 \<le> c" "distinct (map bl_id (sm_blocks example_manifest))"
  "distinct (map cell_key (sched_cells example_manifest))" "distinct (map cell_quad (sched_cells example_manifest))"
  "\<forall>x. length (example_sha x) = 32" "distinct (map fst [(0 :: int, rt), (1, ru)])"
  "fst ` set [(0, rt), (1, ru)] = ln_shard ` set example_lanes"
  by (simp_all add: example_schedule example_sha_def example_lanes_def)

lemma example_merge:
  "\<exists>s roots r. merge_shard_freeze_roots example_sha fr s example_manifest roots = Inr r \<and> distinct (map fst roots)"
proof -
  obtain s rt ru where s: "build_shard_manifest example_sha fr example_manifest example_lanes [(''t'', 7)] ''st'' ''pr'' = Inr s"
    "\<forall>kr \<in> set [(0, rt), (1, ru)]. froze_share example_sha fr s example_manifest kr" "separate_engines [(0, rt), (1, ru)]"
    using example_campaign by blast
  from lanes_merge_exactly [OF s(1) example_conditions s(2)] s(3) show ?thesis
    using example_conditions(6) [of rt ru] by (intro exI [of _ s] exI [of _ "[(0, rt), (1, ru)]"]) auto
qed

theorem lanes_compose_witness:
  "\<exists>s roots r. verify_shard_manifest example_sha (\<lambda>_. ''0'') s example_manifest = Inr ()
     \<and> merge_shard_freeze_roots example_sha (\<lambda>_. ''0'') s example_manifest roots = Inr r \<and> length roots = 2"
proof -
  obtain s rt ru where s: "build_shard_manifest example_sha (\<lambda>_. ''0'') example_manifest example_lanes [(''t'', 7)] ''st'' ''pr'' = Inr s"
    "\<forall>kr \<in> set [(0, rt), (1, ru)]. froze_share example_sha (\<lambda>_. ''0'') s example_manifest kr" "separate_engines [(0, rt), (1, ru)]"
    using example_campaign [of "\<lambda>_. ''0''"] by blast
  from lanes_compose [OF s(1) example_conditions s(2)] s(3) show ?thesis
    by (intro exI [of _ s] exI [of _ "[(0, rt), (1, ru)]"]) auto
qed

theorem merged_campaign_exact_witness:
  "\<exists>s roots r. merge_shard_freeze_roots example_sha (\<lambda>_. ''0'') s example_manifest roots = Inr r
     \<and> map (rb_id \<circ> snd) (mr_blocks r) = [''B1''] \<and> mr_total r = 1"
proof -
  obtain s roots r where merged: "merge_shard_freeze_roots example_sha (\<lambda>_. ''0'') s example_manifest roots = Inr r"
    and keys: "distinct (map fst roots)" using example_merge [of "\<lambda>_. ''0''"] by blast
  have once: "mset (map (rb_id \<circ> snd) (mr_blocks r)) = {#''B1''#}" and "mr_total r = 1"
    using merged_campaign_exact [OF merged keys example_conditions(2)] by (simp_all add: example_schedule)
  moreover have "map (rb_id \<circ> snd) (mr_blocks r) = [''B1'']" using once by (simp only: mset_single_iff)
  ultimately show ?thesis using merged by (intro exI [of _ s] exI [of _ roots] exI [of _ r]) simp
qed

end
