(* ===== verification/PromptPack.thy ===== *)
theory PromptPack
  imports BridgeText
begin

text \<open>
  \<^verbatim>\<open>src/src/shapeflow/p1/prompt_pack.py\<close>: admitting candidates into the window of the engine, one span of
  every page first. Spans are the records of \<open>SpanIdentity\<close>, referred to by their position. Lower case of an
  ASCII letter is written out; of any other character it is the parameter \<open>lower\<close>, the table of the interpreter.
  A score is a sum of products of counts, an integer. The minimum for a source is a natural number (Python would
  take a negative one as a slice from the end; the callers pass the default, 1).
\<close>

subsection \<open>Relevance\<close>

definition lower_ascii :: "char \<Rightarrow> char" where
  "lower_ascii c = (if 65 \<le> (of_char c :: nat) \<and> (of_char c :: nat) \<le> 90 then char_of (of_char c + 32 :: nat) else c)"

definition lower_text :: "(string \<Rightarrow> string) \<Rightarrow> string \<Rightarrow> string" where
  "lower_text lower s = concat (map (\<lambda>c. if is_ascii c then map lower_ascii c else lower c) (characters s))"

definition token_char :: "char \<Rightarrow> bool" where
  "token_char c \<longleftrightarrow> (97 \<le> (of_char c :: nat) \<and> (of_char c :: nat) \<le> 122) \<or> (48 \<le> (of_char c :: nat) \<and> (of_char c :: nat) \<le> 57)"

text \<open>\<open>[a-z0-9]+\<close>: the maximal runs of token characters, \<open>run\<close> the one being read.\<close>

fun token_runs :: "string \<Rightarrow> string \<Rightarrow> string list" where
  "token_runs run [] = (if run = [] then [] else [run])"
| "token_runs run (c # cs) =
     (if token_char c then token_runs (run @ [c]) cs
      else if run = [] then token_runs [] cs
      else run # token_runs [] cs)"

definition query_terms :: "(string \<Rightarrow> string) \<Rightarrow> string \<Rightarrow> string list" where
  "query_terms lower s = token_runs [] (lower_text lower s)"

definition relevance :: "(string \<Rightarrow> string) \<Rightarrow> string \<Rightarrow> string list \<Rightarrow> int" where
  "relevance lower t terms =
     (if terms = [] then 0
      else (let tokens = query_terms lower t
            in sum_list (map (\<lambda>w. int (count_list terms w) * int (count_list tokens w)) (dedup terms))))"

definition page_key :: "span \<Rightarrow> string" where
  "page_key sp =
     (let or_else = (\<lambda>x y. case x of None \<Rightarrow> y | Some v \<Rightarrow> if v = [] then y else v)
      in or_else (sp_content_hash sp) (or_else (sp_message_id sp) (case sp_span_id sp of None \<Rightarrow> [] | Some v \<Rightarrow> v)))"

definition span_id_text :: "span \<Rightarrow> string" where
  "span_id_text sp = (case sp_span_id sp of None \<Rightarrow> [] | Some v \<Rightarrow> v)"

subsection \<open>The packer\<close>

record prompt_pack_result =
  pp_span_ids :: "string list"
  pp_dropped :: "string list"
  pp_admitted_by_source :: "(string \<times> nat) list"
  pp_offered_by_source :: "(string \<times> nat) list"
  pp_admitted_tokens :: int
  pp_offered_tokens :: int
  pp_budget :: int

datatype pack_error = NoRoom int | FloorTooBig int int nat | NotParallel

definition pruned :: "prompt_pack_result \<Rightarrow> bool" where
  "pruned r \<longleftrightarrow> pp_dropped r \<noteq> []"

definition sources_covered :: "prompt_pack_result \<Rightarrow> nat" where
  "sources_covered r = length (filter (\<lambda>(k, n). n \<noteq> 0) (pp_admitted_by_source r))"

text \<open>The positions of every source, in the order the sources first appear.\<close>

fun group_sources :: "span list \<Rightarrow> nat \<Rightarrow> (string \<times> nat list) list \<Rightarrow> (string \<times> nat list) list" where
  "group_sources [] i d = d"
| "group_sources (sp # sps) i d =
     group_sources sps (Suc i)
       (dict_put (page_key sp) ((case map_of d (page_key sp) of None \<Rightarrow> [] | Some is \<Rightarrow> is) @ [i]) d)"

definition rank_sources :: "(nat \<Rightarrow> int) \<Rightarrow> (string \<times> nat list) list \<Rightarrow> (string \<times> nat list) list" where
  "rank_sources score d = map (\<lambda>(k, is). (k, sort_key (\<lambda>i. (- score i, i)) is)) d"

definition page_order :: "(string \<times> nat list) list \<Rightarrow> (string \<times> nat list) list" where
  "page_order d = sort_key (\<lambda>(k, is). min_list is) d"

type_synonym admission = "nat list \<times> int"

definition admit_floor :: "int list \<Rightarrow> nat \<Rightarrow> (string \<times> nat list) list \<Rightarrow> admission" where
  "admit_floor costs least pages =
     (let first = concat (map (\<lambda>(k, is). take least is) pages) in (first, sum_list (map (\<lambda>i. costs ! i) first)))"

definition admit_next :: "int list \<Rightarrow> int \<Rightarrow> nat \<Rightarrow> string \<times> nat list \<Rightarrow> admission \<Rightarrow> admission" where
  "admit_next costs budget depth page s =
     (case page of (k, is) \<Rightarrow> case s of (admitted, spent) \<Rightarrow>
       if depth \<ge> length is then s
       else if is ! depth \<in> set admitted then s
       else if spent + costs ! (is ! depth) > budget then s
       else (admitted @ [is ! depth], spent + costs ! (is ! depth)))"

definition admit_round :: "int list \<Rightarrow> int \<Rightarrow> (string \<times> nat list) list \<Rightarrow> nat \<Rightarrow> admission \<Rightarrow> admission" where
  "admit_round costs budget pages depth s = fold (admit_next costs budget depth) pages s"

definition count_sources :: "span list \<Rightarrow> nat list \<Rightarrow> (string \<times> nat) list" where
  "count_sources spans is =
     (let keys = map (\<lambda>i. page_key (spans ! i)) is in sort (map (\<lambda>k. (k, count_list keys k)) (dedup keys)))"

definition prompt_pack_v1 ::
  "(string \<Rightarrow> string) \<Rightarrow> span list \<Rightarrow> string list \<Rightarrow> int list \<Rightarrow> int \<Rightarrow> string \<Rightarrow> nat \<Rightarrow> pack_error + prompt_pack_result" where
  "prompt_pack_v1 lower spans texts costs budget topic least =
     rbind (guard_err (0 < budget) (NoRoom budget)) (\<lambda>_.
     rbind (guard_err (length spans = length texts \<and> length texts = length costs) NotParallel) (\<lambda>_.
     let terms = query_terms lower topic;
         ranked = rank_sources (\<lambda>i. relevance lower (texts ! i) terms) (group_sources spans 0 []);
         pages = page_order ranked;
         start = admit_floor costs least pages in
     rbind (guard_err (snd start \<le> budget) (FloorTooBig (snd start) budget (length ranked))) (\<lambda>_.
     let rounds = Max (insert 0 (set (map (length \<circ> snd) ranked)));
         final = fold (admit_round costs budget pages) [least..<rounds] start;
         kept = sort (fst final);
         dropped = filter (\<lambda>i. i \<notin> set (fst final)) [0..<length spans] in
     Inr \<lparr>pp_span_ids = map (\<lambda>i. span_id_text (spans ! i)) kept, pp_dropped = map (\<lambda>i. span_id_text (spans ! i)) dropped,
          pp_admitted_by_source = count_sources spans kept,
          pp_offered_by_source = count_sources spans [0..<length spans],
          pp_admitted_tokens = snd final, pp_offered_tokens = sum_list costs, pp_budget = budget\<rparr>)))"

text \<open>What is left of the window for candidates: \<open>PromptBudget.candidates\<close>.\<close>

definition candidate_budget :: "int \<Rightarrow> int \<Rightarrow> int \<Rightarrow> int \<Rightarrow> int" where
  "candidate_budget max_model_len completion_cap overhead margin = max_model_len - completion_cap - overhead - margin"

definition accounting :: "prompt_pack_result \<Rightarrow> pyval" where
  "accounting r = str_dict
     [(''version'', PStr ''prompt_pack_page_floor_then_diversity_v1''), (''budget'', PInt (pp_budget r)),
      (''admitted_tokens'', PInt (pp_admitted_tokens r)), (''offered_tokens'', PInt (pp_offered_tokens r)),
      (''admitted_spans'', PInt (int (length (pp_span_ids r)))), (''dropped_spans'', PInt (int (length (pp_dropped r)))),
      (''sources_offered'', PInt (int (length (pp_offered_by_source r)))),
      (''sources_covered'', PInt (int (sources_covered r))), (''pruned'', PBool (pruned r))]"

subsection \<open>The sources partition the positions\<close>

definition positions :: "span list \<Rightarrow> string \<Rightarrow> nat list" where
  "positions spans k = filter (\<lambda>i. page_key (spans ! i) = k) [0..<length spans]"

lemma group_sources_spec:
  assumes "distinct (map fst d)" "\<forall>p \<in> set d. snd p = positions pre (fst p) \<and> snd p \<noteq> []"
    and "fst ` set d = page_key ` set pre"
  shows "distinct (map fst (group_sources sps (length pre) d))
    \<and> (\<forall>p \<in> set (group_sources sps (length pre) d). snd p = positions (pre @ sps) (fst p) \<and> snd p \<noteq> [])
    \<and> fst ` set (group_sources sps (length pre) d) = page_key ` set (pre @ sps)"
  using assms
proof (induction sps arbitrary: pre d)
  case (Cons sp sps)
  let ?k = "page_key sp"
  let ?old = "case map_of d ?k of None \<Rightarrow> [] | Some is \<Rightarrow> is"
  let ?d = "dict_put ?k (?old @ [length pre]) d"
  have old: "?old = positions pre ?k"
  proof (cases "map_of d ?k")
    case None
    then have "?k \<notin> page_key ` set pre" using Cons.prems(3) by (metis map_of_eq_None_iff)
    then have "positions pre ?k = []" 
      by (auto simp: positions_def filter_empty_conv) (metis image_eqI nth_mem)
    with None show ?thesis by simp
  next
    case (Some ps)
    then show ?thesis using Cons.prems(2) map_of_SomeD [OF Some] by fastforce
  qed
  have grown: "positions (pre @ [sp]) k = positions pre k @ (if ?k = k then [length pre] else [])" for k
    by (auto simp: positions_def nth_append intro!: filter_cong)
  have "distinct (map fst ?d)" using Cons.prems(1) by simp
  moreover have "\<forall>p \<in> set ?d. snd p = positions (pre @ [sp]) (fst p) \<and> snd p \<noteq> []"
  proof
    fix p assume "p \<in> set ?d"
    then have "map_of ?d (fst p) = Some (snd p)" by (intro map_of_is_SomeI) (simp_all only: prod.collapse distinct_dict_put [OF Cons.prems(1)])
    then have "(if fst p = ?k then Some (?old @ [length pre]) else map_of d (fst p)) = Some (snd p)" by simp
    then show "snd p = positions (pre @ [sp]) (fst p) \<and> snd p \<noteq> []"
      using old grown Cons.prems(2) by (auto split: if_splits dest!: map_of_SomeD)
  qed
  moreover have "fst ` set ?d = page_key ` set (pre @ [sp])"
    using arg_cong [OF keys_dict_put [of ?k "?old @ [length pre]" d], of set] Cons.prems(3) by (auto split: if_splits)
  ultimately show ?case using Cons.IH [of ?d "pre @ [sp]"] unfolding group_sources.simps length_append_singleton append_assoc append.simps by blast
qed (simp only: group_sources.simps append_Nil2)

lemma groups:
  "distinct (map fst (group_sources spans 0 []))"
  "p \<in> set (group_sources spans 0 []) \<Longrightarrow> snd p = positions spans (fst p) \<and> snd p \<noteq> []"
  "fst ` set (group_sources spans 0 []) = page_key ` set spans"
  using group_sources_spec [of "[]" "[]" spans] by auto

definition pages_of :: "(nat \<Rightarrow> int) \<Rightarrow> span list \<Rightarrow> (string \<times> nat list) list" where
  "pages_of score spans = page_order (rank_sources score (group_sources spans 0 []))"

lemma pages_facts:
  shows "distinct (map fst (pages_of score spans))"
    and "p \<in> set (pages_of score spans) \<Longrightarrow> mset (snd p) = mset (positions spans (fst p)) \<and> snd p \<noteq> []"
    and "fst ` set (pages_of score spans) = page_key ` set spans"
proof -
  have ms: "mset (pages_of score spans) = mset (rank_sources score (group_sources spans 0 []))"
    by (simp add: pages_of_def page_order_def)
  have "mset (map fst (pages_of score spans)) = mset (map fst (group_sources spans 0 []))"
    unfolding mset_map ms by (simp add: rank_sources_def case_prod_beta comp_def image_mset.compositionality)
  then show "distinct (map fst (pages_of score spans))" "fst ` set (pages_of score spans) = page_key ` set spans"
    using groups(1,3) [of spans] by (metis mset_eq_imp_distinct_iff, metis list.set_map mset_eq_setD)
  show "mset (snd p) = mset (positions spans (fst p)) \<and> snd p \<noteq> []" if "p \<in> set (pages_of score spans)"
  proof -
    have "p \<in> set (rank_sources score (group_sources spans 0 []))" using that ms by (metis set_mset_mset)
    then obtain q where q: "q \<in> set (group_sources spans 0 [])" "fst p = fst q"
      "snd p = sort_key (\<lambda>i. (- score i, i)) (snd q)"
      by (auto simp: rank_sources_def)
    have ms: "mset (snd p) = mset (snd q)" unfolding q(3) by simp
    then show ?thesis using groups(2) [OF q(1)] q(2) by (metis mset_zero_iff)
  qed
qed

lemma page_positions:
  assumes "p \<in> set (pages_of score spans)"
  shows "i \<in> set (snd p) \<longleftrightarrow> i < length spans \<and> page_key (spans ! i) = fst p" "distinct (snd p)"
    "length (snd p) = length (positions spans (fst p))"
proof -
  have ms: "mset (snd p) = mset (positions spans (fst p))" using pages_facts(2) [OF assms] by simp
  show "i \<in> set (snd p) \<longleftrightarrow> i < length spans \<and> page_key (spans ! i) = fst p"
    using mset_eq_setD [OF ms] by (auto simp: positions_def)
  show "distinct (snd p)" using mset_eq_imp_distinct_iff [OF ms] by (simp add: positions_def)
  show "length (snd p) = length (positions spans (fst p))" using ms by (rule mset_eq_length)
qed

lemma pages_cover: "i \<in> (\<Union>p \<in> set (pages_of score spans). set (snd p)) \<longleftrightarrow> i < length spans"
proof
  assume "i \<in> (\<Union>p \<in> set (pages_of score spans). set (snd p))"
  then show "i < length spans" using page_positions(1) by blast
next
  assume i: "i < length spans"
  then have "page_key (spans ! i) \<in> fst ` set (pages_of score spans)" unfolding pages_facts(3) by simp
  then obtain p where "p \<in> set (pages_of score spans)" "page_key (spans ! i) = fst p" by blast
  then show "i \<in> (\<Union>p \<in> set (pages_of score spans). set (snd p))" using page_positions(1) i by auto
qed

subsection \<open>Admission only grows\<close>

definition admits :: "int list \<Rightarrow> int \<Rightarrow> nat set \<Rightarrow> admission \<Rightarrow> admission \<Rightarrow> bool" where
  "admits costs budget U s t \<longleftrightarrow> (\<exists>new. fst t = fst s @ new \<and> snd t = snd s + sum_list (map (\<lambda>i. costs ! i) new) \<and> set new \<subseteq> U)
     \<and> (distinct (fst s) \<longrightarrow> distinct (fst t)) \<and> (snd s \<le> budget \<longrightarrow> snd t \<le> budget)"

lemma admitsI:
  "fst t = fst s @ new \<Longrightarrow> snd t = snd s + sum_list (map (\<lambda>i. costs ! i) new) \<Longrightarrow> set new \<subseteq> U
    \<Longrightarrow> (distinct (fst s) \<Longrightarrow> distinct (fst t)) \<Longrightarrow> (snd s \<le> budget \<Longrightarrow> snd t \<le> budget) \<Longrightarrow> admits costs budget U s t"
  unfolding admits_def by blast

lemma admits_refl [simp]: "admits costs budget U s s"
  by (rule admitsI [where new = "[]"]) simp_all

lemma admits_trans:
  assumes "admits costs budget U s t" "admits costs budget U t u"
  shows "admits costs budget U s u"
proof -
  obtain xs ys where "fst t = fst s @ xs" "snd t = snd s + sum_list (map (\<lambda>i. costs ! i) xs)" "set xs \<subseteq> U"
    "fst u = fst t @ ys" "snd u = snd t + sum_list (map (\<lambda>i. costs ! i) ys)" "set ys \<subseteq> U"
    using assms unfolding admits_def by blast
  with assms show ?thesis by (intro admitsI [where new = "xs @ ys"]) (simp_all add: admits_def)
qed

lemma admits_fold:
  assumes "\<And>x s. x \<in> set xs \<Longrightarrow> admits costs budget U s (f x s)"
  shows "admits costs budget U s (fold f xs s)"
  using assms
proof (induction xs arbitrary: s)
  case (Cons x xs)
  have "admits costs budget U s (f x s)" by (rule Cons.prems) simp
  moreover have "admits costs budget U (f x s) (fold f xs (f x s))" by (rule Cons.IH) (simp add: Cons.prems)
  ultimately show ?case by (auto intro: admits_trans)
qed simp

lemma admit_next_if:
  "admit_next costs budget depth p s =
    (if depth < length (snd p) \<and> snd p ! depth \<notin> set (fst s) \<and> snd s + costs ! (snd p ! depth) \<le> budget
     then (fst s @ [snd p ! depth], snd s + costs ! (snd p ! depth)) else s)"
  by (cases p; cases s) (auto simp: admit_next_def)

lemma admits_next:
  assumes "p \<in> set pages"
  shows "admits costs budget (\<Union>q \<in> set pages. set (snd q)) s (admit_next costs budget depth p s)"
proof -
  have "snd p ! depth \<in> set (snd p)" if "depth < length (snd p)" using that by (rule nth_mem)
  with assms show ?thesis unfolding admit_next_if by (auto intro!: admitsI [where new = "[snd p ! depth]"])
qed

lemma admits_round: "admits costs budget (\<Union>q \<in> set pages. set (snd q)) s (admit_round costs budget pages depth s)"
  unfolding admit_round_def by (rule admits_fold) (rule admits_next)

text \<open>A position is settled when it is admitted or does not fit any more; it stays settled.\<close>

definition settled :: "int list \<Rightarrow> int \<Rightarrow> nat \<Rightarrow> admission \<Rightarrow> bool" where
  "settled costs budget i s \<longleftrightarrow> i \<in> set (fst s) \<or> budget < snd s + costs ! i"

lemma settled_admits:
  assumes "admits costs budget U s t" "\<forall>i \<in> U. 0 \<le> costs ! i" "settled costs budget i s"
  shows "settled costs budget i t"
proof -
  obtain new where new: "fst t = fst s @ new" "snd t = snd s + sum_list (map (\<lambda>i. costs ! i) new)" "set new \<subseteq> U"
    using assms(1) by (auto simp: admits_def)
  have "0 \<le> sum_list (map (\<lambda>i. costs ! i) new)" by (rule sum_list_nonneg) (use new(3) assms(2) in auto)
  with new(1,2) assms(3) show ?thesis by (auto simp: settled_def)
qed

lemma settled_fold:
  assumes "x \<in> set xs" "\<And>s. settled costs budget i (f x s)" "\<And>x s. x \<in> set xs \<Longrightarrow> admits costs budget U s (f x s)"
    and "\<forall>i \<in> U. 0 \<le> costs ! i"
  shows "settled costs budget i (fold f xs s)"
proof -
  obtain us vs where xs: "xs = us @ x # vs" using split_list [OF assms(1)] by blast
  have "admits costs budget U (f x (fold f us s)) (fold f vs (f x (fold f us s)))"
    by (rule admits_fold) (use assms(3) xs in auto)
  then show ?thesis unfolding xs using settled_admits assms(2,4) by fastforce
qed

lemma settled_next: "depth < length (snd p) \<Longrightarrow> settled costs budget (snd p ! depth) (admit_next costs budget depth p s)"
  by (cases p; cases s) (auto simp: settled_def admit_next_def)

lemma settled_round:
  assumes "p \<in> set pages" "depth < length (snd p)" "\<forall>q \<in> set pages. \<forall>i \<in> set (snd q). 0 \<le> costs ! i"
  shows "settled costs budget (snd p ! depth) (admit_round costs budget pages depth s)"
  unfolding admit_round_def
proof (rule settled_fold [where U = "\<Union>q \<in> set pages. set (snd q)", OF assms(1)])
  show "settled costs budget (snd p ! depth) (admit_next costs budget depth p s)" for s by (rule settled_next [OF assms(2)])
  show "admits costs budget (\<Union>q \<in> set pages. set (snd q)) s (admit_next costs budget depth q s)" if "q \<in> set pages" for q s
    by (rule admits_next [OF that])
qed (use assms(3) in auto)

subsection \<open>What the packer promises\<close>

lemma take_pages_distinct:
  assumes "distinct (map fst pages)" "\<And>p i. p \<in> set pages \<Longrightarrow> i \<in> set (snd p) \<Longrightarrow> key i = fst p"
    and "\<And>p. p \<in> set pages \<Longrightarrow> distinct (snd p)"
  shows "distinct (concat (map (\<lambda>(k, is). take n is) pages))"
  using assms
proof (induction pages)
  case (Cons p pages)
  obtain k ps where p: "p = (k, ps)" by (cases p)
  have "i \<notin> set (concat (map (\<lambda>(k, is). take n is) pages))" if "i \<in> set (take n ps)" for i
  proof
    assume "i \<in> set (concat (map (\<lambda>(k, is). take n is) pages))"
    then obtain q where q: "q \<in> set pages" "i \<in> set (snd q)" by (auto dest: in_set_takeD)
    have "key i = fst q" using Cons.prems(2) q by simp
    moreover have "key i = k" using Cons.prems(2) [of p i] that by (auto simp: p dest: in_set_takeD)
    ultimately show False using Cons.prems(1) q(1) by (auto simp: p)
  qed
  moreover have "distinct ps" using Cons.prems(3) [of p] by (simp add: p)
  moreover have "distinct (concat (map (\<lambda>(k, is). take n is) pages))" by (rule Cons.IH) (use Cons.prems in auto)
  ultimately show ?case by (auto simp: p)
qed simp

definition floor_cost :: "(string \<Rightarrow> string) \<Rightarrow> span list \<Rightarrow> string list \<Rightarrow> int list \<Rightarrow> string \<Rightarrow> nat \<Rightarrow> int" where
  "floor_cost lower spans texts costs topic least =
     snd (admit_floor costs least (pages_of (\<lambda>i. relevance lower (texts ! i) (query_terms lower topic)) spans))"

definition admitted_of :: "(string \<Rightarrow> string) \<Rightarrow> span list \<Rightarrow> string list \<Rightarrow> int list \<Rightarrow> int \<Rightarrow> string \<Rightarrow> nat \<Rightarrow> admission" where
  "admitted_of lower spans texts costs budget topic least =
     (let pages = pages_of (\<lambda>i. relevance lower (texts ! i) (query_terms lower topic)) spans
      in fold (admit_round costs budget pages) [least..<Max (insert 0 (set (map (length \<circ> snd) pages)))]
           (admit_floor costs least pages))"

lemma prompt_pack_Inr:
  "prompt_pack_v1 lower spans texts costs budget topic least = Inr r \<longleftrightarrow>
     0 < budget \<and> length spans = length texts \<and> length texts = length costs
     \<and> floor_cost lower spans texts costs topic least \<le> budget
     \<and> (let final = admitted_of lower spans texts costs budget topic least; kept = sort (fst final);
            dropped = filter (\<lambda>i. i \<notin> set (fst final)) [0..<length spans] in
        r = \<lparr>pp_span_ids = map (\<lambda>i. span_id_text (spans ! i)) kept, pp_dropped = map (\<lambda>i. span_id_text (spans ! i)) dropped,
          pp_admitted_by_source = count_sources spans kept,
          pp_offered_by_source = count_sources spans [0..<length spans],
          pp_admitted_tokens = snd final, pp_offered_tokens = sum_list costs, pp_budget = budget\<rparr>)"
proof -
  have same: "set (map (length \<circ> snd) (page_order d)) = set (map (length \<circ> snd) d)" for d
    unfolding page_order_def by simp
  show ?thesis
    unfolding prompt_pack_v1_def floor_cost_def admitted_of_def pages_of_def Let_def rbind_Inr guard_err_Inr same by auto
qed

lemma admission_facts:
  assumes costs: "\<forall>i < length spans. 0 \<le> costs ! i"
    and fits: "floor_cost lower spans texts costs topic least \<le> budget"
  defines "final \<equiv> admitted_of lower spans texts costs budget topic least"
  shows "distinct (fst final)" "set (fst final) \<subseteq> {..<length spans}" "snd final = sum_list (map (\<lambda>i. costs ! i) (fst final))"
    "snd final \<le> budget"
    "k \<in> page_key ` set spans \<Longrightarrow> min least (length (positions spans k)) \<le> length (filter (\<lambda>i. page_key (spans ! i) = k) (fst final))"
    "i < length spans \<Longrightarrow> i \<notin> set (fst final) \<Longrightarrow> budget < snd final + costs ! i"
proof -
  let ?pages = "pages_of (\<lambda>i. relevance lower (texts ! i) (query_terms lower topic)) spans"
  let ?rounds = "Max (insert 0 (set (map (length \<circ> snd) ?pages)))"
  let ?U = "\<Union>q \<in> set ?pages. set (snd q)"
  let ?start = "admit_floor costs least ?pages"
  have final: "final = fold (admit_round costs budget ?pages) [least..<?rounds] ?start"
    unfolding final_def admitted_of_def Let_def ..
  note U = pages_cover [of _ "\<lambda>i. relevance lower (texts ! i) (query_terms lower topic)" spans]
  have grow: "admits costs budget ?U ?start final"
    unfolding final by (rule admits_fold) (rule admits_round)
  note parts = grow [unfolded admits_def]
  obtain new where new: "fst final = fst ?start @ new" "snd final = snd ?start + sum_list (map (\<lambda>i. costs ! i) new)"
    "set new \<subseteq> ?U" using conjunct1 [OF parts] by (elim exE conjE)
  have dist: "distinct (fst ?start) \<Longrightarrow> distinct (fst final)" using conjunct1 [OF conjunct2 [OF parts]] by (rule mp)
  have within: "snd ?start \<le> budget \<Longrightarrow> snd final \<le> budget" using conjunct2 [OF conjunct2 [OF parts]] by (rule mp)
  have first: "fst ?start = concat (map (\<lambda>(k, is). take least is) ?pages)" "snd ?start = sum_list (map (\<lambda>i. costs ! i) (fst ?start))"
    by (simp_all add: admit_floor_def Let_def)
  have "distinct (fst ?start)"
    unfolding first(1) by (rule take_pages_distinct [where key = "\<lambda>i. page_key (spans ! i)"]) (use pages_facts(1) page_positions in auto)
  then show "distinct (fst final)" by (rule dist)
  have "set (fst ?start) \<subseteq> ?U" unfolding first(1) by (auto dest!: in_set_takeD intro: rev_bexI)
  then show "set (fst final) \<subseteq> {..<length spans}" using new(1,3) U by auto
  show "snd final = sum_list (map (\<lambda>i. costs ! i) (fst final))" using new(1,2) first(2) by simp
  show "snd final \<le> budget" using within fits by (simp add: floor_cost_def)
  show "min least (length (positions spans k)) \<le> length (filter (\<lambda>i. page_key (spans ! i) = k) (fst final))"
    if "k \<in> page_key ` set spans"
  proof -
    obtain p where p: "p \<in> set ?pages" "fst p = k" using \<open>k \<in> _\<close> pages_facts(3) by (metis imageE)
    obtain us vs where split: "?pages = us @ p # vs" using split_list [OF p(1)] by blast
    have "filter (\<lambda>i. page_key (spans ! i) = k) (take least (snd p)) = take least (snd p)"
      using page_positions(1) [OF p(1)] p(2) by (auto simp: filter_id_conv dest: in_set_takeD)
    then have "length (take least (snd p)) \<le> length (filter (\<lambda>i. page_key (spans ! i) = k) (fst ?start))"
      by (simp add: first(1), simp add: split case_prod_beta)
    then show ?thesis using page_positions(3) [OF p(1)] p(2) by (simp add: new(1))
  qed
  show "budget < snd final + costs ! i" if i: "i < length spans" "i \<notin> set (fst final)"
  proof -
    obtain p where p: "p \<in> set ?pages" "i \<in> set (snd p)" using U [of i] i(1) by auto
    obtain d where d: "d < length (snd p)" "snd p ! d = i" using p(2) by (auto simp: in_set_conv_nth)
    have "least \<le> d"
    proof (rule ccontr)
      assume "\<not> least \<le> d"
      then have "i \<in> set (take least (snd p))" using d by (auto simp: in_set_conv_nth)
      then have "i \<in> set (fst ?start)" unfolding first(1) using p(1) by (cases p) auto
      then show False using new(1) i(2) by simp
    qed
    moreover have "length (snd p) \<le> ?rounds" by (rule Max_ge) (use p(1) in auto)
    ultimately have dr: "d \<in> set [least..<?rounds]" using d(1) by simp
    have "settled costs budget i (fold (admit_round costs budget ?pages) [least..<?rounds] ?start)"
    proof (rule settled_fold [OF dr, where U = ?U])
      show "settled costs budget i (admit_round costs budget ?pages d s)" for s
        using settled_round [OF p(1) d(1), of costs budget s] d(2) U costs by auto
      show "admits costs budget ?U s (admit_round costs budget ?pages x s)" for x s by (rule admits_round)
    qed (use U costs in auto)
    then show ?thesis using i(2) by (auto simp: settled_def final)
  qed
qed


subsection \<open>Three spans of two pages\<close>

definition page_span :: "string \<Rightarrow> string \<Rightarrow> span" where
  "page_span page sid =
     \<lparr>sp_namespace = ''RAW_SOURCE'', sp_span_id = Some sid, sp_content_hash = Some page, sp_char_start = None,
      sp_char_end = None, sp_visible_span_id = None, sp_message_id = None, sp_message_role = None,
      sp_byte_start = None, sp_byte_end = None, sp_view_hash = None, sp_occurrences = None, sp_text_sha256 = [],
      sp_kind = ''paragraph'', sp_heading_path = [], sp_heading_refs = [], sp_context_refs = [], sp_token_len = 1,
      sp_chunker_version = None\<rparr>"

definition example_offer :: "span list" where
  "example_offer = [page_span ''p'' ''a'', page_span ''p'' ''b'', page_span ''q'' ''c'']"

lemma example_floor:
  "floor_cost (\<lambda>c. c) example_offer [''x'', ''Gold mine'', ''y''] [5, 4, 3] ''gold'' 1 = 7"
  by code_simp


end
