(* ===== verification/Promotion.thy ===== *)
theory Promotion
  imports Prelude
begin

text \<open>
  \<^verbatim>\<open>src/src/shapeflow/experiment/promotion.py\<close>: which variants a screening eliminates, which survivors a node
  promotes, and the verdict over a node where none advances. Floats are real numbers, so the division by the band is exact; \<open>round\<close> is Python's,
  to the even integer at a half.
\<close>

subsection \<open>Screening\<close>

record screen_result =
  sr_variant :: string
  sr_node :: string
  sr_structural_pass :: bool
  sr_quality :: real
  sr_harm_pass :: bool
  sr_saving :: real
  sr_crash_rate :: real
  sr_contract :: string
  sr_aggregation :: string
  sr_close :: string
  sr_control :: bool
  sr_deterministic_failure :: bool

record screen_gates =
  sg_min_quality :: real
  sg_max_crash :: real
  sg_band :: real
  sg_max_per_node :: nat

datatype elimination =
    StructuralFailure
  | HarmScreenFailed
  | QualityTooLow real real
  | CrashRateTooHigh real real
  | WorkWithoutGain

definition screen_eliminate :: "screen_result \<Rightarrow> screen_gates \<Rightarrow> elimination option" where
  "screen_eliminate r g =
     (if \<not> sr_structural_pass r then Some StructuralFailure
      else if \<not> sr_harm_pass r then Some HarmScreenFailed
      else if sr_quality r < sg_min_quality g then Some (QualityTooLow (sr_quality r) (sg_min_quality g))
      else if sr_crash_rate r > sg_max_crash g then Some (CrashRateTooHigh (sr_crash_rate r) (sg_max_crash g))
      else if sr_saving r \<le> 0 \<and> sr_quality r < 1 then Some WorkWithoutGain
      else None)"

subsection \<open>Simplicity\<close>

definition contract_rank :: "(string \<times> nat) list" where
  "contract_rank = [(''id'', 0), (''typed'', 1), (''bridge'', 2)]"

definition agg_rank :: "(string \<times> nat) list" where
  "agg_rank = [(''stable_union'', 0), (''coverage_budget'', 1), (''global_rerank'', 2), (''vendor'', 0)]"

definition close_rank :: "(string \<times> nat) list" where
  "close_rank = [(''separate'', 0), (''dedicated_selector'', 0), (''prefix_preserving'', 1), (''fused_with_fallback'', 2)]"

definition rank_of :: "(string \<times> nat) list \<Rightarrow> string \<Rightarrow> nat \<Rightarrow> nat" where
  "rank_of d k fallback = (case map_of d k of None \<Rightarrow> fallback | Some n \<Rightarrow> n)"

definition simplicity_key :: "screen_result \<Rightarrow> nat \<times> nat \<times> nat" where
  "simplicity_key r =
     (rank_of contract_rank (sr_contract r) 1, rank_of agg_rank (sr_aggregation r) 1, rank_of close_rank (sr_close r) 0)"

subsection \<open>Promotion\<close>

definition round_half_even :: "real \<Rightarrow> int" where
  "round_half_even x =
     (let n = \<lfloor>x\<rfloor>; f = x - of_int n
      in if f < 1 / 2 then n else if f > 1 / 2 then n + 1 else if even n then n else n + 1)"

definition group_append :: "('a \<Rightarrow> 'k) \<Rightarrow> 'a \<Rightarrow> ('k \<times> 'a list) list \<Rightarrow> ('k \<times> 'a list) list" where
  "group_append key x d = dict_put (key x) ((case map_of d (key x) of None \<Rightarrow> [] | Some xs \<Rightarrow> xs) @ [x]) d"

definition band_of :: "screen_gates \<Rightarrow> real" where
  "band_of g = (if sg_band g > 0 then sg_band g else 1 / 10 ^ 9)"

definition saving_bucket :: "screen_gates \<Rightarrow> screen_result \<Rightarrow> int" where
  "saving_bucket g r = round_half_even (sr_saving r / band_of g)"

definition rank_survivors :: "screen_gates \<Rightarrow> screen_result list \<Rightarrow> screen_result list" where
  "rank_survivors g = sort_key (\<lambda>r. (- saving_bucket g r, simplicity_key r, sr_variant r))"

definition survives :: "screen_gates \<Rightarrow> screen_result \<Rightarrow> bool" where
  "survives g r \<longleftrightarrow> \<not> sr_control r \<and> screen_eliminate r g = None"

definition promote :: "screen_result list \<Rightarrow> screen_gates \<Rightarrow> (string \<times> string list) list" where
  "promote results g =
     (let by_node = fold (\<lambda>r d. if survives g r then group_append sr_node r d else d) results []
      in map (\<lambda>(node, survivors). (node, map sr_variant (take (sg_max_per_node g) (rank_survivors g survivors)))) by_node)"

definition node_verdict_when_none_advance :: "screen_result list \<Rightarrow> string" where
  "node_verdict_when_none_advance results =
     (let legal = filter (\<lambda>r. \<not> sr_control r) results
      in if legal \<noteq> [] \<and> list_all sr_deterministic_failure legal then ''KILL_STRUCTURAL'' else ''NOT_ESTABLISHED'')"

subsection \<open>Groups\<close>

lemma groups_by_key:
  fixes key :: "'a \<Rightarrow> 'k" and keep :: "'a \<Rightarrow> bool"
  defines "run \<equiv> \<lambda>xs. fold (\<lambda>x d. if keep x then group_append key x d else d) xs ([] :: ('k \<times> 'a list) list)"
  shows "distinct (map fst (run xs))" "fst ` set (run xs) = key ` {x \<in> set xs. keep x}"
    "(k, ys) \<in> set (run xs) \<Longrightarrow> ys = filter (\<lambda>x. keep x \<and> key x = k) xs"
proof -
  have "distinct (map fst (run xs)) \<and> fst ` set (run xs) = key ` {x \<in> set xs. keep x}
      \<and> (\<forall>k. map_of (run xs) k = (let ys = filter (\<lambda>x. keep x \<and> key x = k) xs in if ys = [] then None else Some ys))"
  proof (induction xs rule: rev_induct)
    case Nil
    show ?case by (simp add: run_def)
  next
    case (snoc x xs)
    let ?d = "run xs" and ?vs = "(case map_of (run xs) (key x) of None \<Rightarrow> [] | Some xs \<Rightarrow> xs) @ [x]"
    have step: "run (xs @ [x]) = (if keep x then dict_put (key x) ?vs ?d else ?d)"
      by (simp add: run_def group_append_def)
    have vs: "?vs = filter (\<lambda>y. keep y \<and> key y = key x) (xs @ [x])" if "keep x"
      using snoc that by (simp add: Let_def)
    show ?case
    proof (cases "keep x")
      case True
      have keys: "fst ` set (run (xs @ [x])) = key ` {y \<in> set (xs @ [x]). keep y}"
        using arg_cong [OF keys_dict_put [of "key x" ?vs ?d], of set] snoc True by (auto simp: step split: if_splits)
      have "map_of (run (xs @ [x])) k = (let ys = filter (\<lambda>y. keep y \<and> key y = k) (xs @ [x]) in if ys = [] then None else Some ys)" for k
        using snoc True vs by (simp add: step Let_def)
      then show ?thesis using keys snoc True by (simp add: step)
    qed (use snoc in \<open>auto simp: step\<close>)
  qed
  note facts = this
  show "distinct (map fst (run xs))" "fst ` set (run xs) = key ` {x \<in> set xs. keep x}" using facts by auto
  show "ys = filter (\<lambda>x. keep x \<and> key x = k) xs" if "(k, ys) \<in> set (run xs)"
    using facts map_of_is_SomeI [OF _ that] by (auto simp: Let_def split: if_splits)
qed

text \<open>
  Promotion judges variants. A node has an entry exactly when a variant of it that is not a control passed every
  gate; it promotes as many of these as its limit allows, none twice; and a variant left behind is never of a
  higher saving bucket than a promoted one, nor of the same bucket and simpler.
\<close>

theorem promotion_ranks:
  "distinct (map fst (promote results g))
    \<and> fst ` set (promote results g) = sr_node ` {r \<in> set results. survives g r}
    \<and> (\<forall>(node, ids) \<in> set (promote results g). \<exists>chosen rest.
         mset (chosen @ rest) = mset (filter (\<lambda>r. survives g r \<and> sr_node r = node) results)
         \<and> ids = map sr_variant chosen \<and> length chosen = min (sg_max_per_node g) (length (chosen @ rest))
         \<and> (\<forall>p \<in> set chosen. \<forall>q \<in> set rest. saving_bucket g q \<le> saving_bucket g p
              \<and> (saving_bucket g q = saving_bucket g p \<longrightarrow> simplicity_key p \<le> simplicity_key q)))"
proof -
  let ?by = "fold (\<lambda>r d. if survives g r then group_append sr_node r d else d) results []"
  let ?ids = "\<lambda>survivors. map sr_variant (take (sg_max_per_node g) (rank_survivors g survivors))"
  note groups = groups_by_key [where keep = "survives g" and key = sr_node and xs = results]
  have run: "promote results g = map (\<lambda>(node, survivors). (node, ?ids survivors)) ?by" by (simp add: promote_def)
  have keys: "map fst (promote results g) = map fst ?by" unfolding run by (simp add: case_prod_beta comp_def)
  have entry: "\<exists>chosen rest. mset (chosen @ rest) = mset (filter (\<lambda>r. survives g r \<and> sr_node r = node) results)
         \<and> ids = map sr_variant chosen \<and> length chosen = min (sg_max_per_node g) (length (chosen @ rest))
         \<and> (\<forall>p \<in> set chosen. \<forall>q \<in> set rest. saving_bucket g q \<le> saving_bucket g p
              \<and> (saving_bucket g q = saving_bucket g p \<longrightarrow> simplicity_key p \<le> simplicity_key q))"
    if mem: "(node, ids) \<in> set (promote results g)" for node ids
  proof -
    obtain survivors where surv: "(node, survivors) \<in> set ?by" "ids = ?ids survivors" using mem unfolding run by auto
    have all: "survivors = filter (\<lambda>r. survives g r \<and> sr_node r = node) results" by (rule groups(3) [OF surv(1)])
    let ?ranked = "rank_survivors g survivors" and ?key = "\<lambda>r. (- saving_bucket g r, simplicity_key r, sr_variant r)"
    let ?chosen = "take (sg_max_per_node g) ?ranked" and ?rest = "drop (sg_max_per_node g) ?ranked"
    have "sorted (map ?key (?chosen @ ?rest))" by (simp add: rank_survivors_def)
    then have "?key p \<le> ?key q" if "p \<in> set ?chosen" "q \<in> set ?rest" for p q
      using that unfolding map_append sorted_append by auto
    then have "saving_bucket g q \<le> saving_bucket g p \<and> (saving_bucket g q = saving_bucket g p \<longrightarrow> simplicity_key p \<le> simplicity_key q)"
      if "p \<in> set ?chosen" "q \<in> set ?rest" for p q
      using that by (fastforce simp: less_eq_prod_def less_prod_def)
    moreover have "mset (?chosen @ ?rest) = mset survivors" by (simp add: rank_survivors_def)
    ultimately show ?thesis using surv(2) all by (intro exI [of _ ?chosen] exI [of _ ?rest]) auto
  qed
  show ?thesis using keys groups(1,2) entry by (auto simp flip: set_map)
qed

subsection \<open>Two variants on the two sides of a bucket\<close>

definition example_variant :: "string \<Rightarrow> string \<Rightarrow> real \<Rightarrow> screen_result" where
  "example_variant name contract saving =
     \<lparr>sr_variant = name, sr_node = ''n'', sr_structural_pass = True, sr_quality = 1, sr_harm_pass = True,
      sr_saving = saving, sr_crash_rate = 0, sr_contract = contract, sr_aggregation = ''stable_union'',
      sr_close = ''separate'', sr_control = False, sr_deterministic_failure = False\<rparr>"

definition frozen_gates :: screen_gates where
  "frozen_gates = \<lparr>sg_min_quality = 9 / 10, sg_max_crash = 1 / 10, sg_band = 2 / 100, sg_max_per_node = 1\<rparr>"

lemma example_survives: "survives frozen_gates (example_variant name contract saving)"
  by (simp add: survives_def screen_eliminate_def example_variant_def frozen_gates_def)

theorem promotion_ranks_witness:
  "fst ` set (promote [example_variant ''a'' ''id'' (3 / 10)] frozen_gates) = {''n''}"
proof -
  let ?r = "example_variant ''a'' ''id'' (3 / 10)"
  have "fst ` set (promote [?r] frozen_gates) = sr_node ` {r \<in> set [?r]. survives frozen_gates r}"
    using promotion_ranks [of "[?r]" frozen_gates] by blast
  also have "{r \<in> set [?r]. survives frozen_gates r} = {?r}" using example_survives by auto
  finally show ?thesis by (simp add: example_variant_def)
qed

text \<open>
  The band is a grid, not a distance: savings of 2.99 and 3.01 per cent differ by far less than the band of 2 per
  cent, but they lie in different buckets, and the more complex variant with 3.01 is promoted over the simpler one.
\<close>

lemma band_splits_close_savings:
  "promote [example_variant ''simple'' ''id'' (299 / 10000), example_variant ''complex'' ''bridge'' (301 / 10000)] frozen_gates
    = [(''n'', [''complex''])]"
proof -
  have buckets: "saving_bucket frozen_gates (example_variant x c (299 / 10000)) = 1"
    "saving_bucket frozen_gates (example_variant x c (301 / 10000)) = 2" for x c
    by (simp_all add: saving_bucket_def band_of_def frozen_gates_def example_variant_def round_half_even_def Let_def floor_eq_iff)
  have node: "sr_node (example_variant x c s) = ''n''" "sr_variant (example_variant x c s) = x" for x c s
    by (simp_all add: example_variant_def)
  show ?thesis
    by (simp add: promote_def group_append_def example_survives node rank_survivors_def buckets) (simp add: frozen_gates_def node)
qed

end
