(* ===== verification/Events.thy ===== *)
theory Events
  imports Schedule Renderer
begin

text \<open>
  \<^verbatim>\<open>src/src/shapeflow/campaign/graph_driver.py\<close>: what identifies a cell to the graph, what the graph
  returns, and the counts taken from its event log. An event is a dict of Python values. \<open>int\<close> of a text
  reads ASCII digits only.
\<close>

subsection \<open>Cells\<close>

record cell_spec =
  sp_run :: string
  sp_task :: string
  sp_arm :: string
  sp_page :: string
  sp_close :: string
  sp_replicate :: string
  sp_seed :: int
  sp_work_key :: string
  sp_question :: string
  sp_token :: string
  sp_binding :: string
  sp_protocol :: string
  sp_component :: bool

definition variant_id :: "cell_spec \<Rightarrow> string" where
  "variant_id s =
     (if sp_page s = ''P0'' \<and> sp_close s = ''P0'' then ''P0''
      else if sp_close s = ''P0'' then sp_page s
      else if sp_page s = ''P0'' then sp_close s
      else sp_page s @ ''+'' @ sp_close s)"

type_synonym event = "(string \<times> pyval) list"

record cell_result =
  gr_report :: string
  gr_notes :: "string list"
  gr_raw_notes :: "string list"
  gr_events :: "event list"
  gr_checkpoints :: "pyval list"
  gr_records :: "pyval list"
  gr_summary :: pyval
  gr_first_digest :: string
  gr_seed_applied :: bool
  gr_error :: "string option"

subsection \<open>Reading values\<close>

definition ascii_space :: "char \<Rightarrow> bool" where
  "ascii_space c = (let n = (of_char c :: nat) in n = 32 \<or> (9 \<le> n \<and> n \<le> 13) \<or> (28 \<le> n \<and> n \<le> 31))"

definition strip_ascii :: "string \<Rightarrow> string" where
  "strip_ascii s = rev (dropWhile ascii_space (rev (dropWhile ascii_space s)))"

text \<open>Digits, with single underscores between them.\<close>

fun read_digits :: "int \<Rightarrow> bool \<Rightarrow> string \<Rightarrow> int option" where
  "read_digits v after_digit [] = (if after_digit then Some v else None)"
| "read_digits v after_digit (c # cs) =
     (if is_digit c then read_digits (10 * v + (of_char c - 48)) True cs
      else if c = CHR ''_'' \<and> after_digit then read_digits v False cs
      else None)"

definition int_of_text :: "string \<Rightarrow> int option" where
  "int_of_text s =
     (case strip_ascii s of
        [] \<Rightarrow> None
      | c # cs \<Rightarrow>
          if c = CHR ''-'' then map_option uminus (read_digits 0 False cs)
          else if c = CHR ''+'' then read_digits 0 False cs
          else read_digits 0 False (c # cs))"

text \<open>\<open>int(v or 0)\<close>; \<open>None\<close> is a raise.\<close>

definition int_or_zero :: "pyval \<Rightarrow> int option" where
  "int_or_zero v =
     (if \<not> py_truthy v then Some 0
      else case v of
        PInt i \<Rightarrow> Some i
      | PBool b \<Rightarrow> Some 1
      | PFloat (Finite r) \<Rightarrow> Some (if 0 \<le> r then \<lfloor>r\<rfloor> else \<lceil>r\<rceil>)
      | PStr s \<Rightarrow> int_of_text s
      | PBytes s \<Rightarrow> int_of_text s
      | _ \<Rightarrow> None)"

definition field_int :: "string \<Rightarrow> event \<Rightarrow> int option" where
  "field_int k e = (case map_of e k of None \<Rightarrow> Some 0 | Some v \<Rightarrow> int_or_zero v)"

text \<open>\<open>int(v)\<close> of an element.\<close>

definition int_value :: "pyval \<Rightarrow> int option" where
  "int_value v =
     (case v of
        PInt i \<Rightarrow> Some i
      | PBool b \<Rightarrow> Some (if b then 1 else 0)
      | PFloat (Finite r) \<Rightarrow> Some (if 0 \<le> r then \<lfloor>r\<rfloor> else \<lceil>r\<rceil>)
      | PStr s \<Rightarrow> int_of_text s
      | PBytes s \<Rightarrow> int_of_text s
      | _ \<Rightarrow> None)"

definition field_true :: "string \<Rightarrow> event \<Rightarrow> bool" where
  "field_true k e = (case map_of e k of None \<Rightarrow> False | Some v \<Rightarrow> py_truthy v)"

definition key_value :: "pykey \<Rightarrow> pyval" where
  "key_value k = (case k of KStr s \<Rightarrow> PStr s | KSurrogate \<Rightarrow> PSurrogate | KOther \<Rightarrow> PObject)"

text \<open>\<open>for value in (v or ())\<close>.\<close>

definition iter_or_empty :: "pyval option \<Rightarrow> pyval list option" where
  "iter_or_empty v =
     (case v of
        None \<Rightarrow> Some []
      | Some v \<Rightarrow>
          if \<not> py_truthy v then Some []
          else case v of
            PList xs \<Rightarrow> Some xs
          | PTuple xs \<Rightarrow> Some xs
          | PSet xs \<Rightarrow> Some xs
          | PDict kvs \<Rightarrow> Some (map (key_value \<circ> fst) kvs)
          | PStr s \<Rightarrow> Some (map (\<lambda>c. PStr [c]) s)
          | PBytes s \<Rightarrow> Some (map (\<lambda>c. PInt (of_char c)) s)
          | PSurrogate \<Rightarrow> Some [PSurrogate]
          | _ \<Rightarrow> None)"

text \<open>The fields of a dict, by text; a key that is not text is never asked for.\<close>

definition as_fields :: "pyval \<Rightarrow> event option" where
  "as_fields v =
     (case v of
        PDict kvs \<Rightarrow> Some (List.map_filter (\<lambda>(k, x). case k of KStr s \<Rightarrow> Some (s, x) | _ \<Rightarrow> None) kvs)
      | _ \<Rightarrow> None)"

fun all_some :: "'a option list \<Rightarrow> 'a list option" where
  "all_some [] = Some []"
| "all_some (x # xs) = (case x of None \<Rightarrow> None | Some y \<Rightarrow> map_option (Cons y) (all_some xs))"

subsection \<open>Counts\<close>

definition is_kind :: "string \<Rightarrow> event \<Rightarrow> bool" where
  "is_kind k e \<longleftrightarrow> map_of e ''kind'' = Some (PStr k)"

definition count_kind :: "string \<Rightarrow> event list \<Rightarrow> pyval" where
  "count_kind k es = PInt (int (length (filter (is_kind k) es)))"

definition hashable :: "pyval \<Rightarrow> bool" where
  "hashable v = (case v of PList xs \<Rightarrow> False | PSet xs \<Rightarrow> False | PDict kvs \<Rightarrow> False | _ \<Rightarrow> True)"

definition kinds_ok :: "event list \<Rightarrow> bool" where
  "kinds_ok es \<longleftrightarrow> list_all (\<lambda>e. case map_of e ''kind'' of None \<Rightarrow> False | Some k \<Rightarrow> hashable k) es"

text \<open>The tokens a node selection published, when it neither failed nor fell back.\<close>

definition selection_tokens :: "event \<Rightarrow> int list option" where
  "selection_tokens e =
     (case as_fields (case map_of e ''direct_node_record'' of
          None \<Rightarrow> PDict [] | Some v \<Rightarrow> if py_truthy v then v else PDict []) of
        None \<Rightarrow> None
      | Some record \<Rightarrow>
          if field_true ''failure'' record \<or> field_true ''fell_back'' record then Some []
          else map_option (\<lambda>n. [n]) (field_int ''published_rendered_tokens'' record))"

definition prose_tokens :: "string \<Rightarrow> event \<Rightarrow> int list option" where
  "prose_tokens k e =
     (case iter_or_empty (map_of e k) of None \<Rightarrow> None | Some vs \<Rightarrow> all_some (map int_value vs))"

definition tokens_of :: "string \<Rightarrow> (event \<Rightarrow> int list option) \<Rightarrow> event list \<Rightarrow> int list option" where
  "tokens_of k f es = map_option concat (all_some (map f (filter (is_kind k) es)))"

definition max_or_zero :: "int list \<Rightarrow> int" where
  "max_or_zero xs = (if xs = [] then 0 else Max (set xs))"

definition first_treatment :: "event list \<Rightarrow> string" where
  "first_treatment es =
     (case List.find (\<lambda>e. map_of e ''position'' = Some (PStr ''TREATMENT'')) es of
        None \<Rightarrow> [] | Some e \<Rightarrow> meta_text e ''checkpoint'')"

text \<open>\<open>None\<close> is a raise.\<close>

definition summarize_events :: "event list \<Rightarrow> (string \<times> pyval) list option" where
  "summarize_events es =
     (if \<not> kinds_ok es then None
      else
      (let queries = filter (is_kind ''SEARCH_QUERY'') es in
       case (tokens_of ''NODE_SELECTION'' selection_tokens es,
             tokens_of ''PROSE_CONTROL_OUTPUT'' (prose_tokens ''rendered_token_counts'') es,
             tokens_of ''PROSE_CONTROL_OUTPUT'' (prose_tokens ''published_token_counts'') es,
             all_some (map (field_int ''result_count'') queries)) of
         (Some selected, Some prose, Some published, Some results) \<Rightarrow>
           Some
             [(''page_batches_deferred'', count_kind ''PAGE_BATCH_DEFERRED'' es),
              (''page_batches_reduced'', count_kind ''PAGE_BATCH_REDUCED'' es),
              (''page_fallbacks'', PInt (int (length (filter
                 (\<lambda>e. is_kind ''PAGE_BATCH_REDUCED'' e \<and> field_true ''fell_back'' e) es)))),
              (''close_reduced'', count_kind ''CLOSE_REDUCED'' es),
              (''close_failed'', count_kind ''CLOSE_FAILED'' es),
              (''close_deferred_to_vendor'', count_kind ''CLOSE_DEFERRED_TO_VENDOR'' es),
              (''close_cancelled'', count_kind ''CLOSE_CANCELLED'' es),
              (''search_queries'', PInt (int (length queries))),
              (''unique_search_queries'', PInt (int (length (dedup (map (\<lambda>e. meta_text e ''query'') queries))))),
              (''search_results'', PInt (sum_list results)),
              (''research_rounds'', count_kind ''PAGE_BATCH_REDUCED'' es),
              (''rendered_output_count'', PInt (int (length (selected @ prose)))),
              (''max_rendered_tokens'', PInt (max_or_zero (selected @ prose))),
              (''total_rendered_tokens'', PInt (sum_list (selected @ prose))),
              (''max_published_control_tokens'', PInt (max_or_zero published)),
              (''total_published_control_tokens'', PInt (sum_list published)),
              (''first_treatment_checkpoint_digest'', PStr (first_treatment es))]
       | _ \<Rightarrow> None))"

lemma summarize_events_encodable: "summarize_events es = Some counts \<Longrightarrow> encodable_dict counts"
  by (auto simp: summarize_events_def encodable_dict_def Let_def count_kind_def split: if_splits option.splits)

end
