(* ===== verification/Runner.thy ===== *)
theory Runner
  imports Events FreezeRoot Coordinator PromptPack
begin

text \<open>
  \<^verbatim>\<open>src/src/shapeflow/campaign/runner.py\<close>: the campaign runner. It drives the cells of a schedule to
  terminal states through the ledger and the object store. An operation maps the pair of the two to a result
  or a raise and the pair it leaves behind, so that what was done before an exception stays done. What the
  runner calls is a parameter, a field of \<open>campaign_runner\<close>: the graph, the provider's work summary, the
  engine's epoch file, the store, the clocks. The \<open>k\<close>-th cell a run executes sees the \<open>k\<close>-th answers. A run is that of a
  fresh runner, whose \<open>outcomes\<close> are empty; the incidents that a freeze records before it raises are dropped;
  and the two identity errors of a manifest are one error.
\<close>

subsection \<open>Operations that may raise\<close>

definition sbind :: "('s \<Rightarrow> ('e + 'a) \<times> 's) \<Rightarrow> ('a \<Rightarrow> 's \<Rightarrow> ('e + 'b) \<times> 's) \<Rightarrow> 's \<Rightarrow> ('e + 'b) \<times> 's" where
  "sbind m f S = (case m S of (Inl e, S') \<Rightarrow> (Inl e, S') | (Inr x, S') \<Rightarrow> f x S')"

definition sret :: "'a \<Rightarrow> 's \<Rightarrow> ('e + 'a) \<times> 's" where
  "sret x S = (Inr x, S)"

definition slift :: "'e + 'a \<Rightarrow> 's \<Rightarrow> ('e + 'a) \<times> 's" where
  "slift x S = (x, S)"

fun smap :: "('x \<Rightarrow> 's \<Rightarrow> ('e + 'y) \<times> 's) \<Rightarrow> 'x list \<Rightarrow> 's \<Rightarrow> ('e + 'y list) \<times> 's" where
  "smap f [] S = (Inr [], S)"
| "smap f (x # xs) S = sbind (f x) (\<lambda>y. sbind (smap f xs) (\<lambda>ys. sret (y # ys))) S"

subsection \<open>The runner\<close>

datatype epoch_file = NoEpochFile | UnreadableFile | EpochBytes string

text \<open>A \<open>RuntimeError\<close>, or the \<open>UnicodeDecodeError\<close> of a file that is not ASCII.\<close>

datatype epoch_error = EpochRuntime | EpochDecode

datatype graph_reply =
    CellReturned cell_result
  | CellRaised string string
  | CellAborted

text \<open>
  What the graph does with the two callbacks it is given: it may hand over a document to keep and go on,
  knowing whether that raised, until it ends, with the retrieval trace of the cell and the number of pages
  it registered. \<open>CellAborted\<close> is an exception that is no \<open>Exception\<close>.
\<close>

datatype session =
    Ends graph_reply "pyval list" nat
  | Saves string pyval "bool \<Rightarrow> session"

datatype summary_reply =
    NoCallback
  | SummaryValue pyval
  | SummaryRaised string string

datatype 'e runner_error =
    LedgerRaised ledger_error
  | StoreRaised 'e
  | EpochUnavailable epoch_error
  | NotEncodable canon_error
  | EventsRaised
  | NoQuestion string
  | WrongManifest
  | RunAborted
  | FreezeRaised freeze_error

datatype outcome_state = AtState lstate | MissingItem | ClaimedElsewhere

record cell_outcome =
  oc_key :: string
  oc_state :: outcome_state
  oc_ref :: string
  oc_fell_back :: bool
  oc_error :: string
  oc_counts :: "(string \<times> pyval) list"

definition bare_outcome :: "string \<Rightarrow> outcome_state \<Rightarrow> cell_outcome" where
  "bare_outcome key st = \<lparr>oc_key = key, oc_state = st, oc_ref = [], oc_fell_back = False, oc_error = [], oc_counts = []\<rparr>"

record ('s, 'e) campaign_runner =
  cn_config :: runner_config
  cn_worker :: string
  cn_lease :: real
  cn_max_cells :: "int option"
  cn_stop :: "nat \<Rightarrow> bool"
  cn_scope :: string
  cn_serialized :: bool
  cn_max_retries :: int
  cn_override :: string
  cn_epoch_file :: "nat \<Rightarrow> bool \<Rightarrow> epoch_file"
  cn_graph :: "nat \<Rightarrow> cell_spec \<Rightarrow> session"
  cn_summary :: "nat \<Rightarrow> string \<Rightarrow> summary_reply"
  cn_latency :: "nat \<Rightarrow> real"
  cn_joules :: "nat \<Rightarrow> real option"
  cn_put :: "nat list \<Rightarrow> string \<Rightarrow> 's \<Rightarrow> ('e + object_ref) \<times> 's"
  cn_verify :: "string \<Rightarrow> 's \<Rightarrow> 'e + bool"
  cn_clock :: "nat list \<Rightarrow> nat \<Rightarrow> real"
  cn_sha :: "string \<Rightarrow> string"
  cn_fr :: "real \<Rightarrow> string"

subsection \<open>The two stores\<close>

definition on_ledger ::
  "(ledger \<Rightarrow> ledger_error + 'a \<times> ledger) \<Rightarrow> 's coord_state \<Rightarrow> ('e runner_error + 'a) \<times> 's coord_state" where
  "on_ledger op S =
     (case op (cs_ledger S) of
        Inl e \<Rightarrow> (Inl (LedgerRaised e), S) | Inr (x, L) \<Rightarrow> (Inr x, S\<lparr>cs_ledger := L\<rparr>))"

definition ledger_does ::
  "(ledger \<Rightarrow> ledger_error + ledger) \<Rightarrow> 's coord_state \<Rightarrow> ('e runner_error + unit) \<times> 's coord_state" where
  "ledger_does op = on_ledger (\<lambda>L. case op L of Inl e \<Rightarrow> Inl e | Inr L' \<Rightarrow> Inr ((), L'))"

definition put_object ::
  "('s, 'e) campaign_runner \<Rightarrow> nat list \<Rightarrow> string \<Rightarrow> 's coord_state \<Rightarrow> ('e runner_error + object_ref) \<times> 's coord_state" where
  "put_object R tag raw S =
     (case cn_put R tag raw (cs_store S) of
        (Inl e, st) \<Rightarrow> (Inl (StoreRaised e), S\<lparr>cs_store := st\<rparr>)
      | (Inr r, st) \<Rightarrow> (Inr r, S\<lparr>cs_store := st\<rparr>))"

definition encoded :: "('s, 'e) campaign_runner \<Rightarrow> pyval \<Rightarrow> 'e runner_error + string" where
  "encoded R v = (case canonical_json (cn_fr R) v of Inl e \<Rightarrow> Inl (NotEncodable e) | Inr raw \<Rightarrow> Inr raw)"

text \<open>The bytes of a document to the store, and its row in the artifacts table.\<close>

definition keep_document ::
  "('s, 'e) campaign_runner \<Rightarrow> nat list \<Rightarrow> string \<Rightarrow> string option \<Rightarrow> pyval \<Rightarrow> 's coord_state
     \<Rightarrow> ('e runner_error + string) \<times> 's coord_state" where
  "keep_document R tag kind key v =
     sbind (slift (encoded R v)) (\<lambda>raw.
     sbind (put_object R tag raw) (\<lambda>ref.
     sbind (ledger_does (\<lambda>L. Inr (register_artifact (or_key ref) kind (or_raw_size ref) (or_stored_size ref) key
              (cn_clock R tag) L))) (\<lambda>_.
     sret (or_key ref))))"

subsection \<open>Work items\<close>

definition stage_version :: string where
  "stage_version = ''independent_full_run_v3''"

definition cell_coordinates :: "runner_config \<Rightarrow> string \<Rightarrow> string \<Rightarrow> sched_cell \<Rightarrow> coordinates" where
  "cell_coordinates cfg phase_id split c =
     \<lparr>co_protocol_sha = rc_binding cfg, co_split = split, co_phase_id = phase_id, co_task_id = ce_task c,
      co_arm_id = as_id (ce_arm c), co_variant_id = as_page (ce_arm c) @ ''+'' @ as_close (ce_arm c),
      co_replicate_id = ce_replicate c, co_checkpoint_hash = ce_block c, co_stage_version = stage_version\<rparr>"

definition work_key_for ::
  "('s, 'e) campaign_runner \<Rightarrow> string \<Rightarrow> string \<Rightarrow> nat list \<Rightarrow> sched_cell \<Rightarrow> 's coord_state
     \<Rightarrow> ('e runner_error + string) \<times> 's coord_state" where
  "work_key_for R phase_id split tag c =
     on_ledger (ensure_work_item (cn_sha R) (cn_fr R) (cn_max_retries R)
       (cell_coordinates (cn_config R) phase_id split c) [] True None (cn_clock R tag))"

subsection \<open>The engine epoch\<close>

definition read_epoch :: "epoch_file \<Rightarrow> epoch_error + string" where
  "read_epoch f =
     (case f of
        NoEpochFile \<Rightarrow> Inl EpochRuntime
      | UnreadableFile \<Rightarrow> Inl EpochRuntime
      | EpochBytes s \<Rightarrow>
          if list_ex (\<lambda>c. 128 \<le> (of_char c :: nat)) s then Inl EpochDecode
          else
            let v = map lower_ascii (strip_ascii s)
            in if length v \<noteq> 32 \<or> list_ex (\<lambda>c. c \<notin> set hex_chars) v then Inl EpochRuntime else Inr v)"

text \<open>The epoch before (\<open>False\<close>) and after (\<open>True\<close>) the \<open>k\<close>-th cell.\<close>

definition current_epoch :: "('s, 'e) campaign_runner \<Rightarrow> nat \<Rightarrow> bool \<Rightarrow> epoch_error + string" where
  "current_epoch R k after =
     (if cn_override R \<noteq> [] then Inr (cn_override R) else read_epoch (cn_epoch_file R k after))"

definition end_epoch :: "('s, 'e) campaign_runner \<Rightarrow> nat \<Rightarrow> 'e runner_error + string" where
  "end_epoch R k =
     (case current_epoch R k True of
        Inr e \<Rightarrow> Inr e
      | Inl EpochRuntime \<Rightarrow> Inr ''UNREADABLE''
      | Inl EpochDecode \<Rightarrow> Inl (EpochUnavailable EpochDecode))"

definition recorded_epoch :: "string \<Rightarrow> string \<Rightarrow> string" where
  "recorded_epoch start stop = (if stop = start then start else ''SPANS:'' @ start @ '':'' @ stop)"

definition execution_epoch ::
  "('s, 'e) campaign_runner \<Rightarrow> nat \<Rightarrow> string \<Rightarrow> string \<Rightarrow> 's coord_state
     \<Rightarrow> ('e runner_error + string \<times> string \<times> bool) \<times> 's coord_state" where
  "execution_epoch R k key start =
     sbind (slift (end_epoch R k)) (\<lambda>stop.
     sbind (ledger_does (record_engine_epoch key (recorded_epoch start stop) (cn_clock R [k, 1]))) (\<lambda>_.
     sret (recorded_epoch start stop, stop, stop = start)))"

subsection \<open>Work telemetry\<close>

type_synonym summary = "(pykey \<times> pyval) list"

definition unavailable :: "string \<Rightarrow> string \<Rightarrow> summary" where
  "unavailable key why =
     [(KStr ''telemetry_complete'', PBool False), (KStr ''overlap_valid'', PBool False),
      (KStr ''unavailable_reason'', PStr why), (KStr ''work_key'', PStr key)]"

definition durable_work_summary :: "('s, 'e) campaign_runner \<Rightarrow> nat \<Rightarrow> string \<Rightarrow> summary" where
  "durable_work_summary R k key =
     (case cn_summary R k key of
        NoCallback \<Rightarrow> unavailable key ''NO_PROVIDER_WORK_SUMMARY_CALLBACK''
      | SummaryValue v \<Rightarrow>
          (case v of PDict kvs \<Rightarrow> kvs
           | _ \<Rightarrow> unavailable key ''TypeError: provider work summary is not an object'')
      | SummaryRaised cls msg \<Rightarrow> unavailable key (cls @ '': '' @ msg))"

definition joules_value :: "real option \<Rightarrow> pyval" where
  "joules_value j = (case j of None \<Rightarrow> PNone | Some x \<Rightarrow> PFloat (Finite x))"

definition latency_value :: "('s, 'e) campaign_runner \<Rightarrow> nat \<Rightarrow> pyval" where
  "latency_value R k = PFloat (Finite (max 0 (cn_latency R k)))"

definition measured :: "('s, 'e) campaign_runner \<Rightarrow> nat \<Rightarrow> string \<Rightarrow> summary" where
  "measured R k key =
     dict_put (KStr ''energy_joules'') (joules_value (cn_joules R k))
       (dict_put (KStr ''e2e_latency_seconds'') (latency_value R k) (durable_work_summary R k key))"

definition summary_true :: "string \<Rightarrow> summary \<Rightarrow> bool" where
  "summary_true key ws = (case map_of ws (KStr key) of None \<Rightarrow> False | Some v \<Rightarrow> py_truthy v)"

definition summary_text :: "string \<Rightarrow> summary \<Rightarrow> string" where
  "summary_text key ws = (case map_of ws (KStr key) of None \<Rightarrow> ''None'' | Some v \<Rightarrow> py_text v)"

definition telemetry_invalid :: "('s, 'e) campaign_runner \<Rightarrow> bool \<Rightarrow> summary \<Rightarrow> bool" where
  "telemetry_invalid R steady ws \<longleftrightarrow>
     \<not> steady \<or> \<not> summary_true ''telemetry_complete'' ws \<or> \<not> summary_true ''by_op'' ws
     \<or> (cn_serialized R \<and> \<not> summary_true ''overlap_valid'' ws)"

definition invalid_reason :: "bool \<Rightarrow> summary \<Rightarrow> string" where
  "invalid_reason steady ws =
     (if \<not> steady then ''vLLM engine restarted while the cell was running''
      else ''provider work telemetry incomplete or overlapping: ''
        @ (if summary_true ''unavailable_reason'' ws then summary_text ''unavailable_reason'' ws
           else if summary_true ''overlap_error'' ws then summary_text ''overlap_error'' ws
           else ''unknown''))"

subsection \<open>One cell\<close>

definition cell_token ::
  "('s, 'e) campaign_runner \<Rightarrow> sched_cell \<Rightarrow> attempt \<Rightarrow> 'e runner_error + string" where
  "cell_token R c att =
     rbind (encoded R (str_dict
       [(''run'', PStr (rc_run (cn_config R))), (''block'', PStr (ce_block c)), (''arm'', PStr (as_id (ce_arm c))),
        (''replicate'', PStr (ce_replicate c)), (''attempt'', PInt (at_ordinal att))]))
       (\<lambda>raw. Inr (''cell-'' @ take 24 (sha256_hex (cn_sha R) raw)))"

definition spec_of ::
  "('s, 'e) campaign_runner \<Rightarrow> sched_cell \<Rightarrow> string \<Rightarrow> string \<Rightarrow> string \<Rightarrow> cell_spec" where
  "spec_of R c key question token =
     \<lparr>sp_run = rc_run (cn_config R), sp_task = ce_task c, sp_arm = as_id (ce_arm c), sp_page = as_page (ce_arm c),
      sp_close = as_close (ce_arm c), sp_replicate = ce_replicate c, sp_seed = ce_seed c, sp_work_key = key,
      sp_question = question, sp_token = token, sp_binding = rc_binding (cn_config R),
      sp_protocol = rc_protocol (cn_config R), sp_component = False\<rparr>"

text \<open>The callbacks \<open>_store_checkpoint\<close> and \<open>_store_continuation\<close>: \<open>kind\<close> tells them apart.\<close>

primrec run_session ::
  "('s, 'e) campaign_runner \<Rightarrow> nat \<Rightarrow> session \<Rightarrow> nat \<Rightarrow> 's coord_state
     \<Rightarrow> (graph_reply \<times> pyval list \<times> nat) \<times> 's coord_state" where
  "run_session R k (Ends reply trace pages) = (\<lambda>n S. ((reply, trace, pages), S))"
| "run_session R k (Saves kind doc rest) = (\<lambda>n S.
     case keep_document R [k, 2, n] kind None doc S of (res, S') \<Rightarrow>
       run_session R k (rest (case res of Inl e \<Rightarrow> False | Inr ref \<Rightarrow> True)) (Suc n) S')"

definition failure_payload ::
  "('s, 'e) campaign_runner \<Rightarrow> string \<Rightarrow> nat \<Rightarrow> sched_cell \<Rightarrow> cell_spec \<Rightarrow> string \<Rightarrow> string \<Rightarrow> string
     \<Rightarrow> string \<times> string \<times> bool \<Rightarrow> pyval list \<Rightarrow> nat \<Rightarrow> pyval" where
  "failure_payload R phase_id k c spec cls msg start epoch trace pages =
     (case epoch of (recorded, stop, steady) \<Rightarrow> str_dict
       [(''cell'', cell_content c), (''run_id'', PStr (rc_run (cn_config R))), (''phase_id'', PStr phase_id),
        (''work_key'', PStr (sp_work_key spec)),
        (''execution_binding_sha256'', PStr (rc_binding (cn_config R))),
        (''protocol_document_sha256'', PStr (rc_protocol (cn_config R))),
        (''variant_id'', PStr (variant_id spec)), (''error'', PStr (cls @ '': '' @ msg)),
        (''work_summary'', PDict (measured R k (sp_work_key spec))),
        (''e2e_latency_seconds'', latency_value R k),
        (''engine_epoch_start'', PStr start), (''engine_epoch_end'', PStr stop),
        (''engine_epoch_recorded'', PStr recorded), (''engine_epoch_stable'', PBool steady),
        (''terminal_state'', PStr ''FAILED_UNKNOWN''), (''claim_scope'', PStr (cn_scope R)),
        (''retrieval_trace'', PList trace), (''pages_registered'', PInt (int pages))])"

definition cell_payload ::
  "('s, 'e) campaign_runner \<Rightarrow> string \<Rightarrow> nat \<Rightarrow> sched_cell \<Rightarrow> cell_spec \<Rightarrow> cell_result \<Rightarrow> (string \<times> pyval) list
     \<Rightarrow> string \<Rightarrow> string \<times> string \<times> bool \<Rightarrow> pyval list \<Rightarrow> nat \<Rightarrow> pyval" where
  "cell_payload R phase_id k c spec r counts start epoch trace pages =
     (case epoch of (recorded, stop, steady) \<Rightarrow> str_dict
       [(''cell'', cell_content c), (''run_id'', PStr (rc_run (cn_config R))), (''phase_id'', PStr phase_id),
        (''execution_binding_sha256'', PStr (rc_binding (cn_config R))),
        (''protocol_document_sha256'', PStr (rc_protocol (cn_config R))),
        (''work_key'', PStr (sp_work_key spec)), (''variant_id'', PStr (variant_id spec)),
        (''final_report'', PStr (gr_report r)), (''notes'', PList (map PStr (gr_notes r))),
        (''raw_notes'', PList (map PStr (gr_raw_notes r))), (''events'', PList (map str_dict (gr_events r))),
        (''checkpoints'', PList (gr_checkpoints r)), (''direct_node_records'', PList (gr_records r)),
        (''trajectory_summary'', gr_summary r), (''first_treatment_checkpoint_digest'', PStr (gr_first_digest r)),
        (''seed_requested'', PInt (ce_seed c)), (''seed_applied_to_odr'', PBool (gr_seed_applied r)),
        (''work_summary'', PDict (measured R k (sp_work_key spec))),
        (''e2e_latency_seconds'', latency_value R k),
        (''engine_epoch_start'', PStr start), (''engine_epoch_end'', PStr stop),
        (''engine_epoch_recorded'', PStr recorded), (''engine_epoch_stable'', PBool steady),
        (''counts'', str_dict counts),
        (''error'', case gr_error r of None \<Rightarrow> PNone | Some e \<Rightarrow> PStr e), (''claim_scope'', PStr (cn_scope R)),
        (''retrieval_trace'', PList trace), (''pages_registered'', PInt (int pages))])"

text \<open>The graph raised: a failure record, then FAILED_UNKNOWN.\<close>

definition settle_raised ::
  "('s, 'e) campaign_runner \<Rightarrow> string \<Rightarrow> nat \<Rightarrow> sched_cell \<Rightarrow> cell_spec \<Rightarrow> string \<Rightarrow> string \<Rightarrow> string \<Rightarrow> string
     \<Rightarrow> pyval list \<Rightarrow> nat \<Rightarrow> 's coord_state \<Rightarrow> ('e runner_error + cell_outcome) \<times> 's coord_state" where
  "settle_raised R phase_id k c spec aid start cls msg trace pages =
     sbind (execution_epoch R k (sp_work_key spec) start) (\<lambda>epoch.
     sbind (keep_document R [k, 3] ''cell_failure_output'' (Some (sp_work_key spec))
              (failure_payload R phase_id k c spec cls msg start epoch trace pages)) (\<lambda>ref.
     sbind (on_ledger (fail aid FAILED_UNKNOWN cls (take 400 msg) ref (cn_clock R [k, 4]))) (\<lambda>_.
     sret \<lparr>oc_key = cell_key c, oc_state = AtState FAILED_UNKNOWN, oc_ref = ref, oc_fell_back = False,
           oc_error = cls, oc_counts = []\<rparr>)))"

text \<open>The graph returned: the output is materialized first, and committed last if the telemetry is sound.\<close>

definition settle_returned ::
  "('s, 'e) campaign_runner \<Rightarrow> string \<Rightarrow> nat \<Rightarrow> sched_cell \<Rightarrow> cell_spec \<Rightarrow> string \<Rightarrow> string \<Rightarrow> cell_result
     \<Rightarrow> pyval list \<Rightarrow> nat \<Rightarrow> 's coord_state \<Rightarrow> ('e runner_error + cell_outcome) \<times> 's coord_state" where
  "settle_returned R phase_id k c spec aid start r trace pages =
     sbind (execution_epoch R k (sp_work_key spec) start) (\<lambda>epoch.
     sbind (slift (case summarize_events (gr_events r) of None \<Rightarrow> Inl EventsRaised | Some counts \<Rightarrow> Inr counts)) (\<lambda>counts.
     sbind (keep_document R [k, 3] ''cell_output'' (Some (sp_work_key spec))
              (cell_payload R phase_id k c spec r counts start epoch trace pages)) (\<lambda>ref.
     sbind (ledger_does (advance aid MATERIALIZED [] (cn_clock R [k, 4]))) (\<lambda>_.
     let steady = snd (snd epoch); ws = measured R k (sp_work_key spec);
         error = (case gr_error r of None \<Rightarrow> [] | Some e \<Rightarrow> e) in
     if error \<noteq> [] \<or> telemetry_invalid R steady ws then
       (let reason = (if error \<noteq> [] then error else invalid_reason steady ws) in
        sbind (on_ledger (fail aid FAILED_FINAL
                 (if error \<noteq> [] then ''graph_error'' else ''invalid_work_telemetry'')
                 (take 400 reason) ref (cn_clock R [k, 5]))) (\<lambda>_.
        sret \<lparr>oc_key = cell_key c, oc_state = AtState FAILED_FINAL, oc_ref = ref, oc_fell_back = False,
              oc_error = reason, oc_counts = counts\<rparr>))
     else
       sbind (ledger_does (advance aid VALIDATED [] (cn_clock R [k, 5]))) (\<lambda>_.
       sbind (ledger_does (commit aid ref [] (cn_clock R [k, 6]))) (\<lambda>_.
       sret \<lparr>oc_key = cell_key c, oc_state = AtState COMMITTED, oc_ref = ref,
             oc_fell_back = field_true ''page_fallbacks'' counts, oc_error = [], oc_counts = counts\<rparr>))))))"

text \<open>After the claim.\<close>

definition run_claimed ::
  "('s, 'e) campaign_runner \<Rightarrow> string \<Rightarrow> nat \<Rightarrow> string \<Rightarrow> sched_cell \<Rightarrow> string \<Rightarrow> string \<Rightarrow> attempt
     \<Rightarrow> 's coord_state \<Rightarrow> ('e runner_error + cell_outcome) \<times> 's coord_state" where
  "run_claimed R phase_id k question c key start att =
     sbind (slift (cell_token R c att)) (\<lambda>token S.
       let spec = spec_of R c key question token in
       case run_session R k (cn_graph R k spec) 0 S of ((reply, trace, pages), S1) \<Rightarrow>
         (case reply of
            CellAborted \<Rightarrow> (Inl RunAborted, S1)
          | CellRaised cls msg \<Rightarrow> settle_raised R phase_id k c spec (at_id att) start cls msg trace pages S1
          | CellReturned r \<Rightarrow> settle_returned R phase_id k c spec (at_id att) start r trace pages S1))"

definition execute_cell ::
  "('s, 'e) campaign_runner \<Rightarrow> string \<Rightarrow> string \<Rightarrow> nat \<Rightarrow> string \<Rightarrow> sched_cell
     \<Rightarrow> 's coord_state \<Rightarrow> ('e runner_error + cell_outcome) \<times> 's coord_state" where
  "execute_cell R phase_id split k question c =
     sbind (work_key_for R phase_id split [k, 7] c) (\<lambda>key.
     sbind (slift (case current_epoch R k False of Inl e \<Rightarrow> Inl (EpochUnavailable e) | Inr e \<Rightarrow> Inr e)) (\<lambda>start S.
       case get_work_item key (cs_ledger S) of
         None \<Rightarrow> (Inr (bare_outcome (cell_key c) MissingItem), S)
       | Some item \<Rightarrow>
           if wi_state item \<noteq> PENDING then (Inr (bare_outcome (cell_key c) (AtState (wi_state item))), S)
           else
             sbind (on_ledger (claim (cn_sha R) (cn_fr R) key (cn_worker R) (cn_lease R) (rc_run (cn_config R))
                      (cn_clock R [k, 8])))
               (\<lambda>won. case won of
                  None \<Rightarrow> sret (bare_outcome (cell_key c) ClaimedElsewhere)
                | Some att \<Rightarrow> run_claimed R phase_id k question c key start att) S))"

subsection \<open>The states of the cells\<close>

text \<open>A committed cell counts as committed only while its blob verifies.\<close>

definition read_cell_state ::
  "('s, 'e) campaign_runner \<Rightarrow> string \<Rightarrow> string \<Rightarrow> nat \<times> sched_cell \<Rightarrow> 's coord_state
     \<Rightarrow> ('e runner_error + string \<times> lstate) \<times> 's coord_state" where
  "read_cell_state R phase_id split ic =
     (case ic of (i, c) \<Rightarrow>
       sbind (work_key_for R phase_id split [0, 9, i] c) (\<lambda>key S.
         let st = (case get_work_item key (cs_ledger S) of None \<Rightarrow> PENDING | Some item \<Rightarrow> wi_state item) in
         if st \<noteq> COMMITTED then (Inr (cell_key c, st), S)
         else
           (case committed_ref key (cs_ledger S) of
              None \<Rightarrow> (Inr (cell_key c, PENDING), S)
            | Some ref \<Rightarrow>
                if ref = [] then (Inr (cell_key c, PENDING), S)
                else (case cn_verify R ref (cs_store S) of
                        Inl e \<Rightarrow> (Inl (StoreRaised e), S)
                      | Inr good \<Rightarrow> (Inr (cell_key c, if good then COMMITTED else PENDING), S)))))"

definition read_cell_states ::
  "('s, 'e) campaign_runner \<Rightarrow> string \<Rightarrow> string \<Rightarrow> schedule_manifest \<Rightarrow> 's coord_state
     \<Rightarrow> ('e runner_error + cell_states) \<times> 's coord_state" where
  "read_cell_states R phase_id split m =
     sbind (smap (read_cell_state R phase_id split) (enumerate 0 (sched_cells m))) (\<lambda>kvs. sret (dict_of kvs))"

subsection \<open>The run\<close>

definition cells_to_run :: "runner_config \<Rightarrow> schedule_manifest \<Rightarrow> sched_cell list" where
  "cells_to_run cfg m = concat (map (\<lambda>b. sort_key ce_order (bl_cells b)) (filter (owns cfg) (sm_blocks m)))"

definition outcome_terminal :: "outcome_state option \<Rightarrow> bool" where
  "outcome_terminal s \<longleftrightarrow> (case s of Some (AtState st) \<Rightarrow> st \<in> set terminal_states | _ \<Rightarrow> False)"

fun run_queue ::
  "('s, 'e) campaign_runner \<Rightarrow> string \<Rightarrow> string \<Rightarrow> (string \<times> string) list \<Rightarrow> sched_cell list \<Rightarrow> nat
     \<Rightarrow> (string \<times> outcome_state) list \<Rightarrow> cell_outcome list \<Rightarrow> 's coord_state
     \<Rightarrow> ('e runner_error + cell_outcome list) \<times> 's coord_state" where
  "run_queue R phase_id split questions [] k states outcomes S = (Inr outcomes, S)"
| "run_queue R phase_id split questions (c # cs) k states outcomes S =
     (if outcome_terminal (map_of states (cell_key c)) then run_queue R phase_id split questions cs k states outcomes S
      else if cn_stop R k then (Inr outcomes, S)
      else if (case cn_max_cells R of None \<Rightarrow> False | Some n \<Rightarrow> n \<le> int k) then (Inr outcomes, S)
      else case map_of questions (ce_task c) of
        None \<Rightarrow> (Inl (NoQuestion (ce_task c)), S)
      | Some question \<Rightarrow>
          sbind (execute_cell R phase_id split k question c) (\<lambda>out.
            run_queue R phase_id split questions cs (Suc k) (dict_put (cell_key c) (oc_state out) states)
              (outcomes @ [out])) S)"

definition manifest_matches :: "runner_config \<Rightarrow> schedule_manifest \<Rightarrow> bool" where
  "manifest_matches cfg m \<longleftrightarrow> sm_binding m = rc_binding cfg \<and> sm_protocol m = rc_protocol cfg"

definition run_cells ::
  "('s, 'e) campaign_runner \<Rightarrow> schedule_manifest \<Rightarrow> string \<Rightarrow> string \<Rightarrow> (string \<times> string) list \<Rightarrow> 's coord_state
     \<Rightarrow> ('e runner_error + cell_outcome list) \<times> 's coord_state" where
  "run_cells R m phase_id split questions =
     sbind (slift (guard_err (manifest_matches (cn_config R) m) WrongManifest)) (\<lambda>_.
     sbind (read_cell_states R phase_id split m) (\<lambda>states.
       run_queue R phase_id split questions (cells_to_run (cn_config R) m) 0
         (map (\<lambda>(key, st). (key, AtState st)) states) []))"

subsection \<open>Freezing\<close>

definition tombstone ::
  "('s, 'e) campaign_runner \<Rightarrow> string \<Rightarrow> sched_cell \<Rightarrow> string \<Rightarrow> lstate \<Rightarrow> string \<Rightarrow> pyval" where
  "tombstone R phase_id c key st prior = str_dict
     [(''cell'', cell_content c), (''run_id'', PStr (rc_run (cn_config R))), (''phase_id'', PStr phase_id),
      (''work_key'', PStr key), (''execution_binding_sha256'', PStr (rc_binding (cn_config R))),
      (''protocol_document_sha256'', PStr (rc_protocol (cn_config R))), (''terminal_state'', PStr (state_name st)),
      (''artifact_kind'', PStr ''terminal_failure_tombstone''), (''missing_or_corrupt_prior_ref'', PStr prior),
      (''claim_scope'', PStr (cn_scope R))]"

definition terminal_output_ref ::
  "('s, 'e) campaign_runner \<Rightarrow> string \<Rightarrow> string \<Rightarrow> nat \<Rightarrow> sched_cell \<Rightarrow> lstate \<Rightarrow> 's coord_state
     \<Rightarrow> ('e runner_error + string) \<times> 's coord_state" where
  "terminal_output_ref R phase_id split i c st =
     sbind (work_key_for R phase_id split [0, 10, i] c) (\<lambda>key S.
       let existing = (case terminal_ref key (cs_ledger S) of None \<Rightarrow> [] | Some ref \<Rightarrow> ref) in
       sbind (slift (if existing = [] then Inr False
                     else case cn_verify R existing (cs_store S) of Inl e \<Rightarrow> Inl (StoreRaised e) | Inr good \<Rightarrow> Inr good))
         (\<lambda>good. if good then sret existing
            else keep_document R [0, 11, i] ''terminal_failure_tombstone'' (Some key)
                   (tombstone R phase_id c key st existing)) S)"

definition read_output ::
  "('s, 'e) campaign_runner \<Rightarrow> string \<Rightarrow> string \<Rightarrow> cell_states \<Rightarrow> nat \<times> sched_cell \<Rightarrow> 's coord_state
     \<Rightarrow> ('e runner_error + string \<times> string) \<times> 's coord_state" where
  "read_output R phase_id split states ic =
     (case ic of (i, c) \<Rightarrow>
       (case map_of states (cell_key c) of
          Some st \<Rightarrow>
            if st \<in> set terminal_states
            then sbind (terminal_output_ref R phase_id split i c st) (\<lambda>ref. sret (cell_key c, ref))
            else sret (cell_key c, [])
        | None \<Rightarrow> sret (cell_key c, [])))"

text \<open>The key of a cell's work item, which \<open>cell_states\<close> has registered.\<close>

definition key_of_cell :: "('s, 'e) campaign_runner \<Rightarrow> string \<Rightarrow> string \<Rightarrow> sched_cell \<Rightarrow> string" where
  "key_of_cell R phase_id split c =
     (case work_key (cn_sha R) (cn_fr R) (cell_coordinates (cn_config R) phase_id split c) [] of
        Inl e \<Rightarrow> [] | Inr key \<Rightarrow> key)"

definition freeze_campaign ::
  "('s, 'e) campaign_runner \<Rightarrow> schedule_manifest \<Rightarrow> string \<Rightarrow> string \<Rightarrow> frozen_dir \<Rightarrow> 's coord_state
     \<Rightarrow> ('e runner_error + block_record list \<times> frozen_dir) \<times> 's coord_state" where
  "freeze_campaign R m phase_id split d =
     sbind (slift (guard_err (manifest_matches (cn_config R) m) WrongManifest)) (\<lambda>_.
     sbind (read_cell_states R phase_id split m) (\<lambda>states.
     sbind (smap (read_output R phase_id split states) (enumerate 0 (sched_cells m))) (\<lambda>outputs S.
       case freeze_blocks (cn_sha R) (cn_fr R) (cn_config R) (key_of_cell R phase_id split) states (dict_of outputs)
              (cn_clock R [0, 12]) m phase_id split d (cs_ledger S) of
         Inl e \<Rightarrow> (Inl (FreezeRaised e), S)
       | Inr (frozen, d', L) \<Rightarrow> (Inr (frozen, d'), S\<lparr>cs_ledger := L\<rparr>))))"

subsection \<open>Status\<close>

record run_status =
  rt_counts :: "lstate \<Rightarrow> nat option"
  rt_cells_total :: nat
  rt_cells_committed :: nat
  rt_cells_terminal :: nat
  rt_blocks_total :: nat
  rt_blocks_complete :: nat
  rt_blocks_terminal :: nat

definition status_of ::
  "('s, 'e) campaign_runner \<Rightarrow> schedule_manifest \<Rightarrow> string \<Rightarrow> string \<Rightarrow> 's coord_state
     \<Rightarrow> ('e runner_error + run_status) \<times> 's coord_state" where
  "status_of R m phase_id split S =
     sbind (read_cell_states R phase_id split m) (\<lambda>states. sret
       \<lparr>rt_counts = state_counts (cs_ledger S),
        rt_cells_total = length (sched_cells m),
        rt_cells_committed = length (filter (\<lambda>kv. snd kv = COMMITTED) states),
        rt_cells_terminal = length (filter (\<lambda>kv. snd kv \<in> set terminal_states) states),
        rt_blocks_total = length (sm_blocks m),
        rt_blocks_complete = length (filter (\<lambda>b. block_is_complete b states) (sm_blocks m)),
        rt_blocks_terminal = length (filter (\<lambda>b. block_is_terminal b states) (sm_blocks m))\<rparr>) S"

end
