(* ===== verification/RunnerProps.thy ===== *)
theory RunnerProps
  imports Runner FreezeRootProps CoordinatorProps
begin

text \<open>
  The campaign runner: a run commits a cell only with a blob that verifies, it never touches a work item
  that has left PENDING, and with a store, an engine and a graph that answer it leaves no cell of its lane
  unfinished. The proofs are Hoare triples over the runner's operations, with a condition for the states
  an operation returns in and one for those it raises in.
\<close>

subsection \<open>Triples\<close>

definition triple :: "('s \<Rightarrow> bool) \<Rightarrow> ('s \<Rightarrow> ('e + 'a) \<times> 's) \<Rightarrow> ('a \<Rightarrow> 's \<Rightarrow> bool) \<Rightarrow> ('s \<Rightarrow> bool) \<Rightarrow> bool" where
  "triple P m Q E \<longleftrightarrow> (\<forall>S. P S \<longrightarrow> (case m S of (Inl e, S') \<Rightarrow> E S' | (Inr x, S') \<Rightarrow> Q x S'))"

named_theorems triple_rules \<open>triples of the runner's operations\<close>

lemma tripleI:
  assumes "\<And>S x S'. P S \<Longrightarrow> m S = (Inr x, S') \<Longrightarrow> Q x S'" and "\<And>S e S'. P S \<Longrightarrow> m S = (Inl e, S') \<Longrightarrow> E S'"
  shows "triple P m Q E"
  unfolding triple_def using assms by (fastforce split: prod.splits sum.splits)

lemma tripleD1: "triple P m Q E \<Longrightarrow> P S \<Longrightarrow> m S = (Inr x, S') \<Longrightarrow> Q x S'"
  by (force simp: triple_def)

lemma tripleD2: "triple P m Q E \<Longrightarrow> P S \<Longrightarrow> m S = (Inl e, S') \<Longrightarrow> E S'"
  by (force simp: triple_def)

lemma triple_bind:
  assumes "triple P m Q E" and "\<And>x. triple (Q x) (f x) T E"
  shows "triple P (sbind m f) T E"
  unfolding triple_def
proof (intro allI impI)
  fix S assume P: "P S"
  obtain r S1 where m: "m S = (r, S1)" by (cases "m S")
  show "case sbind m f S of (Inl e, S') \<Rightarrow> E S' | (Inr x, S') \<Rightarrow> T x S'"
  proof (cases r)
    case (Inl e)
    then show ?thesis using tripleD2 [OF assms(1) P] m by (simp add: sbind_def)
  next
    case (Inr x)
    then have "Q x S1" using tripleD1 [OF assms(1) P] m by simp
    with assms(2) [of x] show ?thesis by (simp add: sbind_def m Inr triple_def)
  qed
qed

lemma triple_ret: "(\<And>S. P S \<Longrightarrow> Q x S) \<Longrightarrow> triple P (sret x) Q E"
  by (simp add: triple_def sret_def)

lemma triple_lift:
  assumes "\<And>S y. P S \<Longrightarrow> x = Inr y \<Longrightarrow> Q y S" and "\<And>S e. P S \<Longrightarrow> x = Inl e \<Longrightarrow> E S"
  shows "triple P (slift x) Q E"
  using assms by (cases x) (auto simp: triple_def slift_def)

lemma sbind_lift [simp]: "sbind (slift (Inr x)) f = f x"
  by (simp add: sbind_def slift_def fun_eq_iff)

lemma triple_pre: "triple P' m Q E \<Longrightarrow> (\<And>S. P S \<Longrightarrow> P' S) \<Longrightarrow> triple P m Q E"
  by (auto simp: triple_def)

lemma triple_post:
  assumes "triple P m Q' E" and "\<And>x S. Q' x S \<Longrightarrow> Q x S"
  shows "triple P m Q E"
  using assms by (auto intro!: tripleI dest: tripleD1 tripleD2)

lemma triple_exc:
  assumes "triple P m Q E'" and "\<And>S. E' S \<Longrightarrow> E S"
  shows "triple P m Q E"
  using assms by (auto intro!: tripleI dest: tripleD1 tripleD2)

lemma triple_ex:
  assumes "\<And>e. triple (P e) m Q E"
  shows "triple (\<lambda>S. \<exists>e. P e S) m Q E"
proof -
  have "case m S of (Inl x, S') \<Rightarrow> E S' | (Inr x, S') \<Rightarrow> Q x S'" if "P e S" for e S
    using assms [of e] that unfolding triple_def by simp
  then show ?thesis unfolding triple_def by metis
qed

lemma triple_fact: "(C \<Longrightarrow> triple P m Q E) \<Longrightarrow> triple (\<lambda>S. C \<and> P S) m Q E"
  by (auto simp: triple_def)

lemma triple_smap:
  assumes "\<And>x. x \<in> set xs \<Longrightarrow> triple I (f x) (\<lambda>_. I) E"
  shows "triple I (smap f xs) (\<lambda>_. I) E"
  using assms
proof (induction xs)
  case Nil
  then show ?case by (simp add: triple_def)
next
  case (Cons x xs)
  have "smap f (x # xs) = sbind (f x) (\<lambda>y. sbind (smap f xs) (\<lambda>ys. sret (y # ys)))" by (simp add: fun_eq_iff)
  moreover have "triple I (sbind (f x) (\<lambda>y. sbind (smap f xs) (\<lambda>ys. sret (y # ys)))) (\<lambda>_. I) E"
    by (rule triple_bind [OF Cons.prems], simp)
      (rule triple_bind [OF Cons.IH], simp add: Cons.prems, rule triple_ret, assumption)
  ultimately show ?case by simp
qed

lemma triple_if:
  "(c \<Longrightarrow> triple P a Q E) \<Longrightarrow> (\<not> c \<Longrightarrow> triple P b Q E) \<Longrightarrow> triple P (if c then a else b) Q E"
  by simp

text \<open>An operation keeps a condition, whether it returns or raises.\<close>

abbreviation keeps :: "('s \<Rightarrow> bool) \<Rightarrow> ('s \<Rightarrow> ('e + 'a) \<times> 's) \<Rightarrow> bool" where
  "keeps I m \<equiv> triple I m (\<lambda>_. I) I"

lemma keepsD: "keeps I m \<Longrightarrow> I S \<Longrightarrow> m S = (res, S') \<Longrightarrow> I S'"
  by (cases res) (auto dest: tripleD1 tripleD2)

lemma tripleI_both: "(\<And>S res S'. P S \<Longrightarrow> m S = (res, S') \<Longrightarrow> Q S') \<Longrightarrow> triple P m (\<lambda>_. Q) Q"
  by (rule tripleI) blast+

lemma tripleD_both: "triple P m (\<lambda>_. Q) Q \<Longrightarrow> P S \<Longrightarrow> m S = (res, S') \<Longrightarrow> Q S'"
  by (cases res) (auto dest: tripleD1 tripleD2)

lemma keepsI: "(\<And>S res S'. I S \<Longrightarrow> m S = (res, S') \<Longrightarrow> I S') \<Longrightarrow> keeps I m"
  by (rule tripleI) blast+

lemma keeps_bind: "keeps I m \<Longrightarrow> (\<And>x. keeps I (f x)) \<Longrightarrow> keeps I (sbind m f)"
  by (rule triple_bind)

lemma keeps_ret: "keeps I (sret x)"
  by (rule triple_ret)

lemma keeps_lift: "keeps I (slift x)"
  by (rule triple_lift)

lemma keeps_on_ledger:
  assumes "\<And>S x L. I S \<Longrightarrow> op (cs_ledger S) = Inr (x, L) \<Longrightarrow> I (S\<lparr>cs_ledger := L\<rparr>)"
  shows "keeps I (on_ledger op)"
  by (rule tripleI) (use assms in \<open>fastforce simp: on_ledger_def split: sum.splits\<close>)+

lemma on_ledger_eq:
  "on_ledger op S = (Inr x, S') \<longleftrightarrow> (\<exists>L. op (cs_ledger S) = Inr (x, L) \<and> S' = S\<lparr>cs_ledger := L\<rparr>)"
  "on_ledger op S = (Inl e, S') \<longleftrightarrow> (\<exists>e'. op (cs_ledger S) = Inl e' \<and> e = LedgerRaised e' \<and> S' = S)"
  by (auto simp: on_ledger_def split: sum.splits)

lemma keeps_ledger_does:
  assumes "\<And>S L. I S \<Longrightarrow> op (cs_ledger S) = Inr L \<Longrightarrow> I (S\<lparr>cs_ledger := L\<rparr>)"
  shows "keeps I (ledger_does op)"
  unfolding ledger_does_def by (rule keeps_on_ledger) (use assms in \<open>auto split: sum.splits\<close>)

lemma run_session_keeps:
  assumes "\<And>tag kind doc. keeps I (keep_document R tag kind None doc)" and "I S"
  shows "I (snd (run_session R k s n S))"
  using assms(2)
proof (induction s arbitrary: n S)
  case (Saves kind doc rest)
  obtain res S1 where step: "keep_document R [k, 2, n] kind None doc S = (res, S1)"
    by (cases "keep_document R [k, 2, n] kind None doc S")
  have "I S1" by (rule keepsD [OF assms(1) Saves.prems step])
  with Saves.IH [OF rangeI] step show ?case by simp
qed simp

text \<open>A condition on the work items and attempts alone is kept by what only adds documents or epochs.\<close>

definition core_only :: "('s coord_state \<Rightarrow> bool) \<Rightarrow> bool" where
  "core_only I \<longleftrightarrow> (\<forall>S S'. I S \<longrightarrow> core (cs_ledger S') = core (cs_ledger S) \<longrightarrow> I S')"

lemma core_onlyD: "core_only I \<Longrightarrow> I S \<Longrightarrow> core (cs_ledger S') = core (cs_ledger S) \<Longrightarrow> I S'"
  unfolding core_only_def by blast

lemma put_object_core: "put_object R tag raw S = (res, S') \<Longrightarrow> cs_ledger S' = cs_ledger S"
  by (auto simp: put_object_def split: prod.splits sum.splits)

lemma keep_document_core:
  assumes "core_only I"
  shows "keeps I (keep_document R tag kind key v)"
proof -
  have "keeps I (put_object R tag raw)" for raw
    by (rule keepsI) (metis assms core_onlyD put_object_core)
  moreover have "keeps I (ledger_does (\<lambda>L. Inr (register_artifact ref kind raw stored key clk L)))" for ref raw stored clk
    by (rule keeps_ledger_does) (auto intro: core_onlyD [OF assms])
  ultimately show ?thesis
    unfolding keep_document_def by (intro keeps_bind keeps_lift keeps_ret)
qed

lemma execution_epoch_core:
  assumes "core_only I"
  shows "keeps I (execution_epoch R k key start)"
proof -
  have "keeps I (ledger_does (record_engine_epoch key e clk))" for e clk
    by (rule keeps_ledger_does) (auto dest!: record_engine_epoch_core intro: core_onlyD [OF assms])
  then show ?thesis
    unfolding execution_epoch_def by (intro keeps_bind keeps_lift keeps_ret)
qed

lemma run_claimed_triple:
  assumes doc: "\<And>tag kind v. keeps I (keep_document R tag kind None v)"
    and raised: "\<And>spec cls msg trace pages. triple I (settle_raised R phase_id k c spec (at_id att) start cls msg trace pages) (\<lambda>_. Q) Q"
    and returned: "\<And>spec r trace pages. triple I (settle_returned R phase_id k c spec (at_id att) start r trace pages) (\<lambda>_. Q) Q"
    and weaker: "\<And>S. I S \<Longrightarrow> Q S"
  shows "triple I (run_claimed R phase_id k question c key start att) (\<lambda>_. Q) Q"
proof -
  have run: "triple I (\<lambda>S. case run_session R k s 0 S of ((reply, trace, pages), S1) \<Rightarrow>
         (case reply of
            CellAborted \<Rightarrow> (Inl RunAborted, S1)
          | CellRaised cls msg \<Rightarrow> settle_raised R phase_id k c spec (at_id att) start cls msg trace pages S1
          | CellReturned r \<Rightarrow> settle_returned R phase_id k c spec (at_id att) start r trace pages S1)) (\<lambda>_. Q) Q" for s spec
  proof (rule tripleI_both, goal_cases)
    case (1 S res S')
    obtain reply trace pages S1 where s: "run_session R k s 0 S = ((reply, trace, pages), S1)"
      by (metis surj_pair)
    have I: "I S1" using run_session_keeps [where I = I, OF doc 1(1), of k s 0] s by simp
    show ?case
    proof (cases reply)
      case (CellReturned r)
      with 1(2) s have "settle_returned R phase_id k c spec (at_id att) start r trace pages S1 = (res, S')" by simp
      then show ?thesis by (rule tripleD_both [OF returned I])
    next
      case (CellRaised cls msg)
      with 1(2) s have "settle_raised R phase_id k c spec (at_id att) start cls msg trace pages S1 = (res, S')" by simp
      then show ?thesis by (rule tripleD_both [OF raised I])
    next
      case CellAborted
      with 1(2) s weaker [OF I] show ?thesis by simp
    qed
  qed
  have token: "triple I (slift x) (\<lambda>_. I) Q" for x by (rule triple_lift) (auto intro: weaker)
  show ?thesis unfolding run_claimed_def Let_def by (rule triple_bind [OF token run])
qed

lemmas run_claimed_keeps = run_claimed_triple [where Q = I and I = I for I, OF _ _ _ asm_rl]

text \<open>A condition that registering and what follows the claim keep is kept by a cell.\<close>

lemma execute_cell_keeps:
  assumes key: "\<And>tag c. keeps I (work_key_for R phase_id split tag c)"
    and claimed: "\<And>key start. keeps I (sbind (on_ledger (claim (cn_sha R) (cn_fr R) key (cn_worker R) (cn_lease R)
        (rc_run (cn_config R)) (cn_clock R [k, 8])))
      (\<lambda>won. case won of None \<Rightarrow> sret (bare_outcome (cell_key c) ClaimedElsewhere)
         | Some att \<Rightarrow> run_claimed R phase_id k question c key start att))"
  shows "keeps I (execute_cell R phase_id split k question c)"
proof -
  have "keeps I (\<lambda>S. case get_work_item key (cs_ledger S) of
         None \<Rightarrow> (Inr (bare_outcome (cell_key c) MissingItem), S)
       | Some item \<Rightarrow>
           if wi_state item \<noteq> PENDING then (Inr (bare_outcome (cell_key c) (AtState (wi_state item))), S)
           else
             sbind (on_ledger (claim (cn_sha R) (cn_fr R) key (cn_worker R) (cn_lease R) (rc_run (cn_config R))
                      (cn_clock R [k, 8])))
               (\<lambda>won. case won of
                  None \<Rightarrow> sret (bare_outcome (cell_key c) ClaimedElsewhere)
                | Some att \<Rightarrow> run_claimed R phase_id k question c key start att) S)" for key start
    by (intro keepsI) (auto split: option.splits if_splits dest: keepsD [OF claimed])
  then show ?thesis
    unfolding execute_cell_def by (intro keeps_bind keeps_lift key)
qed

text \<open>A condition that registering a work item and executing a cell keep is kept by the run.\<close>

lemma read_cell_state_keeps:
  assumes "\<And>tag c. keeps I (work_key_for R phase_id split tag c)"
  shows "keeps I (read_cell_state R phase_id split ic)"
proof -
  obtain i c where "ic = (i, c)" by (cases ic)
  moreover have "keeps I (\<lambda>S. let st = (case get_work_item key (cs_ledger S) of None \<Rightarrow> PENDING | Some item \<Rightarrow> wi_state item) in
         if st \<noteq> COMMITTED then (Inr (cell_key c, st), S)
         else
           (case committed_ref key (cs_ledger S) of
              None \<Rightarrow> (Inr (cell_key c, PENDING), S)
            | Some ref \<Rightarrow>
                if ref = [] then (Inr (cell_key c, PENDING), S)
                else (case cn_verify R ref (cs_store S) of
                        Inl e \<Rightarrow> (Inl (StoreRaised e), S)
                      | Inr good \<Rightarrow> (Inr (cell_key c, if good then COMMITTED else PENDING), S))))" for key
    by (rule keepsI) (auto simp: Let_def split: if_splits option.splits sum.splits)
  ultimately show ?thesis
    unfolding read_cell_state_def by (auto intro: keeps_bind [OF assms])
qed

lemma read_cell_states_keeps:
  assumes "\<And>tag c. keeps I (work_key_for R phase_id split tag c)"
  shows "keeps I (read_cell_states R phase_id split m)"
  unfolding read_cell_states_def
  by (rule keeps_bind [OF triple_smap keeps_ret], rule read_cell_state_keeps, rule assms)

lemma run_queue_keeps:
  assumes "\<And>k q c. keeps I (execute_cell R phase_id split k q c)" and "I S"
    and "run_queue R phase_id split questions cs k states outcomes S = (res, S')"
  shows "I S'"
  using assms(2,3)
proof (induction cs arbitrary: k states outcomes S)
  case (Cons c cs)
  consider (stay) "S' = S" | (skip) "run_queue R phase_id split questions cs k states outcomes S = (res, S')"
    | (run) q where "sbind (execute_cell R phase_id split k q c) (\<lambda>out. run_queue R phase_id split questions cs (Suc k)
        (dict_put (cell_key c) (oc_state out) states) (outcomes @ [out])) S = (res, S')"
    using Cons.prems(2) by (auto split: if_splits option.splits)
  then show ?case
  proof cases
    case (run q)
    obtain r S1 where step: "execute_cell R phase_id split k q c S = (r, S1)"
      by (cases "execute_cell R phase_id split k q c S")
    have "I S1" by (rule keepsD [OF assms(1) Cons.prems(1) step])
    with run step Cons.IH show ?thesis by (auto simp: sbind_def split: sum.splits)
  qed (use Cons in auto)
qed simp

lemma run_cells_keeps:
  assumes "\<And>tag c. keeps I (work_key_for R phase_id split tag c)"
    and "\<And>k q c. keeps I (execute_cell R phase_id split k q c)"
  shows "keeps I (run_cells R m phase_id split questions)"
proof -
  have "keeps I (run_queue R phase_id split questions cs k states outcomes)" for cs k states outcomes
    by (rule keepsI) (rule run_queue_keeps [OF assms(2)])
  then show ?thesis
    unfolding run_cells_def by (intro keeps_bind keeps_lift read_cell_states_keeps assms(1))
qed

subsection \<open>A commit has its blob\<close>

context blob_store
begin

abbreviation sound :: "('s \<Rightarrow> bool) \<Rightarrow> 's coord_state \<Rightarrow> bool" where
  "sound V S \<equiv> good S \<and> V (cs_store S)"

lemma sound_ledger:
  assumes "\<And>L x L'. op L = Inr (x, L') \<Longrightarrow> no_new L L'"
  shows "keeps (sound V) (on_ledger op)"
  using good_no_new assms by (intro keeps_on_ledger) (auto dest: assms)

lemma sound_ledger_does:
  assumes "\<And>L L'. op L = Inr L' \<Longrightarrow> no_new L L'"
  shows "keeps (sound V) (ledger_does op)"
  using good_no_new assms by (intro keeps_ledger_does) (auto dest: assms)

lemma keep_document_sound:
  assumes R: "\<And>tag raw st. cn_put R tag raw st = put (x tag) raw st"
  shows "triple good (keep_document R tag kind key v) (\<lambda>ref S. good S \<and> verify ref (cs_store S) = Inr True) good"
proof -
  have put: "triple good (put_object R tag raw) (\<lambda>ref S. good S \<and> verify (or_key ref) (cs_store S) = Inr True) good"
    for raw
  proof (rule tripleI)
    fix S r S' assume good: "good S" and "put_object R tag raw S = (Inr r, S')"
    then obtain st where st: "put (x tag) raw (cs_store S) = (Inr r, st)" "S' = S\<lparr>cs_store := st\<rparr>"
      by (auto simp: put_object_def R split: prod.splits sum.splits)
    with good_put [OF good st(1)] put_verified [OF _ st(1)] good show "good S' \<and> verify (or_key r) (cs_store S') = Inr True"
      by simp
  next
    fix S e S' assume good: "good S" and "put_object R tag raw S = (Inl e, S')"
    then obtain e' st where "put (x tag) raw (cs_store S) = (Inl e', st)" "S' = S\<lparr>cs_store := st\<rparr>"
      by (auto simp: put_object_def R split: prod.splits sum.splits)
    with good_put [OF good this(1)] show "good S'" by simp
  qed
  note art = triple_exc [OF sound_ledger_does [where V = "\<lambda>st. verify ref st = Inr True" for ref]]
  show ?thesis
    unfolding keep_document_def
    by (rule triple_bind [OF triple_lift triple_bind [OF put triple_bind [OF art triple_ret]]])
      (auto simp: no_new_same register_artifact_def)
qed

lemma work_key_for_sound: "keeps (sound V) (work_key_for R phase_id split tag c)"
proof -
  have "no_new L L'" if "ensure_work_item sha fr dm co ep se mr clk L = Inr (key, L')"
    for sha fr dm co ep se mr clk key and L L' :: ledger
    using that by (intro no_new_same) (auto dest!: ensure_Inr)
  then show ?thesis unfolding work_key_for_def by (rule sound_ledger)
qed

lemma execution_epoch_sound: "keeps (sound V) (execution_epoch R k key start)"
proof -
  have "keeps (sound V) (ledger_does (record_engine_epoch key e clk))" for e clk
    by (rule sound_ledger_does) (auto dest!: record_engine_epoch_core intro!: no_new_same simp: core_def)
  then show ?thesis
    unfolding execution_epoch_def by (intro keeps_bind keeps_lift keeps_ret)
qed

lemma commit_sound:
  "triple (\<lambda>S. good S \<and> verify ref (cs_store S) = Inr True) (ledger_does (commit aid ref reason clk)) (\<lambda>_. good) good"
proof (rule tripleI)
  fix S u S' assume *: "good S \<and> verify ref (cs_store S) = Inr True" and "ledger_does (commit aid ref reason clk) S = (Inr u, S')"
  then obtain L where L: "commit aid ref reason clk (cs_ledger S) = Inr L" "S' = S\<lparr>cs_ledger := L\<rparr>"
    by (auto simp: ledger_does_def on_ledger_def split: sum.splits)
  from * show "good S'" unfolding L(2) using commit_new [OF L(1)] by (fastforce simp: backed_def)
qed (auto simp: ledger_does_def on_ledger_def split: sum.splits)

lemma fail_sound: "keeps (sound V) (on_ledger (fail aid d e reason ref clk))"
  by (rule sound_ledger) (metis fail_no_new surj_pair)

lemma advance_sound: "keeps (sound V) (ledger_does (advance aid st reason clk))"
  by (rule sound_ledger_does) (rule advance_no_new)

lemma settle_sound:
  assumes R: "\<And>tag raw st. cn_put R tag raw st = put (x tag) raw st"
  shows "keeps good (settle_raised R phase_id k c spec aid start cls msg trace pages)"
    and "keeps good (settle_returned R phase_id k c spec aid start r trace pages)"
proof -
  note epoch = execution_epoch_sound [where V = "\<lambda>_. True", simplified]
  note doc = keep_document_sound [where R = R and x = x, OF R]
  note fail = triple_pre [OF fail_sound [where V = "\<lambda>_. True", simplified]]
  note adv = triple_exc [OF advance_sound [where V = "\<lambda>st. verify ref st = Inr True" for ref]]
  show "keeps good (settle_raised R phase_id k c spec aid start cls msg trace pages)"
    unfolding settle_raised_def
    by (rule triple_bind [OF epoch triple_bind [OF doc triple_bind [OF fail triple_ret]]]) auto
  have failing: "triple (\<lambda>S. good S \<and> verify ref (cs_store S) = Inr True)
      (sbind (on_ledger (fail aid d e reason ref' clk)) (\<lambda>_. sret y)) (\<lambda>_. good) good" for ref d e reason ref' clk y
    by (rule triple_bind [OF fail triple_ret]) auto
  have finishing: "triple (\<lambda>S. good S \<and> verify ref (cs_store S) = Inr True)
      (sbind (ledger_does (advance aid VALIDATED [] clk)) (\<lambda>_. sbind (ledger_does (commit aid ref [] clk')) (\<lambda>_. sret y)))
      (\<lambda>_. good) good" for ref clk clk' y
    by (rule triple_bind [OF adv triple_bind [OF commit_sound triple_ret]]) auto
  show "keeps good (settle_returned R phase_id k c spec aid start r trace pages)"
    unfolding settle_returned_def Let_def
    by (rule triple_bind [OF epoch triple_bind [OF keeps_lift triple_bind [OF doc triple_bind [OF adv triple_if]]]])
      (blast | rule failing finishing)+
qed

lemma run_claimed_sound:
  assumes R: "\<And>tag raw st. cn_put R tag raw st = put (x tag) raw st"
  shows "keeps good (run_claimed R phase_id k question c key start att)"
  by (rule run_claimed_keeps)
     (rule triple_post [OF keep_document_sound [where R = R and x = x, OF R]], blast, rule settle_sound [where x = x, OF R],
      rule settle_sound [where x = x, OF R])

lemma execute_cell_sound:
  assumes R: "\<And>tag raw st. cn_put R tag raw st = put (x tag) raw st"
  shows "keeps good (execute_cell R phase_id split k question c)"
proof (rule execute_cell_keeps)
  have claim: "keeps good (on_ledger (claim sha fr key w lease run clk))" for sha fr key w lease run clk
    by (rule sound_ledger [where V = "\<lambda>_. True", simplified]) (rule claim_no_new)
  show "keeps good (sbind (on_ledger (claim (cn_sha R) (cn_fr R) key (cn_worker R) (cn_lease R)
        (rc_run (cn_config R)) (cn_clock R [k, 8])))
      (\<lambda>won. case won of None \<Rightarrow> sret (bare_outcome (cell_key c) ClaimedElsewhere)
         | Some att \<Rightarrow> run_claimed R phase_id k question c key start att))" for key start
    by (rule keeps_bind [OF claim]) (auto split: option.splits intro: keeps_ret run_claimed_sound [where x = x, OF R])
qed (rule work_key_for_sound [where V = "\<lambda>_. True", simplified])

lemma run_cells_sound:
  assumes R: "\<And>tag raw st. cn_put R tag raw st = put (x tag) raw st" and "good S"
    and "run_cells R m phase_id split questions S = (res, S')"
  shows "good S'"
  by (rule keepsD [where I = good, OF run_cells_keeps [where I = good] assms(2,3)])
     (rule work_key_for_sound [where V = "\<lambda>_. True", simplified], rule execute_cell_sound [where x = x, OF R])

end

subsection \<open>What has left PENDING is left alone\<close>

text \<open>The row and the attempts of one work item, and an attempt id that is none of them.\<close>

definition untouched :: "string \<Rightarrow> work_item \<Rightarrow> attempt list \<Rightarrow> ledger \<Rightarrow> bool" where
  "untouched key row atts L \<longleftrightarrow> find_row wi_key key (items L) = Some row \<and> attempts_of key L = atts"

definition foreign :: "string \<Rightarrow> string \<Rightarrow> ledger \<Rightarrow> bool" where
  "foreign key aid L \<longleftrightarrow> (\<forall>a \<in> set (attempts L). at_id a = aid \<longrightarrow> at_work_key a \<noteq> key)"

definition apart :: "string \<Rightarrow> work_item \<Rightarrow> attempt list \<Rightarrow> string \<Rightarrow> ledger \<Rightarrow> bool" where
  "apart key row atts aid L \<longleftrightarrow> untouched key row atts L \<and> foreign key aid L"

lemma find_row_insert_ignore:
  "find_row key k t = Some r \<Longrightarrow> find_row key k (insert_ignore key x t) = Some r"
  by (simp add: insert_ignore_def find_row_append)

lemma untouched_same:
  assumes "untouched key row atts L" and "items L' = items L" and "attempts L' = attempts L"
  shows "untouched key row atts L'"
  using assms by (simp add: untouched_def attempts_of_def)

lemma apart_same:
  assumes "apart key row atts aid L" and "items L' = items L" and "attempts L' = attempts L"
  shows "apart key row atts aid L'"
  using assms untouched_same by (auto simp: apart_def foreign_def)

lemma find_row_update_other:
  assumes "\<And>r. wi_key (f r) = wi_key r" and "\<And>r. p r \<Longrightarrow> wi_key r \<noteq> key"
  shows "find_row wi_key key (update_rows p f t) = find_row wi_key key t"
  using assms by (induction t) auto

lemma set_state_untouched:
  assumes "set_state k from to reason t1 t2 L = Inr L'" and "k \<noteq> key"
  shows "find_row wi_key key (items L') = find_row wi_key key (items L) \<and> attempts L' = attempts L"
  using assms by (auto simp: set_state_def log_transition_def intro!: find_row_update_other split: if_splits)

lemma update_attempt_apart:
  assumes "foreign key aid L" and "\<And>a. at_work_key (f a) = at_work_key a" "\<And>a. at_id (f a) = at_id a"
  shows "attempts_of key (update_attempt aid f L) = attempts_of key L \<and> foreign key b (update_attempt aid f L) = foreign key b L"
proof -
  have "filter (\<lambda>a. at_work_key a = key) (update_rows (\<lambda>a. at_id a = aid) f as) = filter (\<lambda>a. at_work_key a = key) as"
    if "\<forall>a \<in> set as. at_id a = aid \<longrightarrow> at_work_key a \<noteq> key" for as
    using that assms(2) by (induction as) auto
  moreover have "(\<forall>a \<in> set (update_rows (\<lambda>a. at_id a = aid) f as). at_id a = b \<longrightarrow> at_work_key a \<noteq> key)
      \<longleftrightarrow> (\<forall>a \<in> set as. at_id a = b \<longrightarrow> at_work_key a \<noteq> key)" for as
    using assms(2,3) by (induction as) auto
  ultimately show ?thesis using assms(1) by (simp add: foreign_def attempts_of_def update_attempt_def)
qed

lemma claim_apart:
  assumes "untouched key row atts L" and "claim sha fr k w lease run clk L = Inr (won, L')" and "k \<noteq> key"
  shows "untouched key row atts L' \<and> (\<forall>a. won = Some a \<longrightarrow> foreign key (at_id a) L')"
proof (cases won)
  case None
  with assms show ?thesis
    by (auto simp: claim_def Let_def result_elims split: option.splits if_splits sum.splits)
next
  case (Some a)
  with assms(2) obtain L1 where ins: "insert_attempt a L = Inr L1"
    and st: "set_state k PENDING CLAIMED (''claim:'' @ w) (clk 1) (clk 2) L1 = Inr L'" and a: "at_work_key a = k"
    by (auto simp: claim_def Let_def result_elims new_attempt_def split: option.splits if_splits sum.splits)
  from ins have L1: "items L1 = items L" "attempts L1 = attempts L @ [a]" "\<not> has_key at_id (at_id a) (attempts L)"
    by (auto simp: insert_attempt_def split: if_splits)
  have "at_id b \<noteq> at_id a" if "b \<in> set (attempts L)" for b
    using L1(3) that by (metis has_key_iff imageI)
  with set_state_untouched [OF st assms(3)] assms(1,3) a Some L1(1,2) show ?thesis
    by (auto simp: untouched_def foreign_def attempts_of_def)
qed

lemma advance_apart:
  assumes "apart key row atts aid L" and "advance aid to reason clk L = Inr L'"
  shows "apart key row atts aid L'"
proof -
  obtain a L1 where a: "require_attempt aid L = Inr a"
    and st: "set_state (at_work_key a) (at_state a) to reason (clk 0) (clk 1) L = Inr L1"
    and L': "L' = update_attempt aid (\<lambda>a. a\<lparr>at_state := to\<rparr>) L1"
    using assms(2) by (auto simp: advance_def result_elims split: if_splits)
  have "at_work_key a \<noteq> key" using require_attempt_Inr [OF a] assms(1) by (auto simp: apart_def foreign_def)
  from set_state_untouched [OF st this] assms(1) have "apart key row atts aid L1"
    by (auto simp: apart_def untouched_def foreign_def attempts_of_def)
  then show ?thesis unfolding L'
    using update_attempt_apart [of key aid L1 "\<lambda>a. a\<lparr>at_state := to\<rparr>" aid]
    by (auto simp: apart_def untouched_def)
qed

lemma commit_apart:
  assumes "apart key row atts aid L" and "commit aid ref reason clk L = Inr L'"
  shows "apart key row atts aid L'"
proof -
  obtain a L1 reason' where a: "require_attempt aid L = Inr a"
    and st: "set_state (at_work_key a) VALIDATED COMMITTED reason' (clk 0) (clk 1) L = Inr L1"
    and L': "L' = update_attempt aid (\<lambda>a. a\<lparr>at_state := COMMITTED, at_ended_at := Some (clk 2),
                at_terminal_status := Some COMMITTED, at_result_ref := Some ref\<rparr>) L1"
    using assms(2) by (auto simp: commit_def result_elims split: if_splits)
  have "at_work_key a \<noteq> key" using require_attempt_Inr [OF a] assms(1) by (auto simp: apart_def foreign_def)
  from set_state_untouched [OF st this] assms(1) have "apart key row atts aid L1"
    by (auto simp: apart_def untouched_def foreign_def attempts_of_def)
  then show ?thesis unfolding L'
    using update_attempt_apart [of key aid L1 "\<lambda>a. a\<lparr>at_state := COMMITTED, at_ended_at := Some (clk 2),
                at_terminal_status := Some COMMITTED, at_result_ref := Some ref\<rparr>" aid]
    by (auto simp: apart_def untouched_def)
qed

lemma fail_apart:
  assumes "apart key row atts aid L" and "fail aid d e reason ref clk L = Inr (st, L')"
  shows "apart key row atts aid L'"
proof -
  let ?g = "\<lambda>r. r\<lparr>wi_state := st, wi_retry_count := (if st = PENDING then wi_retry_count r + 1
                  else wi_retry_count r), wi_updated_at := clk 1\<rparr>"
  from fail_Inr [OF assms(2)] obtain a wi reason' where a: "a \<in> set (attempts L)" "at_id a = aid"
    and "d \<in> set [FAILED_RETRYABLE, FAILED_FINAL, FAILED_UNKNOWN]"
    and "find_row wi_key (at_work_key a) (items L) = Some wi"
    and "st = (if d = FAILED_RETRYABLE \<and> wi_retry_count wi + 1 \<le> wi_max_retries wi
          then PENDING else if d = FAILED_UNKNOWN then FAILED_UNKNOWN else FAILED_FINAL)"
    and L': "L' = log_transition (at_work_key a) (Some aid) (wi_state wi) st reason' (clk 2)
       (update_item (at_work_key a) ?g (update_attempt aid (end_failed d e ref (clk 0)) L))" .
  have "at_work_key a \<noteq> key" using a assms(1) by (auto simp: apart_def foreign_def)
  then have "find_row wi_key key (items L') = find_row wi_key key (items L)"
    unfolding L' by (simp add: find_row_update_other)
  moreover have "attempts L' = attempts (update_attempt aid (end_failed d e ref (clk 0)) L)" by (simp add: L')
  ultimately show ?thesis
    using assms(1) update_attempt_apart [of key aid L "end_failed d e ref (clk 0)" aid]
    by (auto simp: apart_def untouched_def foreign_def attempts_of_def end_failed_def)
qed

lemma work_key_for_still: "keeps (\<lambda>S. untouched key row atts (cs_ledger S)) (work_key_for R phase_id split tag c)"
  unfolding work_key_for_def
  by (rule keeps_on_ledger) (auto dest!: ensure_Inr simp: untouched_def attempts_of_def find_row_insert_ignore)

lemma core_only_apart: "core_only (\<lambda>S. apart key row atts aid (cs_ledger S))"
  unfolding core_only_def core_def by (auto intro: apart_same)

lemma settle_apart:
  fixes R :: "('s, 'e) campaign_runner" and key aid :: string and row :: work_item and atts :: "attempt list"
  defines "I \<equiv> \<lambda>S :: 's coord_state. apart key row atts aid (cs_ledger S)"
  shows "keeps I (settle_raised R phase_id k c spec aid start cls msg trace pages)"
    and "keeps I (settle_returned R phase_id k c spec aid start r trace pages)"
proof -
  have core: "core_only I" unfolding I_def by (rule core_only_apart)
  note docs = execution_epoch_core [OF core] keep_document_core [OF core]
  have failing: "keeps I (on_ledger (fail aid d e reason ref clk))" for d e reason ref clk
    unfolding I_def by (rule keeps_on_ledger) (simp, erule (1) fail_apart)
  have advancing: "keeps I (ledger_does (advance aid st reason clk))" for st reason clk
    unfolding I_def by (rule keeps_ledger_does) (simp, erule (1) advance_apart)
  have committing: "keeps I (ledger_does (commit aid ref reason clk))" for ref reason clk
    unfolding I_def by (rule keeps_ledger_does) (simp, erule (1) commit_apart)
  note ops = failing advancing committing
  show "keeps I (settle_raised R phase_id k c spec aid start cls msg trace pages)"
    unfolding settle_raised_def by (intro keeps_bind docs ops keeps_ret)
  show "keeps I (settle_returned R phase_id k c spec aid start r trace pages)"
    unfolding settle_returned_def Let_def by (intro keeps_bind docs ops keeps_ret keeps_lift triple_if)
qed

lemma run_claimed_still:
  "triple (\<lambda>S. apart key row atts (at_id att) (cs_ledger S)) (run_claimed R phase_id k question c wkey start att)
     (\<lambda>_ S. untouched key row atts (cs_ledger S)) (\<lambda>S. untouched key row atts (cs_ledger S))"
proof -
  have "keeps (\<lambda>S. apart key row atts (at_id att) (cs_ledger S)) (run_claimed R phase_id k question c wkey start att)"
    by (intro run_claimed_keeps keep_document_core core_only_apart settle_apart)
  then show ?thesis by (rule triple_post [OF triple_exc]) (simp_all add: apart_def)
qed

lemma execute_cell_still:
  assumes started: "wi_state row \<noteq> PENDING" "wi_key row = key"
  shows "keeps (\<lambda>S. untouched key row atts (cs_ledger S)) (execute_cell R phase_id split k question c)"
proof -
  let ?I = "\<lambda>S. untouched key row atts (cs_ledger S)"
  have claimed: "keeps ?I (sbind (on_ledger (claim sha fr wkey w lease run clk))
      (\<lambda>won. case won of None \<Rightarrow> sret (bare_outcome (cell_key c) ClaimedElsewhere)
         | Some att \<Rightarrow> run_claimed R phase_id k question c wkey start att))" if "wkey \<noteq> key" for sha fr wkey w lease run clk start
  proof (rule triple_bind)
    show "triple ?I (on_ledger (claim sha fr wkey w lease run clk))
        (\<lambda>won S. ?I S \<and> (\<forall>a. won = Some a \<longrightarrow> apart key row atts (at_id a) (cs_ledger S))) ?I"
    proof (rule tripleI)
      fix S won S' assume I: "?I S" and "on_ledger (claim sha fr wkey w lease run clk) S = (Inr won, S')"
      then obtain L where "claim sha fr wkey w lease run clk (cs_ledger S) = Inr (won, L)" "S' = S\<lparr>cs_ledger := L\<rparr>"
        by (auto simp: on_ledger_eq)
      with claim_apart [OF I this(1) that] show "?I S' \<and> (\<forall>a. won = Some a \<longrightarrow> apart key row atts (at_id a) (cs_ledger S'))"
        by (simp add: apart_def)
    qed (auto simp: on_ledger_eq)
    show "triple (\<lambda>S. ?I S \<and> (\<forall>a. won = Some a \<longrightarrow> apart key row atts (at_id a) (cs_ledger S)))
        (case won of None \<Rightarrow> sret (bare_outcome (cell_key c) ClaimedElsewhere)
         | Some att \<Rightarrow> run_claimed R phase_id k question c wkey start att) (\<lambda>_. ?I) ?I" for won
      by (cases won) (auto intro: triple_ret triple_pre [OF run_claimed_still])
  qed
  have "keeps ?I (\<lambda>S. case get_work_item wkey (cs_ledger S) of
         None \<Rightarrow> (Inr (bare_outcome (cell_key c) MissingItem), S)
       | Some item \<Rightarrow>
           if wi_state item \<noteq> PENDING then (Inr (bare_outcome (cell_key c) (AtState (wi_state item))), S)
           else
             sbind (on_ledger (claim (cn_sha R) (cn_fr R) wkey (cn_worker R) (cn_lease R) (rc_run (cn_config R))
                      (cn_clock R [k, 8])))
               (\<lambda>won. case won of
                  None \<Rightarrow> sret (bare_outcome (cell_key c) ClaimedElsewhere)
                | Some att \<Rightarrow> run_claimed R phase_id k question c wkey start att) S)" for wkey start
  proof (cases "wkey = key")
    case True
    with started show ?thesis by (intro keepsI) (auto simp: get_work_item_def untouched_def)
  next
    case False
    show ?thesis
      by (rule keepsI) (auto split: option.splits if_splits dest: keepsD [OF claimed [OF False]])
  qed
  then show ?thesis
    unfolding execute_cell_def by (intro keeps_bind keeps_lift work_key_for_still)
qed

lemma run_cells_still:
  assumes "get_work_item key (cs_ledger S) = Some row" and "wi_state row \<noteq> PENDING"
    and "run_cells R m phase_id split questions S = (res, S')"
  shows "get_work_item key (cs_ledger S') = Some row \<and> attempts_of key (cs_ledger S') = attempts_of key (cs_ledger S)"
proof -
  let ?I = "\<lambda>S'. untouched key row (attempts_of key (cs_ledger S)) (cs_ledger S')"
  have row: "wi_key row = key" using assms(1) by (auto simp: get_work_item_def dest: find_row_SomeD)
  have "?I S" using assms(1) by (simp add: untouched_def get_work_item_def)
  from keepsD [where I = ?I, OF run_cells_keeps this assms(3)] have "?I S'"
    using work_key_for_still execute_cell_still [OF assms(2) row] by blast
  then show ?thesis by (simp add: untouched_def get_work_item_def)
qed

subsection \<open>A run that finishes\<close>

text \<open>
  What the surroundings must do for a run to get through: the store takes what it is given, the epoch file is
  readable, the graph ends every session with documents and results that can be encoded, and the digest behind
  the ids has no collision.
\<close>

definition result_ok :: "cell_result \<Rightarrow> bool" where
  "result_ok r \<longleftrightarrow> (\<forall>v \<in> set (gr_checkpoints r) \<union> set (gr_records r) \<union> {gr_summary r}. encodable v)
     \<and> (\<forall>e \<in> set (gr_events r). encodable_dict e) \<and> summarize_events (gr_events r) \<noteq> None"

primrec session_ok :: "session \<Rightarrow> bool" where
  "session_ok (Ends reply trace pages) \<longleftrightarrow> (\<forall>v \<in> set trace. encodable v)
     \<and> (case reply of CellReturned r \<Rightarrow> result_ok r | CellRaised cls msg \<Rightarrow> True | CellAborted \<Rightarrow> False)"
| "session_ok (Saves kind doc rest) \<longleftrightarrow> (\<forall>saved. session_ok (rest saved))"

definition healthy :: "('s, 'e) campaign_runner \<Rightarrow> bool" where
  "healthy R \<longleftrightarrow> inj (cn_sha R)
     \<and> (\<forall>tag raw st. \<exists>ref st'. cn_put R tag raw st = (Inr ref, st'))
     \<and> (\<forall>k. \<exists>e. current_epoch R k False = Inr e) \<and> (\<forall>k. current_epoch R k True \<noteq> Inl EpochDecode)
     \<and> (\<forall>k key. encodable (PDict (durable_work_summary R k key)))
     \<and> (\<forall>k spec. session_ok (cn_graph R k spec))"

abbreviation succeeds :: "('s \<Rightarrow> bool) \<Rightarrow> ('s \<Rightarrow> ('e + 'a) \<times> 's) \<Rightarrow> ('a \<Rightarrow> 's \<Rightarrow> bool) \<Rightarrow> bool" where
  "succeeds P m Q \<equiv> triple P m Q (\<lambda>_. False)"

lemma succeedsI: "(\<And>S. P S \<Longrightarrow> \<exists>x S'. m S = (Inr x, S') \<and> Q x S') \<Longrightarrow> succeeds P m Q"
  by (rule tripleI) force+

lemma succeedsD: "succeeds P m Q \<Longrightarrow> P S \<Longrightarrow> \<exists>x S'. m S = (Inr x, S') \<and> Q x S'"
  by (cases "m S"; cases "fst (m S)") (auto dest: tripleD1 tripleD2)

lemma succeeds_on_ledger:
  assumes "\<And>S. P S \<Longrightarrow> \<exists>x L. op (cs_ledger S) = Inr (x, L) \<and> Q x (S\<lparr>cs_ledger := L\<rparr>)"
  shows "succeeds P (on_ledger op) Q"
  by (rule succeedsI) (use assms in \<open>fastforce simp: on_ledger_eq\<close>)

lemma succeeds_ledger_does:
  assumes "\<And>S. P S \<Longrightarrow> \<exists>L. op (cs_ledger S) = Inr L \<and> Q (S\<lparr>cs_ledger := L\<rparr>)"
  shows "succeeds P (ledger_does op) (\<lambda>_. Q)"
  unfolding ledger_does_def by (rule succeeds_on_ledger) (use assms in fastforce)

lemma succeeds_lift: "x = Inr y \<Longrightarrow> (\<And>S. P S \<Longrightarrow> Q y S) \<Longrightarrow> succeeds P (slift x) Q"
  by (simp add: triple_def slift_def)

text \<open>The epochs table changes in no operation of the state machine.\<close>

lemma epochs_same:
  "claim sha fr key w lease run clk L = Inr (won, L') \<Longrightarrow> epochs L' = epochs L"
  "advance aid to reason clk L = Inr L' \<Longrightarrow> epochs L' = epochs L"
  "commit aid ref reason clk L = Inr L' \<Longrightarrow> epochs L' = epochs L"
  "fail aid d e reason ref clk L = Inr (st, L') \<Longrightarrow> epochs L' = epochs L"
  "ensure_work_item sha fr dm c ep se mr clk L = Inr (key, L') \<Longrightarrow> epochs L' = epochs L"
  by (auto simp: claim_def advance_def commit_def fail_def ensure_work_item_def insert_attempt_def set_state_def
      log_transition_def update_attempt_def update_item_def Let_def result_elims
      split: option.splits if_splits sum.splits)

lemma core_epochs_document:
  assumes "healthy R" and "encodable v" and "\<And>S S'. I S \<Longrightarrow> core (cs_ledger S') = core (cs_ledger S) \<Longrightarrow>
      epochs (cs_ledger S') = epochs (cs_ledger S) \<Longrightarrow> I S'"
  shows "succeeds I (keep_document R tag kind key v) (\<lambda>_. I)"
proof -
  have raw: "encoded R v = Inr (render (cn_fr R) v)"
    using canonical_json_encodable [OF assms(2)] by (simp add: encoded_def)
  have put: "succeeds I (put_object R tag raw) (\<lambda>_. I)" for raw
  proof (rule succeedsI)
    fix S assume "I S"
    obtain ref st where "cn_put R tag raw (cs_store S) = (Inr ref, st)"
      using assms(1) by (fastforce simp: healthy_def)
    moreover have "I (S\<lparr>cs_store := st\<rparr>)" by (rule assms(3) [OF \<open>I S\<close>]) simp_all
    ultimately show "\<exists>x S'. put_object R tag raw S = (Inr x, S') \<and> I S'" by (simp add: put_object_def)
  qed
  have art: "succeeds I (ledger_does (\<lambda>L. Inr (register_artifact ref kind raw stored key clk L))) (\<lambda>_. I)"
    for ref raw stored clk
    by (rule succeeds_ledger_does, rule exI, rule conjI, rule refl, erule assms(3))
      (simp_all add: register_artifact_def core_def)
  show ?thesis
    unfolding keep_document_def
    by (rule triple_bind [OF succeeds_lift [OF raw] triple_bind [OF put triple_bind [OF art triple_ret]]])
qed

text \<open>
  The run holds work item \<open>key\<close> of the ledger \<open>L0\<close> through attempt \<open>aid\<close>, in state \<open>s\<close>, with the epochs \<open>es\<close>
  on record; and it has brought the item to its end.
\<close>

definition holds :: "('s, 'e) campaign_runner \<Rightarrow> ledger \<Rightarrow> string \<Rightarrow> string \<Rightarrow> lstate \<Rightarrow> cell_epoch list \<Rightarrow> 's coord_state \<Rightarrow> bool" where
  "holds R L0 key aid s es S \<longleftrightarrow> epochs (cs_ledger S) = es
     \<and> (\<exists>r. on_hand (cn_sha R) (cn_fr R) (cs_ledger S) r aid s \<and> wi_key r = key \<and> replaced r L0 (cs_ledger S))"

definition ended_states :: "lstate set" where
  "ended_states = {COMMITTED, FAILED_FINAL, FAILED_UNKNOWN}"

definition ended :: "('s, 'e) campaign_runner \<Rightarrow> ledger \<Rightarrow> string \<Rightarrow> cell_epoch list \<Rightarrow> 's coord_state \<Rightarrow> bool" where
  "ended R L0 key es S \<longleftrightarrow> epochs (cs_ledger S) = es \<and> ledger_inv (cn_sha R) (cn_fr R) (cs_ledger S)
     \<and> (\<exists>r. wi_key r = key \<and> wi_state r \<in> ended_states \<and> replaced r L0 (cs_ledger S))"

lemma holds_core:
  assumes "holds R L0 key aid s es S" and "core (cs_ledger S') = core (cs_ledger S)"
    and "epochs (cs_ledger S') = epochs (cs_ledger S)"
  shows "holds R L0 key aid s es S'"
proof -
  have "items (cs_ledger S') = items (cs_ledger S)" "attempts (cs_ledger S') = attempts (cs_ledger S)"
    using assms(2) by (simp_all add: core_def)
  with assms inv_core [OF _ assms(2)] show ?thesis
    by (auto simp: holds_def on_hand_def replaced_def)
qed

lemma holds_advance:
  assumes "to \<in> {MATERIALIZED, VALIDATED}" and "to \<in> set (legal s)"
  shows "succeeds (holds R L0 key aid s es) (ledger_does (advance aid to reason clk)) (\<lambda>_. holds R L0 key aid to es)"
proof (rule succeeds_ledger_does)
  fix S assume S: "holds R L0 key aid s es S"
  then obtain r where r: "on_hand (cn_sha R) (cn_fr R) (cs_ledger S) r aid s" "wi_key r = key" "replaced r L0 (cs_ledger S)"
    by (auto simp: holds_def)
  from advance_step [OF r(1) assms, of reason clk] obtain L' r' where
    L': "advance aid to reason clk (cs_ledger S) = Inr L'" "on_hand (cn_sha R) (cn_fr R) L' r' aid to"
      "r' = r\<lparr>wi_state := to, wi_updated_at := clk 0\<rparr>" "replaced r' (cs_ledger S) L'" by blast
  have "replaced r' L0 L'" using replaced_trans [OF r(3) L'(4)] L'(3) by simp
  with L' r(2) epochs_same(2) [OF L'(1)] S
  show "\<exists>L. advance aid to reason clk (cs_ledger S) = Inr L \<and> holds R L0 key aid to es (S\<lparr>cs_ledger := L\<rparr>)"
    by (auto simp: holds_def)
qed

lemma holds_commit:
  "succeeds (holds R L0 key aid VALIDATED es) (ledger_does (commit aid ref reason clk)) (\<lambda>_. ended R L0 key es)"
proof (rule succeeds_ledger_does)
  fix S assume S: "holds R L0 key aid VALIDATED es S"
  then obtain r where r: "on_hand (cn_sha R) (cn_fr R) (cs_ledger S) r aid VALIDATED" "wi_key r = key" "replaced r L0 (cs_ledger S)"
    by (auto simp: holds_def)
  from commit_step [OF r(1), of ref reason clk] obtain L' r' where
    L': "commit aid ref reason clk (cs_ledger S) = Inr L'" "ledger_inv (cn_sha R) (cn_fr R) L'"
      "r' = r\<lparr>wi_state := COMMITTED, wi_updated_at := clk 0\<rparr>" "replaced r' (cs_ledger S) L'" by blast
  have "replaced r' L0 L'" using replaced_trans [OF r(3) L'(4)] L'(3) by simp
  with L' r(2) epochs_same(3) [OF L'(1)] S
  show "\<exists>L. commit aid ref reason clk (cs_ledger S) = Inr L \<and> ended R L0 key es (S\<lparr>cs_ledger := L\<rparr>)"
    by (auto simp: holds_def ended_def ended_states_def intro!: exI [of _ r'])
qed

lemma holds_fail:
  assumes "in_progress s" and "d \<in> {FAILED_FINAL, FAILED_UNKNOWN}"
  shows "succeeds (holds R L0 key aid s es) (on_ledger (fail aid d e reason ref clk)) (\<lambda>_. ended R L0 key es)"
proof (rule succeeds_on_ledger)
  fix S assume S: "holds R L0 key aid s es S"
  then obtain r where r: "on_hand (cn_sha R) (cn_fr R) (cs_ledger S) r aid s" "wi_key r = key" "replaced r L0 (cs_ledger S)"
    by (auto simp: holds_def)
  have d: "d \<in> set [FAILED_RETRYABLE, FAILED_FINAL, FAILED_UNKNOWN]" using assms(2) by auto
  from fail_step [OF r(1) assms(1) d, of e reason ref clk] obtain st L' r' where
    L': "fail aid d e reason ref clk (cs_ledger S) = Inr (st, L')" "ledger_inv (cn_sha R) (cn_fr R) L'"
      "replaced r' (cs_ledger S) L'" "wi_key r' = wi_key r" "wi_state r' = st"
      "if st = PENDING then wi_retry_count r' = wi_retry_count r + 1 \<and> wi_retry_count r' \<le> wi_max_retries r
       else st \<in> {FAILED_FINAL, FAILED_UNKNOWN}" by blast
  have "st \<noteq> PENDING"
    using L'(1) assms(2) by (auto simp: fail_def Let_def result_elims split: option.splits if_splits)
  with L'(6) have "st \<in> ended_states" by (simp add: ended_states_def)
  moreover have "replaced r' L0 L'" by (rule replaced_trans [OF r(3) L'(3,4)])
  ultimately show "\<exists>x L. fail aid d e reason ref clk (cs_ledger S) = Inr (x, L) \<and> ended R L0 key es (S\<lparr>cs_ledger := L\<rparr>)"
    using L' r(2) epochs_same(4) [OF L'(1)] S by (auto simp: holds_def ended_def intro!: exI [of _ r'])
qed

text \<open>The epoch that is put on record, and the items that have one.\<close>

definition epoch_row :: "string \<Rightarrow> cell_epoch \<Rightarrow> bool" where
  "epoch_row key e \<longleftrightarrow> ce_work_key e = key \<and> ce_engine_epoch e \<noteq> []"

lemma current_epoch_nonempty: "current_epoch R k after = Inr e \<Longrightarrow> e \<noteq> []"
  by (auto simp: current_epoch_def read_epoch_def Let_def split: if_splits epoch_file.splits)

lemma holds_epoch:
  assumes ok: "healthy R" and start: "start \<noteq> []" and fresh: "find_row ce_work_key key es = None"
  shows "succeeds (holds R L0 key aid s es) (execution_epoch R k key start)
    (\<lambda>_ S. \<exists>e. epoch_row key e \<and> holds R L0 key aid s (es @ [e]) S)"
proof -
  obtain stop where stop: "end_epoch R k = Inr stop"
  proof (cases "current_epoch R k True")
    case (Inl a)
    with ok have "a = EpochRuntime" by (cases a) (auto simp: healthy_def)
    with Inl that show thesis by (simp add: end_epoch_def)
  qed (use that in \<open>simp add: end_epoch_def\<close>)
  let ?e = "recorded_epoch start stop"
  have ne: "?e \<noteq> []" using start by (simp add: recorded_epoch_def)
  have rec: "succeeds (holds R L0 key aid s es) (ledger_does (record_engine_epoch key ?e clk))
      (\<lambda>_ S. \<exists>e. epoch_row key e \<and> holds R L0 key aid s (es @ [e]) S)" for clk
  proof (rule succeeds_ledger_does)
    fix S assume S: "holds R L0 key aid s es S"
    let ?row = "\<lparr>ce_work_key = key, ce_engine_epoch = ?e, ce_recorded_at = clk 0\<rparr>"
    let ?L = "(cs_ledger S)\<lparr>epochs := es @ [?row]\<rparr>"
    have L: "record_engine_epoch key ?e clk (cs_ledger S) = Inr ?L"
      using S fresh by (simp add: record_engine_epoch_def holds_def)
    obtain r where r: "on_hand (cn_sha R) (cn_fr R) (cs_ledger S) r aid s" "wi_key r = key" "replaced r L0 (cs_ledger S)"
      using S by (auto simp: holds_def)
    have "core ?L = core (cs_ledger S)" by (simp add: core_def)
    from inv_core [OF _ this] r have "holds R L0 key aid s (es @ [?row]) (S\<lparr>cs_ledger := ?L\<rparr>)"
      by (auto simp: holds_def on_hand_def replaced_def)
    moreover have "epoch_row key ?row" using ne by (simp add: epoch_row_def)
    ultimately show "\<exists>L. record_engine_epoch key ?e clk (cs_ledger S) = Inr L
        \<and> (\<exists>e. epoch_row key e \<and> holds R L0 key aid s (es @ [e]) (S\<lparr>cs_ledger := L\<rparr>))"
      using L by blast
  qed
  show ?thesis
    unfolding execution_epoch_def stop sbind_lift by (rule triple_bind [OF rec triple_ret])
qed

lemma encodable_put:
  "encodable (PDict d) \<Longrightarrow> encodable x \<Longrightarrow> encodable (PDict (dict_put (KStr key) x d))"
  by (induction "KStr key" x d rule: dict_put.induct) auto

lemma encodable_measured: "healthy R \<Longrightarrow> encodable (PDict (measured R k key))"
  unfolding measured_def
  by (intro encodable_put) (auto simp: healthy_def latency_value_def joules_value_def simp del: encodable_entries_iff
      split: option.splits)

lemma encodable_payloads:
  assumes "healthy R" and "\<forall>v \<in> set trace. encodable v"
  shows "encodable (failure_payload R phase_id k c spec cls msg start epoch trace pages)"
    and "result_ok r \<Longrightarrow> encodable_dict counts \<Longrightarrow>
      encodable (cell_payload R phase_id k c spec r counts start epoch trace pages)"
proof -
  have simple: "encodable (latency_value R k)" by (simp add: latency_value_def)
  show "encodable (failure_payload R phase_id k c spec cls msg start epoch trace pages)"
    unfolding failure_payload_def split_def
    by (rule encodable_fields) (use assms encodable_measured [OF assms(1)] simple in \<open>simp add: encodable_dict_def\<close>)
  assume r: "result_ok r" "encodable_dict counts"
  have "encodable (str_dict counts)" by (rule encodable_fields [OF r(2)])
  moreover have "\<forall>e \<in> set (gr_events r). encodable (str_dict e)"
    using r(1) by (auto simp: result_ok_def intro: encodable_fields)
  ultimately show "encodable (cell_payload R phase_id k c spec r counts start epoch trace pages)"
    unfolding cell_payload_def split_def
    by (intro encodable_fields) (use assms encodable_measured [OF assms(1)] simple r(1) in
        \<open>auto simp: encodable_dict_def result_ok_def split: option.splits\<close>)
qed

lemma settle_ended:
  assumes ok: "healthy R" and start: "start \<noteq> []" and fresh: "find_row ce_work_key key es = None"
    and trace: "\<forall>v \<in> set trace. encodable v" and key: "sp_work_key spec = key"
  shows "succeeds (holds R L0 key aid CLAIMED es) (settle_raised R phase_id k c spec aid start cls msg trace pages)
      (\<lambda>_ S. \<exists>e. epoch_row key e \<and> ended R L0 key (es @ [e]) S)"
    and "result_ok r \<Longrightarrow> succeeds (holds R L0 key aid CLAIMED es) (settle_returned R phase_id k c spec aid start r trace pages)
      (\<lambda>_ S. \<exists>e. epoch_row key e \<and> ended R L0 key (es @ [e]) S)"
proof -
  let ?done = "\<lambda>S. \<exists>e. epoch_row key e \<and> ended R L0 key (es @ [e]) S"
  note epoch = holds_epoch [OF ok start fresh]
  have doc: "succeeds (holds R L0 key aid s es') (keep_document R tag kind wkey v) (\<lambda>_. holds R L0 key aid s es')"
    if "encodable v" for s es' tag kind wkey v
    by (rule core_epochs_document [OF ok that]) (rule holds_core)
  have finish: "succeeds (ended R L0 key (es @ [e])) (sret y) (\<lambda>_. ?done)" if "epoch_row key e" for e y
    by (rule triple_ret) (use that in blast)
  have failing: "succeeds (holds R L0 key aid s (es @ [e])) (sbind (on_ledger (fail aid d cls msg ref clk)) (\<lambda>_. sret y)) (\<lambda>_. ?done)"
    if "epoch_row key e" "in_progress s" "d \<in> {FAILED_FINAL, FAILED_UNKNOWN}" for e s d cls msg ref clk y
    by (rule triple_bind [OF holds_fail [OF that(2,3)] finish [OF that(1)]])
  have committing: "succeeds (holds R L0 key aid MATERIALIZED (es @ [e]))
      (sbind (ledger_does (advance aid VALIDATED [] clk)) (\<lambda>_. sbind (ledger_does (commit aid ref [] clk')) (\<lambda>_. sret y)))
      (\<lambda>_. ?done)" if "epoch_row key e" for e clk clk' ref y
    by (rule triple_bind [OF holds_advance triple_bind [OF holds_commit finish [OF that]]]) simp_all
  show "succeeds (holds R L0 key aid CLAIMED es) (settle_raised R phase_id k c spec aid start cls msg trace pages) (\<lambda>_. ?done)"
    unfolding settle_raised_def key
    by (rule triple_bind [OF epoch], rule triple_ex, rule triple_fact, rule triple_bind [OF doc failing])
      (auto intro: encodable_payloads [OF ok trace])
  assume r: "result_ok r"
  then obtain counts where counts: "summarize_events (gr_events r) = Some counts" by (auto simp: result_ok_def)
  note enc = encodable_payloads(2) [OF ok trace r summarize_events_encodable [OF counts]]
  show "succeeds (holds R L0 key aid CLAIMED es) (settle_returned R phase_id k c spec aid start r trace pages) (\<lambda>_. ?done)"
    unfolding settle_returned_def Let_def key counts option.case sbind_lift
    by (rule triple_bind [OF epoch], rule triple_ex, rule triple_fact,
        rule triple_bind [OF doc [OF enc]], rule triple_bind [OF holds_advance])
      (auto intro!: failing committing triple_if)
qed

lemma run_session_holds:
  assumes "session_ok s" and "I S"
    and I: "\<And>S S'. I S \<Longrightarrow> core (cs_ledger S') = core (cs_ledger S) \<Longrightarrow> epochs (cs_ledger S') = epochs (cs_ledger S) \<Longrightarrow> I S'"
  shows "\<exists>reply trace pages S'. run_session R k s n S = ((reply, trace, pages), S') \<and> I S' \<and> session_ok (Ends reply trace pages)"
  using assms(1,2)
proof (induction s arbitrary: n S)
  case (Saves kind doc rest)
  obtain res S1 where step: "keep_document R [k, 2, n] kind None doc S = (res, S1)"
    by (cases "keep_document R [k, 2, n] kind None doc S")
  have "core (cs_ledger S1) = core (cs_ledger S) \<and> epochs (cs_ledger S1) = epochs (cs_ledger S)"
    using step by (auto simp: keep_document_def sbind_def slift_def sret_def ledger_does_def on_ledger_def register_artifact_def
        core_def dest!: put_object_core split: prod.splits sum.splits)
  then have "I S1" using I [OF Saves.prems(2)] by blast
  with Saves.IH [OF rangeI] Saves.prems(1) step show ?case by simp
qed auto

lemma run_claimed_ends:
  assumes ok: "healthy R" and start: "start \<noteq> []" and fresh: "find_row ce_work_key key es = None"
  shows "succeeds (holds R L0 key (at_id att) CLAIMED es) (run_claimed R phase_id k question c key start att)
    (\<lambda>_ S. \<exists>e. epoch_row key e \<and> ended R L0 key (es @ [e]) S)"
proof (rule succeedsI)
  fix S assume S: "holds R L0 key (at_id att) CLAIMED es S"
  have "encodable (str_dict [(''run'', PStr (rc_run (cn_config R))), (''block'', PStr (ce_block c)),
      (''arm'', PStr (as_id (ce_arm c))), (''replicate'', PStr (ce_replicate c)), (''attempt'', PInt (at_ordinal att))])"
    by (rule encodable_fields) (simp add: encodable_dict_def)
  then obtain token where token: "cell_token R c att = Inr token"
    by (simp add: cell_token_def encoded_def canonical_json_encodable)
  let ?spec = "spec_of R c key question token"
  have key: "sp_work_key ?spec = key" by (simp add: spec_of_def)
  have "session_ok (cn_graph R k ?spec)" using ok by (simp add: healthy_def)
  then have "\<exists>reply trace pages S'. run_session R k (cn_graph R k ?spec) 0 S = ((reply, trace, pages), S')
      \<and> holds R L0 key (at_id att) CLAIMED es S' \<and> session_ok (Ends reply trace pages)"
    by (rule run_session_holds [where I = "holds R L0 key (at_id att) CLAIMED es", OF _ S]) (rule holds_core)
  then obtain reply trace pages S1 where run: "run_session R k (cn_graph R k ?spec) 0 S = ((reply, trace, pages), S1)"
    and S1: "holds R L0 key (at_id att) CLAIMED es S1" and fine: "session_ok (Ends reply trace pages)" by blast
  have trace: "\<forall>v \<in> set trace. encodable v" using fine by simp
  show "\<exists>x S'. run_claimed R phase_id k question c key start att S = (Inr x, S')
      \<and> (\<exists>e. epoch_row key e \<and> ended R L0 key (es @ [e]) S')"
  proof (cases reply)
    case (CellReturned r)
    with fine have "result_ok r" by simp
    from settle_ended(2) [OF ok start fresh trace key this, THEN succeedsD, OF S1] CellReturned run show ?thesis
      by (simp add: run_claimed_def token Let_def)
  next
    case (CellRaised cls msg)
    from settle_ended(1) [OF ok start fresh trace key, THEN succeedsD, OF S1] CellRaised run show ?thesis
      by (simp add: run_claimed_def token Let_def)
  qed (use fine in simp)
qed

text \<open>An item that has left PENDING; and how far a run over the keys \<open>K\<close> has got, the items \<open>X\<close> being begun before.\<close>

definition begun :: "string \<Rightarrow> ledger \<Rightarrow> bool" where
  "begun key L \<longleftrightarrow> (\<exists>r. find_row wi_key key (items L) = Some r \<and> wi_state r \<noteq> PENDING)"

definition progressed :: "('s, 'e) campaign_runner \<Rightarrow> string set \<Rightarrow> string set \<Rightarrow> ledger \<Rightarrow> bool" where
  "progressed R X K L \<longleftrightarrow> ledger_inv (cn_sha R) (cn_fr R) L \<and> (\<forall>e \<in> set (epochs L). begun (ce_work_key e) L)
     \<and> (\<forall>r \<in> set (items L). wi_state r = PENDING \<or> wi_key r \<in> X
          \<or> (wi_key r \<in> K \<and> wi_state r \<in> ended_states \<and> (\<exists>e \<in> set (epochs L). epoch_row (wi_key r) e)))"

lemma key_of_cell_is: "work_key (cn_sha R) (cn_fr R) (cell_coordinates (cn_config R) phase_id split c) [] = Inr (key_of_cell R phase_id split c)"
  using work_key_total [of "cn_sha R" "cn_fr R" "cell_coordinates (cn_config R) phase_id split c" "[]"]
  by (auto simp: key_of_cell_def)

lemma begun_insert: "begun key L \<Longrightarrow> items L' = insert_ignore wi_key r (items L) \<Longrightarrow> begun key L'"
  unfolding begun_def using find_row_insert_ignore by metis

lemma work_key_for_progressed:
  assumes "progressed R X K (cs_ledger S)"
  shows "\<exists>S'. work_key_for R phase_id split tag c S = (Inr (key_of_cell R phase_id split c), S')
    \<and> progressed R X K (cs_ledger S') \<and> get_work_item (key_of_cell R phase_id split c) (cs_ledger S') \<noteq> None
    \<and> attempts (cs_ledger S') = attempts (cs_ledger S) \<and> cs_store S' = cs_store S"
proof -
  let ?key = "key_of_cell R phase_id split c" and ?L = "cs_ledger S"
  let ?row = "\<lparr>wi_key = ?key, wi_coord = cell_coordinates (cn_config R) phase_id split c, wi_side_effecting = True,
             wi_max_retries = cn_max_retries R, wi_retry_count = 0, wi_state = PENDING,
             wi_created_at = cn_clock R tag 0, wi_updated_at = cn_clock R tag 0\<rparr>"
  let ?L' = "?L\<lparr>items := insert_ignore wi_key ?row (items ?L)\<rparr>"
  have run: "ensure_work_item (cn_sha R) (cn_fr R) (cn_max_retries R) (cell_coordinates (cn_config R) phase_id split c) []
      True None (cn_clock R tag) ?L = Inr (?key, ?L')"
    by (simp add: ensure_work_item_def key_of_cell_is)
  have "ledger_inv (cn_sha R) (cn_fr R) ?L'" using ensure_inv [OF _ run] assms by (simp add: progressed_def)
  moreover have "\<forall>e \<in> set (epochs ?L'). begun (ce_work_key e) ?L'"
    using assms begun_insert [of _ ?L ?L' ?row] by (simp add: progressed_def)
  moreover have "set (items ?L') \<subseteq> insert ?row (set (items ?L))" by (auto simp: insert_ignore_def)
  ultimately have "progressed R X K ?L'" using assms by (auto simp: progressed_def)
  moreover have "get_work_item ?key ?L' \<noteq> None"
    by (auto simp: get_work_item_def find_row_None insert_ignore_def has_key_iff)
  ultimately show ?thesis using run by (simp add: work_key_for_def on_ledger_def)
qed

lemma find_row_replaced:
  assumes "replaced r' L L'" and "find_row wi_key (wi_key r') (items L) \<noteq> None"
  shows "find_row wi_key k (items L') = (if k = wi_key r' then Some r' else find_row wi_key k (items L))"
proof -
  have "find_row wi_key k (update_rows (\<lambda>x. wi_key x = wi_key r') (\<lambda>_. r') t)
      = (if k = wi_key r' then (if find_row wi_key k t = None then None else Some r') else find_row wi_key k t)" for t
    by (induction t) auto
  with assms show ?thesis by (auto simp: replaced_def)
qed

lemma ended_progressed:
  assumes prog: "progressed R X K L" and row: "find_row wi_key key (items L) \<noteq> None" and key: "key \<in> K"
    and e: "epoch_row key e" and fin: "ended R L key (epochs L @ [e]) S"
  shows "progressed R X K (cs_ledger S) \<and> begun key (cs_ledger S)"
proof -
  obtain r where r: "wi_key r = key" "wi_state r \<in> ended_states" "replaced r L (cs_ledger S)"
    and inv: "ledger_inv (cn_sha R) (cn_fr R) (cs_ledger S)" and eps: "epochs (cs_ledger S) = epochs L @ [e]"
    using fin by (auto simp: ended_def)
  note look = find_row_replaced [OF r(3), unfolded r(1), OF row]
  have started: "wi_state r \<noteq> PENDING" using r(2) by (auto simp: ended_states_def)
  have begun: "begun key (cs_ledger S)" "begun k L \<Longrightarrow> begun k (cs_ledger S)" for k
    using look started by (auto simp: begun_def)
  have "wi_state x = PENDING \<or> wi_key x \<in> X
      \<or> (wi_key x \<in> K \<and> wi_state x \<in> ended_states \<and> (\<exists>e \<in> set (epochs (cs_ledger S)). epoch_row (wi_key x) e))"
    if "x \<in> set (items (cs_ledger S))" for x
  proof (cases "wi_key x = key")
    case True
    then have "x = r" using find_item_keyed [OF inv that] look by simp
    with True key r(2) e eps show ?thesis by auto
  next
    case False
    then have "x \<in> set (items L)" using find_item_keyed [OF inv that] look by (auto dest: find_row_SomeD)
    with prog eps show ?thesis by (auto simp: progressed_def)
  qed
  moreover have "\<forall>x \<in> set (epochs (cs_ledger S)). begun (ce_work_key x) (cs_ledger S)"
    using prog begun e by (auto simp: eps progressed_def epoch_row_def)
  ultimately show ?thesis using inv begun(1) by (simp add: progressed_def)
qed

lemma execute_cell_progress:
  fixes R :: "('s, 'e) campaign_runner"
  assumes ok: "healthy R" and key: "key_of_cell R phase_id split c \<in> K"
  shows "succeeds (\<lambda>S. progressed R X K (cs_ledger S)) (execute_cell R phase_id split k question c)
    (\<lambda>_ S. progressed R X K (cs_ledger S) \<and> begun (key_of_cell R phase_id split c) (cs_ledger S))"
proof (rule succeedsI)
  let ?key = "key_of_cell R phase_id split c"
  fix S :: "'s coord_state" assume "progressed R X K (cs_ledger S)"
  from work_key_for_progressed [OF this, of phase_id split "[k, 7]" c] obtain S1 where
    S1: "work_key_for R phase_id split [k, 7] c S = (Inr ?key, S1)" "progressed R X K (cs_ledger S1)"
      "get_work_item ?key (cs_ledger S1) \<noteq> None" by blast
  then obtain item where item: "get_work_item ?key (cs_ledger S1) = Some item" by blast
  then have row: "item \<in> set (items (cs_ledger S1))" "wi_key item = ?key"
    by (auto simp: get_work_item_def dest: find_row_SomeD)
  obtain start where start: "current_epoch R k False = Inr start"
    using ok unfolding healthy_def by blast
  have ne: "start \<noteq> []" by (rule current_epoch_nonempty [OF start])
  show "\<exists>x S'. execute_cell R phase_id split k question c S = (Inr x, S')
      \<and> progressed R X K (cs_ledger S') \<and> begun ?key (cs_ledger S')"
  proof (cases "wi_state item = PENDING")
    case False
    with S1 item start show ?thesis
      by (auto simp: execute_cell_def sbind_def slift_def begun_def get_work_item_def)
  next
    case True
    have inv: "ledger_inv (cn_sha R) (cn_fr R) (cs_ledger S1)" using S1(2) by (simp add: progressed_def)
    have "inj (cn_sha R)" using ok by (simp add: healthy_def)
    from claim_step [OF this inv row(1) True, unfolded row(2)] obtain att L r where
      claim: "claim (cn_sha R) (cn_fr R) ?key (cn_worker R) (cn_lease R) (rc_run (cn_config R)) (cn_clock R [k, 8]) (cs_ledger S1)
          = Inr (Some att, L)"
      and held: "on_hand (cn_sha R) (cn_fr R) L r (at_id att) CLAIMED"
        "r = item\<lparr>wi_state := CLAIMED, wi_updated_at := cn_clock R [k, 8] 1\<rparr>" "replaced r (cs_ledger S1) L"
      by blast
    have "holds R (cs_ledger S1) ?key (at_id att) CLAIMED (epochs (cs_ledger S1)) (S1\<lparr>cs_ledger := L\<rparr>)"
      using held row(2) epochs_same(1) [OF claim] by (auto simp: holds_def)
    moreover have "find_row ce_work_key ?key (epochs (cs_ledger S1)) = None"
      unfolding find_row_None using S1(2) item True by (force simp: progressed_def begun_def get_work_item_def)
    ultimately obtain out S2 e where run: "run_claimed R phase_id k question c ?key start att (S1\<lparr>cs_ledger := L\<rparr>) = (Inr out, S2)"
      and e: "epoch_row ?key e" "ended R (cs_ledger S1) ?key (epochs (cs_ledger S1) @ [e]) S2"
      using run_claimed_ends [OF ok ne, THEN succeedsD] by blast
    have "find_row wi_key ?key (items (cs_ledger S1)) \<noteq> None" using item by (simp add: get_work_item_def)
    from ended_progressed [OF S1(2) this key e] run claim S1(1) item True start show ?thesis
      by (simp add: execute_cell_def sbind_def slift_def on_ledger_def)
  qed
qed

text \<open>Reading the states: every committed reference of the ledger can be checked.\<close>

definition checkable :: "('s, 'e) campaign_runner \<Rightarrow> 's coord_state \<Rightarrow> bool" where
  "checkable R S \<longleftrightarrow> (\<forall>a \<in> set (attempts (cs_ledger S)). at_state a = COMMITTED \<longrightarrow>
     (\<forall>ref. at_result_ref a = Some ref \<longrightarrow> ref = [] \<or> (\<exists>good. cn_verify R ref (cs_store S) = Inr good)))"

text \<open>What the run relies on: a cell read as terminal has been begun.\<close>

definition state_known :: "('s, 'e) campaign_runner \<Rightarrow> string \<Rightarrow> string \<Rightarrow> sched_cell \<Rightarrow> string \<times> lstate \<Rightarrow> 's coord_state \<Rightarrow> bool" where
  "state_known R phase_id split c kv S \<longleftrightarrow> fst kv = cell_key c
     \<and> (snd kv \<in> set terminal_states \<longrightarrow> begun (key_of_cell R phase_id split c) (cs_ledger S))"

definition readable_states :: "('s, 'e) campaign_runner \<Rightarrow> string set \<Rightarrow> string set \<Rightarrow> 's coord_state \<Rightarrow> bool" where
  "readable_states R X K S \<longleftrightarrow> progressed R X K (cs_ledger S) \<and> checkable R S"

lemma committed_ref_attempt:
  assumes "committed_ref key L = Some ref"
  shows "\<exists>a \<in> set (attempts L). at_work_key a = key \<and> at_state a = COMMITTED \<and> at_result_ref a = Some ref"
proof -
  obtain a where "List.find (\<lambda>a. at_work_key a = key \<and> at_state a = COMMITTED) (attempts L) = Some a"
    "at_result_ref a = Some ref"
    using assms by (auto simp: committed_ref_def split: option.splits)
  then show ?thesis by (auto simp: find_Some_iff)
qed

lemma begun_keeps_work_key: "keeps (\<lambda>S. begun key (cs_ledger S)) (work_key_for R phase_id split tag c)"
  unfolding work_key_for_def
  by (rule keeps_on_ledger) (auto dest!: ensure_Inr simp: begun_def find_row_insert_ignore)

lemma read_cell_state_known:
  fixes R :: "('s, 'e) campaign_runner"
  shows "succeeds (readable_states R X K) (read_cell_state R phase_id split (i, c))
    (\<lambda>kv S. readable_states R X K S \<and> state_known R phase_id split c kv S)"
proof (rule succeedsI)
  let ?key = "key_of_cell R phase_id split c"
  fix S :: "'s coord_state" assume S: "readable_states R X K S"
  from work_key_for_progressed [of R X K S phase_id split "[0, 9, i]" c] S obtain S1 where
    S1: "work_key_for R phase_id split [0, 9, i] c S = (Inr ?key, S1)" "progressed R X K (cs_ledger S1)"
      "get_work_item ?key (cs_ledger S1) \<noteq> None" "attempts (cs_ledger S1) = attempts (cs_ledger S)" "cs_store S1 = cs_store S"
    by (auto simp: readable_states_def)
  then obtain item where item: "get_work_item ?key (cs_ledger S1) = Some item" by blast
  have check: "checkable R S1" using S S1(4,5) by (simp add: checkable_def readable_states_def)
  have good: "readable_states R X K S1" using S1(2) check by (simp add: readable_states_def)
  have known: "state_known R phase_id split c (cell_key c, st) S1" if "st = wi_state item \<or> st = PENDING" for st
    using that item by (auto simp: state_known_def begun_def get_work_item_def terminal_states_def)
  show "\<exists>kv S'. read_cell_state R phase_id split (i, c) S = (Inr kv, S') \<and> readable_states R X K S' \<and> state_known R phase_id split c kv S'"
  proof (cases "wi_state item = COMMITTED")
    case False
    with S1(1) item good known show ?thesis by (simp add: read_cell_state_def sbind_def)
  next
    case True
    have verifies: "\<exists>g. cn_verify R ref (cs_store S1) = Inr g" if "committed_ref ?key (cs_ledger S1) = Some ref" "ref \<noteq> []" for ref
      using committed_ref_attempt [OF that(1)] check that(2) unfolding checkable_def by blast
    note eqs = read_cell_state_def sbind_def S1(1) item True
    show ?thesis
    proof (cases "committed_ref ?key (cs_ledger S1)")
      case None
      then show ?thesis using good known [of PENDING] by (simp add: eqs)
    next
      case (Some ref)
      show ?thesis
      proof (cases "ref = []")
        case True
        with Some show ?thesis using good known [of PENDING] by (simp add: eqs)
      next
        case False
        with verifies [OF Some] obtain g where "cn_verify R ref (cs_store S1) = Inr g" by blast
        with Some False show ?thesis using good known [of PENDING] known [of COMMITTED] True by (cases g) (simp_all add: eqs)
      qed
    qed
  qed
qed

lemma triple_smap_all:
  assumes step: "\<And>x. x \<in> set xs \<Longrightarrow> triple I (f x) (\<lambda>y S. I S \<and> Q x y S) E"
    and stable: "\<And>x y z. z \<in> set xs \<Longrightarrow> triple (\<lambda>S. I S \<and> Q x y S) (f z) (\<lambda>_. Q x y) E"
  shows "triple I (smap f xs) (\<lambda>ys S. I S \<and> list_all2 (\<lambda>x y. Q x y S) xs ys) E"
  using assms
proof (induction xs)
  case Nil
  then show ?case by (simp add: triple_def)
next
  case (Cons x xs)
  have keep: "triple (\<lambda>S. I S \<and> Q x y S) (smap f xs) (\<lambda>_ S. I S \<and> Q x y S) E" for y
  proof (rule triple_smap)
    fix z assume z: "z \<in> set xs"
    show "triple (\<lambda>S. I S \<and> Q x y S) (f z) (\<lambda>_ S. I S \<and> Q x y S) E"
    proof (rule tripleI)
      fix S w S' assume S: "I S \<and> Q x y S" "f z S = (Inr w, S')"
      have "I S'" using tripleD1 [OF Cons.prems(1) _ S(2)] S(1) z by simp
      moreover have "Q x y S'" using tripleD1 [OF Cons.prems(2) _ S(2)] S(1) z by simp
      ultimately show "I S' \<and> Q x y S'" by blast
    next
      fix S e S' assume S: "I S \<and> Q x y S" "f z S = (Inl e, S')"
      show "E S'" using tripleD2 [OF Cons.prems(1) _ S(2)] S(1) z by simp
    qed
  qed
  have rest: "triple I (smap f xs) (\<lambda>ys S. I S \<and> list_all2 (\<lambda>x y. Q x y S) xs ys) E"
    by (rule Cons.IH) (use Cons.prems in auto)
  have "smap f (x # xs) = sbind (f x) (\<lambda>y. sbind (smap f xs) (\<lambda>ys. sret (y # ys)))" by (simp add: fun_eq_iff)
  moreover have "triple (\<lambda>S. I S \<and> Q x y S) (smap f xs)
      (\<lambda>ys S. (I S \<and> Q x y S) \<and> list_all2 (\<lambda>x y. Q x y S) xs ys) E" for y
  proof (rule tripleI)
    fix S ys S' assume "I S \<and> Q x y S" "smap f xs S = (Inr ys, S')"
    then show "(I S' \<and> Q x y S') \<and> list_all2 (\<lambda>x y. Q x y S') xs ys"
      using tripleD1 [OF keep] tripleD1 [OF rest] by blast
  next
    fix S e S' assume "I S \<and> Q x y S" "smap f xs S = (Inl e, S')"
    then show "E S'" using tripleD2 [OF rest] by blast
  qed
  then have "triple I (sbind (f x) (\<lambda>y. sbind (smap f xs) (\<lambda>ys. sret (y # ys))))
      (\<lambda>ys S. I S \<and> list_all2 (\<lambda>x y. Q x y S) (x # xs) ys) E"
    by (rule triple_bind [OF Cons.prems(1) triple_bind [OF _ triple_ret], rotated]) auto
  ultimately show ?case by simp
qed

lemma read_cell_state_stable:
  "triple (\<lambda>S. readable_states R X K S \<and> state_known R phase_id split c kv S) (read_cell_state R phase_id split ic)
     (\<lambda>_. state_known R phase_id split c kv) (\<lambda>_. False)"
proof (rule tripleI)
  fix S y S' assume S: "readable_states R X K S \<and> state_known R phase_id split c kv S"
    and run: "read_cell_state R phase_id split ic S = (Inr y, S')"
  have "begun key (cs_ledger S) \<Longrightarrow> begun key (cs_ledger S')" for key
    using keepsD [OF read_cell_state_keeps [OF begun_keeps_work_key] _ run] by blast
  with S show "state_known R phase_id split c kv S'" by (simp add: state_known_def)
next
  fix S e S' assume S: "readable_states R X K S \<and> state_known R phase_id split c kv S"
    and run: "read_cell_state R phase_id split ic S = (Inl e, S')"
  obtain i d where "ic = (i, d)" by (cases ic)
  with tripleD2 [OF read_cell_state_known] S run show False by blast
qed

lemma read_cell_states_known:
  fixes R :: "('s, 'e) campaign_runner"
  assumes "distinct (map cell_key (sched_cells m))"
  shows "succeeds (readable_states R X K) (read_cell_states R phase_id split m)
    (\<lambda>states S. readable_states R X K S \<and> (\<forall>c \<in> set (sched_cells m). \<exists>st. map_of states (cell_key c) = Some st
       \<and> (st \<in> set terminal_states \<longrightarrow> begun (key_of_cell R phase_id split c) (cs_ledger S))))"
proof -
  let ?cells = "sched_cells m"
  have found: "\<exists>st. map_of (dict_of kvs) (cell_key c) = Some st
       \<and> (st \<in> set terminal_states \<longrightarrow> begun (key_of_cell R phase_id split c) (cs_ledger S))"
    if all: "list_all2 (\<lambda>ic kv. state_known R phase_id split (snd ic) kv S) (enumerate 0 ?cells) kvs" and c: "c \<in> set ?cells"
    for kvs c and S :: "'s coord_state"
  proof -
    have "length kvs = length ?cells" using list_all2_lengthD [OF all] by simp
    have keys: "map fst kvs = map cell_key ?cells"
    proof (rule nth_equalityI)
      fix i assume "i < length (map fst kvs)"
      then show "map fst kvs ! i = map cell_key ?cells ! i"
        using list_all2_nthD2 [OF all, of i] \<open>length kvs = _\<close> by (simp add: state_known_def nth_enumerate_eq)
    qed (simp add: \<open>length kvs = _\<close>)
    then have dict: "dict_of kvs = kvs" using assms dict_of_distinct [of kvs] by simp
    obtain i where i: "i < length ?cells" "?cells ! i = c" using c by (auto simp: in_set_conv_nth)
    then have "state_known R phase_id split c (kvs ! i) S"
      using list_all2_nthD [OF all, of i] by (simp add: nth_enumerate_eq)
    moreover from this have "map_of kvs (cell_key c) = Some (snd (kvs ! i))"
      using keys assms i \<open>length kvs = _\<close> by (intro map_of_is_SomeI) (auto simp: state_known_def in_set_conv_nth prod_eq_iff)
    ultimately show ?thesis by (auto simp: dict state_known_def)
  qed
  have "succeeds (readable_states R X K) (smap (read_cell_state R phase_id split) (enumerate 0 ?cells))
    (\<lambda>kvs S. readable_states R X K S \<and> list_all2 (\<lambda>ic kv. state_known R phase_id split (snd ic) kv S) (enumerate 0 ?cells) kvs)"
  proof (rule triple_smap_all)
    fix ic :: "nat \<times> sched_cell"
    show "succeeds (readable_states R X K) (read_cell_state R phase_id split ic)
        (\<lambda>kv S. readable_states R X K S \<and> state_known R phase_id split (snd ic) kv S)"
      using read_cell_state_known [of R X K phase_id split "fst ic" "snd ic"] by simp
  qed (rule read_cell_state_stable)
  then show ?thesis
    unfolding read_cell_states_def by (rule triple_bind, intro triple_ret) (use found in blast)
qed

lemma execute_cell_begun: "keeps (\<lambda>S. begun key (cs_ledger S)) (execute_cell R phase_id split k question c)"
proof (rule keepsI, goal_cases)
  case (1 S res S')
  then obtain row where row: "find_row wi_key key (items (cs_ledger S)) = Some row" "wi_state row \<noteq> PENDING"
    by (auto simp: begun_def)
  then have "untouched key row (attempts_of key (cs_ledger S)) (cs_ledger S)" by (simp add: untouched_def)
  with keepsD [OF execute_cell_still [OF row(2)] _ 1(2)] find_row_SomeD [OF row(1)]
  have "untouched key row (attempts_of key (cs_ledger S)) (cs_ledger S')" by blast
  with row(2) show ?case by (auto simp: begun_def untouched_def)
qed

lemma run_queue_progress:
  fixes R :: "('s, 'e) campaign_runner"
  assumes ok: "healthy R" and free: "cn_max_cells R = None" "\<And>k. \<not> cn_stop R k"
    and "distinct (map cell_key cs)" and "key_of_cell R phase_id split ` set cs \<subseteq> K"
    and "\<forall>c \<in> set cs. map_of questions (ce_task c) \<noteq> None" and "progressed R X K (cs_ledger S)"
    and "\<forall>c \<in> set cs. outcome_terminal (map_of states (cell_key c)) \<longrightarrow> begun (key_of_cell R phase_id split c) (cs_ledger S)"
  shows "\<exists>outs S'. run_queue R phase_id split questions cs k states outcomes S = (Inr outs, S') \<and> progressed R X K (cs_ledger S')
    \<and> (\<forall>c \<in> set cs. begun (key_of_cell R phase_id split c) (cs_ledger S'))
    \<and> (\<forall>key. begun key (cs_ledger S) \<longrightarrow> begun key (cs_ledger S'))"
  using assms(4-8)
proof (induction cs arbitrary: k states outcomes S)
  case (Cons c cs)
  let ?key = "key_of_cell R phase_id split"
  show ?case
  proof (cases "outcome_terminal (map_of states (cell_key c))")
    case True
    with Cons.prems have "begun (?key c) (cs_ledger S)" by simp
    with Cons.IH [of S states k outcomes] Cons.prems True show ?thesis by fastforce
  next
    case False
    obtain question where q: "map_of questions (ce_task c) = Some question" using Cons.prems(3) by auto
    have "?key c \<in> K" using Cons.prems(2) by simp
    from succeedsD [OF execute_cell_progress [OF ok this] Cons.prems(4), of k question] obtain out S1 where
      run: "execute_cell R phase_id split k question c S = (Inr out, S1)"
      and S1: "progressed R X K (cs_ledger S1)" "begun (?key c) (cs_ledger S1)" by blast
    have mono: "begun key (cs_ledger S) \<Longrightarrow> begun key (cs_ledger S1)" for key
      by (rule keepsD [OF execute_cell_begun _ run])
    let ?states = "dict_put (cell_key c) (oc_state out) states"
    have "\<forall>d \<in> set cs. outcome_terminal (map_of ?states (cell_key d)) \<longrightarrow> begun (?key d) (cs_ledger S1)"
      using Cons.prems(1,5) mono by (auto simp: image_iff)
    with Cons.IH [of S1 ?states "Suc k" "outcomes @ [out]"] Cons.prems S1(1) obtain outs S' where
      rest: "run_queue R phase_id split questions cs (Suc k) ?states (outcomes @ [out]) S1 = (Inr outs, S')"
        "progressed R X K (cs_ledger S')" "\<forall>c \<in> set cs. begun (?key c) (cs_ledger S')"
        "\<forall>key. begun key (cs_ledger S1) \<longrightarrow> begun key (cs_ledger S')" by auto
    have "run_queue R phase_id split questions (c # cs) k states outcomes S = (Inr outs, S')"
      using False free q run rest(1) by (simp add: sbind_def)
    with rest(2,3,4) S1(2) mono show ?thesis by auto
  qed
qed auto

lemma mset_cells_to_run: "mset (cells_to_run cfg m) \<subseteq># mset (sched_cells m)"
proof -
  have "mset (concat (map (\<lambda>b. sort_key ce_order (bl_cells b)) (filter (owns cfg) bs))) \<subseteq># mset (concat (map bl_cells bs))" for bs
    by (induction bs) (auto intro: subset_mset.add_mono subset_mset.add_increasing)
  then show ?thesis by (simp add: cells_to_run_def sched_cells_def)
qed

lemma distinct_cells_to_run:
  assumes "distinct (map cell_key (sched_cells m))"
  shows "distinct (map cell_key (cells_to_run cfg m))"
proof -
  have "mset (map cell_key (cells_to_run cfg m)) \<subseteq># mset (map cell_key (sched_cells m))"
    using image_mset_subseteq_mono [OF mset_cells_to_run, of cell_key] by simp
  then obtain M where "mset (map cell_key (sched_cells m)) = mset (map cell_key (cells_to_run cfg m)) + M"
    by (metis subset_mset.le_iff_add)
  moreover obtain zs where "M = mset zs" by (metis ex_mset)
  ultimately have "mset (map cell_key (sched_cells m)) = mset (map cell_key (cells_to_run cfg m) @ zs)" by simp
  from mset_eq_imp_distinct_iff [OF this] assms show ?thesis by simp
qed

lemma run_cells_all:
  fixes R :: "('s, 'e) campaign_runner"
  assumes ok: "healthy R" and free: "cn_max_cells R = None" "\<And>k. \<not> cn_stop R k"
    and match: "manifest_matches (cn_config R) m" and dist: "distinct (map cell_key (sched_cells m))"
    and qs: "\<forall>c \<in> set (cells_to_run (cn_config R) m). map_of questions (ce_task c) \<noteq> None"
    and S: "readable_states R X (key_of_cell R phase_id split ` set (cells_to_run (cn_config R) m)) S"
  shows "\<exists>outs S'. run_cells R m phase_id split questions S = (Inr outs, S')
    \<and> progressed R X (key_of_cell R phase_id split ` set (cells_to_run (cn_config R) m)) (cs_ledger S')
    \<and> (\<forall>c \<in> set (cells_to_run (cn_config R) m). begun (key_of_cell R phase_id split c) (cs_ledger S'))"
proof -
  let ?lane = "cells_to_run (cn_config R) m"
  let ?K = "key_of_cell R phase_id split ` set ?lane"
  obtain states S1 where read: "read_cell_states R phase_id split m S = (Inr states, S1)"
    and S1: "readable_states R X ?K S1" "\<forall>c \<in> set (sched_cells m). \<exists>st. map_of states (cell_key c) = Some st
       \<and> (st \<in> set terminal_states \<longrightarrow> begun (key_of_cell R phase_id split c) (cs_ledger S1))"
    using succeedsD [OF read_cell_states_known [OF dist, of R X ?K phase_id split] S] by blast
  have sub: "set ?lane \<subseteq> set (sched_cells m)" using set_mset_mono [OF mset_cells_to_run, of "cn_config R" m] by simp
  let ?states = "map (\<lambda>(key, st). (key, AtState st)) states"
  have "map_of ?states key = map_option AtState (map_of states key)" for key
    by (induction states) auto
  then have "\<forall>c \<in> set ?lane. outcome_terminal (map_of ?states (cell_key c)) \<longrightarrow> begun (key_of_cell R phase_id split c) (cs_ledger S1)"
    using S1(2) sub by (fastforce simp: outcome_terminal_def)
  moreover have "progressed R X ?K (cs_ledger S1)" using S1(1) by (simp add: readable_states_def)
  ultimately obtain outs S' where "run_queue R phase_id split questions ?lane 0 ?states [] S1 = (Inr outs, S')"
      "progressed R X ?K (cs_ledger S')" "\<forall>c \<in> set ?lane. begun (key_of_cell R phase_id split c) (cs_ledger S')"
    using run_queue_progress [OF ok free distinct_cells_to_run [OF dist] subset_refl qs] by blast
  moreover have "run_cells R m phase_id split questions S = run_queue R phase_id split questions ?lane 0 ?states [] S1"
    using read by (simp add: run_cells_def match sbind_def slift_def)
  ultimately show ?thesis by auto
qed

subsection \<open>Freezing what has ended\<close>

definition is_key :: "string \<Rightarrow> bool" where
  "is_key ref \<longleftrightarrow> (\<exists>p. path_for ref = Inr p)"

text \<open>The references of a ledger are keys of the store, as the runner's own always are.\<close>

definition refs_are_keys :: "ledger \<Rightarrow> bool" where
  "refs_are_keys L \<longleftrightarrow> (\<forall>a \<in> set (attempts L). \<forall>ref. at_result_ref a = Some ref \<longrightarrow> ref = [] \<or> is_key ref)
     \<and> (\<forall>r \<in> set (artifacts L). is_key (ar_ref r))"

lemma verify_is_key: "is_key ref \<Longrightarrow> \<exists>good. verify_object sha inflate ref fs = Inr good"
  by (auto simp: is_key_def verify_object_def get_bytes_def split: option.splits)

lemma is_key_nonempty: "is_key ref \<Longrightarrow> ref \<noteq> []"
  by (auto simp: is_key_def path_for_def)

lemma latest_by_mem: "latest_by f xs = Some x \<Longrightarrow> x \<in> set xs"
  by (auto simp: latest_by_def split: if_splits) (metis last_in_set set_sort sort_key_const length_0_conv length_sort)

lemma terminal_ref_key:
  assumes "refs_are_keys L" and "terminal_ref key L = Some ref"
  shows "ref = [] \<or> is_key ref"
proof (cases "latest_by at_ordinal (filter (\<lambda>a. at_work_key a = key
              \<and> at_state a \<in> set [COMMITTED, FAILED_FINAL, FAILED_UNKNOWN]
              \<and> at_result_ref a \<noteq> None \<and> at_result_ref a \<noteq> Some []) (attempts L))")
  case None
  with assms(2) obtain r where "latest_by ar_created_at (filter (\<lambda>r. ar_work_key r = Some key) (artifacts L)) = Some r" "ar_ref r = ref"
    by (auto simp: terminal_ref_def)
  with assms(1) show ?thesis by (auto simp: refs_are_keys_def dest!: latest_by_mem)
next
  case (Some a)
  with assms(2) have "at_result_ref a = Some ref" by (simp add: terminal_ref_def)
  moreover have "a \<in> set (attempts L)" using latest_by_mem [OF Some] by simp
  ultimately show ?thesis using assms(1) by (auto simp: refs_are_keys_def)
qed

lemma work_key_for_known:
  assumes "get_work_item (key_of_cell R phase_id split c) (cs_ledger S) \<noteq> None"
  shows "work_key_for R phase_id split tag c S = (Inr (key_of_cell R phase_id split c), S)"
proof -
  have "has_key wi_key (key_of_cell R phase_id split c) (items (cs_ledger S))"
    using assms by (simp add: get_work_item_def has_key_find)
  then show ?thesis
    by (simp add: work_key_for_def on_ledger_def ensure_work_item_def key_of_cell_is insert_ignore_def)
qed

lemma smap_same: "(\<And>x. x \<in> set xs \<Longrightarrow> f x S = (Inr (g x), S)) \<Longrightarrow> smap f xs S = (Inr (map g xs), S)"
  by (induction xs) (auto simp: sbind_def sret_def)

lemma snd_enumerate: "ic \<in> set (enumerate n xs) \<Longrightarrow> snd ic \<in> set xs"
  by (metis imageI list.set_map map_snd_enumerate)

lemma map_enumerate: "map (\<lambda>ic. f (snd ic)) (enumerate n xs) = map f xs"
proof -
  have "map f (map snd (enumerate n xs)) = map f xs" by simp
  then show ?thesis by (simp only: list.map_comp comp_def)
qed

definition item_state :: "string \<Rightarrow> ledger \<Rightarrow> lstate" where
  "item_state key L = (case get_work_item key L of None \<Rightarrow> PENDING | Some r \<Rightarrow> wi_state r)"

lemma committed_item_ref:
  assumes inv: "ledger_inv sha fr L" and item: "get_work_item key L = Some r" "wi_state r = COMMITTED"
    and "backed (verify_object sha' inflate) S" and "cs_ledger S = L"
  shows "\<exists>ref. committed_ref key L = Some ref \<and> ref \<noteq> [] \<and> verify_object sha' inflate ref (cs_store S) = Inr True"
proof -
  have r: "r \<in> set (items L)" "wi_key r = key" using item(1) by (auto simp: get_work_item_def dest: find_row_SomeD)
  have "map at_state (filter (\<lambda>a. active (at_state a)) (attempts_of key L)) = [COMMITTED]"
    using item_ok_at [OF inv r(1)] item(2) r(2) by (simp add: item_ok_def)
  then obtain a where a: "filter (\<lambda>a. active (at_state a)) (attempts_of key L) = [a]" "at_state a = COMMITTED" by auto
  then have "a \<in> set (filter (\<lambda>a. active (at_state a)) (attempts_of key L))" by simp
  then have mem: "a \<in> set (attempts L)" "at_work_key a = key" by (auto simp: attempts_of_def)
  have "committed_ref key L = at_result_ref a" using committed_ref_eq [OF inv mem(1) a(2)] mem(2) by simp
  moreover obtain ref where ref: "at_result_ref a = Some ref" "verify_object sha' inflate ref (cs_store S) = Inr True"
    using assms(4,5) mem(1) a(2) by (auto simp: backed_def)
  moreover have "ref \<noteq> []" using ref(2) unfolding verify_object_True by (auto simp: path_for_def)
  ultimately show ?thesis by auto
qed

lemma read_states_exact:
  assumes inv: "ledger_inv (cn_sha R) (cn_fr R) (cs_ledger S)" and "backed (verify_object sha inflate) S"
    and "cn_verify R = verify_object sha inflate"
    and known: "\<forall>c \<in> set (sched_cells m). get_work_item (key_of_cell R phase_id split c) (cs_ledger S) \<noteq> None"
    and dist: "distinct (map cell_key (sched_cells m))"
  shows "read_cell_states R phase_id split m S
    = (Inr (map (\<lambda>c. (cell_key c, item_state (key_of_cell R phase_id split c) (cs_ledger S))) (sched_cells m)), S)"
proof -
  let ?st = "\<lambda>c. item_state (key_of_cell R phase_id split c) (cs_ledger S)"
  have one: "read_cell_state R phase_id split ic S = (Inr (cell_key (snd ic), ?st (snd ic)), S)"
    if mem: "snd ic \<in> set (sched_cells m)" for ic
  proof -
    obtain i c where ic: "ic = (i, c)" by (cases ic)
    obtain r where r: "get_work_item (key_of_cell R phase_id split c) (cs_ledger S) = Some r" using known mem ic by auto
    then have key: "work_key_for R phase_id split [0, 9, i] c S = (Inr (key_of_cell R phase_id split c), S)"
      by (intro work_key_for_known) simp
    show ?thesis
    proof (cases "wi_state r = COMMITTED")
      case True
      from committed_item_ref [OF inv r True assms(2) refl] show ?thesis
        using True r key by (auto simp: ic read_cell_state_def sbind_def item_state_def assms(3))
    qed (use r key in \<open>simp add: ic read_cell_state_def sbind_def item_state_def\<close>)
  qed
  have "smap (read_cell_state R phase_id split) (enumerate 0 (sched_cells m)) S
      = (Inr (map (\<lambda>ic. (cell_key (snd ic), ?st (snd ic))) (enumerate 0 (sched_cells m))), S)"
    by (rule smap_same, rule one, rule snd_enumerate)
  moreover have "map (\<lambda>ic. (cell_key (snd ic), ?st (snd ic))) (enumerate 0 (sched_cells m))
      = map (\<lambda>c. (cell_key c, ?st c)) (sched_cells m)"
    by (rule map_enumerate)
  moreover have "dict_of (map (\<lambda>c. (cell_key c, ?st c)) (sched_cells m)) = map (\<lambda>c. (cell_key c, ?st c)) (sched_cells m)"
    by (rule dict_of_distinct) (use dist in \<open>simp add: comp_def\<close>)
  ultimately show ?thesis by (simp add: read_cell_states_def sbind_def sret_def)
qed

text \<open>The ledger of a freeze: its items, attempts and epochs stay, its references stay keys.\<close>

definition freezing :: "(string \<Rightarrow> string) \<Rightarrow> (string \<Rightarrow> string option) \<Rightarrow> ledger \<Rightarrow> files coord_state \<Rightarrow> bool" where
  "freezing sha inflate L S \<longleftrightarrow> core (cs_ledger S) = core L \<and> epochs (cs_ledger S) = epochs L
     \<and> refs_are_keys (cs_ledger S) \<and> store_ok sha inflate (cs_store S)"

lemma tombstone_kept:
  assumes codec: "codec_ok sha deflate inflate"
    and put: "cn_put R = (\<lambda>tag raw. put_bytes sha deflate (stem tag) None (PBytes raw))"
  shows "succeeds (freezing sha inflate L) (keep_document R tag kind (Some key) (tombstone R phase_id c key st prior))
    (\<lambda>ref S. freezing sha inflate L S \<and> ref \<noteq> [])"
proof (rule succeedsI)
  fix S assume S: "freezing sha inflate L S"
  let ?v = "tombstone R phase_id c key st prior"
  have "encodable ?v" unfolding tombstone_def by (rule encodable_fields) (simp add: encodable_dict_def)
  then have raw: "encoded R ?v = Inr (render (cn_fr R) ?v)"
    by (simp add: encoded_def canonical_json_encodable)
  obtain p where p: "path_for (sha256_hex sha (render (cn_fr R) ?v)) = Inr p" using path_for_sha [OF codec] by blast
  obtain ref st' where bytes: "put_bytes sha deflate (stem tag) None (PBytes (render (cn_fr R) ?v)) (cs_store S) = (Inr ref, st')"
    and ref: "or_key ref = sha256_hex sha (render (cn_fr R) ?v)"
    using p by (cases "map_of (cs_store S) p") (simp_all add: put_bytes_def Let_def)
  have key: "is_key (or_key ref)" using p ref by (auto simp: is_key_def)
  have st': "store_ok sha inflate st'" using put_bytes_keeps [OF codec _ bytes] S by (simp add: freezing_def)
  let ?L = "register_artifact (or_key ref) kind (or_raw_size ref) (or_stored_size ref) (Some key) (cn_clock R tag) (cs_ledger S)"
  have "keep_document R tag kind (Some key) ?v S = (Inr (or_key ref), \<lparr>cs_ledger = ?L, cs_store = st'\<rparr>)"
    by (simp add: keep_document_def raw put_object_def put bytes sbind_def sret_def ledger_does_def on_ledger_def)
  moreover have "refs_are_keys ?L"
    using S key by (auto simp: freezing_def refs_are_keys_def register_artifact_def insert_ignore_def)
  moreover have "epochs ?L = epochs L" using S by (simp add: freezing_def register_artifact_def)
  ultimately show "\<exists>x S'. keep_document R tag kind (Some key) ?v S = (Inr x, S') \<and> freezing sha inflate L S' \<and> x \<noteq> []"
    using S st' is_key_nonempty [OF key] by (simp add: freezing_def)
qed

lemma read_output_kept:
  assumes codec: "codec_ok sha deflate inflate"
    and put: "cn_put R = (\<lambda>tag raw. put_bytes sha deflate (stem tag) None (PBytes raw))"
    and verify: "cn_verify R = verify_object sha inflate"
    and known: "get_work_item (key_of_cell R phase_id split c) L \<noteq> None"
    and state: "map_of states (cell_key c) = Some st" "st \<in> set terminal_states"
  shows "succeeds (freezing sha inflate L) (read_output R phase_id split states (i, c))
    (\<lambda>kv S. freezing sha inflate L S \<and> (fst kv = cell_key c \<and> snd kv \<noteq> []))"
proof (rule succeedsI)
  let ?key = "key_of_cell R phase_id split c"
  fix S assume S: "freezing sha inflate L S"
  then have "items (cs_ledger S) = items L" by (simp add: freezing_def core_def)
  with known have "get_work_item ?key (cs_ledger S) \<noteq> None" by (simp add: get_work_item_def)
  from work_key_for_known [OF this] have key: "work_key_for R phase_id split [0, 10, i] c S = (Inr ?key, S)" .
  let ?existing = "case terminal_ref ?key (cs_ledger S) of None \<Rightarrow> [] | Some ref \<Rightarrow> ref"
  have fine: "?existing = [] \<or> (\<exists>good. verify_object sha inflate ?existing (cs_store S) = Inr good)"
    using terminal_ref_key [of "cs_ledger S" ?key] S verify_is_key
    by (cases "terminal_ref ?key (cs_ledger S)") (auto simp: freezing_def)
  from succeedsD [OF tombstone_kept [OF codec put, of L "[0, 11, i]" "''terminal_failure_tombstone''" ?key phase_id c st ?existing] S]
  obtain ref S1 where tomb: "keep_document R [0, 11, i] ''terminal_failure_tombstone'' (Some ?key)
        (tombstone R phase_id c ?key st ?existing) S = (Inr ref, S1)"
    and S1: "freezing sha inflate L S1" "ref \<noteq> []" by blast
  have "\<exists>out S'. terminal_output_ref R phase_id split i c st S = (Inr out, S') \<and> freezing sha inflate L S' \<and> out \<noteq> []"
  proof (cases "?existing = []")
    case True
    with key tomb S1 show ?thesis
      by (simp add: terminal_output_ref_def sbind_def slift_def)
  next
    case False
    with fine obtain good where "verify_object sha inflate ?existing (cs_store S) = Inr good" by blast
    with False key tomb S1 S show ?thesis
      by (cases good) (simp_all add: terminal_output_ref_def sbind_def slift_def sret_def verify Let_def)
  qed
  with state show "\<exists>kv S'. read_output R phase_id split states (i, c) S = (Inr kv, S') \<and> freezing sha inflate L S'
      \<and> (fst kv = cell_key c \<and> snd kv \<noteq> [])"
    by (auto simp: read_output_def sbind_def sret_def)
qed

lemma outputs_kept:
  assumes codec: "codec_ok sha deflate inflate"
    and put: "cn_put R = (\<lambda>tag raw. put_bytes sha deflate (stem tag) None (PBytes raw))"
    and verify: "cn_verify R = verify_object sha inflate"
    and cells: "\<forall>c \<in> set cells. get_work_item (key_of_cell R phase_id split c) L \<noteq> None
      \<and> (\<exists>st \<in> set terminal_states. map_of states (cell_key c) = Some st)"
    and dist: "distinct (map cell_key cells)"
  shows "succeeds (freezing sha inflate L) (smap (read_output R phase_id split states) (enumerate 0 cells))
    (\<lambda>kvs S. freezing sha inflate L S \<and> (\<forall>c \<in> set cells. \<exists>out. map_of (dict_of kvs) (cell_key c) = Some out \<and> out \<noteq> []))"
proof -
  let ?Q = "\<lambda>(ic :: nat \<times> sched_cell) (kv :: string \<times> string). fst kv = cell_key (snd ic) \<and> snd kv \<noteq> []"
  have "succeeds (freezing sha inflate L) (read_output R phase_id split states ic) (\<lambda>kv S. freezing sha inflate L S \<and> ?Q ic kv)"
    if "ic \<in> set (enumerate 0 cells)" for ic
  proof -
    obtain i c where ic: "ic = (i, c)" by (cases ic)
    then have "c \<in> set cells" using snd_enumerate [OF that] by simp
    with cells obtain st where "get_work_item (key_of_cell R phase_id split c) L \<noteq> None" "st \<in> set terminal_states"
      "map_of states (cell_key c) = Some st" by blast
    from read_output_kept [OF codec put verify this(1,3,2), of i] show ?thesis by (simp add: ic)
  qed
  note all = triple_smap_all [where I = "freezing sha inflate L" and Q = "\<lambda>ic kv S. ?Q ic kv" and E = "\<lambda>_. False", OF this]
  have "succeeds (freezing sha inflate L) (smap (read_output R phase_id split states) (enumerate 0 cells))
      (\<lambda>kvs S. freezing sha inflate L S \<and> list_all2 ?Q (enumerate 0 cells) kvs)"
  proof (rule all)
    fix ic kv jd assume "jd \<in> set (enumerate 0 cells)"
    from \<open>\<And>ic. ic \<in> set (enumerate 0 cells) \<Longrightarrow> succeeds _ _ _\<close> [OF this]
    show "succeeds (\<lambda>S. freezing sha inflate L S \<and> ?Q ic kv) (read_output R phase_id split states jd) (\<lambda>_ S. ?Q ic kv)"
      by (auto simp: triple_def split: sum.splits prod.splits)
  qed
  moreover have "\<exists>out. map_of (dict_of kvs) (cell_key c) = Some out \<and> out \<noteq> []"
    if match: "list_all2 ?Q (enumerate 0 cells) kvs" and c: "c \<in> set cells" for kvs c
  proof -
    have len: "length kvs = length cells" using list_all2_lengthD [OF match] by simp
    have keys: "map fst kvs = map cell_key cells"
    proof (rule nth_equalityI)
      fix i assume "i < length (map fst kvs)"
      then show "map fst kvs ! i = map cell_key cells ! i"
        using list_all2_nthD2 [OF match, of i] len by (simp add: nth_enumerate_eq)
    qed (simp add: len)
    have dict: "dict_of kvs = kvs" using keys dist by (intro dict_of_distinct) simp
    obtain i where i: "i < length cells" "cells ! i = c" using c by (auto simp: in_set_conv_nth)
    have Q: "fst (kvs ! i) = cell_key c" "snd (kvs ! i) \<noteq> []"
      using list_all2_nthD [OF match, of i] i by (simp_all add: nth_enumerate_eq)
    have "kvs ! i \<in> set kvs" using i(1) len by simp
    then have "map_of kvs (cell_key c) = Some (snd (kvs ! i))"
      using keys dist Q(1) by (intro map_of_is_SomeI) (simp_all add: prod_eq_iff flip: Q(1))
    with Q(2) show ?thesis by (simp add: dict)
  qed
  ultimately show ?thesis by (auto intro: triple_post)
qed

lemma freeze_campaign_iff:
  assumes codec: "codec_ok sha deflate inflate" and store: "store_ok sha inflate (cs_store S)"
    and R: "cn_sha R = sha" "cn_put R = (\<lambda>tag raw. put_bytes sha deflate (stem tag) None (PBytes raw))"
      "cn_verify R = verify_object sha inflate"
    and ledger: "ledger_inv sha (cn_fr R) (cs_ledger S)" "backed (verify_object sha inflate) S" "refs_are_keys (cs_ledger S)"
    and cfg: "manifest_matches (cn_config R) m" "rc_run (cn_config R) \<noteq> []" "rc_shard (cn_config R) = None"
      "rc_owned (cn_config R) = None" "phase_id \<noteq> []"
    and m: "encodable_dict (sm_notes m)" "distinct (map bl_id (sm_blocks m))" "[] \<notin> bl_id ` set (sm_blocks m)"
      "''FREEZE_ROOT'' \<notin> bl_id ` set (sm_blocks m)" "distinct (map cell_key (sched_cells m))"
      "\<forall>b \<in> set (sm_blocks m). bl_cells b \<noteq> [] \<and> distinct (map cell_quad (bl_cells b))"
    and ended: "\<forall>c \<in> set (sched_cells m). \<exists>r. get_work_item (key_of_cell R phase_id (sm_split m) c) (cs_ledger S) = Some r
      \<and> wi_state r \<in> set terminal_states"
  shows "(\<exists>res S'. freeze_campaign R m phase_id (sm_split m) [] S = (Inr res, S'))
    \<longleftrightarrow> (\<forall>c \<in> set (sched_cells m). epoch_of (key_of_cell R phase_id (sm_split m)) (cs_ledger S) c \<noteq> [])"
proof -
  let ?key = "key_of_cell R phase_id (sm_split m)" and ?L = "cs_ledger S"
  let ?states = "map (\<lambda>c. (cell_key c, item_state (?key c) ?L)) (sched_cells m)"
  have known: "\<forall>c \<in> set (sched_cells m). get_work_item (?key c) ?L \<noteq> None" using ended by auto
  have read: "read_cell_states R phase_id (sm_split m) m S = (Inr ?states, S)"
    by (rule read_states_exact [OF _ ledger(2) R(3) known m(5)]) (simp add: R(1) ledger(1))
  have look: "map_of ?states (cell_key c) = Some (item_state (?key c) ?L)" if "c \<in> set (sched_cells m)" for c
    using that m(5) by (intro map_of_is_SomeI) (auto simp: comp_def)
  have final: "item_state (?key c) ?L \<in> set terminal_states" if "c \<in> set (sched_cells m)" for c
    using ended that by (auto simp: item_state_def)
  have "freezing sha inflate ?L S" using store ledger(3) by (simp add: freezing_def)
  moreover have "\<forall>c \<in> set (sched_cells m). get_work_item (?key c) ?L \<noteq> None
      \<and> (\<exists>st \<in> set terminal_states. map_of ?states (cell_key c) = Some st)"
    using known look final by blast
  ultimately obtain outputs S1 where out: "smap (read_output R phase_id (sm_split m) ?states) (enumerate 0 (sched_cells m)) S = (Inr outputs, S1)"
    and S1: "freezing sha inflate ?L S1" "\<forall>c \<in> set (sched_cells m). \<exists>out. map_of (dict_of outputs) (cell_key c) = Some out \<and> out \<noteq> []"
    using succeedsD [OF outputs_kept [OF codec R(2,3) _ m(5)]] by blast
  have cells: "set (bl_cells b) \<subseteq> set (sched_cells m)" "distinct (map cell_key (bl_cells b))" if b: "b \<in> set (sm_blocks m)" for b
  proof -
    obtain us vs where "sm_blocks m = us @ b # vs" using split_list [OF b] by blast
    then have "sched_cells m = concat (map bl_cells us) @ bl_cells b @ concat (map bl_cells vs)" by (simp add: sched_cells_def)
    with m(5) show "set (bl_cells b) \<subseteq> set (sched_cells m)" "distinct (map cell_key (bl_cells b))" by auto
  qed
  have ready: "\<forall>b \<in> set (sm_blocks m). ready_block ?states (dict_of outputs) b"
  proof
    fix b assume b: "b \<in> set (sm_blocks m)"
    have "cell_is_terminal (map_of ?states (cell_key c)) \<and> (\<exists>out. map_of (dict_of outputs) (cell_key c) = Some out \<and> out \<noteq> [])"
      if "c \<in> set (bl_cells b)" for c
      using that cells(1) [OF b] look final S1(2) by (auto simp: cell_is_terminal_def)
    then show "ready_block ?states (dict_of outputs) b"
      using m(6) b cells(2) [OF b] unfolding ready_block_def by blast
  qed
  have sha: "length (sha x) = 32" for x using codec by (simp add: codec_ok_def)
  have run: "freeze_campaign R m phase_id (sm_split m) [] S =
      (case freeze_blocks sha (cn_fr R) (cn_config R) ?key ?states (dict_of outputs) (cn_clock R [0, 12]) m phase_id (sm_split m) [] (cs_ledger S1) of
         Inl e \<Rightarrow> (Inl (FreezeRaised e), S1) | Inr (frozen, d', L) \<Rightarrow> (Inr (frozen, d'), S1\<lparr>cs_ledger := L\<rparr>))"
    using read out cfg(1) by (simp add: freeze_campaign_def sbind_def slift_def R(1))
  have "epoch_of ?key (cs_ledger S1) = epoch_of ?key ?L"
    using S1(1) by (simp add: fun_eq_iff epoch_of_def freezing_def)
  moreover have "(\<exists>s. freeze_blocks sha (cn_fr R) (cn_config R) ?key ?states (dict_of outputs) (cn_clock R [0, 12]) m phase_id
      (sm_split m) [] (cs_ledger S1) = Inr s) \<longleftrightarrow> (\<forall>b \<in> set (sm_blocks m). \<forall>c \<in> set (bl_cells b). epoch_of ?key (cs_ledger S1) c \<noteq> [])"
    by (rule sealing_iff_epochs) (use cfg m ready sha in \<open>auto simp: manifest_matches_def\<close>)
  moreover have "(\<exists>res S'. freeze_campaign R m phase_id (sm_split m) [] S = (Inr res, S'))
      \<longleftrightarrow> (\<exists>s. freeze_blocks sha (cn_fr R) (cn_config R) ?key ?states (dict_of outputs) (cn_clock R [0, 12]) m phase_id
      (sm_split m) [] (cs_ledger S1) = Inr s)"
    unfolding run by (auto split: sum.splits prod.splits)
  ultimately show ?thesis by (auto simp: sched_cells_def)
qed

lemma find_filter: "List.find (\<lambda>x. P x \<and> Q x) xs = List.find Q (filter P xs)"
  by (induction xs) auto

lemma committed_ref_attempts_of:
  "committed_ref key L = (case List.find (\<lambda>a. at_state a = COMMITTED) (attempts_of key L) of None \<Rightarrow> None | Some a \<Rightarrow> at_result_ref a)"
  by (simp add: committed_ref_def attempts_of_def find_filter)

subsection \<open>The properties\<close>

text \<open>
  C39. A run of the campaign never commits a cell without its output: if every COMMITTED attempt names a blob
  that verifies, it is so when \<open>run\<close> has returned or raised, wherever the writes of the store fail and
  whatever the graph, the engine and the clocks do.
\<close>

theorem runner_commits_have_blobs:
  assumes "codec_ok sha deflate inflate" and "store_ok sha inflate (cs_store S)"
    and "backed (verify_object sha inflate) S"
    and "cn_put R = (\<lambda>tag raw. put_bytes sha deflate (stem tag) (fault tag) (PBytes raw))"
    and "run_cells R m phase_id split questions S = (res, S')"
  shows "store_ok sha inflate (cs_store S') \<and> backed (verify_object sha inflate) S'"
proof -
  have "(codec_ok sha deflate inflate \<and> store_ok sha inflate (cs_store S')) \<and> backed (verify_object sha inflate) S'"
    by (rule disk.run_cells_sound [where x = "\<lambda>tag. (stem tag, fault tag)", OF _ _ assms(5)]) (use assms(1-4) in simp_all)
  then show ?thesis by simp
qed


text \<open>
  C38. A run finishes its lane: with a store that takes every write, a readable epoch file and a graph that ends
  every session with results that can be encoded, \<open>run\<close> returns from every ledger that recorded epochs only for
  cells that were started; every cell of the lane that was still PENDING is then COMMITTED, FAILED_FINAL or
  FAILED_UNKNOWN, with a nonempty engine epoch on record, and no other work item was started.
\<close>

theorem run_cells_finishes:
  fixes R :: "('s, 'e) campaign_runner"
  assumes "healthy R" and "cn_max_cells R = None" and "\<And>k. \<not> cn_stop R k"
    and "manifest_matches (cn_config R) m" and "distinct (map cell_key (sched_cells m))"
    and "\<forall>c \<in> set (cells_to_run (cn_config R) m). map_of questions (ce_task c) \<noteq> None"
    and "history (cn_sha R) (cn_fr R) (cs_ledger S)"
    and "\<forall>e \<in> set (epochs (cs_ledger S)). begun (ce_work_key e) (cs_ledger S)" and "checkable R S"
  shows "\<exists>outs S'. run_cells R m phase_id split questions S = (Inr outs, S')
    \<and> (\<forall>c \<in> set (cells_to_run (cn_config R) m). begun (key_of_cell R phase_id split c) (cs_ledger S)
        \<or> (\<exists>r. get_work_item (key_of_cell R phase_id split c) (cs_ledger S') = Some r \<and> wi_state r \<in> ended_states
             \<and> (\<exists>e \<in> set (epochs (cs_ledger S')). epoch_row (key_of_cell R phase_id split c) e)))
    \<and> (\<forall>r \<in> set (items (cs_ledger S')). wi_state r = PENDING \<or> begun (wi_key r) (cs_ledger S)
        \<or> wi_key r \<in> key_of_cell R phase_id split ` set (cells_to_run (cn_config R) m))"
proof -
  let ?K = "key_of_cell R phase_id split ` set (cells_to_run (cn_config R) m)"
  let ?X = "{key. begun key (cs_ledger S)}"
  have inv: "ledger_inv (cn_sha R) (cn_fr R) (cs_ledger S)" by (rule history_inv) (rule assms(7))
  have "begun (wi_key r) (cs_ledger S)" if "r \<in> set (items (cs_ledger S))" "wi_state r \<noteq> PENDING" for r
    using find_item_keyed [OF inv that(1)] that(2) by (auto simp: begun_def)
  then have "readable_states R ?X ?K S"
    using inv assms(8,9) by (auto simp: readable_states_def progressed_def)
  then obtain outs S' where run: "run_cells R m phase_id split questions S = (Inr outs, S')"
    and prog: "progressed R ?X ?K (cs_ledger S')"
    and all: "\<forall>c \<in> set (cells_to_run (cn_config R) m). begun (key_of_cell R phase_id split c) (cs_ledger S')"
    using run_cells_all [OF assms(1-6)] by blast
  have "begun key (cs_ledger S) \<or> (\<exists>r. get_work_item key (cs_ledger S') = Some r \<and> wi_state r \<in> ended_states
      \<and> (\<exists>e \<in> set (epochs (cs_ledger S')). epoch_row key e))" if now: "begun key (cs_ledger S')" for key
  proof -
    obtain r where r: "find_row wi_key key (items (cs_ledger S')) = Some r" "wi_state r \<noteq> PENDING"
      using now by (auto simp: begun_def)
    have "r \<in> set (items (cs_ledger S'))" "wi_key r = key" using find_row_SomeD [OF r(1)] by simp_all
    with prog r show ?thesis by (auto simp: progressed_def get_work_item_def)
  qed
  moreover have "wi_state r = PENDING \<or> begun (wi_key r) (cs_ledger S) \<or> wi_key r \<in> ?K"
    if "r \<in> set (items (cs_ledger S'))" for r
    using prog that by (auto simp: progressed_def)
  ultimately show ?thesis using run all by blast
qed

text \<open>
  C40. When every cell has ended, \<open>freeze_blocks\<close> writes the blocks and the root exactly when every cell has an
  engine epoch on record: the invalid block the runner seals without one is refused by the root it then writes.
\<close>

theorem freeze_campaign_needs_epochs:
  assumes "codec_ok sha deflate inflate" and "store_ok sha inflate (cs_store S)"
    and "cn_sha R = sha" "cn_put R = (\<lambda>tag raw. put_bytes sha deflate (stem tag) None (PBytes raw))"
      "cn_verify R = verify_object sha inflate"
    and "ledger_inv sha (cn_fr R) (cs_ledger S)" "backed (verify_object sha inflate) S" "refs_are_keys (cs_ledger S)"
    and "manifest_matches (cn_config R) m" "rc_run (cn_config R) \<noteq> []" "rc_shard (cn_config R) = None"
      "rc_owned (cn_config R) = None" "phase_id \<noteq> []"
    and "encodable_dict (sm_notes m)" "distinct (map bl_id (sm_blocks m))" "[] \<notin> bl_id ` set (sm_blocks m)"
      "''FREEZE_ROOT'' \<notin> bl_id ` set (sm_blocks m)" "distinct (map cell_key (sched_cells m))"
      "\<forall>b \<in> set (sm_blocks m). bl_cells b \<noteq> [] \<and> distinct (map cell_quad (bl_cells b))"
    and "\<forall>c \<in> set (sched_cells m). \<exists>r. get_work_item (key_of_cell R phase_id (sm_split m) c) (cs_ledger S) = Some r
      \<and> wi_state r \<in> set terminal_states"
  shows "(\<exists>res S'. freeze_campaign R m phase_id (sm_split m) [] S = (Inr res, S'))
    \<longleftrightarrow> (\<forall>c \<in> set (sched_cells m). epoch_of (key_of_cell R phase_id (sm_split m)) (cs_ledger S) c \<noteq> [])"
  by (rule freeze_campaign_iff [OF assms])

subsection \<open>Concrete runs\<close>

definition example_result :: cell_result where
  "example_result = \<lparr>gr_report = ''report'', gr_notes = [], gr_raw_notes = [], gr_events = [], gr_checkpoints = [],
     gr_records = [], gr_summary = PNone, gr_first_digest = [], gr_seed_applied = True, gr_error = None\<rparr>"

definition example_work :: summary where
  "example_work = [(KStr ''telemetry_complete'', PBool True), (KStr ''by_op'', PDict [(KStr ''chat'', PInt 1)])]"

definition example_runner ::
  "(string \<Rightarrow> string) \<Rightarrow> (nat list \<Rightarrow> string \<Rightarrow> 's \<Rightarrow> ('e + object_ref) \<times> 's) \<Rightarrow> (string \<Rightarrow> 's \<Rightarrow> 'e + bool)
     \<Rightarrow> ('s, 'e) campaign_runner" where
  "example_runner sha put verify = \<lparr>cn_config = example_config, cn_worker = ''w'', cn_lease = 5, cn_max_cells = None,
     cn_stop = (\<lambda>k. False), cn_scope = ''c'', cn_serialized = False, cn_max_retries = 3, cn_override = ''e1'',
     cn_epoch_file = (\<lambda>k after. NoEpochFile),
     cn_graph = (\<lambda>k spec. Saves ''checkpoint'' (PStr ''page'') (\<lambda>kept. Ends (CellReturned example_result) [] 1)),
     cn_summary = (\<lambda>k key. SummaryValue (PDict example_work)), cn_latency = (\<lambda>k. 0), cn_joules = (\<lambda>k. None),
     cn_put = put, cn_verify = verify, cn_clock = (\<lambda>tag i. 0), cn_sha = sha, cn_fr = (\<lambda>_. ''0'')\<rparr>"

definition disk_runner :: "(string \<Rightarrow> string) \<Rightarrow> (files, store_error) campaign_runner" where
  "disk_runner sha = example_runner sha (\<lambda>tag raw. put_bytes toy_sha id ''t'' None (PBytes raw)) (verify_object toy_sha Some)"

definition memory_runner :: "(nat, unit) campaign_runner" where
  "memory_runner = example_runner (\<lambda>s. s)
     (\<lambda>tag raw st. (Inr \<lparr>or_key = raw, or_raw_size = 0, or_stored_size = 0\<rparr>, st + 1)) (\<lambda>ref st. Inr True)"

theorem runner_commits_have_blobs_witness:
  "let run = run_cells (disk_runner (\<lambda>_. [])) example_manifest ''ph'' ''dev'' [(''t'', ''why?'')] \<lparr>cs_ledger = empty_ledger, cs_store = []\<rparr>
   in list_ex (\<lambda>a. at_state a = COMMITTED) (attempts (cs_ledger (snd run))) \<and> backed (verify_object toy_sha Some) (snd run)"
proof -
  let ?S = "\<lparr>cs_ledger = empty_ledger, cs_store = []\<rparr> :: files coord_state"
  let ?run = "run_cells (disk_runner (\<lambda>_. [])) example_manifest ''ph'' ''dev'' [(''t'', ''why?'')] ?S"
  have "list_ex (\<lambda>a. at_state a = COMMITTED) (attempts (cs_ledger (snd ?run)))" by code_simp
  moreover have "backed (verify_object toy_sha Some) ?S" by (simp add: backed_def empty_ledger_def)
  ultimately show ?thesis
    using runner_commits_have_blobs [OF toy_codec _ _ _ surjective_pairing, of ?S "disk_runner (\<lambda>_. [])" "\<lambda>_. ''t''" "\<lambda>_. None"]
    by (simp add: toy_store disk_runner_def example_runner_def Let_def)
qed

theorem run_cells_finishes_witness:
  "\<exists>outs S' r. run_cells memory_runner example_manifest ''ph'' ''dev'' [(''t'', ''why?'')] \<lparr>cs_ledger = empty_ledger, cs_store = 0\<rparr>
      = (Inr outs, S')
    \<and> get_work_item (key_of_cell memory_runner ''ph'' ''dev'' example_cell) (cs_ledger S') = Some r \<and> wi_state r \<in> ended_states"
proof -
  let ?S = "\<lparr>cs_ledger = empty_ledger, cs_store = 0\<rparr> :: nat coord_state"
  have lane: "cells_to_run (cn_config memory_runner) example_manifest = [example_cell]"
    by (simp add: memory_runner_def example_runner_def example_config_def example_manifest_def example_block_def
        example_cell_def cells_to_run_def owns_def)
  have no_events: "summarize_events [] \<noteq> None" by code_simp
  then have healthy: "healthy memory_runner"
    by (simp add: healthy_def memory_runner_def example_runner_def inj_def current_epoch_def durable_work_summary_def
        example_work_def encodable_dict_def result_ok_def example_result_def)
  have free: "cn_max_cells memory_runner = None" "\<not> cn_stop memory_runner k" for k
    by (simp_all add: memory_runner_def example_runner_def)
  have match: "manifest_matches (cn_config memory_runner) example_manifest"
    by (simp add: manifest_matches_def memory_runner_def example_runner_def example_config_def example_manifest_def)
  have dist: "distinct (map cell_key (sched_cells example_manifest))"
    by (simp add: sched_cells_def example_manifest_def example_block_def)
  have asked: "\<forall>c \<in> set (cells_to_run (cn_config memory_runner) example_manifest). map_of [(''t'', ''why?'')] (ce_task c) \<noteq> None"
    by (simp add: lane) (simp add: example_cell_def)
  have start: "history (cn_sha memory_runner) (cn_fr memory_runner) (cs_ledger ?S)"
    "\<forall>e \<in> set (epochs (cs_ledger ?S)). begun (ce_work_key e) (cs_ledger ?S)" "checkable memory_runner ?S"
    by (simp_all add: checkable_def) (simp_all add: empty_ledger_def)
  have "\<not> begun key (cs_ledger ?S)" for key by (simp add: begun_def empty_ledger_def)
  with run_cells_finishes [OF healthy free match dist asked start, of "''ph''" "''dev''"] show ?thesis
    by (simp only: lane) (metis list.set_intros(1))
qed


text \<open>A work item that was blocked before it was ever run, without and with an epoch on record.\<close>

lemma blocked_item:
  "\<exists>key L. work_key sha fr c [] = Inr key \<and> ledger_inv sha fr L \<and> attempts L = [] \<and> artifacts L = [] \<and> epochs L = []
     \<and> (\<exists>r. get_work_item key L = Some r \<and> wi_state r = BLOCKED_BUDGET)"
proof -
  obtain key where key: "work_key sha fr c [] = Inr key" using work_key_total by blast
  obtain L where L: "ensure_work_item sha fr 3 c [] True None (\<lambda>_. 0) empty_ledger = Inr (key, L)"
    and row: "\<exists>r. items L = [r] \<and> wi_key r = key \<and> wi_state r = PENDING" "attempts L = []" "artifacts L = []" "epochs L = []"
    by (simp add: ensure_work_item_def key insert_ignore_def has_key_def empty_ledger_def)
  obtain L' where L': "block_budget key [] (\<lambda>_. 0) L = Inr L'"
    and row': "\<exists>r. items L' = [r] \<and> wi_key r = key \<and> wi_state r = BLOCKED_BUDGET" "attempts L' = []" "artifacts L' = []" "epochs L' = []"
    using row by (auto simp: block_budget_def set_state_def update_item_def update_rows_def log_transition_def)
  have "ledger_inv sha fr L'" by (rule block_budget_inv [OF ensure_inv [OF empty_inv L] L'])
  with key row' show ?thesis by (auto simp: get_work_item_def)
qed

theorem freeze_campaign_needs_epochs_witness:
  "\<exists>key L. (let R = disk_runner toy_sha in
      \<not> (\<exists>res S'. freeze_campaign R example_manifest ''ph'' ''dev'' [] \<lparr>cs_ledger = L, cs_store = []\<rparr> = (Inr res, S'))
    \<and> (\<exists>res S'. freeze_campaign R example_manifest ''ph'' ''dev'' []
         \<lparr>cs_ledger = L\<lparr>epochs := [\<lparr>ce_work_key = key, ce_engine_epoch = ''e1'', ce_recorded_at = 0\<rparr>]\<rparr>, cs_store = []\<rparr> = (Inr res, S')))"
proof -
  let ?R = "disk_runner toy_sha" and ?c = "cell_coordinates example_config ''ph'' ''dev'' example_cell"
  obtain key L where key: "work_key toy_sha (\<lambda>_. ''0'') ?c [] = Inr key"
    and L: "ledger_inv toy_sha (\<lambda>_. ''0'') L" "attempts L = []" "artifacts L = []" "epochs L = []"
    and item: "\<exists>r. get_work_item key L = Some r \<and> wi_state r = BLOCKED_BUDGET" using blocked_item by metis
  let ?L = "\<lambda>es. L\<lparr>epochs := es\<rparr>" and ?S = "\<lambda>es. \<lparr>cs_ledger = L\<lparr>epochs := es\<rparr>, cs_store = []\<rparr> :: files coord_state"
    and ?e = "\<lparr>ce_work_key = key, ce_engine_epoch = ''e1'', ce_recorded_at = 0\<rparr>"
  have R: "cn_sha ?R = toy_sha" "cn_fr ?R = (\<lambda>_. ''0'')" "cn_config ?R = example_config"
    "cn_put ?R = (\<lambda>tag raw. put_bytes toy_sha id ((\<lambda>_. ''t'') tag) None (PBytes raw))"
    "cn_verify ?R = verify_object toy_sha Some"
    by (simp_all add: disk_runner_def example_runner_def)
  have cells: "sched_cells example_manifest = [example_cell]" "sm_split example_manifest = ''dev''"
    by (simp_all add: sched_cells_def example_manifest_def example_block_def)
  have of_key: "key_of_cell ?R ''ph'' ''dev'' example_cell = key" by (simp add: key_of_cell_def R key)
  have freeze: "(\<exists>res S'. freeze_campaign ?R example_manifest ''ph'' ''dev'' [] \<lparr>cs_ledger = ?L es, cs_store = []\<rparr> = (Inr res, S'))
      \<longleftrightarrow> epoch_of (key_of_cell ?R ''ph'' ''dev'') (?L es) example_cell \<noteq> []" for es
  proof -
    have "ledger_inv toy_sha (cn_fr ?R) (?L es)" unfolding R by (rule inv_core [OF L(1)]) (simp add: core_def)
    then have inv: "ledger_inv toy_sha (cn_fr ?R) (cs_ledger (?S es))" by simp
    have store: "store_ok toy_sha Some (cs_store (?S es))" by (simp add: toy_store)
    have refs: "backed (verify_object toy_sha Some) (?S es)" "refs_are_keys (cs_ledger (?S es))"
      by (simp_all add: backed_def refs_are_keys_def L)
    have cfg: "manifest_matches (cn_config ?R) example_manifest" "rc_run (cn_config ?R) \<noteq> []" "rc_shard (cn_config ?R) = None"
      "rc_owned (cn_config ?R) = None" "''ph'' \<noteq> []"
      by (simp_all add: R manifest_matches_def example_config_def example_manifest_def)
    have m: "encodable_dict (sm_notes example_manifest)" "distinct (map bl_id (sm_blocks example_manifest))"
      "[] \<notin> bl_id ` set (sm_blocks example_manifest)" "''FREEZE_ROOT'' \<notin> bl_id ` set (sm_blocks example_manifest)"
      "distinct (map cell_key (sched_cells example_manifest))"
      "\<forall>b \<in> set (sm_blocks example_manifest). bl_cells b \<noteq> [] \<and> distinct (map cell_quad (bl_cells b))"
      by (simp_all add: cells) (simp_all add: example_manifest_def example_block_def encodable_dict_def)
    have ended: "\<forall>c \<in> set (sched_cells example_manifest). \<exists>r. get_work_item (key_of_cell ?R ''ph'' (sm_split example_manifest) c)
        (cs_ledger (?S es)) = Some r \<and> wi_state r \<in> set terminal_states"
      using item by (simp add: cells of_key get_work_item_def) (auto simp: terminal_states_def)
    from freeze_campaign_needs_epochs [OF toy_codec store R(1,4,5) inv refs cfg m ended]
    show ?thesis by (simp add: cells)
  qed
  show ?thesis
    using freeze [of "[]"] freeze [of "[?e]"] L(4) unfolding Let_def
    by (intro exI [of _ key] exI [of _ "L\<lparr>epochs := []\<rparr>"] conjI) (simp_all add: epoch_of_def of_key)
qed

end
