(* ===== verification/Program.thy ===== *)
theory Program
  imports RunnerProps
begin

text \<open>
  Every ledger the program can produce. \<open>fail\<close> of \<^verbatim>\<open>experiment/ledger.py\<close> does not look at the state of the
  attempt it ends; the two callers of the repository, the coordinator and the campaign runner, call it for an
  attempt in progress only, whatever raises on the way. Runs follow one another: two that overlap on one ledger,
  where one reclaims the lease of the other, are not covered. So a ledger that any sequence of runs leaves behind is a
  history in the sense of \<open>ledger_step\<close>, and what \<open>LedgerProps\<close> shows of histories holds of it.
\<close>

inductive program_step ::
  "(string \<Rightarrow> string) \<Rightarrow> (real \<Rightarrow> string) \<Rightarrow> (string \<Rightarrow> 's \<Rightarrow> 'e + bool) \<Rightarrow> 's coord_state \<Rightarrow> 's coord_state \<Rightarrow> bool"
  for sha fr verify where
  registered: "ensure_work_item sha fr dm c ep se mr clk (cs_ledger S) = Inr (key, L)
    \<Longrightarrow> program_step sha fr verify S (S\<lparr>cs_ledger := L\<rparr>)"
| created: "create_run canon run_id psha meta clk (cs_ledger S) = Inr L \<Longrightarrow> program_step sha fr verify S (S\<lparr>cs_ledger := L\<rparr>)"
| noted: "program_step sha fr verify S (S\<lparr>cs_ledger := record_incident severity kind detail wkey clk (cs_ledger S)\<rparr>)"
| kept: "program_step sha fr verify S
    (S\<lparr>cs_ledger := register_artifact aref kind raw stored wkey clk (cs_ledger S), cs_store := st\<rparr>)"
| coordinator: "\<lbrakk>co_sha (C :: ('s, 'e) coordinator) = sha; co_fr C = fr; run_coordinator fuel C max_items budget clk S = Some (fine, sm, S')\<rbrakk>
    \<Longrightarrow> program_step sha fr verify S S'"
| runner: "\<lbrakk>cn_sha R = sha; cn_fr R = fr; cn_verify R = verify; run_cells R m phase_id split questions S = (outs, S')\<rbrakk>
    \<Longrightarrow> program_step sha fr verify S S'"
| freeze: "\<lbrakk>cn_sha R = sha; cn_fr R = fr; cn_verify R = verify; freeze_campaign R m phase_id split d S = (res, S')\<rbrakk>
    \<Longrightarrow> program_step sha fr verify S S'"
| status: "\<lbrakk>cn_sha R = sha; cn_fr R = fr; cn_verify R = verify; status_of R m phase_id split S = (rep, S')\<rbrakk> \<Longrightarrow> program_step sha fr verify S S'"

definition start_of :: "'s coord_state \<Rightarrow> bool" where
  "start_of S \<longleftrightarrow> cs_ledger S = empty_ledger"

subsection \<open>An attempt in progress\<close>

text \<open>A ledger that continues the history that ended in \<open>L0\<close>.\<close>

definition extends :: "(string \<Rightarrow> string) \<Rightarrow> (real \<Rightarrow> string) \<Rightarrow> ledger \<Rightarrow> ledger \<Rightarrow> bool" where
  "extends sha fr L0 L \<longleftrightarrow> history sha fr L0 \<and> (ledger_step sha fr)\<^sup>*\<^sup>* L0 L"

lemma extends_refl: "history sha fr L \<Longrightarrow> extends sha fr L L"
  by (simp add: extends_def)

lemma extends_history: "extends sha fr L0 L \<Longrightarrow> history sha fr L"
  by (auto simp: extends_def intro: rtranclp_trans)

abbreviation recorded :: "(string \<Rightarrow> string) \<Rightarrow> (real \<Rightarrow> string) \<Rightarrow> ledger \<Rightarrow> 's coord_state \<Rightarrow> bool" where
  "recorded sha fr L0 S \<equiv> extends sha fr L0 (cs_ledger S)"

definition going :: "string \<Rightarrow> ledger \<Rightarrow> bool" where
  "going aid L \<longleftrightarrow> (\<forall>a \<in> set (attempts L). at_id a = aid \<longrightarrow> in_progress (at_state a))"

definition running :: "(string \<Rightarrow> string) \<Rightarrow> (real \<Rightarrow> string) \<Rightarrow> ledger \<Rightarrow> string \<Rightarrow> 's coord_state \<Rightarrow> bool" where
  "running sha fr L0 aid S \<longleftrightarrow> recorded sha fr L0 S \<and> going aid (cs_ledger S)"

lemma running_recorded: "running sha fr L0 aid S \<Longrightarrow> recorded sha fr L0 S"
  by (simp add: running_def)

lemma extends_step: "extends sha fr L0 L \<Longrightarrow> ledger_step sha fr L L' \<Longrightarrow> extends sha fr L0 L'"
  by (auto simp: extends_def)

lemma history_rows:
  assumes "extends sha fr L0 L"
  shows "extends sha fr L0 (register_artifact aref kind raw stored wkey clk L)"
    and "extends sha fr L0 (record_incident severity kind detail wkey clk L)"
proof -
  show "extends sha fr L0 (register_artifact aref kind raw stored wkey clk L)"
    by (rule extends_step [OF assms ledger_step.artifact])
  show "extends sha fr L0 (record_incident severity kind detail wkey clk L)"
    by (rule extends_step [OF assms ledger_step.incident])
qed

lemma artifact_attempts [simp]: "attempts (register_artifact aref kind raw stored wkey clk L) = attempts L"
  by (simp add: register_artifact_def)

lemma going_same: "attempts L' = attempts L \<Longrightarrow> going aid L' = going aid L"
  by (simp add: going_def)

lemma claim_going:
  assumes hist: "extends sha fr L0 L" and run: "claim sha fr key w lease r clk L = Inr (Some a, L')"
  shows "extends sha fr L0 L' \<and> going (at_id a) L'"
proof -
  have inv: "ledger_inv sha fr L" by (rule history_inv [OF extends_history [OF hist]])
  have hist': "extends sha fr L0 L'" by (rule extends_step [OF hist ledger_step.claim [OF run]])
  have a: "a \<in> set (attempts L')" "at_state a = CLAIMED"
    using claim_attempts [OF inv run] claim_items(2) [OF inv run] by (auto simp: new_attempt_def)
  have "keyed at_id (attempts L')" using history_inv [OF extends_history [OF hist']] by (simp add: ledger_inv_def)
  then have same: "b = a" if "b \<in> set (attempts L')" "at_id b = at_id a" for b
    using that a(1) by (auto simp: keyed_def distinct_map dest: inj_onD)
  have "in_progress (at_state b)" if "b \<in> set (attempts L')" "at_id b = at_id a" for b
    unfolding same [OF that] a(2) by simp
  with hist' show ?thesis by (simp add: going_def)
qed

lemma advance_going:
  assumes "going aid L" and "advance aid to reason clk L = Inr L'"
  shows "going aid L'"
proof -
  obtain b L1 where to: "to \<in> set [MATERIALIZED, VALIDATED]"
    and "require_attempt aid L = Inr b"
    and st: "set_state (at_work_key b) (at_state b) to reason (clk 0) (clk 1) L = Inr L1"
    and L': "L' = update_attempt aid (\<lambda>a. a\<lparr>at_state := to\<rparr>) L1"
    using assms(2) by (auto simp: advance_def result_elims split: if_splits)
  have "attempts L1 = attempts L" using set_state_grows [OF st] by simp
  then have L'': "attempts L' = map (\<lambda>a. if at_id a = aid then a\<lparr>at_state := to\<rparr> else a) (attempts L)"
    by (simp add: L' update_attempt_def update_rows_def)
  have go: "in_progress to" using to by (simp, elim disjE) simp_all
  show ?thesis
    unfolding going_def
  proof (intro ballI impI)
    fix a assume "a \<in> set (attempts L')" and a: "at_id a = aid"
    then obtain b where "a = (if at_id b = aid then b\<lparr>at_state := to\<rparr> else b)" unfolding L'' set_map by blast
    with a go show "in_progress (at_state a)" by (cases "at_id b = aid") simp_all
  qed
qed

lemma fail_going:
  assumes "extends sha fr L0 L" and "going aid L" and "fail aid d e reason ref clk L = Inr (st, L')"
  shows "extends sha fr L0 L'"
  by (rule extends_step [OF assms(1) ledger_step.fail [OF assms(3)]]) (use assms(2) in \<open>simp add: going_def\<close>)

subsection \<open>The runner\<close>

lemma document_recorded:
  "keeps (recorded sha fr L0) (keep_document R tag kind key v)"
  "keeps (running sha fr L0 aid) (keep_document R tag kind key v)"
proof -
  have step: "keeps I (keep_document R tag kind key v)"
    if "\<And>S st. I S \<Longrightarrow> I (S\<lparr>cs_store := st\<rparr>)"
      "\<And>S ref raw stored. I S \<Longrightarrow> I (S\<lparr>cs_ledger := register_artifact ref kind raw stored key (cn_clock R tag) (cs_ledger S)\<rparr>)" for I
  proof -
    have put: "keeps I (put_object R tag raw)" for raw
      by (rule keepsI) (auto simp: put_object_def that(1) split: prod.splits sum.splits)
    have row: "keeps I (ledger_does (\<lambda>L. Inr (register_artifact ref kind raw stored key (cn_clock R tag) L)))" for ref raw stored
      by (rule keeps_ledger_does) (auto intro: that(2))
    show ?thesis unfolding keep_document_def by (intro keeps_bind keeps_lift keeps_ret put row)
  qed
  show "keeps (recorded sha fr L0) (keep_document R tag kind key v)"
    by (rule step) (auto intro: history_rows)
  show "keeps (running sha fr L0 aid) (keep_document R tag kind key v)"
    by (rule step) (auto simp: running_def going_def intro: history_rows)
qed

lemma epoch_running:
  fixes R :: "('s, 'e) campaign_runner"
  shows "keeps (running sha fr L0 aid) (execution_epoch R k key start)"
proof -
  have one: "running sha fr L0 aid (S\<lparr>cs_ledger := L\<rparr>)"
    if "running sha fr L0 aid S" and run: "record_engine_epoch key e clk (cs_ledger S) = Inr L" for S :: "'s coord_state" and L e clk
    using that(1) extends_step [OF _ ledger_step.epoch [OF run]] record_engine_epoch_core [OF run]
    by (auto simp: running_def core_def going_same [of L "cs_ledger S"])
  have "keeps (running sha fr L0 aid) (ledger_does (record_engine_epoch key e clk) :: 's coord_state \<Rightarrow> ('e runner_error + unit) \<times> 's coord_state)"
    for e clk
    by (rule keeps_ledger_does) (rule one)
  then show ?thesis unfolding execution_epoch_def by (intro keeps_bind keeps_lift keeps_ret)
qed

lemma failing: "triple (running sha fr L0 aid) (on_ledger (fail aid d e reason ref clk)) (\<lambda>_. recorded sha fr L0) (recorded sha fr L0)"
  by (rule tripleI_both) (auto simp: on_ledger_def running_def split: sum.splits intro: fail_going)

lemma advancing: "keeps (running sha fr L0 aid) (ledger_does (advance aid to reason clk))"
  by (rule keeps_ledger_does) (auto simp: running_def intro: advance_going extends_step ledger_step.advance)

lemma committing: "keeps (recorded sha fr L0) (ledger_does (commit aid ref reason clk))"
  by (rule keeps_ledger_does) (auto intro: extends_step ledger_step.commit)

lemma settle_recorded:
  "triple (running sha fr L0 aid) (settle_raised R phase_id k c spec aid start cls msg trace pages) (\<lambda>_. recorded sha fr L0) (recorded sha fr L0)"
  "triple (running sha fr L0 aid) (settle_returned R phase_id k c spec aid start r trace pages) (\<lambda>_. recorded sha fr L0) (recorded sha fr L0)"
proof -
  note weak = triple_exc [OF _ running_recorded [of sha fr L0 aid]]
  have lift: "triple (running sha fr L0 aid) (slift x) (\<lambda>_. running sha fr L0 aid) (recorded sha fr L0)" for x
    by (rule triple_lift) (auto intro: running_recorded)
  show "triple (running sha fr L0 aid) (settle_raised R phase_id k c spec aid start cls msg trace pages) (\<lambda>_. recorded sha fr L0) (recorded sha fr L0)"
    unfolding settle_raised_def
    by (rule triple_bind [OF weak [OF epoch_running] triple_bind [OF weak [OF document_recorded(2)] triple_bind [OF failing triple_ret]]])
  have last: "triple (running sha fr L0 aid) (sbind (ledger_does (advance aid VALIDATED [] clk))
      (\<lambda>_. sbind (ledger_does (commit aid ref [] clk')) (\<lambda>_. sret y))) (\<lambda>_. recorded sha fr L0) (recorded sha fr L0)" for ref clk clk' y
    by (rule triple_bind [OF weak [OF advancing] triple_bind [OF triple_pre [OF committing running_recorded] triple_ret]])
  have lost: "triple (running sha fr L0 aid) (sbind (on_ledger (fail aid d e reason ref clk)) (\<lambda>_. sret y))
      (\<lambda>_. recorded sha fr L0) (recorded sha fr L0)" for d e reason ref clk y
    by (rule triple_bind [OF failing triple_ret])
  show "triple (running sha fr L0 aid) (settle_returned R phase_id k c spec aid start r trace pages) (\<lambda>_. recorded sha fr L0) (recorded sha fr L0)"
    unfolding settle_returned_def Let_def
    by (rule triple_bind [OF weak [OF epoch_running] triple_bind [OF lift
          triple_bind [OF weak [OF document_recorded(2)] triple_bind [OF weak [OF advancing] triple_if]]]])
      (assumption | rule lost last)+
qed

lemma work_key_recorded:
  "cn_sha R = sha \<Longrightarrow> cn_fr R = fr \<Longrightarrow> keeps (recorded sha fr L0) (work_key_for R phase_id split tag c)"
  unfolding work_key_for_def by (rule keeps_on_ledger) (auto intro: extends_step ledger_step.ensure)

lemma execute_cell_recorded:
  assumes "cn_sha R = sha" and "cn_fr R = fr"
  shows "keeps (recorded sha fr L0) (execute_cell R phase_id split k question c)"
proof (rule execute_cell_keeps [OF work_key_recorded [OF assms]], rule triple_bind)
  fix key start
  show "triple (recorded sha fr L0) (on_ledger (claim (cn_sha R) (cn_fr R) key (cn_worker R) (cn_lease R)
        (rc_run (cn_config R)) (cn_clock R [k, 8])))
      (\<lambda>won S. case won of None \<Rightarrow> recorded sha fr L0 S | Some a \<Rightarrow> running sha fr L0 (at_id a) S) (recorded sha fr L0)"
    by (rule tripleI) (auto simp: on_ledger_eq assms running_def split: option.splits
        intro: extends_step ledger_step.claim dest: claim_None claim_going)
  show "triple (\<lambda>S. case won of None \<Rightarrow> recorded sha fr L0 S | Some a \<Rightarrow> running sha fr L0 (at_id a) S)
      (case won of None \<Rightarrow> sret (bare_outcome (cell_key c) ClaimedElsewhere)
       | Some att \<Rightarrow> run_claimed R phase_id k question c key start att) (\<lambda>_. recorded sha fr L0) (recorded sha fr L0)" for won
    by (cases won) (auto intro: triple_ret
        run_claimed_triple [OF document_recorded(2) settle_recorded running_recorded])
qed

lemma run_cells_recorded:
  assumes "cn_sha R = sha" and "cn_fr R = fr"
  shows "keeps (recorded sha fr L0) (run_cells R m phase_id split questions)"
  by (intro run_cells_keeps work_key_recorded execute_cell_recorded assms)

lemma freeze_blocks_core:
  assumes "freeze_blocks sha fr cfg key_for states outputs clk m phase_id split d L = Inr (frozen, d', L')"
    and "extends sha fr' L0 L"
  shows "extends sha fr' L0 L'"
proof -
  let ?step = "freeze_block sha fr cfg key_for states outputs clk"
  have one: "extends sha fr' L0 (snd (snd s'))" if "?step b s = Inr s'" "extends sha fr' L0 (snd (snd s))" for b s s'
    using that by (auto simp: freeze_block_def Let_def result_elims split: prod.splits if_splits option.splits
        intro: history_rows)
  have "extends sha fr' L0 (snd (snd s'))" if "rfold ?step bs ([], d, L) = Inr s'" for bs s'
    by (rule rfold_invariant [where P = "\<lambda>s. extends sha fr' L0 (snd (snd s))", OF _ _ that]) (use assms(2) one in auto)
  with assms(1) show ?thesis
    by (fastforce simp: freeze_blocks_def Let_def result_elims split: if_splits)
qed

lemma freeze_recorded:
  assumes "cn_sha R = sha" and "cn_fr R = fr"
  shows "keeps (recorded sha fr L0) (freeze_campaign R m phase_id split d)"
proof -
  note key = work_key_recorded [OF assms]
  have out: "keeps (recorded sha fr L0) (terminal_output_ref R phase_id split i c st)" for i c st
    unfolding terminal_output_ref_def Let_def
    by (rule keeps_bind [OF key], rule keepsI) (auto simp: sbind_def slift_def sret_def split: sum.splits if_splits option.splits
        dest: keepsD [OF document_recorded(1)])
  have "keeps (recorded sha fr L0) (read_output R phase_id split states ic)" for states ic
    unfolding read_output_def by (cases ic) (auto split: option.splits intro!: keeps_bind out keeps_ret)
  then have outputs: "keeps (recorded sha fr L0) (smap (read_output R phase_id split states) xs)" for states xs
    by (rule triple_smap)
  have last: "keeps (recorded sha fr L0) (\<lambda>S. case freeze_blocks (cn_sha R) (cn_fr R) (cn_config R) (key_of_cell R phase_id split)
        states outs (cn_clock R [0, 12]) m phase_id split d (cs_ledger S) of
         Inl e \<Rightarrow> (Inl (FreezeRaised e), S) | Inr (frozen, d', L) \<Rightarrow> (Inr (frozen, d'), S\<lparr>cs_ledger := L\<rparr>))" for states outs
    by (rule keepsI) (auto simp: assms split: sum.splits dest: freeze_blocks_core)
  show ?thesis
    unfolding freeze_campaign_def by (intro keeps_bind keeps_lift read_cell_states_keeps key outputs last)
qed

lemma status_recorded:
  assumes "cn_sha R = sha" and "cn_fr R = fr"
  shows "keeps (recorded sha fr L0) (status_of R m phase_id split)"
proof (rule keepsI)
  fix S rep S' assume "recorded sha fr L0 S" and "status_of R m phase_id split S = (rep, S')"
  then show "recorded sha fr L0 S'"
    using read_cell_states_keeps [where I = "recorded sha fr L0", OF work_key_recorded [OF assms], of phase_id split m]
    by (auto simp: status_of_def sbind_def sret_def split: prod.splits sum.splits dest: keepsD)
qed

subsection \<open>The coordinator\<close>

lemma commit_result_recorded:
  assumes "running sha fr L0 aid S" and "commit_result C k aid ref S = (res, S')"
  shows "recorded sha fr L0 S'"
proof -
  have hist: "extends sha fr L0 (cs_ledger S)" using assms(1) by (rule running_recorded)
  show ?thesis
  proof (cases "advance aid VALIDATED [] (co_clock C k 3) (cs_ledger S)")
    case (Inl e)
    with assms(2) hist show ?thesis by (auto simp: commit_result_def)
  next
    case (Inr L1)
    have 1: "extends sha fr L0 L1" by (rule extends_step [OF hist ledger_step.advance [OF Inr]])
    show ?thesis
    proof (cases "commit aid ref [] (co_clock C k 4) L1")
      case (Inl e)
      with assms(2) Inr 1 show ?thesis by (auto simp: commit_result_def)
    next
      case fin: (Inr L2)
      from extends_step [OF 1 ledger_step.commit [OF fin]] assms(2) Inr fin show ?thesis
        by (auto simp: commit_result_def)
    qed
  qed
qed

lemma commit_result_outcome: "commit_result C k aid ref S = (res, S') \<Longrightarrow> res = Returned () \<or> res = RaisedOther"
  by (auto simp: commit_result_def split: sum.splits)

text \<open>A \<open>try\<close> body that ends in one of the two routed exceptions leaves its attempt in progress.\<close>

lemma try_body_recorded:
  assumes run: "running sha fr L0 aid S" and body: "try_body C k key item aid S = (res, S')"
  shows "recorded sha fr L0 S' \<and> ((\<exists>n m. res = RaisedRetryable n m \<or> res = RaisedFatal n m) \<longrightarrow> running sha fr L0 aid S')"
proof (cases "co_executor C k item")
  case (Returned raw)
  obtain out st where put: "co_put C k raw (cs_store S) = (out, st)" by (cases "co_put C k raw (cs_store S)")
  show ?thesis
  proof (cases out)
    case (Inl e)
    with body Returned put run show ?thesis by (auto simp: try_body_def running_def)
  next
    case (Inr ref)
    let ?L1 = "register_artifact (or_key ref) ''work_output'' (or_raw_size ref) (or_stored_size ref)
        (Some key) (co_clock C k 1) (cs_ledger S)"
    have 1: "running sha fr L0 aid (S\<lparr>cs_store := st, cs_ledger := ?L1\<rparr>)"
      using run by (simp add: running_def going_def history_rows)
    show ?thesis
    proof (cases "advance aid MATERIALIZED [] (co_clock C k 2) ?L1")
      case (Inl e)
      with body Returned put Inr 1 show ?thesis by (auto simp: try_body_def Let_def running_def)
    next
      case adv: (Inr L2)
      have 2: "running sha fr L0 aid (S\<lparr>cs_store := st, cs_ledger := L2\<rparr>)"
        using 1 extends_step [OF _ ledger_step.advance [OF adv]] advance_going [OF _ adv] by (simp add: running_def)
      have fin: "commit_result C k aid ref' (S\<lparr>cs_store := st, cs_ledger := L2\<rparr>) = (res, S') \<Longrightarrow>
          recorded sha fr L0 S' \<and> \<not> (\<exists>n m. res = RaisedRetryable n m \<or> res = RaisedFatal n m)" for ref'
        using commit_result_recorded [OF 2] commit_result_outcome by blast
      show ?thesis
        using body Returned put Inr adv 2 running_recorded [OF 2] fin
        by (cases "run_validator C k item raw") (auto simp: try_body_def Let_def)
    qed
  qed
qed (use assms in \<open>auto simp: try_body_def running_def\<close>)

lemma process_item_recorded:
  assumes C: "co_sha C = sha" "co_fr C = fr" and rec: "recorded sha fr L0 S"
    and run: "process_item C k key sm S = (fine, sm', S')"
  shows "recorded sha fr L0 S'"
proof (cases "get_work_item key (cs_ledger S)")
  case (Some item)
  show ?thesis
  proof (cases "wi_state item = PENDING")
    case pending: True
    show ?thesis
    proof (cases "claim (co_sha C) (co_fr C) key (co_worker C) (co_lease C) [] (co_clock C k 0) (cs_ledger S)")
      case (Inl e)
      with run Some pending rec show ?thesis by (simp add: process_item_def)
    next
      case (Inr won)
      obtain out L where won: "won = (out, L)" by (cases won)
      show ?thesis
      proof (cases out)
        case None
        with Inr won have "L = cs_ledger S" by (auto dest: claim_None)
        with run Some pending Inr won None rec show ?thesis by (simp add: process_item_def)
      next
        case att: (Some att)
        have held: "running sha fr L0 (at_id att) (S\<lparr>cs_ledger := L\<rparr>)"
          using claim_going [OF rec Inr [unfolded won att C]] by (simp add: running_def)
        obtain res S1 where body: "try_body C k key item (at_id att) (S\<lparr>cs_ledger := L\<rparr>) = (res, S1)"
          by (cases "try_body C k key item (at_id att) (S\<lparr>cs_ledger := L\<rparr>)")
        note ok = try_body_recorded [OF held body]
        have failed: "extends sha fr L0 L2"
          if "fail (at_id att) d n m [] c (cs_ledger S1) = Inr (st, L2)" "res = RaisedRetryable x y \<or> res = RaisedFatal x y"
          for d n m c st L2 x y
          using ok that(2) fail_going [OF _ _ that(1)] by (auto simp: running_def)
        show ?thesis
        proof (cases res)
          case (RaisedRetryable n m)
          with run Some pending Inr won att body ok failed show ?thesis
            by (auto simp: process_item_def split: sum.splits)
        next
          case (RaisedFatal n m)
          show ?thesis
          proof (cases "fail (at_id att) FAILED_FINAL n m [] (co_clock C k 5) (cs_ledger S1)")
            case (Inl e)
            with RaisedFatal run Some pending \<open>claim _ _ _ _ _ _ _ _ = _\<close> won att body ok show ?thesis
              by (auto simp: process_item_def)
          next
            case fin: (Inr out)
            obtain st L2 where out: "out = (st, L2)" by (cases out)
            have "S' = S1\<lparr>cs_ledger := record_incident ''fatal'' ''protocol_error'' m (Some key) (co_clock C k 6) L2\<rparr>"
              using RaisedFatal run Some pending Inr won att body fin out by (simp add: process_item_def)
            with history_rows(2) [OF failed [OF fin [unfolded out]]] RaisedFatal show ?thesis by simp
          qed
        qed (use run Some pending Inr won att body ok in \<open>auto simp: process_item_def\<close>)
      qed
    qed
  qed (use run Some rec in \<open>simp add: process_item_def\<close>)
qed (use run rec in \<open>simp add: process_item_def\<close>)

lemma run_loop_recorded:
  assumes C: "co_sha C = sha" "co_fr C = fr"
  shows "recorded sha fr L0 S \<Longrightarrow> run_loop fuel C max_items budget k sm S = Some (fine, sm', S') \<Longrightarrow> recorded sha fr L0 S'"
proof (induction fuel arbitrary: k sm S)
  case (Suc n)
  show ?case
  proof (cases "pending_keys 1 (cs_ledger S)")
    case (Cons key keys)
    obtain go sm1 S1 where step: "process_item C k key sm S = (go, sm1, S1)"
      by (cases "process_item C k key sm S") auto
    have "recorded sha fr L0 S1" by (rule process_item_recorded [OF C Suc.prems(1) step])
    with Suc.prems Suc.IH [of S1 "k + 1" sm1] Cons step show ?thesis
      by (auto split: if_splits bool.splits)
  qed (use Suc.prems in \<open>auto split: if_splits\<close>)
qed simp

lemma run_coordinator_recorded:
  assumes C: "co_sha C = sha" "co_fr C = fr" and rec: "recorded sha fr L0 S"
    and run: "run_coordinator fuel C max_items budget clk S = Some (fine, sm', S')"
  shows "recorded sha fr L0 S'"
proof (cases "reclaim_stale None clk (cs_ledger S)")
  case (Inr res)
  obtain ks L where res: "res = (ks, L)" by (cases res)
  have "recorded sha fr L0 (S\<lparr>cs_ledger := L\<rparr>)"
    using extends_step [OF rec ledger_step.reclaim [OF Inr [unfolded res]]] by simp
  from run_loop_recorded [OF C this] run Inr res show ?thesis
    by (simp add: run_coordinator_def resume_run_def)
qed (use run rec in \<open>simp add: run_coordinator_def resume_run_def\<close>)

subsection \<open>Program runs are histories\<close>

lemma program_step_recorded:
  assumes "program_step sha fr verify S S'" and rec: "recorded sha fr L0 S"
  shows "recorded sha fr L0 S'"
  using assms(1)
proof (cases rule: program_step.cases)
  case registered
  with extends_step [OF rec ledger_step.ensure] show ?thesis by simp
next
  case created
  with extends_step [OF rec ledger_step.run] show ?thesis by simp
next
  case noted
  with history_rows(2) [OF rec] show ?thesis by simp
next
  case kept
  with history_rows(1) [OF rec] show ?thesis by simp
next
  case coordinator
  from run_coordinator_recorded [OF this(1,2) rec this(3)] show ?thesis .
next
  case (runner R m phase_id split questions outs)
  from keepsD [OF run_cells_recorded [OF runner(1,2)] rec runner(4)] show ?thesis .
next
  case (freeze R m phase_id split d res)
  from keepsD [OF freeze_recorded [OF freeze(1,2)] rec freeze(4)] show ?thesis .
next
  case (status R m phase_id split rep)
  from keepsD [OF status_recorded [OF status(1,2)] rec status(4)] show ?thesis .
qed

lemma program_recorded:
  "(program_step sha fr verify)\<^sup>*\<^sup>* S S' \<Longrightarrow> recorded sha fr L0 S \<Longrightarrow> recorded sha fr L0 S'"
  by (induction rule: rtranclp_induct) (auto intro: program_step_recorded)

lemma program_history:
  assumes "start_of S0" and "(program_step sha fr verify)\<^sup>*\<^sup>* S0 S"
  shows "history sha fr (cs_ledger S)"
proof -
  have "recorded sha fr (cs_ledger S0) S0" using assms(1) by (simp add: start_of_def extends_def)
  from extends_history [OF program_recorded [OF assms(2) this]] show ?thesis .
qed

subsection \<open>The properties\<close>

text \<open>
  C7. Retries are bounded: in every ledger the program produces from an empty one, by any sequence (one after
  the other) of registrations, runs of the coordinator and of the campaign runner (each returning or raising) and freezes, a
  work item has at most \<open>max_retries + 1\<close> attempts; they carry the ordinals 1, 2, 3 and so on, and the
  retry count is the number of attempts that were given up for another one.
\<close>

theorem attempts_bounded:
  assumes "start_of S0" and "(program_step sha fr verify)\<^sup>*\<^sup>* S0 S" and "r \<in> set (items (cs_ledger S))"
  shows "int (length (attempts_of (wi_key r) (cs_ledger S))) \<le> max 0 (wi_max_retries r) + 1
    \<and> map at_ordinal (attempts_of (wi_key r) (cs_ledger S))
        = map int [1..<Suc (length (attempts_of (wi_key r) (cs_ledger S)))]
    \<and> wi_retry_count r = int (length (attempts_of (wi_key r) (cs_ledger S)))
        - (if wi_state r = PENDING \<or> wi_state r = BLOCKED_BUDGET then 0 else 1)"
  by (rule history_attempts_bounded [OF program_history [OF assms(1,2)] assms(3)])

text \<open>
  C8. The audit trail is complete: in every ledger the program produces from an empty one, the transition log of
  an item is a path of the documented state machine that starts at PENDING and ends in the state the item is in:
  every recorded move is an arrow of the diagram and none is missing.
\<close>

theorem audit_trail_complete:
  assumes "start_of S0" and "(program_step sha fr verify)\<^sup>*\<^sup>* S0 S" and "r \<in> set (items (cs_ledger S))"
  shows "trail PENDING (transitions_of (wi_key r) (cs_ledger S)) (wi_state r)"
  by (rule history_trail [OF program_history [OF assms(1,2)] assms(3)])

text \<open>
  C9. Terminal states absorb: once the program has brought an item to COMMITTED, FAILED_FINAL, FAILED_UNKNOWN or
  BLOCKED_BUDGET, no further sequence of registrations, runs and freezes, whatever they raise, changes that
  state or the result reference of a committed item.
\<close>

theorem terminal_states_absorb:
  assumes "start_of S0" and "(program_step sha fr verify)\<^sup>*\<^sup>* S0 S" and "(program_step sha fr verify)\<^sup>*\<^sup>* S S'"
    and "r \<in> set (items (cs_ledger S))" and "wi_state r \<in> set terminal_states"
  shows "(\<exists>r' \<in> set (items (cs_ledger S')). wi_key r' = wi_key r \<and> wi_state r' = wi_state r)
    \<and> (wi_state r = COMMITTED \<longrightarrow> committed_ref (wi_key r) (cs_ledger S') = committed_ref (wi_key r) (cs_ledger S))"
proof -
  have hist: "history sha fr (cs_ledger S)" by (rule program_history [OF assms(1,2)])
  have "(ledger_step sha fr)\<^sup>*\<^sup>* (cs_ledger S) (cs_ledger S')"
    using program_recorded [OF assms(3) extends_refl [OF hist]] by (simp add: extends_def)
  from history_terminal [OF hist this assms(4,5)] show ?thesis .
qed

subsection \<open>A concrete run\<close>

definition first_run :: "files coord_state" where
  "first_run = snd (run_cells (disk_runner (\<lambda>_. [])) example_manifest ''ph'' ''dev'' [(''t'', ''why?'')]
     \<lparr>cs_ledger = empty_ledger, cs_store = []\<rparr>)"

definition second_run :: "files coord_state" where
  "second_run = snd (run_cells (disk_runner (\<lambda>_. [])) example_manifest ''ph'' ''dev'' [(''t'', ''why?'')] first_run)"

lemma disk_step:
  "program_step (\<lambda>_. []) (\<lambda>_. ''0'') (verify_object toy_sha Some) S
     (snd (run_cells (disk_runner (\<lambda>_. [])) example_manifest ''ph'' ''dev'' qs S))"
  by (rule program_step.runner [where R = "disk_runner (\<lambda>_. [])" and outs = "fst (run_cells (disk_runner (\<lambda>_. [])) example_manifest ''ph'' ''dev'' qs S)"])
     (simp_all add: disk_runner_def example_runner_def)

lemma first_run_reached:
  "(program_step (\<lambda>_. []) (\<lambda>_. ''0'') (verify_object toy_sha Some))\<^sup>*\<^sup>* \<lparr>cs_ledger = empty_ledger, cs_store = []\<rparr> first_run"
  unfolding first_run_def by (rule r_into_rtranclp) (rule disk_step)

lemma second_run_reached: "(program_step (\<lambda>_. []) (\<lambda>_. ''0'') (verify_object toy_sha Some))\<^sup>*\<^sup>* first_run second_run"
  unfolding second_run_def by (rule r_into_rtranclp) (rule disk_step)

lemma start_empty: "start_of \<lparr>cs_ledger = empty_ledger, cs_store = st\<rparr>"
  by (simp add: start_of_def)

lemma first_run_item:
  "list_ex (\<lambda>r. wi_key r = [] \<and> wi_state r = COMMITTED \<and> wi_max_retries r = 3) (items (cs_ledger first_run))"
  by code_simp

theorem attempts_bounded_witness: "int (length (attempts_of [] (cs_ledger first_run))) \<le> 4"
  using attempts_bounded [OF start_empty first_run_reached] first_run_item by (fastforce simp: list_ex_iff)

theorem audit_trail_complete_witness: "trail PENDING (transitions_of [] (cs_ledger first_run)) COMMITTED"
  using audit_trail_complete [OF start_empty first_run_reached] first_run_item by (fastforce simp: list_ex_iff)

theorem terminal_states_absorb_witness:
  "committed_ref [] (cs_ledger second_run) = committed_ref [] (cs_ledger first_run)"
proof -
  obtain r where r: "r \<in> set (items (cs_ledger first_run))" "wi_key r = []" "wi_state r = COMMITTED"
    using first_run_item by (auto simp: list_ex_iff)
  from terminal_states_absorb [OF start_empty first_run_reached second_run_reached r(1)] r(2,3) show ?thesis
    by (simp add: terminal_states_def)
qed

end
