(* ===== verification/Spec2Isabelle.thy ===== *)
theory Spec2Isabelle
  imports Prelude Canonical Hashing Offer Broker Policy SimHost Ledger LedgerInv LedgerProps Phases Budget
    HandleCodec ObjectStore Purse ExternalCalls ExternalInv ExternalProps CoordinatorProps
    SpanIdentity Contracts ContractsProps Aggregators AtomicUnits AggregatorsProps Lineage Renderer View ViewProps BridgeText PreflightProps Publication BlockDesign FreezeRootProps LanesCompose PromptPack Promotion
    Events Runner RunnerProps Program
begin

text \<open>
  A verification library for shapeflow, a study harness that runs a paired experiment on a research agent: a
  treatment replaces the prose an agent would write at two boundaries by pointers to frozen evidence. All paths
  below are under \<^verbatim>\<open>src/src/shapeflow\<close>.

  \<^bold>\<open>How the program works.\<close> A campaign is planned from a binding digest (\<^verbatim>\<open>campaign/schedule.py\<close>): tasks become
  blocks, blocks hold one cell per arm, the order of arms follows Williams squares. Tasks are partitioned over
  lanes (\<^verbatim>\<open>campaign/sharding.py\<close>). Cells become work items of a run ledger (\<^verbatim>\<open>experiment/ledger.py\<close>) which the
  campaign runner (\<^verbatim>\<open>campaign/runner.py\<close>) takes cell by cell through the graph and the ledger;
  the coordinator (\<^verbatim>\<open>experiment/coordinator.py\<close>) is a general loop over the same ledger. Both store outputs in a
  content-addressed object store. While a cell runs, each boundary builds a candidate view from frozen storage (\<^verbatim>\<open>p1/view.py\<close>), a selector answers over it
  (\<^verbatim>\<open>p1/contracts.py\<close>), an aggregator orders and budgets the selection (\<^verbatim>\<open>p1/aggregators.py\<close>), and a gate
  (\<^verbatim>\<open>p1/preflight.py\<close>) renders it (\<^verbatim>\<open>p1/renderer.py\<close>) or keeps the prose. A broker decides, tick by tick, which form
  and which admission each offered piece of work gets (\<^verbatim>\<open>broker\<close>). Paid calls go through the external-call ledger
  and the budget. When all cells of a block ended, its record is sealed, and the campaign gets one root; roots
  of lanes are merged. Phases (\<^verbatim>\<open>experiment/state_machine.py\<close>, \<^verbatim>\<open>campaign/phases.py\<close>) gate all of this.

  \<^bold>\<open>Theories and the code they model.\<close>
  \<^item> \<open>Prelude\<close>: results with errors as values, SQL tables as lists of rows, dicts as association lists, decimal text.
  \<^item> \<open>Canonical\<close> (\<^verbatim>\<open>canonical.py\<close>), \<open>Hashing\<close> (\<^verbatim>\<open>hashing.py\<close>): canonical JSON and the identities over it.
  \<^item> \<open>Offer\<close> (\<^verbatim>\<open>contracts/offer.py\<close>, \<^verbatim>\<open>contracts/observability.py\<close>, \<^verbatim>\<open>runtime/request_tags.py\<close>), \<open>Broker\<close>
    (\<^verbatim>\<open>broker/driver.py\<close>, \<^verbatim>\<open>broker/host.py\<close>), \<open>Policy\<close> (\<^verbatim>\<open>broker/reference.py\<close>), \<open>SimHost\<close>
    (\<^verbatim>\<open>broker/hosts/simulated.py\<close>): one scheduler tick, the joint greedy policy, and the host without an engine. The
    two Python protocols are the locales \<open>broker_host\<close> and \<open>broker_policy\<close>.
  \<^item> \<open>Ledger\<close>, \<open>LedgerInv\<close>, \<open>LedgerProps\<close> (\<^verbatim>\<open>experiment/ledger.py\<close>); \<open>Coordinator\<close>, \<open>CoordinatorProps\<close>
    (\<^verbatim>\<open>experiment/coordinator.py\<close>); \<open>ObjectStore\<close> (\<^verbatim>\<open>object_store.py\<close>, \<^verbatim>\<open>fsmode.py\<close>, with the locale \<open>blob_store\<close>).
  \<^item> \<open>Phases\<close> (\<^verbatim>\<open>experiment/state_machine.py\<close>, \<^verbatim>\<open>campaign/phases.py\<close>).
  \<^item> \<open>Budget\<close> (\<^verbatim>\<open>experiment/budget.py\<close>); \<open>Purse\<close>, the part of it that paid calls rely on, as the locale
    \<open>call_purse\<close>; \<open>ExternalCalls\<close>, \<open>ExternalInv\<close>, \<open>ExternalProps\<close> (\<^verbatim>\<open>providers/external_call_ledger.py\<close> and the
    restart reconciliation of \<^verbatim>\<open>runtime/provider_server.py\<close>).
  \<^item> \<open>SpanIdentity\<close>, \<open>Lineage\<close> (\<^verbatim>\<open>evidence/identity.py\<close>, \<^verbatim>\<open>evidence/lineage.py\<close>); \<open>HandleCodec\<close>
    (\<^verbatim>\<open>p1/handle_codec.py\<close>); \<open>View\<close>, \<open>ViewProps\<close> (\<^verbatim>\<open>p1/view.py\<close>); \<open>Prompts\<close> (\<^verbatim>\<open>p1/prompts.py\<close>); \<open>PromptPack\<close>
    (\<^verbatim>\<open>p1/prompt_pack.py\<close>); \<open>Contracts\<close>, \<open>ContractsProps\<close> (\<^verbatim>\<open>p1/contracts.py\<close>); \<open>Aggregators\<close>, \<open>AtomicUnits\<close>,
    \<open>AggregatorsProps\<close> (\<^verbatim>\<open>p1/aggregators.py\<close>); \<open>Renderer\<close> (\<^verbatim>\<open>p1/renderer.py\<close>); \<open>BridgeText\<close>, \<open>Preflight\<close>,
    \<open>PreflightProps\<close> (\<^verbatim>\<open>p1/preflight.py\<close>); \<open>Publication\<close>: packing and the gate composed.
  \<^item> \<open>Randomization\<close>, \<open>BlockDesign\<close>, \<open>Promotion\<close> (\<^verbatim>\<open>experiment/randomization.py\<close>, \<^verbatim>\<open>experiment/block_design.py\<close>,
    \<^verbatim>\<open>experiment/promotion.py\<close>); \<open>Schedule\<close>, \<open>ScheduleProps\<close>, \<open>FreezeRoot\<close>, \<open>FreezeRootProps\<close>
    (\<^verbatim>\<open>campaign/schedule.py\<close>, and \<open>freeze_blocks\<close> of \<^verbatim>\<open>campaign/runner.py\<close>); \<open>Sharding\<close>, \<open>LaneLoads\<close>,
    \<open>ShardingProps\<close>, \<open>ShardMerge\<close>, \<open>LanesCompose\<close> (\<^verbatim>\<open>campaign/sharding.py\<close>).
  \<^item> \<open>Events\<close> (the cell identity and the counts of the event log of \<^verbatim>\<open>campaign/graph_driver.py\<close>), \<open>Runner\<close>,
    \<open>RunnerProps\<close> (\<open>CampaignRunner\<close> of \<^verbatim>\<open>campaign/runner.py\<close>: registration, execution of a cell, the engine
    epoch, the run over a lane, status and freeze); \<open>Program\<close>: the ledger under any sequence of registrations,
    coordinator runs, campaign runs and freezes.

  \<^bold>\<open>Conventions.\<close> A raise is a value of a sum type, and a transaction that raises leaves its tables as they were. A
  SQL table is the list of its rows; a dict is the association list of its entries in insertion order, with
  distinct keys; a class is a record. Python integers are \<open>int\<close>, floats are real numbers, text is a list of
  characters (of Unicode scalar values where widths matter). SHA-256, \<open>repr\<close> of a float, the clock, the tokenizer,
  numpy, zstandard, jsonschema and the research graph are parameters; what is assumed of them (a digest has 32 bytes, is
  collision-free where identity is concerned) is a hypothesis of the theorems that need it.

  \<^bold>\<open>What the lemmas show.\<close>
  \<^item> Encodings: canonical JSON is injective, identities are domain separated (for floats, over any set on which
    \<open>repr\<close> is injective and writes numbers), publication handles and blobs make round trips.
  \<^item> Ledgers: invariants by induction over step relations (\<open>ledger_step\<close>, the histories of the external calls, of
    the budget and of the phases): one live attempt, exclusive claims, books that balance, exact admission, no
    phase before its gates, an external-call ledger that refines what its code does to a purchase. A step of
    a history keeps to what the callers in the repository do: \<open>ledger_step\<close> calls \<open>fail\<close> for attempts in
    progress only, the external calls use the handles and reservations they were given, no call names a resource
    twice. For \<open>fail\<close>, which does not check this itself, \<open>Program\<close> proves that the coordinator and the runner
    keep to it whatever raises, and shows bounded retries, the audit trail and absorbing terminal states of
    every ledger that runs of the program, one after the other, leave behind.
  \<^item> Loops: the coordinator drains the ledger, the runner ends every pending cell of its lane when its
    surroundings answer, the tick returns and carries out what it reports, the packer and the union-find end.
  \<^item> The runner, by Hoare triples over its operations with a condition for states in which they raise: no cell is
    committed without a blob that verifies, a cell once begun is never run again, the freeze needs every epoch.
  \<^item> Publication: what the gate lets through is the view's own rendering, within budget, over offered and
    reconstructing spans, as selected; contradictions are kept or dropped whole; a parsed selection has an exact
    record of what was dropped; the order of a model's lines is irrelevant.
  \<^item> Campaign: Williams squares are balanced, every input plans, a sealed root is complete, the partition over the
    lanes is within four thirds of the best one, and merged lanes are exactly the registered campaign.

  \<^bold>\<open>Fuel and bounds.\<close> \<open>run_loop\<close> of the coordinator takes fuel, and \<open>coordinator_drains\<close> gives an amount after
  which more changes nothing (a potential: the retries left plus the items waiting). \<open>run_cells\<close> has no fuel: its
  loop is over the cells of the lane. The union-find's \<open>find_loop\<close>
  has as many steps as there are nodes, which \<open>AtomicUnits\<close> shows to be enough; the exchange of \<open>BlockDesign\<close> runs
  at most the \<open>max_iter\<close> rounds of the code; \<open>utf8_ok\<close> has one step for every byte. All other loops are total by
  structural recursion or by a measure given with their \<open>termination\<close> proof.

  \<^bold>\<open>Not modelled.\<close> The adapter over the vendored research graph (\<^verbatim>\<open>odr\<close>) and the asynchronous strategies over it
  (\<^verbatim>\<open>strategies\<close>): they rewrite message objects of a program outside the repository. Retrieval and its numeric
  kernels (\<^verbatim>\<open>retrieval\<close>), the HTTP services and device sampling (\<^verbatim>\<open>runtime\<close>, \<^verbatim>\<open>providers/provider_client.py\<close>),
  process orchestration and configuration (\<^verbatim>\<open>campaign/canary.py\<close>, the call of the graph in
  \<^verbatim>\<open>campaign/graph_driver.py\<close>, \<^verbatim>\<open>cli.py\<close>,
  \<^verbatim>\<open>doctor.py\<close>, \<^verbatim>\<open>ops\<close>) and the evaluator's statistics (\<^verbatim>\<open>bench\<close>). Of the ledger and the phase store the migrations
  of older databases are left out. The decisions that this code takes over the ledgers, the schedule and the
  publication path are the components above.
\<close>

end
